(* ===== verification/Ketchup_Prelude.thy ===== *)
theory Ketchup_Prelude
  imports
    Main
    "HOL-Library.Word"
    "HOL-Library.Char_ord"
    "HOL-Library.List_Lexorder"
    "HOL-Library.Product_Lexorder"
begin

text \<open>
  Shared vocabulary of the development.

  \<^item> Rust's \<^verbatim>\<open>Result\<close> is a sum, \<open>Inl\<close> the error and \<open>Inr\<close> the value; \<open>and_then\<close> is the
    question-mark operator, \<open>guard\<close> an early return, \<open>try_each\<close> and \<open>try_fold\<close> the loops
    that return early.
  \<^item> Rust's \<^verbatim>\<open>BTreeMap\<close> is an association list with strictly increasing keys
    (\<open>bt_wf\<close>), since the code observes the iteration order; \<open>BTreeSet\<close> is a strictly
    increasing list.  The locale \<open>ordered_map\<close> is the contract the components use.
  \<^item> \<^verbatim>\<open>u8\<close>, \<^verbatim>\<open>u32\<close>, \<^verbatim>\<open>u64\<close> are words of their width.  A \<^verbatim>\<open>usize\<close> that only counts
    the elements of a collection in memory is a \<open>nat\<close>.
  \<^item> A Rust string is a \<open>string\<close> whose characters are the bytes of its UTF-8 encoding, so
    \<open>length\<close> is Rust's \<^verbatim>\<open>len()\<close> and list order is Rust's order on strings.
\<close>

named_theorems result_simps
named_theorems bt_simps
named_theorems codec_simps

type_synonym u8 = "8 word"
type_synonym u16 = "16 word"
type_synonym u32 = "32 word"
type_synonym u64 = "64 word"
type_synonym bytes = "8 word list"
type_synonym str = string
type_synonym ('k, 'v) btree_map = "('k \<times> 'v) list"

section \<open>Results\<close>

abbreviation Ok :: "'a \<Rightarrow> 'e + 'a" where "Ok \<equiv> Inr"

abbreviation Err :: "'e \<Rightarrow> 'e + 'a" where "Err \<equiv> Inl"

definition and_then :: "'e + 'a \<Rightarrow> ('a \<Rightarrow> 'e + 'b) \<Rightarrow> 'e + 'b" where
  "and_then r f = (case r of Inl e \<Rightarrow> Inl e | Inr x \<Rightarrow> f x)"

definition guard :: "bool \<Rightarrow> 'e \<Rightarrow> 'e + unit" where
  "guard b e = (if b then Ok () else Err e)"

definition ok_or :: "'a option \<Rightarrow> 'e \<Rightarrow> 'e + 'a" where
  "ok_or o1 e = (case o1 of None \<Rightarrow> Err e | Some x \<Rightarrow> Ok x)"

definition map_err :: "('e \<Rightarrow> 'f) \<Rightarrow> 'e + 'a \<Rightarrow> 'f + 'a" where
  "map_err f r = (case r of Inl e \<Rightarrow> Err (f e) | Inr x \<Rightarrow> Ok x)"

fun try_fold :: "('s \<Rightarrow> 'x \<Rightarrow> 'e + 's) \<Rightarrow> 's \<Rightarrow> 'x list \<Rightarrow> 'e + 's" where
  "try_fold f s [] = Ok s"
| "try_fold f s (x # xs) = and_then (f s x) (\<lambda>s'. try_fold f s' xs)"

definition try_each :: "('x \<Rightarrow> 'e + unit) \<Rightarrow> 'x list \<Rightarrow> 'e + unit" where
  "try_each f xs = try_fold (\<lambda>_ x. f x) () xs"

fun try_map :: "('x \<Rightarrow> 'e + 'y) \<Rightarrow> 'x list \<Rightarrow> 'e + 'y list" where
  "try_map f [] = Ok []"
| "try_map f (x # xs) = and_then (f x) (\<lambda>y. and_then (try_map f xs) (\<lambda>ys. Ok (y # ys)))"

definition is_ok :: "'e + 'a \<Rightarrow> bool" where
  "is_ok r = (case r of Inl _ \<Rightarrow> False | Inr _ \<Rightarrow> True)"

text \<open>A function that may also panic: \<open>Returned e\<close> is an \<^verbatim>\<open>Err(e)\<close> it returns.\<close>

datatype 'e fault = Returned 'e | Panicked

lemma and_then_simps [simp]:
  "and_then (Inl e) f = Inl e"
  "and_then (Inr x) f = f x"
  by (simp_all add: and_then_def)

lemma and_then_cong [fundef_cong]:
  "r = r' \<Longrightarrow> (\<And>x. r' = Inr x \<Longrightarrow> f x = g x) \<Longrightarrow> and_then r f = and_then r' g"
  by (auto simp: and_then_def split: sum.splits)

text \<open>As a congruence rule: do not look into the continuation before the first result is known.\<close>

lemma and_then_weak_cong: "r = r' \<Longrightarrow> and_then r f = and_then r' f"
  by simp

lemma and_then_eq_Inr [result_simps]:
  "and_then r f = Inr y \<longleftrightarrow> (\<exists>x. r = Inr x \<and> f x = Inr y)"
  by (auto simp: and_then_def split: sum.splits)

lemma and_then_eq_Inl [result_simps]:
  "and_then r f = Inl e \<longleftrightarrow> r = Inl e \<or> (\<exists>x. r = Inr x \<and> f x = Inl e)"
  by (auto simp: and_then_def split: sum.splits)

lemma guard_eq [result_simps]:
  "guard b e = Inr u \<longleftrightarrow> b"
  "guard b e = Inl e' \<longleftrightarrow> \<not> b \<and> e' = e"
  by (auto simp: guard_def)

lemma guard_simps [simp]:
  "guard True e = Inr ()"
  "guard False e = Inl e"
  by (simp_all add: guard_def)

lemma and_then_guard:
  "and_then (guard b e) f = (if b then f () else Inl e)"
  by (simp add: guard_def)

lemma ok_or_eq [result_simps]:
  "ok_or x e = Inr y \<longleftrightarrow> x = Some y"
  "ok_or x e = Inl e' \<longleftrightarrow> x = None \<and> e' = e"
  by (auto simp: ok_or_def split: option.splits)

lemma ok_or_simps [simp]:
  "ok_or None e = Inl e"
  "ok_or (Some y) e = Inr y"
  by (simp_all add: ok_or_def)

lemma map_err_simps [simp]:
  "map_err f (Inl e) = Inl (f e)"
  "map_err f (Inr x) = Inr x"
  by (simp_all add: map_err_def)

lemma map_err_eq_Inr [result_simps]: "map_err f r = Inr x \<longleftrightarrow> r = Inr x"
  by (cases r) auto

lemma is_ok_simps [simp]:
  "is_ok (Inl e) = False"
  "is_ok (Inr x) = True"
  by (simp_all add: is_ok_def)

lemma is_ok_iff: "is_ok r \<longleftrightarrow> (\<exists>x. r = Inr x)"
  by (cases r) auto

lemma try_each_simps [simp]:
  "try_each f [] = Ok ()"
  "try_each f (x # xs) = and_then (f x) (\<lambda>_. try_each f xs)"
  by (simp_all add: try_each_def)

lemma try_each_Inr: "try_each f xs = Inr u \<longleftrightarrow> (\<forall>x\<in>set xs. f x = Inr ())"
  by (induction xs) (auto simp: result_simps)

lemma try_each_Inl:
  "try_each f xs = Inl e \<Longrightarrow> \<exists>x\<in>set xs. f x = Inl e"
  by (induction xs) (auto simp: result_simps)

lemma try_map_Inr:
  "try_map f xs = Inr ys \<longleftrightarrow> list_all2 (\<lambda>x y. f x = Inr y) xs ys"
  by (induction xs arbitrary: ys) (auto simp: result_simps list_all2_Cons1)

lemma try_fold_append:
  "try_fold f s (xs @ ys) = and_then (try_fold f s xs) (\<lambda>s'. try_fold f s' ys)"
  by (induction xs arbitrary: s) (auto simp: and_then_def split: sum.splits)

lemma try_fold_invariant:
  assumes "try_fold f s xs = Inr t" and "P s"
    and "\<And>s x s'. P s \<Longrightarrow> x \<in> set xs \<Longrightarrow> f s x = Inr s' \<Longrightarrow> P s'"
  shows "P t"
  using assms
proof (induction xs arbitrary: s)
  case Nil
  then show ?case by simp
next
  case (Cons x xs)
  from Cons.prems(1) obtain s' where s': "f s x = Inr s'" and t: "try_fold f s' xs = Inr t"
    by (auto simp: result_simps)
  have "P s'" by (rule Cons.prems(3) [OF Cons.prems(2) _ s']) simp
  then show ?case
    by (rule Cons.IH [OF t]) (erule Cons.prems(3), auto)
qed

section \<open>Ordered maps and sets\<close>

definition bt_wf :: "('k::linorder, 'v) btree_map \<Rightarrow> bool" where
  "bt_wf m = sorted_wrt (<) (map fst m)"

definition bt_get :: "('k::linorder, 'v) btree_map \<Rightarrow> 'k \<Rightarrow> 'v option" where
  "bt_get m k = map_of m k"

definition bt_contains :: "('k::linorder, 'v) btree_map \<Rightarrow> 'k \<Rightarrow> bool" where
  "bt_contains m k = (bt_get m k \<noteq> None)"

fun bt_insert :: "'k::linorder \<Rightarrow> 'v \<Rightarrow> ('k, 'v) btree_map \<Rightarrow> ('k, 'v) btree_map" where
  "bt_insert k v [] = [(k, v)]"
| "bt_insert k v ((k', v') # m) =
     (if k < k' then (k, v) # (k', v') # m
      else if k = k' then (k, v) # m
      else (k', v') # bt_insert k v m)"

text \<open>\<open>bt_update\<close> writes through \<^verbatim>\<open>get_mut\<close>: the value of a key that is there.\<close>

fun bt_update :: "'k::linorder \<Rightarrow> 'v \<Rightarrow> ('k, 'v) btree_map \<Rightarrow> ('k, 'v) btree_map" where
  "bt_update k v [] = []"
| "bt_update k v ((k', v') # m) = (if k = k' then (k, v) # m else (k', v') # bt_update k v m)"

definition bt_remove :: "'k::linorder \<Rightarrow> ('k, 'v) btree_map \<Rightarrow> ('k, 'v) btree_map" where
  "bt_remove k m = filter (\<lambda>p. fst p \<noteq> k) m"

definition bt_keys :: "('k::linorder, 'v) btree_map \<Rightarrow> 'k list" where
  "bt_keys m = map fst m"

definition bt_values :: "('k::linorder, 'v) btree_map \<Rightarrow> 'v list" where
  "bt_values m = map snd m"

fun bs_insert :: "'a::linorder \<Rightarrow> 'a list \<Rightarrow> 'a list" where
  "bs_insert x [] = [x]"
| "bs_insert x (y # ys) = (if x < y then x # y # ys else if x = y then y # ys else y # bs_insert x ys)"

definition bs_of_list :: "'a::linorder list \<Rightarrow> 'a list" where
  "bs_of_list xs = fold bs_insert xs []"

abbreviation bs_wf :: "'a::linorder list \<Rightarrow> bool" where
  "bs_wf \<equiv> sorted_wrt (<)"

text \<open>
  The contract of an ordered map: lookups after updates, the keys, and the order of the
  entries a loop sees.
\<close>

locale ordered_map =
  fixes get :: "'m \<Rightarrow> 'k::linorder \<Rightarrow> 'v option"
    and ins :: "'k \<Rightarrow> 'v \<Rightarrow> 'm \<Rightarrow> 'm"
    and del :: "'k \<Rightarrow> 'm \<Rightarrow> 'm"
    and entries :: "'m \<Rightarrow> ('k \<times> 'v) list"
    and wf :: "'m \<Rightarrow> bool"
  assumes get_entries: "get m k = map_of (entries m) k"
    and entries_sorted: "wf m \<Longrightarrow> sorted_wrt (<) (map fst (entries m))"
    and get_ins: "get (ins k v m) k' = (if k' = k then Some v else get m k')"
    and get_del: "get (del k m) k' = (if k' = k then None else get m k')"
    and wf_ins: "wf m \<Longrightarrow> wf (ins k v m)"
    and wf_del: "wf m \<Longrightarrow> wf (del k m)"
begin

lemma keys_distinct: "wf m \<Longrightarrow> distinct (map fst (entries m))"
  using entries_sorted [of m] strict_sorted_iff by blast

lemma get_Some_iff: "wf m \<Longrightarrow> get m k = Some v \<longleftrightarrow> (k, v) \<in> set (entries m)"
  using keys_distinct [of m] by (simp add: get_entries)

lemma get_None_iff: "get m k = None \<longleftrightarrow> k \<notin> fst ` set (entries m)"
  by (simp add: get_entries map_of_eq_None_iff)

lemma ins_ins: "get (ins k v (ins k w m)) = get (ins k v m)"
  by (rule ext) (simp add: get_ins)

lemma entries_unique:
  assumes "wf m" and "wf n" and "\<And>k. get m k = get n k"
  shows "entries m = entries n"
proof -
  have eq: "map_of (entries m) = map_of (entries n)"
    using assms(3) by (intro ext) (simp add: get_entries)
  have set_eq: "set (entries m) = set (entries n)"
    using map_of_inject_set [of "entries m" "entries n"] keys_distinct assms(1,2) eq by blast
  have m: "sorted (map fst (entries m))" "distinct (map fst (entries m))"
    using entries_sorted [OF assms(1)] by (auto simp: strict_sorted_iff)
  have n: "sorted (map fst (entries n))" "distinct (map fst (entries n))"
    using entries_sorted [OF assms(2)] by (auto simp: strict_sorted_iff)
  have "inj_on fst (set (entries m) \<union> set (entries n))"
    using m(2) set_eq by (simp add: distinct_map)
  then show ?thesis
    using map_sorted_distinct_set_unique m n set_eq by blast
qed

end

lemma bt_get_Nil [simp]: "bt_get [] k = None"
  by (simp add: bt_get_def)

lemma bt_get_Cons [simp]:
  "bt_get ((k, v) # m) k' = (if k' = k then Some v else bt_get m k')"
  by (simp add: bt_get_def)

lemma bt_get_insert [simp]:
  "bt_get (bt_insert k v m) k' = (if k' = k then Some v else bt_get m k')"
  by (induction k v m rule: bt_insert.induct) auto

lemma bt_get_remove [simp]:
  "bt_get (bt_remove k m) k' = (if k' = k then None else bt_get m k')"
  by (induction m) (auto simp: bt_remove_def)

lemma set_bt_insert: "set (bt_insert k v m) \<subseteq> insert (k, v) (set m)"
  by (induction k v m rule: bt_insert.induct) auto

lemma bt_keys_insert_set: "fst ` set (bt_insert k v m) = insert k (fst ` set m)"
  by (induction k v m rule: bt_insert.induct) auto

lemma bt_wf_Nil [simp]: "bt_wf []"
  by (simp add: bt_wf_def)

lemma bt_wf_Cons [simp]:
  "bt_wf ((k, v) # m) \<longleftrightarrow> (\<forall>k'\<in>fst ` set m. k < k') \<and> bt_wf m"
  by (simp add: bt_wf_def)

lemma bt_wf_insert [simp]: "bt_wf m \<Longrightarrow> bt_wf (bt_insert k v m)"
  by (induction k v m rule: bt_insert.induct) (auto simp: bt_keys_insert_set)

lemma bt_wf_remove [simp]: "bt_wf m \<Longrightarrow> bt_wf (bt_remove k m)"
  by (induction m) (auto simp: bt_remove_def)

lemma bt_get_update [simp]:
  "bt_get (bt_update k v m) k' = (if k' = k \<and> bt_get m k \<noteq> None then Some v else bt_get m k')"
  by (induction k v m rule: bt_update.induct) auto

lemma bt_keys_update [simp]: "map fst (bt_update k v m) = map fst m"
  by (induction k v m rule: bt_update.induct) auto

lemma bt_wf_update [simp]: "bt_wf (bt_update k v m) = bt_wf m"
  by (simp add: bt_wf_def)

interpretation bt: ordered_map bt_get bt_insert bt_remove "\<lambda>m. m" bt_wf
  by unfold_locales (auto simp: bt_get_def [symmetric], simp_all add: bt_get_def bt_wf_def)

lemma bt_contains_iff [bt_simps]: "bt_contains m k \<longleftrightarrow> k \<in> set (bt_keys m)"
  by (simp add: bt_contains_def bt_keys_def bt_get_def map_of_eq_None_iff)

lemma bt_get_None_keys: "bt_get m k = None \<longleftrightarrow> k \<notin> set (bt_keys m)"
  by (simp add: bt_keys_def bt_get_def map_of_eq_None_iff)

lemma bt_get_Some_keys: "bt_get m k = Some v \<Longrightarrow> k \<in> set (bt_keys m)"
  using bt_get_None_keys [of m k] by auto

lemma bt_keys_wf: "bt_wf m \<Longrightarrow> bs_wf (bt_keys m)"
  by (simp add: bt_wf_def bt_keys_def)

lemma bt_wf_filter: "bt_wf m \<Longrightarrow> bt_wf (filter P m)"
  by (simp add: bt_wf_def sorted_wrt_map sorted_wrt_filter)

lemma bt_get_filter:
  "bt_wf m \<Longrightarrow> bt_get (filter P m) k = (case bt_get m k of None \<Rightarrow> None | Some v \<Rightarrow> if P (k, v) then Some v else None)"
proof (induction m)
  case Nil
  then show ?case by simp
next
  case (Cons e m)
  obtain k' v' where e: "e = (k', v')" by (cases e)
  with Cons.prems have "k' \<notin> fst ` set m" and wf: "bt_wf m" by auto
  then have "bt_get m k' = None" by (simp add: bt_get_def map_of_eq_None_iff)
  with e Cons.IH [OF wf] show ?case by auto
qed

lemma set_bs_insert [simp]: "set (bs_insert x xs) = insert x (set xs)"
  by (induction x xs rule: bs_insert.induct) auto

lemma bs_wf_insert [simp]: "bs_wf xs \<Longrightarrow> bs_wf (bs_insert x xs)"
  by (induction x xs rule: bs_insert.induct) auto

lemma bs_fold_insert:
  "set (fold bs_insert xs acc) = set acc \<union> set xs \<and> (bs_wf acc \<longrightarrow> bs_wf (fold bs_insert xs acc))"
  by (induction xs arbitrary: acc) auto

lemma set_bs_of_list [simp]: "set (bs_of_list xs) = set xs"
  using bs_fold_insert [of xs "[]"] by (simp add: bs_of_list_def)

lemma bs_wf_of_list [simp]: "bs_wf (bs_of_list xs)"
  using bs_fold_insert [of xs "[]"] by (simp add: bs_of_list_def)

lemma bs_wf_unique: "bs_wf xs \<Longrightarrow> bs_wf ys \<Longrightarrow> set xs = set ys \<Longrightarrow> xs = ys"
  by (simp add: strict_sorted_equal)

end
