(* ===== verification/Ketchup_Rust.thy ===== *)
theory Ketchup_Rust
  imports Ketchup_Prelude
begin

text \<open>
  The part of Rust's language and standard library the modelled code computes with:
  text (UTF-8 validity, \<^verbatim>\<open>trim\<close>, \<^verbatim>\<open>char::is_control\<close>, \<^verbatim>\<open>split\<close>, decimal integers),
  little-endian bytes, checked and saturating integer operations, and \<^verbatim>\<open>f64\<close> as its IEEE 754
  bit pattern with correctly rounded arithmetic and parsing.  A value of type \<open>f64\<close> is the
  64-bit pattern, so \<^verbatim>\<open>to_bits\<close> and \<^verbatim>\<open>from_bits\<close> are the identity.
\<close>

unbundle bit_operations_syntax

section \<open>Text\<close>

definition utf8_cont :: "nat \<Rightarrow> bool" where
  "utf8_cont b \<longleftrightarrow> 0x80 \<le> b \<and> b \<le> 0xBF"

definition utf8_lead3 :: "nat \<Rightarrow> nat \<Rightarrow> bool" where
  "utf8_lead3 b0 b1 \<longleftrightarrow>
     (b0 = 0xE0 \<and> 0xA0 \<le> b1 \<and> b1 \<le> 0xBF) \<or>
     ((0xE1 \<le> b0 \<and> b0 \<le> 0xEC \<or> b0 = 0xEE \<or> b0 = 0xEF) \<and> utf8_cont b1) \<or>
     (b0 = 0xED \<and> 0x80 \<le> b1 \<and> b1 \<le> 0x9F)"

definition utf8_lead4 :: "nat \<Rightarrow> nat \<Rightarrow> bool" where
  "utf8_lead4 b0 b1 \<longleftrightarrow>
     (b0 = 0xF0 \<and> 0x90 \<le> b1 \<and> b1 \<le> 0xBF) \<or>
     (0xF1 \<le> b0 \<and> b0 \<le> 0xF3 \<and> utf8_cont b1) \<or>
     (b0 = 0xF4 \<and> 0x80 \<le> b1 \<and> b1 \<le> 0x8F)"

fun utf8_decode :: "nat list \<Rightarrow> nat list option" where
  "utf8_decode [] = Some []"
| "utf8_decode (b0 # bs) =
     (if b0 < 0x80 then map_option ((#) b0) (utf8_decode bs)
      else (case bs of [] \<Rightarrow> None | b1 # bs1 \<Rightarrow>
        if 0xC2 \<le> b0 \<and> b0 \<le> 0xDF \<and> utf8_cont b1
        then map_option ((#) ((b0 - 0xC0) * 64 + (b1 - 0x80))) (utf8_decode bs1)
        else (case bs1 of [] \<Rightarrow> None | b2 # bs2 \<Rightarrow>
          if utf8_lead3 b0 b1 \<and> utf8_cont b2
          then map_option ((#) ((b0 - 0xE0) * 4096 + (b1 - 0x80) * 64 + (b2 - 0x80))) (utf8_decode bs2)
          else (case bs2 of [] \<Rightarrow> None | b3 # bs3 \<Rightarrow>
            if utf8_lead4 b0 b1 \<and> utf8_cont b2 \<and> utf8_cont b3
            then map_option
                   ((#) ((b0 - 0xF0) * 262144 + (b1 - 0x80) * 4096 + (b2 - 0x80) * 64 + (b3 - 0x80)))
                   (utf8_decode bs3)
            else None))))"

definition valid_utf8 :: "str \<Rightarrow> bool" where
  "valid_utf8 s = (utf8_decode (map of_char s) \<noteq> None)"

text \<open>The scalar values of a string; a Rust string is always valid UTF-8.\<close>

definition str_chars :: "str \<Rightarrow> nat list" where
  "str_chars s = (case utf8_decode (map of_char s) of None \<Rightarrow> [] | Some cs \<Rightarrow> cs)"

definition is_control :: "nat \<Rightarrow> bool" where
  "is_control c \<longleftrightarrow> c < 0x20 \<or> 0x7F \<le> c \<and> c \<le> 0x9F"

definition is_whitespace :: "nat \<Rightarrow> bool" where
  "is_whitespace c \<longleftrightarrow>
     0x09 \<le> c \<and> c \<le> 0x0D \<or> c = 0x20 \<or> c = 0x85 \<or> c = 0xA0 \<or> c = 0x1680 \<or>
     0x2000 \<le> c \<and> c \<le> 0x200A \<or> c = 0x2028 \<or> c = 0x2029 \<or> c = 0x202F \<or> c = 0x205F \<or> c = 0x3000"

text \<open>\<^verbatim>\<open>s.trim().is_empty()\<close>, \<^verbatim>\<open>s.trim() == s\<close> and \<^verbatim>\<open>s.chars().any(char::is_control)\<close>.\<close>

definition trim_is_empty :: "str \<Rightarrow> bool" where
  "trim_is_empty s = list_all is_whitespace (str_chars s)"

definition is_trimmed :: "str \<Rightarrow> bool" where
  "is_trimmed s =
     (let cs = str_chars s in cs = [] \<or> \<not> is_whitespace (hd cs) \<and> \<not> is_whitespace (last cs))"

definition any_control :: "str \<Rightarrow> bool" where
  "any_control s = list_ex is_control (str_chars s)"

fun str_split :: "char \<Rightarrow> str \<Rightarrow> str list" where
  "str_split c [] = [[]]"
| "str_split c (x # xs) =
     (if x = c then [] # str_split c xs
      else (case str_split c xs of [] \<Rightarrow> [[x]] | y # ys \<Rightarrow> (x # y) # ys))"

definition is_digit :: "char \<Rightarrow> bool" where
  "is_digit c \<longleftrightarrow> 48 \<le> (of_char c :: nat) \<and> (of_char c :: nat) \<le> 57"

definition digit_value :: "char \<Rightarrow> nat" where
  "digit_value c = of_char c - 48"

definition digits_value :: "str \<Rightarrow> nat" where
  "digits_value ds = foldl (\<lambda>v d. 10 * v + digit_value d) 0 ds"

text \<open>\<^verbatim>\<open>parse::<u64>()\<close> on a non-empty run of ASCII digits: fails on overflow only.\<close>

definition parse_u64_digits :: "str \<Rightarrow> u64 option" where
  "parse_u64_digits ds =
     (let v = digits_value ds in if v < 2 ^ 64 then Some (of_nat v) else None)"

fun nat_decimal :: "nat \<Rightarrow> str" where
  "nat_decimal n =
     (if n < 10 then [char_of (48 + n)] else nat_decimal (n div 10) @ [char_of (48 + n mod 10)])"

declare nat_decimal.simps [simp del]

section \<open>Little-endian bytes and integer operations\<close>

definition str_bytes :: "str \<Rightarrow> bytes" where
  "str_bytes s = map (\<lambda>c. of_nat (of_char c)) s"

definition bytes_str :: "bytes \<Rightarrow> str" where
  "bytes_str bs = map (\<lambda>b. char_of (unat b)) bs"

fun le_bytes :: "nat \<Rightarrow> nat \<Rightarrow> bytes" where
  "le_bytes 0 v = []"
| "le_bytes (Suc n) v = of_nat v # le_bytes n (v div 256)"

fun le_value :: "bytes \<Rightarrow> nat" where
  "le_value [] = 0"
| "le_value (b # bs) = unat b + 256 * le_value bs"

definition checked_add_u64 :: "u64 \<Rightarrow> u64 \<Rightarrow> u64 option" where
  "checked_add_u64 a b = (if unat a + unat b < 2 ^ 64 then Some (a + b) else None)"

lemma length_le_bytes [simp]: "length (le_bytes n v) = n"
  by (induction n arbitrary: v) auto

lemma unat_u64_less [simp]: "unat (x :: u64) < 18446744073709551616"
  by (rule order.strict_trans2 [OF unsigned_less]) simp

lemma unat_u8_less [simp]: "unat (x :: u8) < 256"
  by (rule order.strict_trans2 [OF unsigned_less]) simp

lemma unat_of_nat_u8 [simp]: "unat (of_nat v :: u8) = v mod 256"
  by (simp add: unat_of_nat)

lemma le_value_le_bytes [codec_simps]: "le_value (le_bytes n v) = v mod 256 ^ n"
proof (induction n arbitrary: v)
  case 0
  then show ?case by simp
next
  case (Suc n)
  have "v mod 256 ^ Suc n = v mod 256 + 256 * (v div 256 mod 256 ^ n)"
    by (simp add: mod_mult2_eq)
  then show ?case by (simp add: Suc.IH)
qed

lemma le_value_less: "le_value bs < 256 ^ length bs"
proof (induction bs)
  case Nil
  then show ?case by simp
next
  case (Cons b bs)
  have "unat b < 256" by (rule unat_u8_less)
  moreover have "256 + 256 * le_value bs \<le> 256 * 256 ^ length bs"
    using Cons.IH by simp
  ultimately show ?case
    unfolding le_value.simps list.size add_0_right add_Suc_right power_Suc by linarith
qed

lemma le_bytes_inject:
  assumes "v < 256 ^ n" and "w < 256 ^ n" and "le_bytes n v = le_bytes n w"
  shows "v = w"
proof -
  have "v mod 256 ^ n = w mod 256 ^ n"
    using assms(3) le_value_le_bytes [of n v] le_value_le_bytes [of n w] by metis
  then show ?thesis using assms(1,2) by simp
qed

lemma le_bytes_le_value: "le_bytes (length bs) (le_value bs) = bs"
proof (induction bs)
  case Nil
  then show ?case by simp
next
  case (Cons b bs)
  have b: "unat b < 256" by (rule unat_u8_less)
  then have "(unat b + 256 * le_value bs) div 256 = le_value bs" by simp
  moreover have "(of_nat (unat b + 256 * le_value bs) :: u8) = b"
  proof (rule unsigned_word_eqI)
    have "unat (of_nat (unat b + 256 * le_value bs) :: u8) = (unat b + 256 * le_value bs) mod 256"
      by (rule unat_of_nat_u8)
    then show "unat (of_nat (unat b + 256 * le_value bs) :: u8) = unat b"
      using b by simp
  qed
  ultimately show ?case using Cons.IH by simp
qed

lemma bytes_str_bytes [simp]: "bytes_str (str_bytes s) = s"
  by (induction s) (auto simp: bytes_str_def str_bytes_def)

lemma str_bytes_inject [simp]: "str_bytes s = str_bytes t \<longleftrightarrow> s = t"
  by (metis bytes_str_bytes)

lemma length_str_bytes [simp]: "length (str_bytes s) = length s"
  by (simp add: str_bytes_def)

lemma length_bytes_str [simp]: "length (bytes_str bs) = length bs"
  by (simp add: bytes_str_def)

lemma str_bytes_bytes_str [simp]: "str_bytes (bytes_str bs) = bs"
proof (induction bs)
  case Nil
  then show ?case by (simp add: str_bytes_def bytes_str_def)
next
  case (Cons b bs)
  have "unat b < 256" by (rule unat_u8_less)
  then have "(of_nat (of_char (char_of (unat b) :: char)) :: u8) = b"
    by simp
  with Cons show ?case by (simp add: str_bytes_def bytes_str_def)
qed

section \<open>Prefix codes\<close>

text \<open>
  An encoding whose values can be told apart by their first bytes, whatever follows: the
  contract of every \<^verbatim>\<open>push_\<close> function.  Prefix codes compose.
\<close>

locale prefix_code =
  fixes enc :: "'a \<Rightarrow> bytes" and ok :: "'a \<Rightarrow> bool"
  assumes enc_split: "ok x \<Longrightarrow> ok y \<Longrightarrow> enc x @ r = enc y @ s \<Longrightarrow> x = y \<and> r = s"
begin

lemma enc_inject: "ok x \<Longrightarrow> ok y \<Longrightarrow> enc x = enc y \<Longrightarrow> x = y"
  using enc_split [of x y "[]" "[]"] by simp

lemma enc_list_split:
  "length xs = length ys \<Longrightarrow> list_all ok xs \<Longrightarrow> list_all ok ys \<Longrightarrow>
     concat (map enc xs) @ r = concat (map enc ys) @ s \<Longrightarrow> xs = ys \<and> r = s"
proof (induction xs ys arbitrary: r s rule: list_induct2)
  case Nil
  then show ?case by simp
next
  case (Cons x xs y ys)
  from Cons.prems have "enc x @ (concat (map enc xs) @ r) = enc y @ (concat (map enc ys) @ s)"
    by simp
  moreover have "ok x" "ok y" "list_all ok xs" "list_all ok ys"
    using Cons.prems by auto
  ultimately have "x = y" and rest: "concat (map enc xs) @ r = concat (map enc ys) @ s"
    using enc_split by blast+
  moreover have "xs = ys \<and> r = s"
    by (rule Cons.IH) (fact rest | fact \<open>list_all ok xs\<close> | fact \<open>list_all ok ys\<close>)+
  ultimately show ?case by simp
qed

end

end
