(* ===== verification/Ketchup_Float.thy ===== *)
theory Ketchup_Float
  imports Ketchup_Rust
begin

text \<open>
  Rust's \<^verbatim>\<open>f64\<close>: IEEE 754 binary64 values as their bit patterns.  A finite value is an integer
  times a power of two; every operation computes that exact result and rounds it once to the
  nearest representable value, ties to even, with overflow to infinity and gradual underflow.
  \<^verbatim>\<open>parse::<f64>()\<close> reads Rust's decimal grammar and rounds the exact decimal value the same
  way.  An operation without a numeric result gives the one quiet NaN \<open>f64_nan\<close>; the modelled
  code never reads the payload of a NaN.
\<close>

unbundle bit_operations_syntax

type_synonym f64 = "64 word"

definition f64_nan :: f64 where "f64_nan = 0x7FF8000000000000"

definition f64_inf :: "bool \<Rightarrow> f64" where
  "f64_inf s = (if s then 0xFFF0000000000000 else 0x7FF0000000000000)"

definition f64_zero :: "bool \<Rightarrow> f64" where
  "f64_zero s = (if s then 0x8000000000000000 else 0)"

definition f64_sign :: "f64 \<Rightarrow> bool" where
  "f64_sign x = (2 ^ 63 \<le> unat x)"

definition f64_exponent :: "f64 \<Rightarrow> nat" where
  "f64_exponent x = unat x div 2 ^ 52 mod 2 ^ 11"

definition f64_fraction :: "f64 \<Rightarrow> nat" where
  "f64_fraction x = unat x mod 2 ^ 52"

definition f64_is_finite :: "f64 \<Rightarrow> bool" where
  "f64_is_finite x = (f64_exponent x \<noteq> 2047)"

definition f64_is_nan :: "f64 \<Rightarrow> bool" where
  "f64_is_nan x = (f64_exponent x = 2047 \<and> f64_fraction x \<noteq> 0)"

text \<open>A finite value is \<open>f64_significand x * 2 powr f64_scale x\<close>, with its sign.\<close>

definition f64_significand :: "f64 \<Rightarrow> nat" where
  "f64_significand x = (if f64_exponent x = 0 then f64_fraction x else 2 ^ 52 + f64_fraction x)"

definition f64_scale :: "f64 \<Rightarrow> int" where
  "f64_scale x = (if f64_exponent x = 0 then -1074 else int (f64_exponent x) - 1075)"

definition f64_signed :: "f64 \<Rightarrow> int" where
  "f64_signed x = (if f64_sign x then - int (f64_significand x) else int (f64_significand x))"

definition f64_is_zero :: "f64 \<Rightarrow> bool" where
  "f64_is_zero x = (x = 0 \<or> x = f64_zero True)"

text \<open>The nearest natural number to \<open>n / d\<close>, ties to even.\<close>

definition round_half_even :: "nat \<Rightarrow> nat \<Rightarrow> nat" where
  "round_half_even n d =
     (if 2 * (n mod d) < d then n div d
      else if 2 * (n mod d) > d then Suc (n div d)
      else if even (n div d) then n div d else Suc (n div d))"

text \<open>The number of binary digits of a natural number.\<close>

fun bit_length :: "nat \<Rightarrow> nat" where
  "bit_length n = (if n = 0 then 0 else Suc (bit_length (n div 2)))"

declare bit_length.simps [simp del]

text \<open>The integer part of the binary logarithm of \<open>n / d\<close>, from the difference \<open>k\<close> of the lengths.\<close>

definition adjust_log2 :: "nat \<Rightarrow> nat \<Rightarrow> int \<Rightarrow> int" where
  "adjust_log2 n d k =
     (if (if 0 \<le> k then d * 2 ^ nat k \<le> n else d \<le> n * 2 ^ nat (- k)) then k else k - 1)"

definition floor_log2 :: "nat \<Rightarrow> nat \<Rightarrow> int" where
  "floor_log2 n d = adjust_log2 n d (int (bit_length n) - int (bit_length d))"

text \<open>The bit pattern of the significand \<open>q\<close> at scale \<open>ex\<close>; a carry moves into the exponent.\<close>

definition f64_pack :: "bool \<Rightarrow> int \<Rightarrow> nat \<Rightarrow> f64" where
  "f64_pack s ex q =
     (if q < 2 ^ 52 then of_nat (if s then 2 ^ 63 + q else q)
      else if 2047 * 2 ^ 52 \<le> nat (ex + 1075) * 2 ^ 52 + (q - 2 ^ 52) then f64_inf s
      else of_nat ((if s then 2 ^ 63 else 0) + (nat (ex + 1075) * 2 ^ 52 + (q - 2 ^ 52))))"

definition f64_round_at :: "bool \<Rightarrow> nat \<Rightarrow> nat \<Rightarrow> int \<Rightarrow> f64" where
  "f64_round_at s n d ex =
     f64_pack s ex
       (if 0 \<le> ex then round_half_even n (d * 2 ^ nat ex)
        else round_half_even (n * 2 ^ nat (- ex)) d)"

definition f64_of_fraction :: "bool \<Rightarrow> nat \<Rightarrow> nat \<Rightarrow> f64" where
  "f64_of_fraction s n d =
     (if n = 0 then f64_zero s else f64_round_at s n d (max (floor_log2 n d - 52) (-1074)))"

text \<open>The value nearest to \<open>n / d * 2 powr e\<close> (positive \<open>d\<close>), with sign \<open>s\<close>.\<close>

definition f64_round :: "bool \<Rightarrow> nat \<Rightarrow> nat \<Rightarrow> int \<Rightarrow> f64" where
  "f64_round s n d e =
     (if 0 \<le> e then f64_of_fraction s (n * 2 ^ nat e) d
      else f64_of_fraction s n (d * 2 ^ nat (- e)))"

definition f64_round_int :: "bool \<Rightarrow> int \<Rightarrow> int \<Rightarrow> f64" where
  "f64_round_int s v e = (if v = 0 then f64_zero s else f64_round (v < 0) (nat \<bar>v\<bar>) 1 e)"

definition f64_neg :: "f64 \<Rightarrow> f64" where
  "f64_neg x = x XOR 0x8000000000000000"

definition f64_add_scaled :: "f64 \<Rightarrow> f64 \<Rightarrow> int \<Rightarrow> f64" where
  "f64_add_scaled x y e =
     f64_round_int (f64_sign x \<and> f64_sign y)
       (f64_signed x * 2 ^ nat (f64_scale x - e) + f64_signed y * 2 ^ nat (f64_scale y - e)) e"

definition f64_add :: "f64 \<Rightarrow> f64 \<Rightarrow> f64" where
  "f64_add x y =
     (if f64_is_nan x \<or> f64_is_nan y then f64_nan
      else if \<not> f64_is_finite x then
        (if f64_is_finite y \<or> f64_sign x = f64_sign y then x else f64_nan)
      else if \<not> f64_is_finite y then y
      else f64_add_scaled x y (min (f64_scale x) (f64_scale y)))"

definition f64_sub :: "f64 \<Rightarrow> f64 \<Rightarrow> f64" where
  "f64_sub x y = f64_add x (f64_neg y)"

definition f64_mul :: "f64 \<Rightarrow> f64 \<Rightarrow> f64" where
  "f64_mul x y =
     (if f64_is_nan x \<or> f64_is_nan y then f64_nan
      else if \<not> f64_is_finite x then
        (if f64_is_zero y then f64_nan else f64_inf (f64_sign x \<noteq> f64_sign y))
      else if \<not> f64_is_finite y then
        (if f64_is_zero x then f64_nan else f64_inf (f64_sign x \<noteq> f64_sign y))
      else f64_round (f64_sign x \<noteq> f64_sign y) (f64_significand x * f64_significand y) 1
             (f64_scale x + f64_scale y))"

definition f64_div :: "f64 \<Rightarrow> f64 \<Rightarrow> f64" where
  "f64_div x y =
     (if f64_is_nan x \<or> f64_is_nan y then f64_nan
      else if \<not> f64_is_finite x then
        (if f64_is_finite y then f64_inf (f64_sign x \<noteq> f64_sign y) else f64_nan)
      else if \<not> f64_is_finite y then f64_zero (f64_sign x \<noteq> f64_sign y)
      else if f64_is_zero y then
        (if f64_is_zero x then f64_nan else f64_inf (f64_sign x \<noteq> f64_sign y))
      else f64_round (f64_sign x \<noteq> f64_sign y) (f64_significand x) (f64_significand y)
             (f64_scale x - f64_scale y))"

text \<open>\<open>x < y\<close> for values that are not NaN, and the order of their absolute values.\<close>

definition f64_key :: "f64 \<Rightarrow> int" where
  "f64_key x = (if f64_sign x then - int (unat x - 2 ^ 63) else int (unat x))"

definition f64_less :: "f64 \<Rightarrow> f64 \<Rightarrow> bool" where
  "f64_less x y \<longleftrightarrow> \<not> f64_is_nan x \<and> \<not> f64_is_nan y \<and> f64_key x < f64_key y"

text \<open>\<^verbatim>\<open>==\<close> on numbers: the two zeros are equal and a NaN is not equal to itself.\<close>

definition f64_eq :: "f64 \<Rightarrow> f64 \<Rightarrow> bool" where
  "f64_eq a b \<longleftrightarrow> \<not> f64_is_nan a \<and> \<not> f64_is_nan b \<and> (a = b \<or> f64_is_zero a \<and> f64_is_zero b)"

definition f64_abs :: "f64 \<Rightarrow> f64" where
  "f64_abs x = (if f64_sign x then f64_neg x else x)"

section \<open>Parsing\<close>

definition to_lower :: "char \<Rightarrow> char" where
  "to_lower c = (if 65 \<le> (of_char c :: nat) \<and> (of_char c :: nat) \<le> 90
                 then char_of ((of_char c :: nat) + 32) else c)"

text \<open>The optional exponent of a decimal number: its value, or \<open>None\<close> when malformed.\<close>

definition is_minus :: "str \<Rightarrow> bool" where
  "is_minus s = (s \<noteq> [] \<and> hd s = CHR ''-'')"

definition skip_sign :: "str \<Rightarrow> str" where
  "skip_sign s = (if s \<noteq> [] \<and> (hd s = CHR ''-'' \<or> hd s = CHR ''+'') then tl s else s)"

definition parse_exponent :: "str \<Rightarrow> int option" where
  "parse_exponent s =
     (if s = [] then Some 0
      else if to_lower (hd s) \<noteq> CHR ''e'' then None
      else if skip_sign (tl s) = [] \<or> \<not> list_all is_digit (skip_sign (tl s)) then None
      else Some (if is_minus (tl s) then - int (digits_value (skip_sign (tl s)))
                 else int (digits_value (skip_sign (tl s)))))"

text \<open>The nearest value to \<open>v * 10 ^ k\<close>.\<close>

definition f64_of_decimal :: "bool \<Rightarrow> nat \<Rightarrow> int \<Rightarrow> f64" where
  "f64_of_decimal s v k =
     (if 0 \<le> k then f64_of_fraction s (v * 10 ^ nat k) 1
      else f64_of_fraction s v (10 ^ nat (- k)))"

text \<open>The integer digits \<open>ip\<close> and fraction digits \<open>fp\<close> read, and the rest of the text.\<close>

definition parse_digits :: "bool \<Rightarrow> str \<Rightarrow> str \<Rightarrow> str \<Rightarrow> f64 option" where
  "parse_digits s ip fp r =
     (if ip = [] \<and> fp = [] then None
      else map_option (\<lambda>x. f64_of_decimal s (digits_value (ip @ fp)) (x - int (length fp)))
             (parse_exponent r))"

text \<open>Digits, an optional point and digits, at least one digit in all, and the exponent.\<close>

definition parse_decimal :: "bool \<Rightarrow> str \<Rightarrow> f64 option" where
  "parse_decimal s t =
     (case dropWhile is_digit t of [] \<Rightarrow> parse_digits s (takeWhile is_digit t) [] []
      | c # r \<Rightarrow>
        if c = CHR ''.''
        then parse_digits s (takeWhile is_digit t) (takeWhile is_digit r) (dropWhile is_digit r)
        else parse_digits s (takeWhile is_digit t) [] (c # r))"

definition parse_f64 :: "str \<Rightarrow> f64 option" where
  "parse_f64 t =
     (if map to_lower (skip_sign t) = ''nan'' then Some f64_nan
      else if map to_lower (skip_sign t) \<in> {''inf'', ''infinity''} then Some (f64_inf (is_minus t))
      else parse_decimal (is_minus t) (skip_sign t))"

section \<open>Facts the components use\<close>

lemma f64_zero_finite [simp]: "f64_is_finite (f64_zero s)"
  by (simp add: f64_is_finite_def f64_exponent_def f64_zero_def)

text \<open>Known values: \<open>0.1 + 0.2\<close>, a rounded quotient, an underflow and an overflow.\<close>

lemma bit_length_numeral [simp]:
  "bit_length 0 = 0"
  "bit_length (Suc 0) = 1"
  "bit_length 1 = 1"
  "bit_length (numeral (Num.Bit0 k)) = Suc (bit_length (numeral k))"
  "bit_length (numeral (Num.Bit1 k)) = Suc (bit_length (numeral k))"
  by (simp_all add: bit_length.simps)

lemmas f64_defs =
  f64_nan_def f64_inf_def f64_zero_def f64_sign_def f64_exponent_def f64_fraction_def
  f64_is_finite_def f64_is_nan_def f64_significand_def f64_scale_def f64_signed_def
  f64_is_zero_def round_half_even_def adjust_log2_def floor_log2_def f64_pack_def f64_round_at_def
  f64_of_fraction_def f64_round_def f64_round_int_def f64_neg_def f64_add_scaled_def
  f64_add_def f64_sub_def f64_mul_def f64_div_def f64_key_def f64_less_def f64_abs_def

lemmas parse_defs =
  to_lower_def is_minus_def skip_sign_def parse_exponent_def f64_of_decimal_def parse_digits_def
  parse_decimal_def parse_f64_def is_digit_def digit_value_def digits_value_def

lemma f64_parse_examples:
  "parse_f64 ''1.5'' = Some 0x3FF8000000000000"
  "parse_f64 ''0.1'' = Some 0x3FB999999999999A"
  "parse_f64 ''1.2.3'' = None"
  by (simp_all add: parse_defs f64_defs)

lemma f64_arith_examples:
  "f64_add 0x3FB999999999999A 0x3FC999999999999A = 0x3FD3333333333334"
  "f64_div 0x3FF0000000000000 0x4008000000000000 = 0x3FD5555555555555"
  "f64_mul 0x7FEFFFFFFFFFFFFF 0x4000000000000000 = 0x7FF0000000000000"
  "f64_sub 0x3FF8000000000000 0x3FF0000000000000 = 0x3FE0000000000000"
  by (simp_all add: f64_defs)

end
