(* ===== verification/Ketchup_Slot.thy ===== *)
theory Ketchup_Slot
  imports Ketchup_Float
begin

text \<open>
  Identities and dimensions of the geometry crate: \<^verbatim>\<open>ketchup-geometry/src/slot.rs\<close> (slot
  segments, slot paths, derived identities and their order as map keys) and
  \<^verbatim>\<open>ketchup-geometry/src/dimension.rs\<close> (a length as written and its value in millimetres).
  A typed id of \<^verbatim>\<open>id.rs\<close> is its number.
\<close>

type_synonym node_id = u64
type_synonym document_id = u64

section \<open>Slots\<close>

datatype slot_error = SlotReservedNodeId | SlotInvalidSemanticKey | EmptySlotPath | SlotPathLimit

datatype slot_segment =
  SlotSegment (producer_rule_id: node_id) (output_port: str) (semantic_key: str)

datatype slot_path = SlotPath (segments: "slot_segment list")

datatype derived_identity =
  DerivedIdentity (root_rule_node_id: node_id) (slot_path: slot_path)

definition PATH_SEGMENTS :: nat where "PATH_SEGMENTS = 64"

definition ensure_semantic_key :: "str \<Rightarrow> slot_error + unit" where
  "ensure_semantic_key value =
     (if value = [] \<or> length value > 256 \<or> any_control value
      then Err SlotInvalidSemanticKey else Ok ())"

definition slot_segment_new :: "node_id \<Rightarrow> str \<Rightarrow> str \<Rightarrow> slot_error + slot_segment" where
  "slot_segment_new producer port key =
     and_then (guard (producer \<noteq> 0) SlotReservedNodeId) (\<lambda>_.
     and_then (ensure_semantic_key port) (\<lambda>_.
     and_then (ensure_semantic_key key) (\<lambda>_.
     Ok (SlotSegment producer port key))))"

definition slot_path_new :: "slot_segment list \<Rightarrow> slot_error + slot_path" where
  "slot_path_new segs =
     and_then (guard (segs \<noteq> []) EmptySlotPath) (\<lambda>_.
     and_then (guard (length segs \<le> PATH_SEGMENTS) SlotPathLimit) (\<lambda>_.
     Ok (SlotPath segs)))"

definition derived_identity_new :: "node_id \<Rightarrow> slot_path \<Rightarrow> slot_error + derived_identity" where
  "derived_identity_new root path =
     and_then (guard (root \<noteq> 0) SlotReservedNodeId) (\<lambda>_. Ok (DerivedIdentity root path))"

text \<open>The derived order of the code: fields in declaration order, lists lexicographically.\<close>

definition segment_key :: "slot_segment \<Rightarrow> node_id \<times> str \<times> str" where
  "segment_key s = (producer_rule_id s, output_port s, semantic_key s)"

lemma segment_key_inject: "segment_key a = segment_key b \<longleftrightarrow> a = b"
  by (cases a; cases b) (auto simp: segment_key_def)

instantiation slot_segment :: linorder
begin

definition less_eq_slot_segment :: "slot_segment \<Rightarrow> slot_segment \<Rightarrow> bool" where
  "less_eq_slot_segment a b \<longleftrightarrow> segment_key a \<le> segment_key b"

definition less_slot_segment :: "slot_segment \<Rightarrow> slot_segment \<Rightarrow> bool" where
  "less_slot_segment a b \<longleftrightarrow> segment_key a < segment_key b"

instance
  by intro_classes
    (auto simp: less_eq_slot_segment_def less_slot_segment_def less_le_not_le
      segment_key_inject [symmetric] simp del: less_eq_prod_simp less_prod_simp)

end

definition identity_key :: "derived_identity \<Rightarrow> node_id \<times> slot_segment list" where
  "identity_key d = (root_rule_node_id d, segments (slot_path d))"

lemma identity_key_inject: "identity_key a = identity_key b \<longleftrightarrow> a = b"
  by (cases a; cases b; cases "slot_path a"; cases "slot_path b") (auto simp: identity_key_def)

instantiation derived_identity :: linorder
begin

definition less_eq_derived_identity :: "derived_identity \<Rightarrow> derived_identity \<Rightarrow> bool" where
  "less_eq_derived_identity a b \<longleftrightarrow> identity_key a \<le> identity_key b"

definition less_derived_identity :: "derived_identity \<Rightarrow> derived_identity \<Rightarrow> bool" where
  "less_derived_identity a b \<longleftrightarrow> identity_key a < identity_key b"

instance
  by intro_classes
    (auto simp: less_eq_derived_identity_def less_derived_identity_def less_le_not_le
      identity_key_inject [symmetric] simp del: less_eq_prod_simp less_prod_simp)

end

section \<open>Dimensions\<close>

datatype dimension_error = EmptySourceToken | InvalidDecimalToken | OutsideEnvelope

datatype dimension = Dimension (source_token: str) (millimetres: f64)

text \<open>\<^verbatim>\<open>MAX_COORDINATE_MM\<close>: the literal \<^verbatim>\<open>1_000_000.0\<close>, one kilometre.\<close>

definition MAX_COORDINATE_MM :: f64 where "MAX_COORDINATE_MM = 0x412E848000000000"

definition dimension_new :: "str \<Rightarrow> f64 \<Rightarrow> dimension_error + dimension" where
  "dimension_new token mm =
     and_then (guard (\<not> trim_is_empty token) EmptySourceToken) (\<lambda>_.
     and_then (guard (f64_is_finite mm \<and> \<not> f64_less MAX_COORDINATE_MM (f64_abs mm)) OutsideEnvelope) (\<lambda>_.
     Ok (Dimension token mm)))"

definition dimension_from_decimal :: "str \<Rightarrow> dimension_error + dimension" where
  "dimension_from_decimal token =
     and_then (ok_or (parse_f64 token) InvalidDecimalToken) (\<lambda>mm. dimension_new token mm)"

lemma max_coordinate_value: "parse_f64 ''1000000.0'' = Some MAX_COORDINATE_MM"
  by (simp add: MAX_COORDINATE_MM_def parse_defs f64_defs)

lemma dimension_finite:
  "dimension_new token mm = Inr d \<Longrightarrow> d = Dimension token mm \<and> f64_is_finite mm"
  by (auto simp: dimension_new_def result_simps)

lemma slot_path_new_Inr [result_simps]:
  "slot_path_new segs = Inr p \<longleftrightarrow> p = SlotPath segs \<and> segs \<noteq> [] \<and> length segs \<le> PATH_SEGMENTS"
  by (auto simp: slot_path_new_def result_simps)

end
