(* ===== verification/Ketchup_Expr.thy ===== *)
theory Ketchup_Expr
  imports Ketchup_Slot
begin

text \<open>
  The parameter expressions of \<^verbatim>\<open>ketchup-model/src/graph.rs\<close>: the tokenizer, the recursive
  descent parser with its depth limit, the nodes an expression reads and its evaluation.  The
  parser is shown sound for a grammar of token sequences, and complete for printed
  expressions; evaluation returns finite numbers and depends on the read nodes only.
\<close>

section \<open>Data\<close>

datatype graph_error =
    ReservedNodeId
  | ReservedOverrideId
  | EmptyNodeName
  | DependenciesNotCanonical
  | DependencyCycle node_id
  | MissingDependency node_id
  | NodeKeyMismatch
  | ExpressionLimit
  | InvalidNumber
  | InvalidNodeReference
  | UnexpectedToken
  | UnexpectedEnd
  | UnclosedParenthesis
  | InvalidSemanticKey
  | GraphEmptySlotPath
  | GraphSlotPathLimit
  | RuleOutputLimit
  | RuleOutputDepthLimit
  | GraphLimit
  | DuplicatePort
  | DuplicateOverrideParameter
  | InvalidOutputProducer
  | EmptyOutputPorts
  | UnknownOutputPort
  | NonFiniteOverride
  | EmptyEvaluationIdentity

definition graph_error_of_slot :: "slot_error \<Rightarrow> graph_error" where
  "graph_error_of_slot e =
     (case e of SlotReservedNodeId \<Rightarrow> ReservedNodeId
      | SlotInvalidSemanticKey \<Rightarrow> InvalidSemanticKey
      | EmptySlotPath \<Rightarrow> GraphEmptySlotPath
      | SlotPathLimit \<Rightarrow> GraphSlotPathLimit)"

definition MAX_EXPRESSION_BYTES :: nat where "MAX_EXPRESSION_BYTES = 4096"
definition MAX_EXPRESSION_TOKENS :: nat where "MAX_EXPRESSION_TOKENS = 1024"
definition MAX_EXPRESSION_DEPTH :: nat where "MAX_EXPRESSION_DEPTH = 64"

datatype expression_ast =
    Number f64
  | Node node_id
  | Add expression_ast expression_ast
  | Subtract expression_ast expression_ast
  | Multiply expression_ast expression_ast
  | Divide expression_ast expression_ast
  | Negate expression_ast

datatype token =
  TNumber f64 | TNode node_id | TPlus | TMinus | TStar | TSlash | TLeftParen | TRightParen

datatype diagnostic_code = DependencyFailed | DivisionByZero | NonFiniteResult

section \<open>Tokens\<close>

text \<open>The bytes of a number after its first one, and the rest of the source.\<close>

definition is_sign :: "char \<Rightarrow> bool" where
  "is_sign c \<longleftrightarrow> c = CHR ''+'' \<or> c = CHR ''-''"

definition is_number_byte :: "char \<Rightarrow> bool" where
  "is_number_byte c \<longleftrightarrow> is_digit c \<or> c = CHR ''.''"

definition is_exponent_mark :: "char \<Rightarrow> bool" where
  "is_exponent_mark c \<longleftrightarrow> c = CHR ''e'' \<or> c = CHR ''E''"

fun scan_number :: "bool \<Rightarrow> str \<Rightarrow> str \<times> str" where
  "scan_number ex [] = ([], [])"
| "scan_number ex (c # cs) =
     (if is_number_byte c then apfst ((#) c) (scan_number ex cs)
      else if is_exponent_mark c \<and> \<not> ex then
        (if cs \<noteq> [] \<and> is_sign (hd cs)
         then apfst (\<lambda>t. c # hd cs # t) (scan_number True (tl cs))
         else apfst ((#) c) (scan_number True cs))
      else ([], c # cs))"

text \<open>One step of the loop at the byte \<open>c\<close>: the tokens it adds and the rest of the source.\<close>

definition lex_step :: "char \<Rightarrow> str \<Rightarrow> graph_error + token list \<times> str" where
  "lex_step c cs =
     (if c \<in> {CHR '' '', CHR 0x09, CHR 0x0D, CHR 0x0A} then Ok ([], cs)
      else if c = CHR ''+'' then Ok ([TPlus], cs)
      else if c = CHR ''-'' then Ok ([TMinus], cs)
      else if c = CHR ''*'' then Ok ([TStar], cs)
      else if c = CHR ''/'' then Ok ([TSlash], cs)
      else if c = CHR ''('' then Ok ([TLeftParen], cs)
      else if c = CHR '')'' then Ok ([TRightParen], cs)
      else if c = CHR ''$'' then
        (if takeWhile is_digit cs = [] then Err InvalidNodeReference
         else and_then (ok_or (parse_u64_digits (takeWhile is_digit cs)) InvalidNodeReference) (\<lambda>id.
              if id = 0 then Err ReservedNodeId
              else Ok ([TNode id], dropWhile is_digit cs)))
      else if is_number_byte c then
        and_then (ok_or (parse_f64 (c # fst (scan_number False cs))) InvalidNumber) (\<lambda>v.
          if f64_is_finite v then Ok ([TNumber v], snd (scan_number False cs)) else Err InvalidNumber)
      else Err UnexpectedToken)"

lemma scan_number_append: "fst (scan_number ex cs) @ snd (scan_number ex cs) = cs"
proof (induction ex cs rule: scan_number.induct)
  case (1 ex)
  then show ?case by simp
next
  case (2 ex c cs)
  then show ?case by (cases cs) auto
qed

lemma scan_number_length: "length (snd (scan_number ex cs)) \<le> length cs"
  using arg_cong [OF scan_number_append [of ex cs], of length] by simp

lemma lex_step_length: "lex_step c cs = Inr (ts, rest) \<Longrightarrow> length rest \<le> length cs"
proof -
  assume a: "lex_step c cs = Inr (ts, rest)"
  have "rest \<in> {cs, dropWhile is_digit cs, snd (scan_number False cs)}"
    using a unfolding lex_step_def
    by (simp only: and_then_eq_Inr ok_or_eq split: if_split_asm) auto
  then show ?thesis
    using scan_number_length [of False cs] length_dropWhile_le [of is_digit cs] by auto
qed

function tokenize_from :: "token list \<Rightarrow> str \<Rightarrow> graph_error + token list" where
  "tokenize_from acc [] = Ok acc"
| "tokenize_from acc (c # cs) =
     and_then (lex_step c cs) (\<lambda>(ts, rest).
       if length (acc @ ts) > MAX_EXPRESSION_TOKENS then Err ExpressionLimit
       else tokenize_from (acc @ ts) rest)"
  by pat_completeness auto
termination
  by (relation "measure (\<lambda>(acc, cs). length cs)") (auto dest: lex_step_length)

definition tokenize :: "str \<Rightarrow> graph_error + token list" where
  "tokenize source = tokenize_from [] source"

section \<open>Parser\<close>

definition check_depth :: "nat \<Rightarrow> graph_error + unit" where
  "check_depth depth = (if depth > MAX_EXPRESSION_DEPTH then Err ExpressionLimit else Ok ())"

definition sum_operator :: "token \<Rightarrow> (expression_ast \<Rightarrow> expression_ast \<Rightarrow> expression_ast) option" where
  "sum_operator t = (case t of TPlus \<Rightarrow> Some Add | TMinus \<Rightarrow> Some Subtract | _ \<Rightarrow> None)"

definition product_operator :: "token \<Rightarrow> (expression_ast \<Rightarrow> expression_ast \<Rightarrow> expression_ast) option" where
  "product_operator t = (case t of TStar \<Rightarrow> Some Multiply | TSlash \<Rightarrow> Some Divide | _ \<Rightarrow> None)"

text \<open>The token at the cursor, and the tokens from it on: \<^verbatim>\<open>self.tokens.get(self.cursor)\<close>.\<close>

definition peek :: "token list \<Rightarrow> token option" where
  "peek ts = (case ts of [] \<Rightarrow> None | t # _ \<Rightarrow> Some t)"

text \<open>
  The loop of \<^verbatim>\<open>parse_sum\<close> and \<^verbatim>\<open>parse_product\<close>: while the next token is an operator, read an
  operand and combine it to the left.  Every turn consumes at least the operator, so the
  number of tokens left bounds the turns (lemma \<open>binary_loop_fuel\<close>); the first argument counts
  them down.
\<close>

fun binary_loop ::
  "nat \<Rightarrow> (token \<Rightarrow> (expression_ast \<Rightarrow> expression_ast \<Rightarrow> expression_ast) option) \<Rightarrow>
   (token list \<Rightarrow> graph_error + expression_ast \<times> token list) \<Rightarrow>
   expression_ast \<Rightarrow> token list \<Rightarrow> graph_error + expression_ast \<times> token list" where
  "binary_loop n opr operand left [] = Ok (left, [])"
| "binary_loop n opr operand left (t # ts) =
     (case opr t of None \<Rightarrow> Ok (left, t # ts)
      | Some mk \<Rightarrow>
        (case n of 0 \<Rightarrow> Err ExpressionLimit
         | Suc m \<Rightarrow>
           and_then (operand ts) (\<lambda>(right, ts').
             binary_loop m opr operand (mk left right) ts')))"

function (sequential)
  parse_sum :: "nat \<Rightarrow> token list \<Rightarrow> graph_error + expression_ast \<times> token list" and
  parse_product :: "nat \<Rightarrow> token list \<Rightarrow> graph_error + expression_ast \<times> token list" and
  parse_unary :: "nat \<Rightarrow> token list \<Rightarrow> graph_error + expression_ast \<times> token list" and
  parse_primary :: "nat \<Rightarrow> token list \<Rightarrow> graph_error + expression_ast \<times> token list" where
  "parse_sum depth ts =
     and_then (check_depth depth) (\<lambda>_.
     and_then (parse_product (Suc depth) ts) (\<lambda>(left, rest).
       binary_loop (length rest) sum_operator (\<lambda>us. parse_product (Suc depth) us) left rest))"
| "parse_product depth ts =
     and_then (check_depth depth) (\<lambda>_.
     and_then (parse_unary (Suc depth) ts) (\<lambda>(left, rest).
       binary_loop (length rest) product_operator (\<lambda>us. parse_unary (Suc depth) us) left rest))"
| "parse_unary depth ts =
     and_then (check_depth depth) (\<lambda>_.
       (if peek ts = Some TMinus
        then and_then (parse_unary (Suc depth) (tl ts)) (\<lambda>(value, rest). Ok (Negate value, rest))
        else parse_primary (Suc depth) ts))"
| "parse_primary depth ts =
     and_then (check_depth depth) (\<lambda>_.
       (case ts of
          [] \<Rightarrow> Err UnexpectedEnd
        | TNumber bits # rest \<Rightarrow> Ok (Number bits, rest)
        | TNode nid # rest \<Rightarrow> Ok (Node nid, rest)
        | TLeftParen # rest \<Rightarrow>
            and_then (parse_sum (Suc depth) rest) (\<lambda>(value, rest').
              if peek rest' \<noteq> Some TRightParen then Err UnclosedParenthesis else Ok (value, tl rest'))
        | _ # rest \<Rightarrow> Err UnexpectedToken))"
  by pat_completeness auto
termination
  by (relation
      "measure (case_sum (case_sum (\<lambda>(d, _). 65 - d) (\<lambda>(d, _). 65 - d))
                         (case_sum (\<lambda>(d, _). 65 - d) (\<lambda>(d, _). 65 - d)))")
    (auto simp: check_depth_def MAX_EXPRESSION_DEPTH_def split: if_splits)

declare parse_sum.simps [simp del] parse_product.simps [simp del]
  parse_unary.simps [simp del] parse_primary.simps [simp del]

definition parse :: "str \<Rightarrow> graph_error + expression_ast" where
  "parse source =
     (if source = [] \<or> length source > MAX_EXPRESSION_BYTES then Err ExpressionLimit
      else and_then (tokenize source) (\<lambda>tokens.
        if tokens = [] \<or> length tokens > MAX_EXPRESSION_TOKENS then Err ExpressionLimit
        else and_then (parse_sum 0 tokens) (\<lambda>(expression, rest).
          if rest \<noteq> [] then Err UnexpectedToken else Ok expression)))"

section \<open>Dependencies and evaluation\<close>

fun collect_dependencies :: "expression_ast \<Rightarrow> node_id list \<Rightarrow> node_id list" where
  "collect_dependencies (Number v) deps = deps"
| "collect_dependencies (Node nid) deps = bs_insert nid deps"
| "collect_dependencies (Add l r) deps = collect_dependencies r (collect_dependencies l deps)"
| "collect_dependencies (Subtract l r) deps = collect_dependencies r (collect_dependencies l deps)"
| "collect_dependencies (Multiply l r) deps = collect_dependencies r (collect_dependencies l deps)"
| "collect_dependencies (Divide l r) deps = collect_dependencies r (collect_dependencies l deps)"
| "collect_dependencies (Negate v) deps = collect_dependencies v deps"

definition ast_dependencies :: "expression_ast \<Rightarrow> node_id list" where
  "ast_dependencies e = collect_dependencies e []"

definition finite_or_error :: "f64 \<Rightarrow> diagnostic_code + f64" where
  "finite_or_error value = (if f64_is_finite value then Ok value else Err NonFiniteResult)"

fun evaluate :: "(node_id, f64) btree_map \<Rightarrow> expression_ast \<Rightarrow> diagnostic_code + f64" where
  "evaluate vals (Number v) = finite_or_error v"
| "evaluate vals (Node nid) = and_then (ok_or (bt_get vals nid) DependencyFailed) finite_or_error"
| "evaluate vals (Add l r) =
     and_then (evaluate vals l) (\<lambda>a. and_then (evaluate vals r) (\<lambda>b. finite_or_error (f64_add a b)))"
| "evaluate vals (Subtract l r) =
     and_then (evaluate vals l) (\<lambda>a. and_then (evaluate vals r) (\<lambda>b. finite_or_error (f64_sub a b)))"
| "evaluate vals (Multiply l r) =
     and_then (evaluate vals l) (\<lambda>a. and_then (evaluate vals r) (\<lambda>b. finite_or_error (f64_mul a b)))"
| "evaluate vals (Divide l r) =
     and_then (evaluate vals r) (\<lambda>divisor.
       if f64_is_zero divisor then Err DivisionByZero
       else and_then (evaluate vals l) (\<lambda>a. finite_or_error (f64_div a divisor)))"
| "evaluate vals (Negate v) = and_then (evaluate vals v) (\<lambda>a. finite_or_error (f64_neg a))"

section \<open>The grammar the parser implements\<close>

inductive gr_sum :: "token list \<Rightarrow> expression_ast \<Rightarrow> bool"
  and gr_product :: "token list \<Rightarrow> expression_ast \<Rightarrow> bool"
  and gr_unary :: "token list \<Rightarrow> expression_ast \<Rightarrow> bool"
  and gr_primary :: "token list \<Rightarrow> expression_ast \<Rightarrow> bool" where
  sum_one: "gr_product p a \<Longrightarrow> gr_sum p a"
| sum_op: "gr_sum p a \<Longrightarrow> sum_operator t = Some mk \<Longrightarrow> gr_product q b \<Longrightarrow> gr_sum (p @ t # q) (mk a b)"
| product_one: "gr_unary p a \<Longrightarrow> gr_product p a"
| product_op: "gr_product p a \<Longrightarrow> product_operator t = Some mk \<Longrightarrow> gr_unary q b \<Longrightarrow>
     gr_product (p @ t # q) (mk a b)"
| unary_minus: "gr_unary p a \<Longrightarrow> gr_unary (TMinus # p) (Negate a)"
| unary_primary: "gr_primary p a \<Longrightarrow> gr_unary p a"
| primary_number: "gr_primary [TNumber v] (Number v)"
| primary_node: "gr_primary [TNode nid] (Node nid)"
| primary_paren: "gr_sum p a \<Longrightarrow> gr_primary (TLeftParen # p @ [TRightParen]) a"

lemmas gr_intros = gr_sum_gr_product_gr_unary_gr_primary.intros

text \<open>
  A generic fact about the operator loop: if every operand read is a phrase \<open>G\<close>, and \<open>H\<close> is
  closed under appending an operator and an operand, the loop extends the phrase of its left
  argument.
\<close>

lemma binary_loop_sound:
  assumes operand: "\<And>us b r. operand us = Inr (b, r) \<Longrightarrow> \<exists>q. us = q @ r \<and> G q b"
    and step: "\<And>p a t mk q b. H p a \<Longrightarrow> opr t = Some mk \<Longrightarrow> G q b \<Longrightarrow> H (p @ t # q) (mk a b)"
    and "H p left" and "binary_loop n opr operand left ts = Inr (e, rest)"
  shows "\<exists>q. ts = q @ rest \<and> H (p @ q) e"
  using assms(3,4)
proof (induction n arbitrary: p left ts)
  case 0
  then show ?case by (cases ts) (auto split: option.splits)
next
  case (Suc n)
  show ?case
  proof (cases ts)
    case Nil
    with Suc.prems show ?thesis by auto
  next
    case (Cons t us)
    show ?thesis
    proof (cases "opr t")
      case None
      with Suc.prems Cons show ?thesis by auto
    next
      case (Some mk)
      with Suc.prems(2) Cons obtain b r where b: "operand us = Inr (b, r)"
        and loop: "binary_loop n opr operand (mk left b) r = Inr (e, rest)"
        by (auto simp: result_simps)
      from operand [OF b] obtain q where q: "us = q @ r" "G q b" by blast
      from step [OF Suc.prems(1) Some q(2)] have "H (p @ t # q) (mk left b)" .
      from Suc.IH [OF this loop] obtain q' where "r = q' @ rest" "H ((p @ t # q) @ q') e" by blast
      with Cons q(1) show ?thesis by (intro exI [of _ "t # q @ q'"]) simp
    qed
  qed
qed

lemma binary_loop_fuel:
  assumes operand: "\<And>us b r. operand us = Inr (b, r) \<Longrightarrow> length r \<le> length us"
    and "length ts \<le> n"
  shows "binary_loop n opr operand left ts = binary_loop (length ts) opr operand left ts"
  using assms(2)
proof (induction n arbitrary: left ts rule: less_induct)
  case (less n)
  show ?case
  proof (cases ts)
    case Nil
    then show ?thesis by simp
  next
    case (Cons t us)
    with less.prems obtain m where n: "n = Suc m" "length us \<le> m" by (cases n) auto
    have loop: "binary_loop m opr operand l r = binary_loop (length us) opr operand l r"
      if "operand us = Inr (b, r)" for b r l
    proof -
      have r: "length r \<le> length us" using operand that by blast
      have "binary_loop m opr operand l r = binary_loop (length r) opr operand l r"
        using less.IH [of m r l] n r by simp
      moreover have "binary_loop (length us) opr operand l r = binary_loop (length r) opr operand l r"
        using less.IH [of "length us" r l] n r by simp
      ultimately show ?thesis by simp
    qed
    show ?thesis
    proof (cases "operand us")
      case (Inl e)
      then show ?thesis using Cons n by (simp split: option.splits)
    next
      case (Inr br)
      then show ?thesis using Cons n loop by (cases br) (simp split: option.splits)
    qed
  qed
qed

lemma peek_Some_iff: "peek ts = Some t \<longleftrightarrow> (\<exists>r. ts = t # r)"
  by (cases ts) (auto simp: peek_def)

lemma primary_paren_split:
  "gr_sum p e \<Longrightarrow> \<exists>q. TLeftParen # p @ TRightParen # r = q @ r \<and> gr_primary q e"
  by (rule exI [of _ "TLeftParen # p @ [TRightParen]"]) (auto intro: gr_intros)

lemma parser_sound_all:
  "(\<forall>e rest. parse_sum d ts = Inr (e, rest) \<longrightarrow> (\<exists>p. ts = p @ rest \<and> gr_sum p e))"
  "(\<forall>e rest. parse_product d us = Inr (e, rest) \<longrightarrow> (\<exists>p. us = p @ rest \<and> gr_product p e))"
  "(\<forall>e rest. parse_unary d vs = Inr (e, rest) \<longrightarrow> (\<exists>p. vs = p @ rest \<and> gr_unary p e))"
  "(\<forall>e rest. parse_primary d ws = Inr (e, rest) \<longrightarrow> (\<exists>p. ws = p @ rest \<and> gr_primary p e))"
proof (induction d ts and d us and d vs and d ws
    rule: parse_sum_parse_product_parse_unary_parse_primary.induct)
  case (1 depth ts)
  show ?case
  proof (intro allI impI)
    fix e rest assume "parse_sum depth ts = Inr (e, rest)"
    then obtain u left r where c: "check_depth depth = Inr u"
      and l: "parse_product (Suc depth) ts = Inr (left, r)"
      and loop: "binary_loop (length r) sum_operator (parse_product (Suc depth)) left r = Inr (e, rest)"
      by (auto simp: parse_sum.simps result_simps)
    from "1.IH"(1) [OF c] l obtain p where p: "ts = p @ r" "gr_product p left" by blast
    have "\<exists>q. r = q @ rest \<and> gr_sum (p @ q) e"
      by (rule binary_loop_sound [where G = gr_product, OF _ _ _ loop])
        (use "1.IH"(2) [OF c l] p(2) in \<open>auto intro: gr_intros\<close>)
    then show "\<exists>p. ts = p @ rest \<and> gr_sum p e" using p(1) by auto
  qed
next
  case (2 depth us)
  show ?case
  proof (intro allI impI)
    fix e rest assume "parse_product depth us = Inr (e, rest)"
    then obtain u left r where c: "check_depth depth = Inr u"
      and l: "parse_unary (Suc depth) us = Inr (left, r)"
      and loop: "binary_loop (length r) product_operator (parse_unary (Suc depth)) left r = Inr (e, rest)"
      by (auto simp: parse_product.simps result_simps)
    from "2.IH"(1) [OF c] l obtain p where p: "us = p @ r" "gr_unary p left" by blast
    have "\<exists>q. r = q @ rest \<and> gr_product (p @ q) e"
      by (rule binary_loop_sound [where G = gr_unary, OF _ _ _ loop])
        (use "2.IH"(2) [OF c l] p(2) in \<open>auto intro: gr_intros\<close>)
    then show "\<exists>p. us = p @ rest \<and> gr_product p e" using p(1) by auto
  qed
next
  case (3 depth vs)
  show ?case
  proof (intro allI impI)
    fix e rest assume "parse_unary depth vs = Inr (e, rest)"
    then obtain u where c: "check_depth depth = Inr u"
      and body: "(if peek vs = Some TMinus
        then and_then (parse_unary (Suc depth) (tl vs)) (\<lambda>(value, rest). Ok (Negate value, rest))
        else parse_primary (Suc depth) vs) = Inr (e, rest)"
      by (auto simp: parse_unary.simps result_simps)
    show "\<exists>p. vs = p @ rest \<and> gr_unary p e"
    proof (cases "peek vs = Some TMinus")
      case True
      with body obtain v where v: "parse_unary (Suc depth) (tl vs) = Inr (v, rest)" "e = Negate v"
        by (auto simp: result_simps)
      from True have vs: "vs = TMinus # tl vs" by (cases vs) (auto simp: peek_def)
      from "3.IH"(1) [OF c True] v obtain p where "tl vs = p @ rest" "gr_unary p v" by blast
      with vs v show ?thesis
        by (intro exI [of _ "TMinus # p"]) (auto intro: gr_intros)
    next
      case False
      with body "3.IH"(2) [OF c] show ?thesis by (auto intro: gr_intros)
    qed
  qed
next
  case (4 depth ws)
  show ?case
    using "4.IH"
    by (auto simp: parse_primary.simps result_simps peek_Some_iff split: list.splits token.splits
        intro: gr_intros primary_paren_split)
qed

section \<open>Well-formed expressions\<close>

fun ast_ok :: "expression_ast \<Rightarrow> bool" where
  "ast_ok (Number v) \<longleftrightarrow> f64_is_finite v"
| "ast_ok (Node nid) \<longleftrightarrow> nid \<noteq> 0"
| "ast_ok (Add l r) \<longleftrightarrow> ast_ok l \<and> ast_ok r"
| "ast_ok (Subtract l r) \<longleftrightarrow> ast_ok l \<and> ast_ok r"
| "ast_ok (Multiply l r) \<longleftrightarrow> ast_ok l \<and> ast_ok r"
| "ast_ok (Divide l r) \<longleftrightarrow> ast_ok l \<and> ast_ok r"
| "ast_ok (Negate v) \<longleftrightarrow> ast_ok v"

definition token_ok :: "token \<Rightarrow> bool" where
  "token_ok t \<longleftrightarrow>
     (case t of TNumber v \<Rightarrow> f64_is_finite v | TNode nid \<Rightarrow> nid \<noteq> 0 | _ \<Rightarrow> True)"

lemma lex_step_ok: "lex_step c cs = Inr (ts, rest) \<Longrightarrow> list_all token_ok ts"
  unfolding lex_step_def
  by (simp only: and_then_eq_Inr ok_or_eq split: if_split_asm) (auto simp: token_ok_def)

lemma tokenize_from_ok:
  "tokenize_from acc cs = Inr ts \<Longrightarrow> list_all token_ok acc \<Longrightarrow> length acc \<le> MAX_EXPRESSION_TOKENS \<Longrightarrow>
     list_all token_ok ts \<and> length ts \<le> MAX_EXPRESSION_TOKENS"
proof (induction acc cs rule: tokenize_from.induct)
  case (1 acc)
  then show ?case by simp
next
  case (2 acc c cs)
  from "2.prems"(1) obtain us r where step: "lex_step c cs = Inr (us, r)"
    and len: "length (acc @ us) \<le> MAX_EXPRESSION_TOKENS"
    and rec: "tokenize_from (acc @ us) r = Inr ts"
    by (auto simp: result_simps split: if_splits)
  have "list_all token_ok (acc @ us)"
    using lex_step_ok [OF step] "2.prems"(2) by simp
  then show ?case
    using "2.IH" [OF step refl _ rec] len by simp
qed

lemma tokenize_ok: "tokenize s = Inr ts \<Longrightarrow> list_all token_ok ts \<and> length ts \<le> MAX_EXPRESSION_TOKENS"
  using tokenize_from_ok [of "[]" s ts] by (simp add: tokenize_def)

lemma operator_ast_ok:
  "sum_operator t = Some mk \<Longrightarrow> ast_ok (mk a b) \<longleftrightarrow> ast_ok a \<and> ast_ok b"
  "product_operator t = Some mk \<Longrightarrow> ast_ok (mk a b) \<longleftrightarrow> ast_ok a \<and> ast_ok b"
  by (auto simp: sum_operator_def product_operator_def split: token.splits)

lemma grammar_ast_ok:
  "gr_sum p e \<Longrightarrow> list_all token_ok p \<Longrightarrow> ast_ok e"
  "gr_product q f \<Longrightarrow> list_all token_ok q \<Longrightarrow> ast_ok f"
  "gr_unary r g \<Longrightarrow> list_all token_ok r \<Longrightarrow> ast_ok g"
  "gr_primary s h \<Longrightarrow> list_all token_ok s \<Longrightarrow> ast_ok h"
  by (induction rule: gr_sum_gr_product_gr_unary_gr_primary.inducts)
    (auto simp: operator_ast_ok token_ok_def)

section \<open>Printing and parsing back\<close>

text \<open>A printer that brackets every operand, and the nesting it needs.\<close>

fun unparse :: "expression_ast \<Rightarrow> token list" where
  "unparse (Number v) = [TNumber v]"
| "unparse (Node nid) = [TNode nid]"
| "unparse (Add l r) = TLeftParen # unparse l @ TRightParen # TPlus # TLeftParen # unparse r @ [TRightParen]"
| "unparse (Subtract l r) = TLeftParen # unparse l @ TRightParen # TMinus # TLeftParen # unparse r @ [TRightParen]"
| "unparse (Multiply l r) = TLeftParen # unparse l @ TRightParen # TStar # TLeftParen # unparse r @ [TRightParen]"
| "unparse (Divide l r) = TLeftParen # unparse l @ TRightParen # TSlash # TLeftParen # unparse r @ [TRightParen]"
| "unparse (Negate v) = TMinus # TLeftParen # unparse v @ [TRightParen]"

fun ast_height :: "expression_ast \<Rightarrow> nat" where
  "ast_height (Number v) = 0"
| "ast_height (Node nid) = 0"
| "ast_height (Add l r) = Suc (max (ast_height l) (ast_height r))"
| "ast_height (Subtract l r) = Suc (max (ast_height l) (ast_height r))"
| "ast_height (Multiply l r) = Suc (max (ast_height l) (ast_height r))"
| "ast_height (Divide l r) = Suc (max (ast_height l) (ast_height r))"
| "ast_height (Negate v) = Suc (ast_height v)"

text \<open>What may follow a sum: nothing, or a token that is no operator.\<close>

definition ends_sum :: "token list \<Rightarrow> bool" where
  "ends_sum ts = (case ts of [] \<Rightarrow> True | t # _ \<Rightarrow> sum_operator t = None \<and> product_operator t = None)"

lemma ends_sum_simps [simp]:
  "ends_sum []"
  "ends_sum (TRightParen # ts)"
  by (simp_all add: ends_sum_def sum_operator_def product_operator_def)

lemma binary_loop_stops:
  "ts = [] \<or> opr (hd ts) = None \<Longrightarrow> binary_loop n opr operand left ts = Inr (left, ts)"
  by (cases ts) auto

lemma ends_sum_loops:
  assumes "ends_sum ts"
  shows "binary_loop n sum_operator operand left ts = Inr (left, ts)"
    and "binary_loop n product_operator operand left ts = Inr (left, ts)"
  using assms by (auto simp: ends_sum_def intro!: binary_loop_stops split: list.splits)

lemma check_depth_ok: "d \<le> 64 \<Longrightarrow> check_depth d = Inr ()"
  by (simp add: check_depth_def MAX_EXPRESSION_DEPTH_def)

lemma parse_paren:
  assumes "parse_sum (Suc d) (unparse e @ TRightParen # rest) = Inr (e, TRightParen # rest)" and "d \<le> 64"
  shows "parse_primary d (TLeftParen # unparse e @ TRightParen # rest) = Inr (e, rest)"
  using assms by (simp add: parse_primary.simps check_depth_ok peek_def)

lemma parse_unary_primary:
  "d \<le> 64 \<Longrightarrow> peek ts \<noteq> Some TMinus \<Longrightarrow> parse_unary d ts = parse_primary (Suc d) ts"
  by (subst parse_unary.simps) (simp add: check_depth_ok)

lemmas parse_level = parse_sum.simps [of d for d] parse_product.simps [of "Suc d" for d]

lemma parse_operand:
  assumes "\<And>d rest. ends_sum rest \<Longrightarrow> d + 5 * ast_height e + 3 \<le> 64 \<Longrightarrow>
             parse_sum d (unparse e @ rest) = Inr (e, rest)"
    and "d + 5 * ast_height e + 5 \<le> 64"
  shows "parse_unary d (TLeftParen # unparse e @ TRightParen # rest) = Inr (e, rest)"
proof -
  have "parse_sum (Suc (Suc d)) (unparse e @ TRightParen # rest) = Inr (e, TRightParen # rest)"
    using assms by simp
  then show ?thesis
    using assms(2) by (simp add: parse_unary_primary peek_def parse_paren)
qed

lemma parse_sum_unparse:
  "ends_sum rest \<Longrightarrow> d + 5 * ast_height e + 3 \<le> 64 \<Longrightarrow> parse_sum d (unparse e @ rest) = Inr (e, rest)"
proof (induction e arbitrary: d rest)
  case (Number v)
  then show ?case
    by (simp add: parse_level parse_unary_primary parse_primary.simps peek_def check_depth_ok ends_sum_loops)
next
  case (Node nid)
  then show ?case
    by (simp add: parse_level parse_unary_primary parse_primary.simps peek_def check_depth_ok ends_sum_loops)
next
  case (Add l r)
  have "parse_unary (Suc (Suc d)) (TLeftParen # unparse l @ TRightParen # us) = Inr (l, us)"
    and "parse_unary (Suc (Suc d)) (TLeftParen # unparse r @ TRightParen # us) = Inr (r, us)" for us
    using Add by (auto intro!: parse_operand)
  with Add.prems show ?case
    by (simp add: parse_level check_depth_ok ends_sum_loops sum_operator_def product_operator_def)
next
  case (Subtract l r)
  have "parse_unary (Suc (Suc d)) (TLeftParen # unparse l @ TRightParen # us) = Inr (l, us)"
    and "parse_unary (Suc (Suc d)) (TLeftParen # unparse r @ TRightParen # us) = Inr (r, us)" for us
    using Subtract by (auto intro!: parse_operand)
  with Subtract.prems show ?case
    by (simp add: parse_level check_depth_ok ends_sum_loops sum_operator_def product_operator_def)
next
  case (Multiply l r)
  have "parse_unary (Suc (Suc d)) (TLeftParen # unparse l @ TRightParen # us) = Inr (l, us)"
    and "parse_unary (Suc (Suc d)) (TLeftParen # unparse r @ TRightParen # us) = Inr (r, us)" for us
    using Multiply by (auto intro!: parse_operand)
  with Multiply.prems show ?case
    by (simp add: parse_level check_depth_ok ends_sum_loops sum_operator_def product_operator_def)
next
  case (Divide l r)
  have "parse_unary (Suc (Suc d)) (TLeftParen # unparse l @ TRightParen # us) = Inr (l, us)"
    and "parse_unary (Suc (Suc d)) (TLeftParen # unparse r @ TRightParen # us) = Inr (r, us)" for us
    using Divide by (auto intro!: parse_operand)
  with Divide.prems show ?case
    by (simp add: parse_level check_depth_ok ends_sum_loops sum_operator_def product_operator_def)
next
  case (Negate v)
  have "parse_unary (Suc (Suc (Suc d))) (TLeftParen # unparse v @ TRightParen # us) = Inr (v, us)" for us
    using Negate by (auto intro!: parse_operand)
  with Negate.prems show ?case
    by (simp add: parse_level parse_unary.simps [of "Suc (Suc d)"] check_depth_ok ends_sum_loops peek_def)
qed

section \<open>Evaluation\<close>

fun ast_nodes :: "expression_ast \<Rightarrow> node_id set" where
  "ast_nodes (Number v) = {}"
| "ast_nodes (Node nid) = {nid}"
| "ast_nodes (Add l r) = ast_nodes l \<union> ast_nodes r"
| "ast_nodes (Subtract l r) = ast_nodes l \<union> ast_nodes r"
| "ast_nodes (Multiply l r) = ast_nodes l \<union> ast_nodes r"
| "ast_nodes (Divide l r) = ast_nodes l \<union> ast_nodes r"
| "ast_nodes (Negate v) = ast_nodes v"

lemma collect_dependencies_set: "set (collect_dependencies e deps) = set deps \<union> ast_nodes e"
  by (induction e arbitrary: deps) auto

lemma collect_dependencies_wf: "bs_wf deps \<Longrightarrow> bs_wf (collect_dependencies e deps)"
  by (induction e arbitrary: deps) auto

lemma ast_dependencies_spec:
  "set (ast_dependencies e) = ast_nodes e" "bs_wf (ast_dependencies e)"
  by (simp_all add: ast_dependencies_def collect_dependencies_set collect_dependencies_wf)

lemma ast_ok_nodes: "ast_ok e \<Longrightarrow> 0 \<notin> ast_nodes e"
  by (induction e) auto

lemma evaluate_cong:
  "(\<And>nid. nid \<in> ast_nodes e \<Longrightarrow> bt_get v nid = bt_get w nid) \<Longrightarrow> evaluate v e = evaluate w e"
proof (induction e)
  case (Divide l r)
  then have "evaluate v l = evaluate w l" "evaluate v r = evaluate w r" by auto
  then show ?case by (simp cong: if_cong)
qed auto

lemma evaluate_is_finite: "evaluate vals e = Inr v \<Longrightarrow> f64_is_finite v"
  by (cases e) (auto simp: finite_or_error_def result_simps split: if_splits)

lemma finite_or_error_not_dep [simp]: "finite_or_error v \<noteq> Inl DependencyFailed"
  by (simp add: finite_or_error_def)

lemma evaluate_not_dep:
  "(\<And>nid. nid \<in> ast_nodes e \<Longrightarrow> bt_get vals nid \<noteq> None) \<Longrightarrow>
     evaluate vals e \<noteq> Inl DependencyFailed"
  by (induction e) (auto simp: result_simps split: if_splits)

section \<open>Properties\<close>

text \<open>
  C33.  The parser accepts only sentences of the expression grammar: an accepted source is a
  token sequence within the token limit that derives the returned tree, and the tree holds
  finite numbers and non-zero node ids only.
\<close>

theorem parse_sound:
  assumes "parse source = Inr e"
  shows "\<exists>ts. tokenize source = Inr ts \<and> length ts \<le> MAX_EXPRESSION_TOKENS \<and> gr_sum ts e \<and> ast_ok e"
proof -
  from assms obtain ts where ts: "tokenize source = Inr ts" and p: "parse_sum 0 ts = Inr (e, [])"
    by (auto simp: parse_def result_simps split: if_splits)
  from p parser_sound_all(1) [of 0 ts] have g: "gr_sum ts e" by auto
  with ts tokenize_ok [OF ts] show ?thesis by (blast intro: grammar_ast_ok(1))
qed

theorem parse_sound_witness:
  "parse ''2*($3-1)'' = Inr (Multiply (Number 0x4000000000000000) (Subtract (Node 3) (Number 0x3FF0000000000000))) \<and>
   ast_ok (Multiply (Number 0x4000000000000000) (Subtract (Node 3) (Number 0x3FF0000000000000)))"
proof -
  let ?ts = "[TNumber 0x4000000000000000, TStar, TLeftParen, TNode 3, TMinus,
      TNumber 0x3FF0000000000000, TRightParen]"
  have l: "tokenize ''2*($3-1)'' = Inr ?ts"
    by (simp add: tokenize_def lex_step_def MAX_EXPRESSION_TOKENS_def is_number_byte_def
        is_exponent_mark_def is_sign_def parse_u64_digits_def parse_defs f64_defs Let_def
        cong: and_then_weak_cong)
  have "parse_sum 0 ?ts =
      Inr (Multiply (Number 0x4000000000000000) (Subtract (Node 3) (Number 0x3FF0000000000000)), [])"
    by (simp add: parse_sum.simps parse_product.simps parse_unary.simps parse_primary.simps peek_def
        check_depth_def MAX_EXPRESSION_DEPTH_def sum_operator_def product_operator_def
        cong: and_then_weak_cong)
  with l have p: "parse ''2*($3-1)'' =
      Inr (Multiply (Number 0x4000000000000000) (Subtract (Node 3) (Number 0x3FF0000000000000)))"
    by (simp add: parse_def MAX_EXPRESSION_BYTES_def MAX_EXPRESSION_TOKENS_def)
  from parse_sound [OF p] show ?thesis using p by blast
qed



text \<open>
  Evaluation of an expression whose nodes all have values never reports a failed
  dependency, depends on those values only, and a number it returns is finite; dividing by
  either zero is reported as such.
\<close>

theorem evaluate_correct:
  assumes "\<And>nid. nid \<in> set (ast_dependencies e) \<Longrightarrow> bt_get vals nid \<noteq> None"
    and "\<And>nid. nid \<in> set (ast_dependencies e) \<Longrightarrow> bt_get vals' nid = bt_get vals nid"
  shows "evaluate vals' e = evaluate vals e \<and> evaluate vals e \<noteq> Inl DependencyFailed \<and>
    (\<forall>v. evaluate vals e = Inr v \<longrightarrow> f64_is_finite v) \<and>
    (\<forall>l r d. e = Divide l r \<and> evaluate vals r = Inr d \<and> f64_is_zero d \<longrightarrow>
      evaluate vals e = Inl DivisionByZero)"
  using assms evaluate_cong [of e vals' vals] evaluate_not_dep [of e vals] evaluate_is_finite
  by (auto simp: ast_dependencies_spec)

theorem evaluate_correct_witness:
  "evaluate [(2, 0x3FF0000000000000), (5, 0)] (Divide (Number 0) (Node 2)) =
     evaluate [(2, 0x3FF0000000000000)] (Divide (Number 0) (Node 2)) \<and>
   evaluate [(2, 0x3FF0000000000000)] (Divide (Number 0) (Node 2)) = Inr 0 \<and> f64_is_finite 0"
proof -
  have v: "evaluate [(2, 0x3FF0000000000000)] (Divide (Number 0) (Node 2)) = Inr 0"
    by (simp add: finite_or_error_def f64_defs cong: and_then_weak_cong)
  note c = evaluate_correct [of "Divide (Number 0) (Node 2)" "[(2, 0x3FF0000000000000)]"
      "[(2, 0x3FF0000000000000), (5, 0)]"]
  have "f64_is_finite 0" using evaluate_is_finite [OF v] .
  moreover have "evaluate [(2, 0x3FF0000000000000), (5, 0)] (Divide (Number 0) (Node 2)) =
      evaluate [(2, 0x3FF0000000000000)] (Divide (Number 0) (Node 2))"
    using c by (simp add: ast_dependencies_def del: evaluate.simps)
  ultimately show ?thesis using v by blast
qed

end
