(* ===== verification/Ketchup_Node.thy ===== *)
theory Ketchup_Node
  imports Ketchup_Expr
begin

text \<open>
  Evaluator nodes of \<^verbatim>\<open>ketchup-model/src/graph.rs\<close>: typed ports, override parameters, the trees
  of rule outputs, the node constructors with their checks, slot resolution, and the canonical
  bytes a node is digested from.  SHA-256 comes from the \<^verbatim>\<open>sha2\<close> crate and is the argument
  \<open>sha\<close> of the definitions that digest.

  The rule-output trees are walked with an explicit stack in four places of the code; the one
  traversal \<open>visit_stack\<close> models them, and is a fold over the preorder of the forest.
\<close>

section \<open>Data\<close>

datatype value_type = VNumber

datatype port_spec = PortSpec (port_name: str) (port_type: value_type)

datatype override_merge_policy = Replace

datatype override_parameter_spec =
  OverrideParameterSpec (param_name: str) (merge_policy: override_merge_policy)

datatype rule_output = RuleOutput (ro_segment: slot_segment) (ro_children: "rule_output list")

datatype slot_resolution = Resolved | Ambiguous nat | Lost nat

datatype evaluator_node_kind =
    Parameter dimension
  | Expression str expression_ast
  | Rule str expression_ast "rule_output list" "override_parameter_spec list"

record evaluator_node =
  en_id :: node_id
  en_name :: str
  en_kind :: evaluator_node_kind
  en_input_ports :: "port_spec list"
  en_output_ports :: "port_spec list"
  en_dependencies :: "node_id list"

record canonical_override =
  ov_id :: u64
  ov_target :: derived_identity
  ov_parameter :: str
  ov_value_bits :: u64
  ov_health :: slot_resolution

definition MAX_RULE_OUTPUT_DEPTH :: nat where "MAX_RULE_OUTPUT_DEPTH = 64"
definition MAX_RULE_OUTPUTS :: nat where "MAX_RULE_OUTPUTS = 16384"

section \<open>Walking rule outputs\<close>

text \<open>
  \<open>visit_stack rv step ctx stack s\<close> pops the top of the stack (the head of the list), runs
  \<open>step\<close> on it and pushes its children with the context \<open>ctx\<close>; with \<open>rv\<close> the code pushes them in
  reverse, so that the first child is visited first.
\<close>

definition push_children ::
  "bool \<Rightarrow> 'c \<Rightarrow> rule_output list \<Rightarrow> (rule_output \<times> 'c) list \<Rightarrow> (rule_output \<times> 'c) list" where
  "push_children rv c children stack = map (\<lambda>x. (x, c)) (if rv then children else rev children) @ stack"

lemma push_children_measure:
  "sum_list (map (size \<circ> fst) (push_children rv c children stack)) =
     size_list size children - length children + sum_list (map (size \<circ> fst) stack)"
proof -
  have s: "size_list size xs = sum_list (map size xs) + length xs" for xs :: "rule_output list"
    by (induction xs) auto
  have "sum_list (map size (rev children)) = sum_list (map size children)"
    by (simp add: rev_map [symmetric])
  then show ?thesis by (simp add: push_children_def s comp_def)
qed

lemma rule_output_children_size:
  "size_list size (ro_children out) - length (ro_children out) < size out"
  by (cases out) simp

function visit_stack ::
  "bool \<Rightarrow> ('s \<Rightarrow> rule_output \<Rightarrow> 'c \<Rightarrow> 'e + 's) \<Rightarrow> (rule_output \<Rightarrow> 'c \<Rightarrow> 'c) \<Rightarrow>
   (rule_output \<times> 'c) list \<Rightarrow> 's \<Rightarrow> 'e + 's" where
  "visit_stack rv step ctx [] s = Ok s"
| "visit_stack rv step ctx ((out, c) # stack) s =
     and_then (step s out c) (\<lambda>s'.
       visit_stack rv step ctx (push_children rv (ctx out c) (ro_children out) stack) s')"
  by pat_completeness auto
termination
  by (relation "measure (\<lambda>(_, _, _, stack, _). sum_list (map (size \<circ> fst) stack))")
     (simp_all add: push_children_measure rule_output_children_size)

lemma rule_output_child_size [termination_simp]:
  "x \<in> set (if rv then children else rev children) \<Longrightarrow> size x < Suc (size_list size children)"
  by (auto split: if_splits simp: less_Suc_eq_le size_list_estimation')

fun preorder :: "bool \<Rightarrow> (rule_output \<Rightarrow> 'c \<Rightarrow> 'c) \<Rightarrow> 'c \<Rightarrow> rule_output \<Rightarrow> (rule_output \<times> 'c) list" where
  "preorder rv ctx c (RuleOutput seg children) =
     (RuleOutput seg children, c) #
     concat (map (preorder rv ctx (ctx (RuleOutput seg children) c)) (if rv then children else rev children))"

lemma visit_stack_preorder:
  "visit_stack rv step ctx stack s =
     try_fold (\<lambda>s (out, c). step s out c) s (concat (map (\<lambda>(out, c). preorder rv ctx c out) stack))"
proof (induction rv step ctx stack s rule: visit_stack.induct)
  case (1 rv step ctx s)
  then show ?case by simp
next
  case (2 rv step ctx out c stack s)
  obtain seg children where out: "out = RuleOutput seg children" by (cases out)
  show ?case
  proof (cases "step s out c")
    case (Inl e)
    then show ?thesis using out by simp
  next
    case (Inr s')
    from "2.IH" [OF Inr] show ?thesis
      using Inr out by (simp add: push_children_def comp_def)
  qed
qed

definition rule_output_new :: "slot_segment \<Rightarrow> rule_output list \<Rightarrow> graph_error + rule_output" where
  "rule_output_new seg children =
     and_then
       (visit_stack False
          (\<lambda>count out depth.
             if depth > MAX_RULE_OUTPUT_DEPTH then Err RuleOutputDepthLimit
             else if count + 1 > MAX_RULE_OUTPUTS then Err RuleOutputLimit
             else Ok (count + 1))
          (\<lambda>_ depth. depth + 1)
          (push_children False 2 children []) 1)
       (\<lambda>_. Ok (RuleOutput seg children))"

definition validate_rule_outputs ::
  "node_id \<Rightarrow> port_spec list \<Rightarrow> rule_output list \<Rightarrow> graph_error + unit" where
  "validate_rule_outputs rule_id ports outputs =
     and_then
       (visit_stack False
          (\<lambda>count out depth.
             if count + 1 > MAX_RULE_OUTPUTS then Err RuleOutputLimit
             else if depth > MAX_RULE_OUTPUT_DEPTH then Err RuleOutputDepthLimit
             else if producer_rule_id (ro_segment out) \<noteq> rule_id then Err InvalidOutputProducer
             else if output_port (ro_segment out) \<notin> port_name ` set ports then Err UnknownOutputPort
             else Ok (count + 1))
          (\<lambda>_ depth. depth + 1)
          (push_children False 1 outputs []) (0 :: nat))
       (\<lambda>_. Ok ())"

section \<open>Node checks and constructors\<close>

definition port_spec_number :: "str \<Rightarrow> graph_error + port_spec" where
  "port_spec_number name =
     and_then (map_err graph_error_of_slot (ensure_semantic_key name)) (\<lambda>_. Ok (PortSpec name VNumber))"

definition override_parameter_replace :: "str \<Rightarrow> graph_error + override_parameter_spec" where
  "override_parameter_replace name =
     and_then (map_err graph_error_of_slot (ensure_semantic_key name)) (\<lambda>_.
       Ok (OverrideParameterSpec name Replace))"

definition validate_node_header :: "node_id \<Rightarrow> str \<Rightarrow> node_id list \<Rightarrow> graph_error + unit" where
  "validate_node_header nid name dependencies =
     (if nid = 0 then Err ReservedNodeId
      else if trim_is_empty name then Err EmptyNodeName
      else if \<not> successively (<) dependencies then Err DependenciesNotCanonical
      else if nid \<in> set dependencies then Err (DependencyCycle nid)
      else Ok ())"

text \<open>The checks of \<^verbatim>\<open>validate_ports\<close> and \<^verbatim>\<open>validate_override_parameters\<close>: valid, distinct names.\<close>

definition validate_names :: "graph_error \<Rightarrow> str list \<Rightarrow> graph_error + unit" where
  "validate_names duplicate names =
     and_then
       (try_fold
          (\<lambda>seen name.
             and_then (map_err graph_error_of_slot (ensure_semantic_key name)) (\<lambda>_.
               if name \<in> set seen then Err duplicate else Ok (bs_insert name seen)))
          [] names)
       (\<lambda>_. Ok ())"

definition validate_ports :: "port_spec list \<Rightarrow> graph_error + unit" where
  "validate_ports ports = validate_names DuplicatePort (map port_name ports)"

definition validate_override_parameters :: "override_parameter_spec list \<Rightarrow> graph_error + unit" where
  "validate_override_parameters parameters =
     validate_names DuplicateOverrideParameter (map param_name parameters)"

definition dependency_ports :: "node_id list \<Rightarrow> graph_error + port_spec list" where
  "dependency_ports dependencies =
     try_map (\<lambda>d. port_spec_number (''node_'' @ nat_decimal (unat d))) dependencies"

definition evaluator_node_parameter ::
  "node_id \<Rightarrow> str \<Rightarrow> dimension \<Rightarrow> node_id list \<Rightarrow> graph_error + evaluator_node" where
  "evaluator_node_parameter nid name value dependencies =
     and_then (validate_node_header nid name dependencies) (\<lambda>_.
     and_then (dependency_ports dependencies) (\<lambda>inputs.
     and_then (port_spec_number ''value'') (\<lambda>out.
     Ok \<lparr>en_id = nid, en_name = name, en_kind = Parameter value, en_input_ports = inputs,
         en_output_ports = [out], en_dependencies = dependencies\<rparr>)))"

definition evaluator_node_expression :: "node_id \<Rightarrow> str \<Rightarrow> str \<Rightarrow> graph_error + evaluator_node" where
  "evaluator_node_expression nid name source =
     and_then (parse source) (\<lambda>ast.
     and_then (validate_node_header nid name (ast_dependencies ast)) (\<lambda>_.
     and_then (dependency_ports (ast_dependencies ast)) (\<lambda>inputs.
     and_then (port_spec_number ''value'') (\<lambda>out.
     Ok \<lparr>en_id = nid, en_name = name, en_kind = Expression source ast, en_input_ports = inputs,
         en_output_ports = [out], en_dependencies = ast_dependencies ast\<rparr>))))"

definition evaluator_node_rule ::
  "node_id \<Rightarrow> str \<Rightarrow> str \<Rightarrow> port_spec list \<Rightarrow> port_spec list \<Rightarrow> rule_output list \<Rightarrow>
   override_parameter_spec list \<Rightarrow> graph_error + evaluator_node" where
  "evaluator_node_rule nid name source input_ports output_ports outputs allowed =
     and_then (parse source) (\<lambda>ast.
     and_then (validate_node_header nid name (ast_dependencies ast)) (\<lambda>_.
     and_then (validate_ports input_ports) (\<lambda>_.
     and_then (validate_ports output_ports) (\<lambda>_.
     and_then (validate_override_parameters allowed) (\<lambda>_.
     and_then (guard (output_ports \<noteq> []) EmptyOutputPorts) (\<lambda>_.
     and_then (validate_rule_outputs nid output_ports outputs) (\<lambda>_.
     Ok \<lparr>en_id = nid, en_name = name, en_kind = Rule source ast outputs allowed,
         en_input_ports = input_ports, en_output_ports = output_ports,
         en_dependencies = ast_dependencies ast\<rparr>)))))))"

definition canonical_override_new ::
  "u64 \<Rightarrow> derived_identity \<Rightarrow> str \<Rightarrow> f64 \<Rightarrow> slot_resolution \<Rightarrow> graph_error + canonical_override" where
  "canonical_override_new oid target parameter value health =
     and_then (guard (oid \<noteq> 0) ReservedOverrideId) (\<lambda>_.
     and_then (map_err graph_error_of_slot (ensure_semantic_key parameter)) (\<lambda>_.
     and_then (guard (f64_is_finite value) NonFiniteOverride) (\<lambda>_.
     Ok \<lparr>ov_id = oid, ov_target = target, ov_parameter = parameter, ov_value_bits = value,
         ov_health = health\<rparr>)))"

section \<open>Slot resolution\<close>

fun resolve_outputs_from :: "nat \<Rightarrow> rule_output list \<Rightarrow> slot_segment list \<Rightarrow> slot_resolution" where
  "resolve_outputs_from index candidates [] = Resolved"
| "resolve_outputs_from index candidates (seg # segs) =
     (case filter (\<lambda>out. ro_segment out = seg) candidates of
        [] \<Rightarrow> Lost index
      | [resolved] \<Rightarrow> resolve_outputs_from (Suc index) (ro_children resolved) segs
      | _ \<Rightarrow> Ambiguous index)"

definition resolve_outputs :: "rule_output list \<Rightarrow> slot_path \<Rightarrow> slot_resolution" where
  "resolve_outputs outputs path = resolve_outputs_from 0 outputs (segments path)"

definition resolve_slot_path :: "evaluator_node \<Rightarrow> slot_path \<Rightarrow> slot_resolution" where
  "resolve_slot_path node path =
     (case en_kind node of Rule _ _ outputs _ \<Rightarrow> resolve_outputs outputs path | _ \<Rightarrow> Lost 0)"

definition is_rule :: "evaluator_node \<Rightarrow> bool" where
  "is_rule node = (case en_kind node of Rule _ _ _ _ \<Rightarrow> True | _ \<Rightarrow> False)"

text \<open>The loop over the path's segments: the first index whose producer or port is wrong.\<close>

fun check_segments ::
  "(node_id, evaluator_node) btree_map \<Rightarrow> node_id \<Rightarrow> nat \<Rightarrow> slot_segment list \<Rightarrow> nat option" where
  "check_segments nodes root index [] = None"
| "check_segments nodes root index (seg # segs) =
     (if producer_rule_id seg \<noteq> root then Some index
      else
        (case bt_get nodes (producer_rule_id seg) of
           None \<Rightarrow> Some index
         | Some producer \<Rightarrow>
           if \<not> is_rule producer \<or> output_port seg \<notin> port_name ` set (en_output_ports producer)
           then Some index
           else check_segments nodes root (Suc index) segs))"

definition resolve_derived_identity ::
  "(node_id, evaluator_node) btree_map \<Rightarrow> derived_identity \<Rightarrow> slot_resolution" where
  "resolve_derived_identity nodes ident =
     (case bt_get nodes (root_rule_node_id ident) of
        None \<Rightarrow> Lost 0
      | Some root \<Rightarrow>
        if \<not> is_rule root then Lost 0
        else
          (case check_segments nodes (root_rule_node_id ident) 0 (segments (slot_path ident)) of
             Some index \<Rightarrow> Lost index
           | None \<Rightarrow> resolve_slot_path root (slot_path ident)))"

section \<open>Canonical bytes\<close>

definition push_u64 :: "u64 \<Rightarrow> bytes" where
  "push_u64 v = le_bytes 8 (unat v)"

text \<open>A length as \<^verbatim>\<open>len() as u64\<close>.\<close>

definition push_len :: "nat \<Rightarrow> bytes" where
  "push_len n = push_u64 (of_nat n)"

definition push_bytes :: "bytes \<Rightarrow> bytes" where
  "push_bytes v = push_len (length v) @ v"

definition push_string :: "str \<Rightarrow> bytes" where
  "push_string s = push_bytes (str_bytes s)"

definition push_ids :: "node_id list \<Rightarrow> bytes" where
  "push_ids ids = push_len (length ids) @ concat (map push_u64 ids)"

definition push_port :: "port_spec \<Rightarrow> bytes" where
  "push_port port = push_string (port_name port) @ [case port_type port of VNumber \<Rightarrow> 1]"

definition push_ports :: "port_spec list \<Rightarrow> bytes" where
  "push_ports ports = push_len (length ports) @ concat (map push_port ports)"

definition push_output_header :: "rule_output \<Rightarrow> bytes" where
  "push_output_header out =
     push_u64 (producer_rule_id (ro_segment out)) @ push_string (output_port (ro_segment out)) @
     push_string (semantic_key (ro_segment out)) @ push_len (length (ro_children out))"

definition push_outputs :: "rule_output list \<Rightarrow> bytes" where
  "push_outputs outputs =
     push_len (length outputs) @
     (case visit_stack True (\<lambda>bs out _. Ok (bs @ push_output_header out)) (\<lambda>_ c. c)
             (push_children True () outputs []) [] of
        Inr bs \<Rightarrow> bs | Inl e \<Rightarrow> (e :: bytes))"

definition push_parameter :: "override_parameter_spec \<Rightarrow> bytes" where
  "push_parameter p = push_string (param_name p) @ [case merge_policy p of Replace \<Rightarrow> 1]"

definition kind_bytes :: "evaluator_node_kind \<Rightarrow> bytes" where
  "kind_bytes kind =
     (case kind of
        Parameter value \<Rightarrow> [1] @ push_string (source_token value) @ push_u64 (millimetres value)
      | Expression source ast \<Rightarrow> [2] @ push_string source
      | Rule source ast outputs allowed \<Rightarrow>
          [3] @ push_string source @ push_outputs outputs @ push_len (length allowed) @
          concat (map push_parameter allowed))"

definition canonical_spec_bytes :: "evaluator_node \<Rightarrow> bytes" where
  "canonical_spec_bytes node =
     push_u64 (en_id node) @ push_string (en_name node) @ push_ports (en_input_ports node) @
     push_ports (en_output_ports node) @ push_ids (en_dependencies node) @ kind_bytes (en_kind node)"

definition hex_digit :: "nat \<Rightarrow> char" where
  "hex_digit n = (if n < 10 then char_of (48 + n) else char_of (87 + n))"

definition hex_byte :: "u8 \<Rightarrow> str" where
  "hex_byte b = [hex_digit (unat b div 16), hex_digit (unat b mod 16)]"

definition hex_encode :: "bytes \<Rightarrow> str" where
  "hex_encode bs = concat (map hex_byte bs)"

definition sha256_hex :: "(bytes \<Rightarrow> bytes) \<Rightarrow> bytes \<Rightarrow> str" where
  "sha256_hex sha bs = hex_encode (sha bs)"

definition is_sha256_hex :: "str \<Rightarrow> bool" where
  "is_sha256_hex v =
     (length v = 64 \<and>
      list_all (\<lambda>c. is_digit c \<or> (97 \<le> (of_char c :: nat) \<and> (of_char c :: nat) \<le> 102)) v)"

section \<open>Rule outputs: the checks\<close>

fun ro_size :: "rule_output \<Rightarrow> nat" where
  "ro_size (RuleOutput seg children) = Suc (sum_list (map ro_size children))"

fun ro_height :: "rule_output \<Rightarrow> nat" where
  "ro_height (RuleOutput seg children) = Suc (fold (max \<circ> ro_height) children 0)"

fun ro_all :: "(slot_segment \<Rightarrow> bool) \<Rightarrow> rule_output \<Rightarrow> bool" where
  "ro_all P (RuleOutput seg children) \<longleftrightarrow> P seg \<and> list_all (ro_all P) children"

definition forest_size :: "rule_output list \<Rightarrow> nat" where
  "forest_size outputs = sum_list (map ro_size outputs)"

definition forest_height :: "rule_output list \<Rightarrow> nat" where
  "forest_height outputs = fold (max \<circ> ro_height) outputs 0"

lemma fold_max_le: "fold (max \<circ> f) xs (a :: nat) \<le> b \<longleftrightarrow> a \<le> b \<and> (\<forall>x\<in>set xs. f x \<le> b)"
  by (induction xs arbitrary: a) auto

lemma if_rev_simps:
  "set (if rv then xs else rev xs) = set xs"
  "sum_list (map f (if rv then xs else rev xs)) = (sum_list (map f xs) :: nat)"
  by (simp_all add: rev_map [symmetric])

lemma length_preorder: "length (preorder rv ctx c out) = ro_size out"
proof (induction out arbitrary: c)
  case (RuleOutput seg children)
  have "sum_list (map (length \<circ> preorder rv ctx c') children) = sum_list (map ro_size children)" for c'
    by (rule arg_cong [of _ _ sum_list]) (simp add: RuleOutput)
  then show ?case by (simp only: preorder.simps length_concat list.size map_map if_rev_simps ro_size.simps)
qed

lemma set_preorder:
  "set (preorder rv ctx c (RuleOutput seg children)) =
     insert (RuleOutput seg children, c)
       (\<Union>y\<in>set children. set (preorder rv ctx (ctx (RuleOutput seg children) c) y))"
  by (simp only: preorder.simps set_concat set_map list.set if_rev_simps image_image)

lemma preorder_segments:
  "(\<forall>p\<in>set (preorder rv ctx c out). P (ro_segment (fst p))) \<longleftrightarrow> ro_all P out"
proof (induction out arbitrary: c)
  case (RuleOutput seg children)
  have "(\<forall>y\<in>set children. \<forall>p\<in>set (preorder rv ctx c' y). P (ro_segment (fst p))) \<longleftrightarrow>
      list_all (ro_all P) children" for c'
    using RuleOutput by (simp add: list_all_iff)
  then show ?case by (simp add: set_preorder del: preorder.simps)
qed

lemma preorder_depths:
  "(\<forall>p\<in>set (preorder rv (\<lambda>_ d. d + 1) c out). snd p \<le> (m :: nat)) \<longleftrightarrow> c + ro_height out \<le> m + 1"
proof (induction out arbitrary: c)
  case (RuleOutput seg children)
  have "(\<forall>y\<in>set children. \<forall>p\<in>set (preorder rv (\<lambda>_ d. d + 1) (c + 1) y). snd p \<le> m) \<longleftrightarrow>
      (\<forall>y\<in>set children. c + 1 + ro_height y \<le> m + 1)"
    using RuleOutput by simp
  moreover have "c + Suc (fold (max \<circ> ro_height) children 0) \<le> m + 1 \<longleftrightarrow>
      c \<le> m \<and> (\<forall>y\<in>set children. c + 1 + ro_height y \<le> m + 1)"
    using fold_max_le [of ro_height children 0 "m - c"] by auto
  ultimately show ?case by (simp add: set_preorder del: preorder.simps)
qed

text \<open>The whole forest, as the walk from its roots sees it.\<close>

definition forest_walk ::
  "bool \<Rightarrow> (rule_output \<Rightarrow> 'c \<Rightarrow> 'c) \<Rightarrow> 'c \<Rightarrow> rule_output list \<Rightarrow> (rule_output \<times> 'c) list" where
  "forest_walk rv ctx c outputs =
     concat (map (preorder rv ctx c) (if rv then outputs else rev outputs))"

lemma visit_stack_forest:
  "visit_stack rv step ctx (push_children rv c outputs []) s =
     try_fold (\<lambda>s (out, c). step s out c) s (forest_walk rv ctx c outputs)"
  by (simp add: visit_stack_preorder push_children_def forest_walk_def comp_def)

lemma set_forest_walk: "set (forest_walk rv ctx c outputs) = (\<Union>y\<in>set outputs. set (preorder rv ctx c y))"
  by (simp only: forest_walk_def set_concat set_map if_rev_simps image_image)

lemma forest_walk_spec:
  shows "length (forest_walk rv ctx c outputs) = forest_size outputs"
    and "(\<forall>p\<in>set (forest_walk rv ctx c outputs). P (ro_segment (fst p))) \<longleftrightarrow> list_all (ro_all P) outputs"
    and "(\<forall>p\<in>set (forest_walk rv (\<lambda>_ d. d + 1) (Suc k) outputs). snd p \<le> m) \<longleftrightarrow>
      outputs = [] \<or> k + forest_height outputs \<le> m"
proof -
  show "length (forest_walk rv ctx c outputs) = forest_size outputs"
    by (simp only: forest_walk_def forest_size_def length_concat map_map if_rev_simps comp_def length_preorder)
  show "(\<forall>p\<in>set (forest_walk rv ctx c outputs). P (ro_segment (fst p))) \<longleftrightarrow> list_all (ro_all P) outputs"
    using preorder_segments [of rv ctx c _ P] by (simp add: set_forest_walk list_all_iff)
  have "(\<forall>p\<in>set (forest_walk rv (\<lambda>_ d. d + 1) (Suc k) outputs). snd p \<le> m) \<longleftrightarrow>
      (\<forall>y\<in>set outputs. k + ro_height y \<le> m)"
    using preorder_depths [of rv "Suc k"] by (simp add: set_forest_walk)
  also have "\<dots> \<longleftrightarrow> outputs = [] \<or> k + forest_height outputs \<le> m"
  proof (cases outputs)
    case (Cons y ys)
    then show ?thesis
      using fold_max_le [of ro_height outputs 0 "m - k"] by (cases y) (auto simp: forest_height_def)
  qed simp
  finally show "(\<forall>p\<in>set (forest_walk rv (\<lambda>_ d. d + 1) (Suc k) outputs). snd p \<le> m) \<longleftrightarrow>
      outputs = [] \<or> k + forest_height outputs \<le> m" .
qed

text \<open>A counting walk with a check on every visit: it succeeds exactly when every check does.\<close>

lemma try_fold_count:
  assumes "\<And>n x. is_ok (f n x) \<longleftrightarrow> Suc n \<le> m \<and> P x" and "\<And>n x n'. f n x = Inr n' \<Longrightarrow> n' = Suc n"
  shows "is_ok (try_fold f n xs) \<longleftrightarrow> (xs = [] \<or> n + length xs \<le> m) \<and> (\<forall>x\<in>set xs. P x)"
proof (induction xs arbitrary: n)
  case Nil
  then show ?case by simp
next
  case (Cons x xs)
  show ?case
  proof (cases "f n x")
    case (Inl e)
    then have "\<not> (Suc n \<le> m \<and> P x)" using assms(1) [of n x] by simp
    with Inl show ?thesis by auto
  next
    case (Inr n')
    then have "n' = Suc n" and "Suc n \<le> m \<and> P x" using assms by (simp, metis is_ok_simps(2))
    with Inr Cons show ?thesis by auto
  qed
qed

lemma is_ok_and_then_unit [simp]: "is_ok (and_then r (\<lambda>_. Inr y)) = is_ok r"
  by (cases r) auto

lemma validate_rule_outputs_walk:
  "is_ok (validate_rule_outputs rule_id ports outputs) \<longleftrightarrow>
     forest_size outputs \<le> MAX_RULE_OUTPUTS \<and> forest_height outputs \<le> MAX_RULE_OUTPUT_DEPTH \<and>
     list_all (ro_all (\<lambda>seg. producer_rule_id seg = rule_id \<and> output_port seg \<in> port_name ` set ports)) outputs"
proof -
  let ?Q = "\<lambda>seg. producer_rule_id seg = rule_id \<and> output_port seg \<in> port_name ` set ports"
  let ?P = "\<lambda>p :: rule_output \<times> nat. snd p \<le> MAX_RULE_OUTPUT_DEPTH \<and>
    ?Q (ro_segment (fst p))"
  let ?w = "forest_walk False (\<lambda>_ d. d + 1) (1 :: nat) outputs"
  have "is_ok (validate_rule_outputs rule_id ports outputs) \<longleftrightarrow>
      (?w = [] \<or> 0 + length ?w \<le> MAX_RULE_OUTPUTS) \<and> (\<forall>p\<in>set ?w. ?P p)"
    unfolding validate_rule_outputs_def is_ok_and_then_unit visit_stack_forest
    by (rule try_fold_count) (auto split: if_splits)
  also have "\<dots> \<longleftrightarrow> (?w = [] \<or> forest_size outputs \<le> MAX_RULE_OUTPUTS) \<and>
      (\<forall>p\<in>set ?w. snd p \<le> MAX_RULE_OUTPUT_DEPTH) \<and> (\<forall>p\<in>set ?w. ?Q (ro_segment (fst p)))"
    by (simp only: forest_walk_spec(1) ball_conj_distrib add_0)
  also have "?w = [] \<or> forest_size outputs \<le> MAX_RULE_OUTPUTS \<longleftrightarrow> forest_size outputs \<le> MAX_RULE_OUTPUTS"
    using forest_walk_spec(1) [of False "\<lambda>_ d. d + 1" "1 :: nat" outputs] by auto
  finally show ?thesis
    using forest_walk_spec(2) [of False "\<lambda>_ d. d + 1" "1 :: nat" outputs ?Q]
      forest_walk_spec(3) [of False 0 outputs MAX_RULE_OUTPUT_DEPTH]
    by (auto simp: forest_height_def)
qed

section \<open>The canonical bytes determine the node\<close>

text \<open>
  Lengths are written as \<^verbatim>\<open>u64\<close>, so the encodings are prefix codes on values whose collections
  are shorter than \<open>2 ^ 64\<close>, which holds of everything a Rust program can store.
\<close>

definition fits :: "'a list \<Rightarrow> bool" where
  "fits xs \<longleftrightarrow> length xs < 2 ^ 64"

lemma length_push_u64 [simp]: "length (push_u64 v) = 8"
  by (simp add: push_u64_def)

lemma push_u64_inject [simp]: "push_u64 v = push_u64 w \<longleftrightarrow> v = w"
proof
  assume "push_u64 v = push_u64 w"
  then have "unat v = unat w" by (intro le_bytes_inject [of _ 8]) (simp_all add: push_u64_def)
  then show "v = w" by (rule unsigned_word_eqI)
qed simp

interpretation pc_u64: prefix_code push_u64 "\<lambda>_. True"
  by unfold_locales simp

lemma push_len_split:
  "fits xs \<Longrightarrow> fits ys \<Longrightarrow> push_len (length xs) @ r = push_len (length ys) @ s \<Longrightarrow>
     length xs = length ys \<and> r = s"
  using take_bit_nat_eq_self [of "length xs" 64] take_bit_nat_eq_self [of "length ys" 64]
  by (auto simp: push_len_def fits_def word_of_nat_eq_iff)

context prefix_code
begin

lemma push_list_split:
  assumes "fits xs" and "fits ys" and "list_all ok xs" and "list_all ok ys"
    and eq: "push_len (length xs) @ concat (map enc xs) @ r = push_len (length ys) @ concat (map enc ys) @ s"
  shows "xs = ys \<and> r = s"
  using push_len_split [OF assms(1,2) eq] enc_list_split [OF _ assms(3,4)] by blast

end

interpretation pc_string: prefix_code push_string fits
proof
  fix x y :: str and r s
  assume f: "fits x" "fits y" and eq: "push_string x @ r = push_string y @ s"
  then have "length x = length y \<and> str_bytes x @ r = str_bytes y @ s"
    by (intro push_len_split) (simp_all add: push_string_def push_bytes_def)
  then show "x = y \<and> r = s" using append_eq_append_conv [of "str_bytes x" "str_bytes y"] by auto
qed

interpretation pc_bytes: prefix_code push_bytes fits
proof
  fix x y r s :: bytes
  assume f: "fits x" "fits y" and eq: "push_bytes x @ r = push_bytes y @ s"
  then have "length x = length y \<and> x @ r = y @ s"
    by (intro push_len_split) (simp_all add: push_bytes_def)
  then show "x = y \<and> r = s" using append_eq_append_conv [of x y] by auto
qed

interpretation pc_port: prefix_code push_port "\<lambda>p. fits (port_name p)"
proof
  fix x y r s assume "fits (port_name x)" "fits (port_name y)" and eq: "push_port x @ r = push_port y @ s"
  then have "port_name x = port_name y \<and> 1 # r = 1 # s"
    by (intro pc_string.enc_split)
      (simp_all add: push_port_def split: value_type.splits)
  then show "x = y \<and> r = s"
    using value_type.exhaust by (cases x; cases y) (metis list.inject port_spec.sel(1))
qed

interpretation pc_parameter: prefix_code push_parameter "\<lambda>p. fits (param_name p)"
proof
  fix x y r s
  assume "fits (param_name x)" "fits (param_name y)" and eq: "push_parameter x @ r = push_parameter y @ s"
  then have "param_name x = param_name y \<and> 1 # r = 1 # s"
    by (intro pc_string.enc_split)
      (simp_all add: push_parameter_def split: override_merge_policy.splits)
  then show "x = y \<and> r = s"
    using override_merge_policy.exhaust
    by (cases x; cases y) (metis list.inject override_parameter_spec.sel(1))
qed

lemmas pc_ids_split = pc_u64.push_list_split [unfolded append_assoc [symmetric], folded push_ids_def]
lemmas pc_ports_split = pc_port.push_list_split [unfolded append_assoc [symmetric], folded push_ports_def]

text \<open>A tree of rule outputs: header, then the children, whose number the header holds.\<close>

fun tree_bytes :: "rule_output \<Rightarrow> bytes" where
  "tree_bytes (RuleOutput seg children) =
     push_output_header (RuleOutput seg children) @ concat (map tree_bytes children)"

fun tree_fits :: "rule_output \<Rightarrow> bool" where
  "tree_fits (RuleOutput seg children) \<longleftrightarrow>
     fits (output_port seg) \<and> fits (semantic_key seg) \<and> fits children \<and> list_all tree_fits children"

lemma try_fold_append_bytes:
  "try_fold (\<lambda>bs x. Ok (bs @ f x)) acc xs = Ok (acc @ concat (map f xs))"
  by (induction xs arbitrary: acc) auto

lemma concat_map_concat: "concat (map f (concat xss)) = concat (map (\<lambda>xs. concat (map f xs)) xss)"
  by (induction xss) auto

lemma tree_bytes_preorder:
  "concat (map (\<lambda>p. push_output_header (fst p)) (preorder True ctx c out)) = tree_bytes out"
proof (induction out arbitrary: c)
  case (RuleOutput seg children)
  then show ?case by (simp add: concat_map_concat comp_def cong: map_cong)
qed

lemma push_outputs_trees:
  "push_outputs outputs = push_len (length outputs) @ concat (map tree_bytes outputs)"
proof -
  have "try_fold (\<lambda>bs (out, c). Inr (bs @ push_output_header out)) [] xs =
      (Inr (concat (map (\<lambda>p. push_output_header (fst p)) xs)) :: bytes + bytes)"
    for xs :: "(rule_output \<times> unit) list"
    using try_fold_append_bytes [of "\<lambda>p. push_output_header (fst p)" "[]" xs] by (simp add: case_prod_beta')
  moreover have "concat (map (\<lambda>p. push_output_header (fst p)) (forest_walk True (\<lambda>_ c. c) () outputs)) =
      concat (map tree_bytes outputs)"
    by (simp add: forest_walk_def concat_map_concat comp_def tree_bytes_preorder)
  ultimately show ?thesis by (simp add: push_outputs_def visit_stack_forest)
qed

lemma push_output_header_split:
  assumes "push_output_header (RuleOutput s1 c1) @ r = push_output_header (RuleOutput s2 c2) @ t"
    and "tree_fits (RuleOutput s1 c1)" and "tree_fits (RuleOutput s2 c2)"
  shows "s1 = s2 \<and> length c1 = length c2 \<and> r = t"
proof -
  have p: "producer_rule_id s1 = producer_rule_id s2"
    and e1: "push_string (output_port s1) @ push_string (semantic_key s1) @ push_len (length c1) @ r =
      push_string (output_port s2) @ push_string (semantic_key s2) @ push_len (length c2) @ t"
    using assms(1) by (simp_all add: push_output_header_def)
  from pc_string.enc_split [OF _ _ e1] assms(2,3) have o: "output_port s1 = output_port s2"
    and e2: "push_string (semantic_key s1) @ push_len (length c1) @ r =
      push_string (semantic_key s2) @ push_len (length c2) @ t" by auto
  from pc_string.enc_split [OF _ _ e2] assms(2,3) have k: "semantic_key s1 = semantic_key s2"
    and e3: "push_len (length c1) @ r = push_len (length c2) @ t" by auto
  from push_len_split [OF _ _ e3] assms(2,3) p o k show ?thesis
    by (cases s1; cases s2) auto
qed

lemma tree_bytes_split:
  "tree_fits x \<Longrightarrow> tree_fits y \<Longrightarrow> tree_bytes x @ r = tree_bytes y @ s \<Longrightarrow> x = y \<and> r = s"
proof (induction x arbitrary: y r s)
  case (RuleOutput seg children)
  obtain seg' children' where y: "y = RuleOutput seg' children'" by (cases y)
  have hd: "seg = seg' \<and> length children = length children' \<and>
      concat (map tree_bytes children) @ r = concat (map tree_bytes children') @ s"
    by (rule push_output_header_split) (use RuleOutput.prems y in simp_all)
  have "length xs = length ys \<Longrightarrow> set xs \<subseteq> set children \<Longrightarrow> list_all tree_fits xs \<Longrightarrow>
      list_all tree_fits ys \<Longrightarrow>
      concat (map tree_bytes xs) @ r = concat (map tree_bytes ys) @ s \<Longrightarrow> xs = ys \<and> r = s" for xs ys
  proof (induction xs ys rule: list_induct2)
    case (Cons x xs y ys)
    have "x = y \<and> concat (map tree_bytes xs) @ r = concat (map tree_bytes ys) @ s"
      by (rule RuleOutput.IH) (use Cons.prems in auto)
    with Cons show ?case by auto
  qed simp
  from this [of children children'] hd RuleOutput.prems y show ?case by auto
qed

interpretation pc_tree: prefix_code tree_bytes tree_fits
  by unfold_locales (rule tree_bytes_split)

definition kind_fits :: "evaluator_node_kind \<Rightarrow> bool" where
  "kind_fits kind =
     (case kind of
        Parameter value \<Rightarrow> fits (source_token value)
      | Expression source ast \<Rightarrow> fits source
      | Rule source ast outputs allowed \<Rightarrow>
          fits source \<and> fits outputs \<and> list_all tree_fits outputs \<and> fits allowed \<and>
          list_all (\<lambda>p. fits (param_name p)) allowed)"

definition node_fits :: "evaluator_node \<Rightarrow> bool" where
  "node_fits node \<longleftrightarrow>
     fits (en_name node) \<and> fits (en_input_ports node) \<and> fits (en_output_ports node) \<and>
     list_all (\<lambda>p. fits (port_name p)) (en_input_ports node @ en_output_ports node) \<and>
     fits (en_dependencies node) \<and> kind_fits (en_kind node)"

text \<open>The tree of a node is what its source parses to, as every constructor makes it.\<close>

definition kind_parsed :: "evaluator_node_kind \<Rightarrow> bool" where
  "kind_parsed kind =
     (case kind of
        Parameter value \<Rightarrow> True
      | Expression source ast \<Rightarrow> parse source = Inr ast
      | Rule source ast outputs allowed \<Rightarrow> parse source = Inr ast)"

lemma kind_bytes_split:
  assumes "kind_fits k1" and "kind_fits k2" and "kind_parsed k1" and "kind_parsed k2"
    and "kind_bytes k1 = kind_bytes k2"
  shows "k1 = k2"
proof (cases k1)
  case (Parameter v1)
  with assms(5) obtain v2 where k2: "k2 = Parameter v2"
    by (cases k2) (auto simp: kind_bytes_def)
  have "source_token v1 = source_token v2 \<and> push_u64 (millimetres v1) = push_u64 (millimetres v2)"
    by (rule pc_string.enc_split) (use assms Parameter k2 in \<open>simp_all add: kind_bytes_def kind_fits_def\<close>)
  with Parameter k2 show ?thesis by (cases v1; cases v2) auto
next
  case (Expression s1 a1)
  with assms(5) obtain s2 a2 where k2: "k2 = Expression s2 a2"
    by (cases k2) (auto simp: kind_bytes_def)
  have "s1 = s2"
    by (rule pc_string.enc_inject) (use assms Expression k2 in \<open>simp_all add: kind_bytes_def kind_fits_def\<close>)
  with assms(3,4) Expression k2 show ?thesis by (auto simp: kind_parsed_def)
next
  case (Rule s1 a1 o1 p1)
  with assms(5) obtain s2 a2 o2 p2 where k2: "k2 = Rule s2 a2 o2 p2"
    by (cases k2) (auto simp: kind_bytes_def)
  note [simp] = kind_bytes_def kind_fits_def
  have s: "s1 = s2 \<and> push_outputs o1 @ push_len (length p1) @ concat (map push_parameter p1) =
      push_outputs o2 @ push_len (length p2) @ concat (map push_parameter p2)"
    by (rule pc_string.enc_split) (use assms Rule k2 in simp_all)
  then have o: "o1 = o2 \<and> push_len (length p1) @ concat (map push_parameter p1) =
      push_len (length p2) @ concat (map push_parameter p2)"
    by (intro pc_tree.push_list_split) (use assms Rule k2 in \<open>simp_all add: push_outputs_trees\<close>)
  then have "p1 = p2 \<and> ([] :: bytes) = []"
    by (intro pc_parameter.push_list_split) (use assms Rule k2 in simp_all)
  with s o assms(3,4) Rule k2 show ?thesis by (auto simp: kind_parsed_def)
qed

lemma canonical_spec_bytes_inject:
  assumes "node_fits n" and "node_fits m" and "kind_parsed (en_kind n)" and "kind_parsed (en_kind m)"
    and "canonical_spec_bytes n = canonical_spec_bytes m"
  shows "n = m"
proof -
  note [simp] = node_fits_def
  have i: "en_id n = en_id m"
    and e0: "push_string (en_name n) @ push_ports (en_input_ports n) @ push_ports (en_output_ports n) @
        push_ids (en_dependencies n) @ kind_bytes (en_kind n) =
      push_string (en_name m) @ push_ports (en_input_ports m) @ push_ports (en_output_ports m) @
        push_ids (en_dependencies m) @ kind_bytes (en_kind m)"
    using assms(5) by (simp_all add: canonical_spec_bytes_def)
  note e1 = pc_string.enc_split [OF _ _ e0]
  have 1: "en_name n = en_name m" using e1 assms by simp
  note e2 = pc_ports_split [OF _ _ _ _ e1 [THEN conjunct2]]
  have 2: "en_input_ports n = en_input_ports m" using e2 assms by simp
  note e3 = pc_ports_split [OF _ _ _ _ e2 [THEN conjunct2]]
  have 3: "en_output_ports n = en_output_ports m" using e3 assms by simp
  note e4 = pc_ids_split [OF _ _ _ _ e3 [THEN conjunct2]]
  have 4: "en_dependencies n = en_dependencies m \<and> kind_bytes (en_kind n) = kind_bytes (en_kind m)"
    using e4 assms by (simp add: list_all_iff)
  then have "en_kind n = en_kind m"
    by (intro kind_bytes_split) (use assms in simp_all)
  with i 1 2 3 4 show ?thesis by simp
qed

end
