(* ===== verification/Ketchup_Graph.thy ===== *)
theory Ketchup_Graph
  imports Ketchup_Node
begin

text \<open>
  The node graph of \<^verbatim>\<open>ketchup-model/src/graph.rs\<close>: \<^verbatim>\<open>topological_order\<close> (Kahn's algorithm
  over an ordered ready set) and \<^verbatim>\<open>validate_graph\<close>.  Both run in a result that can also be a
  panic: decrementing a degree of zero panics.  The invariant of the loop relates every degree
  to the dependencies still missing from the order.
\<close>

type_synonym node_map = "(node_id, evaluator_node) btree_map"

section \<open>Model\<close>

text \<open>One turn of the loop that counts dependencies and inverts the edges.\<close>

definition entry_push :: "'k::linorder \<Rightarrow> 'v \<Rightarrow> ('k, 'v list) btree_map \<Rightarrow> ('k, 'v list) btree_map" where
  "entry_push k v m = bt_insert k ((case bt_get m k of None \<Rightarrow> [] | Some vs \<Rightarrow> vs) @ [v]) m"

definition count_node ::
  "node_map \<Rightarrow> (node_id, nat) btree_map \<times> (node_id, node_id list) btree_map \<Rightarrow> node_id \<times> evaluator_node \<Rightarrow>
   graph_error fault + (node_id, nat) btree_map \<times> (node_id, node_id list) btree_map" where
  "count_node nodes st entry =
     and_then
       (try_fold
          (\<lambda>dependents dependency.
             if bt_contains nodes dependency then Ok (entry_push dependency (fst entry) dependents)
             else Err (Returned (MissingDependency dependency)))
          (snd st) (en_dependencies (snd entry)))
       (\<lambda>dependents.
          Ok (bt_insert (fst entry) (length (en_dependencies (snd entry))) (fst st), dependents))"

definition relax_child ::
  "(node_id, nat) btree_map \<times> node_id list \<Rightarrow> node_id \<Rightarrow>
   graph_error fault + (node_id, nat) btree_map \<times> node_id list" where
  "relax_child st child =
     (case bt_get (fst st) child of
        None \<Rightarrow> Err (Returned (MissingDependency child))
      | Some 0 \<Rightarrow> Err Panicked
      | Some (Suc d) \<Rightarrow>
          Ok (bt_update child d (fst st), if d = 0 then bs_insert child (snd st) else snd st))"

lemma length_bs_insert: "length (bs_insert x xs) \<le> Suc (length xs)"
  by (induction x xs rule: bs_insert.induct) auto

definition open_degrees :: "(node_id, nat) btree_map \<Rightarrow> nat" where
  "open_degrees indegree = length (filter (\<lambda>p. 0 < snd p) indegree)"

lemma open_degrees_update:
  "bt_get m k = Some (Suc d) \<Longrightarrow> open_degrees (bt_update k 0 m) = open_degrees m - 1 \<and> 0 < open_degrees m"
  "bt_get m k = Some (Suc (Suc d)) \<Longrightarrow> open_degrees (bt_update k (Suc d) m) = open_degrees m"
  by (induction m) (auto simp: open_degrees_def split: if_splits)

lemma relax_child_measure:
  assumes "relax_child st child = Inr st'"
  shows "length (snd st') + open_degrees (fst st') \<le> length (snd st) + open_degrees (fst st)"
proof -
  from assms obtain d where d: "bt_get (fst st) child = Some (Suc d)"
    and st': "st' = (bt_update child d (fst st), if d = 0 then bs_insert child (snd st) else snd st)"
    by (auto simp: relax_child_def split: option.splits nat.splits)
  show ?thesis
    using d st' open_degrees_update [of "fst st" child] length_bs_insert [of child "snd st"]
    by (cases d) auto
qed

lemma relax_fold_measure:
  "try_fold relax_child st children = Inr st' \<Longrightarrow>
     length (snd st') + open_degrees (fst st') \<le> length (snd st) + open_degrees (fst st)"
  by (induction children arbitrary: st)
    (auto simp: result_simps dest: relax_child_measure intro: order_trans)

function (sequential) topo_loop ::
  "(node_id, node_id list) btree_map \<Rightarrow> (node_id, nat) btree_map \<Rightarrow> node_id list \<Rightarrow> node_id list \<Rightarrow>
   graph_error fault + (node_id, nat) btree_map \<times> node_id list" where
  "topo_loop dependents indegree [] order = Ok (indegree, order)"
| "topo_loop dependents indegree (nid # ready) order =
     and_then
       (case bt_get dependents nid of
          None \<Rightarrow> Ok (indegree, ready)
        | Some children \<Rightarrow> try_fold relax_child (indegree, ready) children)
       (\<lambda>st. topo_loop dependents (fst st) (snd st) (order @ [nid]))"
  by pat_completeness auto
termination
  by (relation "measure (\<lambda>(dependents, indegree, ready, order). length ready + open_degrees indegree)")
    (auto split: option.splits dest: relax_fold_measure)

definition topological_order :: "node_map \<Rightarrow> graph_error fault + node_id list" where
  "topological_order nodes =
     and_then (try_fold (count_node nodes) ([], []) nodes) (\<lambda>st.
     and_then
       (topo_loop (snd st) (fst st)
          (bs_of_list (map fst (filter (\<lambda>p. snd p = 0) (fst st)))) [])
       (\<lambda>result.
          if length (snd result) \<noteq> length nodes
          then Err (Returned (DependencyCycle
                 (case filter (\<lambda>p. snd p \<noteq> 0) (fst result) of [] \<Rightarrow> 0 | p # _ \<Rightarrow> fst p)))
          else Ok (snd result)))"

definition validate_node :: "node_map \<Rightarrow> node_id \<times> evaluator_node \<Rightarrow> graph_error + unit" where
  "validate_node nodes entry =
     and_then (guard (fst entry = en_id (snd entry)) NodeKeyMismatch) (\<lambda>_.
     and_then (validate_node_header (en_id (snd entry)) (en_name (snd entry)) (en_dependencies (snd entry))) (\<lambda>_.
     and_then
       (try_each (\<lambda>d. guard (bt_contains nodes d) (MissingDependency d)) (en_dependencies (snd entry)))
       (\<lambda>_.
          case en_kind (snd entry) of
            Rule _ _ outputs _ \<Rightarrow> validate_rule_outputs (en_id (snd entry)) (en_output_ports (snd entry)) outputs
          | _ \<Rightarrow> Ok ())))"

definition validate_graph :: "node_map \<Rightarrow> graph_error fault + unit" where
  "validate_graph nodes =
     and_then (map_err Returned (try_each (validate_node nodes) nodes)) (\<lambda>_.
     and_then (topological_order nodes) (\<lambda>_. Ok ()))"

section \<open>Topological orders\<close>

text \<open>
  A finite graph given by the dependencies of each vertex.  An order that lists every vertex
  after its dependencies shows the graph acyclic; a set of vertices every one of which waits
  for another of the set shows a cycle.
\<close>

locale dep_graph =
  fixes V :: "'n set" and deps :: "'n \<Rightarrow> 'n set"
  assumes finite_V: "finite V" and deps_V: "c \<in> V \<Longrightarrow> deps c \<subseteq> V"
begin

definition edges :: "('n \<times> 'n) set" where
  "edges = {(d, c). c \<in> V \<and> d \<in> deps c}"

definition prefix_closed :: "'n list \<Rightarrow> bool" where
  "prefix_closed order \<longleftrightarrow> (\<forall>xs c ys. order = xs @ c # ys \<longrightarrow> deps c \<subseteq> set xs)"

lemma finite_edges: "finite edges"
  by (rule finite_subset [of _ "V \<times> V"]) (use deps_V finite_V in \<open>auto simp: edges_def\<close>)

lemma prefix_closed_snoc:
  "prefix_closed order \<Longrightarrow> deps c \<subseteq> set order \<Longrightarrow> prefix_closed (order @ [c])"
  unfolding prefix_closed_def by (metis append_eq_append_conv_if append_self_conv append_take_drop_id
      butlast.simps(2) butlast_append butlast_snoc last_snoc list.distinct(1) last_appendR last.simps)

lemma ordered_acyclic:
  assumes "set order = V" and "prefix_closed order"
  shows "acyclic edges"
proof -
  have "edges \<subseteq> measure (\<lambda>c. length (takeWhile (\<lambda>x. x \<noteq> c) order))"
  proof (clarsimp simp: edges_def)
    fix d c assume c: "c \<in> V" and d: "d \<in> deps c"
    from c assms(1) obtain xs ys where o: "order = xs @ c # ys" and "c \<notin> set xs"
      using split_list_first by metis
    then have "takeWhile (\<lambda>x. x \<noteq> c) order = xs" by (simp add: takeWhile_append)
    moreover have "d \<in> set xs" using assms(2) o d by (auto simp: prefix_closed_def)
    then obtain us vs where "xs = us @ d # vs" "d \<notin> set us"
      using split_list_first by metis
    then have "length (takeWhile (\<lambda>x. x \<noteq> d) order) < length xs"
      using o by (simp add: takeWhile_append)
    ultimately show "length (takeWhile (\<lambda>x. x \<noteq> d) order) < length (takeWhile (\<lambda>x. x \<noteq> c) order)"
      by simp
  qed
  then show ?thesis by (meson wf_measure wf_acyclic acyclic_subset)
qed

lemma stuck_cyclic:
  assumes "P \<subset> V" and stuck: "\<And>c. c \<in> V - P \<Longrightarrow> \<not> deps c \<subseteq> P"
  shows "\<not> acyclic edges"
proof
  assume "acyclic edges"
  with finite_edges have "wf edges" by (rule finite_acyclic_wf)
  moreover from assms(1) obtain x where "x \<in> V - P" by blast
  ultimately obtain z where z: "z \<in> V - P" and least: "\<And>y. (y, z) \<in> edges \<Longrightarrow> y \<notin> V - P"
    by (rule wfE_min) blast
  from stuck [OF z] obtain d where "d \<in> deps z" "d \<notin> P" by blast
  then show False using least [of d] deps_V [of z] z by (auto simp: edges_def)
qed

end

definition deps_of :: "node_map \<Rightarrow> node_id \<Rightarrow> node_id list" where
  "deps_of nodes c = (case bt_get nodes c of None \<Rightarrow> [] | Some node \<Rightarrow> en_dependencies node)"

definition deps_in :: "node_map \<Rightarrow> node_id \<Rightarrow> node_id set" where
  "deps_in nodes c = set (deps_of nodes c) \<inter> set (bt_keys nodes)"

interpretation ng: dep_graph "set (bt_keys nodes)" "deps_in nodes" for nodes :: node_map
  by unfold_locales (auto simp: deps_in_def)

section \<open>Counting dependencies\<close>

definition dependents_of :: "(node_id, node_id list) btree_map \<Rightarrow> node_id \<Rightarrow> node_id list" where
  "dependents_of m d = (case bt_get m d of None \<Rightarrow> [] | Some cs \<Rightarrow> cs)"

lemma dependents_entry_push:
  "dependents_of (entry_push k v m) d = (if d = k then dependents_of m k @ [v] else dependents_of m d)"
  by (simp add: dependents_of_def entry_push_def)

lemma push_dependencies:
  "(\<forall>d\<in>set ds. bt_contains nodes d) \<Longrightarrow>
   \<exists>m'. try_fold (\<lambda>m d. if bt_contains nodes d then Ok (entry_push d c m)
                    else Err (Returned (MissingDependency d))) m ds = Inr m' \<and>
     (\<forall>d x. count_list (dependents_of m' d) x =
        count_list (dependents_of m d) x + (if x = c then count_list ds d else 0))"
proof (induction ds arbitrary: m)
  case Nil
  then show ?case by simp
next
  case (Cons d ds)
  from Cons.prems have "\<forall>d\<in>set ds. bt_contains nodes d" and d: "bt_contains nodes d" by auto
  from Cons.IH [OF this(1), of "entry_push d c m"] d show ?case
    by (auto simp: dependents_entry_push)
qed

lemma count_nodes:
  assumes "\<forall>e\<in>set es. \<forall>d\<in>set (en_dependencies (snd e)). bt_contains nodes d" and "distinct (map fst es)"
  shows "\<exists>st'. try_fold (count_node nodes) st es = Inr st' \<and>
    (bt_wf (fst st) \<longrightarrow> bt_wf (fst st')) \<and>
    (\<forall>c. bt_get (fst st') c =
       (case bt_get es c of None \<Rightarrow> bt_get (fst st) c | Some n \<Rightarrow> Some (length (en_dependencies n)))) \<and>
    (\<forall>d c. count_list (dependents_of (snd st') d) c = count_list (dependents_of (snd st) d) c +
       (case bt_get es c of None \<Rightarrow> 0 | Some n \<Rightarrow> count_list (en_dependencies n) d))"
  using assms
proof (induction es arbitrary: st)
  case Nil
  then show ?case by simp
next
  case (Cons e es)
  obtain c n where e: "e = (c, n)" by (cases e)
  have "\<forall>d\<in>set (en_dependencies n). bt_contains nodes d" using Cons.prems e by simp
  from push_dependencies [OF this, of c "snd st"] obtain m' where
    m': "count_node nodes st e = Inr (bt_insert c (length (en_dependencies n)) (fst st), m')"
    and cnt: "\<forall>d x. count_list (dependents_of m' d) x =
        count_list (dependents_of (snd st) d) x + (if x = c then count_list (en_dependencies n) d else 0)"
    by (auto simp: count_node_def e cong: if_cong)
  have new: "bt_get es c = None"
    using Cons.prems(2) e by (simp add: bt_get_def map_of_eq_None_iff)
  have "\<forall>e\<in>set es. \<forall>d\<in>set (en_dependencies (snd e)). bt_contains nodes d" "distinct (map fst es)"
    using Cons.prems by auto
  from Cons.IH [OF this, of "(bt_insert c (length (en_dependencies n)) (fst st), m')"]
  obtain st' where st': "try_fold (count_node nodes) (bt_insert c (length (en_dependencies n)) (fst st), m') es = Inr st'"
    "bt_wf (bt_insert c (length (en_dependencies n)) (fst st)) \<longrightarrow> bt_wf (fst st')"
    "\<And>x. bt_get (fst st') x = (case bt_get es x of None \<Rightarrow>
        bt_get (bt_insert c (length (en_dependencies n)) (fst st)) x | Some n \<Rightarrow> Some (length (en_dependencies n)))"
    "\<And>d x. count_list (dependents_of (snd st') d) x = count_list (dependents_of m' d) x +
        (case bt_get es x of None \<Rightarrow> 0 | Some n \<Rightarrow> count_list (en_dependencies n) d)"
    unfolding fst_conv snd_conv by blast
  show ?case
    using st' m' cnt new e by (intro exI [of _ st']) (auto split: option.splits)
qed

lemma count_missing:
  assumes "e \<in> set es" and "d \<in> set (en_dependencies (snd e))" and "\<not> bt_contains nodes d"
  shows "\<exists>d'. try_fold (count_node nodes) st es = Inl (Returned (MissingDependency d')) \<and>
    \<not> bt_contains nodes d'"
  using assms(1)
proof (induction es arbitrary: st)
  case Nil
  then show ?case by simp
next
  case (Cons x es)
  let ?f = "\<lambda>m d. if bt_contains nodes d then Ok (entry_push d (fst x) m)
              else Err (Returned (MissingDependency d))"
  have fault: "(\<exists>d\<in>set ds. \<not> bt_contains nodes d) \<Longrightarrow>
      \<exists>d'. try_fold ?f m ds = Inl (Returned (MissingDependency d')) \<and> \<not> bt_contains nodes d'" for ds m
    by (induction ds arbitrary: m) auto
  show ?case
  proof (cases "\<forall>d\<in>set (en_dependencies (snd x)). bt_contains nodes d")
    case True
    with push_dependencies [OF True, of "fst x" "snd st"] obtain st' where
      "count_node nodes st x = Inr st'" by (auto simp: count_node_def)
    moreover have "e \<in> set es" using Cons.prems True assms(2,3) by auto
    ultimately show ?thesis using Cons.IH by auto
  next
    case False
    with fault [of "en_dependencies (snd x)" "snd st"] show ?thesis by (auto simp: count_node_def)
  qed
qed

section \<open>The loop\<close>

definition missing :: "node_map \<Rightarrow> node_id set \<Rightarrow> node_id \<Rightarrow> nat" where
  "missing nodes P c = length (filter (\<lambda>d. d \<notin> P) (deps_of nodes c))"

text \<open>
  \<open>degrees nodes P extra m\<close>: every degree in \<open>m\<close> is the number of dependencies outside the
  processed set \<open>P\<close>, plus the decrements still to come for the node being processed.
\<close>

definition degrees :: "node_map \<Rightarrow> node_id set \<Rightarrow> node_id list \<Rightarrow> (node_id, nat) btree_map \<Rightarrow> bool" where
  "degrees nodes P extra m \<longleftrightarrow>
     (\<forall>c. bt_get m c =
        (if c \<in> set (bt_keys nodes) then Some (missing nodes P c + count_list extra c) else None))"

definition ready_set :: "node_map \<Rightarrow> node_id set \<Rightarrow> node_id list \<Rightarrow> node_id set" where
  "ready_set nodes P extra =
     {c \<in> set (bt_keys nodes). c \<notin> P \<and> missing nodes P c + count_list extra c = 0}"

definition inverts :: "node_map \<Rightarrow> (node_id, node_id list) btree_map \<Rightarrow> bool" where
  "inverts nodes m \<longleftrightarrow> (\<forall>d c. count_list (dependents_of m d) c = count_list (deps_of nodes c) d)"

definition kahn_inv :: "node_map \<Rightarrow> (node_id, nat) btree_map \<Rightarrow> node_id list \<Rightarrow> node_id list \<Rightarrow> bool" where
  "kahn_inv nodes indegree ready order \<longleftrightarrow>
     bs_wf ready \<and> distinct order \<and> set order \<subseteq> set (bt_keys nodes) \<and>
     degrees nodes (set order) [] indegree \<and> set ready = ready_set nodes (set order) [] \<and>
     (\<forall>c\<in>set order. set (deps_of nodes c) \<subseteq> set order) \<and> ng.prefix_closed nodes order"

lemma missing_insert:
  "c \<notin> P \<Longrightarrow> missing nodes P x = missing nodes (insert c P) x + count_list (deps_of nodes x) c"
proof -
  have "c \<notin> P \<Longrightarrow> length (filter (\<lambda>d. d \<notin> P) ds) =
      length (filter (\<lambda>d. d \<notin> insert c P) ds) + count_list ds c" for ds
    by (induction ds) auto
  then show "c \<notin> P \<Longrightarrow> ?thesis" by (simp add: missing_def)
qed

lemma missing_0_iff: "missing nodes P c = 0 \<longleftrightarrow> set (deps_of nodes c) \<subseteq> P"
  by (auto simp: missing_def filter_empty_conv)

lemma relax_children:
  assumes "degrees nodes P cs indegree" and "set ready = ready_set nodes P cs" and "bs_wf ready"
    and "set cs \<subseteq> set (bt_keys nodes) - P"
  shows "\<exists>st'. try_fold relax_child (indegree, ready) cs = Inr st' \<and> degrees nodes P [] (fst st') \<and>
    set (snd st') = ready_set nodes P [] \<and> bs_wf (snd st')"
  using assms
proof (induction cs arbitrary: indegree ready)
  case Nil
  then show ?case by simp
next
  case (Cons c cs)
  let ?d = "missing nodes P c + count_list cs c"
  let ?ready = "if ?d = 0 then bs_insert c ready else ready"
  have "bt_get indegree c = Some (Suc ?d)"
    using Cons.prems by (auto simp: degrees_def)
  then have step: "relax_child (indegree, ready) c = Inr (bt_update c ?d indegree, ?ready)"
    by (simp add: relax_child_def)
  have 1: "degrees nodes P cs (bt_update c ?d indegree)"
    using Cons.prems by (auto simp: degrees_def)
  have 2: "set ?ready = ready_set nodes P cs"
    using Cons.prems by (auto simp: ready_set_def split: if_splits)
  have 3: "bs_wf ?ready" using Cons.prems(3) by simp
  from Cons.IH [OF 1 2 3] Cons.prems(4) step show ?case by auto
qed

lemma dependents_keys:
  assumes "inverts nodes m" and "x \<in> set (dependents_of m c)"
  shows "x \<in> set (bt_keys nodes)" and "c \<in> set (deps_of nodes x)"
proof -
  have "count_list (deps_of nodes x) c \<noteq> 0"
    using assms unfolding inverts_def by (metis count_list_0_iff)
  then show c: "c \<in> set (deps_of nodes x)" by (simp add: count_list_0_iff)
  then show "x \<in> set (bt_keys nodes)"
    by (cases "bt_get nodes x") (auto simp: deps_of_def dest: bt_get_Some_keys)
qed

lemma kahn_step:
  assumes inv: "kahn_inv nodes indegree (c # ready) order" and "inverts nodes dependents"
  shows "\<exists>st'. try_fold relax_child (indegree, ready) (dependents_of dependents c) = Inr st' \<and>
    kahn_inv nodes (fst st') (snd st') (order @ [c])"
proof -
  let ?cs = "dependents_of dependents c" and ?P = "insert c (set order)"
  have c: "c \<in> set (bt_keys nodes)" "c \<notin> set order" "set (deps_of nodes c) \<subseteq> set order"
    using inv by (auto simp: kahn_inv_def ready_set_def missing_0_iff)
  have cnt: "missing nodes (set order) x = missing nodes ?P x + count_list ?cs x" for x
    using missing_insert [OF c(2), of nodes x] assms(2) by (simp add: inverts_def)
  have 1: "degrees nodes ?P ?cs indegree"
    using inv by (simp add: kahn_inv_def degrees_def cnt)
  have 2: "set ready = ready_set nodes ?P ?cs"
    using inv by (auto simp: kahn_inv_def ready_set_def cnt)
  have 3: "set ?cs \<subseteq> set (bt_keys nodes) - ?P"
    using dependents_keys [OF assms(2), of _ c] inv c unfolding kahn_inv_def by blast
  have 4: "ng.prefix_closed nodes (order @ [c])"
    using inv c(3) by (intro ng.prefix_closed_snoc) (auto simp: kahn_inv_def deps_in_def)
  from relax_children [OF 1 2 _ 3] inv c 4 show ?thesis
    by (auto simp: kahn_inv_def subset_iff)
qed

lemma topo_loop_kahn:
  assumes "kahn_inv nodes indegree ready order" and "inverts nodes dependents"
  shows "\<exists>indegree' order'. topo_loop dependents indegree ready order = Inr (indegree', order') \<and>
    kahn_inv nodes indegree' [] order'"
  using assms
proof (induction dependents indegree ready order rule: topo_loop.induct)
  case (1 dependents indegree order)
  then show ?case by auto
next
  case (2 dependents indegree c ready order)
  from kahn_step [OF "2.prems"] obtain st' where
    st': "try_fold relax_child (indegree, ready) (dependents_of dependents c) = Inr st'"
    and inv: "kahn_inv nodes (fst st') (snd st') (order @ [c])" by blast
  then have step: "(case bt_get dependents c of None \<Rightarrow> Ok (indegree, ready)
      | Some children \<Rightarrow> try_fold relax_child (indegree, ready) children) = Inr st'"
    by (auto simp: dependents_of_def split: option.splits)
  from "2.IH" [OF step inv "2.prems"(2)] step show ?case by simp
qed

section \<open>What the order is\<close>

definition closed_graph :: "node_map \<Rightarrow> bool" where
  "closed_graph nodes \<longleftrightarrow> (\<forall>e\<in>set nodes. \<forall>d\<in>set (en_dependencies (snd e)). bt_contains nodes d)"

definition dependency_edges :: "node_map \<Rightarrow> (node_id \<times> node_id) set" where
  "dependency_edges nodes = {(d, c). d \<in> set (deps_of nodes c)}"

lemma deps_of_keys: "bt_wf nodes \<Longrightarrow> closed_graph nodes \<Longrightarrow> set (deps_of nodes c) \<subseteq> set (bt_keys nodes)"
  using bt.get_Some_iff [of nodes c "the (bt_get nodes c)"]
  by (cases "bt_get nodes c") (fastforce simp: deps_of_def closed_graph_def bt_contains_iff)+

lemma deps_in_closed: "bt_wf nodes \<Longrightarrow> closed_graph nodes \<Longrightarrow> deps_in nodes c = set (deps_of nodes c)"
  using deps_of_keys by (auto simp: deps_in_def)

lemma deps_of_key: "d \<in> set (deps_of nodes c) \<Longrightarrow> c \<in> set (bt_keys nodes)"
  by (cases "bt_get nodes c") (auto simp: deps_of_def dest: bt_get_Some_keys)

lemma dependency_edges_ng:
  "bt_wf nodes \<Longrightarrow> closed_graph nodes \<Longrightarrow> ng.edges nodes = dependency_edges nodes"
  by (auto simp: dependency_edges_def ng.edges_def deps_in_closed deps_of_key)

lemma kahn_start:
  assumes "bt_wf nodes" and "closed_graph nodes"
  obtains st where "try_fold (count_node nodes) ([], []) nodes = Inr st" and "inverts nodes (snd st)"
    and "kahn_inv nodes (fst st) (bs_of_list (map fst (filter (\<lambda>p. snd p = 0) (fst st)))) []"
proof -
  from count_nodes [of nodes nodes "([], [])"] obtain st where
    st: "try_fold (count_node nodes) ([], []) nodes = Inr st" "bt_wf (fst st)"
    and get: "\<And>c. bt_get (fst st) c = map_option (\<lambda>n. length (en_dependencies n)) (bt_get nodes c)"
    and cnt: "\<And>d c. count_list (dependents_of (snd st) d) c =
      (case bt_get nodes c of None \<Rightarrow> 0 | Some n \<Rightarrow> count_list (en_dependencies n) d)"
    using assms bt.keys_distinct [OF assms(1)]
    by (auto simp: closed_graph_def dependents_of_def map_option_case option.case_eq_if)
  have "inverts nodes (snd st)"
    using cnt by (auto simp: inverts_def deps_of_def split: option.splits)
  moreover have deg: "degrees nodes {} [] (fst st)"
    using get bt_get_None_keys [of nodes]
    by (auto simp: degrees_def missing_def deps_of_def dest: bt_get_Some_keys split: option.splits)
  moreover have "set (map fst (filter (\<lambda>p. snd p = 0) (fst st))) = ready_set nodes {} []"
    using deg bt.get_Some_iff [OF st(2)]
    by (force simp: ready_set_def degrees_def image_iff split: if_splits)
  ultimately show thesis
    using st(1) by (intro that [of st]) (simp_all add: kahn_inv_def ng.prefix_closed_def)
qed

definition topo_sorted :: "node_map \<Rightarrow> node_id list \<Rightarrow> bool" where
  "topo_sorted nodes order \<longleftrightarrow>
     distinct order \<and> set order = set (bt_keys nodes) \<and>
     (\<forall>xs c ys. order = xs @ c # ys \<longrightarrow> set (deps_of nodes c) \<subseteq> set xs)"

lemma topological_order_cases:
  assumes "bt_wf nodes" and "closed_graph nodes"
  shows "(\<exists>order. topological_order nodes = Inr order \<and> topo_sorted nodes order \<and>
        acyclic (dependency_edges nodes)) \<or>
    (\<exists>c. topological_order nodes = Inl (Returned (DependencyCycle c)) \<and>
        \<not> acyclic (dependency_edges nodes))"
proof -
  from kahn_start [OF assms] obtain st where
    st: "try_fold (count_node nodes) ([], []) nodes = Inr st" "inverts nodes (snd st)"
    and inv0: "kahn_inv nodes (fst st) (bs_of_list (map fst (filter (\<lambda>p. snd p = 0) (fst st)))) []" .
  from topo_loop_kahn [OF inv0 st(2)] obtain indegree order where
    loop: "topo_loop (snd st) (fst st) (bs_of_list (map fst (filter (\<lambda>p. snd p = 0) (fst st)))) [] =
      Inr (indegree, order)" and inv: "kahn_inv nodes indegree [] order" by blast
  have keys: "distinct (bt_keys nodes)" "length (bt_keys nodes) = length nodes"
    using bt.keys_distinct [OF assms(1)] by (simp_all add: bt_keys_def)
  have sub: "distinct order" "set order \<subseteq> set (bt_keys nodes)" and pc: "ng.prefix_closed nodes order"
    using inv by (auto simp: kahn_inv_def)
  show ?thesis
  proof (cases "length order = length nodes")
    case True
    have "set order = set (bt_keys nodes)"
      using sub keys True by (metis List.finite_set card_subset_eq distinct_card)
    moreover from this pc have "acyclic (dependency_edges nodes)"
      using ng.ordered_acyclic dependency_edges_ng [OF assms] by metis
    ultimately show ?thesis
      using True st(1) loop sub(1) pc
      by (auto simp: topological_order_def topo_sorted_def ng.prefix_closed_def deps_in_closed [OF assms])
  next
    case False
    then have "set order \<subset> set (bt_keys nodes)"
      using sub keys by (metis distinct_card psubsetI)
    moreover have "\<not> deps_in nodes c \<subseteq> set order" if "c \<in> set (bt_keys nodes) - set order" for c
      using that inv
      by (auto simp: kahn_inv_def ready_set_def missing_0_iff deps_in_closed [OF assms])
    ultimately have "\<not> acyclic (dependency_edges nodes)"
      using ng.stuck_cyclic dependency_edges_ng [OF assms] by metis
    with False st(1) loop show ?thesis by (auto simp: topological_order_def)
  qed
qed

lemma topological_order_missing:
  assumes "\<not> closed_graph nodes"
  shows "\<exists>d. topological_order nodes = Inl (Returned (MissingDependency d)) \<and> \<not> bt_contains nodes d"
proof -
  from assms obtain e d where "e \<in> set nodes" "d \<in> set (en_dependencies (snd e))" "\<not> bt_contains nodes d"
    by (auto simp: closed_graph_def)
  from count_missing [OF this, of "([], [])"] show ?thesis by (auto simp: topological_order_def)
qed

lemma topological_order_no_panic: "bt_wf nodes \<Longrightarrow> topological_order nodes \<noteq> Inl Panicked"
  using topological_order_cases [of nodes] topological_order_missing [of nodes]
  by (cases "closed_graph nodes") auto

lemma topological_order_Inr:
  assumes "bt_wf nodes" and "topological_order nodes = Inr order"
  shows "closed_graph nodes \<and> topo_sorted nodes order"
proof -
  have "closed_graph nodes" using assms(2) topological_order_missing by fastforce
  with topological_order_cases [OF assms(1)] assms(2) show ?thesis by auto
qed

section \<open>Valid graphs\<close>

text \<open>What \<^verbatim>\<open>validate_graph\<close> promises of one entry, in declarative form.\<close>

definition header_ok :: "node_id \<Rightarrow> str \<Rightarrow> node_id list \<Rightarrow> bool" where
  "header_ok nid name ds \<longleftrightarrow> nid \<noteq> 0 \<and> \<not> trim_is_empty name \<and> bs_wf ds \<and> nid \<notin> set ds"

definition outputs_ok :: "evaluator_node \<Rightarrow> bool" where
  "outputs_ok node =
     (case en_kind node of
        Rule _ _ outputs _ \<Rightarrow>
          forest_size outputs \<le> MAX_RULE_OUTPUTS \<and> forest_height outputs \<le> MAX_RULE_OUTPUT_DEPTH \<and>
          list_all (ro_all (\<lambda>seg. producer_rule_id seg = en_id node \<and>
            output_port seg \<in> port_name ` set (en_output_ports node))) outputs
      | _ \<Rightarrow> True)"

definition node_ok :: "node_id \<Rightarrow> evaluator_node \<Rightarrow> bool" where
  "node_ok key node \<longleftrightarrow>
     key = en_id node \<and> header_ok (en_id node) (en_name node) (en_dependencies node) \<and> outputs_ok node"

lemma validate_node_header_ok:
  "is_ok (validate_node_header nid name ds) \<longleftrightarrow> header_ok nid name ds"
  using successively_conv_sorted_wrt [of "(<)" ds]
  by (auto simp: validate_node_header_def header_ok_def)

lemma is_ok_unit_iff: "is_ok r \<longleftrightarrow> r = Inr ()"
  by (cases r) auto

lemma is_ok_and_then_iff:
  "is_ok (and_then (r :: 'e + unit) f) \<longleftrightarrow> is_ok r \<and> is_ok (f ())"
  by (cases r) auto

lemma is_ok_try_each: "is_ok (try_each f xs) \<longleftrightarrow> (\<forall>x\<in>set xs. is_ok (f x))"
  by (simp add: is_ok_unit_iff try_each_Inr)

lemma is_ok_guard [simp]: "is_ok (guard b e) \<longleftrightarrow> b"
  by (cases b) auto

lemma validate_node_ok:
  "is_ok (validate_node nodes e) \<longleftrightarrow>
     node_ok (fst e) (snd e) \<and> (\<forall>d\<in>set (en_dependencies (snd e)). bt_contains nodes d)"
  by (auto simp: validate_node_def is_ok_and_then_iff is_ok_try_each validate_node_header_ok node_ok_def
      outputs_ok_def validate_rule_outputs_walk split: evaluator_node_kind.splits)

lemma validate_graph_ok:
  assumes "bt_wf nodes"
  shows "is_ok (validate_graph nodes) \<longleftrightarrow>
    (\<forall>e\<in>set nodes. node_ok (fst e) (snd e)) \<and> closed_graph nodes \<and> acyclic (dependency_edges nodes)"
proof -
  have "is_ok (validate_graph nodes) \<longleftrightarrow>
      (\<forall>e\<in>set nodes. is_ok (validate_node nodes e)) \<and> is_ok (topological_order nodes)"
    by (cases "try_each (validate_node nodes) nodes")
      (auto simp: validate_graph_def is_ok_try_each [symmetric])
  also have "\<dots> \<longleftrightarrow> (\<forall>e\<in>set nodes. node_ok (fst e) (snd e)) \<and> closed_graph nodes \<and> is_ok (topological_order nodes)"
    by (auto simp: validate_node_ok closed_graph_def)
  also have "\<dots> \<longleftrightarrow> (\<forall>e\<in>set nodes. node_ok (fst e) (snd e)) \<and> closed_graph nodes \<and> acyclic (dependency_edges nodes)"
    using topological_order_cases [OF assms] by auto
  finally show ?thesis .
qed

lemma validate_graph_no_panic: "bt_wf nodes \<Longrightarrow> validate_graph nodes \<noteq> Inl Panicked"
  using topological_order_no_panic [of nodes]
  by (cases "try_each (validate_node nodes) nodes") (auto simp: validate_graph_def result_simps)

section \<open>Constructors make valid nodes\<close>

lemma node_parameter_ok:
  "evaluator_node_parameter nid name value ds = Inr n \<Longrightarrow> node_ok nid n"
  using validate_node_header_ok [of nid name ds]
  by (auto simp: evaluator_node_parameter_def result_simps node_ok_def outputs_ok_def is_ok_unit_iff)

lemma node_expression_ok:
  "evaluator_node_expression nid name source = Inr n \<Longrightarrow> node_ok nid n \<and> kind_parsed (en_kind n)"
  using validate_node_header_ok [of nid name]
  by (auto simp: evaluator_node_expression_def result_simps node_ok_def outputs_ok_def kind_parsed_def
      is_ok_unit_iff)

lemma node_rule_ok:
  "evaluator_node_rule nid name source ins outs outputs allowed = Inr n \<Longrightarrow>
     node_ok nid n \<and> kind_parsed (en_kind n)"
  using validate_node_header_ok [of nid name] validate_rule_outputs_walk [of nid outs outputs]
  by (auto simp: evaluator_node_rule_def result_simps node_ok_def outputs_ok_def kind_parsed_def
      is_ok_unit_iff)

section \<open>Properties\<close>

text \<open>
  The walk over the rule outputs accepts exactly the forests with at most 16384 outputs,
  at most 64 levels, whose every output names the rule as its producer and one of the rule's
  declared ports.
\<close>

theorem validate_rule_outputs_iff:
  "is_ok (validate_rule_outputs rule_id ports outputs) \<longleftrightarrow>
     forest_size outputs \<le> MAX_RULE_OUTPUTS \<and> forest_height outputs \<le> MAX_RULE_OUTPUT_DEPTH \<and>
     list_all (ro_all (\<lambda>seg. producer_rule_id seg = rule_id \<and> output_port seg \<in> port_name ` set ports)) outputs"
  by (rule validate_rule_outputs_walk)

definition demo_parameter :: "node_id \<Rightarrow> node_id list \<Rightarrow> evaluator_node" where
  "demo_parameter nid ds =
     \<lparr>en_id = nid, en_name = ''width'', en_kind = Parameter (Dimension ''0'' 0), en_input_ports = [],
      en_output_ports = [PortSpec ''value'' VNumber], en_dependencies = ds\<rparr>"

lemmas topo_defs = topological_order_def count_node_def entry_push_def relax_child_def bt_contains_def
  bs_of_list_def demo_parameter_def

text \<open>
  C6.  Kahn's loop terminates without a panic and decides the graph: with all dependencies
  present it returns an order of exactly the nodes, each after its dependencies, when the
  graph is acyclic, and a cycle error when it is not; a missing dependency is reported by name.
\<close>

theorem topological_order_correct:
  assumes "bt_wf nodes"
  shows "(closed_graph nodes \<and> acyclic (dependency_edges nodes) \<longrightarrow>
      (\<exists>order. topological_order nodes = Inr order \<and> distinct order \<and> set order = set (bt_keys nodes) \<and>
         (\<forall>xs c ys. order = xs @ c # ys \<longrightarrow> set (deps_of nodes c) \<subseteq> set xs))) \<and>
    (closed_graph nodes \<and> \<not> acyclic (dependency_edges nodes) \<longrightarrow>
      (\<exists>c. topological_order nodes = Inl (Returned (DependencyCycle c)))) \<and>
    (\<not> closed_graph nodes \<longrightarrow>
      (\<exists>d. topological_order nodes = Inl (Returned (MissingDependency d)) \<and> \<not> bt_contains nodes d))"
  using topological_order_cases [OF assms] topological_order_missing [of nodes]
  by (auto simp: topo_sorted_def)

lemma demo_order:
  "topological_order [(1, demo_parameter 1 [3]), (2, demo_parameter 2 []), (3, demo_parameter 3 [2])] =
     Inr [2, 3, 1]"
  by (simp add: topo_defs)

theorem topological_order_correct_witness:
  "\<exists>order. topological_order [(1, demo_parameter 1 [3]), (2, demo_parameter 2 []), (3, demo_parameter 3 [2])] =
     Inr order \<and> order = [2, 3, 1] \<and> distinct order"
proof -
  let ?g = "[(1, demo_parameter 1 [3]), (2, demo_parameter 2 []), (3, demo_parameter 3 [2])]"
  have "bt_wf (?g :: node_map)" by simp
  from topological_order_correct [OF this] demo_order show ?thesis by auto
qed

text \<open>
  A graph passes validation exactly when every entry is stored under its own non-zero id
  with a name, strictly sorted dependencies without itself and well-formed rule outputs, every
  dependency exists, and the dependencies are acyclic.  Validation never panics.
\<close>

theorem validate_graph_correct:
  assumes "bt_wf nodes"
  shows "(is_ok (validate_graph nodes) \<longleftrightarrow>
      (\<forall>e\<in>set nodes. node_ok (fst e) (snd e)) \<and> closed_graph nodes \<and> acyclic (dependency_edges nodes)) \<and>
    validate_graph nodes \<noteq> Inl Panicked"
  using validate_graph_ok [OF assms] validate_graph_no_panic [OF assms] by blast

theorem validate_graph_correct_witness:
  "\<not> is_ok (validate_graph [(7, demo_parameter 7 [9])]) \<and>
   validate_graph [(7, demo_parameter 7 [9])] \<noteq> Inl Panicked"
proof -
  have "bt_wf ([(7, demo_parameter 7 [9])] :: node_map)" by simp
  from validate_graph_correct [OF this]
  have iff: "is_ok (validate_graph [(7, demo_parameter 7 [9])]) \<longleftrightarrow>
      (\<forall>e\<in>set [(7, demo_parameter 7 [9])]. node_ok (fst e) (snd e)) \<and>
      closed_graph [(7, demo_parameter 7 [9])] \<and> acyclic (dependency_edges [(7, demo_parameter 7 [9])])"
    and np: "validate_graph [(7, demo_parameter 7 [9])] \<noteq> Inl Panicked" by blast+
  have "\<not> closed_graph [(7, demo_parameter 7 [9])]"
    by (simp add: closed_graph_def demo_parameter_def bt_contains_def)
  with iff np show ?thesis by blast
qed

text \<open>
  The node a cycle error names need not lie on a cycle: here node 1 only depends on the
  cycle of 2 and 3, and it is the one reported.
\<close>

theorem cycle_error_off_cycle:
  "topological_order [(1, demo_parameter 1 [2]), (2, demo_parameter 2 [3]), (3, demo_parameter 3 [2])] =
     Inl (Returned (DependencyCycle 1)) \<and>
   (1, 1) \<notin> (dependency_edges [(1, demo_parameter 1 [2]), (2, demo_parameter 2 [3]), (3, demo_parameter 3 [2])])\<^sup>+"
proof
  let ?g = "[(1, demo_parameter 1 [2]), (2, demo_parameter 2 [3]), (3, demo_parameter 3 [2])]"
  show "topological_order ?g = Inl (Returned (DependencyCycle 1))"
    by (simp add: topo_defs)
  have "dependency_edges ?g \<subseteq> {(2, 1), (3, 2), (2, 3)}"
    by (auto simp: dependency_edges_def deps_of_def demo_parameter_def split: if_splits)
  then have "\<nexists>y. (1, y) \<in> dependency_edges ?g" by auto
  then show "(1, 1) \<notin> (dependency_edges ?g)\<^sup>+" by (meson tranclD)
qed

end
