(* ===== verification/Ketchup_Eval.thy ===== *)
theory Ketchup_Eval
  imports Ketchup_Graph
begin

text \<open>
  Evaluation of the node graph (\<^verbatim>\<open>ketchup-model/src/graph.rs\<close>): digests of a node's inputs and
  result, \<^verbatim>\<open>evaluate_affected\<close> with its reuse of an earlier report, \<^verbatim>\<open>evaluate_graph\<close>, the
  outputs of the rules, and \<^verbatim>\<open>dependent_closure\<close> of \<^verbatim>\<open>document/proposal_analysis.rs\<close>.  Indexing a
  map at a missing key panics.  The specification is a fixed point: every node holds the result
  its definition gives on the results of its dependencies.
\<close>

section \<open>Data\<close>

record evaluation_identity =
  ei_evaluator :: str
  ei_schema :: str
  ei_tolerance :: str
  ei_backend :: "str option"

record evaluation_diagnostic =
  ed_node_id :: node_id
  ed_code :: diagnostic_code
  ed_message :: str

datatype evaluation_status = Evaluated f64 | Errored "evaluation_diagnostic list"

record node_evaluation =
  ne_status :: evaluation_status
  ne_input_digest :: str
  ne_result_digest :: str

record derived_output =
  do_value :: f64
  do_input_digest :: str
  do_result_digest :: str

record evaluation_report =
  er_identity :: evaluation_identity
  er_document_id :: "document_id option"
  er_revision_id :: "u64 option"
  er_canonical_digest :: "str option"
  er_nodes :: "(node_id, node_evaluation) btree_map"
  er_outputs :: "(derived_identity, derived_output) btree_map"
  er_recomputed_nodes :: "node_id list"

section \<open>Model\<close>

definition identity_validate :: "evaluation_identity \<Rightarrow> graph_error + unit" where
  "identity_validate ident =
     (if ei_evaluator ident = [] \<or> ei_schema ident = [] \<or> ei_tolerance ident = [] \<or>
         ei_backend ident = Some []
      then Err EmptyEvaluationIdentity else Ok ())"

definition diagnostic_message :: "diagnostic_code \<Rightarrow> str" where
  "diagnostic_message code =
     (case code of
        DependencyFailed \<Rightarrow> ''a dependency did not evaluate''
      | DivisionByZero \<Rightarrow> ''division by zero''
      | NonFiniteResult \<Rightarrow> ''expression produced a non-finite result'')"

definition node_input_bytes :: "evaluator_node \<Rightarrow> str list \<Rightarrow> evaluation_identity \<Rightarrow> bytes" where
  "node_input_bytes node dependency_results ident =
     str_bytes ''ketchup.node.input.v1'' @ push_bytes (canonical_spec_bytes node) @
     push_len (length dependency_results) @ concat (map push_string dependency_results) @
     push_string (ei_evaluator ident) @ push_string (ei_schema ident) @ push_string (ei_tolerance ident) @
     (case ei_backend ident of Some backend \<Rightarrow> [1] @ push_string backend | None \<Rightarrow> [0])"

definition node_input_digest ::
  "(bytes \<Rightarrow> bytes) \<Rightarrow> evaluator_node \<Rightarrow> str list \<Rightarrow> evaluation_identity \<Rightarrow> str" where
  "node_input_digest sha node dependency_results ident =
     sha256_hex sha (node_input_bytes node dependency_results ident)"

definition code_byte :: "diagnostic_code \<Rightarrow> u8" where
  "code_byte code = (case code of DependencyFailed \<Rightarrow> 1 | DivisionByZero \<Rightarrow> 2 | NonFiniteResult \<Rightarrow> 3)"

definition status_bytes :: "evaluation_status \<Rightarrow> bytes" where
  "status_bytes status =
     (case status of
        Evaluated value \<Rightarrow> [1] @ push_u64 value
      | Errored diagnostics \<Rightarrow>
          [2] @ push_len (length diagnostics) @
          concat (map (\<lambda>d. push_u64 (ed_node_id d) @ [code_byte (ed_code d)] @ push_string (ed_message d))
            diagnostics))"

definition node_result_digest :: "(bytes \<Rightarrow> bytes) \<Rightarrow> str \<Rightarrow> evaluation_status \<Rightarrow> str" where
  "node_result_digest sha input_digest status =
     sha256_hex sha (str_bytes ''ketchup.node.result.v1'' @ push_string input_digest @ status_bytes status)"

text \<open>
  The nodes to recompute: the affected ones and, transitively, dependencies without an earlier
  result.  The stack's top is the head of the list.
\<close>

definition require_dependency ::
  "(node_id \<Rightarrow> bool) \<Rightarrow> node_id \<Rightarrow> node_id list \<times> node_id list \<Rightarrow> node_id list \<times> node_id list" where
  "require_dependency reusable d st =
     (if \<not> reusable d \<and> d \<notin> set (fst st) then (bs_insert d (fst st), d # snd st) else st)"

definition all_dependencies :: "node_map \<Rightarrow> node_id set" where
  "all_dependencies nodes = (\<Union>e\<in>set nodes. set (en_dependencies (snd e)))"

lemma require_fold_measure:
  "set ds \<subseteq> U \<Longrightarrow> finite U \<Longrightarrow>
   length (snd (fold (require_dependency reusable) ds st)) +
     card (U - set (fst (fold (require_dependency reusable) ds st))) = length (snd st) + card (U - set (fst st))"
proof (induction ds arbitrary: st)
  case Nil
  then show ?case by simp
next
  case (Cons d ds)
  have "length (snd (require_dependency reusable d st)) + card (U - set (fst (require_dependency reusable d st))) =
      length (snd st) + card (U - set (fst st))"
  proof (cases "\<not> reusable d \<and> d \<notin> set (fst st)")
    case True
    then have "d \<in> U - set (fst st)" using Cons.prems by simp
    then have "card (U - set (fst st)) = Suc (card (U - set (fst st) - {d}))"
      using Cons.prems(2) by (metis card_Suc_Diff1 finite_Diff)
    moreover have "U - insert d (set (fst st)) = U - set (fst st) - {d}" by auto
    ultimately show ?thesis using True by (simp add: require_dependency_def)
  qed (auto simp: require_dependency_def)
  with Cons show ?case by simp
qed

lemma dependencies_in_all:
  "bt_get nodes c = Some n \<Longrightarrow> set (en_dependencies n) \<subseteq> all_dependencies nodes"
  by (auto simp: all_dependencies_def bt_get_def dest!: map_of_SomeD intro: rev_bexI)

lemma finite_all_dependencies: "finite (all_dependencies nodes)"
  by (simp add: all_dependencies_def)

function (sequential) required_loop ::
  "node_map \<Rightarrow> (node_id \<Rightarrow> bool) \<Rightarrow> node_id list \<Rightarrow> node_id list \<Rightarrow> graph_error + node_id list" where
  "required_loop nodes reusable required [] = Ok required"
| "required_loop nodes reusable required (c # pending) =
     and_then (ok_or (bt_get nodes c) (MissingDependency c)) (\<lambda>node.
       required_loop nodes reusable
         (fst (fold (require_dependency reusable) (en_dependencies node) (required, pending)))
         (snd (fold (require_dependency reusable) (en_dependencies node) (required, pending))))"
  by pat_completeness auto
termination
proof (relation "measure (\<lambda>(nodes, reusable, required, pending).
    length pending + card (all_dependencies nodes - set required))")
  fix nodes :: node_map and reusable required c pending node
  assume "ok_or (bt_get nodes c) (MissingDependency c) = Inr node"
  then have "set (en_dependencies node) \<subseteq> all_dependencies nodes"
    by (auto simp: result_simps dest: dependencies_in_all)
  from require_fold_measure [OF this finite_all_dependencies, of reusable "(required, pending)"]
  show "((nodes, reusable,
      fst (fold (require_dependency reusable) (en_dependencies node) (required, pending)),
      snd (fold (require_dependency reusable) (en_dependencies node) (required, pending))),
      nodes, reusable, required, c # pending)
    \<in> measure (\<lambda>(nodes, reusable, required, pending). length pending + card (all_dependencies nodes - set required))"
    by (simp add: case_prod_beta)
qed simp

text \<open>One turn of the evaluation loop, on the values, the evaluations and the recomputed ids.\<close>

type_synonym eval_state =
  "(node_id, f64) btree_map \<times> (node_id, node_evaluation) btree_map \<times> node_id list"

definition index_evaluation ::
  "(node_id, node_evaluation) btree_map \<Rightarrow> node_id \<Rightarrow> graph_error fault + node_evaluation" where
  "index_evaluation evaluations d = ok_or (bt_get evaluations d) Panicked"

definition is_errored :: "evaluation_status \<Rightarrow> bool" where
  "is_errored status = (case status of Errored _ \<Rightarrow> True | Evaluated _ \<Rightarrow> False)"

definition kind_value ::
  "(node_id, f64) btree_map \<Rightarrow> evaluator_node_kind \<Rightarrow> diagnostic_code + f64" where
  "kind_value vals kind =
     (case kind of
        Parameter value \<Rightarrow> Ok (millimetres value)
      | Expression _ ast \<Rightarrow> evaluate vals ast
      | Rule _ ast _ _ \<Rightarrow> evaluate vals ast)"

definition status_of :: "node_id \<Rightarrow> diagnostic_code + f64 \<Rightarrow> evaluation_status" where
  "status_of nid value =
     (case value of
        Inr v \<Rightarrow> Evaluated v
      | Inl code \<Rightarrow>
          Errored [\<lparr>ed_node_id = nid, ed_code = code, ed_message = diagnostic_message code\<rparr>])"

definition evaluation_of ::
  "(bytes \<Rightarrow> bytes) \<Rightarrow> evaluation_identity \<Rightarrow> node_id \<Rightarrow> evaluator_node \<Rightarrow> str list \<Rightarrow>
   diagnostic_code + f64 \<Rightarrow> node_evaluation" where
  "evaluation_of sha ident nid node dependency_results value =
     \<lparr>ne_status = status_of nid value,
      ne_input_digest = node_input_digest sha node dependency_results ident,
      ne_result_digest =
        node_result_digest sha (node_input_digest sha node dependency_results ident) (status_of nid value)\<rparr>"

definition insert_value ::
  "node_id \<Rightarrow> diagnostic_code + f64 \<Rightarrow> (node_id, f64) btree_map \<Rightarrow> (node_id, f64) btree_map" where
  "insert_value nid value vals = (case value of Inr v \<Rightarrow> bt_insert nid v vals | Inl _ \<Rightarrow> vals)"

definition compute_node ::
  "(bytes \<Rightarrow> bytes) \<Rightarrow> evaluation_identity \<Rightarrow> node_map \<Rightarrow> eval_state \<Rightarrow> node_id \<Rightarrow>
   graph_error fault + eval_state" where
  "compute_node sha ident nodes st nid =
     and_then (ok_or (bt_get nodes nid) Panicked) (\<lambda>node.
     and_then (try_map (index_evaluation (fst (snd st))) (en_dependencies node)) (\<lambda>results.
     let value = (if list_ex (is_errored \<circ> ne_status) results then Err DependencyFailed
                  else kind_value (fst st) (en_kind node))
     in Ok (insert_value nid value (fst st),
            bt_insert nid (evaluation_of sha ident nid node (map ne_result_digest results) value) (fst (snd st)),
            bs_insert nid (snd (snd st)))))"

definition reuse_node :: "eval_state \<Rightarrow> node_id \<Rightarrow> node_evaluation \<Rightarrow> eval_state" where
  "reuse_node st nid prior =
     (case ne_status prior of Evaluated v \<Rightarrow> bt_insert nid v (fst st) | Errored _ \<Rightarrow> fst st,
      bt_insert nid prior (fst (snd st)), snd (snd st))"

definition eval_node ::
  "(bytes \<Rightarrow> bytes) \<Rightarrow> evaluation_identity \<Rightarrow> node_map \<Rightarrow> (node_id \<Rightarrow> node_evaluation option) \<Rightarrow>
   node_id list \<Rightarrow> eval_state \<Rightarrow> node_id \<Rightarrow> graph_error fault + eval_state" where
  "eval_node sha ident nodes prior required st nid =
     (if nid \<notin> set required
      then (case prior nid of Some p \<Rightarrow> Ok (reuse_node st nid p) | None \<Rightarrow> Ok st)
      else compute_node sha ident nodes st nid)"

text \<open>The outputs of one rule: one entry per path of its output forest.\<close>

definition collect_rule ::
  "node_id \<Rightarrow> node_evaluation \<Rightarrow> f64 \<Rightarrow> rule_output list \<Rightarrow> (derived_identity, derived_output) btree_map \<Rightarrow>
   graph_error + (derived_identity, derived_output) btree_map" where
  "collect_rule nid evaluation value rule_outputs outputs =
     visit_stack True
       (\<lambda>outputs out path.
          and_then (map_err graph_error_of_slot (slot_path_new (path @ [ro_segment out]))) (\<lambda>slot_path.
          and_then (map_err graph_error_of_slot (derived_identity_new nid slot_path)) (\<lambda>derived.
          Ok (bt_insert derived
                \<lparr>do_value = value, do_input_digest = ne_input_digest evaluation,
                 do_result_digest = ne_result_digest evaluation\<rparr> outputs))))
       (\<lambda>out path. path @ [ro_segment out])
       (push_children True [] rule_outputs []) outputs"

definition collect_node ::
  "(node_id, node_evaluation) btree_map \<Rightarrow> (derived_identity, derived_output) btree_map \<Rightarrow>
   node_id \<times> evaluator_node \<Rightarrow> graph_error + (derived_identity, derived_output) btree_map" where
  "collect_node evaluations outputs entry =
     (case en_kind (snd entry) of
        Rule _ _ rule_outputs _ \<Rightarrow>
          (case bt_get evaluations (fst entry) of
             None \<Rightarrow> Ok outputs
           | Some evaluation \<Rightarrow>
             (case ne_status evaluation of
                Evaluated value \<Rightarrow> collect_rule (fst entry) evaluation value rule_outputs outputs
              | Errored _ \<Rightarrow> Ok outputs))
      | _ \<Rightarrow> Ok outputs)"

definition prior_results ::
  "evaluation_identity \<Rightarrow> evaluation_report option \<Rightarrow> node_id \<Rightarrow> node_evaluation option" where
  "prior_results ident previous nid =
     (case previous of
        None \<Rightarrow> None
      | Some report \<Rightarrow> if er_identity report = ident then bt_get (er_nodes report) nid else None)"

definition evaluate_affected ::
  "(bytes \<Rightarrow> bytes) \<Rightarrow> node_map \<Rightarrow> evaluation_identity \<Rightarrow> evaluation_report option \<Rightarrow> node_id list \<Rightarrow>
   graph_error fault + evaluation_report" where
  "evaluate_affected sha nodes ident previous affected =
     and_then (map_err Returned (identity_validate ident)) (\<lambda>_.
     and_then (validate_graph nodes) (\<lambda>_.
     and_then (topological_order nodes) (\<lambda>order.
     and_then (map_err Returned
       (required_loop nodes (\<lambda>d. prior_results ident previous d \<noteq> None) affected (rev affected))) (\<lambda>required.
     and_then (try_fold (eval_node sha ident nodes (prior_results ident previous) required) ([], [], []) order) (\<lambda>st.
     and_then (map_err Returned (try_fold (collect_node (fst (snd st))) [] nodes)) (\<lambda>outputs.
     Ok \<lparr>er_identity = ident, er_document_id = None, er_revision_id = None, er_canonical_digest = None,
         er_nodes = fst (snd st), er_outputs = outputs, er_recomputed_nodes = snd (snd st)\<rparr>))))))"

definition evaluate_graph ::
  "(bytes \<Rightarrow> bytes) \<Rightarrow> node_map \<Rightarrow> evaluation_identity \<Rightarrow> graph_error fault + evaluation_report" where
  "evaluate_graph sha nodes ident = evaluate_affected sha nodes ident None (bt_keys nodes)"

text \<open>
  \<^verbatim>\<open>dependent_closure\<close>: passes over the nodes until a pass adds nothing.  A pass that adds
  something adds a key, so there are at most as many passes as nodes and one more.
\<close>

definition closure_step :: "node_id list \<Rightarrow> node_id \<times> evaluator_node \<Rightarrow> node_id list" where
  "closure_step closure entry =
     (if list_ex (\<lambda>d. d \<in> set closure) (en_dependencies (snd entry))
      then (if fst entry \<in> set closure then closure else bs_insert (fst entry) closure)
      else closure)"

definition closure_pass :: "node_map \<Rightarrow> node_id list \<Rightarrow> node_id list" where
  "closure_pass nodes closure = foldl closure_step closure nodes"

lemma length_bs_insert_new: "x \<notin> set xs \<Longrightarrow> length (bs_insert x xs) = Suc (length xs)"
  by (induction x xs rule: bs_insert.induct) auto

lemma closure_pass_grows:
  "set closure \<subseteq> set (foldl closure_step closure es) \<and>
   set (foldl closure_step closure es) \<subseteq> set closure \<union> fst ` set es \<and>
   length (foldl closure_step closure es) =
     length closure + card (set (foldl closure_step closure es) - set closure)"
proof (induction es arbitrary: closure)
  case Nil
  then show ?case by simp
next
  case (Cons e es)
  let ?c = "closure_step closure e"
  let ?r = "foldl closure_step ?c es"
  have IH: "set ?c \<subseteq> set ?r" "set ?r \<subseteq> set ?c \<union> fst ` set es" "length ?r = length ?c + card (set ?r - set ?c)"
    using Cons.IH [of ?c] by auto
  show ?case
  proof (cases "?c = closure")
    case True
    with IH show ?thesis by auto
  next
    case False
    then have c: "fst e \<notin> set closure" "?c = bs_insert (fst e) closure"
      by (auto simp: closure_step_def split: if_splits)
    have "set ?r - set closure = insert (fst e) (set ?r - set ?c)" using IH c by auto
    then have "card (set ?r - set closure) = Suc (card (set ?r - set ?c))" using c by simp
    with IH c show ?thesis by (auto simp: length_bs_insert_new)
  qed
qed

function closure_loop :: "node_map \<Rightarrow> node_id list \<Rightarrow> node_id list" where
  "closure_loop nodes closure =
     (if length (closure_pass nodes closure) = length closure then closure_pass nodes closure
      else closure_loop nodes (closure_pass nodes closure))"
  by pat_completeness auto
termination
proof (relation "measure (\<lambda>(nodes, closure). card (fst ` set nodes - set closure))")
  fix nodes :: node_map and closure
  assume "length (closure_pass nodes closure) \<noteq> length closure"
  with closure_pass_grows [of closure nodes]
  have "set closure \<subset> set (closure_pass nodes closure)"
    and "set (closure_pass nodes closure) \<subseteq> set closure \<union> fst ` set nodes"
    by (auto simp: closure_pass_def)
  then have "card (fst ` set nodes - set (closure_pass nodes closure)) < card (fst ` set nodes - set closure)"
    by (intro psubset_card_mono) auto
  then show "((nodes, closure_pass nodes closure), nodes, closure)
      \<in> measure (\<lambda>(nodes, closure). card (fst ` set nodes - set closure))"
    by simp
qed simp

declare closure_loop.simps [simp del]

definition dependent_closure :: "node_map \<Rightarrow> node_id list \<Rightarrow> node_id list" where
  "dependent_closure nodes changed = closure_loop nodes changed"

section \<open>The required nodes\<close>

lemma require_fold:
  "set (fst (fold (require_dependency reusable) ds st)) = set (fst st) \<union> {d \<in> set ds. \<not> reusable d} \<and>
   set (snd (fold (require_dependency reusable) ds st)) =
     set (snd st) \<union> {d \<in> set ds. \<not> reusable d \<and> d \<notin> set (fst st)} \<and>
   (bs_wf (fst st) \<longrightarrow> bs_wf (fst (fold (require_dependency reusable) ds st)))"
proof (induction ds arbitrary: st)
  case Nil
  then show ?case by simp
next
  case (Cons d ds)
  show ?case
    using Cons.IH [of "require_dependency reusable d st"]
    by (auto simp: require_dependency_def split: if_splits)
qed

definition deps_met :: "node_map \<Rightarrow> (node_id \<Rightarrow> bool) \<Rightarrow> node_id set \<Rightarrow> node_id \<Rightarrow> bool" where
  "deps_met nodes reusable R c \<longleftrightarrow> (\<forall>d\<in>set (deps_of nodes c). reusable d \<or> d \<in> R)"

lemma required_loop_closes:
  assumes "set pending \<subseteq> set required" and "set required \<subseteq> set (bt_keys nodes)"
    and "\<And>c. set (deps_of nodes c) \<subseteq> set (bt_keys nodes)"
    and "\<forall>c\<in>set required - set pending. deps_met nodes reusable (set required) c"
  shows "\<exists>R. required_loop nodes reusable required pending = Inr R \<and> set required \<subseteq> set R \<and>
    set R \<subseteq> set (bt_keys nodes) \<and> (\<forall>c\<in>set R. deps_met nodes reusable (set R) c) \<and>
    (bs_wf required \<longrightarrow> bs_wf R)"
  using assms
proof (induction nodes reusable required pending rule: required_loop.induct)
  case (1 nodes reusable required)
  then show ?case by simp
next
  case (2 nodes reusable required c pending)
  have "c \<in> set (bt_keys nodes)" using "2.prems"(1,2) by auto
  then obtain node where node: "bt_get nodes c = Some node"
    using bt_get_None_keys [of nodes c] by auto
  then have deps: "deps_of nodes c = en_dependencies node" by (simp add: deps_of_def)
  let ?st = "fold (require_dependency reusable) (en_dependencies node) (required, pending)"
  note f = require_fold [of reusable "en_dependencies node" "(required, pending)"]
  have new: "set (en_dependencies node) \<subseteq> set (bt_keys nodes)"
    using "2.prems"(3) [of c] deps by simp
  have "\<exists>R. required_loop nodes reusable (fst ?st) (snd ?st) = Inr R \<and> set (fst ?st) \<subseteq> set R \<and>
      set R \<subseteq> set (bt_keys nodes) \<and> (\<forall>c\<in>set R. deps_met nodes reusable (set R) c) \<and>
      (bs_wf (fst ?st) \<longrightarrow> bs_wf R)"
  proof (rule "2.IH")
    show "ok_or (bt_get nodes c) (MissingDependency c) = Inr node" by (simp add: node)
    show "set (snd ?st) \<subseteq> set (fst ?st)" using f "2.prems"(1) by auto
    show "set (fst ?st) \<subseteq> set (bt_keys nodes)" using f "2.prems"(2) new by auto
    show "\<And>c. set (deps_of nodes c) \<subseteq> set (bt_keys nodes)" by (rule "2.prems"(3))
    show "\<forall>x\<in>set (fst ?st) - set (snd ?st). deps_met nodes reusable (set (fst ?st)) x"
    proof
      fix x assume x: "x \<in> set (fst ?st) - set (snd ?st)"
      show "deps_met nodes reusable (set (fst ?st)) x"
      proof (cases "x = c")
        case True
        then show ?thesis using f deps by (auto simp: deps_met_def)
      next
        case False
        then have "x \<in> set required - set (c # pending)" using x f by auto
        then have "deps_met nodes reusable (set required) x" using "2.prems"(4) by blast
        then show ?thesis using f by (auto simp: deps_met_def)
      qed
    qed
  qed
  then show ?case using f by (auto simp: node)
qed

lemma required_loop_stable:
  assumes "set pending \<subseteq> set required" and "set required \<subseteq> set (bt_keys nodes)"
    and "\<forall>c\<in>set required. deps_met nodes reusable (set required) c"
  shows "required_loop nodes reusable required pending = Inr required"
  using assms
proof (induction nodes reusable required pending rule: required_loop.induct)
  case (1 nodes reusable required)
  then show ?case by simp
next
  case (2 nodes reusable required c pending)
  have "c \<in> set (bt_keys nodes)" using "2.prems"(1,2) by auto
  then obtain node where node: "bt_get nodes c = Some node"
    using bt_get_None_keys [of nodes c] by auto
  then have deps: "deps_of nodes c = en_dependencies node" by (simp add: deps_of_def)
  have "fold (require_dependency reusable) ds (required, pending) = (required, pending)"
    if "\<forall>d\<in>set ds. reusable d \<or> d \<in> set required" for ds
    using that by (induction ds) (auto simp: require_dependency_def)
  moreover have "\<forall>d\<in>set (en_dependencies node). reusable d \<or> d \<in> set required"
    using "2.prems"(1,3) by (auto simp: deps_met_def deps [symmetric])
  ultimately have "fold (require_dependency reusable) (en_dependencies node) (required, pending) = (required, pending)"
    by blast
  then show ?case using "2.IH" [of node] "2.prems" by (simp add: node)
qed

lemma required_loop_missing:
  assumes "\<And>c. set (deps_of nodes c) \<subseteq> set (bt_keys nodes)" and "x \<in> set pending" and "x \<notin> set (bt_keys nodes)"
  shows "\<exists>y. required_loop nodes reusable required pending = Inl (MissingDependency y) \<and>
    y \<in> set pending - set (bt_keys nodes)"
  using assms
proof (induction nodes reusable required pending rule: required_loop.induct)
  case (1 nodes reusable required)
  then show ?case by simp
next
  case (2 nodes reusable required c pending)
  show ?case
  proof (cases "bt_get nodes c")
    case None
    then show ?thesis using bt_get_None_keys [of nodes c] by auto
  next
    case (Some node)
    then have deps: "deps_of nodes c = en_dependencies node" by (simp add: deps_of_def)
    let ?st = "fold (require_dependency reusable) (en_dependencies node) (required, pending)"
    note f = require_fold [of reusable "en_dependencies node" "(required, pending)"]
    have "x \<in> set (snd ?st)"
      using f "2.prems"(2,3) bt_get_Some_keys [OF Some] by auto
    then have "\<exists>y. required_loop nodes reusable (fst ?st) (snd ?st) = Inl (MissingDependency y) \<and>
        y \<in> set (snd ?st) - set (bt_keys nodes)"
      using "2.IH" [of node] "2.prems"(1,3) Some by simp
    then show ?thesis using f "2.prems"(1) [of c] deps Some by auto
  qed
qed

section \<open>The evaluation as a fixed point\<close>

definition status_value :: "node_evaluation option \<Rightarrow> f64 option" where
  "status_value e =
     (case e of None \<Rightarrow> None | Some e \<Rightarrow> (case ne_status e of Evaluated v \<Rightarrow> Some v | Errored _ \<Rightarrow> None))"

definition values_of :: "(node_id, node_evaluation) btree_map \<Rightarrow> (node_id, f64) btree_map" where
  "values_of evs = List.map_filter (\<lambda>p. map_option (Pair (fst p)) (status_value (Some (snd p)))) evs"

lemma get_values_of:
  "distinct (map fst evs) \<Longrightarrow> bt_get (values_of evs) c = status_value (bt_get evs c)"
proof (induction evs)
  case Nil
  then show ?case by (simp add: values_of_def map_filter_def status_value_def)
next
  case (Cons p evs)
  obtain k e where p: "p = (k, e)" by (cases p)
  have "k \<notin> fst ` set evs" using Cons.prems p by simp
  then have none: "bt_get evs k = None" by (simp add: bt_get_def map_of_eq_None_iff)
  have "bt_get (values_of (p # evs)) c = bt_get
      ((case status_value (Some e) of None \<Rightarrow> [] | Some v \<Rightarrow> [(k, v)]) @ values_of evs) c"
    by (simp add: p values_of_def map_filter_def split: option.splits)
  with Cons none p show ?case
    by (auto simp: status_value_def split: option.splits evaluation_status.splits)
qed

text \<open>The result a node's definition gives on the results \<open>evs\<close> of its dependencies.\<close>

definition node_result ::
  "(bytes \<Rightarrow> bytes) \<Rightarrow> evaluation_identity \<Rightarrow> (node_id, node_evaluation) btree_map \<Rightarrow> node_id \<Rightarrow> evaluator_node \<Rightarrow>
   node_evaluation" where
  "node_result sha ident evs c node =
     (let results = map (\<lambda>d. the (bt_get evs d)) (en_dependencies node)
      in evaluation_of sha ident c node (map ne_result_digest results)
           (if list_ex (is_errored \<circ> ne_status) results then Err DependencyFailed
            else kind_value (values_of evs) (en_kind node)))"

definition evaluated ::
  "(bytes \<Rightarrow> bytes) \<Rightarrow> evaluation_identity \<Rightarrow> node_map \<Rightarrow> (node_id, node_evaluation) btree_map \<Rightarrow> bool" where
  "evaluated sha ident nodes evs \<longleftrightarrow>
     bt_wf evs \<and> set (bt_keys evs) = set (bt_keys nodes) \<and>
     (\<forall>c node. bt_get nodes c = Some node \<longrightarrow> bt_get evs c = Some (node_result sha ident evs c node))"

text \<open>The constructors take the dependencies of an expression or a rule from its tree.\<close>

definition kind_deps :: "evaluator_node \<Rightarrow> bool" where
  "kind_deps node =
     (case en_kind node of
        Parameter _ \<Rightarrow> True
      | Expression _ ast \<Rightarrow> en_dependencies node = ast_dependencies ast
      | Rule _ ast _ _ \<Rightarrow> en_dependencies node = ast_dependencies ast)"

definition deps_faithful :: "node_map \<Rightarrow> bool" where
  "deps_faithful nodes \<longleftrightarrow> (\<forall>e\<in>set nodes. kind_deps (snd e))"

lemma kind_value_cong:
  assumes "kind_deps node" and "\<And>d. d \<in> set (en_dependencies node) \<Longrightarrow> bt_get v d = bt_get w d"
  shows "kind_value v (en_kind node) = kind_value w (en_kind node)"
proof -
  have "evaluate v ast = evaluate w ast" if "en_dependencies node = ast_dependencies ast" for ast
    by (rule evaluate_cong) (use assms(2) that ast_dependencies_spec(1) in simp)
  with assms(1) show ?thesis
    by (auto simp: kind_value_def kind_deps_def split: evaluator_node_kind.splits)
qed

lemma node_result_cong:
  assumes "kind_deps node" and "distinct (map fst evs)" and "distinct (map fst evs')"
    and "\<And>d. d \<in> set (en_dependencies node) \<Longrightarrow> bt_get evs d = bt_get evs' d"
  shows "node_result sha ident evs c node = node_result sha ident evs' c node"
proof -
  have "map (\<lambda>d. the (bt_get evs d)) (en_dependencies node) = map (\<lambda>d. the (bt_get evs' d)) (en_dependencies node)"
    using assms(4) by simp
  moreover have "kind_value (values_of evs) (en_kind node) = kind_value (values_of evs') (en_kind node)"
    by (rule kind_value_cong [OF assms(1)]) (simp add: get_values_of assms)
  ultimately show ?thesis unfolding node_result_def by metis
qed

lemma deps_faithful_get: "bt_wf nodes \<Longrightarrow> deps_faithful nodes \<Longrightarrow> bt_get nodes c = Some node \<Longrightarrow> kind_deps node"
  using bt.get_Some_iff [of nodes c node] by (force simp: deps_faithful_def)

lemma deps_of_get: "bt_get nodes c = Some node \<Longrightarrow> deps_of nodes c = en_dependencies node"
  by (simp add: deps_of_def)

lemma topo_sorted_deps:
  "topo_sorted nodes (xs @ c # ys) \<Longrightarrow> bt_get nodes c = Some node \<Longrightarrow> set (en_dependencies node) \<subseteq> set xs"
  unfolding topo_sorted_def by (metis deps_of_get)

lemma evaluated_unique:
  assumes nodes: "bt_wf nodes" "deps_faithful nodes" and topo: "topo_sorted nodes order"
    and evs: "evaluated sha ident nodes evs" "evaluated sha ident nodes evs'"
  shows "evs = evs'"
proof -
  have wf: "bt_wf evs" "bt_wf evs'" and keys: "set (bt_keys evs) = set (bt_keys evs')"
    using evs by (auto simp: evaluated_def)
  have eq: "\<forall>c\<in>set xs. bt_get evs c = bt_get evs' c" if "order = xs @ ys" for xs ys
    using that
  proof (induction xs arbitrary: ys rule: rev_induct)
    case Nil
    then show ?case by simp
  next
    case (snoc c xs)
    have IH: "\<forall>c\<in>set xs. bt_get evs c = bt_get evs' c" by (rule snoc.IH [of "c # ys"]) (simp add: snoc.prems)
    have "c \<in> set (bt_keys nodes)" using snoc.prems topo by (auto simp: topo_sorted_def)
    then obtain node where node: "bt_get nodes c = Some node"
      using bt_get_None_keys [of nodes c] by auto
    have "set (en_dependencies node) \<subseteq> set xs"
      using topo_sorted_deps [of nodes xs c ys node] topo snoc.prems node by simp
    then have "node_result sha ident evs c node = node_result sha ident evs' c node"
      using IH bt.keys_distinct wf deps_faithful_get [OF nodes node]
      by (intro node_result_cong) auto
    then have "bt_get evs c = bt_get evs' c" using evs node by (simp add: evaluated_def)
    with IH show ?case by simp
  qed
  have "bt_get evs c = bt_get evs' c" for c
  proof (cases "c \<in> set (bt_keys nodes)")
    case True
    with eq [of order "[]"] topo show ?thesis by (simp add: topo_sorted_def)
  next
    case False
    then have "bt_get evs c = None" "bt_get evs' c = None"
      using evs by (auto simp: evaluated_def bt_get_None_keys)
    then show ?thesis by simp
  qed
  then show ?thesis using bt.entries_unique [OF wf] by blast
qed

section \<open>The evaluation loop\<close>

definition eval_inv ::
  "(bytes \<Rightarrow> bytes) \<Rightarrow> evaluation_identity \<Rightarrow> node_map \<Rightarrow> (node_id \<Rightarrow> node_evaluation option) \<Rightarrow>
   node_id set \<Rightarrow> node_id set \<Rightarrow> eval_state \<Rightarrow> bool" where
  "eval_inv sha ident nodes prior R P st \<longleftrightarrow>
     bt_wf (fst (snd st)) \<and>
     (\<forall>c. bt_get (fst st) c = status_value (bt_get (fst (snd st)) c)) \<and>
     (\<forall>c. c \<notin> P \<longrightarrow> bt_get (fst (snd st)) c = None) \<and>
     (\<forall>c\<in>P - R. bt_get (fst (snd st)) c = prior c) \<and>
     (\<forall>c\<in>P \<inter> R. \<forall>node. bt_get nodes c = Some node \<longrightarrow>
        bt_get (fst (snd st)) c = Some (node_result sha ident (fst (snd st)) c node)) \<and>
     set (snd (snd st)) = P \<inter> R \<and> bs_wf (snd (snd st))"

lemma try_map_index:
  "(\<And>d. d \<in> set ds \<Longrightarrow> bt_get evs d \<noteq> None) \<Longrightarrow>
     try_map (index_evaluation evs) ds = Inr (map (\<lambda>d. the (bt_get evs d)) ds)"
  by (induction ds) (fastforce simp: index_evaluation_def)+

lemma compute_node_result:
  assumes "bt_get nodes c = Some node" and "kind_deps node" and "distinct (map fst (fst (snd st)))"
    and "\<And>d. d \<in> set (en_dependencies node) \<Longrightarrow> bt_get (fst (snd st)) d \<noteq> None"
    and "\<And>c. bt_get (fst st) c = status_value (bt_get (fst (snd st)) c)"
  shows "\<exists>vals. compute_node sha ident nodes st c =
      Inr (vals, bt_insert c (node_result sha ident (fst (snd st)) c node) (fst (snd st)), bs_insert c (snd (snd st))) \<and>
    (\<forall>x. bt_get vals x =
       (if x = c then
          (case ne_status (node_result sha ident (fst (snd st)) c node) of
             Evaluated v \<Rightarrow> Some v | Errored _ \<Rightarrow> bt_get (fst st) c)
        else bt_get (fst st) x))"
proof -
  have "kind_value (fst st) (en_kind node) = kind_value (values_of (fst (snd st))) (en_kind node)"
    by (rule kind_value_cong [OF assms(2)]) (simp add: get_values_of assms(3,5))
  then show ?thesis
    using assms(1) try_map_index [OF assms(4), of "en_dependencies node"]
    by (auto simp: compute_node_def node_result_def Let_def insert_value_def evaluation_of_def
        status_of_def split: sum.splits)
qed

lemma eval_inv_insert:
  assumes inv: "eval_inv sha ident nodes prior R P (vals, evs, rec)" and c: "c \<notin> P"
    and closed: "\<And>x node. x \<in> P \<Longrightarrow> bt_get nodes x = Some node \<Longrightarrow> kind_deps node \<and> set (en_dependencies node) \<subseteq> P"
  shows "x \<in> P \<inter> R \<Longrightarrow> bt_get nodes x = Some node \<Longrightarrow>
    bt_get (bt_insert c e evs) x = Some (node_result sha ident (bt_insert c e evs) x node)"
proof -
  assume x: "x \<in> P \<inter> R" "bt_get nodes x = Some node"
  have wf: "bt_wf evs" using inv by (simp add: eval_inv_def)
  have "node_result sha ident evs x node = node_result sha ident (bt_insert c e evs) x node"
    using closed [of x node] x c bt.keys_distinct [OF wf] bt.keys_distinct [OF bt_wf_insert [OF wf]]
    by (intro node_result_cong) auto
  moreover have "bt_get evs x = Some (node_result sha ident evs x node)"
    using inv x by (simp add: eval_inv_def)
  ultimately show ?thesis using x c by auto
qed

lemma eval_node_step:
  assumes inv: "eval_inv sha ident nodes prior (set R) P st" and c: "c \<notin> P"
    and node: "bt_get nodes c = Some node" and deps: "kind_deps node" "set (en_dependencies node) \<subseteq> P"
    and closed: "\<And>x node. x \<in> P \<Longrightarrow> bt_get nodes x = Some node \<Longrightarrow> kind_deps node \<and> set (en_dependencies node) \<subseteq> P"
    and RP: "P \<subseteq> set (bt_keys nodes)"
    and met: "c \<in> set R \<Longrightarrow> deps_met nodes (\<lambda>d. prior d \<noteq> None) (set R) c"
  shows "\<exists>st'. eval_node sha ident nodes prior R st c = Inr st' \<and>
    eval_inv sha ident nodes prior (set R) (insert c P) st'"
proof -
  obtain vals evs rec where st: "st = (vals, evs, rec)" by (cases st)
  note inv' = inv [unfolded st]
  have keep: "bt_get (bt_insert c e evs) x = Some (node_result sha ident (bt_insert c e evs) x n)"
    if "x \<in> P \<inter> set R" "bt_get nodes x = Some n" for e x n
    by (rule eval_inv_insert [OF inv' c _ that]) (rule closed)
  have wf: "bt_wf evs" and vals: "\<And>x. bt_get vals x = status_value (bt_get evs x)"
    and out: "\<And>x. x \<notin> P \<Longrightarrow> bt_get evs x = None" and old: "\<And>x. x \<in> P - set R \<Longrightarrow> bt_get evs x = prior x"
    and rec: "set rec = P \<inter> set R" "bs_wf rec"
    using inv' by (auto simp: eval_inv_def)
  show ?thesis
  proof (cases "c \<in> set R")
    case False
    show ?thesis
    proof (cases "prior c")
      case None
      then have "eval_node sha ident nodes prior R st c = Inr st" using False by (simp add: eval_node_def)
      moreover have "eval_inv sha ident nodes prior (set R) (insert c P) st"
        using inv False None out [OF c] by (auto simp: eval_inv_def st)
      ultimately show ?thesis by blast
    next
      case (Some p)
      then have "eval_node sha ident nodes prior R st c = Inr (reuse_node st c p)"
        using False by (simp add: eval_node_def)
      moreover have "eval_inv sha ident nodes prior (set R) (insert c P) (reuse_node st c p)"
        using False Some wf vals out old rec keep [of _ _ p] c
        by (auto simp: eval_inv_def reuse_node_def st status_value_def split: evaluation_status.splits)
      ultimately show ?thesis by blast
    qed
  next
    case True
    have have_deps: "bt_get evs d \<noteq> None" if "d \<in> set (en_dependencies node)" for d
    proof (cases "d \<in> set R")
      case dR: True
      have "d \<in> P" using that deps by blast
      then obtain n where "bt_get nodes d = Some n"
        using RP bt_get_None_keys [of nodes d] by auto
      with \<open>d \<in> P\<close> dR inv' show ?thesis by (auto simp: eval_inv_def)
    next
      case False
      then have "prior d \<noteq> None" using met [OF True] that by (auto simp: deps_met_def deps_of_get [OF node])
      with False that deps old [of d] show ?thesis by auto
    qed
    let ?e = "node_result sha ident evs c node"
    have "\<exists>vals'. compute_node sha ident nodes st c = Inr (vals', bt_insert c ?e evs, bs_insert c rec) \<and>
        (\<forall>x. bt_get vals' x = (if x = c then (case ne_status ?e of Evaluated v \<Rightarrow> Some v | Errored _ \<Rightarrow> bt_get vals c)
          else bt_get vals x))"
      unfolding st
      by (rule compute_node_result [OF node deps(1), of "(vals, evs, rec)", unfolded fst_conv snd_conv])
        (fact bt.keys_distinct [OF wf] have_deps vals)+
    then obtain vals' where comp: "compute_node sha ident nodes st c = Inr (vals', bt_insert c ?e evs, bs_insert c rec)"
      and vals': "\<And>x. bt_get vals' x = (if x = c then (case ne_status ?e of Evaluated v \<Rightarrow> Some v | Errored _ \<Rightarrow> bt_get vals c)
          else bt_get vals x)" by blast
    have "?e = node_result sha ident (bt_insert c ?e evs) c node"
      using c deps bt.keys_distinct [OF wf] bt.keys_distinct [OF bt_wf_insert [OF wf]]
      by (intro node_result_cong) auto
    then have self: "bt_get (bt_insert c ?e evs) c = Some (node_result sha ident (bt_insert c ?e evs) c node)"
      by simp
    have "eval_inv sha ident nodes prior (set R) (insert c P) (vals', bt_insert c ?e evs, bs_insert c rec)"
      unfolding eval_inv_def fst_conv snd_conv
    proof (intro conjI allI ballI impI)
      show "bt_get vals' x = status_value (bt_get (bt_insert c ?e evs) x)" for x
        using vals' [of x] vals [of x] vals [of c] out [OF c]
        by (auto simp: status_value_def split: evaluation_status.splits)
      show "bt_get (bt_insert c ?e evs) x = Some (node_result sha ident (bt_insert c ?e evs) x n)"
        if "x \<in> insert c P \<inter> set R" "bt_get nodes x = Some n" for x n
        using that self node keep [of x n ?e] by (cases "x = c") auto
    qed (use True wf out old rec c in auto)
    with comp True show ?thesis by (auto simp: eval_node_def)
  qed
qed

lemma eval_loop:
  assumes nodes: "bt_wf nodes" "deps_faithful nodes" and topo: "topo_sorted nodes (xs @ ys)"
    and met: "\<forall>c\<in>set R. deps_met nodes (\<lambda>d. prior d \<noteq> None) (set R) c"
    and inv: "eval_inv sha ident nodes prior (set R) (set xs) st"
  shows "\<exists>st'. try_fold (eval_node sha ident nodes prior R) st ys = Inr st' \<and>
    eval_inv sha ident nodes prior (set R) (set (xs @ ys)) st'"
  using topo inv
proof (induction ys arbitrary: xs st)
  case Nil
  then show ?case by simp
next
  case (Cons c ys)
  have c: "c \<notin> set xs" "c \<in> set (bt_keys nodes)" "set xs \<subseteq> set (bt_keys nodes)"
    using Cons.prems(1) by (auto simp: topo_sorted_def)
  then obtain node where node: "bt_get nodes c = Some node" using bt_get_None_keys [of nodes c] by auto
  have closed: "kind_deps n \<and> set (en_dependencies n) \<subseteq> set xs"
    if "x \<in> set xs" "bt_get nodes x = Some n" for x n
  proof -
    from \<open>x \<in> set xs\<close> obtain us vs where "xs = us @ x # vs" by (meson split_list)
    then show ?thesis
      using topo_sorted_deps [of nodes us x "vs @ c # ys" n] Cons.prems(1) that(2)
        deps_faithful_get [OF nodes that(2)] by auto
  qed
  have deps: "kind_deps node" "set (en_dependencies node) \<subseteq> set xs"
    using deps_faithful_get [OF nodes node] topo_sorted_deps [OF Cons.prems(1) node] .
  have "\<exists>st'. eval_node sha ident nodes prior R st c = Inr st' \<and>
      eval_inv sha ident nodes prior (set R) (insert c (set xs)) st'"
    by (rule eval_node_step [OF Cons.prems(2) c(1) node deps _ c(3)]) (use closed met in blast)+
  then obtain st' where st': "eval_node sha ident nodes prior R st c = Inr st'"
    "eval_inv sha ident nodes prior (set R) (set (xs @ [c])) st'" by auto
  from Cons.IH [of "xs @ [c]" st'] Cons.prems(1) st' show ?case by auto
qed

section \<open>Collecting the outputs\<close>

definition path_of :: "rule_output \<times> slot_segment list \<Rightarrow> slot_segment list" where
  "path_of p = snd p @ [ro_segment (fst p)]"

definition output_paths :: "rule_output list \<Rightarrow> slot_segment list list" where
  "output_paths outputs = map path_of (forest_walk True (\<lambda>out path. path @ [ro_segment out]) [] outputs)"

definition output_of :: "node_evaluation \<Rightarrow> f64 \<Rightarrow> derived_output" where
  "output_of evaluation value =
     \<lparr>do_value = value, do_input_digest = ne_input_digest evaluation,
      do_result_digest = ne_result_digest evaluation\<rparr>"

lemma preorder_context:
  assumes "\<And>out c. h (ctx out c) = ctx' out (h c)"
  shows "map (\<lambda>p. (fst p, h (snd p))) (preorder rv ctx c out) = preorder rv ctx' (h c) out"
proof (induction out arbitrary: c)
  case (RuleOutput seg children)
  then have "map (\<lambda>y. map (\<lambda>p. (fst p, h (snd p))) (preorder rv ctx c' y)) children =
      map (preorder rv ctx' (h c')) children" for c'
    by simp
  then show ?case
    by (cases rv) (simp_all add: map_concat assms comp_def rev_map [symmetric] del: map_eq_conv)
qed

lemma forest_walk_context:
  assumes "\<And>out c. h (ctx out c) = ctx' out (h c)"
  shows "map (\<lambda>p. (fst p, h (snd p))) (forest_walk rv ctx c outputs) = forest_walk rv ctx' (h c) outputs"
  by (simp add: forest_walk_def map_concat comp_def preorder_context [of h ctx ctx', OF assms])

lemma output_paths_length:
  assumes "forest_height outputs \<le> m" and "p \<in> set (output_paths outputs)"
  shows "p \<noteq> [] \<and> length p \<le> m"
proof -
  let ?w = "forest_walk True (\<lambda>out path. path @ [ro_segment out]) [] outputs"
  have "map (\<lambda>p. (fst p, Suc (length (snd p)))) ?w = forest_walk True (\<lambda>_ d. d + 1) (Suc 0) outputs"
    using forest_walk_context [of "\<lambda>c. Suc (length c)" "\<lambda>out path. path @ [ro_segment out]" "\<lambda>_ d. d + 1" True "[]" outputs]
    by simp
  then have w: "set (forest_walk True (\<lambda>_ d. d + 1) (Suc 0) outputs) = (\<lambda>p. (fst p, Suc (length (snd p)))) ` set ?w"
    by (metis list.set_map)
  obtain q where q: "q \<in> set ?w" "p = path_of q" using assms(2) by (auto simp: output_paths_def)
  have "\<forall>q\<in>set ?w. Suc (length (snd q)) \<le> m"
    using forest_walk_spec(3) [of True 0 outputs m] assms(1) w by auto
  with q show ?thesis by (auto simp: path_of_def)
qed

lemma try_fold_ok:
  "(\<And>s x. x \<in> set xs \<Longrightarrow> f s x = Inr (g x s)) \<Longrightarrow> try_fold f s xs = Inr (fold g xs s)"
  by (induction xs arbitrary: s) auto

lemma collect_rule_fold:
  assumes "nid \<noteq> 0" and "forest_height rule_outputs \<le> MAX_RULE_OUTPUT_DEPTH"
  shows "collect_rule nid evaluation value rule_outputs outputs =
    Inr (fold (\<lambda>p. bt_insert (DerivedIdentity nid (SlotPath p)) (output_of evaluation value))
      (output_paths rule_outputs) outputs)"
proof -
  let ?w = "forest_walk True (\<lambda>out path. path @ [ro_segment out]) [] rule_outputs"
  have "\<forall>q\<in>set ?w. path_of q \<noteq> [] \<and> length (path_of q) \<le> PATH_SEGMENTS"
    using output_paths_length [OF assms(2)]
    by (auto simp: output_paths_def PATH_SEGMENTS_def MAX_RULE_OUTPUT_DEPTH_def)
  then have "collect_rule nid evaluation value rule_outputs outputs =
      Inr (fold (\<lambda>q. bt_insert (DerivedIdentity nid (SlotPath (path_of q))) (output_of evaluation value)) ?w outputs)"
    unfolding collect_rule_def visit_stack_forest
    using assms(1)
    by (intro try_fold_ok)
      (auto simp: path_of_def output_of_def slot_path_new_def derived_identity_new_def)
  then show ?thesis by (simp add: output_paths_def fold_map comp_def)
qed

lemma get_fold_insert:
  "bt_get (fold (\<lambda>p. bt_insert (k p) v) ps m) x = (if x \<in> k ` set ps then Some v else bt_get m x)"
  by (induction ps arbitrary: m) auto

lemma wf_fold_insert: "bt_wf m \<Longrightarrow> bt_wf (fold (\<lambda>p. bt_insert (k p) v) ps m)"
  by (induction ps arbitrary: m) auto

text \<open>The output a derived identity stands for: its rule evaluated and has that path.\<close>

definition rule_outputs_of :: "evaluator_node \<Rightarrow> rule_output list" where
  "rule_outputs_of node = (case en_kind node of Rule _ _ outputs _ \<Rightarrow> outputs | _ \<Rightarrow> [])"

definition output_at ::
  "(node_id, node_evaluation) btree_map \<Rightarrow> node_map \<Rightarrow> derived_identity \<Rightarrow> derived_output option" where
  "output_at evs nodes x =
     (case bt_get nodes (root_rule_node_id x) of
        None \<Rightarrow> None
      | Some node \<Rightarrow>
        (case bt_get evs (root_rule_node_id x) of
           None \<Rightarrow> None
         | Some e \<Rightarrow>
           (case ne_status e of
              Errored _ \<Rightarrow> None
            | Evaluated v \<Rightarrow>
                if segments (slot_path x) \<in> set (output_paths (rule_outputs_of node))
                then Some (output_of e v) else None)))"

lemma identity_eq_iff:
  "x = DerivedIdentity c (SlotPath p) \<longleftrightarrow> root_rule_node_id x = c \<and> segments (slot_path x) = p"
  by (cases x; cases "slot_path x") auto

lemma output_paths_Nil [simp]: "output_paths [] = []"
  by (simp add: output_paths_def forest_walk_def)

lemma collect_node_step:
  assumes "node_ok c node"
  shows "\<exists>outs'. collect_node evs outs (c, node) = Inr outs' \<and> (bt_wf outs \<longrightarrow> bt_wf outs') \<and>
    (\<forall>x. bt_get outs' x = (case output_at evs [(c, node)] x of None \<Rightarrow> bt_get outs x | Some o1 \<Rightarrow> Some o1))"
proof -
  have c: "c \<noteq> 0" using assms by (simp add: node_ok_def header_ok_def)
  have skip: ?thesis if "collect_node evs outs (c, node) = Inr outs" "\<And>x. output_at evs [(c, node)] x = None"
    using that by simp
  show ?thesis
  proof (cases "\<exists>s a ros al e v. en_kind node = Rule s a ros al \<and> bt_get evs c = Some e \<and> ne_status e = Evaluated v")
    case False
    then show ?thesis
      by (intro skip)
        (auto simp: collect_node_def output_at_def rule_outputs_of_def
          split: evaluator_node_kind.splits option.splits evaluation_status.splits)
  next
    case True
    then obtain s a ros al e v where k: "en_kind node = Rule s a ros al" "bt_get evs c = Some e"
      "ne_status e = Evaluated v" by blast
    have "forest_height ros \<le> MAX_RULE_OUTPUT_DEPTH"
      using assms k(1) by (simp add: node_ok_def outputs_ok_def)
    with c k show ?thesis
      by (auto simp: collect_node_def collect_rule_fold get_fold_insert wf_fold_insert output_at_def
          rule_outputs_of_def image_iff identity_eq_iff)
  qed
qed

lemma collect_nodes:
  assumes "\<forall>e\<in>set es. node_ok (fst e) (snd e)" and "distinct (map fst es)"
  shows "\<exists>outs'. try_fold (collect_node evs) outs es = Inr outs' \<and> (bt_wf outs \<longrightarrow> bt_wf outs') \<and>
    (\<forall>x. bt_get outs' x = (case output_at evs es x of None \<Rightarrow> bt_get outs x | Some o1 \<Rightarrow> Some o1))"
  using assms
proof (induction es arbitrary: outs)
  case Nil
  then show ?case by (simp add: output_at_def)
next
  case (Cons e es)
  obtain c node where e: "e = (c, node)" by (cases e)
  from Cons.prems e have "node_ok c node" by simp
  from collect_node_step [OF this, of evs outs] obtain outs1 where
    1: "collect_node evs outs (c, node) = Inr outs1" "bt_wf outs \<longrightarrow> bt_wf outs1"
    "\<And>x. bt_get outs1 x = (case output_at evs [(c, node)] x of None \<Rightarrow> bt_get outs x | Some o1 \<Rightarrow> Some o1)"
    by blast
  from Cons.IH [of outs1] Cons.prems obtain outs' where
    2: "try_fold (collect_node evs) outs1 es = Inr outs'" "bt_wf outs1 \<longrightarrow> bt_wf outs'"
    "\<And>x. bt_get outs' x = (case output_at evs es x of None \<Rightarrow> bt_get outs1 x | Some o1 \<Rightarrow> Some o1)"
    by auto
  have new: "bt_get es c = None" using Cons.prems(2) e by (simp add: bt_get_def map_of_eq_None_iff)
  have split: "output_at evs (e # es) x =
      (if root_rule_node_id x = c then output_at evs [(c, node)] x else output_at evs es x)" for x
    by (simp add: output_at_def e)
  have miss: "root_rule_node_id x = c \<Longrightarrow> output_at evs es x = None"
    "root_rule_node_id x \<noteq> c \<Longrightarrow> output_at evs [(c, node)] x = None" for x
    using new by (simp_all add: output_at_def)
  have "bt_get outs' x = (case output_at evs (e # es) x of None \<Rightarrow> bt_get outs x | Some o1 \<Rightarrow> Some o1)" for x
    using 2(3) [of x] 1(3) [of x] miss [of x]
    by (cases "root_rule_node_id x = c") (auto simp: split split: option.splits)
  with 1 2 e show ?case by auto
qed

section \<open>The closure of dependents\<close>

lemma closure_pass_adds:
  "e \<in> set es \<Longrightarrow> d \<in> set (en_dependencies (snd e)) \<Longrightarrow> d \<in> set closure \<Longrightarrow>
     fst e \<in> set (foldl closure_step closure es)"
proof (induction es arbitrary: closure)
  case Nil
  then show ?case by simp
next
  case (Cons x es)
  have mono: "set closure \<subseteq> set (closure_step closure x)"
    and sub: "set (closure_step closure x) \<subseteq> set (foldl closure_step (closure_step closure x) es)"
    using closure_pass_grows [of "closure_step closure x" es] by (auto simp: closure_step_def)
  show ?case
  proof (cases "e = x")
    case True
    then have "fst e \<in> set (closure_step closure x)"
      using Cons.prems by (auto simp: closure_step_def list_ex_iff)
    with sub show ?thesis by auto
  next
    case False
    with Cons mono show ?thesis by auto
  qed
qed

lemma closure_step_reach:
  assumes "bt_wf nodes" and "e \<in> set nodes" and "set closure \<subseteq> (dependency_edges nodes)\<^sup>* `` S"
  shows "set (closure_step closure e) \<subseteq> (dependency_edges nodes)\<^sup>* `` S"
proof -
  have "bt_get nodes (fst e) = Some (snd e)"
    using bt.get_Some_iff [OF assms(1), of "fst e" "snd e"] assms(2) by simp
  then have "(d, fst e) \<in> dependency_edges nodes" if "d \<in> set (en_dependencies (snd e))" for d
    using that by (simp add: dependency_edges_def deps_of_get)
  then show ?thesis
    using assms(3) unfolding closure_step_def list_ex_iff
    by (auto split: if_splits) (meson ImageE ImageI rtrancl.rtrancl_into_rtrancl subsetD)
qed

lemma closure_pass_reach:
  assumes "bt_wf nodes" and "set closure \<subseteq> (dependency_edges nodes)\<^sup>* `` S"
  shows "set (closure_pass nodes closure) \<subseteq> (dependency_edges nodes)\<^sup>* `` S"
proof -
  have "set es \<subseteq> set nodes \<Longrightarrow> set c \<subseteq> (dependency_edges nodes)\<^sup>* `` S \<Longrightarrow>
      set (foldl closure_step c es) \<subseteq> (dependency_edges nodes)\<^sup>* `` S" for es c
    by (induction es arbitrary: c) (auto simp: closure_step_reach [OF assms(1)])
  with assms(2) show ?thesis by (simp add: closure_pass_def)
qed

lemma closure_loop_spec:
  assumes "bt_wf nodes" and "set closure \<subseteq> (dependency_edges nodes)\<^sup>* `` S" and "S \<subseteq> set closure"
  shows "set (closure_loop nodes closure) = (dependency_edges nodes)\<^sup>* `` S"
  using assms
proof (induction nodes closure rule: closure_loop.induct)
  case (1 nodes closure)
  let ?p = "closure_pass nodes closure"
  have grow: "set closure \<subseteq> set ?p" "length ?p = length closure + card (set ?p - set closure)"
    using closure_pass_grows [of closure nodes] by (auto simp: closure_pass_def)
  have reach: "set ?p \<subseteq> (dependency_edges nodes)\<^sup>* `` S"
    by (rule closure_pass_reach [OF "1.prems"(1,2)])
  show ?case
  proof (cases "length ?p = length closure")
    case True
    with grow have eq: "set ?p = set closure" by auto
    have "c \<in> set ?p" if "d \<in> set closure" "(d, c) \<in> dependency_edges nodes" for c d
    proof -
      from that(2) obtain node where "bt_get nodes c = Some node" "d \<in> set (en_dependencies node)"
        by (cases "bt_get nodes c") (auto simp: dependency_edges_def deps_of_def)
      then show ?thesis
        using closure_pass_adds [of "(c, node)" nodes d closure] that(1) bt.get_Some_iff [OF "1.prems"(1)]
        by (simp add: closure_pass_def)
    qed
    then have closed: "\<And>c d. d \<in> set closure \<Longrightarrow> (d, c) \<in> dependency_edges nodes \<Longrightarrow> c \<in> set closure"
      using eq by blast
    have "x \<in> set closure" if "(s, x) \<in> (dependency_edges nodes)\<^sup>*" "s \<in> S" for s x
      using that(1) by (induction rule: rtrancl_induct) (use that(2) "1.prems"(3) closed in auto)
    then have "(dependency_edges nodes)\<^sup>* `` S \<subseteq> set closure" by blast
    with True reach eq show ?thesis by (subst closure_loop.simps) auto
  next
    case False
    from "1.IH" [OF this "1.prems"(1) reach] grow "1.prems"(3) False show ?thesis
      by (subst closure_loop.simps) auto
  qed
qed

lemma dependent_closure_reach:
  "bt_wf nodes \<Longrightarrow> set (dependent_closure nodes changed) = (dependency_edges nodes)\<^sup>* `` set changed"
  unfolding dependent_closure_def by (rule closure_loop_spec) auto

lemma bs_wf_closure_loop: "bs_wf closure \<Longrightarrow> bs_wf (closure_loop nodes closure)"
proof (induction nodes closure rule: closure_loop.induct)
  case (1 nodes closure)
  have "bs_wf c \<Longrightarrow> bs_wf (foldl closure_step c es)" for es c
    by (induction es arbitrary: c) (auto simp: closure_step_def)
  with 1 show ?case by (subst closure_loop.simps) (auto simp: closure_pass_def)
qed

section \<open>Evaluating\<close>

text \<open>The hypotheses under which evaluation is defined: what the store keeps of its node map.\<close>

definition graph_ready :: "evaluation_identity \<Rightarrow> node_map \<Rightarrow> bool" where
  "graph_ready ident nodes \<longleftrightarrow>
     bt_wf nodes \<and> deps_faithful nodes \<and> is_ok (identity_validate ident) \<and> is_ok (validate_graph nodes)"

lemma graph_readyD:
  assumes "graph_ready ident nodes"
  obtains order where "bt_wf nodes" "deps_faithful nodes" "identity_validate ident = Inr ()"
    "validate_graph nodes = Inr ()" "topological_order nodes = Inr order" "topo_sorted nodes order"
    "\<And>c. set (deps_of nodes c) \<subseteq> set (bt_keys nodes)" "\<forall>e\<in>set nodes. node_ok (fst e) (snd e)"
proof -
  have v: "validate_graph nodes = Inr ()" and i: "identity_validate ident = Inr ()"
    and wf: "bt_wf nodes" and f: "deps_faithful nodes"
    using assms by (auto simp: graph_ready_def is_ok_unit_iff)
  from v obtain order where o: "topological_order nodes = Inr order"
    by (auto simp: validate_graph_def result_simps)
  from topological_order_Inr [OF wf o] have c: "closed_graph nodes" "topo_sorted nodes order" by auto
  have "\<forall>e\<in>set nodes. node_ok (fst e) (snd e)"
    using validate_graph_ok [OF wf] assms by (auto simp: graph_ready_def)
  with wf f i v o c deps_of_keys [OF wf] that show thesis by blast
qed

lemma eval_inv_start: "eval_inv sha ident nodes prior R {} ([], [], [])"
  by (simp add: eval_inv_def status_value_def)

lemma evaluate_affected_run:
  assumes "graph_ready ident nodes" and "set affected \<subseteq> set (bt_keys nodes)" and "bs_wf affected"
    and prior_def: "prior = prior_results ident previous"
  shows "\<exists>R report st. evaluate_affected sha nodes ident previous affected = Inr report \<and>
    required_loop nodes (\<lambda>d. prior d \<noteq> None) affected (rev affected) = Inr R \<and> bs_wf R \<and>
    (\<forall>c\<in>set R. deps_met nodes (\<lambda>d. prior d \<noteq> None) (set R) c) \<and>
    set affected \<subseteq> set R \<and> set R \<subseteq> set (bt_keys nodes) \<and>
    er_identity report = ident \<and> er_nodes report = fst (snd st) \<and> er_recomputed_nodes report = R \<and>
    eval_inv sha ident nodes prior (set R) (set (bt_keys nodes)) st \<and>
    bt_wf (er_outputs report) \<and> (\<forall>x. bt_get (er_outputs report) x = output_at (er_nodes report) nodes x)"
proof -
  from graph_readyD [OF assms(1)] obtain order where g: "bt_wf nodes" "deps_faithful nodes"
    "identity_validate ident = Inr ()" "validate_graph nodes = Inr ()" "topological_order nodes = Inr order"
    "topo_sorted nodes order" "\<And>c. set (deps_of nodes c) \<subseteq> set (bt_keys nodes)"
    "\<forall>e\<in>set nodes. node_ok (fst e) (snd e)" by metis
  have "\<exists>R. required_loop nodes (\<lambda>d. prior d \<noteq> None) affected (rev affected) = Inr R \<and> set affected \<subseteq> set R \<and>
      set R \<subseteq> set (bt_keys nodes) \<and> (\<forall>c\<in>set R. deps_met nodes (\<lambda>d. prior d \<noteq> None) (set R) c) \<and>
      (bs_wf affected \<longrightarrow> bs_wf R)"
    by (rule required_loop_closes) (use assms(2) g(7) in auto)
  then obtain R where R: "required_loop nodes (\<lambda>d. prior d \<noteq> None) affected (rev affected) = Inr R"
    "set affected \<subseteq> set R" "set R \<subseteq> set (bt_keys nodes)" "bs_wf R"
    "\<forall>c\<in>set R. deps_met nodes (\<lambda>d. prior d \<noteq> None) (set R) c" using assms(3) by blast
  have "\<exists>st. try_fold (eval_node sha ident nodes prior R) ([], [], []) order = Inr st \<and>
      eval_inv sha ident nodes prior (set R) (set ([] @ order)) st"
    by (rule eval_loop) (use g R eval_inv_start in auto)
  then obtain st where st: "try_fold (eval_node sha ident nodes prior R) ([], [], []) order = Inr st"
    and inv: "eval_inv sha ident nodes prior (set R) (set (bt_keys nodes)) st"
    using g(6) by (auto simp: topo_sorted_def)
  from collect_nodes [OF g(8) bt.keys_distinct [OF g(1)], of "fst (snd st)" "[]"] obtain outs where
    outs: "try_fold (collect_node (fst (snd st))) [] nodes = Inr outs" "bt_wf outs"
    "\<And>x. bt_get outs x = output_at (fst (snd st)) nodes x"
    by (auto simp: option.case_eq_if)
  have "snd (snd st) = R"
    using inv R by (intro bs_wf_unique) (auto simp: eval_inv_def)
  moreover have "evaluate_affected sha nodes ident previous affected =
      Inr \<lparr>er_identity = ident, er_document_id = None, er_revision_id = None, er_canonical_digest = None,
        er_nodes = fst (snd st), er_outputs = outs, er_recomputed_nodes = snd (snd st)\<rparr>"
    (is "_ = Inr ?report")
    using g R(1) st outs(1) by (simp add: evaluate_affected_def prior_def [symmetric])
  ultimately show ?thesis
    using R inv outs(2,3) by (intro exI [of _ R] exI [of _ ?report] exI [of _ st]) simp
qed

lemma eval_inv_evaluated:
  assumes inv: "eval_inv sha ident nodes prior R (set (bt_keys nodes)) st"
    and nodes: "bt_wf nodes" "deps_faithful nodes"
    and deps: "\<And>c. set (deps_of nodes c) \<subseteq> set (bt_keys nodes)"
    and old: "\<And>c node. c \<notin> R \<Longrightarrow> bt_get nodes c = Some node \<Longrightarrow>
      set (en_dependencies node) \<inter> R = {} \<and> prior c = Some (node_result sha ident evs0 c node)"
    and wf0: "bt_wf evs0" and prior: "\<And>d. d \<notin> R \<Longrightarrow> prior d = bt_get evs0 d"
  shows "evaluated sha ident nodes (fst (snd st))"
proof -
  let ?evs = "fst (snd st)"
  have wf: "bt_wf ?evs" using inv by (simp add: eval_inv_def)
  have res: "bt_get ?evs c = Some (node_result sha ident ?evs c node)" if node: "bt_get nodes c = Some node" for c node
  proof (cases "c \<in> R")
    case True
    then show ?thesis using inv node bt_get_Some_keys [OF node] by (auto simp: eval_inv_def)
  next
    case False
    have "bt_get ?evs d = bt_get evs0 d" if "d \<in> set (en_dependencies node)" for d
    proof -
      have "d \<in> set (bt_keys nodes)" "d \<notin> R"
        using that deps [of c] old [OF False node] by (auto simp: deps_of_get [OF node])
      then show ?thesis using inv prior by (auto simp: eval_inv_def)
    qed
    then have "node_result sha ident ?evs c node = node_result sha ident evs0 c node"
      using deps_faithful_get [OF nodes node] bt.keys_distinct wf wf0 by (intro node_result_cong) auto
    then show ?thesis
      using inv False old [OF False node] bt_get_Some_keys [OF node] by (auto simp: eval_inv_def)
  qed
  have "c \<in> set (bt_keys ?evs) \<longleftrightarrow> c \<in> set (bt_keys nodes)" for c
  proof
    assume "c \<in> set (bt_keys ?evs)"
    then have "bt_get ?evs c \<noteq> None" by (simp add: bt_get_None_keys)
    then show "c \<in> set (bt_keys nodes)" using inv by (auto simp: eval_inv_def)
  next
    assume "c \<in> set (bt_keys nodes)"
    then obtain node where "bt_get nodes c = Some node" using bt_get_None_keys [of nodes c] by auto
    from bt_get_Some_keys [OF res [OF this]] show "c \<in> set (bt_keys ?evs)" .
  qed
  with wf res show ?thesis by (auto simp: evaluated_def)
qed

lemma evaluate_graph_run:
  assumes "graph_ready ident nodes"
  shows "\<exists>report. evaluate_graph sha nodes ident = Inr report \<and> er_identity report = ident \<and>
    evaluated sha ident nodes (er_nodes report) \<and> er_recomputed_nodes report = bt_keys nodes \<and>
    bt_wf (er_outputs report) \<and> (\<forall>x. bt_get (er_outputs report) x = output_at (er_nodes report) nodes x)"
proof -
  from graph_readyD [OF assms] obtain order where g: "bt_wf nodes" "deps_faithful nodes"
    "\<And>c. set (deps_of nodes c) \<subseteq> set (bt_keys nodes)" by metis
  from evaluate_affected_run [OF assms _ bt_keys_wf [OF g(1)] refl, where previous = None and sha = sha] obtain R report st where
    bs: "bs_wf R" and r: "evaluate_graph sha nodes ident = Inr report" "set R = set (bt_keys nodes)"
    "er_identity report = ident" "er_nodes report = fst (snd st)" "er_recomputed_nodes report = R"
    "eval_inv sha ident nodes (prior_results ident None) (set R) (set (bt_keys nodes)) st"
    "bt_wf (er_outputs report)" "\<And>x. bt_get (er_outputs report) x = output_at (er_nodes report) nodes x"
    by (auto simp: evaluate_graph_def)
  have "evaluated sha ident nodes (fst (snd st))"
    by (rule eval_inv_evaluated [OF r(6) g(1,2), of "[]"])
      (use g(3) r(2) in \<open>auto simp: prior_results_def dest: bt_get_Some_keys\<close>)
  moreover have "R = bt_keys nodes" by (rule bs_wf_unique [OF bs bt_keys_wf [OF g(1)] r(2)])
  ultimately show ?thesis using r by auto
qed

lemma evaluate_affected_incremental:
  assumes ready: "graph_ready ident nodes" and wf0: "bt_wf evs0"
    and evs0: "evaluated sha ident nodes0 evs0"
    and prev: "er_identity previous = ident" "er_nodes previous = evs0"
    and changed: "set changed \<subseteq> set (bt_keys nodes)" "bs_wf changed"
    and same: "\<And>c node. bt_get nodes c = Some node \<Longrightarrow> c \<notin> set changed \<Longrightarrow> bt_get nodes0 c = Some node"
  shows "\<exists>report. evaluate_affected sha nodes ident (Some previous) (dependent_closure nodes changed) = Inr report \<and>
    er_identity report = ident \<and> evaluated sha ident nodes (er_nodes report) \<and>
    er_recomputed_nodes report = dependent_closure nodes changed \<and>
    bt_wf (er_outputs report) \<and> (\<forall>x. bt_get (er_outputs report) x = output_at (er_nodes report) nodes x)"
proof -
  from graph_readyD [OF ready] obtain order where g: "bt_wf nodes" "deps_faithful nodes"
    "\<And>c. set (deps_of nodes c) \<subseteq> set (bt_keys nodes)" by metis
  let ?A = "dependent_closure nodes changed"
  have A: "set ?A = (dependency_edges nodes)\<^sup>* `` set changed" by (rule dependent_closure_reach [OF g(1)])
  have "c \<in> set (bt_keys nodes)" if "(s, c) \<in> (dependency_edges nodes)\<^sup>*" "s \<in> set changed" for s c
    using that changed(1) by (cases rule: rtranclE) (auto simp: dependency_edges_def dest: deps_of_key)
  then have A_keys: "set ?A \<subseteq> set (bt_keys nodes)" using A by blast
  have A_up: "c \<in> set ?A" if "d \<in> set (deps_of nodes c)" "d \<in> set ?A" for c d
  proof -
    have "(d, c) \<in> dependency_edges nodes" using that(1) by (simp add: dependency_edges_def)
    with that(2) show ?thesis unfolding A by (meson ImageE ImageI rtrancl.rtrancl_into_rtrancl)
  qed
  have prior: "prior_results ident (Some previous) = bt_get evs0"
    using prev by (auto simp: prior_results_def)
  have out: "bt_get nodes0 c = Some node" if "bt_get nodes c = Some node" "c \<notin> set ?A" for c node
    using that same A by auto
  have has: "bt_get evs0 c = Some (node_result sha ident evs0 c node)"
    if "bt_get nodes c = Some node" "c \<notin> set ?A" for c node
    using out [OF that] evs0 by (simp add: evaluated_def)
  have met: "\<forall>c\<in>set ?A. deps_met nodes (\<lambda>d. bt_get evs0 d \<noteq> None) (set ?A) c"
  proof (intro ballI)
    fix c
    have "bt_get evs0 d \<noteq> None" if "d \<in> set (deps_of nodes c)" "d \<notin> set ?A" for d
      using that g(3) [of c] has [of d] bt_get_None_keys [of nodes d] by (cases "bt_get nodes d") auto
    then show "deps_met nodes (\<lambda>d. bt_get evs0 d \<noteq> None) (set ?A) c" unfolding deps_met_def by blast
  qed
  have loop: "required_loop nodes (\<lambda>d. bt_get evs0 d \<noteq> None) ?A (rev ?A) = Inr ?A"
    by (rule required_loop_stable) (use A_keys met in auto)
  have "bs_wf ?A" using changed(2) by (simp add: dependent_closure_def bs_wf_closure_loop)
  from evaluate_affected_run [OF ready A_keys this refl, where previous = "Some previous" and sha = sha] loop obtain report st where
    r: "evaluate_affected sha nodes ident (Some previous) ?A = Inr report"
    "er_identity report = ident" "er_nodes report = fst (snd st)" "er_recomputed_nodes report = ?A"
    "eval_inv sha ident nodes (bt_get evs0) (set ?A) (set (bt_keys nodes)) st"
    "bt_wf (er_outputs report)" "\<And>x. bt_get (er_outputs report) x = output_at (er_nodes report) nodes x"
    unfolding prior by auto
  have "evaluated sha ident nodes (fst (snd st))"
  proof (rule eval_inv_evaluated [OF r(5) g(1,2), of evs0])
    fix c node assume "c \<notin> set ?A" "bt_get nodes c = Some node"
    then show "set (en_dependencies node) \<inter> set ?A = {} \<and>
        bt_get evs0 c = Some (node_result sha ident evs0 c node)"
      using A_up [of _ c] has [of c node] deps_of_get [of nodes c node] by auto
  qed (use g(3) wf0 in auto)
  with r show ?thesis by auto
qed

section \<open>Outputs and slot resolution\<close>

fun tree_paths :: "rule_output \<Rightarrow> slot_segment list set" where
  "tree_paths (RuleOutput seg children) =
     insert [seg] (\<Union>y\<in>set children. (#) seg ` tree_paths y)"

lemma preorder_paths:
  "path_of ` set (preorder True (\<lambda>out path. path @ [ro_segment out]) c out) = {c @ p |p. p \<in> tree_paths out}"
proof (induction out arbitrary: c)
  case (RuleOutput seg children)
  then show ?case
    by (simp add: set_preorder image_UN path_of_def [of "(RuleOutput seg children, c)"] del: preorder.simps cong: SUP_cong) auto
qed

lemma set_output_paths: "set (output_paths outputs) = (\<Union>y\<in>set outputs. tree_paths y)"
  by (simp add: output_paths_def set_forest_walk image_UN preorder_paths)

lemma tree_paths_all: "ro_all P out \<Longrightarrow> p \<in> tree_paths out \<Longrightarrow> list_all P p"
proof (induction out arbitrary: p)
  case (RuleOutput seg children)
  then show ?case by (auto simp: list_all_iff)
qed

lemma tree_paths_Cons:
  "seg # p \<in> tree_paths out \<longleftrightarrow> ro_segment out = seg \<and> (p = [] \<or> (\<exists>y\<in>set (ro_children out). p \<in> tree_paths y))"
  by (cases out) auto

lemma tree_paths_nonempty: "p \<in> tree_paths out \<Longrightarrow> p \<noteq> []"
  by (cases out) auto

lemma resolve_not_lost:
  "p \<in> set (output_paths outputs) \<Longrightarrow> resolve_outputs_from k outputs p \<noteq> Lost i"
proof (induction k outputs p rule: resolve_outputs_from.induct)
  case (2 k outputs seg segs)
  let ?m = "filter (\<lambda>out. ro_segment out = seg) outputs"
  from "2.prems" obtain out where out: "out \<in> set ?m"
    and rest: "segs = [] \<or> segs \<in> set (output_paths (ro_children out))"
    by (auto simp: set_output_paths tree_paths_Cons)
  show ?case
  proof (cases ?m)
    case Nil
    with out show ?thesis by simp
  next
    case (Cons a list)
    show ?thesis
    proof (cases list)
      case Nil
      with Cons out have "a = out" by simp
      with "2.IH" [OF Cons Nil] Cons Nil rest show ?thesis by (cases "segs = []") auto
    qed (simp add: Cons)
  qed
qed (simp add: set_output_paths)

lemma resolve_resolved:
  "resolve_outputs_from k outputs p = Resolved \<Longrightarrow> p \<noteq> [] \<Longrightarrow> p \<in> set (output_paths outputs)"
proof (induction k outputs p rule: resolve_outputs_from.induct)
  case (2 k outputs seg segs)
  then obtain a where a: "filter (\<lambda>out. ro_segment out = seg) outputs = [a]"
    by (auto split: list.splits)
  have "a \<in> set (filter (\<lambda>out. ro_segment out = seg) outputs)" by (simp add: a)
  then have "a \<in> set outputs \<and> ro_segment a = seg" by simp
  moreover have "segs = [] \<or> segs \<in> set (output_paths (ro_children a))"
    using "2.IH" [OF a refl] "2.prems"(1) a by auto
  ultimately show ?case by (auto simp: set_output_paths tree_paths_Cons)
qed simp

lemma check_segments_pass:
  assumes "bt_get nodes root = Some node" and "is_rule node"
    and "list_all (\<lambda>seg. producer_rule_id seg = root \<and> output_port seg \<in> port_name ` set (en_output_ports node)) segs"
  shows "check_segments nodes root k segs = None"
  using assms(3) by (induction segs arbitrary: k) (auto simp: assms(1,2))

lemma output_resolves:
  assumes "bt_wf nodes" and "\<forall>e\<in>set nodes. node_ok (fst e) (snd e)"
  shows "output_at evs nodes x = Some o1 \<Longrightarrow> resolve_derived_identity nodes x \<noteq> Lost i"
    and "resolve_derived_identity nodes x = Resolved \<Longrightarrow> segments (slot_path x) \<noteq> [] \<Longrightarrow>
      bt_get evs (root_rule_node_id x) = Some e \<Longrightarrow> ne_status e = Evaluated v \<Longrightarrow>
      output_at evs nodes x = Some (output_of e v)"
proof -
  let ?c = "root_rule_node_id x" and ?p = "segments (slot_path x)"
  show "resolve_derived_identity nodes x \<noteq> Lost i" if "output_at evs nodes x = Some o1"
  proof -
    from that obtain node where node: "bt_get nodes ?c = Some node"
      and p: "?p \<in> set (output_paths (rule_outputs_of node))"
      by (auto simp: output_at_def split: option.splits evaluation_status.splits if_splits)
    then obtain s a ros al where k: "en_kind node = Rule s a ros al"
      by (cases "en_kind node") (auto simp: rule_outputs_of_def)
    have ok: "node_ok ?c node" using assms(2) bt.get_Some_iff [OF assms(1)] node by fastforce
    from p k obtain y where y: "y \<in> set ros" "?p \<in> tree_paths y"
      by (auto simp: rule_outputs_of_def set_output_paths)
    have "list_all (\<lambda>seg. producer_rule_id seg = ?c \<and> output_port seg \<in> port_name ` set (en_output_ports node)) ?p"
      using ok k y by (intro tree_paths_all [of _ y]) (auto simp: node_ok_def outputs_ok_def list_all_iff)
    then have "check_segments nodes ?c 0 ?p = None"
      using node k by (intro check_segments_pass) (auto simp: is_rule_def)
    with node k p show ?thesis
      using resolve_not_lost [of ?p ros 0 i]
      by (simp add: resolve_derived_identity_def is_rule_def resolve_slot_path_def resolve_outputs_def rule_outputs_of_def)
  qed
  show "output_at evs nodes x = Some (output_of e v)"
    if "resolve_derived_identity nodes x = Resolved" "?p \<noteq> []"
      "bt_get evs ?c = Some e" "ne_status e = Evaluated v"
  proof -
    from that(1) obtain node s a ros al where k: "bt_get nodes ?c = Some node" "en_kind node = Rule s a ros al"
      and "resolve_outputs_from 0 ros ?p = Resolved"
      by (auto simp: resolve_derived_identity_def is_rule_def resolve_slot_path_def resolve_outputs_def
          split: option.splits if_splits evaluator_node_kind.splits)
    with that resolve_resolved show ?thesis by (auto simp: output_at_def rule_outputs_of_def)
  qed
qed

section \<open>The digested bytes\<close>

definition identity_fits :: "evaluation_identity \<Rightarrow> bool" where
  "identity_fits i \<longleftrightarrow>
     fits (ei_evaluator i) \<and> fits (ei_schema i) \<and> fits (ei_tolerance i) \<and>
     (case ei_backend i of None \<Rightarrow> True | Some b \<Rightarrow> fits b)"

definition identity_bytes :: "evaluation_identity \<Rightarrow> bytes" where
  "identity_bytes i = push_string (ei_evaluator i) @ push_string (ei_schema i) @ push_string (ei_tolerance i) @
     (case ei_backend i of Some backend \<Rightarrow> [1] @ push_string backend | None \<Rightarrow> [0])"

lemma identity_bytes_inject:
  assumes "identity_fits i" and "identity_fits j" and "identity_bytes i = identity_bytes j"
  shows "i = j"
proof -
  note [simp] = identity_fits_def
  note e0 = assms(3) [unfolded identity_bytes_def]
  note e1 = pc_string.enc_split [OF _ _ e0]
  have 1: "ei_evaluator i = ei_evaluator j" using e1 assms by simp
  note e2 = pc_string.enc_split [OF _ _ e1 [THEN conjunct2]]
  have 2: "ei_schema i = ei_schema j" using e2 assms by simp
  note e3 = pc_string.enc_split [OF _ _ e2 [THEN conjunct2]]
  have 3: "ei_tolerance i = ei_tolerance j" using e3 assms by simp
  have "(case ei_backend i of Some backend \<Rightarrow> [1] @ push_string backend | None \<Rightarrow> [0]) =
      (case ei_backend j of Some backend \<Rightarrow> [1] @ push_string backend | None \<Rightarrow> [0 :: u8])"
    using e3 assms by simp
  then have "ei_backend i = ei_backend j"
    using assms(1,2) pc_string.enc_inject by (auto split: option.splits)
  with 1 2 3 show ?thesis by simp
qed

lemma node_input_bytes_inject:
  assumes "fits (canonical_spec_bytes n)" and "fits (canonical_spec_bytes m)"
    and "fits rs" and "fits qs" and "list_all fits rs" and "list_all fits qs"
    and "identity_fits i" and "identity_fits j"
    and "node_input_bytes n rs i = node_input_bytes m qs j"
  shows "canonical_spec_bytes n = canonical_spec_bytes m \<and> rs = qs \<and> i = j"
proof -
  have e0: "push_bytes (canonical_spec_bytes n) @ push_len (length rs) @ concat (map push_string rs) @ identity_bytes i =
      push_bytes (canonical_spec_bytes m) @ push_len (length qs) @ concat (map push_string qs) @ identity_bytes j"
    using assms(9) by (simp add: node_input_bytes_def identity_bytes_def)
  note e1 = pc_bytes.enc_split [OF assms(1,2) e0]
  note e2 = pc_string.push_list_split [OF assms(3-6) e1 [THEN conjunct2]]
  show ?thesis using e1 e2 identity_bytes_inject [OF assms(7,8)] by blast
qed

section \<open>No panics\<close>

lemma evaluate_affected_missing:
  assumes "graph_ready ident nodes" and "x \<in> set affected" and "x \<notin> set (bt_keys nodes)"
  shows "\<exists>y. evaluate_affected sha nodes ident previous affected = Inl (Returned (MissingDependency y)) \<and>
    y \<in> set affected - set (bt_keys nodes)"
proof -
  from graph_readyD [OF assms(1)] obtain order where g: "identity_validate ident = Inr ()"
    "validate_graph nodes = Inr ()" "topological_order nodes = Inr order"
    "\<And>c. set (deps_of nodes c) \<subseteq> set (bt_keys nodes)" by metis
  have "x \<in> set (rev affected)" using assms(2) by simp
  from required_loop_missing [OF g(4) this assms(3),
      where required = affected and reusable = "\<lambda>d. prior_results ident previous d \<noteq> None"]
  show ?thesis using g(1-3) by (auto simp: evaluate_affected_def)
qed

lemma evaluate_affected_no_panic:
  assumes "bt_wf nodes" and "deps_faithful nodes" and "bs_wf affected"
  shows "evaluate_affected sha nodes ident previous affected \<noteq> Inl Panicked"
proof (cases "graph_ready ident nodes")
  case True
  then show ?thesis
    using evaluate_affected_run [OF True _ assms(3) refl, where previous = previous and sha = sha]
      evaluate_affected_missing [OF True, where previous = previous and sha = sha]
    by (cases "set affected \<subseteq> set (bt_keys nodes)") fastforce+
next
  case False
  then have "\<not> is_ok (identity_validate ident) \<or> \<not> is_ok (validate_graph nodes)"
    using assms by (simp add: graph_ready_def)
  then show ?thesis
    using validate_graph_no_panic [OF assms(1)]
    by (cases "identity_validate ident"; cases "validate_graph nodes") (auto simp: evaluate_affected_def)
qed

section \<open>Properties\<close>

definition demo_identity :: evaluation_identity where
  "demo_identity = \<lparr>ei_evaluator = ''e'', ei_schema = ''s'', ei_tolerance = ''t'', ei_backend = None\<rparr>"

definition demo_expression :: "node_id \<Rightarrow> evaluator_node" where
  "demo_expression nid =
     \<lparr>en_id = nid, en_name = ''half'', en_kind = Expression ''$1'' (Node 1), en_input_ports = [],
      en_output_ports = [PortSpec ''value'' VNumber], en_dependencies = [1]\<rparr>"

definition demo_graph :: "str \<Rightarrow> node_map" where
  "demo_graph token =
     [(1, (demo_parameter 1 []) \<lparr>en_kind := Parameter (Dimension token 0)\<rparr>), (2, demo_expression 2)]"

lemma demo_graph_ready: "graph_ready demo_identity (demo_graph token)"
proof -
  have "\<not> trim_is_empty ''width''" "\<not> trim_is_empty ''half''"
    by (simp_all add: trim_is_empty_def str_chars_def is_whitespace_def)
  then have "try_each (validate_node (demo_graph token)) (demo_graph token) = Inr ()"
    by (simp add: demo_graph_def demo_parameter_def demo_expression_def validate_node_def
        validate_node_header_def bt_contains_def)
  moreover have "topological_order (demo_graph token) = Inr [1, 2]"
    by (simp add: topo_defs demo_graph_def demo_expression_def)
  ultimately have "is_ok (validate_graph (demo_graph token))" by (simp add: validate_graph_def)
  moreover have "deps_faithful (demo_graph token)"
    by (simp add: deps_faithful_def kind_deps_def demo_graph_def demo_parameter_def demo_expression_def
        ast_dependencies_def)
  moreover have "bt_wf (demo_graph token)" by (simp add: demo_graph_def)
  ultimately show ?thesis
    by (simp add: graph_ready_def identity_validate_def demo_identity_def)
qed

text \<open>
  C5.  Full evaluation of a valid graph returns a report, without error or panic, whose node
  results are the one solution of the node equations: each result is what the node's definition
  gives on the results of its dependencies, digests included.
\<close>

theorem evaluate_graph_correct:
  assumes "graph_ready ident nodes"
  shows "\<exists>report. evaluate_graph sha nodes ident = Inr report \<and> er_identity report = ident \<and>
    er_recomputed_nodes report = bt_keys nodes \<and>
    (\<forall>evs. evaluated sha ident nodes evs \<longleftrightarrow> evs = er_nodes report)"
proof -
  from graph_readyD [OF assms] obtain order where g: "bt_wf nodes" "deps_faithful nodes" "topo_sorted nodes order"
    by metis
  from evaluate_graph_run [OF assms, of sha] obtain report where
    "evaluate_graph sha nodes ident = Inr report" "er_identity report = ident"
    "evaluated sha ident nodes (er_nodes report)" "er_recomputed_nodes report = bt_keys nodes" by blast
  then show ?thesis using evaluated_unique [OF g] by blast
qed

theorem evaluate_graph_correct_witness:
  "\<exists>report. evaluate_graph (\<lambda>_. []) (demo_graph ''0'') demo_identity = Inr report \<and>
     er_recomputed_nodes report = [1, 2] \<and> evaluated (\<lambda>_. []) demo_identity (demo_graph ''0'') (er_nodes report)"
  using evaluate_graph_correct [OF demo_graph_ready, of "\<lambda>_. []" "''0''"]
  by (auto simp: demo_graph_def bt_keys_def)

text \<open>
  C4.  Incremental evaluation agrees with full evaluation.  Take the results of an earlier node
  map and a new valid node map in which only the nodes in \<open>changed\<close> were added or replaced
  (others may have been removed): evaluating the dependents of \<open>changed\<close> against the earlier
  results gives the report of a full evaluation, except that only those dependents were recomputed.
\<close>

theorem incremental_equals_full:
  assumes "graph_ready ident nodes" and "evaluate_graph sha nodes0 ident = Inr full0" and "graph_ready ident nodes0"
    and "er_identity previous = ident" and "er_nodes previous = er_nodes full0"
    and "set changed \<subseteq> set (bt_keys nodes)" and "bs_wf changed"
    and "\<And>c node. bt_get nodes c = Some node \<Longrightarrow> c \<notin> set changed \<Longrightarrow> bt_get nodes0 c = Some node"
  shows "\<exists>full. evaluate_graph sha nodes ident = Inr full \<and>
    evaluate_affected sha nodes ident (Some previous) (dependent_closure nodes changed) =
      Inr (full \<lparr>er_recomputed_nodes := dependent_closure nodes changed\<rparr>)"
proof -
  from graph_readyD [OF assms(1)] obtain order where g: "bt_wf nodes" "deps_faithful nodes" "topo_sorted nodes order"
    by metis
  have evs0: "evaluated sha ident nodes0 (er_nodes full0)"
    using evaluate_graph_run [OF assms(3), of sha] assms(2) by auto
  then have "bt_wf (er_nodes full0)" by (simp add: evaluated_def)
  from evaluate_affected_incremental [OF assms(1) this evs0 assms(4-8)] obtain report where
    r: "evaluate_affected sha nodes ident (Some previous) (dependent_closure nodes changed) = Inr report"
    "er_identity report = ident" "evaluated sha ident nodes (er_nodes report)"
    "er_recomputed_nodes report = dependent_closure nodes changed" "bt_wf (er_outputs report)"
    "\<And>x. bt_get (er_outputs report) x = output_at (er_nodes report) nodes x" by blast
  from evaluate_graph_run [OF assms(1), of sha] obtain full where
    f: "evaluate_graph sha nodes ident = Inr full" "er_identity full = ident"
    "evaluated sha ident nodes (er_nodes full)" "bt_wf (er_outputs full)"
    "\<And>x. bt_get (er_outputs full) x = output_at (er_nodes full) nodes x" by blast
  have n: "er_nodes report = er_nodes full" by (rule evaluated_unique [OF g r(3) f(3)])
  have o: "er_outputs report = er_outputs full"
    by (rule bt.entries_unique [OF r(5) f(4)]) (simp add: r(6) f(5) n)
  have none: "er_document_id rep = None \<and> er_revision_id rep = None \<and> er_canonical_digest rep = None"
    if "evaluate_affected sha nodes ident p a = Inr rep" for p a rep
    using that by (auto simp: evaluate_affected_def result_simps)
  have "report = full \<lparr>er_recomputed_nodes := dependent_closure nodes changed\<rparr>"
    using n o r(2,4) f(2) none [OF r(1)] none [OF f(1) [unfolded evaluate_graph_def]] by simp
  with r(1) f(1) show ?thesis by blast
qed

theorem incremental_equals_full_witness:
  "\<exists>full0 full. evaluate_graph (\<lambda>_. []) (demo_graph ''0'') demo_identity = Inr full0 \<and>
     evaluate_graph (\<lambda>_. []) (demo_graph ''0.0'') demo_identity = Inr full \<and>
     evaluate_affected (\<lambda>_. []) (demo_graph ''0.0'') demo_identity (Some full0)
       (dependent_closure (demo_graph ''0.0'') [1]) =
       Inr (full \<lparr>er_recomputed_nodes := dependent_closure (demo_graph ''0.0'') [1]\<rparr>)"
proof -
  from evaluate_graph_run [OF demo_graph_ready, of "\<lambda>_. []" "''0''"] obtain full0 where
    f: "evaluate_graph (\<lambda>_. []) (demo_graph ''0'') demo_identity = Inr full0" "er_identity full0 = demo_identity"
    by blast
  have "\<exists>full. evaluate_graph (\<lambda>_. []) (demo_graph ''0.0'') demo_identity = Inr full \<and>
     evaluate_affected (\<lambda>_. []) (demo_graph ''0.0'') demo_identity (Some full0)
       (dependent_closure (demo_graph ''0.0'') [1]) =
       Inr (full \<lparr>er_recomputed_nodes := dependent_closure (demo_graph ''0.0'') [1]\<rparr>)"
    by (rule incremental_equals_full [OF demo_graph_ready f(1) demo_graph_ready f(2) refl])
      (auto simp: demo_graph_def bt_keys_def split: if_splits)
  with f(1) show ?thesis by blast
qed

text \<open>
  The dependents computed for a change are exactly the changed nodes and every node that
  depends on one of them, directly or through others.
\<close>

theorem dependent_closure_correct:
  assumes "bt_wf nodes"
  shows "set (dependent_closure nodes changed) = (dependency_edges nodes)\<^sup>* `` set changed"
  by (rule dependent_closure_reach [OF assms])

theorem dependent_closure_correct_witness:
  "dependent_closure (demo_graph ''0'') [1] = [1, 2] \<and>
   (dependency_edges (demo_graph ''0''))\<^sup>* `` {1} = {1, 2}"
proof -
  have wf: "bt_wf (demo_graph ''0'')" by (simp add: demo_graph_def)
  have "dependent_closure (demo_graph ''0'') [1] = [1, 2]"
    by (simp add: dependent_closure_def closure_loop.simps closure_pass_def closure_step_def
        demo_graph_def demo_parameter_def demo_expression_def)
  with dependent_closure_correct [OF wf, of "[1]"] show ?thesis by simp
qed

text \<open>
  The bytes a node's input digest is taken over determine the node, the results it was
  evaluated on and the evaluation identity, so reuse of a result by its digest is as safe as the
  hash function.  (The hypotheses hold of every value in memory: lengths below \<open>2 ^ 64\<close>, and the
  tree of an expression or rule is the parse of its source.)
\<close>

theorem node_input_bytes_determine:
  assumes "node_fits n" and "node_fits m" and "kind_parsed (en_kind n)" and "kind_parsed (en_kind m)"
    and "fits (canonical_spec_bytes n)" and "fits (canonical_spec_bytes m)"
    and "fits rs" and "fits qs" and "list_all fits rs" and "list_all fits qs"
    and "identity_fits i" and "identity_fits j"
    and "node_input_bytes n rs i = node_input_bytes m qs j"
  shows "n = m \<and> rs = qs \<and> i = j"
  using node_input_bytes_inject [OF assms(5-13)] canonical_spec_bytes_inject [OF assms(1-4)] by blast

theorem node_input_bytes_determine_witness:
  "node_input_bytes (demo_parameter 1 []) [''a'', ''''] demo_identity \<noteq>
   node_input_bytes (demo_parameter 1 []) ['''', ''a''] demo_identity"
proof
  assume eq: "node_input_bytes (demo_parameter 1 []) [''a'', ''''] demo_identity =
    node_input_bytes (demo_parameter 1 []) ['''', ''a''] demo_identity"
  have n: "node_fits (demo_parameter 1 [])" "kind_parsed (en_kind (demo_parameter 1 []))"
    "fits (canonical_spec_bytes (demo_parameter 1 []))" "identity_fits demo_identity"
    by (simp_all add: node_fits_def fits_def kind_fits_def kind_parsed_def demo_parameter_def
        canonical_spec_bytes_def push_string_def push_bytes_def push_len_def push_ports_def push_port_def
        push_ids_def kind_bytes_def identity_fits_def demo_identity_def)
  from node_input_bytes_determine [OF n(1,1) n(2,2) n(3,3) _ _ _ _ n(4,4) eq]
  show False by (simp add: fits_def)
qed

text \<open>
  Outputs and slot resolution agree.  An identity the report has an output for never
  resolves as lost; an identity that resolves, with its rule evaluated, has exactly one output,
  which carries the rule's value and digests.
\<close>

theorem outputs_match_resolution:
  assumes "graph_ready ident nodes" and "evaluate_graph sha nodes ident = Inr report"
  shows "(bt_get (er_outputs report) x \<noteq> None \<longrightarrow> (\<forall>i. resolve_derived_identity nodes x \<noteq> Lost i)) \<and>
    (resolve_derived_identity nodes x = Resolved \<and> segments (slot_path x) \<noteq> [] \<and>
     bt_get (er_nodes report) (root_rule_node_id x) = Some e \<and> ne_status e = Evaluated v \<longrightarrow>
     bt_get (er_outputs report) x =
       Some \<lparr>do_value = v, do_input_digest = ne_input_digest e, do_result_digest = ne_result_digest e\<rparr>)"
proof -
  from graph_readyD [OF assms(1)] have g: "bt_wf nodes" "\<forall>e\<in>set nodes. node_ok (fst e) (snd e)" by metis+
  have "bt_get (er_outputs report) x = output_at (er_nodes report) nodes x"
    using evaluate_graph_run [OF assms(1), of sha] assms(2) by auto
  then show ?thesis
    using output_resolves(1) [OF g, of "er_nodes report" x] output_resolves(2) [OF g, of x "er_nodes report" e v]
    by (auto simp: output_of_def)
qed

theorem outputs_match_resolution_witness:
  "\<exists>report. evaluate_graph (\<lambda>_. []) (demo_graph ''0'') demo_identity = Inr report \<and>
     resolve_derived_identity (demo_graph ''0'') (DerivedIdentity 7 (SlotPath [])) = Lost 0 \<and>
     bt_get (er_outputs report) (DerivedIdentity 7 (SlotPath [])) = None"
proof -
  from evaluate_graph_run [OF demo_graph_ready, of "\<lambda>_. []" "''0''"] obtain report where
    r: "evaluate_graph (\<lambda>_. []) (demo_graph ''0'') demo_identity = Inr report" by blast
  have l: "resolve_derived_identity (demo_graph ''0'') (DerivedIdentity 7 (SlotPath [])) = Lost 0"
    by (simp add: resolve_derived_identity_def demo_graph_def)
  from outputs_match_resolution [OF demo_graph_ready r, of "DerivedIdentity 7 (SlotPath [])"] l r
  show ?thesis by blast
qed

text \<open>
  Evaluation never panics, whatever is affected and whatever earlier report is offered;
  on a valid graph its only error is an affected id that is no node, and it names such an id.
\<close>

theorem evaluate_affected_total:
  assumes "bt_wf nodes" and "deps_faithful nodes" and "bs_wf affected"
  shows "evaluate_affected sha nodes ident previous affected \<noteq> Inl Panicked \<and>
    (graph_ready ident nodes \<and> set affected \<subseteq> set (bt_keys nodes) \<longrightarrow>
       is_ok (evaluate_affected sha nodes ident previous affected)) \<and>
    (graph_ready ident nodes \<and> \<not> set affected \<subseteq> set (bt_keys nodes) \<longrightarrow>
       (\<exists>y. evaluate_affected sha nodes ident previous affected = Inl (Returned (MissingDependency y)) \<and>
          y \<in> set affected - set (bt_keys nodes)))"
  using evaluate_affected_no_panic [OF assms, where previous = previous and sha = sha]
    evaluate_affected_missing [of ident nodes _ affected, where previous = previous and sha = sha]
    evaluate_affected_run [OF _ _ assms(3) refl, of ident nodes, where previous = previous and sha = sha]
  by (auto simp: is_ok_iff)

theorem evaluate_affected_total_witness:
  "evaluate_affected (\<lambda>_. []) (demo_graph ''0'') demo_identity None [9] =
     Inl (Returned (MissingDependency 9))"
proof -
  have d: "bt_wf (demo_graph ''0'')" "deps_faithful (demo_graph ''0'')" "bs_wf [9 :: node_id]"
    using demo_graph_ready [of "''0''"] by (simp_all add: graph_ready_def)
  from evaluate_affected_total [OF d, of "\<lambda>_. []" demo_identity None] demo_graph_ready
  show ?thesis by (auto simp: demo_graph_def bt_keys_def)
qed

end
