(* ===== verification/Ketchup_Commands.thy ===== *)
theory Ketchup_Commands
  imports Ketchup_Eval
begin

text \<open>
  Batches of commands on the evaluator part of a document:
  \<^verbatim>\<open>document/store/commands/evaluation.rs\<close>, the dispatcher \<^verbatim>\<open>document/store/commands.rs\<close>,
  override upkeep of \<^verbatim>\<open>document/group_conversion.rs\<close> and the evaluation tail of
  \<^verbatim>\<open>DocumentStore::apply_batch_with_origin_and_validation\<close> in \<^verbatim>\<open>document/store.rs\<close>.

  A product is its evaluator nodes, its overrides and the rest (features, occurrences, sheets).
  The other command families never write nodes or overrides; they, and the passes over the
  rest, are the fields of a record \<open>families\<close> that the definitions take as an argument.
\<close>

section \<open>Data\<close>

datatype rule_program_error =
    NoNewHeadRevision
  | AlreadyBound
  | NotProgramOwned
  | EmptySource
  | NonFiniteProgramOverride
  | TooLarge nat
  | EmptyVariantName
  | NonFiniteVariantValue str str
  | TooManyVariants nat

datatype canonical_error =
    NodeAlreadyExists node_id
  | NodeNotFound node_id
  | CanonicalMissingDependency node_id
  | WrongNodeKind node_id
  | GraphFault graph_error
  | OverrideNotFound u64
  | UndeclaredOverrideParameter
  | UnsupportedCommandSchema
  | EmptyCommandBatch
  | RevisionExhausted
  | UnresolvedDerivedOutput
  | EvaluationEnvelopeMismatch
  | EvaluationEvidenceMismatch
  | FailedEvaluation node_id
  | RuleProgramFault rule_program_error
  | OtherFault str

record 'r product =
  pm_nodes :: node_map
  pm_overrides :: "(u64, canonical_override) btree_map"
  pm_rest :: 'r

datatype recompute_scope = ScopeAll | AffectedBy "node_id list"

datatype 'c canonical_command =
    CreateEvaluatorNode node_id str dimension "node_id list"
  | DeleteEvaluatorNode node_id
  | SetEvaluatorDimension node_id dimension
  | RenameEvaluatorNode node_id str
  | CreateExpressionNode node_id str str
  | CreateRuleNode node_id str str "port_spec list" "port_spec list" "rule_output list" "override_parameter_spec list"
  | SetNodeExpression node_id str
  | SetRuleOutputs node_id "rule_output list"
  | UpsertOverride canonical_override
  | DeleteOverride u64
  | RecomputeFeatureParameters evaluation_identity recompute_scope
  | OtherCommand 'c

record ('r, 'x) batch_edit =
  be_product :: "'r product"
  be_identity :: evaluation_identity
  be_previous :: "evaluation_report option"
  be_extra :: 'x

text \<open>
  What the evaluator part takes from the rest of the model: \<open>fam_apply\<close> the other command
  families; \<open>fam_after\<close> the production-code anchors checked after each command;
  \<open>fam_write\<close> writing recomputed values into bound feature parameters; \<open>fam_roots\<close> the rule
  nodes of the bindings; \<open>fam_refresh\<close> the passes before and \<open>fam_validate\<close> the checks after
  the graph is validated; \<open>fam_features\<close> the dirty features of a batch and the feature states,
  \<open>fam_opened\<close> the checks and states of an opened product; the digests.
\<close>

record ('r, 'x, 'c, 'f) families =
  fam_apply :: "'c \<Rightarrow> 'r product \<Rightarrow> 'x \<Rightarrow> canonical_error + 'r \<times> 'x"
  fam_after :: "'c canonical_command \<Rightarrow> 'r product \<Rightarrow> 'x \<Rightarrow> 'x"
  fam_start :: "'r product \<Rightarrow> 'x"
  fam_write :: "evaluation_report \<Rightarrow> node_id list option \<Rightarrow> 'r product \<Rightarrow> canonical_error + 'r"
  fam_roots :: "'r \<Rightarrow> node_id list"
  fam_refresh :: "'r product \<Rightarrow> 'c canonical_command list \<Rightarrow> 'x \<Rightarrow> 'r product \<Rightarrow> canonical_error + 'r"
  fam_validate :: "'r product \<Rightarrow> 'c canonical_command list \<Rightarrow> bool \<Rightarrow> 'r product \<Rightarrow> canonical_error + unit"
  fam_features :: "'r product \<Rightarrow> 'x \<Rightarrow> 'r product \<Rightarrow> canonical_error + u64 list \<times> 'f"
  fam_feature_ids :: "'r \<Rightarrow> u64 list"
  fam_opened :: "'r product \<Rightarrow> canonical_error + 'f"
  fam_has_definitions :: "'r \<Rightarrow> bool"
  fam_keeps_program :: "'c canonical_command list \<Rightarrow> bool"
  fam_digest :: "'r product \<Rightarrow> str"
  fam_batch_digest :: "str \<Rightarrow> 'c canonical_command list \<Rightarrow> str"
  fam_document :: "'r \<Rightarrow> document_id"
  fam_default_identity :: evaluation_identity

section \<open>Evaluator commands\<close>

definition lift_graph :: "graph_error + 'a \<Rightarrow> canonical_error + 'a" where
  "lift_graph r = map_err GraphFault r"

definition allowed_parameters :: "evaluator_node \<Rightarrow> override_parameter_spec list" where
  "allowed_parameters node = (case en_kind node of Rule _ _ _ allowed \<Rightarrow> allowed | _ \<Rightarrow> [])"

definition create_evaluator_input ::
  "node_map \<Rightarrow> node_id \<Rightarrow> str \<Rightarrow> dimension \<Rightarrow> node_id list \<Rightarrow> canonical_error + node_map" where
  "create_evaluator_input nodes nid name dimension dependencies =
     and_then (guard (\<not> bt_contains nodes nid) (NodeAlreadyExists nid)) (\<lambda>_.
     and_then (try_each (\<lambda>d. guard (bt_contains nodes d) (CanonicalMissingDependency d)) dependencies) (\<lambda>_.
     and_then (lift_graph (evaluator_node_parameter nid name dimension dependencies)) (\<lambda>node.
     Ok (bt_insert nid node nodes))))"

definition delete_evaluator_node :: "node_map \<Rightarrow> node_id \<Rightarrow> canonical_error + node_map" where
  "delete_evaluator_node nodes nid =
     and_then (ok_or (bt_get nodes nid) (NodeNotFound nid)) (\<lambda>_. Ok (bt_remove nid nodes))"

definition set_evaluator_dimension :: "node_map \<Rightarrow> node_id \<Rightarrow> dimension \<Rightarrow> canonical_error + node_map" where
  "set_evaluator_dimension nodes nid dimension =
     and_then (ok_or (bt_get nodes nid) (NodeNotFound nid)) (\<lambda>existing.
     and_then (lift_graph (evaluator_node_parameter nid (en_name existing) dimension (en_dependencies existing)))
       (\<lambda>replacement. Ok (bt_insert nid replacement nodes)))"

definition rename_evaluator_node :: "node_map \<Rightarrow> node_id \<Rightarrow> str \<Rightarrow> canonical_error + node_map" where
  "rename_evaluator_node nodes nid name =
     and_then (ok_or (bt_get nodes nid) (NodeNotFound nid)) (\<lambda>existing.
     and_then (lift_graph
       (case en_kind existing of
          Parameter value \<Rightarrow> evaluator_node_parameter nid name value (en_dependencies existing)
        | Expression source _ \<Rightarrow> evaluator_node_expression nid name source
        | Rule source _ outputs allowed \<Rightarrow>
            evaluator_node_rule nid name source (en_input_ports existing) (en_output_ports existing) outputs allowed))
       (\<lambda>replacement. Ok (bt_insert nid replacement nodes)))"

definition create_expression_node :: "node_map \<Rightarrow> node_id \<Rightarrow> str \<Rightarrow> str \<Rightarrow> canonical_error + node_map" where
  "create_expression_node nodes nid name source =
     and_then (guard (\<not> bt_contains nodes nid) (NodeAlreadyExists nid)) (\<lambda>_.
     and_then (lift_graph (evaluator_node_expression nid name source)) (\<lambda>node.
     Ok (bt_insert nid node nodes)))"

definition create_rule_node ::
  "node_map \<Rightarrow> node_id \<Rightarrow> str \<Rightarrow> str \<Rightarrow> port_spec list \<Rightarrow> port_spec list \<Rightarrow> rule_output list \<Rightarrow>
   override_parameter_spec list \<Rightarrow> canonical_error + node_map" where
  "create_rule_node nodes nid name source ins outs outputs parameters =
     and_then (guard (\<not> bt_contains nodes nid) (NodeAlreadyExists nid)) (\<lambda>_.
     and_then (lift_graph (evaluator_node_rule nid name source ins outs outputs parameters)) (\<lambda>node.
     Ok (bt_insert nid node nodes)))"

definition set_node_expression :: "node_map \<Rightarrow> node_id \<Rightarrow> str \<Rightarrow> canonical_error + node_map" where
  "set_node_expression nodes nid source =
     and_then (ok_or (bt_get nodes nid) (NodeNotFound nid)) (\<lambda>existing.
     and_then
       (case en_kind existing of
          Expression _ _ \<Rightarrow> lift_graph (evaluator_node_expression nid (en_name existing) source)
        | Rule _ _ outputs allowed \<Rightarrow>
            lift_graph (evaluator_node_rule nid (en_name existing) source (en_input_ports existing)
              (en_output_ports existing) outputs allowed)
        | Parameter _ \<Rightarrow> Err (WrongNodeKind nid))
       (\<lambda>replacement. Ok (bt_insert nid replacement nodes)))"

definition set_rule_outputs :: "node_map \<Rightarrow> node_id \<Rightarrow> rule_output list \<Rightarrow> canonical_error + node_map" where
  "set_rule_outputs nodes nid outputs =
     and_then (ok_or (bt_get nodes nid) (NodeNotFound nid)) (\<lambda>existing.
     and_then
       (case en_kind existing of
          Rule source _ _ allowed \<Rightarrow>
            lift_graph (evaluator_node_rule nid (en_name existing) source (en_input_ports existing)
              (en_output_ports existing) outputs allowed)
        | _ \<Rightarrow> Err (WrongNodeKind nid))
       (\<lambda>replacement. Ok (bt_insert nid replacement nodes)))"

definition lift_fault :: "graph_error fault + 'a \<Rightarrow> canonical_error fault + 'a" where
  "lift_fault r = map_err (\<lambda>e. case e of Returned g \<Rightarrow> Returned (GraphFault g) | Panicked \<Rightarrow> Panicked) r"

definition recompute_feature_parameters ::
  "(bytes \<Rightarrow> bytes) \<Rightarrow> ('r, 'x, 'c, 'f) families \<Rightarrow> 'r product \<Rightarrow> evaluation_identity \<Rightarrow> node_id list option \<Rightarrow>
   evaluation_report option \<Rightarrow> canonical_error fault + 'r product \<times> evaluation_report" where
  "recompute_feature_parameters sha fam product ident affected_nodes previous =
     and_then (lift_fault (evaluate_affected sha (pm_nodes product) ident previous
       (case affected_nodes of Some affected \<Rightarrow> affected | None \<Rightarrow> bt_keys (pm_nodes product)))) (\<lambda>report.
     and_then (map_err Returned (fam_write fam report affected_nodes product)) (\<lambda>rest.
     Ok (product \<lparr>pm_rest := rest\<rparr>, report)))"

definition on_nodes ::
  "('r, 'x) batch_edit \<Rightarrow> (node_map \<Rightarrow> canonical_error + node_map) \<Rightarrow> canonical_error fault + ('r, 'x) batch_edit" where
  "on_nodes edit f =
     and_then (map_err Returned (f (pm_nodes (be_product edit)))) (\<lambda>nodes.
     Ok (edit \<lparr>be_product := (be_product edit) \<lparr>pm_nodes := nodes\<rparr>\<rparr>))"

definition on_overrides ::
  "('r, 'x) batch_edit \<Rightarrow> (u64, canonical_override) btree_map \<Rightarrow> ('r, 'x) batch_edit" where
  "on_overrides edit overrides = edit \<lparr>be_product := (be_product edit) \<lparr>pm_overrides := overrides\<rparr>\<rparr>"

definition apply_evaluation ::
  "(bytes \<Rightarrow> bytes) \<Rightarrow> ('r, 'x, 'c, 'f) families \<Rightarrow> ('r, 'x) batch_edit \<Rightarrow> 'c canonical_command \<Rightarrow>
   canonical_error fault + ('r, 'x) batch_edit" where
  "apply_evaluation sha fam edit command =
     (case command of
        CreateEvaluatorNode nid name dimension ds \<Rightarrow>
          on_nodes edit (\<lambda>nodes. create_evaluator_input nodes nid name dimension ds)
      | DeleteEvaluatorNode nid \<Rightarrow> on_nodes edit (\<lambda>nodes. delete_evaluator_node nodes nid)
      | SetEvaluatorDimension nid dimension \<Rightarrow>
          on_nodes edit (\<lambda>nodes. set_evaluator_dimension nodes nid dimension)
      | RenameEvaluatorNode nid name \<Rightarrow> on_nodes edit (\<lambda>nodes. rename_evaluator_node nodes nid name)
      | CreateExpressionNode nid name source \<Rightarrow>
          on_nodes edit (\<lambda>nodes. create_expression_node nodes nid name source)
      | CreateRuleNode nid name source ins outs outputs parameters \<Rightarrow>
          on_nodes edit (\<lambda>nodes. create_rule_node nodes nid name source ins outs outputs parameters)
      | SetNodeExpression nid source \<Rightarrow> on_nodes edit (\<lambda>nodes. set_node_expression nodes nid source)
      | SetRuleOutputs nid outputs \<Rightarrow> on_nodes edit (\<lambda>nodes. set_rule_outputs nodes nid outputs)
      | UpsertOverride spec \<Rightarrow>
          Ok (on_overrides edit
                (bt_insert (ov_id spec)
                   (spec \<lparr>ov_health := resolve_derived_identity (pm_nodes (be_product edit)) (ov_target spec)\<rparr>)
                   (pm_overrides (be_product edit))))
      | DeleteOverride oid \<Rightarrow>
          if bt_contains (pm_overrides (be_product edit)) oid
          then Ok (on_overrides edit (bt_remove oid (pm_overrides (be_product edit))))
          else Err (Returned (OverrideNotFound oid))
      | RecomputeFeatureParameters ident scope \<Rightarrow>
          and_then (recompute_feature_parameters sha fam (be_product edit) ident
            (case scope of ScopeAll \<Rightarrow> None
             | AffectedBy nodes \<Rightarrow> Some (dependent_closure (pm_nodes (be_product edit)) nodes))
            (be_previous edit)) (\<lambda>(product, report).
          Ok (edit \<lparr>be_product := product, be_previous := Some report, be_identity := er_identity report\<rparr>))
      | OtherCommand c \<Rightarrow>
          and_then (map_err Returned (fam_apply fam c (be_product edit) (be_extra edit))) (\<lambda>(rest, extra).
          Ok (edit \<lparr>be_product := (be_product edit) \<lparr>pm_rest := rest\<rparr>, be_extra := extra\<rparr>)))"

definition edit_apply ::
  "(bytes \<Rightarrow> bytes) \<Rightarrow> ('r, 'x, 'c, 'f) families \<Rightarrow> ('r, 'x) batch_edit \<Rightarrow> 'c canonical_command \<Rightarrow>
   canonical_error fault + ('r, 'x) batch_edit" where
  "edit_apply sha fam edit command =
     and_then (apply_evaluation sha fam edit command) (\<lambda>edit'.
     Ok (edit' \<lparr>be_extra := fam_after fam command (be_product edit') (be_extra edit')\<rparr>))"

section \<open>Upkeep and evaluation of the new product\<close>

definition refresh_override_health :: "'r product \<Rightarrow> 'r product" where
  "refresh_override_health product =
     product \<lparr>pm_overrides :=
       map (\<lambda>(oid, value). (oid, value \<lparr>ov_health := resolve_derived_identity (pm_nodes product) (ov_target value)\<rparr>))
         (pm_overrides product)\<rparr>"

definition validate_override :: "node_map \<Rightarrow> canonical_override \<Rightarrow> canonical_error + unit" where
  "validate_override nodes value =
     (case bt_get nodes (root_rule_node_id (ov_target value)) of
        None \<Rightarrow> Ok ()
      | Some root \<Rightarrow>
          guard (list_ex (\<lambda>p. param_name p = ov_parameter value) (allowed_parameters root)) UndeclaredOverrideParameter)"

definition validate_overrides :: "'r product \<Rightarrow> canonical_error + unit" where
  "validate_overrides product = try_each (validate_override (pm_nodes product)) (bt_values (pm_overrides product))"

definition command_roots ::
  "('r, 'x, 'c, 'f) families \<Rightarrow> 'r product \<Rightarrow> node_id list \<Rightarrow> 'c canonical_command \<Rightarrow> node_id list" where
  "command_roots fam product roots command =
     (case command of
        CreateEvaluatorNode nid _ _ _ \<Rightarrow> bs_insert nid roots
      | SetEvaluatorDimension nid _ \<Rightarrow> bs_insert nid roots
      | RenameEvaluatorNode nid _ \<Rightarrow> bs_insert nid roots
      | CreateExpressionNode nid _ _ \<Rightarrow> bs_insert nid roots
      | CreateRuleNode nid _ _ _ _ _ _ \<Rightarrow> bs_insert nid roots
      | SetNodeExpression nid _ \<Rightarrow> bs_insert nid roots
      | SetRuleOutputs nid _ \<Rightarrow> bs_insert nid roots
      | RecomputeFeatureParameters _ ScopeAll \<Rightarrow> fold bs_insert (fam_roots fam (pm_rest product)) roots
      | RecomputeFeatureParameters _ (AffectedBy nodes) \<Rightarrow> fold bs_insert nodes roots
      | _ \<Rightarrow> roots)"

definition evaluator_roots ::
  "('r, 'x, 'c, 'f) families \<Rightarrow> 'r product \<Rightarrow> 'c canonical_command list \<Rightarrow> node_id list" where
  "evaluator_roots fam product commands = foldl (command_roots fam product) [] commands"

text \<open>
  \<open>apply_commands\<close> is the batch from the current product to the checked new one with its
  evaluation: everything \<^verbatim>\<open>apply_batch_with_origin_and_validation\<close> does before it allocates a
  revision.
\<close>

definition start_edit ::
  "('r, 'x, 'c, 'f) families \<Rightarrow> 'r product \<Rightarrow> evaluation_report option \<Rightarrow> ('r, 'x) batch_edit" where
  "start_edit fam product previous =
     \<lparr>be_product = product, be_identity = fam_default_identity fam, be_previous = previous,
      be_extra = fam_start fam product\<rparr>"

definition check_product ::
  "('r, 'x, 'c, 'f) families \<Rightarrow> 'r product \<Rightarrow> 'c canonical_command list \<Rightarrow> bool \<Rightarrow> ('r, 'x) batch_edit \<Rightarrow>
   canonical_error fault + 'r product" where
  "check_product fam current commands drawings edit =
     and_then (map_err Returned (fam_refresh fam current commands (be_extra edit) (be_product edit))) (\<lambda>rest.
     and_then (lift_fault (validate_graph (pm_nodes (be_product edit)))) (\<lambda>_.
     and_then (map_err Returned
       (validate_overrides (refresh_override_health ((be_product edit) \<lparr>pm_rest := rest\<rparr>)))) (\<lambda>_.
     and_then (map_err Returned
       (fam_validate fam current commands drawings
         (refresh_override_health ((be_product edit) \<lparr>pm_rest := rest\<rparr>)))) (\<lambda>_.
     Ok (refresh_override_health ((be_product edit) \<lparr>pm_rest := rest\<rparr>))))))"

definition evaluate_batch ::
  "(bytes \<Rightarrow> bytes) \<Rightarrow> ('r, 'x, 'c, 'f) families \<Rightarrow> 'c canonical_command list \<Rightarrow> ('r, 'x) batch_edit \<Rightarrow> 'r product \<Rightarrow>
   canonical_error fault + evaluation_report" where
  "evaluate_batch sha fam commands edit product =
     lift_fault (evaluate_affected sha (pm_nodes product) (be_identity edit) (be_previous edit)
       (dependent_closure (pm_nodes product) (evaluator_roots fam product commands)))"

section \<open>Agreement of a reused report\<close>

lemma evaluate_affected_Inr:
  assumes "bt_wf nodes" and "deps_faithful nodes" and "evaluate_affected sha nodes ident previous affected = Inr report"
  shows "graph_ready ident nodes \<and> set affected \<subseteq> set (bt_keys nodes) \<and> er_identity report = ident"
proof -
  have r: "graph_ready ident nodes" "er_identity report = ident"
    using assms by (auto simp: graph_ready_def evaluate_affected_def result_simps is_ok_unit_iff)
  with evaluate_affected_missing [OF r(1), of _ affected sha previous] assms(3) show ?thesis by auto
qed

lemma evaluation_agrees:
  assumes M: "bt_wf M" "deps_faithful M" "evaluate_affected sha M ident previous affected = Inr report" "bs_wf affected"
    and N: "bt_wf N" "topo_sorted N order" "evaluated sha ident N F"
    and U: "\<And>c. c \<in> U \<Longrightarrow> \<exists>n. bt_get N c = Some n \<and> bt_get M c = Some n \<and> set (en_dependencies n) \<subseteq> U"
    and prior: "\<And>c e. c \<in> U \<Longrightarrow> c \<notin> set affected \<Longrightarrow> prior_results ident previous c = Some e \<Longrightarrow> bt_get F c = Some e"
    and c: "c \<in> U" "bt_get (er_nodes report) c = Some e"
  shows "bt_get F c = Some e"
proof -
  from evaluate_affected_Inr [OF M(1-3)] have rdy: "graph_ready ident M" "set affected \<subseteq> set (bt_keys M)" by auto
  from evaluate_affected_run [OF rdy M(4) refl, where previous = previous and sha = sha] M(3)
  obtain R st where R: "set affected \<subseteq> set R"
    "\<forall>c\<in>set R. deps_met M (\<lambda>d. prior_results ident previous d \<noteq> None) (set R) c"
    and evs: "er_nodes report = fst (snd st)"
    and inv: "eval_inv sha ident M (prior_results ident previous) (set R) (set (bt_keys M)) st" by auto
  let ?E = "fst (snd st)"
  have wf: "bt_wf ?E" "bt_wf F" using inv N(3) by (auto simp: eval_inv_def evaluated_def)
  have res: "bt_get ?E x = Some (node_result sha ident ?E x n)" if "x \<in> set R" "bt_get M x = Some n" for x n
    using inv that bt_get_Some_keys [OF that(2)] by (auto simp: eval_inv_def)
  have old: "bt_get ?E x = prior_results ident previous x" if "x \<notin> set R" "bt_get M x = Some n" for x n
    using inv that bt_get_Some_keys [OF that(2)] by (auto simp: eval_inv_def)
  have "\<forall>x\<in>set xs \<inter> U. \<forall>e. bt_get ?E x = Some e \<longrightarrow> bt_get F x = Some e" if "order = xs @ ys" for xs ys
    using that
  proof (induction xs arbitrary: ys rule: rev_induct)
    case Nil
    then show ?case by simp
  next
    case (snoc x xs)
    have IH: "\<forall>x\<in>set xs \<inter> U. \<forall>e. bt_get ?E x = Some e \<longrightarrow> bt_get F x = Some e"
      by (rule snoc.IH [of "x # ys"]) (simp add: snoc.prems)
    have "bt_get F x = Some e" if x: "x \<in> U" "bt_get ?E x = Some e" for e
    proof -
      from U [OF x(1)] obtain n where n: "bt_get N x = Some n" "bt_get M x = Some n" "set (en_dependencies n) \<subseteq> U"
        by blast
      show ?thesis
      proof (cases "x \<in> set R")
        case False
        then have "x \<notin> set affected" using R(1) by blast
        moreover have "prior_results ident previous x = Some e" using old [OF False n(2)] x(2) by simp
        ultimately show ?thesis by (rule prior [OF x(1)])
      next
        case True
        have sub: "set (en_dependencies n) \<subseteq> set xs"
          using topo_sorted_deps [of N xs x ys n] N(2) snoc.prems n(1) by simp
        have "bt_get ?E d = bt_get F d" if d: "d \<in> set (en_dependencies n)" for d
        proof -
          obtain m where m: "bt_get M d = Some m" using U [of d] d n(3) by blast
          have "bt_get ?E d \<noteq> None"
          proof (cases "d \<in> set R")
            case True
            then show ?thesis using res m by simp
          next
            case False
            moreover have "deps_met M (\<lambda>d. prior_results ident previous d \<noteq> None) (set R) x"
              using R(2) \<open>x \<in> set R\<close> by blast
            ultimately have "prior_results ident previous d \<noteq> None"
              using d unfolding deps_met_def deps_of_get [OF n(2)] by blast
            then show ?thesis using old [OF False m] by simp
          qed
          then obtain e' where "bt_get ?E d = Some e'" by blast
          moreover have "d \<in> set xs \<inter> U" using sub n(3) d by blast
          ultimately show ?thesis using IH by auto
        qed
        then have "node_result sha ident ?E x n = node_result sha ident F x n"
          using deps_faithful_get [OF M(1,2) n(2)] bt.keys_distinct wf by (intro node_result_cong) auto
        then show ?thesis using res [OF True n(2)] x(2) N(3) n(1) by (simp add: evaluated_def)
      qed
    qed
    with IH show ?case by auto
  qed
  from this [of order "[]"] have all: "\<forall>x\<in>set order \<inter> U. \<forall>e. bt_get ?E x = Some e \<longrightarrow> bt_get F x = Some e" by simp
  have "c \<in> set order" using U [OF c(1)] N(2) bt_get_Some_keys [of N c] by (auto simp: topo_sorted_def)
  with all c evs show ?thesis by auto
qed

lemma evaluated_agree:
  assumes N: "bt_wf N" "deps_faithful N" "topo_sorted N order" "evaluated sha ident N F"
    and M: "evaluated sha ident M E"
    and U: "\<And>c. c \<in> U \<Longrightarrow> \<exists>n. bt_get N c = Some n \<and> bt_get M c = Some n \<and> set (en_dependencies n) \<subseteq> U"
    and c: "c \<in> U"
  shows "bt_get E c = bt_get F c"
proof -
  have wf: "bt_wf E" "bt_wf F" using M N(4) by (auto simp: evaluated_def)
  have "\<forall>x\<in>set xs \<inter> U. bt_get E x = bt_get F x" if "order = xs @ ys" for xs ys
    using that
  proof (induction xs arbitrary: ys rule: rev_induct)
    case Nil
    then show ?case by simp
  next
    case (snoc x xs)
    have IH: "\<forall>x\<in>set xs \<inter> U. bt_get E x = bt_get F x"
      by (rule snoc.IH [of "x # ys"]) (simp add: snoc.prems)
    have "bt_get E x = bt_get F x" if "x \<in> U"
    proof -
      from U [OF that] obtain n where n: "bt_get N x = Some n" "bt_get M x = Some n" "set (en_dependencies n) \<subseteq> U"
        by blast
      have "set (en_dependencies n) \<subseteq> set xs"
        using topo_sorted_deps [of N xs x ys n] N(3) snoc.prems n(1) by simp
      then have "node_result sha ident E x n = node_result sha ident F x n"
        using IH n(3) deps_faithful_get [OF N(1,2) n(1)] bt.keys_distinct wf by (intro node_result_cong) auto
      then show ?thesis using n N(4) M by (simp add: evaluated_def)
    qed
    with IH show ?case by auto
  qed
  from this [of order "[]"] U [OF c] N(3) c bt_get_Some_keys [of N c] show ?thesis
    by (auto simp: topo_sorted_def)
qed

section \<open>What a batch does to the nodes\<close>

definition nodes_wf :: "node_map \<Rightarrow> bool" where
  "nodes_wf nodes \<longleftrightarrow> bt_wf nodes \<and> deps_faithful nodes"

lemma parameter_deps: "evaluator_node_parameter nid name value ds = Inr n \<Longrightarrow> kind_deps n"
  by (auto simp: evaluator_node_parameter_def result_simps kind_deps_def)

lemma expression_deps: "evaluator_node_expression nid name source = Inr n \<Longrightarrow> kind_deps n"
  by (auto simp: evaluator_node_expression_def result_simps kind_deps_def)

lemma rule_deps: "evaluator_node_rule nid name source ins outs outputs al = Inr n \<Longrightarrow> kind_deps n"
  by (auto simp: evaluator_node_rule_def result_simps kind_deps_def)

lemmas constructor_deps = parameter_deps expression_deps rule_deps

lemma nodes_wf_insert: "nodes_wf nodes \<Longrightarrow> kind_deps n \<Longrightarrow> nodes_wf (bt_insert c n nodes)"
  using set_bt_insert [of c n nodes] by (auto simp: nodes_wf_def deps_faithful_def)

lemma nodes_wf_remove: "nodes_wf nodes \<Longrightarrow> nodes_wf (bt_remove c nodes)"
  by (auto simp: nodes_wf_def deps_faithful_def bt_remove_def bt_wf_remove [unfolded bt_remove_def])

definition command_id :: "'c canonical_command \<Rightarrow> node_id option" where
  "command_id command =
     (case command of
        CreateEvaluatorNode nid _ _ _ \<Rightarrow> Some nid
      | SetEvaluatorDimension nid _ \<Rightarrow> Some nid
      | RenameEvaluatorNode nid _ \<Rightarrow> Some nid
      | CreateExpressionNode nid _ _ \<Rightarrow> Some nid
      | CreateRuleNode nid _ _ _ _ _ _ \<Rightarrow> Some nid
      | SetNodeExpression nid _ \<Rightarrow> Some nid
      | SetRuleOutputs nid _ \<Rightarrow> Some nid
      | _ \<Rightarrow> None)"

text \<open>One command writes at most one node, the one it names, or deletes one.\<close>

definition nodes_step :: "'c canonical_command \<Rightarrow> node_map \<Rightarrow> node_map \<Rightarrow> bool" where
  "nodes_step command nodes nodes' \<longleftrightarrow>
     nodes' = nodes \<or>
     (\<exists>c n. command_id command = Some c \<and> kind_deps n \<and> nodes' = bt_insert c n nodes) \<or>
     (\<exists>c. command = DeleteEvaluatorNode c \<and> nodes' = bt_remove c nodes)"

lemmas node_op_defs = create_evaluator_input_def delete_evaluator_node_def set_evaluator_dimension_def
  rename_evaluator_node_def create_expression_node_def create_rule_node_def set_node_expression_def
  set_rule_outputs_def lift_graph_def

lemma node_creations_insert:
  "create_evaluator_input nodes c name dim ds = Inr nodes' \<Longrightarrow> \<exists>n. kind_deps n \<and> nodes' = bt_insert c n nodes"
  "set_evaluator_dimension nodes c dim = Inr nodes' \<Longrightarrow> \<exists>n. kind_deps n \<and> nodes' = bt_insert c n nodes"
  "create_expression_node nodes c name src = Inr nodes' \<Longrightarrow> \<exists>n. kind_deps n \<and> nodes' = bt_insert c n nodes"
  "create_rule_node nodes c name src ins outs ros al = Inr nodes' \<Longrightarrow> \<exists>n. kind_deps n \<and> nodes' = bt_insert c n nodes"
  by (auto simp: node_op_defs result_simps dest: constructor_deps)

lemma node_replacements_insert:
  "rename_evaluator_node nodes c name = Inr nodes' \<Longrightarrow> \<exists>n. kind_deps n \<and> nodes' = bt_insert c n nodes"
  "set_node_expression nodes c src = Inr nodes' \<Longrightarrow> \<exists>n. kind_deps n \<and> nodes' = bt_insert c n nodes"
  "set_rule_outputs nodes c ros = Inr nodes' \<Longrightarrow> \<exists>n. kind_deps n \<and> nodes' = bt_insert c n nodes"
  by (cases "bt_get nodes c"; cases "en_kind (the (bt_get nodes c))";
      auto simp: node_op_defs result_simps dest: constructor_deps)+

lemmas node_ops_insert = node_creations_insert node_replacements_insert

lemma on_nodes_Inr:
  "on_nodes edit f = Inr edit' \<longleftrightarrow>
     (\<exists>nodes. f (pm_nodes (be_product edit)) = Inr nodes \<and>
        edit' = edit \<lparr>be_product := (be_product edit) \<lparr>pm_nodes := nodes\<rparr>\<rparr>)"
  by (auto simp: on_nodes_def result_simps)

lemma apply_evaluation_nodes:
  assumes "apply_evaluation sha fam edit command = Inr edit'"
  shows "nodes_step command (pm_nodes (be_product edit)) (pm_nodes (be_product edit'))"
proof (cases command)
  case (DeleteEvaluatorNode c)
  with assms show ?thesis
    by (auto simp: apply_evaluation_def on_nodes_Inr delete_evaluator_node_def result_simps nodes_step_def)
qed (use assms in \<open>auto simp: apply_evaluation_def on_nodes_Inr on_overrides_def result_simps nodes_step_def
      command_id_def recompute_feature_parameters_def split: if_splits dest!: node_ops_insert\<close>)

lemma edit_apply_nodes:
  "edit_apply sha fam edit command = Inr edit' \<Longrightarrow>
     nodes_step command (pm_nodes (be_product edit)) (pm_nodes (be_product edit'))"
  by (auto simp: edit_apply_def result_simps dest: apply_evaluation_nodes)

lemma nodes_step_wf: "nodes_step command nodes nodes' \<Longrightarrow> nodes_wf nodes \<Longrightarrow> nodes_wf nodes'"
  by (auto simp: nodes_step_def intro: nodes_wf_insert nodes_wf_remove)

lemma nodes_step_back:
  "nodes_step command nodes nodes' \<Longrightarrow> command_id command \<noteq> Some c \<Longrightarrow> bt_get nodes' c = Some n \<Longrightarrow>
     bt_get nodes c = Some n"
  by (auto simp: nodes_step_def split: if_splits)

lemma batch_back:
  assumes "try_fold (edit_apply sha fam) edit commands = Inr edit'"
    and "\<forall>command\<in>set commands. command_id command \<noteq> Some c"
    and "bt_get (pm_nodes (be_product edit')) c = Some n"
  shows "bt_get (pm_nodes (be_product edit)) c = Some n"
  using assms
proof (induction commands arbitrary: edit)
  case Nil
  then show ?case by simp
next
  case (Cons command commands)
  then obtain e1 where "edit_apply sha fam edit command = Inr e1" "bt_get (pm_nodes (be_product e1)) c = Some n"
    by (auto simp: result_simps)
  then show ?case using nodes_step_back [OF edit_apply_nodes] Cons.prems(2) by fastforce
qed

lemma batch_nodes_wf:
  assumes "try_fold (edit_apply sha fam) edit commands = Inr edit'" and "nodes_wf (pm_nodes (be_product edit))"
  shows "nodes_wf (pm_nodes (be_product edit'))"
  by (rule try_fold_invariant [OF assms(1), where P = "\<lambda>e. nodes_wf (pm_nodes (be_product e))"])
    (use assms(2) nodes_step_wf [OF edit_apply_nodes] in auto)

lemma evaluator_roots_spec:
  "bs_wf (evaluator_roots fam product commands) \<and>
   (\<forall>command\<in>set commands. \<forall>c. command_id command = Some c \<longrightarrow> c \<in> set (evaluator_roots fam product commands))"
proof -
  have step: "(bs_wf roots \<longrightarrow> bs_wf (command_roots fam product roots command)) \<and>
      set roots \<subseteq> set (command_roots fam product roots command) \<and>
      (\<forall>c. command_id command = Some c \<longrightarrow> c \<in> set (command_roots fam product roots command))" for roots command
    using bs_fold_insert [of _ roots]
    by (cases command) (auto simp: command_roots_def command_id_def split: recompute_scope.splits)
  have "(bs_wf roots \<longrightarrow> bs_wf (foldl (command_roots fam product) roots commands)) \<and>
      set roots \<subseteq> set (foldl (command_roots fam product) roots commands) \<and>
      (\<forall>command\<in>set commands. \<forall>c. command_id command = Some c \<longrightarrow>
         c \<in> set (foldl (command_roots fam product) roots commands))" for roots
  proof (induction commands arbitrary: roots)
    case Nil
    then show ?case by simp
  next
    case (Cons command commands)
    show ?case
      using Cons.IH [of "command_roots fam product roots command"] step [of roots command] by auto
  qed
  then show ?thesis by (simp add: evaluator_roots_def)
qed

section \<open>The evaluation of a batch\<close>

text \<open>A report is sound for a node map if it holds only results of the full evaluation.\<close>

definition report_sound :: "(bytes \<Rightarrow> bytes) \<Rightarrow> node_map \<Rightarrow> evaluation_report \<Rightarrow> bool" where
  "report_sound sha nodes rep \<longleftrightarrow>
     (\<exists>full. evaluate_graph sha nodes (er_identity rep) = Inr full \<and>
        (\<forall>c e. bt_get (er_nodes rep) c = Some e \<longrightarrow> bt_get (er_nodes full) c = Some e))"

text \<open>Agreement on a set of nodes with every result map that solves the node equations.\<close>

definition report_agrees :: "(bytes \<Rightarrow> bytes) \<Rightarrow> node_map \<Rightarrow> node_id set \<Rightarrow> evaluation_report \<Rightarrow> bool" where
  "report_agrees sha N U rep \<longleftrightarrow>
     (\<forall>F. evaluated sha (er_identity rep) N F \<longrightarrow>
        (\<forall>c\<in>U. \<forall>e. bt_get (er_nodes rep) c = Some e \<longrightarrow> bt_get F c = Some e))"

definition previous_agrees ::
  "(bytes \<Rightarrow> bytes) \<Rightarrow> node_map \<Rightarrow> node_id set \<Rightarrow> evaluation_report option \<Rightarrow> bool" where
  "previous_agrees sha N U previous \<longleftrightarrow> (\<forall>rep. previous = Some rep \<longrightarrow> report_agrees sha N U rep)"

lemma prior_agrees:
  "previous_agrees sha N U previous \<Longrightarrow> evaluated sha ident N F \<Longrightarrow> c \<in> U \<Longrightarrow>
     prior_results ident previous c = Some e \<Longrightarrow> bt_get F c = Some e"
  by (auto simp: previous_agrees_def report_agrees_def prior_results_def split: option.splits if_splits)

lemma evaluation_keeps_agreement:
  assumes "nodes_wf M" and "evaluate_affected sha M ident previous affected = Inr report" and "bs_wf affected"
    and "bt_wf N" and "topo_sorted N order"
    and "\<And>c. c \<in> U \<Longrightarrow> \<exists>n. bt_get N c = Some n \<and> bt_get M c = Some n \<and> set (en_dependencies n) \<subseteq> U"
    and "previous_agrees sha N (U - set affected) previous"
  shows "report_agrees sha N U report"
proof -
  have i: "er_identity report = ident"
    using evaluate_affected_Inr [OF _ _ assms(2)] assms(1) by (auto simp: nodes_wf_def)
  have "bt_get F c = Some e"
    if F: "evaluated sha ident N F" and c: "c \<in> U" "bt_get (er_nodes report) c = Some e" for F c e
  proof (rule evaluation_agrees [OF _ _ assms(2,3,4,5) F assms(6) _ c])
    show "bt_get F x = Some e'" if "x \<in> U" "x \<notin> set affected" "prior_results ident previous x = Some e'" for x e'
      using prior_agrees [OF assms(7) F _ that(3)] that(1,2) by blast
  qed (use assms(1) in \<open>auto simp: nodes_wf_def\<close>)
  then show ?thesis by (simp add: report_agrees_def i)
qed

lemma batch_keeps_agreement:
  assumes "try_fold (edit_apply sha fam) edit commands = Inr edit'"
    and "nodes_wf (pm_nodes (be_product edit))" and "N = pm_nodes (be_product edit')" and "bt_wf N" and "topo_sorted N order"
    and U: "\<And>c. c \<in> U \<Longrightarrow> \<exists>n. bt_get N c = Some n \<and> set (en_dependencies n) \<subseteq> U"
    and roots: "\<forall>command\<in>set commands. \<forall>c\<in>U. command_id command \<noteq> Some c"
    and scopes: "\<forall>ident ns. RecomputeFeatureParameters ident (AffectedBy ns) \<in> set commands \<longrightarrow> bs_wf ns"
    and "previous_agrees sha N U (be_previous edit)"
  shows "previous_agrees sha N U (be_previous edit')"
  using assms(1,2,3,7-9)
proof (induction commands arbitrary: edit)
  case Nil
  then show ?case by simp
next
  case (Cons command commands)
  from Cons.prems(1) obtain e1 where e1: "edit_apply sha fam edit command = Inr e1"
    and rest: "try_fold (edit_apply sha fam) e1 commands = Inr edit'" by (auto simp: result_simps)
  let ?M = "pm_nodes (be_product edit)"
  have same: "\<exists>n. bt_get N c = Some n \<and> bt_get ?M c = Some n \<and> set (en_dependencies n) \<subseteq> U" if "c \<in> U" for c
    using batch_back [OF Cons.prems(1), of c] U [OF that] Cons.prems(3,4) that by auto
  have prev: "previous_agrees sha N U (be_previous e1)"
  proof (cases command)
    case (RecomputeFeatureParameters ident scope)
    let ?aff = "case scope of ScopeAll \<Rightarrow> bt_keys ?M | AffectedBy ns \<Rightarrow> dependent_closure ?M ns"
    from e1 RecomputeFeatureParameters obtain report where
      r: "evaluate_affected sha ?M ident (be_previous edit) ?aff = Inr report" "be_previous e1 = Some report"
      by (auto simp: edit_apply_def apply_evaluation_def recompute_feature_parameters_def lift_fault_def result_simps
          split: recompute_scope.splits)
    have "bs_wf ?aff"
      using Cons.prems(2,5) RecomputeFeatureParameters bt_keys_wf
      by (auto simp: nodes_wf_def dependent_closure_def bs_wf_closure_loop split: recompute_scope.splits)
    moreover have "previous_agrees sha N (U - set ?aff) (be_previous edit)"
      using Cons.prems(6) by (auto simp: previous_agrees_def report_agrees_def)
    ultimately have "report_agrees sha N U report"
      using evaluation_keeps_agreement [OF Cons.prems(2) r(1) _ assms(4,5) same] by blast
    with r(2) show ?thesis by (simp add: previous_agrees_def)
  qed (use e1 Cons.prems(6) in \<open>auto simp: edit_apply_def apply_evaluation_def on_nodes_Inr on_overrides_def
        result_simps split: if_splits\<close>)
  show ?case
    by (rule Cons.IH [OF rest _ Cons.prems(3) _ _ prev])
      (use nodes_step_wf [OF edit_apply_nodes [OF e1] Cons.prems(2)] Cons.prems(4,5) in auto)
qed

lemma report_keys:
  assumes "nodes_wf nodes" and "evaluate_affected sha nodes ident previous affected = Inr report" and "bs_wf affected"
    and "bt_get (er_nodes report) c = Some e"
  shows "c \<in> set (bt_keys nodes)"
proof -
  have r: "graph_ready ident nodes" "set affected \<subseteq> set (bt_keys nodes)"
    using evaluate_affected_Inr [OF _ _ assms(2)] assms(1) by (auto simp: nodes_wf_def)
  from evaluate_affected_run [OF r assms(3) refl, where previous = previous and sha = sha] assms(2,4)
  show ?thesis by (auto simp: eval_inv_def)
qed

lemma evaluate_graph_Inr:
  assumes "nodes_wf nodes" and "evaluate_graph sha nodes ident = Inr full"
  shows "graph_ready ident nodes \<and> evaluated sha ident nodes (er_nodes full)"
proof -
  have r: "graph_ready ident nodes"
    using evaluate_affected_Inr [OF _ _ assms(2) [unfolded evaluate_graph_def]] assms(1) by (auto simp: nodes_wf_def)
  with evaluate_graph_run [OF r, of sha] assms(2) show ?thesis by auto
qed

lemma sound_report_agrees:
  assumes M: "nodes_wf M" "report_sound sha M rep" and N: "nodes_wf N" "topo_sorted N order"
    and U: "\<And>c. c \<in> U \<Longrightarrow> \<exists>n. bt_get N c = Some n \<and> bt_get M c = Some n \<and> set (en_dependencies n) \<subseteq> U"
  shows "report_agrees sha N U rep"
proof -
  from M(2) obtain full where full: "evaluate_graph sha M (er_identity rep) = Inr full"
    "\<And>c e. bt_get (er_nodes rep) c = Some e \<Longrightarrow> bt_get (er_nodes full) c = Some e" by (auto simp: report_sound_def)
  have E: "evaluated sha (er_identity rep) M (er_nodes full)" using evaluate_graph_Inr [OF M(1) full(1)] by simp
  have "bt_get (er_nodes full) c = bt_get F c"
    if "evaluated sha (er_identity rep) N F" "c \<in> U" for F c
    using evaluated_agree [OF _ _ N(2) that(1) E U that(2)] N(1) by (auto simp: nodes_wf_def)
  then show ?thesis using full(2) unfolding report_agrees_def by metis
qed

lemma check_product_nodes:
  "check_product fam current commands drawings edit = Inr product \<Longrightarrow> pm_nodes product = pm_nodes (be_product edit)"
  by (auto simp: check_product_def refresh_override_health_def result_simps)

definition scopes_wf :: "'c canonical_command list \<Rightarrow> bool" where
  "scopes_wf commands =
     list_all (\<lambda>c. case c of RecomputeFeatureParameters _ (AffectedBy ns) \<Rightarrow> bs_wf ns | _ \<Rightarrow> True) commands"

lemma scopes_wfD: "scopes_wf commands \<Longrightarrow> RecomputeFeatureParameters i (AffectedBy ns) \<in> set commands \<Longrightarrow> bs_wf ns"
  by (force simp: scopes_wf_def list_all_iff)

lemma batch_report_sound:
  assumes "nodes_wf (pm_nodes current)" and prev: "\<And>rep. previous = Some rep \<Longrightarrow> report_sound sha (pm_nodes current) rep"
    and run: "try_fold (edit_apply sha fam) (start_edit fam current previous) commands = Inr edit"
    and chk: "check_product fam current commands drawings edit = Inr product"
    and evl: "evaluate_batch sha fam commands edit product = Inr report" and "scopes_wf commands"
  shows "nodes_wf (pm_nodes product) \<and> graph_ready (er_identity report) (pm_nodes product) \<and>
    report_sound sha (pm_nodes product) report"
proof -
  let ?N = "pm_nodes product" and ?roots = "evaluator_roots fam product commands"
  let ?A = "dependent_closure ?N ?roots"
  have N: "?N = pm_nodes (be_product edit)" using check_product_nodes [OF chk] .
  have wf: "nodes_wf ?N" unfolding N by (rule batch_nodes_wf [OF run]) (simp add: start_edit_def assms(1))
  then have btN: "bt_wf ?N" "deps_faithful ?N" by (auto simp: nodes_wf_def)
  have ev: "evaluate_affected sha ?N (be_identity edit) (be_previous edit) ?A = Inr report"
    using evl by (simp add: evaluate_batch_def lift_fault_def result_simps)
  have rdy: "graph_ready (be_identity edit) ?N" "er_identity report = be_identity edit" "set ?A \<subseteq> set (bt_keys ?N)"
    using evaluate_affected_Inr [OF btN ev] by auto
  from graph_readyD [OF rdy(1)] obtain order where topo: "topo_sorted ?N order"
    and deps: "\<And>c. set (deps_of ?N c) \<subseteq> set (bt_keys ?N)" by metis
  have bsA: "bs_wf ?A"
    unfolding dependent_closure_def using evaluator_roots_spec by (intro bs_wf_closure_loop) blast
  define U where "U = set (bt_keys ?N) - set ?A"
  have A: "set ?A = (dependency_edges ?N)\<^sup>* `` set ?roots" by (rule dependent_closure_reach [OF btN(1)])
  have up: "c \<in> set ?A" if "d \<in> set ?A" "d \<in> set (deps_of ?N c)" for c d
  proof -
    have "(d, c) \<in> dependency_edges ?N" using that(2) by (simp add: dependency_edges_def)
    with that(1) show ?thesis unfolding A by (meson ImageE ImageI rtrancl.rtrancl_into_rtrancl)
  qed
  have node: "\<exists>n. bt_get ?N c = Some n" if "c \<in> set (bt_keys ?N)" for c
    using that bt_get_None_keys [of ?N c] by auto
  have U: "\<exists>n. bt_get ?N c = Some n \<and> set (en_dependencies n) \<subseteq> U" if c: "c \<in> U" for c
  proof -
    from c node obtain n where n: "bt_get ?N c = Some n" by (auto simp: U_def)
    with deps [of c] up [of _ c] c show ?thesis unfolding U_def deps_of_get [OF n] by blast
  qed
  have roots: "command_id command \<noteq> Some c" if "command \<in> set commands" "c \<in> U" for command c
  proof
    assume "command_id command = Some c"
    then have "c \<in> set ?roots" using evaluator_roots_spec that(1) by blast
    then show False using that(2) A by (auto simp: U_def)
  qed
  have old: "\<exists>n. bt_get ?N c = Some n \<and> bt_get (pm_nodes current) c = Some n \<and> set (en_dependencies n) \<subseteq> U"
    if "c \<in> U" for c
    using batch_back [OF run, of c] U [OF that] roots that by (auto simp: N start_edit_def)
  have "previous_agrees sha ?N U (be_previous (start_edit fam current previous))"
    using sound_report_agrees [OF assms(1) prev wf topo old] by (auto simp: previous_agrees_def start_edit_def)
  then have "previous_agrees sha ?N U (be_previous edit)"
    using batch_keeps_agreement [OF run _ N btN(1) topo U] roots assms(1) scopes_wfD [OF assms(6)]
    by (auto simp: start_edit_def)
  then have "report_agrees sha ?N (set (bt_keys ?N)) report"
    using evaluation_keeps_agreement [OF wf ev bsA btN(1) topo, of "set (bt_keys ?N)"] node deps deps_of_get
    unfolding U_def by metis
  moreover obtain full where full: "evaluate_graph sha ?N (be_identity edit) = Inr full"
    "evaluated sha (be_identity edit) ?N (er_nodes full)"
    using evaluate_graph_run [OF rdy(1), of sha] by blast
  ultimately have "report_sound sha ?N report"
    using report_keys [OF wf ev bsA] by (auto simp: report_sound_def report_agrees_def rdy(2))
  with wf rdy show ?thesis by simp
qed

end
