(* ===== verification/Ketchup_Store.thy ===== *)
theory Ketchup_Store
  imports Ketchup_Commands
begin

text \<open>
  The document store of \<^verbatim>\<open>ketchup-model/src/document/store.rs\<close> and \<^verbatim>\<open>revision.rs\<close>: revisions with
  a cursor, the revision counter, the process-wide mutation epoch, bound rule programs, named
  checkpoints, rollback, replacement, transactions, and the batch that publishes a revision.

  An operation returns its result with the new store; on an error it returns, the store is the
  one the code leaves behind.  The atomic counter the epochs come from is the field
  \<open>ds_next_epoch\<close>; \<^verbatim>\<open>expect\<close> on it is a panic.  JSON (the \<^verbatim>\<open>serde_json\<close> crate) is the argument
  \<open>json\<close>, SHA-256 the argument \<open>sha\<close>.
\<close>

section \<open>Data\<close>

datatype principal = ManualClient | Human u64 | LocalAssistant | Plugin u64

datatype revision_origin = Initial | Principal principal | Rollback principal u64

record rule_program_source =
  rp_file_name :: str
  rp_source :: str
  rp_overrides :: "(str, f64) btree_map"
  rp_variants :: "(str, (str, f64) btree_map) btree_map"

record bound_program =
  bp_source :: rule_program_source
  bp_digest :: bytes

record 'r snapshot =
  sn_revision_id :: u64
  sn_product :: "'r product"

record ('r, 'f) revision =
  rv_id :: u64
  rv_snapshot :: "'r snapshot"
  rv_batch_digest :: str
  rv_origin :: revision_origin
  rv_checkpoint :: "str option"
  rv_rule_program :: "bound_program option"
  rv_recomputed_nodes :: "node_id list"
  rv_dirty_features :: "u64 list"
  rv_feature_states :: 'f
  rv_evaluation :: "evaluation_report option"

record confirmation_policy =
  cp_verifying_key :: bytes
  cp_epoch :: u64
  cp_consumed :: "bytes list"

datatype derived_result_key =
  DerivedResultKey (drk_document: document_id) (drk_revision: u64) (drk_target: derived_identity)
    (drk_input: str) (drk_result: str) (drk_identity: evaluation_identity)

record ('r, 'f) document_store =
  ds_revisions :: "('r, 'f) revision list"
  ds_cursor :: nat
  ds_next_revision_id :: u64
  ds_mutation_epoch :: u64
  ds_registry :: "(derived_result_key \<times> str) list"
  ds_policy :: "confirmation_policy option"
  ds_next_epoch :: u64

datatype history_error =
    HistoryStale
  | RevisionNotFound u64
  | InvalidCheckpointName
  | DuplicateCheckpointName
  | InvalidPrincipal
  | NoOpRollback
  | HistoryRevisionExhausted

datatype confirmation_error =
    InvalidScope
  | PolicyEpochInvalid
  | InvalidVerifyingKey
  | InvalidHumanPrincipal
  | UnidentifiedRequester
  | MachineCannotApprove
  | RequesterCannotApprove
  | NotHighRisk
  | ConfirmationRequirementMismatch
  | InvalidLifetime
  | InvalidSideEffectEvidence

definition UNDO_REVISIONS :: nat where "UNDO_REVISIONS = 30"
definition MAX_RULE_PROGRAM_BYTES :: nat where "MAX_RULE_PROGRAM_BYTES = 1024 * 1024"
definition MAX_RULE_PROGRAM_VARIANTS :: nat where "MAX_RULE_PROGRAM_VARIANTS = 64"

section \<open>Rule programs\<close>

definition variant_ok :: "str \<times> (str, f64) btree_map \<Rightarrow> rule_program_error + unit" where
  "variant_ok variant =
     and_then (guard (\<not> trim_is_empty (fst variant)) EmptyVariantName) (\<lambda>_.
       case filter (\<lambda>p. \<not> f64_is_finite (snd p)) (snd variant) of
         [] \<Rightarrow> Ok ()
       | p # _ \<Rightarrow> Err (NonFiniteVariantValue (fst variant) (fst p)))"

definition rule_program_validate :: "rule_program_source \<Rightarrow> rule_program_error + unit" where
  "rule_program_validate source =
     and_then (guard (rp_source source \<noteq> []) EmptySource) (\<lambda>_.
     and_then (guard (list_all f64_is_finite (bt_values (rp_overrides source))) NonFiniteProgramOverride) (\<lambda>_.
     and_then (guard (length (rp_variants source) \<le> MAX_RULE_PROGRAM_VARIANTS)
       (TooManyVariants (length (rp_variants source)))) (\<lambda>_.
     try_each variant_ok (rp_variants source))))"

definition validate_rule_program_source ::
  "(rule_program_source \<Rightarrow> bytes) \<Rightarrow> rule_program_source \<Rightarrow> rule_program_error + unit" where
  "validate_rule_program_source json source =
     and_then (rule_program_validate source) (\<lambda>_.
     guard (length (json source) \<le> MAX_RULE_PROGRAM_BYTES) (TooLarge (length (json source))))"

definition bound_program_new ::
  "(bytes \<Rightarrow> bytes) \<Rightarrow> (rule_program_source \<Rightarrow> bytes) \<Rightarrow> rule_program_source \<Rightarrow> bound_program" where
  "bound_program_new sha json source =
     \<lparr>bp_source = source, bp_digest = sha (str_bytes ''ketchup.rule-source.v1'' @ json source)\<rparr>"

text \<open>
  The derived \<^verbatim>\<open>PartialEq\<close> of a program: numbers compare as \<^verbatim>\<open>f64\<close>, so the two zeros are equal and a NaN
  is not equal to itself.
\<close>

definition parameters_eq :: "(str, f64) btree_map \<Rightarrow> (str, f64) btree_map \<Rightarrow> bool" where
  "parameters_eq a b = list_all2 (\<lambda>(k, v) (l, w). k = l \<and> f64_eq v w) a b"

definition rule_program_eq :: "rule_program_source \<Rightarrow> rule_program_source \<Rightarrow> bool" where
  "rule_program_eq a b \<longleftrightarrow>
     rp_file_name a = rp_file_name b \<and> rp_source a = rp_source b \<and> parameters_eq (rp_overrides a) (rp_overrides b) \<and>
     list_all2 (\<lambda>(k, v) (l, w). k = l \<and> parameters_eq v w) (rp_variants a) (rp_variants b)"

text \<open>Bound programs compare by digest.\<close>

definition programs_equal :: "bound_program option \<Rightarrow> bound_program option \<Rightarrow> bool" where
  "programs_equal a b = (map_option bp_digest a = map_option bp_digest b)"

section \<open>The current revision and the epoch\<close>

definition current_revision :: "('r, 'f) document_store \<Rightarrow> ('r, 'f) revision" where
  "current_revision store = ds_revisions store ! ds_cursor store"

definition current :: "('r, 'f) document_store \<Rightarrow> 'r snapshot" where
  "current store = rv_snapshot (current_revision store)"

definition current_rule_program :: "('r, 'f) document_store \<Rightarrow> rule_program_source option" where
  "current_rule_program store = map_option bp_source (rv_rule_program (current_revision store))"

definition detached_rule_program :: "('r, 'f) document_store \<Rightarrow> rule_program_source option" where
  "detached_rule_program store =
     (if current_rule_program store \<noteq> None then None
      else
        (case List.map_filter rv_rule_program (rev (take (ds_cursor store) (ds_revisions store))) of
           [] \<Rightarrow> None | p # _ \<Rightarrow> Some (bp_source p)))"

definition fresh_mutation_epoch :: "('r, 'f) document_store \<Rightarrow> 'e fault + ('r, 'f) document_store" where
  "fresh_mutation_epoch store =
     (if ds_next_epoch store = - 1 then Err Panicked
      else Ok (store \<lparr>ds_mutation_epoch := ds_next_epoch store, ds_next_epoch := ds_next_epoch store + 1\<rparr>))"

definition set_current :: "('r, 'f) revision \<Rightarrow> ('r, 'f) document_store \<Rightarrow> ('r, 'f) document_store" where
  "set_current revision store = store \<lparr>ds_revisions := (ds_revisions store)[ds_cursor store := revision]\<rparr>"

section \<open>Opening a document\<close>

definition initial_revision :: "u64 \<Rightarrow> 'r product \<Rightarrow> 'f \<Rightarrow> ('r, 'f) revision" where
  "initial_revision revision_id product states =
     \<lparr>rv_id = revision_id, rv_snapshot = \<lparr>sn_revision_id = revision_id, sn_product = product\<rparr>,
      rv_batch_digest = [], rv_origin = Initial, rv_checkpoint = None, rv_rule_program = None,
      rv_recomputed_nodes = [], rv_dirty_features = [], rv_feature_states = states, rv_evaluation = None\<rparr>"

definition opened_store :: "u64 \<Rightarrow> ('r, 'f) revision list \<Rightarrow> nat \<Rightarrow> u64 \<Rightarrow> canonical_error fault + ('r, 'f) document_store" where
  "opened_store next_epoch revisions cursor next_revision_id =
     fresh_mutation_epoch
       \<lparr>ds_revisions = revisions, ds_cursor = cursor, ds_next_revision_id = next_revision_id,
        ds_mutation_epoch = 0, ds_registry = [], ds_policy = None, ds_next_epoch = next_epoch\<rparr>"

definition from_product ::
  "('r, 'x, 'c, 'f) families \<Rightarrow> u64 \<Rightarrow> u64 \<Rightarrow> 'r product \<Rightarrow> canonical_error fault + ('r, 'f) document_store" where
  "from_product fam next_epoch revision_id product =
     and_then (lift_fault (validate_graph (pm_nodes product))) (\<lambda>_.
     and_then (map_err Returned (validate_overrides product)) (\<lambda>_.
     and_then (map_err Returned (fam_validate fam product [] True product)) (\<lambda>_.
     and_then (map_err Returned (ok_or (checked_add_u64 revision_id 1) RevisionExhausted)) (\<lambda>next_revision_id.
     and_then (map_err Returned (fam_opened fam product)) (\<lambda>states.
     opened_store next_epoch [initial_revision revision_id product states] 0 next_revision_id)))))"

definition from_snapshot ::
  "('r, 'x, 'c, 'f) families \<Rightarrow> u64 \<Rightarrow> 'r snapshot \<Rightarrow> canonical_error fault + ('r, 'f) document_store" where
  "from_snapshot fam next_epoch snapshot =
     and_then (map_err Returned (ok_or (checked_add_u64 (sn_revision_id snapshot) 1) RevisionExhausted)) (\<lambda>next_revision_id.
     and_then (map_err Returned (fam_opened fam (sn_product snapshot))) (\<lambda>states.
     opened_store next_epoch [initial_revision (sn_revision_id snapshot) (sn_product snapshot) states] 0
       next_revision_id))"

definition fork_for_planning :: "('r, 'f) document_store \<Rightarrow> canonical_error fault + ('r, 'f) document_store" where
  "fork_for_planning store = fresh_mutation_epoch (store \<lparr>ds_policy := None\<rparr>)"

text \<open>A stored revision is its snapshot with states, its digest, origin, checkpoint and program.\<close>

type_synonym ('r, 'f) stored_revision =
  "'r snapshot \<times> 'f \<times> str \<times> revision_origin \<times> str option \<times> rule_program_source option"

definition restore_revision ::
  "(bytes \<Rightarrow> bytes) \<Rightarrow> (rule_program_source \<Rightarrow> bytes) \<Rightarrow> ('r, 'f) stored_revision \<Rightarrow> ('r, 'f) revision" where
  "restore_revision sha json stored =
     (case stored of (snapshot, states, batch_digest, origin, checkpoint, program) \<Rightarrow>
        \<lparr>rv_id = sn_revision_id snapshot, rv_snapshot = snapshot, rv_batch_digest = batch_digest,
         rv_origin = origin, rv_checkpoint = checkpoint,
         rv_rule_program = map_option (bound_program_new sha json) program, rv_recomputed_nodes = [],
         rv_dirty_features = [], rv_feature_states = states, rv_evaluation = None\<rparr>)"

definition from_revision_history ::
  "(bytes \<Rightarrow> bytes) \<Rightarrow> (rule_program_source \<Rightarrow> bytes) \<Rightarrow> u64 \<Rightarrow> ('r, 'f) stored_revision list \<Rightarrow> nat \<Rightarrow> u64 \<Rightarrow>
   canonical_error fault + ('r, 'f) document_store" where
  "from_revision_history sha json next_epoch revisions cursor next_revision_id =
     (let first = cursor - UNDO_REVISIONS
      in opened_store next_epoch
           (map (restore_revision sha json)
             (take (cursor - first + UNDO_REVISIONS + 1) (drop first revisions)))
           (cursor - first) next_revision_id)"

section \<open>Revisions\<close>

definition push_revision :: "('r, 'f) revision \<Rightarrow> ('r, 'f) document_store \<Rightarrow> ('r, 'f) document_store" where
  "push_revision revision store =
     (let revisions = take (ds_cursor store + 1) (ds_revisions store) @ [revision];
          cursor = ds_cursor store + 1;
          excess = cursor - UNDO_REVISIONS
      in store \<lparr>ds_revisions := drop excess revisions, ds_cursor := cursor - excess\<rparr>)"

definition undo :: "('r, 'f) document_store \<Rightarrow> 'e fault + 'r snapshot option \<times> ('r, 'f) document_store" where
  "undo store =
     (if ds_cursor store = 0 then Ok (None, store)
      else and_then (fresh_mutation_epoch store) (\<lambda>s.
        Ok (Some (current (s \<lparr>ds_cursor := ds_cursor s - 1\<rparr>)), s \<lparr>ds_cursor := ds_cursor s - 1\<rparr>)))"

definition redo :: "('r, 'f) document_store \<Rightarrow> 'e fault + 'r snapshot option \<times> ('r, 'f) document_store" where
  "redo store =
     (if ds_cursor store + 1 \<ge> length (ds_revisions store) then Ok (None, store)
      else and_then (fresh_mutation_epoch store) (\<lambda>s.
        Ok (Some (current (s \<lparr>ds_cursor := ds_cursor s + 1\<rparr>)), s \<lparr>ds_cursor := ds_cursor s + 1\<rparr>)))"

definition visible_undo_steps :: "('r, 'f) document_store \<Rightarrow> nat" where
  "visible_undo_steps store = ds_cursor store"

definition visible_redo_steps :: "('r, 'f) document_store \<Rightarrow> nat" where
  "visible_redo_steps store = length (ds_revisions store) - ds_cursor store - 1"

definition discard_history_before_current :: "('r, 'f) document_store \<Rightarrow> ('r, 'f) document_store" where
  "discard_history_before_current store = store \<lparr>ds_revisions := [current_revision store], ds_cursor := 0\<rparr>"

definition bind_rule_program ::
  "(bytes \<Rightarrow> bytes) \<Rightarrow> (rule_program_source \<Rightarrow> bytes) \<Rightarrow> rule_program_source \<Rightarrow> ('r, 'f) document_store \<Rightarrow>
   canonical_error fault + ('r, 'f) document_store" where
  "bind_rule_program sha json source store =
     map_err (\<lambda>e. Returned (RuleProgramFault e))
       (and_then (guard (ds_cursor store \<noteq> 0 \<and> ds_cursor store + 1 = length (ds_revisions store)) NoNewHeadRevision) (\<lambda>_.
        and_then (guard (rv_rule_program (current_revision store) = None) AlreadyBound) (\<lambda>_.
        and_then (validate_rule_program_source json source) (\<lambda>_.
        Ok (set_current ((current_revision store) \<lparr>rv_rule_program := Some (bound_program_new sha json source)\<rparr>) store)))))"

text \<open>
  Publishing a revision under the next id: the part \<^verbatim>\<open>replace_rule_program_source\<close>,
  \<^verbatim>\<open>rollback_to_revision\<close>, \<^verbatim>\<open>publish_replacement\<close> and the batch have in common.
\<close>

definition publish ::
  "(u64 \<Rightarrow> ('r, 'f) revision) \<Rightarrow> ('r, 'f) document_store \<Rightarrow>
   canonical_error fault + ('r, 'f) revision \<times> ('r, 'f) document_store" where
  "publish mk store =
     and_then (map_err Returned (ok_or (checked_add_u64 (ds_next_revision_id store) 1) RevisionExhausted)) (\<lambda>following.
     and_then (fresh_mutation_epoch (push_revision (mk (ds_next_revision_id store)) store)) (\<lambda>s.
     Ok (mk (ds_next_revision_id store), s \<lparr>ds_next_revision_id := following\<rparr>)))"

definition hex8 :: "bytes \<Rightarrow> str" where
  "hex8 digest = hex_encode (take 8 digest)"

definition replace_rule_program_source ::
  "(bytes \<Rightarrow> bytes) \<Rightarrow> (rule_program_source \<Rightarrow> bytes) \<Rightarrow> ('r, 'x, 'c, 'f) families \<Rightarrow> rule_program_source \<Rightarrow>
   ('r, 'f) document_store \<Rightarrow> canonical_error fault + ('r, 'f) document_store" where
  "replace_rule_program_source sha json fam source store =
     and_then (guard (current_rule_program store \<noteq> None \<or> \<not> fam_has_definitions fam (pm_rest (sn_product (current store))))
       (Returned (RuleProgramFault NotProgramOwned))) (\<lambda>_.
     and_then (map_err (\<lambda>e. Returned (RuleProgramFault e)) (validate_rule_program_source json source)) (\<lambda>_.
     if (case current_rule_program store of None \<Rightarrow> False | Some p \<Rightarrow> rule_program_eq p source) then Ok store
     else and_then
       (publish (\<lambda>revision_id.
          \<lparr>rv_id = revision_id,
           rv_snapshot = \<lparr>sn_revision_id = revision_id, sn_product = sn_product (current store)\<rparr>,
           rv_batch_digest = hex8 (bp_digest (bound_program_new sha json source)),
           rv_origin = Principal ManualClient, rv_checkpoint = None,
           rv_rule_program = Some (bound_program_new sha json source), rv_recomputed_nodes = [],
           rv_dirty_features = [], rv_feature_states = rv_feature_states (current_revision store),
           rv_evaluation = rv_evaluation (current_revision store)\<rparr>) store)
       (\<lambda>(_, s). Ok s)))"

definition lift_exhausted :: "canonical_error fault + 'a \<Rightarrow> history_error fault + 'a" where
  "lift_exhausted r =
     map_err (\<lambda>e. case e of Returned _ \<Rightarrow> Returned HistoryRevisionExhausted | Panicked \<Rightarrow> Panicked) r"

definition checkpoint_name_ok :: "str \<Rightarrow> bool" where
  "checkpoint_name_ok name \<longleftrightarrow> name \<noteq> [] \<and> length name \<le> 80 \<and> is_trimmed name \<and> \<not> any_control name"

definition create_checkpoint ::
  "('r, 'x, 'c, 'f) families \<Rightarrow> u64 \<Rightarrow> str \<Rightarrow> str \<Rightarrow> ('r, 'f) document_store \<Rightarrow>
   history_error fault + ('r, 'f) document_store" where
  "create_checkpoint fam expected_revision expected_digest name store =
     and_then (guard (rv_id (current_revision store) = expected_revision \<and>
       fam_digest fam (sn_product (current store)) = expected_digest) (Returned HistoryStale)) (\<lambda>_.
     and_then (guard (checkpoint_name_ok name) (Returned InvalidCheckpointName)) (\<lambda>_.
     and_then (guard (\<not> list_ex (\<lambda>r. rv_checkpoint r = Some name \<and> rv_id r \<noteq> expected_revision) (ds_revisions store))
       (Returned DuplicateCheckpointName)) (\<lambda>_.
     fresh_mutation_epoch (set_current ((current_revision store) \<lparr>rv_checkpoint := Some name\<rparr>) store))))"

definition find_revision :: "u64 \<Rightarrow> ('r, 'f) document_store \<Rightarrow> ('r, 'f) revision option" where
  "find_revision revision_id store = find (\<lambda>r. rv_id r = revision_id) (ds_revisions store)"

definition decimal_u64 :: "u64 \<Rightarrow> str" where
  "decimal_u64 v = nat_decimal (unat v)"

definition rollback_digest :: "(bytes \<Rightarrow> bytes) \<Rightarrow> u64 \<Rightarrow> str \<Rightarrow> str" where
  "rollback_digest sha target_revision digest =
     take 16 (sha256_hex sha (str_bytes (''ketchup.rollback.v1:'' @ decimal_u64 target_revision @ '':'' @ digest)))"

definition principal_identified :: "principal \<Rightarrow> bool" where
  "principal_identified p \<longleftrightarrow> p \<noteq> Human 0 \<and> p \<noteq> Plugin 0"

definition rollback_to_revision ::
  "(bytes \<Rightarrow> bytes) \<Rightarrow> ('r, 'x, 'c, 'f) families \<Rightarrow> u64 \<Rightarrow> str \<Rightarrow> u64 \<Rightarrow> principal \<Rightarrow> ('r, 'f) document_store \<Rightarrow>
   history_error fault + ('r, 'f) revision \<times> ('r, 'f) document_store" where
  "rollback_to_revision sha fam expected_revision expected_digest target_revision who store =
     and_then (guard (rv_id (current_revision store) = expected_revision \<and>
       fam_digest fam (sn_product (current store)) = expected_digest) (Returned HistoryStale)) (\<lambda>_.
     and_then (guard (principal_identified who) (Returned InvalidPrincipal)) (\<lambda>_.
     and_then (ok_or (find_revision target_revision store) (Returned (RevisionNotFound target_revision))) (\<lambda>target.
     and_then (guard (\<not> (fam_digest fam (sn_product (rv_snapshot target)) = fam_digest fam (sn_product (current store)) \<and>
         programs_equal (rv_rule_program target) (rv_rule_program (current_revision store))))
       (Returned NoOpRollback)) (\<lambda>_.
     and_then (lift_exhausted
       (publish (\<lambda>revision_id.
          \<lparr>rv_id = revision_id,
           rv_snapshot = \<lparr>sn_revision_id = revision_id, sn_product = sn_product (rv_snapshot target)\<rparr>,
           rv_batch_digest = rollback_digest sha target_revision (fam_digest fam (sn_product (rv_snapshot target))),
           rv_origin = Rollback who target_revision, rv_checkpoint = None,
           rv_rule_program = rv_rule_program target, rv_recomputed_nodes = [],
           rv_dirty_features = fam_feature_ids fam (pm_rest (sn_product (rv_snapshot target))),
           rv_feature_states = rv_feature_states target, rv_evaluation = None\<rparr>) store)) (\<lambda>(revision, s).
     Ok (revision, s \<lparr>ds_registry := []\<rparr>))))))"

definition publish_replacement ::
  "('r, 'x, 'c, 'f) families \<Rightarrow> ('r, 'f) document_store \<Rightarrow> ('r, 'f) document_store \<Rightarrow>
   canonical_error fault + ('r, 'f) revision \<times> ('r, 'f) document_store" where
  "publish_replacement fam replacement store =
     and_then (guard (rv_origin (current_revision replacement) \<noteq> Initial) (Returned EmptyCommandBatch)) (\<lambda>_.
     and_then
       (publish (\<lambda>revision_id.
          \<lparr>rv_id = revision_id,
           rv_snapshot = \<lparr>sn_revision_id = revision_id, sn_product = sn_product (current replacement)\<rparr>,
           rv_batch_digest = rv_batch_digest (current_revision replacement),
           rv_origin = rv_origin (current_revision replacement), rv_checkpoint = None,
           rv_rule_program = rv_rule_program (current_revision replacement), rv_recomputed_nodes = [],
           rv_dirty_features = fam_feature_ids fam (pm_rest (sn_product (current replacement))),
           rv_feature_states = rv_feature_states (current_revision replacement), rv_evaluation = None\<rparr>) store)
       (\<lambda>(revision, s). Ok (revision, s \<lparr>ds_registry := []\<rparr>)))"

section \<open>Batches\<close>

record 'c command_batch =
  cb_schema :: str
  cb_commands :: "'c canonical_command list"

definition COMMAND_SCHEMA_V1 :: str where "COMMAND_SCHEMA_V1 = ''ketchup.command.v1''"

definition batch_digest :: "('r, 'x, 'c, 'f) families \<Rightarrow> 'c command_batch \<Rightarrow> str" where
  "batch_digest fam batch = fam_batch_digest fam (cb_schema batch) (cb_commands batch)"

definition rule_program_kept_by ::
  "('r, 'x, 'c, 'f) families \<Rightarrow> 'c command_batch \<Rightarrow> ('r, 'f) document_store \<Rightarrow> bound_program option" where
  "rule_program_kept_by fam batch store =
     (if fam_keeps_program fam (cb_commands batch) then rv_rule_program (current_revision store) else None)"

definition batch_revision ::
  "('r, 'x, 'c, 'f) families \<Rightarrow> 'c command_batch \<Rightarrow> revision_origin \<Rightarrow> 'r product \<Rightarrow> evaluation_report \<Rightarrow> u64 list \<times> 'f \<Rightarrow>
   ('r, 'f) document_store \<Rightarrow> u64 \<Rightarrow> ('r, 'f) revision" where
  "batch_revision fam batch origin product evaluation features store revision_id =
     \<lparr>rv_id = revision_id, rv_snapshot = \<lparr>sn_revision_id = revision_id, sn_product = product\<rparr>,
      rv_batch_digest = batch_digest fam batch, rv_origin = origin, rv_checkpoint = None,
      rv_rule_program = rule_program_kept_by fam batch store,
      rv_recomputed_nodes =
        dependent_closure (pm_nodes product) (evaluator_roots fam product (cb_commands batch)),
      rv_dirty_features = fst features, rv_feature_states = snd features, rv_evaluation = Some evaluation\<rparr>"

definition apply_batch_with ::
  "(bytes \<Rightarrow> bytes) \<Rightarrow> ('r, 'x, 'c, 'f) families \<Rightarrow> 'c command_batch \<Rightarrow> revision_origin \<Rightarrow> bool \<Rightarrow>
   ('r, 'f) document_store \<Rightarrow> canonical_error fault + ('r, 'f) revision \<times> ('r, 'f) document_store" where
  "apply_batch_with sha fam batch origin drawings store =
     and_then (guard (cb_schema batch = COMMAND_SCHEMA_V1) (Returned UnsupportedCommandSchema)) (\<lambda>_.
     and_then (guard (cb_commands batch \<noteq> []) (Returned EmptyCommandBatch)) (\<lambda>_.
     and_then (try_fold (edit_apply sha fam)
       (start_edit fam (sn_product (current store)) (rv_evaluation (current_revision store))) (cb_commands batch)) (\<lambda>edit.
     and_then (check_product fam (sn_product (current store)) (cb_commands batch) drawings edit) (\<lambda>product.
     and_then (guard (checked_add_u64 (ds_next_revision_id store) 1 \<noteq> None) (Returned RevisionExhausted)) (\<lambda>_.
     and_then (evaluate_batch sha fam (cb_commands batch) edit product) (\<lambda>evaluation.
     and_then (map_err Returned (fam_features fam (sn_product (current store)) (be_extra edit) product)) (\<lambda>features.
     publish (batch_revision fam batch origin product evaluation features store) store)))))))"

definition apply_batch ::
  "(bytes \<Rightarrow> bytes) \<Rightarrow> ('r, 'x, 'c, 'f) families \<Rightarrow> 'c command_batch \<Rightarrow> ('r, 'f) document_store \<Rightarrow>
   canonical_error fault + ('r, 'f) revision \<times> ('r, 'f) document_store" where
  "apply_batch sha fam batch store = apply_batch_with sha fam batch (Principal ManualClient) True store"

definition preview_batch ::
  "(bytes \<Rightarrow> bytes) \<Rightarrow> ('r, 'x, 'c, 'f) families \<Rightarrow> 'c command_batch \<Rightarrow> ('r, 'f) document_store \<Rightarrow>
   canonical_error fault + 'r snapshot" where
  "preview_batch sha fam batch store =
     and_then (from_product fam (ds_next_epoch store) (sn_revision_id (current store)) (sn_product (current store))) (\<lambda>candidate.
     and_then (apply_batch sha fam batch candidate) (\<lambda>(_, s). Ok (current s)))"

section \<open>Registered evaluations\<close>

text \<open>
  Equality of results is Rust's, as for programs.  The registry maps a key to the canonical digest of its event; its
  order is never observed.
\<close>

definition status_eq :: "evaluation_status \<Rightarrow> evaluation_status \<Rightarrow> bool" where
  "status_eq a b =
     (case (a, b) of (Evaluated v, Evaluated w) \<Rightarrow> f64_eq v w | (Errored d, Errored e) \<Rightarrow> d = e | _ \<Rightarrow> False)"

definition evaluation_eq :: "node_evaluation \<Rightarrow> node_evaluation \<Rightarrow> bool" where
  "evaluation_eq a b \<longleftrightarrow>
     status_eq (ne_status a) (ne_status b) \<and> ne_input_digest a = ne_input_digest b \<and>
     ne_result_digest a = ne_result_digest b"

definition output_eq :: "derived_output \<Rightarrow> derived_output \<Rightarrow> bool" where
  "output_eq a b \<longleftrightarrow>
     f64_eq (do_value a) (do_value b) \<and> do_input_digest a = do_input_digest b \<and>
     do_result_digest a = do_result_digest b"

definition registry_insert ::
  "derived_result_key \<Rightarrow> str \<Rightarrow> (derived_result_key \<times> str) list \<Rightarrow> (derived_result_key \<times> str) list" where
  "registry_insert key digest registry = (key, digest) # filter (\<lambda>p. fst p \<noteq> key) registry"

definition snapshot_evaluate ::
  "(bytes \<Rightarrow> bytes) \<Rightarrow> ('r, 'x, 'c, 'f) families \<Rightarrow> 'r snapshot \<Rightarrow> evaluation_identity \<Rightarrow>
   canonical_error fault + evaluation_report" where
  "snapshot_evaluate sha fam snapshot ident =
     and_then (lift_fault (evaluate_graph sha (pm_nodes (sn_product snapshot)) ident)) (\<lambda>report.
     Ok (report \<lparr>er_document_id := Some (fam_document fam (pm_rest (sn_product snapshot))),
                 er_revision_id := Some (sn_revision_id snapshot),
                 er_canonical_digest := Some (fam_digest fam (sn_product snapshot))\<rparr>))"

definition check_evidence ::
  "evaluation_report \<Rightarrow> evaluation_report \<Rightarrow> derived_identity \<Rightarrow> canonical_error + derived_output" where
  "check_evidence report expected target =
     and_then (ok_or (bt_get (er_nodes report) (root_rule_node_id target)) EvaluationEvidenceMismatch) (\<lambda>supplied_node.
     and_then (ok_or (bt_get (er_nodes expected) (root_rule_node_id target)) EvaluationEvidenceMismatch) (\<lambda>expected_node.
     and_then (guard (evaluation_eq supplied_node expected_node) EvaluationEvidenceMismatch) (\<lambda>_.
     and_then (guard (\<not> is_errored (ne_status supplied_node)) (FailedEvaluation (root_rule_node_id target))) (\<lambda>_.
     and_then (ok_or (bt_get (er_outputs report) target) EvaluationEvidenceMismatch) (\<lambda>output.
     and_then (ok_or (bt_get (er_outputs expected) target) EvaluationEvidenceMismatch) (\<lambda>expected_output.
     and_then (guard (output_eq output expected_output) EvaluationEvidenceMismatch) (\<lambda>_.
     Ok output)))))))"

definition register_evaluation ::
  "(bytes \<Rightarrow> bytes) \<Rightarrow> ('r, 'x, 'c, 'f) families \<Rightarrow> node_id \<Rightarrow> slot_path \<Rightarrow> evaluation_report \<Rightarrow>
   ('r, 'f) document_store \<Rightarrow> canonical_error fault + derived_result_key \<times> ('r, 'f) document_store" where
  "register_evaluation sha fam root path report store =
     (let snapshot = current store;
          document = fam_document fam (pm_rest (sn_product snapshot));
          digest = fam_digest fam (sn_product snapshot);
          nodes = pm_nodes (sn_product snapshot)
      in
     and_then (ok_or (bt_get nodes root) (Returned (NodeNotFound root))) (\<lambda>root_node.
     and_then (guard (is_rule root_node) (Returned (WrongNodeKind root))) (\<lambda>_.
     and_then (map_err (\<lambda>e. Returned (GraphFault (graph_error_of_slot e))) (derived_identity_new root path)) (\<lambda>target.
     and_then (guard (resolve_derived_identity nodes target = Resolved) (Returned UnresolvedDerivedOutput)) (\<lambda>_.
     and_then (guard (er_document_id report = Some document \<and> er_revision_id report = Some (sn_revision_id snapshot) \<and>
       er_canonical_digest report = Some digest) (Returned EvaluationEnvelopeMismatch)) (\<lambda>_.
     and_then (snapshot_evaluate sha fam snapshot (er_identity report)) (\<lambda>expected.
     and_then (map_err Returned (check_evidence report expected target)) (\<lambda>output.
     let key = DerivedResultKey document (sn_revision_id snapshot) target (do_input_digest output)
                 (do_result_digest output) (er_identity report)
     in Ok (key, store \<lparr>ds_registry := registry_insert key digest (ds_registry store)\<rparr>)))))))))"

section \<open>Transactions and the approval policy\<close>

text \<open>
  \<open>mutate\<close> returns its result and the store it left, also when the result is an error;
  \<open>finalize\<close> reads the store.
\<close>

definition restore_state :: "('r, 'f) document_store \<Rightarrow> ('r, 'f) document_store \<Rightarrow> ('r, 'f) document_store" where
  "restore_state before store =
     store \<lparr>ds_revisions := ds_revisions before, ds_cursor := ds_cursor before,
       ds_next_revision_id := ds_next_revision_id before, ds_registry := ds_registry before,
       ds_policy := ds_policy before\<rparr>"

definition try_canonical_transaction ::
  "(('r, 'f) document_store \<Rightarrow> ('e + 'a) \<times> ('r, 'f) document_store) \<Rightarrow>
   (('r, 'f) document_store \<Rightarrow> 'e + unit) \<Rightarrow> ('r, 'f) document_store \<Rightarrow> ('e + 'a) \<times> ('r, 'f) document_store" where
  "try_canonical_transaction mutate finalize store =
     (case mutate store of (result, s) \<Rightarrow>
        let outcome = and_then result (\<lambda>value. and_then (finalize s) (\<lambda>_. Ok value))
        in if is_ok outcome then (outcome, s)
           else (outcome, restore_state store s))"

definition configure_human_confirmation_policy ::
  "(bytes \<Rightarrow> bool) \<Rightarrow> bytes \<Rightarrow> u64 \<Rightarrow> ('r, 'f) document_store \<Rightarrow> confirmation_error + ('r, 'f) document_store" where
  "configure_human_confirmation_policy valid_key key epoch store =
     and_then (guard (epoch \<noteq> 0 \<and>
       (case ds_policy store of None \<Rightarrow> True | Some policy \<Rightarrow> cp_epoch policy < epoch)) PolicyEpochInvalid) (\<lambda>_.
     and_then (guard (valid_key key) InvalidVerifyingKey) (\<lambda>_.
     Ok (store \<lparr>ds_policy := Some \<lparr>cp_verifying_key = key, cp_epoch = epoch, cp_consumed = []\<rparr>\<rparr>)))"

section \<open>The history as a zipper\<close>

text \<open>
  The contract of an undo history: what lies before the current revision, the current one, and
  what undo left ahead of it.  Undo and redo move the current revision; a push drops what lies
  ahead and keeps at most \<open>limit\<close> earlier revisions.
\<close>

locale undo_history =
  fixes past :: "'s \<Rightarrow> 'a list" and present :: "'s \<Rightarrow> 'a" and ahead :: "'s \<Rightarrow> 'a list"
    and push :: "'a \<Rightarrow> 's \<Rightarrow> 's" and rewind :: "'s \<Rightarrow> 's option" and advance :: "'s \<Rightarrow> 's option"
    and wf :: "'s \<Rightarrow> bool" and limit :: nat
  assumes past_push: "wf s \<Longrightarrow> past (push x s) = drop (length (past s) + 1 - limit) (past s @ [present s])"
    and present_push: "wf s \<Longrightarrow> present (push x s) = x"
    and ahead_push: "wf s \<Longrightarrow> ahead (push x s) = []"
    and rewind_view: "wf s \<Longrightarrow> rewind s = Some t \<Longrightarrow>
      wf t \<and> past s = past t @ [present t] \<and> ahead t = present s # ahead s"
    and advance_view: "wf s \<Longrightarrow> advance s = Some t \<Longrightarrow>
      wf t \<and> ahead s = present t # ahead t \<and> past t = past s @ [present s]"
    and wf_push: "wf s \<Longrightarrow> wf (push x s)"
begin

definition view :: "'s \<Rightarrow> 'a list \<times> 'a \<times> 'a list" where
  "view s = (past s, present s, ahead s)"

lemma advance_after_rewind: "wf s \<Longrightarrow> rewind s = Some t \<Longrightarrow> advance t = Some u \<Longrightarrow> view u = view s"
  using rewind_view [of s t] advance_view [of t u] by (auto simp: view_def)

lemma rewind_after_advance: "wf s \<Longrightarrow> advance s = Some t \<Longrightarrow> rewind t = Some u \<Longrightarrow> view u = view s"
  using advance_view [of s t] rewind_view [of t u] by (auto simp: view_def)

lemma rewind_after_push:
  assumes "wf s" and "0 < limit" and "rewind (push x s) = Some t"
  shows "present t = present s \<and> ahead t = [x]"
proof -
  have "past (push x s) = past t @ [present t]" "ahead t = [x]"
    using rewind_view [OF wf_push [OF assms(1)] assms(3)] ahead_push [OF assms(1)] present_push [OF assms(1)] by auto
  moreover have "last (past (push x s)) = present s"
    using past_push [OF assms(1)] assms(2) by (simp add: last_drop)
  ultimately show ?thesis by simp
qed

lemma past_bounded: "wf s \<Longrightarrow> length (past s) \<le> limit \<Longrightarrow> length (past (push x s)) \<le> limit"
  by (simp add: past_push)

end

definition store_past :: "('r, 'f) document_store \<Rightarrow> ('r, 'f) revision list" where
  "store_past store = take (ds_cursor store) (ds_revisions store)"

definition store_ahead :: "('r, 'f) document_store \<Rightarrow> ('r, 'f) revision list" where
  "store_ahead store = drop (ds_cursor store + 1) (ds_revisions store)"

definition cursor_wf :: "('r, 'f) document_store \<Rightarrow> bool" where
  "cursor_wf store \<longleftrightarrow> ds_cursor store < length (ds_revisions store)"

definition moved :: "canonical_error fault + 'r snapshot option \<times> ('r, 'f) document_store \<Rightarrow> ('r, 'f) document_store option" where
  "moved r = (case r of Inr (Some _, s) \<Rightarrow> Some s | _ \<Rightarrow> None)"

lemma moved_undo:
  "moved (undo store) = Some s \<longleftrightarrow>
     ds_cursor store \<noteq> 0 \<and> ds_next_epoch store \<noteq> - 1 \<and>
     s = store \<lparr>ds_cursor := ds_cursor store - 1, ds_mutation_epoch := ds_next_epoch store,
           ds_next_epoch := ds_next_epoch store + 1\<rparr>"
  by (auto simp: moved_def undo_def fresh_mutation_epoch_def)

lemma moved_redo:
  "moved (redo store) = Some s \<longleftrightarrow>
     ds_cursor store + 1 < length (ds_revisions store) \<and> ds_next_epoch store \<noteq> - 1 \<and>
     s = store \<lparr>ds_cursor := ds_cursor store + 1, ds_mutation_epoch := ds_next_epoch store,
           ds_next_epoch := ds_next_epoch store + 1\<rparr>"
  by (auto simp: moved_def redo_def fresh_mutation_epoch_def)

lemma push_revision_view:
  assumes "cursor_wf store"
  shows "store_past (push_revision r store) =
      drop (length (store_past store) + 1 - UNDO_REVISIONS) (store_past store @ [current_revision store])"
    and "current_revision (push_revision r store) = r"
    and "store_ahead (push_revision r store) = []" and "cursor_wf (push_revision r store)"
proof -
  let ?c = "ds_cursor store" and ?rs = "ds_revisions store"
  let ?k = "?c + 1 - UNDO_REVISIONS"
  have c: "?c < length ?rs" using assms by (simp add: cursor_wf_def)
  have k: "?k \<le> ?c" by (simp add: UNDO_REVISIONS_def)
  define D where "D = drop ?k (take (?c + 1) ?rs)"
  have len: "length (take (?c + 1) ?rs) = ?c + 1" using c by simp
  have rs: "ds_revisions (push_revision r store) = D @ [r]"
    using len k by (simp add: push_revision_def Let_def D_def)
  have cu: "ds_cursor (push_revision r store) = length D"
    using len by (simp add: push_revision_def Let_def D_def)
  have D: "D = drop (length (store_past store) + 1 - UNDO_REVISIONS) (store_past store @ [current_revision store])"
    using c by (simp add: D_def store_past_def current_revision_def take_Suc_conv_app_nth min_def)
  show "store_past (push_revision r store) =
      drop (length (store_past store) + 1 - UNDO_REVISIONS) (store_past store @ [current_revision store])"
    unfolding D [symmetric] by (simp add: store_past_def rs cu)
  show "current_revision (push_revision r store) = r" and "store_ahead (push_revision r store) = []"
    and "cursor_wf (push_revision r store)"
    by (simp_all add: current_revision_def store_ahead_def cursor_wf_def rs cu)
qed

interpretation dh: undo_history store_past current_revision store_ahead push_revision
    "\<lambda>s. moved (undo s)" "\<lambda>s. moved (redo s)" cursor_wf UNDO_REVISIONS
proof
  fix s t :: "('a, 'b) document_store"
  show "cursor_wf t \<and> store_past s = store_past t @ [current_revision t] \<and>
      store_ahead t = current_revision s # store_ahead s"
    if "cursor_wf s" "moved (undo s) = Some t"
    using that
    by (cases "ds_cursor s")
      (auto simp: moved_undo cursor_wf_def store_past_def store_ahead_def current_revision_def
        take_Suc_conv_app_nth Cons_nth_drop_Suc)
  show "cursor_wf t \<and> store_ahead s = current_revision t # store_ahead t \<and>
      store_past t = store_past s @ [current_revision s]"
    if "cursor_wf s" "moved (redo s) = Some t"
    using that
    by (auto simp: moved_redo cursor_wf_def store_past_def store_ahead_def current_revision_def
        take_Suc_conv_app_nth Cons_nth_drop_Suc)
qed (simp_all add: push_revision_view)

section \<open>The invariant of a store\<close>

abbreviation rv_nodes :: "('r, 'f) revision \<Rightarrow> node_map" where
  "rv_nodes r \<equiv> pm_nodes (sn_product (rv_snapshot r))"

definition revision_ok :: "(bytes \<Rightarrow> bytes) \<Rightarrow> ('r, 'f) revision \<Rightarrow> bool" where
  "revision_ok sha r \<longleftrightarrow>
     rv_id r = sn_revision_id (rv_snapshot r) \<and> nodes_wf (rv_nodes r) \<and>
     (\<forall>rep. rv_evaluation r = Some rep \<longrightarrow> report_sound sha (rv_nodes r) rep)"

definition precedes :: "('r, 'f) revision \<Rightarrow> ('r, 'f) revision \<Rightarrow> bool" where
  "precedes a b \<longleftrightarrow> rv_id a < rv_id b \<and> (rv_checkpoint a = None \<or> rv_checkpoint a \<noteq> rv_checkpoint b)"

definition store_inv :: "(bytes \<Rightarrow> bytes) \<Rightarrow> ('r, 'f) document_store \<Rightarrow> bool" where
  "store_inv sha store \<longleftrightarrow>
     cursor_wf store \<and> length (ds_revisions store) \<le> UNDO_REVISIONS + 1 \<and>
     list_all (revision_ok sha) (ds_revisions store) \<and> sorted_wrt precedes (ds_revisions store) \<and>
     (\<forall>r\<in>set (ds_revisions store). rv_id r < ds_next_revision_id store) \<and>
     ds_mutation_epoch store < ds_next_epoch store"

lemma checked_add_less: "checked_add_u64 a 1 = Some b \<Longrightarrow> a < b"
  by (auto simp: checked_add_u64_def word_less_nat_alt unat_word_ariths split: if_splits)

lemma epoch_less:
  assumes "a \<noteq> - 1"
  shows "(a :: u64) < a + 1"
proof -
  have "unat a \<noteq> unat (- 1 :: u64)" using assms unsigned_word_eqI by blast
  moreover have "unat (- 1 :: u64) = 18446744073709551615" by (simp add: unsigned_minus_1_eq_mask mask_eq_exp_minus_1)
  ultimately have "unat a + 1 < 18446744073709551616" using unat_u64_less [of a] by linarith
  then show ?thesis by (simp add: word_less_nat_alt unat_word_ariths)
qed

lemma current_in: "cursor_wf s \<Longrightarrow> current_revision s \<in> set (ds_revisions s)"
  by (simp add: cursor_wf_def current_revision_def)

lemma inv_current: "store_inv sha s \<Longrightarrow> revision_ok sha (current_revision s)"
  using current_in [of s] by (auto simp: store_inv_def list_all_iff)

lemma fresh_epoch_inv: "fresh_mutation_epoch s = Inr t \<Longrightarrow> store_inv sha (s \<lparr>ds_mutation_epoch := 0, ds_next_epoch := 1\<rparr>) \<Longrightarrow> store_inv sha t"
  by (auto simp: fresh_mutation_epoch_def store_inv_def cursor_wf_def epoch_less split: if_splits)

lemma push_revisions:
  "ds_revisions (push_revision r s) =
     drop (ds_cursor s + 1 - UNDO_REVISIONS) (take (ds_cursor s + 1) (ds_revisions s) @ [r])"
  "length (ds_revisions (push_revision r s)) \<le> UNDO_REVISIONS + 1"
  by (simp_all add: push_revision_def Let_def)

lemma publish_inv:
  assumes inv: "store_inv sha s" and pub: "publish mk s = Inr (r, t)"
    and mk: "\<And>i. rv_id (mk i) = i" "\<And>i. rv_checkpoint (mk i) = None" "\<And>i. revision_ok sha (mk i)"
  shows "store_inv sha t"
proof -
  let ?r = "mk (ds_next_revision_id s)"
  from pub obtain following t' where f: "checked_add_u64 (ds_next_revision_id s) 1 = Some following"
    and t': "fresh_mutation_epoch (push_revision ?r s) = (Inr t' :: canonical_error fault + _)"
    and t: "t = t' \<lparr>ds_next_revision_id := following\<rparr>" by (auto simp: publish_def result_simps)
  have less: "ds_next_revision_id s < following" by (rule checked_add_less [OF f])
  have wf: "cursor_wf s" and srt: "sorted_wrt precedes (ds_revisions s)"
    and old: "\<And>x. x \<in> set (ds_revisions s) \<Longrightarrow> revision_ok sha x \<and> rv_id x < ds_next_revision_id s"
    using inv by (auto simp: store_inv_def list_all_iff)
  let ?xs = "take (ds_cursor s + 1) (ds_revisions s) @ [?r]"
  have sub: "set ?xs \<subseteq> insert ?r (set (ds_revisions s))" by (auto dest: in_set_takeD)
  have "sorted_wrt precedes ?xs"
    using srt old by (auto simp: sorted_wrt_append sorted_wrt_take precedes_def mk dest!: in_set_takeD)
  then have 1: "sorted_wrt precedes (drop k ?xs)" for k by (rule sorted_wrt_drop)
  have 2: "list_all (revision_ok sha) (drop k ?xs)" for k
    using sub old mk by (auto simp: list_all_iff dest!: in_set_dropD)
  have 3: "\<forall>x\<in>set (drop k ?xs). rv_id x < following" for k
    using sub old mk less by (fastforce dest!: in_set_dropD)
  have 4: "cursor_wf (push_revision ?r s)" by (rule push_revision_view(4) [OF wf])
  have t_eq: "ds_revisions t = ds_revisions (push_revision ?r s)" "ds_cursor t = ds_cursor (push_revision ?r s)"
    "ds_next_revision_id t = following" "ds_mutation_epoch t < ds_next_epoch t"
    using t t' epoch_less by (auto simp: fresh_mutation_epoch_def split: if_splits)
  note rs = push_revisions [of ?r s]
  show ?thesis
    unfolding store_inv_def cursor_wf_def t_eq(1-3) rs(1)
    using 4 [unfolded cursor_wf_def rs(1)] rs(2) [unfolded rs(1)] 1 2 3 t_eq(4) by blast
qed

lemma set_current_inv:
  assumes inv: "store_inv sha s" and r: "rv_id r = rv_id (current_revision s)" "revision_ok sha r"
    and c: "\<And>x. x \<in> set (ds_revisions s) \<Longrightarrow> rv_id x \<noteq> rv_id r \<Longrightarrow> rv_checkpoint x = None \<or> rv_checkpoint x \<noteq> rv_checkpoint r"
  shows "store_inv sha (set_current r s)"
proof -
  let ?rs = "ds_revisions s" and ?c = "ds_cursor s"
  have wf: "?c < length ?rs" and srt: "sorted_wrt precedes ?rs" using inv by (auto simp: store_inv_def cursor_wf_def)
  have cur: "rv_id (?rs ! ?c) = rv_id r" using r(1) by (simp add: current_revision_def)
  have nth: "precedes (?rs ! i) (?rs ! j)" if "i < j" "j < length ?rs" for i j
    using srt that by (auto simp: sorted_wrt_iff_nth_less)
  have "precedes (?rs[?c := r] ! i) (?rs[?c := r] ! j)" if ij: "i < j" "j < length ?rs" for i j
  proof -
    have p: "precedes (?rs ! i) (?rs ! j)" by (rule nth [OF ij])
    show ?thesis
      using p c [of "?rs ! i"] c [of "?rs ! j"] cur ij wf
      by (cases "i = ?c"; cases "j = ?c") (auto simp: precedes_def nth_list_update)
  qed
  then have "sorted_wrt precedes (?rs[?c := r])" by (simp add: sorted_wrt_iff_nth_less)
  moreover have "set (?rs[?c := r]) \<subseteq> insert r (set ?rs)" by (rule set_update_subset_insert)
  moreover have "rv_id r < ds_next_revision_id s"
    using inv current_in [of s] r(1) by (auto simp: store_inv_def)
  ultimately show ?thesis
    using inv r(2) by (auto simp: store_inv_def set_current_def cursor_wf_def list_all_iff)
qed

section \<open>Reachable stores\<close>

text \<open>
  The stores a session can reach: opened from a product or a snapshot, forked, changed by a
  successful operation, or restored by a transaction whose body only used such operations.
\<close>

inductive reachable ::
  "(bytes \<Rightarrow> bytes) \<Rightarrow> (rule_program_source \<Rightarrow> bytes) \<Rightarrow> ('r, 'x, 'c, 'f) families \<Rightarrow> (bytes \<Rightarrow> bool) \<Rightarrow>
   ('r, 'f) document_store \<Rightarrow> bool"
  for sha json fam valid_key where
  opened: "nodes_wf (pm_nodes product) \<Longrightarrow> from_product fam epoch rid product = Inr s \<Longrightarrow>
    reachable sha json fam valid_key s"
| resumed: "reachable sha json fam valid_key s \<Longrightarrow> r \<in> set (ds_revisions s) \<Longrightarrow>
    from_snapshot fam epoch (rv_snapshot r) = Inr t \<Longrightarrow> reachable sha json fam valid_key t"
| forked: "reachable sha json fam valid_key s \<Longrightarrow> fork_for_planning s = Inr t \<Longrightarrow>
    reachable sha json fam valid_key t"
| batched: "reachable sha json fam valid_key s \<Longrightarrow> scopes_wf (cb_commands batch) \<Longrightarrow>
    apply_batch_with sha fam batch (Principal who) drawings s = Inr (r, t) \<Longrightarrow> reachable sha json fam valid_key t"
| undone: "reachable sha json fam valid_key s \<Longrightarrow> moved (undo s) = Some t \<Longrightarrow> reachable sha json fam valid_key t"
| redone: "reachable sha json fam valid_key s \<Longrightarrow> moved (redo s) = Some t \<Longrightarrow> reachable sha json fam valid_key t"
| bound: "reachable sha json fam valid_key s \<Longrightarrow> bind_rule_program sha json source s = Inr t \<Longrightarrow>
    reachable sha json fam valid_key t"
| reprogrammed: "reachable sha json fam valid_key s \<Longrightarrow> replace_rule_program_source sha json fam source s = Inr t \<Longrightarrow>
    reachable sha json fam valid_key t"
| named: "reachable sha json fam valid_key s \<Longrightarrow> valid_utf8 name \<Longrightarrow> create_checkpoint fam rid digest name s = Inr t \<Longrightarrow>
    reachable sha json fam valid_key t"
| rolled: "reachable sha json fam valid_key s \<Longrightarrow>
    rollback_to_revision sha fam rid digest target who s = Inr (r, t) \<Longrightarrow> reachable sha json fam valid_key t"
| replaced: "reachable sha json fam valid_key s \<Longrightarrow> reachable sha json fam valid_key u \<Longrightarrow>
    publish_replacement fam u s = Inr (r, t) \<Longrightarrow> reachable sha json fam valid_key t"
| discarded: "reachable sha json fam valid_key s \<Longrightarrow> reachable sha json fam valid_key (discard_history_before_current s)"
| registered: "reachable sha json fam valid_key s \<Longrightarrow> register_evaluation sha fam root path report s = Inr (key, t) \<Longrightarrow>
    reachable sha json fam valid_key t"
| configured: "reachable sha json fam valid_key s \<Longrightarrow>
    configure_human_confirmation_policy valid_key key epoch s = Inr t \<Longrightarrow> reachable sha json fam valid_key t"
| restored: "reachable sha json fam valid_key s \<Longrightarrow> reachable sha json fam valid_key t \<Longrightarrow>
    reachable sha json fam valid_key (restore_state s t)"

lemma initial_inv:
  assumes "opened_store epoch [initial_revision rid product states] 0 next = Inr s" and "nodes_wf (pm_nodes product)"
    and "checked_add_u64 rid 1 = Some next"
  shows "store_inv sha s"
  using assms checked_add_less [OF assms(3)]
  by (auto simp: opened_store_def fresh_mutation_epoch_def store_inv_def cursor_wf_def initial_revision_def
      revision_ok_def epoch_less split: if_splits)

lemma moved_inv:
  assumes "store_inv sha s"
  shows "moved (undo s) = Some t \<Longrightarrow> store_inv sha t"
    and "moved (redo s) = Some t \<Longrightarrow> store_inv sha t"
  using assms epoch_less by (auto simp: moved_undo moved_redo store_inv_def cursor_wf_def)

lemma batch_inv:
  assumes inv: "store_inv sha s" and "scopes_wf (cb_commands batch)"
    and app: "apply_batch_with sha fam batch origin drawings s = Inr (r, t)"
  shows "store_inv sha t"
proof -
  from app obtain edit product evaluation features where
    e: "try_fold (edit_apply sha fam) (start_edit fam (sn_product (current s)) (rv_evaluation (current_revision s)))
      (cb_commands batch) = Inr edit"
    and c: "check_product fam (sn_product (current s)) (cb_commands batch) drawings edit = Inr product"
    and v: "evaluate_batch sha fam (cb_commands batch) edit product = Inr evaluation"
    and p: "publish (batch_revision fam batch origin product evaluation features s) s = Inr (r, t)"
    by (auto simp: apply_batch_with_def result_simps)
  have cur: "revision_ok sha (current_revision s)" by (rule inv_current [OF inv])
  have "nodes_wf (pm_nodes product) \<and> report_sound sha (pm_nodes product) evaluation"
    using batch_report_sound [OF _ _ e c v assms(2)] cur by (auto simp: revision_ok_def current_def)
  then show ?thesis
    by (intro publish_inv [OF inv p]) (auto simp: batch_revision_def revision_ok_def)
qed

lemma find_revision_in: "find_revision rid s = Some r \<Longrightarrow> r \<in> set (ds_revisions s) \<and> rv_id r = rid"
  by (auto simp: find_revision_def find_Some_iff)

lemma program_inv:
  assumes "store_inv sha s"
  shows "bind_rule_program sha' json source s = Inr t \<Longrightarrow> store_inv sha t"
    and "replace_rule_program_source sha' json fam source s = Inr t \<Longrightarrow> store_inv sha t"
proof -
  have cur: "revision_ok sha (current_revision s)" by (rule inv_current [OF assms])
  have uniq: "rv_checkpoint x = None \<or> rv_checkpoint x \<noteq> rv_checkpoint (current_revision s)"
    if "x \<in> set (ds_revisions s)" "rv_id x \<noteq> rv_id (current_revision s)" for x
  proof -
    from that(1) obtain i where i: "i < length (ds_revisions s)" "x = ds_revisions s ! i" by (auto simp: in_set_conv_nth)
    have srt: "sorted_wrt precedes (ds_revisions s)" and c: "ds_cursor s < length (ds_revisions s)"
      using assms by (auto simp: store_inv_def cursor_wf_def)
    have "i \<noteq> ds_cursor s" using that(2) i by (auto simp: current_revision_def)
    then show ?thesis
      using sorted_wrt_nth_less [OF srt, of i "ds_cursor s"] sorted_wrt_nth_less [OF srt, of "ds_cursor s" i] i c
      by (cases "i < ds_cursor s") (auto simp: precedes_def current_revision_def)
  qed
  show "store_inv sha t" if "bind_rule_program sha' json source s = Inr t"
  proof -
    from that have t: "t = set_current ((current_revision s) \<lparr>rv_rule_program := Some (bound_program_new sha' json source)\<rparr>) s"
      by (auto simp: bind_rule_program_def result_simps)
    show ?thesis unfolding t
      by (rule set_current_inv [OF assms]) (use cur uniq in \<open>auto simp: revision_ok_def\<close>)
  qed
  show "store_inv sha t" if rep: "replace_rule_program_source sha' json fam source s = Inr t"
  proof (cases "case current_rule_program s of None \<Rightarrow> False | Some p \<Rightarrow> rule_program_eq p source")
    case True
    with rep have "t = s" by (auto simp: replace_rule_program_source_def result_simps)
    with assms show ?thesis by simp
  next
    case False
    with rep cur show ?thesis
      by (auto simp: replace_rule_program_source_def result_simps current_def revision_ok_def
          intro!: publish_inv [OF assms])
  qed
qed

lemma named_inv:
  assumes "store_inv sha s" and "create_checkpoint fam rid digest name s = Inr t"
  shows "store_inv sha t"
proof -
  let ?r = "(current_revision s) \<lparr>rv_checkpoint := Some name\<rparr>"
  from assms(2) have rid: "rv_id (current_revision s) = rid"
    and free: "\<And>x. x \<in> set (ds_revisions s) \<Longrightarrow> rv_checkpoint x = Some name \<Longrightarrow> rv_id x = rid"
    and t: "fresh_mutation_epoch (set_current ?r s) = (Inr t :: history_error fault + _)"
    by (auto simp: create_checkpoint_def result_simps list_ex_iff)
  have "store_inv sha (set_current ?r s)"
    by (rule set_current_inv [OF assms(1)]) (use inv_current [OF assms(1)] free rid in \<open>auto simp: revision_ok_def\<close>)
  then show ?thesis
    using t epoch_less by (auto simp: fresh_mutation_epoch_def store_inv_def cursor_wf_def split: if_splits)
qed

lemma rolled_inv:
  assumes "store_inv sha s"
  shows "rollback_to_revision sha' fam rid digest target who s = Inr (r, t) \<Longrightarrow> store_inv sha t"
    and "store_inv sha u \<Longrightarrow> publish_replacement fam u s = Inr (r, t) \<Longrightarrow> store_inv sha t"
proof -
  have reg: "store_inv sha (t' \<lparr>ds_registry := x\<rparr>) = store_inv sha t'" for t' :: "('a, 'b) document_store" and x
    by (simp add: store_inv_def cursor_wf_def)
  show "store_inv sha t" if "rollback_to_revision sha' fam rid digest target who s = Inr (r, t)"
  proof -
    from that obtain tr t' mk where tr: "find_revision target s = Some tr" and t: "t = t' \<lparr>ds_registry := []\<rparr>"
      and p: "publish mk s = Inr (r, t')"
      and mk: "\<And>i. rv_id (mk i) = i" "\<And>i. rv_checkpoint (mk i) = None" "\<And>i. rv_evaluation (mk i) = None"
        "\<And>i. sn_revision_id (rv_snapshot (mk i)) = i" "\<And>i. rv_nodes (mk i) = rv_nodes tr"
      by (auto simp: rollback_to_revision_def lift_exhausted_def result_simps)
    have "revision_ok sha tr" using find_revision_in [OF tr] assms by (auto simp: store_inv_def list_all_iff)
    then have "store_inv sha t'" by (intro publish_inv [OF assms p]) (auto simp: revision_ok_def mk)
    then show ?thesis by (simp add: t reg)
  qed
  show "store_inv sha t" if u: "store_inv sha u" and "publish_replacement fam u s = Inr (r, t)"
  proof -
    from that(2) obtain t' mk where t: "t = t' \<lparr>ds_registry := []\<rparr>" and p: "publish mk s = Inr (r, t')"
      and mk: "\<And>i. rv_id (mk i) = i" "\<And>i. rv_checkpoint (mk i) = None" "\<And>i. rv_evaluation (mk i) = None"
        "\<And>i. sn_revision_id (rv_snapshot (mk i)) = i" "\<And>i. rv_nodes (mk i) = rv_nodes (current_revision u)"
      by (auto simp: publish_replacement_def current_def result_simps)
    have "store_inv sha t'"
      using inv_current [OF u] by (intro publish_inv [OF assms p]) (auto simp: revision_ok_def mk)
    then show ?thesis by (simp add: t reg)
  qed
qed

lemma restore_inv: "store_inv sha s \<Longrightarrow> store_inv sha t \<Longrightarrow> store_inv sha (restore_state s t)"
  by (auto simp: restore_state_def store_inv_def cursor_wf_def)

lemma transaction_reachable:
  assumes "reachable sha json fam valid_key s" and "reachable sha json fam valid_key (snd (mutate s))"
  shows "reachable sha json fam valid_key (snd (try_canonical_transaction mutate finalize s))"
  using assms by (auto simp: try_canonical_transaction_def Let_def intro: restored split: prod.splits)

lemma reachable_store_inv: "reachable sha json fam valid_key s \<Longrightarrow> store_inv sha s"
proof (induction rule: reachable.induct)
  case (opened product epoch rid s)
  then show ?case by (auto simp: from_product_def result_simps intro: initial_inv)
next
  case (resumed s r epoch t)
  then have "nodes_wf (rv_nodes r)" by (auto simp: store_inv_def list_all_iff revision_ok_def)
  with resumed show ?case by (auto simp: from_snapshot_def result_simps intro: initial_inv)
next
  case (forked s t)
  then show ?case
    using epoch_less by (auto simp: fork_for_planning_def fresh_mutation_epoch_def store_inv_def cursor_wf_def split: if_splits)
next
  case (batched s batch origin drawings r t)
  then show ?case by (blast intro: batch_inv)
next
  case (discarded s)
  then show ?case
    using current_in [of s] by (auto simp: discard_history_before_current_def store_inv_def cursor_wf_def list_all_iff)
next
  case (registered s root path report key t)
  then show ?case
    by (auto simp: register_evaluation_def Let_def result_simps store_inv_def cursor_wf_def)
next
  case (configured s key epoch t)
  then show ?case
    by (auto simp: configure_human_confirmation_policy_def result_simps store_inv_def cursor_wf_def)
qed (auto intro: moved_inv program_inv named_inv rolled_inv restore_inv)

end
