(* ===== verification/Ketchup_History.thy ===== *)
theory Ketchup_History
  imports Ketchup_Store
begin

text \<open>
  What the document store promises: the behaviour of batches, undo and redo, rollback,
  transactions, previews, registered evaluations and restored histories, over the model of
  theory \<^verbatim>\<open>Ketchup_Store\<close>.
\<close>

section \<open>What publishing a revision does\<close>

lemma publish_Inr:
  assumes "publish mk s = Inr (r, t)"
  obtains next_id where "r = mk (ds_next_revision_id s)" and "ds_next_epoch s \<noteq> - 1"
    and "checked_add_u64 (ds_next_revision_id s) 1 = Some next_id"
    and "t = (push_revision r s) \<lparr>ds_mutation_epoch := ds_next_epoch s, ds_next_epoch := ds_next_epoch s + 1,
      ds_next_revision_id := next_id\<rparr>"
  using assms by (auto simp: publish_def fresh_mutation_epoch_def push_revision_def Let_def result_simps split: if_splits)

text \<open>
  The history after publishing: the revision is current, nothing lies ahead, the former current
  revision is the last of at most thirty earlier ones, and the epoch is new.
\<close>

definition pushed :: "('r, 'f) document_store \<Rightarrow> ('r, 'f) revision \<Rightarrow> ('r, 'f) document_store \<Rightarrow> bool" where
  "pushed s r t \<longleftrightarrow>
     current_revision t = r \<and> store_ahead t = [] \<and>
     store_past t = drop (length (store_past s) + 1 - UNDO_REVISIONS) (store_past s @ [current_revision s]) \<and>
     rv_id r = ds_next_revision_id s \<and> ds_next_revision_id s < ds_next_revision_id t \<and>
     ds_mutation_epoch s < ds_mutation_epoch t \<and> ds_policy t = ds_policy s"

lemma pushed_registry [simp]: "pushed s r (t \<lparr>ds_registry := x\<rparr>) = pushed s r t"
  by (simp add: pushed_def current_revision_def store_ahead_def store_past_def)

lemma publish_pushed:
  assumes "store_inv sha s" and "publish mk s = Inr (r, t)" and "\<And>i. rv_id (mk i) = i"
  shows "pushed s r t"
proof -
  have wf: "cursor_wf s" and ep: "ds_mutation_epoch s < ds_next_epoch s" using assms(1) by (auto simp: store_inv_def)
  obtain next_id where p: "r = mk (ds_next_revision_id s)"
    "checked_add_u64 (ds_next_revision_id s) 1 = Some next_id"
    "t = (push_revision r s) \<lparr>ds_mutation_epoch := ds_next_epoch s, ds_next_epoch := ds_next_epoch s + 1,
      ds_next_revision_id := next_id\<rparr>"
    by (rule publish_Inr [OF assms(2)])
  note v = push_revision_view [OF wf, of r]
  have t: "store_past t = store_past (push_revision r s)" "store_ahead t = store_ahead (push_revision r s)"
    "current_revision t = current_revision (push_revision r s)" "ds_policy t = ds_policy s"
    "ds_mutation_epoch t = ds_next_epoch s" "ds_next_revision_id t = next_id"
    by (simp_all add: p(3) store_past_def store_ahead_def current_revision_def push_revision_def Let_def)
  show ?thesis
    using v ep checked_add_less [OF p(2)] assms(3) p(1) by (simp add: pushed_def t)
qed

section \<open>What a batch does\<close>

lemma check_product_ok:
  assumes "check_product fam before commands drawings edit = Inr product"
  shows "is_ok (validate_graph (pm_nodes product)) \<and>
    (\<forall>ov\<in>set (bt_values (pm_overrides product)).
       ov_health ov = resolve_derived_identity (pm_nodes product) (ov_target ov) \<and>
       is_ok (validate_override (pm_nodes product) ov))"
proof -
  from assms obtain rest where v: "validate_graph (pm_nodes (be_product edit)) = Inr ()"
    and o: "validate_overrides product = Inr ()"
    and p: "product = refresh_override_health ((be_product edit) \<lparr>pm_rest := rest\<rparr>)"
    by (auto simp: check_product_def lift_fault_def result_simps)
  from v have "is_ok (validate_graph (pm_nodes product))" by (simp add: p refresh_override_health_def)
  moreover have "ov_health ov = resolve_derived_identity (pm_nodes product) (ov_target ov)"
    if "ov \<in> set (bt_values (pm_overrides product))" for ov
    using that by (auto simp: p refresh_override_health_def bt_values_def)
  ultimately show ?thesis using o by (auto simp: validate_overrides_def try_each_Inr)
qed

lemma affected_have_results:
  assumes "nodes_wf nodes" and "evaluate_affected sha nodes ident previous affected = Inr report" and "bs_wf affected"
  shows "set affected \<subseteq> set (bt_keys (er_nodes report))"
proof
  fix c
  assume c: "c \<in> set affected"
  have r: "graph_ready ident nodes" "set affected \<subseteq> set (bt_keys nodes)"
    using evaluate_affected_Inr [OF _ _ assms(2)] assms(1) by (auto simp: nodes_wf_def)
  then obtain n where n: "bt_get nodes c = Some n" using c bt_get_None_keys [of nodes c] by auto
  from evaluate_affected_run [OF r assms(3) refl, where previous = previous and sha = sha] assms(2) c r(2) n
  have "bt_get (er_nodes report) c \<noteq> None" by (fastforce simp: eval_inv_def)
  then show "c \<in> set (bt_keys (er_nodes report))" by (simp add: bt_get_None_keys)
qed

lemma apply_batch_Inr:
  assumes "apply_batch_with sha fam batch origin drawings s = Inr (r, t)"
  obtains edit product evaluation features where
    "try_fold (edit_apply sha fam) (start_edit fam (sn_product (current s)) (rv_evaluation (current_revision s)))
      (cb_commands batch) = Inr edit"
    and "check_product fam (sn_product (current s)) (cb_commands batch) drawings edit = Inr product"
    and "evaluate_batch sha fam (cb_commands batch) edit product = Inr evaluation"
    and "publish (batch_revision fam batch origin product evaluation features s) s = Inr (r, t)"
    and "r = batch_revision fam batch origin product evaluation features s (ds_next_revision_id s)"
proof -
  from assms obtain edit product evaluation features where
    "try_fold (edit_apply sha fam) (start_edit fam (sn_product (current s)) (rv_evaluation (current_revision s)))
      (cb_commands batch) = Inr edit"
    "check_product fam (sn_product (current s)) (cb_commands batch) drawings edit = Inr product"
    "evaluate_batch sha fam (cb_commands batch) edit product = Inr evaluation"
    and p: "publish (batch_revision fam batch origin product evaluation features s) s = Inr (r, t)"
    by (auto simp: apply_batch_with_def result_simps)
  moreover from p have "r = batch_revision fam batch origin product evaluation features s (ds_next_revision_id s)"
    by (rule publish_Inr)
  ultimately show thesis using that by blast
qed

lemma batch_sound:
  assumes "store_inv sha s" and "scopes_wf (cb_commands batch)"
    and "apply_batch_with sha fam batch origin drawings s = Inr (r, t)"
  shows "pushed s r t \<and> rv_origin r = origin \<and> rv_checkpoint r = None \<and> ds_registry t = ds_registry s \<and>
    is_ok (validate_graph (rv_nodes r)) \<and>
    (\<forall>ov\<in>set (bt_values (pm_overrides (sn_product (rv_snapshot r)))).
       ov_health ov = resolve_derived_identity (rv_nodes r) (ov_target ov) \<and>
       is_ok (validate_override (rv_nodes r) ov)) \<and>
    (\<exists>rep. rv_evaluation r = Some rep \<and> report_sound sha (rv_nodes r) rep \<and>
       set (rv_recomputed_nodes r) \<subseteq> set (bt_keys (er_nodes rep)))"
proof -
  from assms(3) obtain edit product evaluation features where
    e: "try_fold (edit_apply sha fam) (start_edit fam (sn_product (current s)) (rv_evaluation (current_revision s)))
      (cb_commands batch) = Inr edit"
    and c: "check_product fam (sn_product (current s)) (cb_commands batch) drawings edit = Inr product"
    and v: "evaluate_batch sha fam (cb_commands batch) edit product = Inr evaluation"
    and p: "publish (batch_revision fam batch origin product evaluation features s) s = Inr (r, t)"
    and r: "r = batch_revision fam batch origin product evaluation features s (ds_next_revision_id s)"
    by (rule apply_batch_Inr)
  have ok: "revision_ok sha (current_revision s)" by (rule inv_current [OF assms(1)])
  have sound: "nodes_wf (pm_nodes product)" "report_sound sha (pm_nodes product) evaluation"
    using batch_report_sound [OF _ _ e c v assms(2)] ok by (auto simp: revision_ok_def current_def)
  have "evaluate_affected sha (pm_nodes product) (be_identity edit) (be_previous edit)
      (dependent_closure (pm_nodes product) (evaluator_roots fam product (cb_commands batch))) = Inr evaluation"
    using v by (simp add: evaluate_batch_def lift_fault_def result_simps)
  from affected_have_results [OF sound(1) this]
  have res: "set (dependent_closure (pm_nodes product) (evaluator_roots fam product (cb_commands batch)))
      \<subseteq> set (bt_keys (er_nodes evaluation))"
    unfolding dependent_closure_def using evaluator_roots_spec by (blast intro: bs_wf_closure_loop)
  have "pushed s r t" by (rule publish_pushed [OF assms(1) p]) (simp add: batch_revision_def)
  moreover have "ds_registry t = ds_registry s"
    by (rule publish_Inr [OF p]) (simp add: push_revision_def Let_def)
  ultimately show ?thesis
    using check_product_ok [OF c] sound res by (simp add: r batch_revision_def)
qed

lemma batch_wrote_contained:
  assumes "store_inv sha s" and "scopes_wf (cb_commands batch)"
    and "apply_batch_with sha fam batch origin drawings s = Inr (r, t)"
    and "command \<in> set (cb_commands batch)" and "command_id command = Some c"
  shows "bt_contains (rv_nodes r) c"
proof -
  from assms(3) obtain edit product evaluation features where
    e: "try_fold (edit_apply sha fam) (start_edit fam (sn_product (current s)) (rv_evaluation (current_revision s)))
      (cb_commands batch) = Inr edit"
    and ch: "check_product fam (sn_product (current s)) (cb_commands batch) drawings edit = Inr product"
    and v: "evaluate_batch sha fam (cb_commands batch) edit product = Inr evaluation"
    and r: "r = batch_revision fam batch origin product evaluation features s (ds_next_revision_id s)"
    by (rule apply_batch_Inr)
  let ?roots = "evaluator_roots fam product (cb_commands batch)"
  have ok: "revision_ok sha (current_revision s)" by (rule inv_current [OF assms(1)])
  have wf: "nodes_wf (pm_nodes product)"
    using batch_report_sound [OF _ _ e ch v assms(2)] ok by (auto simp: revision_ok_def current_def)
  have "evaluate_affected sha (pm_nodes product) (be_identity edit) (be_previous edit)
      (dependent_closure (pm_nodes product) ?roots) = Inr evaluation"
    using v by (simp add: evaluate_batch_def lift_fault_def result_simps)
  then have "set (dependent_closure (pm_nodes product) ?roots) \<subseteq> set (bt_keys (pm_nodes product))"
    using evaluate_affected_Inr wf by (auto simp: nodes_wf_def)
  moreover have "c \<in> set (dependent_closure (pm_nodes product) ?roots)"
    using evaluator_roots_spec [of fam product "cb_commands batch"] assms(4,5) wf
    by (auto simp: dependent_closure_reach nodes_wf_def)
  ultimately show ?thesis by (auto simp: r batch_revision_def bt_contains_iff)
qed


section \<open>What a rollback does\<close>

lemma revision_unique:
  assumes "store_inv sha s" and "a \<in> set (ds_revisions s)" and "b \<in> set (ds_revisions s)" and "rv_id a = rv_id b"
  shows "a = b"
proof -
  have srt: "sorted_wrt precedes (ds_revisions s)" using assms(1) by (simp add: store_inv_def)
  from assms(2,3) obtain i j where ij: "i < length (ds_revisions s)" "a = ds_revisions s ! i"
    "j < length (ds_revisions s)" "b = ds_revisions s ! j" by (auto simp: in_set_conv_nth)
  have "\<not> i < j" "\<not> j < i"
    using sorted_wrt_nth_less [OF srt, of i j] sorted_wrt_nth_less [OF srt, of j i] ij assms(4)
    by (auto simp: precedes_def)
  then show ?thesis using ij by simp
qed

lemma find_revision_iff:
  assumes "store_inv sha s"
  shows "find_revision target s = Some tr \<longleftrightarrow> tr \<in> set (ds_revisions s) \<and> rv_id tr = target"
proof
  assume tr: "tr \<in> set (ds_revisions s) \<and> rv_id tr = target"
  then have "find_revision target s \<noteq> None" by (auto simp: find_revision_def find_None_iff)
  then obtain tr' where "find_revision target s = Some tr'" by blast
  with find_revision_in [OF this] revision_unique [OF assms] tr show "find_revision target s = Some tr" by metis
qed (rule find_revision_in)

lemma publish_ok_iff:
  "is_ok (publish mk s) \<longleftrightarrow> checked_add_u64 (ds_next_revision_id s) 1 \<noteq> None \<and> ds_next_epoch s \<noteq> - 1"
  by (cases "checked_add_u64 (ds_next_revision_id s) 1")
    (auto simp: publish_def fresh_mutation_epoch_def push_revision_def Let_def)

lemma lift_exhausted_ok: "is_ok (lift_exhausted r) = is_ok r"
  by (cases r) (auto simp: lift_exhausted_def)

lemma and_then_is_ok: "is_ok (and_then r f) \<longleftrightarrow> (\<exists>x. r = Inr x \<and> is_ok (f x))"
  by (cases r) auto

lemma rollback_ok_iff:
  "is_ok (rollback_to_revision sha fam rid digest target who s) \<longleftrightarrow>
     rv_id (current_revision s) = rid \<and> fam_digest fam (sn_product (current s)) = digest \<and> principal_identified who \<and>
     (\<exists>tr. find_revision target s = Some tr \<and>
       \<not> (fam_digest fam (sn_product (rv_snapshot tr)) = digest \<and>
           programs_equal (rv_rule_program tr) (rv_rule_program (current_revision s)))) \<and>
     checked_add_u64 (ds_next_revision_id s) 1 \<noteq> None \<and> ds_next_epoch s \<noteq> - 1"
proof -
  have last: "is_ok (and_then (lift_exhausted (publish mk s)) (\<lambda>(revision, t). Ok (revision, t \<lparr>ds_registry := []\<rparr>))) \<longleftrightarrow>
      checked_add_u64 (ds_next_revision_id s) 1 \<noteq> None \<and> ds_next_epoch s \<noteq> - 1" for mk
    unfolding publish_ok_iff [of mk, symmetric] lift_exhausted_ok [of "publish mk s", symmetric]
    by (cases "lift_exhausted (publish mk s)") auto
  show ?thesis
    unfolding rollback_to_revision_def and_then_is_ok [of "guard _ _"] and_then_is_ok [of "ok_or _ _"] guard_eq ok_or_eq last
    by auto
qed

lemma rollback_pushed:
  assumes "store_inv sha s" and "rollback_to_revision sha' fam rid digest target who s = Inr (r, t)"
  shows "pushed s r t \<and> ds_registry t = [] \<and> rv_origin r = Rollback who target \<and> rv_checkpoint r = None \<and>
    (\<exists>tr. find_revision target s = Some tr \<and> sn_product (rv_snapshot r) = sn_product (rv_snapshot tr) \<and>
      rv_rule_program r = rv_rule_program tr)"
proof -
  from assms(2) obtain tr t' mk where tr: "find_revision target s = Some tr" and t: "t = t' \<lparr>ds_registry := []\<rparr>"
    and p: "publish mk s = Inr (r, t')"
    and mk: "\<And>i. rv_id (mk i) = i" "\<And>i. rv_checkpoint (mk i) = None" "\<And>i. rv_origin (mk i) = Rollback who target"
      "\<And>i. sn_product (rv_snapshot (mk i)) = sn_product (rv_snapshot tr)" "\<And>i. rv_rule_program (mk i) = rv_rule_program tr"
    by (auto simp: rollback_to_revision_def lift_exhausted_def result_simps)
  have "r = mk (ds_next_revision_id s)" by (rule publish_Inr [OF p])
  with publish_pushed [OF assms(1) p mk(1)] tr show ?thesis by (simp add: t mk)
qed

section \<open>Previews\<close>

definition recomputes :: "'c canonical_command \<Rightarrow> bool" where
  "recomputes command = (case command of RecomputeFeatureParameters _ _ \<Rightarrow> True | _ \<Rightarrow> False)"

text \<open>Without a recompute command, the earlier report only passes through a batch.\<close>

lemma edit_apply_previous:
  assumes "edit_apply sha fam edit command = Inr edit'" and "\<not> recomputes command"
  shows "edit_apply sha fam (edit \<lparr>be_previous := p\<rparr>) command = Inr (edit' \<lparr>be_previous := p\<rparr>)"
  using assms
  by (cases command)
    (auto simp: edit_apply_def apply_evaluation_def on_nodes_def on_overrides_def recomputes_def result_simps
      split: if_splits)

lemma batch_previous:
  assumes "try_fold (edit_apply sha fam) edit commands = Inr edit'" and "list_all (\<lambda>c. \<not> recomputes c) commands"
  shows "try_fold (edit_apply sha fam) (edit \<lparr>be_previous := p\<rparr>) commands = Inr (edit' \<lparr>be_previous := p\<rparr>)"
  using assms
proof (induction commands arbitrary: edit)
  case (Cons command commands)
  then obtain e1 where "edit_apply sha fam edit command = Inr e1"
    "try_fold (edit_apply sha fam) e1 commands = Inr edit'" by (auto simp: result_simps)
  with Cons edit_apply_previous show ?case by fastforce
qed simp

lemma evaluate_batch_previous:
  assumes "nodes_wf (pm_nodes product)" and "evaluate_batch sha fam commands edit product = Inr evaluation"
  shows "is_ok (evaluate_batch sha fam commands (edit \<lparr>be_previous := p\<rparr>) product)"
proof -
  let ?A = "dependent_closure (pm_nodes product) (evaluator_roots fam product commands)"
  have ev: "evaluate_affected sha (pm_nodes product) (be_identity edit) (be_previous edit) ?A = Inr evaluation"
    using assms(2) by (simp add: evaluate_batch_def lift_fault_def result_simps)
  have "bs_wf ?A" unfolding dependent_closure_def using evaluator_roots_spec by (blast intro: bs_wf_closure_loop)
  moreover have "graph_ready (be_identity edit) (pm_nodes product)" "set ?A \<subseteq> set (bt_keys (pm_nodes product))"
    using evaluate_affected_Inr [OF _ _ ev] assms(1) by (auto simp: nodes_wf_def)
  ultimately obtain report where
    "evaluate_affected sha (pm_nodes product) (be_identity edit) p ?A = Inr report"
    using evaluate_affected_run [OF _ _ _ refl, where previous = p and sha = sha] by blast
  then show ?thesis by (simp add: evaluate_batch_def lift_fault_def)
qed

lemma preview_Inr:
  assumes "preview_batch sha fam batch s = Inr snap"
  obtains edit product evaluation features where
    "try_fold (edit_apply sha fam) (start_edit fam (sn_product (current s)) None) (cb_commands batch) = Inr edit"
    and "check_product fam (sn_product (current s)) (cb_commands batch) True edit = Inr product"
    and "evaluate_batch sha fam (cb_commands batch) edit product = Inr evaluation"
    and "fam_features fam (sn_product (current s)) (be_extra edit) product = Inr features"
    and "cb_schema batch = COMMAND_SCHEMA_V1" and "cb_commands batch \<noteq> []" and "sn_product snap = product"
proof -
  from assms obtain candidate r u where c: "from_product fam (ds_next_epoch s) (sn_revision_id (current s))
      (sn_product (current s)) = Inr candidate"
    and a: "apply_batch_with sha fam batch (Principal ManualClient) True candidate = Inr (r, u)" and snap: "snap = current u"
    by (auto simp: preview_batch_def apply_batch_def result_simps)
  from c obtain states where cand: "ds_revisions candidate = [initial_revision (sn_revision_id (current s)) (sn_product (current s)) states]"
    "ds_cursor candidate = 0"
    by (auto simp: from_product_def opened_store_def fresh_mutation_epoch_def result_simps split: if_splits)
  then have cur: "sn_product (current candidate) = sn_product (current s)" "rv_evaluation (current_revision candidate) = None"
    "cursor_wf candidate"
    by (simp_all add: current_def current_revision_def initial_revision_def cursor_wf_def)
  from a cur obtain edit product evaluation features where
    o: "try_fold (edit_apply sha fam) (start_edit fam (sn_product (current s)) None) (cb_commands batch) = Inr edit"
    "check_product fam (sn_product (current s)) (cb_commands batch) True edit = Inr product"
    "evaluate_batch sha fam (cb_commands batch) edit product = Inr evaluation"
    "fam_features fam (sn_product (current s)) (be_extra edit) product = Inr features"
    "cb_schema batch = COMMAND_SCHEMA_V1" "cb_commands batch \<noteq> []"
    and p: "publish (batch_revision fam batch (Principal ManualClient) product evaluation features candidate) candidate = Inr (r, u)"
    by (auto simp: apply_batch_with_def result_simps)
  have "sn_product snap = product"
  proof (rule publish_Inr [OF p])
    fix next_id
    assume r: "r = batch_revision fam batch (Principal ManualClient) product evaluation features candidate
        (ds_next_revision_id candidate)"
      and u: "u = (push_revision r candidate) \<lparr>ds_mutation_epoch := ds_next_epoch candidate,
        ds_next_epoch := ds_next_epoch candidate + 1, ds_next_revision_id := next_id\<rparr>"
    have "current_revision u = current_revision (push_revision r candidate)" by (simp add: u current_revision_def)
    also have "\<dots> = r" by (rule push_revision_view(2) [OF cur(3)])
    finally show ?thesis by (simp add: snap current_def r batch_revision_def)
  qed
  with o that show thesis by blast
qed

lemma preview_applies:
  assumes inv: "store_inv sha s" and "list_all (\<lambda>c. \<not> recomputes c) (cb_commands batch)"
    and "preview_batch sha fam batch s = Inr snap"
    and "checked_add_u64 (ds_next_revision_id s) 1 \<noteq> None" and "ds_next_epoch s \<noteq> - 1"
  shows "\<exists>r t. apply_batch sha fam batch s = Inr (r, t) \<and> sn_product (rv_snapshot r) = sn_product snap"
proof -
  let ?prev = "rv_evaluation (current_revision s)"
  from assms(3) obtain edit product evaluation features where
    o: "try_fold (edit_apply sha fam) (start_edit fam (sn_product (current s)) None) (cb_commands batch) = Inr edit"
    "check_product fam (sn_product (current s)) (cb_commands batch) True edit = Inr product"
    "evaluate_batch sha fam (cb_commands batch) edit product = Inr evaluation"
    "fam_features fam (sn_product (current s)) (be_extra edit) product = Inr features"
    "cb_schema batch = COMMAND_SCHEMA_V1" "cb_commands batch \<noteq> []" "sn_product snap = product"
    by (rule preview_Inr)
  let ?e = "edit \<lparr>be_previous := ?prev\<rparr>"
  have 1: "try_fold (edit_apply sha fam) (start_edit fam (sn_product (current s)) ?prev) (cb_commands batch) = Inr ?e"
    using batch_previous [OF o(1) assms(2), of ?prev] by (simp add: start_edit_def)
  have 2: "check_product fam (sn_product (current s)) (cb_commands batch) True ?e = Inr product"
    using o(2) by (simp add: check_product_def)
  have "nodes_wf (pm_nodes (sn_product (current s)))"
    using inv_current [OF inv] by (simp add: revision_ok_def current_def)
  then have "nodes_wf (pm_nodes (be_product edit))"
    using batch_nodes_wf [OF o(1)] by (simp add: start_edit_def)
  then have "nodes_wf (pm_nodes product)" using check_product_nodes [OF o(2)] by simp
  then obtain evaluation' where 3: "evaluate_batch sha fam (cb_commands batch) ?e product = Inr evaluation'"
    using evaluate_batch_previous [OF _ o(3), of ?prev] by (auto simp: is_ok_iff)
  obtain r t where p: "publish (batch_revision fam batch (Principal ManualClient) product evaluation' features s) s = Inr (r, t)"
    using publish_ok_iff [of "batch_revision fam batch (Principal ManualClient) product evaluation' features s" s] assms(4,5)
    by (auto simp: is_ok_iff)
  have "r = batch_revision fam batch (Principal ManualClient) product evaluation' features s (ds_next_revision_id s)"
    by (rule publish_Inr [OF p])
  then have "sn_product (rv_snapshot r) = sn_product snap" by (simp add: batch_revision_def o(7))
  moreover have "apply_batch sha fam batch s = Inr (r, t)"
    using assms(4) by (auto simp: apply_batch_def apply_batch_with_def o(4,5,6) 1 2 3 p)
  ultimately show ?thesis by blast
qed

section \<open>Registered evaluations\<close>

lemma snapshot_evaluate_Inr:
  "snapshot_evaluate sha fam snapshot ident = Inr report \<longleftrightarrow>
     (\<exists>full. evaluate_graph sha (pm_nodes (sn_product snapshot)) ident = Inr full \<and>
        report = full \<lparr>er_document_id := Some (fam_document fam (pm_rest (sn_product snapshot))),
          er_revision_id := Some (sn_revision_id snapshot),
          er_canonical_digest := Some (fam_digest fam (sn_product snapshot))\<rparr>)"
  by (auto simp: snapshot_evaluate_def lift_fault_def result_simps)

lemma register_Inr:
  assumes "register_evaluation sha fam root path report s = Inr (key, t)"
  obtains node full supplied where
    "bt_get (pm_nodes (sn_product (current s))) root = Some node" and "is_rule node" and "root \<noteq> 0"
    and "resolve_derived_identity (pm_nodes (sn_product (current s))) (DerivedIdentity root path) = Resolved"
    and "evaluate_graph sha (pm_nodes (sn_product (current s))) (er_identity report) = Inr full"
    and "\<exists>o1. bt_get (er_outputs full) (DerivedIdentity root path) = Some o1 \<and> output_eq supplied o1"
    and "key = DerivedResultKey (fam_document fam (pm_rest (sn_product (current s)))) (sn_revision_id (current s))
      (DerivedIdentity root path) (do_input_digest supplied) (do_result_digest supplied) (er_identity report)"
    and "t = s \<lparr>ds_registry := registry_insert key (fam_digest fam (sn_product (current s))) (ds_registry s)\<rparr>"
  using assms
  by (auto simp: register_evaluation_def derived_identity_new_def check_evidence_def snapshot_evaluate_Inr Let_def
      result_simps)

lemma status_eq_refl: "(\<And>v. st = Evaluated v \<Longrightarrow> \<not> f64_is_nan v) \<Longrightarrow> status_eq st st"
  by (cases st) (auto simp: status_eq_def f64_eq_def)

lemma honest_evidence:
  assumes "bt_get (er_nodes report) (root_rule_node_id target) = Some e" and "ne_status e = Evaluated v"
    and "bt_get (er_outputs report) target = Some (output_of e v)" and "\<not> f64_is_nan v"
  shows "check_evidence report report target = Inr (output_of e v)"
  using assms
  by (simp add: check_evidence_def evaluation_eq_def status_eq_refl output_eq_def f64_eq_def output_of_def is_errored_def
      status_eq_def)

lemma evaluate_finite: "evaluate vals ast = Inr v \<Longrightarrow> f64_is_finite v"
  by (cases ast) (auto simp: finite_or_error_def result_simps split: if_splits)

lemma rule_value_finite:
  assumes "evaluated sha ident nodes evs" and "bt_get nodes c = Some node" and "is_rule node"
    and "bt_get evs c = Some e" and "ne_status e = Evaluated v"
  shows "f64_is_finite v"
  using assms evaluate_finite
  by (auto simp: evaluated_def node_result_def evaluation_of_def status_of_def kind_value_def is_rule_def Let_def
      split: if_splits evaluator_node_kind.splits sum.splits)

section \<open>A document for the examples\<close>

text \<open>A document that has evaluator nodes only, and a store holding \<open>demo_graph\<close>.\<close>

definition demo_families :: "(unit, unit, unit, unit) families" where
  "demo_families =
     \<lparr>fam_apply = (\<lambda>_ _ _. Ok ((), ())), fam_after = (\<lambda>_ _ _. ()), fam_start = (\<lambda>_. ()),
      fam_write = (\<lambda>_ _ _. Ok ()), fam_roots = (\<lambda>_. []), fam_refresh = (\<lambda>_ _ _ _. Ok ()),
      fam_validate = (\<lambda>_ _ _ _. Ok ()), fam_features = (\<lambda>_ _ _. Ok ([], ())), fam_feature_ids = (\<lambda>_. []),
      fam_opened = (\<lambda>_. Ok ()), fam_has_definitions = (\<lambda>_. False), fam_keeps_program = (\<lambda>_. False),
      fam_digest = (\<lambda>p. concat (map en_name (bt_values (pm_nodes p)))), fam_batch_digest = (\<lambda>_ _. []),
      fam_document = (\<lambda>_. 1), fam_default_identity = demo_identity\<rparr>"

definition demo_product :: "unit product" where
  "demo_product = \<lparr>pm_nodes = demo_graph ''0'', pm_overrides = [], pm_rest = ()\<rparr>"

definition demo_store :: "(unit, unit) document_store" where
  "demo_store =
     \<lparr>ds_revisions = [initial_revision 1 demo_product ()], ds_cursor = 0, ds_next_revision_id = 2,
      ds_mutation_epoch = 1, ds_registry = [], ds_policy = None, ds_next_epoch = 2\<rparr>"

lemma demo_opened_at:
  assumes "epoch \<noteq> - 1"
  shows "from_product demo_families epoch 1 demo_product =
    Inr (demo_store \<lparr>ds_mutation_epoch := epoch, ds_next_epoch := epoch + 1\<rparr>)"
proof -
  have "validate_graph (demo_graph ''0'') = Inr ()"
    using demo_graph_ready [of "''0''"] by (simp add: graph_ready_def is_ok_unit_iff)
  with assms show ?thesis
    by (simp add: from_product_def demo_families_def demo_product_def demo_store_def lift_fault_def
        validate_overrides_def bt_values_def checked_add_u64_def opened_store_def fresh_mutation_epoch_def)
qed

lemma demo_opened: "from_product demo_families 1 1 demo_product = Inr demo_store"
  using demo_opened_at [of 1] by (simp add: word_eq_iff_unsigned demo_store_def)

lemma demo_reopened:
  "from_product demo_families 2 1 demo_product = Inr (demo_store \<lparr>ds_mutation_epoch := 2, ds_next_epoch := 3\<rparr>)"
  using demo_opened_at [of 2] by (simp add: word_eq_iff_unsigned)

lemma demo_reachable: "reachable sha json demo_families valid_key demo_store"
  by (rule reachable.opened [OF _ demo_opened])
    (use demo_graph_ready [of "''0''"] in \<open>auto simp: graph_ready_def nodes_wf_def demo_product_def\<close>)

definition demo_delete :: "unit command_batch" where
  "demo_delete = \<lparr>cb_schema = COMMAND_SCHEMA_V1, cb_commands = [DeleteEvaluatorNode 2]\<rparr>"

lemma demo_deleted_ready: "graph_ready demo_identity [(1, (demo_parameter 1 []) \<lparr>en_kind := Parameter (Dimension ''0'' 0)\<rparr>)]"
proof -
  have "\<not> trim_is_empty ''width''" by (simp add: trim_is_empty_def str_chars_def is_whitespace_def)
  then show ?thesis
    by (simp add: graph_ready_def validate_graph_def validate_node_def validate_node_header_def demo_parameter_def
        deps_faithful_def kind_deps_def identity_validate_def demo_identity_def topo_defs bt_contains_def)
qed

lemma demo_parameter_name: "en_name (demo_parameter nid ds) = ''width''"
  by (simp add: demo_parameter_def)

lemma demo_delete_applies_at:
  assumes neq: "b \<noteq> - 1"
  shows "\<exists>r t. apply_batch_with sha demo_families demo_delete (Principal ManualClient) True
       (demo_store \<lparr>ds_mutation_epoch := a, ds_next_epoch := b\<rparr>) = Inr (r, t) \<and>
     bt_keys (rv_nodes r) = [1] \<and> fam_digest demo_families (sn_product (rv_snapshot r)) = ''width''"
proof -
  let ?nodes = "[(1, (demo_parameter 1 []) \<lparr>en_kind := Parameter (Dimension ''0'' 0)\<rparr>)] :: node_map"
  have v: "validate_graph ?nodes = Inr ()" using demo_deleted_ready by (simp add: graph_ready_def is_ok_unit_iff)
  have cl: "dependent_closure ?nodes [] = []"
    by (simp add: dependent_closure_def closure_loop.simps closure_pass_def closure_step_def demo_parameter_def)
  from evaluate_affected_run [OF demo_deleted_ready, where affected = "[]" and previous = None and sha = sha]
  obtain report where e: "evaluate_affected sha ?nodes demo_identity None [] = Inr report" by auto
  have d: "delete_evaluator_node (demo_graph ''0'') 2 = Inr ?nodes"
    by (simp add: delete_evaluator_node_def demo_graph_def bt_remove_def)
  show ?thesis
    by (simp add: apply_batch_with_def demo_delete_def demo_families_def current_revision_def current_def demo_store_def
        initial_revision_def demo_product_def start_edit_def edit_apply_def apply_evaluation_def on_nodes_def d
        check_product_def refresh_override_health_def lift_fault_def v validate_overrides_def bt_values_def
        checked_add_u64_def evaluate_batch_def evaluator_roots_def command_roots_def cl e publish_def
        push_revision_def fresh_mutation_epoch_def neq batch_revision_def bt_keys_def UNDO_REVISIONS_def demo_parameter_name)
qed

lemma demo_delete_applies:
  "\<exists>r t. apply_batch_with sha demo_families demo_delete (Principal ManualClient) True demo_store = Inr (r, t) \<and>
     fam_digest demo_families (sn_product (rv_snapshot r)) = ''width''"
  using demo_delete_applies_at [of 2 sha 1] by (auto simp: demo_store_def word_eq_iff_unsigned)

definition demo_set :: "unit command_batch" where
  "demo_set = \<lparr>cb_schema = COMMAND_SCHEMA_V1, cb_commands = [SetEvaluatorDimension 2 (Dimension ''0'' 0)]\<rparr>"

definition demo_set_graph :: node_map where
  "demo_set_graph =
     [(1, (demo_parameter 1 []) \<lparr>en_kind := Parameter (Dimension ''0'' 0)\<rparr>),
      (2, \<lparr>en_id = 2, en_name = ''half'', en_kind = Parameter (Dimension ''0'' 0),
           en_input_ports = [PortSpec ''node_1'' VNumber],
           en_output_ports = [PortSpec ''value'' VNumber], en_dependencies = [1]\<rparr>)]"

lemma demo_set_node: "set_evaluator_dimension (demo_graph ''0'') 2 (Dimension ''0'' 0) = Inr demo_set_graph"
proof -
  have "\<not> trim_is_empty ''half''" by (simp add: trim_is_empty_def str_chars_def is_whitespace_def)
  moreover have "nat_decimal (Suc 0) = ''1''" by (simp add: nat_decimal.simps char_of_def bit_0)
  moreover have "ensure_semantic_key ''node_1'' = Ok ()" "ensure_semantic_key ''value'' = Ok ()"
    by (simp_all add: ensure_semantic_key_def any_control_def str_chars_def is_control_def)
  ultimately show ?thesis
    by (simp add: set_evaluator_dimension_def lift_graph_def evaluator_node_parameter_def demo_graph_def
        demo_expression_def demo_set_graph_def validate_node_header_def dependency_ports_def port_spec_number_def)
qed

lemma demo_set_ready: "graph_ready demo_identity demo_set_graph"
proof -
  have "\<not> trim_is_empty ''width''" "\<not> trim_is_empty ''half''"
    by (simp_all add: trim_is_empty_def str_chars_def is_whitespace_def)
  then show ?thesis
    by (simp add: graph_ready_def validate_graph_def validate_node_def validate_node_header_def demo_parameter_def
        deps_faithful_def kind_deps_def identity_validate_def demo_identity_def topo_defs bt_contains_def demo_set_graph_def)
qed

lemma demo_set_applies:
  "\<exists>r t. apply_batch_with sha demo_families demo_set (Principal ManualClient) True demo_store = Inr (r, t)"
proof -
  have v: "validate_graph demo_set_graph = Inr ()" using demo_set_ready by (simp add: graph_ready_def is_ok_unit_iff)
  have cl: "dependent_closure demo_set_graph [2] = [2]"
    by (simp add: dependent_closure_def closure_loop.simps closure_pass_def closure_step_def demo_parameter_def
        demo_set_graph_def)
  from evaluate_affected_run [OF demo_set_ready, where affected = "[2]" and previous = None and sha = sha]
  obtain report where e: "evaluate_affected sha demo_set_graph demo_identity None [2] = Inr report"
    by (auto simp: demo_set_graph_def bt_keys_def)
  have neq: "(2 :: u64) \<noteq> - 1" by (simp add: word_eq_iff_unsigned)
  show ?thesis
    by (simp add: apply_batch_with_def demo_set_def demo_families_def current_revision_def current_def demo_store_def
        initial_revision_def demo_product_def start_edit_def edit_apply_def apply_evaluation_def on_nodes_def demo_set_node
        check_product_def refresh_override_health_def lift_fault_def v validate_overrides_def bt_values_def
        checked_add_u64_def evaluate_batch_def evaluator_roots_def command_roots_def cl e publish_def
        push_revision_def fresh_mutation_epoch_def neq UNDO_REVISIONS_def)
qed

section \<open>Properties\<close>



text \<open>
  C2.  A batch that is accepted publishes one revision, under the next id and the given origin,
  in front of which nothing can be redone and behind which the former revision can be reached by
  undo.  Its node graph is valid, every override's recorded health is what resolution gives on the
  new nodes and its parameter is declared, its evaluation holds only results of a full evaluation,
  and every node the revision lists as recomputed has a result.
\<close>

theorem apply_batch_correct:
  assumes "reachable sha json fam valid_key s" and "scopes_wf (cb_commands batch)"
    and "apply_batch_with sha fam batch origin drawings s = Inr (r, t)"
  shows "current_revision t = r \<and> store_ahead t = [] \<and> last (store_past t) = current_revision s \<and>
    rv_id r = ds_next_revision_id s \<and> ds_next_revision_id s < ds_next_revision_id t \<and>
    ds_mutation_epoch s < ds_mutation_epoch t \<and> rv_origin r = origin \<and> rv_checkpoint r = None \<and>
    ds_registry t = ds_registry s \<and> ds_policy t = ds_policy s \<and>
    is_ok (validate_graph (rv_nodes r)) \<and>
    (\<forall>ov\<in>set (bt_values (pm_overrides (sn_product (rv_snapshot r)))).
       ov_health ov = resolve_derived_identity (rv_nodes r) (ov_target ov) \<and>
       is_ok (validate_override (rv_nodes r) ov)) \<and>
    (\<exists>rep full. rv_evaluation r = Some rep \<and> evaluate_graph sha (rv_nodes r) (er_identity rep) = Inr full \<and>
       (\<forall>c e. bt_get (er_nodes rep) c = Some e \<longrightarrow> bt_get (er_nodes full) c = Some e) \<and>
       set (rv_recomputed_nodes r) \<subseteq> set (bt_keys (er_nodes rep)))"
proof -
  note b = batch_sound [OF reachable_store_inv [OF assms(1)] assms(2,3)]
  have last: "last (drop (Suc n - UNDO_REVISIONS) (xs @ [x])) = x" if "length xs = n" for n and xs :: "'z list" and x
    using that by (simp add: UNDO_REVISIONS_def last_drop)
  show ?thesis
    using b last [of "store_past s" "length (store_past s)" "current_revision s"]
    by (simp add: pushed_def report_sound_def) blast
qed

theorem apply_batch_correct_witness:
  "\<exists>r t. apply_batch_with (\<lambda>_. []) demo_families demo_delete (Principal ManualClient) True demo_store = Inr (r, t) \<and>
     current_revision t = r \<and> rv_id r = 2 \<and> last (store_past t) = current_revision demo_store \<and>
     is_ok (validate_graph (rv_nodes r))"
proof -
  from demo_delete_applies [of "\<lambda>_. []"] obtain r t where
    a: "apply_batch_with (\<lambda>_. []) demo_families demo_delete (Principal ManualClient) True demo_store = Inr (r, t)" by blast
  have "scopes_wf (cb_commands demo_delete)" by (simp add: demo_delete_def scopes_wf_def)
  from apply_batch_correct [OF demo_reachable [of "\<lambda>_. []" "\<lambda>_. []" "\<lambda>_. True"] this a] a show ?thesis
    by (auto simp: demo_store_def)
qed

text \<open>
  C7.  Undo and redo are inverse.  In a reachable store whose epoch counter is not used up, an
  undo is possible exactly if there is an earlier revision and redo then restores the same history
  and current revision; undo right after a batch restores the revision before it, with the batch's revision
  the only one to redo.  Each move takes a new mutation epoch and keeps ids, registry and policy.
\<close>

theorem undo_redo_inverse:
  assumes "reachable sha json fam valid_key s" and "unat (ds_next_epoch s) + 2 < 2 ^ 64"
  shows "(moved (undo s) = None \<longleftrightarrow> visible_undo_steps s = 0) \<and>
    (\<forall>t. moved (undo s) = Some t \<longrightarrow>
       (\<exists>u. moved (redo t) = Some u \<and> store_past u = store_past s \<and> current_revision u = current_revision s \<and>
          store_ahead u = store_ahead s \<and> ds_next_revision_id u = ds_next_revision_id s \<and>
          ds_mutation_epoch s < ds_mutation_epoch t \<and> ds_mutation_epoch t < ds_mutation_epoch u)) \<and>
    (\<forall>batch origin drawings r t u. scopes_wf (cb_commands batch) \<and>
       apply_batch_with sha fam batch origin drawings s = Inr (r, t) \<and> moved (undo t) = Some u \<longrightarrow>
       current u = current s \<and> store_ahead u = [r])"
proof -
  have inv: "store_inv sha s" by (rule reachable_store_inv [OF assms(1)])
  then have wf: "cursor_wf s" and ep: "ds_mutation_epoch s < ds_next_epoch s" by (auto simp: store_inv_def)
  have e1: "unat (ds_next_epoch s + 1) = unat (ds_next_epoch s) + 1"
    using assms(2) by (simp add: unat_word_ariths)
  have ne: "ds_next_epoch s \<noteq> - 1" "ds_next_epoch s + 1 \<noteq> - 1"
  proof -
    have m: "unat (- 1 :: u64) = 2 ^ 64 - 1" by (simp add: unsigned_minus_1_eq_mask mask_eq_exp_minus_1)
    show "ds_next_epoch s \<noteq> - 1" using assms(2) m by auto
    show "ds_next_epoch s + 1 \<noteq> - 1"
    proof
      assume "ds_next_epoch s + 1 = - 1"
      then have "unat (ds_next_epoch s + 1) = 2 ^ 64 - 1" by (metis m)
      then show False using e1 assms(2) by simp
    qed
  qed
  have 1: "moved (undo s) = None \<longleftrightarrow> visible_undo_steps s = 0"
    using ne by (auto simp: moved_def undo_def fresh_mutation_epoch_def visible_undo_steps_def)
  have 2: "\<exists>u. moved (redo t) = Some u \<and> store_past u = store_past s \<and> current_revision u = current_revision s \<and>
      store_ahead u = store_ahead s \<and> ds_next_revision_id u = ds_next_revision_id s \<and>
      ds_mutation_epoch s < ds_mutation_epoch t \<and> ds_mutation_epoch t < ds_mutation_epoch u"
    if t: "moved (undo s) = Some t" for t
  proof -
    let ?u = "t \<lparr>ds_cursor := ds_cursor t + 1, ds_mutation_epoch := ds_next_epoch t, ds_next_epoch := ds_next_epoch t + 1\<rparr>"
    have u: "moved (redo t) = Some ?u"
      using t wf ne by (auto simp: moved_redo moved_undo cursor_wf_def)
    have "dh.view ?u = dh.view s" by (rule dh.advance_after_rewind [OF wf t u])
    moreover have "ds_mutation_epoch t < ds_next_epoch t" "ds_mutation_epoch s < ds_mutation_epoch t"
      "ds_next_revision_id t = ds_next_revision_id s"
      using t ep epoch_less [OF ne(1)] by (auto simp: moved_undo)
    ultimately show ?thesis using u by (auto simp: dh.view_def)
  qed
  have 3: "current u = current s \<and> store_ahead u = [r]"
    if b: "scopes_wf (cb_commands batch)" "apply_batch_with sha fam batch origin drawings s = Inr (r, t)"
      "moved (undo t) = Some u" for batch origin drawings r t u
  proof -
    have p: "pushed s r t" using batch_sound [OF inv b(1,2)] by blast
    have wft: "cursor_wf t" using batch_inv [OF inv b(1,2)] by (simp add: store_inv_def)
    from dh.rewind_view [OF wft b(3)] p have "store_past t = store_past u @ [current_revision u]" "store_ahead u = [r]"
      by (auto simp: pushed_def)
    moreover have "last (store_past t) = current_revision s"
      using p by (auto simp: pushed_def UNDO_REVISIONS_def last_drop)
    ultimately show ?thesis by (auto simp: current_def)
  qed
  show ?thesis using 1 2 3 by blast
qed

theorem undo_redo_inverse_witness:
  "\<exists>r t u. apply_batch_with (\<lambda>_. []) demo_families demo_delete (Principal ManualClient) True demo_store = Inr (r, t) \<and>
     moved (undo t) = Some u \<and> current u = current demo_store \<and> store_ahead u = [r]"
proof -
  from demo_delete_applies [of "\<lambda>_. []"] obtain r t where
    a: "apply_batch_with (\<lambda>_. []) demo_families demo_delete (Principal ManualClient) True demo_store = Inr (r, t)" by blast
  have w: "scopes_wf (cb_commands demo_delete)" by (simp add: demo_delete_def scopes_wf_def)
  have "pushed demo_store r t"
    using batch_sound [OF reachable_store_inv [OF demo_reachable [of "\<lambda>_. []" "\<lambda>_. []" "\<lambda>_. True"]] w a] by blast
  have "ds_cursor t \<noteq> 0 \<and> ds_next_epoch t \<noteq> - 1"
    by (rule apply_batch_Inr [OF a], erule publish_Inr)
      (auto simp: push_revision_def Let_def demo_store_def UNDO_REVISIONS_def word_eq_iff_unsigned)
  then obtain u where "moved (undo t) = Some u" by (auto simp: moved_undo)
  with undo_redo_inverse [OF demo_reachable [of "\<lambda>_. []" "\<lambda>_. []" "\<lambda>_. True"]] w a show ?thesis
    by (auto simp: demo_store_def)
qed


text \<open>
  C10.  A transaction is atomic.  Whatever its body did, if the body or the final check fails,
  the transaction returns that error with revisions, cursor, next id, registry and approval policy
  as before; only the mutation epoch stays where the body left it.  If both succeed, the store is
  the one the body left.  Either way the store is one a session can reach.
\<close>

theorem transaction_atomic:
  assumes "reachable sha json fam valid_key s" and "reachable sha json fam valid_key (snd (mutate s))"
    and "try_canonical_transaction mutate finalize s = (outcome, t)"
  shows "reachable sha json fam valid_key t \<and>
    (case outcome of
       Inr result \<Rightarrow> fst (mutate s) = Inr result \<and> finalize t = Inr () \<and> t = snd (mutate s)
     | Inl e \<Rightarrow>
         (fst (mutate s) = Inl e \<or> is_ok (fst (mutate s)) \<and> finalize (snd (mutate s)) = Inl e) \<and>
         ds_revisions t = ds_revisions s \<and> ds_cursor t = ds_cursor s \<and> current t = current s \<and>
         ds_next_revision_id t = ds_next_revision_id s \<and> ds_registry t = ds_registry s \<and> ds_policy t = ds_policy s \<and>
         ds_mutation_epoch t = ds_mutation_epoch (snd (mutate s)))"
proof -
  have "reachable sha json fam valid_key t"
    using transaction_reachable [where mutate = mutate and finalize = finalize, OF assms(1,2)] assms(3) by simp
  moreover obtain result u where m: "mutate s = (result, u)" by (cases "mutate s")
  ultimately show ?thesis
    using assms(3)
    by (cases result; cases "finalize u")
      (auto simp: try_canonical_transaction_def restore_state_def current_def current_revision_def)
qed

theorem transaction_atomic_witness:
  "try_canonical_transaction (\<lambda>s. (Inl InvalidScope :: confirmation_error + unit, discard_history_before_current s))
     (\<lambda>_. Inr ()) demo_store = (Inl InvalidScope, demo_store)"
proof -
  let ?m = "\<lambda>s. (Inl InvalidScope :: confirmation_error + unit, discard_history_before_current s)"
  note r = demo_reachable [of "\<lambda>_. []" "\<lambda>_. []" "\<lambda>_. True"]
  obtain outcome t where t: "try_canonical_transaction ?m (\<lambda>_. Inr ()) demo_store = (outcome, t)" by fastforce
  then have o: "outcome = Inl InvalidScope" by (auto simp: try_canonical_transaction_def)
  have "reachable (\<lambda>_. []) (\<lambda>_. []) demo_families (\<lambda>_. True) (snd (?m demo_store))"
    by (simp add: reachable.discarded [OF r])
  from transaction_atomic [OF r this t] o t show ?thesis
    by (auto simp: try_canonical_transaction_def restore_state_def discard_history_before_current_def)
qed

text \<open>
  C26.  Rollback appends: it is accepted exactly if the caller names the current revision and its
  digest, is identified, and names a revision of the history that differs from the current one in
  content or program (ids and epochs left permitting).  It then publishes a new revision with the
  target's content and program under the next id, records who rolled back to what, and clears the
  registry of evaluations.
\<close>

theorem rollback_correct:
  assumes "reachable sha json fam valid_key s"
  shows "(is_ok (rollback_to_revision sha fam rid digest target who s) \<longleftrightarrow>
      rv_id (current_revision s) = rid \<and> fam_digest fam (sn_product (current s)) = digest \<and>
      who \<noteq> Human 0 \<and> who \<noteq> Plugin 0 \<and>
      (\<exists>tr\<in>set (ds_revisions s). rv_id tr = target \<and>
        \<not> (fam_digest fam (sn_product (rv_snapshot tr)) = digest \<and>
            programs_equal (rv_rule_program tr) (rv_rule_program (current_revision s)))) \<and>
      checked_add_u64 (ds_next_revision_id s) 1 \<noteq> None \<and> ds_next_epoch s \<noteq> - 1) \<and>
    (\<forall>r t. rollback_to_revision sha fam rid digest target who s = Inr (r, t) \<longrightarrow>
      reachable sha json fam valid_key t \<and> pushed s r t \<and> ds_registry t = [] \<and>
      rv_origin r = Rollback who target \<and> rv_checkpoint r = None \<and>
      (\<exists>tr\<in>set (ds_revisions s). rv_id tr = target \<and> sn_product (rv_snapshot r) = sn_product (rv_snapshot tr) \<and>
        rv_rule_program r = rv_rule_program tr))"
proof -
  have inv: "store_inv sha s" by (rule reachable_store_inv [OF assms])
  have "is_ok (rollback_to_revision sha fam rid digest target who s) \<longleftrightarrow>
      rv_id (current_revision s) = rid \<and> fam_digest fam (sn_product (current s)) = digest \<and> principal_identified who \<and>
      (\<exists>tr. find_revision target s = Some tr \<and>
        \<not> (fam_digest fam (sn_product (rv_snapshot tr)) = digest \<and>
            programs_equal (rv_rule_program tr) (rv_rule_program (current_revision s)))) \<and>
      checked_add_u64 (ds_next_revision_id s) 1 \<noteq> None \<and> ds_next_epoch s \<noteq> - 1"
    using rollback_ok_iff by blast
  moreover have "reachable sha json fam valid_key t \<and> pushed s r t \<and> ds_registry t = [] \<and>
      rv_origin r = Rollback who target \<and> rv_checkpoint r = None \<and>
      (\<exists>tr\<in>set (ds_revisions s). rv_id tr = target \<and> sn_product (rv_snapshot r) = sn_product (rv_snapshot tr) \<and>
        rv_rule_program r = rv_rule_program tr)"
    if "rollback_to_revision sha fam rid digest target who s = Inr (r, t)" for r t
    using rollback_pushed [OF inv that] reachable.rolled [OF assms that] find_revision_in by blast
  ultimately show ?thesis unfolding find_revision_iff [OF inv] principal_identified_def by blast
qed

theorem rollback_correct_witness:
  "\<exists>u r t. reachable (\<lambda>_. []) (\<lambda>_. []) demo_families (\<lambda>_. True) u \<and>
     rollback_to_revision (\<lambda>_. []) demo_families 2 ''width'' 1 (Human 7) u = Inr (r, t) \<and>
     rv_id r = 3 \<and> sn_product (rv_snapshot r) = demo_product \<and> rv_origin r = Rollback (Human 7) 1"
proof -
  note dr = demo_reachable [of "\<lambda>_. []" "\<lambda>_. []" "\<lambda>_. True"]
  from demo_delete_applies [of "\<lambda>_. []"] obtain r0 u where
    a: "apply_batch_with (\<lambda>_. []) demo_families demo_delete (Principal ManualClient) True demo_store = Inr (r0, u)"
    and w: "fam_digest demo_families (sn_product (rv_snapshot r0)) = ''width''" by blast
  have "reachable (\<lambda>_. []) (\<lambda>_. []) demo_families (\<lambda>_. True) u"
    by (rule reachable.batched [OF dr _ a]) (simp add: demo_delete_def scopes_wf_def)
  note rc = rollback_correct [OF this, of 2 "''width''" 1 "Human 7"]
  have u: "ds_revisions u = [initial_revision 1 demo_product (), r0] \<and> ds_cursor u = 1 \<and>
      ds_next_revision_id u = 3 \<and> ds_next_epoch u = 3 \<and> rv_id r0 = 2"
    by (rule apply_batch_Inr [OF a], erule publish_Inr)
      (auto simp: push_revision_def Let_def demo_store_def UNDO_REVISIONS_def batch_revision_def checked_add_u64_def)
  have "fam_digest demo_families demo_product \<noteq> ''width''"
    by (simp add: demo_families_def demo_product_def demo_graph_def demo_parameter_def demo_expression_def bt_values_def)
  with u w rc have "is_ok (rollback_to_revision (\<lambda>_. []) demo_families 2 ''width'' 1 (Human 7) u)"
    by (auto simp: current_def current_revision_def initial_revision_def checked_add_u64_def word_eq_iff_unsigned)
  then obtain r t where rt: "rollback_to_revision (\<lambda>_. []) demo_families 2 ''width'' 1 (Human 7) u = Inr (r, t)"
    by (auto simp: is_ok_iff)
  with rc u have "rv_id r = 3" "sn_product (rv_snapshot r) = demo_product" "rv_origin r = Rollback (Human 7) 1"
    by (auto simp: pushed_def initial_revision_def)
  with rt \<open>reachable _ _ _ _ u\<close> show ?thesis by blast
qed

text \<open>
  Every node that a command of an accepted batch creates, renames or sets is in the
  published revision.  So a batch that edits a node and deletes it later on is never accepted.
\<close>

theorem batch_keeps_edited_nodes:
  assumes "reachable sha json fam valid_key s" and "scopes_wf (cb_commands batch)"
    and "apply_batch_with sha fam batch origin drawings s = Inr (r, t)"
    and "command \<in> set (cb_commands batch)" and "command_id command = Some c"
  shows "bt_contains (rv_nodes (current_revision t)) c"
  using batch_wrote_contained [OF reachable_store_inv [OF assms(1)] assms(2-5)]
    batch_sound [OF reachable_store_inv [OF assms(1)] assms(2,3)]
  by (simp add: pushed_def)

theorem batch_keeps_edited_nodes_witness:
  "\<exists>r t. apply_batch_with (\<lambda>_. []) demo_families demo_set (Principal ManualClient) True demo_store = Inr (r, t) \<and>
     bt_contains (rv_nodes (current_revision t)) 2"
proof -
  from demo_set_applies [of "\<lambda>_. []"] obtain r t where
    a: "apply_batch_with (\<lambda>_. []) demo_families demo_set (Principal ManualClient) True demo_store = Inr (r, t)" by blast
  have "scopes_wf (cb_commands demo_set)" by (simp add: demo_set_def scopes_wf_def)
  from batch_keeps_edited_nodes [OF demo_reachable [of "\<lambda>_. []" "\<lambda>_. []" "\<lambda>_. True"] this a,
      of "SetEvaluatorDimension 2 (Dimension ''0'' 0)" 2] a
  show ?thesis by (simp add: demo_set_def command_id_def)
qed

text \<open>
   The batch that sets node 2 and deletes it again: either command alone is accepted, both in one
  batch are refused with \<^verbatim>\<open>MissingDependency\<close> for the deleted node.
\<close>

theorem set_then_delete_refused:
  "is_ok (apply_batch_with sha demo_families demo_set (Principal ManualClient) True demo_store) \<and>
   is_ok (apply_batch_with sha demo_families demo_delete (Principal ManualClient) True demo_store) \<and>
   apply_batch_with sha demo_families
     \<lparr>cb_schema = COMMAND_SCHEMA_V1, cb_commands = cb_commands demo_set @ cb_commands demo_delete\<rparr>
     (Principal ManualClient) True demo_store = Inl (Returned (GraphFault (MissingDependency 2)))"
proof -
  let ?nodes = "[(1, (demo_parameter 1 []) \<lparr>en_kind := Parameter (Dimension ''0'' 0)\<rparr>)] :: node_map"
  have v: "validate_graph ?nodes = Inr ()" using demo_deleted_ready by (simp add: graph_ready_def is_ok_unit_iff)
  have cl: "dependent_closure ?nodes [2] = [2]"
    by (simp add: dependent_closure_def closure_loop.simps closure_pass_def closure_step_def demo_parameter_def)
  have e: "evaluate_affected sha ?nodes demo_identity None [2] = Inl (Returned (MissingDependency 2))"
    using evaluate_affected_missing [OF demo_deleted_ready, of _ "[2]" sha None] by (auto simp: bt_keys_def)
  have d: "delete_evaluator_node demo_set_graph 2 = Inr ?nodes"
    by (simp add: delete_evaluator_node_def demo_set_graph_def bt_remove_def)
  have "apply_batch_with sha demo_families
     \<lparr>cb_schema = COMMAND_SCHEMA_V1, cb_commands = cb_commands demo_set @ cb_commands demo_delete\<rparr>
     (Principal ManualClient) True demo_store = Inl (Returned (GraphFault (MissingDependency 2)))"
    by (simp add: apply_batch_with_def demo_set_def demo_delete_def demo_families_def current_revision_def current_def
        demo_store_def initial_revision_def demo_product_def start_edit_def edit_apply_def apply_evaluation_def
        on_nodes_def demo_set_node d check_product_def refresh_override_health_def lift_fault_def v
        validate_overrides_def bt_values_def checked_add_u64_def evaluate_batch_def evaluator_roots_def
        command_roots_def cl e)
  with demo_set_applies [of sha] demo_delete_applies [of sha] show ?thesis by (auto simp: is_ok_iff)
qed

text \<open>
  Restoring a stored history keeps the revision at the cursor current, at most the thirty
  revisions before it for undo and at most the thirty after it for redo, in order, each with its
  stored snapshot, origin, checkpoint and program.
\<close>

theorem restored_history_window:
  assumes "cursor < length revisions" and "from_revision_history sha json epoch revisions cursor next_id = Inr s"
  shows "current_revision s = restore_revision sha json (revisions ! cursor) \<and>
    store_past s = map (restore_revision sha json) (drop (cursor - 30) (take cursor revisions)) \<and>
    store_ahead s = map (restore_revision sha json) (take 30 (drop (cursor + 1) revisions)) \<and>
    visible_undo_steps s = min cursor 30 \<and> visible_redo_steps s = min (length revisions - cursor - 1) 30 \<and>
    ds_next_revision_id s = next_id"
proof -
  let ?f = "cursor - UNDO_REVISIONS"
  let ?w = "take (cursor - ?f + UNDO_REVISIONS + 1) (drop ?f revisions)"
  from assms(2) have s: "ds_revisions s = map (restore_revision sha json) ?w" "ds_cursor s = cursor - ?f"
    "ds_next_revision_id s = next_id"
    by (auto simp: from_revision_history_def opened_store_def fresh_mutation_epoch_def Let_def split: if_splits)
  have le: "?f \<le> cursor" by simp
  have past: "take (cursor - ?f) ?w = drop ?f (take cursor revisions)" by (simp add: drop_take min_def)
  have ahead: "drop (cursor - ?f + 1) ?w = take UNDO_REVISIONS (drop (cursor + 1) revisions)"
    using le by (simp add: drop_take)
  have cur: "?w ! (cursor - ?f) = revisions ! cursor" and len: "cursor - ?f < length ?w" using assms(1) le by auto
  have 1: "current_revision s = restore_revision sha json (revisions ! cursor)"
    unfolding current_revision_def s nth_map [OF len] cur ..
  have 2: "store_past s = map (restore_revision sha json) (drop ?f (take cursor revisions))"
    unfolding store_past_def s take_map past ..
  have 3: "store_ahead s = map (restore_revision sha json) (take UNDO_REVISIONS (drop (cursor + 1) revisions))"
    unfolding store_ahead_def s drop_map ahead ..
  have 4: "visible_undo_steps s = min cursor 30" by (simp add: visible_undo_steps_def s UNDO_REVISIONS_def)
  have "visible_redo_steps s = length (store_ahead s)" by (simp add: visible_redo_steps_def store_ahead_def)
  then have 5: "visible_redo_steps s = min (length revisions - cursor - 1) 30" by (simp add: 3 UNDO_REVISIONS_def)
  show ?thesis using 1 2 3 4 5 s(3) by (simp add: UNDO_REVISIONS_def)
qed

theorem restored_history_window_witness:
  "\<exists>s. from_revision_history (\<lambda>_. []) (\<lambda>_. []) 1
        (replicate 45 (\<lparr>sn_revision_id = 1, sn_product = demo_product\<rparr>, (), [], Initial, None, None)) 40 50 =
      (Inr s :: canonical_error fault + _) \<and> visible_undo_steps s = 30 \<and> visible_redo_steps s = 4"
proof -
  let ?h = "replicate 45 (\<lparr>sn_revision_id = 1, sn_product = demo_product\<rparr>, (), [], Initial, None, None)
    :: (unit, unit) stored_revision list"
  have "(1 :: u64) \<noteq> - 1" by (simp add: word_eq_iff_unsigned)
  then obtain s where s: "from_revision_history (\<lambda>_. []) (\<lambda>_. []) 1 ?h 40 50 = Inr s"
    by (simp add: from_revision_history_def opened_store_def fresh_mutation_epoch_def Let_def)
  from restored_history_window [OF _ s] show ?thesis by (intro exI [of _ s] conjI s) simp_all
qed





text \<open>
  Registering an evaluation.  What is registered is what a fresh evaluation of the current
  snapshot under the report's identity gives for that output: the key carries its digests, whatever the
  caller's report claimed, and nothing but the registry changes.  Conversely an honest report, the
  snapshot's own evaluation, is accepted for every output that resolves and has a value.
\<close>

theorem register_evaluation_correct:
  assumes "reachable sha json fam valid_key s"
  shows "(register_evaluation sha fam root path report s = Inr (key, t) \<longrightarrow>
      (\<exists>full o1. evaluate_graph sha (rv_nodes (current_revision s)) (er_identity report) = Inr full \<and>
        resolve_derived_identity (rv_nodes (current_revision s)) (DerivedIdentity root path) = Resolved \<and>
        bt_get (er_outputs full) (DerivedIdentity root path) = Some o1 \<and>
        key = DerivedResultKey (fam_document fam (pm_rest (sn_product (current s)))) (rv_id (current_revision s))
          (DerivedIdentity root path) (do_input_digest o1) (do_result_digest o1) (er_identity report) \<and>
        t = s \<lparr>ds_registry := registry_insert key (fam_digest fam (sn_product (current s))) (ds_registry s)\<rparr>)) \<and>
    (snapshot_evaluate sha fam (current s) (er_identity report) = Inr report \<and>
      bt_get (rv_nodes (current_revision s)) root = Some node \<and> is_rule node \<and> root \<noteq> 0 \<and> segments path \<noteq> [] \<and>
      resolve_derived_identity (rv_nodes (current_revision s)) (DerivedIdentity root path) = Resolved \<and>
      bt_get (er_nodes report) root = Some e \<and> ne_status e = Evaluated v \<longrightarrow>
      is_ok (register_evaluation sha fam root path report s))"
proof (intro conjI impI)
  have ok: "revision_ok sha (current_revision s)" by (rule inv_current [OF reachable_store_inv [OF assms]])
  then have rid: "sn_revision_id (current s) = rv_id (current_revision s)" by (simp add: revision_ok_def current_def)
  assume reg: "register_evaluation sha fam root path report s = Inr (key, t)"
  show "\<exists>full o1. evaluate_graph sha (rv_nodes (current_revision s)) (er_identity report) = Inr full \<and>
        resolve_derived_identity (rv_nodes (current_revision s)) (DerivedIdentity root path) = Resolved \<and>
        bt_get (er_outputs full) (DerivedIdentity root path) = Some o1 \<and>
        key = DerivedResultKey (fam_document fam (pm_rest (sn_product (current s)))) (rv_id (current_revision s))
          (DerivedIdentity root path) (do_input_digest o1) (do_result_digest o1) (er_identity report) \<and>
        t = s \<lparr>ds_registry := registry_insert key (fam_digest fam (sn_product (current s))) (ds_registry s)\<rparr>"
    by (rule register_Inr [OF reg]) (auto simp: output_eq_def rid [unfolded current_def] current_def)
next
  assume h: "snapshot_evaluate sha fam (current s) (er_identity report) = Inr report \<and>
      bt_get (rv_nodes (current_revision s)) root = Some node \<and> is_rule node \<and> root \<noteq> 0 \<and> segments path \<noteq> [] \<and>
      resolve_derived_identity (rv_nodes (current_revision s)) (DerivedIdentity root path) = Resolved \<and>
      bt_get (er_nodes report) root = Some e \<and> ne_status e = Evaluated v"
  have ok: "revision_ok sha (current_revision s)" by (rule inv_current [OF reachable_store_inv [OF assms]])
  from h obtain full where full: "evaluate_graph sha (rv_nodes (current_revision s)) (er_identity report) = Inr full"
    and nodes: "er_nodes report = er_nodes full" "er_outputs report = er_outputs full"
    and env: "er_document_id report = Some (fam_document fam (pm_rest (sn_product (current s))))"
      "er_revision_id report = Some (sn_revision_id (current s))"
      "er_canonical_digest report = Some (fam_digest fam (sn_product (current s)))"
    by (auto simp: snapshot_evaluate_Inr current_def)
  have ready: "graph_ready (er_identity report) (rv_nodes (current_revision s))"
    using evaluate_graph_Inr [OF _ full] ok by (simp add: revision_ok_def)
  have wf: "bt_wf (rv_nodes (current_revision s))" "\<forall>e\<in>set (rv_nodes (current_revision s)). node_ok (fst e) (snd e)"
    using graph_readyD [OF ready] by metis+
  have "bt_get (er_outputs full) (DerivedIdentity root path) =
      output_at (er_nodes full) (rv_nodes (current_revision s)) (DerivedIdentity root path)"
    using evaluate_graph_run [OF ready, of sha] full by auto
  then have "bt_get (er_outputs report) (DerivedIdentity root path) = Some (output_of e v)"
    using output_resolves(2) [OF wf, of "DerivedIdentity root path" "er_nodes full" e v] h nodes by simp
  moreover have "\<not> f64_is_nan v"
    using rule_value_finite [of sha "er_identity report" "rv_nodes (current_revision s)" "er_nodes full" root node e v]
      evaluate_graph_Inr [OF _ full] ok h nodes
    by (auto simp: f64_is_finite_def f64_is_nan_def revision_ok_def)
  ultimately have "check_evidence report report (DerivedIdentity root path) = Inr (output_of e v)"
    using h by (intro honest_evidence) auto
  then show "is_ok (register_evaluation sha fam root path report s)"
    using h env by (simp add: register_evaluation_def Let_def derived_identity_new_def current_def)
qed


definition demo_rule_graph :: node_map where
  "demo_rule_graph =
     [(1, \<lparr>en_id = 1, en_name = ''rule'', en_kind = Rule ''0'' (Number 0) [RuleOutput (SlotSegment 1 ''value'' ''k'') []] [],
           en_input_ports = [], en_output_ports = [PortSpec ''value'' VNumber], en_dependencies = []\<rparr>)]"

lemma demo_rule_ready: "graph_ready demo_identity demo_rule_graph"
proof -
  have "\<not> trim_is_empty ''rule''" by (simp add: trim_is_empty_def str_chars_def is_whitespace_def)
  then show ?thesis
    by (simp add: graph_ready_def validate_graph_def validate_node_def validate_node_header_def validate_rule_outputs_def
        push_children_def MAX_RULE_OUTPUTS_def MAX_RULE_OUTPUT_DEPTH_def ast_dependencies_def
        deps_faithful_def kind_deps_def identity_validate_def demo_identity_def topo_defs bt_contains_def demo_rule_graph_def)
qed

theorem register_evaluation_correct_witness:
  "\<exists>s report. reachable (\<lambda>_. []) (\<lambda>_. []) demo_families (\<lambda>_. True) s \<and>
     snapshot_evaluate (\<lambda>_. []) demo_families (current s) demo_identity = Inr report \<and>
     is_ok (register_evaluation (\<lambda>_. []) demo_families 1 (SlotPath [SlotSegment 1 ''value'' ''k'']) report s)"
proof -
  let ?product = "\<lparr>pm_nodes = demo_rule_graph, pm_overrides = [], pm_rest = ()\<rparr>"
  let ?path = "SlotPath [SlotSegment 1 ''value'' ''k'']"
  have v: "validate_graph demo_rule_graph = Inr ()" using demo_rule_ready by (simp add: graph_ready_def is_ok_unit_iff)
  have "(1 :: u64) \<noteq> - 1" by (simp add: word_eq_iff_unsigned)
  with v obtain s where s: "from_product demo_families 1 1 ?product = Inr s"
    and cur: "rv_snapshot (current_revision s) = \<lparr>sn_revision_id = 1, sn_product = ?product\<rparr>"
    by (auto simp: from_product_def demo_families_def lift_fault_def validate_overrides_def bt_values_def
        checked_add_u64_def opened_store_def fresh_mutation_epoch_def current_revision_def initial_revision_def)
  have r: "reachable (\<lambda>_. []) (\<lambda>_. []) demo_families (\<lambda>_. True) s"
    by (rule reachable.opened [OF _ s]) (use demo_rule_ready in \<open>simp add: graph_ready_def nodes_wf_def\<close>)
  from evaluate_graph_run [OF demo_rule_ready, of "\<lambda>_. []"] obtain full where
    full: "evaluate_graph (\<lambda>_. []) demo_rule_graph demo_identity = Inr full" "er_identity full = demo_identity"
    "evaluated (\<lambda>_. []) demo_identity demo_rule_graph (er_nodes full)" by blast
  let ?report = "full \<lparr>er_document_id := Some 1, er_revision_id := Some 1,
    er_canonical_digest := Some (fam_digest demo_families ?product)\<rparr>"
  have e: "snapshot_evaluate (\<lambda>_. []) demo_families (current s) (er_identity ?report) = Inr ?report"
    using full by (simp add: snapshot_evaluate_Inr current_def cur demo_families_def)
  obtain ev where ev: "bt_get (er_nodes ?report) 1 = Some ev" "ne_status ev = Evaluated 0"
    using full(3) by (auto simp: evaluated_def demo_rule_graph_def node_result_def evaluation_of_def kind_value_def
        finite_or_error_def f64_is_finite_def f64_exponent_def status_of_def)
  have res: "resolve_derived_identity demo_rule_graph (DerivedIdentity 1 ?path) = Resolved"
    by (simp add: resolve_derived_identity_def demo_rule_graph_def is_rule_def resolve_slot_path_def resolve_outputs_def)
  have "is_ok (register_evaluation (\<lambda>_. []) demo_families 1 ?path ?report s)"
    using register_evaluation_correct [OF r, of 1 ?path ?report _ _ "snd (hd demo_rule_graph)" ev 0] e ev res
    by (simp add: cur demo_rule_graph_def is_rule_def)
  with r e full(2) show ?thesis by auto
qed

end
