(* ===== verification/Ketchup_Proposal.thy ===== *)
theory Ketchup_Proposal
  imports Ketchup_History
begin

text \<open>
  Proposals and approvals: \<^verbatim>\<open>document/proposal.rs\<close>, the proposal data of \<^verbatim>\<open>document/command.rs\<close>,
  the candidate functions of \<^verbatim>\<open>document/proposal_analysis.rs\<close> and the proposal half of
  \<^verbatim>\<open>document/store.rs\<close>.  A proposal is prepared against a snapshot, replayed in an isolated store
  when it is verified, and committed with a comparison of the result; a high-risk one needs a token
  a person signed for exactly that proposal, which is accepted once.

  The dependency analysis (which targets a batch reads and writes, their digest and their value in a
  snapshot) is the record \<open>analysis\<close>; Ed25519 (the \<^verbatim>\<open>ed25519_dalek\<close> crate) is the argument \<open>verify\<close>,
  respectively \<open>sign\<close>.  An operation that takes \<^verbatim>\<open>&mut self\<close> returns its result with the store it
  leaves.
\<close>

section \<open>Data\<close>

record proposal_budget =
  max_commands :: nat
  max_read_dependencies :: nat
  max_write_targets :: nat

definition HOST_MAX :: proposal_budget where
  "HOST_MAX = \<lparr>max_commands = 512, max_read_dependencies = 1024, max_write_targets = 1024\<rparr>"

definition RULE_PROGRAM :: proposal_budget where
  "RULE_PROGRAM = \<lparr>max_commands = 200000, max_read_dependencies = 200000, max_write_targets = 200000\<rparr>"

definition DRAWING_PROFILES :: nat where "DRAWING_PROFILES = 50000"

definition DRAWING_IMPORT :: proposal_budget where
  "DRAWING_IMPORT =
     \<lparr>max_commands = 3 * DRAWING_PROFILES + 1, max_read_dependencies = 12 * DRAWING_PROFILES,
      max_write_targets = 12 * DRAWING_PROFILES\<rparr>"

record proposal_cost =
  pc_commands :: nat
  pc_read_dependencies :: nat
  pc_write_targets :: nat

datatype high_risk_class =
    DestructiveBulkChange
  | Overwrite
  | LossyConversion
  | ExternalDisclosure
  | ReleaseManufacturingExportWithWarnings
  | CapabilityExpansion

datatype proposal_risk = Standard | High high_risk_class

record high_risk_scope =
  hs_class :: high_risk_class
  hs_destination :: "str option"
  hs_provider :: "str option"
  hs_path :: "str option"

datatype proposal_confirmation = ReviewRequired | HumanOnly high_risk_scope

datatype proposal_goal =
    CanonicalPreview
  | SetRuleDimension node_id
  | SetFeatureDimension u64
  | SetOccurrenceParent u64
  | DeleteOccurrence u64

datatype 'd proposal_assumption = TargetExists 'd | TargetMissing 'd | TargetHasDimension 'd

record 'd proposal_context =
  px_principal :: principal
  px_goal :: proposal_goal
  px_assumptions :: "'d proposal_assumption list"
  px_risk :: proposal_risk
  px_confirmation :: proposal_confirmation
  px_budget :: proposal_budget

record ('d, 'v) diff_entry =
  df_target :: 'd
  df_before :: 'v
  df_after :: 'v

record ('c, 'd, 'v) proposal =
  pr_document :: document_id
  pr_revision :: u64
  pr_provenance_digest :: str
  pr_batch :: "'c command_batch"
  pr_command_digest :: str
  pr_dependencies :: "'d list"
  pr_writes :: "'d list"
  pr_dependency_digest :: str
  pr_diff :: "('d, 'v) diff_entry list"
  pr_result_digest :: str
  pr_principal :: principal
  pr_goal :: proposal_goal
  pr_assumptions :: "'d proposal_assumption list"
  pr_risk :: proposal_risk
  pr_confirmation :: proposal_confirmation
  pr_budget :: proposal_budget
  pr_cost :: proposal_cost

datatype proposal_validity = Valid u64 | Stale u64 u64

datatype proposal_prepare_error =
    HostBudgetExceeded
  | RequestedBudgetExceeded proposal_budget proposal_cost
  | Confirmation confirmation_error
  | PrepareCanonical canonical_error

datatype proposal_commit_error =
    CommitStale proposal_validity
  | Preparation proposal_prepare_error
  | CommitCanonical canonical_error
  | VerificationMismatch
  | HumanApprovalRequired
  | HumanApprovalUnexpected
  | HumanApprovalPolicyUnavailable
  | HumanApprovalPolicyStale
  | HumanApprovalInvalid
  | HumanApprovalReplayed

record ('r, 'c, 'd, 'v) analysis =
  an_dependencies :: "'r snapshot \<Rightarrow> 'c command_batch \<Rightarrow> 'd list"
  an_writes :: "'r snapshot \<Rightarrow> 'c command_batch \<Rightarrow> 'd list"
  an_digest :: "'r product \<Rightarrow> 'd list \<Rightarrow> str"
  an_value :: "'r snapshot \<Rightarrow> 'd \<Rightarrow> proposal_goal \<Rightarrow> 'v"

record ('r, 'f, 'd) verified_commit =
  vc_revision :: "('r, 'f) revision"
  vc_command_digest :: str
  vc_result_digest :: str
  vc_writes :: "'d list"

section \<open>Checks of a request\<close>

definition scope_text_ok :: "str option \<Rightarrow> bool" where
  "scope_text_ok value =
     (case value of None \<Rightarrow> True | Some s \<Rightarrow> s \<noteq> [] \<and> length s \<le> 1024 \<and> \<not> any_control s)"

definition high_risk_scope_new ::
  "high_risk_class \<Rightarrow> str option \<Rightarrow> str option \<Rightarrow> str option \<Rightarrow> confirmation_error + high_risk_scope" where
  "high_risk_scope_new class destination provider path =
     and_then (guard (list_all scope_text_ok [destination, provider, path]) InvalidScope) (\<lambda>_.
     and_then (guard (\<not> (class = ExternalDisclosure \<and> (destination = None \<or> provider = None))) InvalidScope) (\<lambda>_.
     and_then (guard (\<not> (class \<in> {Overwrite, LossyConversion, ReleaseManufacturingExportWithWarnings} \<and> path = None))
       InvalidScope) (\<lambda>_.
     Ok \<lparr>hs_class = class, hs_destination = destination, hs_provider = provider, hs_path = path\<rparr>)))"

definition requester_identified :: "principal \<Rightarrow> bool" where
  "requester_identified who \<longleftrightarrow> who \<noteq> ManualClient \<and> who \<noteq> Human 0 \<and> who \<noteq> Plugin 0"

definition validate_high_risk_requester :: "principal \<Rightarrow> confirmation_error + unit" where
  "validate_high_risk_requester who = guard (requester_identified who) UnidentifiedRequester"

definition validate_confirmation_requirement :: "'d proposal_context \<Rightarrow> proposal_prepare_error + unit" where
  "validate_confirmation_requirement context =
     and_then (guard (\<not> (px_risk context \<noteq> Standard \<and> \<not> requester_identified (px_principal context)))
       (Confirmation UnidentifiedRequester)) (\<lambda>_.
     case (px_risk context, px_confirmation context) of
       (Standard, ReviewRequired) \<Rightarrow> Ok ()
     | (High class, HumanOnly scope) \<Rightarrow>
         guard (class = hs_class scope) (Confirmation ConfirmationRequirementMismatch)
     | _ \<Rightarrow> Err (Confirmation ConfirmationRequirementMismatch))"

definition validate_proposal_budget :: "proposal_budget \<Rightarrow> proposal_cost \<Rightarrow> proposal_prepare_error + unit" where
  "validate_proposal_budget requested cost =
     (if requested \<noteq> RULE_PROGRAM \<and> requested \<noteq> DRAWING_IMPORT \<and>
         (max_commands requested > max_commands HOST_MAX \<or>
          max_read_dependencies requested > max_read_dependencies HOST_MAX \<or>
          max_write_targets requested > max_write_targets HOST_MAX)
      then Err HostBudgetExceeded
      else if pc_commands cost > max_commands requested \<or>
          pc_read_dependencies cost > max_read_dependencies requested \<or>
          pc_write_targets cost > max_write_targets requested
      then Err (RequestedBudgetExceeded requested cost)
      else Ok ())"

definition proposal_cost_of ::
  "('r, 'c, 'd, 'v) analysis \<Rightarrow> 'r snapshot \<Rightarrow> 'c command_batch \<Rightarrow> proposal_cost" where
  "proposal_cost_of an snapshot batch =
     \<lparr>pc_commands = length (cb_commands batch), pc_read_dependencies = length (an_dependencies an snapshot batch),
      pc_write_targets = length (an_writes an snapshot batch)\<rparr>"

section \<open>Candidates\<close>

definition map_fault :: "('e \<Rightarrow> 'g) \<Rightarrow> 'e fault + 'a \<Rightarrow> 'g fault + 'a" where
  "map_fault f r = map_err (\<lambda>e. case e of Returned x \<Rightarrow> Returned (f x) | Panicked \<Rightarrow> Panicked) r"

definition candidate_diff ::
  "('r, 'c, 'd, 'v) analysis \<Rightarrow> 'r snapshot \<Rightarrow> 'r snapshot \<Rightarrow> 'd list \<Rightarrow> proposal_goal \<Rightarrow> ('d, 'v) diff_entry list" where
  "candidate_diff an before after writes goal =
     map (\<lambda>target. \<lparr>df_target = target, df_before = an_value an before target goal,
       df_after = an_value an after target goal\<rparr>) writes"

definition candidate_result ::
  "('r, 'c, 'd, 'v) analysis \<Rightarrow> 'r snapshot \<Rightarrow> 'r snapshot \<Rightarrow> 'd list \<Rightarrow> proposal_goal \<Rightarrow>
   'r snapshot \<times> ('d, 'v) diff_entry list \<times> str" where
  "candidate_result an before after writes goal =
     (after, candidate_diff an before after writes goal, an_digest an (sn_product after) writes)"

definition proposal_candidate_with_validation ::
  "(bytes \<Rightarrow> bytes) \<Rightarrow> ('r, 'x, 'c, 'f) families \<Rightarrow> ('r, 'c, 'd, 'v) analysis \<Rightarrow> u64 \<Rightarrow> 'r snapshot \<Rightarrow>
   'c command_batch \<Rightarrow> 'd list \<Rightarrow> proposal_goal \<Rightarrow> bool \<Rightarrow>
   proposal_prepare_error fault + 'r snapshot \<times> ('d, 'v) diff_entry list \<times> str" where
  "proposal_candidate_with_validation sha fam an next_epoch snapshot batch writes goal drawings =
     map_fault PrepareCanonical
       (and_then (from_product fam next_epoch (sn_revision_id snapshot) (sn_product snapshot)) (\<lambda>candidate.
        and_then (apply_batch_with sha fam batch (Principal ManualClient) drawings candidate) (\<lambda>(revision, _).
        Ok (candidate_result an snapshot (rv_snapshot revision) writes goal))))"

definition proposal_candidate_snapshot ::
  "(bytes \<Rightarrow> bytes) \<Rightarrow> ('r, 'x, 'c, 'f) families \<Rightarrow> ('r, 'c, 'd, 'v) analysis \<Rightarrow> u64 \<Rightarrow> 'r snapshot \<Rightarrow>
   'c command_batch \<Rightarrow> 'd list \<Rightarrow> proposal_goal \<Rightarrow>
   proposal_prepare_error fault + 'r snapshot \<times> ('d, 'v) diff_entry list \<times> str" where
  "proposal_candidate_snapshot sha fam an next_epoch snapshot batch writes goal =
     proposal_candidate_with_validation sha fam an next_epoch snapshot batch writes goal True"

definition tip_replacement_candidate ::
  "(bytes \<Rightarrow> bytes) \<Rightarrow> ('r, 'x, 'c, 'f) families \<Rightarrow> ('r, 'c, 'd, 'v) analysis \<Rightarrow> u64 \<Rightarrow> 'r snapshot \<Rightarrow> u64 \<Rightarrow>
   'c command_batch \<Rightarrow> 'd list \<Rightarrow> proposal_goal \<Rightarrow>
   proposal_prepare_error fault + 'r snapshot \<times> ('d, 'v) diff_entry list \<times> str" where
  "tip_replacement_candidate sha fam an next_epoch parent corrected_revision batch writes goal =
     map_fault PrepareCanonical
       (and_then (from_product fam next_epoch (sn_revision_id parent) (sn_product parent)) (\<lambda>candidate.
        and_then (apply_batch sha fam batch (candidate \<lparr>ds_next_revision_id := corrected_revision\<rparr>)) (\<lambda>(revision, _).
        Ok (candidate_result an parent (rv_snapshot revision) writes goal))))"

section \<open>Proposals\<close>

definition document_of :: "('r, 'x, 'c, 'f) families \<Rightarrow> 'r snapshot \<Rightarrow> document_id" where
  "document_of fam snapshot = fam_document fam (pm_rest (sn_product snapshot))"

definition canonical_digest :: "('r, 'x, 'c, 'f) families \<Rightarrow> 'r snapshot \<Rightarrow> str" where
  "canonical_digest fam snapshot = fam_digest fam (sn_product snapshot)"

definition prepare_proposal_with_context_and_validation ::
  "(bytes \<Rightarrow> bytes) \<Rightarrow> ('r, 'x, 'c, 'f) families \<Rightarrow> ('r, 'c, 'd, 'v) analysis \<Rightarrow> 'c command_batch \<Rightarrow>
   'd proposal_context \<Rightarrow> bool \<Rightarrow> ('r, 'f) document_store \<Rightarrow> proposal_prepare_error fault + ('c, 'd, 'v) proposal" where
  "prepare_proposal_with_context_and_validation sha fam an batch context drawings store =
     (let snapshot = current store;
          dependencies = an_dependencies an snapshot batch;
          writes = an_writes an snapshot batch;
          cost = proposal_cost_of an snapshot batch
      in
      and_then (map_err Returned (validate_confirmation_requirement context)) (\<lambda>_.
      and_then (map_err Returned (validate_proposal_budget (px_budget context) cost)) (\<lambda>_.
      and_then (proposal_candidate_with_validation sha fam an (ds_next_epoch store) snapshot batch writes
        (px_goal context) drawings) (\<lambda>(_, diff, result_digest).
      Ok \<lparr>pr_document = document_of fam snapshot, pr_revision = sn_revision_id snapshot,
          pr_provenance_digest = canonical_digest fam snapshot, pr_batch = batch,
          pr_command_digest = batch_digest fam batch, pr_dependencies = dependencies, pr_writes = writes,
          pr_dependency_digest = an_digest an (sn_product snapshot) dependencies, pr_diff = diff,
          pr_result_digest = result_digest, pr_principal = px_principal context, pr_goal = px_goal context,
          pr_assumptions = px_assumptions context, pr_risk = px_risk context,
          pr_confirmation = px_confirmation context, pr_budget = px_budget context, pr_cost = cost\<rparr>))))"

definition prepare_proposal_with_context ::
  "(bytes \<Rightarrow> bytes) \<Rightarrow> ('r, 'x, 'c, 'f) families \<Rightarrow> ('r, 'c, 'd, 'v) analysis \<Rightarrow> 'c command_batch \<Rightarrow>
   'd proposal_context \<Rightarrow> ('r, 'f) document_store \<Rightarrow> proposal_prepare_error fault + ('c, 'd, 'v) proposal" where
  "prepare_proposal_with_context sha fam an batch context store =
     prepare_proposal_with_context_and_validation sha fam an batch context True store"

definition validate_proposal ::
  "('r, 'x, 'c, 'f) families \<Rightarrow> ('r, 'c, 'd, 'v) analysis \<Rightarrow> ('c, 'd, 'v) proposal \<Rightarrow> ('r, 'f) document_store \<Rightarrow>
   proposal_validity" where
  "validate_proposal fam an proposal store =
     (let snapshot = current store
      in if pr_document proposal = document_of fam snapshot \<and>
            pr_command_digest proposal = batch_digest fam (pr_batch proposal) \<and>
            pr_dependency_digest proposal = an_digest an (sn_product snapshot) (pr_dependencies proposal)
         then Valid (sn_revision_id snapshot)
         else Stale (pr_revision proposal) (sn_revision_id snapshot))"

definition verify_proposal_candidate ::
  "(bytes \<Rightarrow> bytes) \<Rightarrow> ('r, 'x, 'c, 'f) families \<Rightarrow> ('r, 'c, 'd, 'v) analysis \<Rightarrow> ('c, 'd, 'v) proposal \<Rightarrow>
   ('r, 'f) document_store \<Rightarrow> proposal_commit_error fault + 'r snapshot" where
  "verify_proposal_candidate sha fam an proposal store =
     (case validate_proposal fam an proposal store of
        Stale a b \<Rightarrow> Err (Returned (CommitStale (Stale a b)))
      | Valid _ \<Rightarrow>
          and_then (map_fault Preparation (proposal_candidate_snapshot sha fam an (ds_next_epoch store) (current store)
            (pr_batch proposal) (pr_writes proposal) (pr_goal proposal))) (\<lambda>(candidate, diff, result_digest).
          and_then (guard (diff = pr_diff proposal \<and> result_digest = pr_result_digest proposal)
            (Returned VerificationMismatch)) (\<lambda>_.
          Ok candidate)))"

definition commit_verified_proposal_inner ::
  "(bytes \<Rightarrow> bytes) \<Rightarrow> ('r, 'x, 'c, 'f) families \<Rightarrow> ('r, 'c, 'd, 'v) analysis \<Rightarrow> ('c, 'd, 'v) proposal \<Rightarrow>
   ('r, 'f) document_store \<Rightarrow> (proposal_commit_error fault + ('r, 'f, 'd) verified_commit) \<times> ('r, 'f) document_store" where
  "commit_verified_proposal_inner sha fam an proposal store =
     (case verify_proposal_candidate sha fam an proposal store of
        Inl e \<Rightarrow> (Err e, store)
      | Inr _ \<Rightarrow>
        (case apply_batch_with sha fam (pr_batch proposal) (Principal (pr_principal proposal)) True store of
           Inl e \<Rightarrow> (map_fault CommitCanonical (Err e), store)
         | Inr (revision, s) \<Rightarrow>
           let actual = an_digest an (sn_product (rv_snapshot revision)) (pr_writes proposal)
           in if rv_batch_digest revision \<noteq> pr_command_digest proposal \<or> actual \<noteq> pr_result_digest proposal
              then (Err (Returned VerificationMismatch),
                    s \<lparr>ds_revisions := ds_revisions store, ds_cursor := ds_cursor store,
                       ds_next_revision_id := ds_next_revision_id store, ds_registry := ds_registry store\<rparr>)
              else (Ok \<lparr>vc_revision = revision, vc_command_digest = pr_command_digest proposal,
                        vc_result_digest = actual, vc_writes = pr_writes proposal\<rparr>, s)))"

definition preview_verified_proposal ::
  "(bytes \<Rightarrow> bytes) \<Rightarrow> ('r, 'x, 'c, 'f) families \<Rightarrow> ('r, 'c, 'd, 'v) analysis \<Rightarrow> ('c, 'd, 'v) proposal \<Rightarrow>
   ('r, 'f) document_store \<Rightarrow> proposal_commit_error fault + 'r snapshot" where
  "preview_verified_proposal sha fam an proposal store =
     and_then (guard (pr_risk proposal = Standard) (Returned HumanApprovalRequired)) (\<lambda>_.
     verify_proposal_candidate sha fam an proposal store)"

definition commit_verified_proposal ::
  "(bytes \<Rightarrow> bytes) \<Rightarrow> ('r, 'x, 'c, 'f) families \<Rightarrow> ('r, 'c, 'd, 'v) analysis \<Rightarrow> ('c, 'd, 'v) proposal \<Rightarrow>
   ('r, 'f) document_store \<Rightarrow> (proposal_commit_error fault + ('r, 'f, 'd) verified_commit) \<times> ('r, 'f) document_store" where
  "commit_verified_proposal sha fam an proposal store =
     (if pr_risk proposal \<noteq> Standard then (Err (Returned HumanApprovalRequired), store)
      else commit_verified_proposal_inner sha fam an proposal store)"

definition commit_verified_rule_program_proposal ::
  "(bytes \<Rightarrow> bytes) \<Rightarrow> (rule_program_source \<Rightarrow> bytes) \<Rightarrow> ('r, 'x, 'c, 'f) families \<Rightarrow> ('r, 'c, 'd, 'v) analysis \<Rightarrow>
   ('c, 'd, 'v) proposal \<Rightarrow> rule_program_source \<Rightarrow> ('r, 'f) document_store \<Rightarrow>
   (proposal_commit_error fault + ('r, 'f, 'd) verified_commit) \<times> ('r, 'f) document_store" where
  "commit_verified_rule_program_proposal sha json fam an proposal source store =
     (case validate_rule_program_source json source of
        Inl e \<Rightarrow> (Err (Returned (CommitCanonical (RuleProgramFault e))), store)
      | Inr _ \<Rightarrow>
        (case commit_verified_proposal sha fam an proposal store of
           (Inl e, s) \<Rightarrow> (Err e, s)
         | (Inr committed, s) \<Rightarrow>
             (Ok committed,
              set_current ((current_revision s) \<lparr>rv_rule_program := Some (bound_program_new sha json source)\<rparr>) s)))"

section \<open>Approval tokens\<close>

definition MAX_HUMAN_CONFIRMATION_LIFETIME_MS :: u64 where
  "MAX_HUMAN_CONFIRMATION_LIFETIME_MS = 5 * 60 * 1000"

datatype authenticated_approver = ApprovedByHuman u64 | ApprovedByMachine principal

record confirmation_surface =
  cs_signing_key :: bytes
  cs_policy_epoch :: u64

record human_approval_token =
  ht_requester :: principal
  ht_approving_human :: u64
  ht_document :: document_id
  ht_revision :: u64
  ht_provenance_digest :: str
  ht_dependency_digest :: str
  ht_command_digest :: str
  ht_result_digest :: str
  ht_scope :: high_risk_scope
  ht_policy_epoch :: u64
  ht_issued_at_ms :: u64
  ht_expires_at_ms :: u64
  ht_signature :: bytes

record side_effect_proposal =
  sp_document :: document_id
  sp_revision :: u64
  sp_provenance_digest :: str
  sp_operation :: str
  sp_operation_digest :: str
  sp_payload_digest :: str
  sp_principal :: principal
  sp_scope :: high_risk_scope

record side_effect_token =
  st_requester :: principal
  st_approving_human :: u64
  st_document :: document_id
  st_revision :: u64
  st_provenance_digest :: str
  st_operation_digest :: str
  st_payload_digest :: str
  st_scope :: high_risk_scope
  st_policy_epoch :: u64
  st_issued_at_ms :: u64
  st_expires_at_ms :: u64
  st_signature :: bytes

record side_effect_receipt =
  sr_approving_human :: u64
  sr_document :: document_id
  sr_revision :: u64
  sr_operation :: str
  sr_operation_digest :: str
  sr_payload_digest :: str
  sr_scope :: high_risk_scope
  sr_policy_epoch :: u64
  sr_authorized_at_ms :: u64

datatype side_effect_error = PolicyUnavailable | PolicyStale | SideEffectInvalid | Replayed

definition push_confirmation_u64 :: "u64 \<Rightarrow> bytes" where
  "push_confirmation_u64 v = rev (le_bytes 8 (unat v))"

definition push_confirmation_field :: "bytes \<Rightarrow> bytes" where
  "push_confirmation_field value = push_confirmation_u64 (of_nat (length value)) @ value"

definition push_confirmation_optional_field :: "str option \<Rightarrow> bytes" where
  "push_confirmation_optional_field value =
     (case value of Some s \<Rightarrow> 1 # push_confirmation_field (str_bytes s) | None \<Rightarrow> [0])"

definition push_confirmation_principal :: "principal \<Rightarrow> bytes" where
  "push_confirmation_principal who =
     (case who of
        ManualClient \<Rightarrow> [0]
      | Human i \<Rightarrow> 1 # push_confirmation_u64 i
      | LocalAssistant \<Rightarrow> [2]
      | Plugin i \<Rightarrow> 3 # push_confirmation_u64 i)"

definition class_byte :: "high_risk_class \<Rightarrow> u8" where
  "class_byte class =
     (case class of
        DestructiveBulkChange \<Rightarrow> 0
      | Overwrite \<Rightarrow> 1
      | LossyConversion \<Rightarrow> 2
      | ExternalDisclosure \<Rightarrow> 3
      | ReleaseManufacturingExportWithWarnings \<Rightarrow> 4
      | CapabilityExpansion \<Rightarrow> 5)"

definition push_confirmation_scope :: "high_risk_scope \<Rightarrow> bytes" where
  "push_confirmation_scope scope =
     class_byte (hs_class scope) # push_confirmation_optional_field (hs_destination scope) @
     push_confirmation_optional_field (hs_provider scope) @ push_confirmation_optional_field (hs_path scope)"

definition human_signing_payload :: "human_approval_token \<Rightarrow> bytes" where
  "human_signing_payload t =
     push_confirmation_field (str_bytes ''ketchup.human-confirmation.v1'') @
     push_confirmation_principal (ht_requester t) @ push_confirmation_u64 (ht_approving_human t) @
     push_confirmation_u64 (ht_document t) @ push_confirmation_u64 (ht_revision t) @
     push_confirmation_field (str_bytes (ht_provenance_digest t)) @
     push_confirmation_field (str_bytes (ht_dependency_digest t)) @
     push_confirmation_field (str_bytes (ht_command_digest t)) @
     push_confirmation_field (str_bytes (ht_result_digest t)) @ push_confirmation_scope (ht_scope t) @
     push_confirmation_u64 (ht_policy_epoch t) @ push_confirmation_u64 (ht_issued_at_ms t) @
     push_confirmation_u64 (ht_expires_at_ms t)"

definition side_effect_signing_payload :: "side_effect_token \<Rightarrow> bytes" where
  "side_effect_signing_payload t =
     push_confirmation_field (str_bytes ''ketchup.side-effect-confirmation.v1'') @
     push_confirmation_principal (st_requester t) @ push_confirmation_u64 (st_approving_human t) @
     push_confirmation_u64 (st_document t) @ push_confirmation_u64 (st_revision t) @
     push_confirmation_field (str_bytes (st_provenance_digest t)) @
     push_confirmation_field (str_bytes (st_operation_digest t)) @
     push_confirmation_field (str_bytes (st_payload_digest t)) @ push_confirmation_scope (st_scope t) @
     push_confirmation_u64 (st_policy_epoch t) @ push_confirmation_u64 (st_issued_at_ms t) @
     push_confirmation_u64 (st_expires_at_ms t)"

definition confirmation_surface_new :: "bytes \<Rightarrow> u64 \<Rightarrow> confirmation_error + confirmation_surface" where
  "confirmation_surface_new key epoch =
     and_then (guard (epoch \<noteq> 0) PolicyEpochInvalid) (\<lambda>_. Ok \<lparr>cs_signing_key = key, cs_policy_epoch = epoch\<rparr>)"

definition authenticated_human :: "authenticated_approver \<Rightarrow> confirmation_error + u64" where
  "authenticated_human approver =
     (case approver of
        ApprovedByHuman i \<Rightarrow> if i \<noteq> 0 then Ok i else Err InvalidHumanPrincipal
      | ApprovedByMachine _ \<Rightarrow> Err MachineCannotApprove)"

definition validate_confirmation_lifetime :: "u64 \<Rightarrow> u64 \<Rightarrow> confirmation_error + unit" where
  "validate_confirmation_lifetime issued expires =
     guard (\<not> (expires \<le> issued \<or> expires - issued > MAX_HUMAN_CONFIRMATION_LIFETIME_MS)) InvalidLifetime"

definition issue ::
  "(bytes \<Rightarrow> bytes \<Rightarrow> bytes) \<Rightarrow> confirmation_surface \<Rightarrow> ('c, 'd, 'v) proposal \<Rightarrow> authenticated_approver \<Rightarrow> u64 \<Rightarrow> u64 \<Rightarrow>
   confirmation_error + human_approval_token" where
  "issue sign surface proposal approver issued expires =
     and_then (authenticated_human approver) (\<lambda>human.
     and_then (guard (pr_principal proposal \<noteq> Human human) RequesterCannotApprove) (\<lambda>_.
     and_then (case pr_risk proposal of High class \<Rightarrow> Ok class | Standard \<Rightarrow> Err NotHighRisk) (\<lambda>class.
     and_then (case pr_confirmation proposal of HumanOnly scope \<Rightarrow> Ok scope
       | ReviewRequired \<Rightarrow> Err ConfirmationRequirementMismatch) (\<lambda>scope.
     and_then (guard (hs_class scope = class) ConfirmationRequirementMismatch) (\<lambda>_.
     and_then (validate_confirmation_lifetime issued expires) (\<lambda>_.
     let token = \<lparr>ht_requester = pr_principal proposal, ht_approving_human = human, ht_document = pr_document proposal,
           ht_revision = pr_revision proposal, ht_provenance_digest = pr_provenance_digest proposal,
           ht_dependency_digest = pr_dependency_digest proposal, ht_command_digest = pr_command_digest proposal,
           ht_result_digest = pr_result_digest proposal, ht_scope = scope,
           ht_policy_epoch = cs_policy_epoch surface, ht_issued_at_ms = issued, ht_expires_at_ms = expires,
           ht_signature = replicate 64 0\<rparr>
     in Ok (token \<lparr>ht_signature := sign (cs_signing_key surface) (human_signing_payload token)\<rparr>)))))))"

definition issue_side_effect ::
  "(bytes \<Rightarrow> bytes \<Rightarrow> bytes) \<Rightarrow> confirmation_surface \<Rightarrow> side_effect_proposal \<Rightarrow> authenticated_approver \<Rightarrow> u64 \<Rightarrow> u64 \<Rightarrow>
   confirmation_error + side_effect_token" where
  "issue_side_effect sign surface proposal approver issued expires =
     and_then (authenticated_human approver) (\<lambda>human.
     and_then (guard (sp_principal proposal \<noteq> Human human) RequesterCannotApprove) (\<lambda>_.
     and_then (validate_confirmation_lifetime issued expires) (\<lambda>_.
     let token = \<lparr>st_requester = sp_principal proposal, st_approving_human = human, st_document = sp_document proposal,
           st_revision = sp_revision proposal, st_provenance_digest = sp_provenance_digest proposal,
           st_operation_digest = sp_operation_digest proposal, st_payload_digest = sp_payload_digest proposal,
           st_scope = sp_scope proposal, st_policy_epoch = cs_policy_epoch surface, st_issued_at_ms = issued,
           st_expires_at_ms = expires, st_signature = replicate 64 0\<rparr>
     in Ok (token \<lparr>st_signature := sign (cs_signing_key surface) (side_effect_signing_payload token)\<rparr>))))"


section \<open>Approved operations\<close>

definition consume_signature :: "bytes \<Rightarrow> ('r, 'f) document_store \<Rightarrow> ('r, 'f) document_store" where
  "consume_signature signature store =
     store \<lparr>ds_policy := map_option (\<lambda>p. p \<lparr>cp_consumed := List.insert signature (cp_consumed p)\<rparr>) (ds_policy store)\<rparr>"

definition approval_matches ::
  "human_approval_token \<Rightarrow> ('c, 'd, 'v) proposal \<Rightarrow> high_risk_scope \<Rightarrow> high_risk_class \<Rightarrow> u64 \<Rightarrow> bool" where
  "approval_matches approval proposal scope class now \<longleftrightarrow>
     \<not> (ht_approving_human approval = 0 \<or> ht_requester approval \<noteq> pr_principal proposal \<or>
        ht_document approval \<noteq> pr_document proposal \<or> ht_revision approval \<noteq> pr_revision proposal \<or>
        ht_provenance_digest approval \<noteq> pr_provenance_digest proposal \<or>
        ht_dependency_digest approval \<noteq> pr_dependency_digest proposal \<or>
        ht_command_digest approval \<noteq> pr_command_digest proposal \<or>
        ht_result_digest approval \<noteq> pr_result_digest proposal \<or> ht_scope approval \<noteq> scope \<or>
        hs_class (ht_scope approval) \<noteq> class \<or> now < ht_issued_at_ms approval \<or> now > ht_expires_at_ms approval)"

definition check_approval ::
  "(bytes \<Rightarrow> bytes \<Rightarrow> bytes \<Rightarrow> bool) \<Rightarrow> ('c, 'd, 'v) proposal \<Rightarrow> human_approval_token \<Rightarrow> u64 \<Rightarrow>
   ('r, 'f) document_store \<Rightarrow> proposal_commit_error + unit" where
  "check_approval verify proposal approval now store =
     and_then (case pr_risk proposal of High class \<Rightarrow> Ok class | Standard \<Rightarrow> Err HumanApprovalUnexpected) (\<lambda>class.
     and_then (case pr_confirmation proposal of HumanOnly scope \<Rightarrow> Ok scope | ReviewRequired \<Rightarrow> Err HumanApprovalInvalid)
       (\<lambda>scope.
     and_then (ok_or (ds_policy store) HumanApprovalPolicyUnavailable) (\<lambda>policy.
     and_then (guard (cp_epoch policy = ht_policy_epoch approval) HumanApprovalPolicyStale) (\<lambda>_.
     and_then (guard (ht_signature approval \<notin> set (cp_consumed policy)) HumanApprovalReplayed) (\<lambda>_.
     and_then (guard (approval_matches approval proposal scope class now) HumanApprovalInvalid) (\<lambda>_.
     guard (verify (cp_verifying_key policy) (human_signing_payload approval) (ht_signature approval))
       HumanApprovalInvalid))))))"

definition commit_high_risk_proposal ::
  "(bytes \<Rightarrow> bytes) \<Rightarrow> (bytes \<Rightarrow> bytes \<Rightarrow> bytes \<Rightarrow> bool) \<Rightarrow> ('r, 'x, 'c, 'f) families \<Rightarrow> ('r, 'c, 'd, 'v) analysis \<Rightarrow>
   ('c, 'd, 'v) proposal \<Rightarrow> human_approval_token \<Rightarrow> u64 \<Rightarrow> ('r, 'f) document_store \<Rightarrow>
   (proposal_commit_error fault + ('r, 'f, 'd) verified_commit) \<times> ('r, 'f) document_store" where
  "commit_high_risk_proposal sha verify fam an proposal approval now store =
     (case check_approval verify proposal approval now store of
        Inl e \<Rightarrow> (Err (Returned e), store)
      | Inr _ \<Rightarrow>
        (case commit_verified_proposal_inner sha fam an proposal store of
           (Inl e, s) \<Rightarrow> (Err e, s)
         | (Inr committed, s) \<Rightarrow>
             if ds_policy s = None then (Err Panicked, s)
             else (Ok committed, consume_signature (ht_signature approval) s)))"

definition prepare_high_risk_side_effect ::
  "(bytes \<Rightarrow> bytes) \<Rightarrow> ('r, 'x, 'c, 'f) families \<Rightarrow> str \<Rightarrow> principal \<Rightarrow> high_risk_scope \<Rightarrow> bytes \<Rightarrow>
   ('r, 'f) document_store \<Rightarrow> confirmation_error + side_effect_proposal" where
  "prepare_high_risk_side_effect sha fam operation who scope payload store =
     and_then (guard (\<not> (operation = [] \<or> length operation > 128 \<or> any_control operation \<or> payload = []))
       InvalidSideEffectEvidence) (\<lambda>_.
     and_then (validate_high_risk_requester who) (\<lambda>_.
     let snapshot = current store;
         payload_digest = sha256_hex sha payload;
         evidence = push_confirmation_field (str_bytes ''ketchup.side-effect-proposal.v1'') @
           push_confirmation_field (str_bytes operation) @ push_confirmation_u64 (document_of fam snapshot) @
           push_confirmation_u64 (sn_revision_id snapshot) @
           push_confirmation_field (str_bytes (canonical_digest fam snapshot)) @ push_confirmation_principal who @
           push_confirmation_scope scope @ push_confirmation_field (str_bytes payload_digest)
     in Ok \<lparr>sp_document = document_of fam snapshot, sp_revision = sn_revision_id snapshot,
            sp_provenance_digest = canonical_digest fam snapshot, sp_operation = operation,
            sp_operation_digest = sha256_hex sha evidence, sp_payload_digest = payload_digest, sp_principal = who,
            sp_scope = scope\<rparr>))"

definition side_effect_matches ::
  "('r, 'x, 'c, 'f) families \<Rightarrow> side_effect_token \<Rightarrow> side_effect_proposal \<Rightarrow> 'r snapshot \<Rightarrow> u64 \<Rightarrow> bool" where
  "side_effect_matches fam approval proposal snapshot now \<longleftrightarrow>
     \<not> (st_approving_human approval = 0 \<or> st_requester approval \<noteq> sp_principal proposal \<or>
        st_document approval \<noteq> sp_document proposal \<or> st_revision approval \<noteq> sp_revision proposal \<or>
        st_provenance_digest approval \<noteq> sp_provenance_digest proposal \<or>
        st_operation_digest approval \<noteq> sp_operation_digest proposal \<or>
        st_payload_digest approval \<noteq> sp_payload_digest proposal \<or> st_scope approval \<noteq> sp_scope proposal \<or>
        document_of fam snapshot \<noteq> sp_document proposal \<or> sn_revision_id snapshot \<noteq> sp_revision proposal \<or>
        canonical_digest fam snapshot \<noteq> sp_provenance_digest proposal \<or>
        now < st_issued_at_ms approval \<or> now > st_expires_at_ms approval)"

definition authorize_high_risk_side_effect ::
  "(bytes \<Rightarrow> bytes \<Rightarrow> bytes \<Rightarrow> bool) \<Rightarrow> ('r, 'x, 'c, 'f) families \<Rightarrow> side_effect_proposal \<Rightarrow> side_effect_token \<Rightarrow> u64 \<Rightarrow>
   ('r, 'f) document_store \<Rightarrow> side_effect_error + side_effect_receipt \<times> ('r, 'f) document_store" where
  "authorize_high_risk_side_effect verify fam proposal approval now store =
     and_then (ok_or (ds_policy store) PolicyUnavailable) (\<lambda>policy.
     and_then (guard (cp_epoch policy = st_policy_epoch approval) PolicyStale) (\<lambda>_.
     and_then (guard (st_signature approval \<notin> set (cp_consumed policy)) Replayed) (\<lambda>_.
     and_then (guard (side_effect_matches fam approval proposal (current store) now) SideEffectInvalid) (\<lambda>_.
     and_then (guard (verify (cp_verifying_key policy) (side_effect_signing_payload approval) (st_signature approval))
       SideEffectInvalid) (\<lambda>_.
     Ok (\<lparr>sr_approving_human = st_approving_human approval, sr_document = sp_document proposal,
          sr_revision = sp_revision proposal, sr_operation = sp_operation proposal,
          sr_operation_digest = sp_operation_digest proposal, sr_payload_digest = sp_payload_digest proposal,
          sr_scope = sp_scope proposal, sr_policy_epoch = st_policy_epoch approval, sr_authorized_at_ms = now\<rparr>,
         consume_signature (st_signature approval) store))))))"

section \<open>Replacing the tip\<close>

record 'r tip_parent =
  tp_snapshot :: "'r snapshot"
  tp_document :: document_id
  tp_parent_revision :: u64
  tp_parent_digest :: str
  tp_superseded_revision :: u64
  tp_superseded_digest :: str

record ('c, 'd, 'v) tip_proposal =
  tr_document :: document_id
  tr_parent_revision :: u64
  tr_parent_digest :: str
  tr_superseded_revision :: u64
  tr_superseded_digest :: str
  tr_corrected_revision :: u64
  tr_batch :: "'c command_batch"
  tr_command_digest :: str
  tr_dependencies :: "'d list"
  tr_writes :: "'d list"
  tr_dependency_digest :: str
  tr_diff :: "('d, 'v) diff_entry list"
  tr_result_digest :: str
  tr_principal :: principal
  tr_goal :: proposal_goal
  tr_assumptions :: "'d proposal_assumption list"
  tr_risk :: proposal_risk
  tr_confirmation :: proposal_confirmation
  tr_budget :: proposal_budget
  tr_cost :: proposal_cost

datatype tip_error =
    NoCurrentTip
  | RedoBranch
  | TipStale
  | TipPreparation proposal_prepare_error
  | TipCanonical canonical_error
  | TipVerificationMismatch
  | TipHumanApprovalRequired

definition parent_snapshot :: "('r, 'f) document_store \<Rightarrow> 'r snapshot" where
  "parent_snapshot store = rv_snapshot (ds_revisions store ! (ds_cursor store - 1))"

definition tip_replacement_parent ::
  "('r, 'x, 'c, 'f) families \<Rightarrow> ('r, 'f) document_store \<Rightarrow> tip_error + 'r tip_parent" where
  "tip_replacement_parent fam store =
     and_then (guard (ds_cursor store \<noteq> 0) NoCurrentTip) (\<lambda>_.
     and_then (guard (ds_cursor store + 1 = length (ds_revisions store)) RedoBranch) (\<lambda>_.
     and_then (ok_or (checked_add_u64 (sn_revision_id (current store)) 1) (TipCanonical RevisionExhausted)) (\<lambda>corrected.
     and_then (guard (ds_next_revision_id store = corrected) TipStale) (\<lambda>_.
     Ok \<lparr>tp_snapshot = parent_snapshot store, tp_document = document_of fam (current store),
         tp_parent_revision = sn_revision_id (parent_snapshot store),
         tp_parent_digest = canonical_digest fam (parent_snapshot store),
         tp_superseded_revision = sn_revision_id (current store),
         tp_superseded_digest = canonical_digest fam (current store)\<rparr>))))"

definition validate_tip_replacement_envelope ::
  "('r, 'x, 'c, 'f) families \<Rightarrow> document_id \<Rightarrow> u64 \<Rightarrow> str \<Rightarrow> u64 \<Rightarrow> str \<Rightarrow> u64 \<Rightarrow> ('r, 'f) document_store \<Rightarrow>
   tip_error + 'r snapshot" where
  "validate_tip_replacement_envelope fam document parent_revision parent_digest superseded_revision
     superseded_digest corrected_revision store =
     and_then (guard (ds_cursor store \<noteq> 0) NoCurrentTip) (\<lambda>_.
     and_then (guard (ds_cursor store + 1 = length (ds_revisions store)) RedoBranch) (\<lambda>_.
     and_then (guard (document_of fam (current store) = document \<and>
         sn_revision_id (current store) = superseded_revision \<and>
         canonical_digest fam (current store) = superseded_digest \<and>
         document_of fam (parent_snapshot store) = document \<and>
         sn_revision_id (parent_snapshot store) = parent_revision \<and>
         canonical_digest fam (parent_snapshot store) = parent_digest \<and>
         checked_add_u64 superseded_revision 1 = Some corrected_revision \<and>
         ds_next_revision_id store = corrected_revision) TipStale) (\<lambda>_.
     Ok (parent_snapshot store))))"

definition prepare_tip_replacement_proposal ::
  "(bytes \<Rightarrow> bytes) \<Rightarrow> ('r, 'x, 'c, 'f) families \<Rightarrow> ('r, 'c, 'd, 'v) analysis \<Rightarrow> 'r tip_parent \<Rightarrow> 'c command_batch \<Rightarrow>
   'd proposal_context \<Rightarrow> ('r, 'f) document_store \<Rightarrow> tip_error fault + ('c, 'd, 'v) tip_proposal" where
  "prepare_tip_replacement_proposal sha fam an parent batch context store =
     and_then (map_err (\<lambda>e. Returned (TipPreparation e)) (validate_confirmation_requirement context)) (\<lambda>_.
     and_then (ok_or (checked_add_u64 (tp_superseded_revision parent) 1) (Returned (TipCanonical RevisionExhausted)))
       (\<lambda>corrected.
     and_then (map_err Returned (validate_tip_replacement_envelope fam (tp_document parent) (tp_parent_revision parent)
       (tp_parent_digest parent) (tp_superseded_revision parent) (tp_superseded_digest parent) corrected store))
       (\<lambda>current_parent.
     and_then (guard (document_of fam (tp_snapshot parent) = tp_document parent \<and>
         sn_revision_id (tp_snapshot parent) = tp_parent_revision parent \<and>
         canonical_digest fam (tp_snapshot parent) = tp_parent_digest parent \<and>
         canonical_digest fam (tp_snapshot parent) = canonical_digest fam current_parent) (Returned TipStale)) (\<lambda>_.
     let dependencies = an_dependencies an current_parent batch;
         writes = an_writes an current_parent batch;
         cost = proposal_cost_of an current_parent batch
     in
     and_then (map_err (\<lambda>e. Returned (TipPreparation e)) (validate_proposal_budget (px_budget context) cost)) (\<lambda>_.
     and_then (map_fault TipPreparation (tip_replacement_candidate sha fam an (ds_next_epoch store) current_parent
       (tp_superseded_revision parent + 1) batch writes (px_goal context))) (\<lambda>(_, diff, result_digest).
     Ok \<lparr>tr_document = tp_document parent, tr_parent_revision = tp_parent_revision parent,
         tr_parent_digest = tp_parent_digest parent, tr_superseded_revision = tp_superseded_revision parent,
         tr_superseded_digest = tp_superseded_digest parent,
         tr_corrected_revision = tp_superseded_revision parent + 1, tr_batch = batch,
         tr_command_digest = batch_digest fam batch, tr_dependencies = dependencies, tr_writes = writes,
         tr_dependency_digest = an_digest an (sn_product current_parent) dependencies, tr_diff = diff,
         tr_result_digest = result_digest, tr_principal = px_principal context, tr_goal = px_goal context,
         tr_assumptions = px_assumptions context, tr_risk = px_risk context,
         tr_confirmation = px_confirmation context, tr_budget = px_budget context, tr_cost = cost\<rparr>))))))"

definition verify_tip_replacement_proposal ::
  "(bytes \<Rightarrow> bytes) \<Rightarrow> ('r, 'x, 'c, 'f) families \<Rightarrow> ('r, 'c, 'd, 'v) analysis \<Rightarrow> ('c, 'd, 'v) tip_proposal \<Rightarrow>
   ('r, 'f) document_store \<Rightarrow> tip_error fault + 'r snapshot" where
  "verify_tip_replacement_proposal sha fam an proposal store =
     and_then (map_err Returned (validate_tip_replacement_envelope fam (tr_document proposal)
       (tr_parent_revision proposal) (tr_parent_digest proposal) (tr_superseded_revision proposal)
       (tr_superseded_digest proposal) (tr_corrected_revision proposal) store)) (\<lambda>parent.
     and_then (guard (tr_command_digest proposal = batch_digest fam (tr_batch proposal))
       (Returned TipVerificationMismatch)) (\<lambda>_.
     let dependencies = an_dependencies an parent (tr_batch proposal);
         writes = an_writes an parent (tr_batch proposal);
         cost = proposal_cost_of an parent (tr_batch proposal)
     in
     and_then (guard (dependencies = tr_dependencies proposal \<and> writes = tr_writes proposal \<and>
         an_digest an (sn_product parent) dependencies = tr_dependency_digest proposal \<and> cost = tr_cost proposal)
       (Returned TipVerificationMismatch)) (\<lambda>_.
     and_then (map_err (\<lambda>e. Returned (TipPreparation e)) (validate_proposal_budget (tr_budget proposal) cost)) (\<lambda>_.
     and_then (map_err (\<lambda>e. Returned (TipPreparation e)) (validate_confirmation_requirement
         \<lparr>px_principal = tr_principal proposal, px_goal = tr_goal proposal, px_assumptions = tr_assumptions proposal,
          px_risk = tr_risk proposal, px_confirmation = tr_confirmation proposal, px_budget = tr_budget proposal\<rparr>)) (\<lambda>_.
     and_then (map_fault TipPreparation (tip_replacement_candidate sha fam an (ds_next_epoch store) parent
       (tr_corrected_revision proposal) (tr_batch proposal) writes (tr_goal proposal))) (\<lambda>(preview, diff, result_digest).
     and_then (guard (diff = tr_diff proposal \<and> result_digest = tr_result_digest proposal)
       (Returned TipVerificationMismatch)) (\<lambda>_.
     Ok preview)))))))"

definition check_replacement ::
  "('r, 'x, 'c, 'f) families \<Rightarrow> ('r, 'c, 'd, 'v) analysis \<Rightarrow> ('c, 'd, 'v) tip_proposal \<Rightarrow> 'r snapshot \<Rightarrow> 'r snapshot \<Rightarrow>
   ('r, 'f) revision \<Rightarrow> bool" where
  "check_replacement fam an proposal parent expected revision \<longleftrightarrow>
     rv_id revision = tr_corrected_revision proposal \<and> rv_batch_digest revision = tr_command_digest proposal \<and>
     candidate_diff an parent (rv_snapshot revision) (tr_writes proposal) (tr_goal proposal) = tr_diff proposal \<and>
     an_digest an (sn_product (rv_snapshot revision)) (tr_writes proposal) = tr_result_digest proposal \<and>
     canonical_digest fam (rv_snapshot revision) = canonical_digest fam expected"

definition drop_tip :: "('r, 'f) document_store \<Rightarrow> ('r, 'f) document_store" where
  "drop_tip store = store \<lparr>ds_revisions := butlast (ds_revisions store), ds_cursor := ds_cursor store - 1\<rparr>"

definition commit_tip_replacement_proposal ::
  "(bytes \<Rightarrow> bytes) \<Rightarrow> ('r, 'x, 'c, 'f) families \<Rightarrow> ('r, 'c, 'd, 'v) analysis \<Rightarrow> ('c, 'd, 'v) tip_proposal \<Rightarrow>
   ('r, 'f) document_store \<Rightarrow> (tip_error fault + ('r, 'f) revision) \<times> ('r, 'f) document_store" where
  "commit_tip_replacement_proposal sha fam an proposal store =
     (if tr_risk proposal \<noteq> Standard then (Err (Returned TipHumanApprovalRequired), store)
      else
        (case verify_tip_replacement_proposal sha fam an proposal store of
           Inl e \<Rightarrow> (Err e, store)
         | Inr expected \<Rightarrow>
           (case apply_batch sha fam (tr_batch proposal) (drop_tip store) of
              Inl e \<Rightarrow> (map_fault TipCanonical (Err e), store)
            | Inr (revision, s) \<Rightarrow>
              if check_replacement fam an proposal (parent_snapshot store) expected revision
              then (Ok revision,
                    s \<lparr>ds_registry := filter (\<lambda>p. drk_revision (fst p) \<noteq> tr_superseded_revision proposal) (ds_registry s)\<rparr>)
              else (Err (Returned TipVerificationMismatch),
                    s \<lparr>ds_revisions := ds_revisions store, ds_cursor := ds_cursor store,
                       ds_next_revision_id := ds_next_revision_id store, ds_registry := ds_registry store\<rparr>))))"


section \<open>Signed bytes\<close>

text \<open>The confirmation encoders are prefix codes, and so is what they make up.\<close>

lemma push_confirmation_u64_inject [simp]: "push_confirmation_u64 v = push_confirmation_u64 w \<longleftrightarrow> v = w"
  using push_u64_inject [of v w] by (simp add: push_confirmation_u64_def push_u64_def)

lemma length_push_confirmation_u64 [simp]: "length (push_confirmation_u64 v) = 8"
  by (simp add: push_confirmation_u64_def)

interpretation cc_u64: prefix_code push_confirmation_u64 "\<lambda>_. True"
  by unfold_locales simp

lemma fits_of_nat:
  assumes "fits x" and "fits y" and "(of_nat (length x) :: u64) = of_nat (length y)"
  shows "length x = length y"
proof -
  have "take_bit 64 (length x) = length x" "take_bit 64 (length y) = length y"
    using assms(1,2) by (simp_all add: fits_def take_bit_nat_eq_self)
  then show ?thesis using assms(3) by (simp add: word_of_nat_eq_iff)
qed

interpretation cc_field: prefix_code "\<lambda>s. push_confirmation_field (str_bytes s)" fits
proof
  fix x y :: str and r s
  assume f: "fits x" "fits y" and eq: "push_confirmation_field (str_bytes x) @ r = push_confirmation_field (str_bytes y) @ s"
  have e: "(of_nat (length x) :: u64) = of_nat (length y) \<and> str_bytes x @ r = str_bytes y @ s"
    by (rule cc_u64.enc_split) (use eq in \<open>simp_all add: push_confirmation_field_def\<close>)
  have "length x = length y" by (rule fits_of_nat [OF f e [THEN conjunct1]])
  then show "x = y \<and> r = s" using e append_eq_append_conv [of "str_bytes x" "str_bytes y"] by simp
qed

definition option_fits :: "str option \<Rightarrow> bool" where
  "option_fits v = (case v of None \<Rightarrow> True | Some s \<Rightarrow> fits s)"

interpretation cc_option: prefix_code push_confirmation_optional_field option_fits
proof
  fix x y r s
  assume a: "option_fits x" "option_fits y" "push_confirmation_optional_field x @ r = push_confirmation_optional_field y @ s"
  have "a = b \<and> r = s" if "x = Some a" "y = Some b" for a b
    by (rule cc_field.enc_split) (use a that in \<open>simp_all add: push_confirmation_optional_field_def option_fits_def\<close>)
  then show "x = y \<and> r = s"
    using a(3) by (cases x; cases y) (simp_all add: push_confirmation_optional_field_def)
qed

interpretation cc_principal: prefix_code push_confirmation_principal "\<lambda>_. True"
proof
  fix x y r s
  assume "push_confirmation_principal x @ r = push_confirmation_principal y @ s"
  then show "x = y \<and> r = s"
    by (cases x; cases y) (simp_all add: push_confirmation_principal_def)
qed

definition scope_fits :: "high_risk_scope \<Rightarrow> bool" where
  "scope_fits scope \<longleftrightarrow> option_fits (hs_destination scope) \<and> option_fits (hs_provider scope) \<and> option_fits (hs_path scope)"

lemma class_byte_inject [simp]: "class_byte a = class_byte b \<longleftrightarrow> a = b"
  by (cases a; cases b) (simp_all add: class_byte_def)

interpretation cc_scope: prefix_code push_confirmation_scope scope_fits
proof
  fix x y r s
  assume f: "scope_fits x" "scope_fits y" and "push_confirmation_scope x @ r = push_confirmation_scope y @ s"
  then have c: "hs_class x = hs_class y" and
    e0: "push_confirmation_optional_field (hs_destination x) @ push_confirmation_optional_field (hs_provider x) @
        push_confirmation_optional_field (hs_path x) @ r =
      push_confirmation_optional_field (hs_destination y) @ push_confirmation_optional_field (hs_provider y) @
        push_confirmation_optional_field (hs_path y) @ s"
    by (simp_all add: push_confirmation_scope_def)
  note e1 = cc_option.enc_split [OF _ _ e0]
  have 1: "hs_destination x = hs_destination y" using e1 f by (simp add: scope_fits_def)
  note e2 = cc_option.enc_split [OF _ _ e1 [THEN conjunct2]]
  have 2: "hs_provider x = hs_provider y" using e2 f by (simp add: scope_fits_def)
  note e3 = cc_option.enc_split [OF _ _ e2 [THEN conjunct2]]
  show "x = y \<and> r = s" using e3 f c 1 2 by (simp add: scope_fits_def)
qed

definition human_fits :: "human_approval_token \<Rightarrow> bool" where
  "human_fits t \<longleftrightarrow>
     fits (ht_provenance_digest t) \<and> fits (ht_dependency_digest t) \<and> fits (ht_command_digest t) \<and>
     fits (ht_result_digest t) \<and> scope_fits (ht_scope t)"

definition side_effect_fits :: "side_effect_token \<Rightarrow> bool" where
  "side_effect_fits t \<longleftrightarrow>
     fits (st_provenance_digest t) \<and> fits (st_operation_digest t) \<and> fits (st_payload_digest t) \<and>
     scope_fits (st_scope t)"

text \<open>Both payloads: a domain, the requester, three numbers, digests, the scope, three numbers.\<close>

definition payload_bytes :: "str \<Rightarrow> principal \<Rightarrow> u64 list \<Rightarrow> str list \<Rightarrow> high_risk_scope \<Rightarrow> u64 list \<Rightarrow> bytes" where
  "payload_bytes label who ids digests scope stamps =
     push_confirmation_field (str_bytes label) @ push_confirmation_principal who @
     concat (map push_confirmation_u64 ids) @ concat (map (\<lambda>d. push_confirmation_field (str_bytes d)) digests) @
     push_confirmation_scope scope @ concat (map push_confirmation_u64 stamps)"

lemma payload_domain:
  "payload_bytes d1 w1 i1 g1 s1 t1 = payload_bytes d2 w2 i2 g2 s2 t2 \<Longrightarrow> fits d1 \<Longrightarrow> fits d2 \<Longrightarrow> d1 = d2"
  unfolding payload_bytes_def by (drule cc_field.enc_split [rotated 2]) auto

lemma payload_inject:
  assumes eq: "payload_bytes d w1 i1 g1 s1 t1 = payload_bytes d w2 i2 g2 s2 t2"
    and len: "length i1 = length i2" "length g1 = length g2" "length t1 = length t2"
    and f: "list_all fits g1" "list_all fits g2" "scope_fits s1" "scope_fits s2"
  shows "w1 = w2 \<and> i1 = i2 \<and> g1 = g2 \<and> s1 = s2 \<and> t1 = t2"
proof -
  have e0: "push_confirmation_principal w1 @ concat (map push_confirmation_u64 i1) @
      concat (map (\<lambda>d. push_confirmation_field (str_bytes d)) g1) @ push_confirmation_scope s1 @
      concat (map push_confirmation_u64 t1) =
    push_confirmation_principal w2 @ concat (map push_confirmation_u64 i2) @
      concat (map (\<lambda>d. push_confirmation_field (str_bytes d)) g2) @ push_confirmation_scope s2 @
      concat (map push_confirmation_u64 t2)"
    using eq by (simp add: payload_bytes_def)
  note e1 = cc_principal.enc_split [OF TrueI TrueI e0]
  note e2 = cc_u64.enc_list_split [OF len(1) _ _ e1 [THEN conjunct2]]
  note e3 = cc_field.enc_list_split [OF len(2) f(1,2) e2 [THEN conjunct2]]
  note e4 = cc_scope.enc_split [OF f(3,4) e3 [THEN conjunct2]]
  have tl: "concat (map push_confirmation_u64 t1) @ [] = concat (map push_confirmation_u64 t2) @ []"
    using e4 by (simp add: list_all_iff)
  show ?thesis using e1 e2 e3 e4 cc_u64.enc_list_split [OF len(3) _ _ tl] by (simp add: list_all_iff)
qed

lemma human_payload_bytes:
  "human_signing_payload t = payload_bytes ''ketchup.human-confirmation.v1'' (ht_requester t)
     [ht_approving_human t, ht_document t, ht_revision t]
     [ht_provenance_digest t, ht_dependency_digest t, ht_command_digest t, ht_result_digest t] (ht_scope t)
     [ht_policy_epoch t, ht_issued_at_ms t, ht_expires_at_ms t]"
  by (simp add: human_signing_payload_def payload_bytes_def)

lemma side_effect_payload_bytes:
  "side_effect_signing_payload t = payload_bytes ''ketchup.side-effect-confirmation.v1'' (st_requester t)
     [st_approving_human t, st_document t, st_revision t]
     [st_provenance_digest t, st_operation_digest t, st_payload_digest t] (st_scope t)
     [st_policy_epoch t, st_issued_at_ms t, st_expires_at_ms t]"
  by (simp add: side_effect_signing_payload_def payload_bytes_def)

lemma human_payload_inject:
  assumes "human_fits t" and "human_fits u" and "human_signing_payload t = human_signing_payload u"
  shows "t \<lparr>ht_signature := x\<rparr> = u \<lparr>ht_signature := x\<rparr>"
  using payload_inject [OF assms(3) [unfolded human_payload_bytes]] assms(1,2) by (simp add: human_fits_def)

lemma side_effect_payload_inject:
  assumes "side_effect_fits t" and "side_effect_fits u" and "side_effect_signing_payload t = side_effect_signing_payload u"
  shows "t \<lparr>st_signature := x\<rparr> = u \<lparr>st_signature := x\<rparr>"
  using payload_inject [OF assms(3) [unfolded side_effect_payload_bytes]] assms(1,2) by (simp add: side_effect_fits_def)

lemma payloads_apart: "human_signing_payload t \<noteq> side_effect_signing_payload u"
proof
  assume "human_signing_payload t = side_effect_signing_payload u"
  from payload_domain [OF this [unfolded human_payload_bytes side_effect_payload_bytes]]
  show False by (simp add: fits_def)
qed

end
