(* ===== verification/Ketchup_Approval.thy ===== *)
theory Ketchup_Approval
  imports Ketchup_Proposal
begin

text \<open>
  What proposals and approvals promise, over the model of theory \<^verbatim>\<open>Ketchup_Proposal\<close>: a commit
  publishes the verified result or leaves the history alone, a prepared proposal can be committed,
  a token authorises one proposal once, a corrected tip takes the place of the old one.
\<close>

section \<open>Commits\<close>

text \<open>The history and all that is read from it; only the mutation epoch may differ.\<close>

definition same_history :: "('r, 'f) document_store \<Rightarrow> ('r, 'f) document_store \<Rightarrow> bool" where
  "same_history s t \<longleftrightarrow>
     ds_revisions t = ds_revisions s \<and> ds_cursor t = ds_cursor s \<and> ds_next_revision_id t = ds_next_revision_id s \<and>
     ds_registry t = ds_registry s \<and> ds_policy t = ds_policy s"

lemma same_history_refl [simp]: "same_history s s"
  by (simp add: same_history_def)

lemma batch_policy:
  assumes "apply_batch_with sha fam batch origin drawings s = Inr (r, t)"
  shows "ds_policy t = ds_policy s"
  by (rule apply_batch_Inr [OF assms], erule publish_Inr) (simp add: push_revision_def Let_def)

lemma commit_inner_Inr:
  assumes "commit_verified_proposal_inner sha fam an p s = (Inr c, t)"
  shows "apply_batch_with sha fam (pr_batch p) (Principal (pr_principal p)) True s = Inr (vc_revision c, t) \<and>
    is_ok (verify_proposal_candidate sha fam an p s) \<and> rv_batch_digest (vc_revision c) = pr_command_digest p \<and>
    vc_result_digest c = pr_result_digest p \<and> vc_command_digest c = pr_command_digest p \<and> vc_writes c = pr_writes p \<and>
    an_digest an (sn_product (rv_snapshot (vc_revision c))) (pr_writes p) = pr_result_digest p"
  using assms
  by (auto simp: commit_verified_proposal_inner_def Let_def map_fault_def is_ok_iff
      split: sum.splits prod.splits if_splits)

lemma commit_inner_Inl:
  assumes "commit_verified_proposal_inner sha fam an p s = (Inl e, t)"
  shows "t = s \<or> (\<exists>r u. apply_batch_with sha fam (pr_batch p) (Principal (pr_principal p)) True s = Inr (r, u) \<and>
    t = restore_state s u)"
proof (cases "verify_proposal_candidate sha fam an p s")
  case (Inl x)
  with assms show ?thesis by (simp add: commit_verified_proposal_inner_def)
next
  case v: (Inr cand)
  show ?thesis
  proof (cases "apply_batch_with sha fam (pr_batch p) (Principal (pr_principal p)) True s")
    case (Inl x)
    with assms v show ?thesis by (simp add: commit_verified_proposal_inner_def)
  next
    case (Inr ru)
    then obtain r u where a: "apply_batch_with sha fam (pr_batch p) (Principal (pr_principal p)) True s = Inr (r, u)"
      by (cases ru) simp
    with assms v have "t = u \<lparr>ds_revisions := ds_revisions s, ds_cursor := ds_cursor s,
        ds_next_revision_id := ds_next_revision_id s, ds_registry := ds_registry s\<rparr>"
      by (auto simp: commit_verified_proposal_inner_def Let_def split: if_splits)
    then have "t = restore_state s u" using batch_policy [OF a] by (simp add: restore_state_def)
    with a show ?thesis by blast
  qed
qed

lemma restore_same_history: "same_history s (restore_state s u)"
  by (simp add: same_history_def restore_state_def)

lemma commit_inner_same_history:
  "commit_verified_proposal_inner sha fam an p s = (Inl e, t) \<Longrightarrow> same_history s t"
  using commit_inner_Inl restore_same_history by fastforce

lemma commit_inner_reachable:
  assumes "reachable sha json fam valid_key s" and "scopes_wf (cb_commands (pr_batch p))"
  shows "reachable sha json fam valid_key (snd (commit_verified_proposal_inner sha fam an p s))"
proof (cases "commit_verified_proposal_inner sha fam an p s")
  case (Pair out t)
  show ?thesis
  proof (cases out)
    case (Inl e)
    with Pair commit_inner_Inl [of sha fam an p s e t] show ?thesis
      using assms reachable.batched reachable.restored by (metis snd_conv)
  next
    case (Inr c)
    with Pair commit_inner_Inr [of sha fam an p s c t] show ?thesis
      using assms reachable.batched by (metis snd_conv)
  qed
qed

section \<open>A prepared proposal\<close>

lemma candidate_Inr:
  assumes "proposal_candidate_with_validation sha fam an e snapshot batch writes goal drawings = Inr (after, diff, digest)"
  obtains candidate r u where "from_product fam e (sn_revision_id snapshot) (sn_product snapshot) = Inr candidate"
    and "apply_batch_with sha fam batch (Principal ManualClient) drawings candidate = Inr (r, u)"
    and "after = rv_snapshot r" and "diff = candidate_diff an snapshot after writes goal"
    and "digest = an_digest an (sn_product after) writes"
  using assms by (auto simp: proposal_candidate_with_validation_def map_fault_def candidate_result_def result_simps)

lemma candidate_previews:
  assumes "proposal_candidate_with_validation sha fam an (ds_next_epoch s) (current s) batch writes goal True =
      Inr (after, diff, digest)"
  shows "\<exists>snap. preview_batch sha fam batch s = Inr snap \<and> sn_product snap = sn_product after"
proof (rule candidate_Inr [OF assms])
  fix candidate r u
  assume c: "from_product fam (ds_next_epoch s) (sn_revision_id (current s)) (sn_product (current s)) = Inr candidate"
    and a: "apply_batch_with sha fam batch (Principal ManualClient) True candidate = Inr (r, u)" and after: "after = rv_snapshot r"
  have "cursor_wf candidate"
    using c by (auto simp: from_product_def opened_store_def fresh_mutation_epoch_def result_simps cursor_wf_def split: if_splits)
  moreover obtain mk where p: "publish mk candidate = Inr (r, u)" by (rule apply_batch_Inr [OF a])
  ultimately have "current_revision u = r"
    using push_revision_view(2) [of candidate r] by (elim publish_Inr) (simp add: current_revision_def)
  then show ?thesis using c a after by (simp add: preview_batch_def apply_batch_def current_def)
qed

lemma apply_origin_irrelevant:
  assumes "apply_batch_with sha fam batch origin drawings s = Inr (r, t)"
  shows "\<exists>r' t'. apply_batch_with sha fam batch origin' drawings s = Inr (r', t') \<and> rv_snapshot r' = rv_snapshot r"
proof -
  from assms obtain edit product evaluation features where
    o: "cb_schema batch = COMMAND_SCHEMA_V1" "cb_commands batch \<noteq> []"
    "try_fold (edit_apply sha fam) (start_edit fam (sn_product (current s)) (rv_evaluation (current_revision s)))
      (cb_commands batch) = Inr edit"
    "check_product fam (sn_product (current s)) (cb_commands batch) drawings edit = Inr product"
    "checked_add_u64 (ds_next_revision_id s) 1 \<noteq> None"
    "evaluate_batch sha fam (cb_commands batch) edit product = Inr evaluation"
    "fam_features fam (sn_product (current s)) (be_extra edit) product = Inr features"
    and p: "publish (batch_revision fam batch origin product evaluation features s) s = Inr (r, t)"
    by (auto simp: apply_batch_with_def result_simps)
  let ?mk = "batch_revision fam batch origin' product evaluation features s"
  have "is_ok (publish ?mk s)" using p publish_ok_iff by (metis is_ok_iff)
  then obtain r' t' where p': "publish ?mk s = Inr (r', t')" by (auto simp: is_ok_iff)
  have "r = batch_revision fam batch origin product evaluation features s (ds_next_revision_id s)"
    by (rule publish_Inr [OF p])
  moreover have "r' = ?mk (ds_next_revision_id s)" by (rule publish_Inr [OF p'])
  ultimately have "rv_snapshot r' = rv_snapshot r" by (simp add: batch_revision_def)
  moreover have "apply_batch_with sha fam batch origin' drawings s = Inr (r', t')"
    using o(5) by (auto simp: apply_batch_with_def o p')
  ultimately show ?thesis by blast
qed

lemma prepare_Inr:
  assumes "prepare_proposal_with_context sha fam an batch context s = Inr p"
  obtains after diff digest where
    "proposal_candidate_with_validation sha fam an (ds_next_epoch s) (current s) batch (an_writes an (current s) batch)
      (px_goal context) True = Inr (after, diff, digest)"
    and "validate_confirmation_requirement context = Inr ()"
    and "validate_proposal_budget (px_budget context) (proposal_cost_of an (current s) batch) = Inr ()"
    and "pr_document p = document_of fam (current s)" and "pr_batch p = batch"
    and "pr_command_digest p = batch_digest fam batch" and "pr_dependencies p = an_dependencies an (current s) batch"
    and "pr_writes p = an_writes an (current s) batch" and "pr_diff p = diff" and "pr_result_digest p = digest"
    and "pr_dependency_digest p = an_digest an (sn_product (current s)) (an_dependencies an (current s) batch)"
    and "pr_principal p = px_principal context" and "pr_goal p = px_goal context" and "pr_risk p = px_risk context"
    and "pr_confirmation p = px_confirmation context"
  using assms
  by (auto simp: prepare_proposal_with_context_def prepare_proposal_with_context_and_validation_def Let_def result_simps)

lemma prepared_verifies:
  assumes "prepare_proposal_with_context sha fam an batch context s = Inr p"
  shows "\<exists>cand. verify_proposal_candidate sha fam an p s = Inr cand \<and>
    an_digest an (sn_product cand) (pr_writes p) = pr_result_digest p \<and>
    (\<exists>snap. preview_batch sha fam batch s = Inr snap \<and> sn_product snap = sn_product cand)"
proof (rule prepare_Inr [OF assms])
  fix after diff digest
  assume c: "proposal_candidate_with_validation sha fam an (ds_next_epoch s) (current s) batch
      (an_writes an (current s) batch) (px_goal context) True = Inr (after, diff, digest)"
    and p: "pr_document p = document_of fam (current s)" "pr_batch p = batch"
      "pr_command_digest p = batch_digest fam batch" "pr_dependencies p = an_dependencies an (current s) batch"
      "pr_writes p = an_writes an (current s) batch" "pr_diff p = diff" "pr_result_digest p = digest"
      "pr_dependency_digest p = an_digest an (sn_product (current s)) (an_dependencies an (current s) batch)"
      "pr_goal p = px_goal context"
  have "verify_proposal_candidate sha fam an p s = Inr after"
    by (simp add: verify_proposal_candidate_def validate_proposal_def Let_def p proposal_candidate_snapshot_def c
        map_fault_def)
  moreover have "an_digest an (sn_product after) (pr_writes p) = pr_result_digest p"
    by (rule candidate_Inr [OF c]) (simp add: p)
  ultimately show ?thesis using candidate_previews [OF c] by blast
qed

lemma prepared_commits:
  assumes inv: "store_inv sha s" and "list_all (\<lambda>c. \<not> recomputes c) (cb_commands batch)"
    and prep: "prepare_proposal_with_context sha fam an batch context s = Inr p"
    and "checked_add_u64 (ds_next_revision_id s) 1 \<noteq> None" and "ds_next_epoch s \<noteq> - 1"
  shows "\<exists>c t. commit_verified_proposal_inner sha fam an p s = (Inr c, t)"
proof -
  from prepared_verifies [OF prep] obtain cand snap where
    v: "verify_proposal_candidate sha fam an p s = Inr cand"
    "an_digest an (sn_product cand) (pr_writes p) = pr_result_digest p"
    and snap: "preview_batch sha fam batch s = Inr snap" "sn_product snap = sn_product cand" by blast
  from preview_applies [OF inv assms(2) snap(1) assms(4,5)] obtain r t where
    "apply_batch sha fam batch s = Inr (r, t)" "sn_product (rv_snapshot r) = sn_product cand" using snap(2) by auto
  then obtain r' t' where
    a: "apply_batch_with sha fam batch (Principal (pr_principal p)) True s = Inr (r', t')"
    "sn_product (rv_snapshot r') = sn_product cand"
    using apply_origin_irrelevant [of sha fam batch "Principal ManualClient" True s r t "Principal (pr_principal p)"]
    by (auto simp: apply_batch_def)
  have b: "pr_batch p = batch" "pr_command_digest p = batch_digest fam batch" by (rule prepare_Inr [OF prep], assumption)+
  have "rv_batch_digest r' = batch_digest fam batch"
    by (rule apply_batch_Inr [OF a(1)]) (simp add: batch_revision_def)
  then show ?thesis using a v b by (simp add: commit_verified_proposal_inner_def Let_def)
qed

section \<open>Approvals\<close>

lemma check_approval_Inr:
  "check_approval verify p a now s = Inr () \<longleftrightarrow>
     (\<exists>class scope policy. pr_risk p = High class \<and> pr_confirmation p = HumanOnly scope \<and> ds_policy s = Some policy \<and>
        cp_epoch policy = ht_policy_epoch a \<and> ht_signature a \<notin> set (cp_consumed policy) \<and>
        approval_matches a p scope class now \<and>
        verify (cp_verifying_key policy) (human_signing_payload a) (ht_signature a))"
  by (auto simp: check_approval_def result_simps split: proposal_risk.splits proposal_confirmation.splits)

lemma high_risk_Inr:
  assumes "commit_high_risk_proposal sha verify fam an p a now s = (Inr c, t)"
  shows "check_approval verify p a now s = Inr () \<and>
    (\<exists>u. commit_verified_proposal_inner sha fam an p s = (Inr c, u) \<and> t = consume_signature (ht_signature a) u)"
  using assms
  by (auto simp: commit_high_risk_proposal_def split: sum.splits prod.splits if_splits)

lemma high_risk_Inl:
  assumes "commit_high_risk_proposal sha verify fam an p a now s = (Inl e, t)"
  shows "same_history s t"
proof (cases "check_approval verify p a now s")
  case (Inl x)
  with assms show ?thesis by (simp add: commit_high_risk_proposal_def)
next
  case ok: (Inr u)
  then obtain policy where pol: "ds_policy s = Some policy" using check_approval_Inr by (metis (full_types) old.unit.exhaust)
  obtain out v where inner: "commit_verified_proposal_inner sha fam an p s = (out, v)" by fastforce
  show ?thesis
  proof (cases out)
    case (Inl x)
    with assms ok inner have "t = v" by (simp add: commit_high_risk_proposal_def)
    with inner Inl commit_inner_same_history show ?thesis by fastforce
  next
    case (Inr c)
    with inner commit_inner_Inr batch_policy have "ds_policy v = Some policy" by (metis pol)
    with assms ok inner Inr show ?thesis by (simp add: commit_high_risk_proposal_def)
  qed
qed

text \<open>How a policy may change while a store lives: a new epoch, or more signatures consumed.\<close>

definition policy_advances :: "confirmation_policy option \<Rightarrow> confirmation_policy option \<Rightarrow> bool" where
  "policy_advances p q \<longleftrightarrow>
     (\<forall>a. p = Some a \<longrightarrow> (\<exists>b. q = Some b \<and>
        (cp_epoch a < cp_epoch b \<or> cp_epoch a = cp_epoch b \<and> set (cp_consumed a) \<subseteq> set (cp_consumed b))))"

lemma policy_advances_refl [simp, intro]: "policy_advances p p"
  by (auto simp: policy_advances_def)

lemma policy_advances_trans: "policy_advances p q \<Longrightarrow> policy_advances q r \<Longrightarrow> policy_advances p r"
  by (fastforce simp: policy_advances_def)

lemma policy_advances_consume: "policy_advances (ds_policy s) (ds_policy (consume_signature x s))"
  by (auto simp: policy_advances_def consume_signature_def)

lemma consumed_member:
  "ds_policy s = Some p \<Longrightarrow> \<exists>q. ds_policy (consume_signature x s) = Some q \<and> x \<in> set (cp_consumed q) \<and> cp_epoch q = cp_epoch p"
  by (auto simp: consume_signature_def)


section \<open>The life of a store\<close>

text \<open>
  One operation on a live store, successful or not, the approved ones included.  (A failed
  transaction is not among them: it puts the policy back with the history.)
\<close>

inductive live_step ::
  "(bytes \<Rightarrow> bytes) \<Rightarrow> (rule_program_source \<Rightarrow> bytes) \<Rightarrow> (bytes \<Rightarrow> bytes \<Rightarrow> bytes \<Rightarrow> bool) \<Rightarrow> (bytes \<Rightarrow> bool) \<Rightarrow>
   ('r, 'x, 'c, 'f) families \<Rightarrow> ('r, 'c, 'd, 'v) analysis \<Rightarrow> ('r, 'f) document_store \<Rightarrow> ('r, 'f) document_store \<Rightarrow> bool"
  for sha json verify valid_key fam an where
  live_batch: "apply_batch_with sha fam batch origin drawings s = Inr (r, t) \<Longrightarrow> live_step sha json verify valid_key fam an s t"
| live_undo: "moved (undo s) = Some t \<Longrightarrow> live_step sha json verify valid_key fam an s t"
| live_redo: "moved (redo s) = Some t \<Longrightarrow> live_step sha json verify valid_key fam an s t"
| live_bind: "bind_rule_program sha json source s = Inr t \<Longrightarrow> live_step sha json verify valid_key fam an s t"
| live_replace: "replace_rule_program_source sha json fam source s = Inr t \<Longrightarrow> live_step sha json verify valid_key fam an s t"
| live_checkpoint: "create_checkpoint fam rid digest name s = Inr t \<Longrightarrow> live_step sha json verify valid_key fam an s t"
| live_rollback: "rollback_to_revision sha fam rid digest target who s = Inr (r, t) \<Longrightarrow> live_step sha json verify valid_key fam an s t"
| live_publish: "publish_replacement fam u s = Inr (r, t) \<Longrightarrow> live_step sha json verify valid_key fam an s t"
| live_discard: "live_step sha json verify valid_key fam an s (discard_history_before_current s)"
| live_register: "register_evaluation sha fam root path report s = Inr (key, t) \<Longrightarrow> live_step sha json verify valid_key fam an s t"
| live_configure: "configure_human_confirmation_policy valid_key vkey epoch s = Inr t \<Longrightarrow> live_step sha json verify valid_key fam an s t"
| live_commit: "commit_verified_proposal sha fam an p s = (out, t) \<Longrightarrow> live_step sha json verify valid_key fam an s t"
| live_program: "commit_verified_rule_program_proposal sha json fam an p source s = (out, t) \<Longrightarrow> live_step sha json verify valid_key fam an s t"
| live_high_risk: "commit_high_risk_proposal sha verify fam an p a now s = (out, t) \<Longrightarrow> live_step sha json verify valid_key fam an s t"
| live_side_effect: "authorize_high_risk_side_effect verify fam sp st now s = Inr (receipt, t) \<Longrightarrow> live_step sha json verify valid_key fam an s t"
| live_tip: "commit_tip_replacement_proposal sha fam an tp s = (out', t) \<Longrightarrow> live_step sha json verify valid_key fam an s t"

lemma publish_policy: "publish mk s = Inr (r, t) \<Longrightarrow> ds_policy t = ds_policy s"
  by (erule publish_Inr) (simp add: push_revision_def Let_def)

lemma commit_inner_policy:
  assumes "commit_verified_proposal_inner sha fam an p s = (out, t)"
  shows "ds_policy t = ds_policy s"
proof (cases out)
  case (Inl e)
  with assms commit_inner_same_history show ?thesis by (fastforce simp: same_history_def)
next
  case (Inr c)
  with assms commit_inner_Inr batch_policy show ?thesis by metis
qed

lemma commit_policy: "commit_verified_proposal sha fam an p s = (out, t) \<Longrightarrow> ds_policy t = ds_policy s"
  using commit_inner_policy by (auto simp: commit_verified_proposal_def split: if_splits)

lemma program_commit_policy:
  "commit_verified_rule_program_proposal sha json fam an p source s = (out, t) \<Longrightarrow> ds_policy t = ds_policy s"
  using commit_policy [of sha fam an p s]
  by (auto simp: commit_verified_rule_program_proposal_def set_current_def split: sum.splits prod.splits)

lemma high_risk_policy:
  assumes "commit_high_risk_proposal sha verify fam an p a now s = (out, t)"
  shows "policy_advances (ds_policy s) (ds_policy t)"
proof (cases out)
  case (Inl e)
  with assms high_risk_Inl show ?thesis by (fastforce simp: same_history_def)
next
  case (Inr c)
  with assms high_risk_Inr obtain u where
    "commit_verified_proposal_inner sha fam an p s = (Inr c, u)" "t = consume_signature (ht_signature a) u" by blast
  then show ?thesis using commit_inner_policy policy_advances_consume by metis
qed

lemma tip_policy:
  assumes "commit_tip_replacement_proposal sha fam an tp s = (out, t)"
  shows "ds_policy t = ds_policy s"
proof (cases "verify_tip_replacement_proposal sha fam an tp s")
  case (Inl e)
  with assms show ?thesis by (auto simp: commit_tip_replacement_proposal_def split: if_splits)
next
  case v: (Inr expected)
  show ?thesis
  proof (cases "apply_batch sha fam (tr_batch tp) (drop_tip s)")
    case (Inl e)
    with assms v show ?thesis by (auto simp: commit_tip_replacement_proposal_def split: if_splits)
  next
    case (Inr ru)
    then obtain r u where a: "apply_batch sha fam (tr_batch tp) (drop_tip s) = Inr (r, u)" by (cases ru) simp
    have "ds_policy u = ds_policy s"
      using batch_policy [OF a [unfolded apply_batch_def]] by (simp add: drop_tip_def)
    with assms v a show ?thesis by (auto simp: commit_tip_replacement_proposal_def split: if_splits)
  qed
qed

lemma live_step_policy:
  "live_step sha json verify valid_key fam an s t \<Longrightarrow> policy_advances (ds_policy s) (ds_policy t)"
proof (induction rule: live_step.induct)
  case (live_batch batch origin drawings s r t)
  then show ?case using batch_policy by fastforce
next
  case (live_undo s t)
  then show ?case by (simp add: moved_undo)
next
  case (live_redo s t)
  then show ?case by (simp add: moved_redo)
next
  case (live_bind source s t)
  then show ?case by (auto simp: bind_rule_program_def set_current_def result_simps)
next
  case (live_replace source s t)
  then show ?case
    using publish_policy by (fastforce simp: replace_rule_program_source_def result_simps split: if_splits)
next
  case (live_checkpoint rid digest name s t)
  then show ?case
    by (auto simp: create_checkpoint_def set_current_def fresh_mutation_epoch_def result_simps split: if_splits)
next
  case (live_rollback rid digest target who s r t)
  then obtain mk t' where "publish mk s = Inr (r, t')" "t = t' \<lparr>ds_registry := []\<rparr>"
    by (auto simp: rollback_to_revision_def lift_exhausted_def result_simps)
  then show ?case using publish_policy by fastforce
next
  case (live_publish u s r t)
  then obtain mk t' where "publish mk s = Inr (r, t')" "t = t' \<lparr>ds_registry := []\<rparr>"
    by (auto simp: publish_replacement_def result_simps)
  then show ?case using publish_policy by fastforce
next
  case (live_discard s)
  then show ?case by (simp add: discard_history_before_current_def)
next
  case (live_register root path report s key t)
  show ?case by (rule register_Inr [OF live_register]) simp
next
  case (live_configure vkey epoch s t)
  then show ?case
    by (auto simp: configure_human_confirmation_policy_def result_simps policy_advances_def split: option.splits)
next
  case (live_commit p s out t)
  then show ?case using commit_policy by fastforce
next
  case (live_program p source s out t)
  then show ?case using program_commit_policy by fastforce
next
  case (live_high_risk p a now s out t)
  then show ?case by (rule high_risk_policy)
next
  case (live_side_effect sp st now s receipt t)
  then show ?case using policy_advances_consume by (auto simp: authorize_high_risk_side_effect_def result_simps)
next
  case (live_tip tp s out' t)
  then show ?case using tip_policy by fastforce
qed

lemma live_steps_policy:
  "(live_step sha json verify valid_key fam an)\<^sup>*\<^sup>* s t \<Longrightarrow> policy_advances (ds_policy s) (ds_policy t)"
  by (induction rule: rtranclp_induct) (auto intro: policy_advances_trans live_step_policy)

text \<open>A signature is used up: consumed under its epoch, or its epoch is past.\<close>

definition used_up :: "u64 \<Rightarrow> bytes \<Rightarrow> ('r, 'f) document_store \<Rightarrow> bool" where
  "used_up epoch signature s \<longleftrightarrow>
     (\<exists>p. ds_policy s = Some p \<and> (epoch < cp_epoch p \<or> epoch = cp_epoch p \<and> signature \<in> set (cp_consumed p)))"

lemma used_up_stays: "used_up e x s \<Longrightarrow> policy_advances (ds_policy s) (ds_policy t) \<Longrightarrow> used_up e x t"
  by (fastforce simp: used_up_def policy_advances_def)

lemma used_up_refused:
  assumes "used_up (ht_policy_epoch a) (ht_signature a) s"
  shows "\<exists>e. commit_high_risk_proposal sha verify fam an p a now s = (Inl (Returned e), s)"
proof -
  from assms have "check_approval verify p a now s \<noteq> Inr ()"
    unfolding check_approval_Inr used_up_def by fastforce
  then obtain e where "check_approval verify p a now s = Inl e" by (cases "check_approval verify p a now s") auto
  then show ?thesis by (simp add: commit_high_risk_proposal_def)
qed

lemma side_effect_used_up_refused:
  assumes "used_up (st_policy_epoch a) (st_signature a) s"
  shows "\<exists>e. authorize_high_risk_side_effect verify fam p a now s = Inl e"
proof (rule ccontr)
  assume "\<nexists>e. authorize_high_risk_side_effect verify fam p a now s = Inl e"
  then obtain x where "authorize_high_risk_side_effect verify fam p a now s = Inr x"
    by (cases "authorize_high_risk_side_effect verify fam p a now s") auto
  with assms show False by (auto simp: authorize_high_risk_side_effect_def used_up_def result_simps)
qed

lemma high_risk_uses_up:
  assumes "commit_high_risk_proposal sha verify fam an p a now s = (Inr c, t)"
  shows "used_up (ht_policy_epoch a) (ht_signature a) t"
proof -
  from high_risk_Inr [OF assms] obtain u where "check_approval verify p a now s = Inr ()"
    and u: "commit_verified_proposal_inner sha fam an p s = (Inr c, u)" "t = consume_signature (ht_signature a) u" by blast
  then obtain policy where "ds_policy s = Some policy" "cp_epoch policy = ht_policy_epoch a"
    unfolding check_approval_Inr by blast
  with consumed_member [of u policy "ht_signature a"] commit_inner_policy [OF u(1)] u(2) show ?thesis
    by (auto simp: used_up_def)
qed

lemma side_effect_uses_up:
  assumes "authorize_high_risk_side_effect verify fam p a now s = Inr (receipt, t)"
  shows "used_up (st_policy_epoch a) (st_signature a) t"
  using assms consumed_member [of s _ "st_signature a"]
  by (fastforce simp: authorize_high_risk_side_effect_def used_up_def result_simps)


section \<open>Replacing the tip\<close>

lemma envelope_Inr:
  "validate_tip_replacement_envelope fam document parent_revision parent_digest superseded superseded_digest corrected s =
     Inr parent \<longleftrightarrow>
   ds_cursor s \<noteq> 0 \<and> ds_cursor s + 1 = length (ds_revisions s) \<and> document_of fam (current s) = document \<and>
   sn_revision_id (current s) = superseded \<and> canonical_digest fam (current s) = superseded_digest \<and>
   document_of fam (parent_snapshot s) = document \<and> sn_revision_id (parent_snapshot s) = parent_revision \<and>
   canonical_digest fam (parent_snapshot s) = parent_digest \<and> checked_add_u64 superseded 1 = Some corrected \<and>
   ds_next_revision_id s = corrected \<and> parent = parent_snapshot s"
  by (auto simp: validate_tip_replacement_envelope_def result_simps)

lemma drop_tip_view:
  assumes "store_inv sha s" and "ds_cursor s \<noteq> 0" and "ds_cursor s + 1 = length (ds_revisions s)"
  shows "store_inv sha (drop_tip s) \<and> store_past s = store_past (drop_tip s) @ [current_revision (drop_tip s)] \<and>
    rv_snapshot (current_revision (drop_tip s)) = parent_snapshot s \<and> store_ahead (drop_tip s) = []"
proof -
  let ?rs = "ds_revisions s"
  have but: "butlast ?rs = take (ds_cursor s) ?rs" using assms(3) by (metis butlast_conv_take add_diff_cancel_right')
  have sub: "set (butlast ?rs) \<subseteq> set ?rs" by (auto dest: in_set_butlastD)
  have srt: "sorted_wrt precedes (butlast ?rs)" unfolding but using assms(1) by (simp add: store_inv_def sorted_wrt_take)
  have "store_inv sha (drop_tip s)"
    using assms sub srt by (auto simp: store_inv_def drop_tip_def cursor_wf_def list_all_iff)
  moreover have "store_past s = store_past (drop_tip s) @ [current_revision (drop_tip s)]"
    using assms(2,3) but
    by (cases "ds_cursor s") (auto simp: store_past_def drop_tip_def current_revision_def take_Suc_conv_app_nth nth_append)
  moreover have "current_revision (drop_tip s) = ?rs ! (ds_cursor s - 1)"
    using assms(2,3) but by (simp add: drop_tip_def current_revision_def)
  ultimately show ?thesis using assms(2,3) by (auto simp: parent_snapshot_def store_ahead_def drop_tip_def)
qed

lemma tip_Inr:
  assumes "commit_tip_replacement_proposal sha fam an p s = (Inr r, t)"
  obtains expected u where "tr_risk p = Standard" and "verify_tip_replacement_proposal sha fam an p s = Inr expected"
    and "apply_batch sha fam (tr_batch p) (drop_tip s) = Inr (r, u)"
    and "check_replacement fam an p (parent_snapshot s) expected r"
    and "t = u \<lparr>ds_registry := filter (\<lambda>q. drk_revision (fst q) \<noteq> tr_superseded_revision p) (ds_registry u)\<rparr>"
  using assms
  by (auto simp: commit_tip_replacement_proposal_def map_fault_def split: if_splits sum.splits prod.splits)

lemma tip_Inl:
  assumes "commit_tip_replacement_proposal sha fam an p s = (Inl e, t)"
  shows "same_history s t"
proof (cases "verify_tip_replacement_proposal sha fam an p s")
  case (Inl x)
  with assms show ?thesis by (auto simp: commit_tip_replacement_proposal_def split: if_splits)
next
  case v: (Inr expected)
  show ?thesis
  proof (cases "apply_batch sha fam (tr_batch p) (drop_tip s)")
    case (Inl x)
    with assms v show ?thesis by (auto simp: commit_tip_replacement_proposal_def split: if_splits)
  next
    case (Inr ru)
    then obtain r u where a: "apply_batch sha fam (tr_batch p) (drop_tip s) = Inr (r, u)" by (cases ru) simp
    have "ds_policy u = ds_policy s"
      using batch_policy [OF a [unfolded apply_batch_def]] by (simp add: drop_tip_def)
    with assms v a show ?thesis
      by (auto simp: commit_tip_replacement_proposal_def same_history_def split: if_splits)
  qed
qed

lemma verify_tip_envelope:
  assumes "verify_tip_replacement_proposal sha fam an p s = Inr expected"
  shows "ds_cursor s \<noteq> 0 \<and> ds_cursor s + 1 = length (ds_revisions s) \<and>
    sn_revision_id (current s) = tr_superseded_revision p \<and>
    checked_add_u64 (tr_superseded_revision p) 1 = Some (tr_corrected_revision p) \<and>
    ds_next_revision_id s = tr_corrected_revision p"
  using assms by (auto simp: verify_tip_replacement_proposal_def Let_def result_simps envelope_Inr)

lemma tip_replaced:
  assumes inv: "store_inv sha s" and wf: "scopes_wf (cb_commands (tr_batch p))"
    and "commit_tip_replacement_proposal sha fam an p s = (Inr r, t)"
  shows "store_inv sha t \<and> tr_risk p = Standard \<and> current_revision t = r \<and> store_ahead t = [] \<and>
    store_past t = store_past s \<and> rv_id r = tr_corrected_revision p \<and> rv_id (current_revision s) < rv_id r \<and>
    rv_batch_digest r = tr_command_digest p \<and> rv_origin r = Principal ManualClient \<and>
    an_digest an (sn_product (rv_snapshot r)) (tr_writes p) = tr_result_digest p \<and>
    list_all (\<lambda>q. drk_revision (fst q) \<noteq> rv_id (current_revision s)) (ds_registry t)"
proof (rule tip_Inr [OF assms(3)])
  fix expected u
  assume std: "tr_risk p = Standard" and v: "verify_tip_replacement_proposal sha fam an p s = Inr expected"
    and a: "apply_batch sha fam (tr_batch p) (drop_tip s) = Inr (r, u)"
    and c: "check_replacement fam an p (parent_snapshot s) expected r"
    and t: "t = u \<lparr>ds_registry := filter (\<lambda>q. drk_revision (fst q) \<noteq> tr_superseded_revision p) (ds_registry u)\<rparr>"
  note e = verify_tip_envelope [OF v]
  have d: "store_inv sha (drop_tip s)" "store_past s = store_past (drop_tip s) @ [current_revision (drop_tip s)]"
    using drop_tip_view [OF inv] e by auto
  note b = batch_sound [OF d(1) wf a [unfolded apply_batch_def]]
  have iu: "store_inv sha u" by (rule batch_inv [OF d(1) wf a [unfolded apply_batch_def]])
  have len: "length (store_past (drop_tip s)) + 1 - UNDO_REVISIONS = 0"
  proof -
    have "length (ds_revisions s) \<le> UNDO_REVISIONS + 1" using inv by (simp add: store_inv_def)
    with e have "ds_cursor s \<le> UNDO_REVISIONS" by linarith
    moreover have "length (store_past (drop_tip s)) \<le> ds_cursor s - 1" by (simp add: store_past_def drop_tip_def)
    ultimately show ?thesis using e by linarith
  qed
  have "rv_id (current_revision s) < ds_next_revision_id s"
    using inv current_in [of s] by (auto simp: store_inv_def)
  moreover have "rv_id (current_revision s) = tr_superseded_revision p"
    using inv_current [OF inv] e by (simp add: revision_ok_def current_def)
  moreover have "store_inv sha t" using iu by (simp add: t store_inv_def cursor_wf_def)
  ultimately show ?thesis
    using b d(2) len std c e
    by (auto simp: t pushed_def check_replacement_def list_all_iff current_revision_def store_ahead_def store_past_def)
qed


section \<open>Issued tokens\<close>

lemma issue_Inr:
  assumes "issue sign surface p approver issued expires = Inr a"
  obtains h cls scope where "approver = ApprovedByHuman h" and "h \<noteq> 0" and "pr_principal p \<noteq> Human h"
    and "pr_risk p = High cls" and "pr_confirmation p = HumanOnly scope" and "hs_class scope = cls"
    and "ht_requester a = pr_principal p" and "ht_approving_human a = h" and "ht_document a = pr_document p"
    and "ht_revision a = pr_revision p" and "ht_provenance_digest a = pr_provenance_digest p"
    and "ht_dependency_digest a = pr_dependency_digest p" and "ht_command_digest a = pr_command_digest p"
    and "ht_result_digest a = pr_result_digest p" and "ht_scope a = scope"
    and "ht_policy_epoch a = cs_policy_epoch surface" and "ht_issued_at_ms a = issued" and "ht_expires_at_ms a = expires"
    and "ht_signature a = sign (cs_signing_key surface) (human_signing_payload a)"
  using assms
  by (auto simp: issue_def authenticated_human_def Let_def result_simps human_signing_payload_def
      split: authenticated_approver.splits if_splits proposal_risk.splits proposal_confirmation.splits)

lemma issued_passes:
  assumes "issue sign surface p approver issued expires = Inr a" and "ds_policy s = Some policy"
    and "cp_epoch policy = cs_policy_epoch surface" and "ht_signature a \<notin> set (cp_consumed policy)"
    and "issued \<le> now" and "now \<le> expires"
    and "\<And>m. verify (cp_verifying_key policy) m (sign (cs_signing_key surface) m)"
  shows "check_approval verify p a now s = Inr ()"
proof (rule issue_Inr [OF assms(1)])
  fix h cls scope
  assume i: "h \<noteq> 0" "pr_risk p = High cls" "pr_confirmation p = HumanOnly scope" "hs_class scope = cls"
    "ht_requester a = pr_principal p" "ht_approving_human a = h" "ht_document a = pr_document p"
    "ht_revision a = pr_revision p" "ht_provenance_digest a = pr_provenance_digest p"
    "ht_dependency_digest a = pr_dependency_digest p" "ht_command_digest a = pr_command_digest p"
    "ht_result_digest a = pr_result_digest p" "ht_scope a = scope"
    "ht_policy_epoch a = cs_policy_epoch surface" "ht_issued_at_ms a = issued" "ht_expires_at_ms a = expires"
    "ht_signature a = sign (cs_signing_key surface) (human_signing_payload a)"
  have "approval_matches a p scope cls now" using i assms(5,6) by (auto simp: approval_matches_def)
  then show ?thesis unfolding check_approval_Inr using i assms(2-4) assms(7) by metis
qed

section \<open>A document for the examples\<close>

definition demo_analysis :: "(unit, unit, node_id, bool) analysis" where
  "demo_analysis =
     \<lparr>an_dependencies = (\<lambda>s _. bt_keys (pm_nodes (sn_product s))), an_writes = (\<lambda>s _. bt_keys (pm_nodes (sn_product s))),
      an_digest = (\<lambda>p ds. concat (map (\<lambda>d. if bt_contains (pm_nodes p) d then ''1'' else ''0'') ds)),
      an_value = (\<lambda>s d _. bt_contains (pm_nodes (sn_product s)) d)\<rparr>"

definition demo_context :: "proposal_risk \<Rightarrow> proposal_confirmation \<Rightarrow> node_id proposal_context" where
  "demo_context risk confirmation =
     \<lparr>px_principal = LocalAssistant, px_goal = CanonicalPreview, px_assumptions = [], px_risk = risk,
      px_confirmation = confirmation, px_budget = HOST_MAX\<rparr>"

definition demo_scope :: high_risk_scope where
  "demo_scope = \<lparr>hs_class = Overwrite, hs_destination = None, hs_provider = None, hs_path = Some ''f''\<rparr>"

lemma demo_prepared_by:
  assumes "validate_confirmation_requirement ((demo_context risk confirmation) \<lparr>px_principal := who\<rparr>) = Inr ()"
  shows "\<exists>p. prepare_proposal_with_context sha demo_families demo_analysis demo_delete
    ((demo_context risk confirmation) \<lparr>px_principal := who\<rparr>) (demo_store \<lparr>ds_policy := policy\<rparr>) = Inr p"
proof -
  obtain r t where a: "apply_batch_with sha demo_families demo_delete (Principal ManualClient) True
      (demo_store \<lparr>ds_mutation_epoch := 2, ds_next_epoch := 3\<rparr>) = Inr (r, t)"
    using demo_delete_applies_at [of 3 sha 2] by (auto simp: word_eq_iff_unsigned)
  have cur: "current (demo_store \<lparr>ds_policy := policy\<rparr>) = \<lparr>sn_revision_id = 1, sn_product = demo_product\<rparr>"
    "ds_next_epoch (demo_store \<lparr>ds_policy := policy\<rparr>) = 2"
    by (simp_all add: current_def current_revision_def demo_store_def initial_revision_def)
  have budget: "validate_proposal_budget (px_budget (demo_context risk confirmation))
      (proposal_cost_of demo_analysis \<lparr>sn_revision_id = 1, sn_product = demo_product\<rparr> demo_delete) = Inr ()"
    by (simp add: validate_proposal_budget_def demo_context_def HOST_MAX_def proposal_cost_of_def demo_analysis_def
        demo_delete_def demo_product_def demo_graph_def bt_keys_def)
  show ?thesis
    by (simp add: prepare_proposal_with_context_def prepare_proposal_with_context_and_validation_def Let_def cur budget
        assms proposal_candidate_with_validation_def demo_reopened a map_fault_def candidate_result_def)
qed

lemma demo_prepared:
  assumes "validate_confirmation_requirement (demo_context risk confirmation) = Inr ()"
  shows "\<exists>p. prepare_proposal_with_context sha demo_families demo_analysis demo_delete
    (demo_context risk confirmation) (demo_store \<lparr>ds_policy := policy\<rparr>) = Inr p"
  using demo_prepared_by [where who = LocalAssistant and sha = sha and policy = policy] assms by (simp add: demo_context_def)

lemma demo_standard_context: "validate_confirmation_requirement (demo_context Standard ReviewRequired) = Inr ()"
  by (simp add: validate_confirmation_requirement_def demo_context_def)

lemma demo_high_context: "validate_confirmation_requirement (demo_context (High Overwrite) (HumanOnly demo_scope)) = Inr ()"
  by (simp add: validate_confirmation_requirement_def demo_context_def requester_identified_def demo_scope_def)

definition demo_verify :: "bytes \<Rightarrow> bytes \<Rightarrow> bytes \<Rightarrow> bool" where
  "demo_verify key message signature \<longleftrightarrow> signature = key @ message"

definition demo_policy :: confirmation_policy where
  "demo_policy = \<lparr>cp_verifying_key = [7], cp_epoch = 1, cp_consumed = []\<rparr>"

definition demo_guarded :: "(unit, unit) document_store" where
  "demo_guarded = demo_store \<lparr>ds_policy := Some demo_policy\<rparr>"

lemma demo_guarded_reachable: "reachable sha json demo_families (\<lambda>_. True) demo_guarded"
proof (rule reachable.configured [OF demo_reachable])
  show "configure_human_confirmation_policy (\<lambda>_. True) [7] 1 demo_store = Inr demo_guarded"
    by (simp add: configure_human_confirmation_policy_def demo_guarded_def demo_store_def demo_policy_def)
qed

definition demo_surface :: confirmation_surface where
  "demo_surface = \<lparr>cs_signing_key = [7], cs_policy_epoch = 1\<rparr>"

lemma demo_issued:
  assumes "prepare_proposal_with_context sha fam an batch (demo_context (High Overwrite) (HumanOnly demo_scope)) s = Inr p"
  shows "\<exists>a. issue (@) demo_surface p (ApprovedByHuman 5) 10 20 = Inr a"
  by (rule prepare_Inr [OF assms])
    (simp add: issue_def authenticated_human_def demo_context_def demo_scope_def validate_confirmation_lifetime_def
      MAX_HUMAN_CONFIRMATION_LIFETIME_MS_def)


section \<open>Properties\<close>



text \<open>
  A proposal that was prepared can be committed.  If a proposal of standard risk (of a
  batch that recomputes no feature parameters) has been prepared against a reachable store, committing it there
  succeeds, with ids and epochs left: the replay agrees with the preparation.
\<close>

theorem prepared_proposal_commits:
  assumes "reachable sha json fam valid_key s" and "list_all (\<lambda>c. \<not> recomputes c) (cb_commands batch)"
    and "prepare_proposal_with_context sha fam an batch context s = Inr p" and "px_risk context = Standard"
    and "checked_add_u64 (ds_next_revision_id s) 1 \<noteq> None" and "ds_next_epoch s \<noteq> - 1"
  shows "\<exists>c t. commit_verified_proposal sha fam an p s = (Inr c, t) \<and> vc_result_digest c = pr_result_digest p \<and>
    (\<exists>snap. preview_verified_proposal sha fam an p s = Inr snap \<and> 
       an_digest an (sn_product snap) (pr_writes p) = vc_result_digest c)"
proof -
  have std: "pr_risk p = Standard" by (rule prepare_Inr [OF assms(3)]) (simp add: assms(4))
  from prepared_commits [OF reachable_store_inv [OF assms(1)] assms(2,3,5,6)] obtain c t where
    c: "commit_verified_proposal_inner sha fam an p s = (Inr c, t)" by blast
  with commit_inner_Inr [OF c] prepared_verifies [OF assms(3)] std show ?thesis
    by (auto simp: commit_verified_proposal_def preview_verified_proposal_def)
qed

theorem prepared_proposal_commits_witness:
  "\<exists>p c t. prepare_proposal_with_context (\<lambda>_. []) demo_families demo_analysis demo_delete
       (demo_context Standard ReviewRequired) demo_store = Inr p \<and>
     commit_verified_proposal (\<lambda>_. []) demo_families demo_analysis p demo_store = (Inr c, t) \<and>
     vc_result_digest c = pr_result_digest p"
proof -
  have same: "demo_store \<lparr>ds_policy := None\<rparr> = demo_store" by (simp add: demo_store_def)
  obtain p where p: "prepare_proposal_with_context (\<lambda>_. []) demo_families demo_analysis demo_delete
      (demo_context Standard ReviewRequired) demo_store = Inr p"
    using demo_prepared [OF demo_standard_context, of "\<lambda>_. []" None] unfolding same by blast
  have "list_all (\<lambda>c. \<not> recomputes c) (cb_commands demo_delete)" by (simp add: demo_delete_def recomputes_def)
  from prepared_proposal_commits [OF demo_reachable [of "\<lambda>_. []" "\<lambda>_. []" "\<lambda>_. True"] this p] p show ?thesis
    by (auto simp: demo_context_def demo_store_def checked_add_u64_def word_eq_iff_unsigned)
qed

lemma issued_commits:
  assumes "reachable sha json fam valid_key s" and "list_all (\<lambda>c. \<not> recomputes c) (cb_commands batch)"
    and "prepare_proposal_with_context sha fam an batch context s = Inr p"
    and "issue sign surface p approver issued expires = Inr a"
    and "ds_policy s = Some policy" and "cp_epoch policy = cs_policy_epoch surface"
    and "ht_signature a \<notin> set (cp_consumed policy)" and "issued \<le> now" and "now \<le> expires"
    and "\<And>m. verify (cp_verifying_key policy) m (sign (cs_signing_key surface) m)"
    and "checked_add_u64 (ds_next_revision_id s) 1 \<noteq> None" and "ds_next_epoch s \<noteq> - 1"
  shows "\<exists>c t. commit_high_risk_proposal sha verify fam an p a now s = (Inr c, t)"
proof -
  have chk: "check_approval verify p a now s = Inr ()"
    by (rule issued_passes [OF assms(4-9)]) (rule assms(10))
  from prepared_commits [OF reachable_store_inv [OF assms(1)] assms(2,3,11,12)] obtain c u where
    c: "commit_verified_proposal_inner sha fam an p s = (Inr c, u)" by blast
  have "ds_policy u = Some policy" using commit_inner_policy [OF c] assms(5) by simp
  then show ?thesis by (simp add: commit_high_risk_proposal_def chk c)
qed

lemma demo_high_risk_commits:
  "\<exists>p a c t. prepare_proposal_with_context (\<lambda>_. []) demo_families demo_analysis demo_delete
       (demo_context (High Overwrite) (HumanOnly demo_scope)) demo_guarded = Inr p \<and>
     issue (@) demo_surface p (ApprovedByHuman 5) 10 20 = Inr a \<and>
     commit_high_risk_proposal (\<lambda>_. []) demo_verify demo_families demo_analysis p a 15 demo_guarded = (Inr c, t)"
proof -
  obtain p where p: "prepare_proposal_with_context (\<lambda>_. []) demo_families demo_analysis demo_delete
      (demo_context (High Overwrite) (HumanOnly demo_scope)) demo_guarded = Inr p"
    using demo_prepared [OF demo_high_context, of "\<lambda>_. []" "Some demo_policy"] unfolding demo_guarded_def by blast
  obtain a where a: "issue (@) demo_surface p (ApprovedByHuman 5) 10 20 = Inr a" using demo_issued [OF p] by blast
  have l: "list_all (\<lambda>c. \<not> recomputes c) (cb_commands demo_delete)" by (simp add: demo_delete_def recomputes_def)
  have pol: "ds_policy demo_guarded = Some demo_policy" by (simp add: demo_guarded_def)
  have "\<exists>c t. commit_high_risk_proposal (\<lambda>_. []) demo_verify demo_families demo_analysis p a 15 demo_guarded = (Inr c, t)"
    by (rule issued_commits [OF demo_guarded_reachable [of "\<lambda>_. []" "\<lambda>_. []"] l p a pol])
      (auto simp: demo_policy_def demo_surface_def demo_verify_def demo_guarded_def demo_store_def checked_add_u64_def
        word_eq_iff_unsigned)
  with p a show ?thesis by blast
qed



text \<open>
   A token a person issued for a prepared proposal authorises it.  If the surface signs with
  the key the policy verifies (what the signature scheme promises: a signature by the key's owner verifies), the
  epochs agree, the token is fresh and its time has come and not passed, then the high-risk
  commit of a prepared proposal succeeds.
\<close>

theorem issued_token_commits:
  assumes "reachable sha json fam valid_key s" and "list_all (\<lambda>c. \<not> recomputes c) (cb_commands batch)"
    and "prepare_proposal_with_context sha fam an batch context s = Inr p"
    and "issue sign surface p approver issued expires = Inr a"
    and "ds_policy s = Some policy" and "cp_epoch policy = cs_policy_epoch surface"
    and "ht_signature a \<notin> set (cp_consumed policy)" and "issued \<le> now" and "now \<le> expires"
    and sound_signatures: "\<And>m. verify (cp_verifying_key policy) m (sign (cs_signing_key surface) m)"
    and "checked_add_u64 (ds_next_revision_id s) 1 \<noteq> None" and "ds_next_epoch s \<noteq> - 1"
  shows "\<exists>c t. commit_high_risk_proposal sha verify fam an p a now s = (Inr c, t) \<and>
    expires - issued \<le> MAX_HUMAN_CONFIRMATION_LIFETIME_MS \<and> ht_requester a \<noteq> Human (ht_approving_human a)"
proof -
  have "\<exists>c t. commit_high_risk_proposal sha verify fam an p a now s = (Inr c, t)"
    by (rule issued_commits [OF assms(1-9) _ assms(11,12)]) (rule sound_signatures)
  moreover have "expires - issued \<le> MAX_HUMAN_CONFIRMATION_LIFETIME_MS"
    using assms(4) by (auto simp: issue_def validate_confirmation_lifetime_def result_simps)
  moreover have "ht_requester a \<noteq> Human (ht_approving_human a)" by (rule issue_Inr [OF assms(4)]) simp
  ultimately show ?thesis by blast
qed

theorem issued_token_commits_witness:
  "\<exists>p a c t. prepare_proposal_with_context (\<lambda>_. []) demo_families demo_analysis demo_delete
       (demo_context (High Overwrite) (HumanOnly demo_scope)) demo_guarded = Inr p \<and>
     issue (@) demo_surface p (ApprovedByHuman 5) 10 20 = Inr a \<and>
     commit_high_risk_proposal (\<lambda>_. []) demo_verify demo_families demo_analysis p a 15 demo_guarded = (Inr c, t)"
proof -
  obtain p where p: "prepare_proposal_with_context (\<lambda>_. []) demo_families demo_analysis demo_delete
      (demo_context (High Overwrite) (HumanOnly demo_scope)) demo_guarded = Inr p"
    using demo_prepared [OF demo_high_context, of "\<lambda>_. []" "Some demo_policy"] unfolding demo_guarded_def by blast
  obtain a where a: "issue (@) demo_surface p (ApprovedByHuman 5) 10 20 = Inr a" using demo_issued [OF p] by blast
  have l: "list_all (\<lambda>c. \<not> recomputes c) (cb_commands demo_delete)" by (simp add: demo_delete_def recomputes_def)
  have "ds_policy demo_guarded = Some demo_policy" by (simp add: demo_guarded_def)
  from issued_token_commits [OF demo_guarded_reachable [of "\<lambda>_. []" "\<lambda>_. []"] l p a this, of 15 demo_verify] p a
  show ?thesis
    by (auto simp: demo_policy_def demo_surface_def demo_verify_def demo_guarded_def demo_store_def checked_add_u64_def
        word_eq_iff_unsigned)
qed


text \<open>
  C9.  An approval is used once.  After a high-risk commit was accepted with a token, every later
  commit with that token is refused and the store is as it was, whatever proposal and time it is presented
  with and whatever operations (undo, rollback and new policies included) came between; so is a token of an external
  side effect.
\<close>

theorem approval_single_use:
  assumes "(live_step sha json verify valid_key fam an)\<^sup>*\<^sup>* t u"
  shows "(commit_high_risk_proposal sha verify fam an p a now s = (Inr c, t) \<longrightarrow>
      (\<exists>e. commit_high_risk_proposal sha verify fam an p' a now' u = (Inl (Returned e), u))) \<and>
    (authorize_high_risk_side_effect verify fam sp sa now s = Inr (receipt, t) \<longrightarrow>
      (\<exists>e. authorize_high_risk_side_effect verify fam sp' sa now' u = Inl e))"
  using high_risk_uses_up side_effect_uses_up used_up_stays [OF _ live_steps_policy [OF assms]]
    used_up_refused side_effect_used_up_refused by metis

theorem approval_single_use_witness:
  "\<exists>p a c t e. commit_high_risk_proposal (\<lambda>_. []) demo_verify demo_families demo_analysis p a 15 demo_guarded = (Inr c, t) \<and>
     commit_high_risk_proposal (\<lambda>_. []) demo_verify demo_families demo_analysis p a 15 (discard_history_before_current t) =
       (Inl (Returned e), discard_history_before_current t)"
proof -
  from demo_high_risk_commits obtain p a c t where
    c: "commit_high_risk_proposal (\<lambda>_. []) demo_verify demo_families demo_analysis p a 15 demo_guarded = (Inr c, t)"
    by blast
  have "(live_step (\<lambda>_. []) (\<lambda>_. []) demo_verify (\<lambda>_. True) demo_families demo_analysis)\<^sup>*\<^sup>* t
      (discard_history_before_current t)"
    by (intro r_into_rtranclp live_discard)
  from approval_single_use [OF this, where s = demo_guarded and a = a and now = 15 and now' = 15 and p = p and p' = p] c
  show ?thesis by blast
qed

text \<open>
  What is signed determines what is approved.  Two tokens with the same signed bytes agree in every
  field but the signature, and no human confirmation has the signed bytes of a
  side-effect authorisation; the texts are those that a 64-bit length prefix can
  carry.
\<close>

theorem signed_payload_determines:
  "(human_fits t \<longrightarrow> human_fits u \<longrightarrow> human_signing_payload t = human_signing_payload u \<longrightarrow>
      t \<lparr>ht_signature := x\<rparr> = u \<lparr>ht_signature := x\<rparr>) \<and>
   (side_effect_fits v \<longrightarrow> side_effect_fits w \<longrightarrow> side_effect_signing_payload v = side_effect_signing_payload w \<longrightarrow>
      v \<lparr>st_signature := x\<rparr> = w \<lparr>st_signature := x\<rparr>) \<and>
   human_signing_payload t \<noteq> side_effect_signing_payload v"
  using human_payload_inject side_effect_payload_inject payloads_apart by blast

theorem signed_payload_determines_witness:
  "human_signing_payload
     \<lparr>ht_requester = LocalAssistant, ht_approving_human = 5, ht_document = 1, ht_revision = 1, ht_provenance_digest = ''ab'',
      ht_dependency_digest = ''c'', ht_command_digest = [], ht_result_digest = [], ht_scope = demo_scope,
      ht_policy_epoch = 1, ht_issued_at_ms = 10, ht_expires_at_ms = 20, ht_signature = []\<rparr> \<noteq>
   human_signing_payload
     \<lparr>ht_requester = LocalAssistant, ht_approving_human = 5, ht_document = 1, ht_revision = 1, ht_provenance_digest = ''a'',
      ht_dependency_digest = ''bc'', ht_command_digest = [], ht_result_digest = [], ht_scope = demo_scope,
      ht_policy_epoch = 1, ht_issued_at_ms = 10, ht_expires_at_ms = 20, ht_signature = []\<rparr>"
  (is "human_signing_payload ?t \<noteq> human_signing_payload ?u")
proof -
  have f: "human_fits ?t" "human_fits ?u"
    by (simp_all add: human_fits_def fits_def scope_fits_def option_fits_def demo_scope_def str_bytes_def)
  show ?thesis using signed_payload_determines [where t = ?t and u = ?u and x = "[]"] f by auto
qed

text \<open>A store whose tip is a deletion can have that tip replaced.\<close>

lemma demo_delete_from:
  assumes "ds_revisions s = initial_revision 1 demo_product () # later" and "ds_cursor s = 0"
    and "ds_next_epoch s \<noteq> - 1" and "unat (ds_next_revision_id s) < 18446744073709551615"
  shows "\<exists>r. apply_batch sha demo_families demo_delete s =
      Inr (r, s \<lparr>ds_revisions := [initial_revision 1 demo_product (), r], ds_cursor := 1,
                 ds_next_revision_id := ds_next_revision_id s + 1, ds_mutation_epoch := ds_next_epoch s,
                 ds_next_epoch := ds_next_epoch s + 1\<rparr>) \<and>
    rv_id r = ds_next_revision_id s \<and> rv_batch_digest r = [] \<and>
    rv_snapshot r = \<lparr>sn_revision_id = ds_next_revision_id s, sn_product = demo_product
      \<lparr>pm_nodes := [(1, (demo_parameter 1 []) \<lparr>en_kind := Parameter (Dimension ''0'' 0)\<rparr>)]\<rparr>\<rparr>"
proof -
  let ?nodes = "[(1, (demo_parameter 1 []) \<lparr>en_kind := Parameter (Dimension ''0'' 0)\<rparr>)] :: node_map"
  have v: "validate_graph ?nodes = Inr ()" using demo_deleted_ready by (simp add: graph_ready_def is_ok_unit_iff)
  have cl: "dependent_closure ?nodes [] = []"
    by (simp add: dependent_closure_def closure_loop.simps closure_pass_def closure_step_def demo_parameter_def)
  from evaluate_affected_run [OF demo_deleted_ready, where affected = "[]" and previous = None and sha = sha]
  obtain report where e: "evaluate_affected sha ?nodes demo_identity None [] = Inr report" by auto
  have d: "delete_evaluator_node (demo_graph ''0'') 2 = Inr ?nodes"
    by (simp add: delete_evaluator_node_def demo_graph_def bt_remove_def)
  show ?thesis
    by (simp add: apply_batch_def apply_batch_with_def demo_delete_def demo_families_def current_revision_def current_def
        initial_revision_def demo_product_def start_edit_def edit_apply_def apply_evaluation_def on_nodes_def d assms
        check_product_def refresh_override_health_def lift_fault_def v validate_overrides_def bt_values_def
        checked_add_u64_def evaluate_batch_def evaluator_roots_def command_roots_def cl e publish_def batch_digest_def
        push_revision_def fresh_mutation_epoch_def batch_revision_def bt_keys_def UNDO_REVISIONS_def demo_parameter_name)
qed

text \<open>
  Replacing the tip of the history.  If it succeeds, the proposal was of standard risk, its revision has the proposed
  id (later than the replaced one), digests and writes, stands where the replaced revision stood with
  the same history behind it and nothing to redo, the store's invariant is kept, and no derived
  result of the replaced revision is left registered.  If it fails, the history is as before.
\<close>

theorem tip_replacement_correct:
  assumes "reachable sha json fam valid_key s" and "scopes_wf (cb_commands (tr_batch p))"
    and "commit_tip_replacement_proposal sha fam an p s = (outcome, t)"
  shows "case outcome of
      Inl e \<Rightarrow> same_history s t
    | Inr r \<Rightarrow> store_inv sha t \<and> tr_risk p = Standard \<and> current_revision t = r \<and> store_ahead t = [] \<and>
        store_past t = store_past s \<and> rv_id r = tr_corrected_revision p \<and> rv_id (current_revision s) < rv_id r \<and>
        rv_batch_digest r = tr_command_digest p \<and> rv_origin r = Principal ManualClient \<and>
        an_digest an (sn_product (rv_snapshot r)) (tr_writes p) = tr_result_digest p \<and>
        list_all (\<lambda>q. drk_revision (fst q) \<noteq> rv_id (current_revision s)) (ds_registry t)"
proof (cases outcome)
  case (Inl e)
  with assms(3) tip_Inl show ?thesis by fastforce
next
  case (Inr r)
  with assms(3) have "commit_tip_replacement_proposal sha fam an p s = (Inr r, t)" by simp
  from tip_replaced [OF reachable_store_inv [OF assms(1)] assms(2) this] show ?thesis unfolding Inr sum.case .
qed

definition demo_tip_proposal :: "(unit, node_id, bool) tip_proposal" where
  "demo_tip_proposal =
     \<lparr>tr_document = 1, tr_parent_revision = 1, tr_parent_digest = ''widthhalf'', tr_superseded_revision = 2,
      tr_superseded_digest = ''width'', tr_corrected_revision = 3, tr_batch = demo_delete, tr_command_digest = [],
      tr_dependencies = [1, 2], tr_writes = [1, 2], tr_dependency_digest = ''11'',
      tr_diff = candidate_diff demo_analysis \<lparr>sn_revision_id = 1, sn_product = demo_product\<rparr>
        \<lparr>sn_revision_id = 3, sn_product = demo_product
           \<lparr>pm_nodes := [(1, (demo_parameter 1 []) \<lparr>en_kind := Parameter (Dimension ''0'' 0)\<rparr>)]\<rparr>\<rparr> [1, 2] CanonicalPreview,
      tr_result_digest = ''10'', tr_principal = LocalAssistant, tr_goal = CanonicalPreview, tr_assumptions = [],
      tr_risk = Standard, tr_confirmation = ReviewRequired, tr_budget = HOST_MAX,
      tr_cost = \<lparr>pc_commands = 1, pc_read_dependencies = 2, pc_write_targets = 2\<rparr>\<rparr>"

lemma demo_tip_replaced:
  assumes "apply_batch sha demo_families demo_delete demo_store = Inr (r, s)"
  shows "\<exists>r' t. commit_tip_replacement_proposal sha demo_families demo_analysis demo_tip_proposal s = (Inr r', t)"
proof -
  have one: "(1 :: u64) \<noteq> - 1" "(2 :: u64) \<noteq> - 1" "(3 :: u64) \<noteq> - 1" by (simp_all add: word_eq_iff_unsigned)
  let ?first = "initial_revision 1 demo_product ()"
  from demo_delete_from [of demo_store "[]" sha] assms one obtain s0 where s0: "s = s0" "s0 =
      demo_store \<lparr>ds_revisions := [?first, r], ds_cursor := 1, ds_next_revision_id := 3, ds_mutation_epoch := 2,
        ds_next_epoch := 3\<rparr>" and r: "rv_id r = 2" "rv_snapshot r = \<lparr>sn_revision_id = 2, sn_product = demo_product
      \<lparr>pm_nodes := [(1, (demo_parameter 1 []) \<lparr>en_kind := Parameter (Dimension ''0'' 0)\<rparr>)]\<rparr>\<rparr>"
    by (auto simp: demo_store_def)
  have s: "drop_tip s = demo_store \<lparr>ds_next_revision_id := 3, ds_mutation_epoch := 2, ds_next_epoch := 3\<rparr>"
    "current s = rv_snapshot r" "parent_snapshot s = rv_snapshot ?first" "ds_next_epoch s = 3" "ds_cursor s = 1"
    "length (ds_revisions s) = 2" "ds_next_revision_id s = 3"
    by (simp_all add: s0 drop_tip_def demo_store_def current_def current_revision_def parent_snapshot_def)
  obtain r2 u2 where a: "apply_batch sha demo_families demo_delete (drop_tip s) = Inr (r2, u2)" "rv_id r2 = 3"
      "rv_batch_digest r2 = []" "rv_snapshot r2 = \<lparr>sn_revision_id = 3, sn_product = demo_product
      \<lparr>pm_nodes := [(1, (demo_parameter 1 []) \<lparr>en_kind := Parameter (Dimension ''0'' 0)\<rparr>)]\<rparr>\<rparr>"
    using demo_delete_from [of "drop_tip s" "[]" sha] one by (auto simp: s(1)) (auto simp: demo_store_def)
  have f: "from_product demo_families 3 1 demo_product =
      Inr (demo_store \<lparr>ds_mutation_epoch := 3, ds_next_epoch := 4\<rparr>)"
    using demo_opened_at [OF one(3)] by simp
  obtain r3 u3 where b: "apply_batch sha demo_families demo_delete (demo_store \<lparr>ds_mutation_epoch := 3, ds_next_epoch := 4,
        ds_next_revision_id := 3\<rparr>) = Inr (r3, u3)" "rv_snapshot r3 = rv_snapshot r2"
    using demo_delete_from [of "demo_store \<lparr>ds_mutation_epoch := 3, ds_next_epoch := 4, ds_next_revision_id := 3\<rparr>" "[]" sha]
    by (auto simp: demo_store_def a word_eq_iff_unsigned)
  have e: "validate_tip_replacement_envelope demo_families 1 1 ''widthhalf'' 2 ''width'' 3 s = Inr (rv_snapshot ?first)"
    by (simp add: validate_tip_replacement_envelope_def s r document_of_def canonical_digest_def demo_families_def
        initial_revision_def demo_product_def demo_graph_def demo_expression_def bt_values_def demo_parameter_name
        checked_add_u64_def)
  have first: "rv_snapshot ?first = \<lparr>sn_revision_id = 1, sn_product = demo_product\<rparr>" by (simp add: initial_revision_def)
  have keys: "bt_keys (pm_nodes demo_product) = [1, 2]" by (simp add: demo_product_def demo_graph_def bt_keys_def)
  have digest: "an_digest demo_analysis demo_product [1, 2] = ''11''" "an_digest demo_analysis (sn_product (rv_snapshot r2)) [1, 2] = ''10''"
    by (simp_all add: demo_analysis_def demo_product_def demo_graph_def bt_contains_def a)
  have candidate: "tip_replacement_candidate sha demo_families demo_analysis 3 (rv_snapshot ?first) 3 demo_delete [1, 2]
      CanonicalPreview = Inr (candidate_result demo_analysis (rv_snapshot ?first) (rv_snapshot r2) [1, 2] CanonicalPreview)"
    using b by (simp add: tip_replacement_candidate_def first f map_fault_def)
  have targets: "an_dependencies demo_analysis (rv_snapshot ?first) demo_delete = [1, 2]"
    "an_writes demo_analysis (rv_snapshot ?first) demo_delete = [1, 2]"
    "proposal_cost_of demo_analysis (rv_snapshot ?first) demo_delete =
      \<lparr>pc_commands = 1, pc_read_dependencies = 2, pc_write_targets = 2\<rparr>"
    by (simp_all add: demo_analysis_def first keys proposal_cost_of_def demo_delete_def)
  have batch: "batch_digest demo_families demo_delete = []" by (simp add: batch_digest_def demo_families_def)
  have "verify_tip_replacement_proposal sha demo_families demo_analysis demo_tip_proposal s = Inr (rv_snapshot r2)"
    using digest
    by (simp add: verify_tip_replacement_proposal_def demo_tip_proposal_def e targets [unfolded first] batch Let_def s
        candidate [unfolded first]
        validate_proposal_budget_def HOST_MAX_def validate_confirmation_requirement_def map_fault_def
        candidate_result_def first a)
  moreover have "check_replacement demo_families demo_analysis demo_tip_proposal (parent_snapshot s) (rv_snapshot r2) r2"
    using digest by (simp add: check_replacement_def demo_tip_proposal_def a s first)
  moreover have "tr_risk demo_tip_proposal = Standard" "tr_batch demo_tip_proposal = demo_delete"
    by (simp_all add: demo_tip_proposal_def)
  ultimately show ?thesis by (simp add: commit_tip_replacement_proposal_def a)
qed


theorem tip_replacement_correct_witness:
  "\<exists>r s r' t. apply_batch (\<lambda>_. []) demo_families demo_delete demo_store = Inr (r, s) \<and>
     commit_tip_replacement_proposal (\<lambda>_. []) demo_families demo_analysis demo_tip_proposal s = (Inr r', t) \<and>
     current_revision t = r' \<and> store_past t = store_past s"
proof -
  obtain r s where a: "apply_batch (\<lambda>_. []) demo_families demo_delete demo_store = Inr (r, s)"
    using demo_delete_applies [of "\<lambda>_. []"] by (auto simp: apply_batch_def)
  from demo_tip_replaced [OF a] obtain r' t where
    c: "commit_tip_replacement_proposal (\<lambda>_. []) demo_families demo_analysis demo_tip_proposal s = (Inr r', t)" by blast
  have w: "scopes_wf (cb_commands demo_delete)" "tr_batch demo_tip_proposal = demo_delete"
    by (simp_all add: demo_delete_def scopes_wf_def demo_tip_proposal_def)
  have "reachable (\<lambda>_. []) (\<lambda>_. []) demo_families (\<lambda>_. True) s"
    by (rule reachable.batched [OF demo_reachable w(1) a [unfolded apply_batch_def]])
  from tip_replacement_correct [OF this _ c] w have "current_revision t = r' \<and> store_past t = store_past s" by simp
  with a c show ?thesis by blast
qed

end
