(* ===== verification/Ketchup_Reader.thy ===== *)
theory Ketchup_Reader
  imports Ketchup_Node "HOL-Library.Sublist"
begin

text \<open>
  The byte reader of the native file formats (\<^verbatim>\<open>persistence.rs\<close>, struct \<^verbatim>\<open>Reader\<close>), its
  writers (\<^verbatim>\<open>push_\<close> functions), and the contract between the two.  A reader counts what it
  reads against two budgets: the lengths of collections and strings together, and the bytes of
  strings.  The locale \<open>reader_codec\<close> says what a decoder owes to its encoder: it succeeds exactly when
  the remaining bytes begin with an encoding the budgets allow, and then moves past it.  Every
  format of the files is an interpretation, built from the ones before.
\<close>

section \<open>Errors\<close>

text \<open>
  The errors of the modelled code.  What a UTF-8, JSON or program error says is not observed and
  kept as text.
\<close>

datatype persistence_error =
    Truncated
  | InvalidContainerMagic
  | UnsupportedSchema u16
  | UnsupportedContainerSchema u16
  | UnsupportedHistorySchema u16
  | InvalidHistoryMagic
  | InvalidRevisionHistory
  | HistoryChecksumMismatch
  | MissingDocumentEntry
  | DocumentEntryNotRequired
  | HistoryEntryNotRequired
  | ProgramEntryNotRequired
  | DuplicateContainerEntry
  | InvalidContainerPath str
  | UnsupportedContainerEntry str
  | ContainerChecksumMismatch str
  | InvalidBlobHash
  | InvalidUtf8
  | LengthOverflow
  | TrailingBytes
  | InvalidBoolean u8
  | InvalidPayload str str
  | UnknownFields "str list"
  | InvalidRuleProgram str
  | ResourceLimit
  | EntryTooLarge str nat nat
  | LegacyFeatureRequiresMigration u64


section \<open>Reading\<close>

definition MAX_STRING_BYTES :: nat where "MAX_STRING_BYTES = 1024 * 1024"
definition MAX_COLLECTION_ITEMS :: nat where "MAX_COLLECTION_ITEMS = 500000"

text \<open>Lengths and counters are below \<open>2 ^ 64\<close>; \<open>checked_usize\<close> is a checked sum.\<close>

definition checked_usize :: "nat \<Rightarrow> nat option" where
  "checked_usize n = (if n < 2 ^ 64 then Some n else None)"

record reader =
  rd_bytes :: bytes
  rd_cursor :: nat
  rd_items :: nat
  rd_item_budget :: nat
  rd_string_bytes :: nat

type_synonym 'a decoder = "reader \<Rightarrow> persistence_error + 'a \<times> reader"

definition with_item_budget :: "bytes \<Rightarrow> nat \<Rightarrow> reader" where
  "with_item_budget bs budget =
     \<lparr>rd_bytes = bs, rd_cursor = 0, rd_items = 0, rd_item_budget = budget, rd_string_bytes = 0\<rparr>"

definition reader_new :: "bytes \<Rightarrow> reader" where
  "reader_new bs = with_item_budget bs MAX_COLLECTION_ITEMS"

definition take_bytes :: "nat \<Rightarrow> bytes decoder" where
  "take_bytes n r =
     and_then (ok_or (checked_usize (rd_cursor r + n)) LengthOverflow) (\<lambda>end'.
     and_then (guard (end' \<le> length (rd_bytes r)) Truncated) (\<lambda>_.
     Ok (take n (drop (rd_cursor r) (rd_bytes r)), r \<lparr>rd_cursor := end'\<rparr>)))"

definition read_u8 :: "u8 decoder" where
  "read_u8 r = and_then (take_bytes 1 r) (\<lambda>(bs, r). Ok (hd bs, r))"

definition read_u16 :: "u16 decoder" where
  "read_u16 r = and_then (take_bytes 2 r) (\<lambda>(bs, r). Ok (of_nat (le_value bs), r))"

definition read_u32 :: "u32 decoder" where
  "read_u32 r = and_then (take_bytes 4 r) (\<lambda>(bs, r). Ok (of_nat (le_value bs), r))"

definition read_u64 :: "u64 decoder" where
  "read_u64 r = and_then (take_bytes 8 r) (\<lambda>(bs, r). Ok (of_nat (le_value bs), r))"

definition count_with_limit :: "nat \<Rightarrow> nat decoder" where
  "count_with_limit limit r =
     and_then (read_u32 r) (\<lambda>(value, r).
     and_then (ok_or (checked_usize (rd_items r + unat value)) ResourceLimit) (\<lambda>items.
     and_then (guard (\<not> (unat value > limit \<or> items > rd_item_budget r)) ResourceLimit) (\<lambda>_.
     Ok (unat value, r \<lparr>rd_items := items\<rparr>))))"

definition read_string :: "str decoder" where
  "read_string r =
     and_then (count_with_limit (2 ^ 32 - 1) r) (\<lambda>(length', r).
     and_then (ok_or (checked_usize (rd_string_bytes r + length')) ResourceLimit) (\<lambda>total.
     and_then (guard (\<not> total > MAX_STRING_BYTES) ResourceLimit) (\<lambda>_.
     and_then (take_bytes length' (r \<lparr>rd_string_bytes := total\<rparr>)) (\<lambda>(bs, r).
     and_then (guard (valid_utf8 (bytes_str bs)) InvalidUtf8) (\<lambda>_.
     Ok (bytes_str bs, r))))))"

definition read_boolean :: "bool decoder" where
  "read_boolean r =
     and_then (read_u8 r) (\<lambda>(value, r).
     if value = 0 then Ok (False, r) else if value = 1 then Ok (True, r) else Err (InvalidBoolean value))"

definition is_finished :: "reader \<Rightarrow> bool" where
  "is_finished r \<longleftrightarrow> rd_cursor r = length (rd_bytes r)"

text \<open>A loop that reads a given number of values.\<close>

fun read_many :: "nat \<Rightarrow> 'a decoder \<Rightarrow> 'a list decoder" where
  "read_many 0 dec r = Ok ([], r)"
| "read_many (Suc n) dec r =
     and_then (dec r) (\<lambda>(x, r). and_then (read_many n dec r) (\<lambda>(xs, r). Ok (x # xs, r)))"


section \<open>Writing\<close>

definition u32_count :: "nat \<Rightarrow> persistence_error + u32" where
  "u32_count value = (if value < 2 ^ 32 then Ok (of_nat value) else Err LengthOverflow)"

definition u64_len :: "nat \<Rightarrow> persistence_error + u64" where
  "u64_len value = (if value < 2 ^ 64 then Ok (of_nat value) else Err LengthOverflow)"

definition push_u8 :: "u8 \<Rightarrow> bytes" where "push_u8 value = [value]"
definition push_u16 :: "u16 \<Rightarrow> bytes" where "push_u16 value = le_bytes 2 (unat value)"
definition push_u32 :: "u32 \<Rightarrow> bytes" where "push_u32 value = le_bytes 4 (unat value)"
definition push_u64 :: "u64 \<Rightarrow> bytes" where "push_u64 value = le_bytes 8 (unat value)"

definition push_string :: "str \<Rightarrow> persistence_error + bytes" where
  "push_string value = and_then (u32_count (length value)) (\<lambda>n. Ok (push_u32 n @ str_bytes value))"


section \<open>What a decoder owes to its encoder\<close>

definition rest :: "reader \<Rightarrow> bytes" where
  "rest r = drop (rd_cursor r) (rd_bytes r)"

definition advance :: "nat \<Rightarrow> nat \<Rightarrow> nat \<Rightarrow> reader \<Rightarrow> reader" where
  "advance n items strings r =
     r \<lparr>rd_cursor := rd_cursor r + n, rd_items := rd_items r + items, rd_string_bytes := rd_string_bytes r + strings\<rparr>"

text \<open>A reader within its bytes and budgets.  A slice in memory is shorter than \<open>2 ^ 64\<close>.\<close>

definition reader_ok :: "reader \<Rightarrow> bool" where
  "reader_ok r \<longleftrightarrow>
     rd_cursor r \<le> length (rd_bytes r) \<and> length (rd_bytes r) < 2 ^ 64 \<and> rd_items r \<le> rd_item_budget r \<and>
     rd_item_budget r < 2 ^ 32 \<and> rd_string_bytes r \<le> MAX_STRING_BYTES"

lemma reader_ok_new [simp]:
  "reader_ok (with_item_budget bs budget) \<longleftrightarrow> length bs < 2 ^ 64 \<and> budget < 2 ^ 32"
  by (auto simp: reader_ok_def with_item_budget_def)

lemma rest_new [simp]: "rest (with_item_budget bs budget) = bs"
  by (simp add: rest_def with_item_budget_def)

lemma advance_fields [simp]:
  "rd_bytes (advance n i s r) = rd_bytes r" "rd_item_budget (advance n i s r) = rd_item_budget r"
  "rd_cursor (advance n i s r) = rd_cursor r + n" "rd_items (advance n i s r) = rd_items r + i"
  "rd_string_bytes (advance n i s r) = rd_string_bytes r + s"
  by (simp_all add: advance_def)

lemma advance_advance [simp]: "advance m j t (advance n i s r) = advance (n + m) (i + j) (s + t) r"
  by (simp add: advance_def add.assoc)

lemma advance_zero [simp]: "advance 0 0 0 r = r"
  by (simp add: advance_def)

lemma rest_advance [simp]: "rest (advance n i s r) = drop n (rest r)"
  by (simp add: rest_def add.commute)

lemma reader_ok_le:
  "reader_ok (advance n i s r) \<Longrightarrow> m \<le> n \<Longrightarrow> j \<le> i \<Longrightarrow> t \<le> s \<Longrightarrow> reader_ok (advance m j t r)"
  by (auto simp: reader_ok_def)

lemma prefix_append: "prefix (a @ b) xs \<longleftrightarrow> prefix a xs \<and> prefix b (drop (length a) xs)"
  by (auto simp: prefix_def)

lemma prefix_length_rest: "prefix bs (rest r) \<Longrightarrow> rd_cursor r \<le> length (rd_bytes r) \<Longrightarrow>
    rd_cursor r + length bs \<le> length (rd_bytes r)"
  using prefix_length_le [of bs "rest r"] by (simp add: rest_def)

lemma prefix_take_rest: "prefix bs xs \<longleftrightarrow> take (length bs) xs = bs \<and> length bs \<le> length xs"
  by (metis append_eq_conv_conj prefix_def prefix_length_le take_is_prefix)

locale reader_codec =
  fixes enc :: "'a \<Rightarrow> bytes" and dec :: "'a decoder" and items strings :: "'a \<Rightarrow> nat" and ok :: "'a \<Rightarrow> bool"
  assumes dec_iff: "reader_ok r \<Longrightarrow> dec r = Inr (x, r') \<longleftrightarrow>
    ok x \<and> prefix (enc x) (rest r) \<and> r' = advance (length (enc x)) (items x) (strings x) r \<and> reader_ok r'"
begin

lemma reads:
  "reader_ok r \<Longrightarrow> ok x \<Longrightarrow> rest r = enc x @ bs \<Longrightarrow> rd_items r + items x \<le> rd_item_budget r \<Longrightarrow>
     rd_string_bytes r + strings x \<le> MAX_STRING_BYTES \<Longrightarrow>
     dec r = Inr (x, advance (length (enc x)) (items x) (strings x) r)"
  using prefix_length_rest [of "enc x" r] by (subst dec_iff) (auto simp: reader_ok_def)

lemma enc_unique: "ok x \<Longrightarrow> ok y \<Longrightarrow> reader_ok (advance (length (enc x)) (items x) (strings x) r) \<Longrightarrow>
    reader_ok (advance (length (enc y)) (items y) (strings y) r) \<Longrightarrow> reader_ok r \<Longrightarrow>
    prefix (enc x) (rest r) \<Longrightarrow> prefix (enc y) (rest r) \<Longrightarrow> x = y"
  using dec_iff [of r x] dec_iff [of r y] by (metis Pair_inject sum.inject(2))

lemma many_iff:
  "reader_ok r \<Longrightarrow> read_many n dec r = Inr (xs, r') \<longleftrightarrow>
     length xs = n \<and> list_all ok xs \<and> prefix (concat (map enc xs)) (rest r) \<and>
     r' = advance (length (concat (map enc xs))) (sum_list (map items xs)) (sum_list (map strings xs)) r \<and> reader_ok r'"
proof (induction n arbitrary: r xs r')
  case 0
  then show ?case by (auto simp: prefix_def)
next
  case (Suc n)
  show ?case
  proof (cases xs)
    case Nil
    then show ?thesis by (auto simp: result_simps split: prod.splits)
  next
    case (Cons y ys)
    let ?s = "advance (length (enc y)) (items y) (strings y) r"
    have "read_many (Suc n) dec r = Inr (xs, r') \<longleftrightarrow>
        (\<exists>s. dec r = Inr (y, s) \<and> read_many n dec s = Inr (ys, r'))"
      by (auto simp: Cons result_simps split: prod.splits)
    also have "\<dots> \<longleftrightarrow> ok y \<and> prefix (enc y) (rest r) \<and> reader_ok ?s \<and> read_many n dec ?s = Inr (ys, r')"
      by (auto simp: dec_iff [OF Suc.prems])
    also have "\<dots> \<longleftrightarrow> ok y \<and> prefix (enc y) (rest r) \<and> reader_ok ?s \<and> length ys = n \<and> list_all ok ys \<and>
        prefix (concat (map enc ys)) (rest ?s) \<and>
        r' = advance (length (concat (map enc ys))) (sum_list (map items ys)) (sum_list (map strings ys)) ?s \<and> reader_ok r'"
      using Suc.IH [of ?s ys r'] by blast
    finally show ?thesis
      using reader_ok_le [of "length (concat (map enc xs))" "sum_list (map items xs)" "sum_list (map strings xs)" r
          "length (enc y)" "items y" "strings y"]
      by (auto simp: Cons prefix_append)
  qed
qed

text \<open>If a decoder can fail on encoded bytes only in one way, so can the loop that calls it.\<close>

lemma many_or_error:
  assumes step: "\<And>r x bs. reader_ok r \<Longrightarrow> ok x \<Longrightarrow> rest r = enc x @ bs \<Longrightarrow>
      dec r = Inr (x, advance (length (enc x)) (items x) (strings x) r) \<or> dec r = Inl e"
    and "reader_ok r" and "list_all ok xs" and "rest r = concat (map enc xs) @ bs"
  shows "is_ok (read_many (length xs) dec r) \<or> read_many (length xs) dec r = Inl e"
  using assms(2-)
proof (induction xs arbitrary: r)
  case (Cons x xs)
  let ?s = "advance (length (enc x)) (items x) (strings x) r"
  have x: "ok x" "rest r = enc x @ concat (map enc xs) @ bs" using Cons.prems by auto
  from step [OF Cons.prems(1) this] show ?case
  proof
    assume d: "dec r = Inr (x, ?s)"
    then have "reader_ok ?s" by (simp add: dec_iff [OF Cons.prems(1)])
    moreover have "rest ?s = concat (map enc xs) @ bs" by (simp add: x)
    ultimately have "is_ok (read_many (length xs) dec ?s) \<or> read_many (length xs) dec ?s = Inl e"
      using Cons.prems(2) by (intro Cons.IH) auto
    with d show ?thesis by (auto simp: is_ok_iff)
  qed simp
qed simp

end


section \<open>The formats of the reader\<close>

lemma checked_usize_Some [simp]: "checked_usize n = Some m \<longleftrightarrow> n < 2 ^ 64 \<and> m = n"
  by (auto simp: checked_usize_def)

interpretation taking: reader_codec "\<lambda>bs. bs" "take_bytes n" "\<lambda>_. 0" "\<lambda>_. 0" "\<lambda>bs. length bs = n" for n
proof
  fix r x r'
  assume "reader_ok r"
  then show "take_bytes n r = Inr (x, r') \<longleftrightarrow>
      length x = n \<and> prefix x (rest r) \<and> r' = advance (length x) 0 0 r \<and> reader_ok r'"
    by (auto simp: take_bytes_def result_simps reader_ok_def advance_def rest_def prefix_take_rest)
qed

lemma word_le_bytes:
  fixes x :: "'a::len word"
  assumes "LENGTH('a) = 8 * n" and "length bs = n"
  shows "of_nat (le_value bs) = x \<longleftrightarrow> bs = le_bytes n (unat x)"
proof -
  have p: "(256 :: nat) ^ n = 2 ^ LENGTH('a)" by (simp add: assms(1) power_mult)
  have "le_value bs < 2 ^ LENGTH('a)" using le_value_less [of bs] assms(2) p by simp
  then have "of_nat (le_value bs) = x \<longleftrightarrow> le_value bs = unat x" by (auto simp: unat_of_nat take_bit_nat_eq_self)
  also have "\<dots> \<longleftrightarrow> bs = le_bytes n (unat x)"
    using le_bytes_le_value [of bs] le_value_le_bytes [of n "unat x"] assms(2) p unsigned_less [of x] by auto
  finally show ?thesis .
qed

text \<open>A value that is a function of a fixed number of bytes.\<close>

lemma fixed_codec:
  assumes "\<And>bs x. length bs = n \<Longrightarrow> f bs = x \<longleftrightarrow> bs = g x" and "\<And>x. length (g x) = n" and "reader_ok r"
  shows "and_then (take_bytes n r) (\<lambda>(bs, r). Inr (f bs, r)) = Inr (x, r') \<longleftrightarrow>
    prefix (g x) (rest r) \<and> r' = advance (length (g x)) 0 0 r \<and> reader_ok r'"
proof -
  have "and_then (take_bytes n r) (\<lambda>(bs, r). Inr (f bs, r)) = Inr (x, r') \<longleftrightarrow>
      (\<exists>bs. take_bytes n r = Inr (bs, r') \<and> f bs = x)"
    by (auto simp: result_simps)
  also have "\<dots> \<longleftrightarrow> take_bytes n r = Inr (g x, r')"
    using assms(1,2) by (metis taking.dec_iff [OF assms(3)])
  finally show ?thesis using assms(2) by (simp add: taking.dec_iff [OF assms(3)])
qed

interpretation u8c: reader_codec push_u8 read_u8 "\<lambda>_. 0" "\<lambda>_. 0" "\<lambda>_. True"
proof
  fix r x r'
  assume "reader_ok r"
  then show "read_u8 r = Inr (x, r') \<longleftrightarrow>
      True \<and> prefix (push_u8 x) (rest r) \<and> r' = advance (length (push_u8 x)) 0 0 r \<and> reader_ok r'"
    unfolding read_u8_def simp_thms
    by (intro fixed_codec) (auto simp: push_u8_def length_Suc_conv)
qed

interpretation u16c: reader_codec push_u16 read_u16 "\<lambda>_. 0" "\<lambda>_. 0" "\<lambda>_. True"
proof
  fix r x r'
  assume "reader_ok r"
  then show "read_u16 r = Inr (x, r') \<longleftrightarrow>
      True \<and> prefix (push_u16 x) (rest r) \<and> r' = advance (length (push_u16 x)) 0 0 r \<and> reader_ok r'"
    unfolding read_u16_def simp_thms
    by (intro fixed_codec) (auto simp: push_u16_def word_le_bytes)
qed

interpretation u32c: reader_codec push_u32 read_u32 "\<lambda>_. 0" "\<lambda>_. 0" "\<lambda>_. True"
proof
  fix r x r'
  assume "reader_ok r"
  then show "read_u32 r = Inr (x, r') \<longleftrightarrow>
      True \<and> prefix (push_u32 x) (rest r) \<and> r' = advance (length (push_u32 x)) 0 0 r \<and> reader_ok r'"
    unfolding read_u32_def simp_thms
    by (intro fixed_codec) (auto simp: push_u32_def word_le_bytes)
qed

interpretation u64c: reader_codec push_u64 read_u64 "\<lambda>_. 0" "\<lambda>_. 0" "\<lambda>_. True"
proof
  fix r x r'
  assume "reader_ok r"
  then show "read_u64 r = Inr (x, r') \<longleftrightarrow>
      True \<and> prefix (push_u64 x) (rest r) \<and> r' = advance (length (push_u64 x)) 0 0 r \<and> reader_ok r'"
    unfolding read_u64_def simp_thms
    by (intro fixed_codec) (auto simp: push_u64_def word_le_bytes)
qed

lemma length_push [simp]:
  "length (push_u8 a) = 1" "length (push_u16 b) = 2" "length (push_u32 c) = 4" "length (push_u64 d) = 8"
  by (simp_all add: push_u8_def push_u16_def push_u32_def push_u64_def)

definition boolean_byte :: "bool \<Rightarrow> u8" where
  "boolean_byte b = (if b then 1 else 0)"

interpretation boolc: reader_codec "\<lambda>b. push_u8 (boolean_byte b)" read_boolean "\<lambda>_. 0" "\<lambda>_. 0" "\<lambda>_. True"
proof
  fix r b r'
  assume ok: "reader_ok r"
  have "read_boolean r = Inr (b, r') \<longleftrightarrow> read_u8 r = Inr (boolean_byte b, r')"
    by (cases "read_u8 r") (auto simp: read_boolean_def boolean_byte_def split: if_splits)
  then show "read_boolean r = Inr (b, r') \<longleftrightarrow> True \<and> prefix (push_u8 (boolean_byte b)) (rest r) \<and>
      r' = advance (length (push_u8 (boolean_byte b))) 0 0 r \<and> reader_ok r'"
    by (simp add: u8c.dec_iff [OF ok])
qed

text \<open>A count is a 32-bit number that is charged to the item budget.\<close>

interpretation countc: reader_codec "\<lambda>n. push_u32 (of_nat n)" "count_with_limit limit" "\<lambda>n. n" "\<lambda>_. 0"
  "\<lambda>n. n \<le> limit \<and> n < 2 ^ 32" for limit
proof
  fix r n r'
  assume ok: "reader_ok r"
  have word: "unat v = n \<longleftrightarrow> v = of_nat n \<and> n < 2 ^ 32" for v :: u32
    using unsigned_less [of v] by (auto simp: unat_of_nat take_bit_eq_mod)
  have "count_with_limit limit r = Inr (n, r') \<longleftrightarrow>
      (\<exists>v s. read_u32 r = Inr (v, s) \<and> unat v = n \<and> rd_items s + n < 2 ^ 64 \<and> n \<le> limit \<and>
         rd_items s + n \<le> rd_item_budget s \<and> r' = s \<lparr>rd_items := rd_items s + n\<rparr>)"
    by (auto simp: count_with_limit_def result_simps not_less)
  also have "\<dots> \<longleftrightarrow> (n \<le> limit \<and> n < 2 ^ 32) \<and> prefix (push_u32 (of_nat n)) (rest r) \<and>
      r' = advance (length (push_u32 (of_nat n))) n 0 r \<and> reader_ok r'"
    using ok by (auto simp: u32c.dec_iff [OF ok] word reader_ok_def advance_def)
  finally show "count_with_limit limit r = Inr (n, r') \<longleftrightarrow> (n \<le> limit \<and> n < 2 ^ 32) \<and>
      prefix (push_u32 (of_nat n)) (rest r) \<and> r' = advance (length (push_u32 (of_nat n))) n 0 r \<and> reader_ok r'" .
qed

definition string_bytes :: "str \<Rightarrow> bytes" where
  "string_bytes s = push_u32 (of_nat (length s)) @ str_bytes s"

lemma push_string_Inr: "push_string s = Inr bs \<longleftrightarrow> length s < 2 ^ 32 \<and> bs = string_bytes s"
  by (auto simp: push_string_def u32_count_def string_bytes_def result_simps)

interpretation stringc: reader_codec string_bytes read_string length length "\<lambda>s. valid_utf8 s \<and> length s < 2 ^ 32"
proof
  fix r and s :: str and r'
  assume ok: "reader_ok r"
  let ?n = "length s"
  have fit: "reader_ok (advance 4 ?n 0 r \<lparr>rd_string_bytes := rd_string_bytes r + ?n\<rparr>) \<longleftrightarrow>
      reader_ok (advance 4 ?n 0 r) \<and> rd_string_bytes r + ?n \<le> MAX_STRING_BYTES"
    by (auto simp: reader_ok_def)
  have "read_string r = Inr (s, r') \<longleftrightarrow>
      (\<exists>n u bs. count_with_limit (2 ^ 32 - 1) r = Inr (n, u) \<and> rd_string_bytes u + n < 2 ^ 64 \<and>
        rd_string_bytes u + n \<le> MAX_STRING_BYTES \<and>
        take_bytes n (u \<lparr>rd_string_bytes := rd_string_bytes u + n\<rparr>) = Inr (bs, r') \<and> valid_utf8 s \<and> s = bytes_str bs)"
    by (auto simp: read_string_def result_simps not_less)
  also have "\<dots> \<longleftrightarrow> (valid_utf8 s \<and> ?n < 2 ^ 32) \<and> prefix (string_bytes s) (rest r) \<and>
      r' = advance (length (string_bytes s)) ?n ?n r \<and> reader_ok r'"
    (is "?L \<longleftrightarrow> ?R")
  proof
    assume ?L
    then obtain n u bs where c: "count_with_limit (2 ^ 32 - 1) r = Inr (n, u)"
      and t: "take_bytes n (u \<lparr>rd_string_bytes := rd_string_bytes u + n\<rparr>) = Inr (bs, r')"
      and m: "rd_string_bytes u + n \<le> MAX_STRING_BYTES" "valid_utf8 s" "s = bytes_str bs" by blast
    from c have c': "n < 2 ^ 32" "prefix (push_u32 (of_nat n)) (rest r)" "u = advance 4 n 0 r" "reader_ok u"
      by (auto simp: countc.dec_iff [OF ok])
    have "reader_ok (u \<lparr>rd_string_bytes := rd_string_bytes u + n\<rparr>)" using c' m(1) by (auto simp: reader_ok_def)
    from t [unfolded taking.dec_iff [OF this]] c' m show ?R
      by (auto simp: string_bytes_def prefix_append advance_def rest_def add.commute add.left_commute)
  next
    assume R: ?R
    have c: "count_with_limit (2 ^ 32 - 1) r = Inr (?n, advance 4 ?n 0 r)"
      using R by (subst countc.dec_iff [OF ok]) (auto simp: string_bytes_def prefix_append intro: reader_ok_le)
    have "reader_ok (advance 4 ?n 0 r \<lparr>rd_string_bytes := rd_string_bytes r + ?n\<rparr>)"
      using R by (auto simp: string_bytes_def reader_ok_def)
    then have "take_bytes ?n (advance 4 ?n 0 r \<lparr>rd_string_bytes := rd_string_bytes r + ?n\<rparr>) = Inr (str_bytes s, r')"
      using R by (subst taking.dec_iff) (auto simp: string_bytes_def prefix_append advance_def rest_def add.commute
          add.left_commute)
    moreover have "rd_string_bytes r + ?n \<le> MAX_STRING_BYTES" using R by (auto simp: reader_ok_def)
    ultimately show ?L using c R by (fastforce simp: MAX_STRING_BYTES_def)
  qed
  finally show "read_string r = Inr (s, r') \<longleftrightarrow> (valid_utf8 s \<and> ?n < 2 ^ 32) \<and> prefix (string_bytes s) (rest r) \<and>
      r' = advance (length (string_bytes s)) ?n ?n r \<and> reader_ok r'" .
qed

lemma length_string_bytes [simp]: "length (string_bytes s) = 4 + length s"
  by (simp add: string_bytes_def)

lemma is_finished_iff: "reader_ok r \<Longrightarrow> is_finished r \<longleftrightarrow> rest r = []"
  by (auto simp: is_finished_def reader_ok_def rest_def)


text \<open>The writers are prefix codes.\<close>

lemma push_inject [simp]:
  "push_u8 a = push_u8 b \<longleftrightarrow> a = b" "push_u16 c = push_u16 d \<longleftrightarrow> c = d"
  "push_u32 e = push_u32 f \<longleftrightarrow> e = f" "push_u64 g = push_u64 h \<longleftrightarrow> g = h"
  using word_le_bytes [of 2 "push_u16 d" c] word_le_bytes [of 2 "push_u16 d" d]
    word_le_bytes [of 4 "push_u32 f" e] word_le_bytes [of 4 "push_u32 f" f]
    word_le_bytes [of 8 "push_u64 h" g] word_le_bytes [of 8 "push_u64 h" h]
  by (auto simp: push_u8_def push_u16_def push_u32_def push_u64_def)

lemma unat_of_nat_u32: "n < 2 ^ 32 \<Longrightarrow> unat (of_nat n :: u32) = n"
  by (simp add: unat_of_nat take_bit_nat_eq_self)

lemma unat_of_nat_u64: "n < 2 ^ 64 \<Longrightarrow> unat (of_nat n :: u64) = n"
  by (simp add: unat_of_nat take_bit_nat_eq_self)

lemma of_nat_u32_inject: "m < 2 ^ 32 \<Longrightarrow> n < 2 ^ 32 \<Longrightarrow> (of_nat m :: u32) = of_nat n \<longleftrightarrow> m = n"
  using unat_of_nat_u32 by metis

lemma of_nat_u64_inject: "m < 2 ^ 64 \<Longrightarrow> n < 2 ^ 64 \<Longrightarrow> (of_nat m :: u64) = of_nat n \<longleftrightarrow> m = n"
  using unat_of_nat_u64 by metis

interpretation string_prefix: prefix_code string_bytes "\<lambda>s. length s < 2 ^ 32"
  by unfold_locales (auto simp: string_bytes_def of_nat_u32_inject)


section \<open>Reading forward\<close>

text \<open>
  A decoder reads given bytes to a value, at a given charge.  For formats whose reader keeps state,
  only this direction is stated; it composes along \<open>and_then\<close>.
\<close>

definition reads :: "'a decoder \<Rightarrow> bytes \<Rightarrow> nat \<Rightarrow> nat \<Rightarrow> 'a \<Rightarrow> bool" where
  "reads dec bs items strings x \<longleftrightarrow>
     (\<forall>r. prefix bs (rest r) \<longrightarrow> reader_ok (advance (length bs) items strings r) \<longrightarrow>
        dec r = Inr (x, advance (length bs) items strings r))"

lemma readsD:
  "reads dec bs i s x \<Longrightarrow> prefix bs (rest r) \<Longrightarrow> reader_ok (advance (length bs) i s r) \<Longrightarrow>
   dec r = Inr (x, advance (length bs) i s r)"
  by (simp add: reads_def)

lemma reads_cong: "(\<And>r. f r = g r) \<Longrightarrow> reads g bs i s x \<Longrightarrow> reads f bs i s x"
  by (simp add: reads_def)

lemma reads_return: "reads (\<lambda>r. Inr (x, r)) [] 0 0 x"
  by (simp add: reads_def)

lemma reads_bind:
  assumes "reads d bs i s x" and "reads (f x) bs' i' s' y"
  shows "reads (\<lambda>r. and_then (d r) (\<lambda>(x, r). f x r)) (bs @ bs') (i + i') (s + s') y"
proof -
  { fix r
    assume p: "prefix (bs @ bs') (rest r)" and ok: "reader_ok (advance (length (bs @ bs')) (i + i') (s + s') r)"
    let ?r = "advance (length bs) i s r"
    have "reader_ok ?r" by (rule reader_ok_le [OF ok]) auto
    with p have "d r = Inr (x, ?r)" by (intro readsD [OF assms(1)]) (auto simp: prefix_append)
    moreover have "f x ?r = Inr (y, advance (length bs') i' s' ?r)"
      using p ok by (intro readsD [OF assms(2)]) (auto simp: prefix_append)
    ultimately have "and_then (d r) (\<lambda>(x, r). f x r) = Inr (y, advance (length (bs @ bs')) (i + i') (s + s') r)" by simp }
  then show ?thesis by (simp add: reads_def)
qed

lemma reads_map: "reads d bs i s x \<Longrightarrow> reads (\<lambda>r. and_then (d r) (\<lambda>(x, r). Inr (f x, r))) bs i s (f x)"
  using reads_bind [of d bs i s x "\<lambda>x r. Inr (f x, r)" "[]" 0 0 "f x", OF _ reads_return] by simp

lemma reads_many:
  "list_all2 (\<lambda>bs x. reads dec bs 0 0 x) bss xs \<Longrightarrow> reads (read_many (length xs) dec) (concat bss) 0 0 xs"
proof (induction bss xs rule: list_all2_induct)
  case Nil
  then show ?case by (simp add: reads_def)
next
  case (Cons bs bss x xs)
  have "reads (\<lambda>r. and_then (dec r) (\<lambda>(x, r). and_then (read_many (length xs) dec r) (\<lambda>(xs, r). Inr (x # xs, r))))
      (bs @ concat bss) (0 + 0) (0 + 0) (x # xs)"
    by (rule reads_bind [OF Cons.hyps(1) reads_map [OF Cons.IH]])
  moreover have "read_many (length (x # xs)) dec =
      (\<lambda>r. and_then (dec r) (\<lambda>(x, r). and_then (read_many (length xs) dec r) (\<lambda>(xs, r). Inr (x # xs, r))))"
    by (rule ext) simp
  ultimately show ?case by simp
qed

context reader_codec
begin

lemma codec_reads: "ok x \<Longrightarrow> reads dec (enc x) (items x) (strings x) x"
proof -
  assume x: "ok x"
  { fix r
    assume p: "prefix (enc x) (rest r)" and ok: "reader_ok (advance (length (enc x)) (items x) (strings x) r)"
    have "reader_ok (advance 0 0 0 r)" by (rule reader_ok_le [OF ok]) auto
    then have "dec r = Inr (x, advance (length (enc x)) (items x) (strings x) r)"
      using x p ok by (simp add: dec_iff) }
  then show ?thesis by (simp add: reads_def)
qed

end


text \<open>The same, as rules that take the bytes apart from the front.\<close>

lemma reads_step:
  assumes "reads d b i s x" and "i \<le> i'" and "s \<le> s'" and "reads (f x) b' (i' - i) (s' - s) y"
  shows "reads (\<lambda>r. and_then (d r) (\<lambda>(x, r). f x r)) (b @ b') i' s' y"
  using reads_bind [where f = f, OF assms(1,4)] assms(2,3) by simp

lemma reads_step_last:
  assumes "reads d b i s x" and "reads (f x) [] 0 0 y"
  shows "reads (\<lambda>r. and_then (d r) (\<lambda>(x, r). f x r)) b i s y"
  using reads_bind [where f = f, OF assms] by simp

lemmas reads_u8 = u8c.codec_reads [OF TrueI]
lemmas reads_u16 = u16c.codec_reads [OF TrueI]
lemmas reads_u32 = u32c.codec_reads [OF TrueI]
lemmas reads_u64 = u64c.codec_reads [OF TrueI]
lemmas reads_u8_step = reads_step [OF reads_u8 zero_le zero_le, simplified diff_zero]
lemmas reads_u16_step = reads_step [OF reads_u16 zero_le zero_le, simplified diff_zero]
lemmas reads_u32_step = reads_step [OF reads_u32 zero_le zero_le, simplified diff_zero]
lemmas reads_u64_step = reads_step [OF reads_u64 zero_le zero_le, simplified diff_zero]

lemma reads_take: "length bs = n \<Longrightarrow> reads (take_bytes n) bs 0 0 bs"
  by (rule taking.codec_reads)

lemma reads_count: "n \<le> limit \<Longrightarrow> n < 2 ^ 32 \<Longrightarrow> reads (count_with_limit limit) (push_u32 (of_nat n)) n 0 n"
  by (rule countc.codec_reads) simp

lemma reads_string: "valid_utf8 s \<Longrightarrow> length s < 2 ^ 32 \<Longrightarrow> reads read_string (string_bytes s) (length s) (length s) s"
  by (rule stringc.codec_reads) simp

lemmas reads_take_step = reads_step [OF reads_take zero_le zero_le, simplified diff_zero]

end
