(* ===== verification/Ketchup_Container.thy ===== *)
theory Ketchup_Container
  imports Ketchup_Reader
begin

text \<open>
  The native container (\<^verbatim>\<open>persistence.rs\<close>): the data a file keeps beside its document
  (\<^verbatim>\<open>ContainerData\<close>: blobs by their SHA-256 and extensions by namespace and path), the checks of
  entry paths, the framing of entries, and the parts a file is taken apart into when it is opened.
  SHA-256 is the argument \<open>sha\<close>.  Proved: the framing is read back exactly when it was written within
  the reader's budgets; what the reader accepts is the framing of the entries it returns; data that
  was saved is the data that opens.
\<close>

section \<open>Entry paths\<close>

definition MAX_CONTAINER_ENTRIES :: nat where "MAX_CONTAINER_ENTRIES = 4096"
definition MAX_CONTAINER_PATH_BYTES :: nat where "MAX_CONTAINER_PATH_BYTES = 1024"

definition is_namespace_byte :: "char \<Rightarrow> bool" where
  "is_namespace_byte c \<longleftrightarrow>
     97 \<le> (of_char c :: nat) \<and> (of_char c :: nat) \<le> 122 \<or> is_digit c \<or> c = CHR ''.'' \<or> c = CHR ''_'' \<or> c = CHR ''-''"

definition validate_namespace :: "str \<Rightarrow> persistence_error + unit" where
  "validate_namespace namespace =
     guard (\<not> (namespace = [] \<or> length namespace > MAX_CONTAINER_PATH_BYTES \<or>
       \<not> list_all is_namespace_byte namespace)) (InvalidContainerPath namespace)"

definition validate_relative_path :: "str \<Rightarrow> persistence_error + unit" where
  "validate_relative_path path =
     guard (\<not> (path = [] \<or> length path > MAX_CONTAINER_PATH_BYTES \<or> CHR 0x5C \<in> set path \<or> CHR 0x00 \<in> set path \<or>
       hd path = CHR ''/'' \<or>
       list_ex (\<lambda>component. component = [] \<or> component = ''.'' \<or> component = ''..'') (str_split (CHR ''/'') path)))
       (InvalidContainerPath path)"

definition validate_container_path :: "str \<Rightarrow> persistence_error + unit" where
  "validate_container_path path =
     and_then (validate_relative_path path) (\<lambda>_. guard (CHR '':'' \<notin> set path) (InvalidContainerPath path))"


section \<open>Container data\<close>

record extension_entry =
  ee_namespace :: str
  ee_path :: str
  ee_required :: bool
  ee_bytes :: bytes

definition extension_entry_new :: "str \<Rightarrow> str \<Rightarrow> bool \<Rightarrow> bytes \<Rightarrow> persistence_error + extension_entry" where
  "extension_entry_new namespace path required bs =
     and_then (validate_namespace namespace) (\<lambda>_.
     and_then (validate_relative_path path) (\<lambda>_.
     Ok \<lparr>ee_namespace = namespace, ee_path = path, ee_required = required, ee_bytes = bs\<rparr>))"

record container_data =
  cd_blobs :: "(str, bytes) btree_map"
  cd_imported :: "str list"
  cd_extensions :: "(str \<times> str, extension_entry) btree_map"

definition container_data_default :: container_data where
  "container_data_default = \<lparr>cd_blobs = [], cd_imported = [], cd_extensions = []\<rparr>"

definition insert_blob :: "(bytes \<Rightarrow> bytes) \<Rightarrow> bytes \<Rightarrow> container_data \<Rightarrow> str \<times> container_data" where
  "insert_blob sha bs d =
     (let hash = sha256_hex sha bs
      in (hash, if bt_contains (cd_blobs d) hash then d else d \<lparr>cd_blobs := bt_insert hash bs (cd_blobs d)\<rparr>))"

definition insert_import_blob :: "(bytes \<Rightarrow> bytes) \<Rightarrow> bytes \<Rightarrow> container_data \<Rightarrow> str \<times> container_data" where
  "insert_import_blob sha bs d =
     (case insert_blob sha bs d of (hash, d) \<Rightarrow> (hash, d \<lparr>cd_imported := bs_insert hash (cd_imported d)\<rparr>))"

definition insert_extension :: "extension_entry \<Rightarrow> container_data \<Rightarrow> persistence_error + container_data" where
  "insert_extension e d =
     and_then (guard (\<not> bt_contains (cd_extensions d) (ee_namespace e, ee_path e)) DuplicateContainerEntry) (\<lambda>_.
     Ok (d \<lparr>cd_extensions := bt_insert (ee_namespace e, ee_path e) e (cd_extensions d)\<rparr>))"

definition set_extension :: "extension_entry \<Rightarrow> container_data \<Rightarrow> container_data" where
  "set_extension e d = d \<lparr>cd_extensions := bt_insert (ee_namespace e, ee_path e) e (cd_extensions d)\<rparr>"

definition requires_unknown_extension :: "container_data \<Rightarrow> bool" where
  "requires_unknown_extension d = list_ex ee_required (bt_values (cd_extensions d))"


section \<open>Writing a container\<close>

type_synonym entry_map = "(str, bool \<times> bytes) btree_map"

definition CONTAINER_MAGIC :: bytes where "CONTAINER_MAGIC = str_bytes ''KETCHUPCTR''"
definition CONTAINER_SCHEMA :: u16 where "CONTAINER_SCHEMA = 1"
definition LARGE_CONTAINER_SCHEMA :: u16 where "LARGE_CONTAINER_SCHEMA = 2"
definition ENTRY_LIMIT_OF_0_2_0 :: nat where "ENTRY_LIMIT_OF_0_2_0 = 32 * 1024 * 1024"

definition extension_path :: "extension_entry \<Rightarrow> str" where
  "extension_path e = ''extensions/'' @ ee_namespace e @ ''/'' @ ee_path e"

definition side_entries :: "container_data \<Rightarrow> str list \<Rightarrow> persistence_error + entry_map" where
  "side_entries d imported_sources =
     and_then (guard (\<not> list_ex (\<lambda>hash. \<not> bt_contains (cd_blobs d) hash) imported_sources) InvalidBlobHash) (\<lambda>_.
     try_fold (\<lambda>entries e.
         and_then (guard (\<not> bt_contains entries (extension_path e)) DuplicateContainerEntry) (\<lambda>_.
         Ok (bt_insert (extension_path e) (ee_required e, ee_bytes e) entries)))
       (fold (\<lambda>(hash, bs) entries.
            if hash \<notin> set (cd_imported d) \<or> hash \<in> set imported_sources
            then bt_insert (''blobs/'' @ hash) (False, bs) entries else entries) (cd_blobs d) [])
       (bt_values (cd_extensions d)))"

definition encode_entry :: "(bytes \<Rightarrow> bytes) \<Rightarrow> str \<times> bool \<times> bytes \<Rightarrow> persistence_error + bytes" where
  "encode_entry sha e =
     (case e of (path, required, bs) \<Rightarrow>
       and_then (validate_container_path path) (\<lambda>_.
       and_then (push_string path) (\<lambda>p.
       and_then (u64_len (length bs)) (\<lambda>n.
       Ok (p @ push_u8 (boolean_byte required) @ push_u64 n @ sha bs @ bs)))))"

definition encode_container :: "(bytes \<Rightarrow> bytes) \<Rightarrow> entry_map \<Rightarrow> persistence_error + bytes" where
  "encode_container sha entries =
     and_then (guard (\<not> length entries > MAX_CONTAINER_ENTRIES) ResourceLimit) (\<lambda>_.
     let large = list_ex (\<lambda>(_, _, bs). length bs > ENTRY_LIMIT_OF_0_2_0) entries in
     and_then (u32_count (length entries)) (\<lambda>n.
     and_then (try_map (encode_entry sha) entries) (\<lambda>encoded.
     Ok (CONTAINER_MAGIC @ push_u16 (if large then LARGE_CONTAINER_SCHEMA else CONTAINER_SCHEMA) @ push_u32 n @
         concat encoded))))"

definition saved_entry_map :: "bytes \<Rightarrow> bytes option \<Rightarrow> bytes option \<Rightarrow> entry_map \<Rightarrow> entry_map" where
  "saved_entry_map document_bin revision_history program entries =
     (let entries = bt_insert ''document.bin'' (True, document_bin) entries;
          entries = (case revision_history of None \<Rightarrow> entries | Some h \<Rightarrow> bt_insert ''history.bin'' (True, h) entries)
      in case program of None \<Rightarrow> entries | Some p \<Rightarrow> bt_insert ''program.json'' (True, p) entries)"

definition save_container_entries ::
  "(bytes \<Rightarrow> bytes) \<Rightarrow> bytes \<Rightarrow> container_data \<Rightarrow> str list \<Rightarrow> bytes option \<Rightarrow> bytes option \<Rightarrow> persistence_error + bytes" where
  "save_container_entries sha document_bin d imported_sources revision_history program =
     and_then (side_entries d imported_sources) (\<lambda>entries.
     encode_container sha (saved_entry_map document_bin revision_history program entries))"


section \<open>Reading a container\<close>

record container_entry =
  ce_path :: str
  ce_required :: bool
  ce_checksum :: bytes
  ce_content :: bytes

definition read_entry :: "container_entry decoder" where
  "read_entry r =
     and_then (read_string r) (\<lambda>(path, r).
     and_then (validate_container_path path) (\<lambda>_.
     and_then (read_boolean r) (\<lambda>(required, r).
     and_then (read_u64 r) (\<lambda>(length', r).
     and_then (guard (\<not> unat length' > (length (rd_bytes r) - rd_cursor r) - 32) Truncated) (\<lambda>_.
     and_then (take_bytes 32 r) (\<lambda>(checksum, r).
     and_then (take_bytes (unat length') r) (\<lambda>(content, r).
     Ok (\<lparr>ce_path = path, ce_required = required, ce_checksum = checksum, ce_content = content\<rparr>, r))))))))"

definition container_directory :: "bytes \<Rightarrow> persistence_error + container_entry list" where
  "container_directory bs =
     and_then (take_bytes (length CONTAINER_MAGIC) (reader_new bs)) (\<lambda>(magic, r).
     and_then (guard (magic = CONTAINER_MAGIC) InvalidContainerMagic) (\<lambda>_.
     and_then (read_u16 r) (\<lambda>(schema, r).
     and_then (guard (schema = CONTAINER_SCHEMA \<or> schema = LARGE_CONTAINER_SCHEMA) (UnsupportedContainerSchema schema)) (\<lambda>_.
     and_then (count_with_limit MAX_CONTAINER_ENTRIES r) (\<lambda>(entry_count, r).
     and_then (read_many entry_count read_entry r) (\<lambda>(entries, r).
     and_then (guard (is_finished r) TrailingBytes) (\<lambda>_.
     Ok entries)))))))"

definition add_entry :: "(bytes \<Rightarrow> bytes) \<Rightarrow> entry_map \<Rightarrow> container_entry \<Rightarrow> persistence_error + entry_map" where
  "add_entry sha entries e =
     and_then (guard (sha (ce_content e) = ce_checksum e) (ContainerChecksumMismatch (ce_path e))) (\<lambda>_.
     and_then (guard (\<not> bt_contains entries (ce_path e)) DuplicateContainerEntry) (\<lambda>_.
     Ok (bt_insert (ce_path e) (ce_required e, ce_content e) entries)))"

definition container_entries :: "(bytes \<Rightarrow> bytes) \<Rightarrow> bytes \<Rightarrow> persistence_error + entry_map" where
  "container_entries sha bs = and_then (container_directory bs) (try_fold (add_entry sha) [])"

text \<open>A file from before the container is decoded whole, by \<open>load_document\<close>.\<close>

definition verify_checksums ::
  "(bytes \<Rightarrow> bytes) \<Rightarrow> (bytes \<Rightarrow> persistence_error + unit) \<Rightarrow> bytes \<Rightarrow> persistence_error + unit" where
  "verify_checksums sha load_document bs =
     (if \<not> prefix CONTAINER_MAGIC bs then load_document bs
      else and_then (container_entries sha bs) (\<lambda>entries.
        case bt_get entries ''document.bin'' of
          Some (True, _) \<Rightarrow> Ok ()
        | Some (False, _) \<Rightarrow> Err DocumentEntryNotRequired
        | None \<Rightarrow> Err MissingDocumentEntry))"

text \<open>
  The first part of \<^verbatim>\<open>load_container\<close>: the document, the history, the decoded program and the container
  data of a file.
\<close>

record 'p container_parts =
  pt_document :: bytes
  pt_history :: "bytes option"
  pt_program :: "'p option"
  pt_data :: container_data

fun split_once :: "char \<Rightarrow> str \<Rightarrow> (str \<times> str) option" where
  "split_once c [] = None"
| "split_once c (x # xs) = (if x = c then Some ([], xs) else map_option (\<lambda>(a, b). (x # a, b)) (split_once c xs))"

definition add_side_entry ::
  "(bytes \<Rightarrow> bytes) \<Rightarrow> container_data \<Rightarrow> str \<times> bool \<times> bytes \<Rightarrow> persistence_error + container_data" where
  "add_side_entry sha d e =
     (case e of (path, required, content) \<Rightarrow>
       if prefix ''blobs/'' path then
         let hash = drop 6 path in
         and_then (guard (\<not> (required \<or> length hash \<noteq> 64 \<or> sha256_hex sha content \<noteq> hash)) InvalidBlobHash) (\<lambda>_.
         and_then (guard (\<not> bt_contains (cd_blobs d) hash) DuplicateContainerEntry) (\<lambda>_.
         Ok (d \<lparr>cd_blobs := bt_insert hash content (cd_blobs d)\<rparr>)))
       else if prefix ''extensions/'' path then
         and_then (ok_or (split_once (CHR ''/'') (drop 11 path)) (InvalidContainerPath path)) (\<lambda>(namespace, relative_path).
         and_then (extension_entry_new namespace relative_path required content) (\<lambda>x. insert_extension x d))
       else Err (UnsupportedContainerEntry path))"

definition required_entry :: "persistence_error \<Rightarrow> (bool \<times> bytes) option \<Rightarrow> persistence_error + bytes option" where
  "required_entry e entry =
     (case entry of None \<Rightarrow> Ok None | Some (True, content) \<Rightarrow> Ok (Some content) | Some (False, _) \<Rightarrow> Err e)"

definition container_parts ::
  "(bytes \<Rightarrow> bytes) \<Rightarrow> (bytes \<Rightarrow> persistence_error + 'p) \<Rightarrow> bytes \<Rightarrow> persistence_error + 'p container_parts" where
  "container_parts sha decode_rule_program bs =
     and_then (container_entries sha bs) (\<lambda>entries.
     and_then (ok_or (bt_get entries ''document.bin'') MissingDocumentEntry) (\<lambda>(document_required, document).
     and_then (guard document_required DocumentEntryNotRequired) (\<lambda>_.
     and_then (required_entry HistoryEntryNotRequired (bt_get entries ''history.bin'')) (\<lambda>history.
     and_then (required_entry ProgramEntryNotRequired (bt_get entries ''program.json'')) (\<lambda>encoded.
     and_then (case encoded of None \<Rightarrow> Ok None
       | Some content \<Rightarrow> and_then (decode_rule_program content) (\<lambda>p. Ok (Some p))) (\<lambda>program.
     and_then (try_fold (add_side_entry sha) container_data_default
       (bt_remove ''program.json'' (bt_remove ''history.bin'' (bt_remove ''document.bin'' entries)))) (\<lambda>d.
     Ok \<lparr>pt_document = document, pt_history = history, pt_program = program, pt_data = d\<rparr>)))))))"


section \<open>The framing is read back\<close>

lemma validate_container_path_Inr:
  "validate_container_path path = Inr () \<longleftrightarrow> validate_relative_path path = Inr () \<and> CHR '':'' \<notin> set path"
  by (auto simp: validate_container_path_def result_simps)

lemma relative_path_short: "validate_relative_path path = Inr () \<Longrightarrow> length path \<le> 1024"
  by (auto simp: validate_relative_path_def result_simps MAX_CONTAINER_PATH_BYTES_def)

definition entry_bytes :: "container_entry \<Rightarrow> bytes" where
  "entry_bytes e =
     string_bytes (ce_path e) @ push_u8 (boolean_byte (ce_required e)) @ push_u64 (of_nat (length (ce_content e))) @
     ce_checksum e @ ce_content e"

definition entry_ok :: "container_entry \<Rightarrow> bool" where
  "entry_ok e \<longleftrightarrow> valid_utf8 (ce_path e) \<and> validate_container_path (ce_path e) = Inr () \<and> length (ce_checksum e) = 32 \<and>
     length (ce_content e) < 2 ^ 64"

interpretation entryc: reader_codec entry_bytes read_entry "\<lambda>e. length (ce_path e)" "\<lambda>e. length (ce_path e)" entry_ok
proof
  fix r and e :: container_entry and r'
  assume ok: "reader_ok r"
  let ?p = "ce_path e" and ?n = "length (ce_content e)"
  let ?r1 = "advance (4 + length ?p) (length ?p) (length ?p) r"
  let ?r2 = "advance 1 0 0 ?r1" and ?r3 = "advance 9 0 0 ?r1" and ?r4 = "advance 41 0 0 ?r1"
  show "read_entry r = Inr (e, r') \<longleftrightarrow> entry_ok e \<and> prefix (entry_bytes e) (rest r) \<and>
      r' = advance (length (entry_bytes e)) (length ?p) (length ?p) r \<and> reader_ok r'"
    (is "?L \<longleftrightarrow> ?R")
  proof
    assume ?L
    then obtain u1 u2 u3 u4 n where s: "read_string r = Inr (?p, u1)" "validate_container_path ?p = Inr ()"
      "read_boolean u1 = Inr (ce_required e, u2)" "read_u64 u2 = Inr (n, u3)"
      "take_bytes 32 u3 = Inr (ce_checksum e, u4)" "take_bytes (unat n) u4 = Inr (ce_content e, r')"
      by (auto simp: read_entry_def result_simps split: prod.splits)
    from s(1) have 1: "valid_utf8 ?p" "prefix (string_bytes ?p) (rest r)" "u1 = ?r1" "reader_ok u1"
      by (auto simp: stringc.dec_iff [OF ok])
    from s(3) [unfolded boolc.dec_iff [OF 1(4)]] have
      2: "prefix (push_u8 (boolean_byte (ce_required e))) (rest u1)" "u2 = ?r2" "reader_ok u2" by (auto simp: 1(3))
    from s(4) [unfolded u64c.dec_iff [OF 2(3)]] have 3: "prefix (push_u64 n) (rest u2)" "u3 = ?r3" "reader_ok u3"
      by (auto simp: 2(2))
    from s(5) [unfolded taking.dec_iff [OF 3(3)]] have
      4: "length (ce_checksum e) = 32" "prefix (ce_checksum e) (rest u3)" "u4 = ?r4" "reader_ok u4" by (auto simp: 3(2))
    from s(6) have 5: "?n = unat n" "prefix (ce_content e) (rest u4)" "r' = advance ?n 0 0 u4" "reader_ok r'"
      by (auto simp: taking.dec_iff [OF 4(4)])
    have n: "of_nat ?n = n" "?n < 2 ^ 64" by (simp_all add: 5(1))
    show ?R using 1 2 3 4 5 s(2) n(2) unfolding n(1) [symmetric] by (simp add: entry_ok_def entry_bytes_def prefix_append)
  next
    assume R: ?R
    then have p: "valid_utf8 ?p" "validate_container_path ?p = Inr ()" "length (ce_checksum e) = 32" "?n < 2 ^ 64"
      by (auto simp: entry_ok_def)
    have short: "length ?p < 2 ^ 32"
      using relative_path_short [of ?p] p(2) by (simp add: validate_container_path_Inr)
    have r': "r' = advance (45 + length ?p + ?n) (length ?p) (length ?p) r" "reader_ok r'"
      using R p(3) by (auto simp: entry_bytes_def add_ac)
    have oks: "reader_ok ?r1" "reader_ok ?r2" "reader_ok ?r3" "reader_ok ?r4"
      using r' by (auto intro: reader_ok_le)
    have px: "prefix (string_bytes ?p) (rest r)" "prefix (push_u8 (boolean_byte (ce_required e))) (rest ?r1)"
      "prefix (push_u64 (of_nat ?n)) (rest ?r2)" "prefix (ce_checksum e) (rest ?r3)" "prefix (ce_content e) (rest ?r4)"
      using R p(3) by (auto simp: entry_bytes_def prefix_append add_ac)
    have "read_string r = Inr (?p, ?r1)" using p(1) short px(1) oks(1) by (simp add: stringc.dec_iff [OF ok])
    moreover have "read_boolean ?r1 = Inr (ce_required e, ?r2)" unfolding boolc.dec_iff [OF oks(1)] using px(2) oks(2) by simp
    moreover have "read_u64 ?r2 = Inr (of_nat ?n, ?r3)" unfolding u64c.dec_iff [OF oks(2)] using px(3) oks(3) by simp
    moreover have "take_bytes 32 ?r3 = Inr (ce_checksum e, ?r4)" unfolding taking.dec_iff [OF oks(3)] using px(4) oks(4) p(3) by simp
    moreover have "take_bytes ?n ?r4 = Inr (ce_content e, r')"
      unfolding taking.dec_iff [OF oks(4)] using px(5) r' by (simp add: add_ac)
    moreover have "\<not> ?n > (length (rd_bytes ?r3) - rd_cursor ?r3) - 32"
      using r' by (auto simp: reader_ok_def)
    ultimately show ?L using p(2,4) by (simp add: read_entry_def unat_of_nat_u64)
  qed
qed


definition directory_bytes :: "u16 \<Rightarrow> container_entry list \<Rightarrow> bytes" where
  "directory_bytes schema es =
     CONTAINER_MAGIC @ push_u16 schema @ push_u32 (of_nat (length es)) @ concat (map entry_bytes es)"

text \<open>What the reader charges for a directory: its entries and the bytes of their paths.\<close>

definition directory_items :: "container_entry list \<Rightarrow> nat" where
  "directory_items es = length es + sum_list (map (\<lambda>e. length (ce_path e)) es)"

lemma length_magic [simp]: "length CONTAINER_MAGIC = 10"
  by (simp add: CONTAINER_MAGIC_def)

lemma directory_iff:
  assumes "length bs < 2 ^ 64"
  shows "container_directory bs = Inr es \<longleftrightarrow>
    (\<exists>schema. (schema = CONTAINER_SCHEMA \<or> schema = LARGE_CONTAINER_SCHEMA) \<and> bs = directory_bytes schema es) \<and>
    length es \<le> MAX_CONTAINER_ENTRIES \<and> list_all entry_ok es \<and> directory_items es \<le> MAX_COLLECTION_ITEMS"
    (is "_ \<longleftrightarrow> ?R")
proof -
  let ?r0 = "reader_new bs" and ?n = "length es" and ?s = "sum_list (map (\<lambda>e. length (ce_path e)) es)"
  let ?r1 = "advance 10 0 0 ?r0" and ?r2 = "advance 12 0 0 ?r0" and ?r3 = "advance 16 ?n 0 ?r0"
  let ?r4 = "advance (16 + length (concat (map entry_bytes es))) (?n + ?s) ?s ?r0"
  have ok0: "reader_ok ?r0" using assms by (simp add: reader_new_def MAX_COLLECTION_ITEMS_def)
  have rest0: "rest (reader_new x) = x" for x by (simp add: reader_new_def)
  have ok4: "reader_ok ?r4 \<longleftrightarrow> 16 + length (concat (map entry_bytes es)) \<le> length bs \<and> ?n + ?s \<le> MAX_COLLECTION_ITEMS"
    using assms by (auto simp: reader_ok_def reader_new_def with_item_budget_def MAX_COLLECTION_ITEMS_def
        MAX_STRING_BYTES_def)
  show ?thesis
  proof
    assume "container_directory bs = Inr es"
    then obtain u1 schema u2 n u3 u4 where s: "take_bytes 10 ?r0 = Inr (CONTAINER_MAGIC, u1)"
      "read_u16 u1 = Inr (schema, u2)" "schema = CONTAINER_SCHEMA \<or> schema = LARGE_CONTAINER_SCHEMA"
      "count_with_limit MAX_CONTAINER_ENTRIES u2 = Inr (n, u3)" "read_many n read_entry u3 = Inr (es, u4)" "is_finished u4"
      by (auto simp: container_directory_def result_simps)
    from s(1) [unfolded taking.dec_iff [OF ok0]] have 1: "prefix CONTAINER_MAGIC bs" "u1 = ?r1" "reader_ok u1"
      by (auto simp: rest0)
    from s(2) [unfolded u16c.dec_iff [OF 1(3)]] have 2: "prefix (push_u16 schema) (drop 10 bs)" "u2 = ?r2" "reader_ok u2"
      by (auto simp: 1(2) rest0)
    from s(4) [unfolded countc.dec_iff [OF 2(3)]] have 3: "n \<le> MAX_CONTAINER_ENTRIES"
      "prefix (push_u32 (of_nat n)) (drop 12 bs)" "u3 = advance 16 n 0 ?r0" "reader_ok u3"
      by (auto simp: 2(2) rest0)
    from s(5) [unfolded entryc.many_iff [OF 3(4)]] have 4: "?n = n" "list_all entry_ok es"
      "prefix (concat (map entry_bytes es)) (drop 16 bs)" "u4 = ?r4" "reader_ok u4"
      by (auto simp: 3(3) rest0)
    have "drop (16 + length (concat (map entry_bytes es))) bs = []"
      using s(6) [unfolded is_finished_iff [OF 4(5)]] by (simp add: 4(4) rest0)
    then have "length (drop 16 bs) \<le> length (concat (map entry_bytes es))" by simp
    moreover obtain zs where z: "drop 16 bs = concat (map entry_bytes es) @ zs" using 4(3) by (auto simp: prefix_def)
    ultimately have "zs = []" by (simp only: length_append) simp
    with z have "drop 16 bs = concat (map entry_bytes es)" by simp
    with 1(1) 2(1) 3(2) 4(1) have "bs = directory_bytes schema es"
      by (auto simp: directory_bytes_def prefix_def)
    with s(3) 3(1) 4 ok4 show ?R by (auto simp: directory_items_def)
  next
    assume R: ?R
    then obtain schema where b: "bs = directory_bytes schema es" "schema = CONTAINER_SCHEMA \<or> schema = LARGE_CONTAINER_SCHEMA"
      by blast
    have k4: "reader_ok ?r4" unfolding ok4 using R b(1) by (simp add: directory_bytes_def directory_items_def)
    then have k: "reader_ok ?r1" "reader_ok ?r2" "reader_ok ?r3" by (auto intro: reader_ok_le)
    have "take_bytes 10 ?r0 = Inr (CONTAINER_MAGIC, ?r1)"
      unfolding taking.dec_iff [OF ok0] using k by (simp add: rest0 b directory_bytes_def)
    moreover have "read_u16 ?r1 = Inr (schema, ?r2)"
      unfolding u16c.dec_iff [OF k(1)] using k by (simp add: rest0 b directory_bytes_def)
    moreover have "count_with_limit MAX_CONTAINER_ENTRIES ?r2 = Inr (?n, ?r3)"
      unfolding countc.dec_iff [OF k(2)] using k R by (simp add: rest0 b directory_bytes_def MAX_CONTAINER_ENTRIES_def)
    moreover have "read_many ?n read_entry ?r3 = Inr (es, ?r4)"
      unfolding entryc.many_iff [OF k(3)] using k4 R by (simp add: rest0 b directory_bytes_def)
    moreover have "is_finished ?r4"
      unfolding is_finished_iff [OF k4] by (simp add: rest0 b directory_bytes_def)
    ultimately show "container_directory bs = Inr es" using b(2) by (simp add: container_directory_def)
  qed
qed

text \<open>The directory a map of entries is written as.\<close>

definition framed :: "(bytes \<Rightarrow> bytes) \<Rightarrow> str \<times> bool \<times> bytes \<Rightarrow> container_entry" where
  "framed sha e =
     \<lparr>ce_path = fst e, ce_required = fst (snd e), ce_checksum = sha (snd (snd e)), ce_content = snd (snd e)\<rparr>"

lemma framed_fields [simp]:
  "ce_path (framed sha e) = fst e" "ce_required (framed sha e) = fst (snd e)"
  "ce_checksum (framed sha e) = sha (snd (snd e))" "ce_content (framed sha e) = snd (snd e)"
  by (simp_all add: framed_def)

lemma encode_entry_Inr:
  "encode_entry sha e = Inr bs \<longleftrightarrow>
     validate_container_path (fst e) = Inr () \<and> length (snd (snd e)) < 2 ^ 64 \<and> bs = entry_bytes (framed sha e)"
  using relative_path_short [of "fst e"]
  by (cases e) (auto simp: encode_entry_def result_simps push_string_Inr u64_len_def entry_bytes_def framed_def
      validate_container_path_Inr)

definition container_schema_of :: "entry_map \<Rightarrow> u16" where
  "container_schema_of entries =
     (if list_ex (\<lambda>(_, _, bs). length bs > ENTRY_LIMIT_OF_0_2_0) entries then LARGE_CONTAINER_SCHEMA else CONTAINER_SCHEMA)"

lemma encode_container_Inr:
  "encode_container sha entries = Inr bs \<longleftrightarrow>
     length entries \<le> MAX_CONTAINER_ENTRIES \<and>
     list_all (\<lambda>e. validate_container_path (fst e) = Inr () \<and> length (snd (snd e)) < 2 ^ 64) entries \<and>
     bs = directory_bytes (container_schema_of entries) (map (framed sha) entries)"
proof -
  have "try_map (encode_entry sha) entries = Inr ys \<longleftrightarrow>
      list_all (\<lambda>e. validate_container_path (fst e) = Inr () \<and> length (snd (snd e)) < 2 ^ 64) entries \<and>
      ys = map (\<lambda>e. entry_bytes (framed sha e)) entries" for ys
    by (induction entries arbitrary: ys) (auto simp: result_simps encode_entry_Inr)
  then show ?thesis
    by (auto simp: encode_container_def result_simps directory_bytes_def container_schema_of_def u32_count_def Let_def
        MAX_CONTAINER_ENTRIES_def comp_def split: if_splits)
qed

lemma add_entries:
  "try_fold (add_entry sha) m es = Inr m' \<longleftrightarrow>
     list_all (\<lambda>e. sha (ce_content e) = ce_checksum e) es \<and> distinct (map ce_path es) \<and>
     list_all (\<lambda>e. \<not> bt_contains m (ce_path e)) es \<and>
     m' = fold (\<lambda>e m. bt_insert (ce_path e) (ce_required e, ce_content e) m) es m"
proof (induction es arbitrary: m)
  case Nil
  then show ?case by auto
next
  case (Cons e es)
  have c: "bt_contains (bt_insert k v m) k' \<longleftrightarrow> k' = k \<or> bt_contains m k'" for k k' v
    by (simp add: bt_contains_def)
  have "try_fold (add_entry sha) m (e # es) = Inr m' \<longleftrightarrow>
      sha (ce_content e) = ce_checksum e \<and> \<not> bt_contains m (ce_path e) \<and>
      try_fold (add_entry sha) (bt_insert (ce_path e) (ce_required e, ce_content e) m) es = Inr m'"
    by (auto simp: add_entry_def result_simps)
  then show ?case by (simp only: Cons.IH) (auto simp: c list_all_iff image_iff)
qed

lemma fold_insert_get:
  "distinct (map ce_path es) \<Longrightarrow>
   bt_get (fold (\<lambda>e m. bt_insert (ce_path e) (ce_required e, ce_content e) m) es m) k =
     (case map_of (map (\<lambda>e. (ce_path e, ce_required e, ce_content e)) es) k of None \<Rightarrow> bt_get m k | Some v \<Rightarrow> Some v)"
proof (induction es arbitrary: m)
  case (Cons e es)
  then have "map_of (map (\<lambda>e. (ce_path e, ce_required e, ce_content e)) es) (ce_path e) = None"
    by (auto simp: map_of_eq_None_iff)
  with Cons show ?case by (auto split: option.splits)
qed simp

lemma fold_insert_wf:
  "bt_wf m \<Longrightarrow> bt_wf (fold (\<lambda>e m. bt_insert (ce_path e) (ce_required e, ce_content e) m) es m)"
  by (induction es arbitrary: m) auto

lemma bt_wf_distinct: "bt_wf m \<Longrightarrow> distinct (map fst m)"
  by (rule bt.keys_distinct)

lemma fold_insert_sorted:
  assumes "bt_wf entries"
  shows "fold (\<lambda>e m. bt_insert (ce_path e) (ce_required e, ce_content e) m) (map (framed sha) entries) [] = entries"
    (is "?m = _")
proof (rule bt.entries_unique)
  have "map (\<lambda>e. (ce_path e, ce_required e, ce_content e)) (map (framed sha) entries) = entries"
    by (induction entries) auto
  then show "bt_get ?m k = bt_get entries k" for k
    using fold_insert_get [of "map (framed sha) entries" "[]"] bt_wf_distinct [OF assms]
    by (auto simp: bt_get_def comp_def split: option.splits)
qed (auto simp: assms fold_insert_wf)


lemma entry_path_short: "entry_ok e \<Longrightarrow> length (ce_path e) < 2 ^ 32"
  using relative_path_short [of "ce_path e"] by (auto simp: entry_ok_def validate_container_path_Inr)

interpretation entry_prefix: prefix_code entry_bytes entry_ok
proof
  fix x y :: container_entry and r s
  assume ok: "entry_ok x" "entry_ok y" and eq: "entry_bytes x @ r = entry_bytes y @ s"
  let ?tail = "\<lambda>z r. push_u8 (boolean_byte (ce_required z)) @ push_u64 (of_nat (length (ce_content z))) @ ce_checksum z @
    ce_content z @ r"
  have "string_bytes (ce_path x) @ ?tail x r = string_bytes (ce_path y) @ ?tail y s"
    using eq by (simp add: entry_bytes_def)
  from string_prefix.enc_split [OF entry_path_short [OF ok(1)] entry_path_short [OF ok(2)] this]
  have "ce_path x = ce_path y" "?tail x r = ?tail y s" by auto
  then show "x = y \<and> r = s"
    using ok by (auto simp: of_nat_u64_inject boolean_byte_def entry_ok_def split: if_splits)
qed

text \<open>On the framing of an entry the reader fails only for its budgets.\<close>

lemma read_string_or_limit:
  assumes ok: "reader_ok r" and s: "valid_utf8 s" "length s < 2 ^ 32" and bs: "rest r = string_bytes s @ bs"
  shows "read_string r = Inr (s, advance (4 + length s) (length s) (length s) r) \<or> read_string r = Inl ResourceLimit"
proof (cases "reader_ok (advance (4 + length s) (length s) (length s) r)")
  case True
  then show ?thesis using s by (simp add: stringc.dec_iff [OF ok] bs)
next
  case False
  have cursor: "rd_cursor r + (4 + length s) \<le> length (rd_bytes r)"
    using prefix_length_rest [of "string_bytes s" r] ok by (simp add: bs reader_ok_def)
  have u: "read_u32 r = Inr (of_nat (length s), advance 4 0 0 r)"
    unfolding u32c.dec_iff [OF ok] using ok cursor by (auto simp: bs string_bytes_def reader_ok_def)
  have n: "unat (of_nat (length s) :: u32) = length s" using s(2) by (rule unat_of_nat_u32)
  have c: "count_with_limit 4294967295 r =
      (if rd_items r + length s > rd_item_budget r then Inl ResourceLimit else Inr (length s, advance 4 (length s) 0 r))"
    using ok s(2) by (auto simp: count_with_limit_def u n reader_ok_def checked_usize_def advance_def)
  show ?thesis
  proof (cases "rd_items r + length s > rd_item_budget r")
    case True
    then show ?thesis by (simp add: read_string_def c)
  next
    case less: False
    with False ok cursor have "rd_string_bytes r + length s > MAX_STRING_BYTES" by (auto simp: reader_ok_def)
    with less ok s(2) show ?thesis
      by (auto simp: read_string_def c reader_ok_def checked_usize_def MAX_STRING_BYTES_def)
  qed
qed

lemma read_entry_or_limit:
  assumes ok: "reader_ok r" and e: "entry_ok e" and bs: "rest r = entry_bytes e @ bs"
  shows "read_entry r = Inr (e, advance (length (entry_bytes e)) (length (ce_path e)) (length (ce_path e)) r) \<or>
    read_entry r = Inl ResourceLimit"
proof -
  let ?p = "ce_path e"
  have p: "valid_utf8 ?p" "length ?p < 2 ^ 32"
    using e entry_path_short [OF e] by (auto simp: entry_ok_def)
  have b: "rest r = string_bytes ?p @ drop (4 + length ?p) (entry_bytes e @ bs)"
    by (simp add: bs entry_bytes_def)
  from read_string_or_limit [OF ok p b] show ?thesis
  proof
    assume "read_string r = Inr (?p, advance (4 + length ?p) (length ?p) (length ?p) r)"
    then have "reader_ok (advance (4 + length ?p) (length ?p) (length ?p) r)" by (simp add: stringc.dec_iff [OF ok])
    moreover have "rd_cursor r + length (entry_bytes e) \<le> length (rd_bytes r)"
      using prefix_length_rest [of "entry_bytes e" r] ok by (simp add: bs reader_ok_def)
    ultimately have "reader_ok (advance (length (entry_bytes e)) (length ?p) (length ?p) r)"
      by (simp add: reader_ok_def)
    with e show ?thesis by (simp add: entryc.dec_iff [OF ok] bs)
  qed (simp add: read_entry_def)
qed

lemma directory_or_limit:
  assumes bs: "bs = directory_bytes schema es" and len: "length bs < 2 ^ 64"
    and schema: "schema = CONTAINER_SCHEMA \<or> schema = LARGE_CONTAINER_SCHEMA"
    and es: "length es \<le> MAX_CONTAINER_ENTRIES" "list_all entry_ok es"
  shows "container_directory bs = (if directory_items es \<le> MAX_COLLECTION_ITEMS then Inr es else Inl ResourceLimit)"
proof (cases "directory_items es \<le> MAX_COLLECTION_ITEMS")
  case True
  then have "container_directory bs = Inr es" unfolding directory_iff [OF len] using bs schema es by blast
  with True show ?thesis by simp
next
  case False
  let ?r0 = "reader_new bs" and ?n = "length es"
  let ?r1 = "advance 10 0 0 ?r0" and ?r2 = "advance 12 0 0 ?r0" and ?r3 = "advance 16 ?n 0 ?r0"
  have rest0: "rest (reader_new x) = x" for x by (simp add: reader_new_def)
  have r0: "rd_bytes (reader_new x) = x" "rd_cursor (reader_new x) = 0" "rd_items (reader_new x) = 0"
    "rd_item_budget (reader_new x) = 500000" "rd_string_bytes (reader_new x) = 0" for x
    by (simp_all add: reader_new_def with_item_budget_def MAX_COLLECTION_ITEMS_def)
  have ok: "reader_ok ?r0" "reader_ok ?r1" "reader_ok ?r2" "reader_ok ?r3"
    using len es by (auto simp: reader_ok_def r0 MAX_CONTAINER_ENTRIES_def bs directory_bytes_def)
  have t: "take_bytes 10 ?r0 = Inr (CONTAINER_MAGIC, ?r1)"
    unfolding taking.dec_iff [OF ok(1)] using ok by (simp add: rest0) (simp add: bs directory_bytes_def)
  have u: "read_u16 ?r1 = Inr (schema, ?r2)"
    unfolding u16c.dec_iff [OF ok(2)] using ok by (simp add: rest0) (simp add: bs directory_bytes_def)
  have c: "count_with_limit MAX_CONTAINER_ENTRIES ?r2 = Inr (?n, ?r3)"
    unfolding countc.dec_iff [OF ok(3)] using ok es
    by (simp add: rest0 MAX_CONTAINER_ENTRIES_def) (simp add: bs directory_bytes_def)
  have r3: "rest ?r3 = concat (map entry_bytes es) @ []" by (simp add: rest0) (simp add: bs directory_bytes_def)
  have "is_ok (read_many ?n read_entry ?r3) \<or> read_many ?n read_entry ?r3 = Inl ResourceLimit"
    by (rule entryc.many_or_error [OF _ ok(4) es(2) r3]) (rule read_entry_or_limit)
  moreover have "\<not> is_ok (read_many ?n read_entry ?r3)"
  proof
    assume "is_ok (read_many ?n read_entry ?r3)"
    then obtain xs s where m: "read_many ?n read_entry ?r3 = Inr (xs, s)" by (auto simp: is_ok_iff)
    from m [unfolded entryc.many_iff [OF ok(4)]] have x: "list_all entry_ok xs" "length xs = ?n"
      "prefix (concat (map entry_bytes xs)) (rest ?r3)"
      "reader_ok (advance (length (concat (map entry_bytes xs))) (sum_list (map (\<lambda>e. length (ce_path e)) xs))
         (sum_list (map (\<lambda>e. length (ce_path e)) xs)) ?r3)" by auto
    from x(3) obtain t where "concat (map entry_bytes xs) @ t = concat (map entry_bytes es) @ []"
      by (auto simp: rest0 prefix_def) (simp add: bs directory_bytes_def)
    then have "xs = es"
      using entry_prefix.enc_list_split [OF x(2,1) es(2)] by blast
    with x(4) False show False by (simp add: reader_ok_def r0 directory_items_def MAX_COLLECTION_ITEMS_def)
  qed
  ultimately show ?thesis using False schema by (simp add: container_directory_def t u c)
qed


lemma framed_ok:
  assumes "\<And>b. length (sha b) = 32" and "list_all (\<lambda>e. valid_utf8 (fst e)) entries"
    and "list_all (\<lambda>e. validate_container_path (fst e) = Inr () \<and> length (snd (snd e)) < 2 ^ 64) entries"
  shows "list_all entry_ok (map (framed sha) entries)"
  using assms by (auto simp: list_all_iff entry_ok_def)

definition entries_items :: "entry_map \<Rightarrow> nat" where
  "entries_items entries = length entries + sum_list (map (\<lambda>e. length (fst e)) entries)"

lemma items_framed: "directory_items (map (framed sha) entries) = entries_items entries"
  by (simp add: directory_items_def entries_items_def comp_def)

lemma encoded_entries:
  assumes "bt_wf entries" and "list_all (\<lambda>e. valid_utf8 (fst e)) entries" and "\<And>b. length (sha b) = 32"
    and "encode_container sha entries = Inr bs" and "length bs < 2 ^ 64"
  shows "container_entries sha bs = (if entries_items entries \<le> MAX_COLLECTION_ITEMS then Inr entries else Inl ResourceLimit)"
proof -
  from assms(4) have e: "length entries \<le> MAX_CONTAINER_ENTRIES"
    "list_all (\<lambda>e. validate_container_path (fst e) = Inr () \<and> length (snd (snd e)) < 2 ^ 64) entries"
    "bs = directory_bytes (container_schema_of entries) (map (framed sha) entries)"
    unfolding encode_container_Inr by blast+
  have "container_directory bs =
      (if entries_items entries \<le> MAX_COLLECTION_ITEMS then Inr (map (framed sha) entries) else Inl ResourceLimit)"
    using directory_or_limit [OF e(3) assms(5)] framed_ok [OF assms(3,2) e(2)] e(1)
    by (auto simp: container_schema_of_def items_framed)
  moreover have "try_fold (add_entry sha) [] (map (framed sha) entries) = Inr entries"
    unfolding add_entries using fold_insert_sorted [OF assms(1)] bt_wf_distinct [OF assms(1)]
    by (simp add: list_all_iff comp_def bt_contains_def)
  ultimately show ?thesis by (simp add: container_entries_def)
qed

lemma container_entries_Inr:
  assumes "length bs < 2 ^ 64" and "container_entries sha bs = Inr m"
  shows "\<exists>schema es. (schema = CONTAINER_SCHEMA \<or> schema = LARGE_CONTAINER_SCHEMA) \<and> bs = directory_bytes schema es \<and>
    list_all entry_ok es \<and> list_all (\<lambda>e. sha (ce_content e) = ce_checksum e) es \<and> distinct (map ce_path es) \<and>
    bt_wf m \<and> (\<forall>k. bt_get m k = map_of (map (\<lambda>e. (ce_path e, ce_required e, ce_content e)) es) k)"
proof -
  from assms(2) obtain es where es: "container_directory bs = Inr es" "try_fold (add_entry sha) [] es = Inr m"
    by (auto simp: container_entries_def result_simps)
  from es(2) have a: "list_all (\<lambda>e. sha (ce_content e) = ce_checksum e) es" "distinct (map ce_path es)"
    "m = fold (\<lambda>e m. bt_insert (ce_path e) (ce_required e, ce_content e) m) es []"
    unfolding add_entries by blast+
  have "bt_wf m" by (simp add: a(3) fold_insert_wf)
  moreover have "bt_get m k = map_of (map (\<lambda>e. (ce_path e, ce_required e, ce_content e)) es) k" for k
    using fold_insert_get [OF a(2), of "[]" k] by (simp add: a(3) split: option.splits)
  ultimately show ?thesis using es(1) [unfolded directory_iff [OF assms(1)]] a(1,2) by blast
qed



section \<open>The data beside a document\<close>

text \<open>Text beginning with ASCII.\<close>

definition is_ascii :: "char \<Rightarrow> bool" where
  "is_ascii c \<longleftrightarrow> (of_char c :: nat) < 128"

lemma valid_utf8_ascii_append: "list_all is_ascii s \<Longrightarrow> valid_utf8 (s @ t) \<longleftrightarrow> valid_utf8 t"
  by (induction s) (auto simp: valid_utf8_def is_ascii_def)

lemma namespace_byte_ascii: "is_namespace_byte c \<Longrightarrow> is_ascii c \<and> c \<noteq> CHR ''/''"
  by (auto simp: is_namespace_byte_def is_ascii_def is_digit_def)

lemma namespace_Inr: "validate_namespace ns = Inr () \<Longrightarrow> list_all is_ascii ns \<and> CHR ''/'' \<notin> set ns"
  using namespace_byte_ascii by (fastforce simp: validate_namespace_def result_simps list_all_iff)

lemma hex_ascii: "list_all is_ascii (hex_encode bs)"
proof -
  have "list_all is_ascii (hex_byte b)" for b
    by (cases b) (auto simp: hex_byte_def hex_digit_def is_ascii_def)
  then show ?thesis by (simp add: hex_encode_def list_all_iff)
qed

definition extension_ok :: "extension_entry \<Rightarrow> bool" where
  "extension_ok e \<longleftrightarrow>
     validate_namespace (ee_namespace e) = Inr () \<and> validate_relative_path (ee_path e) = Inr () \<and> valid_utf8 (ee_path e)"

text \<open>
  The invariant of container data: blobs are stored under their SHA-256, extensions under their
  own namespace and path, which are well-formed.
\<close>

definition container_data_ok :: "(bytes \<Rightarrow> bytes) \<Rightarrow> container_data \<Rightarrow> bool" where
  "container_data_ok sha d \<longleftrightarrow>
     bt_wf (cd_blobs d) \<and> list_all (\<lambda>(h, c). h = sha256_hex sha c) (cd_blobs d) \<and>
     bt_wf (cd_extensions d) \<and>
     list_all (\<lambda>(k, e). k = (ee_namespace e, ee_path e) \<and> extension_ok e) (cd_extensions d)"

lemma set_bt_insert_new: "\<not> bt_contains m k \<Longrightarrow> set (bt_insert k v m) = insert (k, v) (set m)"
  by (induction k v m rule: bt_insert.induct) (auto simp: bt_contains_def split: if_splits)

lemma list_all_bt_insert: "list_all P m \<Longrightarrow> P (k, v) \<Longrightarrow> list_all P (bt_insert k v m)"
  using set_bt_insert [of k v m] by (auto simp: list_all_iff)

lemma bt_wf_set_unique: "bt_wf m \<Longrightarrow> bt_wf n \<Longrightarrow> set m = set n \<Longrightarrow> m = n"
proof (rule bt.entries_unique)
  assume m: "bt_wf m" "bt_wf n" "set m = set n"
  then have "bt_get m k = Some v \<longleftrightarrow> bt_get n k = Some v" for k v by (simp add: bt.get_Some_iff)
  then show "bt_get m k = bt_get n k" for k by (metis not_None_eq)
qed auto

lemma default_ok: "container_data_ok sha container_data_default"
  by (simp add: container_data_ok_def container_data_default_def)

lemma insert_blob_ok:
  assumes "container_data_ok sha d"
  shows "container_data_ok sha (snd (insert_blob sha bs d))"
    and "container_data_ok sha (snd (insert_import_blob sha bs d))"
proof -
  show "container_data_ok sha (snd (insert_blob sha bs d))"
    using assms by (auto simp: container_data_ok_def insert_blob_def Let_def intro: list_all_bt_insert)
  then show "container_data_ok sha (snd (insert_import_blob sha bs d))"
    by (auto simp: container_data_ok_def insert_import_blob_def split: prod.splits)
qed

lemma extension_new_Inr:
  "extension_entry_new ns path required bs = Inr e \<longleftrightarrow>
     validate_namespace ns = Inr () \<and> validate_relative_path path = Inr () \<and>
     e = \<lparr>ee_namespace = ns, ee_path = path, ee_required = required, ee_bytes = bs\<rparr>"
  by (auto simp: extension_entry_new_def result_simps)

lemma set_extension_ok: "container_data_ok sha d \<Longrightarrow> extension_ok e \<Longrightarrow> container_data_ok sha (set_extension e d)"
  by (auto simp: container_data_ok_def set_extension_def intro: list_all_bt_insert)

lemma insert_extension_Inr:
  "insert_extension e d = Inr d' \<longleftrightarrow> \<not> bt_contains (cd_extensions d) (ee_namespace e, ee_path e) \<and> d' = set_extension e d"
  by (auto simp: insert_extension_def set_extension_def result_simps)

lemma split_once_append: "c \<notin> set a \<Longrightarrow> split_once c (a @ c # b) = Some (a, b)"
  by (induction a) auto

lemma split_once_Some: "split_once c s = Some (a, b) \<Longrightarrow> s = a @ c # b \<and> c \<notin> set a"
  by (induction s arbitrary: a) (auto split: if_splits)

lemma add_side_entry_ok:
  assumes "container_data_ok sha d" and "valid_utf8 path" and "add_side_entry sha d (path, required, content) = Inr d'"
  shows "container_data_ok sha d'"
proof (cases "prefix ''blobs/'' path")
  case True
  with assms(3) have "drop 6 path = sha256_hex sha content" "d' = d \<lparr>cd_blobs := bt_insert (drop 6 path) content (cd_blobs d)\<rparr>"
    by (auto simp: add_side_entry_def result_simps Let_def)
  with assms(1) show ?thesis by (auto simp: container_data_ok_def intro: list_all_bt_insert)
next
  case False
  with assms(3) obtain ns rel e where e: "prefix ''extensions/'' path" "split_once (CHR ''/'') (drop 11 path) = Some (ns, rel)"
    "extension_entry_new ns rel required content = Inr e" "insert_extension e d = Inr d'"
    by (auto simp: add_side_entry_def result_simps split: if_splits)
  have path: "path = (''extensions/'' @ ns @ ''/'') @ rel"
    using e(1) split_once_Some [OF e(2)] by (auto simp: prefix_def)
  have "list_all is_ascii (''extensions/'' @ ns @ ''/'')"
    using namespace_Inr [of ns] e(3) by (auto simp: extension_new_Inr is_ascii_def)
  with assms(2) have "valid_utf8 rel" unfolding path by (simp only: valid_utf8_ascii_append)
  with e(3) have "extension_ok e" by (auto simp: extension_new_Inr extension_ok_def)
  with e(4) show ?thesis using assms(1) by (simp add: insert_extension_Inr set_extension_ok)
qed


lemma add_sides_ok:
  assumes "container_data_ok sha d" and "list_all (\<lambda>x. valid_utf8 (fst x)) es" and "try_fold (add_side_entry sha) d es = Inr d'"
  shows "container_data_ok sha d'"
  using assms
proof (induction es arbitrary: d)
  case (Cons x es)
  then show ?case by (cases x) (auto simp: result_simps intro: add_side_entry_ok)
qed simp

text \<open>
  A side entry is a blob or an extension: \<open>Inl (hash, content)\<close> or \<open>Inr extension\<close>.
\<close>

fun side_entry_of :: "str \<times> bytes + extension_entry \<Rightarrow> str \<times> bool \<times> bytes" where
  "side_entry_of (Inl (h, c)) = (''blobs/'' @ h, False, c)"
| "side_entry_of (Inr e) = (extension_path e, ee_required e, ee_bytes e)"

fun put_side :: "str \<times> bytes + extension_entry \<Rightarrow> container_data \<Rightarrow> container_data" where
  "put_side (Inl (h, c)) d = d \<lparr>cd_blobs := bt_insert h c (cd_blobs d)\<rparr>"
| "put_side (Inr e) d = set_extension e d"

fun side_ok :: "(bytes \<Rightarrow> bytes) \<Rightarrow> str \<times> bytes + extension_entry \<Rightarrow> bool" where
  "side_ok sha (Inl (h, c)) \<longleftrightarrow> h = sha256_hex sha c \<and> length h = 64"
| "side_ok sha (Inr e) \<longleftrightarrow> extension_ok e"

fun side_fresh :: "container_data \<Rightarrow> str \<times> bytes + extension_entry \<Rightarrow> bool" where
  "side_fresh d (Inl (h, c)) \<longleftrightarrow> \<not> bt_contains (cd_blobs d) h"
| "side_fresh d (Inr e) \<longleftrightarrow> \<not> bt_contains (cd_extensions d) (ee_namespace e, ee_path e)"

lemma add_side:
  assumes "side_ok sha x" and "side_fresh d x"
  shows "add_side_entry sha d (side_entry_of x) = Inr (put_side x d)"
proof (cases x)
  case (Inl p)
  then show ?thesis using assms by (cases p) (auto simp: add_side_entry_def Let_def)
next
  case (Inr e)
  have "CHR ''/'' \<notin> set (ee_namespace e)" using assms(1) Inr namespace_Inr by (simp add: extension_ok_def)
  then have "split_once (CHR ''/'') (ee_namespace e @ CHR ''/'' # ee_path e) = Some (ee_namespace e, ee_path e)"
    by (rule split_once_append)
  then show ?thesis
    using assms Inr by (cases e) (simp add: add_side_entry_def extension_path_def extension_entry_new_def insert_extension_def
        set_extension_def extension_ok_def)
qed

lemma extension_path_inject:
  assumes "extension_ok e" and "extension_ok e'" and "extension_path e = extension_path e'"
  shows "ee_namespace e = ee_namespace e' \<and> ee_path e = ee_path e'"
proof -
  have "CHR ''/'' \<notin> set (ee_namespace e)" "CHR ''/'' \<notin> set (ee_namespace e')"
    using assms(1,2) namespace_Inr by (auto simp: extension_ok_def)
  moreover have "ee_namespace e @ CHR ''/'' # ee_path e = ee_namespace e' @ CHR ''/'' # ee_path e'"
    using assms(3) by (simp add: extension_path_def)
  ultimately show ?thesis by (metis split_once_append option.inject prod.inject)
qed

lemma side_entry_inj: "inj_on side_entry_of {x. side_ok sha x}"
proof (rule inj_onI)
  fix x y
  assume a: "x \<in> {x. side_ok sha x}" "y \<in> {x. side_ok sha x}" "side_entry_of x = side_entry_of y"
  show "x = y"
  proof (cases x)
    case (Inl p)
    with a(3) show ?thesis by (cases p; cases y) (auto simp: extension_path_def)
  next
    case (Inr e)
    with a(3) obtain e' where y: "y = Inr e'" by (cases y) (auto simp: extension_path_def)
    from a extension_path_inject [of e e'] have "e = e'" by (simp add: Inr y)
    then show ?thesis by (simp add: Inr y)
  qed
qed

lemma side_fresh_put:
  assumes "side_ok sha x" and "side_ok sha y" and "side_fresh d y" and "fst (side_entry_of x) \<noteq> fst (side_entry_of y)"
  shows "side_fresh (put_side x d) y"
  using assms by (cases x; cases y) (auto simp: set_extension_def bt_contains_def extension_path_def)

lemma add_sides:
  assumes "list_all (side_ok sha) xs" and "list_all (side_fresh d) xs" and "distinct (map (fst \<circ> side_entry_of) xs)"
  shows "\<exists>d'. try_fold (add_side_entry sha) d (map side_entry_of xs) = Inr d' \<and> cd_imported d' = cd_imported d \<and>
    set (cd_blobs d') = set (cd_blobs d) \<union> {p. Inl p \<in> set xs} \<and>
    set (cd_extensions d') = set (cd_extensions d) \<union> {((ee_namespace e, ee_path e), e) |e. Inr e \<in> set xs}"
  using assms
proof (induction xs arbitrary: d)
  case (Cons x xs)
  have "list_all (side_fresh (put_side x d)) xs"
    using Cons.prems side_fresh_put [of sha x] by (fastforce simp: list_all_iff image_iff)
  from Cons.IH [OF _ this] Cons.prems obtain d' where
    d': "try_fold (add_side_entry sha) (put_side x d) (map side_entry_of xs) = Inr d'"
    "cd_imported d' = cd_imported (put_side x d)"
    "set (cd_blobs d') = set (cd_blobs (put_side x d)) \<union> {p. Inl p \<in> set xs}"
    "set (cd_extensions d') = set (cd_extensions (put_side x d)) \<union> {((ee_namespace e, ee_path e), e) |e. Inr e \<in> set xs}"
    by auto
  have "cd_imported (put_side x d) = cd_imported d"
    "set (cd_blobs (put_side x d)) = set (cd_blobs d) \<union> {p. Inl p = x}"
    "set (cd_extensions (put_side x d)) = set (cd_extensions d) \<union> {((ee_namespace e, ee_path e), e) |e. Inr e = x}"
    using Cons.prems(2) by (cases x; auto simp: set_bt_insert_new set_extension_def)+
  moreover have "add_side_entry sha d (side_entry_of x) = Inr (put_side x d)"
    using Cons.prems(1,2) by (intro add_side) auto
  ultimately show ?case using d' by auto
qed auto


definition kept_blob :: "container_data \<Rightarrow> str list \<Rightarrow> str \<Rightarrow> bool" where
  "kept_blob d imported_sources hash \<longleftrightarrow> hash \<notin> set (cd_imported d) \<or> hash \<in> set imported_sources"

definition side_set :: "container_data \<Rightarrow> str list \<Rightarrow> (str \<times> bytes + extension_entry) set" where
  "side_set d imported_sources =
     {Inl p |p. p \<in> set (cd_blobs d) \<and> kept_blob d imported_sources (fst p)} \<union> Inr ` snd ` set (cd_extensions d)"

lemma fold_blobs:
  assumes "distinct (map fst bl)" and "bt_wf m" and "list_all (\<lambda>p. \<not> bt_contains m (''blobs/'' @ fst p)) bl"
  shows "bt_wf (fold (\<lambda>(h, c) m. if K h then bt_insert (''blobs/'' @ h) (False, c) m else m) bl m) \<and>
    set (fold (\<lambda>(h, c) m. if K h then bt_insert (''blobs/'' @ h) (False, c) m else m) bl m) =
      set m \<union> side_entry_of ` Inl ` {p \<in> set bl. K (fst p)}"
  using assms
proof (induction bl arbitrary: m)
  case (Cons p bl)
  obtain h c where p: "p = (h, c)" by (cases p)
  show ?case
  proof (cases "K h")
    case True
    let ?m = "bt_insert (''blobs/'' @ h) (False, c) m"
    have "list_all (\<lambda>p. \<not> bt_contains ?m (''blobs/'' @ fst p)) bl"
      using Cons.prems(1,3) by (auto simp: list_all_iff bt_contains_def p)
    from Cons.IH [OF _ _ this] Cons.prems have ih:
      "bt_wf (fold (\<lambda>(h, c) m. if K h then bt_insert (''blobs/'' @ h) (False, c) m else m) bl ?m)"
      "set (fold (\<lambda>(h, c) m. if K h then bt_insert (''blobs/'' @ h) (False, c) m else m) bl ?m) =
        set ?m \<union> side_entry_of ` Inl ` {p \<in> set bl. K (fst p)}" by auto
    have "set ?m = insert (side_entry_of (Inl (h, c))) (set m)" using Cons.prems(3) by (simp add: set_bt_insert_new p)
    moreover have "{q \<in> set (p # bl). K (fst q)} = insert (h, c) {q \<in> set bl. K (fst q)}" using True by (auto simp: p)
    moreover have "fold (\<lambda>(h, c) m. if K h then bt_insert (''blobs/'' @ h) (False, c) m else m) (p # bl) m =
        fold (\<lambda>(h, c) m. if K h then bt_insert (''blobs/'' @ h) (False, c) m else m) bl ?m"
      using True by (simp add: p)
    ultimately show ?thesis using ih by (simp only: image_insert) blast
  next
    case False
    then have "{q \<in> set (p # bl). K (fst q)} = {q \<in> set bl. K (fst q)}" by (auto simp: p)
    then show ?thesis using Cons False by (simp add: p)
  qed
qed simp

lemma fold_extensions:
  assumes "try_fold (\<lambda>entries e. and_then (guard (\<not> bt_contains entries (extension_path e)) DuplicateContainerEntry) (\<lambda>_.
      Ok (bt_insert (extension_path e) (ee_required e, ee_bytes e) entries))) m es = Inr m'" and "bt_wf m"
  shows "bt_wf m' \<and> set m' = set m \<union> side_entry_of ` Inr ` set es"
  using assms
proof (induction es arbitrary: m)
  case (Cons e es)
  then have "\<not> bt_contains m (extension_path e)" by (auto simp: result_simps)
  with Cons.IH [of "bt_insert (extension_path e) (ee_required e, ee_bytes e) m"] Cons.prems show ?case
    by (auto simp: set_bt_insert_new)
qed simp

lemma side_entries_Inr:
  assumes "container_data_ok sha d" and "side_entries d imported_sources = Inr m"
  shows "bt_wf m \<and> set m = side_entry_of ` side_set d imported_sources"
proof -
  let ?b = "fold (\<lambda>(h, c) m. if kept_blob d imported_sources h then bt_insert (''blobs/'' @ h) (False, c) m else m)
    (cd_blobs d) []"
  have b: "bt_wf ?b \<and> set ?b = set [] \<union> side_entry_of ` Inl ` {p \<in> set (cd_blobs d). kept_blob d imported_sources (fst p)}"
    using assms(1) bt_wf_distinct [of "cd_blobs d"]
    by (intro fold_blobs) (auto simp: container_data_ok_def list_all_iff bt_contains_def)
  have "bt_wf m \<and> set m = set ?b \<union> side_entry_of ` Inr ` set (bt_values (cd_extensions d))"
    using assms(2) b by (intro fold_extensions) (auto simp: side_entries_def result_simps kept_blob_def)
  with b show ?thesis by (auto simp: side_set_def bt_values_def image_Un image_image)
qed

lemma side_set_ok:
  assumes "container_data_ok sha d" and "\<And>b. length (sha b) = 32"
  shows "side_set d imported_sources \<subseteq> {x. side_ok sha x}"
proof -
  have "length (concat (map hex_byte bs)) = 2 * length bs" for bs by (induction bs) (auto simp: hex_byte_def)
  then have "length (sha256_hex sha c) = 64" for c using assms(2) by (simp add: sha256_hex_def hex_encode_def)
  then show ?thesis using assms(1) by (fastforce simp: side_set_def container_data_ok_def list_all_iff)
qed

lemma side_utf8: "side_ok sha x \<Longrightarrow> valid_utf8 (fst (side_entry_of x))"
proof (cases x)
  case (Inr e)
  assume "side_ok sha x"
  then have "list_all is_ascii (''extensions/'' @ ee_namespace e @ ''/'')" "valid_utf8 (ee_path e)"
    using namespace_Inr [of "ee_namespace e"] by (auto simp: Inr extension_ok_def is_ascii_def)
  then show ?thesis using valid_utf8_ascii_append [of "''extensions/'' @ ee_namespace e @ ''/''" "ee_path e"]
    by (simp add: Inr extension_path_def)
next
  case (Inl p)
  assume "side_ok sha x"
  then have "list_all is_ascii (''blobs/'' @ fst p)"
    using hex_ascii by (cases p) (auto simp: Inl sha256_hex_def is_ascii_def)
  then show ?thesis using valid_utf8_ascii_append [of "''blobs/'' @ fst p" "[]"]
    by (cases p) (simp add: Inl valid_utf8_def)
qed

lemma list_of_image: "set ys \<subseteq> f ` A \<Longrightarrow> \<exists>xs. ys = map f xs \<and> set xs \<subseteq> A"
proof (induction ys)
  case (Cons y ys)
  then obtain x xs where "y = f x" "x \<in> A" "ys = map f xs" "set xs \<subseteq> A" by auto
  then show ?case by (intro exI [of _ "x # xs"]) auto
qed simp


lemma add_side_set:
  assumes "container_data_ok sha d" and "\<And>b. length (sha b) = 32" and "bt_wf m"
    and "set m = side_entry_of ` side_set d imported_sources"
  shows "try_fold (add_side_entry sha) container_data_default m =
    Inr \<lparr>cd_blobs = filter (\<lambda>p. kept_blob d imported_sources (fst p)) (cd_blobs d), cd_imported = [],
         cd_extensions = cd_extensions d\<rparr>"
proof -
  note ok = side_set_ok [OF assms(1,2), of imported_sources]
  obtain xs where xs: "m = map side_entry_of xs" "set xs \<subseteq> side_set d imported_sources"
    using list_of_image [of m side_entry_of "side_set d imported_sources"] assms(4) by auto
  have "side_entry_of ` set xs = side_entry_of ` side_set d imported_sources" using assms(4) xs(1) by simp
  then have set: "set xs = side_set d imported_sources"
    using inj_on_image_eq_iff [OF side_entry_inj] xs(2) ok by blast
  have fresh: "list_all (side_fresh container_data_default) xs"
    unfolding list_all_iff
  proof
    fix x
    show "side_fresh container_data_default x" by (cases x) (auto simp: container_data_default_def bt_contains_def)
  qed
  have "distinct (map fst m)" by (rule bt_wf_distinct [OF assms(3)])
  then have dist: "distinct (map (fst \<circ> side_entry_of) xs)" by (simp add: xs(1))
  have oks: "list_all (side_ok sha) xs" using set ok by (auto simp: list_all_iff)
  from add_sides [OF oks fresh dist] obtain d' where d':
    "try_fold (add_side_entry sha) container_data_default m = Inr d'" "cd_imported d' = []"
    "set (cd_blobs d') = {p. Inl p \<in> set xs}"
    "set (cd_extensions d') = {((ee_namespace e, ee_path e), e) |e. Inr e \<in> set xs}"
    by (auto simp: xs(1) container_data_default_def)
  have "list_all (\<lambda>e. valid_utf8 (fst e)) m" using oks side_utf8 by (auto simp: xs(1) list_all_iff)
  then have "container_data_ok sha d'" by (rule add_sides_ok [OF default_ok _ d'(1)])
  then have wf: "bt_wf (cd_blobs d')" "bt_wf (cd_extensions d')" by (auto simp: container_data_ok_def)
  have "bt_wf (filter (\<lambda>p. kept_blob d imported_sources (fst p)) (cd_blobs d))"
    using assms(1) by (auto simp: container_data_ok_def bt_wf_def sorted_wrt_filter sorted_wrt_map)
  then have "cd_blobs d' = filter (\<lambda>p. kept_blob d imported_sources (fst p)) (cd_blobs d)"
    using wf(1) by (intro bt_wf_set_unique) (auto simp: d'(3) set side_set_def)
  moreover have "cd_extensions d' = cd_extensions d"
  proof (rule bt_wf_set_unique [OF wf(2)])
    have key: "k = (ee_namespace e, ee_path e)" if "(k, e) \<in> set (cd_extensions d)" for k e
      using assms(1) that by (auto simp: container_data_ok_def list_all_iff)
    have "set (cd_extensions d') = {((ee_namespace e, ee_path e), e) |e. e \<in> snd ` set (cd_extensions d)}"
      by (auto simp: d'(4) set side_set_def)
    also have "\<dots> = set (cd_extensions d)" using key by (force simp: image_iff)
    finally show "set (cd_extensions d') = set (cd_extensions d)" .
  qed (use assms(1) in \<open>simp add: container_data_ok_def\<close>)
  ultimately show ?thesis using d'(1,2) by (cases d') simp
qed

lemma bt_remove_none: "bt_wf m \<Longrightarrow> bt_get m k = None \<Longrightarrow> bt_remove k m = m"
  by (rule bt.entries_unique) auto

lemma bt_remove_insert_same: "bt_wf m \<Longrightarrow> bt_get m k = None \<Longrightarrow> bt_remove k (bt_insert k v m) = m"
  by (rule bt.entries_unique) auto

lemma bt_remove_insert_other: "bt_wf m \<Longrightarrow> j \<noteq> k \<Longrightarrow> bt_remove k (bt_insert j v m) = bt_insert j v (bt_remove k m)"
  by (rule bt.entries_unique) auto

lemma saved_map:
  assumes "bt_wf m" and "list_all (\<lambda>e. \<not> fst e \<in> {''document.bin'', ''history.bin'', ''program.json''}) m"
  shows "bt_wf (saved_entry_map doc hist prog m)"
    and "bt_get (saved_entry_map doc hist prog m) ''document.bin'' = Some (True, doc)"
    and "bt_get (saved_entry_map doc hist prog m) ''history.bin'' = map_option (Pair True) hist"
    and "bt_get (saved_entry_map doc hist prog m) ''program.json'' = map_option (Pair True) prog"
    and "bt_remove ''program.json'' (bt_remove ''history.bin'' (bt_remove ''document.bin'' (saved_entry_map doc hist prog m))) = m"
proof -
  have none: "bt_get m k = None" if "k \<in> {''document.bin'', ''history.bin'', ''program.json''}" for k
    using assms(2) that by (auto simp: bt.get_None_iff list_all_iff)
  show wf: "bt_wf (saved_entry_map doc hist prog m)"
    using assms(1) by (simp add: saved_entry_map_def Let_def split: option.splits)
  show "bt_get (saved_entry_map doc hist prog m) ''document.bin'' = Some (True, doc)"
    "bt_get (saved_entry_map doc hist prog m) ''history.bin'' = map_option (Pair True) hist"
    "bt_get (saved_entry_map doc hist prog m) ''program.json'' = map_option (Pair True) prog"
    using none by (auto simp: saved_entry_map_def Let_def split: option.splits)
  show "bt_remove ''program.json'' (bt_remove ''history.bin'' (bt_remove ''document.bin'' (saved_entry_map doc hist prog m))) = m"
    using assms(1) none
    by (simp add: saved_entry_map_def Let_def bt_remove_insert_same bt_remove_insert_other bt_remove_none split: option.split)
qed

lemma saved_opens:
  assumes data: "container_data_ok sha d" and sha: "\<And>b. length (sha b) = 32"
    and side: "side_entries d imported_sources = Inr side"
    and save: "save_container_entries sha doc d imported_sources hist prog = Inr bs" and len: "length bs < 2 ^ 64"
    and prog: "case prog of None \<Rightarrow> program = None | Some p \<Rightarrow> (\<exists>q. decode p = Inr q \<and> program = Some q)"
  shows "container_parts sha decode bs =
    (if entries_items (saved_entry_map doc hist prog side) \<le> MAX_COLLECTION_ITEMS
     then Inr \<lparr>pt_document = doc, pt_history = hist, pt_program = program,
       pt_data = \<lparr>cd_blobs = filter (\<lambda>p. kept_blob d imported_sources (fst p)) (cd_blobs d), cd_imported = [],
         cd_extensions = cd_extensions d\<rparr>\<rparr>
     else Inl ResourceLimit)"
proof -
  let ?es = "saved_entry_map doc hist prog side"
  note m = side_entries_Inr [OF data side]
  have oks: "list_all (\<lambda>e. valid_utf8 (fst e)) side"
    using side_set_ok [OF data sha, of imported_sources] side_utf8 m by (fastforce simp: list_all_iff)
  have "fst (side_entry_of x) \<notin> {''document.bin'', ''history.bin'', ''program.json''}" for x
    by (cases x rule: side_entry_of.cases) (auto simp: extension_path_def)
  then have "list_all (\<lambda>e. \<not> fst e \<in> {''document.bin'', ''history.bin'', ''program.json''}) side"
    using m by (auto simp: list_all_iff)
  note sm = saved_map [OF conjunct1 [OF m] this, of doc hist prog]
  have "list_all is_ascii ''document.bin''" "list_all is_ascii ''history.bin''" "list_all is_ascii ''program.json''"
    by (simp_all add: is_ascii_def)
  then have "valid_utf8 ''document.bin''" "valid_utf8 ''history.bin''" "valid_utf8 ''program.json''"
    using valid_utf8_ascii_append [of _ "[]"] by (auto simp: valid_utf8_def)
  then have utf8: "list_all (\<lambda>e. valid_utf8 (fst e)) ?es"
    using oks by (auto simp: saved_entry_map_def Let_def intro!: list_all_bt_insert split: option.splits)
  have enc: "encode_container sha ?es = Inr bs" using save side by (simp add: save_container_entries_def)
  have "container_entries sha bs = (if entries_items ?es \<le> MAX_COLLECTION_ITEMS then Inr ?es else Inl ResourceLimit)"
    by (rule encoded_entries [OF sm(1) utf8 sha enc len])
  moreover have "try_fold (add_side_entry sha) container_data_default side =
    Inr \<lparr>cd_blobs = filter (\<lambda>p. kept_blob d imported_sources (fst p)) (cd_blobs d), cd_imported = [],
         cd_extensions = cd_extensions d\<rparr>"
    using m by (intro add_side_set [OF data sha]) auto
  ultimately show ?thesis
    using prog by (auto simp: container_parts_def sm required_entry_def split: option.splits)
qed



section \<open>Properties\<close>

definition demo_sha :: "bytes \<Rightarrow> bytes" where
  "demo_sha bs = replicate 32 (of_nat (length bs))"

definition demo_extension :: extension_entry where
  "demo_extension = \<lparr>ee_namespace = ''a'', ee_path = ''b'', ee_required = False, ee_bytes = [3]\<rparr>"

definition demo_data :: container_data where
  "demo_data = snd (insert_blob demo_sha [1] (set_extension demo_extension container_data_default))"

lemma demo_extension_ok: "extension_ok demo_extension"
  by (simp add: extension_ok_def demo_extension_def validate_namespace_def validate_relative_path_def is_namespace_byte_def
      MAX_CONTAINER_PATH_BYTES_def valid_utf8_def)

lemma demo_data_ok: "container_data_ok demo_sha demo_data"
  unfolding demo_data_def by (intro insert_blob_ok set_extension_ok default_ok demo_extension_ok)

lemma demo_hash: "sha256_hex demo_sha [1] = concat (replicate 32 ''01'')"
proof -
  have "hex_byte 1 = ''01''" by code_simp
  then show ?thesis by (simp add: sha256_hex_def demo_sha_def hex_encode_def)
qed

lemma demo_side:
  "side_entries demo_data [] =
     Inr [(''blobs/'' @ concat (replicate 32 ''01''), False, [1]), (''extensions/a/b'', False, [3])]"
  by (simp add: side_entries_def demo_data_def insert_blob_def demo_hash Let_def set_extension_def container_data_default_def
      bt_contains_def bt_values_def demo_extension_def extension_path_def)


text \<open>
  A file that was saved opens as what was saved.  With container data that satisfies its
  invariant and a 32-byte hash, the bytes of \<^verbatim>\<open>save_container_entries\<close> come apart into the same document,
  history and program, the same extensions, and the blobs less the imported sources no revision names;
  unless the entries and their paths together exceed the 500000 items a reader
  allows, when the file is refused with \<^verbatim>\<open>ResourceLimit\<close>.
\<close>

theorem saved_file_opens:
  assumes "container_data_ok sha d" and sha_32: "\<And>b. length (sha b) = 32"
    and "side_entries d imported_sources = Inr side"
    and "save_container_entries sha doc d imported_sources hist prog = Inr bs" and "length bs < 2 ^ 64"
    and "case prog of None \<Rightarrow> program = None | Some p \<Rightarrow> (\<exists>q. decode p = Inr q \<and> program = Some q)"
  shows "container_parts sha decode bs =
    (if entries_items (saved_entry_map doc hist prog side) \<le> MAX_COLLECTION_ITEMS
     then Inr \<lparr>pt_document = doc, pt_history = hist, pt_program = program,
       pt_data = \<lparr>cd_blobs = filter (\<lambda>p. kept_blob d imported_sources (fst p)) (cd_blobs d), cd_imported = [],
         cd_extensions = cd_extensions d\<rparr>\<rparr>
     else Inl ResourceLimit)"
  by (rule saved_opens [OF assms])

theorem saved_file_opens_witness:
  "\<exists>bs. save_container_entries demo_sha [7] demo_data [] None (Some [5]) = Inr bs \<and>
     container_parts demo_sha Inr bs =
       Inr \<lparr>pt_document = [7], pt_history = None, pt_program = Some [5], pt_data = demo_data\<rparr>"
proof -
  let ?map = "saved_entry_map [7] None (Some [5])
    [(''blobs/'' @ concat (replicate 32 ''01''), False, [1]), (''extensions/a/b'', False, [3])]"
  have map: "?map = [(''blobs/'' @ concat (replicate 32 ''01''), False, [1]), (''document.bin'', True, [7]),
      (''extensions/a/b'', False, [3]), (''program.json'', True, [5])]"
    by (simp add: saved_entry_map_def)
  have split: "str_split (CHR ''/'') (''blobs/'' @ concat (replicate 32 ''01'')) = [''blobs'', concat (replicate 32 ''01'')]"
    by code_simp
  have valid: "validate_container_path (''blobs/'' @ concat (replicate 32 ''01'')) = Inr ()"
    "validate_container_path ''document.bin'' = Inr ()" "validate_container_path ''extensions/a/b'' = Inr ()"
    "validate_container_path ''program.json'' = Inr ()"
    by code_simp+
  have enc: "encode_container demo_sha ?map = Inr (directory_bytes 1 (map (framed demo_sha) ?map))"
    unfolding encode_container_Inr map using valid
    by (simp add: MAX_CONTAINER_ENTRIES_def container_schema_of_def ENTRY_LIMIT_OF_0_2_0_def CONTAINER_SCHEMA_def)
  let ?bs = "directory_bytes 1 (map (framed demo_sha) ?map)"
  have len: "length ?bs < 2 ^ 64" unfolding map by (simp add: directory_bytes_def entry_bytes_def demo_sha_def length_concat sum_list_replicate)
  have save: "save_container_entries demo_sha [7] demo_data [] None (Some [5]) = Inr ?bs"
    using enc by (simp add: save_container_entries_def demo_side)
  have items: "entries_items ?map \<le> MAX_COLLECTION_ITEMS"
    unfolding map by (simp add: entries_items_def MAX_COLLECTION_ITEMS_def length_concat sum_list_replicate)
  have data: "\<lparr>cd_blobs = filter (\<lambda>p. kept_blob demo_data [] (fst p)) (cd_blobs demo_data), cd_imported = [],
      cd_extensions = cd_extensions demo_data\<rparr> = demo_data"
    by (simp add: demo_data_def insert_blob_def Let_def set_extension_def container_data_default_def kept_blob_def
        bt_contains_def)
  have "container_parts demo_sha Inr ?bs =
      Inr \<lparr>pt_document = [7], pt_history = None, pt_program = Some [5], pt_data = demo_data\<rparr>"
    using saved_file_opens [OF demo_data_ok _ demo_side save len, where program = "Some [5]" and decode = Inr] items data
    by (simp add: demo_sha_def)
  with save show ?thesis by blast
qed

text \<open>
  The reader accepts exactly the framing.  Bytes are accepted as a container with the
  entries \<open>m\<close> exactly when they are the magic, a known schema and the framing of at most 4096 entries
  with well-formed distinct paths, right checksums and paths within the budget, and nothing
  after them; \<open>m\<close> is the ordered map of those entries.
\<close>

theorem container_reader_exact:
  assumes "length bs < 2 ^ 64"
  shows "container_entries sha bs = Inr m \<longleftrightarrow>
    (\<exists>schema es. (schema = CONTAINER_SCHEMA \<or> schema = LARGE_CONTAINER_SCHEMA) \<and> bs = directory_bytes schema es \<and>
       length es \<le> MAX_CONTAINER_ENTRIES \<and> list_all entry_ok es \<and> directory_items es \<le> MAX_COLLECTION_ITEMS \<and>
       list_all (\<lambda>e. sha (ce_content e) = ce_checksum e) es \<and> distinct (map ce_path es) \<and>
       bt_wf m \<and> bt_get m = map_of (map (\<lambda>e. (ce_path e, ce_required e, ce_content e)) es))"
    (is "_ \<longleftrightarrow> ?R")
proof
  assume "container_entries sha bs = Inr m"
  then obtain es where es: "container_directory bs = Inr es" "try_fold (add_entry sha) [] es = Inr m"
    by (auto simp: container_entries_def result_simps)
  then have a: "list_all (\<lambda>e. sha (ce_content e) = ce_checksum e) es" "distinct (map ce_path es)"
    "m = fold (\<lambda>e m. bt_insert (ce_path e) (ce_required e, ce_content e) m) es []"
    unfolding add_entries by blast+
  have "bt_wf m" "bt_get m = map_of (map (\<lambda>e. (ce_path e, ce_required e, ce_content e)) es)"
    using fold_insert_get [OF a(2), of "[]"] by (auto simp: a(3) fold_insert_wf split: option.splits)
  with a es(1) [unfolded directory_iff [OF assms]] show ?R by blast
next
  assume ?R
  then obtain schema es where r: "schema = CONTAINER_SCHEMA \<or> schema = LARGE_CONTAINER_SCHEMA"
    "bs = directory_bytes schema es" "length es \<le> MAX_CONTAINER_ENTRIES" "list_all entry_ok es"
    "directory_items es \<le> MAX_COLLECTION_ITEMS" "list_all (\<lambda>e. sha (ce_content e) = ce_checksum e) es"
    "distinct (map ce_path es)" "bt_wf m" "bt_get m = map_of (map (\<lambda>e. (ce_path e, ce_required e, ce_content e)) es)"
    by blast
  let ?m = "fold (\<lambda>e m. bt_insert (ce_path e) (ce_required e, ce_content e) m) es []"
  have "?m = m"
    by (rule bt.entries_unique) (auto simp: r fold_insert_wf fold_insert_get split: option.splits)
  moreover have "try_fold (add_entry sha) [] es = Inr ?m" unfolding add_entries using r by (simp add: bt_contains_def list_all_iff)
  moreover have "container_directory bs = Inr es" unfolding directory_iff [OF assms] using r by blast
  ultimately show "container_entries sha bs = Inr m" by (simp add: container_entries_def)
qed

theorem container_reader_exact_witness:
  "container_entries demo_sha (CONTAINER_MAGIC @ push_u16 2 @ push_u32 0) = Inr []"
proof -
  have "length (CONTAINER_MAGIC @ push_u16 2 @ push_u32 0) < 2 ^ 64" by simp
  from container_reader_exact [OF this, of demo_sha "[]"] show ?thesis
    by (auto simp: directory_bytes_def LARGE_CONTAINER_SCHEMA_def directory_items_def fun_eq_iff
        intro!: exI [of _ "2 :: u16"] exI [of _ "[] :: container_entry list"])
qed

text \<open>
  Container data keeps its invariant: blobs stand under their SHA-256 and extensions under their own
  well-formed names, in new data, after every operation, and in data read from a file.
\<close>

theorem container_data_invariant:
  "container_data_ok sha container_data_default \<and>
   (container_data_ok sha d \<longrightarrow>
      container_data_ok sha (snd (insert_blob sha bs d)) \<and> container_data_ok sha (snd (insert_import_blob sha bs d)) \<and>
      (extension_entry_new ns path required bs = Inr e \<and> valid_utf8 path \<longrightarrow>
         container_data_ok sha (set_extension e d) \<and> (insert_extension e d = Inr d' \<longrightarrow> container_data_ok sha d'))) \<and>
   (length file < 2 ^ 64 \<and> container_parts sha decode file = Inr parts \<longrightarrow> container_data_ok sha (pt_data parts))"
proof (intro conjI impI)
  assume p: "length file < 2 ^ 64 \<and> container_parts sha decode file = Inr parts"
  then obtain m where m: "container_entries sha file = Inr m" "try_fold (add_side_entry sha) container_data_default
      (bt_remove ''program.json'' (bt_remove ''history.bin'' (bt_remove ''document.bin'' m))) = Inr (pt_data parts)"
    by (auto simp: container_parts_def result_simps)
  from container_entries_Inr [OF conjunct1 [OF p] m(1)] obtain es where es: "list_all entry_ok es" "bt_wf m"
    "\<forall>k. bt_get m k = map_of (map (\<lambda>e. (ce_path e, ce_required e, ce_content e)) es) k" by blast
  have "valid_utf8 (fst x)" if "x \<in> set m" for x
  proof -
    have "bt_get m (fst x) = Some (snd x)" using that es(2) by (simp add: bt.get_Some_iff)
    then have "x \<in> set (map (\<lambda>e. (ce_path e, ce_required e, ce_content e)) es)"
      using es(3) map_of_SomeD [of "map (\<lambda>e. (ce_path e, ce_required e, ce_content e)) es" "fst x" "snd x"] by simp
    with es(1) show ?thesis by (auto simp: list_all_iff entry_ok_def)
  qed
  then have "list_all (\<lambda>x. valid_utf8 (fst x)) (bt_remove ''program.json'' (bt_remove ''history.bin'' (bt_remove ''document.bin'' m)))"
    by (auto simp: list_all_iff bt_remove_def)
  then show "container_data_ok sha (pt_data parts)" using add_sides_ok [OF default_ok _ m(2)] by blast
qed (auto simp: default_ok insert_blob_ok extension_new_Inr extension_ok_def insert_extension_Inr intro!: set_extension_ok)

theorem container_data_invariant_witness:
  "container_data_ok demo_sha (snd (insert_blob demo_sha [9] demo_data)) \<and>
   container_data_ok demo_sha (set_extension \<lparr>ee_namespace = ''a'', ee_path = ''b'', ee_required = True, ee_bytes = []\<rparr> demo_data)"
proof -
  have "extension_entry_new ''a'' ''b'' True [] = Inr \<lparr>ee_namespace = ''a'', ee_path = ''b'', ee_required = True, ee_bytes = []\<rparr>"
    by (simp add: extension_entry_new_def validate_namespace_def validate_relative_path_def is_namespace_byte_def
      MAX_CONTAINER_PATH_BYTES_def)
  moreover have "valid_utf8 ''b''" by (simp add: valid_utf8_def)
  ultimately show ?thesis
    using container_data_invariant [of demo_sha demo_data "[9]"] container_data_invariant [of demo_sha demo_data "[]"] demo_data_ok
    by blast
qed

text \<open>
   An extension can be added that cannot be saved.  The name of an extension is checked without the
  rule against colons and without the length of its place in the container, which the writer checks: a document with
  such an extension is refused by every save.
\<close>

theorem unsaveable_extension:
  assumes "container_data_ok sha d" and "bt_get (cd_extensions d) k = Some e"
    and "CHR '':'' \<in> set (ee_path e) \<or> length (ee_namespace e) + length (ee_path e) > 1012"
  shows "\<exists>x. save_container_entries sha doc d imported_sources hist prog = Inl x"
proof (rule ccontr)
  assume "\<nexists>x. save_container_entries sha doc d imported_sources hist prog = Inl x"
  then obtain bs side where s: "side_entries d imported_sources = Inr side"
    "encode_container sha (saved_entry_map doc hist prog side) = Inr bs"
    by (cases "save_container_entries sha doc d imported_sources hist prog")
      (auto simp: save_container_entries_def result_simps)
  have "e \<in> snd ` set (cd_extensions d)"
    using assms(1,2) by (force simp: container_data_ok_def bt.get_Some_iff)
  then have "Inr e \<in> side_set d imported_sources" by (simp add: side_set_def)
  then have x: "side_entry_of (Inr e) \<in> set side" using side_entries_Inr [OF assms(1) s(1)] by blast
  moreover have wf: "bt_wf side" using side_entries_Inr [OF assms(1) s(1)] by blast
  ultimately have "bt_get side (extension_path e) = Some (ee_required e, ee_bytes e)" by (simp add: bt.get_Some_iff)
  then have "bt_get (saved_entry_map doc hist prog side) (extension_path e) = Some (ee_required e, ee_bytes e)"
    by (simp add: saved_entry_map_def Let_def extension_path_def split: option.split)
  moreover have "bt_wf (saved_entry_map doc hist prog side)"
    using wf by (simp add: saved_entry_map_def Let_def split: option.split)
  ultimately have "side_entry_of (Inr e) \<in> set (saved_entry_map doc hist prog side)" by (simp add: bt.get_Some_iff)
  with s(2) have "validate_container_path (extension_path e) = Inr ()"
    unfolding encode_container_Inr by (fastforce simp: list_all_iff)
  with assms(3) relative_path_short [of "extension_path e"] show False
    by (auto simp: validate_container_path_Inr extension_path_def)
qed

theorem unsaveable_extension_witness:
  "\<exists>e x. extension_entry_new ''a'' ''b:c'' False [] = Inr e \<and>
     save_container_entries demo_sha [7] (set_extension e container_data_default) [] None None = Inl x"
proof -
  let ?e = "\<lparr>ee_namespace = ''a'', ee_path = ''b:c'', ee_required = False, ee_bytes = []\<rparr>"
  have n: "extension_entry_new ''a'' ''b:c'' False [] = Inr ?e"
    by (simp add: extension_entry_new_def validate_namespace_def validate_relative_path_def is_namespace_byte_def
      MAX_CONTAINER_PATH_BYTES_def)
  then have "extension_ok ?e" by (simp add: extension_new_Inr extension_ok_def valid_utf8_def)
  then have "container_data_ok demo_sha (set_extension ?e container_data_default)" by (intro set_extension_ok default_ok)
  from unsaveable_extension [OF this, of "(''a'', ''b:c'')" ?e "[7]" "[]" None None] n show ?thesis
    by (auto simp: set_extension_def)
qed

end
