(* ===== verification/Ketchup_Reopen.thy ===== *)
theory Ketchup_Reopen
  imports Ketchup_Archive
begin

text \<open>
  A saved history is read back.  The chunks of bytes partition them; the chunk table of the writer
  is the list of chunks the reader gets, and the numbers a record holds name the chunks of what it
  was written from; each record is read with the charges the writer counted.
\<close>

section \<open>Chunks partition the bytes\<close>

lemma chunks_from_cover:
  "start \<le> length bs \<Longrightarrow> concat (map (chunk_range bs) (chunks_from sha bs start)) = drop start bs"
proof (induction sha bs start rule: chunks_from.induct)
  case (1 sha bs start)
  show ?case
  proof (cases "start < length bs")
    case True
    let ?n = "boundary (drop start bs)"
    have n: "0 < ?n" "?n \<le> length bs - start" using boundary_bounds [of "drop start bs"] True by auto
    have "concat (map (chunk_range bs) (chunks_from sha bs (start + ?n))) = drop (start + ?n) bs"
      using 1 True n by simp
    moreover have "take ?n (drop start bs) @ drop (start + ?n) bs = drop start bs"
      by (metis append_take_drop_id drop_drop add.commute)
    ultimately show ?thesis
      using True by (subst chunks_from.simps) (simp add: Let_def chunk_range_def)
  next
    case False
    then show ?thesis using 1 by (subst chunks_from.simps) simp
  qed
qed

lemma chunks_from_bounds:
  "c \<in> set (chunks_from sha bs start) \<Longrightarrow>
     start \<le> ck_start c \<and> ck_start c < ck_end c \<and> ck_end c \<le> length bs \<and> ck_end c - ck_start c \<le> MAX_CHUNK \<and>
     (ck_end c < length bs \<longrightarrow> MIN_CHUNK < ck_end c - ck_start c) \<and> ck_sha256 c = sha (chunk_range bs c)"
proof (induction sha bs start rule: chunks_from.induct)
  case (1 sha bs start)
  show ?case
  proof (cases "start < length bs")
    case True
    let ?n = "boundary (drop start bs)"
    let ?c = "\<lparr>ck_start = start, ck_end = start + ?n, ck_sha256 = sha (take ?n (drop start bs))\<rparr>"
    have n: "0 < ?n" "?n \<le> length bs - start" "?n \<le> MAX_CHUNK" "MIN_CHUNK < length bs - start \<longrightarrow> MIN_CHUNK < ?n"
      using boundary_bounds [of "drop start bs"] True by auto
    have small: "?n < length bs - start \<Longrightarrow> MIN_CHUNK < ?n"
      using n True by (auto simp: boundary_def Let_def min_def MIN_CHUNK_def MAX_CHUNK_def split: if_splits)
    from 1(2) True have "c = ?c \<or> c \<in> set (chunks_from sha bs (start + ?n))"
      by (subst (asm) chunks_from.simps) (simp add: Let_def)
    then show ?thesis
    proof
      assume "c = ?c"
      then show ?thesis using n small True by (auto simp: chunk_range_def)
    next
      assume "c \<in> set (chunks_from sha bs (start + ?n))"
      with 1(1) [OF True] show ?thesis by fastforce
    qed
  next
    case False
    with 1(2) show ?thesis by (simp add: chunks_from.simps [of sha bs start])
  qed
qed

lemma chunks_cover: "concat (map (chunk_range bs) (chunks sha bs)) = bs"
  using chunks_from_cover [of 0 bs sha] by (simp add: chunks_def)

lemma chunk_facts:
  assumes "c \<in> set (chunks sha bs)"
  shows "ck_start c < ck_end c" "ck_end c \<le> length bs" "ck_end c - ck_start c \<le> MAX_CHUNK" "ck_sha256 c = sha (chunk_range bs c)"
    "length (chunk_range bs c) = ck_end c - ck_start c"
  using chunks_from_bounds [of c sha bs 0] assms by (auto simp: chunks_def chunk_range_def)



section \<open>The chunk table\<close>

lemma length_bt_insert_new: "\<not> bt_contains m k \<Longrightarrow> length (bt_insert k v m) = Suc (length m)"
  by (induction k v m rule: bt_insert.induct) (auto simp: bt_contains_def split: if_splits)

text \<open>The table holds the contents \<open>cs\<close>, in order, under their hashes; its bytes are read as them.\<close>

definition table_holds :: "(bytes \<Rightarrow> bytes) \<Rightarrow> bytes \<Rightarrow> chunk_table \<Rightarrow> bytes list \<Rightarrow> bool" where
  "table_holds sha doc t cs \<longleftrightarrow>
     bt_wf (ct_numbers t) \<and> length (ct_numbers t) = length cs \<and> length cs \<le> 2 ^ 32 \<and>
     (\<forall>i < length cs. bt_get (ct_numbers t) (sha (cs ! i)) = Some (of_nat i)) \<and>
     (\<forall>k n. bt_get (ct_numbers t) k = Some n \<longrightarrow> unat n < length cs \<and> sha (cs ! unat n) = k) \<and>
     (\<exists>ps. ct_bytes t = concat ps \<and> list_all2 (\<lambda>p c. reads (read_history_chunk doc) p 0 0 c) ps cs)"

lemma table_empty: "table_holds sha doc \<lparr>ct_numbers = [], ct_bytes = []\<rparr> []"
  by (auto simp: table_holds_def)

lemma inline_chunk_reads:
  assumes "length part < 2 ^ 32"
  shows "reads (read_history_chunk doc) (push_u8 HISTORY_CHUNK_INLINE @ push_u32 (of_nat (length part)) @ part) 0 0 part"
proof -
  have n: "unat (of_nat (length part) :: u32) = length part" using assms by (rule unat_of_nat_u32)
  show ?thesis
    by (rule reads_cong [OF read_history_chunk_def], rule reads_u8_step, simp, rule reads_u32_step, simp add: n reads_take)
qed

lemma document_chunk_reads:
  assumes "start + n \<le> length doc" and "start < 2 ^ 32" and "n < 2 ^ 32"
  shows "reads (read_history_chunk doc) (push_u8 HISTORY_CHUNK_IN_DOCUMENT @ push_u32 (of_nat start) @ push_u32 (of_nat n)) 0 0
    (take n (drop start doc))"
proof -
  have n: "unat (of_nat n :: u32) = n" "unat (of_nat start :: u32) = start" using assms(2,3) by (auto intro: unat_of_nat_u32)
  have "HISTORY_CHUNK_IN_DOCUMENT \<noteq> HISTORY_CHUNK_INLINE" by (simp add: HISTORY_CHUNK_IN_DOCUMENT_def HISTORY_CHUNK_INLINE_def)
  then show ?thesis
    by (intro reads_cong [OF read_history_chunk_def] reads_u8_step)
      (simp, rule reads_u32_step, rule reads_step_last [OF reads_u32], simp add: n assms(1) reads_return)
qed


definition table_le :: "chunk_table \<Rightarrow> chunk_table \<Rightarrow> bool" where
  "table_le t t' \<longleftrightarrow> (\<forall>k n. bt_get (ct_numbers t) k = Some n \<longrightarrow> bt_get (ct_numbers t') k = Some n)"

lemma table_le_refl [simp]: "table_le t t"
  by (simp add: table_le_def)

lemma table_le_trans: "table_le t u \<Longrightarrow> table_le u v \<Longrightarrow> table_le t v"
  by (simp add: table_le_def)

lemma table_add:
  assumes t: "table_holds sha doc t cs" and new: "bt_get (ct_numbers t) (sha c) = None" and len: "length cs < 2 ^ 32"
    and p: "reads (read_history_chunk doc) p 0 0 c"
  defines "t' \<equiv> \<lparr>ct_numbers = bt_insert (sha c) (of_nat (length cs)) (ct_numbers t), ct_bytes = ct_bytes t @ p\<rparr>"
  shows "table_holds sha doc t' (cs @ [c])" and "table_le t t'"
proof -
  have n: "unat (of_nat (length cs) :: u32) = length cs" using len by (rule unat_of_nat_u32)
  obtain ps where ps: "ct_bytes t = concat ps" "list_all2 (\<lambda>p c. reads (read_history_chunk doc) p 0 0 c) ps cs"
    using t by (auto simp: table_holds_def)
  have "ct_bytes t' = concat (ps @ [p])" by (simp add: t'_def ps(1))
  moreover have "list_all2 (\<lambda>p c. reads (read_history_chunk doc) p 0 0 c) (ps @ [p]) (cs @ [c])"
    using ps(2) p by (simp add: list_all2_append list_all2_lengthD)
  moreover have "bt_get (ct_numbers t') (sha ((cs @ [c]) ! i)) = Some (of_nat i)" if "i < length (cs @ [c])" for i
  proof (cases "i < length cs")
    case True
    then have "bt_get (ct_numbers t) (sha (cs ! i)) = Some (of_nat i)" using t by (simp add: table_holds_def)
    with new True show ?thesis by (auto simp: t'_def nth_append)
  next
    case False
    with that have "i = length cs" by simp
    then show ?thesis by (simp add: t'_def)
  qed
  moreover have "unat m < length (cs @ [c]) \<and> sha ((cs @ [c]) ! unat m) = k" if "bt_get (ct_numbers t') k = Some m" for k m
  proof (cases "k = sha c")
    case True
    with that n show ?thesis by (auto simp: t'_def)
  next
    case False
    with that have "bt_get (ct_numbers t) k = Some m" by (simp add: t'_def)
    with t have "unat m < length cs \<and> sha (cs ! unat m) = k" unfolding table_holds_def by blast
    then show ?thesis by (simp add: nth_append)
  qed
  moreover have "bt_wf (ct_numbers t')" "length (ct_numbers t') = length (cs @ [c])"
    using t new by (auto simp: t'_def table_holds_def length_bt_insert_new bt_contains_def)
  ultimately show "table_holds sha doc t' (cs @ [c])" using len unfolding table_holds_def by (auto intro: exI [of _ "ps @ [p]"])
  show "table_le t t'" using new by (auto simp: table_le_def t'_def)
qed

lemma table_found:
  assumes "table_holds sha doc t cs" and "bt_get (ct_numbers t) (sha c) = Some n" and "inj_on sha S"
    and "set cs \<subseteq> S" and "c \<in> S"
  shows "unat n < length cs \<and> cs ! unat n = c"
proof -
  have "unat n < length cs \<and> sha (cs ! unat n) = sha c" using assms(1,2) unfolding table_holds_def by blast
  with assms(3-) show ?thesis by (auto dest!: inj_onD)
qed

lemma add_document_chunks:
  assumes "try_fold add_document_chunk t ds = Inr t'" and "table_holds sha doc t cs" and "set ds \<subseteq> set (chunks sha doc)"
  shows "\<exists>cs'. table_holds sha doc t' cs' \<and> set cs' \<subseteq> set cs \<union> chunk_range doc ` set ds"
  using assms
proof (induction ds arbitrary: t cs)
  case (Cons d ds)
  from Cons.prems(1) obtain u where u: "add_document_chunk t d = Inr u" "try_fold add_document_chunk u ds = Inr t'"
    by (auto simp: result_simps)
  have d: "d \<in> set (chunks sha doc)" using Cons.prems(3) by simp
  have "\<exists>cs'. table_holds sha doc u cs' \<and> set cs' \<subseteq> set cs \<union> {chunk_range doc d}"
  proof (cases "bt_contains (ct_numbers t) (ck_sha256 d)")
    case True
    with u(1) Cons.prems(2) show ?thesis by (auto simp: add_document_chunk_def)
  next
    case False
    let ?p = "push_u8 HISTORY_CHUNK_IN_DOCUMENT @ push_u32 (of_nat (ck_start d)) @ push_u32 (of_nat (ck_end d - ck_start d))"
    from u(1) False have u': "length (ct_numbers t) < 2 ^ 32" "ck_start d < 2 ^ 32" "ck_end d - ck_start d < 2 ^ 32"
      "u = \<lparr>ct_numbers = bt_insert (ck_sha256 d) (of_nat (length (ct_numbers t))) (ct_numbers t), ct_bytes = ct_bytes t @ ?p\<rparr>"
      by (auto simp: add_document_chunk_def result_simps u32_count_def split: if_splits)
    have "reads (read_history_chunk doc) ?p 0 0 (chunk_range doc d)"
      unfolding chunk_range_def using chunk_facts [OF d] u'(2,3) by (intro document_chunk_reads) auto
    moreover have "bt_get (ct_numbers t) (sha (chunk_range doc d)) = None"
      using False chunk_facts(4) [OF d] by (simp add: bt_contains_def)
    moreover have "length (ct_numbers t) = length cs" using Cons.prems(2) by (simp add: table_holds_def)
    ultimately have "table_holds sha doc u (cs @ [chunk_range doc d])"
      using table_add(1) [OF Cons.prems(2)] u' chunk_facts(4) [OF d] by simp
    then show ?thesis by (intro exI [of _ "cs @ [chunk_range doc d]"]) simp
  qed
  then obtain cs1 where "table_holds sha doc u cs1" "set cs1 \<subseteq> set cs \<union> {chunk_range doc d}" by blast
  with Cons.IH [OF u(2), of cs1] Cons.prems(3) show ?case by fastforce
qed auto

definition number_of :: "chunk_table \<Rightarrow> chunk \<Rightarrow> u32" where
  "number_of t c = the (bt_get (ct_numbers t) (ck_sha256 c))"

definition numbers_bytes :: "chunk_table \<Rightarrow> chunk list \<Rightarrow> bytes" where
  "numbers_bytes t ds = concat (map (\<lambda>c. push_u32 (number_of t c)) ds)"

definition names_chunks :: "chunk_table \<Rightarrow> chunk list \<Rightarrow> bool" where
  "names_chunks t ds \<longleftrightarrow> list_all (\<lambda>c. bt_contains (ct_numbers t) (ck_sha256 c)) ds"

lemma numbers_stable:
  "table_le t t' \<Longrightarrow> names_chunks t ds \<Longrightarrow> names_chunks t' ds \<and> numbers_bytes t' ds = numbers_bytes t ds"
  by (induction ds) (auto simp: names_chunks_def numbers_bytes_def number_of_def table_le_def bt_contains_def)

lemma write_chunks:
  assumes "try_fold (write_chunk bs) (t, out) ds = Inr (t', out')" and "table_holds sha doc t cs"
    and "set ds \<subseteq> set (chunks sha bs)" and "inj_on sha S" and "set cs \<subseteq> S" and "chunk_range bs ` set ds \<subseteq> S"
  shows "\<exists>cs'. table_holds sha doc t' cs' \<and> prefix cs cs' \<and> set cs' \<subseteq> S \<and> table_le t t' \<and> names_chunks t' ds \<and>
    out' = out @ numbers_bytes t' ds"
  using assms
proof (induction ds arbitrary: t out cs)
  case (Cons d ds)
  let ?part = "chunk_range bs d"
  have d: "d \<in> set (chunks sha bs)" using Cons.prems(3) by simp
  note cf = chunk_facts [OF d]
  from Cons.prems(1) obtain u rec1 where u: "write_chunk bs (t, out) d = Inr (u, rec1)"
    "try_fold (write_chunk bs) (u, rec1) ds = Inr (t', out')"
    by (auto simp: result_simps)
  have "\<exists>cs1. table_holds sha doc u cs1 \<and> prefix cs cs1 \<and> set cs1 \<subseteq> S \<and> table_le t u \<and>
      bt_contains (ct_numbers u) (ck_sha256 d) \<and> rec1 = out @ push_u32 (number_of u d)"
  proof (cases "bt_get (ct_numbers t) (ck_sha256 d)")
    case (Some n)
    with u(1) Cons.prems(2,5) show ?thesis
      by (auto simp: write_chunk_def number_of_def bt_contains_def intro!: exI [of _ cs])
  next
    case None
    let ?p = "push_u8 HISTORY_CHUNK_INLINE @ push_u32 (of_nat (length ?part)) @ ?part"
    from u(1) None have u': "length (ct_numbers t) < 2 ^ 32" "length ?part < 2 ^ 32"
      "u = \<lparr>ct_numbers = bt_insert (ck_sha256 d) (of_nat (length (ct_numbers t))) (ct_numbers t), ct_bytes = ct_bytes t @ ?p\<rparr>"
      "rec1 = out @ push_u32 (of_nat (length (ct_numbers t)))"
      by (auto simp: write_chunk_def result_simps u32_count_def Let_def split: if_splits)
    have len: "length (ct_numbers t) = length cs" using Cons.prems(2) by (simp add: table_holds_def)
    have t': "table_holds sha doc u (cs @ [?part])" "table_le t u"
      using table_add [OF Cons.prems(2), of ?part ?p] inline_chunk_reads [OF u'(2)] None u' cf(4) len by auto
    moreover have "?part \<in> S" using Cons.prems(6) by simp
    ultimately show ?thesis
      using Cons.prems(5) u'(3,4) by (intro exI [of _ "cs @ [?part]"]) (auto simp: number_of_def bt_contains_def)
  qed
  then obtain cs1 where c1: "table_holds sha doc u cs1" "prefix cs cs1" "set cs1 \<subseteq> S" "table_le t u"
    "bt_contains (ct_numbers u) (ck_sha256 d)" "rec1 = out @ push_u32 (number_of u d)" by blast
  from Cons.IH [OF u(2) c1(1) _ Cons.prems(4) c1(3)] Cons.prems(3,6) obtain cs' where c2: "table_holds sha doc t' cs'"
    "prefix cs1 cs'" "set cs' \<subseteq> S" "table_le u t'" "names_chunks t' ds" "out' = rec1 @ numbers_bytes t' ds"
    by auto
  have "names_chunks t' [d] \<and> numbers_bytes t' [d] = numbers_bytes u [d]"
    using c1(5) by (intro numbers_stable [OF c2(4)]) (simp add: names_chunks_def)
  then have "names_chunks t' (d # ds)" "out' = out @ numbers_bytes t' (d # ds)"
    using c2(5,6) c1(6) by (auto simp: names_chunks_def numbers_bytes_def)
  with c1 c2 show ?case by (meson prefix_order.trans table_le_trans)
qed (auto simp: numbers_bytes_def names_chunks_def)



section \<open>Assembling\<close>

lemma push_u32_four: "\<exists>a b c d. push_u32 n = [a, b, c, d] \<and> le_value [a, b, c, d] = unat n"
proof -
  have four: "(4 :: nat) = Suc (Suc (Suc (Suc 0)))" by simp
  have "\<exists>a b c d. push_u32 n = [a, b, c, d]" unfolding push_u32_def four le_bytes.simps by blast
  then obtain a b c d where p: "push_u32 n = [a, b, c, d]" by blast
  have "le_value (push_u32 n) = unat n mod 256 ^ 4" by (simp add: push_u32_def le_value_le_bytes)
  moreover have "unat n < 256 ^ 4" by (rule order_less_le_trans [OF unsigned_less]) simp
  ultimately have "le_value [a, b, c, d] = unat n" using p by simp
  with p show ?thesis by blast
qed

lemma four_bytes_numbers: "four_bytes (concat (map push_u32 ns)) = map unat ns"
proof (induction ns)
  case (Cons n ns)
  obtain a b c d where "push_u32 n = [a, b, c, d]" "le_value [a, b, c, d] = unat n" using push_u32_four by blast
  with Cons show ?case by simp
qed simp

lemma add_parts:
  assumes "list_all (\<lambda>n. n < length cs) ns" and "so_far + length (concat (map ((!) cs) ns)) \<le> n" and "n < 2 ^ 64"
  shows "try_fold (add_part cs n) so_far ns = Inr (so_far + length (concat (map ((!) cs) ns)))"
  using assms
proof (induction ns arbitrary: so_far)
  case (Cons m ns)
  then show ?case by (simp add: add_part_def Cons.IH add.assoc)
qed simp

lemma chunk_parts_all:
  "list_all (\<lambda>n. unat n < length cs) ns \<Longrightarrow>
   chunk_parts cs (concat (map push_u32 ns)) = Inr (map (\<lambda>n. cs ! unat n) ns)"
  unfolding chunk_parts_def four_bytes_numbers by (induction ns) auto

lemma assembles:
  assumes t: "table_holds sha doc t cs" and names: "names_chunks t (chunks sha bs)" and inj: "inj_on sha S"
    and S: "set cs \<subseteq> S" "chunk_range bs ` set (chunks sha bs) \<subseteq> S" and ext: "prefix cs cs'" and len: "length bs < 2 ^ 64"
  shows "assemble_chunks sha cs' (length bs) (sha bs) (numbers_bytes t (chunks sha bs)) = Inr bs"
proof -
  let ?ns = "map (number_of t) (chunks sha bs)"
  have found: "unat (number_of t c) < length cs \<and> cs ! unat (number_of t c) = chunk_range bs c"
    if c: "c \<in> set (chunks sha bs)" for c
  proof -
    obtain n where n: "bt_get (ct_numbers t) (ck_sha256 c) = Some n"
      using names c by (auto simp: names_chunks_def list_all_iff bt_contains_def)
    have "unat n < length cs \<and> cs ! unat n = chunk_range bs c"
      using n chunk_facts(4) [OF c] S c by (intro table_found [OF t _ inj]) auto
    with n show ?thesis by (simp add: number_of_def)
  qed
  obtain more where cs': "cs' = cs @ more" using ext by (auto simp: prefix_def)
  have in': "list_all (\<lambda>n. unat n < length cs') ?ns" using found by (fastforce simp: list_all_iff cs')
  have parts: "map (\<lambda>n. cs' ! unat n) ?ns = map (chunk_range bs) (chunks sha bs)"
    using found by (auto simp: cs' nth_append)
  then have cover: "concat (map (\<lambda>n. cs' ! unat n) ?ns) = bs" using chunks_cover by metis
  have nb: "numbers_bytes t (chunks sha bs) = concat (map push_u32 ?ns)" by (simp add: numbers_bytes_def comp_def)
  have "try_fold (add_part cs' (length bs)) 0 (map unat ?ns) = Inr (0 + length (concat (map ((!) cs') (map unat ?ns))))"
    using in' len cover by (intro add_parts) (auto simp: list_all_iff comp_def)
  then have "try_fold (add_part cs' (length bs)) 0 (four_bytes (numbers_bytes t (chunks sha bs))) = Inr (length bs)"
    unfolding nb four_bytes_numbers using cover by (simp add: comp_def)
  moreover have "chunk_parts cs' (numbers_bytes t (chunks sha bs)) = Inr (map (\<lambda>n. cs' ! unat n) ?ns)"
    unfolding nb by (rule chunk_parts_all [OF in'])
  ultimately show ?thesis using cover by (simp add: assemble_chunks_def)
qed



section \<open>Reading the parts of a record\<close>

lemma schema_five [simp]:
  "(4 :: u16) \<le> HISTORY_SCHEMA" "(3 :: u16) \<le> HISTORY_SCHEMA" "(5 :: u16) \<le> HISTORY_SCHEMA" "(1 :: u16) \<le> HISTORY_SCHEMA"
  "HISTORY_SCHEMA \<noteq> 1"
  by (simp_all add: HISTORY_SCHEMA_def)

lemma reads_principal: "reads read_revision_principal (write_revision_principal p) 0 0 p"
proof (cases p)
  case (Human i)
  then show ?thesis
    by (simp add: write_revision_principal_def)
      (rule reads_cong [OF read_revision_principal_def], rule reads_u8_step, simp, rule reads_map [OF reads_u64])
next
  case (Plugin i)
  then show ?thesis
    by (simp add: write_revision_principal_def)
      (rule reads_cong [OF read_revision_principal_def], rule reads_u8_step, simp, rule reads_map [OF reads_u64])
qed (simp_all add: write_revision_principal_def,
  (rule reads_cong [OF read_revision_principal_def], rule reads_step_last [OF reads_u8], simp add: reads_return)+)

lemma reads_origin: "reads read_revision_origin (write_revision_origin origin) 0 0 origin"
proof (cases origin)
  case Initial
  then show ?thesis
    by (simp add: write_revision_origin_def)
      (rule reads_cong [OF read_revision_origin_def], rule reads_step_last [OF reads_u8], simp add: reads_return)
next
  case (Principal p)
  then show ?thesis
    by (simp add: write_revision_origin_def)
      (rule reads_cong [OF read_revision_origin_def], rule reads_u8_step, simp, rule reads_map [OF reads_principal])
next
  case (Rollback p target)
  then show ?thesis
    by (simp add: write_revision_origin_def)
      (rule reads_cong [OF read_revision_origin_def], rule reads_u8_step, simp,
        rule reads_step [OF reads_principal], simp, simp, simp, rule reads_map [OF reads_u64])
qed

definition checkpoint_bytes :: "str option \<Rightarrow> bytes" where
  "checkpoint_bytes c = (case c of None \<Rightarrow> push_u8 0 | Some name \<Rightarrow> push_u8 1 @ string_bytes name)"

definition checkpoint_length :: "str option \<Rightarrow> nat" where
  "checkpoint_length c = (case c of None \<Rightarrow> 0 | Some name \<Rightarrow> length name)"

lemma reads_fields:
  assumes "case checkpoint of None \<Rightarrow> True | Some name \<Rightarrow> valid_utf8 name \<and> length name < 2 ^ 32"
  shows "reads (read_history_fields HISTORY_SCHEMA index) (write_revision_origin origin @ checkpoint_bytes checkpoint)
    (checkpoint_length checkpoint) (checkpoint_length checkpoint) (origin, checkpoint)"
proof (rule reads_cong [OF read_history_fields_def], simp, rule reads_step [OF reads_origin zero_le zero_le], cases checkpoint)
  case None
  then show "reads (\<lambda>r. and_then (read_u8 r) (\<lambda>(tag, r). if tag = 0 then Ok ((origin, None), r)
        else if tag = 1 then and_then (read_string r) (\<lambda>(name, r). Ok ((origin, Some name), r))
        else Err InvalidRevisionHistory)) (checkpoint_bytes checkpoint) (checkpoint_length checkpoint - 0)
      (checkpoint_length checkpoint - 0) (origin, checkpoint)"
    by (simp add: checkpoint_bytes_def checkpoint_length_def)
      (rule reads_step_last [OF reads_u8], simp add: reads_return)
next
  case (Some name)
  then show "reads (\<lambda>r. and_then (read_u8 r) (\<lambda>(tag, r). if tag = 0 then Ok ((origin, None), r)
        else if tag = 1 then and_then (read_string r) (\<lambda>(name, r). Ok ((origin, Some name), r))
        else Err InvalidRevisionHistory)) (checkpoint_bytes checkpoint) (checkpoint_length checkpoint - 0)
      (checkpoint_length checkpoint - 0) (origin, checkpoint)"
    using assms
    by (simp add: checkpoint_bytes_def checkpoint_length_def)
      (rule reads_u8_step, simp, rule reads_map [OF reads_string], auto)
qed

lemma reads_chunk_numbers:
  assumes "length numbers = 4 * n" and "n \<le> MAX_COLLECTION_ITEMS"
  shows "reads chunk_numbers (push_u32 (of_nat n) @ numbers) n 0 numbers"
  using assms
  by (intro reads_cong [OF chunk_numbers_def] reads_step [OF reads_count])
    (auto simp: MAX_COLLECTION_ITEMS_def mult.commute intro: reads_take)

definition list_bytes :: "(bytes \<Rightarrow> bytes) \<Rightarrow> chunk_table \<Rightarrow> bytes \<Rightarrow> bytes" where
  "list_bytes sha t bs =
     push_u64 (of_nat (length bs)) @ sha bs @ push_u32 (of_nat (length (chunks sha bs))) @ numbers_bytes t (chunks sha bs)"

lemma length_numbers: "length (numbers_bytes t ds) = 4 * length ds"
  by (induction ds) (auto simp: numbers_bytes_def)

lemma reads_chunk_list:
  assumes "length bs \<le> limit" and "length bs < 2 ^ 64" and "length (sha bs) = 32"
    and "length (chunks sha bs) \<le> MAX_COLLECTION_ITEMS"
  shows "reads (read_chunk_list limit) (list_bytes sha t bs) (length (chunks sha bs)) 0
    (length bs, sha bs, numbers_bytes t (chunks sha bs))"
proof -
  have n: "unat (of_nat (length bs) :: u64) = length bs" by (rule unat_of_nat_u64 [OF assms(2)])
  have "reads (\<lambda>r. and_then (take_bytes 32 r) (\<lambda>(checksum, r). and_then (chunk_numbers r) (\<lambda>(numbers, r).
      Inr ((length bs, checksum, numbers), r))))
    (sha bs @ push_u32 (of_nat (length (chunks sha bs))) @ numbers_bytes t (chunks sha bs)) (length (chunks sha bs)) 0
    (length bs, sha bs, numbers_bytes t (chunks sha bs))"
    by (rule reads_take_step [OF assms(3)], rule reads_map [OF reads_chunk_numbers [OF length_numbers assms(4)]])
  then show ?thesis
    unfolding list_bytes_def by (intro reads_cong [OF read_chunk_list_def] reads_u64_step) (simp add: n assms(1) not_less)
qed

lemma reads_snapshot:
  assumes "length bs < 2 ^ 64" and "length (sha bs) = 32" and "length (chunks sha bs) \<le> MAX_COLLECTION_ITEMS"
  shows "reads (read_history_snapshot HISTORY_SCHEMA document) (push_u8 HISTORY_SNAPSHOT_IN_CHUNKS @ list_bytes sha t bs)
    (length (chunks sha bs)) 0 (SnapshotChunks (length bs) (sha bs) (numbers_bytes t (chunks sha bs)))"
proof -
  have n: "HISTORY_SNAPSHOT_IN_CHUNKS \<noteq> HISTORY_SNAPSHOT_IS_DOCUMENT"
    by (simp add: HISTORY_SNAPSHOT_IN_CHUNKS_def HISTORY_SNAPSHOT_IS_DOCUMENT_def)
  have tag: "reads (\<lambda>r. if 4 \<le> HISTORY_SCHEMA then
          and_then (read_u8 r) (\<lambda>(tag, r).
          if tag = HISTORY_SNAPSHOT_IS_DOCUMENT then
            and_then (ok_or document InvalidRevisionHistory) (\<lambda>d. Ok (Some (SnapshotDocument d), r))
          else if tag = HISTORY_SNAPSHOT_IN_CHUNKS then Ok (None, r)
          else Err InvalidRevisionHistory)
        else Ok (None, r)) (push_u8 HISTORY_SNAPSHOT_IN_CHUNKS) 0 0 None"
    using n by simp (rule reads_step_last [OF reads_u8], simp add: reads_return)
  show ?thesis
    unfolding list_bytes_def
    by (rule reads_cong [OF read_history_snapshot_def], rule reads_step [OF tag zero_le zero_le])
      (simp, rule reads_u64_step, rule reads_take_step [OF assms(2)],
        simp add: unat_of_nat_u64 [OF assms(1)], rule reads_map [OF reads_chunk_numbers [OF length_numbers assms(3)]])
qed

lemma reads_document:
  "reads (read_history_snapshot HISTORY_SCHEMA (Some doc)) (push_u8 HISTORY_SNAPSHOT_IS_DOCUMENT) 0 0 (SnapshotDocument doc)"
proof -
  have tag: "reads (\<lambda>r. if 4 \<le> HISTORY_SCHEMA then
          and_then (read_u8 r) (\<lambda>(tag, r).
          if tag = HISTORY_SNAPSHOT_IS_DOCUMENT then
            and_then (ok_or (Some doc) InvalidRevisionHistory) (\<lambda>d. Ok (Some (SnapshotDocument d), r))
          else if tag = HISTORY_SNAPSHOT_IN_CHUNKS then Ok (None, r)
          else Err InvalidRevisionHistory)
        else Ok (None, r)) (push_u8 HISTORY_SNAPSHOT_IS_DOCUMENT) 0 0 (Some (SnapshotDocument doc))"
    by simp (rule reads_step_last [OF reads_u8], simp add: reads_return)
  show ?thesis
    by (rule reads_cong [OF read_history_snapshot_def], rule reads_step_last [OF tag]) (simp add: reads_return)
qed



section \<open>Writer and reader in step\<close>

lemma check_assembled_Inr: "check_assembled entry a b budget = Inr n \<longleftrightarrow> n = saturating_add a b \<and> n \<le> budget"
  by (auto simp: check_assembled_def Let_def)

lemma count_items_Inr:
  "budget < 2 ^ 32 \<Longrightarrow> count_items a b budget = Inr n \<longleftrightarrow> n = a + b \<and> n \<le> budget"
  by (auto simp: count_items_def Let_def saturating_add_def)

text \<open>The contents a hash is asked to tell apart: chunks, and programs as a whole.\<close>

definition contents :: "(bytes \<Rightarrow> bytes) \<Rightarrow> bytes \<Rightarrow> bytes set" where
  "contents sha bs = chunk_range bs ` set (chunks sha bs)"

definition revision_contents ::
  "(bytes \<Rightarrow> bytes) \<Rightarrow> ('p \<Rightarrow> persistence_error + bytes) \<Rightarrow> 'p history_revision \<Rightarrow> bytes set" where
  "revision_contents sha json r =
     contents sha (hr_encoded r) \<union>
     (case hr_program r of None \<Rightarrow> {} | Some p \<Rightarrow>
        (case json p of Inl _ \<Rightarrow> {} | Inr j \<Rightarrow> insert j (contents sha j)))"

lemma table_write_Inr:
  assumes "table_write bs (sha bs) (chunks sha bs) t = Inr (t', out)" and "table_holds sha doc t cs"
    and "inj_on sha S" and "set cs \<subseteq> S" and "contents sha bs \<subseteq> S"
  shows "length bs < 2 ^ 64 \<and> out = list_bytes sha t' bs \<and> table_le t t' \<and> names_chunks t' (chunks sha bs) \<and>
    (\<exists>cs'. table_holds sha doc t' cs' \<and> prefix cs cs' \<and> set cs' \<subseteq> S)"
proof -
  from assms(1) have len: "length bs < 2 ^ 64" "length (chunks sha bs) < 2 ^ 32"
    and w: "try_fold (write_chunk bs) (t, push_u64 (of_nat (length bs)) @ sha bs @ push_u32 (of_nat (length (chunks sha bs))))
      (chunks sha bs) = Inr (t', out)"
    by (auto simp: table_write_def result_simps u64_len_def u32_count_def split: if_splits)
  from write_chunks [OF w assms(2) subset_refl assms(3,4)] assms(5) len show ?thesis
    by (auto simp: contents_def list_bytes_def)
qed

text \<open>
  The state of the writer after some revisions and that of a reader after their records: \<open>js\<close> are
  the programs written so far.
\<close>

definition program_triple :: "(bytes \<Rightarrow> bytes) \<Rightarrow> chunk_table \<Rightarrow> bytes \<Rightarrow> nat \<times> bytes \<times> bytes" where
  "program_triple sha t j = (length j, sha j, numbers_bytes t (chunks sha j))"

definition program_read ::
  "(bytes \<Rightarrow> bytes) \<Rightarrow> ('p \<Rightarrow> persistence_error + bytes) \<Rightarrow> chunk_table \<Rightarrow> bytes set \<Rightarrow> 'p option \<Rightarrow> history_program option \<Rightarrow> bool" where
  "program_read sha json t js program q \<longleftrightarrow>
     (case program of None \<Rightarrow> q = None
      | Some p \<Rightarrow> (\<exists>j. json p = Inr j \<and> j \<in> js \<and>
          q = Some (ProgramChunks (length j) (sha j) (numbers_bytes t (chunks sha j)))))"

definition linked ::
  "(bytes \<Rightarrow> bytes) \<Rightarrow> ('p \<Rightarrow> persistence_error + bytes) \<Rightarrow> history_budget \<Rightarrow> bytes set \<Rightarrow> bytes set \<Rightarrow> 'p history_revision option \<Rightarrow>
   encode_state \<Rightarrow> read_state \<Rightarrow> bool" where
  "linked sha json budget S js previous s u \<longleftrightarrow> js \<subseteq> S \<and>
     rs_assembled u = es_assembled s \<and> es_assembled s \<le> hb_snapshots budget \<and> es_assembled s < 2 ^ 64 \<and>
     rs_program_bytes u = es_program_bytes s \<and>
     set (es_programs s) = sha ` js \<and> set (rs_programs u) = program_triple sha (es_table s) ` js \<and>
     (\<forall>j\<in>js. names_chunks (es_table s) (chunks sha j) \<and> length j < 2 ^ 64 \<and> contents sha j \<subseteq> S) \<and>
     rs_previous_id u = map_option hr_id previous \<and>
     program_read sha json (es_table s) js (Option.bind previous hr_program) (rs_previous_program u)"

lemma linked_grow:
  assumes "\<forall>j\<in>js. names_chunks t (chunks sha j)" and "table_le t t'"
  shows "(\<forall>j\<in>js. names_chunks t' (chunks sha j)) \<and> program_triple sha t' ` js = program_triple sha t ` js \<and>
    program_read sha json t' js program q = program_read sha json t js program q"
proof -
  have "names_chunks t' (chunks sha j) \<and> numbers_bytes t' (chunks sha j) = numbers_bytes t (chunks sha j)" if "j \<in> js" for j
    using numbers_stable [OF assms(2)] assms(1) that by blast
  then show ?thesis
    by (auto simp: program_triple_def program_read_def image_iff split: option.splits)
qed

text \<open>What writing the program of \<open>r\<close> gives: the bytes a reader in the linked state reads as it.\<close>

definition program_outcome ::
  "(bytes \<Rightarrow> bytes) \<Rightarrow> ('p \<Rightarrow> persistence_error + bytes) \<Rightarrow> history_budget \<Rightarrow> bytes \<Rightarrow> bytes set \<Rightarrow> bytes list \<Rightarrow>
   'p history_revision \<Rightarrow> encode_state \<Rightarrow> encode_state \<Rightarrow> read_state \<Rightarrow> bool" where
  "program_outcome sha json budget doc S cs r s s' u \<longleftrightarrow>
     (\<exists>p i q js' cs' P.
       es_records s' = es_records s @ p \<and> es_items s' = es_items s + i \<and> es_assembled s' = es_assembled s \<and>
       table_holds sha doc (es_table s') cs' \<and> prefix cs cs' \<and> set cs' \<subseteq> S \<and> js' \<subseteq> S \<and>
       reads (read_history_program HISTORY_SCHEMA (rs_previous_program u)) p i 0 q \<and>
       count_program budget True q (u \<lparr>rs_previous_program := q\<rparr>) =
         Inr (u \<lparr>rs_previous_program := q, rs_programs := P, rs_program_bytes := es_program_bytes s'\<rparr>) \<and>
       set (es_programs s') = sha ` js' \<and> set P = program_triple sha (es_table s') ` js' \<and>
       (\<forall>j\<in>js'. names_chunks (es_table s') (chunks sha j) \<and> length j < 2 ^ 64 \<and> contents sha j \<subseteq> S) \<and>
       program_read sha json (es_table s') js' (hr_program r) q)"

lemma program_previous:
  assumes prev: "hr_program r = Some pr" "hr_program p = Some pr'" "json pr = json pr'"
    and s': "s' = s \<lparr>es_records := es_records s @ push_u8 HISTORY_RULE_PROGRAM_AS_PREVIOUS\<rparr>"
    and link: "linked sha json budget S js (Some p) s u" and holds: "table_holds sha doc (es_table s) cs" "set cs \<subseteq> S"
  shows "program_outcome sha json budget doc S cs r s s' u"
proof -
  from link prev obtain j where j: "json pr = Inr j" "j \<in> js"
    "rs_previous_program u = Some (ProgramChunks (length j) (sha j) (numbers_bytes (es_table s) (chunks sha j)))"
    by (auto simp: linked_def program_read_def)
  have "reads (read_history_program HISTORY_SCHEMA (rs_previous_program u)) (push_u8 HISTORY_RULE_PROGRAM_AS_PREVIOUS) 0 0
      (rs_previous_program u)"
    by (rule reads_cong [OF read_history_program_def], simp, rule reads_step_last [OF reads_u8])
      (simp add: HISTORY_RULE_PROGRAM_AS_PREVIOUS_def HISTORY_RULE_PROGRAM_IN_CHUNKS_def j(3) reads_return)
  moreover have "count_program budget True (rs_previous_program u) (u \<lparr>rs_previous_program := rs_previous_program u\<rparr>) = Inr u"
    using link j by (auto simp: count_program_def linked_def program_triple_def)
  ultimately show ?thesis
    unfolding program_outcome_def using link holds j prev
    by (intro exI [of _ "push_u8 HISTORY_RULE_PROGRAM_AS_PREVIOUS"] exI [of _ 0] exI [of _ "rs_previous_program u"]
        exI [of _ js] exI [of _ cs] exI [of _ "rs_programs u"])
      (auto simp: s' linked_def program_read_def)
qed

lemma program_none:
  assumes "hr_program r = None" and s': "s' = s \<lparr>es_records := es_records s @ push_u8 0\<rparr>"
    and link: "linked sha json budget S js previous s u" and holds: "table_holds sha doc (es_table s) cs" "set cs \<subseteq> S"
  shows "program_outcome sha json budget doc S cs r s s' u"
proof -
  have "reads (read_history_program HISTORY_SCHEMA (rs_previous_program u)) (push_u8 0) 0 0 None"
    by (rule reads_cong [OF read_history_program_def], simp, rule reads_step_last [OF reads_u8]) (simp add: reads_return)
  then show ?thesis
    unfolding program_outcome_def using link holds assms(1)
    by (intro exI [of _ "push_u8 0"] exI [of _ 0] exI [of _ None] exI [of _ js] exI [of _ cs] exI [of _ "rs_programs u"])
      (auto simp: s' linked_def program_read_def count_program_def)
qed

lemma program_chunks:
  assumes program: "hr_program r = Some pr" "json pr = Inr j" "length j \<le> MAX_RULE_PROGRAM_BYTES"
    and bytes: "(if sha j \<in> set (es_programs s) then Inr (es_program_bytes s)
      else check_assembled HISTORY_PROGRAMS_ENTRY (es_program_bytes s) (length j) (hb_programs budget)) = Inr n"
    and len: "length (chunks sha j) \<le> MAX_COLLECTION_ITEMS"
    and wrote: "table_write j (sha j) (chunks sha j) (es_table s) = Inr (t, out)"
    and s': "s' = s \<lparr>es_table := t, es_records := es_records s @ push_u8 HISTORY_RULE_PROGRAM_IN_CHUNKS @ out,
      es_programs := bs_insert (sha j) (es_programs s), es_program_bytes := n, es_items := es_items s + length (chunks sha j)\<rparr>"
    and link: "linked sha json budget S js previous s u" and holds: "table_holds sha doc (es_table s) cs" "set cs \<subseteq> S"
    and inj: "inj_on sha S" and S: "revision_contents sha json r \<subseteq> S" and sha: "\<And>b. length (sha b) = 32"
  shows "program_outcome sha json budget doc S cs r s s' u"
proof -
  let ?q = "Some (ProgramChunks (length j) (sha j) (numbers_bytes t (chunks sha j)))" and ?js = "insert j js"
  let ?P = "bs_insert (program_triple sha t j) (rs_programs u)"
  have jS: "j \<in> S" "contents sha j \<subseteq> S" using S program by (auto simp: revision_contents_def)
  have js: "js \<subseteq> S" using link by (simp add: linked_def)
  from table_write_Inr [OF wrote holds(1) inj holds(2) jS(2)] obtain cs' where w: "length j < 2 ^ 64" "out = list_bytes sha t j"
    "table_le (es_table s) t" "names_chunks t (chunks sha j)" "table_holds sha doc t cs'" "prefix cs cs'" "set cs' \<subseteq> S" by blast
  have "\<forall>j\<in>js. names_chunks (es_table s) (chunks sha j)" using link by (simp add: linked_def)
  note grow = linked_grow [OF this w(3), where json = json]
  have seen: "sha j \<in> set (es_programs s) \<longleftrightarrow> j \<in> js"
    using link js jS(1) inj by (auto simp: linked_def dest: inj_onD)
  have triple: "program_triple sha t j \<in> set (rs_programs u) \<longleftrightarrow> j \<in> js"
  proof -
    have "set (rs_programs u) = program_triple sha t ` js" using link grow by (simp add: linked_def)
    moreover have "x = j" if "x \<in> js" "program_triple sha t j = program_triple sha t x" for x
      using that js jS(1) inj by (auto simp: program_triple_def dest: inj_onD)
    ultimately show ?thesis by auto
  qed
  have chunks_tag: "HISTORY_RULE_PROGRAM_IN_CHUNKS \<noteq> 0" "HISTORY_RULE_PROGRAM_IN_CHUNKS \<noteq> 1"
    by (simp_all add: HISTORY_RULE_PROGRAM_IN_CHUNKS_def)
  have "reads (read_history_program HISTORY_SCHEMA (rs_previous_program u)) (push_u8 HISTORY_RULE_PROGRAM_IN_CHUNKS @ out)
      (length (chunks sha j)) 0 ?q"
    unfolding w(2)
    by (rule reads_cong [OF read_history_program_def], simp, rule reads_u8_step, simp add: chunks_tag,
        rule reads_step_last [OF reads_chunk_list [OF program(3) w(1) sha len]], simp add: reads_return)
  moreover have "count_program budget True ?q (u \<lparr>rs_previous_program := ?q\<rparr>) =
      Inr (u \<lparr>rs_previous_program := ?q, rs_programs := if j \<in> js then rs_programs u else ?P, rs_program_bytes := n\<rparr>)"
    using bytes triple link by (simp add: count_program_def seen program_triple_def linked_def split: if_splits)
  ultimately show ?thesis
    unfolding program_outcome_def using w program jS js grow link
    by (intro exI [of _ "push_u8 HISTORY_RULE_PROGRAM_IN_CHUNKS @ out"] exI [of _ "length (chunks sha j)"] exI [of _ ?q]
        exI [of _ ?js] exI [of _ cs'] exI [of _ "if j \<in> js then rs_programs u else ?P"])
      (auto simp: s' linked_def program_read_def triple)
qed


text \<open>Programs of successive revisions that compare equal have the same encoding.\<close>

definition programs_agree ::
  "('p \<Rightarrow> 'p \<Rightarrow> bool) \<Rightarrow> ('p \<Rightarrow> persistence_error + bytes) \<Rightarrow> 'p history_revision \<Rightarrow> 'p history_revision \<Rightarrow> bool" where
  "programs_agree eq json previous r =
     (case (hr_program previous, hr_program r) of (Some p, Some q) \<Rightarrow> eq p q \<longrightarrow> json q = json p | _ \<Rightarrow> True)"

lemma program_part:
  assumes enc: "encode_program_part sha json eq budget previous r s = Inr s'"
    and link: "linked sha json budget S js previous s u" and holds: "table_holds sha doc (es_table s) cs" "set cs \<subseteq> S"
    and inj: "inj_on sha S" and S: "revision_contents sha json r \<subseteq> S" and sha: "\<And>b. length (sha b) = 32"
    and items: "hb_items budget \<le> MAX_COLLECTION_ITEMS"
    and agree: "case previous of None \<Rightarrow> True | Some p \<Rightarrow> programs_agree eq json p r"
  shows "program_outcome sha json budget doc S cs r s s' u"
proof (cases "case previous of None \<Rightarrow> False | Some p \<Rightarrow> same_program eq r p")
  case True
  then obtain p pr pr' where "previous = Some p" "hr_program r = Some pr" "hr_program p = Some pr'" "json pr = json pr'"
    using agree by (auto simp: same_program_def programs_agree_def split: option.splits)
  with enc True link holds show ?thesis by (auto simp: encode_program_part_def intro: program_previous)
next
  case False
  with enc obtain program where program: "encoded_program json (hr_program r) = Inr program"
    by (auto simp: encode_program_part_def result_simps)
  show ?thesis
  proof (cases program)
    case None
    then have "hr_program r = None"
      using program by (auto simp: encoded_program_def result_simps split: option.splits)
    with enc False program None link holds show ?thesis by (auto simp: encode_program_part_def intro: program_none)
  next
    case (Some j)
    then obtain pr where pr: "hr_program r = Some pr" "json pr = Inr j" "length j \<le> MAX_RULE_PROGRAM_BYTES"
      using program by (auto simp: encoded_program_def result_simps split: option.splits)
    have b: "hb_items budget < 2 ^ 32" using items by (simp add: MAX_COLLECTION_ITEMS_def)
    from enc False program Some obtain n t out where e:
      "(if sha j \<in> set (es_programs s) then Inr (es_program_bytes s)
        else check_assembled HISTORY_PROGRAMS_ENTRY (es_program_bytes s) (length j) (hb_programs budget)) = Inr n"
      "es_items s + length (chunks sha j) \<le> hb_items budget"
      "table_write j (sha j) (chunks sha j) (es_table s) = Inr (t, out)"
      "s' = s \<lparr>es_table := t, es_records := es_records s @ push_u8 HISTORY_RULE_PROGRAM_IN_CHUNKS @ out,
        es_programs := bs_insert (sha j) (es_programs s), es_program_bytes := n, es_items := es_items s + length (chunks sha j)\<rparr>"
      by (auto simp: encode_program_part_def result_simps Let_def count_items_Inr [OF b])
    show ?thesis using e(2) items by (intro program_chunks [OF pr e(1) _ e(3,4) link holds inj S sha]) simp
  qed
qed

lemma saturating_zero: "a < 2 ^ 64 \<Longrightarrow> saturating_add a 0 = a"
  by (simp add: saturating_add_def)

lemma saturating_less: "saturating_add a b < 2 ^ 64"
  by (simp add: saturating_add_def)

definition hashed :: "(bytes \<Rightarrow> bytes) \<Rightarrow> 'p history_revision \<Rightarrow> bool" where
  "hashed sha r \<longleftrightarrow> hr_sha256 r = sha (hr_encoded r)"

lemma snapshot_part:
  assumes enc: "encode_snapshot_part sha budget is_current r s = Inr s'"
    and holds: "table_holds sha doc (es_table s) cs" "set cs \<subseteq> S" and inj: "inj_on sha S"
    and S: "revision_contents sha json r \<subseteq> S" and sha: "\<And>b. length (sha b) = 32"
    and items: "hb_items budget \<le> MAX_COLLECTION_ITEMS"
    and assembled: "es_assembled s \<le> hb_snapshots budget" "es_assembled s < 2 ^ 64" and hashed: "hashed sha r"
  shows "\<exists>p i snapshot cs'. s' = s \<lparr>es_table := es_table s', es_records := es_records s @ p,
        es_assembled := es_assembled s', es_items := es_items s + i\<rparr> \<and>
    table_holds sha doc (es_table s') cs' \<and> prefix cs cs' \<and> set cs' \<subseteq> S \<and> table_le (es_table s) (es_table s') \<and>
    es_assembled s' \<le> hb_snapshots budget \<and> es_assembled s' < 2 ^ 64 \<and>
    reads (read_history_snapshot HISTORY_SCHEMA (if is_current then Some doc else None)) p i 0 snapshot \<and>
    check_assembled HISTORY_REVISIONS_ENTRY (es_assembled s) (assembled_len snapshot) (hb_snapshots budget) = Inr (es_assembled s') \<and>
    (if is_current then snapshot = SnapshotDocument doc
     else (\<exists>numbers. snapshot = SnapshotChunks (length (hr_encoded r)) (sha (hr_encoded r)) numbers) \<and>
        (\<forall>cs''. prefix cs' cs'' \<longrightarrow> assemble_snapshot sha cs'' snapshot = Inr (hr_encoded r)))"
proof (cases is_current)
  case True
  then have s': "s' = s \<lparr>es_records := es_records s @ push_u8 HISTORY_SNAPSHOT_IS_DOCUMENT\<rparr>"
    using enc by (simp add: encode_snapshot_part_def)
  have "check_assembled HISTORY_REVISIONS_ENTRY (es_assembled s) (assembled_len (SnapshotDocument doc)) (hb_snapshots budget) =
      Inr (es_assembled s)"
    using assembled by (simp add: check_assembled_Inr assembled_len_def saturating_zero)
  with True reads_document [of doc] holds assembled show ?thesis
    by (intro exI [of _ "push_u8 HISTORY_SNAPSHOT_IS_DOCUMENT"] exI [of _ 0] exI [of _ "SnapshotDocument doc"] exI [of _ cs])
      (simp add: s')
next
  case False
  let ?bs = "hr_encoded r"
  have b: "hb_items budget < 2 ^ 32" using items by (simp add: MAX_COLLECTION_ITEMS_def)
  from enc False obtain a t out where e:
    "check_assembled HISTORY_REVISIONS_ENTRY (es_assembled s) (length ?bs) (hb_snapshots budget) = Inr a"
    "es_items s + length (chunks sha ?bs) \<le> hb_items budget"
    "table_write ?bs (sha ?bs) (chunks sha ?bs) (es_table s) = Inr (t, out)"
    "s' = s \<lparr>es_table := t, es_records := es_records s @ push_u8 HISTORY_SNAPSHOT_IN_CHUNKS @ out, es_assembled := a,
      es_items := es_items s + length (chunks sha ?bs)\<rparr>"
    using hashed by (auto simp: encode_snapshot_part_def result_simps Let_def count_items_Inr [OF b] hashed_def)
  have bS: "contents sha ?bs \<subseteq> S" using S by (simp add: revision_contents_def)
  from table_write_Inr [OF e(3) holds(1) inj holds(2) bS] obtain cs' where w: "length ?bs < 2 ^ 64" "out = list_bytes sha t ?bs"
    "table_le (es_table s) t" "names_chunks t (chunks sha ?bs)" "table_holds sha doc t cs'" "prefix cs cs'" "set cs' \<subseteq> S" by blast
  let ?snapshot = "SnapshotChunks (length ?bs) (sha ?bs) (numbers_bytes t (chunks sha ?bs))"
  have "\<forall>cs''. prefix cs' cs'' \<longrightarrow> assemble_snapshot sha cs'' ?snapshot = Inr ?bs"
    using assembles [OF w(5,4) inj w(7) bS [unfolded contents_def] _ w(1)] by (simp add: assemble_snapshot_def)
  moreover have "reads (read_history_snapshot HISTORY_SCHEMA None) (push_u8 HISTORY_SNAPSHOT_IN_CHUNKS @ out)
      (length (chunks sha ?bs)) 0 ?snapshot"
    unfolding w(2) using e(2) items by (intro reads_snapshot [OF w(1) sha]) simp
  moreover have "a \<le> hb_snapshots budget" "a < 2 ^ 64" using e(1) saturating_less [of "es_assembled s" "length ?bs"] by (auto simp: check_assembled_Inr)
  ultimately show ?thesis
    using w e(1) False
    by (intro exI [of _ "push_u8 HISTORY_SNAPSHOT_IN_CHUNKS @ out"] exI [of _ "length (chunks sha ?bs)"]
        exI [of _ ?snapshot] exI [of _ cs']) (simp add: e(4) assembled_len_def)
qed


text \<open>A record as it should be read: the fields of the revision, and its program and snapshot when assembled.\<close>

definition record_matches ::
  "(bytes \<Rightarrow> bytes) \<Rightarrow> ('p \<Rightarrow> persistence_error + bytes) \<Rightarrow> bytes \<Rightarrow> bytes list \<Rightarrow> bool \<Rightarrow> 'p history_revision \<Rightarrow> history_record \<Rightarrow> bool" where
  "record_matches sha json doc cs is_current r rc \<longleftrightarrow>
     rc_revision_id rc = hr_id r \<and> rc_batch_digest rc = hr_batch_digest r \<and> rc_origin rc = hr_origin r \<and>
     rc_checkpoint rc = hr_checkpoint r \<and>
     (case hr_program r of None \<Rightarrow> rc_rule_program rc = None
      | Some p \<Rightarrow> (\<exists>j q. json p = Inr j \<and> rc_rule_program rc = Some q \<and>
          (\<forall>cs'. prefix cs cs' \<longrightarrow> assemble_program sha cs' q = Inr j))) \<and>
     (if is_current then rc_encoded_snapshot rc = SnapshotDocument doc
      else (\<exists>numbers. rc_encoded_snapshot rc = SnapshotChunks (length (hr_encoded r)) (sha (hr_encoded r)) numbers) \<and>
        (\<forall>cs'. prefix cs cs' \<longrightarrow> assemble_snapshot sha cs' (rc_encoded_snapshot rc) = Inr (hr_encoded r)))"

lemma record_matches_grow:
  "record_matches sha json doc cs is_current r rc \<Longrightarrow> prefix cs cs' \<Longrightarrow> record_matches sha json doc cs' is_current r rc"
  by (auto simp: record_matches_def split: option.splits if_splits dest: prefix_order.trans)

lemma program_read_assembles:
  assumes "program_read sha json t js program q" and "table_holds sha doc t cs" and "set cs \<subseteq> S" and "inj_on sha S"
    and "\<forall>j\<in>js. names_chunks t (chunks sha j) \<and> length j < 2 ^ 64 \<and> contents sha j \<subseteq> S"
  shows "case program of None \<Rightarrow> q = None
    | Some p \<Rightarrow> (\<exists>j x. json p = Inr j \<and> q = Some x \<and> (\<forall>cs'. prefix cs cs' \<longrightarrow> assemble_program sha cs' x = Inr j))"
proof (cases program)
  case None
  with assms(1) show ?thesis by (simp add: program_read_def)
next
  case (Some p)
  with assms(1) obtain j where j: "json p = Inr j" "j \<in> js"
    "q = Some (ProgramChunks (length j) (sha j) (numbers_bytes t (chunks sha j)))"
    by (auto simp: program_read_def)
  have n: "names_chunks t (chunks sha j)" "length j < 2 ^ 64" "chunk_range j ` set (chunks sha j) \<subseteq> S"
    using assms(5) j(2) by (auto simp: contents_def)
  have "assemble_program sha cs' (ProgramChunks (length j) (sha j) (numbers_bytes t (chunks sha j))) = Inr j"
    if "prefix cs cs'" for cs'
    using assembles [OF assms(2) n(1) assms(4,3) n(3) that n(2)] by (simp add: assemble_program_def)
  with j Some show ?thesis by auto
qed

lemma digest_utf8: "batch_digest_ok digest \<Longrightarrow> valid_utf8 digest \<and> length digest < 2 ^ 32"
proof
  assume d: "batch_digest_ok digest"
  then have "list_all is_ascii digest"
    by (auto simp: batch_digest_ok_def list_all_iff is_digit_def is_ascii_def dest!: bspec)
  then show "valid_utf8 digest" using valid_utf8_ascii_append [of digest "[]"] by (simp add: valid_utf8_def)
  show "length digest < 2 ^ 32" using d by (auto simp: batch_digest_ok_def)
qed

text \<open>What a revision of a well-formed history satisfies on its own.\<close>

definition revision_ok_at :: "nat \<Rightarrow> 'p history_revision \<Rightarrow> bool" where
  "revision_ok_at index r \<longleftrightarrow> batch_digest_ok (hr_batch_digest r) \<and> origin_ok index (hr_id r) (hr_origin r) \<and>
     (case hr_checkpoint r of None \<Rightarrow> True | Some name \<Rightarrow> checkpoint_name_ok name \<and> valid_utf8 name)"

lemma write_header_Inr:
  "write_revision_header r = Inr h \<Longrightarrow>
     h = push_u64 (hr_id r) @ string_bytes (hr_batch_digest r) @ write_revision_origin (hr_origin r) @ checkpoint_bytes (hr_checkpoint r)"
  by (auto simp: write_revision_header_def result_simps push_string_Inr checkpoint_bytes_def split: option.splits)

lemma reads_step_end:
  assumes "reads d b i s x" and "i' = i" and "s' = s" and "reads (f x) [] 0 0 y"
  shows "reads (\<lambda>r. and_then (d r) (\<lambda>(x, r). f x r)) b i' s' y"
  using reads_step_last [where f = f, OF assms(1,4)] assms(2,3) by simp

lemma reads_record:
  assumes r: "revision_ok_at index r" and id: "case rs_previous_id u of None \<Rightarrow> True | Some previous \<Rightarrow> previous < hr_id r"
    and fresh: "case hr_checkpoint r of None \<Rightarrow> True | Some name \<Rightarrow> name \<notin> set (rs_checkpoint_names u)"
    and program: "reads (read_history_program HISTORY_SCHEMA (rs_previous_program u)) p i 0 q"
    and counted: "count_program budget True q (u \<lparr>rs_previous_program := q\<rparr>) = Inr u1" "rs_checkpoint_names u1 = rs_checkpoint_names u"
    and snapshot: "reads (read_history_snapshot HISTORY_SCHEMA (if index = cursor then Some doc else None)) p' i' 0 sn"
    and assembled: "check_assembled HISTORY_REVISIONS_ENTRY (rs_assembled u1) (assembled_len sn) (hb_snapshots budget) = Inr a"
  shows "reads (read_history_record budget HISTORY_SCHEMA doc cursor (\<lambda>_. True) index u)
    (push_u64 (hr_id r) @ string_bytes (hr_batch_digest r) @ (write_revision_origin (hr_origin r) @ checkpoint_bytes (hr_checkpoint r)) @ p @ p')
    (length (hr_batch_digest r) + checkpoint_length (hr_checkpoint r) + i + i')
    (length (hr_batch_digest r) + checkpoint_length (hr_checkpoint r))
    (u1 \<lparr>rs_checkpoint_names := (case hr_checkpoint r of None \<Rightarrow> rs_checkpoint_names u1
          | Some name \<Rightarrow> bs_insert name (rs_checkpoint_names u1)),
        rs_previous_id := Some (hr_id r), rs_assembled := a,
        rs_records := rs_records u1 @
          [\<lparr>rc_revision_id = hr_id r, rc_batch_digest = hr_batch_digest r, rc_origin = hr_origin r,
            rc_checkpoint = hr_checkpoint r, rc_rule_program = q, rc_encoded_snapshot = sn\<rparr>]\<rparr>)"
proof -
  note d = digest_utf8 [of "hr_batch_digest r"]
  have digest: "reads read_string (string_bytes (hr_batch_digest r)) (length (hr_batch_digest r)) (length (hr_batch_digest r))
      (hr_batch_digest r)"
    using r d by (intro reads_string) (auto simp: revision_ok_at_def)
  have fields: "reads (read_history_fields HISTORY_SCHEMA index) (write_revision_origin (hr_origin r) @ checkpoint_bytes (hr_checkpoint r))
      (checkpoint_length (hr_checkpoint r)) (checkpoint_length (hr_checkpoint r)) (hr_origin r, hr_checkpoint r)"
    using r by (intro reads_fields) (auto simp: revision_ok_at_def checkpoint_name_ok_def split: option.splits)
  have guards: "(case rs_previous_id u of None \<Rightarrow> True | Some previous \<Rightarrow> \<not> hr_id r \<le> previous)"
    "batch_digest_ok (hr_batch_digest r)" "origin_ok index (hr_id r) (hr_origin r)"
    "(case hr_checkpoint r of None \<Rightarrow> True | Some name \<Rightarrow> checkpoint_name_ok name \<and> name \<notin> set (rs_checkpoint_names u1))"
    using id r fresh counted(2) by (auto simp: revision_ok_at_def not_le split: option.splits)
  show ?thesis
    by (rule reads_cong [OF read_history_record_def], rule reads_u64_step, simp only: guards guard_simps and_then_simps,
        rule reads_step [OF digest], simp, simp, simp only: guards guard_simps and_then_simps,
        rule reads_step [OF fields], simp, simp, simp only: prod.case,
        rule reads_step [OF program], simp, simp, simp only: counted(1) guards guard_simps and_then_simps Let_def,
        rule reads_step_end [OF snapshot], simp, simp,
        simp add: assembled reads_return)
qed


definition checkpoint_names :: "'p history_revision \<Rightarrow> str set" where
  "checkpoint_names r = set_option (hr_checkpoint r)"

text \<open>One revision: what the writer appends, a reader in the linked state reads as its record.\<close>

lemma revision_step:
  assumes enc: "encode_revision sha json eq budget previous (index = cursor) r s = Inr s'"
    and link: "linked sha json budget S js previous s u" and holds: "table_holds sha doc (es_table s) cs" "set cs \<subseteq> S"
    and inj: "inj_on sha S" and S: "revision_contents sha json r \<subseteq> S" and sha: "\<And>b. length (sha b) = 32"
    and items: "hb_items budget \<le> MAX_COLLECTION_ITEMS"
    and r: "revision_ok_at index r" "case previous of None \<Rightarrow> True | Some p \<Rightarrow> hr_id p < hr_id r"
    and agree: "case previous of None \<Rightarrow> True | Some p \<Rightarrow> programs_agree eq json p r"
    and fresh: "checkpoint_names r \<inter> set (rs_checkpoint_names u) = {}" and hashed: "hashed sha r"
  shows "\<exists>p i st js' cs' u' rc. es_records s' = es_records s @ p \<and> es_items s' = es_items s + i \<and> st \<le> i \<and>
    reads (read_history_record budget HISTORY_SCHEMA doc cursor (\<lambda>_. True) index u) p i st u' \<and>
    table_holds sha doc (es_table s') cs' \<and> prefix cs cs' \<and> set cs' \<subseteq> S \<and>
    linked sha json budget S js' (Some r) s' u' \<and>
    set (rs_checkpoint_names u') = set (rs_checkpoint_names u) \<union> checkpoint_names r \<and>
    rs_records u' = rs_records u @ [rc] \<and> record_matches sha json doc cs' (index = cursor) r rc"
proof -
  have b: "hb_items budget < 2 ^ 32" using items by (simp add: MAX_COLLECTION_ITEMS_def)
  let ?h = "push_u64 (hr_id r) @ string_bytes (hr_batch_digest r) @ write_revision_origin (hr_origin r) @ checkpoint_bytes (hr_checkpoint r)"
  let ?n = "length (hr_batch_digest r) + checkpoint_length (hr_checkpoint r)"
  let ?s0 = "s \<lparr>es_records := es_records s @ ?h, es_items := es_items s + ?n\<rparr>"
  from enc obtain s1 where s1: "encode_program_part sha json eq budget previous r ?s0 = Inr s1"
    "encode_snapshot_part sha budget (index = cursor) r s1 = Inr s'"
    by (auto simp: encode_revision_def result_simps count_items_Inr [OF b] checkpoint_length_def add.assoc
        dest!: write_header_Inr split: option.splits)
  have link0: "linked sha json budget S js previous ?s0 u" using link by (simp add: linked_def)
  have holds0: "table_holds sha doc (es_table ?s0) cs" using holds(1) by simp
  from program_part [OF s1(1) link0 holds0 holds(2) inj S sha items agree, unfolded program_outcome_def]
  obtain p i q js' cs1 P where p0: "es_records s1 = es_records ?s0 @ p" "es_items s1 = es_items ?s0 + i"
    "es_assembled s1 = es_assembled ?s0" and p4: "table_holds sha doc (es_table s1) cs1" "prefix cs cs1" "set cs1 \<subseteq> S" "js' \<subseteq> S"
    "reads (read_history_program HISTORY_SCHEMA (rs_previous_program u)) p i 0 q"
    "count_program budget True q (u \<lparr>rs_previous_program := q\<rparr>) =
       Inr (u \<lparr>rs_previous_program := q, rs_programs := P, rs_program_bytes := es_program_bytes s1\<rparr>)"
    "set (es_programs s1) = sha ` js'" "set P = program_triple sha (es_table s1) ` js'"
    "\<forall>j\<in>js'. names_chunks (es_table s1) (chunks sha j) \<and> length j < 2 ^ 64 \<and> contents sha j \<subseteq> S"
    "program_read sha json (es_table s1) js' (hr_program r) q"
    by (elim exE conjE) (rule that; assumption)
  have p3: "es_records s1 = es_records s @ ?h @ p" "es_items s1 = es_items s + ?n + i" "es_assembled s1 = es_assembled s"
    using p0 by simp_all
  note p = p3 p4
  let ?u1 = "u \<lparr>rs_previous_program := q, rs_programs := P, rs_program_bytes := es_program_bytes s1\<rparr>"
  have a: "es_assembled s1 \<le> hb_snapshots budget" "es_assembled s1 < 2 ^ 64" "rs_assembled ?u1 = es_assembled s1"
    using link by (auto simp: p(3) linked_def)
  from snapshot_part [OF s1(2) p(4,6) inj S sha items a(1,2) hashed]
  obtain p' i' sn cs' where n: "s' = s1 \<lparr>es_table := es_table s', es_records := es_records s1 @ p',
      es_assembled := es_assembled s', es_items := es_items s1 + i'\<rparr>" "table_holds sha doc (es_table s') cs'" "prefix cs1 cs'"
    "set cs' \<subseteq> S" "table_le (es_table s1) (es_table s')" "es_assembled s' \<le> hb_snapshots budget" "es_assembled s' < 2 ^ 64"
    "reads (read_history_snapshot HISTORY_SCHEMA (if index = cursor then Some doc else None)) p' i' 0 sn"
    "check_assembled HISTORY_REVISIONS_ENTRY (es_assembled s1) (assembled_len sn) (hb_snapshots budget) = Inr (es_assembled s')"
    "if index = cursor then sn = SnapshotDocument doc
     else (\<exists>numbers. sn = SnapshotChunks (length (hr_encoded r)) (sha (hr_encoded r)) numbers) \<and>
        (\<forall>cs''. prefix cs' cs'' \<longrightarrow> assemble_snapshot sha cs'' sn = Inr (hr_encoded r))"
    by (elim exE conjE) (rule that; assumption)
  have s': "es_records s' = es_records s @ ?h @ p @ p'" "es_items s' = es_items s + (?n + i + i')"
    "es_programs s' = es_programs s1" "es_program_bytes s' = es_program_bytes s1"
    by (subst n(1), simp add: p(1,2))+
  let ?rc = "\<lparr>rc_revision_id = hr_id r, rc_batch_digest = hr_batch_digest r, rc_origin = hr_origin r,
    rc_checkpoint = hr_checkpoint r, rc_rule_program = q, rc_encoded_snapshot = sn\<rparr>"
  let ?u' = "?u1 \<lparr>rs_checkpoint_names := (case hr_checkpoint r of None \<Rightarrow> rs_checkpoint_names ?u1
      | Some name \<Rightarrow> bs_insert name (rs_checkpoint_names ?u1)), rs_previous_id := Some (hr_id r),
    rs_assembled := es_assembled s', rs_records := rs_records ?u1 @ [?rc]\<rparr>"
  have "reads (read_history_record budget HISTORY_SCHEMA doc cursor (\<lambda>_. True) index u) (?h @ p @ p') (?n + i + i') ?n ?u'"
  proof -
    have "case rs_previous_id u of None \<Rightarrow> True | Some previous \<Rightarrow> previous < hr_id r"
      using link r(2) by (auto simp: linked_def split: option.splits)
    moreover have "case hr_checkpoint r of None \<Rightarrow> True | Some name \<Rightarrow> name \<notin> set (rs_checkpoint_names u)"
      using fresh by (auto simp: checkpoint_names_def split: option.splits)
    moreover have "check_assembled HISTORY_REVISIONS_ENTRY (rs_assembled ?u1) (assembled_len sn) (hb_snapshots budget) =
        Inr (es_assembled s')" using n(9) a(3) by simp
    ultimately show ?thesis using reads_record [OF r(1) _ _ p(8,9) _ n(8)] by simp
  qed
  moreover have names: "\<forall>j\<in>js'. names_chunks (es_table s1) (chunks sha j)" using p(12) by blast
  have grow: "\<forall>j\<in>js'. names_chunks (es_table s') (chunks sha j)"
    "program_triple sha (es_table s') ` js' = program_triple sha (es_table s1) ` js'"
    "program_read sha json (es_table s') js' (hr_program r) q"
    using linked_grow [OF names n(5), where json = json and program = "hr_program r" and q = q] p(13) by blast+
  have "linked sha json budget S js' (Some r) s' ?u'"
    using grow(1,3) p(7,10,11,12) n(6,7) s'(3,4) by (simp add: linked_def grow(2))
  moreover have "record_matches sha json doc cs' (index = cursor) r ?rc"
    using program_read_assembles [OF p(13,4,6) inj p(12)] n(3,10)
    by (auto simp: record_matches_def split: option.splits dest: prefix_order.trans)
  moreover have "set (rs_checkpoint_names ?u') = set (rs_checkpoint_names u) \<union> checkpoint_names r"
    by (auto simp: checkpoint_names_def split: option.splits)
  ultimately show ?thesis
    using s' n(2,4) prefix_order.trans [OF p(5) n(3)]
    by (intro exI [of _ "?h @ p @ p'"] exI [of _ "?n + i + i'"] exI [of _ ?n] exI [of _ js'] exI [of _ cs'] exI [of _ ?u']
        exI [of _ ?rc]) simp
qed


fun records_match ::
  "(bytes \<Rightarrow> bytes) \<Rightarrow> ('p \<Rightarrow> persistence_error + bytes) \<Rightarrow> bytes \<Rightarrow> bytes list \<Rightarrow> nat \<Rightarrow> nat \<Rightarrow>
   'p history_revision list \<Rightarrow> history_record list \<Rightarrow> bool" where
  "records_match sha json doc cs cursor index [] [] = True"
| "records_match sha json doc cs cursor index (r # rs) (c # rcs) =
     (record_matches sha json doc cs (index = cursor) r c \<and> records_match sha json doc cs cursor (index + 1) rs rcs)"
| "records_match sha json doc cs cursor index _ _ = False"

fun revisions_ok :: "nat \<Rightarrow> 'p history_revision list \<Rightarrow> bool" where
  "revisions_ok index [] = True"
| "revisions_ok index (r # rs) \<longleftrightarrow>
     revision_ok_at index r \<and> list_all (\<lambda>q. hr_id r < hr_id q \<and> checkpoint_names r \<inter> checkpoint_names q = {}) rs \<and>
     revisions_ok (index + 1) rs"

lemma revisions_read:
  assumes "encode_revisions sha json eq budget cursor index previous rs s = Inr s'"
    and "linked sha json budget S js previous s u" and "table_holds sha doc (es_table s) cs" and "set cs \<subseteq> S"
    and inj: "inj_on sha S" and S: "\<Union> (revision_contents sha json ` set rs) \<subseteq> S" and sha: "\<And>b. length (sha b) = 32"
    and items: "hb_items budget \<le> MAX_COLLECTION_ITEMS"
    and "revisions_ok index rs" and "case previous of None \<Rightarrow> True | Some p \<Rightarrow> list_all (\<lambda>q. hr_id p < hr_id q) rs"
    and "list_all (\<lambda>q. checkpoint_names q \<inter> set (rs_checkpoint_names u) = {}) rs"
    and "successively (programs_agree eq json) (case previous of None \<Rightarrow> rs | Some p \<Rightarrow> p # rs)" and "list_all (hashed sha) rs"
  shows "\<exists>p i st cs' u' rcs. es_records s' = es_records s @ p \<and> es_items s' = es_items s + i \<and> st \<le> i \<and>
    reads (read_history_loop budget HISTORY_SCHEMA doc cursor (\<lambda>_. True) index (length rs) u) p i st u' \<and>
    table_holds sha doc (es_table s') cs' \<and> prefix cs cs' \<and> set cs' \<subseteq> S \<and>
    rs_previous_id u' = (if rs = [] then map_option hr_id previous else Some (hr_id (last rs))) \<and>
    rs_records u' = rs_records u @ rcs \<and> records_match sha json doc cs' cursor index rs rcs"
  using assms(1-4) S assms(9-13)
proof (induction rs arbitrary: index previous s u js cs)
  case Nil
  then show ?case
    by (intro exI [of _ "[]"] exI [of _ 0] exI [of _ 0] exI [of _ cs] exI [of _ u] exI [of _ "[]"])
      (simp add: linked_def reads_return)
next
  case (Cons r rs)
  from Cons.prems(1) obtain s1 where s1: "encode_revision sha json eq budget previous (index = cursor) r s = Inr s1"
    "encode_revisions sha json eq budget cursor (index + 1) (Some r) rs s1 = Inr s'"
    by (auto simp: result_simps)
  have c: "revision_contents sha json r \<subseteq> S" "\<Union> (revision_contents sha json ` set rs) \<subseteq> S" using Cons.prems(5) by auto
  have r: "revision_ok_at index r" "case previous of None \<Rightarrow> True | Some p \<Rightarrow> hr_id p < hr_id r"
    "case previous of None \<Rightarrow> True | Some p \<Rightarrow> programs_agree eq json p r"
    "checkpoint_names r \<inter> set (rs_checkpoint_names u) = {}" "hashed sha r"
    using Cons.prems(6-10) by (auto split: option.splits)
  from revision_step [OF s1(1) Cons.prems(2-4) inj c(1) sha items r]
  obtain p i st js' cs1 u1 rc where a: "es_records s1 = es_records s @ p" "es_items s1 = es_items s + i" "st \<le> i"
    "reads (read_history_record budget HISTORY_SCHEMA doc cursor (\<lambda>_. True) index u) p i st u1"
    "table_holds sha doc (es_table s1) cs1" "prefix cs cs1" "set cs1 \<subseteq> S" "linked sha json budget S js' (Some r) s1 u1"
    "set (rs_checkpoint_names u1) = set (rs_checkpoint_names u) \<union> checkpoint_names r"
    "rs_records u1 = rs_records u @ [rc]" "record_matches sha json doc cs1 (index = cursor) r rc"
    by (elim exE conjE) (rule that; assumption)
  have later: "revisions_ok (index + 1) rs" "list_all (\<lambda>q. hr_id r < hr_id q) rs"
    "list_all (\<lambda>q. checkpoint_names q \<inter> set (rs_checkpoint_names u1) = {}) rs"
    using Cons.prems(6,8) by (auto simp: a(9) list_all_iff)
  have "successively (programs_agree eq json) (case Some r of None \<Rightarrow> rs | Some p \<Rightarrow> p # rs)"
    using Cons.prems(9) by (auto simp: successively_Cons split: option.splits)
  from Cons.IH [OF s1(2) a(8,5,7) c(2) later(1) _ later(3) this] later(2) Cons.prems(10)
  obtain p' i' st' cs' u' rcs where b: "es_records s' = es_records s1 @ p'" "es_items s' = es_items s1 + i'" "st' \<le> i'"
    "reads (read_history_loop budget HISTORY_SCHEMA doc cursor (\<lambda>_. True) (index + 1) (length rs) u1) p' i' st' u'"
    "table_holds sha doc (es_table s') cs'" "prefix cs1 cs'" "set cs' \<subseteq> S"
    "rs_previous_id u' = (if rs = [] then map_option hr_id (Some r) else Some (hr_id (last rs)))"
    "rs_records u' = rs_records u1 @ rcs" "records_match sha json doc cs' cursor (index + 1) rs rcs"
    by auto
  have "reads (read_history_loop budget HISTORY_SCHEMA doc cursor (\<lambda>_. True) index (length (r # rs)) u) (p @ p') (i + i') (st + st') u'"
    by (rule reads_cong [OF _ reads_bind [OF a(4), where f = "read_history_loop budget HISTORY_SCHEMA doc cursor (\<lambda>_. True)
        (index + 1) (length rs)", OF b(4)]]) simp
  moreover have "record_matches sha json doc cs' (index = cursor) r rc" by (rule record_matches_grow [OF a(11) b(6)])
  ultimately show ?case
    using a(1,2,3,10) b prefix_order.trans [OF a(6) b(6)]
    by - (rule exI [of _ "p @ p'"], rule exI [of _ "i + i'"], rule exI [of _ "st + st'"],
      intro exI [of _ cs'] exI [of _ u'] exI [of _ "rc # rcs"], simp del: read_history_loop.simps)
qed

section \<open>A history that is written is read\<close>

lemma length_history_magic [simp]: "length HISTORY_MAGIC = 10"
  by (simp add: HISTORY_MAGIC_def)

lemma history_layout:
  assumes bs: "bs = HISTORY_MAGIC @ push_u16 HISTORY_SCHEMA @ push_u32 (of_nat n) @ push_u32 (of_nat cursor) @
      push_u64 next @ push_u32 (of_nat (length cs)) @ tb @ p" and len: "length bs < 2 ^ 64"
    and n: "n \<noteq> 0" "n \<le> FILE_HISTORY_REVISIONS" "cursor < n" "length cs \<le> MAX_COLLECTION_ITEMS"
    and table: "reads (read_many (length cs) (read_history_chunk doc)) tb 0 0 cs"
    and loop: "reads (read_history_loop budget HISTORY_SCHEMA doc cursor (\<lambda>_. True) 0 n
      \<lparr>rs_assembled = 0, rs_programs = [], rs_program_bytes = 0, rs_previous_id = None, rs_previous_program = None,
       rs_checkpoint_names = [], rs_records = []\<rparr>) p i st u"
    and items: "n + length cs + i \<le> hb_items budget" "hb_items budget < 2 ^ 32" "st \<le> MAX_STRING_BYTES"
    and prev: "rs_previous_id u = Some j" "j < next"
  shows "read_history_records bs doc budget False =
    Inr \<lparr>ph_schema = HISTORY_SCHEMA, ph_cursor = cursor, ph_next_revision_id = next, ph_chunks = cs, ph_records = rs_records u\<rparr>"
proof -
  let ?r = "with_item_budget bs (hb_items budget)" and ?m = "n + length cs"
  let ?r8 = "advance (32 + length tb + length p) (?m + i) st ?r"
  have r: "rest ?r = bs" by simp
  have small: "n < 2 ^ 32" "cursor < 2 ^ 32" "length cs < 2 ^ 32"
    using n by (auto simp: FILE_HISTORY_REVISIONS_def MAX_COLLECTION_ITEMS_def)
  have ok8: "reader_ok ?r8"
    using len items by (auto simp: reader_ok_def with_item_budget_def bs)
  have ok: "reader_ok ?r" "reader_ok (advance 10 0 0 ?r)" "reader_ok (advance 12 0 0 ?r)" "reader_ok (advance 16 n 0 ?r)"
    "reader_ok (advance 20 n 0 ?r)" "reader_ok (advance 28 n 0 ?r)" "reader_ok (advance 32 ?m 0 ?r)"
    "reader_ok (advance (32 + length tb) ?m 0 ?r)"
    using reader_ok_le [OF ok8, of 0 0 0] by (auto intro: reader_ok_le [OF ok8])
  have "take_bytes 10 ?r = Inr (HISTORY_MAGIC, advance 10 0 0 ?r)"
    unfolding taking.dec_iff [OF ok(1)] r using ok by (simp add: bs)
  moreover have "read_u16 (advance 10 0 0 ?r) = Inr (HISTORY_SCHEMA, advance 12 0 0 ?r)"
    unfolding u16c.dec_iff [OF ok(2)] rest_advance r using ok by (simp add: bs)
  moreover have "count_with_limit FILE_HISTORY_REVISIONS (advance 12 0 0 ?r) = Inr (n, advance 16 n 0 ?r)"
    unfolding countc.dec_iff [OF ok(3)] rest_advance r using ok n small by (simp add: bs)
  moreover have "read_u32 (advance 16 n 0 ?r) = Inr (of_nat cursor, advance 20 n 0 ?r)"
    unfolding u32c.dec_iff [OF ok(4)] rest_advance r using ok by (simp add: bs)
  moreover have "read_u64 (advance 20 n 0 ?r) = Inr (next, advance 28 n 0 ?r)"
    unfolding u64c.dec_iff [OF ok(5)] rest_advance r using ok by (simp add: bs)
  moreover have "count_with_limit MAX_COLLECTION_ITEMS (advance 28 n 0 ?r) = Inr (length cs, advance 32 ?m 0 ?r)"
    unfolding countc.dec_iff [OF ok(6)] rest_advance r using ok n small by (simp add: bs)
  moreover have "read_many (length cs) (read_history_chunk doc) (advance 32 ?m 0 ?r) = Inr (cs, advance (32 + length tb) ?m 0 ?r)"
    using readsD [OF table, of "advance 32 ?m 0 ?r"] ok(8) unfolding rest_advance r by (simp add: bs)
  moreover have "read_history_loop budget HISTORY_SCHEMA doc cursor (\<lambda>_. True) 0 n
      \<lparr>rs_assembled = 0, rs_programs = [], rs_program_bytes = 0, rs_previous_id = None, rs_previous_program = None,
       rs_checkpoint_names = [], rs_records = []\<rparr> (advance (32 + length tb) ?m 0 ?r) = Inr (u, ?r8)"
    using readsD [OF loop, of "advance (32 + length tb) ?m 0 ?r"] ok8 unfolding rest_advance r by (simp add: bs)
  moreover have "is_finished ?r8" unfolding is_finished_iff [OF ok8] rest_advance r by (simp add: bs)
  moreover have "unat (of_nat cursor :: u32) = cursor" by (rule unat_of_nat_u32 [OF small(2)])
  ultimately show ?thesis
    using n prev by (simp add: read_history_records_def Let_def not_le del: read_history_loop.simps)
qed

lemma written_history_reads:
  assumes enc: "encode_history sha json eq revisions cursor next document_bin budget = Inr bs" and len: "length bs < 2 ^ 64"
    and inj: "inj_on sha S" and S: "contents sha document_bin \<subseteq> S" "\<Union> (revision_contents sha json ` set revisions) \<subseteq> S"
    and sha: "\<And>b. length (sha b) = 32" and items: "hb_items budget \<le> MAX_COLLECTION_ITEMS"
    and ok: "revisions_ok 0 revisions" "hr_id (last revisions) < next"
    and agree: "successively (programs_agree eq json) revisions" and hashed: "list_all (hashed sha) revisions"
  shows "\<exists>h. read_history_records bs document_bin budget False = Inr h \<and> ph_schema h = HISTORY_SCHEMA \<and>
    ph_cursor h = cursor \<and> ph_next_revision_id h = next \<and>
    records_match sha json document_bin (ph_chunks h) cursor 0 revisions (ph_records h)"
proof -
  have b: "hb_items budget < 2 ^ 32" using items by (simp add: MAX_COLLECTION_ITEMS_def)
  let ?s0 = "\<lambda>t. \<lparr>es_table = t, es_records = [], es_assembled = 0, es_programs = [], es_program_bytes = 0,
    es_items = length revisions\<rparr>"
  let ?u0 = "\<lparr>rs_assembled = 0, rs_programs = [], rs_program_bytes = 0, rs_previous_id = None, rs_previous_program = None,
    rs_checkpoint_names = [], rs_records = []\<rparr>"
  from enc obtain t s where e: "revisions \<noteq> []" "length revisions \<le> FILE_HISTORY_REVISIONS" "cursor < length revisions"
    "try_fold add_document_chunk \<lparr>ct_numbers = [], ct_bytes = []\<rparr> (chunks sha document_bin) = Inr t"
    "encode_revisions sha json eq budget cursor 0 None revisions (?s0 t) = Inr s"
    "es_items s + length (ct_numbers (es_table s)) \<le> hb_items budget"
    "cursor < 2 ^ 32" "length (ct_numbers (es_table s)) < 2 ^ 32"
    "bs = HISTORY_MAGIC @ push_u16 HISTORY_SCHEMA @ push_u32 (of_nat (length revisions)) @ push_u32 (of_nat cursor) @
      push_u64 next @ push_u32 (of_nat (length (ct_numbers (es_table s)))) @ ct_bytes (es_table s) @ es_records s"
    by (auto simp: encode_history_def result_simps count_items_Inr [OF b] u32_count_def split: if_splits)
  from add_document_chunks [OF e(4) table_empty subset_refl] S(1) obtain cs0 where
    c0: "table_holds sha document_bin t cs0" "set cs0 \<subseteq> S" by (auto simp: contents_def)
  have link: "linked sha json budget S {} None (?s0 t) ?u0" by (simp add: linked_def program_read_def)
  have c1: "table_holds sha document_bin (es_table (?s0 t)) cs0" using c0(1) by simp
  have names: "list_all (\<lambda>q. checkpoint_names q \<inter> set (rs_checkpoint_names ?u0) = {}) revisions" by (simp add: list_all_iff)
  from revisions_read [OF e(5) link c1 c0(2) inj S(2) sha items ok(1) _ names _ hashed] agree
  obtain p i st cs u rcs where q: "es_records s = es_records (?s0 t) @ p" "es_items s = es_items (?s0 t) + i"
    and p: "st \<le> i" "reads (read_history_loop budget HISTORY_SCHEMA document_bin cursor (\<lambda>_. True) 0 (length revisions) ?u0) p i st u"
    "table_holds sha document_bin (es_table s) cs"
    and v: "rs_previous_id u = (if revisions = [] then map_option hr_id (None :: 'a history_revision option) else Some (hr_id (last revisions)))"
    "rs_records u = rs_records ?u0 @ rcs" and m: "records_match sha json document_bin cs cursor 0 revisions rcs"
    by auto
  obtain ps where ps: "ct_bytes (es_table s) = concat ps" "length (ct_numbers (es_table s)) = length cs"
    "list_all2 (\<lambda>p c. reads (read_history_chunk document_bin) p 0 0 c) ps cs"
    using p(3) by (auto simp: table_holds_def)
  have table: "reads (read_many (length cs) (read_history_chunk document_bin)) (concat ps) 0 0 cs" by (rule reads_many [OF ps(3)])
  have "read_history_records bs document_bin budget False = Inr \<lparr>ph_schema = HISTORY_SCHEMA, ph_cursor = cursor,
      ph_next_revision_id = next, ph_chunks = cs, ph_records = rs_records u\<rparr>"
    using e q ps(1,2) p(1) v(1) items b len
    by (intro history_layout [OF _ len _ e(2,3) _ table p(2) _ b _ _ ok(2)]) (auto simp: MAX_STRING_BYTES_def MAX_COLLECTION_ITEMS_def)
  with m v(2) show ?thesis by simp
qed



section \<open>What a reader accepts\<close>

definition record_ok_at :: "nat \<Rightarrow> history_record \<Rightarrow> bool" where
  "record_ok_at index rc \<longleftrightarrow> batch_digest_ok (rc_batch_digest rc) \<and> origin_ok index (rc_revision_id rc) (rc_origin rc) \<and>
     (case rc_checkpoint rc of None \<Rightarrow> True | Some name \<Rightarrow> checkpoint_name_ok name)"

definition record_names :: "history_record list \<Rightarrow> str list" where
  "record_names rcs = concat (map (\<lambda>rc. case rc_checkpoint rc of None \<Rightarrow> [] | Some name \<Rightarrow> [name]) rcs)"

text \<open>The state of a reader that keeps every record, after those in \<open>rcs\<close>.\<close>

definition reader_state_ok :: "read_state \<Rightarrow> bool" where
  "reader_state_ok s \<longleftrightarrow>
     sorted_wrt (<) (map rc_revision_id (rs_records s)) \<and>
     (\<forall>i < length (rs_records s). record_ok_at i (rs_records s ! i)) \<and>
     rs_previous_id s = (if rs_records s = [] then None else Some (rc_revision_id (last (rs_records s)))) \<and>
     distinct (record_names (rs_records s)) \<and> set (rs_checkpoint_names s) = set (record_names (rs_records s))"

lemma count_program_fields:
  "count_program budget keep q s = Inr s' \<Longrightarrow>
     rs_records s' = rs_records s \<and> rs_previous_id s' = rs_previous_id s \<and> rs_checkpoint_names s' = rs_checkpoint_names s"
  by (auto simp: count_program_def result_simps split: option.splits history_program.splits if_splits)

lemma read_record_ok:
  assumes "reader_state_ok s" and "length (rs_records s) = index"
    and "read_history_record budget schema doc cursor (\<lambda>_. True) index s r = Inr (s', r')"
  shows "reader_state_ok s' \<and> length (rs_records s') = index + 1"
proof -
  from assms(3) obtain rid digest origin checkpoint q s1 sn a where
    c: "case rs_previous_id s of None \<Rightarrow> True | Some previous \<Rightarrow> \<not> rid \<le> previous" "batch_digest_ok digest"
      "count_program budget True q (s \<lparr>rs_previous_program := q\<rparr>) = Inr s1" "origin_ok index rid origin"
      "case checkpoint of None \<Rightarrow> True | Some name \<Rightarrow> checkpoint_name_ok name \<and> name \<notin> set (rs_checkpoint_names s1)"
    and s': "s' = s1 \<lparr>rs_checkpoint_names := (case checkpoint of None \<Rightarrow> rs_checkpoint_names s1
          | Some name \<Rightarrow> bs_insert name (rs_checkpoint_names s1)), rs_previous_id := Some rid, rs_assembled := a,
        rs_records := rs_records s1 @ [\<lparr>rc_revision_id = rid, rc_batch_digest = digest, rc_origin = origin,
          rc_checkpoint = checkpoint, rc_rule_program = q, rc_encoded_snapshot = sn\<rparr>]\<rparr>"
    unfolding read_history_record_def by (auto simp: result_simps Let_def)
  note f = count_program_fields [OF c(3), simplified]
  have "list_all (\<lambda>x. rc_revision_id x < rid) (rs_records s)"
  proof (cases "rs_records s = []")
    case False
    then have last: "rc_revision_id (last (rs_records s)) < rid"
      using c(1) assms(1) by (simp add: reader_state_ok_def not_le)
    have "sorted_wrt (<) (map rc_revision_id (butlast (rs_records s) @ [last (rs_records s)]))"
      using assms(1) False by (simp add: reader_state_ok_def)
    then have "\<forall>x\<in>set (butlast (rs_records s)). rc_revision_id x < rc_revision_id (last (rs_records s))"
      by (simp add: sorted_wrt_append)
    with last have "\<forall>x\<in>set (butlast (rs_records s) @ [last (rs_records s)]). rc_revision_id x < rid" by (auto intro: less_trans)
    then show ?thesis using False by (simp add: list_all_iff)
  qed simp
  moreover have "record_names (rs_records s @ [x]) = record_names (rs_records s) @
      (case rc_checkpoint x of None \<Rightarrow> [] | Some name \<Rightarrow> [name])" for x by (simp add: record_names_def)
  ultimately show ?thesis
    using assms(1,2) c f unfolding s' reader_state_ok_def
    by (auto simp: sorted_wrt_append list_all_iff nth_append record_ok_at_def less_Suc_eq split: option.splits)
qed

lemma read_loop_ok:
  "read_history_loop budget schema doc cursor (\<lambda>_. True) index n s r = Inr (s', r') \<Longrightarrow>
   reader_state_ok s \<Longrightarrow> length (rs_records s) = index \<Longrightarrow>
   reader_state_ok s' \<and> length (rs_records s') = index + n"
proof (induction n arbitrary: index s r)
  case (Suc n)
  then obtain s1 r1 where a: "read_history_record budget schema doc cursor (\<lambda>_. True) index s r = Inr (s1, r1)"
    "read_history_loop budget schema doc cursor (\<lambda>_. True) (index + 1) n s1 r1 = Inr (s', r')"
    by (auto simp: result_simps)
  from read_record_ok [OF Suc.prems(2,3) a(1)] Suc.IH [OF a(2)] show ?case by simp
qed auto

lemma reader_sound:
  assumes "read_history_records bs doc budget False = Inr h"
  shows "ph_records h \<noteq> [] \<and> length (ph_records h) \<le> FILE_HISTORY_REVISIONS \<and> ph_cursor h < length (ph_records h) \<and>
    sorted_wrt (<) (map rc_revision_id (ph_records h) @ [ph_next_revision_id h]) \<and>
    (\<forall>i < length (ph_records h). record_ok_at i (ph_records h ! i)) \<and> distinct (record_names (ph_records h))"
proof -
  let ?u0 = "\<lparr>rs_assembled = 0, rs_programs = [], rs_program_bytes = 0, rs_previous_id = None, rs_previous_program = None,
    rs_checkpoint_names = [], rs_records = []\<rparr>"
  from assms obtain r0 n r1 schema r2 s r3 nx ck and cursor :: u32 where c: "count_with_limit FILE_HISTORY_REVISIONS r0 = Inr (n, r1)"
    "n \<noteq> 0" "unat cursor < n"
    "read_history_loop budget schema doc (unat cursor) (\<lambda>_. True) 0 n ?u0 r2 = Inr (s, r3)"
    "case rs_previous_id s of None \<Rightarrow> False | Some i \<Rightarrow> \<not> nx \<le> i"
    "h = \<lparr>ph_schema = schema, ph_cursor = unat cursor, ph_next_revision_id = nx, ph_chunks = ck, ph_records = rs_records s\<rparr>"
    unfolding read_history_records_def by (auto simp: result_simps Let_def not_le)
  have limit: "n \<le> FILE_HISTORY_REVISIONS" using c(1) by (auto simp: count_with_limit_def result_simps not_less)
  have "reader_state_ok ?u0" by (simp add: reader_state_ok_def record_names_def)
  from read_loop_ok [OF c(4) this] have s: "reader_state_ok s" "length (rs_records s) = n" by auto
  then have "rs_records s \<noteq> []" using c(2) by auto
  then have nx: "rc_revision_id (last (rs_records s)) < nx"
    using s(1) c(5) by (simp add: reader_state_ok_def not_le)
  have "sorted_wrt (<) (map rc_revision_id (butlast (rs_records s) @ [last (rs_records s)]))"
    using s(1) \<open>rs_records s \<noteq> []\<close> by (simp add: reader_state_ok_def)
  with nx have "\<forall>x\<in>set (butlast (rs_records s) @ [last (rs_records s)]). rc_revision_id x < nx"
    by (auto simp: sorted_wrt_append intro: less_trans)
  then have "sorted_wrt (<) (map rc_revision_id (rs_records s) @ [nx])"
    using s(1) \<open>rs_records s \<noteq> []\<close> by (auto simp: sorted_wrt_append reader_state_ok_def)
  with s c limit \<open>rs_records s \<noteq> []\<close> show ?thesis by (simp add: reader_state_ok_def)
qed



section \<open>Properties\<close>

text \<open>The contents cut one after the other, as a reference for \<open>chunks\<close>.\<close>

function cut :: "bytes \<Rightarrow> bytes list" where
  "cut bs = (if bs = [] then [] else take (boundary bs) bs # cut (drop (boundary bs) bs))"
  by pat_completeness auto
termination
  by (relation "measure length") (use boundary_bounds in \<open>auto simp: Suc_le_eq\<close>)

declare cut.simps [simp del]

lemma chunks_from_cut: "map (chunk_range bs) (chunks_from sha bs start) = cut (drop start bs)"
proof (induction sha bs start rule: chunks_from.induct)
  case (1 sha bs start)
  show ?case
  proof (cases "start < length bs")
    case True
    have "map (chunk_range bs) (chunks_from sha bs (start + boundary (drop start bs))) =
        cut (drop (boundary (drop start bs)) (drop start bs))"
      using 1 True by (simp add: add.commute)
    then show ?thesis
      using True by (subst chunks_from.simps, subst cut.simps) (simp add: Let_def chunk_range_def)
  next
    case False
    then show ?thesis by (subst chunks_from.simps, subst cut.simps) simp
  qed
qed

text \<open>
  Chunks partition the bytes.  Their ranges, put together, are the bytes; each carries the hash of its
  range, has at most 64 KiB and, unless it ends the bytes, more than 2 KiB.  Their contents are cut one after the other,
  so that what follows a boundary is cut as if nothing preceded it.
\<close>

theorem chunks_partition:
  "concat (map (chunk_range bs) (chunks sha bs)) = bs \<and> map (chunk_range bs) (chunks sha bs) = cut bs \<and>
   list_all (\<lambda>c. ck_start c < ck_end c \<and> ck_end c \<le> length bs \<and> ck_end c - ck_start c \<le> MAX_CHUNK \<and>
     (MIN_CHUNK < ck_end c - ck_start c \<or> ck_end c = length bs) \<and> ck_sha256 c = sha (chunk_range bs c)) (chunks sha bs)"
proof -
  have "ck_start c < ck_end c \<and> ck_end c \<le> length bs \<and> ck_end c - ck_start c \<le> MAX_CHUNK \<and>
     (MIN_CHUNK < ck_end c - ck_start c \<or> ck_end c = length bs) \<and> ck_sha256 c = sha (chunk_range bs c)"
    if "c \<in> set (chunks sha bs)" for c
    using chunks_from_bounds [OF that [unfolded chunks_def]] by (auto simp: le_less)
  then show ?thesis
    using chunks_cover [of bs sha] chunks_from_cut [of bs sha 0] by (simp add: chunks_def list_all_iff)
qed

text \<open>
  A history that is written is read back.  If the revisions are in the order and form a store keeps,
  their number, chunks and texts were counted within the budget by the writer, the hash tells the written
  contents apart, and programs of successive revisions that compare equal encode alike, then the reader
  accepts the bytes and returns the cursor, the next id and for each revision a record with its
  fields; the chunks it names assemble to the snapshot and to the program of the revision, and the
  current revision names the document itself.
\<close>

theorem written_history_reopens:
  assumes "encode_history sha json eq revisions cursor next document_bin budget = Inr bs" and "length bs < 2 ^ 64"
    and no_collision: "inj_on sha (contents sha document_bin \<union> \<Union> (revision_contents sha json ` set revisions))"
    and sha_32: "\<And>b. length (sha b) = 32" and "hb_items budget \<le> MAX_COLLECTION_ITEMS"
    and "revisions_ok 0 revisions" and "hr_id (last revisions) < next"
    and "successively (programs_agree eq json) revisions" and "list_all (hashed sha) revisions"
  shows "\<exists>h. read_history_records bs document_bin budget False = Inr h \<and> ph_schema h = HISTORY_SCHEMA \<and>
    ph_cursor h = cursor \<and> ph_next_revision_id h = next \<and>
    records_match sha json document_bin (ph_chunks h) cursor 0 revisions (ph_records h)"
  by (rule written_history_reads [OF assms(1,2) no_collision _ _ sha_32 assms(5-9)]) auto

definition demo_pad :: "bytes \<Rightarrow> bytes" where
  "demo_pad bs = take 32 (bs @ replicate 32 0)"

definition demo_revisions :: "bytes history_revision list" where
  "demo_revisions =
     [\<lparr>hr_id = 1, hr_batch_digest = [], hr_origin = Initial, hr_checkpoint = None, hr_program = None, hr_encoded = [8],
       hr_sha256 = demo_pad [8]\<rparr>,
      \<lparr>hr_id = 2, hr_batch_digest = ''0123456789abcdef'', hr_origin = Principal LocalAssistant, hr_checkpoint = Some ''v1'',
       hr_program = Some [5], hr_encoded = [7], hr_sha256 = demo_pad [7]\<rparr>]"

lemma small_chunks:
  assumes "bs \<noteq> []" and "length bs \<le> MIN_CHUNK"
  shows "chunks sha bs = [\<lparr>ck_start = 0, ck_end = length bs, ck_sha256 = sha bs\<rparr>]"
proof -
  have "boundary bs = length bs" using assms(2) by (simp add: boundary_def Let_def MIN_CHUNK_def MAX_CHUNK_def)
  moreover have "chunks_from sha bs (length bs) = []" by (subst chunks_from.simps) simp
  ultimately show ?thesis unfolding chunks_def using assms(1) by (subst chunks_from.simps) simp
qed

lemma demo_encodes: "\<exists>bs. encode_history demo_pad Inr (=) demo_revisions 1 3 [7] HISTORY_BUDGET = Inr bs \<and> length bs < 2 ^ 64"
proof -
  have c: "chunks demo_pad [x] = [\<lparr>ck_start = 0, ck_end = 1, ck_sha256 = demo_pad [x]\<rparr>]" for x
    using small_chunks [of "[x]" demo_pad] by (simp add: MIN_CHUNK_def)
  have d: "demo_pad [x] = x # replicate 31 0" for x by (simp add: demo_pad_def)
  have r: "chunk_range [x] \<lparr>ck_start = 0, ck_end = 1, ck_sha256 = s\<rparr> = [x]" for x s by (simp add: chunk_range_def)
  show ?thesis
    by (simp add: encode_history_def demo_revisions_def c d r add_document_chunk_def bt_contains_def u32_count_def
      FILE_HISTORY_REVISIONS_def encode_revision_def write_revision_header_def push_string_def count_items_def saturating_add_def
      HISTORY_BUDGET_def MAX_COLLECTION_ITEMS_def encode_program_part_def encoded_program_def encode_snapshot_part_def
      check_assembled_def table_write_def u64_len_def write_chunk_def Let_def same_program_def MAX_RULE_PROGRAM_BYTES_def
      chunk_range_def write_revision_origin_def write_revision_principal_def result_simps)
qed


lemma demo_contents:
  "contents demo_pad [7] \<union> \<Union> (revision_contents demo_pad Inr ` set demo_revisions) = {[5], [7], [8]}"
proof -
  have "chunks demo_pad [x] = [\<lparr>ck_start = 0, ck_end = 1, ck_sha256 = demo_pad [x]\<rparr>]" for x
    using small_chunks [of "[x]" demo_pad] by (simp add: MIN_CHUNK_def)
  then have "contents demo_pad [x] = {[x]}" for x by (simp add: contents_def chunk_range_def)
  then show ?thesis by (auto simp: revision_contents_def demo_revisions_def)
qed

lemma demo_pad_inj: "inj_on demo_pad {[5], [7], [8]}"
  by (simp add: demo_pad_def)

lemma demo_pad_32: "length (demo_pad b) = 32"
  by (simp add: demo_pad_def)

lemma demo_name: "checkpoint_name_ok ''v1''"
  by (simp add: checkpoint_name_ok_def is_trimmed_def any_control_def str_chars_def is_control_def is_whitespace_def)

lemma demo_revisions_ok:
  "revisions_ok 0 demo_revisions" "hr_id (last demo_revisions) < 3" "successively (programs_agree (=) Inr) demo_revisions" "list_all (hashed demo_pad) demo_revisions"
proof -
  show "revisions_ok 0 demo_revisions" "hr_id (last demo_revisions) < 3"
    "successively (programs_agree (=) Inr) demo_revisions" "list_all (hashed demo_pad) demo_revisions"
    by (simp_all add: programs_agree_def demo_revisions_def revision_ok_at_def checkpoint_names_def batch_digest_ok_def is_digit_def origin_ok_def
      valid_utf8_def demo_name hashed_def)
qed

theorem written_history_reopens_witness:
  "\<exists>bs h. encode_history demo_pad Inr (=) demo_revisions 1 3 [7] HISTORY_BUDGET = Inr bs \<and>
     read_history_records bs [7] HISTORY_BUDGET False = Inr h \<and> ph_cursor h = 1 \<and> ph_next_revision_id h = 3 \<and>
     records_match demo_pad Inr [7] (ph_chunks h) 1 0 demo_revisions (ph_records h)"
proof -
  obtain bs where bs: "encode_history demo_pad Inr (=) demo_revisions 1 3 [7] HISTORY_BUDGET = Inr bs" "length bs < 2 ^ 64"
    using demo_encodes by blast
  have "hb_items HISTORY_BUDGET \<le> MAX_COLLECTION_ITEMS" by (simp add: HISTORY_BUDGET_def)
  from written_history_reopens [OF bs _ demo_pad_32 this demo_revisions_ok] bs(1) show ?thesis
    unfolding demo_contents using demo_pad_inj by blast
qed

text \<open>
  C36.  What the reader of the history accepts is well formed, whatever bytes it is given.  There is at least one record and no more
  than the file may hold, the cursor is one of them, the revision ids increase and the next id is above
  them, no two records carry the same checkpoint name, and each record has a digest, an origin and a name of the forms a
  store writes.
\<close>

theorem history_reader_sound:
  assumes "read_history_records bs document_bin budget False = Inr h"
  shows "ph_records h \<noteq> [] \<and> length (ph_records h) \<le> FILE_HISTORY_REVISIONS \<and> ph_cursor h < length (ph_records h) \<and>
    sorted_wrt (<) (map rc_revision_id (ph_records h) @ [ph_next_revision_id h]) \<and> distinct (record_names (ph_records h)) \<and>
    list_all (\<lambda>(i, rc). record_ok_at i rc) (enumerate 0 (ph_records h))"
  using reader_sound [OF assms] by (auto simp: list_all_iff in_set_enumerate_eq)

theorem history_reader_sound_witness:
  "\<exists>bs h. read_history_records bs [7] HISTORY_BUDGET False = Inr h \<and> ph_records h \<noteq> [] \<and>
     sorted_wrt (<) (map rc_revision_id (ph_records h) @ [ph_next_revision_id h]) \<and>
     list_all (\<lambda>(i, rc). record_ok_at i rc) (enumerate 0 (ph_records h))"
proof -
  obtain bs where bs: "encode_history demo_pad Inr (=) demo_revisions 1 3 [7] HISTORY_BUDGET = Inr bs" "length bs < 2 ^ 64"
    using demo_encodes by blast
  have "hb_items HISTORY_BUDGET \<le> MAX_COLLECTION_ITEMS" by (simp add: HISTORY_BUDGET_def)
  with written_history_reads [OF bs _ _ _ demo_pad_32 this demo_revisions_ok, of "{[5], [7], [8]}"] demo_contents demo_pad_inj
  obtain h where "read_history_records bs [7] HISTORY_BUDGET False = Inr h" by auto
  with history_reader_sound [OF this] show ?thesis by blast
qed


end
