(* ===== verification/Ketchup_Save.thy ===== *)
theory Ketchup_Save
  imports Ketchup_Approval Ketchup_Reopen
begin

text \<open>
  Saving a document store and what opening reads of it (\<^verbatim>\<open>persistence.rs\<close>): the files \<^verbatim>\<open>save_document_store\<close>
  and \<^verbatim>\<open>save_document_store_current_snapshot\<close> write, and the current revision's checkpoint and program
  read from a history alone.  A store a session reaches keeps its revisions in the form the history
  reader asks for; what it saved is read back.  The encoding of a snapshot, the blobs a snapshot
  names and the JSON of programs are arguments.
\<close>

section \<open>Saving\<close>

definition store_revision :: "(bytes \<Rightarrow> bytes) \<Rightarrow> ('r snapshot \<Rightarrow> bytes) \<Rightarrow> ('r, 'f) revision \<Rightarrow> rule_program_source history_revision" where
  "store_revision sha enc r =
     \<lparr>hr_id = rv_id r, hr_batch_digest = rv_batch_digest r, hr_origin = rv_origin r, hr_checkpoint = rv_checkpoint r,
      hr_program = map_option bp_source (rv_rule_program r), hr_encoded = enc (rv_snapshot r),
      hr_sha256 = sha (enc (rv_snapshot r))\<rparr>"

definition encode_revision_history ::
  "(bytes \<Rightarrow> bytes) \<Rightarrow> (rule_program_source \<Rightarrow> persistence_error + bytes) \<Rightarrow> ('r snapshot \<Rightarrow> bytes) \<Rightarrow>
   ('r, 'f) document_store \<Rightarrow> bytes \<Rightarrow> persistence_error + bytes" where
  "encode_revision_history sha json enc document document_bin =
     encode_history sha json rule_program_eq (map (store_revision sha enc) (ds_revisions document)) (ds_cursor document)
       (ds_next_revision_id document) document_bin HISTORY_BUDGET"

definition history_imported_sources :: "('r snapshot \<Rightarrow> str list) \<Rightarrow> ('r, 'f) document_store \<Rightarrow> str list" where
  "history_imported_sources imported document =
     fold (\<lambda>r sources. fold bs_insert (imported (rv_snapshot r)) sources) (ds_revisions document) []"

definition save_container ::
  "(bytes \<Rightarrow> bytes) \<Rightarrow> ('r snapshot \<Rightarrow> bytes) \<Rightarrow> ('r snapshot \<Rightarrow> str list) \<Rightarrow> 'r snapshot \<Rightarrow> container_data \<Rightarrow>
   persistence_error + bytes" where
  "save_container sha enc imported snapshot d = save_container_entries sha (enc snapshot) d (imported snapshot) None None"

definition save_document_store ::
  "(bytes \<Rightarrow> bytes) \<Rightarrow> (rule_program_source \<Rightarrow> persistence_error + bytes) \<Rightarrow> ('r snapshot \<Rightarrow> bytes) \<Rightarrow>
   ('r snapshot \<Rightarrow> str list) \<Rightarrow> ('r, 'f) document_store \<Rightarrow> container_data \<Rightarrow> persistence_error + bytes" where
  "save_document_store sha json enc imported document d =
     (let document_bin = enc (current document) in
      and_then (encode_revision_history sha json enc document document_bin) (\<lambda>history.
      and_then (encoded_program json (current_rule_program document)) (\<lambda>program.
      save_container_entries sha document_bin d (history_imported_sources imported document) (Some history) program)))"

definition current_checkpoint_history ::
  "(bytes \<Rightarrow> bytes) \<Rightarrow> (rule_program_source \<Rightarrow> persistence_error + bytes) \<Rightarrow> ('r snapshot \<Rightarrow> bytes) \<Rightarrow>
   ('r, 'f) document_store \<Rightarrow> bytes \<Rightarrow> persistence_error + bytes option" where
  "current_checkpoint_history sha json enc document document_bin =
     (if rv_checkpoint (current_revision document) = None then Ok None
      else
        and_then (encode_history sha json rule_program_eq [store_revision sha enc (current_revision document)] 0
          (ds_next_revision_id document) document_bin HISTORY_BUDGET) (\<lambda>history. Ok (Some history)))"

definition save_document_store_current_snapshot ::
  "(bytes \<Rightarrow> bytes) \<Rightarrow> (rule_program_source \<Rightarrow> persistence_error + bytes) \<Rightarrow> ('r snapshot \<Rightarrow> bytes) \<Rightarrow>
   ('r snapshot \<Rightarrow> str list) \<Rightarrow> ('r, 'f) document_store \<Rightarrow> container_data \<Rightarrow> persistence_error + bytes" where
  "save_document_store_current_snapshot sha json enc imported document d =
     (let document_bin = enc (current document) in
      and_then (current_checkpoint_history sha json enc document document_bin) (\<lambda>history.
      and_then (encoded_program json (current_rule_program document)) (\<lambda>program.
      save_container_entries sha document_bin d (imported (current document)) history program)))"

section \<open>Opening\<close>

definition history_revision_count :: "bytes \<Rightarrow> nat option" where
  "history_revision_count bs =
     (case and_then (take_bytes (length HISTORY_MAGIC) (with_item_budget bs (hb_items HISTORY_BUDGET))) (\<lambda>(magic, r).
        and_then (guard (magic = HISTORY_MAGIC) InvalidHistoryMagic) (\<lambda>_.
        and_then (read_u16 r) (\<lambda>(_, r).
        count_with_limit FILE_HISTORY_REVISIONS r))) of Inr (n, _) \<Rightarrow> Some n | Inl _ \<Rightarrow> None)"

definition current_history_program ::
  "(bytes \<Rightarrow> bytes) \<Rightarrow> (bytes \<Rightarrow> persistence_error + 'p) \<Rightarrow> bytes \<Rightarrow> bytes \<Rightarrow> u64 \<Rightarrow>
   persistence_error + (persistence_error + 'p option)" where
  "current_history_program sha decode bs document_bytes expected_revision_id =
     and_then (read_history_records bs document_bytes HISTORY_BUDGET True) (\<lambda>h.
     let current_record = ph_records h ! ph_cursor h in
     and_then (guard (rc_revision_id current_record = expected_revision_id) InvalidRevisionHistory) (\<lambda>_.
     Ok (case rc_rule_program current_record of None \<Rightarrow> Ok None
         | Some program \<Rightarrow>
             and_then (assemble_program sha (ph_chunks h) program) (\<lambda>bs. and_then (decode bs) (\<lambda>p. Ok (Some p))))))"

definition current_history_checkpoint :: "bytes \<Rightarrow> bytes \<Rightarrow> u64 \<Rightarrow> str option" where
  "current_history_checkpoint bs document_bytes expected_revision_id =
     (case read_history_records bs document_bytes HISTORY_BUDGET True of
        Inl _ \<Rightarrow> None
      | Inr h \<Rightarrow>
          if ph_cursor h < length (ph_records h) \<and> rc_revision_id (ph_records h ! ph_cursor h) = expected_revision_id
          then rc_checkpoint (ph_records h ! ph_cursor h) else None)"

section \<open>Reading the current revision alone\<close>

text \<open>
  A reader that keeps only the current record and one that keeps all of them, after the same
  \<open>index\<close> records.
\<close>

definition narrowed :: "history_budget \<Rightarrow> nat \<Rightarrow> nat \<Rightarrow> read_state \<Rightarrow> read_state \<Rightarrow> bool" where
  "narrowed budget cursor index s t \<longleftrightarrow>
     rs_previous_id t = rs_previous_id s \<and> rs_previous_program t = rs_previous_program s \<and>
     rs_checkpoint_names t = rs_checkpoint_names s \<and> length (rs_records s) = index \<and>
     (if index \<le> cursor then rs_assembled t = 0 \<and> rs_programs t = [] \<and> rs_program_bytes t = 0 \<and> rs_records t = []
      else rs_records t = [rs_records s ! cursor]) \<and>
     rs_program_bytes s \<le> hb_programs budget \<and>
     (\<forall>(n, _) \<in> set (rs_programs s). saturating_add 0 n \<le> hb_programs budget)"

lemma saturating_mono: "saturating_add a b \<le> c \<Longrightarrow> saturating_add 0 b \<le> c"
  by (auto simp: saturating_add_def min_def split: if_splits)

lemma narrowed_count:
  assumes n: "narrowed budget cursor index s t" and c: "count_program budget True q (s \<lparr>rs_previous_program := q\<rparr>) = Inr s'"
  shows "\<exists>t'. count_program budget (index = cursor) q (t \<lparr>rs_previous_program := q\<rparr>) = Inr t' \<and>
    rs_previous_id t' = rs_previous_id s' \<and> rs_previous_program t' = rs_previous_program s' \<and>
    rs_checkpoint_names t' = rs_checkpoint_names s' \<and> rs_records t' = rs_records t \<and> rs_records s' = rs_records s \<and>
    rs_assembled t' = rs_assembled t \<and> (index < cursor \<longrightarrow> rs_programs t' = [] \<and> rs_program_bytes t' = 0) \<and>
    rs_program_bytes s' \<le> hb_programs budget \<and>
    (\<forall>(n, _) \<in> set (rs_programs s'). saturating_add 0 n \<le> hb_programs budget)"
proof (cases q)
  case None
  with n c show ?thesis by (auto simp: count_program_def narrowed_def split: if_splits)
next
  case (Some p)
  show ?thesis
  proof (cases p)
    case (ProgramInline x)
    with Some n c show ?thesis by (auto simp: count_program_def narrowed_def split: if_splits)
  next
    case (ProgramChunks m k xs)
    with Some n c have "saturating_add 0 m \<le> hb_programs budget"
      by (auto simp: count_program_def narrowed_def check_assembled_Inr result_simps split: if_splits intro: saturating_mono)
    with ProgramChunks Some n c show ?thesis
      by (auto simp: count_program_def narrowed_def check_assembled_def Let_def result_simps split: if_splits
          intro: saturating_mono)
  qed
qed

lemma narrowed_record:
  assumes n: "narrowed budget cursor index s t"
    and r: "read_history_record budget schema doc cursor (\<lambda>_. True) index s r = Inr (s', r')"
  shows "\<exists>t'. read_history_record budget schema doc cursor (\<lambda>i. i = cursor) index t r = Inr (t', r') \<and>
    narrowed budget cursor (index + 1) s' t'"
proof -
  from r obtain rid r1 digest r2 origin checkpoint r3 program r4 s1 snapshot assembled where
    c: "read_u64 r = Inr (rid, r1)" "case rs_previous_id s of None \<Rightarrow> True | Some previous \<Rightarrow> \<not> rid \<le> previous"
    "read_string r1 = Inr (digest, r2)" "batch_digest_ok digest"
    "read_history_fields schema index r2 = Inr ((origin, checkpoint), r3)"
    "read_history_program schema (rs_previous_program s) r3 = Inr (program, r4)"
    "count_program budget True program (s \<lparr>rs_previous_program := program\<rparr>) = Inr s1"
    "origin_ok index rid origin"
    "case checkpoint of None \<Rightarrow> True | Some name \<Rightarrow> checkpoint_name_ok name \<and> name \<notin> set (rs_checkpoint_names s1)"
    "read_history_snapshot schema (if index = cursor then Some doc else None) r4 = Inr (snapshot, r')"
    "check_assembled HISTORY_REVISIONS_ENTRY (rs_assembled s1) (assembled_len snapshot) (hb_snapshots budget) = Inr assembled"
    and s': "s' = s1 \<lparr>rs_checkpoint_names := (case checkpoint of None \<Rightarrow> rs_checkpoint_names s1
        | Some name \<Rightarrow> bs_insert name (rs_checkpoint_names s1)), rs_previous_id := Some rid, rs_assembled := assembled,
      rs_records := rs_records s1 @ [\<lparr>rc_revision_id = rid, rc_batch_digest = digest, rc_origin = origin,
        rc_checkpoint = checkpoint, rc_rule_program = program, rc_encoded_snapshot = snapshot\<rparr>]\<rparr>"
    by (auto simp: read_history_record_def Let_def result_simps)
  from narrowed_count [OF n c(7)] obtain t1 where t1: "count_program budget (index = cursor) program (t \<lparr>rs_previous_program := program\<rparr>) = Inr t1"
    "rs_previous_id t1 = rs_previous_id s1" "rs_previous_program t1 = rs_previous_program s1"
    "rs_checkpoint_names t1 = rs_checkpoint_names s1" "rs_records t1 = rs_records t" "rs_records s1 = rs_records s"
    "rs_assembled t1 = rs_assembled t" "index < cursor \<Longrightarrow> rs_programs t1 = [] \<and> rs_program_bytes t1 = 0"
    "rs_program_bytes s1 \<le> hb_programs budget" "\<forall>(n, _) \<in> set (rs_programs s1). saturating_add 0 n \<le> hb_programs budget"
    by blast
  have same: "rs_previous_id t = rs_previous_id s" "rs_previous_program t = rs_previous_program s"
    "length (rs_records s) = index" "index = cursor \<Longrightarrow> rs_assembled t = 0"
    using n by (auto simp: narrowed_def)
  have "\<exists>a. check_assembled HISTORY_REVISIONS_ENTRY (rs_assembled t1) (assembled_len snapshot) (hb_snapshots budget) = Inr a"
    if "index = cursor"
    using c(11) that same(4) t1(7) by (auto simp: check_assembled_Inr intro: saturating_mono)
  then show ?thesis
    using n c t1 same
    by (cases "index = cursor"; cases checkpoint)
      (auto simp: read_history_record_def Let_def result_simps s' narrowed_def nth_append split: if_splits)
qed

lemma narrowed_loop:
  "read_history_loop budget schema doc cursor (\<lambda>_. True) index n s r = Inr (s', r') \<Longrightarrow>
   narrowed budget cursor index s t \<Longrightarrow>
   \<exists>t'. read_history_loop budget schema doc cursor (\<lambda>i. i = cursor) index n t r = Inr (t', r') \<and>
     narrowed budget cursor (index + n) s' t'"
proof (induction n arbitrary: index s t r)
  case (Suc n)
  then obtain s1 r1 where a: "read_history_record budget schema doc cursor (\<lambda>_. True) index s r = Inr (s1, r1)"
    "read_history_loop budget schema doc cursor (\<lambda>_. True) (index + 1) n s1 r1 = Inr (s', r')"
    by (auto simp: result_simps)
  from narrowed_record [OF Suc.prems(2) a(1)] obtain t1 where
    t1: "read_history_record budget schema doc cursor (\<lambda>i. i = cursor) index t r = Inr (t1, r1)" "narrowed budget cursor (index + 1) s1 t1"
    by blast
  from Suc.IH [OF a(2) t1(2)] t1(1) show ?case by (auto simp: result_simps)
qed auto

lemma current_only_reads:
  assumes "read_history_records bs doc budget False = Inr h"
  shows "read_history_records bs doc budget True = Inr (h \<lparr>ph_cursor := 0, ph_records := [ph_records h ! ph_cursor h]\<rparr>)"
proof -
  let ?u0 = "\<lparr>rs_assembled = 0, rs_programs = [], rs_program_bytes = 0, rs_previous_id = None, rs_previous_program = None,
    rs_checkpoint_names = [], rs_records = []\<rparr>"
  from assms obtain r0 schema r1 r2 n r3 cursor r4 nx r5 cs r6 s r7 where
    c: "take_bytes (length HISTORY_MAGIC) (with_item_budget bs (hb_items budget)) = Inr (HISTORY_MAGIC, r0)"
    "read_u16 r0 = Inr (schema, r1)" "1 \<le> schema \<and> schema \<le> HISTORY_SCHEMA"
    "count_with_limit FILE_HISTORY_REVISIONS r1 = Inr (n, r2)" "read_u32 r2 = Inr (cursor, r3)" "read_u64 r3 = Inr (nx, r4)"
    "n \<noteq> 0" "unat cursor < n"
    "(if schema \<ge> 4 then and_then (count_with_limit MAX_COLLECTION_ITEMS r4) (\<lambda>(n, r). read_many n (read_history_chunk doc) r)
      else Ok ([], r4)) = Inr (cs, r5)"
    "read_history_loop budget schema doc (unat cursor) (\<lambda>_. True) 0 n ?u0 r5 = Inr (s, r6)"
    "is_finished r6" "case rs_previous_id s of None \<Rightarrow> False | Some i \<Rightarrow> \<not> nx \<le> i"
    "h = \<lparr>ph_schema = schema, ph_cursor = unat cursor, ph_next_revision_id = nx, ph_chunks = cs, ph_records = rs_records s\<rparr>"
    unfolding read_history_records_def by (auto simp: result_simps Let_def not_le)
  have "narrowed budget (unat cursor) 0 ?u0 ?u0" by (simp add: narrowed_def)
  from narrowed_loop [OF c(10) this] obtain t where
    t: "read_history_loop budget schema doc (unat cursor) (\<lambda>i. i = unat cursor) 0 n ?u0 r5 = Inr (t, r6)"
    "narrowed budget (unat cursor) n s t" by auto
  then have "rs_previous_id t = rs_previous_id s" "rs_records t = [rs_records s ! unat cursor]"
    using c(8) by (auto simp: narrowed_def)
  with c t(1) show ?thesis
    unfolding read_history_records_def by (simp add: result_simps Let_def)
qed


section \<open>The form a store keeps its revisions in\<close>

definition revision_written :: "('r, 'f) revision \<Rightarrow> bool" where
  "revision_written r \<longleftrightarrow> batch_digest_ok (rv_batch_digest r) \<and>
     (case rv_checkpoint r of None \<Rightarrow> True | Some name \<Rightarrow> checkpoint_name_ok name \<and> valid_utf8 name)"

definition revisions_written :: "('r, 'f) revision list \<Rightarrow> bool" where
  "revisions_written rs \<longleftrightarrow> list_all revision_written rs \<and> list_all (\<lambda>r. rv_origin r \<noteq> Initial) (tl rs)"

lemma hex_digit_ok: "n < 16 \<Longrightarrow> is_digit (hex_digit n) \<or> 97 \<le> (of_char (hex_digit n) :: nat) \<and> (of_char (hex_digit n) :: nat) \<le> 102"
  by (auto simp: hex_digit_def is_digit_def)

lemma hex_ok:
  "list_all (\<lambda>c. is_digit c \<or> 97 \<le> (of_char c :: nat) \<and> (of_char c :: nat) \<le> 102) (hex_encode bs)"
  "length (hex_encode bs) = 2 * length bs"
proof (induction bs)
  case (Cons b bs)
  have "unat b div 16 < 16" "unat b mod 16 < 16" using unat_u8_less [of b] by (simp_all add: less_mult_imp_div_less)
  with hex_digit_ok Cons show
    "list_all (\<lambda>c. is_digit c \<or> 97 \<le> (of_char c :: nat) \<and> (of_char c :: nat) \<le> 102) (hex_encode (b # bs))"
    "length (hex_encode (b # bs)) = 2 * length (b # bs)"
    by (auto simp: hex_encode_def hex_byte_def)
qed (simp_all add: hex_encode_def)

lemma hex_digit_inject: "n < 16 \<Longrightarrow> m < 16 \<Longrightarrow> hex_digit n = hex_digit m \<Longrightarrow> n = m"
proof -
  assume "n < 16" "m < 16" "hex_digit n = hex_digit m"
  then have "(of_char (hex_digit n) :: nat) = of_char (hex_digit m)" by simp
  with \<open>n < 16\<close> \<open>m < 16\<close> show ?thesis by (auto simp: hex_digit_def split: if_splits)
qed

lemma hex_byte_inject: "hex_byte a = hex_byte b \<Longrightarrow> a = b"
proof -
  assume h: "hex_byte a = hex_byte b"
  have "unat x div 16 < 16" "unat x mod 16 < 16" for x :: u8 using unat_u8_less [of x] by (simp_all add: less_mult_imp_div_less)
  with h have "unat a div 16 = unat b div 16" "unat a mod 16 = unat b mod 16"
    by (auto simp: hex_byte_def intro: hex_digit_inject)
  then have "unat a = unat b" by (metis div_mult_mod_eq)
  then show ?thesis by (rule unsigned_word_eqI)
qed

lemma hex_encode_inject: "hex_encode bs = hex_encode cs \<Longrightarrow> bs = cs"
proof (induction bs arbitrary: cs)
  case Nil
  then show ?case by (cases cs) (auto simp: hex_encode_def hex_byte_def)
next
  case (Cons b bs)
  then obtain c cs' where c: "cs = c # cs'" by (cases cs) (auto simp: hex_encode_def hex_byte_def)
  with Cons.prems have "hex_byte b = hex_byte c" "hex_encode bs = hex_encode cs'"
    by (auto simp: hex_encode_def hex_byte_def)
  with Cons.IH c show ?case by (auto dest: hex_byte_inject)
qed

lemma sha256_hex_inject: "sha256_hex sha a = sha256_hex sha b \<Longrightarrow> sha a = sha b"
  by (auto simp: sha256_hex_def dest: hex_encode_inject)

lemma hex_digest_ok: "8 \<le> length bs \<Longrightarrow> batch_digest_ok (take 16 (hex_encode bs))"
  using hex_ok [of bs] by (auto simp: batch_digest_ok_def list_all_iff dest!: in_set_takeD)

lemma digests_ok:
  assumes "\<And>b. length (sha b) = 32"
  shows "batch_digest_ok (hex8 (sha b))" "batch_digest_ok (rollback_digest sha target digest)"
proof -
  show "batch_digest_ok (hex8 (sha b))"
    using hex_digest_ok [of "take 8 (sha b)"] hex_ok(2) [of "take 8 (sha b)"] assms by (simp add: hex8_def)
  show "batch_digest_ok (rollback_digest sha target digest)"
    unfolding rollback_digest_def sha256_hex_def by (rule hex_digest_ok) (simp add: assms)
qed

lemma pushed_written:
  assumes "revisions_written rs" and "revision_written r" and "rv_origin r \<noteq> Initial"
  shows "revisions_written (drop n (take (Suc c) rs @ [r]))"
proof -
  have "revisions_written (take (Suc c) rs @ [r])"
    using assms by (cases rs) (auto simp: revisions_written_def list_all_iff dest: in_set_takeD)
  moreover have "revisions_written (drop n xs)" if "revisions_written xs" for xs :: "('a, 'b) revision list"
    using that by (auto simp: revisions_written_def list_all_iff tl_drop dest: in_set_dropD)
  ultimately show ?thesis by blast
qed

lemma publish_written:
  assumes w: "revisions_written (ds_revisions s)" and p: "publish mk s = Inr (r, t)"
    and mk: "\<And>i. revision_written (mk i)" "\<And>i. rv_origin (mk i) \<noteq> Initial"
  shows "revisions_written (ds_revisions t)"
  by (rule publish_Inr [OF p]) (use pushed_written [OF w mk] in \<open>simp add: push_revisions del: drop_append\<close>)

lemma set_current_written:
  assumes "revisions_written (ds_revisions s)" and "cursor_wf s" and "revision_written r"
    and "rv_origin r = rv_origin (current_revision s)"
  shows "revisions_written (ds_revisions (set_current r s))"
proof (cases "ds_revisions s")
  case (Cons x xs)
  with assms show ?thesis
    by (cases "ds_cursor s")
      (auto simp: revisions_written_def set_current_def current_revision_def cursor_wf_def list_all_iff
        dest!: set_update_subset_insert [THEN subsetD], metis nth_mem)
qed (use assms in \<open>simp add: cursor_wf_def\<close>)

lemma reachable_written:
  assumes digest: "\<And>schema cs. batch_digest_ok (fam_batch_digest fam schema cs)" and sha: "\<And>b. length (sha b) = 32"
  shows "reachable sha json fam valid_key s \<Longrightarrow> revisions_written (ds_revisions s)"
proof (induction rule: reachable.induct)
  case (batched s batch who drawings r t)
  then obtain product evaluation features where
    "publish (batch_revision fam batch (Principal who) product evaluation features s) s = Inr (r, t)"
    by (auto simp: apply_batch_with_def result_simps)
  then show ?case
    by (rule publish_written [OF batched.IH]) (auto simp: batch_revision_def revision_written_def batch_digest_def digest)
next
  case (bound s source t)
  have c: "cursor_wf s" using reachable_store_inv [OF bound.hyps(1)] by (simp add: store_inv_def)
  then have "revision_written (current_revision s)"
    using bound.IH current_in [of s] by (auto simp: revisions_written_def list_all_iff)
  with bound c show ?case
    by (auto simp: bind_rule_program_def result_simps revision_written_def intro!: set_current_written)
next
  case (reprogrammed s source t)
  show ?case
  proof (cases "case current_rule_program s of None \<Rightarrow> False | Some p \<Rightarrow> rule_program_eq p source")
    case True
    with reprogrammed show ?thesis by (simp add: replace_rule_program_source_def result_simps)
  next
    case False
    with reprogrammed.hyps(2) obtain mk r where p: "publish mk s = Inr (r, t)"
      and mk: "\<And>i. rv_batch_digest (mk i) = hex8 (bp_digest (bound_program_new sha json source))"
      "\<And>i. rv_origin (mk i) = Principal ManualClient" "\<And>i. rv_checkpoint (mk i) = None"
      by (fastforce simp: replace_rule_program_source_def result_simps)
    show ?thesis
      by (rule publish_written [OF reprogrammed.IH p])
        (simp_all add: mk revision_written_def bound_program_new_def digests_ok(1) [OF sha])
  qed
next
  case (named s name rid digest t)
  have c: "cursor_wf s" using reachable_store_inv [OF named.hyps(1)] by (simp add: store_inv_def)
  then have "revision_written (current_revision s)"
    using named.IH current_in [of s] by (auto simp: revisions_written_def list_all_iff)
  moreover have "ds_revisions t = ds_revisions (set_current ((current_revision s) \<lparr>rv_checkpoint := Some name\<rparr>) s)"
    using named.hyps(3) by (auto simp: create_checkpoint_def fresh_mutation_epoch_def result_simps split: if_splits)
  moreover have "checkpoint_name_ok name" using named.hyps(3) by (auto simp: create_checkpoint_def result_simps)
  ultimately show ?case
    using named c by (auto simp: revision_written_def intro!: set_current_written)
next
  case (rolled s rid digest target who r t)
  then obtain mk r u where p: "publish mk s = Inr (r, u)" and t: "t = u \<lparr>ds_registry := []\<rparr>"
    and mk: "\<And>i. \<exists>x. rv_batch_digest (mk i) = rollback_digest sha target x"
    "\<And>i. rv_origin (mk i) = Rollback who target" "\<And>i. rv_checkpoint (mk i) = None"
    by (fastforce simp: rollback_to_revision_def lift_exhausted_def result_simps)
  have "batch_digest_ok (rv_batch_digest (mk i))" for i using mk(1) [of i] digests_ok(2) [OF sha] by auto
  then have "revisions_written (ds_revisions u)"
    by (intro publish_written [OF rolled.IH p]) (simp_all add: mk revision_written_def)
  then show ?case by (simp add: t)
next
  case (replaced s u r t)
  have "cursor_wf u" using reachable_store_inv [OF replaced.hyps(2)] by (simp add: store_inv_def)
  then have "revision_written (current_revision u)"
    using replaced.IH(2) current_in [of u] by (auto simp: revisions_written_def list_all_iff)
  then have digest: "batch_digest_ok (rv_batch_digest (current_revision u))" by (simp add: revision_written_def)
  from replaced.hyps(3) obtain mk x where p: "publish mk s = Inr (r, x)" and t: "t = x \<lparr>ds_registry := []\<rparr>"
    and mk: "\<And>i. rv_batch_digest (mk i) = rv_batch_digest (current_revision u)"
    "\<And>i. rv_origin (mk i) \<noteq> Initial" "\<And>i. rv_checkpoint (mk i) = None"
    by (fastforce simp: publish_replacement_def result_simps)
  have "revisions_written (ds_revisions x)"
    by (rule publish_written [OF replaced.IH(1) p]) (simp_all add: mk digest revision_written_def)
  then show ?case by (simp add: t)
next
  case (discarded s)
  have "cursor_wf s" using reachable_store_inv [OF discarded.hyps(1)] by (simp add: store_inv_def)
  then show ?case
    using discarded.IH current_in [of s]
    by (auto simp: discard_history_before_current_def revisions_written_def list_all_iff)
qed (auto simp: from_product_def from_snapshot_def opened_store_def initial_revision_def fork_for_planning_def
    fresh_mutation_epoch_def moved_undo moved_redo register_evaluation_def Let_def configure_human_confirmation_policy_def
    restore_state_def revisions_written_def revision_written_def batch_digest_ok_def result_simps split: if_splits)


text \<open>The author or target of a revision a history may name.\<close>

definition readable_origin :: "('r, 'f) revision \<Rightarrow> bool" where
  "readable_origin r \<longleftrightarrow>
     (case rv_origin r of Initial \<Rightarrow> True | Principal p \<Rightarrow> principal_identified p | Rollback _ target \<Rightarrow> target < rv_id r)"

lemma written_revisions_ok:
  assumes "list_all revision_written rs" and "list_all readable_origin rs" and "sorted_wrt precedes rs"
    and "index = 0 \<and> list_all (\<lambda>r. rv_origin r \<noteq> Initial) (tl rs) \<or> list_all (\<lambda>r. rv_origin r \<noteq> Initial) rs"
  shows "revisions_ok index (map (store_revision sha enc) rs)"
  using assms
proof (induction rs arbitrary: index)
  case (Cons r rs)
  have "origin_ok index (rv_id r) (rv_origin r)"
    using Cons.prems(2,4)
    by (auto simp: readable_origin_def origin_ok_def principal_identified_def split: revision_origin.splits)
  moreover have "list_all (\<lambda>q. hr_id (store_revision sha enc r) < hr_id q \<and>
      checkpoint_names (store_revision sha enc r) \<inter> checkpoint_names q = {}) (map (store_revision sha enc) rs)"
    using Cons.prems(3) by (auto simp: list_all_iff precedes_def store_revision_def checkpoint_names_def split: option.splits)
  moreover have "revisions_ok (index + 1) (map (store_revision sha enc) rs)" using Cons.prems by (intro Cons.IH) auto
  ultimately show ?case
    using Cons.prems(1) by (simp add: revision_ok_at_def revision_written_def) (simp add: store_revision_def)
qed simp

lemma store_revisions_ok:
  assumes "reachable sha json fam valid_key s" and "\<And>schema cs. batch_digest_ok (fam_batch_digest fam schema cs)"
    and "\<And>b. length (sha b) = 32" and "list_all readable_origin (ds_revisions s)"
  shows "revisions_ok 0 (map (store_revision sha enc) (ds_revisions s))"
    and "hr_id (last (map (store_revision sha enc) (ds_revisions s))) < ds_next_revision_id s"
proof -
  note inv = reachable_store_inv [OF assms(1)] and w = reachable_written [OF assms(2,3,1)]
  show "revisions_ok 0 (map (store_revision sha enc) (ds_revisions s))"
    using inv w assms(4) by (intro written_revisions_ok) (auto simp: store_inv_def revisions_written_def)
  have c: "ds_revisions s \<noteq> []" "current_revision s \<in> set (ds_revisions s)"
    using inv current_in [of s] by (auto simp: store_inv_def)
  then show "hr_id (last (map (store_revision sha enc) (ds_revisions s))) < ds_next_revision_id s"
    using inv by (auto simp: store_inv_def last_map store_revision_def)
qed


lemma store_hashed: "hashed sha (store_revision sha enc r)" "list_all (hashed sha) (map (store_revision sha enc) rs)"
  by (simp_all add: hashed_def store_revision_def list_all_iff)

section \<open>What was saved is read\<close>

lemma entries_items_insert: "entries_items (bt_insert k v m) \<le> entries_items m + 1 + length k"
  by (induction k v m rule: bt_insert.induct) (auto simp: entries_items_def)

lemma saved_items: "entries_items (saved_entry_map doc hist prog side) \<le> entries_items side + 38"
  using entries_items_insert [of "''document.bin''" "(True, doc)" side]
    entries_items_insert [of "''history.bin''" "(True, the hist)" "bt_insert ''document.bin'' (True, doc) side"]
    entries_items_insert [of "''program.json''" "(True, the prog)"
      "case hist of None \<Rightarrow> bt_insert ''document.bin'' (True, doc) side
       | Some h \<Rightarrow> bt_insert ''history.bin'' (True, h) (bt_insert ''document.bin'' (True, doc) side)"]
  by (auto simp: saved_entry_map_def Let_def split: option.splits)

lemma saved_content_length:
  assumes "encode_container sha entries = Inr file" and "(k, required, bs) \<in> set entries"
  shows "length bs \<le> length file"
proof -
  have "length (entry_bytes (framed sha (k, required, bs))) \<le> length (concat (map entry_bytes (map (framed sha) entries)))"
    using assms(2) by (auto simp: length_concat comp_def intro!: member_le_sum_list)
  then show ?thesis
    using assms(1) by (simp add: encode_container_Inr directory_bytes_def entry_bytes_def)
qed

lemma saved_history_length:
  assumes "save_container_entries sha doc d imported (Some hist) prog = Inr file"
  shows "length hist \<le> length file"
proof -
  from assms obtain side where "encode_container sha (saved_entry_map doc (Some hist) prog side) = Inr file"
    by (auto simp: save_container_entries_def result_simps)
  moreover have "bt_get (saved_entry_map doc (Some hist) prog side) ''history.bin'' = Some (True, hist)"
    by (simp add: saved_entry_map_def Let_def split: option.split)
  then have "(''history.bin'', True, hist) \<in> set (saved_entry_map doc (Some hist) prog side)"
    by (auto simp: bt_get_def dest: map_of_SomeD)
  ultimately show ?thesis by (rule saved_content_length)
qed

lemma records_match_nth:
  "records_match sha json doc cs cursor index rs rcs \<Longrightarrow> i < length rs \<Longrightarrow>
   i < length rcs \<and> record_matches sha json doc cs (index + i = cursor) (rs ! i) (rcs ! i)"
proof (induction sha json doc cs cursor index rs rcs arbitrary: i rule: records_match.induct)
  case (2 sha json doc cs cursor index r rs c rcs)
  then show ?case by (cases i) auto
qed auto

text \<open>What reading the current revision alone gives of a history that matches.\<close>

lemma current_matches:
  assumes read: "read_history_records bs doc HISTORY_BUDGET False = Inr h" and "ph_cursor h < length (ph_records h)"
    and m: "record_matches sha (\<lambda>p. Inr (json p)) doc (ph_chunks h) is_current (store_revision sha enc r) (ph_records h ! ph_cursor h)"
    and decode: "\<And>p. map_option bp_source (rv_rule_program r) = Some p \<Longrightarrow> decode (json p) = Inr p"
  shows "current_history_checkpoint bs doc (rv_id r) = rv_checkpoint r"
    and "current_history_program sha decode bs doc (rv_id r) = Inr (Inr (map_option bp_source (rv_rule_program r)))"
proof -
  note only = current_only_reads [OF read]
  show "current_history_checkpoint bs doc (rv_id r) = rv_checkpoint r"
    using m by (simp add: current_history_checkpoint_def only record_matches_def store_revision_def)
  show "current_history_program sha decode bs doc (rv_id r) = Inr (Inr (map_option bp_source (rv_rule_program r)))"
    using m decode
    by (cases "rv_rule_program r")
      (auto simp: current_history_program_def only record_matches_def store_revision_def)
qed


lemma current_revision_ok:
  assumes "reachable sha json fam valid_key s" and "\<And>schema cs. batch_digest_ok (fam_batch_digest fam schema cs)"
    and "\<And>b. length (sha b) = 32" and "readable_origin (current_revision s)"
  shows "revisions_ok 0 [store_revision sha enc (current_revision s)]" and "rv_id (current_revision s) < ds_next_revision_id s"
proof -
  note inv = reachable_store_inv [OF assms(1)] and w = reachable_written [OF assms(2,3,1)]
  have c: "current_revision s \<in> set (ds_revisions s)" using inv current_in [of s] by (simp add: store_inv_def)
  then show "rv_id (current_revision s) < ds_next_revision_id s" using inv by (simp add: store_inv_def)
  show "revisions_ok 0 [store_revision sha enc (current_revision s)]"
    using w assms(4) c
    by (auto simp: revisions_written_def revision_written_def list_all_iff revision_ok_at_def store_revision_def origin_ok_def
        readable_origin_def principal_identified_def split: revision_origin.splits)
qed

lemma history_counted:
  assumes "read_history_records bs doc HISTORY_BUDGET False = Inr h"
  shows "history_revision_count bs = Some (length (ph_records h))"
proof -
  let ?u0 = "\<lparr>rs_assembled = 0, rs_programs = [], rs_program_bytes = 0, rs_previous_id = None, rs_previous_program = None,
    rs_checkpoint_names = [], rs_records = []\<rparr>"
  from assms obtain r0 schema r1 n r2 r3 s r4 and cursor :: u32 where
    c: "take_bytes (length HISTORY_MAGIC) (with_item_budget bs (hb_items HISTORY_BUDGET)) = Inr (HISTORY_MAGIC, r0)"
    "read_u16 r0 = Inr (schema, r1)" "count_with_limit FILE_HISTORY_REVISIONS r1 = Inr (n, r2)"
    "read_history_loop HISTORY_BUDGET schema doc (unat cursor) (\<lambda>_. True) 0 n ?u0 r3 = Inr (s, r4)"
    "ph_records h = rs_records s"
    unfolding read_history_records_def by (auto simp: result_simps Let_def)
  have "reader_state_ok ?u0" by (simp add: reader_state_ok_def record_names_def)
  from read_loop_ok [OF c(4) this] c show ?thesis by (simp add: history_revision_count_def)
qed

section \<open>A document for the examples\<close>

text \<open>A store of two revisions for the examples: one batch by \<open>who\<close> on the demo document.\<close>

definition demo_pair :: "principal \<Rightarrow> rule_program_source history_revision list" where
  "demo_pair who =
     [\<lparr>hr_id = 1, hr_batch_digest = [], hr_origin = Initial, hr_checkpoint = None, hr_program = None, hr_encoded = [7], hr_sha256 = demo_pad [7]\<rparr>,
      \<lparr>hr_id = 2, hr_batch_digest = [], hr_origin = Principal who, hr_checkpoint = None, hr_program = None, hr_encoded = [7], hr_sha256 = demo_pad [7]\<rparr>]"

lemma demo_applied:
  assumes "apply_batch_with sha demo_families demo_delete (Principal who) True demo_store = Inr (r, t)"
  shows "ds_revisions t = [initial_revision 1 demo_product (), r] \<and> ds_cursor t = 1 \<and> ds_next_revision_id t = 3 \<and>
    rv_origin r = Principal who \<and> rv_checkpoint r = None \<and> rv_rule_program r = None \<and>
    map (store_revision demo_pad (\<lambda>_. [7])) (ds_revisions t) = demo_pair who"
proof -
  from assms obtain edit product evaluation features where
    p: "publish (batch_revision demo_families demo_delete (Principal who) product evaluation features demo_store) demo_store = Inr (r, t)"
    and r: "r = batch_revision demo_families demo_delete (Principal who) product evaluation features demo_store 2"
    by (rule apply_batch_Inr) (simp add: demo_store_def)
  show ?thesis
    by (rule publish_Inr [OF p], unfold r)
      (auto simp: demo_store_def push_revision_def UNDO_REVISIONS_def batch_revision_def rule_program_kept_by_def
        current_revision_def initial_revision_def batch_digest_def demo_families_def demo_pair_def store_revision_def
        checked_add_u64_def split: if_splits)
qed

lemma demo_applies: "\<exists>r t. apply_batch_with sha demo_families demo_delete (Principal who) True demo_store = Inr (r, t)"
  using demo_delete_applies [of sha] apply_origin_irrelevant by blast

lemma demo_pair_encodes:
  assumes "cursor < 2"
  shows "\<exists>bs. encode_history demo_pad json eq (demo_pair who) cursor 3 [7] HISTORY_BUDGET = Inr bs \<and> length bs < 1000"
proof -
  have cursor: "cursor = 0 \<or> cursor = 1" using assms by auto
  have c: "chunks demo_pad [x] = [\<lparr>ck_start = 0, ck_end = 1, ck_sha256 = demo_pad [x]\<rparr>]" for x
    using small_chunks [of "[x]" demo_pad] by (simp add: MIN_CHUNK_def)
  have d: "demo_pad [x] = x # replicate 31 0" for x by (simp add: demo_pad_def)
  have o: "length (write_revision_origin (Principal who)) \<le> 10"
    by (cases who) (simp_all add: write_revision_origin_def write_revision_principal_def)
  show ?thesis
    using o cursor
    by (elim disjE) (simp_all add: encode_history_def demo_pair_def c d add_document_chunk_def bt_contains_def u32_count_def
      FILE_HISTORY_REVISIONS_def encode_revision_def write_revision_header_def push_string_def count_items_def saturating_add_def
      HISTORY_BUDGET_def MAX_COLLECTION_ITEMS_def encode_program_part_def encoded_program_def encode_snapshot_part_def
      check_assembled_def table_write_def u64_len_def write_chunk_def Let_def same_program_def
      chunk_range_def result_simps, simp_all add: write_revision_origin_def)
qed

section \<open>Properties\<close>



lemma demo_file:
  assumes "length history < 1000"
  shows "\<exists>file. save_container_entries demo_pad [7] container_data_default [] (Some history) None = Inr file \<and> length file < 2 ^ 63"
proof -
  have map: "saved_entry_map [7] (Some history) None [] = [(''document.bin'', True, [7]), (''history.bin'', True, history)]"
    by (simp add: saved_entry_map_def)
  have valid: "validate_container_path ''document.bin'' = Inr ()" "validate_container_path ''history.bin'' = Inr ()"
    by code_simp+
  have side: "side_entries container_data_default [] = Inr []"
    by (simp add: side_entries_def container_data_default_def bt_values_def)
  let ?es = "[(''document.bin'', True, [7]), (''history.bin'', True, history)]"
  have "encode_container demo_pad ?es = Inr (directory_bytes (container_schema_of ?es) (map (framed demo_pad) ?es))"
    unfolding encode_container_Inr using valid assms by (simp add: MAX_CONTAINER_ENTRIES_def)
  moreover have "length (directory_bytes (container_schema_of ?es) (map (framed demo_pad) ?es)) < 2 ^ 63"
    using assms by (simp add: directory_bytes_def entry_bytes_def demo_pad_32)
  ultimately show ?thesis by (auto simp: save_container_entries_def side map)
qed

lemma demo_digest_form: "batch_digest_ok (fam_batch_digest demo_families schema cs)"
  by (simp add: demo_families_def batch_digest_ok_def)



text \<open>
  A file saved without undo steps keeps the name of its revision.  The file of
  \<^verbatim>\<open>save_document_store_current_snapshot\<close> opens to the encoding of the current revision, its program and the
  data beside it.  When that revision has a checkpoint the file holds a history of exactly one revision, from which the
  checkpoint and the program are read back; otherwise it holds no history.
\<close>

theorem saved_snapshot_keeps_checkpoint:
  assumes "reachable sha json fam valid_key s" and digest_form: "\<And>schema cs. batch_digest_ok (fam_batch_digest fam schema cs)"
    and sha_32: "\<And>b. length (sha b) = 32"
    and no_collision: "inj_on sha (contents sha (enc (current s)) \<union>
      revision_contents sha (\<lambda>p. Inr (json p)) (store_revision sha enc (current_revision s)))"
    and decode_json: "\<And>p. current_rule_program s = Some p \<Longrightarrow> decode (json p) = Inr p"
    and "readable_origin (current_revision s)"
    and "container_data_ok sha d" and "side_entries d (imported (current s)) = Inr side"
    and "entries_items side + 38 \<le> MAX_COLLECTION_ITEMS"
    and "save_document_store_current_snapshot sha (\<lambda>p. Inr (json p)) enc imported s d = Inr file" and "length file < 2 ^ 64"
  shows "\<exists>history. container_parts sha decode file =
      Inr \<lparr>pt_document = enc (current s), pt_history = history, pt_program = current_rule_program s,
        pt_data = \<lparr>cd_blobs = filter (\<lambda>p. kept_blob d (imported (current s)) (fst p)) (cd_blobs d), cd_imported = [],
          cd_extensions = cd_extensions d\<rparr>\<rparr> \<and>
    (case rv_checkpoint (current_revision s) of None \<Rightarrow> history = None
     | Some name \<Rightarrow> (\<exists>bs. history = Some bs \<and> history_revision_count bs = Some 1 \<and>
         current_history_checkpoint bs (enc (current s)) (rv_id (current_revision s)) = Some name \<and>
         current_history_program sha decode bs (enc (current s)) (rv_id (current_revision s)) =
           Inr (Inr (current_rule_program s))))"
proof -
  let ?json = "\<lambda>p. Inr (json p)" and ?r = "store_revision sha enc (current_revision s)" and ?doc = "enc (current s)"
  from assms(10) obtain history prog where
    h: "current_checkpoint_history sha ?json enc s ?doc = Inr history"
    and p: "encoded_program ?json (current_rule_program s) = Inr prog"
    and f: "save_container_entries sha ?doc d (imported (current s)) history prog = Inr file"
    by (auto simp: save_document_store_current_snapshot_def Let_def result_simps)
  have "case prog of None \<Rightarrow> current_rule_program s = None | Some x \<Rightarrow> (\<exists>q. decode x = Inr q \<and> current_rule_program s = Some q)"
    using p decode_json by (auto simp: encoded_program_def result_simps split: option.splits)
  from saved_opens [OF assms(7) sha_32 assms(8) f assms(11) this] saved_items [of ?doc history prog side] assms(9)
  have parts: "container_parts sha decode file = Inr \<lparr>pt_document = ?doc, pt_history = history,
      pt_program = current_rule_program s, pt_data = \<lparr>cd_blobs = filter (\<lambda>p. kept_blob d (imported (current s)) (fst p)) (cd_blobs d),
        cd_imported = [], cd_extensions = cd_extensions d\<rparr>\<rparr>" by simp
  show ?thesis
  proof (cases "rv_checkpoint (current_revision s)")
    case None
    with h parts show ?thesis by (simp add: current_checkpoint_history_def)
  next
    case (Some name)
    with h obtain bs where bs: "history = Some bs"
      "encode_history sha ?json rule_program_eq [?r] 0 (ds_next_revision_id s) ?doc HISTORY_BUDGET = Inr bs"
      by (auto simp: current_checkpoint_history_def result_simps)
    have "length bs < 2 ^ 64" using saved_history_length f assms(11) bs(1) by fastforce
    from written_history_reads [OF bs(2) this no_collision _ _ sha_32 _ current_revision_ok(1) [OF assms(1) digest_form sha_32 assms(6)]]
      current_revision_ok(2) [OF assms(1) digest_form sha_32 assms(6)]
    obtain x where x: "read_history_records bs ?doc HISTORY_BUDGET False = Inr x" "ph_cursor x = 0"
      "records_match sha ?json ?doc (ph_chunks x) 0 0 [?r] (ph_records x)"
      by (auto simp: HISTORY_BUDGET_def store_revision_def hashed_def)
    from x(3) obtain rc where rc: "ph_records x = [rc]" "record_matches sha ?json ?doc (ph_chunks x) True ?r rc"
      by (cases "ph_records x" rule: list.exhaust [case_product list.exhaust [of "tl (ph_records x)"]])
        (auto elim: records_match.elims)
    have "ph_cursor x < length (ph_records x)"
      "record_matches sha ?json ?doc (ph_chunks x) True ?r (ph_records x ! ph_cursor x)" using rc x(2) by simp_all
    note current_matches [OF x(1) this, of decode] and history_counted [OF x(1)]
    with parts bs(1) Some rc(1) decode_json show ?thesis by (simp add: current_rule_program_def)
  qed
qed

lemma demo_named:
  "create_checkpoint demo_families 1 (fam_digest demo_families demo_product) ''v1'' demo_store =
     Inr (demo_store \<lparr>ds_revisions := [(initial_revision 1 demo_product ()) \<lparr>rv_checkpoint := Some ''v1''\<rparr>],
       ds_mutation_epoch := 2, ds_next_epoch := 3\<rparr>)"
  using demo_name
  by (simp add: create_checkpoint_def demo_store_def current_revision_def current_def initial_revision_def set_current_def
      fresh_mutation_epoch_def word_eq_iff_unsigned)

lemma demo_named_encodes:
  "\<exists>bs. encode_history demo_pad json eq [\<lparr>hr_id = 1, hr_batch_digest = [], hr_origin = Initial, hr_checkpoint = Some ''v1'',
     hr_program = None, hr_encoded = [7], hr_sha256 = demo_pad [7]\<rparr>] 0 2 [7] HISTORY_BUDGET = Inr bs \<and> length bs < 1000"
proof -
  have c: "chunks demo_pad [7] = [\<lparr>ck_start = 0, ck_end = 1, ck_sha256 = demo_pad [7]\<rparr>]"
    using small_chunks [of "[7]" demo_pad] by (simp add: MIN_CHUNK_def)
  show ?thesis
    by (simp add: encode_history_def c add_document_chunk_def bt_contains_def u32_count_def write_revision_origin_def
      FILE_HISTORY_REVISIONS_def encode_revision_def write_revision_header_def push_string_def count_items_def saturating_add_def
      HISTORY_BUDGET_def MAX_COLLECTION_ITEMS_def encode_program_part_def encoded_program_def encode_snapshot_part_def)
qed

theorem saved_snapshot_keeps_checkpoint_witness:
  "\<exists>s out bs. create_checkpoint demo_families 1 (fam_digest demo_families demo_product) ''v1'' demo_store = Inr s \<and>
     save_document_store_current_snapshot demo_pad (\<lambda>_. Inr []) (\<lambda>_. [7]) (\<lambda>_. []) s container_data_default = Inr out \<and>
     container_parts demo_pad (\<lambda>_. Inl ResourceLimit) out = Inr \<lparr>pt_document = [7], pt_history = Some bs,
       pt_program = (None :: rule_program_source option), pt_data = container_data_default\<rparr> \<and>
     history_revision_count bs = Some 1 \<and> current_history_checkpoint bs [7] 1 = Some ''v1''"
proof -
  let ?json = "\<lambda>_. [] :: bytes" and ?enc = "\<lambda>_. [7] :: bytes" and ?d = container_data_default
  let ?r = "\<lparr>hr_id = 1, hr_batch_digest = [], hr_origin = Initial, hr_checkpoint = Some ''v1'', hr_program = None, hr_encoded = [7], hr_sha256 = demo_pad [7]\<rparr>"
  obtain s where c: "create_checkpoint demo_families 1 (fam_digest demo_families demo_product) ''v1'' demo_store = Inr s"
    and s: "current_revision s = (initial_revision 1 demo_product ()) \<lparr>rv_checkpoint := Some ''v1''\<rparr>"
    "current_rule_program s = None" "ds_next_revision_id s = 2"
    using demo_named by (simp add: current_revision_def demo_store_def current_rule_program_def initial_revision_def)
  have reach: "reachable demo_pad ?json demo_families (\<lambda>_. True) s"
    by (rule reachable.named [OF demo_reachable _ c]) (simp add: valid_utf8_def)
  have r: "store_revision demo_pad ?enc (current_revision s) = ?r" by (simp add: s store_revision_def initial_revision_def)
  obtain hist where h: "encode_history demo_pad (\<lambda>p. Inr (?json p)) rule_program_eq [?r] 0 2 [7] HISTORY_BUDGET = Inr hist"
    "length hist < 1000" using demo_named_encodes by blast
  obtain out where sf: "save_container_entries demo_pad [7] ?d [] (Some hist) None = Inr out" "length out < 2 ^ 64"
    using demo_file [OF h(2)] by fastforce
  have save: "save_document_store_current_snapshot demo_pad (\<lambda>p. Inr (?json p)) ?enc (\<lambda>_. []) s ?d = Inr out"
    using h(1) sf(1) by (simp add: save_document_store_current_snapshot_def current_checkpoint_history_def r s(2,3)
      encoded_program_def Let_def) (simp add: s(1))
  have inj: "inj_on demo_pad (contents demo_pad (?enc (current s)) \<union>
      revision_contents demo_pad (\<lambda>p. Inr (?json p)) (store_revision demo_pad ?enc (current_revision s)))"
    using small_chunks [of "[7]" demo_pad] by (simp add: r contents_def revision_contents_def MIN_CHUNK_def chunk_range_def)
  have side: "side_entries ?d [] = Inr []" by (simp add: side_entries_def container_data_default_def bt_values_def)
  have origin: "readable_origin (current_revision s)" by (simp add: s(1) readable_origin_def initial_revision_def)
  from saved_snapshot_keeps_checkpoint [OF reach demo_digest_form demo_pad_32 inj _ origin default_ok, of "\<lambda>_. Inl ResourceLimit",
      OF _ side _ save sf(2)] c save
  show ?thesis by (auto simp: s entries_items_def MAX_COLLECTION_ITEMS_def container_data_default_def initial_revision_def)
qed

text \<open>
   A change by an unidentified author is committed but its history is not read back.  A proposal of standard
  risk whose principal is \<^verbatim>\<open>Human(0)\<close> is prepared, committed and saved with that author, while the
  reader of histories accepts no revision of it: the undo history of such a document is lost when it is opened.
\<close>

theorem anonymous_commit_not_reopened:
  "\<exists>p c t history. prepare_proposal_with_context demo_pad demo_families demo_analysis demo_delete
       ((demo_context Standard ReviewRequired) \<lparr>px_principal := Human 0\<rparr>) demo_store = Inr p \<and>
     commit_verified_proposal demo_pad demo_families demo_analysis p demo_store = (Inr c, t) \<and>
     encode_revision_history demo_pad (\<lambda>_. Inr []) (\<lambda>_. [7]) t [7] = Inr history \<and>
     \<not> (\<exists>h. read_history_records history [7] HISTORY_BUDGET False = Inr h \<and>
          records_match demo_pad (\<lambda>_. Inr []) [7] (ph_chunks h) (ds_cursor t) 0
            (map (store_revision demo_pad (\<lambda>_. [7])) (ds_revisions t)) (ph_records h))"
proof -
  let ?cx = "(demo_context Standard ReviewRequired) \<lparr>px_principal := Human 0\<rparr>"
  have same: "demo_store \<lparr>ds_policy := None\<rparr> = demo_store" by (simp add: demo_store_def)
  have "validate_confirmation_requirement ?cx = Inr ()"
    by (simp add: validate_confirmation_requirement_def demo_context_def)
  from demo_prepared_by [OF this, of demo_pad None] obtain p where
    p: "prepare_proposal_with_context demo_pad demo_families demo_analysis demo_delete ?cx demo_store = Inr p"
    unfolding same by blast
  have b: "pr_batch p = demo_delete" "pr_principal p = Human 0" "pr_risk p = Standard"
    by (rule prepare_Inr [OF p], simp add: demo_context_def)+
  have l: "list_all (\<lambda>c. \<not> recomputes c) (cb_commands demo_delete)" by (simp add: demo_delete_def recomputes_def)
  from prepared_commits [OF reachable_store_inv [OF demo_reachable] l p] obtain c t where
    c: "commit_verified_proposal_inner demo_pad demo_families demo_analysis p demo_store = (Inr c, t)"
    by (auto simp: demo_store_def checked_add_u64_def word_eq_iff_unsigned)
  note f = demo_applied [OF commit_inner_Inr [OF c, THEN conjunct1, unfolded b]]
  obtain history where h: "encode_history demo_pad (\<lambda>_. Inr []) rule_program_eq (demo_pair (Human 0)) 1 3 [7] HISTORY_BUDGET = Inr history"
    using demo_pair_encodes [of 1] by fastforce
  have "\<not> records_match demo_pad (\<lambda>_. Inr []) [7] (ph_chunks x) 1 0 (demo_pair (Human 0)) (ph_records x)"
    if "read_history_records history [7] HISTORY_BUDGET False = Inr x" for x
  proof
    assume "records_match demo_pad (\<lambda>_. Inr []) [7] (ph_chunks x) 1 0 (demo_pair (Human 0)) (ph_records x)"
    from records_match_nth [OF this, of 1] have "1 < length (ph_records x)" "rc_origin (ph_records x ! 1) = Principal (Human 0)"
      by (auto simp: demo_pair_def record_matches_def)
    then show False using reader_sound [OF that] by (auto simp: record_ok_at_def origin_ok_def)
  qed
  then show ?thesis
    using p c b(3) conjunct2 [OF f] h
    by (intro exI [of _ p] exI [of _ c] exI [of _ t] exI [of _ history])
      (simp add: commit_verified_proposal_def encode_revision_history_def)
qed


end
