(* ===== verification/Ketchup_Pdm.thy ===== *)
theory Ketchup_Pdm
  imports Ketchup_Save
begin

text \<open>
  The local product data store (\<^verbatim>\<open>ketchup-pdm/src/local.rs\<close>): releases of a document with its dependencies, kept
  as content-addressed objects and one manifest per release, each naming its parent.  The repository is a map
  from paths below its root to directories, regular files and links; what the code reads of dependency files outside is
  an argument, as are JSON, the hash and the decoding of a document.
\<close>

section \<open>Releases\<close>

record release_audit =
  au_actor :: str
  au_created_unix_ms :: u64
  au_note :: str

record object_identity =
  oi_sha256 :: str
  oi_byte_len :: u64

record released_document =
  rd_document_id :: u64
  rd_revision :: u64
  rd_canonical_digest :: str
  rd_units :: str
  rd_object :: object_identity

record released_dependency =
  dp_logical_path :: str
  dp_object :: object_identity

record release_payload =
  pl_schema :: str
  pl_parent_release_id :: "str option"
  pl_document :: released_document
  pl_dependencies :: "released_dependency list"
  pl_audit :: release_audit

record release_manifest =
  mf_schema :: str
  mf_release_id :: str
  mf_parent_release_id :: "str option"
  mf_document :: released_document
  mf_dependencies :: "released_dependency list"
  mf_audit :: release_audit

record dependency_input =
  di_logical_path :: str
  di_source_path :: str

datatype io_kind = NotFound | AlreadyExists | NotADirectory

datatype pdm_error =
    PdmIo io_kind
  | PdmJson
  | PdmPersistence persistence_error
  | StaleSnapshot
  | InvalidAudit
  | TooManyDependencies
  | TooManyReleases
  | LineageTooDeep
  | ParentDocumentMismatch
  | NoChangesAgainstParent
  | InvalidLogicalPath
  | DuplicateLogicalPath
  | DependencyTooLarge
  | DependenciesTooLarge
  | InvalidReleaseId
  | ManifestTooLarge
  | InvalidManifest
  | NonUtf8ReleaseEntry str
  | InvalidRepositoryPath
  | ManifestIdentityMismatch
  | ReleaseAlreadyExists
  | MissingRelease str
  | MissingObject str
  | ObjectTampered str
  | ObjectConflict str
  | DocumentIdentityMismatch

definition LOCAL_PDM_RELEASE_SCHEMA_V1 :: str where "LOCAL_PDM_RELEASE_SCHEMA_V1 = ''ketchup.local-pdm.release.v1''"
definition MAX_RELEASE_DEPENDENCIES :: nat where "MAX_RELEASE_DEPENDENCIES = 256"
definition MAX_RELEASE_DEPENDENCY_BYTES :: nat where "MAX_RELEASE_DEPENDENCY_BYTES = 256 * 1024 * 1024"
definition MAX_RELEASE_TOTAL_DEPENDENCY_BYTES :: nat where "MAX_RELEASE_TOTAL_DEPENDENCY_BYTES = 256 * 1024 * 1024"
definition MAX_RELEASE_MANIFEST_BYTES :: nat where "MAX_RELEASE_MANIFEST_BYTES = 1024 * 1024"
definition MAX_LOGICAL_PATH_BYTES :: nat where "MAX_LOGICAL_PATH_BYTES = 512"
definition MAX_AUDIT_ACTOR_BYTES :: nat where "MAX_AUDIT_ACTOR_BYTES = 128"
definition MAX_AUDIT_NOTE_BYTES :: nat where "MAX_AUDIT_NOTE_BYTES = 2048"
definition MAX_RELEASE_CATALOG_ENTRIES :: nat where "MAX_RELEASE_CATALOG_ENTRIES = 4096"
definition MAX_RELEASE_LINEAGE_DEPTH :: nat where "MAX_RELEASE_LINEAGE_DEPTH = 256"

text \<open>
  What lies outside: the hash, the JSON of payloads and manifests, the encoding of snapshots and the blobs they name
  (as for saving), the decoding of a program and of a document with the data beside it (giving the snapshot, the data
  with the blobs it names, and the digest it was saved with), the digest and id of a document, the files beside the
  repository and the order a directory is listed in.
\<close>

record 'r pdm_world =
  pw_sha :: "bytes \<Rightarrow> bytes"
  pw_payload_json :: "release_payload \<Rightarrow> bytes"
  pw_manifest_json :: "release_manifest \<Rightarrow> bytes"
  pw_parse_manifest :: "bytes \<Rightarrow> release_manifest option"
  pw_encode :: "'r snapshot \<Rightarrow> bytes"
  pw_imported :: "'r snapshot \<Rightarrow> str list"
  pw_decode_rule_program :: "bytes \<Rightarrow> persistence_error + rule_program_source"
  pw_load_document :: "bytes \<Rightarrow> container_data \<Rightarrow> persistence_error + 'r snapshot \<times> container_data \<times> str"
  pw_digest :: "'r product \<Rightarrow> str"
  pw_document_id :: "'r product \<Rightarrow> u64"
  pw_files :: "str \<Rightarrow> bytes option"
  pw_listing :: "str list \<Rightarrow> str list"

definition manifest_payload :: "release_manifest \<Rightarrow> release_payload" where
  "manifest_payload m =
     \<lparr>pl_schema = mf_schema m, pl_parent_release_id = mf_parent_release_id m, pl_document = mf_document m,
      pl_dependencies = mf_dependencies m, pl_audit = mf_audit m\<rparr>"

definition canonical_payload_identity :: "'r pdm_world \<Rightarrow> release_payload \<Rightarrow> str" where
  "canonical_payload_identity w payload = sha256_hex (pw_sha w) (pw_payload_json w payload)"

definition computed_release_id :: "'r pdm_world \<Rightarrow> release_manifest \<Rightarrow> str" where
  "computed_release_id w m = canonical_payload_identity w (manifest_payload m)"

definition object_identity_of :: "'r pdm_world \<Rightarrow> bytes \<Rightarrow> object_identity" where
  "object_identity_of w bs = \<lparr>oi_sha256 = sha256_hex (pw_sha w) bs, oi_byte_len = of_nat (length bs)\<rparr>"

section \<open>Checks\<close>

definition validate_audit :: "release_audit \<Rightarrow> pdm_error + unit" where
  "validate_audit a =
     guard (\<not> (\<not> is_trimmed (au_actor a) \<or> au_actor a = [] \<or> length (au_actor a) > MAX_AUDIT_ACTOR_BYTES \<or>
       any_control (au_actor a) \<or> au_created_unix_ms a = 0 \<or> \<not> is_trimmed (au_note a) \<or>
       length (au_note a) > MAX_AUDIT_NOTE_BYTES \<or> any_control (au_note a))) InvalidAudit"

text \<open>
  The components of a Unix path: the first one is the root or the current directory when it is
  empty or a dot; later empty ones and dots are dropped.
\<close>

definition all_components_normal :: "str \<Rightarrow> bool" where
  "all_components_normal path =
     (case str_split (CHR ''/'') path of
        [] \<Rightarrow> True
      | first # others \<Rightarrow> first \<noteq> [] \<and> first \<noteq> ''.'' \<and> first \<noteq> ''..'' \<and> list_all (\<lambda>c. c \<noteq> ''..'') others)"

definition validate_logical_path :: "str \<Rightarrow> pdm_error + unit" where
  "validate_logical_path path =
     and_then (guard (\<not> (path = [] \<or> length path > MAX_LOGICAL_PATH_BYTES \<or> char_of (92 :: nat) \<in> set path \<or> any_control path))
       InvalidLogicalPath) (\<lambda>_.
     guard (all_components_normal path) InvalidLogicalPath)"

definition validate_sha256 :: "str \<Rightarrow> pdm_error + unit" where
  "validate_sha256 value =
     guard (\<not> (length value \<noteq> 64 \<or>
       \<not> list_all (\<lambda>c. is_digit c \<or> 97 \<le> (of_char c :: nat) \<and> (of_char c :: nat) \<le> 102) value)) InvalidReleaseId"

definition validate_object_identity :: "object_identity \<Rightarrow> pdm_error + unit" where
  "validate_object_identity i =
     and_then (validate_sha256 (oi_sha256 i)) (\<lambda>_.
     guard (\<not> unat (oi_byte_len i) > MAX_RELEASE_DEPENDENCY_BYTES) InvalidManifest)"

definition validate_dependency ::
  "str option \<times> u64 \<Rightarrow> released_dependency \<Rightarrow> pdm_error + str option \<times> u64" where
  "validate_dependency st dependency =
     (case st of (previous, sum_bytes) \<Rightarrow>
       and_then (validate_logical_path (dp_logical_path dependency)) (\<lambda>_.
       and_then (validate_object_identity (dp_object dependency)) (\<lambda>_.
       and_then (ok_or (checked_add_u64 sum_bytes (oi_byte_len (dp_object dependency))) DependenciesTooLarge) (\<lambda>sum_bytes.
       and_then (guard (\<not> unat sum_bytes > MAX_RELEASE_TOTAL_DEPENDENCY_BYTES) DependenciesTooLarge) (\<lambda>_.
       and_then (guard (\<not> (case previous of None \<Rightarrow> False | Some path \<Rightarrow> path \<ge> dp_logical_path dependency))
         InvalidManifest) (\<lambda>_.
       Ok (Some (dp_logical_path dependency), sum_bytes)))))))"

definition validate_manifest :: "'r pdm_world \<Rightarrow> release_manifest \<Rightarrow> str \<Rightarrow> pdm_error + unit" where
  "validate_manifest w m expected_release_id =
     and_then (guard (\<not> (mf_schema m \<noteq> LOCAL_PDM_RELEASE_SCHEMA_V1 \<or> mf_release_id m \<noteq> expected_release_id \<or>
       computed_release_id w m \<noteq> expected_release_id \<or> length (mf_dependencies m) > MAX_RELEASE_DEPENDENCIES \<or>
       rd_units (mf_document m) \<noteq> ''millimetres'')) ManifestIdentityMismatch) (\<lambda>_.
     and_then (case mf_parent_release_id m of None \<Rightarrow> Ok ()
       | Some parent \<Rightarrow>
           and_then (validate_sha256 parent) (\<lambda>_. guard (parent \<noteq> expected_release_id) InvalidManifest)) (\<lambda>_.
     and_then (validate_audit (mf_audit m)) (\<lambda>_.
     and_then (validate_object_identity (rd_object (mf_document m))) (\<lambda>_.
     and_then (try_fold validate_dependency (None, 0) (mf_dependencies m)) (\<lambda>_. Ok ())))))"

section \<open>The repository\<close>

datatype fs_node = Directory | RegularFile bytes | SymbolicLink

type_synonym repository = "(str list, fs_node) btree_map"

text \<open>
  \<^verbatim>\<open>symlink_metadata\<close> of a path: each directory on the way must be there and be one.  Links stand for
  links to directories; one on the way makes every caller end in the error given here, since each of them also
  checks the directories of the path.
\<close>

fun metadata_from :: "repository \<Rightarrow> str list \<Rightarrow> str list \<Rightarrow> pdm_error + fs_node" where
  "metadata_from fs here [] = ok_or (bt_get fs here) (PdmIo NotFound)"
| "metadata_from fs here (name # names) =
     (case bt_get fs here of
        None \<Rightarrow> Err (PdmIo NotFound)
      | Some Directory \<Rightarrow> metadata_from fs (here @ [name]) names
      | Some SymbolicLink \<Rightarrow> Err InvalidRepositoryPath
      | Some (RegularFile _) \<Rightarrow> Err (PdmIo NotADirectory))"

definition symlink_metadata :: "repository \<Rightarrow> str list \<Rightarrow> pdm_error + fs_node" where
  "symlink_metadata fs path = metadata_from fs [] path"

definition validate_repository_directory :: "repository \<Rightarrow> str list \<Rightarrow> pdm_error + unit" where
  "validate_repository_directory fs path =
     and_then (symlink_metadata fs path) (\<lambda>node. guard (node = Directory) InvalidRepositoryPath)"

definition is_regular :: "fs_node \<Rightarrow> bool" where
  "is_regular node = (case node of RegularFile _ \<Rightarrow> True | _ \<Rightarrow> False)"

definition validate_repository_file :: "repository \<Rightarrow> str list \<Rightarrow> pdm_error + unit" where
  "validate_repository_file fs path =
     and_then (symlink_metadata fs path) (\<lambda>node. guard (is_regular node) InvalidRepositoryPath)"

text \<open>An operation returns its result and the repository as it left it, errors included.\<close>

type_synonym 'a pdm_op = "repository \<Rightarrow> (pdm_error + 'a) \<times> repository"

definition op_then :: "'a pdm_op \<Rightarrow> ('a \<Rightarrow> 'b pdm_op) \<Rightarrow> 'b pdm_op" where
  "op_then m k = (\<lambda>fs. case m fs of (Inl e, fs) \<Rightarrow> (Err e, fs) | (Inr x, fs) \<Rightarrow> k x fs)"

definition op_read :: "(repository \<Rightarrow> pdm_error + 'a) \<Rightarrow> 'a pdm_op" where
  "op_read f = (\<lambda>fs. (f fs, fs))"

fun op_each :: "('x \<Rightarrow> unit pdm_op) \<Rightarrow> 'x list \<Rightarrow> unit pdm_op" where
  "op_each f [] = (\<lambda>fs. (Ok (), fs))"
| "op_each f (x # xs) = op_then (f x) (\<lambda>_. op_each f xs)"

fun ensure_components :: "bool \<Rightarrow> str list \<Rightarrow> str list \<Rightarrow> unit pdm_op" where
  "ensure_components create here [] = (\<lambda>fs. (Ok (), fs))"
| "ensure_components create here (name # names) =
     op_then (\<lambda>fs. (Ok (), if create \<and> bt_get fs (here @ [name]) = None
        then bt_insert (here @ [name]) Directory fs else fs)) (\<lambda>_.
     op_then (op_read (\<lambda>fs. validate_repository_directory fs (here @ [name]))) (\<lambda>_.
     ensure_components create (here @ [name]) names))"

definition create_dir_all :: "unit pdm_op" where
  "create_dir_all = (\<lambda>fs.
     case bt_get fs [] of
       None \<Rightarrow> (Ok (), bt_insert [] Directory fs)
     | Some (RegularFile _) \<Rightarrow> (Err (PdmIo AlreadyExists), fs)
     | _ \<Rightarrow> (Ok (), fs))"

definition ensure_repository_directory :: "str list \<Rightarrow> bool \<Rightarrow> unit pdm_op" where
  "ensure_repository_directory directory create =
     op_then (if create then create_dir_all else (\<lambda>fs. (Ok (), fs))) (\<lambda>_.
     op_then (op_read (\<lambda>fs. validate_repository_directory fs [])) (\<lambda>_.
     ensure_components create [] directory))"

definition read_bounded :: "bytes option \<Rightarrow> nat \<Rightarrow> pdm_error \<Rightarrow> pdm_error + bytes" where
  "read_bounded content limit limit_error =
     and_then (ok_or content (PdmIo NotFound)) (\<lambda>bs.
     and_then (guard (\<not> length bs > limit) limit_error) (\<lambda>_. Ok bs))"

definition file_content :: "repository \<Rightarrow> str list \<Rightarrow> bytes option" where
  "file_content fs path = (case bt_get fs path of Some (RegularFile bs) \<Rightarrow> Some bs | _ \<Rightarrow> None)"

definition check_directory :: "str list \<Rightarrow> repository \<Rightarrow> pdm_error + unit" where
  "check_directory directory fs = fst (ensure_repository_directory directory False fs)"

definition read_bounded_repository_file :: "str list \<Rightarrow> nat \<Rightarrow> pdm_error \<Rightarrow> repository \<Rightarrow> pdm_error + bytes" where
  "read_bounded_repository_file path limit limit_error fs =
     and_then (check_directory (butlast path) fs) (\<lambda>_.
     and_then (validate_repository_file fs path) (\<lambda>_.
     and_then (read_bounded (file_content fs path) limit limit_error) (\<lambda>bs.
     and_then (check_directory (butlast path) fs) (\<lambda>_.
     and_then (validate_repository_file fs path) (\<lambda>_. Ok bs)))))"

definition release_manifest_path :: "str \<Rightarrow> pdm_error + str list" where
  "release_manifest_path release_id =
     and_then (validate_sha256 release_id) (\<lambda>_. Ok [''releases'', release_id @ ''.json''])"

definition release_object_path :: "str \<Rightarrow> pdm_error + str list" where
  "release_object_path sha256 = and_then (validate_sha256 sha256) (\<lambda>_. Ok [''objects'', take 2 sha256, sha256])"

text \<open>
  A temporary file is written beside its target and renamed to it unless it is there; in a run that is
  not interrupted it is never seen.
\<close>

definition persist_noclobber :: "str list \<Rightarrow> bytes \<Rightarrow> bool pdm_op" where
  "persist_noclobber path bs = (\<lambda>fs.
     if bt_get fs path = None then (Ok True, bt_insert path (RegularFile bs) fs) else (Ok False, fs))"

definition verify_existing_object ::
  "'r pdm_world \<Rightarrow> str list \<Rightarrow> object_identity \<Rightarrow> bytes \<Rightarrow> repository \<Rightarrow> pdm_error + unit" where
  "verify_existing_object w path i expected fs =
     and_then (read_bounded_repository_file path MAX_RELEASE_DEPENDENCY_BYTES (ObjectConflict (oi_sha256 i)) fs) (\<lambda>actual.
     guard (\<not> (actual \<noteq> expected \<or> object_identity_of w actual \<noteq> i)) (ObjectConflict (oi_sha256 i)))"

definition write_content_addressed_object :: "'r pdm_world \<Rightarrow> object_identity \<Rightarrow> bytes \<Rightarrow> unit pdm_op" where
  "write_content_addressed_object w i bs =
     op_then (op_read (\<lambda>_. release_object_path (oi_sha256 i))) (\<lambda>path fs.
       case symlink_metadata fs path of
         Inr _ \<Rightarrow>
           (and_then (validate_repository_file fs path) (\<lambda>_. verify_existing_object w path i bs fs), fs)
       | Inl e \<Rightarrow>
           if e = PdmIo NotFound then
             op_then (ensure_repository_directory (butlast path) True) (\<lambda>_.
             op_then (op_read (check_directory (butlast path))) (\<lambda>_.
             op_then (persist_noclobber path bs) (\<lambda>placed.
               if placed then (\<lambda>fs. (Ok (), fs))
               else op_read (\<lambda>fs.
                 and_then (validate_repository_file fs path) (\<lambda>_. verify_existing_object w path i bs fs))))) fs
           else (Err e, fs))"

definition write_manifest :: "str \<Rightarrow> bytes \<Rightarrow> unit pdm_op" where
  "write_manifest release_id bs =
     op_then (op_read (\<lambda>_. release_manifest_path release_id)) (\<lambda>path.
     op_then (ensure_repository_directory (butlast path) True) (\<lambda>_ fs.
       case symlink_metadata fs path of
         Inr _ \<Rightarrow> (and_then (validate_repository_file fs path) (\<lambda>_. Err ReleaseAlreadyExists), fs)
       | Inl e \<Rightarrow>
           if e = PdmIo NotFound then
             op_then (op_read (check_directory (butlast path))) (\<lambda>_.
             op_then (persist_noclobber path bs) (\<lambda>placed.
               if placed then (\<lambda>fs. (Ok (), fs)) else (\<lambda>fs. (Err ReleaseAlreadyExists, fs)))) fs
           else (Err e, fs)))"

definition unless_found :: "pdm_error \<Rightarrow> pdm_error + 'a \<Rightarrow> pdm_error + 'a" where
  "unless_found absent r = map_err (\<lambda>e. if e = PdmIo NotFound then absent else e) r"

definition read_object :: "'r pdm_world \<Rightarrow> object_identity \<Rightarrow> repository \<Rightarrow> pdm_error + bytes" where
  "read_object w expected fs =
     and_then (validate_object_identity expected) (\<lambda>_.
     and_then (release_object_path (oi_sha256 expected)) (\<lambda>path.
     and_then (unless_found (MissingObject (oi_sha256 expected))
       (read_bounded_repository_file path MAX_RELEASE_DEPENDENCY_BYTES (ObjectTampered (oi_sha256 expected)) fs)) (\<lambda>bs.
     and_then (guard (object_identity_of w bs = expected) (ObjectTampered (oi_sha256 expected))) (\<lambda>_. Ok bs))))"

definition read_manifest :: "'r pdm_world \<Rightarrow> str \<Rightarrow> repository \<Rightarrow> pdm_error + release_manifest" where
  "read_manifest w release_id fs =
     and_then (validate_sha256 release_id) (\<lambda>_.
     and_then (release_manifest_path release_id) (\<lambda>path.
     and_then (unless_found (MissingRelease release_id)
       (read_bounded_repository_file path MAX_RELEASE_MANIFEST_BYTES ManifestTooLarge fs)) (\<lambda>bs.
     and_then (ok_or (pw_parse_manifest w bs) PdmJson) (\<lambda>m.
     and_then (validate_manifest w m release_id) (\<lambda>_. Ok m)))))"

section \<open>Creating and opening releases\<close>

definition add_dependency ::
  "'r pdm_world \<Rightarrow> nat \<Rightarrow> nat \<Rightarrow> str list \<times> nat \<times> (released_dependency \<times> bytes) list \<Rightarrow> dependency_input \<Rightarrow>
   pdm_error + str list \<times> nat \<times> (released_dependency \<times> bytes) list" where
  "add_dependency w maximum_dependency_bytes maximum_total_bytes st d =
     (case st of (logical_paths, total_bytes, objects) \<Rightarrow>
       and_then (validate_logical_path (di_logical_path d)) (\<lambda>_.
       and_then (guard (di_logical_path d \<notin> set logical_paths) DuplicateLogicalPath) (\<lambda>_.
       let remaining_bytes = maximum_total_bytes - total_bytes;
           read_limit = min maximum_dependency_bytes remaining_bytes;
           limit_error = (if maximum_dependency_bytes \<le> remaining_bytes then DependencyTooLarge else DependenciesTooLarge) in
       and_then (read_bounded (pw_files w (di_source_path d)) read_limit limit_error) (\<lambda>bs.
       Ok (bs_insert (di_logical_path d) logical_paths, total_bytes + length bs,
           objects @ [(\<lparr>dp_logical_path = di_logical_path d, dp_object = object_identity_of w bs\<rparr>, bs)])))))"

definition read_release_dependencies ::
  "'r pdm_world \<Rightarrow> dependency_input list \<Rightarrow> nat \<Rightarrow> nat \<Rightarrow> pdm_error + (released_dependency \<times> bytes) list" where
  "read_release_dependencies w dependencies maximum_dependency_bytes maximum_total_bytes =
     and_then (try_fold (add_dependency w maximum_dependency_bytes maximum_total_bytes) ([], 0, []) dependencies)
       (\<lambda>(_, _, objects). Ok (sort_key (\<lambda>(d, _). dp_logical_path d) objects))"

definition release_payload_of ::
  "'r pdm_world \<Rightarrow> release_manifest option \<Rightarrow> 'r snapshot \<Rightarrow> bytes \<Rightarrow> released_dependency list \<Rightarrow> release_audit \<Rightarrow>
   release_payload" where
  "release_payload_of w parent snapshot document_bytes dependencies audit =
     \<lparr>pl_schema = LOCAL_PDM_RELEASE_SCHEMA_V1, pl_parent_release_id = map_option mf_release_id parent,
      pl_document = \<lparr>rd_document_id = pw_document_id w (sn_product snapshot), rd_revision = sn_revision_id snapshot,
        rd_canonical_digest = pw_digest w (sn_product snapshot), rd_units = ''millimetres'',
        rd_object = object_identity_of w document_bytes\<rparr>,
      pl_dependencies = dependencies, pl_audit = audit\<rparr>"

definition manifest_of :: "'r pdm_world \<Rightarrow> release_payload \<Rightarrow> release_manifest" where
  "manifest_of w payload =
     \<lparr>mf_schema = pl_schema payload, mf_release_id = canonical_payload_identity w payload,
      mf_parent_release_id = pl_parent_release_id payload, mf_document = pl_document payload,
      mf_dependencies = pl_dependencies payload, mf_audit = pl_audit payload\<rparr>"

text \<open>Everything before the first write: the manifest, and the objects with their content.\<close>

definition plan_release ::
  "'r pdm_world \<Rightarrow> release_manifest option \<Rightarrow> 'r snapshot \<times> container_data \<Rightarrow> u64 \<Rightarrow> str \<Rightarrow> dependency_input list \<Rightarrow>
   release_audit \<Rightarrow> pdm_error + release_manifest \<times> bytes \<times> (released_dependency \<times> bytes) list" where
  "plan_release w parent source expected_revision expected_canonical_digest dependencies audit =
     (case source of (snapshot, d) \<Rightarrow>
       and_then (guard (\<not> (sn_revision_id snapshot \<noteq> expected_revision \<or>
         pw_digest w (sn_product snapshot) \<noteq> expected_canonical_digest)) StaleSnapshot) (\<lambda>_.
       and_then (validate_audit audit) (\<lambda>_.
       and_then (guard (\<not> length dependencies > MAX_RELEASE_DEPENDENCIES) TooManyDependencies) (\<lambda>_.
       and_then (map_err PdmPersistence (save_container (pw_sha w) (pw_encode w) (pw_imported w) snapshot d)) (\<lambda>document_bytes.
       and_then (read_release_dependencies w dependencies MAX_RELEASE_DEPENDENCY_BYTES MAX_RELEASE_TOTAL_DEPENDENCY_BYTES)
         (\<lambda>dependency_objects.
       let payload = release_payload_of w parent snapshot document_bytes (map fst dependency_objects) audit in
       and_then (guard (\<not> (case parent of None \<Rightarrow> False | Some m \<Rightarrow>
           rd_object (mf_document m) = rd_object (pl_document payload) \<and> mf_dependencies m = pl_dependencies payload))
         NoChangesAgainstParent) (\<lambda>_.
       let manifest = manifest_of w payload in
       and_then (guard (\<not> length (pw_manifest_json w manifest) > MAX_RELEASE_MANIFEST_BYTES) ManifestTooLarge) (\<lambda>_.
       Ok (manifest, document_bytes, dependency_objects)))))))))"

definition create_release_internal ::
  "'r pdm_world \<Rightarrow> release_manifest option \<Rightarrow> 'r snapshot \<times> container_data \<Rightarrow> u64 \<Rightarrow> str \<Rightarrow> dependency_input list \<Rightarrow>
   release_audit \<Rightarrow> release_manifest pdm_op" where
  "create_release_internal w parent source expected_revision expected_canonical_digest dependencies audit =
     op_then (op_read (\<lambda>_. plan_release w parent source expected_revision expected_canonical_digest dependencies audit))
       (\<lambda>(manifest, document_bytes, dependency_objects).
     op_then (write_content_addressed_object w (rd_object (mf_document manifest)) document_bytes) (\<lambda>_.
     op_then (op_each (\<lambda>(dependency, bs). write_content_addressed_object w (dp_object dependency) bs) dependency_objects) (\<lambda>_.
     op_then (write_manifest (mf_release_id manifest) (pw_manifest_json w manifest)) (\<lambda>_ fs. (Ok manifest, fs)))))"

text \<open>
  Loading a file, as far as a release looks at it: the snapshot, the data beside it and the digest it was saved with.
  A release writes no history; the marks that the history of another file adds to its data are left out.
\<close>

definition load_container :: "'r pdm_world \<Rightarrow> bytes \<Rightarrow> persistence_error + 'r snapshot \<times> container_data \<times> str" where
  "load_container w bs =
     and_then (container_parts (pw_sha w) (pw_decode_rule_program w) bs) (\<lambda>parts.
     and_then (pw_load_document w (pt_document parts) (pt_data parts)) (\<lambda>(snapshot, d, source_digest).
     and_then (case pt_history parts of None \<Rightarrow> Ok ()
       | Some history \<Rightarrow>
           if pt_program parts = None then
             (case current_history_program (pw_sha w) (pw_decode_rule_program w) history (pt_document parts)
                 (sn_revision_id snapshot) of
                Inr (Inl e) \<Rightarrow> Err e
              | _ \<Rightarrow> Ok ())
           else Ok ()) (\<lambda>_.
     Ok (snapshot, d, source_digest))))"

definition load :: "'r pdm_world \<Rightarrow> bytes \<Rightarrow> persistence_error + 'r snapshot \<times> container_data \<times> str" where
  "load w bs = (if prefix CONTAINER_MAGIC bs then load_container w bs else pw_load_document w bs container_data_default)"

record 'r verified_release =
  vr_manifest :: release_manifest
  vr_snapshot :: "'r snapshot"
  vr_container_data :: container_data
  vr_dependency_objects :: "(str, object_identity) btree_map"

definition open_release :: "'r pdm_world \<Rightarrow> str \<Rightarrow> repository \<Rightarrow> pdm_error + 'r verified_release" where
  "open_release w release_id fs =
     and_then (read_manifest w release_id fs) (\<lambda>manifest.
     and_then (read_object w (rd_object (mf_document manifest)) fs) (\<lambda>document_bytes.
     and_then (map_err PdmPersistence (load w document_bytes)) (\<lambda>(snapshot, d, source_digest).
     and_then (guard (\<not> (pw_document_id w (sn_product snapshot) \<noteq> rd_document_id (mf_document manifest) \<or>
       sn_revision_id snapshot \<noteq> rd_revision (mf_document manifest) \<or>
       source_digest \<noteq> rd_canonical_digest (mf_document manifest) \<or>
       rd_units (mf_document manifest) \<noteq> ''millimetres'')) DocumentIdentityMismatch) (\<lambda>_.
     and_then (try_fold (\<lambda>objects dependency.
         and_then (read_object w (dp_object dependency) fs) (\<lambda>_.
         Ok (bt_insert (dp_logical_path dependency) (dp_object dependency) objects))) [] (mf_dependencies manifest)) (\<lambda>objects.
     Ok \<lparr>vr_manifest = manifest, vr_snapshot = snapshot, vr_container_data = d, vr_dependency_objects = objects\<rparr>)))))"

definition create_release_with_container ::
  "'r pdm_world \<Rightarrow> 'r snapshot \<times> container_data \<Rightarrow> u64 \<Rightarrow> str \<Rightarrow> dependency_input list \<Rightarrow> release_audit \<Rightarrow>
   release_manifest pdm_op" where
  "create_release_with_container w source expected_revision expected_canonical_digest dependencies audit =
     create_release_internal w None source expected_revision expected_canonical_digest dependencies audit"

definition create_child_release_with_container ::
  "'r pdm_world \<Rightarrow> str \<Rightarrow> 'r snapshot \<times> container_data \<Rightarrow> u64 \<Rightarrow> str \<Rightarrow> dependency_input list \<Rightarrow> release_audit \<Rightarrow>
   release_manifest pdm_op" where
  "create_child_release_with_container w parent_release_id source expected_revision expected_canonical_digest dependencies audit =
     op_then (op_read (open_release w parent_release_id)) (\<lambda>parent.
     op_then (op_read (\<lambda>_. guard (rd_document_id (mf_document (vr_manifest parent)) = pw_document_id w (sn_product (fst source)))
       ParentDocumentMismatch)) (\<lambda>_.
     create_release_internal w (Some (vr_manifest parent)) source expected_revision expected_canonical_digest dependencies audit))"

definition create_release ::
  "'r pdm_world \<Rightarrow> 'r snapshot \<Rightarrow> u64 \<Rightarrow> str \<Rightarrow> dependency_input list \<Rightarrow> release_audit \<Rightarrow> release_manifest pdm_op" where
  "create_release w snapshot expected_revision expected_canonical_digest dependencies audit =
     create_release_with_container w (snapshot, container_data_default) expected_revision expected_canonical_digest
       dependencies audit"

definition create_child_release ::
  "'r pdm_world \<Rightarrow> str \<Rightarrow> 'r snapshot \<Rightarrow> u64 \<Rightarrow> str \<Rightarrow> dependency_input list \<Rightarrow> release_audit \<Rightarrow> release_manifest pdm_op" where
  "create_child_release w parent_release_id snapshot expected_revision expected_canonical_digest dependencies audit =
     create_child_release_with_container w parent_release_id (snapshot, container_data_default) expected_revision
       expected_canonical_digest dependencies audit"

section \<open>Lineage\<close>

function ancestry_loop ::
  "'r pdm_world \<Rightarrow> repository \<Rightarrow> u64 \<Rightarrow> str list \<Rightarrow> release_manifest \<Rightarrow> pdm_error + str list" where
  "ancestry_loop w fs document_id ancestry m =
     (if length ancestry \<ge> MAX_RELEASE_LINEAGE_DEPTH then Err LineageTooDeep
      else if rd_document_id (mf_document m) \<noteq> document_id \<or> mf_release_id m \<in> set ancestry then Err InvalidManifest
      else
        (case mf_parent_release_id m of
           None \<Rightarrow> Ok (ancestry @ [mf_release_id m])
         | Some parent \<Rightarrow>
             and_then (read_manifest w parent fs) (\<lambda>p. ancestry_loop w fs document_id (ancestry @ [mf_release_id m]) p)))"
  by pat_completeness auto
termination
  by (relation "measure (\<lambda>(w, fs, document_id, ancestry, m). MAX_RELEASE_LINEAGE_DEPTH - length ancestry)") auto

declare ancestry_loop.simps [simp del]

definition release_ancestry :: "'r pdm_world \<Rightarrow> repository \<Rightarrow> release_manifest \<Rightarrow> pdm_error + str list" where
  "release_ancestry w fs release = ancestry_loop w fs (rd_document_id (mf_document release)) [] release"

datatype release_relationship = Same | LeftAncestor | RightAncestor | Diverged str | Unrelated

datatype conflict_verdict = AlreadyCurrent | FastForward | IncomingBehind | DivergedConflict | UnrelatedConflict

datatype dependency_change_kind = Added | Removed | Modified

record dependency_change =
  dc_logical_path :: str
  dc_kind :: dependency_change_kind

record release_comparison =
  cm_left_release_id :: str
  cm_right_release_id :: str
  cm_relationship :: release_relationship
  cm_conflict_verdict :: conflict_verdict
  cm_document_changed :: bool
  cm_dependency_changes :: "dependency_change list"

definition release_relationship_of ::
  "'r pdm_world \<Rightarrow> repository \<Rightarrow> release_manifest \<Rightarrow> release_manifest \<Rightarrow> pdm_error + release_relationship" where
  "release_relationship_of w fs left right =
     and_then (release_ancestry w fs left) (\<lambda>left_ancestry.
     and_then (release_ancestry w fs right) (\<lambda>right_ancestry.
     if mf_release_id left \<in> set right_ancestry then Ok LeftAncestor
     else if mf_release_id right \<in> set left_ancestry then Ok RightAncestor
     else (case find (\<lambda>release_id. release_id \<in> set right_ancestry) left_ancestry of
         Some common_ancestor \<Rightarrow> Ok (Diverged common_ancestor)
       | None \<Rightarrow> Ok Unrelated)))"

definition verdict_of :: "release_relationship \<Rightarrow> conflict_verdict" where
  "verdict_of relationship =
     (case relationship of Same \<Rightarrow> AlreadyCurrent | LeftAncestor \<Rightarrow> FastForward | RightAncestor \<Rightarrow> IncomingBehind
      | Diverged _ \<Rightarrow> DivergedConflict | Unrelated \<Rightarrow> UnrelatedConflict)"

definition dependency_map :: "released_dependency list \<Rightarrow> (str, object_identity) btree_map" where
  "dependency_map ds = fold (\<lambda>d m. bt_insert (dp_logical_path d) (dp_object d) m) ds []"

definition change_of ::
  "(str, object_identity) btree_map \<Rightarrow> (str, object_identity) btree_map \<Rightarrow> str \<Rightarrow> dependency_change option" where
  "change_of left right path =
     (case (bt_get left path, bt_get right path) of
        (None, Some _) \<Rightarrow> Some \<lparr>dc_logical_path = path, dc_kind = Added\<rparr>
      | (Some _, None) \<Rightarrow> Some \<lparr>dc_logical_path = path, dc_kind = Removed\<rparr>
      | (Some l, Some r) \<Rightarrow> if l \<noteq> r then Some \<lparr>dc_logical_path = path, dc_kind = Modified\<rparr> else None
      | (None, None) \<Rightarrow> None)"

definition dependency_changes :: "released_dependency list \<Rightarrow> released_dependency list \<Rightarrow> dependency_change list" where
  "dependency_changes left right =
     (let l = dependency_map left; r = dependency_map right
      in List.map_filter (change_of l r) (bs_of_list (bt_keys l @ bt_keys r)))"

definition compare_releases ::
  "'r pdm_world \<Rightarrow> str \<Rightarrow> str \<Rightarrow> repository \<Rightarrow> pdm_error + release_comparison" where
  "compare_releases w left_release_id right_release_id fs =
     and_then (read_manifest w left_release_id fs) (\<lambda>left.
     and_then (read_manifest w right_release_id fs) (\<lambda>right.
     and_then
       (if mf_release_id left = mf_release_id right then
          and_then (release_ancestry w fs left) (\<lambda>_. Ok Same)
        else if rd_document_id (mf_document left) \<noteq> rd_document_id (mf_document right) then
          and_then (release_ancestry w fs left) (\<lambda>_. and_then (release_ancestry w fs right) (\<lambda>_. Ok Unrelated))
        else release_relationship_of w fs left right) (\<lambda>relationship.
     Ok \<lparr>cm_left_release_id = mf_release_id left, cm_right_release_id = mf_release_id right,
         cm_relationship = relationship, cm_conflict_verdict = verdict_of relationship,
         cm_document_changed = (rd_object (mf_document left) \<noteq> rd_object (mf_document right) \<or>
           rd_canonical_digest (mf_document left) \<noteq> rd_canonical_digest (mf_document right)),
         cm_dependency_changes = dependency_changes (mf_dependencies left) (mf_dependencies right)\<rparr>)))"


section \<open>The catalog\<close>

record catalog_entry =
  ca_release_id :: str
  ca_parent_release_id :: "str option"
  ca_document_id :: u64
  ca_revision :: u64
  ca_canonical_digest :: str
  ca_dependency_count :: nat
  ca_audit :: release_audit

definition strip_suffix :: "str \<Rightarrow> str \<Rightarrow> str option" where
  "strip_suffix ending name =
     (if length ending \<le> length name \<and> drop (length name - length ending) name = ending
      then Some (take (length name - length ending) name) else None)"

definition catalog_name :: "repository \<Rightarrow> str list \<Rightarrow> str \<Rightarrow> pdm_error + str list" where
  "catalog_name fs release_ids name =
     and_then (guard (length release_ids \<noteq> MAX_RELEASE_CATALOG_ENTRIES) TooManyReleases) (\<lambda>_.
     and_then (guard (case bt_get fs [''releases'', name] of Some node \<Rightarrow> is_regular node | None \<Rightarrow> False) InvalidManifest) (\<lambda>_.
     and_then (guard (valid_utf8 name) (NonUtf8ReleaseEntry name)) (\<lambda>_.
     and_then (ok_or (strip_suffix ''.json'' name) InvalidManifest) (\<lambda>release_id.
     and_then (validate_sha256 release_id) (\<lambda>_. Ok (release_ids @ [release_id]))))))"

definition read_dir :: "'r pdm_world \<Rightarrow> repository \<Rightarrow> str list \<Rightarrow> str list" where
  "read_dir w fs directory =
     pw_listing w (List.map_filter (\<lambda>path. if path \<noteq> [] \<and> butlast path = directory then Some (last path) else None) (bt_keys fs))"

definition catalog_entry_of :: "release_manifest \<Rightarrow> catalog_entry" where
  "catalog_entry_of m =
     \<lparr>ca_release_id = mf_release_id m, ca_parent_release_id = mf_parent_release_id m,
      ca_document_id = rd_document_id (mf_document m), ca_revision = rd_revision (mf_document m),
      ca_canonical_digest = rd_canonical_digest (mf_document m), ca_dependency_count = length (mf_dependencies m),
      ca_audit = mf_audit m\<rparr>"

function lineage_loop ::
  "(str, catalog_entry) btree_map \<Rightarrow> catalog_entry \<Rightarrow> str list \<Rightarrow> catalog_entry \<Rightarrow> pdm_error + unit" where
  "lineage_loop by_id entry seen e =
     (if length seen \<ge> MAX_RELEASE_LINEAGE_DEPTH then Err LineageTooDeep
      else if ca_release_id e \<in> set seen then Err InvalidManifest
      else
        (case ca_parent_release_id e of
           None \<Rightarrow> Ok ()
         | Some parent_release_id \<Rightarrow>
             and_then (ok_or (bt_get by_id parent_release_id) (MissingRelease parent_release_id)) (\<lambda>parent.
             and_then (guard (ca_document_id parent = ca_document_id entry) ParentDocumentMismatch) (\<lambda>_.
             lineage_loop by_id entry (ca_release_id e # seen) parent))))"
  by pat_completeness auto
termination
  by (relation "measure (\<lambda>(by_id, entry, seen, e). MAX_RELEASE_LINEAGE_DEPTH - length seen)") auto

declare lineage_loop.simps [simp del]

definition catalog_by_id :: "catalog_entry list \<Rightarrow> (str, catalog_entry) btree_map" where
  "catalog_by_id catalog = fold (\<lambda>e m. bt_insert (ca_release_id e) e m) catalog []"

definition validate_catalog_lineage :: "catalog_entry list \<Rightarrow> pdm_error + unit" where
  "validate_catalog_lineage catalog =
     try_each (\<lambda>entry. lineage_loop (catalog_by_id catalog) entry [] entry) catalog"

definition release_catalog :: "'r pdm_world \<Rightarrow> repository \<Rightarrow> pdm_error + catalog_entry list" where
  "release_catalog w fs =
     (case check_directory [''releases''] fs of
        Inl e \<Rightarrow> if e = PdmIo NotFound then Ok [] else Err e
      | Inr _ \<Rightarrow>
          and_then (try_fold (catalog_name fs) [] (read_dir w fs [''releases''])) (\<lambda>release_ids.
          and_then (try_map (\<lambda>release_id. and_then (read_manifest w release_id fs) (\<lambda>m. Ok (catalog_entry_of m)))
            (sort release_ids)) (\<lambda>catalog.
          and_then (validate_catalog_lineage catalog) (\<lambda>_.
          Ok (sort_key (\<lambda>e. (au_created_unix_ms (ca_audit e), ca_release_id e)) catalog)))))"


end
