(* ===== verification/Ketchup_Release.thy ===== *)
theory Ketchup_Release
  imports Ketchup_Pdm
begin

text \<open>
  What the release store promises: a file that is there never changes, a manifest appears last and only for a release
  that succeeded, what was released opens again, the lineage of a release is followed at most 256 steps, and the
  comparison of two releases decides which of them comes from the other.
\<close>

section \<open>What an operation leaves of the repository\<close>

text \<open>A reflexive and transitive relation that holds over every step of an operation holds over the operation.\<close>

locale preserved =
  fixes R :: "repository \<Rightarrow> repository \<Rightarrow> bool"
  assumes R_refl: "R fs fs"
    and R_trans: "R fs fs1 \<Longrightarrow> R fs1 fs2 \<Longrightarrow> R fs fs2"
begin

definition over :: "'a pdm_op \<Rightarrow> bool" where
  "over m = (\<forall>fs. R fs (snd (m fs)))"

lemma over_result: "over m \<Longrightarrow> m fs = (r, fs') \<Longrightarrow> R fs fs'"
  unfolding over_def by (metis snd_conv)

lemma over_then [intro]: "over m \<Longrightarrow> (\<And>x. over (k x)) \<Longrightarrow> over (op_then m k)"
  by (auto simp: over_def op_then_def split: prod.splits sum.splits) (metis R_trans snd_conv)+

lemma over_read [intro, simp]: "over (op_read f)"
  by (simp add: over_def op_read_def R_refl)

lemma over_return [intro, simp]: "over (\<lambda>fs. (f fs, fs))"
  by (simp add: over_def R_refl)

lemma over_match:
  "(\<And>e. over (m e)) \<Longrightarrow> over (\<lambda>fs. case f fs of Inr x \<Rightarrow> (g x fs, fs) | Inl e \<Rightarrow> if e = e0 then m e fs else (h e, fs))"
  by (auto simp: over_def R_refl split: sum.splits)

lemma over_each [intro]: "(\<And>x. over (f x)) \<Longrightarrow> over (op_each f xs)"
  by (induction xs) auto

end

definition keeps :: "repository \<Rightarrow> repository \<Rightarrow> bool" where
  "keeps fs fs' \<longleftrightarrow> (\<forall>path node. bt_get fs path = Some node \<longrightarrow> bt_get fs' path = Some node)"

definition same_releases :: "repository \<Rightarrow> repository \<Rightarrow> bool" where
  "same_releases fs fs' \<longleftrightarrow> (\<forall>name. bt_get fs' [''releases'', name] = bt_get fs [''releases'', name])"

interpretation kp: preserved keeps
  by unfold_locales (auto simp: keeps_def)

interpretation sr: preserved same_releases
  by unfold_locales (auto simp: same_releases_def)

lemma keeps_insert [simp]: "bt_get fs path = None \<Longrightarrow> keeps fs (bt_insert path node fs)"
  by (auto simp: keeps_def)

lemma keepsD: "keeps fs fs' \<Longrightarrow> bt_get fs path = Some node \<Longrightarrow> bt_get fs' path = Some node"
  by (simp add: keeps_def)

lemma op_then_Inr:
  "op_then m k fs = (Inr y, fs') \<longleftrightarrow> (\<exists>x fs1. m fs = (Inr x, fs1) \<and> k x fs1 = (Inr y, fs'))"
  by (auto simp: op_then_def split: prod.splits sum.splits)

lemma op_then_Inl:
  "op_then m k fs = (Inl e, fs') \<longleftrightarrow> m fs = (Inl e, fs') \<or> (\<exists>x fs1. m fs = (Inr x, fs1) \<and> k x fs1 = (Inl e, fs'))"
  by (auto simp: op_then_def split: prod.splits sum.splits)

lemma op_read_eq: "op_read f fs = (r, fs') \<longleftrightarrow> f fs = r \<and> fs' = fs"
  by (auto simp: op_read_def)

lemmas op_simps = op_then_Inr op_then_Inl op_read_eq

lemma kp_ensure_components: "kp.over (ensure_components create here names)"
proof (induction names arbitrary: here)
  case Nil
  then show ?case by simp
next
  case (Cons name names)
  have "kp.over (\<lambda>fs. (Inr () :: pdm_error + unit, if create \<and> bt_get fs (here @ [name]) = None
     then bt_insert (here @ [name]) Directory fs else fs))"
    by (auto simp: kp.over_def kp.R_refl)
  with Cons.IH show ?case by (auto intro!: kp.over_then)
qed

lemma kp_ensure_directory: "kp.over (ensure_repository_directory directory create)"
proof -
  have "kp.over create_dir_all" by (auto simp: kp.over_def create_dir_all_def kp.R_refl split: option.splits fs_node.splits)
  then show ?thesis by (auto simp: ensure_repository_directory_def intro!: kp.over_then kp_ensure_components)
qed

lemma kp_persist: "kp.over (persist_noclobber path bs)"
  by (auto simp: kp.over_def persist_noclobber_def kp.R_refl)


lemma kp_write_object: "kp.over (write_content_addressed_object w i bs)"
  unfolding write_content_addressed_object_def
  by (intro kp.over_then kp.over_read kp.over_match) (auto intro!: kp.over_then kp_ensure_directory kp_persist)

lemma kp_write_manifest: "kp.over (write_manifest release_id bs)"
  unfolding write_manifest_def
  by (intro kp.over_then kp.over_read kp_ensure_directory kp.over_match) (auto intro!: kp.over_then kp_persist)

lemma kp_create_release:
  "kp.over (create_release_internal w parent source expected_revision expected_canonical_digest dependencies audit)"
  unfolding create_release_internal_def
  by (auto intro!: kp.over_then kp.over_each kp_write_object kp_write_manifest split: prod.splits)

text \<open>Nothing but the last step of \<^verbatim>\<open>write_manifest\<close> adds to the releases.\<close>

lemma sr_ensure_components:
  "(\<And>i n. here @ take i names \<noteq> [''releases'', n]) \<Longrightarrow> sr.over (ensure_components create here names)"
proof (induction names arbitrary: here)
  case Nil
  then show ?case by simp
next
  case (Cons name names)
  have "here @ [name] \<noteq> [''releases'', n]" for n using Cons.prems [of 1 n] by simp
  then have "sr.over (\<lambda>fs. (Inr () :: pdm_error + unit, if create \<and> bt_get fs (here @ [name]) = None
     then bt_insert (here @ [name]) Directory fs else fs))"
    by (auto simp: sr.over_def same_releases_def dest: sym)
  moreover have "sr.over (ensure_components create (here @ [name]) names)"
  proof (rule Cons.IH)
    fix i n show "(here @ [name]) @ take i names \<noteq> [''releases'', n]" using Cons.prems [of "Suc i" n] by simp
  qed
  ultimately show ?case by (auto intro!: sr.over_then)
qed

lemma sr_ensure_directory:
  assumes "\<And>i n. take i directory \<noteq> [''releases'', n]"
  shows "sr.over (ensure_repository_directory directory create)"
proof -
  have "sr.over create_dir_all"
    by (auto simp: sr.over_def create_dir_all_def sr.R_refl same_releases_def split: option.splits fs_node.splits)
  then show ?thesis
    using assms by (auto simp: ensure_repository_directory_def intro!: sr.over_then sr_ensure_components)
qed

lemma object_path_Inr: "release_object_path sha = Inr path \<longleftrightarrow> validate_sha256 sha = Inr () \<and> path = [''objects'', take 2 sha, sha]"
  by (auto simp: release_object_path_def result_simps)

lemma manifest_path_Inr:
  "release_manifest_path release_id = Inr path \<longleftrightarrow> validate_sha256 release_id = Inr () \<and> path = [''releases'', release_id @ ''.json'']"
  by (auto simp: release_manifest_path_def result_simps)

lemma objects_not_releases: "take i [''objects'', b] \<noteq> [''releases'', n]"
  by (cases i rule: nat.exhaust; simp)

lemma sr_write_object: "sr.over (write_content_addressed_object w i bs)"
proof (cases "release_object_path (oi_sha256 i)")
  case (Inl e)
  then show ?thesis by (simp add: sr.over_def write_content_addressed_object_def op_then_def op_read_def sr.R_refl)
next
  case (Inr path)
  then have p: "path = [''objects'', take 2 (oi_sha256 i), oi_sha256 i]" by (simp add: object_path_Inr)
  have "sr.over (ensure_repository_directory (butlast path) True)" by (rule sr_ensure_directory) (simp add: p take_Cons')
  moreover have "sr.over (persist_noclobber path bs)" by (auto simp: sr.over_def persist_noclobber_def same_releases_def p)
  ultimately have "sr.over (\<lambda>fs. case symlink_metadata fs path of
         Inr _ \<Rightarrow> (and_then (validate_repository_file fs path) (\<lambda>_. verify_existing_object w path i bs fs), fs)
       | Inl e \<Rightarrow> if e = PdmIo NotFound then
             op_then (ensure_repository_directory (butlast path) True) (\<lambda>_.
             op_then (op_read (check_directory (butlast path))) (\<lambda>_.
             op_then (persist_noclobber path bs) (\<lambda>placed.
               if placed then (\<lambda>fs. (Inr (), fs))
               else op_read (\<lambda>fs.
                 and_then (validate_repository_file fs path) (\<lambda>_. verify_existing_object w path i bs fs))))) fs
           else (Inl e, fs))"
    by (intro sr.over_match) (auto intro!: sr.over_then)
  with Inr show ?thesis by (simp add: sr.over_def write_content_addressed_object_def op_then_def op_read_def)
qed

section \<open>Reading back\<close>

definition directory_at :: "repository \<Rightarrow> str list \<Rightarrow> bool" where
  "directory_at fs directory = list_all (\<lambda>i. bt_get fs (take i directory) = Some Directory) [0 ..< Suc (length directory)]"

definition file_at :: "repository \<Rightarrow> str list \<Rightarrow> bytes \<Rightarrow> bool" where
  "file_at fs path bs = (directory_at fs (butlast path) \<and> bt_get fs path = Some (RegularFile bs))"

lemma directory_at_iff: "directory_at fs directory \<longleftrightarrow> (\<forall>i \<le> length directory. bt_get fs (take i directory) = Some Directory)"
  by (auto simp: directory_at_def list_all_iff less_Suc_eq_le)

lemma metadata_from_Inr:
  "metadata_from fs here names = Inr node \<longleftrightarrow>
     (\<forall>i < length names. bt_get fs (here @ take i names) = Some Directory) \<and> bt_get fs (here @ names) = Some node"
proof (induction names arbitrary: here)
  case Nil
  then show ?case by (simp add: result_simps)
next
  case (Cons name names)
  have "(\<forall>i < length (name # names). bt_get fs (here @ take i (name # names)) = Some Directory) \<longleftrightarrow>
    bt_get fs here = Some Directory \<and> (\<forall>i < length names. bt_get fs ((here @ [name]) @ take i names) = Some Directory)"
    by (simp add: All_less_Suc2)
  with Cons.IH [of "here @ [name]"] show ?case by (auto split: option.splits fs_node.splits)
qed

lemma directory_valid: "validate_repository_directory fs directory = Inr () \<longleftrightarrow> directory_at fs directory"
  by (auto simp: validate_repository_directory_def symlink_metadata_def metadata_from_Inr directory_at_iff result_simps
      le_less)

lemma directory_above: "directory_at fs (upper @ lower) \<Longrightarrow> directory_at fs upper"
  unfolding directory_at_iff
proof (intro allI impI)
  fix i assume "\<forall>i \<le> length (upper @ lower). bt_get fs (take i (upper @ lower)) = Some Directory" and "i \<le> length upper"
  then have "bt_get fs (take i (upper @ lower)) = Some Directory" by (simp del: take_append)
  with \<open>i \<le> length upper\<close> show "bt_get fs (take i upper) = Some Directory" by simp
qed

lemma components_checked:
  assumes "ensure_components create here names fs = (Inr u, fs')" and "directory_at fs here"
  shows "directory_at fs' (here @ names)"
  using assms
proof (induction names arbitrary: here fs)
  case Nil
  then show ?case by simp
next
  case (Cons name names)
  from Cons.prems(1) obtain fs1 where "validate_repository_directory fs1 (here @ [name]) = Inr ()"
    and rest: "ensure_components create (here @ [name]) names fs1 = (Inr u, fs')"
    by (auto simp: op_simps)
  with Cons.IH [OF rest] show ?case by (simp add: directory_valid)
qed

lemma components_unchanged: "ensure_components False here names fs = (r, fs') \<Longrightarrow> fs' = fs"
  by (induction names arbitrary: here) (auto simp: op_then_def op_read_def split: sum.splits)

lemma directory_ensured:
  assumes "ensure_repository_directory directory create fs = (Inr u, fs')"
  shows "directory_at fs' directory"
proof -
  from assms obtain fs1 where "validate_repository_directory fs1 [] = Inr ()"
    and c: "ensure_components create [] directory fs1 = (Inr u, fs')"
    by (auto simp: ensure_repository_directory_def op_simps)
  with components_checked [OF c] show ?thesis by (simp add: directory_valid)
qed

lemma components_found:
  "directory_at fs (here @ names) \<Longrightarrow> ensure_components False here names fs = (Inr (), fs)"
proof (induction names arbitrary: here)
  case Nil
  then show ?case by simp
next
  case (Cons name names)
  have "directory_at fs (here @ [name])"
    using directory_above [of fs "here @ [name]" names] Cons.prems by simp
  then have "validate_repository_directory fs (here @ [name]) = Inr ()" by (simp add: directory_valid)
  with Cons show ?case by (simp add: op_then_def op_read_def)
qed

lemma check_directory_Inr: "check_directory directory fs = Inr u \<longleftrightarrow> directory_at fs directory"
proof
  assume "check_directory directory fs = Inr u"
  then obtain fs' where e: "ensure_repository_directory directory False fs = (Inr u, fs')"
    by (cases "ensure_repository_directory directory False fs") (auto simp: check_directory_def)
  then have "fs' = fs"
    by (auto simp: ensure_repository_directory_def op_simps dest: components_unchanged)
  with directory_ensured [OF e] show "directory_at fs directory" by simp
next
  assume d: "directory_at fs directory"
  then have "validate_repository_directory fs [] = Inr ()"
    using directory_above [of fs "[]" directory] by (simp add: directory_valid)
  with components_found [of fs "[]" directory] d show "check_directory directory fs = Inr u"
    by (simp add: check_directory_def ensure_repository_directory_def op_then_def op_read_def)
qed

lemma repository_file_valid:
  assumes "path \<noteq> []" and "directory_at fs (butlast path)"
  shows "validate_repository_file fs path = Inr u \<longleftrightarrow> (\<exists>bs. bt_get fs path = Some (RegularFile bs))"
proof -
  have "bt_get fs (take i path) = Some Directory" if "i < length path" for i
  proof -
    have "bt_get fs (take i (butlast path)) = Some Directory"
      using assms that by (simp add: directory_at_iff)
    with that show ?thesis by (simp add: take_butlast)
  qed
  then show ?thesis
    by (auto simp: validate_repository_file_def symlink_metadata_def metadata_from_Inr is_regular_def result_simps
        split: fs_node.splits) (metis fs_node.exhaust)
qed

lemma repository_file_read:
  assumes "path \<noteq> []"
  shows "read_bounded_repository_file path limit limit_error fs = Inr bs \<longleftrightarrow> file_at fs path bs \<and> length bs \<le> limit"
  using repository_file_valid [OF assms, of fs]
  by (auto simp: read_bounded_repository_file_def read_bounded_def file_content_def file_at_def check_directory_Inr
      result_simps split: option.splits fs_node.splits)

lemma repository_file_too_long:
  assumes "path \<noteq> []" and "file_at fs path bs" and "limit < length bs"
  shows "read_bounded_repository_file path limit limit_error fs = Inl limit_error"
proof -
  have "check_directory (butlast path) fs = Inr ()" "validate_repository_file fs path = Inr ()"
    using assms repository_file_valid [OF assms(1), of fs] by (auto simp: file_at_def check_directory_Inr)
  with assms show ?thesis
    by (simp add: read_bounded_repository_file_def read_bounded_def file_content_def file_at_def)
qed

lemma keeps_directory: "keeps fs fs' \<Longrightarrow> directory_at fs directory \<Longrightarrow> directory_at fs' directory"
  by (auto simp: directory_at_iff keeps_def)

lemma keeps_file: "keeps fs fs' \<Longrightarrow> file_at fs path bs \<Longrightarrow> file_at fs' path bs"
  by (auto simp: file_at_def keeps_directory keepsD)

section \<open>What a release writes\<close>

abbreviation manifest_file :: "str \<Rightarrow> str list" where
  "manifest_file release_id \<equiv> [''releases'', release_id @ ''.json'']"

abbreviation object_file :: "object_identity \<Rightarrow> str list" where
  "object_file i \<equiv> [''objects'', take 2 (oi_sha256 i), oi_sha256 i]"

definition object_at :: "'r pdm_world \<Rightarrow> repository \<Rightarrow> object_identity \<Rightarrow> bool" where
  "object_at w fs i =
     (case file_content fs (object_file i) of
        None \<Rightarrow> False
      | Some bs \<Rightarrow> file_at fs (object_file i) bs \<and> object_identity_of w bs = i)"

definition release_at :: "'r pdm_world \<Rightarrow> repository \<Rightarrow> release_manifest \<Rightarrow> bool" where
  "release_at w fs m =
     (file_at fs (manifest_file (mf_release_id m)) (pw_manifest_json w m) \<and> object_at w fs (rd_object (mf_document m)) \<and>
      list_all (\<lambda>d. object_at w fs (dp_object d)) (mf_dependencies m))"

lemma object_at_iff: "object_at w fs i \<longleftrightarrow> (\<exists>bs. file_at fs (object_file i) bs \<and> object_identity_of w bs = i)"
  by (auto simp: object_at_def file_content_def file_at_def split: option.splits fs_node.splits)

lemma keeps_object: "keeps fs fs' \<Longrightarrow> object_at w fs i \<Longrightarrow> object_at w fs' i"
  by (auto simp: object_at_iff intro: keeps_file)

lemma keeps_release: "keeps fs fs' \<Longrightarrow> release_at w fs m \<Longrightarrow> release_at w fs' m"
  by (auto simp: release_at_def keeps_file list_all_iff keeps_object)

lemma persisted:
  "persist_noclobber path bs fs = (Inr placed, fs') \<longleftrightarrow>
     (if bt_get fs path = None then placed \<and> fs' = bt_insert path (RegularFile bs) fs else \<not> placed \<and> fs' = fs)"
  by (auto simp: persist_noclobber_def)

lemma existing_verified: "path \<noteq> [] \<Longrightarrow> verify_existing_object w path i bs fs = Inr u \<Longrightarrow> file_at fs path bs"
  by (auto simp: verify_existing_object_def result_simps repository_file_read)

lemma inserted_file: "directory_at fs (butlast path) \<Longrightarrow> bt_get fs path = None \<Longrightarrow> file_at (bt_insert path (RegularFile bs) fs) path bs"
  using keeps_directory [of fs "bt_insert path (RegularFile bs) fs" "butlast path"] by (simp add: file_at_def)

lemma object_written:
  assumes "write_content_addressed_object w i bs fs = (Inr u, fs')"
  shows "file_at fs' (object_file i) bs \<and> validate_sha256 (oi_sha256 i) = Inr ()"
proof -
  let ?p = "object_file i"
  have v: "validate_sha256 (oi_sha256 i) = Inr ()" using assms
    by (auto simp: write_content_addressed_object_def op_simps object_path_Inr)
  show ?thesis
  proof (cases "symlink_metadata fs ?p")
    case (Inr node)
    with assms v have "verify_existing_object w ?p i bs fs = Inr u" "fs' = fs"
      by (auto simp: write_content_addressed_object_def op_simps object_path_Inr result_simps)
    with existing_verified [of ?p w i bs fs u] v show ?thesis by simp
  next
    case (Inl e)
    with assms v obtain u1 fs1 placed where e: "ensure_repository_directory (butlast ?p) True fs = (Inr u1, fs1)"
      and p: "persist_noclobber ?p bs fs1 = (Inr placed, fs')" and "\<not> placed \<Longrightarrow> verify_existing_object w ?p i bs fs' = Inr u"
      by (auto simp: write_content_addressed_object_def op_simps object_path_Inr result_simps persisted split: if_splits)
    with directory_ensured [OF e] inserted_file [of fs1 ?p bs] existing_verified [of ?p w i bs fs' u] v
    show ?thesis by (auto simp: persisted split: if_splits)
  qed
qed

lemma objects_written:
  assumes "op_each (\<lambda>(d, bs). write_content_addressed_object w (dp_object d) bs) ds fs = (Inr u, fs')"
  shows "list_all (\<lambda>(d, bs). file_at fs' (object_file (dp_object d)) bs \<and> validate_sha256 (oi_sha256 (dp_object d)) = Inr ()) ds"
  using assms
proof (induction ds arbitrary: fs)
  case Nil
  then show ?case by simp
next
  case (Cons p ds)
  obtain d bs where p: "p = (d, bs)" by force
  from Cons.prems obtain fs1 where d: "write_content_addressed_object w (dp_object d) bs fs = (Inr (), fs1)"
    and rest: "op_each (\<lambda>(d, bs). write_content_addressed_object w (dp_object d) bs) ds fs1 = (Inr u, fs')"
    by (auto simp: op_simps p)
  have "kp.over (op_each (\<lambda>(d, bs). write_content_addressed_object w (dp_object d) bs) ds)"
    by (auto intro!: kp.over_each kp_write_object split: prod.splits)
  from kp.over_result [OF this rest] object_written [OF d] Cons.IH [OF rest] show ?case by (simp add: p keeps_file)
qed

lemma manifest_written:
  assumes "write_manifest release_id bs fs = (r, fs')"
  shows "case r of Inl e \<Rightarrow> same_releases fs fs'
    | Inr u \<Rightarrow> bt_get fs (manifest_file release_id) = None \<and> file_at fs' (manifest_file release_id) bs \<and>
        (\<forall>name. name \<noteq> release_id @ ''.json'' \<longrightarrow> bt_get fs' [''releases'', name] = bt_get fs [''releases'', name])"
proof (cases "validate_sha256 release_id")
  case (Inl e)
  then have "write_manifest release_id bs fs = (Inl e, fs)"
    by (simp add: write_manifest_def release_manifest_path_def op_then_def op_read_def)
  with assms show ?thesis by (auto simp: sr.R_refl)
next
  case (Inr u)
  let ?p = "manifest_file release_id"
  obtain r1 fs1 where e: "ensure_repository_directory [''releases''] True fs = (r1, fs1)" by force
  have "sr.over (ensure_repository_directory [''releases''] True)" by (rule sr_ensure_directory) (simp add: take_Cons')
  from sr.over_result [OF this e] have same: "same_releases fs fs1" .
  show ?thesis
  proof (cases r1)
    case (Inl x)
    with assms e Inr same show ?thesis by (auto simp: write_manifest_def release_manifest_path_def op_then_def op_read_def)
  next
    case (Inr x)
    with e directory_ensured have d: "directory_at fs1 [''releases'']" by blast
    then have c: "check_directory [''releases''] fs1 = Inr ()" by (simp add: check_directory_Inr)
    obtain y where y: "and_then (validate_repository_file fs1 ?p) (\<lambda>_. Inl ReleaseAlreadyExists) = (Inl y :: pdm_error + unit)"
      by (cases "validate_repository_file fs1 ?p") auto
    have "(\<exists>y. r = Inl y) \<and> fs' = fs1 \<or> bt_get fs1 ?p = None \<and> r = Inr () \<and> fs' = bt_insert ?p (RegularFile bs) fs1"
      using assms e Inr \<open>validate_sha256 release_id = Inr u\<close> c
      by (cases "symlink_metadata fs1 ?p") (auto simp: write_manifest_def release_manifest_path_def op_then_def op_read_def
          persist_noclobber_def y split: if_splits)
    with same d inserted_file [of fs1 ?p bs] show ?thesis by (auto simp: same_releases_def)
  qed
qed

lemma plan_objects:
  assumes "plan_release w parent source expected_revision expected_canonical_digest dependencies audit = Inr (m, document_bytes, ds)"
  shows "rd_object (mf_document m) = object_identity_of w document_bytes" "mf_dependencies m = map fst ds"
    "list_all (\<lambda>(d, bs). dp_object d = object_identity_of w bs) ds"
proof -
  let ?P = "\<lambda>(_, _, objects). list_all (\<lambda>(d, bs). dp_object d = object_identity_of w bs) objects"
  from assms obtain st where f: "try_fold (add_dependency w MAX_RELEASE_DEPENDENCY_BYTES MAX_RELEASE_TOTAL_DEPENDENCY_BYTES) ([], 0, []) dependencies = Inr st"
    and ds: "ds = sort_key (\<lambda>(d, _). dp_logical_path d) (snd (snd st))"
    by (auto simp: plan_release_def read_release_dependencies_def Let_def result_simps split: prod.splits)
  have "?P st"
    by (rule try_fold_invariant [OF f]) (auto simp: add_dependency_def Let_def result_simps split: prod.splits)
  then show "list_all (\<lambda>(d, bs). dp_object d = object_identity_of w bs) ds" by (auto simp: ds list_all_iff)
  from assms show "rd_object (mf_document m) = object_identity_of w document_bytes" "mf_dependencies m = map fst ds"
    by (auto simp: plan_release_def manifest_of_def release_payload_of_def Let_def result_simps split: prod.splits)
qed

lemma kp_objects: "kp.over (op_each (\<lambda>(d, bs). write_content_addressed_object w (dp_object d) bs) ds)"
  by (auto intro!: kp.over_each kp_write_object split: prod.splits)

lemma sr_objects: "sr.over (op_each (\<lambda>(d, bs). write_content_addressed_object w (dp_object d) bs) ds)"
  by (auto intro!: sr.over_each sr_write_object split: prod.splits)

lemma created_steps:
  assumes "create_release_internal w parent source expected_revision expected_canonical_digest dependencies audit fs = (Inr m, fs')"
  obtains document_bytes ds fs1 fs2 where
    "plan_release w parent source expected_revision expected_canonical_digest dependencies audit = Inr (m, document_bytes, ds)"
    "write_content_addressed_object w (rd_object (mf_document m)) document_bytes fs = (Inr (), fs1)"
    "op_each (\<lambda>(d, bs). write_content_addressed_object w (dp_object d) bs) ds fs1 = (Inr (), fs2)"
    "write_manifest (mf_release_id m) (pw_manifest_json w m) fs2 = (Inr (), fs')"
  using assms by (auto simp: create_release_internal_def op_simps split: prod.splits)

lemma created_files:
  assumes "create_release_internal w parent source expected_revision expected_canonical_digest dependencies audit fs = (Inr m, fs')"
  obtains document_bytes ds where
    "plan_release w parent source expected_revision expected_canonical_digest dependencies audit = Inr (m, document_bytes, ds)"
    "file_at fs' (object_file (rd_object (mf_document m))) document_bytes"
    "list_all (\<lambda>(d, bs). file_at fs' (object_file (dp_object d)) bs) ds"
    "file_at fs' (manifest_file (mf_release_id m)) (pw_manifest_json w m)" "validate_sha256 (mf_release_id m) = Inr ()"
proof -
  obtain document_bytes ds fs1 fs2 where
    plan: "plan_release w parent source expected_revision expected_canonical_digest dependencies audit = Inr (m, document_bytes, ds)"
    and 1: "write_content_addressed_object w (rd_object (mf_document m)) document_bytes fs = (Inr (), fs1)"
    and 2: "op_each (\<lambda>(d, bs). write_content_addressed_object w (dp_object d) bs) ds fs1 = (Inr (), fs2)"
    and 3: "write_manifest (mf_release_id m) (pw_manifest_json w m) fs2 = (Inr (), fs')"
    by (rule created_steps [OF assms])
  note kept = kp.over_result [OF kp_objects 2] kp.over_result [OF kp_write_manifest 3]
  have "file_at fs' (object_file (rd_object (mf_document m))) document_bytes"
    using object_written [OF 1] kept keeps_file by blast
  moreover have "list_all (\<lambda>(d, bs). file_at fs' (object_file (dp_object d)) bs) ds"
    using objects_written [OF 2] kept(2) keeps_file by (fastforce simp: list_all_iff)
  moreover have "validate_sha256 (mf_release_id m) = Inr ()"
    using 3 by (auto simp: write_manifest_def op_simps manifest_path_Inr)
  ultimately show ?thesis using that plan manifest_written [OF 3] by simp
qed

lemma created_new:
  assumes "create_release_internal w parent source expected_revision expected_canonical_digest dependencies audit fs = (Inr m, fs')"
  shows "bt_get fs (manifest_file (mf_release_id m)) = None"
proof -
  obtain document_bytes and ds :: "(released_dependency \<times> bytes) list" and fs1 fs2 where
    1: "write_content_addressed_object w (rd_object (mf_document m)) document_bytes fs = (Inr (), fs1)"
    and 2: "op_each (\<lambda>(d, bs). write_content_addressed_object w (dp_object d) bs) ds fs1 = (Inr (), fs2)"
    and 3: "write_manifest (mf_release_id m) (pw_manifest_json w m) fs2 = (Inr (), fs')"
    by (rule created_steps [OF assms])
  from sr.over_result [OF sr_write_object 1] sr.over_result [OF sr_objects 2] manifest_written [OF 3]
  show ?thesis by (simp add: same_releases_def)
qed

lemma created_release_at:
  assumes "plan_release w parent source expected_revision expected_canonical_digest dependencies audit = Inr (m, document_bytes, ds)"
    and "file_at fs (object_file (rd_object (mf_document m))) document_bytes"
    and "list_all (\<lambda>(d, bs). file_at fs (object_file (dp_object d)) bs) ds"
    and "file_at fs (manifest_file (mf_release_id m)) (pw_manifest_json w m)"
  shows "release_at w fs m"
proof -
  note o = plan_objects [OF assms(1)]
  have "object_at w fs (dp_object d)" if "(d, bs) \<in> set ds" for d bs
    unfolding object_at_iff using that o(3) assms(3) by (auto simp: list_all_iff intro!: exI [of _ bs])
  moreover have "object_at w fs (rd_object (mf_document m))"
    unfolding object_at_iff using o(1) assms(2) by (intro exI [of _ document_bytes]) simp
  ultimately show ?thesis using assms(4) by (auto simp: release_at_def o(2) list_all_iff)
qed


section \<open>A release that can be written is written\<close>

definition dir_ok :: "repository \<Rightarrow> str list \<Rightarrow> bool" where
  "dir_ok fs path = (bt_get fs path = None \<or> bt_get fs path = Some Directory)"

text \<open>The directories of a path are there or can be made; an object is not there, or it is there as it should be.\<close>

definition clear :: "repository \<Rightarrow> str list \<Rightarrow> bool" where
  "clear fs directory = list_all (\<lambda>i. dir_ok fs (take i directory)) [0 ..< Suc (length directory)]"

definition accepts :: "repository \<Rightarrow> object_identity \<Rightarrow> bytes \<Rightarrow> bool" where
  "accepts fs i bs =
     (clear fs [''objects'', take 2 (oi_sha256 i)] \<and>
      (bt_get fs (object_file i) = None \<or> file_at fs (object_file i) bs \<and> length bs \<le> MAX_RELEASE_DEPENDENCY_BYTES))"

lemma clear_iff: "clear fs directory \<longleftrightarrow> (\<forall>i \<le> length directory. dir_ok fs (take i directory))"
  by (auto simp: clear_def list_all_iff less_Suc_eq_le)

lemma clear_Nil [simp]: "clear fs [] \<longleftrightarrow> dir_ok fs []"
  by (simp add: clear_def)

lemma metadata_missing:
  "(\<And>i. i < length names \<Longrightarrow> dir_ok fs (here @ take i names)) \<Longrightarrow> bt_get fs (here @ names) = None \<Longrightarrow>
     metadata_from fs here names = Inl (PdmIo NotFound)"
proof (induction names arbitrary: here)
  case Nil
  then show ?case by simp
next
  case (Cons name names)
  have "dir_ok fs here" using Cons.prems(1) [of 0] by simp
  moreover have "metadata_from fs (here @ [name]) names = Inl (PdmIo NotFound)"
  proof (rule Cons.IH)
    fix i assume "i < length names" with Cons.prems(1) [of "Suc i"] show "dir_ok fs ((here @ [name]) @ take i names)" by simp
  qed (use Cons.prems(2) in simp)
  ultimately show ?case by (auto simp: dir_ok_def)
qed

lemma components_made:
  assumes "directory_at fs here" and "\<And>i. i \<le> length names \<Longrightarrow> dir_ok fs (here @ take i names)"
  shows "\<exists>fs'. ensure_components True here names fs = (Inr (), fs') \<and>
    (\<forall>p. bt_get fs' p = (if \<exists>i \<le> length names. p = here @ take i names then Some Directory else bt_get fs p))"
  using assms
proof (induction names arbitrary: here fs)
  case Nil
  then have "bt_get fs here = Some Directory" by (auto simp: directory_at_iff)
  then show ?case by simp
next
  case (Cons name names)
  let ?here = "here @ [name]"
  define fs1 where "fs1 = (if bt_get fs ?here = None then bt_insert ?here Directory fs else fs)"
  have "dir_ok fs ?here" using Cons.prems(2) [of 1] by simp
  then have get: "bt_get fs1 p = (if p = ?here then Some Directory else bt_get fs p)" for p
    by (auto simp: fs1_def dir_ok_def)
  have top: "directory_at fs1 ?here"
    using Cons.prems(1) by (auto simp: directory_at_iff get le_Suc_eq)
  have "dir_ok fs1 (?here @ take i names)" if "i \<le> length names" for i
    using Cons.prems(2) [of "Suc i"] that by (auto simp: dir_ok_def get)
  from Cons.IH [OF top this] obtain fs' where e: "ensure_components True ?here names fs1 = (Inr (), fs')"
    and g: "\<And>p. bt_get fs' p = (if \<exists>i \<le> length names. p = ?here @ take i names then Some Directory else bt_get fs1 p)"
    by blast
  have v: "validate_repository_directory fs1 ?here = Inr ()" using top by (simp add: directory_valid)
  have "ensure_components True here (name # names) fs = (Inr (), fs')"
    using e v by (simp add: op_then_def op_read_def fs1_def)
  moreover have "bt_get fs' p = (if \<exists>i \<le> length (name # names). p = here @ take i (name # names) then Some Directory else bt_get fs p)" for p
  proof -
    have here: "bt_get fs here = Some Directory" using Cons.prems(1) by (auto simp: directory_at_iff)
    have "(\<exists>i \<le> length (name # names). p = here @ take i (name # names)) \<longleftrightarrow>
      p = here \<or> (\<exists>i \<le> length names. p = ?here @ take i names)"
    proof
      assume "\<exists>i \<le> length (name # names). p = here @ take i (name # names)"
      then obtain i where "i \<le> Suc (length names)" "p = here @ take i (name # names)" by auto
      then show "p = here \<or> (\<exists>i \<le> length names. p = ?here @ take i names)" by (cases i) auto
    next
      assume "p = here \<or> (\<exists>i \<le> length names. p = ?here @ take i names)"
      then show "\<exists>i \<le> length (name # names). p = here @ take i (name # names)"
        by (auto intro: exI [of _ 0] exI [of _ "Suc i" for i])
    qed
    with here show ?thesis by (auto simp: g get intro: exI [of _ 0])
  qed
  ultimately show ?case by blast
qed

lemma directory_made:
  assumes "clear fs directory"
  shows "\<exists>fs'. ensure_repository_directory directory True fs = (Inr (), fs') \<and>
    (\<forall>p. bt_get fs' p = (if \<exists>i \<le> length directory. p = take i directory then Some Directory else bt_get fs p))"
proof -
  define fs1 where "fs1 = (if bt_get fs [] = None then bt_insert [] Directory fs else fs)"
  have "dir_ok fs []" using assms by (auto simp: clear_iff)
  then have get: "bt_get fs1 p = (if p = [] then Some Directory else bt_get fs p)" for p by (auto simp: fs1_def dir_ok_def)
  from \<open>dir_ok fs []\<close> have c: "create_dir_all fs = (Inr (), fs1)" by (auto simp: create_dir_all_def fs1_def dir_ok_def)
  have root: "directory_at fs1 []" by (simp add: directory_at_iff get)
  have ok: "dir_ok fs1 ([] @ take i directory)" if "i \<le> length directory" for i
    using assms that by (auto simp: clear_iff dir_ok_def get)
  from components_made [OF root ok] obtain fs' where e: "ensure_components True [] directory fs1 = (Inr (), fs')"
    and g: "\<And>p. bt_get fs' p = (if \<exists>i \<le> length directory. p = [] @ take i directory then Some Directory else bt_get fs1 p)"
    by blast
  have "validate_repository_directory fs1 [] = Inr ()" using root by (simp add: directory_valid)
  with c e have "ensure_repository_directory directory True fs = (Inr (), fs')"
    by (simp add: ensure_repository_directory_def op_then_def op_read_def)
  with g show ?thesis by (auto simp: get intro!: exI [of _ fs'])
qed

lemma two_prefixes: "(\<exists>i \<le> length [a]. p = take i [a]) \<longleftrightarrow> p \<in> {[], [a]}"
proof
  assume "\<exists>i \<le> length [a]. p = take i [a]"
  then obtain i where "p = take i [a]" by blast
  then show "p \<in> {[], [a]}" by (auto simp: take_Cons split: nat.splits)
qed (auto intro: exI [of _ 0] exI [of _ 1])

lemma three_prefixes: "(\<exists>i \<le> length [a, b]. p = take i [a, b]) \<longleftrightarrow> p \<in> {[], [a], [a, b]}"
proof
  assume "\<exists>i \<le> length [a, b]. p = take i [a, b]"
  then obtain i where "p = take i [a, b]" by blast
  then show "p \<in> {[], [a], [a, b]}" by (auto simp: take_Cons split: nat.splits)
qed (auto intro: exI [of _ 0] exI [of _ 1] exI [of _ 2])

lemma object_fresh:
  assumes "clear fs [''objects'', take 2 (oi_sha256 i)]" and "bt_get fs (object_file i) = None"
    and "validate_sha256 (oi_sha256 i) = Inr ()"
  shows "\<exists>fs'. write_content_addressed_object w i bs fs = (Inr (), fs') \<and>
    (\<forall>p. bt_get fs' p = (if p = object_file i then Some (RegularFile bs)
       else if p \<in> {[], [''objects''], [''objects'', take 2 (oi_sha256 i)]} then Some Directory else bt_get fs p))"
proof -
  let ?d = "[''objects'', take 2 (oi_sha256 i)]"
  have "symlink_metadata fs (object_file i) = Inl (PdmIo NotFound)"
    unfolding symlink_metadata_def
  proof (rule metadata_missing)
    fix j assume "j < length (object_file i)"
    with assms(1) show "dir_ok fs ([] @ take j (object_file i))" by (auto simp: clear_iff take_Cons less_Suc_eq split: nat.splits)
  qed (use assms(2) in simp)
  moreover obtain fs1 where e: "ensure_repository_directory ?d True fs = (Inr (), fs1)"
    and g: "\<And>p. bt_get fs1 p = (if p \<in> {[], [''objects''], ?d} then Some Directory else bt_get fs p)"
    using directory_made [OF assms(1)] unfolding three_prefixes by blast
  moreover have "check_directory ?d fs1 = Inr ()" using directory_ensured [OF e] by (simp add: check_directory_Inr)
  moreover have "bt_get fs1 (object_file i) = None" using assms(2) by (simp add: g)
  ultimately have "write_content_addressed_object w i bs fs = (Inr (), bt_insert (object_file i) (RegularFile bs) fs1)"
    using assms(3) by (simp add: write_content_addressed_object_def release_object_path_def op_then_def op_read_def
        persist_noclobber_def)
  with g show ?thesis by auto
qed

lemma object_again:
  assumes "file_at fs (object_file i) bs" and "length bs \<le> MAX_RELEASE_DEPENDENCY_BYTES" and "object_identity_of w bs = i"
    and "validate_sha256 (oi_sha256 i) = Inr ()"
  shows "write_content_addressed_object w i bs fs = (Inr (), fs)"
proof -
  have v: "validate_repository_file fs (object_file i) = Inr ()"
    using assms(1) repository_file_valid [of "object_file i" fs] by (auto simp: file_at_def)
  then obtain node where "symlink_metadata fs (object_file i) = Inr node"
    by (auto simp: validate_repository_file_def result_simps)
  moreover have "read_bounded_repository_file (object_file i) MAX_RELEASE_DEPENDENCY_BYTES (ObjectConflict (oi_sha256 i)) fs = Inr bs"
    using assms(1,2) by (simp add: repository_file_read)
  ultimately show ?thesis using assms(3,4) v
    by (simp add: write_content_addressed_object_def release_object_path_def verify_existing_object_def op_then_def op_read_def)
qed

lemma manifest_fresh:
  assumes "clear fs [''releases'']" and "bt_get fs (manifest_file release_id) = None" and "validate_sha256 release_id = Inr ()"
  shows "\<exists>fs'. write_manifest release_id bs fs = (Inr (), fs') \<and>
    (\<forall>p. bt_get fs' p = (if p = manifest_file release_id then Some (RegularFile bs)
       else if p \<in> {[], [''releases'']} then Some Directory else bt_get fs p))"
proof -
  obtain fs1 where e: "ensure_repository_directory [''releases''] True fs = (Inr (), fs1)"
    and g: "\<And>p. bt_get fs1 p = (if p \<in> {[], [''releases'']} then Some Directory else bt_get fs p)"
    using directory_made [OF assms(1)] unfolding two_prefixes by blast
  have d: "directory_at fs1 [''releases'']" by (rule directory_ensured [OF e])
  then have c: "check_directory [''releases''] fs1 = Inr ()" by (simp add: check_directory_Inr)
  have none: "bt_get fs1 (manifest_file release_id) = None" using assms(2) by (simp add: g)
  have "symlink_metadata fs1 (manifest_file release_id) = Inl (PdmIo NotFound)"
    unfolding symlink_metadata_def
  proof (rule metadata_missing)
    fix j assume "j < length (manifest_file release_id)"
    with d show "dir_ok fs1 ([] @ take j (manifest_file release_id))"
      by (auto simp: directory_at_iff dir_ok_def take_Cons less_Suc_eq split: nat.splits)
  qed (use none in simp)
  then have "write_manifest release_id bs fs = (Inr (), bt_insert (manifest_file release_id) (RegularFile bs) fs1)"
    using e c none assms(3)
    by (simp add: write_manifest_def release_manifest_path_def op_then_def op_read_def persist_noclobber_def)
  with g show ?thesis by auto
qed

section \<open>What is released is well-formed\<close>

lemma hash_valid: "length (sha bs) = 32 \<Longrightarrow> validate_sha256 (sha256_hex sha bs) = Inr ()"
  using hex_ok [of "sha bs"] by (auto simp: validate_sha256_def sha256_hex_def list_all_iff result_simps)

lemma unat_length: "length (bs :: bytes) \<le> MAX_RELEASE_DEPENDENCY_BYTES \<Longrightarrow> unat (of_nat (length bs) :: u64) = length bs"
  by (simp add: unat_of_nat take_bit_nat_eq_self MAX_RELEASE_DEPENDENCY_BYTES_def)

lemma identity_valid:
  assumes "length bs \<le> MAX_RELEASE_DEPENDENCY_BYTES" and "length (pw_sha w bs) = 32"
  shows "validate_object_identity (object_identity_of w bs) = Inr ()"
  using assms hash_valid [of "pw_sha w" bs]
  by (simp add: validate_object_identity_def object_identity_of_def unat_length)

text \<open>The dependencies a release reads: their paths are fit and distinct, and their contents within the bounds.\<close>

definition dependencies_ok :: "'r pdm_world \<Rightarrow> (released_dependency \<times> bytes) list \<Rightarrow> bool" where
  "dependencies_ok w ds \<longleftrightarrow>
     distinct (map (\<lambda>p. dp_logical_path (fst p)) ds) \<and> sum_list (map (\<lambda>p. length (snd p)) ds) \<le> MAX_RELEASE_TOTAL_DEPENDENCY_BYTES \<and>
     list_all (\<lambda>(d, bs). validate_logical_path (dp_logical_path d) = Inr () \<and> dp_object d = object_identity_of w bs) ds"

lemma sum_insort_key: "sum_list (map f (insort_key k x ys)) = (f x + sum_list (map f ys) :: nat)"
  by (induction ys) auto

lemma sum_sort_key: "sum_list (map f (sort_key k xs)) = (sum_list (map f xs) :: nat)"
  by (induction xs) (auto simp: sum_insort_key)

lemma dependencies_read:
  assumes "read_release_dependencies w dependencies MAX_RELEASE_DEPENDENCY_BYTES MAX_RELEASE_TOTAL_DEPENDENCY_BYTES = Inr ds"
  shows "dependencies_ok w ds \<and> sorted_wrt (<) (map (\<lambda>p. dp_logical_path (fst p)) ds) \<and> length ds = length dependencies"
proof -
  let ?path = "\<lambda>p :: released_dependency \<times> bytes. dp_logical_path (fst p)"
  let ?P = "\<lambda>(paths, n, objects). set paths = set (map ?path objects) \<and>
    n = sum_list (map (\<lambda>p. length (snd p)) objects) \<and> dependencies_ok w objects"
  have key: "(\<lambda>(d, bs). dp_logical_path d) = ?path" by auto
  from assms obtain paths n objects where
    f: "try_fold (add_dependency w MAX_RELEASE_DEPENDENCY_BYTES MAX_RELEASE_TOTAL_DEPENDENCY_BYTES) ([], 0, []) dependencies =
      Inr (paths, n, objects)" and ds: "ds = sort_key ?path objects"
    by (auto simp: read_release_dependencies_def result_simps key)
  have "?P (paths, n, objects)"
    by (rule try_fold_invariant [OF f])
      (auto simp: add_dependency_def read_bounded_def dependencies_ok_def Let_def result_simps split: prod.splits if_splits, force)
  then have ok: "dependencies_ok w ds"
    unfolding dependencies_ok_def ds by (auto simp: list_all_iff distinct_map sum_sort_key)
  have len: "length objects' = length objs + length xs" if "try_fold (add_dependency w a b) (paths0, n0, objs) xs = Inr (paths', n', objects')"
    for a b xs paths0 n0 objs paths' n' objects'
    using that
    by (induction xs arbitrary: paths0 n0 objs) (auto simp: add_dependency_def Let_def result_simps)
  have "sorted (map ?path ds)" unfolding ds by simp
  with ok have "sorted_wrt (<) (map ?path ds)" unfolding strict_sorted_iff by (simp add: dependencies_ok_def)
  with ok len [OF f] show ?thesis by (simp add: ds)
qed

lemma dependencies_validate:
  assumes "list_all (\<lambda>d. validate_logical_path (dp_logical_path d) = Inr () \<and> validate_object_identity (dp_object d) = Inr ()) ds"
    and "sorted_wrt (<) (map dp_logical_path ds)"
    and "\<And>path d. previous = Some path \<Longrightarrow> d \<in> set ds \<Longrightarrow> path < dp_logical_path d"
    and "unat n + sum_list (map (\<lambda>d. unat (oi_byte_len (dp_object d))) ds) \<le> MAX_RELEASE_TOTAL_DEPENDENCY_BYTES"
  shows "\<exists>st. try_fold validate_dependency (previous, n) ds = Inr st"
  using assms
proof (induction ds arbitrary: previous n)
  case Nil
  then show ?case by simp
next
  case (Cons d ds)
  let ?len = "oi_byte_len (dp_object d)"
  have small: "unat n + unat ?len < 2 ^ 64"
    using Cons.prems(4) by (simp add: MAX_RELEASE_TOTAL_DEPENDENCY_BYTES_def)
  then have plus: "unat (n + ?len) = unat n + unat ?len" by (simp add: unat_word_ariths)
  have "\<not> (case previous of None \<Rightarrow> False | Some path \<Rightarrow> path \<ge> dp_logical_path d)"
    using Cons.prems(3) by (auto split: option.splits simp: not_le)
  then have step: "validate_dependency (previous, n) d = Inr (Some (dp_logical_path d), n + ?len)"
    using Cons.prems(1,4) small by (simp add: validate_dependency_def checked_add_u64_def plus)
  have "\<exists>st. try_fold validate_dependency (Some (dp_logical_path d), n + ?len) ds = Inr st"
    by (rule Cons.IH) (use Cons.prems in \<open>auto simp: plus\<close>)
  with step show ?case by simp
qed

lemma plan_facts:
  assumes "plan_release w parent (snapshot, d) expected_revision expected_canonical_digest dependencies audit = Inr (m, document_bytes, ds)"
  shows "save_container (pw_sha w) (pw_encode w) (pw_imported w) snapshot d = Inr document_bytes"
    "read_release_dependencies w dependencies MAX_RELEASE_DEPENDENCY_BYTES MAX_RELEASE_TOTAL_DEPENDENCY_BYTES = Inr ds"
    "m = manifest_of w (release_payload_of w parent snapshot document_bytes (map fst ds) audit)"
    "validate_audit audit = Inr ()" "length dependencies \<le> MAX_RELEASE_DEPENDENCIES"
    "length (pw_manifest_json w m) \<le> MAX_RELEASE_MANIFEST_BYTES"
  using assms by (auto simp: plan_release_def Let_def result_simps not_less)

lemma dependency_sizes:
  assumes "dependencies_ok w ds"
  shows "(dep, bs) \<in> set ds \<Longrightarrow> length bs \<le> MAX_RELEASE_DEPENDENCY_BYTES \<and> dp_object dep = object_identity_of w bs"
    and "sum_list (map (\<lambda>p. unat (oi_byte_len (dp_object (fst p)))) ds) = sum_list (map (\<lambda>p. length (snd p)) ds)"
proof -
  have *: "length bs \<le> MAX_RELEASE_DEPENDENCY_BYTES \<and> dp_object dep = object_identity_of w bs" if "(dep, bs) \<in> set ds" for dep bs
  proof -
    have "length bs \<le> sum_list (map (\<lambda>p. length (snd p)) ds)" using that by (force intro: member_le_sum_list)
    with assms that show ?thesis
      by (auto simp: dependencies_ok_def list_all_iff MAX_RELEASE_TOTAL_DEPENDENCY_BYTES_def MAX_RELEASE_DEPENDENCY_BYTES_def)
  qed
  then show "(dep, bs) \<in> set ds \<Longrightarrow> length bs \<le> MAX_RELEASE_DEPENDENCY_BYTES \<and> dp_object dep = object_identity_of w bs" .
  have "map (\<lambda>p. unat (oi_byte_len (dp_object (fst p)))) ds = map (\<lambda>p. length (snd p)) ds"
    using * by (auto simp: object_identity_of_def unat_length)
  then show "sum_list (map (\<lambda>p. unat (oi_byte_len (dp_object (fst p)))) ds) = sum_list (map (\<lambda>p. length (snd p)) ds)"
    by (rule arg_cong)
qed

definition parent_ok :: "str \<Rightarrow> release_manifest option \<Rightarrow> bool" where
  "parent_ok release_id parent =
     (case parent of None \<Rightarrow> True | Some p \<Rightarrow> validate_sha256 (mf_release_id p) = Inr () \<and> mf_release_id p \<noteq> release_id)"

lemma plan_valid:
  assumes plan: "plan_release w parent source expected_revision expected_canonical_digest dependencies audit =
      Inr (m, document_bytes, ds)"
    and sha: "\<And>b. length (pw_sha w b) = 32" and parent: "parent_ok (mf_release_id m) parent"
  shows "validate_manifest w m (mf_release_id m) =
    (if length document_bytes mod 2 ^ 64 \<le> MAX_RELEASE_DEPENDENCY_BYTES then Inr () else Inl InvalidManifest)"
proof -
  obtain snapshot d where src: "source = (snapshot, d)" by force
  note f = plan_facts [OF plan [unfolded src]]
  note r = dependencies_read [OF f(2)]
  have m: "manifest_payload m = release_payload_of w parent snapshot document_bytes (map fst ds) audit"
    "computed_release_id w m = mf_release_id m" "mf_dependencies m = map fst ds" "mf_audit m = audit"
    "mf_parent_release_id m = map_option mf_release_id parent" "rd_object (mf_document m) = object_identity_of w document_bytes"
    "mf_schema m = LOCAL_PDM_RELEASE_SCHEMA_V1" "rd_units (mf_document m) = ''millimetres''"
    by (simp_all add: f(3) manifest_of_def manifest_payload_def release_payload_of_def computed_release_id_def)
  have "list_all (\<lambda>d. validate_logical_path (dp_logical_path d) = Inr () \<and> validate_object_identity (dp_object d) = Inr ()) (map fst ds)"
  proof -
    have "validate_object_identity (dp_object dep) = Inr ()" if "(dep, bs) \<in> set ds" for dep bs
      using dependency_sizes(1) [of w ds dep bs] that r sha identity_valid [of bs w] by simp
    with r show ?thesis by (fastforce simp: dependencies_ok_def list_all_iff)
  qed
  moreover have "sorted_wrt (<) (map dp_logical_path (map fst ds))" using r by (simp add: comp_def)
  moreover have "unat (0 :: u64) + sum_list (map (\<lambda>d. unat (oi_byte_len (dp_object d))) (map fst ds)) \<le> MAX_RELEASE_TOTAL_DEPENDENCY_BYTES"
    using r dependency_sizes(2) [of w ds] by (simp add: comp_def dependencies_ok_def)
  ultimately obtain st where deps: "try_fold validate_dependency (None, 0) (map fst ds) = Inr st"
    using dependencies_validate [of "map fst ds" None 0] by auto
  have doc: "validate_object_identity (object_identity_of w document_bytes) =
    (if length document_bytes mod 2 ^ 64 \<le> MAX_RELEASE_DEPENDENCY_BYTES then Inr () else Inl InvalidManifest)"
    using hash_valid [of "pw_sha w" document_bytes] sha
    by (simp add: validate_object_identity_def object_identity_of_def unat_of_nat)
  have par: "(case mf_parent_release_id m of None \<Rightarrow> Inr ()
       | Some parent \<Rightarrow> and_then (validate_sha256 parent) (\<lambda>_. guard (parent \<noteq> mf_release_id m) InvalidManifest)) = Inr ()"
    using parent by (auto simp: m parent_ok_def split: option.splits)
  show ?thesis unfolding validate_manifest_def using r f(5)
    by (simp add: m(1,2,3,4,6,7,8) doc deps f(4) par)
qed

section \<open>A release that has room succeeds\<close>

definition object_stored :: "object_identity \<Rightarrow> bytes \<Rightarrow> repository \<Rightarrow> repository \<Rightarrow> bool" where
  "object_stored i bs fs fs' \<longleftrightarrow>
     (\<forall>p. bt_get fs' p = (if p = object_file i then Some (RegularFile bs)
       else if p \<in> {[], [''objects''], [''objects'', take 2 (oi_sha256 i)]} then Some Directory else bt_get fs p))"

lemma object_accepted:
  assumes "accepts fs i bs" and "object_identity_of w bs = i" and "length (pw_sha w bs) = 32"
  shows "\<exists>fs'. write_content_addressed_object w i bs fs = (Inr (), fs') \<and> object_stored i bs fs fs'"
proof -
  have v: "validate_sha256 (oi_sha256 i) = Inr ()"
    using assms(2) hash_valid [of "pw_sha w" bs] assms(3) by (auto simp: object_identity_of_def)
  show ?thesis
  proof (cases "bt_get fs (object_file i) = None")
    case True
    with assms(1) object_fresh [OF _ True v, of w bs] show ?thesis by (simp add: accepts_def object_stored_def)
  next
    case False
    with assms(1) have f: "file_at fs (object_file i) bs" "length bs \<le> MAX_RELEASE_DEPENDENCY_BYTES" by (auto simp: accepts_def)
    have "bt_get fs p = Some Directory" if "p \<in> {[], [''objects''], [''objects'', take 2 (oi_sha256 i)]}" for p
      using f(1) that by (auto simp: file_at_def directory_at_iff three_prefixes [symmetric])
    with f have "object_stored i bs fs fs" by (simp add: object_stored_def file_at_def)
    with object_again [OF f assms(2) v] show ?thesis by blast
  qed
qed

lemma clear_two: "clear fs [a, b] \<longleftrightarrow> dir_ok fs [] \<and> dir_ok fs [a] \<and> dir_ok fs [a, b]"
  by (auto simp: clear_def)

lemma clear_one: "clear fs [a] \<longleftrightarrow> dir_ok fs [] \<and> dir_ok fs [a]"
  by (auto simp: clear_def)

lemma accepts_after:
  assumes "object_stored j cs fs fs'" and "accepts fs i bs"
    and "object_file i = object_file j \<Longrightarrow> bs = cs \<and> length bs \<le> MAX_RELEASE_DEPENDENCY_BYTES"
  shows "accepts fs' i bs"
proof -
  have get: "bt_get fs' p = (if p = object_file j then Some (RegularFile cs)
       else if p \<in> {[], [''objects''], [''objects'', take 2 (oi_sha256 j)]} then Some Directory else bt_get fs p)" for p
    using assms(1) by (simp add: object_stored_def)
  have dirs: "clear fs' [''objects'', take 2 (oi_sha256 i)]"
    using assms(2) by (auto simp: accepts_def clear_two dir_ok_def get)
  have at: "file_at fs' (object_file i) bs \<longleftrightarrow> bt_get fs' [''objects'', take 2 (oi_sha256 i)] = Some Directory \<and>
      bt_get fs' (object_file i) = Some (RegularFile bs)"
    by (auto simp: file_at_def directory_at_def get)
  show ?thesis
  proof (cases "object_file i = object_file j")
    case True
    then have "file_at fs' (object_file i) bs" unfolding at using assms(3) by (simp add: get)
    with assms(3) [OF True] dirs show ?thesis by (auto simp: accepts_def)
  next
    case False
    with assms(2) dirs show ?thesis by (auto simp: accepts_def at get file_at_def directory_at_def)
  qed
qed

definition manifest_room :: "repository \<Rightarrow> str \<Rightarrow> bool" where
  "manifest_room fs release_id = (clear fs [''releases''] \<and> bt_get fs (manifest_file release_id) = None)"

lemma room_after: "object_stored i bs fs fs' \<Longrightarrow> manifest_room fs release_id \<Longrightarrow> manifest_room fs' release_id"
  by (auto simp: object_stored_def manifest_room_def clear_one dir_ok_def)

lemma objects_accepted:
  assumes "list_all (\<lambda>(d, bs). accepts fs (dp_object d) bs \<and> dp_object d = object_identity_of w bs \<and>
      length bs \<le> MAX_RELEASE_DEPENDENCY_BYTES) ds"
    and sha: "\<And>b. length (pw_sha w b) = 32" and inj: "inj_on (pw_sha w) (snd ` set ds)" and room: "manifest_room fs release_id"
  shows "\<exists>fs'. op_each (\<lambda>(d, bs). write_content_addressed_object w (dp_object d) bs) ds fs = (Inr (), fs') \<and>
    manifest_room fs' release_id"
  using assms(1) inj room
proof (induction ds arbitrary: fs)
  case Nil
  then show ?case by simp
next
  case (Cons p ds)
  obtain d bs where p: "p = (d, bs)" by force
  from Cons.prems(1) p have a: "accepts fs (dp_object d) bs" "object_identity_of w bs = dp_object d" by auto
  from object_accepted [OF a sha] obtain fs1 where 1: "write_content_addressed_object w (dp_object d) bs fs = (Inr (), fs1)"
    and s: "object_stored (dp_object d) bs fs fs1" by blast
  have "accepts fs1 (dp_object e) cs" if "(e, cs) \<in> set ds" for e cs
  proof (rule accepts_after [OF s])
    show "accepts fs (dp_object e) cs" using Cons.prems(1) that by (auto simp: list_all_iff)
    have e: "dp_object e = object_identity_of w cs" "length cs \<le> MAX_RELEASE_DEPENDENCY_BYTES" using Cons.prems(1) that by (auto simp: list_all_iff)
    assume "object_file (dp_object e) = object_file (dp_object d)"
    then have "sha256_hex (pw_sha w) cs = sha256_hex (pw_sha w) bs" using e a(2) by (simp add: object_identity_of_def flip: a(2))
    then have "pw_sha w cs = pw_sha w bs" by (rule sha256_hex_inject)
    with Cons.prems(2) that have "cs = bs" by (force simp: p inj_on_def)
    with e show "cs = bs \<and> length cs \<le> MAX_RELEASE_DEPENDENCY_BYTES" by simp
  qed
  with Cons.prems(1) have "list_all (\<lambda>(d, bs). accepts fs1 (dp_object d) bs \<and> dp_object d = object_identity_of w bs \<and>
      length bs \<le> MAX_RELEASE_DEPENDENCY_BYTES) ds"
    by (auto simp: list_all_iff)
  moreover have "inj_on (pw_sha w) (snd ` set ds)" using Cons.prems(2) by (auto intro: inj_on_subset)
  ultimately obtain fs' where "op_each (\<lambda>(d, bs). write_content_addressed_object w (dp_object d) bs) ds fs1 = (Inr (), fs')"
    "manifest_room fs' release_id"
    using Cons.IH room_after [OF s Cons.prems(3)] by blast
  with 1 show ?case by (simp add: op_then_def p)
qed

lemma plan_id:
  assumes "plan_release w parent source expected_revision expected_canonical_digest dependencies audit = Inr (m, document_bytes, ds)"
    and "\<And>b. length (pw_sha w b) = 32"
  shows "validate_sha256 (mf_release_id m) = Inr ()"
proof -
  obtain payload where "m = manifest_of w payload" using assms(1) plan_facts(3) by (cases source) blast
  then have "mf_release_id m = sha256_hex (pw_sha w) (pw_payload_json w payload)"
    by (simp add: manifest_of_def canonical_payload_identity_def)
  with hash_valid [of "pw_sha w" "pw_payload_json w payload"] assms(2) show ?thesis by simp
qed

lemma release_written:
  assumes plan: "plan_release w parent source expected_revision expected_canonical_digest dependencies audit =
      Inr (m, document_bytes, ds)"
    and sha: "\<And>b. length (pw_sha w b) = 32" and inj: "inj_on (pw_sha w) (insert document_bytes (snd ` set ds))"
    and room: "manifest_room fs (mf_release_id m)" and doc: "accepts fs (rd_object (mf_document m)) document_bytes"
    and deps: "list_all (\<lambda>(d, bs). accepts fs (dp_object d) bs) ds"
  shows "\<exists>fs'. create_release_internal w parent source expected_revision expected_canonical_digest dependencies audit fs = (Inr m, fs')"
proof -
  obtain snapshot data where src: "source = (snapshot, data)" by force
  note f = plan_facts [OF plan [unfolded src]] and o = plan_objects [OF plan]
  have small: "length bs \<le> MAX_RELEASE_DEPENDENCY_BYTES" "dp_object d = object_identity_of w bs" if "(d, bs) \<in> set ds" for d bs
    using dependencies_read [OF f(2)] dependency_sizes(1) that by auto
  from object_accepted [OF doc o(1) [symmetric] sha] obtain fs1 where
    1: "write_content_addressed_object w (rd_object (mf_document m)) document_bytes fs = (Inr (), fs1)"
    and s: "object_stored (rd_object (mf_document m)) document_bytes fs fs1" by blast
  have "accepts fs1 (dp_object d) bs" if "(d, bs) \<in> set ds" for d bs
  proof (rule accepts_after [OF s])
    show "accepts fs (dp_object d) bs" using deps that by (auto simp: list_all_iff)
    assume "object_file (dp_object d) = object_file (rd_object (mf_document m))"
    then have "sha256_hex (pw_sha w) bs = sha256_hex (pw_sha w) document_bytes"
      using small(2) [OF that] o(1) by (simp add: object_identity_of_def)
    then have "pw_sha w bs = pw_sha w document_bytes" by (rule sha256_hex_inject)
    moreover have "bs \<in> insert document_bytes (snd ` set ds)" using that by force
    ultimately have "bs = document_bytes" using inj_onD [OF inj, of bs document_bytes] by blast
    with small(1) [OF that] show "bs = document_bytes \<and> length bs \<le> MAX_RELEASE_DEPENDENCY_BYTES" by blast
  qed
  with small have "list_all (\<lambda>(d, bs). accepts fs1 (dp_object d) bs \<and> dp_object d = object_identity_of w bs \<and>
      length bs \<le> MAX_RELEASE_DEPENDENCY_BYTES) ds" by (auto simp: list_all_iff)
  moreover have "inj_on (pw_sha w) (snd ` set ds)" using inj by (rule inj_on_subset) auto
  ultimately obtain fs2 where 2: "op_each (\<lambda>(d, bs). write_content_addressed_object w (dp_object d) bs) ds fs1 = (Inr (), fs2)"
    and r: "manifest_room fs2 (mf_release_id m)"
    using objects_accepted [OF _ sha _ room_after [OF s room]] by blast
  from r manifest_fresh [OF _ _ plan_id [OF plan sha], of fs2 "pw_manifest_json w m"]
  obtain fs3 where "write_manifest (mf_release_id m) (pw_manifest_json w m) fs2 = (Inr (), fs3)"
    by (auto simp: manifest_room_def)
  with plan 1 2 show ?thesis by (simp add: create_release_internal_def op_then_def op_read_def)
qed

lemma manifest_read:
  assumes "file_at fs (manifest_file release_id) bs" and "length bs \<le> MAX_RELEASE_MANIFEST_BYTES"
    and "validate_sha256 release_id = Inr ()" and "pw_parse_manifest w bs = Some m"
  shows "read_manifest w release_id fs = and_then (validate_manifest w m release_id) (\<lambda>_. Inr m)"
  using assms repository_file_read [of "manifest_file release_id" MAX_RELEASE_MANIFEST_BYTES ManifestTooLarge fs bs]
  by (simp add: read_manifest_def release_manifest_path_def unless_found_def)

lemma object_read:
  assumes "object_at w fs i" and "validate_object_identity i = Inr ()" and "file_at fs (object_file i) bs"
    and "length bs \<le> MAX_RELEASE_DEPENDENCY_BYTES"
  shows "read_object w i fs = Inr bs"
proof -
  have "object_identity_of w bs = i" using assms(1,3) by (auto simp: object_at_iff file_at_def)
  with assms repository_file_read [of "object_file i" MAX_RELEASE_DEPENDENCY_BYTES "ObjectTampered (oi_sha256 i)" fs bs]
  show ?thesis
    by (auto simp: read_object_def release_object_path_def unless_found_def validate_object_identity_def result_simps)
qed


lemma objects_read:
  assumes "list_all (\<lambda>d. \<exists>bs. read_object w (dp_object d) fs = Inr bs) ds"
  shows "try_fold (\<lambda>objects d. and_then (read_object w (dp_object d) fs) (\<lambda>_.
      Inr (bt_insert (dp_logical_path d) (dp_object d) objects))) acc ds =
    Inr (fold (\<lambda>d m. bt_insert (dp_logical_path d) (dp_object d) m) ds acc)"
  using assms by (induction ds arbitrary: acc) auto

lemma saved_loads:
  assumes "container_data_ok (pw_sha w) d" and "\<And>b. length (pw_sha w b) = 32"
    and "side_entries d (pw_imported w snapshot) = Inr side" and "entries_items side + 38 \<le> MAX_COLLECTION_ITEMS"
    and "save_container (pw_sha w) (pw_encode w) (pw_imported w) snapshot d = Inr file" and "length file < 2 ^ 64"
  shows "load w file = pw_load_document w (pw_encode w snapshot)
    \<lparr>cd_blobs = filter (\<lambda>p. kept_blob d (pw_imported w snapshot) (fst p)) (cd_blobs d), cd_imported = [], cd_extensions = cd_extensions d\<rparr>"
    (is "_ = pw_load_document w ?doc ?data")
proof -
  have save: "save_container_entries (pw_sha w) ?doc d (pw_imported w snapshot) None None = Inr file"
    using assms(5) by (simp add: save_container_def)
  have parts: "container_parts (pw_sha w) (pw_decode_rule_program w) file =
    Inr \<lparr>pt_document = ?doc, pt_history = None, pt_program = None, pt_data = ?data\<rparr>"
    using saved_opens [OF assms(1,2,3) save assms(6), of None "pw_decode_rule_program w"] saved_items [of ?doc None None side] assms(4)
    by simp
  have "prefix CONTAINER_MAGIC file"
    using save by (auto simp: save_container_entries_def encode_container_def Let_def result_simps)
  then show ?thesis
    by (auto simp: load_def load_container_def parts and_then_def split: sum.splits)
qed

lemma created_manifest_reads:
  assumes "create_release_internal w parent source expected_revision expected_canonical_digest dependencies audit fs = (Inr m, fs')"
    and "\<And>b. length (pw_sha w b) = 32" and "pw_parse_manifest w (pw_manifest_json w m) = Some m"
    and "parent_ok (mf_release_id m) parent"
    and "save_container (pw_sha w) (pw_encode w) (pw_imported w) (fst source) (snd source) = Inr saved" and "length saved < 2 ^ 64"
    and "keeps fs' later"
  shows "read_manifest w (mf_release_id m) later =
    (if length saved \<le> MAX_RELEASE_DEPENDENCY_BYTES then Inr m else Inl InvalidManifest)"
proof -
  from created_files [OF assms(1)] obtain document_bytes ds where
    plan: "plan_release w parent source expected_revision expected_canonical_digest dependencies audit = Inr (m, document_bytes, ds)"
    and manifest: "file_at fs' (manifest_file (mf_release_id m)) (pw_manifest_json w m)"
    and id_ok: "validate_sha256 (mf_release_id m) = Inr ()" .
  have "plan_release w parent (fst source, snd source) expected_revision expected_canonical_digest dependencies audit =
    Inr (m, document_bytes, ds)" using plan by simp
  note f = plan_facts [OF this]
  have "document_bytes = saved" using f(1) assms(5) by simp
  then show ?thesis
    using plan_valid [OF plan assms(2,4)] manifest_read [OF keeps_file [OF assms(7) manifest] f(6) id_ok assms(3)] assms(6)
    by simp
qed


text \<open>
   The document is held to a limit that only opening knows.  Making a release bounds each dependency and their sum by
  256 MiB, but not the document; reading a manifest refuses every object over 256 MiB, the document included.  So a
  release of a larger document succeeds, keeps its id, and can never be opened: every attempt ends in
  \<^verbatim>\<open>InvalidManifest\<close>.
\<close>

theorem large_document_never_opens:
  assumes "create_release_internal w parent source expected_revision expected_canonical_digest dependencies audit fs = (Inr m, fs')"
    and "keeps fs' later"
    and sha_32: "\<And>b. length (pw_sha w b) = 32" and json: "pw_parse_manifest w (pw_manifest_json w m) = Some m"
    and parent_id: "parent_ok (mf_release_id m) parent"
    and "save_container (pw_sha w) (pw_encode w) (pw_imported w) (fst source) (snd source) = Inr file"
    and "MAX_RELEASE_DEPENDENCY_BYTES < length file" and "length file < 2 ^ 64"
  shows "open_release w (mf_release_id m) later = Inl InvalidManifest"
  using created_manifest_reads [OF assms(1,3,4,5,6,8,2)] assms(7) by (simp add: open_release_def)

section \<open>A release made in an empty repository\<close>

definition demo_snapshot :: "unit snapshot" where
  "demo_snapshot = \<lparr>sn_revision_id = 1, sn_product = demo_product\<rparr>"

definition demo_audit :: release_audit where
  "demo_audit = \<lparr>au_actor = ''ann'', au_created_unix_ms = 5, au_note = ''first''\<rparr>"

definition demo_dependency :: dependency_input where
  "demo_dependency = \<lparr>di_logical_path = ''parts/bolt.step'', di_source_path = ''/tmp/bolt''\<rparr>"

text \<open>A document encodes to \<open>n\<close> bytes; every payload has the same JSON, and one manifest parses.\<close>

definition demo_pdm :: "nat \<Rightarrow> release_manifest option \<Rightarrow> unit pdm_world" where
  "demo_pdm n m =
     \<lparr>pw_sha = demo_pad, pw_payload_json = \<lambda>_. [1], pw_manifest_json = \<lambda>_. [2], pw_parse_manifest = \<lambda>_. m,
      pw_encode = \<lambda>_. replicate n 7, pw_imported = \<lambda>_. [], pw_decode_rule_program = \<lambda>_. Inl ResourceLimit,
      pw_load_document = \<lambda>_ d. Inr (demo_snapshot, d, ''digest''), pw_digest = \<lambda>_. ''digest'', pw_document_id = \<lambda>_. 1,
      pw_files = \<lambda>path. if path = ''/tmp/bolt'' then Some [1] else None, pw_listing = \<lambda>names. names\<rparr>"

abbreviation demo_create :: "nat \<Rightarrow> release_manifest option \<Rightarrow> release_manifest pdm_op" where
  "demo_create n m \<equiv> create_release_internal (demo_pdm n m) None (demo_snapshot, container_data_default) 1 ''digest'' [demo_dependency] demo_audit"

lemma demo_pdm_simps [simp]:
  "pw_sha (demo_pdm n m) = demo_pad" "pw_payload_json (demo_pdm n m) = (\<lambda>_. [1])" "pw_manifest_json (demo_pdm n m) = (\<lambda>_. [2])"
  "pw_parse_manifest (demo_pdm n m) = (\<lambda>_. m)" "pw_encode (demo_pdm n m) = (\<lambda>_. replicate n 7)" "pw_imported (demo_pdm n m) = (\<lambda>_. [])"
  "pw_load_document (demo_pdm n m) = (\<lambda>_ d. Inr (demo_snapshot, d, ''digest''))" "pw_digest (demo_pdm n m) = (\<lambda>_. ''digest'')"
  "pw_document_id (demo_pdm n m) = (\<lambda>_. 1)" "pw_files (demo_pdm n m) = (\<lambda>path. if path = ''/tmp/bolt'' then Some [1] else None)"
  by (simp_all add: demo_pdm_def)

lemma demo_saved:
  assumes "n < 2 ^ 32"
  shows "\<exists>saved. save_container demo_pad (\<lambda>_. replicate n 7) (\<lambda>_. []) demo_snapshot container_data_default = Inr saved \<and>
    n < length saved \<and> length saved < n + 1000 \<and> saved ! 0 = 75"
proof -
  have map: "saved_entry_map (replicate n 7) None None [] = [(''document.bin'', True, replicate n 7)]"
    by (simp add: saved_entry_map_def)
  have valid: "validate_container_path ''document.bin'' = Inr ()" by code_simp
  have side: "side_entries container_data_default [] = Inr []"
    by (simp add: side_entries_def container_data_default_def bt_values_def)
  let ?es = "[(''document.bin'', True, replicate n (7 :: u8))]"
  let ?file = "directory_bytes (container_schema_of ?es) (map (framed demo_pad) ?es)"
  have "encode_container demo_pad ?es = Inr ?file"
    unfolding encode_container_Inr using valid assms by (simp add: MAX_CONTAINER_ENTRIES_def)
  moreover have "n < length ?file" "length ?file < n + 1000" "?file ! 0 = 75"
    by (simp_all add: directory_bytes_def entry_bytes_def demo_pad_32 CONTAINER_MAGIC_def str_bytes_def nth_append)
  ultimately show ?thesis by (auto simp: save_container_def save_container_entries_def side map)
qed

lemma demo_audit_valid: "validate_audit demo_audit = Inr ()"
  by (simp add: validate_audit_def demo_audit_def is_trimmed_def any_control_def str_chars_def is_control_def is_whitespace_def
      MAX_AUDIT_ACTOR_BYTES_def MAX_AUDIT_NOTE_BYTES_def)

lemma demo_path_valid: "validate_logical_path ''parts/bolt.step'' = Inr ()"
  by code_simp

definition demo_released :: released_dependency where
  "demo_released = \<lparr>dp_logical_path = ''parts/bolt.step'', dp_object = object_identity_of (demo_pdm 0 None) [1]\<rparr>"

definition demo_manifest :: "bytes \<Rightarrow> release_manifest" where
  "demo_manifest saved = manifest_of (demo_pdm 0 None) (release_payload_of (demo_pdm 0 None) None demo_snapshot saved [demo_released] demo_audit)"

lemma demo_plan:
  assumes "save_container demo_pad (\<lambda>_. replicate n 7) (\<lambda>_. []) demo_snapshot container_data_default = Inr saved"
  shows "plan_release (demo_pdm n m) None (demo_snapshot, container_data_default) 1 ''digest'' [demo_dependency] demo_audit =
    Inr (demo_manifest saved, saved, [(demo_released, [1])])"
proof -
  have "read_release_dependencies (demo_pdm n m) [demo_dependency] MAX_RELEASE_DEPENDENCY_BYTES MAX_RELEASE_TOTAL_DEPENDENCY_BYTES =
    Inr [(demo_released, [1])]"
    by (simp add: read_release_dependencies_def add_dependency_def demo_dependency_def demo_path_valid read_bounded_def Let_def
        MAX_RELEASE_DEPENDENCY_BYTES_def MAX_RELEASE_TOTAL_DEPENDENCY_BYTES_def demo_released_def object_identity_of_def)
  moreover have "manifest_of (demo_pdm n m) (release_payload_of (demo_pdm n m) None demo_snapshot saved [demo_released] demo_audit) =
    demo_manifest saved"
    by (simp add: demo_manifest_def manifest_of_def release_payload_of_def canonical_payload_identity_def object_identity_of_def)
  ultimately show ?thesis
    using assms by (simp add: plan_release_def demo_snapshot_def demo_audit_valid MAX_RELEASE_DEPENDENCIES_def Let_def
        MAX_RELEASE_MANIFEST_BYTES_def)
qed

lemma demo_created:
  assumes "n < 2 ^ 32"
  obtains saved fs' where
    "save_container demo_pad (\<lambda>_. replicate n 7) (\<lambda>_. []) demo_snapshot container_data_default = Inr saved"
    "n < length saved" "length saved < n + 1000" "demo_create n (Some (demo_manifest saved)) [] = (Inr (demo_manifest saved), fs')"
proof -
  from demo_saved [OF assms] obtain saved where s:
    "save_container demo_pad (\<lambda>_. replicate n 7) (\<lambda>_. []) demo_snapshot container_data_default = Inr saved"
    "n < length saved" "length saved < n + 1000" "saved ! 0 = 75" by blast
  then have "hd (demo_pad saved) = 75" by (cases saved) (auto simp: demo_pad_def)
  moreover have "hd (demo_pad [1]) = 1" by (simp add: demo_pad_def)
  ultimately have "inj_on demo_pad (insert saved (snd ` set [(demo_released, [1])]))" by (auto simp: inj_on_def)
  then have "\<exists>fs'. demo_create n (Some (demo_manifest saved)) [] = (Inr (demo_manifest saved), fs')"
    by (intro release_written [OF demo_plan [OF s(1)]])
      (auto simp: demo_pad_32 manifest_room_def accepts_def clear_iff dir_ok_def)
  with s that show ?thesis by blast
qed




theorem large_document_never_opens_witness:
  "\<exists>saved fs'. demo_create 268435457 (Some (demo_manifest saved)) [] = (Inr (demo_manifest saved), fs') \<and>
     open_release (demo_pdm 268435457 (Some (demo_manifest saved))) (mf_release_id (demo_manifest saved)) fs' = Inl InvalidManifest"
proof -
  obtain saved fs' where s: "save_container demo_pad (\<lambda>_. replicate 268435457 7) (\<lambda>_. []) demo_snapshot container_data_default = Inr saved"
    "268435457 < length saved" "length saved < 268435457 + 1000"
    and c: "demo_create 268435457 (Some (demo_manifest saved)) [] = (Inr (demo_manifest saved), fs')"
    by (rule demo_created [of 268435457]) auto
  from large_document_never_opens [OF c kp.R_refl, of saved] s c show ?thesis
    by (auto simp: demo_pad_32 parent_ok_def MAX_RELEASE_DEPENDENCY_BYTES_def)
qed

end
