(* ===== verification/Ketchup_Lineage.thy ===== *)
theory Ketchup_Lineage
  imports Ketchup_Release
begin

text \<open>
  Releases in relation to each other: the walk along parents ends on every repository, returns exactly the sound lineages
  of at most 256 releases, and comparing two releases decides ancestry and finds the nearest common ancestor.
  Then the catalog, and a chain of releases that grows past what the walk follows.
\<close>

section \<open>The loops end\<close>

text \<open>The loops as they are written, with the test for equality with the limit.\<close>

partial_function (option) ancestry_run ::
  "'r pdm_world \<Rightarrow> repository \<Rightarrow> u64 \<Rightarrow> str list \<Rightarrow> release_manifest \<Rightarrow> (pdm_error + str list) option" where
  "ancestry_run w fs document_id ancestry m =
     (if length ancestry = MAX_RELEASE_LINEAGE_DEPTH then Some (Err LineageTooDeep)
      else if rd_document_id (mf_document m) \<noteq> document_id \<or> mf_release_id m \<in> set ancestry then Some (Err InvalidManifest)
      else
        (case mf_parent_release_id m of
           None \<Rightarrow> Some (Ok (ancestry @ [mf_release_id m]))
         | Some parent \<Rightarrow>
             (case read_manifest w parent fs of
                Inl e \<Rightarrow> Some (Err e)
              | Inr p \<Rightarrow> ancestry_run w fs document_id (ancestry @ [mf_release_id m]) p)))"

partial_function (option) lineage_run ::
  "(str, catalog_entry) btree_map \<Rightarrow> catalog_entry \<Rightarrow> str list \<Rightarrow> catalog_entry \<Rightarrow> (pdm_error + unit) option" where
  "lineage_run by_id entry seen e =
     (if length seen = MAX_RELEASE_LINEAGE_DEPTH then Some (Err LineageTooDeep)
      else if ca_release_id e \<in> set seen then Some (Err InvalidManifest)
      else
        (case ca_parent_release_id e of
           None \<Rightarrow> Some (Ok ())
         | Some parent_release_id \<Rightarrow>
             (case bt_get by_id parent_release_id of
                None \<Rightarrow> Some (Err (MissingRelease parent_release_id))
              | Some parent \<Rightarrow>
                  if ca_document_id parent \<noteq> ca_document_id entry then Some (Err ParentDocumentMismatch)
                  else lineage_run by_id entry (ca_release_id e # seen) parent)))"

lemma ancestry_returns:
  "length ancestry \<le> MAX_RELEASE_LINEAGE_DEPTH \<Longrightarrow>
     ancestry_run w fs document_id ancestry m = Some (ancestry_loop w fs document_id ancestry m)"
proof (induction w fs document_id ancestry m rule: ancestry_loop.induct)
  case (1 w fs document_id ancestry m)
  show ?case
    unfolding ancestry_run.simps [of w fs document_id ancestry m] ancestry_loop.simps [of w fs document_id ancestry m]
    using 1 by (auto split: option.splits sum.splits simp: and_then_def)
qed

lemma lineage_returns:
  "length seen \<le> MAX_RELEASE_LINEAGE_DEPTH \<Longrightarrow> lineage_run by_id entry seen e = Some (lineage_loop by_id entry seen e)"
proof (induction by_id entry seen e rule: lineage_loop.induct)
  case (1 by_id entry seen e)
  show ?case
    unfolding lineage_run.simps [of by_id entry seen e] lineage_loop.simps [of by_id entry seen e]
    using 1 by (auto split: option.splits simp: guard_def)
qed

text \<open>
  C31.  Following parents ends.  The loops of \<^verbatim>\<open>release_ancestry\<close> and \<^verbatim>\<open>validate_catalog_lineage\<close> stop when their
  count equals 256; started from the empty list they return for every repository and every catalog, parents that form
  a cycle included.
\<close>

theorem lineage_loops_end:
  "ancestry_run w fs (rd_document_id (mf_document m)) [] m = Some (release_ancestry w fs m) \<and>
   lineage_run by_id entry [] entry = Some (lineage_loop by_id entry [] entry)"
  by (simp add: ancestry_returns lineage_returns release_ancestry_def)

section \<open>Lineages\<close>

fun lineage :: "'r pdm_world \<Rightarrow> repository \<Rightarrow> release_manifest \<Rightarrow> release_manifest list \<Rightarrow> bool" where
  "lineage w fs m [] = (mf_parent_release_id m = None)"
| "lineage w fs m (p # ps) =
     (case mf_parent_release_id m of
        None \<Rightarrow> False
      | Some parent \<Rightarrow> read_manifest w parent fs = Inr p \<and> lineage w fs p ps)"

abbreviation ids_of :: "release_manifest list \<Rightarrow> str list" where
  "ids_of \<equiv> map mf_release_id"

lemma ancestry_loop_iff:
  "ancestry_loop w fs document_id ancestry m = Inr result \<longleftrightarrow>
     (\<exists>ps. lineage w fs m ps \<and> result = ancestry @ ids_of (m # ps) \<and> length result \<le> MAX_RELEASE_LINEAGE_DEPTH \<and>
       list_all (\<lambda>p. rd_document_id (mf_document p) = document_id) (m # ps) \<and> distinct (ids_of (m # ps)) \<and>
       set ancestry \<inter> set (ids_of (m # ps)) = {})"
proof (induction w fs document_id ancestry m arbitrary: result rule: ancestry_loop.induct)
  case (1 w fs document_id ancestry m)
  let ?stop = "length ancestry \<ge> MAX_RELEASE_LINEAGE_DEPTH"
  let ?bad = "rd_document_id (mf_document m) \<noteq> document_id \<or> mf_release_id m \<in> set ancestry"
  consider "?stop \<or> ?bad" | "\<not> ?stop" "\<not> ?bad" "mf_parent_release_id m = None"
    | parent where "\<not> ?stop" "\<not> ?bad" "mf_parent_release_id m = Some parent" by blast
  then show ?case
  proof cases
    case 1
    then have "ancestry_loop w fs document_id ancestry m \<noteq> Inr result" by (subst ancestry_loop.simps) auto
    with 1 show ?thesis by auto
  next
    case 2
    then have L: "lineage w fs m ps \<longleftrightarrow> ps = []" for ps by (cases ps) auto
    from 2 have E: "ancestry_loop w fs document_id ancestry m = Inr (ancestry @ [mf_release_id m])"
      by (subst ancestry_loop.simps) simp
    from 2 have "length (ancestry @ [mf_release_id m]) \<le> MAX_RELEASE_LINEAGE_DEPTH" by simp
    with 2(2) have "result = ancestry @ [mf_release_id m] \<longleftrightarrow>
      (\<exists>ps. ps = [] \<and> result = ancestry @ ids_of (m # ps) \<and> length result \<le> MAX_RELEASE_LINEAGE_DEPTH \<and>
       list_all (\<lambda>p. rd_document_id (mf_document p) = document_id) (m # ps) \<and> distinct (ids_of (m # ps)) \<and>
       set ancestry \<inter> set (ids_of (m # ps)) = {})" by (simp cong: conj_cong)
    then show ?thesis unfolding L E sum.inject by metis
  next
    case 3
    have IH: "ancestry_loop w fs document_id (ancestry @ [mf_release_id m]) p = Inr result \<longleftrightarrow>
      (\<exists>ps. lineage w fs p ps \<and> result = (ancestry @ [mf_release_id m]) @ ids_of (p # ps) \<and> length result \<le> MAX_RELEASE_LINEAGE_DEPTH \<and>
       list_all (\<lambda>p. rd_document_id (mf_document p) = document_id) (p # ps) \<and> distinct (ids_of (p # ps)) \<and>
       set (ancestry @ [mf_release_id m]) \<inter> set (ids_of (p # ps)) = {})"
      if "read_manifest w parent fs = Inr p" for p
      using "1.IH" [OF 3(1,2,3) that] .
    have L: "lineage w fs m ps \<longleftrightarrow> (\<exists>p qs. ps = p # qs \<and> read_manifest w parent fs = Inr p \<and> lineage w fs p qs)" for ps
      using 3(3) by (cases ps) auto
    from 3 have E: "ancestry_loop w fs document_id ancestry m =
      and_then (read_manifest w parent fs) (\<lambda>p. ancestry_loop w fs document_id (ancestry @ [mf_release_id m]) p)"
      by (subst ancestry_loop.simps) auto
    show ?thesis
    proof (cases "read_manifest w parent fs")
      case (Inl e)
      then show ?thesis unfolding L E by simp
    next
      case (Inr p)
      then have R: "(\<exists>ps. (\<exists>p' qs. ps = p' # qs \<and> read_manifest w parent fs = Inr p' \<and> lineage w fs p' qs) \<and> Q ps) \<longleftrightarrow>
        (\<exists>qs. lineage w fs p qs \<and> Q (p # qs))" for Q by auto
      show ?thesis unfolding L R E using IH [OF Inr] 3(2) Inr by auto
    qed
  qed
qed

lemma ancestry_iff:
  "release_ancestry w fs m = Inr result \<longleftrightarrow>
     (\<exists>ps. lineage w fs m ps \<and> result = ids_of (m # ps) \<and> length result \<le> MAX_RELEASE_LINEAGE_DEPTH \<and>
       distinct result \<and> list_all (\<lambda>p. rd_document_id (mf_document p) = rd_document_id (mf_document m)) ps)"
  unfolding release_ancestry_def ancestry_loop_iff by auto

text \<open>
  The ancestry of a release is its chain of parents.  \<^verbatim>\<open>release_ancestry\<close> returns a list of ids exactly when the
  manifests from the release up to one without parent can all be read, there are at most 256 of them, their ids are distinct and they
  release the same document; the list is their ids, the release first.
\<close>

theorem ancestry_is_parent_chain:
  "release_ancestry w fs m = Inr result \<longleftrightarrow>
     (\<exists>ps. lineage w fs m ps \<and> result = ids_of (m # ps) \<and> length result \<le> 256 \<and> distinct result \<and>
       list_all (\<lambda>p. rd_document_id (mf_document p) = rd_document_id (mf_document m)) ps)"
  unfolding ancestry_iff MAX_RELEASE_LINEAGE_DEPTH_def ..

section \<open>Comparing\<close>

inductive ancestor :: "'r pdm_world \<Rightarrow> repository \<Rightarrow> str \<Rightarrow> str \<Rightarrow> bool" for w fs where
  self: "read_manifest w a fs = Inr m \<Longrightarrow> ancestor w fs a a"
| parent: "read_manifest w b fs = Inr m \<Longrightarrow> mf_parent_release_id m = Some p \<Longrightarrow> ancestor w fs a p \<Longrightarrow> ancestor w fs a b"

inductive_simps ancestor_unfold: "ancestor w fs a b"

lemma read_manifest_id: "read_manifest w release_id fs = Inr m \<Longrightarrow> mf_release_id m = release_id"
  by (auto simp: read_manifest_def validate_manifest_def result_simps)

lemma lineage_ancestors:
  assumes "read_manifest w r fs = Inr m" and "lineage w fs m ps"
  shows "ancestor w fs a r \<longleftrightarrow> a \<in> set (ids_of (m # ps))"
  using assms
proof (induction ps arbitrary: r m)
  case Nil
  then show ?case using read_manifest_id by (subst ancestor_unfold) auto
next
  case (Cons p ps)
  then obtain parent where p: "mf_parent_release_id m = Some parent" "read_manifest w parent fs = Inr p" "lineage w fs p ps"
    by (auto split: option.splits)
  from Cons.IH [OF p(2,3)] Cons.prems(1) p(1) read_manifest_id [OF Cons.prems(1)]
  show ?case by (subst ancestor_unfold) auto
qed

lemma lineage_suffix:
  assumes "read_manifest w r fs = Inr m" and "lineage w fs m ps" and "ids_of (m # ps) = before @ a # after" and "c \<in> set (a # after)"
  shows "ancestor w fs c a"
  using assms
proof (induction ps arbitrary: r m before)
  case Nil
  then have "a = mf_release_id m" "c = a" by (cases before; auto)+
  with Nil.prems(1) read_manifest_id [OF Nil.prems(1)] show ?case by (auto intro: ancestor.self)
next
  case (Cons p ps)
  then obtain parent where p: "mf_parent_release_id m = Some parent" "read_manifest w parent fs = Inr p" "lineage w fs p ps"
    by (auto split: option.splits)
  show ?case
  proof (cases before)
    case Nil
    with Cons.prems have "a = r" "c \<in> set (ids_of (m # p # ps))" using read_manifest_id [OF Cons.prems(1)] by auto
    with lineage_ancestors [OF Cons.prems(1,2)] show ?thesis by simp
  next
    case (Cons x xs)
    with Cons.IH [OF p(2,3), of xs] Cons.prems(3,4) show ?thesis by simp
  qed
qed

lemma find_split: "find P xs = Some x \<Longrightarrow> \<exists>ys zs. xs = ys @ x # zs \<and> P x \<and> list_all (\<lambda>y. \<not> P y) ys"
proof (induction xs)
  case (Cons y xs)
  show ?case
  proof (cases "P y")
    case True
    with Cons.prems show ?thesis by (intro exI [of _ "[]"] exI [of _ xs]) auto
  next
    case False
    with Cons obtain ys zs where "xs = ys @ x # zs \<and> P x \<and> list_all (\<lambda>y. \<not> P y) ys" by auto
    with False show ?thesis by (intro exI [of _ "y # ys"] exI [of _ zs]) simp
  qed
qed simp

text \<open>What the relationship of two releases should be.\<close>

definition related :: "'r pdm_world \<Rightarrow> repository \<Rightarrow> str \<Rightarrow> str \<Rightarrow> release_relationship \<Rightarrow> bool" where
  "related w fs left right rel =
     (case rel of
        Same \<Rightarrow> left = right
      | LeftAncestor \<Rightarrow> left \<noteq> right \<and> ancestor w fs left right
      | RightAncestor \<Rightarrow> left \<noteq> right \<and> ancestor w fs right left
      | Diverged a \<Rightarrow> \<not> ancestor w fs left right \<and> \<not> ancestor w fs right left \<and>
          ancestor w fs a left \<and> ancestor w fs a right \<and>
          (\<forall>c. ancestor w fs c left \<and> ancestor w fs c right \<longrightarrow> ancestor w fs c a)
      | Unrelated \<Rightarrow> (\<forall>c. \<not> (ancestor w fs c left \<and> ancestor w fs c right)))"

lemma ancestry_ancestors:
  assumes "read_manifest w r fs = Inr m" and "release_ancestry w fs m = Inr result"
  shows "ancestor w fs a r \<longleftrightarrow> a \<in> set result"
    and "ancestor w fs a r \<Longrightarrow> \<exists>p. read_manifest w a fs = Inr p \<and> rd_document_id (mf_document p) = rd_document_id (mf_document m)"
    and "result = before @ a # after \<Longrightarrow> c \<in> set (a # after) \<Longrightarrow> ancestor w fs c a"
proof -
  from assms(2) obtain ps where ps: "lineage w fs m ps" "result = ids_of (m # ps)"
    "list_all (\<lambda>p. rd_document_id (mf_document p) = rd_document_id (mf_document m)) ps"
    by (auto simp: ancestry_iff)
  note l = lineage_ancestors [OF assms(1) ps(1)]
  show "ancestor w fs a r \<longleftrightarrow> a \<in> set result" by (simp add: l ps(2))
  have "\<forall>p \<in> set ps. read_manifest w (mf_release_id p) fs = Inr p" using ps(1)
  proof (induction ps arbitrary: m)
    case (Cons p ps)
    then show ?case by (auto split: option.splits dest: read_manifest_id)
  qed simp
  with ps(3) assms(1) show "ancestor w fs a r \<Longrightarrow>
      \<exists>p. read_manifest w a fs = Inr p \<and> rd_document_id (mf_document p) = rd_document_id (mf_document m)"
    using read_manifest_id [OF assms(1)] by (auto simp: l list_all_iff)
  show "result = before @ a # after \<Longrightarrow> c \<in> set (a # after) \<Longrightarrow> ancestor w fs c a"
    using lineage_suffix [OF assms(1) ps(1), of before a after c] ps(2) by simp
qed

lemma relationship_related:
  assumes l: "read_manifest w left fs = Inr l" and r: "read_manifest w right fs = Inr r" and "left \<noteq> right"
    and rel: "release_relationship_of w fs l r = Inr rel"
  shows "related w fs left right rel"
proof -
  from rel obtain ls rs where ls: "release_ancestry w fs l = Inr ls" and rs: "release_ancestry w fs r = Inr rs"
    and rel: "rel = (if left \<in> set rs then LeftAncestor else if right \<in> set ls then RightAncestor
      else (case find (\<lambda>x. x \<in> set rs) ls of Some a \<Rightarrow> Diverged a | None \<Rightarrow> Unrelated))"
    using read_manifest_id [OF l] read_manifest_id [OF r]
    by (auto simp: release_relationship_of_def result_simps split: option.splits if_splits)
  note al = ancestry_ancestors(1) [OF l ls] and ar = ancestry_ancestors(1) [OF r rs]
  consider "left \<in> set rs" | "left \<notin> set rs" "right \<in> set ls" | a where "left \<notin> set rs" "right \<notin> set ls" "find (\<lambda>x. x \<in> set rs) ls = Some a"
    | "left \<notin> set rs" "right \<notin> set ls" "find (\<lambda>x. x \<in> set rs) ls = None" by (metis not_Some_eq)
  then show ?thesis
  proof cases
    case 3
    from find_split [OF 3(3)] obtain ys zs where split: "ls = ys @ a # zs" "a \<in> set rs" "list_all (\<lambda>y. y \<notin> set rs) ys" by blast
    then have "ancestor w fs c a" if "c \<in> set ls" "c \<in> set rs" for c
      using ancestry_ancestors(3) [OF l ls split(1), of c] that by (auto simp: list_all_iff)
    with 3 rel split show ?thesis by (simp add: related_def al ar)
  next
    case 4
    with rel show ?thesis by (auto simp: related_def al ar find_None_iff)
  qed (use rel assms(3) in \<open>simp_all add: related_def al ar\<close>)
qed

lemma comparison_related:
  assumes "compare_releases w left right fs = Inr c"
  shows "related w fs left right (cm_relationship c)"
proof -
  from assms obtain l r where l: "read_manifest w left fs = Inr l" and r: "read_manifest w right fs = Inr r"
    by (auto simp: compare_releases_def result_simps)
  note ids = read_manifest_id [OF l] read_manifest_id [OF r]
  consider "left = right" | "left \<noteq> right" "rd_document_id (mf_document l) \<noteq> rd_document_id (mf_document r)"
    | "left \<noteq> right" "rd_document_id (mf_document l) = rd_document_id (mf_document r)" by blast
  then show ?thesis
  proof cases
    case 1
    with assms l r ids show ?thesis by (auto simp: compare_releases_def related_def result_simps)
  next
    case 2
    with assms l r ids obtain ls rs where ls: "release_ancestry w fs l = Inr ls" and rs: "release_ancestry w fs r = Inr rs"
      and c: "cm_relationship c = Unrelated"
      by (auto simp: compare_releases_def result_simps)
    from ancestry_ancestors(2) [OF l ls] ancestry_ancestors(2) [OF r rs] 2(2)
    have "\<not> (ancestor w fs a left \<and> ancestor w fs a right)" for a by fastforce
    with c show ?thesis by (simp add: related_def)
  next
    case 3
    with assms l r ids have "release_relationship_of w fs l r = Inr (cm_relationship c)"
      by (auto simp: compare_releases_def result_simps)
    with relationship_related [OF l r 3(1)] show ?thesis by blast
  qed
qed

lemma dependency_map_get:
  "bt_get (fold (\<lambda>d m. bt_insert (dp_logical_path d) (dp_object d) m) ds acc) path =
     (case map_of (rev (map (\<lambda>d. (dp_logical_path d, dp_object d)) ds)) path of None \<Rightarrow> bt_get acc path | Some x \<Rightarrow> Some x)"
  by (induction ds arbitrary: acc) (auto simp: map_add_def split: option.splits)

definition dependency_of :: "release_manifest \<Rightarrow> str \<Rightarrow> object_identity option" where
  "dependency_of m path = map_of (map (\<lambda>d. (dp_logical_path d, dp_object d)) (mf_dependencies m)) path"

definition change_kind :: "release_manifest \<Rightarrow> release_manifest \<Rightarrow> str \<Rightarrow> dependency_change_kind option" where
  "change_kind l r path =
     (if dependency_of l path = dependency_of r path then None
      else if dependency_of l path = None then Some Added
      else if dependency_of r path = None then Some Removed else Some Modified)"

lemma validated_sorted:
  "try_fold validate_dependency (previous, n) ds = Inr st \<Longrightarrow>
     sorted_wrt (<) (map dp_logical_path ds) \<and> (\<forall>path d. previous = Some path \<longrightarrow> d \<in> set ds \<longrightarrow> path < dp_logical_path d)"
proof (induction ds arbitrary: previous n)
  case Nil
  then show ?case by simp
next
  case (Cons d ds)
  from Cons.prems obtain st' where "validate_dependency (previous, n) d = Inr st'" "try_fold validate_dependency st' ds = Inr st"
    by (auto simp: result_simps)
  moreover from this(1) obtain n' where "st' = (Some (dp_logical_path d), n')"
    and "\<not> (case previous of None \<Rightarrow> False | Some path \<Rightarrow> path \<ge> dp_logical_path d)"
    by (auto simp: validate_dependency_def result_simps)
  ultimately have step: "try_fold validate_dependency (Some (dp_logical_path d), n') ds = Inr st"
    and "\<not> (case previous of None \<Rightarrow> False | Some path \<Rightarrow> path \<ge> dp_logical_path d)" by simp_all
  then have "previous = Some path \<Longrightarrow> path < dp_logical_path d" for path by (auto simp: not_le)
  with Cons.IH [OF step] show ?case by (force intro: less_trans)
qed

lemma dependency_map_of:
  assumes "read_manifest w release_id fs = Inr m"
  shows "bt_get (dependency_map (mf_dependencies m)) path = dependency_of m path"
proof -
  from assms obtain st where "try_fold validate_dependency (None, 0) (mf_dependencies m) = Inr st"
    by (auto simp: read_manifest_def validate_manifest_def result_simps)
  then have "distinct (map dp_logical_path (mf_dependencies m))"
    using validated_sorted strict_sorted_iff by blast
  then have "distinct (map fst (map (\<lambda>d. (dp_logical_path d, dp_object d)) (mf_dependencies m)))" (is "distinct (map fst ?ds)")
    by (simp add: comp_def)
  then have "map_of (rev ?ds) = map_of ?ds" by (subst map_of_inject_set) (auto simp: rev_map [symmetric])
  then show ?thesis by (simp add: dependency_map_def dependency_map_get dependency_of_def split: option.splits)
qed

lemma dependency_paths: "set (bt_keys (dependency_map ds)) = dp_logical_path ` set ds"
proof -
  have "set (bt_keys (fold (\<lambda>d m. bt_insert (dp_logical_path d) (dp_object d) m) ds acc)) = set (bt_keys acc) \<union> dp_logical_path ` set ds" for acc
    by (induction ds arbitrary: acc) (auto simp: bt_keys_def bt_keys_insert_set)
  from this [of "[]"] show ?thesis by (simp add: dependency_map_def bt_keys_def)
qed

lemma map_filter_member: "y \<in> set (List.map_filter f xs) \<longleftrightarrow> (\<exists>x \<in> set xs. f x = Some y)"
  by (induction xs) (auto simp: map_filter_simps split: option.splits)

lemma filtered_sorted: "(\<And>x y. f x = Some y \<Longrightarrow> key y = x) \<Longrightarrow> sorted_wrt (<) xs \<Longrightarrow> sorted_wrt (<) (map key (List.map_filter f xs))"
  by (induction xs) (auto simp: map_filter_simps map_filter_def split: option.splits)

text \<open>
  C29.  Comparing two releases decides which comes from which.  The relationship \<^verbatim>\<open>compare_releases\<close> reports
  is right: same release, one an ancestor of the other, diverged from a common ancestor that every other common
  ancestor is an ancestor of, or no common ancestor at all.  Its list of dependency changes is sorted by path and
  has, for each path whose object differs between the releases, exactly the right kind of change.
\<close>

theorem comparison_decides_ancestry:
  assumes "compare_releases w left right fs = Inr c"
  shows "related w fs left right (cm_relationship c) \<and> cm_conflict_verdict c = verdict_of (cm_relationship c) \<and>
    sorted_wrt (<) (map dc_logical_path (cm_dependency_changes c)) \<and>
    (\<exists>l r. read_manifest w left fs = Inr l \<and> read_manifest w right fs = Inr r \<and>
      (\<forall>path kind. \<lparr>dc_logical_path = path, dc_kind = kind\<rparr> \<in> set (cm_dependency_changes c) \<longleftrightarrow> change_kind l r path = Some kind))"
proof -
  from assms obtain l r where l: "read_manifest w left fs = Inr l" and r: "read_manifest w right fs = Inr r"
    and c: "cm_dependency_changes c = dependency_changes (mf_dependencies l) (mf_dependencies r)"
      "cm_conflict_verdict c = verdict_of (cm_relationship c)"
    by (auto simp: compare_releases_def result_simps)
  note get = dependency_map_of [OF l] dependency_map_of [OF r]
  let ?l = "dependency_map (mf_dependencies l)" and ?r = "dependency_map (mf_dependencies r)"
  have change: "change_of ?l ?r path = map_option (\<lambda>kind. \<lparr>dc_logical_path = path, dc_kind = kind\<rparr>) (change_kind l r path)" for path
    by (auto simp: change_of_def change_kind_def get split: option.splits)
  have listed: "path \<in> set (bt_keys ?l) \<or> path \<in> set (bt_keys ?r)" if "change_kind l r path = Some kind" for path kind
    using that bt_get_None_keys [of ?l path] bt_get_None_keys [of ?r path]
    by (auto simp: change_kind_def get [symmetric] split: if_splits)
  have "sorted_wrt (<) (map dc_logical_path (cm_dependency_changes c))"
    unfolding c dependency_changes_def Let_def by (rule filtered_sorted) (auto simp: change)
  moreover have "\<lparr>dc_logical_path = path, dc_kind = kind\<rparr> \<in> set (cm_dependency_changes c) \<longleftrightarrow> change_kind l r path = Some kind" for path kind
    using listed [of path kind] by (auto simp: c dependency_changes_def Let_def map_filter_member change)
  ultimately show ?thesis using comparison_related [OF assms] c(2) l r by blast
qed

section \<open>The catalog\<close>

lemma strip_suffix_Some: "strip_suffix ending name = Some x \<longleftrightarrow> name = x @ ending"
  by (auto simp: strip_suffix_def) (metis append_take_drop_id)

lemma catalog_names:
  assumes "try_fold (catalog_name fs) acc names = Inr ids"
  shows "names = map (\<lambda>release_id. release_id @ ''.json'') (drop (length acc) ids) \<and> take (length acc) ids = acc"
  using assms
proof (induction names arbitrary: acc)
  case Nil
  then show ?case by simp
next
  case (Cons name names)
  from Cons.prems obtain acc' where n: "catalog_name fs acc name = Inr acc'" and f: "try_fold (catalog_name fs) acc' names = Inr ids"
    by (auto simp: result_simps)
  from n obtain x where x: "name = x @ ''.json''" "acc' = acc @ [x]"
    by (auto simp: catalog_name_def result_simps strip_suffix_Some)
  from Cons.IH [OF f [unfolded x]] have IH: "names = map (\<lambda>release_id. release_id @ ''.json'') (drop (Suc (length acc)) ids)"
    "take (Suc (length acc)) ids = acc @ [x]" by simp_all
  then have len: "length acc < length ids" by (metis Suc_le_eq length_append_singleton length_take min.cobounded1)
  with IH(2) have "ids ! length acc = x" "take (length acc) ids = acc"
    by (simp_all add: take_Suc_conv_app_nth)
  with IH(1) x(1) len show ?case by (simp add: Cons_nth_drop_Suc [symmetric])
qed

lemma by_id_get: "bt_get (catalog_by_id catalog) release_id = Some e \<Longrightarrow> e \<in> set catalog \<and> ca_release_id e = release_id"
proof -
  have "bt_get (fold (\<lambda>e m. bt_insert (ca_release_id e) e m) catalog acc) release_id = Some e \<Longrightarrow>
    e \<in> set catalog \<and> ca_release_id e = release_id \<or> bt_get acc release_id = Some e" for acc
    by (induction catalog arbitrary: acc) (fastforce split: if_splits)+
  from this [of "[]"] show "bt_get (catalog_by_id catalog) release_id = Some e \<Longrightarrow> e \<in> set catalog \<and> ca_release_id e = release_id"
    by (simp add: catalog_by_id_def)
qed

definition entries_of :: "'r pdm_world \<Rightarrow> repository \<Rightarrow> catalog_entry list \<Rightarrow> bool" where
  "entries_of w fs catalog \<longleftrightarrow> (\<forall>e \<in> set catalog. \<exists>m. read_manifest w (ca_release_id e) fs = Inr m \<and> e = catalog_entry_of m)"

lemma lineage_gives_ancestry:
  assumes "entries_of w fs catalog" and "lineage_loop (catalog_by_id catalog) entry seen (catalog_entry_of p) = Inr ()"
    and "rd_document_id (mf_document p) = ca_document_id entry" and "length ancestry = length seen" and "set ancestry = set seen"
  shows "\<exists>result. ancestry_loop w fs (ca_document_id entry) ancestry p = Inr result"
  using assms
proof (induction w fs "ca_document_id entry" ancestry p arbitrary: seen rule: ancestry_loop.induct)
  case (1 w fs ancestry p)
  have go: "\<not> MAX_RELEASE_LINEAGE_DEPTH \<le> length ancestry" "\<not> (rd_document_id (mf_document p) \<noteq> ca_document_id entry \<or> mf_release_id p \<in> set ancestry)"
    using 1 by (auto simp: lineage_loop.simps [of _ _ seen] catalog_entry_of_def split: if_splits)
  show ?case
  proof (cases "mf_parent_release_id p")
    case None
    with go show ?thesis by (simp add: ancestry_loop.simps [of _ _ _ ancestry])
  next
    case (Some parent)
    with 1(3) go obtain e where e: "bt_get (catalog_by_id catalog) parent = Some e" "ca_document_id e = ca_document_id entry"
      "lineage_loop (catalog_by_id catalog) entry (mf_release_id p # seen) e = Inr ()"
      by (auto simp: lineage_loop.simps [of _ _ seen] catalog_entry_of_def result_simps split: if_splits)
    note b = by_id_get [OF e(1)]
    with 1(2) obtain q where q: "read_manifest w parent fs = Inr q" "e = catalog_entry_of q" by (auto simp: entries_of_def)
    have "\<exists>result. ancestry_loop w fs (ca_document_id entry) (ancestry @ [mf_release_id p]) q = Inr result"
      by (rule 1(1) [OF go Some q(1) 1(2) e(3) [unfolded q]]) (use e(2) q(2) 1(5,6) in \<open>auto simp: catalog_entry_of_def\<close>)
    with go Some q(1) show ?thesis by (simp add: ancestry_loop.simps [of _ _ _ ancestry])
  qed
qed

lemma catalog_facts:
  assumes "release_catalog w fs = Inr catalog" and "directory_at fs [''releases'']"
  obtains ids listed where "read_dir w fs [''releases''] = map (\<lambda>release_id. release_id @ ''.json'') ids"
    "list_all2 (\<lambda>release_id e. \<exists>m. read_manifest w release_id fs = Inr m \<and> e = catalog_entry_of m) (sort ids) listed"
    "validate_catalog_lineage listed = Inr ()"
    "catalog = sort_key (\<lambda>e. (au_created_unix_ms (ca_audit e), ca_release_id e)) listed"
proof -
  have "check_directory [''releases''] fs = Inr ()" using assms(2) by (simp add: check_directory_Inr)
  with assms(1) obtain ids listed where f: "try_fold (catalog_name fs) [] (read_dir w fs [''releases'']) = Inr ids"
    and l: "try_map (\<lambda>release_id. and_then (read_manifest w release_id fs) (\<lambda>m. Inr (catalog_entry_of m))) (sort ids) = Inr listed"
    and v: "validate_catalog_lineage listed = Inr ()"
    and c: "catalog = sort_key (\<lambda>e. (au_created_unix_ms (ca_audit e), ca_release_id e)) listed"
    by (auto simp: release_catalog_def result_simps)
  from catalog_names [OF f] have n: "read_dir w fs [''releases''] = map (\<lambda>release_id. release_id @ ''.json'') ids" by simp
  from l have "list_all2 (\<lambda>release_id e. \<exists>m. read_manifest w release_id fs = Inr m \<and> e = catalog_entry_of m) (sort ids) listed"
    by (auto simp: try_map_Inr result_simps elim!: list_all2_mono)
  from that [OF n this v c] show ?thesis .
qed

lemma read_dir_set:
  assumes "set (pw_listing w (List.map_filter (\<lambda>path. if path \<noteq> [] \<and> butlast path = directory then Some (last path) else None) (bt_keys fs))) =
    set (List.map_filter (\<lambda>path. if path \<noteq> [] \<and> butlast path = directory then Some (last path) else None) (bt_keys fs))"
  shows "name \<in> set (read_dir w fs directory) \<longleftrightarrow> bt_get fs (directory @ [name]) \<noteq> None"
proof -
  have "name \<in> set (read_dir w fs directory) \<longleftrightarrow> (\<exists>path \<in> set (bt_keys fs). path \<noteq> [] \<and> butlast path = directory \<and> last path = name)"
    unfolding read_dir_def assms by (auto simp: map_filter_member)
  also have "\<dots> \<longleftrightarrow> directory @ [name] \<in> set (bt_keys fs)"
    by (metis append_butlast_last_id butlast_snoc last_snoc snoc_eq_iff_butlast)
  finally show ?thesis using bt_get_None_keys [of fs "directory @ [name]"] by simp
qed

lemma catalog_listed:
  assumes "release_catalog w fs = Inr catalog" and "directory_at fs [''releases'']"
    and "\<And>names. set (pw_listing w names) = set names"
  shows "sorted (map (\<lambda>e. (au_created_unix_ms (ca_audit e), ca_release_id e)) catalog)"
    and "ca_release_id ` set catalog = {release_id. bt_get fs (manifest_file release_id) \<noteq> None}" and "entries_of w fs catalog"
    and "e \<in> set catalog \<Longrightarrow> \<exists>m result. read_manifest w (ca_release_id e) fs = Inr m \<and> release_ancestry w fs m = Inr result"
proof -
  obtain ids listed where n: "read_dir w fs [''releases''] = map (\<lambda>release_id. release_id @ ''.json'') ids"
    and l: "list_all2 (\<lambda>release_id e. \<exists>m. read_manifest w release_id fs = Inr m \<and> e = catalog_entry_of m) (sort ids) listed"
    and v: "validate_catalog_lineage listed = Inr ()"
    and c: "catalog = sort_key (\<lambda>e. (au_created_unix_ms (ca_audit e), ca_release_id e)) listed"
    by (rule catalog_facts [OF assms(1,2)])
  from l have "map ca_release_id listed = sort ids \<and> entries_of w fs listed"
  proof (induction rule: list_all2_induct)
    case (Cons x xs y ys)
    then obtain m where "read_manifest w x fs = Inr m" "y = catalog_entry_of m" by blast
    then have "ca_release_id y = x" "read_manifest w (ca_release_id y) fs = Inr m" by (auto simp: catalog_entry_of_def dest: read_manifest_id)
    with Cons.IH \<open>y = catalog_entry_of m\<close> show ?case by (auto simp: entries_of_def)
  qed (simp add: entries_of_def)
  then have ids: "map ca_release_id listed = sort ids" and entries: "entries_of w fs listed" by blast+
  have "release_id \<in> set ids \<longleftrightarrow> release_id @ ''.json'' \<in> set (read_dir w fs [''releases''])" for release_id unfolding n by auto
  then have "set ids = {release_id. bt_get fs (manifest_file release_id) \<noteq> None}"
    using read_dir_set [of w "[''releases'']" fs, OF assms(3)] by auto
  with arg_cong [OF ids, of set] show "ca_release_id ` set catalog = {release_id. bt_get fs (manifest_file release_id) \<noteq> None}"
    by (simp add: c)
  show "entries_of w fs catalog" using entries by (simp add: c entries_of_def)
  show "sorted (map (\<lambda>e. (au_created_unix_ms (ca_audit e), ca_release_id e)) catalog)" by (simp add: c)
  show "\<exists>m result. read_manifest w (ca_release_id e) fs = Inr m \<and> release_ancestry w fs m = Inr result" if e: "e \<in> set catalog"
  proof -
    from e entries obtain m where m: "read_manifest w (ca_release_id e) fs = Inr m" "e = catalog_entry_of m"
      by (auto simp: entries_of_def c)
    from v e m(2) have "lineage_loop (catalog_by_id listed) e [] (catalog_entry_of m) = Inr ()"
      by (auto simp: validate_catalog_lineage_def try_each_Inr c)
    from lineage_gives_ancestry [OF entries this, of "[]"] m
    show ?thesis by (auto simp: release_ancestry_def catalog_entry_of_def)
  qed
qed

text \<open>
  C30.  A catalog that opens lists every release, and its releases can be compared.  When the order a directory is listed in
  loses and adds no name, \<^verbatim>\<open>release_catalog\<close> returns an entry for exactly the files \<^verbatim>\<open><id>.json\<close> of the releases,
  each with what its manifest says, ordered by time of release and then id; and any two of the listed releases can be
  compared, so every parent chain among them is sound.
\<close>

theorem catalog_lists_comparable_releases:
  assumes "release_catalog w fs = Inr catalog" and "directory_at fs [''releases'']"
    and listing: "\<And>names. set (pw_listing w names) = set names"
  shows "sorted (map (\<lambda>e. (au_created_unix_ms (ca_audit e), ca_release_id e)) catalog) \<and>
    ca_release_id ` set catalog = {release_id. bt_get fs (manifest_file release_id) \<noteq> None} \<and> entries_of w fs catalog \<and>
    (\<forall>e \<in> set catalog. \<forall>e' \<in> set catalog. \<exists>c. compare_releases w (ca_release_id e) (ca_release_id e') fs = Inr c)"
proof -
  note c = catalog_listed [OF assms]
  have "\<exists>c. compare_releases w (ca_release_id e) (ca_release_id e') fs = Inr c" if "e \<in> set catalog" "e' \<in> set catalog" for e e'
    using c(4) [OF that(1)] c(4) [OF that(2)]
    by (auto simp: compare_releases_def release_relationship_of_def split: option.splits)
  with c(1-3) show ?thesis by simp
qed

section \<open>A chain that grows too long\<close>

lemma keeps_manifest: "keeps fs fs' \<Longrightarrow> read_manifest w release_id fs = Inr m \<Longrightarrow> read_manifest w release_id fs' = Inr m"
proof -
  assume k: "keeps fs fs'" and r: "read_manifest w release_id fs = Inr m"
  let ?read = "read_bounded_repository_file (manifest_file release_id) MAX_RELEASE_MANIFEST_BYTES ManifestTooLarge"
  from r obtain bs where v: "validate_sha256 release_id = Inr ()" and b: "?read fs = Inr bs"
    and p: "pw_parse_manifest w bs = Some m" "validate_manifest w m release_id = Inr ()"
    by (auto simp: read_manifest_def unless_found_def manifest_path_Inr result_simps)
  from b have "file_at fs' (manifest_file release_id) bs" "length bs \<le> MAX_RELEASE_MANIFEST_BYTES"
    using keeps_file [OF k] by (auto simp: repository_file_read)
  from manifest_read [OF this v p(1)] p(2) show ?thesis by simp
qed

lemma keeps_lineage: "keeps fs fs' \<Longrightarrow> lineage w fs m ps \<Longrightarrow> lineage w fs' m ps"
  by (induction ps arbitrary: m) (auto split: option.splits intro: keeps_manifest)

lemma too_deep:
  assumes "lineage w fs m ps" and "list_all (\<lambda>p. rd_document_id (mf_document p) = document_id) (m # ps)"
    and "distinct (ids_of (m # ps))" and "set ancestry \<inter> set (ids_of (m # ps)) = {}"
    and "length ancestry \<le> MAX_RELEASE_LINEAGE_DEPTH" and "MAX_RELEASE_LINEAGE_DEPTH < length ancestry + length (m # ps)"
  shows "ancestry_loop w fs document_id ancestry m = Inl LineageTooDeep"
  using assms
proof (induction ps arbitrary: m ancestry)
  case Nil
  then show ?case by (simp add: ancestry_loop.simps [of _ _ _ ancestry])
next
  case (Cons p ps)
  then obtain parent where p: "mf_parent_release_id m = Some parent" "read_manifest w parent fs = Inr p" "lineage w fs p ps"
    by (auto split: option.splits)
  show ?case
  proof (cases "length ancestry = MAX_RELEASE_LINEAGE_DEPTH")
    case True
    then show ?thesis by (simp add: ancestry_loop.simps [of _ _ _ ancestry])
  next
    case False
    have "ancestry_loop w fs document_id (ancestry @ [mf_release_id m]) p = Inl LineageTooDeep"
      by (rule Cons.IH [OF p(3)]) (use Cons.prems False in auto)
    with False Cons.prems p(1,2) show ?thesis by (simp add: ancestry_loop.simps [of _ _ _ ancestry])
  qed
qed

lemma read_present: "read_manifest w release_id fs = Inr m \<Longrightarrow> bt_get fs (manifest_file (mf_release_id m)) \<noteq> None"
  using read_manifest_id [of w release_id fs m]
  by (auto simp: read_manifest_def manifest_path_Inr unless_found_def repository_file_read file_at_def result_simps)

lemma child_created:
  assumes "create_child_release_with_container w parent_release_id source expected_revision expected_canonical_digest dependencies audit fs =
      (Inr m, fs')" and "read_manifest w parent_release_id fs = Inr p"
  shows "create_release_internal w (Some p) source expected_revision expected_canonical_digest dependencies audit fs = (Inr m, fs')"
    and "mf_parent_release_id m = Some parent_release_id" and "rd_document_id (mf_document m) = rd_document_id (mf_document p)"
    and "parent_ok (mf_release_id m) (Some p)" and "read_manifest w x fs = Inr q \<Longrightarrow> mf_release_id q \<noteq> mf_release_id m"
proof -
  from assms show create: "create_release_internal w (Some p) source expected_revision expected_canonical_digest dependencies audit fs = (Inr m, fs')"
    by (auto simp: create_child_release_with_container_def open_release_def op_simps result_simps)
  from assms have doc: "rd_document_id (mf_document p) = pw_document_id w (sn_product (fst source))"
    by (auto simp: create_child_release_with_container_def open_release_def op_simps result_simps)
  have pid: "mf_release_id p = parent_release_id" by (rule read_manifest_id [OF assms(2)])
  from created_files [OF create] obtain document_bytes ds where
    "plan_release w (Some p) source expected_revision expected_canonical_digest dependencies audit = Inr (m, document_bytes, ds)" .
  then have "m = manifest_of w (release_payload_of w (Some p) (fst source) document_bytes (map fst ds) audit)"
    using plan_facts(3) [of w "Some p" "fst source" "snd source"] by simp
  with doc pid show "mf_parent_release_id m = Some parent_release_id" "rd_document_id (mf_document m) = rd_document_id (mf_document p)"
    by (simp_all add: manifest_of_def release_payload_of_def)
  show other: "read_manifest w x fs = Inr q \<Longrightarrow> mf_release_id q \<noteq> mf_release_id m" for x q
    using read_present [of w x fs q] created_new [OF create] by auto
  have "validate_sha256 parent_release_id = Inr ()" using assms(2) by (auto simp: read_manifest_def result_simps)
  with other [OF assms(2)] pid show "parent_ok (mf_release_id m) (Some p)" by (simp add: parent_ok_def)
qed

text \<open>
   A chain of releases can be made too long for itself.  \<^verbatim>\<open>create_child_release_with_container\<close> opens the parent
  but does not look at its ancestry: a child of a release with 256 releases in its line is made without error.  From
  then on its manifest reads, but following its parents gives \<^verbatim>\<open>LineageTooDeep\<close>, so it cannot be compared with any
  release, and the catalog of the whole repository, of other documents too, no longer opens.
\<close>

theorem child_outgrows_lineage:
  assumes "create_child_release_with_container w parent_release_id source expected_revision expected_canonical_digest dependencies audit fs =
      (Inr m, fs')"
    and "read_manifest w parent_release_id fs = Inr p" and "release_ancestry w fs p = Inr line" and "length line = 256"
    and sha_32: "\<And>b. length (pw_sha w b) = 32" and json: "pw_parse_manifest w (pw_manifest_json w m) = Some m"
    and listing: "\<And>names. set (pw_listing w names) = set names"
    and "save_container (pw_sha w) (pw_encode w) (pw_imported w) (fst source) (snd source) = Inr saved"
    and "length saved \<le> MAX_RELEASE_DEPENDENCY_BYTES"
  shows "read_manifest w (mf_release_id m) fs' = Inr m \<and> release_ancestry w fs' m = Inl LineageTooDeep \<and>
    compare_releases w (mf_release_id m) other fs' \<noteq> Inr c \<and> (\<exists>e. release_catalog w fs' = Inl e)"
proof -
  note child = child_created [OF assms(1,2)]
  note kept = kp.over_result [OF kp_create_release child(1)]
  have read: "read_manifest w (mf_release_id m) fs' = Inr m"
    using created_manifest_reads [OF child(1) sha_32 json child(4) assms(8) _ kp.R_refl] assms(9) by (simp add: MAX_RELEASE_DEPENDENCY_BYTES_def)
  from assms(3,4) obtain ps where ps: "lineage w fs p ps" "line = ids_of (p # ps)" "distinct line" "length ps = 255"
    "list_all (\<lambda>q. rd_document_id (mf_document q) = rd_document_id (mf_document p)) ps"
    by (auto simp: ancestry_iff)
  have chain: "lineage w fs' m (p # ps)" using child(2) keeps_manifest [OF kept assms(2)] keeps_lineage [OF kept ps(1)] by simp
  have "ancestor w fs x parent_release_id" if "x \<in> set line" for x
    using lineage_ancestors [OF assms(2) ps(1)] that ps(2) by simp
  then have "mf_release_id m \<notin> set line"
    using ancestry_ancestors(2) [OF assms(2,3), of "mf_release_id m"] child(5) read_manifest_id by blast
  then have deep: "release_ancestry w fs' m = Inl LineageTooDeep" unfolding release_ancestry_def
    by (intro too_deep [OF chain]) (use ps child(3) in \<open>auto simp: MAX_RELEASE_LINEAGE_DEPTH_def\<close>)
  moreover have "compare_releases w (mf_release_id m) other fs' \<noteq> Inr c"
    using read deep by (auto simp: compare_releases_def release_relationship_of_def result_simps split: if_splits)
  moreover have "release_catalog w fs' \<noteq> Inr catalog" for catalog
  proof
    assume c: "release_catalog w fs' = Inr catalog"
    obtain document_bytes ds where "file_at fs' (manifest_file (mf_release_id m)) (pw_manifest_json w m)"
      by (rule created_files [OF child(1)])
    then have "directory_at fs' [''releases'']" "bt_get fs' (manifest_file (mf_release_id m)) \<noteq> None" by (simp_all add: file_at_def)
    note l = catalog_listed [OF c this(1) listing] and there = this(2)
    have "mf_release_id m \<in> ca_release_id ` set catalog" unfolding l(2) using there by simp
    then obtain e where e: "e \<in> set catalog" "ca_release_id e = mf_release_id m" by auto
    from l(4) [OF e(1)] read deep show False by (simp add: e(2))
  qed
  ultimately show ?thesis using read by (metis sum.exhaust)
qed

section \<open>A chain of releases of one document\<close>

text \<open>Revision \<open>k\<close> of the document is encoded as its number; the hash is of the end of the bytes.\<close>

definition demo_tail :: "bytes \<Rightarrow> bytes" where
  "demo_tail bs = take 32 (rev bs @ replicate 32 0)"

definition chain_entries :: "nat \<Rightarrow> entry_map" where
  "chain_entries k = [(''document.bin'', True, le_bytes 8 k)]"

definition chain_file :: "nat \<Rightarrow> bytes" where
  "chain_file k = directory_bytes (container_schema_of (chain_entries k)) (map (framed demo_tail) (chain_entries k))"

definition chain_id :: "nat \<Rightarrow> str" where
  "chain_id k = sha256_hex demo_tail (le_bytes 8 k)"

definition chain_object :: "nat \<Rightarrow> object_identity" where
  "chain_object k = \<lparr>oi_sha256 = sha256_hex demo_tail (chain_file k), oi_byte_len = of_nat (length (chain_file k))\<rparr>"

definition chain_manifest :: "nat \<Rightarrow> release_manifest" where
  "chain_manifest k =
     \<lparr>mf_schema = LOCAL_PDM_RELEASE_SCHEMA_V1, mf_release_id = chain_id k,
      mf_parent_release_id = (if k \<le> 1 then None else Some (chain_id (k - 1))),
      mf_document = \<lparr>rd_document_id = 1, rd_revision = of_nat k, rd_canonical_digest = ''digest'', rd_units = ''millimetres'',
        rd_object = chain_object k\<rparr>,
      mf_dependencies = [], mf_audit = demo_audit\<rparr>"

definition chain_snapshot :: "nat \<Rightarrow> unit snapshot" where
  "chain_snapshot k = \<lparr>sn_revision_id = of_nat k, sn_product = demo_product\<rparr>"

definition chain_world :: "unit pdm_world" where
  "chain_world =
     \<lparr>pw_sha = demo_tail, pw_payload_json = \<lambda>p. le_bytes 8 (unat (rd_revision (pl_document p))),
      pw_manifest_json = \<lambda>m. le_bytes 8 (unat (rd_revision (mf_document m))),
      pw_parse_manifest = \<lambda>bs. Some (chain_manifest (le_value bs)),
      pw_encode = \<lambda>s. le_bytes 8 (unat (sn_revision_id s)), pw_imported = \<lambda>_. [],
      pw_decode_rule_program = \<lambda>_. Inl ResourceLimit,
      pw_load_document = \<lambda>bs d. Inr (chain_snapshot (le_value bs), d, ''digest''), pw_digest = \<lambda>_. ''digest'',
      pw_document_id = \<lambda>_. 1, pw_files = \<lambda>_. None, pw_listing = \<lambda>names. names\<rparr>"

text \<open>Releases 1 to \<open>n\<close>, of which the objects of the last are kept here.\<close>

definition chain_fs :: "nat \<Rightarrow> repository" where
  "chain_fs n =
     [([], Directory), ([''releases''], Directory), ([''objects''], Directory),
      ([''objects'', take 2 (oi_sha256 (chain_object n))], Directory), (object_file (chain_object n), RegularFile (chain_file n))] @
     map (\<lambda>k. (manifest_file (chain_id k), RegularFile (le_bytes 8 k))) [1 ..< Suc n]"

lemma demo_tail_32: "length (demo_tail bs) = 32"
  by (simp add: demo_tail_def)

lemma chain_world_simps [simp]:
  "pw_sha chain_world = demo_tail" "pw_payload_json chain_world p = le_bytes 8 (unat (rd_revision (pl_document p)))"
  "pw_manifest_json chain_world m = le_bytes 8 (unat (rd_revision (mf_document m)))"
  "pw_parse_manifest chain_world bs = Some (chain_manifest (le_value bs))"
  "pw_encode chain_world = (\<lambda>s. le_bytes 8 (unat (sn_revision_id s)))" "pw_imported chain_world = (\<lambda>_. [])"
  "pw_load_document chain_world bs d = Inr (chain_snapshot (le_value bs), d, ''digest'')"
  "pw_digest chain_world x = ''digest''" "pw_document_id chain_world x = 1" "pw_listing chain_world names = names"
  by (simp_all add: chain_world_def)

lemma unat_small: "k < 2 ^ 32 \<Longrightarrow> unat (of_nat k :: u64) = k"
  by (simp add: unat_of_nat take_bit_nat_eq_self)

lemma le_value_small: "k < 2 ^ 32 \<Longrightarrow> le_value (le_bytes 8 k) = k"
  by (simp add: le_value_le_bytes)

lemma demo_tail_number: "k < 2 ^ 32 \<Longrightarrow> l < 2 ^ 32 \<Longrightarrow> take 8 (demo_tail (xs @ le_bytes 8 k)) = take 8 (demo_tail (ys @ le_bytes 8 l)) \<Longrightarrow> k = l"
  by (rule le_bytes_inject [of k 8 l]) (simp_all add: demo_tail_def min_def)

lemma chain_id_inject: "k < 2 ^ 32 \<Longrightarrow> l < 2 ^ 32 \<Longrightarrow> chain_id k = chain_id l \<Longrightarrow> k = l"
  using demo_tail_number [of k l "[]" "[]"] sha256_hex_inject [of demo_tail "le_bytes 8 k" "le_bytes 8 l"]
  by (simp add: chain_id_def)

lemma chain_file_end: "\<exists>xs. chain_file k = xs @ le_bytes 8 k \<and> length xs < 1000"
  by (auto simp: chain_file_def chain_entries_def directory_bytes_def entry_bytes_def framed_def demo_tail_32 simp flip: append_assoc)

lemma chain_object_inject:
  assumes "k < 2 ^ 32" and "l < 2 ^ 32" and "oi_sha256 (chain_object k) = oi_sha256 (chain_object l)"
  shows "k = l"
proof -
  have "demo_tail (chain_file k) = demo_tail (chain_file l)"
    using assms(3) sha256_hex_inject [of demo_tail "chain_file k" "chain_file l"] by (simp add: chain_object_def)
  with chain_file_end [of k] chain_file_end [of l] demo_tail_number [OF assms(1,2)] show ?thesis by metis
qed

lemma chain_id_valid: "validate_sha256 (chain_id k) = Inr ()"
  unfolding chain_id_def by (rule hash_valid) (rule demo_tail_32)

lemma chain_saved:
  "save_container demo_tail (\<lambda>s. le_bytes 8 (unat (sn_revision_id s))) (\<lambda>_. []) (chain_snapshot k) container_data_default =
     Inr (chain_file (unat (of_nat k :: u64)))"
proof -
  have valid: "validate_container_path ''document.bin'' = Inr ()" by code_simp
  have "side_entries container_data_default [] = Inr []"
    by (simp add: side_entries_def container_data_default_def bt_values_def)
  moreover have "encode_container demo_tail (chain_entries j) = Inr (chain_file j)" for j
    unfolding encode_container_Inr using valid by (simp add: chain_entries_def chain_file_def MAX_CONTAINER_ENTRIES_def)
  ultimately show ?thesis
    by (simp add: save_container_def save_container_entries_def saved_entry_map_def chain_entries_def chain_snapshot_def)
qed

lemma chain_file_short: "length (chain_file k) \<le> MAX_RELEASE_DEPENDENCY_BYTES"
  using chain_file_end [of k] by (auto simp: MAX_RELEASE_DEPENDENCY_BYTES_def)

lemma chain_identity: "object_identity_of chain_world (chain_file k) = chain_object k"
  by (simp add: object_identity_of_def chain_object_def)

lemma chain_valid:
  assumes "k < 2 ^ 32"
  shows "validate_manifest chain_world (chain_manifest k) (chain_id k) = Inr ()"
proof -
  have "computed_release_id chain_world (chain_manifest k) = chain_id k"
    using assms by (simp add: computed_release_id_def canonical_payload_identity_def manifest_payload_def chain_manifest_def chain_id_def
        unat_of_nat take_bit_nat_eq_self)
  moreover have "validate_object_identity (chain_object k) = Inr ()"
    using identity_valid [OF chain_file_short, of chain_world k] by (simp add: demo_tail_32 chain_identity)
  moreover have "1 < k \<Longrightarrow> chain_id (k - 1) \<noteq> chain_id k" using chain_id_inject [of "k - 1" k] assms by linarith
  ultimately show ?thesis
    by (simp add: validate_manifest_def chain_manifest_def demo_audit_valid chain_id_valid MAX_RELEASE_DEPENDENCIES_def)
qed

lemma map_of_tabulate: "inj_on f (set xs) \<Longrightarrow> x \<in> set xs \<Longrightarrow> map_of (map (\<lambda>x. (f x, g x)) xs) (f x) = Some (g x)"
  by (induction xs) (auto simp: inj_on_def)

lemma chain_gets:
  assumes "n < 2 ^ 32"
  shows "bt_get (chain_fs n) [] = Some Directory" "bt_get (chain_fs n) [''releases''] = Some Directory"
    "bt_get (chain_fs n) [''objects''] = Some Directory"
    "bt_get (chain_fs n) [''objects'', take 2 (oi_sha256 (chain_object n))] = Some Directory"
    "bt_get (chain_fs n) (object_file (chain_object n)) = Some (RegularFile (chain_file n))"
    "1 \<le> k \<Longrightarrow> k \<le> n \<Longrightarrow> bt_get (chain_fs n) (manifest_file (chain_id k)) = Some (RegularFile (le_bytes 8 k))"
proof -
  show "bt_get (chain_fs n) [] = Some Directory" "bt_get (chain_fs n) [''releases''] = Some Directory"
    "bt_get (chain_fs n) [''objects''] = Some Directory"
    "bt_get (chain_fs n) [''objects'', take 2 (oi_sha256 (chain_object n))] = Some Directory"
    "bt_get (chain_fs n) (object_file (chain_object n)) = Some (RegularFile (chain_file n))"
    by (simp_all add: chain_fs_def)
  have "inj_on (\<lambda>k. manifest_file (chain_id k)) (set [1 ..< Suc n])"
    using assms by (auto simp: inj_on_def intro!: chain_id_inject)
  from map_of_tabulate [OF this, of k "\<lambda>k. RegularFile (le_bytes 8 k)"]
  show "1 \<le> k \<Longrightarrow> k \<le> n \<Longrightarrow> bt_get (chain_fs n) (manifest_file (chain_id k)) = Some (RegularFile (le_bytes 8 k))"
    by (simp add: chain_fs_def bt_get_def del: upt_Suc)
qed

lemma chain_reads:
  assumes "n < 2 ^ 32" and "1 \<le> k" and "k \<le> n"
  shows "read_manifest chain_world (chain_id k) (chain_fs n) = Inr (chain_manifest k)"
proof -
  have "file_at (chain_fs n) (manifest_file (chain_id k)) (le_bytes 8 k)"
    using chain_gets [OF assms(1)] assms(2,3) by (simp add: file_at_def directory_at_def)
  from manifest_read [OF this _ chain_id_valid, of chain_world "chain_manifest k"] chain_valid [of k] assms
  show ?thesis by (simp add: le_value_small MAX_RELEASE_MANIFEST_BYTES_def)
qed

lemma chain_lineage:
  assumes "n < 2 ^ 32" and "k < n"
  shows "lineage chain_world (chain_fs n) (chain_manifest (Suc k)) (map chain_manifest (rev [1 ..< Suc k]))"
  using assms(2)
proof (induction k)
  case 0
  then show ?case by (simp add: chain_manifest_def)
next
  case (Suc k)
  then have "read_manifest chain_world (chain_id (Suc k)) (chain_fs n) = Inr (chain_manifest (Suc k))"
    by (intro chain_reads [OF assms(1)]) auto
  with Suc show ?case by (simp add: chain_manifest_def [of "Suc (Suc k)"])
qed

lemma chain_ancestry:
  assumes "n \<le> 256" and "k < n"
  shows "release_ancestry chain_world (chain_fs n) (chain_manifest (Suc k)) = Inr (map chain_id (rev [1 ..< Suc (Suc k)]))"
proof -
  have id: "mf_release_id (chain_manifest j) = chain_id j" "rd_document_id (mf_document (chain_manifest j)) = 1" for j
    by (simp_all add: chain_manifest_def)
  have "inj_on chain_id {1 ..< Suc (Suc k)}" using assms by (auto simp: inj_on_def intro: chain_id_inject)
  then have "distinct (map chain_id (rev [1 ..< Suc (Suc k)]))" by (simp add: distinct_map del: upt_Suc)
  moreover have "lineage chain_world (chain_fs n) (chain_manifest (Suc k)) (map chain_manifest (rev [1 ..< Suc k]))"
    using assms by (intro chain_lineage) auto
  ultimately show ?thesis unfolding ancestry_iff
    using assms by (intro exI [of _ "map chain_manifest (rev [1 ..< Suc k])"])
      (auto simp: id list_all_iff comp_def MAX_RELEASE_LINEAGE_DEPTH_def)
qed

lemma chain_file_at: "n < 2 ^ 32 \<Longrightarrow> file_at (chain_fs n) (object_file (chain_object n)) (chain_file n)"
  using chain_gets [of n] by (simp add: file_at_def directory_at_def)

lemma chain_opens:
  assumes "1 \<le> n" and "n < 2 ^ 32"
  shows "open_release chain_world (chain_id n) (chain_fs n) =
    Inr \<lparr>vr_manifest = chain_manifest n, vr_snapshot = chain_snapshot n, vr_container_data = container_data_default,
      vr_dependency_objects = []\<rparr>"
proof -
  have o: "object_identity_of chain_world (chain_file n) = chain_object n" by (rule chain_identity)
  have "object_at chain_world (chain_fs n) (chain_object n)"
    unfolding object_at_iff using chain_file_at [OF assms(2)] o by blast
  moreover have "validate_object_identity (chain_object n) = Inr ()"
    using identity_valid [OF chain_file_short, of chain_world n] by (simp add: demo_tail_32 chain_identity)
  ultimately have document: "read_object chain_world (chain_object n) (chain_fs n) = Inr (chain_file n)"
    using object_read chain_file_at [OF assms(2)] chain_file_short by blast
  have side: "side_entries container_data_default [] = Inr []"
    by (simp add: side_entries_def container_data_default_def bt_values_def)
  have data: "cd_blobs container_data_default = []" "cd_extensions container_data_default = []"
    "\<lparr>cd_blobs = [], cd_imported = [], cd_extensions = []\<rparr> = container_data_default"
    by (simp_all add: container_data_default_def)
  have "length (chain_file n) < 2 ^ 64" using chain_file_end [of n] by auto
  then have "load chain_world (chain_file n) = Inr (chain_snapshot n, container_data_default, ''digest'')"
    using saved_loads [of chain_world container_data_default "chain_snapshot n" "[]" "chain_file n"] chain_saved [of n] side assms
    by (simp add: demo_tail_32 default_ok data entries_items_def MAX_COLLECTION_ITEMS_def unat_of_nat take_bit_nat_eq_self
        chain_snapshot_def le_value_small)
  then show ?thesis
    using chain_reads [OF assms(2,1)] document by (simp add: open_release_def chain_manifest_def chain_snapshot_def)
qed

lemma chain_plan:
  assumes "1 \<le> n" and "Suc n < 2 ^ 32"
  shows "plan_release chain_world (Some (chain_manifest n)) (chain_snapshot (Suc n), container_data_default) (of_nat (Suc n)) ''digest'' []
    demo_audit = Inr (chain_manifest (Suc n), chain_file (Suc n), [])"
proof -
  have small: "unat (of_nat (Suc n) :: u64) = Suc n" using assms by (intro unat_small) auto
  have "chain_object n \<noteq> chain_object (Suc n)" using chain_object_inject [of n "Suc n"] assms by auto
  moreover have "manifest_of chain_world (release_payload_of chain_world (Some (chain_manifest n)) (chain_snapshot (Suc n)) (chain_file (Suc n)) [] demo_audit) =
    chain_manifest (Suc n)"
    using assms small by (simp add: manifest_of_def release_payload_of_def canonical_payload_identity_def chain_manifest_def chain_identity
        chain_snapshot_def chain_id_def del: of_nat_Suc)
  ultimately show ?thesis
    using chain_saved [of "Suc n"] small
    by (simp add: plan_release_def read_release_dependencies_def demo_audit_valid MAX_RELEASE_DEPENDENCIES_def Let_def
        MAX_RELEASE_MANIFEST_BYTES_def release_payload_of_def chain_identity chain_manifest_def chain_snapshot_def del: of_nat_Suc)
qed

lemma chain_room:
  assumes "n < 2 ^ 31"
  shows "manifest_room (chain_fs n) (chain_id (Suc n))" "accepts (chain_fs n) (chain_object (Suc n)) (chain_file (Suc n))"
proof -
  have other: "bt_get (chain_fs n) p = map_of (take 5 (chain_fs n)) p" if "\<And>k. k \<le> n \<Longrightarrow> p \<noteq> manifest_file (chain_id k)" for p
  proof -
    have "map_of (map (\<lambda>k. (manifest_file (chain_id k), RegularFile (le_bytes 8 k))) [1 ..< Suc n]) p = None"
      using that by (fastforce simp: map_of_eq_None_iff less_Suc_eq_le simp del: upt_Suc)
    then show ?thesis by (simp add: chain_fs_def bt_get_def del: upt_Suc)
  qed
  have new: "chain_id (Suc n) \<noteq> chain_id k" if "k \<le> n" for k using chain_id_inject [of "Suc n" k] that assms by auto
  have "chain_object n \<noteq> chain_object (Suc n)" "oi_sha256 (chain_object n) \<noteq> oi_sha256 (chain_object (Suc n))"
    using chain_object_inject [of n "Suc n"] assms by auto
  then have "bt_get (chain_fs n) [''objects'', x] = (if x = take 2 (oi_sha256 (chain_object n)) then Some Directory else None)"
    "bt_get (chain_fs n) (object_file (chain_object (Suc n))) = None" "bt_get (chain_fs n) (manifest_file (chain_id (Suc n))) = None" for x
    using new by (subst other; auto simp: chain_fs_def simp del: upt_Suc)+
  with chain_gets [of n] assms
  show "manifest_room (chain_fs n) (chain_id (Suc n))" "accepts (chain_fs n) (chain_object (Suc n)) (chain_file (Suc n))"
    by (simp_all add: manifest_room_def accepts_def clear_one clear_two dir_ok_def)
qed

lemma chain_child:
  assumes "1 \<le> n" and "n < 2 ^ 31"
  shows "\<exists>fs'. create_child_release_with_container chain_world (chain_id n) (chain_snapshot (Suc n), container_data_default)
    (of_nat (Suc n)) ''digest'' [] demo_audit (chain_fs n) = (Inr (chain_manifest (Suc n)), fs')"
proof -
  have "Suc n < 2 ^ 32" using assms by simp
  note plan = chain_plan [OF assms(1) this] and room = chain_room [OF assms(2)]
  have "rd_object (mf_document (chain_manifest (Suc n))) = chain_object (Suc n)" "mf_release_id (chain_manifest (Suc n)) = chain_id (Suc n)"
    by (simp_all add: chain_manifest_def)
  then obtain fs' where "create_release_internal chain_world (Some (chain_manifest n)) (chain_snapshot (Suc n), container_data_default)
    (of_nat (Suc n)) ''digest'' [] demo_audit (chain_fs n) = (Inr (chain_manifest (Suc n)), fs')"
    using release_written [OF plan, of "chain_fs n"] room by (auto simp: demo_tail_32)
  then show ?thesis
    using chain_opens [OF assms(1)] assms
    by (simp add: create_child_release_with_container_def op_then_def op_read_def chain_manifest_def [of n] del: of_nat_Suc)
qed

theorem child_outgrows_lineage_witness:
  "\<exists>fs'. create_child_release_with_container chain_world (chain_id 256) (chain_snapshot 257, container_data_default) 257 ''digest'' []
       demo_audit (chain_fs 256) = (Inr (chain_manifest 257), fs') \<and>
     release_ancestry chain_world fs' (chain_manifest 257) = Inl LineageTooDeep \<and> (\<exists>e. release_catalog chain_world fs' = Inl e)"
proof -
  from chain_child [of 256] obtain fs' where c: "create_child_release_with_container chain_world (chain_id 256)
    (chain_snapshot 257, container_data_default) 257 ''digest'' [] demo_audit (chain_fs 256) = (Inr (chain_manifest 257), fs')" by auto
  have r: "read_manifest chain_world (chain_id 256) (chain_fs 256) = Inr (chain_manifest 256)" by (rule chain_reads) simp_all
  have a: "release_ancestry chain_world (chain_fs 256) (chain_manifest 256) = Inr (map chain_id (rev [1 ..< 257]))"
    using chain_ancestry [of 256 255] by (simp del: upt_Suc)
  have "save_container demo_tail (\<lambda>s. le_bytes 8 (unat (sn_revision_id s))) (\<lambda>_. []) (chain_snapshot 257) container_data_default = Inr (chain_file 257)"
    using chain_saved [of 257] by simp
  then have "release_ancestry chain_world fs' (chain_manifest 257) = Inl LineageTooDeep \<and> (\<exists>e. release_catalog chain_world fs' = Inl e)"
    using child_outgrows_lineage [OF c r a, of "chain_file 257" "[]"] chain_file_short [of 257]
    by (simp add: demo_tail_32 chain_manifest_def [of 257] le_value_small)
  with c show ?thesis by blast
qed

theorem comparison_decides_ancestry_witness:
  "\<exists>c. compare_releases chain_world (chain_id 1) (chain_id 3) (chain_fs 3) = Inr c \<and> cm_conflict_verdict c = FastForward \<and>
     ancestor chain_world (chain_fs 3) (chain_id 1) (chain_id 3)"
proof -
  have r: "read_manifest chain_world (chain_id 1) (chain_fs 3) = Inr (chain_manifest 1)"
    "read_manifest chain_world (chain_id 3) (chain_fs 3) = Inr (chain_manifest 3)" by (rule chain_reads; simp)+
  have a: "release_ancestry chain_world (chain_fs 3) (chain_manifest 1) = Inr [chain_id 1]"
    "release_ancestry chain_world (chain_fs 3) (chain_manifest 3) = Inr [chain_id 3, chain_id 2, chain_id 1]"
    using chain_ancestry [of 3 0] chain_ancestry [of 3 2] by (simp_all add: numeral_eq_Suc)
  have "chain_id 1 \<noteq> chain_id 3" using chain_id_inject [of 1 3] by auto
  then obtain c where c: "compare_releases chain_world (chain_id 1) (chain_id 3) (chain_fs 3) = Inr c" "cm_relationship c = LeftAncestor"
    using r a by (auto simp: compare_releases_def release_relationship_of_def chain_manifest_def)
  from comparison_decides_ancestry [OF c(1)] c(2) have "cm_conflict_verdict c = FastForward"
    "ancestor chain_world (chain_fs 3) (chain_id 1) (chain_id 3)" by (simp_all add: verdict_of_def related_def)
  with c(1) show ?thesis by blast
qed

lemma chain_catalog: "release_catalog chain_world (chain_fs 1) = Inr [catalog_entry_of (chain_manifest 1)]"
proof -
  have d: "check_directory [''releases''] (chain_fs 1) = Inr ()"
    using chain_gets [of 1] by (simp add: check_directory_Inr directory_at_def)
  have keys: "bt_keys (chain_fs 1) = [[], [''releases''], [''objects''], [''objects'', take 2 (oi_sha256 (chain_object 1))],
    object_file (chain_object 1), manifest_file (chain_id 1)]"
    by (simp add: bt_keys_def chain_fs_def)
  have names: "read_dir chain_world (chain_fs 1) [''releases''] = [chain_id 1 @ ''.json'']"
    unfolding read_dir_def keys by (simp add: map_filter_simps)
  have ascii: "list_all is_ascii (chain_id 1)" unfolding chain_id_def sha256_hex_def by (rule hex_ascii)
  have "strip_suffix ''.json'' (chain_id 1 @ ''.json'') = Some (chain_id 1)" by (simp add: strip_suffix_Some)
  moreover have "valid_utf8 (chain_id 1 @ ''.json'')" using ascii by (simp add: valid_utf8_ascii_append) (simp add: valid_utf8_def)
  ultimately have fold: "try_fold (catalog_name (chain_fs 1)) [] [chain_id 1 @ ''.json''] = Inr [chain_id 1]"
    using chain_gets(6) [of 1 1] chain_id_valid [of 1]
    by (simp add: catalog_name_def MAX_RELEASE_CATALOG_ENTRIES_def is_regular_def)
  have "lineage_loop by_id e [] (catalog_entry_of (chain_manifest 1)) = Inr ()" for by_id e
    by (simp add: lineage_loop.simps [of _ _ "[]"] catalog_entry_of_def chain_manifest_def MAX_RELEASE_LINEAGE_DEPTH_def)
  then have "validate_catalog_lineage [catalog_entry_of (chain_manifest 1)] = Inr ()" by (simp add: validate_catalog_lineage_def)
  with d names fold chain_reads [of 1 1] show ?thesis by (simp add: release_catalog_def)
qed

theorem catalog_lists_comparable_releases_witness:
  "release_catalog chain_world (chain_fs 1) = Inr [catalog_entry_of (chain_manifest 1)] \<and>
   (\<exists>c. compare_releases chain_world (chain_id 1) (chain_id 1) (chain_fs 1) = Inr c)"
proof -
  have "directory_at (chain_fs 1) [''releases'']" using chain_gets [of 1] by (simp add: directory_at_def)
  from catalog_lists_comparable_releases [OF chain_catalog this] chain_catalog
  show ?thesis by (simp add: catalog_entry_of_def chain_manifest_def)
qed

end
