(* ===== verification/Ketchup_Writers.thy ===== *)
theory Ketchup_Writers
  imports Ketchup_Lineage
begin

text \<open>
  Several releases at once, and interrupted ones.  The writes of \<^verbatim>\<open>create_release_internal\<close> are taken apart into the
  calls that touch the repository, temporary files included, and any number of writers take such steps in any order; a
  writer may also stop for good between two steps.  Whatever they do, a manifest that is visible names objects that are
  all there, and of two writers with the same release one fails.
\<close>

section \<open>One writer\<close>

definition alphanumeric :: "char \<Rightarrow> bool" where
  "alphanumeric c \<longleftrightarrow> is_digit c \<or> 65 \<le> (of_char c :: nat) \<and> (of_char c :: nat) \<le> 90 \<or> 97 \<le> (of_char c :: nat) \<and> (of_char c :: nat) \<le> 122"

text \<open>The name \<^verbatim>\<open>NamedTempFile::new_in\<close> gives: \<^verbatim>\<open>.tmp\<close> and six letters or digits.\<close>

definition temp_name :: "str \<Rightarrow> bool" where
  "temp_name name \<longleftrightarrow> length name = 10 \<and> take 4 name = ''.tmp'' \<and> list_all alphanumeric (drop 4 name)"

datatype phase = Looking | Making | Naming | Filling str | Placing str | Ended "pdm_error + unit"

record writer =
  wt_manifest :: release_manifest
  wt_done :: "(object_identity \<times> bytes) list"
  wt_todo :: "(object_identity \<times> bytes) list"
  wt_phase :: phase

definition target_path :: "writer \<Rightarrow> str list" where
  "target_path wt = (case wt_todo wt of [] \<Rightarrow> manifest_file (mf_release_id (wt_manifest wt)) | (i, _) # _ \<Rightarrow> object_file i)"

definition target_bytes :: "'r pdm_world \<Rightarrow> writer \<Rightarrow> bytes" where
  "target_bytes w wt = (case wt_todo wt of [] \<Rightarrow> pw_manifest_json w (wt_manifest wt) | (_, bs) # _ \<Rightarrow> bs)"

definition temp_path :: "writer \<Rightarrow> str \<Rightarrow> str list" where
  "temp_path wt name = butlast (target_path wt) @ [name]"

text \<open>The object is written, the next is looked for; after the last the directory of the manifest is made.\<close>

definition proceed :: "writer \<Rightarrow> writer" where
  "proceed wt =
     (case wt_todo wt of
        [] \<Rightarrow> wt \<lparr>wt_phase := Ended (Ok ())\<rparr>
      | x # xs \<Rightarrow> wt \<lparr>wt_done := wt_done wt @ [x], wt_todo := xs, wt_phase := (if xs = [] then Making else Looking)\<rparr>)"

definition settle :: "writer \<Rightarrow> pdm_error + unit \<Rightarrow> writer" where
  "settle wt r = (case r of Inl e \<Rightarrow> wt \<lparr>wt_phase := Ended (Err e)\<rparr> | Inr _ \<Rightarrow> proceed wt)"

text \<open>What a writer makes of a target that is there.\<close>

definition existing :: "'r pdm_world \<Rightarrow> repository \<Rightarrow> writer \<Rightarrow> pdm_error + unit" where
  "existing w fs wt =
     and_then (validate_repository_file fs (target_path wt)) (\<lambda>_.
       case wt_todo wt of [] \<Rightarrow> Err ReleaseAlreadyExists | (i, bs) # _ \<Rightarrow> verify_existing_object w (object_file i) i bs fs)"

inductive writer_step :: "'r pdm_world \<Rightarrow> repository \<times> writer \<Rightarrow> repository \<times> writer \<Rightarrow> bool" for w where
  look_found: "wt_phase wt = Looking \<Longrightarrow> symlink_metadata fs (target_path wt) = Inr node \<Longrightarrow>
    writer_step w (fs, wt) (fs, settle wt (existing w fs wt))"
| look_missing: "wt_phase wt = Looking \<Longrightarrow> symlink_metadata fs (target_path wt) = Inl (PdmIo NotFound) \<Longrightarrow>
    writer_step w (fs, wt) (fs, wt \<lparr>wt_phase := (if wt_todo wt = [] then Naming else Making)\<rparr>)"
| look_error: "wt_phase wt = Looking \<Longrightarrow> symlink_metadata fs (target_path wt) = Inl e \<Longrightarrow> e \<noteq> PdmIo NotFound \<Longrightarrow>
    writer_step w (fs, wt) (fs, wt \<lparr>wt_phase := Ended (Inl e)\<rparr>)"
| make: "wt_phase wt = Making \<Longrightarrow> ensure_repository_directory (butlast (target_path wt)) True fs = (Inr u, fs') \<Longrightarrow>
    writer_step w (fs, wt) (fs', wt \<lparr>wt_phase := (if wt_todo wt = [] then Looking else Naming)\<rparr>)"
| make_error: "wt_phase wt = Making \<Longrightarrow> ensure_repository_directory (butlast (target_path wt)) True fs = (Inl e, fs') \<Longrightarrow>
    writer_step w (fs, wt) (fs', wt \<lparr>wt_phase := Ended (Inl e)\<rparr>)"
| create_temporary: "wt_phase wt = Naming \<Longrightarrow> temp_name name \<Longrightarrow> bt_get fs (temp_path wt name) = None \<Longrightarrow>
    directory_at fs (butlast (target_path wt)) \<Longrightarrow>
    writer_step w (fs, wt) (bt_insert (temp_path wt name) (RegularFile []) fs, wt \<lparr>wt_phase := Filling name\<rparr>)"
| write_temporary: "wt_phase wt = Filling name \<Longrightarrow> k \<le> length (target_bytes w wt) \<Longrightarrow>
    writer_step w (fs, wt) (bt_insert (temp_path wt name) (RegularFile (take k (target_bytes w wt))) fs,
      wt \<lparr>wt_phase := (if k = length (target_bytes w wt) then Placing name else Filling name)\<rparr>)"
| give_up: "wt_phase wt = Filling name \<Longrightarrow>
    writer_step w (fs, wt) (bt_remove (temp_path wt name) fs, wt \<lparr>wt_phase := Ended (Inl e)\<rparr>)"
| place_refused: "wt_phase wt = Placing name \<Longrightarrow> check_directory (butlast (target_path wt)) fs = Inl e \<Longrightarrow>
    writer_step w (fs, wt) (bt_remove (temp_path wt name) fs, wt \<lparr>wt_phase := Ended (Inl e)\<rparr>)"
| place_new: "wt_phase wt = Placing name \<Longrightarrow> check_directory (butlast (target_path wt)) fs = Inr u \<Longrightarrow>
    bt_get fs (target_path wt) = None \<Longrightarrow> bt_get fs (temp_path wt name) = Some node \<Longrightarrow>
    writer_step w (fs, wt) (bt_insert (target_path wt) node (bt_remove (temp_path wt name) fs), proceed wt)"
| place_old: "wt_phase wt = Placing name \<Longrightarrow> check_directory (butlast (target_path wt)) fs = Inr u \<Longrightarrow>
    bt_get fs (target_path wt) \<noteq> None \<Longrightarrow>
    writer_step w (fs, wt) (bt_remove (temp_path wt name) fs,
      settle wt (if wt_todo wt = [] then Err ReleaseAlreadyExists else existing w fs wt))"

section \<open>Many writers\<close>

text \<open>The manifests that were placed are recorded beside the state.\<close>

record pdm_system =
  sy_fs :: repository
  sy_writers :: "writer list"
  sy_published :: "release_manifest list"

definition release_objects :: "release_manifest \<Rightarrow> bytes \<Rightarrow> (released_dependency \<times> bytes) list \<Rightarrow> (object_identity \<times> bytes) list" where
  "release_objects m document_bytes ds = (rd_object (mf_document m), document_bytes) # map (\<lambda>(d, bs). (dp_object d, bs)) ds"

definition published_by :: "writer \<Rightarrow> writer \<Rightarrow> release_manifest list" where
  "published_by wt wt' = (if wt_todo wt = [] \<and> wt_phase wt' = Ended (Inr ()) then [wt_manifest wt] else [])"

inductive system_run :: "'r pdm_world \<Rightarrow> repository \<Rightarrow> pdm_system \<Rightarrow> bool" for w fs0 where
  initial: "system_run w fs0 \<lparr>sy_fs = fs0, sy_writers = [], sy_published = []\<rparr>"
| start: "system_run w fs0 s \<Longrightarrow>
    plan_release w parent source expected_revision expected_canonical_digest dependencies audit = Inr (m, document_bytes, ds) \<Longrightarrow>
    system_run w fs0 (s \<lparr>sy_writers := sy_writers s @
      [\<lparr>wt_manifest = m, wt_done = [], wt_todo = release_objects m document_bytes ds, wt_phase = Looking\<rparr>]\<rparr>)"
| write_on: "system_run w fs0 s \<Longrightarrow> i < length (sy_writers s) \<Longrightarrow> writer_step w (sy_fs s, sy_writers s ! i) (fs', wt') \<Longrightarrow>
    system_run w fs0 \<lparr>sy_fs = fs', sy_writers = (sy_writers s)[i := wt'],
      sy_published = sy_published s @ published_by (sy_writers s ! i) wt'\<rparr>"
| stop: "system_run w fs0 s \<Longrightarrow> i < length (sy_writers s) \<Longrightarrow>
    system_run w fs0 (s \<lparr>sy_writers := take i (sy_writers s) @ drop (Suc i) (sy_writers s)\<rparr>)"

inductive_cases writer_stepE: "writer_step w (fs, wt) (fs', wt')"

section \<open>What a step leaves alone\<close>

definition named :: "str list \<Rightarrow> bool" where
  "named path = list_all (\<lambda>c. \<not> temp_name c) path"

definition own_temp :: "writer \<Rightarrow> str list set" where
  "own_temp wt = (case wt_phase wt of Filling name \<Rightarrow> {temp_path wt name} | Placing name \<Rightarrow> {temp_path wt name} | _ \<Rightarrow> {})"

definition keeps_but :: "str list set \<Rightarrow> repository \<Rightarrow> repository \<Rightarrow> bool" where
  "keeps_but T fs fs' \<longleftrightarrow> (\<forall>path node. bt_get fs path = Some node \<longrightarrow> path \<notin> T \<longrightarrow> bt_get fs' path = Some node)"

lemma keeps_but_keeps: "keeps fs fs' \<Longrightarrow> keeps_but T fs fs'"
  by (auto simp: keeps_but_def keeps_def)

lemma not_temp: "\<not> temp_name (release_id @ ''.json'')"
proof
  assume t: "temp_name (release_id @ ''.json'')"
  then have "length release_id = 5" by (simp add: temp_name_def)
  with t have "alphanumeric (CHR ''.'')" by (simp add: temp_name_def)
  then show False by (simp add: alphanumeric_def is_digit_def)
qed

lemma hash_not_temp: "\<not> temp_name (sha256_hex sha bs)"
proof
  assume "temp_name (sha256_hex sha bs)"
  then obtain rest where "sha256_hex sha bs = CHR ''.'' # rest" by (cases "sha256_hex sha bs") (auto simp: temp_name_def)
  with hex_ok(1) [of "sha bs"] show False by (simp add: sha256_hex_def is_digit_def)
qed

lemma named_files:
  "named (manifest_file release_id)" "named (object_file (object_identity_of w bs))"
  using not_temp hash_not_temp by (auto simp: named_def object_identity_of_def) (auto simp: temp_name_def)

lemma named_take: "named path \<Longrightarrow> named (take i path)"
  by (auto simp: named_def list_all_iff dest: in_set_takeD)

lemma named_butlast: "named path \<Longrightarrow> named (butlast path)"
  by (auto simp: named_def list_all_iff dest: in_set_butlastD)

lemma keeps_named_file:
  assumes "keeps_but T fs fs'" and "\<And>p. p \<in> T \<Longrightarrow> \<not> named p" and "named path" and "file_at fs path bs"
  shows "file_at fs' path bs"
proof -
  have "bt_get fs' p = Some node" if "named p" "bt_get fs p = Some node" for p node
    using assms(1,2) that by (auto simp: keeps_but_def)
  with assms(3,4) named_butlast [OF assms(3)] named_take show ?thesis
    by (auto simp: file_at_def directory_at_iff)
qed

lemma keeps_named_directory:
  assumes "keeps_but T fs fs'" and "\<And>p. p \<in> T \<Longrightarrow> \<not> named p" and "named path" and "directory_at fs path"
  shows "directory_at fs' path"
  unfolding directory_at_iff
proof (intro allI impI)
  fix i assume "i \<le> length path"
  with assms(4) have "bt_get fs (take i path) = Some Directory" by (simp add: directory_at_iff)
  moreover have "take i path \<notin> T" using assms(2) named_take [OF assms(3)] by blast
  ultimately show "bt_get fs' (take i path) = Some Directory" using assms(1) by (simp add: keeps_but_def)
qed

lemma temp_not_named: "temp_name name \<Longrightarrow> \<not> named (temp_path wt name)"
  by (simp add: named_def temp_path_def)

lemma step_keeps: "writer_step w (fs, wt) (fs', wt') \<Longrightarrow> keeps_but (own_temp wt) fs fs'"
proof (erule writer_stepE)
  fix u assume "ensure_repository_directory (butlast (target_path wt)) True fs = (Inr u, fs')"
  then show ?thesis by (intro keeps_but_keeps) (rule kp.over_result [OF kp_ensure_directory])
next
  fix e assume "ensure_repository_directory (butlast (target_path wt)) True fs = (Inl e, fs')"
  then show ?thesis by (intro keeps_but_keeps) (rule kp.over_result [OF kp_ensure_directory])
qed (auto simp: keeps_but_def own_temp_def)

text \<open>A manifest appears in one way only: a writer that has nothing else left places it.\<close>

lemma proceed_ended: "wt_phase (proceed wt) = Ended (Inr ()) \<longleftrightarrow> wt_todo wt = []"
  by (auto simp: proceed_def split: list.splits)

lemma target_directory: "take i (butlast (target_path wt)) \<noteq> [''releases'', n]"
  by (auto simp: target_path_def take_Cons' split: list.splits)

lemma temp_not_manifest: "temp_name name \<Longrightarrow> temp_path wt name \<noteq> manifest_file release_id"
  using not_temp by (auto simp: temp_path_def)

lemma target_manifest: "target_path wt = manifest_file release_id \<longleftrightarrow> wt_todo wt = [] \<and> release_id = mf_release_id (wt_manifest wt)"
  by (auto simp: target_path_def split: list.splits)

lemma step_releases:
  assumes "writer_step w (fs, wt) (fs', wt')" and "\<And>name. wt_phase wt \<in> {Filling name, Placing name} \<Longrightarrow> temp_name name"
  shows "bt_get fs' (manifest_file release_id) = bt_get fs (manifest_file release_id) \<or>
    wt_todo wt = [] \<and> release_id = mf_release_id (wt_manifest wt) \<and> wt_phase wt' = Ended (Inr ())"
  using assms(1)
proof (rule writer_stepE)
  fix u assume "ensure_repository_directory (butlast (target_path wt)) True fs = (Inr u, fs')"
  from sr.over_result [OF sr_ensure_directory [OF target_directory] this] show ?thesis by (simp add: same_releases_def)
next
  fix e assume "ensure_repository_directory (butlast (target_path wt)) True fs = (Inl e, fs')"
  from sr.over_result [OF sr_ensure_directory [OF target_directory] this] show ?thesis by (simp add: same_releases_def)
next
  fix name u node
  assume "wt_phase wt = Placing name" "fs' = bt_insert (target_path wt) node (bt_remove (temp_path wt name) fs)" "wt' = proceed wt"
  with assms(2) [of name] temp_not_manifest [of name wt release_id] target_manifest [of wt release_id]
  show ?thesis by (auto simp: proceed_ended)
qed (use assms(2) temp_not_manifest in \<open>auto dest!: not_sym [OF temp_not_manifest]\<close>)

section \<open>The invariant\<close>

definition covers :: "writer \<Rightarrow> bool" where
  "covers wt \<longleftrightarrow>
     rd_object (mf_document (wt_manifest wt)) \<in> fst ` set (wt_done wt @ wt_todo wt) \<and>
     list_all (\<lambda>d. dp_object d \<in> fst ` set (wt_done wt @ wt_todo wt)) (mf_dependencies (wt_manifest wt))"

definition temp_ok :: "'r pdm_world \<Rightarrow> repository \<Rightarrow> writer \<Rightarrow> bool" where
  "temp_ok w fs wt =
     (case wt_phase wt of
        Filling name \<Rightarrow> temp_name name \<and> directory_at fs (butlast (target_path wt)) \<and> file_content fs (temp_path wt name) \<noteq> None
      | Placing name \<Rightarrow> temp_name name \<and> directory_at fs (butlast (target_path wt)) \<and> bt_get fs (temp_path wt name) = Some (RegularFile (target_bytes w wt))
      | _ \<Rightarrow> True)"

definition writer_ok :: "'r pdm_world \<Rightarrow> repository \<Rightarrow> writer \<Rightarrow> bool" where
  "writer_ok w fs wt \<longleftrightarrow>
     list_all (\<lambda>(i, bs). object_identity_of w bs = i) (wt_done wt @ wt_todo wt) \<and>
     list_all (\<lambda>(i, bs). file_at fs (object_file i) bs) (wt_done wt) \<and> covers wt \<and> temp_ok w fs wt"

lemma own_temp_not_named: "temp_ok w fs wt \<Longrightarrow> p \<in> own_temp wt \<Longrightarrow> \<not> named p"
  by (auto simp: temp_ok_def own_temp_def temp_not_named split: phase.splits)

lemma own_temp_present: "temp_ok w fs wt \<Longrightarrow> p \<in> own_temp wt \<Longrightarrow> bt_get fs p \<noteq> None"
  by (auto simp: temp_ok_def own_temp_def file_content_def split: phase.splits option.splits)

lemma done_kept:
  assumes "writer_ok w fs wt" and "keeps_but T fs fs'" and "\<And>p. p \<in> T \<Longrightarrow> \<not> named p"
  shows "list_all (\<lambda>(i, bs). file_at fs' (object_file i) bs) (wt_done wt)"
proof -
  have "file_at fs' (object_file i) bs" if "(i, bs) \<in> set (wt_done wt)" for i bs
  proof -
    have "object_identity_of w bs = i" "file_at fs (object_file i) bs"
      using assms(1) that by (auto simp: writer_ok_def list_all_iff)
    with keeps_named_file [OF assms(2,3) named_files(2) [of w bs]] show ?thesis by simp
  qed
  then show ?thesis by (auto simp: list_all_iff)
qed

lemma own_kept:
  assumes "writer_ok w fs wt" and "keeps_but (own_temp wt) fs fs'"
  shows "list_all (\<lambda>(i, bs). file_at fs' (object_file i) bs) (wt_done wt)"
proof (rule done_kept [OF assms])
  fix p assume "p \<in> own_temp wt"
  with assms(1) own_temp_not_named [of w fs wt p] show "\<not> named p" by (simp add: writer_ok_def)
qed

lemma target_named: "writer_ok w fs wt \<Longrightarrow> named (target_path wt)"
  using named_files(1) named_files(2) [of w] by (auto simp: writer_ok_def target_path_def split: list.splits)

lemma other_writer_ok:
  assumes "writer_ok w fs wt" and "keeps_but T fs fs'" and "\<And>p. p \<in> T \<Longrightarrow> \<not> named p" and "own_temp wt \<inter> T = {}"
  shows "writer_ok w fs' wt"
proof -
  have "bt_get fs' p = bt_get fs p" if "p \<in> own_temp wt" for p
    using own_temp_present [of w fs wt p] assms(1,2,4) that by (fastforce simp: writer_ok_def keeps_but_def)
  moreover have "directory_at fs (butlast (target_path wt)) \<Longrightarrow> directory_at fs' (butlast (target_path wt))"
    using keeps_named_directory [OF assms(2,3)] named_butlast [OF target_named [OF assms(1)]] by blast
  ultimately have "temp_ok w fs' wt"
    using assms(1) by (auto simp: writer_ok_def temp_ok_def own_temp_def file_content_def split: phase.splits)
  with done_kept [OF assms(1,2,3)] assms(1) show ?thesis by (simp add: writer_ok_def)
qed

lemma proceed_ok:
  assumes "writer_ok w fs wt" and "keeps_but (own_temp wt) fs fs'" and "file_at fs' (target_path wt) (target_bytes w wt)"
  shows "writer_ok w fs' (proceed wt)"
  using own_kept [OF assms(1,2)] assms(1,3)
  by (auto simp: writer_ok_def proceed_def covers_def temp_ok_def target_path_def target_bytes_def split: list.splits)

lemma rephased_ok:
  assumes "writer_ok w fs wt" and "keeps_but (own_temp wt) fs fs'" and "temp_ok w fs' (wt \<lparr>wt_phase := p\<rparr>)"
  shows "writer_ok w fs' (wt \<lparr>wt_phase := p\<rparr>)"
  using assms own_kept [OF assms(1,2)] by (simp add: writer_ok_def covers_def)

lemma existing_found:
  assumes "existing w fs wt = Inr u"
  shows "wt_todo wt \<noteq> [] \<and> file_at fs (target_path wt) (target_bytes w wt)"
proof -
  from assms obtain i bs rest where t: "wt_todo wt = (i, bs) # rest" and "verify_existing_object w (object_file i) i bs fs = Inr u"
    by (auto simp: existing_def result_simps split: list.splits)
  from existing_verified [OF _ this(2)] t show ?thesis by (simp add: target_path_def target_bytes_def)
qed

lemma settle_ok:
  assumes "writer_ok w fs wt" and "keeps_but (own_temp wt) fs fs'" and "r = Inr () \<Longrightarrow> file_at fs (target_path wt) (target_bytes w wt)"
  shows "writer_ok w fs' (settle wt r)"
proof (cases r)
  case (Inl e)
  with rephased_ok [OF assms(1,2)] show ?thesis by (simp add: settle_def temp_ok_def)
next
  case (Inr u)
  have "temp_ok w fs wt" using assms(1) by (simp add: writer_ok_def)
  from keeps_named_file [OF assms(2) own_temp_not_named [OF this] target_named [OF assms(1)]] assms(3) Inr
  have "file_at fs' (target_path wt) (target_bytes w wt)" by simp
  from proceed_ok [OF assms(1,2) this] Inr show ?thesis by (simp add: settle_def)
qed

lemma temp_path_phase [simp]: "target_path (wt \<lparr>wt_phase := p\<rparr>) = target_path wt" "temp_path (wt \<lparr>wt_phase := p\<rparr>) = temp_path wt" "target_bytes w (wt \<lparr>wt_phase := p\<rparr>) = target_bytes w wt"
  by (simp_all add: fun_eq_iff temp_path_def target_path_def target_bytes_def split: list.splits)

lemma placed_file:
  assumes ok: "writer_ok w fs wt" and step: "writer_step w (fs, wt) (fs', wt')"
    and p: "wt_phase wt = Placing name" and c: "check_directory (butlast (target_path wt)) fs = Inr u"
    and n: "bt_get fs (target_path wt) = None" "bt_get fs (temp_path wt name) = Some node"
    and fs': "fs' = bt_insert (target_path wt) node (bt_remove (temp_path wt name) fs)"
  shows "file_at fs' (target_path wt) (target_bytes w wt)"
proof -
  have t: "temp_ok w fs wt" using ok by (simp add: writer_ok_def)
  have "directory_at fs (butlast (target_path wt))" using c by (simp add: check_directory_Inr)
  then have "bt_get fs' (take i (butlast (target_path wt))) = Some Directory" if "i \<le> length (butlast (target_path wt))" for i
    using that step_keeps [OF step] own_temp_not_named [OF t] named_take [OF named_butlast [OF target_named [OF ok]], of i]
    by (auto simp: keeps_but_def directory_at_iff)
  moreover have "node = RegularFile (target_bytes w wt)" using t p n(2) by (simp add: temp_ok_def)
  ultimately show ?thesis by (simp add: file_at_def directory_at_iff fs')
qed

lemma step_ok:
  assumes ok: "writer_ok w fs wt" and step: "writer_step w (fs, wt) (fs', wt')"
  shows "writer_ok w fs' wt'"
proof -
  note kept = step_keeps [OF step]
  have t: "temp_ok w fs wt" using ok by (simp add: writer_ok_def)
  have dir: "directory_at fs (butlast (target_path wt)) \<Longrightarrow> directory_at fs' (butlast (target_path wt))"
    using keeps_named_directory [OF kept own_temp_not_named [OF t]] named_butlast [OF target_named [OF ok]] by blast
  from step show ?thesis
  proof (rule writer_stepE)
    assume "fs' = fs" "wt' = settle wt (existing w fs wt)"
    with settle_ok [OF ok kept] existing_found [of w fs wt] show ?thesis by simp
  next
    fix name u node
    assume p: "wt_phase wt = Placing name" and c: "check_directory (butlast (target_path wt)) fs = Inr u"
      and n: "bt_get fs (target_path wt) = None" "bt_get fs (temp_path wt name) = Some node"
      and fs': "fs' = bt_insert (target_path wt) node (bt_remove (temp_path wt name) fs)" and wt': "wt' = proceed wt"
    from proceed_ok [OF ok kept placed_file [OF ok step p c n fs']] wt' show ?thesis by simp
  next
    fix name u
    assume p: "wt_phase wt = Placing name" and "wt' = settle wt (if wt_todo wt = [] then Inl ReleaseAlreadyExists else existing w fs wt)"
    with settle_ok [OF ok kept] existing_found [of w fs wt] show ?thesis by (auto split: if_splits)
  next
    fix name
    assume "temp_name name" "fs' = bt_insert (temp_path wt name) (RegularFile []) fs" "wt' = wt \<lparr>wt_phase := Filling name\<rparr>"
      "directory_at fs (butlast (target_path wt))"
    with rephased_ok [OF ok kept, of "Filling name"] dir show ?thesis by (simp add: temp_ok_def file_content_def)
  next
    fix name k
    assume "wt_phase wt = Filling name" "fs' = bt_insert (temp_path wt name) (RegularFile (take k (target_bytes w wt))) fs"
      and "wt' = wt \<lparr>wt_phase := (if k = length (target_bytes w wt) then Placing name else Filling name)\<rparr>"
    with rephased_ok [OF ok kept, of "Filling name"] rephased_ok [OF ok kept, of "Placing name"] dir t
    show ?thesis by (simp add: temp_ok_def file_content_def)
  qed (use rephased_ok [OF ok kept] in \<open>simp_all add: temp_ok_def\<close>)
qed

lemma published_step:
  assumes ok: "writer_ok w fs wt" and step: "writer_step w (fs, wt) (fs', wt')" and "wt_todo wt = []" and "wt_phase wt' = Ended (Inr ())"
  shows "bt_get fs (manifest_file (mf_release_id (wt_manifest wt))) = None \<and> release_at w fs' (wt_manifest wt)"
proof -
  have path: "target_path wt = manifest_file (mf_release_id (wt_manifest wt))" "target_bytes w wt = pw_manifest_json w (wt_manifest wt)"
    using assms(3) by (simp_all add: target_path_def target_bytes_def)
  have no: "wt_phase (settle wt (existing w fs wt)) \<noteq> Ended (Inr ())" "wt_phase (settle wt (Inl ReleaseAlreadyExists)) \<noteq> Ended (Inr ())"
    using existing_found [of w fs wt] assms(3) by (auto simp: settle_def split: sum.splits)
  from step show ?thesis
  proof (rule writer_stepE)
    fix name u node
    assume p: "wt_phase wt = Placing name" and c: "check_directory (butlast (target_path wt)) fs = Inr u"
      and n: "bt_get fs (target_path wt) = None" "bt_get fs (temp_path wt name) = Some node"
      and fs': "fs' = bt_insert (target_path wt) node (bt_remove (temp_path wt name) fs)" and wt': "wt' = proceed wt"
    from step_ok [OF ok step] wt' assms(3) have done_at: "list_all (\<lambda>(i, bs). file_at fs' (object_file i) bs) (wt_done wt)"
      by (simp add: writer_ok_def proceed_def)
    have "object_at w fs' i" if "(i, bs) \<in> set (wt_done wt)" for i bs
      unfolding object_at_iff using that done_at ok by (intro exI [of _ bs]) (auto simp: writer_ok_def list_all_iff)
    then have "object_at w fs' (rd_object (mf_document (wt_manifest wt)))"
      "list_all (\<lambda>d. object_at w fs' (dp_object d)) (mf_dependencies (wt_manifest wt))"
      using ok assms(3) by (auto simp: writer_ok_def covers_def list_all_iff)
    then show ?thesis using placed_file [OF ok step p c n fs'] n(1) path by (simp add: release_at_def)
  qed (use assms(3,4) no in \<open>simp_all split: if_splits\<close>)
qed

lemma keeps_published:
  assumes "keeps_but T fs fs'" and "\<And>p. p \<in> T \<Longrightarrow> \<not> named p" and "release_at w fs m"
  shows "release_at w fs' m"
proof -
  have "object_at w fs' i" if "object_at w fs i" for i
    using that keeps_named_file [OF assms(1,2)] named_files(2) unfolding object_at_iff by metis
  with assms(3) keeps_named_file [OF assms(1,2) named_files(1)] show ?thesis by (auto simp: release_at_def list_all_iff)
qed

section \<open>Every interleaving\<close>

lemma own_temp_proceed [simp]: "own_temp (proceed wt) = {}"
  by (auto simp: proceed_def own_temp_def split: list.splits)

lemma own_temp_phase [simp]:
  "own_temp (wt \<lparr>wt_phase := p\<rparr>) = (case p of Filling name \<Rightarrow> {temp_path wt name} | Placing name \<Rightarrow> {temp_path wt name} | _ \<Rightarrow> {})"
  by (auto simp: own_temp_def split: phase.splits)

lemma own_temp_of: "wt_phase wt = Filling name \<Longrightarrow> own_temp wt = {temp_path wt name}"
  by (simp add: own_temp_def)

lemma own_temp_settle [simp]: "own_temp (settle wt r) = {}"
  by (cases r) (simp_all add: settle_def)

lemma own_temp_step: "writer_step w (fs, wt) (fs', wt') \<Longrightarrow> p \<in> own_temp wt' \<Longrightarrow> p \<in> own_temp wt \<or> bt_get fs p = None"
  by (erule writer_stepE) (auto simp: own_temp_of split: if_splits)

definition system_inv :: "'r pdm_world \<Rightarrow> repository \<Rightarrow> pdm_system \<Rightarrow> bool" where
  "system_inv w fs0 s \<longleftrightarrow>
     list_all (writer_ok w (sy_fs s)) (sy_writers s) \<and>
     sorted_wrt (\<lambda>a b. own_temp a \<inter> own_temp b = {}) (sy_writers s) \<and>
     list_all (\<lambda>m. release_at w (sy_fs s) m \<and> bt_get fs0 (manifest_file (mf_release_id m)) = None) (sy_published s) \<and>
     distinct (ids_of (sy_published s)) \<and>
     (\<forall>release_id. bt_get (sy_fs s) (manifest_file release_id) \<noteq> None \<longrightarrow>
        bt_get fs0 (manifest_file release_id) \<noteq> None \<or> release_id \<in> mf_release_id ` set (sy_published s)) \<and>
     keeps fs0 (sy_fs s) \<and> list_all (\<lambda>wt. \<forall>p \<in> own_temp wt. bt_get fs0 p = None) (sy_writers s)"

lemma started_ok:
  assumes "plan_release w parent source expected_revision expected_canonical_digest dependencies audit = Inr (m, document_bytes, ds)"
  shows "writer_ok w fs \<lparr>wt_manifest = m, wt_done = [], wt_todo = release_objects m document_bytes ds, wt_phase = Looking\<rparr>"
proof -
  note o = plan_objects [OF assms]
  from o show ?thesis
    by (auto simp: writer_ok_def covers_def temp_ok_def release_objects_def list_all_iff) force
qed

lemma write_on_inv:
  assumes inv: "system_inv w fs0 s" and i: "i < length (sy_writers s)"
    and step: "writer_step w (sy_fs s, sy_writers s ! i) (fs', wt')"
  shows "system_inv w fs0 \<lparr>sy_fs = fs', sy_writers = (sy_writers s)[i := wt'],
    sy_published = sy_published s @ published_by (sy_writers s ! i) wt'\<rparr>"
proof -
  let ?wts = "sy_writers s" and ?wt = "sy_writers s ! i" and ?fs = "sy_fs s"
  let ?before = "take i ?wts" and ?after = "drop (Suc i) ?wts"
  have split: "?wts = ?before @ ?wt # ?after" by (rule id_take_nth_drop [OF i])
  have upd: "?wts[i := wt'] = ?before @ wt' # ?after" by (rule upd_conv_take_nth_drop [OF i])
  have oks: "list_all (writer_ok w ?fs) (?before @ ?wt # ?after)" and
    apart: "sorted_wrt (\<lambda>a b. own_temp a \<inter> own_temp b = {}) (?before @ ?wt # ?after)"
    using inv by (simp_all only: system_inv_def split [symmetric])
  then have ok: "writer_ok w ?fs ?wt" by simp
  then have t: "temp_ok w ?fs ?wt" by (simp add: writer_ok_def)
  note kept = step_keeps [OF step] and nn = own_temp_not_named [OF t]
  have other: "writer_ok w fs' x \<and> own_temp wt' \<inter> own_temp x = {}" if x: "x \<in> set ?before \<union> set ?after" for x
  proof -
    from x oks apart have x: "writer_ok w ?fs x" "own_temp x \<inter> own_temp ?wt = {}" by (auto simp: list_all_iff sorted_wrt_append)
    then have "temp_ok w ?fs x" by (simp add: writer_ok_def)
    have "p \<notin> own_temp x" if "p \<in> own_temp wt'" for p
      using own_temp_step [OF step that] own_temp_present [OF \<open>temp_ok w ?fs x\<close>, of p] x(2) by auto
    with other_writer_ok [OF x(1) kept nn x(2)] show ?thesis by blast
  qed
  have phase: "temp_name name" if "wt_phase ?wt \<in> {Filling name, Placing name}" for name
    using t that by (auto simp: temp_ok_def)
  note rel = step_releases [OF step phase]
  have pub: "list_all (\<lambda>m. bt_get ?fs (manifest_file (mf_release_id m)) = None \<and> release_at w fs' m) (published_by ?wt wt')"
    using published_step [OF ok step] by (simp add: published_by_def)
  have old: "list_all (\<lambda>m. bt_get ?fs (manifest_file (mf_release_id m)) \<noteq> None) (sy_published s)"
    using inv by (auto simp: system_inv_def list_all_iff release_at_def file_at_def)
  have first: "keeps fs0 ?fs" and fresh: "\<And>wt p. wt \<in> set ?wts \<Longrightarrow> p \<in> own_temp wt \<Longrightarrow> bt_get fs0 p = None"
    using inv by (auto simp: system_inv_def list_all_iff)
  have visible: "bt_get fs0 (manifest_file release_id) \<noteq> None \<or> release_id \<in> mf_release_id ` set (sy_published s)"
    if "bt_get ?fs (manifest_file release_id) \<noteq> None" for release_id
    using inv that unfolding system_inv_def by blast
  have "list_all (writer_ok w fs') (?wts[i := wt'])" unfolding upd using other step_ok [OF ok step] by (auto simp: list_all_iff)
  moreover have "sorted_wrt (\<lambda>a b. own_temp a \<inter> own_temp b = {}) (?wts[i := wt'])"
    unfolding upd using apart other by (auto simp: sorted_wrt_append)
  moreover have "list_all (\<lambda>m. release_at w fs' m \<and> bt_get fs0 (manifest_file (mf_release_id m)) = None) (sy_published s @ published_by ?wt wt')"
  proof -
    have "release_at w fs' m \<and> bt_get fs0 (manifest_file (mf_release_id m)) = None" if "m \<in> set (sy_published s)" for m
      using inv that keeps_published [OF kept nn, of w m] by (simp add: system_inv_def list_all_iff)
    moreover have "bt_get fs0 p = None" if "bt_get ?fs p = None" for p
      using first that by (cases "bt_get fs0 p") (auto simp: keeps_def)
    ultimately show ?thesis using pub by (auto simp: list_all_iff)
  qed
  moreover have "distinct (ids_of (sy_published s @ published_by ?wt wt'))"
    using inv pub old by (fastforce simp: system_inv_def list_all_iff published_by_def)
  moreover have "bt_get fs0 (manifest_file release_id) \<noteq> None \<or> release_id \<in> mf_release_id ` set (sy_published s @ published_by ?wt wt')"
    if "bt_get fs' (manifest_file release_id) \<noteq> None" for release_id
    using rel [of release_id] that visible [of release_id] by (auto simp: published_by_def image_Un)
  moreover have "keeps fs0 fs'"
    using kept first fresh [OF nth_mem [OF i]] unfolding keeps_def keeps_but_def by fastforce
  moreover have "list_all (\<lambda>wt. \<forall>p \<in> own_temp wt. bt_get fs0 p = None) (?wts[i := wt'])"
  proof -
    have "bt_get fs0 p = None" if "p \<in> own_temp wt'" for p
      using own_temp_step [OF step that] fresh [OF nth_mem [OF i]] first by (cases "bt_get fs0 p") (auto simp: keeps_def)
    moreover have "set (take i ?wts) \<subseteq> set ?wts" "set (drop (Suc i) ?wts) \<subseteq> set ?wts" by (rule set_take_subset set_drop_subset)+
    ultimately show ?thesis unfolding upd using fresh by (auto simp: list_all_iff)
  qed
  ultimately show ?thesis by (simp add: system_inv_def)
qed

lemma run_inv: "system_run w fs0 s \<Longrightarrow> system_inv w fs0 s"
proof (induction rule: system_run.induct)
  case initial
  then show ?case by (simp add: system_inv_def kp.R_refl)
next
  case (start s parent source expected_revision expected_canonical_digest dependencies audit m document_bytes ds)
  then show ?case using started_ok [OF start(2), of "sy_fs s"]
    by (auto simp: system_inv_def sorted_wrt_append own_temp_def)
next
  case (write_on s i fs' wt')
  then show ?case by (intro write_on_inv)
next
  case (stop s i)
  let ?wts = "sy_writers s"
  have "?wts = take i ?wts @ ?wts ! i # drop (Suc i) ?wts" by (rule id_take_nth_drop [OF stop(2)])
  moreover have "list_all (writer_ok w (sy_fs s)) ?wts" "sorted_wrt (\<lambda>a b. own_temp a \<inter> own_temp b = {}) ?wts"
    "list_all (\<lambda>wt. \<forall>p \<in> own_temp wt. bt_get fs0 p = None) ?wts"
    using stop.IH by (simp_all add: system_inv_def)
  ultimately have "list_all (writer_ok w (sy_fs s)) (take i ?wts @ ?wts ! i # drop (Suc i) ?wts)"
    "sorted_wrt (\<lambda>a b. own_temp a \<inter> own_temp b = {}) (take i ?wts @ ?wts ! i # drop (Suc i) ?wts)"
    "list_all (\<lambda>wt. \<forall>p \<in> own_temp wt. bt_get fs0 p = None) (take i ?wts @ ?wts ! i # drop (Suc i) ?wts)" by metis+
  with stop.IH show ?case by (simp add: system_inv_def sorted_wrt_append)
qed

text \<open>
  C17.  Releases made at the same time, or interrupted, stay whole.  Start from any repository and let any number
  of writers take their steps in any order, looking, making directories, writing a temporary file, renaming it, and let
  any of them stop for good at any point.  Then every manifest that was placed has all its objects there with the content it
  names, a manifest that is visible was there at the start or was placed by a writer that finished, no release id is placed twice, none that was there at the
  start is placed again, and everything that was there at the start is still there unchanged.
\<close>

theorem interleaved_releases_whole:
  assumes "system_run w fs0 s"
  shows "list_all (release_at w (sy_fs s)) (sy_published s) \<and> distinct (ids_of (sy_published s)) \<and>
    (\<forall>release_id. bt_get (sy_fs s) (manifest_file release_id) \<noteq> None \<longleftrightarrow>
       bt_get fs0 (manifest_file release_id) \<noteq> None \<or> release_id \<in> set (ids_of (sy_published s))) \<and>
    list_all (\<lambda>m. bt_get fs0 (manifest_file (mf_release_id m)) = None) (sy_published s) \<and> keeps fs0 (sy_fs s)"
proof -
  note inv = run_inv [OF assms, unfolded system_inv_def]
  have "bt_get (sy_fs s) (manifest_file release_id) \<noteq> None"
    if "bt_get fs0 (manifest_file release_id) \<noteq> None \<or> release_id \<in> set (ids_of (sy_published s))" for release_id
    using that inv by (fastforce simp: list_all_iff release_at_def file_at_def keeps_def)
  with inv show ?thesis by (auto simp: list_all_iff)
qed

section \<open>A release on its own is one of the interleavings\<close>

definition same_temps :: "str \<Rightarrow> repository \<Rightarrow> repository \<Rightarrow> bool" where
  "same_temps name fs fs' \<longleftrightarrow> (\<forall>d. bt_get fs' (d @ [name]) = bt_get fs (d @ [name]))"

definition temp_free :: "str \<Rightarrow> repository \<Rightarrow> bool" where
  "temp_free name fs \<longleftrightarrow> name \<notin> last ` set (bt_keys fs)"

interpretation st: preserved "same_temps name" for name
  by unfold_locales (auto simp: same_temps_def)

lemma temp_freeD: "temp_free name fs \<Longrightarrow> bt_get fs (d @ [name]) = None"
  using bt_get_None_keys [of fs "d @ [name]"] by (force simp: temp_free_def)

lemma st_ensure_components: "list_all (\<lambda>c. c \<noteq> name) names \<Longrightarrow> st.over name (ensure_components create here names)"
proof (induction names arbitrary: here)
  case Nil
  then show ?case by simp
next
  case (Cons x names)
  then have "st.over name (\<lambda>fs. (Inr () :: pdm_error + unit, if create \<and> bt_get fs (here @ [x]) = None
     then bt_insert (here @ [x]) Directory fs else fs))"
    by (auto simp: st.over_def same_temps_def)
  with Cons show ?case by (auto intro!: st.over_then)
qed

lemma st_ensure_directory:
  assumes "list_all (\<lambda>c. c \<noteq> name) directory"
  shows "st.over name (ensure_repository_directory directory create)"
proof -
  have "st.over name create_dir_all"
    by (auto simp: st.over_def create_dir_all_def st.R_refl same_temps_def split: option.splits fs_node.splits)
  then show ?thesis
    using assms by (auto simp: ensure_repository_directory_def intro!: st.over_then st_ensure_components)
qed

lemma bt_remove_insert: "bt_remove k (bt_insert k v m) = bt_remove k m"
  by (induction k v m rule: bt_insert.induct) (auto simp: bt_remove_def)

lemma bt_remove_absent: "bt_get m k = None \<Longrightarrow> bt_remove k m = m"
  by (induction m) (auto simp: bt_remove_def split: if_splits)

lemma verify_iff:
  "path \<noteq> [] \<Longrightarrow> verify_existing_object w path i bs fs = Inr u \<longleftrightarrow>
     file_at fs path bs \<and> length bs \<le> MAX_RELEASE_DEPENDENCY_BYTES \<and> object_identity_of w bs = i"
  by (auto simp: verify_existing_object_def result_simps repository_file_read)

lemma file_valid: "path \<noteq> [] \<Longrightarrow> file_at fs path bs \<Longrightarrow> validate_repository_file fs path = Inr ()"
  using repository_file_valid [of path fs] by (auto simp: file_at_def)

lemma step_then: "writer_step w x y \<Longrightarrow> (writer_step w)\<^sup>*\<^sup>* y z \<Longrightarrow> (writer_step w)\<^sup>*\<^sup>* x z"
  by (rule converse_rtranclp_into_rtranclp)

text \<open>A temporary file is written; removing it gives back the repository.\<close>

lemma fill_alone:
  assumes "wt_phase wt = Naming" and "temp_name name" and "bt_get fs (temp_path wt name) = None"
    and "directory_at fs (butlast (target_path wt))" and "named (target_path wt)"
  obtains fs2 where "(writer_step w)\<^sup>*\<^sup>* (fs, wt) (fs2, wt \<lparr>wt_phase := Placing name\<rparr>)"
    "check_directory (butlast (target_path wt)) fs2 = Inr ()" "bt_get fs2 (target_path wt) = bt_get fs (target_path wt)"
    "bt_get fs2 (temp_path wt name) = Some (RegularFile (target_bytes w wt))" "bt_remove (temp_path wt name) fs2 = fs"
proof -
  let ?t = "temp_path wt name" and ?bs = "target_bytes w wt"
  let ?fs1 = "bt_insert ?t (RegularFile []) fs" and ?wt1 = "wt \<lparr>wt_phase := Filling name\<rparr>"
  let ?fs2 = "bt_insert ?t (RegularFile ?bs) ?fs1" and ?wt2 = "wt \<lparr>wt_phase := Placing name\<rparr>"
  have "writer_step w (fs, wt) (?fs1, ?wt1)" by (rule create_temporary [OF assms(1-4)])
  moreover have "writer_step w (?fs1, ?wt1) (?fs2, ?wt2)"
    using write_temporary [of ?wt1 name "length ?bs" w ?fs1] by simp
  ultimately have steps: "(writer_step w)\<^sup>*\<^sup>* (fs, wt) (?fs2, ?wt2)"
    by (rule step_then [OF _ r_into_rtranclp])
  have "keeps fs ?fs1" using assms(3) by simp
  then have "directory_at ?fs1 (butlast (target_path wt))" using assms(4) by (rule keeps_directory)
  moreover have "keeps_but {?t} ?fs1 ?fs2" by (simp add: keeps_but_def)
  ultimately have "directory_at ?fs2 (butlast (target_path wt))"
    using keeps_named_directory [of "{?t}" ?fs1 ?fs2] named_butlast [OF assms(5)] temp_not_named [OF assms(2)] by simp
  then have "check_directory (butlast (target_path wt)) ?fs2 = Inr ()" by (simp add: check_directory_Inr)
  moreover have "target_path wt \<noteq> ?t" using assms(5) temp_not_named [OF assms(2), of wt] by auto
  moreover have "bt_remove ?t ?fs2 = fs" by (simp add: bt_remove_insert bt_remove_absent assms(3))
  ultimately show ?thesis using that [OF steps] by simp
qed

lemma proceed_phase [simp]: "proceed (wt \<lparr>wt_phase := p\<rparr>) = proceed wt"
  by (simp add: proceed_def split: list.splits)

lemma place_alone:
  assumes "wt_phase wt = Naming" and "temp_name name" and "bt_get fs (temp_path wt name) = None"
    and "directory_at fs (butlast (target_path wt))" and "named (target_path wt)" and "bt_get fs (target_path wt) = None"
  shows "(writer_step w)\<^sup>*\<^sup>* (fs, wt) (bt_insert (target_path wt) (RegularFile (target_bytes w wt)) fs, proceed wt)"
proof -
  let ?wt2 = "wt \<lparr>wt_phase := Placing name\<rparr>"
  obtain fs2 where f: "(writer_step w)\<^sup>*\<^sup>* (fs, wt) (fs2, ?wt2)"
    "check_directory (butlast (target_path wt)) fs2 = Inr ()" "bt_get fs2 (target_path wt) = bt_get fs (target_path wt)"
    "bt_get fs2 (temp_path wt name) = Some (RegularFile (target_bytes w wt))" "bt_remove (temp_path wt name) fs2 = fs"
    by (rule fill_alone [OF assms(1-5)])
  then have "writer_step w (fs2, ?wt2) (bt_insert (target_path wt) (RegularFile (target_bytes w wt)) fs, proceed wt)"
    using place_new [of ?wt2 name fs2 "()" "RegularFile (target_bytes w wt)" w] assms(6) by simp
  with f(1) show ?thesis by (rule rtranclp.rtrancl_into_rtrancl)
qed

lemma place_again_alone:
  assumes "wt_phase wt = Naming" and "temp_name name" and "bt_get fs (temp_path wt name) = None" and "named (target_path wt)"
    and todo: "wt_todo wt = (i, bs) # pending" and ver: "verify_existing_object w (object_file i) i bs fs = Inr u"
  shows "(writer_step w)\<^sup>*\<^sup>* (fs, wt) (fs, proceed wt)"
proof -
  let ?wt2 = "wt \<lparr>wt_phase := Placing name\<rparr>"
  have path: "target_path wt = object_file i" "target_bytes w wt = bs" using todo by (simp_all add: target_path_def target_bytes_def)
  have at: "file_at fs (object_file i) bs" "length bs \<le> MAX_RELEASE_DEPENDENCY_BYTES" "object_identity_of w bs = i"
    using ver by (simp_all add: verify_iff)
  then have d: "directory_at fs (butlast (target_path wt))" by (simp add: file_at_def path)
  obtain fs2 where f: "(writer_step w)\<^sup>*\<^sup>* (fs, wt) (fs2, ?wt2)"
    "check_directory (butlast (target_path wt)) fs2 = Inr ()" "bt_get fs2 (target_path wt) = bt_get fs (target_path wt)"
    "bt_remove (temp_path wt name) fs2 = fs"
    by (rule fill_alone [OF assms(1-3) d assms(4), of w]) blast
  from f(2,3) at(1) have "file_at fs2 (object_file i) bs" by (simp add: file_at_def path check_directory_Inr)
  with at(2,3) have "existing w fs2 ?wt2 = Inr ()" by (simp add: existing_def path todo file_valid verify_iff)
  with f at(1) todo have "writer_step w (fs2, ?wt2) (fs, proceed wt)"
    using place_old [of ?wt2 name fs2 "()" w] by (simp add: path file_at_def settle_def)
  with f(1) show ?thesis by (rule rtranclp.rtrancl_into_rtrancl)
qed

lemma same_temps_insert: "named path \<Longrightarrow> temp_name name \<Longrightarrow> same_temps name fs (bt_insert path node fs)"
  by (auto simp: same_temps_def named_def)

lemma named_not_temp: "named path \<Longrightarrow> temp_name name \<Longrightarrow> list_all (\<lambda>c. c \<noteq> name) path"
  by (auto simp: named_def list_all_iff)

lemma made_alone:
  assumes "wt_phase wt = Making" and "named (target_path wt)" and "temp_name name"
    and "ensure_repository_directory (butlast (target_path wt)) True fs = (Inr u, fs')"
  shows "writer_step w (fs, wt) (fs', wt \<lparr>wt_phase := (if wt_todo wt = [] then Looking else Naming)\<rparr>)"
    "same_temps name fs fs'" "directory_at fs' (butlast (target_path wt))"
  using make [OF assms(1,4)] directory_ensured [OF assms(4)]
    st.over_result [OF st_ensure_directory [OF named_not_temp [OF named_butlast [OF assms(2)] assms(3)]] assms(4)]
  by auto

lemma object_alone:
  assumes wr: "write_content_addressed_object w i bs fs = (Inr u, fs')" and todo: "wt_todo wt = (i, bs) # pending" and "wt_phase wt = Looking"
    and name: "temp_name name" and free: "\<And>d. bt_get fs (d @ [name]) = None" and nm: "named (object_file i)"
  shows "(writer_step w)\<^sup>*\<^sup>* (fs, wt) (fs', proceed wt) \<and> same_temps name fs fs'"
proof -
  have path: "target_path wt = object_file i" "target_bytes w wt = bs" using todo by (simp_all add: target_path_def target_bytes_def)
  have v: "validate_sha256 (oi_sha256 i) = Inr ()" using object_written [OF wr] by simp
  show ?thesis
  proof (cases "symlink_metadata fs (object_file i)")
    case (Inr node)
    with wr v have "existing w fs wt = Inr u" "fs' = fs"
      by (auto simp: write_content_addressed_object_def op_simps object_path_Inr existing_def todo path)
    with look_found [OF assms(3), of fs node w] Inr path show ?thesis by (simp add: settle_def st.R_refl)
  next
    case (Inl e)
    let ?wt1 = "wt \<lparr>wt_phase := Making\<rparr>" and ?wt2 = "wt \<lparr>wt_phase := Naming\<rparr>"
    from wr v Inl obtain u1 fs1 placed where e: "e = PdmIo NotFound"
      and en: "ensure_repository_directory (butlast (object_file i)) True fs = (Inr u1, fs1)"
      and p: "persist_noclobber (object_file i) bs fs1 = (Inr placed, fs')"
      and again: "\<not> placed \<Longrightarrow> verify_existing_object w (object_file i) i bs fs' = Inr u"
      by (auto simp: write_content_addressed_object_def op_simps object_path_Inr result_simps persisted split: if_splits)
    have 1: "writer_step w (fs, wt) (fs, ?wt1)" using look_missing [OF assms(3), of fs w] Inl e todo path by simp
    have 2: "writer_step w (fs, ?wt1) (fs1, ?wt2)" "same_temps name fs fs1" "directory_at fs1 (butlast (object_file i))"
      using made_alone [of ?wt1 name fs u1 fs1] en nm name todo path by simp_all
    have free1: "bt_get fs1 (temp_path ?wt2 name) = None" using 2(2) free by (simp add: same_temps_def temp_path_def)
    have "(writer_step w)\<^sup>*\<^sup>* (fs1, ?wt2) (fs', proceed wt)"
    proof (cases placed)
      case True
      with p have "bt_get fs1 (object_file i) = None" "fs' = bt_insert (object_file i) (RegularFile bs) fs1"
        by (auto simp: persisted split: if_splits)
      with place_alone [of ?wt2 name fs1 w] name free1 2(3) nm path show ?thesis by simp
    next
      case False
      with p again have "fs' = fs1" "verify_existing_object w (object_file i) i bs fs1 = Inr u" by (auto simp: persisted split: if_splits)
      with place_again_alone [of ?wt2 name fs1 i bs pending w u] name free1 nm path todo show ?thesis by simp
    qed
    moreover have "same_temps name fs1 fs'"
      using p same_temps_insert [OF nm name, of fs1 "RegularFile bs"] st.R_refl by (auto simp: persisted split: if_splits)
    with 2(2) have "same_temps name fs fs'" by (rule st.R_trans)
    ultimately show ?thesis using step_then [OF 1 step_then [OF 2(1)]] by simp
  qed
qed

lemma objects_alone:
  assumes "op_each (\<lambda>(d, bs). write_content_addressed_object w (dp_object d) bs) ds fs = (Inr u, fs')"
    and "wt_todo wt = map (\<lambda>(d, bs). (dp_object d, bs)) ds" and "wt_phase wt = (if ds = [] then Making else Looking)"
    and name: "temp_name name" and "\<And>d. bt_get fs (d @ [name]) = None" and "list_all (\<lambda>(d, bs). named (object_file (dp_object d))) ds"
  shows "\<exists>wt'. (writer_step w)\<^sup>*\<^sup>* (fs, wt) (fs', wt') \<and> wt_todo wt' = [] \<and> wt_phase wt' = Making \<and> wt_manifest wt' = wt_manifest wt \<and>
    same_temps name fs fs'"
  using assms(1-3,5,6)
proof (induction ds arbitrary: fs wt)
  case Nil
  then show ?case by (auto intro!: exI [of _ wt] simp: st.R_refl)
next
  case (Cons p ds)
  obtain d bs where p: "p = (d, bs)" by force
  from Cons.prems(1) obtain fs1 where 1: "write_content_addressed_object w (dp_object d) bs fs = (Inr (), fs1)"
    and more: "op_each (\<lambda>(d, bs). write_content_addressed_object w (dp_object d) bs) ds fs1 = (Inr u, fs')"
    by (auto simp: op_simps p)
  from object_alone [OF 1 _ _ name Cons.prems(4), of wt] Cons.prems p
  have s: "(writer_step w)\<^sup>*\<^sup>* (fs, wt) (fs1, proceed wt)" "same_temps name fs fs1" by simp_all
  from Cons.IH [OF more, of "proceed wt"] Cons.prems p s(2)
  obtain wt' where "(writer_step w)\<^sup>*\<^sup>* (fs1, proceed wt) (fs', wt')" "wt_todo wt' = []" "wt_phase wt' = Making"
    "wt_manifest wt' = wt_manifest wt" "same_temps name fs1 fs'"
    by (auto simp: proceed_def same_temps_def)
  with s rtranclp_trans [OF s(1)] st.R_trans [OF s(2)] show ?case by blast
qed

lemma manifest_named_alone:
  assumes wr: "write_manifest (mf_release_id (wt_manifest wt)) (pw_manifest_json w (wt_manifest wt)) fs = (Inr u, fs')"
    and todo: "wt_todo wt = []" and "wt_phase wt = Making" and name: "temp_name name" and free: "\<And>d. bt_get fs (d @ [name]) = None"
  obtains fs1 where "(writer_step w)\<^sup>*\<^sup>* (fs, wt) (fs1, wt \<lparr>wt_phase := Naming\<rparr>)" "bt_get fs1 (temp_path wt name) = None"
    "directory_at fs1 (butlast (target_path wt))" "bt_get fs1 (target_path wt) = None"
    "fs' = bt_insert (target_path wt) (RegularFile (target_bytes w wt)) fs1"
proof -
  let ?p = "manifest_file (mf_release_id (wt_manifest wt))" and ?bs = "pw_manifest_json w (wt_manifest wt)"
  let ?wt1 = "wt \<lparr>wt_phase := Looking\<rparr>" and ?wt2 = "wt \<lparr>wt_phase := Naming\<rparr>"
  have path: "target_path wt = ?p" "target_bytes w wt = ?bs" using todo by (simp_all add: target_path_def target_bytes_def)
  have nm: "named ?p" by (rule named_files)
  from wr obtain u1 fs1 where en: "ensure_repository_directory (butlast ?p) True fs = (Inr u1, fs1)"
    and c: "(case symlink_metadata fs1 ?p of
         Inr _ \<Rightarrow> (and_then (validate_repository_file fs1 ?p) (\<lambda>_. Inl ReleaseAlreadyExists), fs1)
       | Inl e \<Rightarrow> if e = PdmIo NotFound then
             op_then (op_read (check_directory (butlast ?p))) (\<lambda>_.
             op_then (persist_noclobber ?p ?bs) (\<lambda>placed.
               if placed then (\<lambda>fs. (Inr (), fs)) else (\<lambda>fs. (Inl ReleaseAlreadyExists, fs)))) fs1
           else (Inl e, fs1)) = (Inr u, fs')"
    by (auto simp: write_manifest_def op_then_Inr op_read_eq manifest_path_Inr)
  then have more: "symlink_metadata fs1 ?p = Inl (PdmIo NotFound)" "bt_get fs1 ?p = None" "fs' = bt_insert ?p (RegularFile ?bs) fs1"
    by (cases "symlink_metadata fs1 ?p"; auto simp: op_simps persisted result_simps split: if_splits)+
  note m = made_alone [OF assms(3) nm [folded path(1)] name en [folded path(1)]]
  have 1: "writer_step w (fs, wt) (fs1, ?wt1)" using m(1) [of w] todo by simp
  have 2: "writer_step w (fs1, ?wt1) (fs1, ?wt2)" using look_missing [of ?wt1 fs1 w] more(1) todo path by simp
  have "bt_get fs1 (temp_path wt name) = None" using m(2) free by (simp add: same_temps_def temp_path_def)
  with that step_then [OF 1 r_into_rtranclp [of "writer_step w", OF 2]] m(3) more path show ?thesis by simp
qed

lemma manifest_alone:
  assumes "write_manifest (mf_release_id (wt_manifest wt)) (pw_manifest_json w (wt_manifest wt)) fs = (Inr u, fs')"
    and todo: "wt_todo wt = []" and "wt_phase wt = Making" and name: "temp_name name" and "\<And>d. bt_get fs (d @ [name]) = None"
  shows "(writer_step w)\<^sup>*\<^sup>* (fs, wt) (fs', wt \<lparr>wt_phase := Ended (Inr ())\<rparr>)"
proof -
  let ?wt2 = "wt \<lparr>wt_phase := Naming\<rparr>"
  obtain fs1 where f: "(writer_step w)\<^sup>*\<^sup>* (fs, wt) (fs1, ?wt2)" "bt_get fs1 (temp_path wt name) = None"
    "directory_at fs1 (butlast (target_path wt))" "bt_get fs1 (target_path wt) = None"
    "fs' = bt_insert (target_path wt) (RegularFile (target_bytes w wt)) fs1"
    by (rule manifest_named_alone [OF assms])
  have "named (target_path wt)" using todo named_files(1) by (simp add: target_path_def)
  with place_alone [of ?wt2 name fs1 w] name f have "(writer_step w)\<^sup>*\<^sup>* (fs1, ?wt2) (fs', proceed wt)" by simp
  moreover have "proceed wt = wt \<lparr>wt_phase := Ended (Inr ())\<rparr>" using todo by (simp add: proceed_def)
  ultimately show ?thesis using rtranclp_trans [OF f(1)] by simp
qed

lemma step_facts:
  assumes "writer_step w (fs, wt) (fs', wt')"
  shows "wt_phase wt \<noteq> Ended r" "wt_manifest wt' = wt_manifest wt" "wt_phase wt' = Ended (Inr ()) \<Longrightarrow> wt_todo wt = []"
proof -
  have "wt_manifest (proceed x) = wt_manifest x" for x by (simp add: proceed_def split: list.splits)
  moreover from this have "wt_manifest (settle x y) = wt_manifest x" for x y by (simp add: settle_def split: sum.splits)
  ultimately show "wt_manifest wt' = wt_manifest wt" using assms by (auto elim!: writer_stepE)
  show "wt_phase wt \<noteq> Ended r" using assms by (auto elim!: writer_stepE)
  have "wt_phase (settle x y) = Ended (Inr ()) \<Longrightarrow> wt_todo x = []" for x y by (cases y) (auto simp: settle_def proceed_ended)
  with assms show "wt_phase wt' = Ended (Inr ()) \<Longrightarrow> wt_todo wt = []" by (auto elim!: writer_stepE simp: proceed_ended split: if_splits)
qed

lemma run_alone:
  assumes "(writer_step w)\<^sup>*\<^sup>* (fs, wt) (fs', wt')" and "wt_phase wt \<noteq> Ended (Inr ())"
    and "system_run w fs0 \<lparr>sy_fs = fs, sy_writers = [wt], sy_published = []\<rparr>"
  shows "system_run w fs0 \<lparr>sy_fs = fs', sy_writers = [wt'],
    sy_published = (if wt_phase wt' = Ended (Inr ()) then [wt_manifest wt'] else [])\<rparr>"
  using assms(1)
proof (induction "(fs', wt')" arbitrary: fs' wt' rule: rtranclp_induct)
  case base
  with assms show ?case by simp
next
  case (step y)
  obtain fs1 wt1 where y: "y = (fs1, wt1)" by force
  note f = step_facts [OF step(2) [unfolded y]]
  from step(3) [OF y] f(1) have "system_run w fs0 \<lparr>sy_fs = fs1, sy_writers = [wt1], sy_published = []\<rparr>" by simp
  from write_on [OF this, of 0 fs' wt'] step(2) y
  have "system_run w fs0 \<lparr>sy_fs = fs', sy_writers = [wt'], sy_published = published_by wt1 wt'\<rparr>" by simp
  moreover have "published_by wt1 wt' = (if wt_phase wt' = Ended (Inr ()) then [wt_manifest wt'] else [])"
    using f(2,3) by (simp add: published_by_def)
  ultimately show ?case by simp
qed

lemma objects_first_alone:
  assumes create: "create_release_internal w parent source expected_revision expected_canonical_digest dependencies audit fs = (Inr m, fs')"
    and name: "temp_name name" and free: "temp_free name fs"
  obtains fs2 wt where "system_run w fs \<lparr>sy_fs = fs2, sy_writers = [wt], sy_published = []\<rparr>" "wt_todo wt = []" "wt_phase wt = Making"
    "wt_manifest wt = m" "\<forall>d. bt_get fs2 (d @ [name]) = None" "write_manifest (mf_release_id m) (pw_manifest_json w m) fs2 = (Inr (), fs')"
proof -
  obtain document_bytes ds fs1 fs2 where
    plan: "plan_release w parent source expected_revision expected_canonical_digest dependencies audit = Inr (m, document_bytes, ds)"
    and 1: "write_content_addressed_object w (rd_object (mf_document m)) document_bytes fs = (Inr (), fs1)"
    and 2: "op_each (\<lambda>(d, bs). write_content_addressed_object w (dp_object d) bs) ds fs1 = (Inr (), fs2)"
    and 3: "write_manifest (mf_release_id m) (pw_manifest_json w m) fs2 = (Inr (), fs')"
    by (rule created_steps [OF create])
  note o = plan_objects [OF plan]
  define wt where "wt = \<lparr>wt_manifest = m, wt_done = [], wt_todo = release_objects m document_bytes ds, wt_phase = Looking\<rparr>"
  have w: "wt_todo wt = (rd_object (mf_document m), document_bytes) # map (\<lambda>(d, bs). (dp_object d, bs)) ds" "wt_phase wt = Looking"
    "wt_manifest wt = m" by (simp_all add: wt_def release_objects_def)
  have started: "system_run w fs \<lparr>sy_fs = fs, sy_writers = [wt], sy_published = []\<rparr>"
    using start [OF initial plan, of fs] by (simp add: wt_def)
  have nm: "named (object_file (rd_object (mf_document m)))" "list_all (\<lambda>(d, bs). named (object_file (dp_object d))) ds"
    using o(1,3) named_files(2) [of w] by (auto simp: list_all_iff)
  note s1 = object_alone [OF 1 w(1,2) name temp_freeD [OF free] nm(1)]
  then have free1: "\<And>d. bt_get fs1 (d @ [name]) = None" using temp_freeD [OF free] by (simp add: same_temps_def)
  have "wt_todo (proceed wt) = map (\<lambda>(d, bs). (dp_object d, bs)) ds" "wt_phase (proceed wt) = (if ds = [] then Making else Looking)"
    "wt_manifest (proceed wt) = m" using w by (simp_all add: proceed_def)
  with objects_alone [OF 2 this(1,2) name free1 nm(2)] obtain wt2 where
    s2: "(writer_step w)\<^sup>*\<^sup>* (fs1, proceed wt) (fs2, wt2)" "wt_todo wt2 = []" "wt_phase wt2 = Making" "wt_manifest wt2 = m" "same_temps name fs1 fs2"
    by auto
  have free2: "\<forall>d. bt_get fs2 (d @ [name]) = None" using s2(5) free1 by (simp add: same_temps_def)
  have "(writer_step w)\<^sup>*\<^sup>* (fs, wt) (fs2, wt2)" using s1 s2(1) by (meson rtranclp_trans)
  from run_alone [OF this _ started] w(2) s2(3)
  have "system_run w fs \<lparr>sy_fs = fs2, sy_writers = [wt2], sy_published = []\<rparr>" by simp
  from that [OF this s2(2,3,4) free2 3] show ?thesis .
qed

lemma release_alone:
  assumes "create_release_internal w parent source expected_revision expected_canonical_digest dependencies audit fs = (Inr m, fs')"
    and "temp_name name" and "temp_free name fs"
  obtains wt where "system_run w fs \<lparr>sy_fs = fs', sy_writers = [wt], sy_published = [m]\<rparr>" "wt_phase wt = Ended (Inr ())"
proof -
  obtain fs2 wt where r: "system_run w fs \<lparr>sy_fs = fs2, sy_writers = [wt], sy_published = []\<rparr>" "wt_todo wt = []" "wt_phase wt = Making"
    "wt_manifest wt = m" "\<forall>d. bt_get fs2 (d @ [name]) = None" "write_manifest (mf_release_id m) (pw_manifest_json w m) fs2 = (Inr (), fs')"
    by (rule objects_first_alone [OF assms])
  from manifest_alone [OF _ r(2,3) assms(2) r(5) [rule_format]] r(4,6)
  have "(writer_step w)\<^sup>*\<^sup>* (fs2, wt) (fs', wt \<lparr>wt_phase := Ended (Inr ())\<rparr>)" by simp
  from run_alone [OF this _ r(1)] r(3,4)
  have "system_run w fs \<lparr>sy_fs = fs', sy_writers = [wt \<lparr>wt_phase := Ended (Inr ())\<rparr>], sy_published = [m]\<rparr>" by simp
  with that show ?thesis by force
qed

text \<open>
   A release that runs alone is one of the interleavings.  When \<^verbatim>\<open>create_release_internal\<close> succeeds on a repository, a
  single writer that starts with the same inputs can take its steps one after the other, under a name for its temporary files
  that is not in use, and ends successfully with exactly the same repository and this one release placed.
\<close>

theorem release_is_an_interleaving:
  assumes "create_release_internal w parent source expected_revision expected_canonical_digest dependencies audit fs = (Inr m, fs')"
    and "temp_name name" and "temp_free name fs"
  shows "\<exists>wt. system_run w fs \<lparr>sy_fs = fs', sy_writers = [wt], sy_published = [m]\<rparr> \<and> wt_phase wt = Ended (Inr ())"
  by (rule release_alone [OF assms]) blast

lemma demo_temp: "temp_name ''.tmpA1b2C3''"
  by code_simp

theorem release_is_an_interleaving_witness:
  "\<exists>saved fs' wt. demo_create 3 (Some (demo_manifest saved)) [] = (Inr (demo_manifest saved), fs') \<and>
     system_run (demo_pdm 3 (Some (demo_manifest saved))) []
       \<lparr>sy_fs = fs', sy_writers = [wt], sy_published = [demo_manifest saved]\<rparr> \<and> wt_phase wt = Ended (Inr ())"
proof -
  obtain saved fs' where c: "demo_create 3 (Some (demo_manifest saved)) [] = (Inr (demo_manifest saved), fs')"
    by (rule demo_created [of 3]) auto
  have "temp_free ''.tmpA1b2C3'' []" by (simp add: temp_free_def bt_keys_def)
  from release_is_an_interleaving [OF c demo_temp this] c show ?thesis by blast
qed

theorem interleaved_releases_whole_witness:
  "\<exists>saved fs' wt. system_run (demo_pdm 3 (Some (demo_manifest saved))) []
       \<lparr>sy_fs = fs', sy_writers = [wt], sy_published = [demo_manifest saved]\<rparr> \<and>
     release_at (demo_pdm 3 (Some (demo_manifest saved))) fs' (demo_manifest saved)"
proof -
  obtain saved fs' where c: "demo_create 3 (Some (demo_manifest saved)) [] = (Inr (demo_manifest saved), fs')"
    by (rule demo_created [of 3]) auto
  have "temp_free ''.tmpA1b2C3'' []" by (simp add: temp_free_def bt_keys_def)
  then obtain wt where r: "system_run (demo_pdm 3 (Some (demo_manifest saved))) []
    \<lparr>sy_fs = fs', sy_writers = [wt], sy_published = [demo_manifest saved]\<rparr>" by (rule release_alone [OF c demo_temp])
  from interleaved_releases_whole [OF r] r show ?thesis by auto
qed

lemma stray_refused:
  assumes "directory_at fs [''releases'']" and "temp_name name" and "bt_get fs [''releases'', name] \<noteq> None"
    and "\<And>names. set (pw_listing w names) = set names"
  shows "release_catalog w fs \<noteq> Inr catalog"
proof
  assume "release_catalog w fs = Inr catalog"
  then obtain ids listed where "read_dir w fs [''releases''] = map (\<lambda>release_id. release_id @ ''.json'') ids"
    by (rule catalog_facts [OF _ assms(1)])
  moreover have "name \<in> set (read_dir w fs [''releases''])"
    using read_dir_set [of w "[''releases'']" fs, OF assms(4)] assms(3) by simp
  ultimately show False using assms(2) not_temp by auto
qed

text \<open>
  C39.  A release that is being written, or was interrupted, hides every release.  While a writer has the temporary file of its manifest
  open, and for good when it stops there, whatever other writers do afterwards, \<^verbatim>\<open>release_catalog\<close> ends in an error, since it
  takes the temporary file beside the manifests for a release.
\<close>

theorem interrupted_release_hides_catalog:
  assumes "system_run w fs0 s" and "wt \<in> set (sy_writers s)" and "wt_todo wt = []" and "wt_phase wt = Filling name \<or> wt_phase wt = Placing name"
    and listing: "\<And>names. set (pw_listing w names) = set names" and "system_run w (sy_fs s) later"
  shows "\<exists>e. release_catalog w (sy_fs later) = Inl e"
proof -
  have "writer_ok w (sy_fs s) wt" using run_inv [OF assms(1)] assms(2) by (simp add: system_inv_def list_all_iff)
  then have "temp_name name" "directory_at (sy_fs s) [''releases'']" "bt_get (sy_fs s) [''releases'', name] \<noteq> None"
    using assms(3,4) by (auto simp: writer_ok_def temp_ok_def target_path_def temp_path_def file_content_def split: option.splits)
  moreover have "keeps (sy_fs s) (sy_fs later)" using run_inv [OF assms(6)] by (simp add: system_inv_def)
  ultimately have "release_catalog w (sy_fs later) \<noteq> Inr catalog" for catalog
    using stray_refused [OF keeps_directory _ _ listing] by (fastforce simp: keeps_def)
  then show ?thesis by (metis sum.exhaust)
qed

theorem interrupted_release_hides_catalog_witness:
  "\<exists>saved s wt. system_run (demo_pdm 3 (Some (demo_manifest saved))) [] s \<and> wt \<in> set (sy_writers s) \<and>
     wt_phase wt = Filling ''.tmpA1b2C3'' \<and> (\<exists>e. release_catalog (demo_pdm 3 (Some (demo_manifest saved))) (sy_fs s) = Inl e)"
proof -
  obtain saved fs' where c: "demo_create 3 (Some (demo_manifest saved)) [] = (Inr (demo_manifest saved), fs')"
    by (rule demo_created [of 3]) auto
  let ?w = "demo_pdm 3 (Some (demo_manifest saved))" and ?name = "''.tmpA1b2C3''"
  have "temp_free ?name []" by (simp add: temp_free_def bt_keys_def)
  from objects_first_alone [OF c demo_temp this] obtain fs2 wt where
    r: "system_run ?w [] \<lparr>sy_fs = fs2, sy_writers = [wt], sy_published = []\<rparr>" "wt_todo wt = []" "wt_phase wt = Making"
    "wt_manifest wt = demo_manifest saved" "\<forall>d. bt_get fs2 (d @ [?name]) = None"
    "write_manifest (mf_release_id (demo_manifest saved)) (pw_manifest_json ?w (demo_manifest saved)) fs2 = (Inr (), fs')" .
  obtain fs3 where n: "(writer_step ?w)\<^sup>*\<^sup>* (fs2, wt) (fs3, wt \<lparr>wt_phase := Naming\<rparr>)" "bt_get fs3 (temp_path wt ?name) = None"
    "directory_at fs3 (butlast (target_path wt))"
    by (rule manifest_named_alone [OF _ r(2,3) demo_temp r(5) [rule_format], of ?w "()" fs']) (use r(4,6) in auto)
  let ?wt = "wt \<lparr>wt_phase := Filling ?name\<rparr>"
  define s where "s = \<lparr>sy_fs = bt_insert (temp_path wt ?name) (RegularFile []) fs3, sy_writers = [?wt], sy_published = []\<rparr>"
  have "writer_step ?w (fs3, wt \<lparr>wt_phase := Naming\<rparr>) (sy_fs s, ?wt)"
    using create_temporary [of "wt \<lparr>wt_phase := Naming\<rparr>" ?name fs3 ?w] n(2,3) demo_temp by (simp add: s_def)
  with n(1) have "(writer_step ?w)\<^sup>*\<^sup>* (fs2, wt) (sy_fs s, ?wt)" by (rule rtranclp.rtrancl_into_rtrancl)
  from run_alone [OF this _ r(1)] r(3) have run: "system_run ?w [] s" by (simp add: s_def)
  have "\<exists>e. release_catalog ?w (sy_fs \<lparr>sy_fs = sy_fs s, sy_writers = [], sy_published = []\<rparr>) = Inl e"
    by (rule interrupted_release_hides_catalog [OF run, of ?wt ?name]) (use r(2) initial in \<open>auto simp: s_def demo_pdm_def\<close>)
  then have "wt_phase ?wt = Filling ?name \<and> ?wt \<in> set (sy_writers s) \<and> (\<exists>e. release_catalog ?w (sy_fs s) = Inl e)" by (simp add: s_def)
  with run show ?thesis by blast
qed

end
