(* ===== verification/Ketchup_Recovery.thy ===== *)
theory Ketchup_Recovery
  imports Ketchup_Save
begin

text \<open>
  The work-recovery checkpoint of a document (\<^verbatim>\<open>persistence/work_recovery.rs\<close>, \<^verbatim>\<open>persistence/work_recovery_steps.rs\<close> and
  \<^verbatim>\<open>try_load_work_recovery\<close> of \<^verbatim>\<open>persistence.rs\<close>).  Beside a saved file a session keeps the work since: a whole file, then
  one step per edit, each appended with its length and checksum.  Opening assembles the file and its steps
  to one native file.  Writing is done under a lock against what the session observed; another program may
  write in between, and a write may fail or be cut short.
\<close>

section \<open>What is outside\<close>

text \<open>
  The hash, the JSON of a program, the encoding of a snapshot, the blobs a snapshot names, and the check of a
  file from before the container.
\<close>

record 'r recovery_world =
  rw_sha :: "bytes \<Rightarrow> bytes"
  rw_json :: "rule_program_source \<Rightarrow> persistence_error + bytes"
  rw_encode :: "'r snapshot \<Rightarrow> bytes"
  rw_imported :: "'r snapshot \<Rightarrow> str list"
  rw_load_document :: "bytes \<Rightarrow> persistence_error + unit"

definition WORK_RECOVERY_MAGIC :: bytes where "WORK_RECOVERY_MAGIC = str_bytes ''KETCHUPWRK''"
definition WORK_RECOVERY_SCHEMA :: u16 where "WORK_RECOVERY_SCHEMA = 2"
definition STEP_ENTRY :: str where "STEP_ENTRY = ''step.bin''"
definition PROGRAM_ENTRY :: str where "PROGRAM_ENTRY = ''program.json''"
definition CORE_ENTRIES :: "str list" where "CORE_ENTRIES = [''document.bin'', ''history.bin'', PROGRAM_ENTRY]"

record file_identity =
  fi_byte_len :: u64
  fi_sha256 :: bytes

definition identity_from_bytes :: "(bytes \<Rightarrow> bytes) \<Rightarrow> bytes \<Rightarrow> file_identity" where
  "identity_from_bytes sha bs = \<lparr>fi_byte_len = of_nat (length bs), fi_sha256 = sha bs\<rparr>"

section \<open>Reading a checkpoint\<close>

definition ok :: "'e + 'a \<Rightarrow> 'a option" where
  "ok r = (case r of Inl _ \<Rightarrow> None | Inr x \<Rightarrow> Some x)"

definition split_checkpoint :: "bytes \<Rightarrow> (file_identity \<times> bytes \<times> bytes) option" where
  "split_checkpoint bs =
     ok (and_then (take_bytes (length WORK_RECOVERY_MAGIC) (reader_new bs)) (\<lambda>(magic, r).
     and_then (read_u16 r) (\<lambda>(schema, r).
     and_then (read_u64 r) (\<lambda>(byte_len, r).
     and_then (take_bytes 32 r) (\<lambda>(sha256, r).
     and_then (read_u64 r) (\<lambda>(payload_len, r).
     and_then (take_bytes (unat payload_len) r) (\<lambda>(payload, r).
     and_then (guard (magic = WORK_RECOVERY_MAGIC \<and> schema = WORK_RECOVERY_SCHEMA) InvalidContainerMagic) (\<lambda>_.
     Ok (\<lparr>fi_byte_len = byte_len, fi_sha256 = sha256\<rparr>, payload, drop (rd_cursor r) bs)))))))))"

definition find_entry :: "container_entry list \<Rightarrow> str \<Rightarrow> container_entry option" where
  "find_entry entries path = find (\<lambda>e. ce_path e = path \<and> ce_required e) entries"

definition read_base :: "container_entry list \<Rightarrow> persistence_error + container_entry \<times> parsed_history" where
  "read_base entries =
     and_then (ok_or (find_entry entries ''document.bin'') MissingDocumentEntry) (\<lambda>document.
     and_then (ok_or (find_entry entries ''history.bin'') InvalidRevisionHistory) (\<lambda>history.
     and_then (read_history_records (ce_content history) (ce_content document) HISTORY_BUDGET False) (\<lambda>h.
     Ok (document, h))))"

definition side_of :: "container_entry list \<Rightarrow> entry_map" where
  "side_of entries =
     fold (\<lambda>e m. bt_insert (ce_path e) (ce_required e, ce_content e) m) (filter (\<lambda>e. ce_path e \<notin> set CORE_ENTRIES) entries) []"

type_synonym side_sums = "(str, bool \<times> bytes option) btree_map"

definition compared :: "(bytes \<Rightarrow> bytes) \<Rightarrow> entry_map \<Rightarrow> side_sums" where
  "compared sha side =
     map (\<lambda>(path, required, content). (path, required, if prefix ''blobs/'' path then None else Some (sha content))) side"

definition read_step :: "(bytes \<Rightarrow> bytes) \<Rightarrow> bytes decoder" where
  "read_step sha r =
     and_then (read_u64 r) (\<lambda>(length', r).
     and_then (take_bytes (unat length') r) (\<lambda>(framed, r).
     and_then (container_entries sha framed) (\<lambda>entries.
     case bt_get entries STEP_ENTRY of
       Some (required, content) \<Rightarrow>
         if required \<and> bt_remove STEP_ENTRY entries = [] then Ok (content, r) else Err InvalidRevisionHistory
     | None \<Rightarrow> Err InvalidRevisionHistory)))"

lemma read_step_moves:
  assumes "read_step sha r = Inr (step, r')"
  shows "rd_bytes r' = rd_bytes r" "rd_cursor r < rd_cursor r'" "rd_cursor r' \<le> length (rd_bytes r)"
proof -
  from assms obtain n r1 bs where "read_u64 r = Inr (n, r1)" "take_bytes (unat n) r1 = Inr (bs, r')"
    by (auto simp: read_step_def result_simps split: option.splits bool.splits if_splits)
  then show "rd_bytes r' = rd_bytes r" "rd_cursor r < rd_cursor r'" "rd_cursor r' \<le> length (rd_bytes r)"
    by (auto simp: read_u64_def take_bytes_def result_simps)
qed

lemma read_step_shorter:
  assumes "read_step sha r = Inr (step, r')"
  shows "length (rd_bytes r') - rd_cursor r' < length (rd_bytes r) - rd_cursor r"
  using read_step_moves [OF assms] by simp

function read_steps_from :: "(bytes \<Rightarrow> bytes) \<Rightarrow> reader \<Rightarrow> bytes list \<times> persistence_error option" where
  "read_steps_from sha r =
     (if is_finished r then ([], None)
      else
        (case read_step sha r of
           Inl e \<Rightarrow> ([], Some e)
         | Inr (step, r') \<Rightarrow> (case read_steps_from sha r' of (steps, damaged) \<Rightarrow> (step # steps, damaged))))"
  by pat_completeness auto
termination
  by (relation "measure (\<lambda>(sha, r). length (rd_bytes r) - rd_cursor r)") (auto dest: read_step_shorter)

declare read_steps_from.simps [simp del]

definition read_steps :: "(bytes \<Rightarrow> bytes) \<Rightarrow> bytes \<Rightarrow> bytes list \<times> persistence_error option" where
  "read_steps sha bs = read_steps_from sha (reader_new bs)"

section \<open>A step\<close>

type_synonym held = "u64 \<times> bytes"

record planned =
  pn_held :: held
  pn_named :: "(revision_origin \<times> str option) option"

definition planned_of :: "'p history_revision \<Rightarrow> planned" where
  "planned_of r = \<lparr>pn_held = (hr_id r, hr_sha256 r), pn_named = Some (hr_origin r, hr_checkpoint r)\<rparr>"

definition planned_is :: "'p history_revision \<Rightarrow> planned \<Rightarrow> bool" where
  "planned_is r p \<longleftrightarrow>
     pn_held p = (hr_id r, hr_sha256 r) \<and>
     (case pn_named p of None \<Rightarrow> False | Some (origin, name) \<Rightarrow> origin = hr_origin r \<and> name = hr_checkpoint r)"

record step =
  sp_skip :: nat
  sp_keep :: nat
  sp_cursor :: nat
  sp_added :: "(held \<times> bool) list"
  sp_history :: bytes

definition read_added :: "(held \<times> bool) decoder" where
  "read_added r =
     and_then (read_u64 r) (\<lambda>(i, r).
     and_then (take_bytes 32 r) (\<lambda>(checksum, r).
     and_then (read_boolean r) (\<lambda>(as_kept, r).
     Ok (((i, checksum), as_kept), r))))"

definition step_read :: "bytes \<Rightarrow> persistence_error + step" where
  "step_read bs =
     and_then (read_u32 (reader_new bs)) (\<lambda>(skip, r).
     and_then (read_u32 r) (\<lambda>(keep, r).
     and_then (read_u32 r) (\<lambda>(cursor, r).
     and_then (count_with_limit FILE_HISTORY_REVISIONS r) (\<lambda>(count, r).
     and_then (read_many count read_added r) (\<lambda>(added, r).
     Ok \<lparr>sp_skip = unat skip, sp_keep = unat keep, sp_cursor = unat cursor, sp_added = added,
         sp_history = drop (rd_cursor r) bs\<rparr>)))))"

definition step_kept :: "step \<Rightarrow> nat \<Rightarrow> persistence_error + nat" where
  "step_kept st len =
     (if sp_keep st > 0 \<and> sp_skip st + sp_keep st \<le> len then Ok (sp_skip st + sp_keep st - 1) else Err InvalidRevisionHistory)"

definition step_apply :: "step \<Rightarrow> 'a list \<Rightarrow> 'a list \<Rightarrow> persistence_error + 'a list" where
  "step_apply st history added =
     and_then (step_kept st (length history)) (\<lambda>_.
     and_then (guard (\<not> (length added \<noteq> length (sp_added st) \<or> sp_cursor st \<ge> sp_keep st + length added)) InvalidRevisionHistory) (\<lambda>_.
     Ok (take (sp_keep st) (drop (sp_skip st) history) @ added)))"

section \<open>Planning a step\<close>

record checkpoint_plan =
  cp_base_identity :: file_identity
  cp_len :: nat
  cp_payload_len :: nat
  cp_held :: "planned list"
  cp_side :: side_sums

definition snapshot_checksum :: "bytes \<Rightarrow> history_snapshot \<Rightarrow> bytes" where
  "snapshot_checksum document s =
     (case s of SnapshotDocument _ \<Rightarrow> document | SnapshotWhole _ checksum \<Rightarrow> checksum | SnapshotChunks _ checksum _ \<Rightarrow> checksum)"

definition plan_record :: "bytes \<Rightarrow> history_record \<Rightarrow> planned" where
  "plan_record document_checksum rc =
     \<lparr>pn_held = (rc_revision_id rc, snapshot_checksum document_checksum (rc_encoded_snapshot rc)),
      pn_named = Some (rc_origin rc, rc_checkpoint rc)\<rparr>"

definition plan_over :: "planned list \<Rightarrow> bytes \<Rightarrow> persistence_error + planned list" where
  "plan_over held bs =
     and_then (step_read bs) (\<lambda>st.
     step_apply st held (map (\<lambda>(h, _). \<lparr>pn_held = h, pn_named = None\<rparr>) (sp_added st)))"

definition read_plan :: "(bytes \<Rightarrow> bytes) \<Rightarrow> bytes \<Rightarrow> checkpoint_plan option" where
  "read_plan sha bs =
     (case split_checkpoint bs of None \<Rightarrow> None
      | Some (base_identity, payload, steps) \<Rightarrow>
        (case and_then (container_directory payload) (\<lambda>entries.
            and_then (read_base entries) (\<lambda>(document, base). Ok (entries, document, base))) of
           Inl _ \<Rightarrow> None
         | Inr (entries, document, base) \<Rightarrow>
           (case read_steps sha steps of
              (_, Some _) \<Rightarrow> None
            | (steps, None) \<Rightarrow>
                (case try_fold plan_over (map (plan_record (ce_checksum document)) (ph_records base)) steps of
                   Inl _ \<Rightarrow> None
                 | Inr held \<Rightarrow>
                     Some \<lparr>cp_base_identity = base_identity, cp_len = length bs, cp_payload_len = length payload,
                           cp_held = held, cp_side = compared sha (side_of entries)\<rparr>))))"

text \<open>
  \<^verbatim>\<open>Assembled\<close>: a revision with its program as JSON.  \<^verbatim>\<open>program_json\<close> of a store's revision is checked against the limit
  of programs; those that are read were checked by the reader, so the check of \<open>encode_history\<close> never fails on them.
\<close>

definition of_revision ::
  "(rule_program_source \<Rightarrow> persistence_error + bytes) \<Rightarrow> rule_program_source history_revision \<Rightarrow> bool \<Rightarrow>
   persistence_error + bytes history_revision" where
  "of_revision json r with_program =
     and_then (if with_program then encoded_program json (hr_program r) else Ok None) (\<lambda>program.
     Ok \<lparr>hr_id = hr_id r, hr_batch_digest = hr_batch_digest r, hr_origin = hr_origin r, hr_checkpoint = hr_checkpoint r,
         hr_program = program, hr_encoded = hr_encoded r, hr_sha256 = hr_sha256 r\<rparr>)"

definition written_added ::
  "(rule_program_source \<Rightarrow> persistence_error + bytes) \<Rightarrow> rule_program_source history_revision \<Rightarrow>
   rule_program_source history_revision \<Rightarrow> persistence_error + bytes \<times> bytes history_revision" where
  "written_added json kept r =
     (let as_kept = same_program rule_program_eq r kept in
      and_then (of_revision json r (\<not> as_kept)) (\<lambda>x.
      Ok (push_u64 (hr_id r) @ hr_sha256 r @ push_u8 (boolean_byte as_kept), x)))"

definition step_bytes ::
  "'r recovery_world \<Rightarrow> nat \<Rightarrow> nat \<Rightarrow> ('r, 'f) document_store \<Rightarrow> rule_program_source history_revision list \<Rightarrow> persistence_error + bytes" where
  "step_bytes w skip keep document revisions =
     and_then (try_map u32_count [skip, keep, ds_cursor document, length revisions - keep]) (\<lambda>numbers.
     let kept = revisions ! (keep - 1) in
     and_then (of_revision (rw_json w) kept False) (\<lambda>first.
     and_then (try_map (written_added (rw_json w) kept) (drop keep revisions)) (\<lambda>added.
     and_then (encode_history (rw_sha w) Ok (=) (first # map snd added) 0 (ds_next_revision_id document) (hr_encoded first)
       HISTORY_BUDGET) (\<lambda>history.
     encode_container (rw_sha w)
       [(STEP_ENTRY, True, concat (map push_u32 numbers) @ concat (map fst added) @ history)]))))"

fun position :: "('a \<Rightarrow> bool) \<Rightarrow> 'a list \<Rightarrow> nat option" where
  "position P [] = None"
| "position P (x # xs) = (if P x then Some 0 else map_option Suc (position P xs))"

fun matching :: "planned list \<Rightarrow> 'p history_revision list \<Rightarrow> nat" where
  "matching (p # ps) (r # rs) = (if planned_is r p then Suc (matching ps rs) else 0)"
| "matching _ _ = 0"

text \<open>A store always has a revision (\<open>revisions[0]\<close>).\<close>

definition plan_step ::
  "'r recovery_world \<Rightarrow> checkpoint_plan \<Rightarrow> ('r, 'f) document_store \<Rightarrow> container_data \<Rightarrow> file_identity \<Rightarrow>
   (bytes \<times> checkpoint_plan) option" where
  "plan_step w plan document container base_identity =
     (case side_entries container (history_imported_sources (rw_imported w) document) of
        Inl _ \<Rightarrow> None
      | Inr side \<Rightarrow>
          if cp_base_identity plan \<noteq> base_identity \<or> compared (rw_sha w) side \<noteq> cp_side plan then None
          else
            let revisions = map (store_revision (rw_sha w) (rw_encode w)) (ds_revisions document) in
            (case position (planned_is (hd revisions)) (cp_held plan) of
               None \<Rightarrow> None
             | Some skip \<Rightarrow>
                 let keep = matching (drop skip (cp_held plan)) revisions in
                 (case step_bytes w skip keep document revisions of
                    Inl _ \<Rightarrow> None
                  | Inr bs \<Rightarrow>
                      let len = cp_len plan + 8 + length bs in
                      if len - cp_payload_len plan \<le> cp_payload_len plan
                      then Some (bs, plan \<lparr>cp_len := len, cp_held := map planned_of revisions\<rparr>) else None)))"

section \<open>Assembling a checkpoint\<close>

definition snapshot_len :: "history_snapshot \<Rightarrow> nat" where
  "snapshot_len s = (case s of SnapshotDocument bs \<Rightarrow> length bs | SnapshotWhole bs _ \<Rightarrow> length bs | SnapshotChunks n _ _ \<Rightarrow> n)"

definition of_record :: "(bytes \<Rightarrow> bytes) \<Rightarrow> bytes list \<Rightarrow> bytes \<Rightarrow> history_record \<Rightarrow> persistence_error + bytes history_revision" where
  "of_record sha parts document rc =
     and_then (case rc_rule_program rc of None \<Rightarrow> Ok None
       | Some program \<Rightarrow> and_then (assemble_program sha parts program) (\<lambda>json. Ok (Some json))) (\<lambda>program.
     and_then (assemble_snapshot sha parts (rc_encoded_snapshot rc)) (\<lambda>bs.
     Ok \<lparr>hr_id = rc_revision_id rc, hr_batch_digest = rc_batch_digest rc, hr_origin = rc_origin rc,
         hr_checkpoint = rc_checkpoint rc, hr_program = program, hr_encoded = bs,
         hr_sha256 = snapshot_checksum document (rc_encoded_snapshot rc)\<rparr>))"

type_synonym slot = "bytes history_revision option"

definition slot_weight :: "slot \<Rightarrow> nat" where
  "slot_weight slot = (case slot of None \<Rightarrow> 0 | Some r \<Rightarrow> length (hr_encoded r))"

fun give_up :: "nat \<Rightarrow> nat list \<Rightarrow> nat \<Rightarrow> slot list \<Rightarrow> slot list" where
  "give_up budget [] held revisions = revisions"
| "give_up budget (i # is) held revisions =
     (if held \<le> budget then revisions
      else give_up budget is (held - slot_weight (revisions ! i)) (revisions[i := None]))"

definition give_up_oldest :: "nat \<Rightarrow> nat \<Rightarrow> slot list \<Rightarrow> slot list" where
  "give_up_oldest budget cursor revisions =
     give_up budget ([0..<cursor] @ rev [Suc cursor..<length revisions]) (sum_list (map slot_weight revisions)) revisions"

record assembly =
  ay_revisions :: "slot list"
  ay_cursor :: nat
  ay_next_revision_id :: u64

definition added_revision ::
  "(bytes \<Rightarrow> bytes) \<Rightarrow> bytes list \<Rightarrow> bytes option \<Rightarrow> history_record \<times> (held \<times> bool) \<Rightarrow> persistence_error + slot" where
  "added_revision sha parts kept_program x =
     (case x of (rc, held, as_kept) \<Rightarrow>
       and_then (of_record sha parts (replicate 32 0) rc) (\<lambda>r.
       let r = (if as_kept then r \<lparr>hr_program := kept_program\<rparr> else r) in
       and_then (guard ((hr_id r, hr_sha256 r) = held) InvalidRevisionHistory) (\<lambda>_. Ok (Some r))))"

definition add_len :: "nat \<Rightarrow> history_record \<Rightarrow> persistence_error + nat" where
  "add_len so_far rc = ok_or (checked_usize (so_far + snapshot_len (rc_encoded_snapshot rc))) ResourceLimit"

text \<open>One step of the loop of \<^verbatim>\<open>assemble_checkpoint\<close>: the history is left as it was when the step is refused.\<close>

definition replay_step :: "(bytes \<Rightarrow> bytes) \<Rightarrow> nat \<Rightarrow> assembly \<Rightarrow> bytes \<Rightarrow> persistence_error + assembly" where
  "replay_step sha budget a bs =
     and_then (step_read bs) (\<lambda>st.
     and_then (step_kept st (length (ay_revisions a))) (\<lambda>index.
     and_then (ok_or (ay_revisions a ! index) ResourceLimit) (\<lambda>kept.
     and_then (read_history_records (sp_history st) (hr_encoded kept) HISTORY_BUDGET False) (\<lambda>h.
     and_then (try_fold add_len 0 (tl (ph_records h))) (\<lambda>added_len.
     and_then (guard (added_len \<le> budget) ResourceLimit) (\<lambda>_.
     and_then (guard (\<not> (sp_cursor st < sp_keep st \<and> ay_revisions a ! (sp_skip st + sp_cursor st) = None)) ResourceLimit) (\<lambda>_.
     and_then (try_map (added_revision sha (ph_chunks h) (hr_program kept)) (zip (tl (ph_records h)) (sp_added st))) (\<lambda>added.
     and_then (guard (rc_revision_id (hd (ph_records h)) = hr_id kept) InvalidRevisionHistory) (\<lambda>_.
     and_then (step_apply st (ay_revisions a) added) (\<lambda>revisions.
     Ok \<lparr>ay_revisions = give_up_oldest budget (sp_cursor st) revisions, ay_cursor = sp_cursor st,
         ay_next_revision_id = ph_next_revision_id h\<rparr>))))))))))"

fun replay :: "(bytes \<Rightarrow> bytes) \<Rightarrow> nat \<Rightarrow> nat \<Rightarrow> assembly \<Rightarrow> bytes list \<Rightarrow> assembly \<times> (nat \<times> persistence_error) option" where
  "replay sha budget number a [] = (a, None)"
| "replay sha budget number a (step # steps) =
     (case replay_step sha budget a step of
        Inl e \<Rightarrow> (a, Some (number, e))
      | Inr a \<Rightarrow> replay sha budget (number + 1) a steps)"

definition assembly_budget :: nat where
  "assembly_budget = hb_snapshots HISTORY_BUDGET"

text \<open>The closure \<^verbatim>\<open>file\<close>: the native file of these revisions with the blobs and extensions of the base.\<close>

definition assembled_file ::
  "(bytes \<Rightarrow> bytes) \<Rightarrow> entry_map \<Rightarrow> u64 \<Rightarrow> bytes history_revision \<Rightarrow> bytes history_revision list \<Rightarrow> nat \<Rightarrow> persistence_error + bytes" where
  "assembled_file sha side next_revision_id now revisions cursor =
     and_then (encode_history sha Ok (=) revisions cursor next_revision_id (hr_encoded now) HISTORY_BUDGET) (\<lambda>history.
     encode_container sha (saved_entry_map (hr_encoded now) (Some history) (hr_program now) side))"

definition too_large :: "persistence_error \<Rightarrow> bool" where
  "too_large e = (case e of ResourceLimit \<Rightarrow> True | EntryTooLarge _ _ _ \<Rightarrow> True | _ \<Rightarrow> False)"

definition finish_assembly :: "(bytes \<Rightarrow> bytes) \<Rightarrow> entry_map \<Rightarrow> assembly \<Rightarrow> persistence_error + bytes" where
  "finish_assembly sha side a =
     (let first = length (takeWhile (\<lambda>slot. slot = None) (ay_revisions a));
          revisions = map the (takeWhile (\<lambda>slot. slot \<noteq> None) (drop first (ay_revisions a)));
          cursor = ay_cursor a - first;
          now = revisions ! cursor
      in case assembled_file sha side (ay_next_revision_id a) now revisions cursor of
           Inl e \<Rightarrow> if too_large e then assembled_file sha side (ay_next_revision_id a) now [now] 0 else Err e
         | Inr bs \<Rightarrow> Ok bs)"

text \<open>The damage is the number of the step and its error; the code makes a sentence of it.\<close>

definition assemble_checkpoint ::
  "(bytes \<Rightarrow> bytes) \<Rightarrow> (bytes \<Rightarrow> persistence_error + unit) \<Rightarrow> bytes \<Rightarrow> bytes \<Rightarrow> persistence_error + bytes \<times> (nat \<times> persistence_error) option" where
  "assemble_checkpoint sha load_document payload step_log =
     (case read_steps sha step_log of (steps, torn) \<Rightarrow>
       let damaged = map_option (\<lambda>e. (length steps, e)) torn in
       if steps = [] then Ok (payload, damaged)
       else
         and_then (verify_checksums sha load_document payload) (\<lambda>_.
         and_then (container_directory payload) (\<lambda>entries.
         and_then (read_base entries) (\<lambda>(document, base).
         and_then (try_map (of_record sha (ph_chunks base) (ce_checksum document)) (ph_records base)) (\<lambda>revisions.
         case replay sha assembly_budget 0
             \<lparr>ay_revisions = give_up_oldest assembly_budget (ph_cursor base) (map Some revisions), ay_cursor = ph_cursor base,
              ay_next_revision_id = ph_next_revision_id base\<rparr> steps of
           (a, refused) \<Rightarrow>
             and_then (finish_assembly sha (side_of entries) a) (\<lambda>bs.
             Ok (bs, case refused of None \<Rightarrow> damaged | Some d \<Rightarrow> Some d)))))))"

end
