(* ===== verification/Ketchup_Disk.thy ===== *)
theory Ketchup_Disk
  imports Ketchup_Recovery
begin

text \<open>
  The files of a document on disk (\<^verbatim>\<open>persistence.rs\<close>, \<^verbatim>\<open>persistence/work_recovery.rs\<close>): the document, its backup
  \<^verbatim>\<open>.recovery\<close> and its checkpoint \<^verbatim>\<open>.work-recovery\<close>.  Saving replaces a file by renaming a finished one over it, after the last check that
  nobody else changed it, and keeps an intact replaced file as the backup; a checkpoint is
  written whole the same way or grows by an appended step; opening falls back to the backup and prefers the checkpoint made from the
  file.  A write may fail, and other programs may write between a check and the rename: the hook \<^verbatim>\<open>after_compare\<close> of
  the code stands for them.  The files are regular files that can be read; the locks make a save one action.
\<close>

datatype file_io = FileMissing | WriteFailed

text \<open>\<open>Stale i\<close> is \<^verbatim>\<open>.work-recovery.stale\<close>, \<^verbatim>\<open>.stale-2\<close> and so on: checkpoints set aside.\<close>

datatype role = DocumentFile | WorkRecovery | Backup | Stale nat

datatype file_error =
    FileIo file_io
  | Format persistence_error
  | ExternalConflict
  | SetAsideNamesTaken
  | BackupUnusable file_error file_error
  | Published role file_identity

definition published_identity :: "role \<Rightarrow> file_error \<Rightarrow> file_identity option" where
  "published_identity p e = (case e of Published q identity \<Rightarrow> if q = p then Some identity else None | _ \<Rightarrow> None)"

text \<open>
  A file has its content and a fingerprint, a new one with every write.  \<open>dk_seen\<close> is what the process remembers of files it
  read or wrote (\<^verbatim>\<open>observed_files\<close>): the fingerprint and what it observed.
\<close>

record observed =
  ob_identity :: file_identity
  ob_plan :: "checkpoint_plan option"

record disk =
  dk_files :: "role \<Rightarrow> (bytes \<times> nat) option"
  dk_seen :: "role \<Rightarrow> (nat \<times> observed) option"
  dk_clock :: nat

definition content :: "disk \<Rightarrow> role \<Rightarrow> bytes option" where
  "content dk p = map_option fst (dk_files dk p)"

definition put :: "role \<Rightarrow> bytes \<Rightarrow> disk \<Rightarrow> disk" where
  "put p bs dk = dk \<lparr>dk_files := (dk_files dk) (p \<mapsto> (bs, dk_clock dk)), dk_clock := dk_clock dk + 1\<rparr>"

definition observed_of :: "(bytes \<Rightarrow> bytes) \<Rightarrow> bytes \<Rightarrow> observed" where
  "observed_of sha bs = \<lparr>ob_identity = identity_from_bytes sha bs, ob_plan = read_plan sha bs\<rparr>"

definition observe :: "(bytes \<Rightarrow> bytes) \<Rightarrow> role \<Rightarrow> disk \<Rightarrow> (file_error + observed) \<times> disk" where
  "observe sha p dk =
     (case dk_files dk p of
        None \<Rightarrow> (Err (FileIo FileMissing), dk)
      | Some (bs, stamp) \<Rightarrow>
          (case dk_seen dk p of
             Some (seen, ob) \<Rightarrow> if seen = stamp then (Ok ob, dk)
               else (Ok (observed_of sha bs), dk \<lparr>dk_seen := (dk_seen dk) (p \<mapsto> (stamp, observed_of sha bs))\<rparr>)
           | None \<Rightarrow> (Ok (observed_of sha bs), dk \<lparr>dk_seen := (dk_seen dk) (p \<mapsto> (stamp, observed_of sha bs))\<rparr>)))"

definition record_written :: "role \<Rightarrow> observed \<Rightarrow> disk \<Rightarrow> disk" where
  "record_written p ob dk =
     (case dk_files dk p of None \<Rightarrow> dk | Some (_, stamp) \<Rightarrow> dk \<lparr>dk_seen := (dk_seen dk) (p \<mapsto> (stamp, ob))\<rparr>)"

section \<open>Writing a file\<close>

text \<open>
  How a write goes wrong: the temporary file or the appended bytes cannot be written, or the directory
  cannot be made durable once the file is in place.
\<close>

datatype write_fault = NoFault | WriteFails | SyncFails

definition write_atomic_after_prepare ::
  "(bytes \<Rightarrow> bytes) \<Rightarrow> role \<Rightarrow> bytes \<Rightarrow> bool \<Rightarrow> (disk \<Rightarrow> (file_error + unit) \<times> disk) \<Rightarrow> write_fault \<Rightarrow> disk \<Rightarrow> (file_error + unit) \<times> disk" where
  "write_atomic_after_prepare sha p bs replace before_persist fault dk =
     (if fault = WriteFails then (Err (FileIo WriteFailed), dk)
      else
        (case before_persist dk of
           (Inl e, dk) \<Rightarrow> (Err e, dk)
         | (Inr _, dk) \<Rightarrow>
             if \<not> replace \<and> dk_files dk p \<noteq> None then (Err ExternalConflict, dk)
             else (if fault = SyncFails then Err (Published p (identity_from_bytes sha bs)) else Ok (), put p bs dk)))"

definition write_atomic :: "(bytes \<Rightarrow> bytes) \<Rightarrow> role \<Rightarrow> bytes \<Rightarrow> write_fault \<Rightarrow> disk \<Rightarrow> (file_error + unit) \<times> disk" where
  "write_atomic sha p bs fault dk = write_atomic_after_prepare sha p bs True (\<lambda>dk. (Ok (), dk)) fault dk"

datatype publish = Replace | IfUnchanged file_identity | IfAbsent

definition changed :: "(bytes \<Rightarrow> bytes) \<Rightarrow> file_identity option \<Rightarrow> bytes option \<Rightarrow> bool" where
  "changed sha expected found =
     (case expected of None \<Rightarrow> False
      | Some identity \<Rightarrow> (case found of None \<Rightarrow> True | Some bs \<Rightarrow> identity_from_bytes sha bs \<noteq> identity))"

definition publish_bytes ::
  "'r recovery_world \<Rightarrow> bytes \<Rightarrow> publish \<Rightarrow> (disk \<Rightarrow> disk) \<Rightarrow> write_fault \<Rightarrow> write_fault \<Rightarrow> disk \<Rightarrow> (file_error + unit) \<times> disk" where
  "publish_bytes w bs mode after_compare backup_fault fault dk =
     (let sha = rw_sha w; verify = verify_checksums sha (rw_load_document w) in
      case verify bs of
        Inl e \<Rightarrow> (Err (Format e), dk)
      | Inr _ \<Rightarrow>
          if mode = IfAbsent then
            (if dk_files dk DocumentFile \<noteq> None then (Err ExternalConflict, dk)
             else write_atomic_after_prepare sha DocumentFile bs False (\<lambda>dk. (Ok (), after_compare dk)) fault dk)
          else
            let expected = (case mode of IfUnchanged identity \<Rightarrow> Some identity | _ \<Rightarrow> None) in
            if changed sha expected (content dk DocumentFile) then (Err ExternalConflict, dk)
            else
              (case (case content dk DocumentFile of
                  Some previous \<Rightarrow> if is_ok (verify previous) then write_atomic sha Backup previous backup_fault dk else (Ok (), dk)
                | None \<Rightarrow> (Ok (), dk)) of
                 (Inl e, dk) \<Rightarrow> (Err e, dk)
               | (Inr _, dk) \<Rightarrow>
                   write_atomic_after_prepare sha DocumentFile bs True
                     (\<lambda>dk. let dk = after_compare dk in
                       (if changed sha expected (content dk DocumentFile) then Err ExternalConflict else Ok (), dk))
                     fault dk))"

text \<open>\<^verbatim>\<open>pipeline.rs\<close>: a document is encoded once and published.\<close>

definition over :: "file_identity option \<Rightarrow> publish" where
  "over found = (case found of None \<Rightarrow> IfAbsent | Some identity \<Rightarrow> IfUnchanged identity)"

definition prepare_document :: "'r recovery_world \<Rightarrow> ('r, 'f) document_store \<Rightarrow> container_data \<Rightarrow> persistence_error + bytes" where
  "prepare_document w document container =
     save_document_store_current_snapshot (rw_sha w) (rw_json w) (rw_encode w) (rw_imported w) document container"

definition publish_document :: "'r recovery_world \<Rightarrow> bytes \<Rightarrow> publish \<Rightarrow> write_fault \<Rightarrow> write_fault \<Rightarrow> disk \<Rightarrow> (file_error + unit) \<times> disk" where
  "publish_document w prepared mode = publish_bytes w prepared mode (\<lambda>dk. dk)"

definition save_atomic :: "'r recovery_world \<Rightarrow> 'r snapshot \<Rightarrow> write_fault \<Rightarrow> write_fault \<Rightarrow> disk \<Rightarrow> (file_error + unit) \<times> disk" where
  "save_atomic w snapshot backup_fault fault dk =
     (case save_container (rw_sha w) (rw_encode w) (rw_imported w) snapshot container_data_default of
        Inl e \<Rightarrow> (Err (Format e), dk)
      | Inr bs \<Rightarrow> publish_bytes w bs Replace (\<lambda>dk. dk) backup_fault fault dk)"

section \<open>The checkpoint\<close>

definition read_observed_work_recovery ::
  "(bytes \<Rightarrow> bytes) \<Rightarrow> file_identity option \<Rightarrow> disk \<Rightarrow> (file_error + observed option) \<times> disk" where
  "read_observed_work_recovery sha expected dk =
     (if dk_files dk WorkRecovery = None then (if expected = None then Ok None else Err ExternalConflict, dk)
      else
        (case observe sha WorkRecovery dk of
           (Inl e, dk) \<Rightarrow> (Err e, dk)
         | (Inr ob, dk) \<Rightarrow> (if expected = Some (ob_identity ob) then Ok (Some ob) else Err ExternalConflict, dk)))"

definition same_base :: "(bytes \<Rightarrow> bytes) \<Rightarrow> file_identity \<Rightarrow> disk \<Rightarrow> (file_error + unit) \<times> disk" where
  "same_base sha base_identity dk =
     (case observe sha DocumentFile dk of
        (Inl e, dk) \<Rightarrow> (Err e, dk)
      | (Inr ob, dk) \<Rightarrow> (if ob_identity ob \<noteq> base_identity then Err ExternalConflict else Ok (), dk))"

definition check_work_recovery_identity :: "(bytes \<Rightarrow> bytes) \<Rightarrow> file_identity option \<Rightarrow> disk \<Rightarrow> (file_error + unit) \<times> disk" where
  "check_work_recovery_identity sha expected dk =
     (case read_observed_work_recovery sha expected dk of (Inl e, dk) \<Rightarrow> (Err e, dk) | (Inr _, dk) \<Rightarrow> (Ok (), dk))"

definition check_unchanged ::
  "(bytes \<Rightarrow> bytes) \<Rightarrow> file_identity \<Rightarrow> file_identity option \<Rightarrow> disk \<Rightarrow> (file_error + unit) \<times> disk" where
  "check_unchanged sha base_identity expected dk =
     (case same_base sha base_identity dk of
        (Inl e, dk) \<Rightarrow> (Err e, dk)
      | (Inr _, dk) \<Rightarrow> check_work_recovery_identity sha expected dk)"

text \<open>
  A step that could not be written is cut off again; the checkpoint stays as it was observed.  The write goes to the
  observed length, which is where the file ends.
\<close>

definition append_step ::
  "(bytes \<Rightarrow> bytes) \<Rightarrow> observed \<Rightarrow> bytes \<Rightarrow> checkpoint_plan \<Rightarrow> write_fault \<Rightarrow> disk \<Rightarrow> (file_error + file_identity) \<times> disk" where
  "append_step sha ob step next fault dk =
     (case u64_len (length step) of
        Inl e \<Rightarrow> (Err (Format e), dk)
      | Inr n \<Rightarrow>
          (case content dk WorkRecovery of
             None \<Rightarrow> (Err (FileIo FileMissing), dk)
           | Some bs \<Rightarrow>
               let kept = take (unat (fi_byte_len (ob_identity ob))) bs; written = kept @ push_u64 n @ step in
               if fault = WriteFails then (Err (FileIo WriteFailed), put WorkRecovery kept dk)
               else
                 let identity = identity_from_bytes sha written;
                     dk = record_written WorkRecovery \<lparr>ob_identity = identity, ob_plan = Some next\<rparr> (put WorkRecovery written dk) in
                 (if fault = SyncFails then Err (Published WorkRecovery identity) else Ok identity, dk)))"

definition whole_payload :: "'r recovery_world \<Rightarrow> ('r, 'f) document_store \<Rightarrow> container_data \<Rightarrow> persistence_error + bytes" where
  "whole_payload w document container =
     (case save_document_store (rw_sha w) (rw_json w) (rw_encode w) (rw_imported w) document container of
        Inl e \<Rightarrow>
          if too_large e
          then save_document_store_current_snapshot (rw_sha w) (rw_json w) (rw_encode w) (rw_imported w) document container
          else Err e
      | Inr bs \<Rightarrow> Ok bs)"

definition checkpoint_bytes_of :: "file_identity \<Rightarrow> bytes \<Rightarrow> persistence_error + bytes" where
  "checkpoint_bytes_of base_identity payload =
     and_then (u64_len (length payload)) (\<lambda>n.
     Ok (WORK_RECOVERY_MAGIC @ push_u16 WORK_RECOVERY_SCHEMA @ push_u64 (fi_byte_len base_identity) @ fi_sha256 base_identity @
         push_u64 n @ payload))"

definition write_whole ::
  "'r recovery_world \<Rightarrow> ('r, 'f) document_store \<Rightarrow> container_data \<Rightarrow> file_identity \<Rightarrow> file_identity option \<Rightarrow> write_fault \<Rightarrow>
   disk \<Rightarrow> (file_error + file_identity) \<times> disk" where
  "write_whole w document container base_identity expected fault dk =
     (case and_then (whole_payload w document container) (checkpoint_bytes_of base_identity) of
        Inl e \<Rightarrow> (Err (Format e), dk)
      | Inr bs \<Rightarrow>
          (case write_atomic_after_prepare (rw_sha w) WorkRecovery bs True (check_unchanged (rw_sha w) base_identity expected) fault dk of
             (Inl e, dk) \<Rightarrow> (Err e, dk)
           | (Inr _, dk) \<Rightarrow>
               (Ok (identity_from_bytes (rw_sha w) bs), record_written WorkRecovery (observed_of (rw_sha w) bs) dk)))"

definition write_work_recovery ::
  "'r recovery_world \<Rightarrow> ('r, 'f) document_store \<Rightarrow> container_data \<Rightarrow> file_identity \<Rightarrow> file_identity option \<Rightarrow> (disk \<Rightarrow> disk) \<Rightarrow>
   write_fault \<Rightarrow> disk \<Rightarrow> (file_error + file_identity) \<times> disk" where
  "write_work_recovery w document container base_identity expected after_compare fault dk =
     (case same_base (rw_sha w) base_identity dk of
        (Inl e, dk) \<Rightarrow> (Err e, dk)
      | (Inr _, dk) \<Rightarrow>
          (case read_observed_work_recovery (rw_sha w) expected dk of
             (Inl e, dk) \<Rightarrow> (Err e, dk)
           | (Inr found, dk) \<Rightarrow>
               let dk = after_compare dk in
               (case (case found of None \<Rightarrow> None
                   | Some ob \<Rightarrow> (case ob_plan ob of None \<Rightarrow> None
                       | Some plan \<Rightarrow> map_option (Pair ob) (plan_step w plan document container base_identity))) of
                  Some (ob, step, next) \<Rightarrow>
                    (case check_unchanged (rw_sha w) base_identity expected dk of
                       (Inl e, dk) \<Rightarrow> (Err e, dk)
                     | (Inr _, dk) \<Rightarrow> append_step (rw_sha w) ob step next fault dk)
                | None \<Rightarrow> write_whole w document container base_identity expected fault dk)))"

definition publish_work_recovery ::
  "'r recovery_world \<Rightarrow> ('r, 'f) document_store \<Rightarrow> container_data \<Rightarrow> file_identity \<Rightarrow> file_identity option \<Rightarrow>
   write_fault \<Rightarrow> disk \<Rightarrow> (file_error + file_identity) \<times> disk" where
  "publish_work_recovery w document container base_identity expected =
     write_work_recovery w document container base_identity expected (\<lambda>dk. dk)"

text \<open>A checkpoint that could not be used is renamed to the first free name.\<close>

definition set_aside_work_recovery :: "write_fault \<Rightarrow> disk \<Rightarrow> (file_error + role) \<times> disk" where
  "set_aside_work_recovery fault dk =
     (case find (\<lambda>i. dk_files dk (Stale i) = None) [1..<1001] of
        None \<Rightarrow> (Err SetAsideNamesTaken, dk)
      | Some i \<Rightarrow>
          (case dk_files dk WorkRecovery of
             None \<Rightarrow> (Err (FileIo FileMissing), dk)
           | Some f \<Rightarrow>
               if fault = WriteFails then (Err (FileIo WriteFailed), dk)
               else
                 let dk = dk \<lparr>dk_files := (dk_files dk) (WorkRecovery := None, Stale i \<mapsto> f)\<rparr> in
                 (if fault = SyncFails then Err (FileIo WriteFailed) else Ok (Stale i), dk)))"

section \<open>Opening\<close>

datatype unusable = UnknownFormat | OtherVersion | Damaged | UnusableDocument persistence_error

datatype notice =
    OpenedBackup
  | OpenedWorkRecovery
  | WorkRecoveryUnusable unusable
  | WorkRecoveryStepDamaged "nat \<times> persistence_error"

record 'o loaded_file =
  lf_outcome :: 'o
  lf_notices :: "notice list"
  lf_source :: role
  lf_source_bytes :: bytes
  lf_work_recovery_identity :: "file_identity option"
  lf_work_recovery_base :: "file_identity option"

datatype 'o work_recovery_read = Absent | Loaded "'o loaded_file" | Unusable unusable

definition open_checkpoint ::
  "'r recovery_world \<Rightarrow> file_identity \<Rightarrow> bytes \<Rightarrow> unusable + bytes \<times> (nat \<times> persistence_error) option" where
  "open_checkpoint w base_identity bs =
     and_then (map_err (\<lambda>_. UnknownFormat) (take_bytes (length WORK_RECOVERY_MAGIC) (reader_new bs))) (\<lambda>(magic, r).
     and_then (guard (magic = WORK_RECOVERY_MAGIC) UnknownFormat) (\<lambda>_.
     and_then (map_err (\<lambda>_. UnknownFormat) (read_u16 r)) (\<lambda>(schema, r).
     and_then (guard (1 \<le> schema \<and> schema \<le> WORK_RECOVERY_SCHEMA) UnknownFormat) (\<lambda>_.
     and_then (map_err (\<lambda>_. Damaged) (read_u64 r)) (\<lambda>(byte_len, r).
     and_then (map_err (\<lambda>_. Damaged) (take_bytes 32 r)) (\<lambda>(sha256, r).
     and_then (guard (\<lparr>fi_byte_len = byte_len, fi_sha256 = sha256\<rparr> = base_identity) OtherVersion) (\<lambda>_.
     and_then (map_err (\<lambda>_. Damaged) (read_u64 r)) (\<lambda>(payload_len, r).
     and_then (map_err (\<lambda>_. Damaged) (take_bytes (unat payload_len) r)) (\<lambda>(payload, r).
     let steps = drop (rd_cursor r) bs in
     and_then (guard (\<not> (schema = 1 \<and> steps \<noteq> [])) Damaged) (\<lambda>_.
     if steps = [] then Ok (payload, None)
     else map_err UnusableDocument (assemble_checkpoint (rw_sha w) (rw_load_document w) payload steps)))))))))))"

definition try_load_work_recovery ::
  "'r recovery_world \<Rightarrow> (bytes \<Rightarrow> persistence_error + 'o) \<Rightarrow> bytes option \<Rightarrow> file_identity \<Rightarrow> 'o work_recovery_read" where
  "try_load_work_recovery w load_with_history checkpoint base_identity =
     (case checkpoint of
        None \<Rightarrow> Absent
      | Some bs \<Rightarrow>
          (case open_checkpoint w base_identity bs of
             Inl reason \<Rightarrow> Unusable reason
           | Inr (opened, damaged_step) \<Rightarrow>
               (case load_with_history opened of
                  Inl e \<Rightarrow> Unusable (UnusableDocument e)
                | Inr outcome \<Rightarrow>
                    Loaded \<lparr>lf_outcome = outcome,
                      lf_notices = OpenedWorkRecovery # (case damaged_step of None \<Rightarrow> [] | Some d \<Rightarrow> [WorkRecoveryStepDamaged d]),
                      lf_source = WorkRecovery, lf_source_bytes = opened,
                      lf_work_recovery_identity = Some (identity_from_bytes (rw_sha w) bs),
                      lf_work_recovery_base = Some base_identity\<rparr>)))"

definition not_damaged :: "persistence_error \<Rightarrow> bool" where
  "not_damaged e =
     (case e of LegacyFeatureRequiresMigration _ \<Rightarrow> True | UnsupportedSchema _ \<Rightarrow> True | UnsupportedContainerSchema _ \<Rightarrow> True
      | UnsupportedContainerEntry _ \<Rightarrow> True | UnsupportedHistorySchema _ \<Rightarrow> True | UnknownFields _ \<Rightarrow> True | _ \<Rightarrow> False)"

definition open_backup :: "(bytes \<Rightarrow> persistence_error + 'o) \<Rightarrow> disk \<Rightarrow> file_error \<Rightarrow> file_error + 'o loaded_file" where
  "open_backup load dk primary =
     (case content dk Backup of
        None \<Rightarrow> Err primary
      | Some bs \<Rightarrow>
          (case load bs of
             Inl e \<Rightarrow> Err (BackupUnusable primary (Format e))
           | Inr outcome \<Rightarrow>
               Ok \<lparr>lf_outcome = outcome, lf_notices = [OpenedBackup], lf_source = Backup, lf_source_bytes = bs,
                   lf_work_recovery_identity = None, lf_work_recovery_base = None\<rparr>))"

definition load_file_with_source ::
  "'r recovery_world \<Rightarrow> (bytes \<Rightarrow> persistence_error + 'o) \<Rightarrow> (bytes \<Rightarrow> persistence_error + 'o) \<Rightarrow> disk \<Rightarrow>
   file_error + 'o loaded_file" where
  "load_file_with_source w load load_with_history dk =
     (case content dk DocumentFile of
        None \<Rightarrow> open_backup load dk (FileIo FileMissing)
      | Some bs \<Rightarrow>
          (case load bs of
             Inl e \<Rightarrow> if not_damaged e then Err (Format e) else open_backup load dk (Format e)
           | Inr outcome \<Rightarrow>
               (case try_load_work_recovery w load_with_history (content dk WorkRecovery) (identity_from_bytes (rw_sha w) bs) of
                  Loaded recovered \<Rightarrow> Ok recovered
                | other \<Rightarrow>
                    Ok \<lparr>lf_outcome = outcome,
                        lf_notices = (case other of Unusable reason \<Rightarrow> [WorkRecoveryUnusable reason] | _ \<Rightarrow> []),
                        lf_source = DocumentFile, lf_source_bytes = bs,
                        lf_work_recovery_identity = None, lf_work_recovery_base = None\<rparr>)))"

text \<open>The checkpoint is moved aside, looked at again, and put back when it is not the expected one.\<close>

definition clear_work_recovery ::
  "(bytes \<Rightarrow> bytes) \<Rightarrow> file_identity option \<Rightarrow> (disk \<Rightarrow> disk) \<Rightarrow> write_fault \<Rightarrow> disk \<Rightarrow> (file_error + bool) \<times> disk" where
  "clear_work_recovery sha expected after_compare fault dk =
     (case (content dk WorkRecovery, expected) of
        (Some bs, Some identity) \<Rightarrow>
          if identity_from_bytes sha bs \<noteq> identity then (Ok False, dk)
          else
            let dk = after_compare dk in
            if fault = WriteFails then (Err (FileIo WriteFailed), dk)
            else
              (case content dk WorkRecovery of
                 None \<Rightarrow> (Ok False, dk)
               | Some bs \<Rightarrow>
                   if identity_from_bytes sha bs = identity then (Ok True, dk \<lparr>dk_files := (dk_files dk) (WorkRecovery := None)\<rparr>)
                   else (Ok False, put WorkRecovery bs dk))
      | _ \<Rightarrow> (Ok False, dk))"

end
