(* ===== verification/Ketchup_Replay.thy ===== *)
theory Ketchup_Replay
  imports Ketchup_Disk
begin

text \<open>
  What a checkpoint holds.  A revision of a store and the revision a reader assembles from the file are the same but for the
  program, which is its JSON in the file; a step that was written is replayed to the store it was written from, so that
  a checkpoint opens as the file a save would have written, and one that was cut short as the file before its last step.
\<close>

section \<open>Revisions with their program as JSON\<close>

definition assembled_of :: "(rule_program_source \<Rightarrow> bytes) \<Rightarrow> rule_program_source history_revision \<Rightarrow> bytes history_revision" where
  "assembled_of json r =
     \<lparr>hr_id = hr_id r, hr_batch_digest = hr_batch_digest r, hr_origin = hr_origin r, hr_checkpoint = hr_checkpoint r,
      hr_program = map_option json (hr_program r), hr_encoded = hr_encoded r, hr_sha256 = hr_sha256 r\<rparr>"

lemma assembled_fields [simp]:
  "hr_id (assembled_of json r) = hr_id r" "hr_batch_digest (assembled_of json r) = hr_batch_digest r"
  "hr_origin (assembled_of json r) = hr_origin r" "hr_checkpoint (assembled_of json r) = hr_checkpoint r"
  "hr_program (assembled_of json r) = map_option json (hr_program r)" "hr_encoded (assembled_of json r) = hr_encoded r"
  "hr_sha256 (assembled_of json r) = hr_sha256 r"
  by (simp_all add: assembled_of_def)

text \<open>Programs that compare equal exactly when their JSON is the same.\<close>

definition programs_faithful :: "(rule_program_source \<Rightarrow> bytes) \<Rightarrow> rule_program_source history_revision list \<Rightarrow> bool" where
  "programs_faithful json rs \<longleftrightarrow>
     (\<forall>r \<in> set rs. \<forall>q \<in> set rs. \<forall>x y. hr_program r = Some x \<longrightarrow> hr_program q = Some y \<longrightarrow> (rule_program_eq x y \<longleftrightarrow> json x = json y))"

lemma same_program_assembled:
  assumes "programs_faithful json rs" and "r \<in> set rs" and "q \<in> set rs"
  shows "same_program (=) (assembled_of json r) (assembled_of json q) = same_program rule_program_eq r q"
  using assms by (auto simp: same_program_def programs_faithful_def split: option.splits)

lemma encode_revisions_assembled:
  assumes "programs_faithful json all" and "set rs \<subseteq> set all" and "case previous of None \<Rightarrow> True | Some p \<Rightarrow> p \<in> set all"
  shows "encode_revisions sha Ok (=) budget cursor index (map_option (assembled_of json) previous) (map (assembled_of json) rs) s =
    encode_revisions sha (\<lambda>p. Inr (json p)) rule_program_eq budget cursor index previous rs s"
  using assms(2,3)
proof (induction rs arbitrary: index previous s)
  case (Cons r rs)
  have header: "write_revision_header (assembled_of json r) = write_revision_header r" by (simp add: write_revision_header_def)
  have program: "encoded_program Ok (map_option json x) = encoded_program (\<lambda>p. Inr (json p)) x" for x
    by (cases x) (auto simp: encoded_program_def)
  have "encode_program_part sha Ok (=) budget (map_option (assembled_of json) previous) (assembled_of json r) u =
      encode_program_part sha (\<lambda>p. Inr (json p)) rule_program_eq budget previous r u" for u
    using same_program_assembled [OF assms(1)] Cons.prems
    by (cases previous) (simp_all add: encode_program_part_def program)
  moreover have "encode_snapshot_part sha budget b (assembled_of json r) u = encode_snapshot_part sha budget b r u" for b u
    by (simp add: encode_snapshot_part_def)
  ultimately have "encode_revision sha Ok (=) budget (map_option (assembled_of json) previous) (index = cursor) (assembled_of json r) s =
      encode_revision sha (\<lambda>p. Inr (json p)) rule_program_eq budget previous (index = cursor) r s"
    by (simp add: encode_revision_def header)
  moreover have "encode_revisions sha Ok (=) budget cursor (index + 1) (Some (assembled_of json r)) (map (assembled_of json) rs) =
      encode_revisions sha (\<lambda>p. Inr (json p)) rule_program_eq budget cursor (index + 1) (Some r) rs"
    using Cons.IH [of "Some r"] Cons.prems by (intro ext) simp
  ultimately show ?case by simp
qed simp

lemma encode_history_assembled:
  assumes "programs_faithful json rs"
  shows "encode_history sha Ok (=) (map (assembled_of json) rs) cursor next doc budget =
    encode_history sha (\<lambda>p. Inr (json p)) rule_program_eq rs cursor next doc budget"
  using encode_revisions_assembled [OF assms subset_refl, of None] by (simp add: encode_history_def)

section \<open>Records as revisions\<close>

lemma record_assembles:
  assumes "record_matches sha Inr doc cs is_current r rc" and "hashed sha r" and "is_current \<Longrightarrow> hr_encoded r = doc \<and> hr_sha256 r = checksum"
  shows "of_record sha cs checksum rc = Inr r" and "plan_record checksum rc = planned_of r"
  using assms
  by (auto simp: record_matches_def of_record_def plan_record_def planned_of_def snapshot_checksum_def assemble_snapshot_def hashed_def
      split: option.splits if_splits)

lemma records_assemble:
  assumes "records_match sha Inr doc cs cursor index rs rcs" and "list_all (hashed sha) rs"
    and "index \<le> cursor \<Longrightarrow> cursor - index < length rs \<Longrightarrow>
      hr_encoded (rs ! (cursor - index)) = doc \<and> hr_sha256 (rs ! (cursor - index)) = checksum"
  shows "try_map (of_record sha cs checksum) rcs = Inr rs \<and> map (plan_record checksum) rcs = map planned_of rs \<and> length rcs = length rs"
  using assms
proof (induction rs arbitrary: index rcs)
  case Nil
  then show ?case by (cases rcs) auto
next
  case (Cons r rs)
  from Cons.prems(1) obtain c cs' where rcs: "rcs = c # cs'" "record_matches sha Inr doc cs (index = cursor) r c"
    "records_match sha Inr doc cs cursor (index + 1) rs cs'"
    by (cases rcs) auto
  have r: "hashed sha r" "list_all (hashed sha) rs" "index = cursor \<Longrightarrow> hr_encoded r = doc \<and> hr_sha256 r = checksum"
    using Cons.prems by auto
  have "hr_encoded (rs ! (cursor - (index + 1))) = doc \<and> hr_sha256 (rs ! (cursor - (index + 1))) = checksum"
    if "index + 1 \<le> cursor" "cursor - (index + 1) < length rs"
  proof -
    have "cursor - index = Suc (cursor - (index + 1))" using that(1) by simp
    with Cons.prems(3) that show ?thesis by simp
  qed
  from Cons.IH [OF rcs(3) r(2) this] record_assembles [OF rcs(2) r(1,3)] show ?case by (simp add: rcs(1))
qed

section \<open>The base of a checkpoint\<close>

text \<open>What a history needs to be written and read: \<open>S\<close> are contents the hash tells apart.\<close>

definition work_ok :: "(bytes \<Rightarrow> bytes) \<Rightarrow> bytes set \<Rightarrow> u64 \<Rightarrow> bytes history_revision list \<Rightarrow> nat \<Rightarrow> bool" where
  "work_ok sha S next R cursor \<longleftrightarrow>
     revisions_ok 0 R \<and> cursor < length R \<and> hr_id (last R) < next \<and> list_all (hashed sha) R \<and>
     \<Union> (revision_contents sha Inr ` set R) \<subseteq> S \<and> hr_encoded ` set R \<subseteq> S \<and>
     sum_list (map (\<lambda>r. length (hr_encoded r)) R) \<le> assembly_budget"

definition good_side :: "entry_map \<Rightarrow> bool" where
  "good_side side \<longleftrightarrow>
     bt_wf side \<and> list_all (\<lambda>e. valid_utf8 (fst e) \<and> fst e \<notin> set CORE_ENTRIES) side \<and> entries_items side + 38 \<le> MAX_COLLECTION_ITEMS"

lemma bt_get_filter_key: "bt_get (filter (\<lambda>e. P (fst e)) m) k = (if P k then bt_get m k else None)"
  by (induction m) auto

lemma side_of_framed: "bt_wf m \<Longrightarrow> side_of (map (framed sha) m) = filter (\<lambda>e. fst e \<notin> set CORE_ENTRIES) m"
  using fold_insert_sorted [of "filter (\<lambda>e. fst e \<notin> set CORE_ENTRIES) m" sha, OF bt_wf_filter]
  by (simp add: side_of_def filter_map comp_def)

lemma find_framed:
  "bt_wf m \<Longrightarrow> bt_get m k = Some (True, c) \<Longrightarrow> find_entry (map (framed sha) m) k = Some (framed sha (k, True, c))"
proof (induction m)
  case (Cons e m)
  obtain j x d where "e = (j, x, d)" by (cases e)
  with Cons show ?case by (cases "j = k") (auto simp: find_entry_def)
qed simp

lemma saved_reads:
  assumes "good_side side" and sha: "\<And>b. length (sha b) = 32"
    and enc: "encode_container sha (saved_entry_map doc hist prog side) = Inr bs" and len: "length bs < 2 ^ 64"
  shows "container_entries sha bs = Inr (saved_entry_map doc hist prog side)"
    and "container_directory bs = Inr (map (framed sha) (saved_entry_map doc hist prog side))"
    and "verify_checksums sha load_document bs = Inr ()"
    and "side_of (map (framed sha) (saved_entry_map doc hist prog side)) = side"
proof -
  let ?m = "saved_entry_map doc hist prog side"
  have side: "bt_wf side" "list_all (\<lambda>e. \<not> fst e \<in> {''document.bin'', ''history.bin'', ''program.json''}) side"
    "list_all (\<lambda>e. valid_utf8 (fst e)) side"
    using assms(1) by (auto simp: good_side_def list_all_iff CORE_ENTRIES_def PROGRAM_ENTRY_def)
  note m = saved_map [OF side(1,2), of doc hist prog]
  have "list_all is_ascii ''document.bin''" "list_all is_ascii ''history.bin''" "list_all is_ascii ''program.json''"
    by (simp_all add: is_ascii_def)
  then have "valid_utf8 ''document.bin''" "valid_utf8 ''history.bin''" "valid_utf8 ''program.json''"
    using valid_utf8_ascii_append [of _ "[]"] by (auto simp: valid_utf8_def)
  then have utf8: "list_all (\<lambda>e. valid_utf8 (fst e)) ?m"
    using side(3) by (auto simp: saved_entry_map_def Let_def intro!: list_all_bt_insert split: option.splits)
  have items: "entries_items ?m \<le> MAX_COLLECTION_ITEMS" using saved_items [of doc hist prog side] assms(1) by (simp add: good_side_def)
  with encoded_entries [OF m(1) utf8 sha enc len] show e: "container_entries sha bs = Inr ?m" by simp
  from enc [unfolded encode_container_Inr] show "container_directory bs = Inr (map (framed sha) ?m)"
    unfolding directory_iff [OF len] using items framed_ok [OF sha utf8] by (auto simp: items_framed container_schema_of_def)
  have "prefix CONTAINER_MAGIC bs" using enc [unfolded encode_container_Inr] by (simp add: directory_bytes_def)
  with e m(2) show "verify_checksums sha load_document bs = Inr ()" by (simp add: verify_checksums_def)
  have "filter (\<lambda>e. fst e \<notin> set CORE_ENTRIES) ?m = side"
  proof (rule bt.entries_unique)
    fix k
    have none: "bt_get side k = None" if "k \<in> set CORE_ENTRIES"
      using that assms(1) by (auto simp: good_side_def bt.get_None_iff list_all_iff)
    show "bt_get (filter (\<lambda>e. fst e \<notin> set CORE_ENTRIES) ?m) k = bt_get side k"
      unfolding bt_get_filter_key [where P = "\<lambda>k. k \<notin> set CORE_ENTRIES"] using none
      by (auto simp: saved_entry_map_def Let_def CORE_ENTRIES_def PROGRAM_ENTRY_def split: option.splits)
  qed (auto simp: side(1) m(1) bt_wf_filter)
  with side_of_framed [OF m(1)] show "side_of (map (framed sha) ?m) = side" by simp
qed

lemma base_reads:
  assumes "good_side side" and sha: "\<And>b. length (sha b) = 32" and "inj_on sha S" and work: "work_ok sha S next R cursor"
    and written: "assembled_file sha side next (R ! cursor) R cursor = Inr payload" and len: "length payload < 2 ^ 64"
  obtains entries document h where "container_directory payload = Inr entries" "read_base entries = Inr (document, h)"
    "side_of entries = side" "verify_checksums sha load_document payload = Inr ()"
    "try_map (of_record sha (ph_chunks h) (ce_checksum document)) (ph_records h) = Inr R"
    "map (plan_record (ce_checksum document)) (ph_records h) = map planned_of R" "ph_cursor h = cursor" "ph_next_revision_id h = next"
proof -
  let ?now = "R ! cursor"
  from written obtain history where hist: "encode_history sha Ok (=) R cursor next (hr_encoded ?now) HISTORY_BUDGET = Inr history"
    and enc: "encode_container sha (saved_entry_map (hr_encoded ?now) (Some history) (hr_program ?now) side) = Inr payload"
    by (auto simp: assembled_file_def result_simps)
  let ?m = "saved_entry_map (hr_encoded ?now) (Some history) (hr_program ?now) side"
  note saved = saved_reads [OF assms(1) sha enc len]
  have side: "bt_wf side" "list_all (\<lambda>e. \<not> fst e \<in> {''document.bin'', ''history.bin'', ''program.json''}) side"
    using assms(1) by (auto simp: good_side_def list_all_iff CORE_ENTRIES_def PROGRAM_ENTRY_def)
  note m = saved_map [OF side, of "hr_encoded ?now" "Some history" "hr_program ?now"]
  have now: "?now \<in> set R" "hashed sha ?now" using work by (auto simp: work_ok_def list_all_iff)
  have "(''history.bin'', True, history) \<in> set ?m" using m(1,3) by (auto simp: bt_get_def dest: map_of_SomeD)
  from saved_content_length [OF enc this] len have "length history < 2 ^ 64" by simp
  moreover have all: "\<Union> (revision_contents sha Inr ` set R) \<subseteq> S" using work by (simp add: work_ok_def)
  moreover have "contents sha (hr_encoded ?now) \<subseteq> S"
    using all now(1) by (auto simp: revision_contents_def dest!: subsetD [OF all, OF UN_I])
  moreover have "successively (programs_agree (=) Inr) R"
    by (auto simp: programs_agree_def successively_conv_nth split: option.splits)
  ultimately obtain h where h: "read_history_records history (hr_encoded ?now) HISTORY_BUDGET False = Inr h" "ph_cursor h = cursor"
    "ph_next_revision_id h = next" "records_match sha Inr (hr_encoded ?now) (ph_chunks h) cursor 0 R (ph_records h)"
    using written_history_reads [OF hist _ assms(3) _ _ sha] work by (auto simp: work_ok_def HISTORY_BUDGET_def)
  have "list_all (hashed sha) R" using work by (simp add: work_ok_def)
  note r = records_assemble [OF h(4) this, of "sha (hr_encoded ?now)"]
  show ?thesis
  proof (rule that [OF saved(2) _ saved(4,3)])
    show "read_base (map (framed sha) ?m) = Inr (framed sha (''document.bin'', True, hr_encoded ?now), h)"
      using find_framed [OF m(1,2)] find_framed [OF m(1), of "''history.bin''" history] m(3) h(1) by (simp add: read_base_def)
  qed (use r h(2,3) now(2) in \<open>auto simp: hashed_def\<close>)
qed

section \<open>A step is read as it was written\<close>

fun added_bytes :: "held \<times> bool \<Rightarrow> bytes" where
  "added_bytes ((i, checksum), as_kept) = push_u64 i @ checksum @ push_u8 (boolean_byte as_kept)"

definition step_content :: "step \<Rightarrow> bytes" where
  "step_content st =
     push_u32 (of_nat (sp_skip st)) @ push_u32 (of_nat (sp_keep st)) @ push_u32 (of_nat (sp_cursor st)) @
     push_u32 (of_nat (length (sp_added st))) @ concat (map added_bytes (sp_added st)) @ sp_history st"

definition step_ok :: "step \<Rightarrow> bool" where
  "step_ok st \<longleftrightarrow> sp_skip st < 2 ^ 32 \<and> sp_keep st < 2 ^ 32 \<and> sp_cursor st < 2 ^ 32 \<and>
     length (sp_added st) \<le> FILE_HISTORY_REVISIONS \<and> list_all (\<lambda>((_, checksum), _). length checksum = 32) (sp_added st)"

lemma reads_added: "length checksum = 32 \<Longrightarrow> reads read_added (added_bytes ((i, checksum), as_kept)) 0 0 ((i, checksum), as_kept)"
  unfolding read_added_def added_bytes.simps
  by (intro reads_u64_step reads_take_step reads_step_last [OF boolc.codec_reads [OF TrueI]] reads_return)

lemma step_written_reads:
  assumes "step_ok st" and len: "length (step_content st) < 2 ^ 64"
  shows "step_read (step_content st) = Inr st"
proof -
  let ?n = "length (sp_added st)" and ?ab = "concat (map added_bytes (sp_added st))"
  let ?r = "reader_new (step_content st)"
  have n: "?n < 2 ^ 32" "?n \<le> FILE_HISTORY_REVISIONS" "?n \<le> 500000" using assms(1) by (auto simp: step_ok_def FILE_HISTORY_REVISIONS_def)
  have r: "rest ?r = step_content st" by (simp add: reader_new_def)
  have "list_all2 (\<lambda>bs x. reads read_added bs 0 0 x) (map added_bytes (sp_added st)) (sp_added st)"
    using assms(1) reads_added by (auto simp: step_ok_def list_all_iff list_all2_map1 intro!: list.rel_refl_strong)
  note many = readsD [OF reads_many [OF this]]
  have last: "reader_ok (advance (16 + length ?ab) ?n 0 ?r)"
    using len n by (auto simp: reader_ok_def reader_new_def with_item_budget_def step_content_def MAX_COLLECTION_ITEMS_def)
  have ok: "reader_ok ?r" "reader_ok (advance 4 0 0 ?r)" "reader_ok (advance 8 0 0 ?r)" "reader_ok (advance 12 0 0 ?r)"
    "reader_ok (advance 16 ?n 0 ?r)"
    using reader_ok_le [OF last, of 0 0 0] by (auto intro: reader_ok_le [OF last])
  have "read_u32 ?r = Inr (of_nat (sp_skip st), advance 4 0 0 ?r)"
    unfolding u32c.dec_iff [OF ok(1)] r using ok by (simp add: step_content_def)
  moreover have "read_u32 (advance 4 0 0 ?r) = Inr (of_nat (sp_keep st), advance 8 0 0 ?r)"
    unfolding u32c.dec_iff [OF ok(2)] rest_advance r using ok by (simp add: step_content_def)
  moreover have "read_u32 (advance 8 0 0 ?r) = Inr (of_nat (sp_cursor st), advance 12 0 0 ?r)"
    unfolding u32c.dec_iff [OF ok(3)] rest_advance r using ok by (simp add: step_content_def)
  moreover have "count_with_limit FILE_HISTORY_REVISIONS (advance 12 0 0 ?r) = Inr (?n, advance 16 ?n 0 ?r)"
    unfolding countc.dec_iff [OF ok(4)] rest_advance r using ok n by (simp add: step_content_def)
  moreover have "read_many ?n read_added (advance 16 ?n 0 ?r) = Inr (sp_added st, advance (16 + length ?ab) ?n 0 ?r)"
    using many [of "advance 16 ?n 0 ?r"] last unfolding rest_advance r by (simp add: step_content_def)
  moreover have "drop (rd_cursor (advance (16 + length ?ab) ?n 0 ?r)) (step_content st) = sp_history st"
    by (simp add: reader_new_def with_item_budget_def step_content_def)
  ultimately show ?thesis
    using assms(1) by (simp add: step_read_def step_ok_def unat_of_nat_u32)
qed

section \<open>The log of steps\<close>

definition frame :: "bytes \<Rightarrow> bytes" where
  "frame bs = push_u64 (of_nat (length bs)) @ bs"

lemma length_frame [simp]: "length (frame bs) = 8 + length bs" and frame_Nil [simp]: "frame bs \<noteq> []"
  by (auto simp: frame_def dest: arg_cong [where f = length])

definition holds_step :: "(bytes \<Rightarrow> bytes) \<Rightarrow> bytes \<Rightarrow> bytes \<Rightarrow> bool" where
  "holds_step sha bs body \<longleftrightarrow> container_entries sha bs = Inr [(STEP_ENTRY, True, body)]"

lemma encoded_step:
  assumes "encode_container sha [(STEP_ENTRY, True, body)] = Inr bs" and "length bs < 2 ^ 64" and "\<And>b. length (sha b) = 32"
  shows "holds_step sha bs body" and "length body \<le> length bs"
proof -
  have "list_all is_ascii STEP_ENTRY" by (simp add: is_ascii_def STEP_ENTRY_def)
  then have "valid_utf8 STEP_ENTRY" using valid_utf8_ascii_append [of _ "[]"] by (auto simp: valid_utf8_def)
  with encoded_entries [OF _ _ assms(3,1,2)] show "holds_step sha bs body"
    by (simp add: holds_step_def entries_items_def STEP_ENTRY_def MAX_COLLECTION_ITEMS_def)
  show "length body \<le> length bs" by (rule saved_content_length [OF assms(1)]) simp
qed

lemma read_step_framed:
  assumes "holds_step sha bs body" and "reader_ok r" and "rest r = frame bs @ tail"
  shows "read_step sha r = Inr (body, advance (length (frame bs)) 0 0 r)"
proof -
  let ?n = "length bs"
  have "?n + 8 \<le> length (rest r)" using assms(3) by (simp add: frame_def)
  then have ok: "reader_ok (advance 8 0 0 r)" "reader_ok (advance (8 + ?n) 0 0 r)" "?n < 2 ^ 64"
    using assms(2) by (auto simp: reader_ok_def rest_def)
  have "read_u64 r = Inr (of_nat ?n, advance 8 0 0 r)"
    unfolding u64c.dec_iff [OF assms(2)] using ok assms(3) by (simp add: frame_def)
  moreover have "take_bytes ?n (advance 8 0 0 r) = Inr (bs, advance (8 + ?n) 0 0 r)"
    unfolding taking.dec_iff [OF ok(1)] using ok assms(3) by (simp add: frame_def)
  ultimately show ?thesis
    using assms(1) ok(3) by (simp add: read_step_def holds_step_def unat_of_nat_u64 bt_remove_def frame_def)
qed

text \<open>A frame that is cut short is not read as a step.\<close>

lemma read_step_torn:
  assumes "reader_ok r" and "rest r = take k (frame bs)" and "k < length (frame bs)" and "length bs < 2 ^ 64"
  shows "\<exists>e. read_step sha r = Inl e"
proof (cases "k < 8")
  case True
  have "length (rest r) = k" using assms(2,3) by simp
  then have "rd_cursor r + 8 > length (rd_bytes r)" using True assms(1) by (auto simp: rest_def reader_ok_def)
  then have "\<exists>e. read_u64 r = Inl e" by (auto simp: read_u64_def take_bytes_def checked_usize_def)
  then show ?thesis by (auto simp: read_step_def)
next
  case False
  let ?n = "length bs"
  have k: "k < 8 + ?n" using assms(3) by (simp add: frame_def)
  have rest: "rest r = push_u64 (of_nat ?n) @ take (k - 8) bs" using assms(2) False by (simp add: frame_def)
  then have len: "length (rd_bytes r) = rd_cursor r + k" using assms(1) False k by (auto simp: rest_def reader_ok_def dest: arg_cong [where f = length])
  have ok: "reader_ok (advance 8 0 0 r)" using assms(1) False len by (auto simp: reader_ok_def)
  have "read_u64 r = Inr (of_nat ?n, advance 8 0 0 r)"
    unfolding u64c.dec_iff [OF assms(1)] using ok rest by simp
  moreover have "\<exists>e. take_bytes (unat (of_nat ?n :: u64)) (advance 8 0 0 r) = Inl e"
    unfolding unat_of_nat_u64 [OF assms(4)] using len k by (auto simp: take_bytes_def checked_usize_def)
  ultimately show ?thesis by (auto simp: read_step_def)
qed

lemma read_steps_from_frames:
  assumes "list_all2 (holds_step sha) fs bodies" and "reader_ok r" and "rest r = concat (map frame fs) @ tail"
  shows "read_steps_from sha r =
    (case read_steps_from sha (advance (length (concat (map frame fs))) 0 0 r) of (steps, damaged) \<Rightarrow> (bodies @ steps, damaged))"
  using assms
proof (induction fs bodies arbitrary: r rule: list_all2_induct)
  case Nil
  then show ?case by (simp split: prod.splits)
next
  case (Cons f fs b bodies)
  let ?r = "advance (length (frame f)) 0 0 r"
  have step: "read_step sha r = Inr (b, ?r)" using read_step_framed [OF Cons.hyps(1) Cons.prems(1)] Cons.prems(2) by simp
  have ok: "reader_ok ?r" using read_step_moves(3) [OF step] Cons.prems(1) by (auto simp: reader_ok_def)
  have "\<not> is_finished r" using Cons.prems by (simp add: is_finished_iff)
  with step Cons.IH [OF ok] Cons.prems(2) show ?case
    by (subst read_steps_from.simps) (auto simp: split: prod.splits)
qed

lemma read_steps_frames:
  assumes "list_all2 (holds_step sha) fs bodies" and "length (concat (map frame fs) @ tail) < 2 ^ 64"
  shows "tail = [] \<Longrightarrow> read_steps sha (concat (map frame fs) @ tail) = (bodies, None)"
    and "tail = take k (frame bs) \<Longrightarrow> 0 < k \<Longrightarrow> k < length (frame bs) \<Longrightarrow> length bs < 2 ^ 64 \<Longrightarrow>
      \<exists>e. read_steps sha (concat (map frame fs) @ tail) = (bodies, Some e)"
proof -
  let ?log = "concat (map frame fs) @ tail"
  let ?r = "advance (length (concat (map frame fs))) 0 0 (reader_new ?log)"
  have new: "reader_ok (reader_new ?log)" "rest (reader_new ?log) = ?log"
    using assms(2) by (auto simp: reader_new_def MAX_COLLECTION_ITEMS_def)
  have all: "read_steps sha ?log = (case read_steps_from sha ?r of (steps, damaged) \<Rightarrow> (bodies @ steps, damaged))"
    unfolding read_steps_def by (rule read_steps_from_frames [OF assms(1) new])
  have "reader_ok ?r" using assms(2) by (auto simp: reader_ok_def reader_new_def with_item_budget_def MAX_COLLECTION_ITEMS_def)
  moreover have "rest ?r = tail" by (simp add: new(2))
  ultimately have r: "reader_ok ?r" "rest ?r = tail" by simp_all
  show "read_steps sha ?log = (bodies, None)" if "tail = []"
    unfolding all using r that by (subst read_steps_from.simps) (simp add: is_finished_iff)
  assume t: "tail = take k (frame bs)" "0 < k" "k < length (frame bs)" "length bs < 2 ^ 64"
  obtain e where "read_step sha ?r = Inl e" using read_step_torn [OF r(1) _ t(3,4)] r(2) t(1) by auto
  moreover have "tail \<noteq> []" using t by simp
  ultimately show "\<exists>e. read_steps sha ?log = (bodies, Some e)"
    unfolding all using r by (subst read_steps_from.simps) (simp add: is_finished_iff)
qed

section \<open>Histories within the budget are kept whole\<close>

lemma give_up_none: "held \<le> budget \<Longrightarrow> give_up budget is held slots = slots"
  by (cases "is") auto

lemma give_up_oldest_none:
  "sum_list (map (\<lambda>r. length (hr_encoded r)) R) \<le> budget \<Longrightarrow> give_up_oldest budget cursor (map Some R) = map Some R"
  by (simp add: give_up_oldest_def give_up_none comp_def slot_weight_def)

lemma finish_whole:
  assumes "cursor < length R" and "assembled_file sha side next (R ! cursor) R cursor = Inr bs"
  shows "finish_assembly sha side \<lparr>ay_revisions = map Some R, ay_cursor = cursor, ay_next_revision_id = next\<rparr> = Inr bs"
proof -
  have "takeWhile (\<lambda>slot. slot = None) (map Some R) = []" by (cases R) auto
  moreover have "takeWhile (\<lambda>slot. \<exists>y. slot = Some y) (map Some R) = map Some R" by (induction R) auto
  ultimately show ?thesis using assms by (simp add: finish_assembly_def Let_def comp_def del: takeWhile_eq_all_conv)
qed

section \<open>What a checkpoint holds\<close>

definition assembly_of :: "bytes history_revision list \<Rightarrow> nat \<Rightarrow> u64 \<Rightarrow> assembly" where
  "assembly_of R cursor next = \<lparr>ay_revisions = map Some R, ay_cursor = cursor, ay_next_revision_id = next\<rparr>"

definition checkpoint_header :: "file_identity \<Rightarrow> bytes \<Rightarrow> bytes" where
  "checkpoint_header base payload =
     WORK_RECOVERY_MAGIC @ push_u16 WORK_RECOVERY_SCHEMA @ push_u64 (fi_byte_len base) @ fi_sha256 base @
     push_u64 (of_nat (length payload)) @ payload"

text \<open>
  \<open>held_in\<close>: a checkpoint of the file \<open>base\<close> is a whole file and steps, and replaying the steps on the history of the file gives
  the history \<open>R\<close> with its cursor and next id; the entries beside the document are \<open>side\<close>.
\<close>

definition held_in ::
  "(bytes \<Rightarrow> bytes) \<Rightarrow> bytes set \<Rightarrow> file_identity \<Rightarrow> entry_map \<Rightarrow> bytes history_revision list \<Rightarrow> nat \<Rightarrow> u64 \<Rightarrow> bytes \<Rightarrow> bytes \<Rightarrow>
   bytes list \<Rightarrow> bool" where
  "held_in sha S base side R cursor next ck payload bodies \<longleftrightarrow>
     (\<exists>fs R\<^sub>0 cursor\<^sub>0 next\<^sub>0.
        ck = checkpoint_header base payload @ concat (map frame fs) \<and> list_all2 (holds_step sha) fs bodies \<and>
        good_side side \<and> work_ok sha S next\<^sub>0 R\<^sub>0 cursor\<^sub>0 \<and>
        assembled_file sha side next\<^sub>0 (R\<^sub>0 ! cursor\<^sub>0) R\<^sub>0 cursor\<^sub>0 = Inr payload \<and>
        replay sha assembly_budget 0 (assembly_of R\<^sub>0 cursor\<^sub>0 next\<^sub>0) bodies = (assembly_of R cursor next, None)) \<and>
     work_ok sha S next R cursor \<and> length ck < 2 ^ 64 \<and> length payload < 2 ^ 63 \<and> length (fi_sha256 base) = 32"

lemma length_recovery_magic [simp]: "length WORK_RECOVERY_MAGIC = 10"
  by (simp add: WORK_RECOVERY_MAGIC_def str_bytes_def)

lemma length_header [simp]: "length (fi_sha256 base) = 32 \<Longrightarrow> length (checkpoint_header base payload) = 60 + length payload"
  by (simp add: checkpoint_header_def)

text \<open>Both readers of the header find the identity, the whole file and the log.\<close>

lemma header_reads:
  assumes "length (fi_sha256 base) = 32" and "length (checkpoint_header base payload @ steps) < 2 ^ 64"
  shows "split_checkpoint (checkpoint_header base payload @ steps) = Some (base, payload, steps)"
    and "open_checkpoint w base (checkpoint_header base payload @ steps) =
      (if steps = [] then Inr (payload, None)
       else map_err UnusableDocument (assemble_checkpoint (rw_sha w) (rw_load_document w) payload steps))"
proof -
  let ?ck = "checkpoint_header base payload @ steps"
  define r where "r = reader_new ?ck"
  have parts: "rest r = WORK_RECOVERY_MAGIC @ push_u16 WORK_RECOVERY_SCHEMA @ push_u64 (fi_byte_len base) @ fi_sha256 base @
      push_u64 (of_nat (length payload)) @ payload @ steps"
    by (simp add: r_def reader_new_def checkpoint_header_def)
  have len: "60 + length payload + length steps < 2 ^ 64" using assms by simp
  have ok: "reader_ok (advance n 0 0 r)" if "n \<le> 60 + length payload" for n
    using that len assms(1) by (auto simp: r_def reader_ok_def reader_new_def with_item_budget_def MAX_COLLECTION_ITEMS_def)
  note oks = ok [of 0] ok [of 10] ok [of 12] ok [of 20] ok [of 52] ok [of 60] ok [of "60 + length payload"]
  have "take_bytes (length WORK_RECOVERY_MAGIC) r = Inr (WORK_RECOVERY_MAGIC, advance 10 0 0 r)"
    using oks by (subst taking.dec_iff) (simp_all add: parts assms(1))
  moreover have "read_u16 (advance 10 0 0 r) = Inr (WORK_RECOVERY_SCHEMA, advance 12 0 0 r)"
    using oks by (subst u16c.dec_iff) (simp_all add: parts assms(1))
  moreover have "read_u64 (advance 12 0 0 r) = Inr (fi_byte_len base, advance 20 0 0 r)"
    using oks by (subst u64c.dec_iff) (simp_all add: parts assms(1))
  moreover have "take_bytes 32 (advance 20 0 0 r) = Inr (fi_sha256 base, advance 52 0 0 r)"
    using oks by (subst taking.dec_iff) (simp_all add: parts assms(1))
  moreover have "read_u64 (advance 52 0 0 r) = Inr (of_nat (length payload), advance 60 0 0 r)"
    using oks by (subst u64c.dec_iff) (simp_all add: parts assms(1))
  moreover have "unat (of_nat (length payload) :: u64) = length payload" using len by (intro unat_of_nat_u64) simp
  moreover have "take_bytes (length payload) (advance 60 0 0 r) = Inr (payload, advance (60 + length payload) 0 0 r)"
    using oks by (subst taking.dec_iff) (simp_all add: parts assms(1))
  moreover have "rd_cursor r = 0" by (simp add: r_def reader_new_def with_item_budget_def)
  ultimately show "split_checkpoint ?ck = Some (base, payload, steps)"
    and "open_checkpoint w base ?ck = (if steps = [] then Inr (payload, None)
       else map_err UnusableDocument (assemble_checkpoint (rw_sha w) (rw_load_document w) payload steps))"
    by (simp_all add: assms(1) r_def [symmetric] split_checkpoint_def open_checkpoint_def ok_def WORK_RECOVERY_SCHEMA_def)
qed

text \<open>A checkpoint opens as the file of what it holds; one with a step that was cut short as the file before that step.\<close>

lemma assemble_held:
  assumes "held_in sha S base side R cursor next ck payload bodies" and "\<And>b. length (sha b) = 32" and "inj_on sha S"
    and "assembled_file sha side next (R ! cursor) R cursor = Inr file" and "read_steps sha log = (bodies, torn)"
  shows "assemble_checkpoint sha load_document payload log = Inr (file, map_option (Pair (length bodies)) torn)"
proof -
  from assms(1) obtain fs R\<^sub>0 cursor\<^sub>0 next\<^sub>0 where
    ck: "ck = checkpoint_header base payload @ concat (map frame fs)" "list_all2 (holds_step sha) fs bodies" "good_side side"
    and base: "work_ok sha S next\<^sub>0 R\<^sub>0 cursor\<^sub>0" "assembled_file sha side next\<^sub>0 (R\<^sub>0 ! cursor\<^sub>0) R\<^sub>0 cursor\<^sub>0 = Inr payload"
    and replay: "replay sha assembly_budget 0 (assembly_of R\<^sub>0 cursor\<^sub>0 next\<^sub>0) bodies = (assembly_of R cursor next, None)"
    and work: "work_ok sha S next R cursor" and len: "length ck < 2 ^ 64" "length (fi_sha256 base) = 32"
    by (auto simp: held_in_def)
  show ?thesis
  proof (cases "bodies = []")
    case True
    with replay have "R = R\<^sub>0" "cursor = cursor\<^sub>0" "next = next\<^sub>0" by (auto simp: assembly_of_def inj_map_eq_map)
    with base(2) assms(4,5) True show ?thesis by (cases torn) (auto simp: assemble_checkpoint_def)
  next
    case False
    have "length payload < 2 ^ 64" using len ck(1) by simp
    from base_reads [OF ck(3) assms(2,3) base this, of load_document]
    obtain entries document h where h: "container_directory payload = Inr entries" "read_base entries = Inr (document, h)"
      "side_of entries = side" "verify_checksums sha load_document payload = Inr ()"
      "try_map (of_record sha (ph_chunks h) (ce_checksum document)) (ph_records h) = Inr R\<^sub>0"
      "ph_cursor h = cursor\<^sub>0" "ph_next_revision_id h = next\<^sub>0" by metis
    have "give_up_oldest assembly_budget cursor\<^sub>0 (map Some R\<^sub>0) = map Some R\<^sub>0"
      using base(1) by (intro give_up_oldest_none) (simp add: work_ok_def)
    moreover have "finish_assembly sha side (assembly_of R cursor next) = Inr file"
      unfolding assembly_of_def using work assms(4) by (intro finish_whole) (simp_all add: work_ok_def)
    ultimately show ?thesis using False h replay assms(5) by (cases torn) (simp_all add: assemble_checkpoint_def assembly_of_def)
  qed
qed

lemma held_opens:
  assumes "held_in (rw_sha w) S base side R cursor next ck payload bodies" and "\<And>b. length (rw_sha w b) = 32"
    and "inj_on (rw_sha w) S" and "assembled_file (rw_sha w) side next (R ! cursor) R cursor = Inr file"
  shows "open_checkpoint w base ck = Inr (file, None)"
    and "length (ck @ frame bs) < 2 ^ 64 \<Longrightarrow> 0 < k \<Longrightarrow> k < length (frame bs) \<Longrightarrow>
      \<exists>e. open_checkpoint w base (ck @ take k (frame bs)) = Inr (file, Some (length bodies, e))"
proof -
  from assms(1) obtain fs where ck: "ck = checkpoint_header base payload @ concat (map frame fs)"
    "list_all2 (holds_step (rw_sha w)) fs bodies" and len: "length ck < 2 ^ 64" "length (fi_sha256 base) = 32"
    by (auto simp: held_in_def)
  note assembled = assemble_held [OF assms]
  have "read_steps (rw_sha w) (concat (map frame fs) @ []) = (bodies, None)"
    using len ck(1) by (intro read_steps_frames(1) [OF ck(2)]) simp_all
  from assembled [OF this, of "rw_load_document w"] header_reads(2) [OF len(2), of payload "concat (map frame fs)" w] len ck
  show "open_checkpoint w base ck = Inr (file, None)"
    by (cases "fs = []") (auto simp: assemble_checkpoint_def read_steps_def read_steps_from.simps is_finished_def
        reader_new_def with_item_budget_def split: if_splits)
  assume t: "length (ck @ frame bs) < 2 ^ 64" "0 < k" "k < length (frame bs)"
  have "\<exists>e. read_steps (rw_sha w) (concat (map frame fs) @ take k (frame bs)) = (bodies, Some e)"
    using t len ck(1) by (intro read_steps_frames(2) [OF ck(2) _ refl]) simp_all
  then obtain e where "read_steps (rw_sha w) (concat (map frame fs) @ take k (frame bs)) = (bodies, Some e)" by blast
  from assembled [OF this, of "rw_load_document w"]
    header_reads(2) [OF len(2), of payload "concat (map frame fs) @ take k (frame bs)" w] t len ck(1)
  show "\<exists>e. open_checkpoint w base (ck @ take k (frame bs)) = Inr (file, Some (length bodies, e))" by auto
qed

section \<open>The plan of a checkpoint\<close>

text \<open>What a plan knows of a revision: its id and checksum, and its origin and name unless a step added it.\<close>

definition names :: "planned \<Rightarrow> bytes history_revision \<Rightarrow> bool" where
  "names p r \<longleftrightarrow>
     pn_held p = (hr_id r, hr_sha256 r) \<and> (pn_named p = None \<or> pn_named p = Some (hr_origin r, hr_checkpoint r))"

definition names_slot :: "planned \<Rightarrow> slot \<Rightarrow> bool" where
  "names_slot p slot \<longleftrightarrow> (case slot of None \<Rightarrow> True | Some r \<Rightarrow> names p r)"

definition plan_ok :: "(bytes \<Rightarrow> bytes) \<Rightarrow> file_identity \<Rightarrow> entry_map \<Rightarrow> bytes history_revision list \<Rightarrow> bytes \<Rightarrow> bytes \<Rightarrow> checkpoint_plan \<Rightarrow> bool" where
  "plan_ok sha base side R ck payload plan \<longleftrightarrow>
     cp_base_identity plan = base \<and> cp_len plan = length ck \<and> cp_payload_len plan = length payload \<and>
     cp_side plan = compared sha side \<and> list_all2 names (cp_held plan) R"

lemma names_slot_simps [simp]: "names_slot p None" "names_slot p (Some r) = names p r"
  by (simp_all add: names_slot_def)

lemma names_of: "names (planned_of r) r"
  by (simp add: names_def planned_of_def)

lemma names_all: "list_all2 names (map planned_of R) R"
  by (simp add: list_all2_map1 list.rel_refl names_of)

lemma give_up_names: "list_all2 names_slot held slots \<Longrightarrow> list_all2 names_slot held (give_up budget is n slots)"
proof (induction "is" arbitrary: n slots)
  case (Cons i "is")
  then have "list_all2 names_slot held (slots[i := None])"
    using list_all2_update_cong [of names_slot held slots "held ! i" None i] by simp
  with Cons show ?case by simp
qed simp

lemma added_names:
  assumes "try_map (added_revision sha parts program) (zip rcs xs) = Inr added" and "length added = length xs"
  shows "list_all2 names_slot (map (\<lambda>(h, _). \<lparr>pn_held = h, pn_named = None\<rparr>) xs) added"
  using assms
proof (induction rcs xs arbitrary: added rule: list_induct2')
  case (4 rc rcs x xs)
  then obtain slot slots where s: "added = slot # slots" "added_revision sha parts program (rc, x) = Inr slot"
    "try_map (added_revision sha parts program) (zip rcs xs) = Inr slots"
    by (auto simp: result_simps)
  then have "names_slot \<lparr>pn_held = fst x, pn_named = None\<rparr> slot"
    by (auto simp: added_revision_def result_simps names_slot_def names_def Let_def split: prod.splits)
  with s 4 show ?case by (auto split: prod.splits)
qed auto

lemma plan_over_replays:
  assumes "replay_step sha budget a bs = Inr a'" and "list_all2 names_slot held (ay_revisions a)"
  shows "\<exists>held'. plan_over held bs = Inr held' \<and> list_all2 names_slot held' (ay_revisions a')"
proof -
  from assms(1) obtain st parts program rcs added revisions where st: "step_read bs = Inr st"
    and added: "try_map (added_revision sha parts program) (zip rcs (sp_added st)) = Inr added"
    and applied: "step_apply st (ay_revisions a) added = Inr revisions"
    and a': "ay_revisions a' = give_up_oldest budget (sp_cursor st) revisions"
    by (auto simp: replay_step_def result_simps)
  let ?new = "map (\<lambda>(h, _). \<lparr>pn_held = h, pn_named = None\<rparr>) (sp_added st)"
  have len: "length added = length (sp_added st)" "length held = length (ay_revisions a)"
    using applied list_all2_lengthD [OF assms(2)] by (auto simp: step_apply_def result_simps)
  have "step_apply st held ?new = Inr (take (sp_keep st) (drop (sp_skip st) held) @ ?new)"
    using applied len by (auto simp: step_apply_def result_simps)
  moreover have "list_all2 names_slot (take (sp_keep st) (drop (sp_skip st) held) @ ?new) revisions"
    using applied assms(2) added_names [OF added len(1)]
    by (auto simp: step_apply_def result_simps intro!: list_all2_appendI list_all2_takeI list_all2_dropI)
  ultimately show ?thesis using st by (auto simp: plan_over_def a' give_up_oldest_def give_up_names)
qed

lemma plan_replays:
  assumes "replay sha budget n a bodies = (a', None)" and "list_all2 names_slot held (ay_revisions a)"
  shows "\<exists>held'. try_fold plan_over held bodies = Inr held' \<and> list_all2 names_slot held' (ay_revisions a')"
  using assms
proof (induction bodies arbitrary: n a held)
  case (Cons b bodies)
  then obtain a1 where "replay_step sha budget a b = Inr a1" "replay sha budget (n + 1) a1 bodies = (a', None)"
    by (auto split: sum.splits)
  with Cons show ?case using plan_over_replays [of sha budget a b a1 held] by fastforce
qed simp

lemma held_plan:
  assumes "held_in sha S base side R cursor next ck payload bodies" and "\<And>b. length (sha b) = 32" and "inj_on sha S"
  shows "\<exists>plan. read_plan sha ck = Some plan \<and> plan_ok sha base side R ck payload plan"
proof -
  from assms(1) obtain fs R\<^sub>0 cursor\<^sub>0 next\<^sub>0 where
    ck: "ck = checkpoint_header base payload @ concat (map frame fs)" "list_all2 (holds_step sha) fs bodies" "good_side side"
    and base: "work_ok sha S next\<^sub>0 R\<^sub>0 cursor\<^sub>0" "assembled_file sha side next\<^sub>0 (R\<^sub>0 ! cursor\<^sub>0) R\<^sub>0 cursor\<^sub>0 = Inr payload"
    and replay: "replay sha assembly_budget 0 (assembly_of R\<^sub>0 cursor\<^sub>0 next\<^sub>0) bodies = (assembly_of R cursor next, None)"
    and len: "length ck < 2 ^ 64" "length (fi_sha256 base) = 32"
    by (auto simp: held_in_def)
  have "length payload < 2 ^ 64" using len ck(1) by simp
  from base_reads [OF ck(3) assms(2,3) base this]
  obtain entries document h where h: "container_directory payload = Inr entries" "read_base entries = Inr (document, h)"
    "side_of entries = side" "map (plan_record (ce_checksum document)) (ph_records h) = map planned_of R\<^sub>0" by metis
  have slots: "list_all2 names_slot held (map Some xs) = list_all2 names held xs" for held xs
    by (simp add: list_all2_map2 names_slot_def)
  from plan_replays [OF replay, of "map planned_of R\<^sub>0"] obtain held where
    held: "try_fold plan_over (map planned_of R\<^sub>0) bodies = Inr held" "list_all2 names held R"
    by (auto simp: assembly_of_def slots names_all)
  have "read_steps sha (concat (map frame fs) @ []) = (bodies, None)"
    using len ck(1) by (intro read_steps_frames(1) [OF ck(2)]) simp_all
  with header_reads(1) [OF len(2), of payload "concat (map frame fs)"] len(1) ck(1) h held show ?thesis
    by (simp add: read_plan_def plan_ok_def)
qed

section \<open>The step from one history to the next\<close>

lemma position_Some: "position P xs = Some i \<Longrightarrow> i < length xs \<and> P (xs ! i)"
  by (induction P xs arbitrary: i rule: position.induct) (auto split: if_splits)

lemma matching_le: "matching ps rs \<le> length ps" "matching ps rs \<le> length rs"
  by (induction ps rs rule: matching.induct) auto

lemma matching_is: "i < matching ps rs \<Longrightarrow> planned_is (rs ! i) (ps ! i)"
proof (induction ps rs arbitrary: i rule: matching.induct)
  case (1 p ps r rs)
  then show ?case by (cases i) (auto split: if_splits)
qed auto

text \<open>Two histories that agree on what a plan does not compare: a revision of one id and snapshot has one digest and one program.\<close>

definition same_work :: "bytes history_revision list \<Rightarrow> bytes history_revision list \<Rightarrow> bool" where
  "same_work R R' \<longleftrightarrow>
     (\<forall>r \<in> set R. \<forall>q \<in> set R'. hr_id r = hr_id q \<longrightarrow> hr_encoded r = hr_encoded q \<longrightarrow>
        hr_batch_digest r = hr_batch_digest q \<and> hr_program r = hr_program q)"

lemma kept_same:
  assumes "names p r" and "planned_is q p" and "hashed sha r" and "hashed sha q" and "inj_on sha S"
    and "hr_encoded r \<in> S" and "hr_encoded q \<in> S" and "same_work [r] [q]"
  shows "r = q"
proof -
  have "sha (hr_encoded r) = sha (hr_encoded q)" "hr_id r = hr_id q" "hr_origin r = hr_origin q" "hr_checkpoint r = hr_checkpoint q"
    "hr_sha256 r = hr_sha256 q"
    using assms(1-4) by (auto simp: names_def planned_is_def hashed_def split: option.splits)
  with assms(5-8) show ?thesis by (auto simp: same_work_def dest: inj_onD intro: history_revision.equality)
qed

lemma kept_part:
  assumes held: "list_all2 names held R" and "position (planned_is (hd R')) held = Some skip" and "R' \<noteq> []"
    and keep: "keep = matching (drop skip held) R'"
    and "list_all (hashed sha) R" and "list_all (hashed sha) R'" and "inj_on sha S" and "hr_encoded ` set R \<subseteq> S"
    and "hr_encoded ` set R' \<subseteq> S" and same: "same_work R R'"
  shows "0 < keep" and "skip + keep \<le> length R" and "keep \<le> length R'" and "take keep (drop skip R) = take keep R'"
proof -
  note len = list_all2_lengthD [OF held] and at = position_Some [OF assms(2)]
  from at assms(3) show "0 < keep" unfolding keep by (cases R') (auto simp: Cons_nth_drop_Suc [symmetric])
  show le: "skip + keep \<le> length R" "keep \<le> length R'"
    using matching_le [of "drop skip held" R'] at len by (auto simp: keep)
  have "R ! (skip + i) = R' ! i" if "i < keep" for i
  proof (rule kept_same [OF _ _ _ _ assms(7)])
    show "names (held ! (skip + i)) (R ! (skip + i))" using held that le by (simp add: list_all2_conv_all_nth len)
    show "planned_is (R' ! i) (held ! (skip + i))" using matching_is [of i "drop skip held" R'] that at by (simp add: keep)
    show "same_work [R ! (skip + i)] [R' ! i]" using same that le by (simp add: same_work_def)
  qed (use assms(5,6,8,9) that le in \<open>auto simp: list_all_length subset_iff\<close>)
  with le show "take keep (drop skip R) = take keep R'" by (intro nth_equalityI) auto
qed

lemma revisions_ok_shift: "revisions_ok i rs \<Longrightarrow> (0 < j \<Longrightarrow> 0 < i) \<Longrightarrow> revisions_ok j rs"
proof (induction rs arbitrary: i j)
  case (Cons r rs)
  have "revisions_ok (j + 1) rs" using Cons.IH [of "i + 1" "j + 1"] Cons.prems(1) by simp
  with Cons.prems show ?case by (auto simp: revision_ok_at_def origin_ok_def)
qed simp

lemma revisions_ok_drop: "revisions_ok i rs \<Longrightarrow> revisions_ok (i + k) (drop k rs)"
proof (induction rs arbitrary: i k)
  case (Cons r rs)
  then show ?case using Cons.IH [of "i + 1" "k - 1"] by (cases k) auto
qed simp

lemma revisions_ok_same:
  assumes "list_all2 (\<lambda>r q. hr_id r = hr_id q \<and> hr_batch_digest r = hr_batch_digest q \<and> hr_origin r = hr_origin q \<and>
      hr_checkpoint r = hr_checkpoint q) rs qs"
  shows "revisions_ok i rs \<longleftrightarrow> revisions_ok i qs"
  using assms
proof (induction rs qs arbitrary: i rule: list_all2_induct)
  case (Cons r rs q qs)
  have "list_all (\<lambda>q'. hr_id r < hr_id q' \<and> checkpoint_names r \<inter> checkpoint_names q' = {}) rs \<longleftrightarrow>
      list_all (\<lambda>q'. hr_id q < hr_id q' \<and> checkpoint_names q \<inter> checkpoint_names q' = {}) qs"
    using Cons.hyps(1) list_all2_lengthD [OF Cons.hyps(2)] Cons.hyps(2)
    by (auto simp: list_all_length list_all2_conv_all_nth checkpoint_names_def)
  with Cons show ?case by (simp add: revision_ok_at_def)
qed simp

lemma planned_assembled [simp]:
  "planned_is (assembled_of json r) p = planned_is r p" "planned_of (assembled_of json r) = planned_of r"
  "matching ps (map (assembled_of json) rs) = matching ps rs"
proof -
  show p: "planned_is (assembled_of json r) p = planned_is r p" for r p by (simp add: planned_is_def split: option.splits)
  show "matching ps (map (assembled_of json) rs) = matching ps rs"
    by (induction ps rs rule: matching.induct) (simp_all add: p)
qed (simp add: planned_of_def)

text \<open>What a step writes of a revision: its program is left out where it is the kept one's.\<close>

definition added_as :: "(rule_program_source \<Rightarrow> bytes) \<Rightarrow> rule_program_source history_revision \<Rightarrow> rule_program_source history_revision \<Rightarrow> bytes history_revision" where
  "added_as json kept r =
     (assembled_of json r) \<lparr>hr_program := if same_program rule_program_eq r kept then None else map_option json (hr_program r)\<rparr>"

definition added_held :: "rule_program_source history_revision \<Rightarrow> rule_program_source history_revision \<Rightarrow> held \<times> bool" where
  "added_held kept r = ((hr_id r, hr_sha256 r), same_program rule_program_eq r kept)"

lemma added_as_fields [simp]:
  "hr_id (added_as json kept r) = hr_id r" "hr_batch_digest (added_as json kept r) = hr_batch_digest r"
  "hr_origin (added_as json kept r) = hr_origin r" "hr_checkpoint (added_as json kept r) = hr_checkpoint r"
  "hr_encoded (added_as json kept r) = hr_encoded r" "hr_sha256 (added_as json kept r) = hr_sha256 r"
  "hashed sha (added_as json kept r) = hashed sha r"
  by (simp_all add: added_as_def hashed_def)

lemma hashed_assembled [simp]: "hashed sha (assembled_of json r) = hashed sha r"
  by (simp add: hashed_def)

lemma encoded_program_json: "encoded_program (\<lambda>p. Inr (json p)) x = Inr y \<Longrightarrow> y = map_option json x"
  by (auto simp: encoded_program_def result_simps split: option.splits)

lemma written_added_Inr:
  assumes "try_map (written_added (\<lambda>p. Inr (json p)) kept) xs = Inr added"
  shows "map snd added = map (added_as json kept) xs" and "map fst added = map (added_bytes \<circ> added_held kept) xs"
proof -
  have one: "snd y = added_as json kept r \<and> fst y = added_bytes (added_held kept r)"
    if "written_added (\<lambda>p. Inr (json p)) kept r = Inr y" for r y
    using that by (auto simp: written_added_def of_revision_def result_simps Let_def added_as_def added_held_def assembled_of_def
        split: if_splits dest!: encoded_program_json)
  have "list_all2 (\<lambda>r y. snd y = added_as json kept r \<and> fst y = added_bytes (added_held kept r)) xs added"
    using assms one by (auto simp: try_map_Inr elim!: list_all2_mono)
  then show "map snd added = map (added_as json kept) xs" "map fst added = map (added_bytes \<circ> added_held kept) xs"
    by (induction rule: list_all2_induct) simp_all
qed

definition step_for ::
  "nat \<Rightarrow> nat \<Rightarrow> nat \<Rightarrow> rule_program_source history_revision list \<Rightarrow> bytes \<Rightarrow> step" where
  "step_for skip keep cursor rs history =
     \<lparr>sp_skip = skip, sp_keep = keep, sp_cursor = cursor, sp_added = map (added_held (rs ! (keep - 1))) (drop keep rs), sp_history = history\<rparr>"

lemma step_bytes_Inr:
  assumes "step_bytes w skip keep document rs = Inr bs" and "rw_json w = (\<lambda>p. Inr (json p))"
  obtains history where
    "encode_history (rw_sha w) Ok (=) ((assembled_of json (rs ! (keep - 1))) \<lparr>hr_program := None\<rparr> # map (added_as json (rs ! (keep - 1))) (drop keep rs))
      0 (ds_next_revision_id document) (hr_encoded (rs ! (keep - 1))) HISTORY_BUDGET = Inr history"
    "encode_container (rw_sha w) [(STEP_ENTRY, True, step_content (step_for skip keep (ds_cursor document) rs history))] = Inr bs"
    "skip < 2 ^ 32" "keep < 2 ^ 32" "ds_cursor document < 2 ^ 32"
proof -
  let ?kept = "rs ! (keep - 1)"
  from assms obtain added history where n: "skip < 2 ^ 32" "keep < 2 ^ 32" "ds_cursor document < 2 ^ 32"
    and a: "try_map (written_added (\<lambda>p. Inr (json p)) ?kept) (drop keep rs) = Inr added"
    and h: "encode_history (rw_sha w) Ok (=) (\<lparr>hr_id = hr_id ?kept, hr_batch_digest = hr_batch_digest ?kept, hr_origin = hr_origin ?kept,
        hr_checkpoint = hr_checkpoint ?kept, hr_program = None, hr_encoded = hr_encoded ?kept, hr_sha256 = hr_sha256 ?kept\<rparr> # map snd added)
      0 (ds_next_revision_id document) (hr_encoded ?kept) HISTORY_BUDGET = Inr history"
    and c: "encode_container (rw_sha w) [(STEP_ENTRY, True, push_u32 (of_nat skip) @ push_u32 (of_nat keep) @
        push_u32 (of_nat (ds_cursor document)) @ push_u32 (of_nat (length rs - keep)) @ concat (map fst added) @ history)] = Inr bs"
    by (auto simp: step_bytes_def of_revision_def u32_count_def result_simps Let_def split: if_splits)
  note w = written_added_Inr [OF a]
  show ?thesis
  proof (rule that [OF _ _ n])
    show "encode_history (rw_sha w) Ok (=) ((assembled_of json ?kept) \<lparr>hr_program := None\<rparr> # map (added_as json ?kept) (drop keep rs))
      0 (ds_next_revision_id document) (hr_encoded ?kept) HISTORY_BUDGET = Inr history"
      using h by (simp add: w(1) assembled_of_def)
  qed (use c in \<open>simp add: step_content_def step_for_def w(2) comp_def\<close>)
qed

lemma added_reads:
  assumes "records_match sha Inr doc parts 0 index (map (added_as json kept) xs) rcs" and "0 < index" and "list_all (hashed sha) xs"
    and "\<And>r. r \<in> set xs \<Longrightarrow> same_program rule_program_eq r kept \<Longrightarrow> map_option json (hr_program r) = map_option json (hr_program kept)"
  shows "try_map (added_revision sha parts (map_option json (hr_program kept))) (zip rcs (map (added_held kept) xs)) =
      Inr (map Some (map (assembled_of json) xs)) \<and>
    map (\<lambda>rc. snapshot_len (rc_encoded_snapshot rc)) rcs = map (\<lambda>r. length (hr_encoded r)) xs"
  using assms
proof (induction xs arbitrary: index rcs)
  case Nil
  then show ?case by (cases rcs) auto
next
  case (Cons r xs)
  then obtain c cs where rcs: "rcs = c # cs" "record_matches sha Inr doc parts False (added_as json kept r) c"
    "records_match sha Inr doc parts 0 (index + 1) (map (added_as json kept) xs) cs"
    by (cases rcs) auto
  have "of_record sha parts (replicate 32 0) c = Inr (added_as json kept r)"
    using record_assembles(1) [OF rcs(2), of "replicate 32 0"] Cons.prems(3) by simp
  moreover have "(added_as json kept r) \<lparr>hr_program := map_option json (hr_program kept)\<rparr> = assembled_of json r"
    if "same_program rule_program_eq r kept"
    using Cons.prems(4) [of r] that by (simp add: added_as_def assembled_of_def)
  moreover have "\<not> same_program rule_program_eq r kept \<Longrightarrow> added_as json kept r = assembled_of json r"
    by (simp add: added_as_def assembled_of_def)
  ultimately have "added_revision sha parts (map_option json (hr_program kept)) (c, added_held kept r) = Inr (Some (assembled_of json r))"
    by (simp add: added_revision_def added_held_def Let_def)
  moreover have "snapshot_len (rc_encoded_snapshot c) = length (hr_encoded r)"
    using rcs(2) by (auto simp: record_matches_def snapshot_len_def)
  ultimately show ?case using Cons.IH [OF rcs(3)] Cons.prems by (simp add: rcs(1))
qed

lemma add_lens:
  "n + sum_list (map (\<lambda>rc. snapshot_len (rc_encoded_snapshot rc)) rcs) < 2 ^ 64 \<Longrightarrow>
    try_fold add_len n rcs = Inr (n + sum_list (map (\<lambda>rc. snapshot_len (rc_encoded_snapshot rc)) rcs))"
  by (induction rcs arbitrary: n) (auto simp: add_len_def checked_usize_def add.assoc)

lemma same_program_json:
  assumes "programs_faithful json rs" and "r \<in> set rs" and "q \<in> set rs" and "same_program rule_program_eq r q"
  shows "map_option json (hr_program r) = map_option json (hr_program q)"
  using assms by (fastforce simp: same_program_def programs_faithful_def split: option.splits)

lemma sum_list_drop: "sum_list (map f (drop n xs)) \<le> (sum_list (map f xs) :: nat)"
  using sum_list_append [of "map f (take n xs)" "map f (drop n xs)"] by (simp flip: map_append)

text \<open>The history of a step reads to the kept revision and the added ones.\<close>

lemma step_history_reads:
  assumes "encode_history sha Ok (=) ((assembled_of json kept) \<lparr>hr_program := None\<rparr> # map (added_as json kept) xs) 0 next
      (hr_encoded kept) HISTORY_BUDGET = Inr history" and "length history < 2 ^ 64"
    and rs: "drop k rs = kept # xs" and sha: "\<And>b. length (sha b) = 32" and "inj_on sha S"
    and work: "work_ok sha S next (map (assembled_of json) rs) cursor" and faithful: "programs_faithful json rs"
  obtains h where "read_history_records history (hr_encoded kept) HISTORY_BUDGET False = Inr h" "ph_next_revision_id h = next"
    "rc_revision_id (hd (ph_records h)) = hr_id kept"
    "try_map (added_revision sha (ph_chunks h) (map_option json (hr_program kept))) (zip (tl (ph_records h)) (map (added_held kept) xs)) =
      Inr (map Some (map (assembled_of json) xs))"
    "try_fold add_len 0 (tl (ph_records h)) = Inr (sum_list (map (\<lambda>r. length (hr_encoded r)) xs))"
    "sum_list (map (\<lambda>r. length (hr_encoded r)) xs) \<le> assembly_budget"
proof -
  let ?first = "(assembled_of json kept) \<lparr>hr_program := None\<rparr>" and ?R = "map (assembled_of json) rs"
  let ?written = "?first # map (added_as json kept) xs"
  have sub: "set (kept # xs) \<subseteq> set rs" using set_drop_subset [of k rs] by (simp add: rs)
  have hashed: "list_all (hashed sha) rs" and all: "\<Union> (revision_contents sha Inr ` set ?R) \<subseteq> S"
    using work by (auto simp: work_ok_def list_all_iff)
  have keep: "revision_contents sha Inr (assembled_of json r) \<subseteq> S" if "r \<in> set (kept # xs)" for r
    using all sub that by (auto simp: subset_iff)
  have "revisions_ok 0 (drop k ?R)" using revisions_ok_drop [of 0 ?R k] work revisions_ok_shift by (fastforce simp: work_ok_def)
  moreover have "revisions_ok 0 (drop k ?R) = revisions_ok 0 ?written"
    by (rule revisions_ok_same) (simp add: drop_map rs list_all2_map1 list_all2_map2 list.rel_refl)
  ultimately have ok: "revisions_ok 0 ?written" by simp
  have "last (kept # xs) = last rs" using rs last_drop [of k rs] by (metis last_drop list.distinct(1) drop_eq_Nil not_le)
  moreover have "hr_id (last ?R) < next" "rs \<noteq> []" using work rs by (auto simp: work_ok_def)
  moreover have "hr_id (last ?written) = hr_id (last (kept # xs))" by (cases xs rule: rev_cases) auto
  ultimately have below: "hr_id (last ?written) < next" by (simp add: last_map)
  have "revision_contents sha Inr (added_as json kept r) \<subseteq> revision_contents sha Inr (assembled_of json r)"
    "revision_contents sha Inr ?first \<subseteq> revision_contents sha Inr (assembled_of json kept)" for r
    by (auto simp: revision_contents_def added_as_def)
  then have "\<Union> (revision_contents sha Inr ` set ?written) \<subseteq> S" using keep by fastforce
  moreover have "contents sha (hr_encoded kept) \<subseteq> S" using keep [of kept] by (simp add: revision_contents_def)
  moreover have "list_all (hashed sha) ?written" using hashed sub by (auto simp: list_all_iff hashed_def)
  moreover have "successively (programs_agree (=) Inr) ?written"
    by (auto simp: programs_agree_def successively_conv_nth split: option.splits)
  ultimately obtain h where h: "read_history_records history (hr_encoded kept) HISTORY_BUDGET False = Inr h"
    "ph_next_revision_id h = next" "records_match sha Inr (hr_encoded kept) (ph_chunks h) 0 0 ?written (ph_records h)"
    using written_history_reads [OF assms(1,2,5) _ _ sha _ ok below] by (auto simp: HISTORY_BUDGET_def)
  from h(3) obtain c cs where c: "ph_records h = c # cs" "rc_revision_id c = hr_id kept"
    "records_match sha Inr (hr_encoded kept) (ph_chunks h) 0 1 (map (added_as json kept) xs) cs"
    by (cases "ph_records h") (auto simp: record_matches_def)
  have "map_option json (hr_program r) = map_option json (hr_program kept)"
    if "r \<in> set xs" "same_program rule_program_eq r kept" for r
    using same_program_json [OF faithful] sub that by auto
  from added_reads [OF c(3) _ _ this] hashed sub
  have a: "try_map (added_revision sha (ph_chunks h) (map_option json (hr_program kept))) (zip cs (map (added_held kept) xs)) =
      Inr (map Some (map (assembled_of json) xs))"
    "map (\<lambda>rc. snapshot_len (rc_encoded_snapshot rc)) cs = map (\<lambda>r. length (hr_encoded r)) xs"
    by (auto simp: list_all_iff)
  have "sum_list (map (\<lambda>r. length (hr_encoded r)) xs) \<le> sum_list (map (\<lambda>r. length (hr_encoded r)) (drop k rs))" by (simp add: rs)
  also have "\<dots> \<le> assembly_budget" using sum_list_drop [of "\<lambda>r. length (hr_encoded r)" k rs] work by (simp add: work_ok_def comp_def)
  finally have le: "sum_list (map (\<lambda>r. length (hr_encoded r)) xs) \<le> assembly_budget" .
  then have "try_fold add_len 0 cs = Inr (sum_list (map (\<lambda>r. length (hr_encoded r)) xs))"
    using add_lens [of 0 cs] by (simp add: a(2) assembly_budget_def HISTORY_BUDGET_def)
  with le a(1) h(1,2) c(1,2) show ?thesis by (intro that [OF h(1,2)]) simp_all
qed

lemma step_replays:
  assumes enc: "encode_history sha Ok (=) ((assembled_of json (rs ! (keep - 1))) \<lparr>hr_program := None\<rparr> #
      map (added_as json (rs ! (keep - 1))) (drop keep rs)) 0 next (hr_encoded (rs ! (keep - 1))) HISTORY_BUDGET = Inr history"
    and len: "length (step_content (step_for skip keep cursor rs history)) < 2 ^ 64"
    and n: "skip < 2 ^ 32" "keep < 2 ^ 32" "cursor < 2 ^ 32"
    and sha: "\<And>b. length (sha b) = 32" and "inj_on sha S"
    and work: "work_ok sha S next (map (assembled_of json) rs) cursor" and faithful: "programs_faithful json rs"
    and kept: "0 < keep" "skip + keep \<le> length R" "keep \<le> length rs" "take keep (drop skip R) = take keep (map (assembled_of json) rs)"
  shows "replay_step sha assembly_budget (assembly_of R c m) (step_content (step_for skip keep cursor rs history)) =
    Inr (assembly_of (map (assembled_of json) rs) cursor next)"
proof -
  let ?st = "step_for skip keep cursor rs history" and ?kept = "rs ! (keep - 1)" and ?R = "map (assembled_of json) rs"
  have rs: "drop (keep - 1) rs = ?kept # drop keep rs" using Cons_nth_drop_Suc [of "keep - 1" rs] kept(1,3) by simp
  have small: "length (drop keep rs) \<le> FILE_HISTORY_REVISIONS" using enc by (auto simp: encode_history_def result_simps)
  have "list_all (\<lambda>r. length (hr_sha256 r) = 32) rs" using work sha by (auto simp: work_ok_def list_all_iff hashed_def)
  then have "step_ok ?st" using n small by (auto simp: step_ok_def step_for_def added_held_def list_all_iff dest: in_set_dropD)
  note st = step_written_reads [OF this len]
  have "length history < 2 ^ 64" using len by (simp add: step_content_def step_for_def)
  from step_history_reads [OF enc this rs sha assms(7) work faithful]
  obtain h where h: "read_history_records history (hr_encoded ?kept) HISTORY_BUDGET False = Inr h" "ph_next_revision_id h = next"
    "rc_revision_id (hd (ph_records h)) = hr_id ?kept"
    "try_map (added_revision sha (ph_chunks h) (map_option json (hr_program ?kept)))
      (zip (tl (ph_records h)) (map (added_held ?kept) (drop keep rs))) = Inr (map Some (map (assembled_of json) (drop keep rs)))"
    "try_fold add_len 0 (tl (ph_records h)) = Inr (sum_list (map (\<lambda>r. length (hr_encoded r)) (drop keep rs)))"
    "sum_list (map (\<lambda>r. length (hr_encoded r)) (drop keep rs)) \<le> assembly_budget" by metis
  have "take keep (drop skip R) ! (keep - 1) = assembled_of json ?kept" unfolding kept(4) using kept(1,3) by simp
  then have at: "map Some R ! (skip + keep - 1) = Some (assembled_of json ?kept)" using kept(1,2) by simp
  have cur: "cursor < length rs" using work by (simp add: work_ok_def)
  have "map Some R ! (skip + cursor) \<noteq> None" if "cursor < keep" using kept(2) that by simp
  moreover have "step_apply ?st (map Some R) (map Some (map (assembled_of json) (drop keep rs))) = Inr (map Some ?R)"
  proof -
    have "take keep (drop skip (map Some R)) = map Some (take keep ?R)" using kept(4) by (simp add: drop_map take_map)
    moreover have "map Some (take keep ?R) @ map Some (map (assembled_of json) (drop keep rs)) = map Some ?R"
      by (simp add: take_map flip: map_append)
    ultimately show ?thesis using kept(1-3) cur by (simp add: step_apply_def step_kept_def step_for_def)
  qed
  moreover have "give_up_oldest assembly_budget cursor (map Some ?R) = map Some ?R"
    using work by (intro give_up_oldest_none) (simp add: work_ok_def)
  ultimately show ?thesis
    using st h at kept(1,2)
    by (simp add: replay_step_def step_kept_def assembly_of_def) (simp add: step_for_def)
qed

lemma replay_append:
  "replay sha budget n a bodies = (a', None) \<Longrightarrow> replay_step sha budget a' b = Inr a'' \<Longrightarrow> replay sha budget n a (bodies @ [b]) = (a'', None)"
  by (induction bodies arbitrary: n a) (auto split: sum.splits)

lemma held_in_step:
  assumes "held_in sha S base side R cursor next ck payload bodies" and "holds_step sha bs body"
    and "replay_step sha assembly_budget (assembly_of R cursor next) body = Inr (assembly_of R' cursor' next')"
    and "work_ok sha S next' R' cursor'" and "length (ck @ frame bs) < 2 ^ 64"
  shows "held_in sha S base side R' cursor' next' (ck @ frame bs) payload (bodies @ [body])"
proof -
  from assms(1) obtain fs R\<^sub>0 cursor\<^sub>0 next\<^sub>0 where
    ck: "ck = checkpoint_header base payload @ concat (map frame fs)" "list_all2 (holds_step sha) fs bodies" "good_side side"
    "work_ok sha S next\<^sub>0 R\<^sub>0 cursor\<^sub>0" "assembled_file sha side next\<^sub>0 (R\<^sub>0 ! cursor\<^sub>0) R\<^sub>0 cursor\<^sub>0 = Inr payload"
    "replay sha assembly_budget 0 (assembly_of R\<^sub>0 cursor\<^sub>0 next\<^sub>0) bodies = (assembly_of R cursor next, None)"
    "length (fi_sha256 base) = 32" "length payload < 2 ^ 63" by (auto simp: held_in_def)
  from replay_append [OF ck(6) assms(3)] ck assms(2,4,5) show ?thesis
    unfolding held_in_def
    by (intro conjI exI [of _ "fs @ [bs]"] exI [of _ R\<^sub>0] exI [of _ cursor\<^sub>0] exI [of _ next\<^sub>0]) (auto intro: list_all2_appendI)
qed

lemma held_in_whole:
  assumes "good_side side" and "work_ok sha S next R cursor" and "assembled_file sha side next (R ! cursor) R cursor = Inr payload"
    and "length payload < 2 ^ 63" and "length (fi_sha256 base) = 32"
  shows "held_in sha S base side R cursor next (checkpoint_header base payload) payload []"
  unfolding held_in_def using assms by (auto intro!: exI [of _ "[]"] exI [of _ R] exI [of _ cursor] exI [of _ "next"])

section \<open>Documents that are written\<close>

definition history_of ::
  "'r recovery_world \<Rightarrow> (rule_program_source \<Rightarrow> bytes) \<Rightarrow> ('r, 'f) document_store \<Rightarrow> bytes history_revision list" where
  "history_of w json document = map (assembled_of json) (map (store_revision (rw_sha w) (rw_encode w)) (ds_revisions document))"

definition saved_file ::
  "'r recovery_world \<Rightarrow> ('r, 'f) document_store \<times> container_data \<Rightarrow> persistence_error + bytes" where
  "saved_file w x = (case x of (document, d) \<Rightarrow> save_document_store (rw_sha w) (rw_json w) (rw_encode w) (rw_imported w) document d)"

definition side_of_write :: "'r recovery_world \<Rightarrow> ('r, 'f) document_store \<times> container_data \<Rightarrow> persistence_error + entry_map" where
  "side_of_write w x = (case x of (document, d) \<Rightarrow> side_entries d (history_imported_sources (rw_imported w) document))"

definition writable ::
  "'r recovery_world \<Rightarrow> (rule_program_source \<Rightarrow> bytes) \<Rightarrow> bytes set \<Rightarrow> ('r, 'f) document_store \<times> container_data \<Rightarrow> bool" where
  "writable w json S x \<longleftrightarrow>
     work_ok (rw_sha w) S (ds_next_revision_id (fst x)) (history_of w json (fst x)) (ds_cursor (fst x)) \<and>
     programs_faithful json (map (store_revision (rw_sha w) (rw_encode w)) (ds_revisions (fst x))) \<and>
     container_data_ok (rw_sha w) (snd x) \<and>
     (\<exists>side. side_of_write w x = Inr side \<and> entries_items side + 38 \<le> MAX_COLLECTION_ITEMS \<and> (snd \<circ> snd) ` set side \<subseteq> S) \<and>
     (\<exists>file. saved_file w x = Inr file \<and> length file < 2 ^ 63)"

lemma blob_paths:
  assumes "container_data_ok sha d" and "side_entries d imported = Inr side" and "\<And>b. length (sha b) = 32"
  shows "entries_items side + 38 \<le> MAX_COLLECTION_ITEMS \<Longrightarrow> good_side side"
    and "(path, required, c) \<in> set side \<Longrightarrow> prefix ''blobs/'' path \<Longrightarrow> path = ''blobs/'' @ sha256_hex sha c"
proof -
  note m = side_entries_Inr [OF assms(1,2)] and ok = side_set_ok [OF assms(1,3), of imported]
  have x: "\<exists>x. e = side_entry_of x \<and> side_ok sha x" if "e \<in> set side" for e using m ok that by blast
  have "fst (side_entry_of x) \<notin> set CORE_ENTRIES" for x
    by (cases x) (auto simp: CORE_ENTRIES_def PROGRAM_ENTRY_def extension_path_def)
  with x side_utf8 have "valid_utf8 (fst e)" "fst e \<notin> set CORE_ENTRIES" if "e \<in> set side" for e using that by blast+
  with m show "good_side side" if "entries_items side + 38 \<le> MAX_COLLECTION_ITEMS"
    using that by (simp add: good_side_def list_all_iff)
  assume b: "(path, required, c) \<in> set side" "prefix ''blobs/'' path"
  from x [OF b(1)] obtain x where "(path, required, c) = side_entry_of x" "side_ok sha x" by blast
  with b(2) show "path = ''blobs/'' @ sha256_hex sha c" by (cases x) (auto simp: extension_path_def)
qed

lemma compared_inject:
  assumes "compared sha side = compared sha side'" and "inj_on sha S" and "(snd \<circ> snd) ` set side \<subseteq> S" and "(snd \<circ> snd) ` set side' \<subseteq> S"
    and blobs: "\<And>path required c. (path, required, c) \<in> set side \<union> set side' \<Longrightarrow> prefix ''blobs/'' path \<Longrightarrow>
      path = ''blobs/'' @ sha256_hex sha c"
  shows "side = side'"
proof (rule nth_equalityI)
  show len: "length side = length side'" using assms(1) by (auto simp: compared_def dest: arg_cong [where f = length])
  fix i
  assume i: "i < length side"
  obtain p r c where e: "side ! i = (p, r, c)" by (cases "side ! i")
  obtain p' r' c' where e': "side' ! i = (p', r', c')" by (cases "side' ! i")
  have mem: "(p, r, c) \<in> set side" "(p', r', c') \<in> set side'" using nth_mem [of i side] nth_mem [of i side'] i len e e' by simp_all
  have "compared sha side ! i = compared sha side' ! i" using assms(1) by simp
  then have same: "p = p'" "r = r'" "\<not> prefix ''blobs/'' p \<Longrightarrow> sha c = sha c'" using i len e e' by (simp_all add: compared_def split: if_splits)
  have "sha c = sha c'" if "prefix ''blobs/'' p"
    using blobs [of p r c] blobs [of p' r' c'] mem that same(1) by (auto intro: sha256_hex_inject)
  with same(3) have "sha c = sha c'" by blast
  moreover have "c \<in> S" "c' \<in> S" using assms(3,4) mem by force+
  ultimately have "c = c'" using assms(2) by (auto dest: inj_onD)
  with same e e' show "side ! i = side' ! i" by simp
qed

lemma saved_assembled:
  assumes "programs_faithful json (map (store_revision (rw_sha w) (rw_encode w)) (ds_revisions document))"
    and json: "rw_json w = (\<lambda>p. Inr (json p))" and cur: "ds_cursor document < length (ds_revisions document)"
    and "side_of_write w (document, d) = Inr side" and "saved_file w (document, d) = Inr file"
  shows "assembled_file (rw_sha w) side (ds_next_revision_id document) (history_of w json document ! ds_cursor document)
    (history_of w json document) (ds_cursor document) = Inr file"
proof -
  let ?enc = "rw_encode w"
  from assms(4,5) obtain history program where
    h: "encode_revision_history (rw_sha w) (\<lambda>p. Inr (json p)) ?enc document (?enc (current document)) = Inr history"
    and p: "program = map_option json (current_rule_program document)"
    and f: "encode_container (rw_sha w) (saved_entry_map (?enc (current document)) (Some history) program side) = Inr file"
    by (auto simp: saved_file_def side_of_write_def save_document_store_def save_container_entries_def Let_def json result_simps
        dest!: encoded_program_json)
  have now: "history_of w json document ! ds_cursor document = assembled_of json (store_revision (rw_sha w) ?enc (current_revision document))"
    using cur by (simp add: history_of_def current_revision_def)
  have "hr_encoded (history_of w json document ! ds_cursor document) = ?enc (current document)"
    "hr_program (history_of w json document ! ds_cursor document) = program"
    by (simp_all add: now store_revision_def current_def current_rule_program_def p option.map_comp comp_def)
  with h f encode_history_assembled [OF assms(1)] show ?thesis
    by (simp add: assembled_file_def encode_revision_history_def history_of_def)
qed

lemma work_nonempty: "work_ok sha S next R cursor \<Longrightarrow> R \<noteq> [] \<and> cursor < length R"
  by (auto simp: work_ok_def)

text \<open>A step brings the checkpoint to the history of the document it was planned for, and the next plan is of it.\<close>

lemma plan_step_held:
  assumes held: "held_in (rw_sha w) S base side R cursor next ck payload bodies"
    and plan: "plan_ok (rw_sha w) base side R ck payload plan"
    and step: "plan_step w plan document d base = Some (bs, plan')"
    and writable: "writable w json S (document, d)" and side: "side_of_write w (document, d) = Inr side'"
    and json: "rw_json w = (\<lambda>p. Inr (json p))" and sha: "\<And>b. length (rw_sha w b) = 32" and inj: "inj_on (rw_sha w) S"
    and same: "same_work R (history_of w json document)" and sides: "(snd \<circ> snd) ` set side \<subseteq> S"
    and blobs: "\<And>path required c. (path, required, c) \<in> set side \<Longrightarrow> prefix ''blobs/'' path \<Longrightarrow> path = ''blobs/'' @ sha256_hex (rw_sha w) c"
  shows "side' = side" and "length (ck @ frame bs) < 2 ^ 64"
    and "\<exists>bodies'. held_in (rw_sha w) S base side (history_of w json document) (ds_cursor document) (ds_next_revision_id document)
      (ck @ frame bs) payload bodies'"
    and "plan_ok (rw_sha w) base side (history_of w json document) (ck @ frame bs) payload plan'"
proof -
  define rs where "rs = map (store_revision (rw_sha w) (rw_encode w)) (ds_revisions document)"
  let ?R = "history_of w json document"
  have R: "?R = map (assembled_of json) rs" by (simp add: history_of_def rs_def)
  from writable have work: "work_ok (rw_sha w) S (ds_next_revision_id document) ?R (ds_cursor document)"
    and faithful: "programs_faithful json rs" and d: "container_data_ok (rw_sha w) d"
    and sides': "(snd \<circ> snd) ` set side' \<subseteq> S"
    using side by (auto simp: writable_def rs_def)
  from work have work_facts: "?R \<noteq> []" "list_all (hashed (rw_sha w)) ?R" "hr_encoded ` set ?R \<subseteq> S" by (auto simp: work_ok_def)
  from held have old: "list_all (hashed (rw_sha w)) R" "hr_encoded ` set R \<subseteq> S" "length payload < 2 ^ 63"
    by (auto simp: held_in_def work_ok_def)
  from step side obtain skip where c: "compared (rw_sha w) side' = cp_side plan"
    and skip: "position (planned_is (hd rs)) (cp_held plan) = Some skip"
    and bs: "step_bytes w skip (matching (drop skip (cp_held plan)) rs) document rs = Inr bs"
    and len: "cp_len plan + 8 + length bs - cp_payload_len plan \<le> cp_payload_len plan"
    and plan': "plan' = plan \<lparr>cp_len := cp_len plan + 8 + length bs, cp_held := map planned_of rs\<rparr>"
    by (auto simp: plan_step_def side_of_write_def Let_def rs_def split: sum.splits option.splits if_splits)
  define keep where "keep = matching (drop skip (cp_held plan)) rs"
  have se: "side_entries d (history_imported_sources (rw_imported w) document) = Inr side'" using side by (simp add: side_of_write_def)
  show "side' = side"
    using c plan blobs blob_paths(2) [OF d se sha]
    by (intro compared_inject [OF _ inj sides' sides]) (auto simp: plan_ok_def)
  show short: "length (ck @ frame bs) < 2 ^ 64" using len plan old(3) by (simp add: plan_ok_def)
  have hd: "planned_is (hd ?R) = planned_is (hd rs)" using work_facts(1) unfolding R by (cases rs) auto
  have named: "list_all2 names (cp_held plan) R" using plan by (simp add: plan_ok_def)
  have at: "position (planned_is (hd ?R)) (cp_held plan) = Some skip" using skip hd by simp
  have keep: "keep = matching (drop skip (cp_held plan)) ?R" by (simp add: keep_def R)
  note kept = kept_part [OF named at work_facts(1) keep old(1) work_facts(2) inj old(2) work_facts(3) same]
  from step_bytes_Inr [OF bs [folded keep_def] json] obtain history where
    e: "encode_history (rw_sha w) Ok (=) ((assembled_of json (rs ! (keep - 1))) \<lparr>hr_program := None\<rparr> #
        map (added_as json (rs ! (keep - 1))) (drop keep rs)) 0 (ds_next_revision_id document) (hr_encoded (rs ! (keep - 1))) HISTORY_BUDGET = Inr history"
    and b: "encode_container (rw_sha w) [(STEP_ENTRY, True, step_content (step_for skip keep (ds_cursor document) rs history))] = Inr bs"
    and n: "skip < 2 ^ 32" "keep < 2 ^ 32" "ds_cursor document < 2 ^ 32" by metis
  have "length bs < 2 ^ 64" using short by simp
  note body = encoded_step [OF b this sha]
  from body(2) \<open>length bs < 2 ^ 64\<close> have "length (step_content (step_for skip keep (ds_cursor document) rs history)) < 2 ^ 64" by simp
  from step_replays [OF e this n sha inj work [unfolded R] faithful kept(1,2) _ kept(4) [unfolded R]] kept(3)
    held_in_step [OF held body(1) _ work short]
  show "\<exists>bodies'. held_in (rw_sha w) S base side ?R (ds_cursor document) (ds_next_revision_id document) (ck @ frame bs) payload bodies'"
    unfolding R by auto
  show "plan_ok (rw_sha w) base side ?R (ck @ frame bs) payload plan'"
    using plan names_all [of ?R] by (simp add: plan_ok_def plan' R comp_def)
qed

end
