(* ===== verification/Ketchup_Durable.thy ===== *)
theory Ketchup_Durable
  imports Ketchup_Replay
begin

text \<open>
  Checkpoints on disk.  However the edits of a session are written, as steps or whole, and whichever writes fail, the
  checkpoint opens as the file a save of the last written document would be; a save interrupted by a failure or by another program leaves
  the file as it was or as saved, with the replaced file as the backup.
\<close>

section \<open>What a process remembers of its files\<close>

definition seen_ok :: "(role \<Rightarrow> bytes \<Rightarrow> observed \<Rightarrow> bool) \<Rightarrow> disk \<Rightarrow> bool" where
  "seen_ok good dk \<longleftrightarrow>
     (\<forall>p bs stamp. dk_files dk p = Some (bs, stamp) \<longrightarrow> stamp < dk_clock dk) \<and>
     (\<forall>p stamp ob. dk_seen dk p = Some (stamp, ob) \<longrightarrow> stamp < dk_clock dk) \<and>
     (\<forall>p bs stamp ob. dk_files dk p = Some (bs, stamp) \<longrightarrow> dk_seen dk p = Some (stamp, ob) \<longrightarrow> good p bs ob)"

lemma content_Some: "content dk p = Some bs \<longleftrightarrow> (\<exists>stamp. dk_files dk p = Some (bs, stamp))"
  by (auto simp: content_def)

lemma content_None: "content dk p = None \<longleftrightarrow> dk_files dk p = None"
  by (auto simp: content_def)

lemma content_put: "content (put p bs dk) q = (if q = p then Some bs else content dk q)"
  by (simp add: content_def put_def)

lemma content_record [simp]: "content (record_written p ob dk) = content dk"
  by (auto simp: content_def record_written_def split: option.splits)

lemma seen_put:
  assumes "seen_ok good dk" and "\<And>q. q \<noteq> p \<Longrightarrow> good' q = good q"
  shows "seen_ok good' (put p bs dk)"
  unfolding seen_ok_def
proof (intro conjI allI impI)
  fix q c stamp ob
  assume "dk_files (put p bs dk) q = Some (c, stamp)" "dk_seen (put p bs dk) q = Some (stamp, ob)"
  with assms show "good' q c ob" by (cases "q = p") (fastforce simp: seen_ok_def put_def)+
qed (use assms(1) in \<open>fastforce simp: seen_ok_def put_def less_Suc_eq split: if_splits\<close>)+

lemma seen_record:
  assumes "seen_ok good dk" and "content dk p = Some bs" and "good p bs ob"
  shows "seen_ok good (record_written p ob dk)"
  using assms by (fastforce simp: seen_ok_def record_written_def content_Some split: if_splits)

lemma observe_seen:
  assumes "seen_ok good dk" and "content dk p = Some bs" and "good p bs (observed_of sha bs)"
  obtains ob dk' where "observe sha p dk = (Inr ob, dk')" "good p bs ob" "seen_ok good dk'" "content dk' = content dk"
proof -
  from assms(2) obtain stamp where f: "dk_files dk p = Some (bs, stamp)" by (auto simp: content_Some)
  let ?new = "dk \<lparr>dk_seen := (dk_seen dk) (p \<mapsto> (stamp, observed_of sha bs))\<rparr>"
  have new: "seen_ok good ?new" using assms(1,3) f by (auto simp: seen_ok_def)
  have "content ?new = content dk" by (auto simp: content_def)
  with new f assms show ?thesis
    by (cases "\<exists>ob. dk_seen dk p = Some (stamp, ob)")
      (auto simp: observe_def seen_ok_def split: option.splits intro: that)
qed

section \<open>The checkpoint of the last written document\<close>

definition held_write ::
  "'r recovery_world \<Rightarrow> (rule_program_source \<Rightarrow> bytes) \<Rightarrow> bytes set \<Rightarrow> file_identity \<Rightarrow> ('r, 'f) document_store \<times> container_data \<Rightarrow>
   bytes \<Rightarrow> entry_map \<Rightarrow> bytes \<Rightarrow> bool" where
  "held_write w json S base x ck side payload \<longleftrightarrow>
     writable w json S x \<and> side_of_write w x = Inr side \<and>
     (\<exists>bodies. held_in (rw_sha w) S base side (history_of w json (fst x)) (ds_cursor (fst x)) (ds_next_revision_id (fst x)) ck payload bodies)"

definition good_observed ::
  "'r recovery_world \<Rightarrow> (rule_program_source \<Rightarrow> bytes) \<Rightarrow> bytes set \<Rightarrow> file_identity \<Rightarrow> (('r, 'f) document_store \<times> container_data) option \<Rightarrow>
   role \<Rightarrow> bytes \<Rightarrow> observed \<Rightarrow> bool" where
  "good_observed w json S base written p bs ob \<longleftrightarrow>
     ob_identity ob = identity_from_bytes (rw_sha w) bs \<and>
     (p = WorkRecovery \<longrightarrow> (\<forall>x plan. written = Some x \<longrightarrow> ob_plan ob = Some plan \<longrightarrow>
        (\<exists>side payload. held_write w json S base x bs side payload \<and>
           plan_ok (rw_sha w) base side (history_of w json (fst x)) bs payload plan)))"

definition disk_ok ::
  "'r recovery_world \<Rightarrow> (rule_program_source \<Rightarrow> bytes) \<Rightarrow> bytes set \<Rightarrow> file_identity \<Rightarrow> (('r, 'f) document_store \<times> container_data) option \<Rightarrow>
   disk \<Rightarrow> bool" where
  "disk_ok w json S base written dk \<longleftrightarrow>
     seen_ok (good_observed w json S base written) dk \<and>
     (\<exists>bs. content dk DocumentFile = Some bs \<and> identity_from_bytes (rw_sha w) bs = base) \<and>
     (case written of None \<Rightarrow> content dk WorkRecovery = None
      | Some x \<Rightarrow> (\<exists>ck side payload. content dk WorkRecovery = Some ck \<and> held_write w json S base x ck side payload))"

definition observed_checkpoint :: "(bytes \<Rightarrow> bytes) \<Rightarrow> disk \<Rightarrow> file_identity option" where
  "observed_checkpoint sha dk = map_option (identity_from_bytes sha) (content dk WorkRecovery)"

lemma held_write_facts:
  assumes "held_write w json S base x ck side payload" and "\<And>b. length (rw_sha w b) = 32"
  shows "(snd \<circ> snd) ` set side \<subseteq> S" and "length ck < 2 ^ 64"
    and "(path, required, c) \<in> set side \<Longrightarrow> prefix ''blobs/'' path \<Longrightarrow> path = ''blobs/'' @ sha256_hex (rw_sha w) c"
proof -
  show "(snd \<circ> snd) ` set side \<subseteq> S" using assms(1) unfolding held_write_def writable_def by fastforce
  show "length ck < 2 ^ 64" using assms(1) unfolding held_write_def held_in_def by blast
  have "container_data_ok (rw_sha w) (snd x)" "side_entries (snd x) (history_imported_sources (rw_imported w) (fst x)) = Inr side"
    using assms(1) by (auto simp: held_write_def writable_def side_of_write_def split: prod.splits)
  from blob_paths(2) [OF this assms(2)] show "path = ''blobs/'' @ sha256_hex (rw_sha w) c"
    if "(path, required, c) \<in> set side" "prefix ''blobs/'' path" using that by blast
qed

lemma held_write_observed:
  assumes "held_write w json S base x ck side payload" and "\<And>b. length (rw_sha w b) = 32" and "inj_on (rw_sha w) S"
  shows "good_observed w json S base (Some x) WorkRecovery ck (observed_of (rw_sha w) ck)"
proof -
  from assms(1) obtain bodies where "held_in (rw_sha w) S base side (history_of w json (fst x)) (ds_cursor (fst x))
      (ds_next_revision_id (fst x)) ck payload bodies" by (auto simp: held_write_def)
  from held_plan [OF this assms(2,3)] assms(1) show ?thesis
    unfolding good_observed_def observed_of_def by fastforce
qed

lemma held_write_opens:
  assumes "held_write w json S base x ck side payload" and "\<And>b. length (rw_sha w b) = 32" and "inj_on (rw_sha w) S"
    and "rw_json w = (\<lambda>p. Inr (json p))" and "saved_file w x = Inr saved"
  shows "open_checkpoint w base ck = Inr (saved, None)"
    and "length (ck @ frame bs) < 2 ^ 64 \<Longrightarrow> 0 < k \<Longrightarrow> k < length (frame bs) \<Longrightarrow>
      \<exists>damage. open_checkpoint w base (ck @ take k (frame bs)) = Inr (saved, Some damage)"
proof -
  obtain document d where x: "x = (document, d)" by (cases x)
  from assms(1) obtain bodies where h: "held_in (rw_sha w) S base side (history_of w json document) (ds_cursor document)
      (ds_next_revision_id document) ck payload bodies" by (auto simp: held_write_def x)
  have "ds_cursor document < length (ds_revisions document)"
    using assms(1) by (auto simp: held_write_def writable_def work_ok_def history_of_def x)
  from saved_assembled [OF _ assms(4) this, of d side saved] assms(1,5)
  have "assembled_file (rw_sha w) side (ds_next_revision_id document) (history_of w json document ! ds_cursor document)
      (history_of w json document) (ds_cursor document) = Inr saved"
    by (auto simp: held_write_def writable_def x)
  note o = held_opens [OF h assms(2,3) this]
  show "open_checkpoint w base ck = Inr (saved, None)" by (rule o(1))
  show "\<exists>damage. open_checkpoint w base (ck @ take k (frame bs)) = Inr (saved, Some damage)"
    if "length (ck @ frame bs) < 2 ^ 64" "0 < k" "k < length (frame bs)"
    using o(2) [OF that] by blast
qed

section \<open>A write keeps it\<close>

lemma disk_same:
  "disk_ok w json S base written dk \<Longrightarrow> seen_ok (good_observed w json S base written) dk' \<Longrightarrow> content dk' = content dk \<Longrightarrow>
    disk_ok w json S base written dk'"
  by (cases written) (auto simp: disk_ok_def)

lemma checks_pass:
  assumes "disk_ok w json S base written dk" and "\<And>b. length (rw_sha w b) = 32" and "inj_on (rw_sha w) S"
  shows "\<exists>dk'. same_base (rw_sha w) base dk = (Inr (), dk') \<and> disk_ok w json S base written dk' \<and> content dk' = content dk"
    and "\<exists>found dk'. read_observed_work_recovery (rw_sha w) (observed_checkpoint (rw_sha w) dk) dk = (Inr found, dk') \<and>
      disk_ok w json S base written dk' \<and> content dk' = content dk \<and> (found = None \<longleftrightarrow> written = None) \<and>
      (\<forall>ob ck. found = Some ob \<longrightarrow> content dk WorkRecovery = Some ck \<longrightarrow> good_observed w json S base written WorkRecovery ck ob)"
proof -
  note ok = assms(1) [unfolded disk_ok_def]
  have seen: "seen_ok (good_observed w json S base written) dk" using ok by blast
  from ok obtain bs where bs: "content dk DocumentFile = Some bs" "identity_from_bytes (rw_sha w) bs = base" by blast
  have "good_observed w json S base written DocumentFile bs (observed_of (rw_sha w) bs)" by (simp add: good_observed_def observed_of_def)
  from observe_seen [OF seen bs(1) this] obtain ob dk' where
    o: "observe (rw_sha w) DocumentFile dk = (Inr ob, dk')" "good_observed w json S base written DocumentFile bs ob"
      "seen_ok (good_observed w json S base written) dk'" "content dk' = content dk" by metis
  have "disk_ok w json S base written dk'" by (rule disk_same [OF assms(1) o(3,4)])
  moreover have "ob_identity ob = base" using o(2) bs(2) by (simp add: good_observed_def)
  ultimately show "\<exists>dk'. same_base (rw_sha w) base dk = (Inr (), dk') \<and> disk_ok w json S base written dk' \<and> content dk' = content dk"
    using o(1,4) by (auto simp: same_base_def)
  show "\<exists>found dk'. read_observed_work_recovery (rw_sha w) (observed_checkpoint (rw_sha w) dk) dk = (Inr found, dk') \<and>
      disk_ok w json S base written dk' \<and> content dk' = content dk \<and> (found = None \<longleftrightarrow> written = None) \<and>
      (\<forall>ob ck. found = Some ob \<longrightarrow> content dk WorkRecovery = Some ck \<longrightarrow> good_observed w json S base written WorkRecovery ck ob)"
  proof (cases written)
    case None
    with assms(1) show ?thesis
      by (auto simp: read_observed_work_recovery_def observed_checkpoint_def disk_ok_def content_None)
  next
    case (Some x)
    with ok obtain ck side payload where ck: "content dk WorkRecovery = Some ck" "held_write w json S base x ck side payload" by auto
    note held_write_observed [OF ck(2) assms(2,3), folded Some]
    from observe_seen [OF seen ck(1) this] obtain ob dk' where
      o: "observe (rw_sha w) WorkRecovery dk = (Inr ob, dk')" "good_observed w json S base written WorkRecovery ck ob"
        "seen_ok (good_observed w json S base written) dk'" "content dk' = content dk" by metis
    have "disk_ok w json S base written dk'" by (rule disk_same [OF assms(1) o(3,4)])
    moreover have "dk_files dk WorkRecovery \<noteq> None" using ck(1) by (auto simp: content_Some)
    moreover have "ob_identity ob = identity_from_bytes (rw_sha w) ck" using o(2) by (simp add: good_observed_def)
    ultimately show ?thesis
      using o ck(1) Some by (auto simp: read_observed_work_recovery_def observed_checkpoint_def)
  qed
qed

lemma unchanged_passes:
  assumes "disk_ok w json S base written dk" and "\<And>b. length (rw_sha w b) = 32" and "inj_on (rw_sha w) S"
  shows "\<exists>dk'. check_unchanged (rw_sha w) base (observed_checkpoint (rw_sha w) dk) dk = (Inr (), dk') \<and>
    disk_ok w json S base written dk' \<and> content dk' = content dk"
proof -
  from checks_pass(1) [OF assms] obtain dk1 where
    1: "same_base (rw_sha w) base dk = (Inr (), dk1)" "disk_ok w json S base written dk1" "content dk1 = content dk" by blast
  have "observed_checkpoint (rw_sha w) dk = observed_checkpoint (rw_sha w) dk1" using 1(3) by (simp add: observed_checkpoint_def)
  with 1 checks_pass(2) [OF 1(2) assms(2,3)] show ?thesis by (auto simp: check_unchanged_def check_work_recovery_identity_def)
qed

lemma disk_put:
  assumes "disk_ok w json S base written dk" and "held_write w json S base x ck side payload"
  shows "disk_ok w json S base (Some x) (put WorkRecovery ck dk)"
  using assms seen_put [of "good_observed w json S base written" dk WorkRecovery "good_observed w json S base (Some x)" ck]
  by (auto simp: disk_ok_def content_put good_observed_def fun_eq_iff)

lemma disk_put_same:
  assumes "disk_ok w json S base (Some x) dk" and "content dk WorkRecovery = Some ck"
  shows "disk_ok w json S base (Some x) (put WorkRecovery ck dk)"
proof -
  from assms obtain side payload where "held_write w json S base x ck side payload" by (auto simp: disk_ok_def)
  from disk_put [OF assms(1) this] show ?thesis .
qed

lemma disk_record:
  assumes "disk_ok w json S base (Some x) dk" and "content dk WorkRecovery = Some ck"
    and "good_observed w json S base (Some x) WorkRecovery ck ob"
  shows "disk_ok w json S base (Some x) (record_written WorkRecovery ob dk)"
  using assms seen_record [of _ dk WorkRecovery ck ob] by (auto simp: disk_ok_def)

text \<open>What the session expects next: the identity a write reports, also one whose durability is not confirmed.\<close>

definition published :: "file_error + file_identity \<Rightarrow> file_identity option \<Rightarrow> file_identity option" where
  "published result expected =
     (case result of Inr identity \<Rightarrow> Some identity
      | Inl e \<Rightarrow> (case published_identity WorkRecovery e of Some identity \<Rightarrow> Some identity | None \<Rightarrow> expected))"

lemma whole_written:
  assumes "disk_ok w json S base written dk" and "\<And>b. length (rw_sha w b) = 32" and "inj_on (rw_sha w) S"
    and json: "rw_json w = (\<lambda>p. Inr (json p))" and "writable w json S (document, d)"
    and "write_whole w document d base (observed_checkpoint (rw_sha w) dk) fault dk = (result, dk')"
  shows "disk_ok w json S base (if fault = WriteFails then written else Some (document, d)) dk' \<and>
    published result (observed_checkpoint (rw_sha w) dk) = observed_checkpoint (rw_sha w) dk' \<and>
    (published result None = None \<longleftrightarrow> fault = WriteFails) \<and> (is_ok result \<longleftrightarrow> fault = NoFault)"
proof -
  from assms(5) obtain side payload where side: "side_of_write w (document, d) = Inr side" "entries_items side + 38 \<le> MAX_COLLECTION_ITEMS"
    and payload: "saved_file w (document, d) = Inr payload" "length payload < 2 ^ 63"
    and facts: "programs_faithful json (map (store_revision (rw_sha w) (rw_encode w)) (ds_revisions document))"
      "work_ok (rw_sha w) S (ds_next_revision_id document) (history_of w json document) (ds_cursor document)"
      "container_data_ok (rw_sha w) d"
    by (auto simp: writable_def)
  have cur: "ds_cursor document < length (ds_revisions document)" using facts(2) by (simp add: work_ok_def history_of_def)
  have se: "side_entries d (history_imported_sources (rw_imported w) document) = Inr side" using side(1) by (simp add: side_of_write_def)
  let ?ck = "checkpoint_header base payload"
  have base: "length (fi_sha256 base) = 32" using assms(1,2) by (auto simp: disk_ok_def identity_from_bytes_def)
  have held: "held_write w json S base (document, d) ?ck side payload"
    using held_in_whole [OF blob_paths(1) [OF facts(3) se assms(2) side(2)] facts(2) saved_assembled [OF facts(1) json cur side(1) payload(1)]
        payload(2) base] assms(5) side(1)
    by (auto simp: held_write_def)
  have whole: "and_then (whole_payload w document d) (checkpoint_bytes_of base) = Inr ?ck"
    using payload by (auto simp: whole_payload_def saved_file_def checkpoint_bytes_of_def checkpoint_header_def u64_len_def)
  from unchanged_passes [OF assms(1-3)] obtain dk1 where
    1: "check_unchanged (rw_sha w) base (observed_checkpoint (rw_sha w) dk) dk = (Inr (), dk1)"
      "disk_ok w json S base written dk1" "content dk1 = content dk" by blast
  note put = disk_put [OF 1(2) held]
  note recorded = disk_record [OF put _ held_write_observed [OF held assms(2,3)], simplified content_put, simplified]
  show ?thesis
    using assms(1,6) 1 put recorded whole
    by (cases fault)
      (auto simp: write_whole_def write_atomic_after_prepare_def published_def published_identity_def observed_checkpoint_def content_put)
qed

lemma step_written:
  assumes "disk_ok w json S base (Some x) dk" and sha: "\<And>b. length (rw_sha w b) = 32" and inj: "inj_on (rw_sha w) S"
    and json: "rw_json w = (\<lambda>p. Inr (json p))" and "writable w json S (document, d)"
    and same: "same_work (history_of w json (fst x)) (history_of w json document)"
    and ck: "content dk WorkRecovery = Some ck" and good: "good_observed w json S base (Some x) WorkRecovery ck ob"
    and plan: "ob_plan ob = Some plan" "plan_step w plan document d base = Some (bs, plan')"
    and "append_step (rw_sha w) ob bs plan' fault dk = (result, dk')"
  shows "disk_ok w json S base (Some (if fault = WriteFails then x else (document, d))) dk' \<and>
    published result (observed_checkpoint (rw_sha w) dk) = observed_checkpoint (rw_sha w) dk' \<and>
    (published result None = None \<longleftrightarrow> fault = WriteFails) \<and> (is_ok result \<longleftrightarrow> fault = NoFault)"
proof -
  from good plan(1) obtain side payload where h: "held_write w json S base x ck side payload"
    "plan_ok (rw_sha w) base side (history_of w json (fst x)) ck payload plan" by (auto simp: good_observed_def)
  note facts = held_write_facts [OF h(1) sha]
  from h(1) obtain bodies where held: "held_in (rw_sha w) S base side (history_of w json (fst x)) (ds_cursor (fst x))
      (ds_next_revision_id (fst x)) ck payload bodies" by (auto simp: held_write_def)
  from assms(5) obtain side' where side': "side_of_write w (document, d) = Inr side'" by (auto simp: writable_def)
  have blobs: "path = ''blobs/'' @ sha256_hex (rw_sha w) c" if "(path, required, c) \<in> set side" "prefix ''blobs/'' path" for path required c
    by (rule facts(3) [OF that])
  have s: "side' = side" "length (ck @ frame bs) < 2 ^ 64"
    "\<exists>bodies'. held_in (rw_sha w) S base side (history_of w json document) (ds_cursor document) (ds_next_revision_id document)
      (ck @ frame bs) payload bodies'"
    "plan_ok (rw_sha w) base side (history_of w json document) (ck @ frame bs) payload plan'"
    by (rule plan_step_held [OF held h(2) plan(2) assms(5) side' json sha inj same facts(1)], erule (1) blobs)+
  have new: "held_write w json S base (document, d) (ck @ frame bs) side payload"
    using s(3) side' s(1) assms(5) by (auto simp: held_write_def)
  have observed: "good_observed w json S base (Some (document, d)) WorkRecovery (ck @ frame bs)
      \<lparr>ob_identity = identity_from_bytes (rw_sha w) (ck @ frame bs), ob_plan = Some plan'\<rparr>"
    using new s(4) by (auto simp: good_observed_def)
  have len: "u64_len (length bs) = Inr (of_nat (length bs))" using s(2) by (simp add: u64_len_def)
  have kept: "take (unat (fi_byte_len (ob_identity ob))) ck = ck"
    using good facts(2) by (simp add: good_observed_def identity_from_bytes_def unat_of_nat_u64)
  note put = disk_put [OF assms(1) new]
  note recorded = disk_record [OF put _ observed, simplified content_put, simplified]
  show ?thesis
  proof (cases "fault = WriteFails")
    case True
    with assms(11) len kept ck have "result = Inl (FileIo WriteFailed)" "dk' = put WorkRecovery ck dk" by (auto simp: append_step_def)
    with disk_put_same [OF assms(1) ck] True ck show ?thesis by (simp add: is_ok_def published_def published_identity_def observed_checkpoint_def content_put)
  next
    case False
    with assms(11) len kept ck have
      "dk' = record_written WorkRecovery \<lparr>ob_identity = identity_from_bytes (rw_sha w) (ck @ frame bs), ob_plan = Some plan'\<rparr>
        (put WorkRecovery (ck @ frame bs) dk)"
      "published result expected = Some (identity_from_bytes (rw_sha w) (ck @ frame bs))" "is_ok result \<longleftrightarrow> fault = NoFault" for expected
      by (cases fault; auto simp: append_step_def published_def published_identity_def frame_def Let_def split: if_splits)+
    with recorded False show ?thesis by (simp add: observed_checkpoint_def content_put)
  qed
qed

lemma written_kept:
  assumes "disk_ok w json S base written dk" and sha: "\<And>b. length (rw_sha w b) = 32" and inj: "inj_on (rw_sha w) S"
    and json: "rw_json w = (\<lambda>p. Inr (json p))" and writable: "writable w json S (document, d)"
    and same: "\<And>x. written = Some x \<Longrightarrow> same_work (history_of w json (fst x)) (history_of w json document)"
    and result: "write_work_recovery w document d base (observed_checkpoint (rw_sha w) dk) (\<lambda>dk. dk) fault dk = (result, dk')"
  shows "disk_ok w json S base (if fault = WriteFails then written else Some (document, d)) dk' \<and>
    published result (observed_checkpoint (rw_sha w) dk) = observed_checkpoint (rw_sha w) dk' \<and>
    (published result None = None \<longleftrightarrow> fault = WriteFails) \<and> (is_ok result \<longleftrightarrow> fault = NoFault)"
proof -
  let ?sha = "rw_sha w"
  from checks_pass(1) [OF assms(1-3)] obtain dk1 where
    1: "same_base ?sha base dk = (Inr (), dk1)" "disk_ok w json S base written dk1" "content dk1 = content dk" by blast
  have oc: "observed_checkpoint ?sha dk = observed_checkpoint ?sha dk''" if "content dk'' = content dk" for dk''
    using that by (simp add: observed_checkpoint_def)
  from checks_pass(2) [OF 1(2) sha inj] obtain found dk2 where
    2: "read_observed_work_recovery ?sha (observed_checkpoint ?sha dk) dk1 = (Inr found, dk2)" "disk_ok w json S base written dk2"
      "content dk2 = content dk" "found = None \<longleftrightarrow> written = None"
      "\<And>ob ck. found = Some ob \<Longrightarrow> content dk WorkRecovery = Some ck \<Longrightarrow> good_observed w json S base written WorkRecovery ck ob"
    using 1(3) oc by metis
  show ?thesis
  proof (cases "\<exists>ob plan step. found = Some ob \<and> ob_plan ob = Some plan \<and> plan_step w plan document d base = Some step")
    case True
    then obtain ob plan bs plan' where p: "found = Some ob" "ob_plan ob = Some plan" "plan_step w plan document d base = Some (bs, plan')"
      by auto
    with 2(4) obtain x where x: "written = Some x" by auto
    from unchanged_passes [OF 2(2) sha inj] obtain dk3 where
      3: "check_unchanged ?sha base (observed_checkpoint ?sha dk) dk2 = (Inr (), dk3)" "disk_ok w json S base written dk3"
        "content dk3 = content dk" using 2(3) oc by metis
    from 3(2) x obtain ck where ck: "content dk3 WorkRecovery = Some ck" by (auto simp: disk_ok_def)
    have appended: "append_step ?sha ob bs plan' fault dk3 = (result, dk')" using result 1(1) 2(1) 3(1) p by (simp add: write_work_recovery_def)
    have "good_observed w json S base (Some x) WorkRecovery ck ob" using 2(5) [OF p(1)] ck by (simp add: 3(3) x)
    from step_written [OF 3(2) [unfolded x] sha inj json writable same [OF x] ck this p(2,3) appended]
    show ?thesis unfolding oc [OF 3(3)] x by (cases "fault = WriteFails") simp_all
  next
    case False
    then have "(case found of None \<Rightarrow> None | Some ob \<Rightarrow> (case ob_plan ob of None \<Rightarrow> None
        | Some plan \<Rightarrow> map_option (Pair ob) (plan_step w plan document d base))) = None"
      by (auto split: option.splits) (metis not_None_eq surj_pair)
    with result 1(1) 2(1) have "write_whole w document d base (observed_checkpoint ?sha dk) fault dk2 = (result, dk')"
      by (simp add: write_work_recovery_def)
    then have "write_whole w document d base (observed_checkpoint ?sha dk2) fault dk2 = (result, dk')" by (simp only: oc [OF 2(3)])
    from whole_written [OF 2(2) sha inj json writable this] show ?thesis unfolding oc [OF 2(3)] .
  qed
qed

section \<open>A session of writes\<close>

text \<open>The writes of a session: documents with the data beside them, each with how its write goes wrong.\<close>

type_synonym ('r, 'f) session_write = "(('r, 'f) document_store \<times> container_data) \<times> write_fault"

fun write_all ::
  "'r recovery_world \<Rightarrow> file_identity \<Rightarrow> ('r, 'f) session_write list \<Rightarrow> file_identity option \<Rightarrow> disk \<Rightarrow> file_identity option \<times> disk" where
  "write_all w base [] expected dk = (expected, dk)"
| "write_all w base (((document, d), fault) # ws) expected dk =
     (case publish_work_recovery w document d base expected fault dk of
        (result, dk) \<Rightarrow> write_all w base ws (published result expected) dk)"

fun last_written ::
  "(('r, 'f) document_store \<times> container_data) option \<Rightarrow> ('r, 'f) session_write list \<Rightarrow> (('r, 'f) document_store \<times> container_data) option" where
  "last_written x [] = x"
| "last_written x ((y, fault) # ws) = last_written (if fault = WriteFails then x else Some y) ws"

definition session_ok ::
  "'r recovery_world \<Rightarrow> (rule_program_source \<Rightarrow> bytes) \<Rightarrow> bytes set \<Rightarrow> (('r, 'f) document_store \<times> container_data) list \<Rightarrow> bool" where
  "session_ok w json S xs \<longleftrightarrow>
     list_all (writable w json S) xs \<and> (\<forall>x \<in> set xs. \<forall>y \<in> set xs. same_work (history_of w json (fst x)) (history_of w json (fst y)))"

lemma written_all_kept:
  assumes "disk_ok w json S base written dk" and "\<And>b. length (rw_sha w b) = 32" and "inj_on (rw_sha w) S"
    and "rw_json w = (\<lambda>p. Inr (json p))" and "session_ok w json S xs" and "set (map fst ws) \<subseteq> set xs" and "set_option written \<subseteq> set xs"
    and "write_all w base ws (observed_checkpoint (rw_sha w) dk) dk = (expected, dk')"
  shows "disk_ok w json S base (last_written written ws) dk' \<and> expected = observed_checkpoint (rw_sha w) dk' \<and>
    set_option (last_written written ws) \<subseteq> set xs"
  using assms(1,6-8)
proof (induction ws arbitrary: written dk)
  case (Cons a ws)
  obtain document d fault where a: "a = ((document, d), fault)" by (metis surj_pair)
  obtain result dk1 where r: "write_work_recovery w document d base (observed_checkpoint (rw_sha w) dk) (\<lambda>dk. dk) fault dk = (result, dk1)"
    by (metis surj_pair)
  have x: "(document, d) \<in> set xs" using Cons.prems(2) by (simp add: a)
  then have ok: "writable w json S (document, d)" "\<And>x. written = Some x \<Longrightarrow> same_work (history_of w json (fst x)) (history_of w json document)"
    using assms(5) Cons.prems(3) by (force simp: session_ok_def list_all_iff)+
  from written_kept [OF Cons.prems(1) assms(2-4) ok r]
  have k: "disk_ok w json S base (if fault = WriteFails then written else Some (document, d)) dk1"
    "published result (observed_checkpoint (rw_sha w) dk) = observed_checkpoint (rw_sha w) dk1" by blast+
  show ?case using Cons.IH [OF k(1)] Cons.prems x r k(2) by (simp add: a publish_work_recovery_def)
qed simp

lemma observe_content: "observe sha p dk = (result, dk') \<Longrightarrow> content dk' = content dk"
  by (auto simp: observe_def content_def split: option.splits prod.splits if_splits)

lemma check_content:
  "same_base sha base dk = (r, dk') \<Longrightarrow> content dk' = content dk"
  "read_observed_work_recovery sha expected dk = (found, dk') \<Longrightarrow> content dk' = content dk"
  "check_unchanged sha base expected dk = (r, dk') \<Longrightarrow> content dk' = content dk"
proof -
  show s: "same_base sha base dk = (r, dk') \<Longrightarrow> content dk' = content dk" for r dk dk'
    by (auto simp: same_base_def split: prod.splits sum.splits dest: observe_content)
  show o: "read_observed_work_recovery sha expected dk = (found, dk') \<Longrightarrow> content dk' = content dk" for found dk dk'
    by (auto simp: read_observed_work_recovery_def split: prod.splits sum.splits if_splits dest: observe_content)
  show "check_unchanged sha base expected dk = (r, dk') \<Longrightarrow> content dk' = content dk"
    by (auto simp: check_unchanged_def check_work_recovery_identity_def split: prod.splits sum.splits dest!: s o)
qed

lemma write_keeps_others:
  assumes "publish_work_recovery w document d base expected fault dk = (result, dk')" and "p \<noteq> WorkRecovery"
  shows "content dk' p = content dk p"
proof -
  have append: "content dk'' p = content dk' p" if "append_step sha ob bs next f dk' = (r, dk'')" for sha ob bs "next" f dk' r dk''
    using that assms(2) by (auto simp: append_step_def Let_def content_put split: sum.splits option.splits if_splits)
  have whole: "content dk'' p = content dk' p" if "write_whole w document d base expected f dk' = (r, dk'')" for f dk' r dk''
    using that assms(2)
    by (auto simp: write_whole_def write_atomic_after_prepare_def content_put split: sum.splits prod.splits if_splits dest!: check_content(3))
  show ?thesis
    using assms(1) unfolding publish_work_recovery_def write_work_recovery_def
    by (auto split: prod.splits sum.splits option.splits dest!: check_content append whole)
qed

lemma write_all_keeps_others:
  "write_all w base ws expected dk = (expected', dk') \<Longrightarrow> p \<noteq> WorkRecovery \<Longrightarrow> content dk' p = content dk p"
proof (induction w base ws expected dk rule: write_all.induct)
  case (2 w base document d fault ws expected dk)
  then show ?case by (auto split: prod.splits dest: write_keeps_others)
qed simp

lemma session_held:
  assumes "\<And>b. length (rw_sha w b) = 32" and "inj_on (rw_sha w) S" and "rw_json w = (\<lambda>p. Inr (json p))"
    and "session_ok w json S (map fst ws)"
    and opened: "content dk DocumentFile = Some bs" "content dk WorkRecovery = None" "dk_seen dk = (\<lambda>_. None)"
      "\<forall>p bs stamp. dk_files dk p = Some (bs, stamp) \<longrightarrow> stamp < dk_clock dk"
    and "write_all w (identity_from_bytes (rw_sha w) bs) ws None dk = (expected, dk')"
  shows "disk_ok w json S (identity_from_bytes (rw_sha w) bs) (last_written None ws) dk'" and "expected = observed_checkpoint (rw_sha w) dk'"
proof -
  have "disk_ok w json S (identity_from_bytes (rw_sha w) bs) None dk" using opened by (auto simp: disk_ok_def seen_ok_def)
  from written_all_kept [OF this assms(1-4) subset_refl, of expected dk'] assms(9) opened(2)
  show "disk_ok w json S (identity_from_bytes (rw_sha w) bs) (last_written None ws) dk'" "expected = observed_checkpoint (rw_sha w) dk'"
    by (auto simp: observed_checkpoint_def)
qed

section \<open>A session for the examples\<close>

text \<open>The demo document after one edit, and with that edit undone.\<close>

definition demo_world :: "unit recovery_world" where
  "demo_world = \<lparr>rw_sha = demo_pad, rw_json = (\<lambda>_. Inr []), rw_encode = (\<lambda>_. [7]), rw_imported = (\<lambda>_. []), rw_load_document = (\<lambda>_. Inr ())\<rparr>"

definition demo_disk :: disk where
  "demo_disk = \<lparr>dk_files = (\<lambda>_. None) (DocumentFile \<mapsto> ([5], 0)), dk_seen = (\<lambda>_. None), dk_clock = 1\<rparr>"

lemma demo_world_simps [simp]:
  "rw_sha demo_world = demo_pad" "rw_json demo_world = (\<lambda>_. Inr [])" "rw_encode demo_world = (\<lambda>_. [7])"
  "rw_imported demo_world = (\<lambda>_. [])" "rw_load_document demo_world = (\<lambda>_. Inr ())"
  by (simp_all add: demo_world_def)

lemma demo_disk_opened:
  "content demo_disk DocumentFile = Some [5]" "content demo_disk WorkRecovery = None" "dk_seen demo_disk = (\<lambda>_. None)"
  "\<forall>p bs stamp. dk_files demo_disk p = Some (bs, stamp) \<longrightarrow> stamp < dk_clock demo_disk"
  by (auto simp: demo_disk_def content_def split: if_splits)

lemma demo_writable:
  assumes "map (store_revision demo_pad (\<lambda>_. [7])) (ds_revisions s) = demo_pair LocalAssistant" and "ds_next_revision_id s = 3" and "ds_cursor s < 2"
    and "current_rule_program s = None"
  shows "writable demo_world (\<lambda>_. []) {[7]} (s, container_data_default)"
    and "history_of demo_world (\<lambda>_. []) s = map (assembled_of (\<lambda>_. [])) (demo_pair LocalAssistant)"
proof -
  show h: "history_of demo_world (\<lambda>_. []) s = map (assembled_of (\<lambda>_. [])) (demo_pair LocalAssistant)"
    by (simp add: history_of_def assms(1) del: map_map)
  have len: "length (ds_revisions s) = 2" using arg_cong [OF assms(1), of length] by (simp add: demo_pair_def)
  have "fold (\<lambda>_ sources. sources) rs ([] :: str list) = []" for rs :: "(unit, 'b) revision list" by (induction rs) auto
  then have imp: "history_imported_sources (\<lambda>_. []) s = []" by (simp add: history_imported_sources_def)
  have side: "side_of_write demo_world (s, container_data_default) = Inr []"
    by (simp add: side_of_write_def imp side_entries_def container_data_default_def bt_values_def)
  have small: "contents demo_pad [7] = {[7]}" using small_chunks [of "[7]" demo_pad] by (auto simp: contents_def MIN_CHUNK_def chunk_range_def)
  have "work_ok demo_pad {[7]} 3 (map (assembled_of (\<lambda>_. [])) (demo_pair LocalAssistant)) (ds_cursor s)"
    using assms(3) small
    by (simp add: work_ok_def demo_pair_def revision_ok_at_def batch_digest_ok_def origin_ok_def checkpoint_names_def hashed_def
        revision_contents_def assembly_budget_def HISTORY_BUDGET_def)
  moreover have "programs_faithful (\<lambda>_. []) (demo_pair LocalAssistant)" by (simp add: programs_faithful_def demo_pair_def)
  moreover obtain hist where "encode_history demo_pad (\<lambda>p. Inr []) rule_program_eq (demo_pair LocalAssistant) (ds_cursor s) 3 [7] HISTORY_BUDGET = Inr hist"
    "length hist < 1000" using demo_pair_encodes [OF assms(3)] by blast
  moreover from this(2) obtain out where "save_container_entries demo_pad [7] container_data_default [] (Some hist) None = Inr out" "length out < 2 ^ 63"
    using demo_file by blast
  ultimately show "writable demo_world (\<lambda>_. []) {[7]} (s, container_data_default)"
    using side assms default_ok
    by (auto simp: writable_def h saved_file_def save_document_store_def encode_revision_history_def imp encoded_program_def Let_def
        entries_items_def MAX_COLLECTION_ITEMS_def)
qed

section \<open>Properties\<close>

text \<open>
  C19.  A checkpoint holds the last document written to it.  A session has opened a file that has no checkpoint and writes its document after each edit, as a
  step appended to the checkpoint where one can name the change and whole otherwise; some writes fail, and of some the durability is
  not confirmed.  Then the checkpoint opens, with no damage, to exactly the bytes a save of the document last
  written would produce, opening the file gives that document, and the session expects the checkpoint that is there.  The hash gives 32 bytes and tells the session's contents apart, the
  documents can be saved and are well formed, and a revision of one id and snapshot keeps its digest and program.
\<close>

theorem checkpoint_opens_as_saved:
  assumes sha_32: "\<And>b. length (rw_sha w b) = 32" and no_collision: "inj_on (rw_sha w) S" and json: "rw_json w = (\<lambda>p. Inr (json p))"
    and session: "session_ok w json S (map fst ws)"
    and opened: "content dk DocumentFile = Some bs" "content dk WorkRecovery = None" "dk_seen dk = (\<lambda>_. None)"
      "\<forall>p bs stamp. dk_files dk p = Some (bs, stamp) \<longrightarrow> stamp < dk_clock dk"
    and "write_all w (identity_from_bytes (rw_sha w) bs) ws None dk = (expected, dk')"
  shows "case last_written None ws of
      None \<Rightarrow> content dk' WorkRecovery = None \<and> expected = None
    | Some x \<Rightarrow> \<exists>ck saved. content dk' WorkRecovery = Some ck \<and> expected = Some (identity_from_bytes (rw_sha w) ck) \<and>
        saved_file w x = Inr saved \<and> open_checkpoint w (identity_from_bytes (rw_sha w) bs) ck = Inr (saved, None) \<and>
        (load bs = Inr outcome \<longrightarrow> load_with_history saved = Inr recovered \<longrightarrow>
          load_file_with_source w load load_with_history dk' =
            Inr \<lparr>lf_outcome = recovered, lf_notices = [OpenedWorkRecovery], lf_source = WorkRecovery, lf_source_bytes = saved,
              lf_work_recovery_identity = expected, lf_work_recovery_base = Some (identity_from_bytes (rw_sha w) bs)\<rparr>)"
proof -
  let ?base = "identity_from_bytes (rw_sha w) bs"
  note k = session_held [OF sha_32 no_collision json session opened assms(9)]
  show ?thesis
  proof (cases "last_written None ws")
    case None
    with k show ?thesis by (simp add: disk_ok_def observed_checkpoint_def)
  next
    case (Some x)
    with k(1) obtain ck side payload where ck: "content dk' WorkRecovery = Some ck" "held_write w json S ?base x ck side payload"
      by (auto simp: disk_ok_def)
    from ck(2) obtain saved where "saved_file w x = Inr saved" by (auto simp: held_write_def writable_def)
    moreover have "content dk' DocumentFile = Some bs" using write_all_keeps_others [OF assms(9)] opened(1) by simp
    ultimately show ?thesis
      using held_write_opens(1) [OF ck(2) sha_32 no_collision json] ck(1) k(2) Some
      by (auto simp: observed_checkpoint_def load_file_with_source_def try_load_work_recovery_def)
  qed
qed

theorem checkpoint_opens_as_saved_witness:
  "\<exists>r s saved ck dk'. apply_batch_with demo_pad demo_families demo_delete (Principal LocalAssistant) True demo_store = Inr (r, s) \<and>
     write_all demo_world (identity_from_bytes demo_pad [5])
       [((s, container_data_default), NoFault), ((s \<lparr>ds_cursor := 0\<rparr>, container_data_default), SyncFails), ((s, container_data_default), WriteFails)]
       None demo_disk = (Some (identity_from_bytes demo_pad ck), dk') \<and>
     content dk' WorkRecovery = Some ck \<and>
     save_document_store demo_pad (\<lambda>_. Inr []) (\<lambda>_. [7]) (\<lambda>_. []) (s \<lparr>ds_cursor := 0\<rparr>) container_data_default = Inr saved \<and>
     open_checkpoint demo_world (identity_from_bytes demo_pad [5]) ck = Inr (saved, None) \<and>
     load_file_with_source demo_world (\<lambda>_. Inr ''file'') (\<lambda>_. Inr ''work'') dk' =
       Inr \<lparr>lf_outcome = ''work'', lf_notices = [OpenedWorkRecovery], lf_source = WorkRecovery, lf_source_bytes = saved,
         lf_work_recovery_identity = Some (identity_from_bytes demo_pad ck), lf_work_recovery_base = Some (identity_from_bytes demo_pad [5])\<rparr>"
proof -
  obtain r s where a: "apply_batch_with demo_pad demo_families demo_delete (Principal LocalAssistant) True demo_store = Inr (r, s)"
    using demo_applies by blast
  note f = demo_applied [OF a]
  let ?d = container_data_default
  let ?ws = "[((s, ?d), NoFault), ((s \<lparr>ds_cursor := 0\<rparr>, ?d), SyncFails), ((s, ?d), WriteFails)]"
  have rs: "map (store_revision demo_pad (\<lambda>_. [7])) (ds_revisions s) = demo_pair LocalAssistant" using f by blast
  have facts: "ds_next_revision_id s = 3" "ds_cursor s < 2" "current_rule_program s = None" "current_rule_program (s \<lparr>ds_cursor := 0\<rparr>) = None"
    using f by (simp_all add: current_rule_program_def current_revision_def initial_revision_def)
  note w = demo_writable [of s] demo_writable [of "s \<lparr>ds_cursor := 0\<rparr>"]
  have session: "session_ok demo_world (\<lambda>_. []) {[7]} (map fst ?ws)"
    using w rs facts by (simp add: session_ok_def) (simp add: same_work_def demo_pair_def)
  obtain expected dk' where all: "write_all demo_world (identity_from_bytes demo_pad [5]) ?ws None demo_disk = (expected, dk')" by force
  from checkpoint_opens_as_saved [where w = demo_world and load = "\<lambda>_. Inr ''file''" and load_with_history = "\<lambda>_. Inr ''work''"
      and outcome = "''file''" and recovered = "''work''", OF _ _ _ session demo_disk_opened, of expected dk'] all
  have "\<exists>ck saved. content dk' WorkRecovery = Some ck \<and> expected = Some (identity_from_bytes demo_pad ck) \<and>
      saved_file demo_world (s \<lparr>ds_cursor := 0\<rparr>, ?d) = Inr saved \<and> open_checkpoint demo_world (identity_from_bytes demo_pad [5]) ck = Inr (saved, None) \<and>
      load_file_with_source demo_world (\<lambda>_. Inr ''file'') (\<lambda>_. Inr ''work'') dk' =
        Inr \<lparr>lf_outcome = ''work'', lf_notices = [OpenedWorkRecovery], lf_source = WorkRecovery, lf_source_bytes = saved,
          lf_work_recovery_identity = expected, lf_work_recovery_base = Some (identity_from_bytes demo_pad [5])\<rparr>"
    by (simp add: demo_pad_32)
  with a all show ?thesis by (auto simp: saved_file_def)
qed

text \<open>
  C20.  A step that was cut short loses only that step.  A session wrote its documents as before and was then interrupted while it
  appended a step, so that only some first bytes of it are in the checkpoint.  Whatever the step was, the checkpoint opens to exactly
  the bytes a save of the document written before would produce, and it names the damage unless nothing of the step was written.
\<close>

theorem torn_step_opens_previous:
  assumes sha_32: "\<And>b. length (rw_sha w b) = 32" and no_collision: "inj_on (rw_sha w) S" and json: "rw_json w = (\<lambda>p. Inr (json p))"
    and session: "session_ok w json S (map fst ws)"
    and opened: "content dk DocumentFile = Some bs" "content dk WorkRecovery = None" "dk_seen dk = (\<lambda>_. None)"
      "\<forall>p bs stamp. dk_files dk p = Some (bs, stamp) \<longrightarrow> stamp < dk_clock dk"
    and written: "write_all w (identity_from_bytes (rw_sha w) bs) ws None dk = (expected, dk')" "last_written None ws = Some x"
      "content dk' WorkRecovery = Some ck"
    and torn: "k < 8 + length step" "length ck + 8 + length step < 2 ^ 64"
  shows "\<exists>saved damage. saved_file w x = Inr saved \<and>
    open_checkpoint w (identity_from_bytes (rw_sha w) bs) (ck @ take k (push_u64 (of_nat (length step)) @ step)) = Inr (saved, damage) \<and>
    (damage = None \<longleftrightarrow> k = 0)"
proof -
  let ?base = "identity_from_bytes (rw_sha w) bs"
  from session_held(1) [OF sha_32 no_collision json session opened written(1)] written(2,3)
  obtain side payload where h: "held_write w json S ?base x ck side payload" by (auto simp: disk_ok_def)
  from h obtain saved where saved: "saved_file w x = Inr saved" by (auto simp: held_write_def writable_def)
  note o = held_write_opens [OF h sha_32 no_collision json saved]
  show ?thesis
  proof (cases "k = 0")
    case True
    with o(1) saved show ?thesis by simp
  next
    case False
    with o(2) [of step k] torn saved show ?thesis by (fastforce simp: frame_def)
  qed
qed

theorem torn_step_opens_previous_witness:
  "\<exists>r s saved ck e dk'. apply_batch_with demo_pad demo_families demo_delete (Principal LocalAssistant) True demo_store = Inr (r, s) \<and>
     write_all demo_world (identity_from_bytes demo_pad [5]) [((s, container_data_default), NoFault)] None demo_disk =
       (Some (identity_from_bytes demo_pad ck), dk') \<and>
     content dk' WorkRecovery = Some ck \<and>
     save_document_store demo_pad (\<lambda>_. Inr []) (\<lambda>_. [7]) (\<lambda>_. []) s container_data_default = Inr saved \<and>
     open_checkpoint demo_world (identity_from_bytes demo_pad [5]) (ck @ take 9 (push_u64 2 @ [1, 2])) = Inr (saved, Some e)"
proof -
  obtain r s where a: "apply_batch_with demo_pad demo_families demo_delete (Principal LocalAssistant) True demo_store = Inr (r, s)"
    using demo_applies by blast
  note f = demo_applied [OF a]
  let ?d = container_data_default and ?base = "identity_from_bytes demo_pad [5]"
  let ?ws = "[((s, ?d), NoFault)]"
  have rs: "map (store_revision demo_pad (\<lambda>_. [7])) (ds_revisions s) = demo_pair LocalAssistant" using f by blast
  have facts: "ds_next_revision_id s = 3" "ds_cursor s < 2" "current_rule_program s = None"
    using f by (simp_all add: current_rule_program_def current_revision_def)
  note w = demo_writable [OF rs facts]
  have session: "session_ok demo_world (\<lambda>_. []) {[7]} (map fst ?ws)"
    using w by (simp add: session_ok_def) (simp add: same_work_def demo_pair_def)
  from w(1) obtain saved where saved: "saved_file demo_world (s, ?d) = Inr saved" "length saved < 2 ^ 63" by (auto simp: writable_def)
  obtain expected dk' where all: "write_all demo_world ?base ?ws None demo_disk = (expected, dk')" by force
  let ?ck = "checkpoint_header ?base saved"
  have "and_then (whole_payload demo_world s ?d) (checkpoint_bytes_of ?base) = Inr ?ck"
    using saved by (auto simp: whole_payload_def saved_file_def checkpoint_bytes_of_def checkpoint_header_def u64_len_def)
  with all have ck: "content dk' WorkRecovery = Some ?ck" "expected = Some (identity_from_bytes demo_pad ?ck)"
    by (auto simp: publish_work_recovery_def write_work_recovery_def write_whole_def write_atomic_after_prepare_def check_unchanged_def check_work_recovery_identity_def same_base_def
        read_observed_work_recovery_def demo_disk_def observe_def observed_of_def content_put published_def)
  have "length ?ck + 8 + length [1, 2 :: u8] < 2 ^ 64" using saved(2) by (simp add: identity_from_bytes_def demo_pad_32)
  from torn_step_opens_previous [where w = demo_world, OF _ _ _ session demo_disk_opened, of expected dk' _ ?ck 9 "[1, 2]", OF _ _ _ _ _ ck(1) _ this] all saved
  have "\<exists>e. open_checkpoint demo_world ?base (?ck @ take 9 (push_u64 2 @ [1, 2])) = Inr (saved, Some e)"
    by (auto simp: demo_pad_32)
  with a all ck saved show ?thesis by (auto simp: saved_file_def)
qed


section \<open>Saving over a file\<close>

text \<open>Another program that writes the document between the check and the rename.\<close>

definition interfere :: "bytes option \<Rightarrow> disk \<Rightarrow> disk" where
  "interfere other dk = (case other of None \<Rightarrow> dk | Some bs \<Rightarrow> put DocumentFile bs dk)"

definition before_rename :: "bytes option \<Rightarrow> disk \<Rightarrow> bytes option" where
  "before_rename other dk = (case other of None \<Rightarrow> content dk DocumentFile | Some bs \<Rightarrow> Some bs)"

definition is_published :: "file_error + unit \<Rightarrow> bool" where
  "is_published result = (case result of Inr _ \<Rightarrow> True | Inl e \<Rightarrow> published_identity DocumentFile e \<noteq> None)"

definition may_replace :: "(bytes \<Rightarrow> bytes) \<Rightarrow> publish \<Rightarrow> bytes option \<Rightarrow> bool" where
  "may_replace sha mode found =
     (case mode of Replace \<Rightarrow> True | IfAbsent \<Rightarrow> found = None
      | IfUnchanged identity \<Rightarrow> (case found of None \<Rightarrow> False | Some bs \<Rightarrow> identity_from_bytes sha bs = identity))"

lemma content_interfere: "content (interfere other dk) p = (if p = DocumentFile then before_rename other dk else content dk p)"
  by (auto simp: interfere_def before_rename_def content_put split: option.splits)

lemma before_rename_put [simp]: "p \<noteq> DocumentFile \<Longrightarrow> before_rename other (put p bs dk) = before_rename other dk"
  by (simp add: before_rename_def content_put split: option.splits)

text \<open>The last part of a save: the file is renamed over the document unless somebody changed it.\<close>

lemma rename_last:
  assumes "write_atomic_after_prepare sha DocumentFile bs replace
      (\<lambda>dk. let dk = interfere other dk in (if changed sha expected (content dk DocumentFile) then Err ExternalConflict else Ok (), dk)) fault dk =
      (result, dk')"
  shows "(is_published result \<longrightarrow> content dk' DocumentFile = Some bs \<and> \<not> changed sha expected (before_rename other dk) \<and>
      (replace \<or> before_rename other dk = None)) \<and>
    (\<not> is_published result \<longrightarrow> content dk' DocumentFile \<in> {content dk DocumentFile, before_rename other dk}) \<and>
    (\<forall>p. p \<noteq> DocumentFile \<longrightarrow> content dk' p = content dk p)"
  using assms
  by (auto simp: write_atomic_after_prepare_def Let_def is_published_def published_identity_def content_interfere content_put
      content_None [symmetric] split: if_splits)

lemma interfere_Let: "(\<lambda>dk. (Ok (), f dk)) = (\<lambda>dk. let dk = f dk in (if changed sha None (content dk DocumentFile) then Err ExternalConflict else Ok (), dk))"
  by (simp add: changed_def)

text \<open>The first part: the replaced file becomes the backup when it is intact.\<close>

lemma backup_first:
  assumes "(case content dk DocumentFile of
      Some previous \<Rightarrow> if is_ok (verify previous) then write_atomic sha Backup previous fault dk else (Ok (), dk)
    | None \<Rightarrow> (Ok (), dk)) = (result, dk')"
  shows "(\<forall>p. p \<noteq> Backup \<longrightarrow> content dk' p = content dk p) \<and> before_rename other dk' = before_rename other dk \<and>
    (content dk' Backup = content dk Backup \<or> (\<exists>previous. content dk DocumentFile = Some previous \<and> is_ok (verify previous) \<and> content dk' Backup = Some previous)) \<and>
    (\<forall>previous. content dk DocumentFile = Some previous \<longrightarrow> is_ok (verify previous) \<longrightarrow> is_ok result \<longrightarrow> content dk' Backup = Some previous) \<and>
    (\<forall>e. result = Inl e \<longrightarrow> published_identity DocumentFile e = None)"
  using assms
  by (auto simp: write_atomic_def write_atomic_after_prepare_def content_put published_identity_def split: option.splits if_splits)


text \<open>
  C21.  A save never loses what it did not replace.  Whatever fails while \<^verbatim>\<open>publish_bytes\<close> runs, and whatever another program writes to the document between the check
  and the rename: when the save reports that it is done, or done but not confirmed durable, the document is the saved one, the saved bytes have intact checksums, the file
  that was renamed over is one the mode allows to replace (any, none, or one with the expected identity), and an intact file that was there at the start is the backup.
  Otherwise the document is as it was or as the other program wrote it.  In every case the backup is the old one or an
  intact previous document, and the checkpoint is untouched.
\<close>

theorem publish_never_loses:
  assumes "publish_bytes w bs mode (interfere other) backup_fault fault dk = (result, dk')"
  shows "(is_published result \<longrightarrow> content dk' DocumentFile = Some bs \<and> is_ok (verify_checksums (rw_sha w) (rw_load_document w) bs) \<and>
      may_replace (rw_sha w) mode (before_rename other dk) \<and>
      (\<forall>previous. content dk DocumentFile = Some previous \<longrightarrow> is_ok (verify_checksums (rw_sha w) (rw_load_document w) previous) \<longrightarrow>
        content dk' Backup = Some previous)) \<and>
    (\<not> is_published result \<longrightarrow> content dk' DocumentFile \<in> {content dk DocumentFile, before_rename other dk}) \<and>
    (content dk' Backup = content dk Backup \<or>
      (\<exists>previous. content dk DocumentFile = Some previous \<and> is_ok (verify_checksums (rw_sha w) (rw_load_document w) previous) \<and>
        content dk' Backup = Some previous)) \<and>
    content dk' WorkRecovery = content dk WorkRecovery"
proof -
  let ?verify = "verify_checksums (rw_sha w) (rw_load_document w)" and ?doc = "content dk DocumentFile"
  let ?expected = "case mode of IfUnchanged identity \<Rightarrow> Some identity | _ \<Rightarrow> None"
  have conflict: ?thesis if "\<not> is_published result" "dk' = dk" using that by simp
  consider (bad) e where "?verify bs = Inl e" | (taken) "is_ok (?verify bs)" "mode = IfAbsent" "?doc \<noteq> None"
    | (fresh) "is_ok (?verify bs)" "mode = IfAbsent" "?doc = None"
    | (stale) "is_ok (?verify bs)" "mode \<noteq> IfAbsent" "changed (rw_sha w) ?expected ?doc"
    | (replace) "is_ok (?verify bs)" "mode \<noteq> IfAbsent" "\<not> changed (rw_sha w) ?expected ?doc"
    by (cases "?verify bs") (auto simp: is_ok_def)
  then show ?thesis
  proof cases
    case bad
    with assms show ?thesis by (intro conflict) (auto simp: publish_bytes_def is_published_def published_identity_def)
  next
    case taken
    with assms show ?thesis
      by (intro conflict) (auto simp: publish_bytes_def is_published_def published_identity_def content_None is_ok_def split: sum.splits)
  next
    case stale
    with assms show ?thesis
      by (intro conflict) (auto simp: publish_bytes_def is_published_def published_identity_def is_ok_def Let_def split: sum.splits)
  next
    case fresh
    then have "write_atomic_after_prepare (rw_sha w) DocumentFile bs False (\<lambda>dk. (Ok (), interfere other dk)) fault dk = (result, dk')"
      using assms by (auto simp: publish_bytes_def content_None is_ok_def Let_def split: sum.splits)
    from rename_last [OF this [unfolded interfere_Let [of _ "rw_sha w"]]] fresh show ?thesis by (auto simp: may_replace_def)
  next
    case replace
    obtain backed dk1 where b: "(case ?doc of
        Some previous \<Rightarrow> if is_ok (?verify previous) then write_atomic (rw_sha w) Backup previous backup_fault dk else (Ok (), dk)
      | None \<Rightarrow> (Ok (), dk)) = (backed, dk1)" by force
    note first = backup_first [OF b, of other]
    show ?thesis
    proof (cases backed)
      case (Inl e)
      with replace assms b have "result = Inl e" "dk' = dk1" by (auto simp: publish_bytes_def is_ok_def Let_def split: sum.splits)
      with first Inl show ?thesis by (auto simp: is_published_def)
    next
      case (Inr u)
      with replace assms b have "write_atomic_after_prepare (rw_sha w) DocumentFile bs True
          (\<lambda>dk. let dk = interfere other dk in
            (if changed (rw_sha w) ?expected (content dk DocumentFile) then Err ExternalConflict else Ok (), dk)) fault dk1 = (result, dk')"
        by (auto simp: publish_bytes_def is_ok_def Let_def split: sum.splits)
      note last = rename_last [OF this]
      have "\<not> changed (rw_sha w) ?expected found \<Longrightarrow> may_replace (rw_sha w) mode found" for found
        using replace(2) by (cases mode) (auto simp: may_replace_def changed_def split: option.splits)
      with first last replace(1) Inr show ?thesis by (auto simp: is_ok_def)
    qed
  qed
qed

theorem publish_never_loses_witness:
  "\<exists>result dk'. publish_bytes demo_world [9] (IfUnchanged (identity_from_bytes demo_pad [5])) (interfere (Some [8])) NoFault NoFault demo_disk = (result, dk') \<and>
     \<not> is_published result \<and> content dk' DocumentFile = Some [8]"
proof -
  obtain result dk' where r: "publish_bytes demo_world [9] (IfUnchanged (identity_from_bytes demo_pad [5])) (interfere (Some [8])) NoFault NoFault demo_disk = (result, dk')"
    by force
  note t = publish_never_loses [OF r]
  have v: "verify_checksums demo_pad (\<lambda>_. Inr ()) bs = Inr ()" if "bs \<in> {[9], [5]}" for bs
    using that by (auto simp: verify_checksums_def CONTAINER_MAGIC_def str_bytes_def)
  have "demo_pad [8] \<noteq> demo_pad [5]" by (simp add: demo_pad_def)
  then have "\<not> may_replace demo_pad (IfUnchanged (identity_from_bytes demo_pad [5])) (before_rename (Some [8]) demo_disk)"
    by (simp add: may_replace_def before_rename_def identity_from_bytes_def)
  with t have n: "\<not> is_published result" by auto
  with t have "content dk' DocumentFile = Some [5] \<or> content dk' DocumentFile = Some [8]" by (auto simp: before_rename_def demo_disk_opened)
  moreover have "content dk' DocumentFile \<noteq> Some [5]"
    using r v \<open>demo_pad [8] \<noteq> demo_pad [5]\<close>
    by (auto simp: publish_bytes_def changed_def demo_disk_opened write_atomic_def write_atomic_after_prepare_def is_ok_def content_put
        interfere_def Let_def identity_from_bytes_def)
  ultimately show ?thesis using r n by blast
qed


section \<open>Giving up revisions to the budget\<close>

abbreviation weight :: "slot list \<Rightarrow> nat" where
  "weight slots \<equiv> sum_list (map slot_weight slots)"

lemma weight_None [simp]: "slot_weight None = 0"
  by (simp add: slot_weight_def)

text \<open>The loop over the slots before the cursor, then the loop over those after it from the end.\<close>

lemma give_up_before:
  assumes "k \<le> cursor" and "cursor < length slots"
  shows "(\<exists>a. k \<le> a \<and> a \<le> cursor \<and> weight (drop a slots) \<le> budget \<and> (k < a \<longrightarrow> budget < weight (drop (a - 1) slots)) \<and>
      give_up budget ([k..<cursor] @ later) (weight (drop k slots)) (replicate k None @ drop k slots) = replicate a None @ drop a slots) \<or>
    (k < cursor \<longrightarrow> budget < weight (drop (cursor - 1) slots)) \<and> budget < weight (drop cursor slots) \<and>
      give_up budget ([k..<cursor] @ later) (weight (drop k slots)) (replicate k None @ drop k slots) =
        give_up budget later (weight (drop cursor slots)) (replicate cursor None @ drop cursor slots)"
  using assms
proof (induction k rule: inc_induct)
  case base
  then show ?case using give_up_none [of "weight (drop cursor slots)" budget] by (cases "weight (drop cursor slots) \<le> budget") auto
next
  case (step k)
  have d: "drop k slots = slots ! k # drop (Suc k) slots" using step.hyps(2) assms(2) by (simp add: Cons_nth_drop_Suc)
  have u: "(replicate k None @ drop k slots)[k := None] = replicate (Suc k) None @ drop (Suc k) slots"
    by (simp add: d list_update_append replicate_app_Cons_same)
  show ?case
  proof (cases "weight (drop k slots) \<le> budget")
    case True
    then show ?thesis using step.hyps(1,2) give_up_none [OF True] by (intro disjI1 exI [of _ k]) auto
  next
    case False
    have go: "give_up budget ([k..<cursor] @ later) (weight (drop k slots)) (replicate k None @ drop k slots) =
        give_up budget ([Suc k..<cursor] @ later) (weight (drop (Suc k) slots)) (replicate (Suc k) None @ drop (Suc k) slots)"
      using False step.hyps(2) u by (simp add: upt_conv_Cons d nth_append)
    from step.IH [OF assms(2), folded go] show ?thesis
    proof (elim disjE exE conjE)
      fix a
      assume a: "Suc k \<le> a" "a \<le> cursor" "weight (drop a slots) \<le> budget" "Suc k < a \<longrightarrow> budget < weight (drop (a - 1) slots)"
        "give_up budget ([k..<cursor] @ later) (weight (drop k slots)) (replicate k None @ drop k slots) =
          replicate a None @ drop a slots"
      moreover have "budget < weight (drop (a - 1) slots)" using a(1,4) False by (cases "a = Suc k") auto
      ultimately show ?thesis by (intro disjI1 exI [of _ a]) auto
    next
      assume later: "Suc k < cursor \<longrightarrow> budget < weight (drop (cursor - 1) slots)" "budget < weight (drop cursor slots)"
        "give_up budget ([k..<cursor] @ later) (weight (drop k slots)) (replicate k None @ drop k slots) =
          give_up budget later (weight (drop cursor slots)) (replicate cursor None @ drop cursor slots)"
      have "budget < weight (drop (cursor - 1) slots)" using later(1) False step.hyps(2) by (cases "cursor = Suc k") auto
      with later(2,3) show ?thesis by (intro disjI2) auto
    qed
  qed
qed

lemma give_up_after:
  assumes "cursor < m" and "m \<le> length slots" and "budget < weight (take (m - cursor) (drop cursor slots))"
  shows "\<exists>b. cursor < b \<and> b \<le> m \<and> (weight (take (b - cursor) (drop cursor slots)) \<le> budget \<or> b = Suc cursor) \<and>
      (b < m \<longrightarrow> budget < weight (take (Suc b - cursor) (drop cursor slots))) \<and>
      give_up budget (rev [Suc cursor..<m]) (weight (take (m - cursor) (drop cursor slots)))
        (replicate cursor None @ take (m - cursor) (drop cursor slots) @ replicate (length slots - m) None) =
      replicate cursor None @ take (b - cursor) (drop cursor slots) @ replicate (length slots - b) None"
  using assms
proof (induction m)
  case (Suc m)
  show ?case
  proof (cases "m = cursor")
    case True
    then show ?thesis by (intro exI [of _ "Suc m"]) auto
  next
    case False
    with Suc.prems(1) have m: "cursor < m" by simp
    let ?rows = "\<lambda>b. replicate cursor None @ take (b - cursor) (drop cursor slots) @ replicate (length slots - b) None"
    let ?w = "\<lambda>b. weight (take (b - cursor) (drop cursor slots))"
    have at: "take (Suc m - cursor) (drop cursor slots) = take (m - cursor) (drop cursor slots) @ [slots ! m]"
      using m Suc.prems(2) by (simp add: Suc_diff_le take_Suc_conv_app_nth)
    have len: "length (replicate cursor None @ take (m - cursor) (drop cursor slots)) = m" using m Suc.prems(2) by simp
    have "?rows (Suc m) = (replicate cursor None @ take (m - cursor) (drop cursor slots)) @ slots ! m # replicate (length slots - Suc m) None"
      by (simp add: at)
    then have nth: "?rows (Suc m) ! m = slots ! m" and upd: "(?rows (Suc m))[m := None] = ?rows m"
      using len Suc.prems(2)
      by (auto simp: nth_append list_update_append replicate_Suc [symmetric] Suc_diff_Suc simp del: replicate_Suc)
    have go: "give_up budget (rev [Suc cursor..<Suc m]) (?w (Suc m)) (?rows (Suc m)) = give_up budget (rev [Suc cursor..<m]) (?w m) (?rows m)"
      using m Suc.prems(3) nth upd at by simp
    show ?thesis
    proof (cases "?w m \<le> budget")
      case True
      then show ?thesis unfolding go using give_up_none [OF True] m Suc.prems by (intro exI [of _ m]) auto
    next
      case False
      then obtain b where b: "cursor < b" "b \<le> m" "?w b \<le> budget \<or> b = Suc cursor" "b < m \<longrightarrow> budget < ?w (Suc b)"
        "give_up budget (rev [Suc cursor..<m]) (?w m) (?rows m) = ?rows b"
        using Suc.IH [OF m] Suc.prems(2) by auto
      moreover have "budget < ?w (Suc b)" using b(2,4) Suc.prems(3) by (cases "b = m") auto
      ultimately show ?thesis unfolding go by (intro exI [of _ b]) auto
    qed
  qed
qed simp


text \<open>
  C35.  The budget of a checkpoint costs the oldest revisions first, then the farthest redo steps, and no more than needed.  \<^verbatim>\<open>give_up_oldest\<close>
  keeps one stretch of the history, with the current revision in it; the stretch is within the budget or the current revision alone; redo steps are given up only when
  everything before the current revision was; and the stretch with the last revision given up put back would exceed the budget.
\<close>

theorem give_up_oldest_stretch:
  assumes "cursor < length slots"
  shows "\<exists>a b. a \<le> cursor \<and> cursor < b \<and> b \<le> length slots \<and>
    give_up_oldest budget cursor slots = replicate a None @ take (b - a) (drop a slots) @ replicate (length slots - b) None \<and>
    (sum_list (map slot_weight (give_up_oldest budget cursor slots)) \<le> budget \<or> a = cursor \<and> b = Suc cursor) \<and>
    (b < length slots \<longrightarrow> a = cursor \<and> budget < sum_list (map slot_weight (take (Suc b - cursor) (drop cursor slots)))) \<and>
    (0 < a \<longrightarrow> budget < sum_list (map slot_weight (drop (a - 1) slots)))"
proof -
  let ?n = "length slots" and ?later = "rev [Suc cursor..<length slots]"
  have all: "give_up_oldest budget cursor slots = give_up budget ([0..<cursor] @ ?later) (weight (drop 0 slots)) (replicate 0 None @ drop 0 slots)"
    by (simp add: give_up_oldest_def)
  from give_up_before [of 0 cursor slots budget ?later, folded all] assms consider
    a where "a \<le> cursor" "weight (drop a slots) \<le> budget" "0 < a \<longrightarrow> budget < weight (drop (a - 1) slots)"
      "give_up_oldest budget cursor slots = replicate a None @ drop a slots"
    | "0 < cursor \<longrightarrow> budget < weight (drop (cursor - 1) slots)" "budget < weight (drop cursor slots)"
      "give_up_oldest budget cursor slots = give_up budget ?later (weight (drop cursor slots)) (replicate cursor None @ drop cursor slots)"
    by auto
  then show ?thesis
  proof cases
    case (1 a)
    with assms show ?thesis by - (rule exI [of _ a], rule exI [of _ ?n], auto simp: sum_list_replicate)
  next
    case 2
    from give_up_after [of cursor ?n slots budget] assms 2(2) obtain b where b: "cursor < b" "b \<le> ?n"
      "weight (take (b - cursor) (drop cursor slots)) \<le> budget \<or> b = Suc cursor"
      "b < ?n \<longrightarrow> budget < weight (take (Suc b - cursor) (drop cursor slots))"
      "give_up budget ?later (weight (drop cursor slots)) (replicate cursor None @ drop cursor slots) =
        replicate cursor None @ take (b - cursor) (drop cursor slots) @ replicate (?n - b) None" by auto
    from 2(3) b(5) have "give_up_oldest budget cursor slots =
        replicate cursor None @ take (b - cursor) (drop cursor slots) @ replicate (?n - b) None" by simp
    with 2(1) b show ?thesis by - (rule exI [of _ cursor], rule exI [of _ b], auto simp: sum_list_replicate)
  qed
qed

theorem give_up_oldest_stretch_witness:
  "\<exists>a b. a \<le> 1 \<and> 1 < b \<and> b \<le> 2 \<and>
    give_up_oldest 1 1 (map (Some \<circ> assembled_of (\<lambda>_. [])) (demo_pair ManualClient)) =
      replicate a None @ take (b - a) (drop a (map (Some \<circ> assembled_of (\<lambda>_. [])) (demo_pair ManualClient))) @ replicate (2 - b) None"
proof -
  let ?slots = "map (Some \<circ> assembled_of (\<lambda>_. [])) (demo_pair ManualClient)"
  have n: "length ?slots = 2" by (simp add: demo_pair_def)
  then have "1 < length ?slots" by simp
  from give_up_oldest_stretch [OF this, of 1] show ?thesis unfolding n by blast
qed

end
