(* ===== verification/Ketchup_Session.thy ===== *)
theory Ketchup_Session
  imports Ketchup_Durable
begin

text \<open>
  A session on one file (\<^verbatim>\<open>ketchup-application/src/session.rs\<close>): a document store, the data beside it, and what the session knows
  of its file and of its checkpoint.  Every edit is a transaction on the store that ends with a write of the checkpoint, so that an
  edit whose checkpoint cannot be written is undone; a save publishes the current revision and clears the checkpoint.
  The results of the exact worker and the lock are left out, and a session saves to its own file.
\<close>

section \<open>The digest of a history\<close>

definition revision_principal_bytes :: "principal \<Rightarrow> bytes" where
  "revision_principal_bytes p =
     (case p of ManualClient \<Rightarrow> [0] | Human i \<Rightarrow> 1 # le_bytes 8 (unat i) | LocalAssistant \<Rightarrow> [2] | Plugin i \<Rightarrow> 3 # le_bytes 8 (unat i))"

definition revision_digest_bytes :: "('r snapshot \<Rightarrow> str) \<Rightarrow> ('r, 'f) revision \<Rightarrow> bytes" where
  "revision_digest_bytes snapshot_digest r =
     le_bytes 8 (unat (rv_id r)) @ str_bytes (snapshot_digest (rv_snapshot r)) @ str_bytes (rv_batch_digest r) @
     (case rv_rule_program r of None \<Rightarrow> [] | Some program \<Rightarrow> 1 # bp_digest program) @
     (case rv_origin r of
        Initial \<Rightarrow> [0]
      | Principal p \<Rightarrow> 1 # revision_principal_bytes p
      | Rollback p target \<Rightarrow> 2 # revision_principal_bytes p @ le_bytes 8 (unat target)) @
     (case rv_checkpoint r of None \<Rightarrow> [0] | Some name \<Rightarrow> 1 # le_bytes 8 (length name) @ str_bytes name)"

definition history_digest :: "(bytes \<Rightarrow> bytes) \<Rightarrow> ('r snapshot \<Rightarrow> str) \<Rightarrow> ('r, 'f) document_store \<Rightarrow> str" where
  "history_digest sha snapshot_digest document =
     take 16 (hex_encode (sha (str_bytes ''ketchup.revision-history.v2'' @ le_bytes 8 (ds_cursor document) @
       concat (map (revision_digest_bytes snapshot_digest) (take (ds_cursor document + 1) (ds_revisions document))))))"

section \<open>A session\<close>

datatype session_error =
    Prepare "proposal_prepare_error fault"
  | Commit "proposal_commit_error fault"
  | Canonical "canonical_error fault"
  | Persistence file_error
  | ReviewOnly
  | NoUndo
  | NoRedo
  | SessionPanicked

record recovery_state =
  ry_source :: role
  ry_work_recovery_base :: "file_identity option"

text \<open>\<open>se_path\<close>: the session's path is set.  The requested path of a recovery is the file too.\<close>

record ('r, 'f) document_session =
  se_document :: "('r, 'f) document_store"
  se_container :: container_data
  se_path :: bool
  se_recovery :: "recovery_state option"
  se_file_identity :: "file_identity option"
  se_work_recovery_identity :: "file_identity option"
  se_pending_cleanup :: "file_identity option"
  se_saved_digest :: "str option"

text \<open>The hash of the history digest is the one of the files; it is named apart.\<close>

record 'r session_world =
  sw_recovery :: "'r recovery_world"
  sw_sha :: "bytes \<Rightarrow> bytes"
  sw_canonical_digest :: "'r snapshot \<Rightarrow> str"

definition session_digest :: "'r session_world \<Rightarrow> ('r, 'f) document_store \<Rightarrow> str" where
  "session_digest sw = history_digest (sw_sha sw) (sw_canonical_digest sw)"

definition session_new :: "('r, 'f) document_store \<Rightarrow> ('r, 'f) document_session" where
  "session_new document =
     \<lparr>se_document = document, se_container = container_data_default, se_path = False, se_recovery = None, se_file_identity = None,
      se_work_recovery_identity = None, se_pending_cleanup = None, se_saved_digest = None\<rparr>"

text \<open>A loaded document is its store and data, or \<open>None\<close> when it opens for review only.\<close>

definition session_open ::
  "'r session_world \<Rightarrow> (bytes \<Rightarrow> persistence_error + (('r, 'f) document_store \<times> container_data) option) \<Rightarrow>
   (bytes \<Rightarrow> persistence_error + (('r, 'f) document_store \<times> container_data) option) \<Rightarrow> write_fault \<Rightarrow> disk \<Rightarrow>
   (session_error + ('r, 'f) document_session) \<times> disk" where
  "session_open sw load load_with_history fault dk =
     (case load_file_with_source (sw_recovery sw) load load_with_history dk of
        Inl e \<Rightarrow> (Err (Persistence e), dk)
      | Inr loaded \<Rightarrow>
          (case lf_outcome loaded of
             None \<Rightarrow> (Err ReviewOnly, dk)
           | Some (document, container) \<Rightarrow>
               let recovery = (if lf_source loaded \<noteq> DocumentFile
                   then Some \<lparr>ry_source = lf_source loaded, ry_work_recovery_base = lf_work_recovery_base loaded\<rparr> else None);
                   unusable = list_ex (\<lambda>n. case n of WorkRecoveryUnusable _ \<Rightarrow> True | _ \<Rightarrow> False) (lf_notices loaded)
               in (Ok \<lparr>se_document = document, se_container = container, se_path = (recovery = None), se_recovery = recovery,
                     se_file_identity =
                       (if recovery = None then Some (identity_from_bytes (rw_sha (sw_recovery sw)) (lf_source_bytes loaded)) else None),
                     se_work_recovery_identity = lf_work_recovery_identity loaded, se_pending_cleanup = None,
                     se_saved_digest = Some (session_digest sw document)\<rparr>,
                   if unusable then snd (set_aside_work_recovery fault dk) else dk)))"

definition checkpoint_target :: "('r, 'f) document_session \<Rightarrow> file_identity option" where
  "checkpoint_target se =
     (if se_path se \<and> se_file_identity se \<noteq> None then se_file_identity se
      else (case se_recovery se of None \<Rightarrow> None | Some recovery \<Rightarrow> ry_work_recovery_base recovery))"

definition write_checkpoint_for ::
  "'r session_world \<Rightarrow> ('r, 'f) document_store \<Rightarrow> container_data \<Rightarrow> file_identity option \<Rightarrow> str option \<Rightarrow> file_identity option \<Rightarrow>
   write_fault \<Rightarrow> disk \<Rightarrow> (file_error + file_identity option) \<times> disk" where
  "write_checkpoint_for sw document container target saved_digest identity fault dk =
     (case target of
        None \<Rightarrow> (Ok identity, dk)
      | Some base \<Rightarrow>
          if saved_digest = Some (session_digest sw document) then
            (case clear_work_recovery (rw_sha (sw_recovery sw)) identity (\<lambda>dk. dk) fault dk of
               (Inl e, dk) \<Rightarrow> (Err e, dk) | (Inr _, dk) \<Rightarrow> (Ok None, dk))
          else
            (case publish_work_recovery (sw_recovery sw) document container base identity fault dk of
               (Inl e, dk) \<Rightarrow> (Err e, dk) | (Inr identity, dk) \<Rightarrow> (Ok (Some identity), dk)))"

text \<open>
  An edit: the change and the checkpoint are one transaction on the store.  A checkpoint that is written but not
  confirmed durable keeps the change and is reported.
\<close>

definition mutate_with_work_recovery ::
  "'r session_world \<Rightarrow> (('r, 'f) document_store \<Rightarrow> (session_error + 'a) \<times> ('r, 'f) document_store) \<Rightarrow> write_fault \<Rightarrow>
   ('r, 'f) document_session \<Rightarrow> disk \<Rightarrow> (session_error + 'a) \<times> ('r, 'f) document_session \<times> disk" where
  "mutate_with_work_recovery sw mutate fault se dk =
     (let saved_digest = (if se_recovery se = None then se_saved_digest se else None);
          (mutated, s) = mutate (se_document se);
          (checkpoint, dk) =
            (if is_ok mutated
             then write_checkpoint_for sw s (se_container se) (checkpoint_target se) saved_digest (se_work_recovery_identity se) fault dk
             else (Ok (se_work_recovery_identity se), dk));
          unconfirmed = (case checkpoint of Inl e \<Rightarrow> published_identity WorkRecovery e | Inr _ \<Rightarrow> None);
          (result, document) = try_canonical_transaction mutate
            (\<lambda>_. case checkpoint of Inr _ \<Rightarrow> Ok () | Inl e \<Rightarrow> if unconfirmed \<noteq> None then Ok () else Err (Persistence e))
            (se_document se);
          se = se \<lparr>se_document := document,
            se_work_recovery_identity :=
              (if is_ok result then (case checkpoint of Inr identity \<Rightarrow> identity | Inl _ \<Rightarrow> unconfirmed) else se_work_recovery_identity se)\<rparr>
      in case checkpoint of
           Inl e \<Rightarrow> if unconfirmed \<noteq> None then (Err (Persistence e), se, dk) else (result, se, dk)
         | Inr _ \<Rightarrow> (result, se, dk))"

definition session_undo ::
  "'r session_world \<Rightarrow> write_fault \<Rightarrow> ('r, 'f) document_session \<Rightarrow> disk \<Rightarrow> (session_error + 'r snapshot) \<times> ('r, 'f) document_session \<times> disk" where
  "session_undo sw =
     mutate_with_work_recovery sw (\<lambda>s. case (undo s :: unit fault + _) of
        Inl _ \<Rightarrow> (Err SessionPanicked, s)
      | Inr (None, s) \<Rightarrow> (Err NoUndo, s)
      | Inr (Some snapshot, s) \<Rightarrow> (Ok snapshot, s))"

definition session_redo ::
  "'r session_world \<Rightarrow> write_fault \<Rightarrow> ('r, 'f) document_session \<Rightarrow> disk \<Rightarrow> (session_error + 'r snapshot) \<times> ('r, 'f) document_session \<times> disk" where
  "session_redo sw =
     mutate_with_work_recovery sw (\<lambda>s. case (redo s :: unit fault + _) of
        Inl _ \<Rightarrow> (Err SessionPanicked, s)
      | Inr (None, s) \<Rightarrow> (Err NoRedo, s)
      | Inr (Some snapshot, s) \<Rightarrow> (Ok snapshot, s))"

definition local_assistant_model :: "'d proposal_context" where
  "local_assistant_model =
     \<lparr>px_principal = LocalAssistant, px_goal = CanonicalPreview, px_assumptions = [], px_risk = Standard,
      px_confirmation = ReviewRequired, px_budget = HOST_MAX\<rparr>"

definition plan_commands ::
  "(bytes \<Rightarrow> bytes) \<Rightarrow> ('r, 'x, 'c, 'f) families \<Rightarrow> ('r, 'c, 'd, 'v) analysis \<Rightarrow> 'c command_batch \<Rightarrow> ('r, 'f) document_session \<Rightarrow>
   session_error + ('c, 'd, 'v) proposal" where
  "plan_commands sha fam an batch se =
     map_err Prepare (prepare_proposal_with_context sha fam an batch local_assistant_model (se_document se))"

definition apply_proposal_verified ::
  "'r session_world \<Rightarrow> (bytes \<Rightarrow> bytes) \<Rightarrow> ('r, 'x, 'c, 'f) families \<Rightarrow> ('r, 'c, 'd, 'v) analysis \<Rightarrow> ('c, 'd, 'v) proposal \<Rightarrow> write_fault \<Rightarrow>
   ('r, 'f) document_session \<Rightarrow> disk \<Rightarrow> (session_error + ('r, 'f, 'd) verified_commit) \<times> ('r, 'f) document_session \<times> disk" where
  "apply_proposal_verified sw sha fam an proposal =
     mutate_with_work_recovery sw (\<lambda>s. case commit_verified_proposal sha fam an proposal s of (result, s) \<Rightarrow> (map_err Commit result, s))"

definition apply_proposal ::
  "'r session_world \<Rightarrow> (bytes \<Rightarrow> bytes) \<Rightarrow> ('r, 'x, 'c, 'f) families \<Rightarrow> ('r, 'c, 'd, 'v) analysis \<Rightarrow> ('c, 'd, 'v) proposal \<Rightarrow> write_fault \<Rightarrow>
   ('r, 'f) document_session \<Rightarrow> disk \<Rightarrow> (session_error + 'r snapshot) \<times> ('r, 'f) document_session \<times> disk" where
  "apply_proposal sw sha fam an proposal fault se dk =
     (case apply_proposal_verified sw sha fam an proposal fault se dk of
        (result, se, dk) \<Rightarrow> (and_then result (\<lambda>_. Ok (current (se_document se))), se, dk))"

definition session_replace_rule_program_source ::
  "'r session_world \<Rightarrow> (bytes \<Rightarrow> bytes) \<Rightarrow> (rule_program_source \<Rightarrow> bytes) \<Rightarrow> ('r, 'x, 'c, 'f) families \<Rightarrow> rule_program_source \<Rightarrow> write_fault \<Rightarrow>
   ('r, 'f) document_session \<Rightarrow> disk \<Rightarrow> (session_error + 'r snapshot) \<times> ('r, 'f) document_session \<times> disk" where
  "session_replace_rule_program_source sw sha json fam source fault se dk =
     (if (case current_rule_program (se_document se) of None \<Rightarrow> False | Some p \<Rightarrow> rule_program_eq p source)
      then (Ok (current (se_document se)), se, dk)
      else
        (case mutate_with_work_recovery sw (\<lambda>s. case replace_rule_program_source sha json fam source s of
            Inl e \<Rightarrow> (Err (Canonical e), s) | Inr s \<Rightarrow> (Ok (), s)) fault se dk of
           (result, se, dk) \<Rightarrow> (and_then result (\<lambda>_. Ok (current (se_document se))), se, dk)))"

text \<open>A rule program's commands and its source are one edit, under the larger budget of rule programs.\<close>

definition apply_rule_commands_with_source ::
  "'r session_world \<Rightarrow> (bytes \<Rightarrow> bytes) \<Rightarrow> (rule_program_source \<Rightarrow> bytes) \<Rightarrow> ('r, 'x, 'c, 'f) families \<Rightarrow> ('r, 'c, 'd, 'v) analysis \<Rightarrow>
   'c command_batch \<Rightarrow> rule_program_source \<Rightarrow> write_fault \<Rightarrow> ('r, 'f) document_session \<Rightarrow> disk \<Rightarrow>
   (session_error + 'r snapshot) \<times> ('r, 'f) document_session \<times> disk" where
  "apply_rule_commands_with_source sw sha json fam an batch source fault se dk =
     (if cb_commands batch = [] then session_replace_rule_program_source sw sha json fam source fault se dk
      else
        (case map_err Prepare (prepare_proposal_with_context sha fam an batch
            (local_assistant_model \<lparr>px_budget := RULE_PROGRAM\<rparr>) (se_document se)) of
           Inl e \<Rightarrow> (Err e, se, dk)
         | Inr proposal \<Rightarrow>
             (case mutate_with_work_recovery sw (\<lambda>s. case commit_verified_proposal sha fam an proposal s of
                 (Inl e, s) \<Rightarrow> (Err (Commit e), s)
               | (Inr _, s) \<Rightarrow> (case bind_rule_program sha json source s of Inl e \<Rightarrow> (Err (Canonical e), s) | Inr s \<Rightarrow> (Ok (), s)))
                 fault se dk of
                (result, se, dk) \<Rightarrow> (and_then result (\<lambda>_. Ok (current (se_document se))), se, dk))))"

definition is_modified :: "'r session_world \<Rightarrow> ('r, 'f) document_session \<Rightarrow> bool" where
  "is_modified sw se \<longleftrightarrow> se_recovery se \<noteq> None \<or> se_saved_digest se \<noteq> Some (session_digest sw (se_document se))"

definition retry_pending_cleanup ::
  "'r session_world \<Rightarrow> write_fault \<Rightarrow> ('r, 'f) document_session \<Rightarrow> disk \<Rightarrow> (file_error + unit) \<times> ('r, 'f) document_session \<times> disk" where
  "retry_pending_cleanup sw fault se dk =
     (case se_pending_cleanup se of
        None \<Rightarrow> (Ok (), se, dk)
      | Some identity \<Rightarrow>
          (case clear_work_recovery (rw_sha (sw_recovery sw)) (Some identity) (\<lambda>dk. dk) fault dk of
             (Inl e, dk) \<Rightarrow> (Err e, se, dk)
           | (Inr _, dk) \<Rightarrow> (Ok (), se \<lparr>se_pending_cleanup := None\<rparr>, dk)))"

definition write_work_recovery_checkpoint ::
  "'r session_world \<Rightarrow> write_fault \<Rightarrow> write_fault \<Rightarrow> ('r, 'f) document_session \<Rightarrow> disk \<Rightarrow>
   (session_error + bool) \<times> ('r, 'f) document_session \<times> disk" where
  "write_work_recovery_checkpoint sw cleanup_fault fault se dk =
     (case retry_pending_cleanup sw cleanup_fault se dk of
        (_, se, dk) \<Rightarrow>
          (case mutate_with_work_recovery sw (\<lambda>s. (Ok (), s)) fault se dk of
             (Inl e, se, dk) \<Rightarrow> (Err e, se, dk)
           | (Inr _, se, dk) \<Rightarrow> (Ok (se_work_recovery_identity se \<noteq> None), se, dk)))"

definition save_mode :: "bool \<Rightarrow> file_identity option \<Rightarrow> publish" where
  "save_mode overwrite expected =
     (if overwrite then (case expected of Some identity \<Rightarrow> IfUnchanged identity | None \<Rightarrow> Replace) else IfAbsent)"

text \<open>How the parts of a save go wrong: the retried cleanup, the backup, the file, and the cleanup.\<close>

record save_faults =
  sf_retry :: write_fault
  sf_backup :: write_fault
  sf_file :: write_fault
  sf_cleanup :: write_fault

definition after_publish ::
  "'r session_world \<Rightarrow> write_fault \<Rightarrow> bytes \<Rightarrow> ('r, 'f) document_session \<Rightarrow> disk \<Rightarrow> ('r, 'f) document_session \<times> disk" where
  "after_publish sw fault prepared se dk =
     (let (cleaned, dk) =
        (if (se_path se \<or> se_recovery se \<noteq> None) \<and> se_work_recovery_identity se \<noteq> None
         then clear_work_recovery (rw_sha (sw_recovery sw)) (se_work_recovery_identity se) (\<lambda>dk. dk) fault dk else (Ok False, dk))
      in (se \<lparr>se_path := True, se_recovery := None,
            se_file_identity := Some (identity_from_bytes (rw_sha (sw_recovery sw)) prepared),
            se_work_recovery_identity := None,
            se_pending_cleanup := (if is_ok cleaned then se_pending_cleanup se else se_work_recovery_identity se),
            se_saved_digest := Some (session_digest sw (se_document se))\<rparr>, dk))"

definition session_save ::
  "'r session_world \<Rightarrow> bool \<Rightarrow> save_faults \<Rightarrow> ('r, 'f) document_session \<Rightarrow> disk \<Rightarrow>
   (session_error + unit) \<times> ('r, 'f) document_session \<times> disk" where
  "session_save sw overwrite faults se dk =
     (case retry_pending_cleanup sw (sf_retry faults) se dk of
        (Inl e, se, dk) \<Rightarrow> (Err (Persistence e), se, dk)
      | (Inr _, se, dk) \<Rightarrow>
          let active = se_path se \<or> se_recovery se \<noteq> None in
          (case check_work_recovery_identity (rw_sha (sw_recovery sw)) (if active then se_work_recovery_identity se else None) dk of
             (Inl e, dk) \<Rightarrow> (Err (Persistence e), se, dk)
           | (Inr _, dk) \<Rightarrow>
               (case prepare_document (sw_recovery sw) (se_document se) (se_container se) of
                  Inl e \<Rightarrow> (Err (Persistence (Format e)), se, dk)
                | Inr prepared \<Rightarrow>
                    (case publish_document (sw_recovery sw) prepared
                        (save_mode overwrite (if se_path se then se_file_identity se else None)) (sf_backup faults) (sf_file faults) dk of
                       (outcome, dk) \<Rightarrow>
                         (case outcome of
                            Inl e \<Rightarrow>
                              if published_identity DocumentFile e = None then (Err (Persistence e), se, dk)
                              else (Err (Persistence e), after_publish sw (sf_cleanup faults) prepared se dk)
                          | Inr _ \<Rightarrow> (Ok (), after_publish sw (sf_cleanup faults) prepared se dk))))))"


section \<open>What a session keeps\<close>

definition session_kept ::
  "'r session_world \<Rightarrow> (rule_program_source \<Rightarrow> bytes) \<Rightarrow> bytes set \<Rightarrow> ('r, 'f) document_session \<Rightarrow> disk \<Rightarrow> bool" where
  "session_kept sw json S se dk \<longleftrightarrow>
     se_path se \<and> se_recovery se = None \<and>
     (\<exists>base. se_file_identity se = Some base \<and>
        (case se_work_recovery_identity se of
           Some identity \<Rightarrow>
             disk_ok (sw_recovery sw) json S base (Some (se_document se, se_container se)) dk \<and>
             observed_checkpoint (rw_sha (sw_recovery sw)) dk = Some identity \<and> se_pending_cleanup se = None
         | None \<Rightarrow>
             se_saved_digest se = Some (session_digest sw (se_document se)) \<and>
             seen_ok (good_observed (sw_recovery sw) json S base (None :: (('r, 'f) document_store \<times> container_data) option)) dk \<and>
             (\<exists>bs. content dk DocumentFile = Some bs \<and> identity_from_bytes (rw_sha (sw_recovery sw)) bs = base) \<and>
             se_pending_cleanup se = observed_checkpoint (rw_sha (sw_recovery sw)) dk))"

lemma restored_fields:
  "ds_revisions (restore_state s t) = ds_revisions s" "ds_cursor (restore_state s t) = ds_cursor s"
  "ds_next_revision_id (restore_state s t) = ds_next_revision_id s"
  by (simp_all add: restore_state_def)

lemma restored_digest: "session_digest sw (restore_state s t) = session_digest sw s"
  by (simp add: session_digest_def history_digest_def restored_fields)

lemma restored_held: "held_write w json S base (restore_state s t, d) = held_write w json S base (s, d)"
  by (auto simp: fun_eq_iff held_write_def writable_def side_of_write_def saved_file_def history_of_def restored_fields
      save_document_store_def encode_revision_history_def history_imported_sources_def current_def current_revision_def current_rule_program_def Let_def)

lemma restored_disk: "disk_ok w json S base (Some (restore_state s t, d)) dk = disk_ok w json S base (Some (s, d)) dk"
proof -
  have "history_of w json (restore_state s t) = history_of w json s" by (simp add: history_of_def restored_fields)
  then have "good_observed w json S base (Some (restore_state s t, d)) = good_observed w json S base (Some (s, d))"
    by (auto simp: fun_eq_iff good_observed_def restored_held)
  then show ?thesis by (auto simp: disk_ok_def restored_held)
qed

lemma restored_kept: "session_kept sw json S (se \<lparr>se_document := restore_state (se_document se) t\<rparr>) dk = session_kept sw json S se dk"
  by (auto simp: session_kept_def restored_digest restored_disk split: option.splits)

lemma seen_weaker: "seen_ok (good_observed w json S base written) dk \<Longrightarrow> seen_ok (good_observed w json S base' None) dk"
  by (fastforce simp: seen_ok_def good_observed_def)

lemma seen_put_any: "seen_ok good dk \<Longrightarrow> seen_ok good (put p bs dk)"
  by (rule seen_put) simp_all

text \<open>The checkpoint removed, or kept when the removal fails.\<close>

abbreviation without_checkpoint :: "disk \<Rightarrow> disk" where
  "without_checkpoint dk \<equiv> dk \<lparr>dk_files := (dk_files dk) (WorkRecovery := None)\<rparr>"

lemma clear_observed:
  assumes "observed_checkpoint sha dk = Some identity"
  shows "clear_work_recovery sha (Some identity) (\<lambda>dk. dk) fault dk =
    (if fault = WriteFails then (Err (FileIo WriteFailed), dk) else (Ok True, without_checkpoint dk))"
  using assms by (auto simp: clear_work_recovery_def observed_checkpoint_def)

lemma clear_nothing: "clear_work_recovery sha None after fault dk = (Ok False, dk)"
  by (simp add: clear_work_recovery_def split: option.splits)

lemma without_checkpoint_facts:
  "content (without_checkpoint dk) p = (if p = WorkRecovery then None else content dk p)"
  "observed_checkpoint sha (without_checkpoint dk) = None"
  "seen_ok good dk \<Longrightarrow> seen_ok good (without_checkpoint dk)"
  by (auto simp: content_def observed_checkpoint_def seen_ok_def)

text \<open>A checkpoint a save could not remove, and that the session no longer expects, refuses every other one.\<close>

lemma stale_refuses:
  assumes "seen_ok (good_observed w json S base (None :: (('r, 'f) document_store \<times> container_data) option)) dk"
    and "content dk DocumentFile = Some bs" and "identity_from_bytes (rw_sha w) bs = base" and "content dk WorkRecovery = Some ck"
    and "publish_work_recovery w document d base None fault dk = (result, dk')"
  shows "result = Inl ExternalConflict \<and> content dk' = content dk \<and>
    seen_ok (good_observed w json S base (None :: (('r, 'f) document_store \<times> container_data) option)) dk'"
proof -
  let ?good = "good_observed w json S base (None :: (('r, 'f) document_store \<times> container_data) option)"
  have g: "?good p bs (observed_of (rw_sha w) bs)" for p bs by (simp add: good_observed_def observed_of_def)
  from observe_seen [OF assms(1,2) g] obtain ob dk1 where
    1: "observe (rw_sha w) DocumentFile dk = (Inr ob, dk1)" "?good DocumentFile bs ob" "seen_ok ?good dk1" "content dk1 = content dk" by metis
  have "content dk1 WorkRecovery = Some ck" by (simp add: 1(4) assms(4))
  from observe_seen [OF 1(3) this g] obtain ob' dk2 where
    2: "observe (rw_sha w) WorkRecovery dk1 = (Inr ob', dk2)" "seen_ok ?good dk2" "content dk2 = content dk1" by metis
  have "ob_identity ob = base" using 1(2) assms(3) by (simp add: good_observed_def)
  moreover have "dk_files dk1 WorkRecovery \<noteq> None" using \<open>content dk1 WorkRecovery = Some ck\<close> by (auto simp: content_Some)
  ultimately show ?thesis
    using assms(5) 1 2
    by (auto simp: publish_work_recovery_def write_work_recovery_def same_base_def read_observed_work_recovery_def)
qed


text \<open>What the facts below share: the hash gives 32 bytes and tells the session's contents apart, and programs have a JSON form.\<close>

definition session_world_ok :: "'r session_world \<Rightarrow> (rule_program_source \<Rightarrow> bytes) \<Rightarrow> bytes set \<Rightarrow> bool" where
  "session_world_ok sw json S \<longleftrightarrow>
     (\<forall>b. length (rw_sha (sw_recovery sw) b) = 32) \<and> inj_on (rw_sha (sw_recovery sw)) S \<and> rw_json (sw_recovery sw) = (\<lambda>p. Inr (json p))"

text \<open>An edit is allowed when what it leaves can be saved and its revisions keep their ids.\<close>

definition edit_ok ::
  "'r session_world \<Rightarrow> (rule_program_source \<Rightarrow> bytes) \<Rightarrow> bytes set \<Rightarrow> ('r, 'f) document_session \<Rightarrow> ('r, 'f) document_store \<Rightarrow> bool" where
  "edit_ok sw json S se t \<longleftrightarrow>
     writable (sw_recovery sw) json S (t, se_container se) \<and>
     same_work (history_of (sw_recovery sw) json (se_document se)) (history_of (sw_recovery sw) json t)"

text \<open>How a write of the checkpoint ended, for the session: the identity it expects next, or \<open>None\<close> when it was refused.\<close>

definition checkpointed :: "file_error + file_identity option \<Rightarrow> file_identity option option" where
  "checkpointed result =
     (case result of Inr identity \<Rightarrow> Some identity
      | Inl e \<Rightarrow> (case published_identity WorkRecovery e of None \<Rightarrow> None | Some identity \<Rightarrow> Some (Some identity)))"

lemma checkpoint_kept:
  assumes "session_kept sw json S se dk" and "session_world_ok sw json S" and "edit_ok sw json S se t"
    and w: "write_checkpoint_for sw t (se_container se) (checkpoint_target se) (se_saved_digest se) (se_work_recovery_identity se) fault dk = (result, dk')"
  shows "(case checkpointed result of
      Some identity \<Rightarrow> session_kept sw json S (se \<lparr>se_document := t, se_work_recovery_identity := identity\<rparr>) dk'
    | None \<Rightarrow> session_kept sw json S se dk') \<and>
    (se_pending_cleanup se = None \<longrightarrow> fault = NoFault \<longrightarrow> is_ok result) \<and>
    (se_pending_cleanup se \<noteq> None \<longrightarrow> se_saved_digest se \<noteq> Some (session_digest sw t) \<longrightarrow>
      result = Inl ExternalConflict \<and> content dk' = content dk)"
proof -
  let ?w = "sw_recovery sw" and ?id = "se_work_recovery_identity se" and ?none = "None :: (('a, 'b) document_store \<times> container_data) option"
  note kept = assms(1) [unfolded session_kept_def]
  from kept obtain base where base: "se_file_identity se = Some base" and target: "checkpoint_target se = Some base"
    by (auto simp: checkpoint_target_def)
  have ok: "\<And>b. length (rw_sha ?w b) = 32" "inj_on (rw_sha ?w) S" "rw_json ?w = (\<lambda>p. Inr (json p))"
    "writable ?w json S (t, se_container se)" "same_work (history_of ?w json (se_document se)) (history_of ?w json t)"
    using assms(2,3) by (auto simp: session_world_ok_def edit_ok_def)
  show ?thesis
  proof (cases "se_saved_digest se = Some (session_digest sw t)")
    case True
    show ?thesis
    proof (cases ?id)
      case None
      with w target True have "result = Inr None" "dk' = dk" by (auto simp: write_checkpoint_for_def clear_nothing)
      with assms(1) None True show ?thesis by (auto simp: checkpointed_def session_kept_def)
    next
      case (Some identity)
      with kept base have d: "disk_ok ?w json S base (Some (se_document se, se_container se)) dk" "observed_checkpoint (rw_sha ?w) dk = Some identity"
        "se_pending_cleanup se = None" by auto
      have "seen_ok (good_observed ?w json S base ?none) dk" using d(1) by (auto simp: disk_ok_def intro: seen_weaker)
      note gone = without_checkpoint_facts(3) [OF this]
      show ?thesis
      proof (cases "fault = WriteFails")
        case True
        with w target \<open>se_saved_digest se = _\<close> Some clear_observed [OF d(2), of fault] have "result = Inl (FileIo WriteFailed)" "dk' = dk"
          by (auto simp: write_checkpoint_for_def)
        with assms(1) True d(3) show ?thesis by (simp add: checkpointed_def published_identity_def)
      next
        case False
        with w target True Some clear_observed [OF d(2), of fault] have "result = Inr None" "dk' = without_checkpoint dk"
          by (auto simp: write_checkpoint_for_def)
        with kept base d gone True show ?thesis by (auto simp: checkpointed_def session_kept_def disk_ok_def without_checkpoint_facts)
      qed
    qed
  next
    case False
    obtain r where p: "publish_work_recovery ?w t (se_container se) base ?id fault dk = (r, dk')"
      "result = (case r of Inl e \<Rightarrow> Inl e | Inr identity \<Rightarrow> Inr (Some identity))"
      using w target False by (auto simp: write_checkpoint_for_def split: prod.splits sum.splits)
    have after: "checkpointed result = map_option Some (published r None)" "is_ok result = is_ok r"
      by (auto simp: p(2) checkpointed_def published_def is_ok_def split: sum.splits option.splits)
    have step: ?thesis if d: "disk_ok ?w json S base written dk" "?id = observed_checkpoint (rw_sha ?w) dk"
      "written = (case ?id of None \<Rightarrow> None | Some _ \<Rightarrow> Some (se_document se, se_container se))" "se_pending_cleanup se = None" for written
    proof -
      have "\<And>x. written = Some x \<Longrightarrow> same_work (history_of ?w json (fst x)) (history_of ?w json t)"
        using d(3) ok(5) by (auto split: option.splits)
      from written_kept [OF d(1) ok(1-4) this p(1) [unfolded publish_work_recovery_def d(2)]]
      have k: "disk_ok ?w json S base (if fault = WriteFails then written else Some (t, se_container se)) dk'"
        "published r ?id = observed_checkpoint (rw_sha ?w) dk'" "published r None = None \<longleftrightarrow> fault = WriteFails"
        "is_ok r \<longleftrightarrow> fault = NoFault" unfolding d(2) by blast+
      show ?thesis
      proof (cases "fault = WriteFails")
        case True
        then have "published r ?id = ?id" using k(3) by (auto simp: published_def split: sum.splits option.splits)
        then have expected: "observed_checkpoint (rw_sha ?w) dk' = ?id" using k(2) by simp
        have refused: "checkpointed result = None" using after k(3) True by simp
        have "session_kept sw json S se dk'"
        proof (cases ?id)
          case None
          with k(1) True d(3) have "disk_ok ?w json S base ?none dk'" by simp
          with kept base None expected d(4) show ?thesis by (auto simp: session_kept_def disk_ok_def)
        next
          case (Some identity)
          with k(1) True d(3) have "disk_ok ?w json S base (Some (se_document se, se_container se)) dk'" by simp
          with kept base Some expected d(4) show ?thesis by (simp add: session_kept_def)
        qed
        with refused True d(4) show ?thesis by simp
      next
        case False
        then have "published r None = observed_checkpoint (rw_sha ?w) dk'" "published r None \<noteq> None"
          using k(2,3) by (auto simp: published_def split: sum.splits option.splits)
        with False k(1,4) kept base d(4) after show ?thesis by (auto simp: session_kept_def)
      qed
    qed
    show ?thesis
    proof (cases ?id)
      case (Some identity)
      with kept base show ?thesis by (intro step [of "Some (se_document se, se_container se)"]) auto
    next
      case None
      with kept base obtain bs where n: "se_saved_digest se = Some (session_digest sw (se_document se))"
        "seen_ok (good_observed ?w json S base ?none) dk" "content dk DocumentFile = Some bs" "identity_from_bytes (rw_sha ?w) bs = base"
        "se_pending_cleanup se = observed_checkpoint (rw_sha ?w) dk" by auto
      show ?thesis
      proof (cases "content dk WorkRecovery")
        case None
        with n \<open>?id = None\<close> show ?thesis by (intro step [of None]) (auto simp: disk_ok_def observed_checkpoint_def)
      next
        case (Some ck)
        from stale_refuses [OF n(2-4) Some p(1) [unfolded \<open>?id = None\<close>]] n Some assms(1) base \<open>?id = None\<close> p(2)
        show ?thesis by (simp add: checkpointed_def published_identity_def session_kept_def observed_checkpoint_def)
      qed
    qed
  qed
qed

lemma mutate_kept:
  assumes "session_kept sw json S se dk" and "session_world_ok sw json S"
    and "\<And>a t. mutate (se_document se) = (Inr a, t) \<Longrightarrow> edit_ok sw json S se t"
    and "mutate_with_work_recovery sw mutate fault se dk = (result, se', dk')"
  shows "session_kept sw json S se' dk'"
proof -
  have saved: "(if se_recovery se = None then se_saved_digest se else None) = se_saved_digest se"
    using assms(1) by (simp add: session_kept_def)
  obtain mutated t where m: "mutate (se_document se) = (mutated, t)" by fastforce
  show ?thesis
  proof (cases mutated)
    case (Inl e)
    with assms(4) m have "se' = se \<lparr>se_document := restore_state (se_document se) t\<rparr>" "dk' = dk"
      by (auto simp: mutate_with_work_recovery_def try_canonical_transaction_def Let_def)
    with assms(1) show ?thesis by (simp add: restored_kept)
  next
    case (Inr a)
    obtain cp dk1 where c: "write_checkpoint_for sw t (se_container se) (checkpoint_target se) (se_saved_digest se) (se_work_recovery_identity se)
        fault dk = (cp, dk1)" by fastforce
    note k = checkpoint_kept [OF assms(1,2) assms(3) [OF m [unfolded Inr]] c]
    show ?thesis
    proof (cases "checkpointed cp")
      case None
      then obtain e where "cp = Inl e" "published_identity WorkRecovery e = None"
        by (auto simp: checkpointed_def split: sum.splits option.splits)
      with assms(4) m Inr c have "se' = se \<lparr>se_document := restore_state (se_document se) t\<rparr>" "dk' = dk1"
        by (auto simp: mutate_with_work_recovery_def try_canonical_transaction_def saved [simplified] Let_def)
      with k None show ?thesis by (simp add: restored_kept)
    next
      case (Some identity)
      with assms(4) m Inr c have "se' = se \<lparr>se_document := t, se_work_recovery_identity := identity\<rparr>" "dk' = dk1"
        by (auto simp: mutate_with_work_recovery_def try_canonical_transaction_def saved [simplified] Let_def checkpointed_def
            split: sum.splits option.splits)
      with k Some show ?thesis by simp
    qed
  qed
qed


lemma mutate_outcome:
  assumes "session_kept sw json S se dk" and "session_world_ok sw json S" and "edit_ok sw json S se t"
    and "mutate (se_document se) = (Inr a, t)" and "mutate_with_work_recovery sw mutate fault se dk = (result, se', dk')"
  shows "se_pending_cleanup se = None \<Longrightarrow> fault = NoFault \<Longrightarrow> result = Inr a \<and> se_document se' = t"
    and "se_pending_cleanup se \<noteq> None \<Longrightarrow> se_saved_digest se \<noteq> Some (session_digest sw t) \<Longrightarrow>
      result = Inl (Persistence ExternalConflict) \<and> se' = se \<lparr>se_document := restore_state (se_document se) t\<rparr> \<and> content dk' = content dk"
proof -
  have saved: "(if se_recovery se = None then se_saved_digest se else None) = se_saved_digest se"
    using assms(1) by (simp add: session_kept_def)
  obtain cp dk1 where c: "write_checkpoint_for sw t (se_container se) (checkpoint_target se) (se_saved_digest se) (se_work_recovery_identity se)
      fault dk = (cp, dk1)" by fastforce
  note k = checkpoint_kept [OF assms(1-3) c]
  note m = assms(5) [unfolded mutate_with_work_recovery_def try_canonical_transaction_def saved assms(4) Let_def, simplified c]
  show "result = Inr a \<and> se_document se' = t" if "se_pending_cleanup se = None" "fault = NoFault"
  proof -
    from k that obtain identity where "cp = Inr identity" by (cases cp) (auto simp: is_ok_def)
    with m c show ?thesis by (auto simp: saved)
  qed
  show "result = Inl (Persistence ExternalConflict) \<and> se' = se \<lparr>se_document := restore_state (se_document se) t\<rparr> \<and> content dk' = content dk"
    if "se_pending_cleanup se \<noteq> None" "se_saved_digest se \<noteq> Some (session_digest sw t)"
  proof -
    from k that have "cp = Inl ExternalConflict" "content dk1 = content dk" by auto
    with m c show ?thesis by (auto simp: saved published_identity_def)
  qed
qed

text \<open>What a save does to the files, when nobody interferes.\<close>

lemma put_keeps_checkpoint: "p \<noteq> WorkRecovery \<Longrightarrow> observed_checkpoint sha (put p bs dk) = observed_checkpoint sha dk"
  by (simp add: observed_checkpoint_def content_put)

lemma rename_effect:
  assumes "write_atomic_after_prepare sha DocumentFile bs replace
      (\<lambda>dk. (if P dk then Err ExternalConflict else Ok (), dk)) fault dk = (result, dk')"
  shows "dk' = (if is_published result then put DocumentFile bs dk else dk)"
  using assms
  by (auto simp: write_atomic_after_prepare_def is_published_def published_identity_def split: if_splits)

lemma publish_effect:
  assumes "publish_bytes w bs mode (\<lambda>dk. dk) backup_fault fault dk = (result, dk')"
  shows "\<exists>dk1. (dk1 = dk \<or> (\<exists>previous. dk1 = put Backup previous dk)) \<and> dk' = (if is_published result then put DocumentFile bs dk1 else dk1)"
proof -
  let ?verify = "verify_checksums (rw_sha w) (rw_load_document w)"
  let ?expected = "case mode of IfUnchanged identity \<Rightarrow> Some identity | _ \<Rightarrow> None"
  obtain backed dk1 where b: "(case content dk DocumentFile of
      Some previous \<Rightarrow> if is_ok (?verify previous) then write_atomic (rw_sha w) Backup previous backup_fault dk else (Ok (), dk)
    | None \<Rightarrow> (Ok (), dk)) = (backed, dk1)" by force
  have dk1: "dk1 = dk \<or> (\<exists>previous. dk1 = put Backup previous dk)" "\<And>e. backed = Inl e \<Longrightarrow> published_identity DocumentFile e = None"
    using b by (auto simp: write_atomic_def write_atomic_after_prepare_def published_identity_def split: option.splits if_splits)
  consider (refused) "\<not> is_published result" "dk' = dk"
    | (absent) "write_atomic_after_prepare (rw_sha w) DocumentFile bs False (\<lambda>dk. (Ok (), dk)) fault dk = (result, dk')"
    | (backup) e where "backed = Inl e" "result = Inl e" "dk' = dk1"
    | (replace) "write_atomic_after_prepare (rw_sha w) DocumentFile bs True
        (\<lambda>dk. (if changed (rw_sha w) ?expected (content dk DocumentFile) then Err ExternalConflict else Ok (), dk)) fault dk1 = (result, dk')"
    using assms b
    by (cases "?verify bs"; cases "mode = IfAbsent"; cases "changed (rw_sha w) ?expected (content dk DocumentFile)"; cases backed)
      (auto simp: publish_bytes_def Let_def is_published_def published_identity_def split: if_splits)
  then show ?thesis
  proof cases
    case absent
    from rename_effect [where P = "\<lambda>_. False", simplified, OF this] show ?thesis by blast
  next
    case replace
    from rename_effect [OF this] dk1(1) show ?thesis by blast
  qed (use dk1 in \<open>auto simp: is_published_def\<close>)
qed


lemma disk_put_backup: "disk_ok w json S base written dk \<Longrightarrow> disk_ok w json S base written (put Backup bs dk)"
  by (cases written) (simp_all add: disk_ok_def content_put seen_put_any)

lemma retry_kept:
  assumes "session_kept sw json S se dk" and "retry_pending_cleanup sw fault se dk = (result, se', dk')"
  shows "session_kept sw json S se' dk' \<and> (is_ok result \<longrightarrow> se_pending_cleanup se' = None) \<and>
    se_document se' = se_document se \<and> se_container se' = se_container se"
proof (cases "se_pending_cleanup se")
  case None
  with assms show ?thesis by (simp add: retry_pending_cleanup_def)
next
  case (Some identity)
  with assms(1) have stale: "se_work_recovery_identity se = None" "observed_checkpoint (rw_sha (sw_recovery sw)) dk = Some identity"
    by (auto simp: session_kept_def split: option.splits)
  have "session_kept sw json S (se \<lparr>se_pending_cleanup := None\<rparr>) (without_checkpoint dk)"
    using assms(1) stale(1) by (auto simp: session_kept_def without_checkpoint_facts)
  with assms Some clear_observed [OF stale(2), of fault] show ?thesis
    by (auto simp: retry_pending_cleanup_def is_ok_def split: if_splits)
qed

text \<open>What is left of the invariant once the file is another one.\<close>

lemma after_publish_kept:
  assumes seen: "seen_ok (good_observed (sw_recovery sw) json S base (None :: (('r, 'f) document_store \<times> container_data) option)) dk"
    and "content dk DocumentFile = Some prepared" and "se_pending_cleanup se = None" and "se_path se"
    and "se_work_recovery_identity se = observed_checkpoint (rw_sha (sw_recovery sw)) dk"
    and "after_publish sw fault prepared (se :: ('r, 'f) document_session) dk = (se', dk')"
  shows "session_kept sw json S se' dk'"
proof -
  let ?good = "good_observed (sw_recovery sw) json S (identity_from_bytes (rw_sha (sw_recovery sw)) prepared)
    (None :: (('r, 'f) document_store \<times> container_data) option)"
  have seen: "seen_ok ?good dk" by (rule seen_weaker [OF seen])
  show ?thesis
  proof (cases "se_work_recovery_identity se")
    case None
    with assms seen show ?thesis by (auto simp: after_publish_def session_kept_def Let_def)
  next
    case (Some identity)
    with assms(5) have o: "observed_checkpoint (rw_sha (sw_recovery sw)) dk = Some identity" by simp
    note seen = seen without_checkpoint_facts(3) [OF seen]
    from Some assms(2-4,6) o seen clear_observed [OF o, of fault] show ?thesis
      by (auto simp: after_publish_def session_kept_def without_checkpoint_facts split: if_splits)
  qed
qed

lemma save_kept:
  assumes "session_kept sw json S se dk" and "session_world_ok sw json S"
    and "session_save sw overwrite faults se dk = (result, se', dk')"
  shows "session_kept sw json S se' dk'"
proof -
  let ?w = "sw_recovery sw" and ?sha = "rw_sha (sw_recovery sw)"
  obtain r se1 dk1 where retry: "retry_pending_cleanup sw (sf_retry faults) se dk = (r, se1, dk1)" by (metis prod_cases3)
  note k1 = retry_kept [OF assms(1) retry]
  show ?thesis
  proof (cases r)
    case (Inl e)
    with assms(3) retry k1 show ?thesis by (simp add: session_save_def)
  next
    case (Inr u)
    with k1 have k: "session_kept sw json S se1 dk1" "se_pending_cleanup se1 = None" by auto
    then obtain base where base: "se_file_identity se1 = Some base" "se_path se1" "se_recovery se1 = None"
      by (auto simp: session_kept_def)
    define written where "written = (case se_work_recovery_identity se1 of None \<Rightarrow> None | Some _ \<Rightarrow> Some (se_document se1, se_container se1))"
    have d: "disk_ok ?w json S base written dk1" "se_work_recovery_identity se1 = observed_checkpoint ?sha dk1"
      using k base(1) by (auto simp: session_kept_def written_def disk_ok_def observed_checkpoint_def split: option.splits)
    have ok: "\<And>b. length (?sha b) = 32" "inj_on ?sha S" using assms(2) by (auto simp: session_world_ok_def)
    from checks_pass(2) [OF d(1) ok] obtain dk2 where
      2: "check_work_recovery_identity ?sha (se_work_recovery_identity se1) dk1 = (Inr (), dk2)" "disk_ok ?w json S base written dk2"
        "content dk2 = content dk1" unfolding d(2) check_work_recovery_identity_def by fastforce
    have o2: "se_work_recovery_identity se1 = observed_checkpoint ?sha dk2" using d(2) 2(3) by (simp add: observed_checkpoint_def)
    have kept_by: "session_kept sw json S se1 dk3" if "disk_ok ?w json S base written dk3" "observed_checkpoint ?sha dk3 = observed_checkpoint ?sha dk2" for dk3
      using k base that o2 by (auto simp: session_kept_def written_def disk_ok_def split: option.splits)
    have k2: "session_kept sw json S se1 dk2" by (rule kept_by [OF 2(2) refl])
    show ?thesis
    proof (cases "prepare_document ?w (se_document se1) (se_container se1)")
      case (Inl e)
      with assms(3) retry Inr 2(1) base k2 show ?thesis by (auto simp: session_save_def Let_def)
    next
      case (Inr prepared)
      obtain outcome dk3 where p: "publish_document ?w prepared (save_mode overwrite (Some base)) (sf_backup faults) (sf_file faults) dk2 = (outcome, dk3)"
        by fastforce
      from publish_effect [OF p [unfolded publish_document_def]] obtain backed where
        e: "backed = dk2 \<or> (\<exists>previous. backed = put Backup previous dk2)"
          "dk3 = (if is_published outcome then put DocumentFile prepared backed else backed)" by blast
      have d3: "disk_ok ?w json S base written backed"
        using e(1) 2(2) disk_put_backup by blast
      have o3: "observed_checkpoint ?sha backed = observed_checkpoint ?sha dk2" using e(1) by (auto simp: put_keeps_checkpoint)
      show ?thesis
      proof (cases "is_published outcome")
        case False
        with e(2) kept_by [OF d3 o3] have "session_kept sw json S se1 dk3" by simp
        with False assms(3) retry \<open>r = Inr u\<close> 2(1) base Inr p show ?thesis
          by (auto simp: session_save_def Let_def is_published_def split: sum.splits if_splits)
      next
        case True
        with e(2) have dk3: "dk3 = put DocumentFile prepared backed" by simp
        have "seen_ok (good_observed ?w json S base written) dk3" unfolding dk3 using d3 by (intro seen_put_any) (simp add: disk_ok_def)
        note seen = seen_weaker [OF this]
        have "after_publish sw (sf_cleanup faults) prepared se1 dk3 = (se', dk')"
          using True assms(3) retry \<open>r = Inr u\<close> 2(1) base Inr p
          by (auto simp: session_save_def Let_def is_published_def split: sum.splits if_splits)
        with k(2) base(2) o2 o3 show ?thesis
          by (intro after_publish_kept [OF seen]) (simp_all add: dk3 content_put put_keeps_checkpoint)
      qed
    qed
  qed
qed


section \<open>Runs of a session\<close>

text \<open>
  What a session does on its file, in any order: edits, checkpoints on demand, and saves; every write may fail.  The edits are any operations that leave a document
  that can be saved.
\<close>

inductive session_run ::
  "'r session_world \<Rightarrow> (rule_program_source \<Rightarrow> bytes) \<Rightarrow> bytes set \<Rightarrow>
   (('r, 'f) document_store \<Rightarrow> (session_error + unit) \<times> ('r, 'f) document_store) set \<Rightarrow>
   ('r, 'f) document_session \<Rightarrow> disk \<Rightarrow> ('r, 'f) document_session \<Rightarrow> disk \<Rightarrow> bool"
  for sw json S edits se0 dk0 where
  start: "session_run sw json S edits se0 dk0 se0 dk0"
| edited:
    "session_run sw json S edits se0 dk0 se dk \<Longrightarrow> mutate \<in> edits \<Longrightarrow>
     (\<And>a t. mutate (se_document se) = (Inr a, t) \<Longrightarrow> edit_ok sw json S se t) \<Longrightarrow>
     mutate_with_work_recovery sw mutate fault se dk = (result, se', dk') \<Longrightarrow> session_run sw json S edits se0 dk0 se' dk'"
| written:
    "session_run sw json S edits se0 dk0 se dk \<Longrightarrow> edit_ok sw json S se (se_document se) \<Longrightarrow>
     write_work_recovery_checkpoint sw cleanup_fault fault se dk = (written, se', dk') \<Longrightarrow>
     session_run sw json S edits se0 dk0 se' dk'"
| saved:
    "session_run sw json S edits se0 dk0 se dk \<Longrightarrow>
     session_save sw overwrite faults se dk = (saved, se', dk') \<Longrightarrow> session_run sw json S edits se0 dk0 se' dk'"

text \<open>
  The result of an edit does not matter to what the session keeps, so undo, redo and proposals are edits of a run, each with
  its own result.
\<close>

definition without_value ::
  "(('r, 'f) document_store \<Rightarrow> (session_error + 'a) \<times> ('r, 'f) document_store) \<Rightarrow> ('r, 'f) document_store \<Rightarrow>
   (session_error + unit) \<times> ('r, 'f) document_store" where
  "without_value mutate s = (case mutate s of (result, t) \<Rightarrow> (and_then result (\<lambda>_. Ok ()), t))"

lemma mutate_without_value:
  assumes "mutate_with_work_recovery sw mutate fault se dk = (result, se', dk')"
  shows "\<exists>result. mutate_with_work_recovery sw (without_value mutate) fault se dk = (result, se', dk')"
proof -
  obtain mutated t where m: "mutate (se_document se) = (mutated, t)" by fastforce
  then have "without_value mutate (se_document se) = (and_then mutated (\<lambda>_. Ok ()), t)" by (simp add: without_value_def)
  with m assms show ?thesis
    unfolding mutate_with_work_recovery_def try_canonical_transaction_def
    by (cases mutated) (auto simp: Let_def is_ok_def split: prod.splits sum.splits if_splits)
qed

lemma run_edit:
  assumes "session_run sw json S edits se0 dk0 se dk" and "without_value mutate \<in> edits"
    and "\<And>a t. mutate (se_document se) = (Inr a, t) \<Longrightarrow> edit_ok sw json S se t"
    and "mutate_with_work_recovery sw mutate fault se dk = (result, se', dk')"
  shows "session_run sw json S edits se0 dk0 se' dk'"
proof -
  obtain r where "mutate_with_work_recovery sw (without_value mutate) fault se dk = (r, se', dk')"
    using mutate_without_value [OF assms(4)] by blast
  moreover have "edit_ok sw json S se t" if "without_value mutate (se_document se) = (Inr a, t)" for a t
    using that assms(3) by (cases "fst (mutate (se_document se))") (auto simp: without_value_def split: prod.splits)
  ultimately show ?thesis by (rule session_run.edited [OF assms(1,2), rotated])
qed

lemma run_undo:
  assumes "session_run sw json S edits se0 dk0 se dk"
    and "without_value (\<lambda>s. case (undo s :: unit fault + _) of
      Inl _ \<Rightarrow> (Err SessionPanicked, s) | Inr (None, s) \<Rightarrow> (Err NoUndo, s) | Inr (Some snapshot, s) \<Rightarrow> (Ok snapshot, s)) \<in> edits"
    and "\<And>snapshot t. (undo (se_document se) :: unit fault + _) = Inr (Some snapshot, t) \<Longrightarrow> edit_ok sw json S se t"
    and "session_undo sw fault se dk = (result, se', dk')"
  shows "session_run sw json S edits se0 dk0 se' dk'"
  by (rule run_edit [OF assms(1,2) _ assms(4) [unfolded session_undo_def]]) (auto intro: assms(3) split: sum.splits option.splits)

lemma run_kept:
  "session_run sw json S edits se0 dk0 se dk \<Longrightarrow> session_kept sw json S se0 dk0 \<Longrightarrow> session_world_ok sw json S \<Longrightarrow> session_kept sw json S se dk"
proof (induction rule: session_run.induct)
  case (edited se dk mutate fault result se' dk')
  then show ?case by (blast intro: mutate_kept)
next
  case (written se dk cleanup_fault fault "written" se' dk')
  obtain r se1 dk1 where retry: "retry_pending_cleanup sw cleanup_fault se dk = (r, se1, dk1)" by (metis prod_cases3)
  note k = retry_kept [OF written.IH [OF written.prems] retry]
  obtain m se2 dk2 where m: "mutate_with_work_recovery sw (\<lambda>s. (Ok (), s) :: (session_error + unit) \<times> _) fault se1 dk1 = (m, se2, dk2)"
    by (metis prod_cases3)
  have "edit_ok sw json S se1 (se_document se1)" using written.hyps(2) k by (simp add: edit_ok_def)
  then have "session_kept sw json S se2 dk2" using k by (intro mutate_kept [OF _ written.prems(2) _ m]) auto
  with written.hyps(3) retry m show ?case by (auto simp: write_work_recovery_checkpoint_def split: sum.splits)
next
  case (saved se dk overwrite faults "saved" se' dk')
  then show ?case by (blast intro: save_kept)
qed simp

lemma opened_kept:
  assumes "load bs = Inr (Some (document, container))"
    and opened: "content dk DocumentFile = Some bs" "content dk WorkRecovery = None" "dk_seen dk = (\<lambda>_. None)"
      "\<forall>p bs stamp. dk_files dk p = Some (bs, stamp) \<longrightarrow> stamp < dk_clock dk"
    and "session_open sw load load_with_history fault dk = (Inr se, dk')"
  shows "session_kept sw json S se dk'" and "se_document se = document" and "se_container se = container"
proof -
  have l: "load_file_with_source (sw_recovery sw) load load_with_history dk =
      Inr \<lparr>lf_outcome = Some (document, container), lf_notices = [], lf_source = DocumentFile, lf_source_bytes = bs,
        lf_work_recovery_identity = None, lf_work_recovery_base = None\<rparr>"
    using assms(1) opened(1,2) by (simp add: load_file_with_source_def try_load_work_recovery_def)
  have "seen_ok good dk" for good using opened(3,4) by (auto simp: seen_ok_def)
  with assms(6) l opened(1,2) show "session_kept sw json S se dk'" "se_document se = document" "se_container se = container"
    by (auto simp: session_open_def session_kept_def observed_checkpoint_def)
qed

section \<open>A session for the examples\<close>

definition demo_session_world :: "unit session_world" where
  "demo_session_world = \<lparr>sw_recovery = demo_world, sw_sha = (\<lambda>bs. [bs ! 27]), sw_canonical_digest = (\<lambda>_. [])\<rparr>"

lemma demo_session_world_simps [simp]:
  "sw_recovery demo_session_world = demo_world" "sw_canonical_digest demo_session_world = (\<lambda>_. [])"
  by (simp_all add: demo_session_world_def)

definition demo_edit :: "(unit, unit) document_store \<Rightarrow> (session_error + unit) \<times> (unit, unit) document_store" where
  "demo_edit s =
     (case apply_batch_with demo_pad demo_families demo_delete (Principal LocalAssistant) True s of
        Inl _ \<Rightarrow> (Err SessionPanicked, s) | Inr (_, s) \<Rightarrow> (Ok (), s))"

definition demo_undo :: "(unit, unit) document_store \<Rightarrow> (session_error + unit) \<times> (unit, unit) document_store" where
  "demo_undo s = (Ok (), s \<lparr>ds_cursor := 0\<rparr>)"

abbreviation demo_loads :: "bytes \<Rightarrow> persistence_error + ((unit, unit) document_store \<times> container_data) option" where
  "demo_loads \<equiv> \<lambda>_. Inr (Some (demo_store, container_data_default))"

lemma demo_digest: "session_digest demo_session_world s = hex_encode [of_nat (ds_cursor s)]"
proof -
  let ?tag = "str_bytes ''ketchup.revision-history.v2''"
  have tag: "length ?tag = 27" by (simp add: str_bytes_def)
  have "le_bytes 8 (ds_cursor s) = of_nat (ds_cursor s) # le_bytes 7 (ds_cursor s div 256)"
    using le_bytes.simps(2) [of 7] by (simp del: le_bytes.simps)
  then have "(?tag @ le_bytes 8 (ds_cursor s) @ later) ! 27 = of_nat (ds_cursor s)" for later
    using nth_append_length [of ?tag, unfolded tag] by (simp only: append_Cons)
  then show ?thesis by (simp add: session_digest_def demo_session_world_def history_digest_def hex_encode_def hex_byte_def)
qed

lemma demo_digests: "ds_cursor s = 1 \<Longrightarrow> ds_cursor t = 0 \<Longrightarrow> session_digest demo_session_world s \<noteq> session_digest demo_session_world t"
  by (simp add: demo_digest hex_encode_def hex_byte_def hex_digit_def)

lemma demo_opens:
  "session_open demo_session_world demo_loads demo_loads NoFault demo_disk =
    (Inr \<lparr>se_document = demo_store, se_container = container_data_default, se_path = True, se_recovery = None,
       se_file_identity = Some (identity_from_bytes demo_pad [5]), se_work_recovery_identity = None, se_pending_cleanup = None,
       se_saved_digest = Some (session_digest demo_session_world demo_store)\<rparr>, demo_disk)"
  by (simp add: session_open_def load_file_with_source_def try_load_work_recovery_def demo_disk_opened)

lemma demo_edited:
  obtains r s where "apply_batch_with demo_pad demo_families demo_delete (Principal LocalAssistant) True demo_store = Inr (r, s)"
    "demo_edit demo_store = (Ok (), s)" "ds_cursor s = 1"
    "\<And>se. se_document se = demo_store \<Longrightarrow> se_container se = container_data_default \<Longrightarrow> edit_ok demo_session_world (\<lambda>_. []) {[7]} se s"
proof -
  obtain r s where a: "apply_batch_with demo_pad demo_families demo_delete (Principal LocalAssistant) True demo_store = Inr (r, s)"
    using demo_applies by blast
  note f = demo_applied [OF a]
  have "map (store_revision demo_pad (\<lambda>_. [7])) (ds_revisions s) = demo_pair LocalAssistant" "ds_next_revision_id s = 3" "ds_cursor s < 2"
    "current_rule_program s = None"
    using f by (blast, auto simp: current_rule_program_def current_revision_def)
  note w = demo_writable [OF this]
  have "ds_revisions demo_store = take 1 (ds_revisions s)" using f by (simp add: demo_store_def)
  then have "history_of demo_world (\<lambda>_. []) demo_store = take 1 (history_of demo_world (\<lambda>_. []) s)"
    by (simp add: history_of_def take_map)
  then have "same_work (history_of demo_world (\<lambda>_. []) demo_store) (history_of demo_world (\<lambda>_. []) s)"
    unfolding w(2) by (simp add: same_work_def demo_pair_def)
  with w(1) a f show thesis by (intro that [of r s]) (auto simp: edit_ok_def demo_edit_def)
qed

text \<open>A save of the demo document whose cleanup fails.\<close>

lemma demo_session_prepared:
  assumes "apply_batch_with demo_pad demo_families demo_delete (Principal LocalAssistant) True demo_store = Inr (r, s)"
  shows "\<exists>prepared. prepare_document demo_world s container_data_default = Inr prepared \<and>
    verify_checksums demo_pad (\<lambda>_. Inr ()) prepared = Inr ()"
proof -
  note f = demo_applied [OF assms]
  have map: "saved_entry_map [7] None None [] = [(''document.bin'', True, [7])]" by (simp add: saved_entry_map_def)
  have valid: "validate_container_path ''document.bin'' = Inr ()" by code_simp
  have side: "side_entries container_data_default [] = Inr []"
    by (simp add: side_entries_def container_data_default_def bt_values_def)
  let ?es = "[(''document.bin'', True, [7])]"
  let ?out = "directory_bytes (container_schema_of ?es) (map (framed demo_pad) ?es)"
  have enc: "encode_container demo_pad ?es = Inr ?out"
    unfolding encode_container_Inr using valid by (simp add: MAX_CONTAINER_ENTRIES_def)
  have len: "length ?out < 2 ^ 64" by (simp add: directory_bytes_def entry_bytes_def demo_pad_32)
  have "good_side []" by (simp add: good_side_def entries_items_def MAX_COLLECTION_ITEMS_def)
  from saved_reads(3) [OF this demo_pad_32 enc [folded map] len [folded map], unfolded map]
  have "verify_checksums demo_pad (\<lambda>_. Inr ()) ?out = Inr ()" .
  moreover have "prepare_document demo_world s container_data_default = Inr ?out"
    using f enc
    by (simp add: prepare_document_def save_document_store_current_snapshot_def current_checkpoint_history_def current_revision_def
        encoded_program_def current_rule_program_def save_container_entries_def side map)
  ultimately show ?thesis by blast
qed

abbreviation demo_cleanup_fails :: save_faults where
  "demo_cleanup_fails \<equiv> \<lparr>sf_retry = NoFault, sf_backup = NoFault, sf_file = NoFault, sf_cleanup = WriteFails\<rparr>"

lemma demo_saves:
  assumes "apply_batch_with demo_pad demo_families demo_delete (Principal LocalAssistant) True demo_store = Inr (r, s)"
    and kept: "session_kept demo_session_world (\<lambda>_. []) {[7]} se dk" and "se_document se = s" and "se_container se = container_data_default"
    and "se_work_recovery_identity se = Some identity"
  shows "\<exists>se' dk'. session_save demo_session_world True demo_cleanup_fails se dk = (Inr (), se', dk') \<and>
    se_pending_cleanup se' = Some identity \<and> se_document se' = s \<and> se_container se' = container_data_default"
proof -
  obtain prepared where p: "prepare_document demo_world s container_data_default = Inr prepared"
    "verify_checksums demo_pad (\<lambda>_. Inr ()) prepared = Inr ()" using demo_session_prepared [OF assms(1)] by blast
  from kept assms(3-5) obtain base where k: "se_path se" "se_recovery se = None" "se_file_identity se = Some base" "se_pending_cleanup se = None"
    "disk_ok demo_world (\<lambda>_. []) {[7]} base (Some (s, container_data_default)) dk" "observed_checkpoint demo_pad dk = Some identity"
    by (auto simp: session_kept_def)
  from checks_pass(2) [OF k(5)] k(6) obtain dk1 where
    c: "check_work_recovery_identity demo_pad (Some identity) dk = (Inr (), dk1)" "content dk1 = content dk"
    by (fastforce simp: demo_pad_32 check_work_recovery_identity_def)
  from k(5) obtain previous where doc: "content dk1 DocumentFile = Some previous" "identity_from_bytes demo_pad previous = base"
    by (auto simp: disk_ok_def c(2))
  define dk2 where "dk2 = (if is_ok (verify_checksums demo_pad (\<lambda>_. Inr ()) previous) then put Backup previous dk1 else dk1)"
  have published: "publish_document demo_world prepared (save_mode True (Some base)) NoFault NoFault dk1 = (Inr (), put DocumentFile prepared dk2)"
    using p(2) doc
    by (auto simp: dk2_def publish_document_def publish_bytes_def save_mode_def changed_def write_atomic_def write_atomic_after_prepare_def content_put Let_def)
  have o: "observed_checkpoint demo_pad (put DocumentFile prepared dk2) = Some identity"
    using k(6) c(2) by (auto simp: observed_checkpoint_def dk2_def content_put)
  show ?thesis
    using k(1-4) assms(3-5) c(1) p(1) published clear_observed [OF o, of WriteFails]
    by (auto simp: session_save_def retry_pending_cleanup_def after_publish_def)
qed

text \<open>The demo session after its edit.\<close>

lemma demo_run:
  obtains r s se0 se dk where "apply_batch_with demo_pad demo_families demo_delete (Principal LocalAssistant) True demo_store = Inr (r, s)"
    "ds_cursor s = 1" "session_open demo_session_world demo_loads demo_loads NoFault demo_disk = (Inr se0, demo_disk)"
    "session_run demo_session_world (\<lambda>_. []) {[7]} {demo_edit} se0 demo_disk se dk"
    "session_kept demo_session_world (\<lambda>_. []) {[7]} se dk" "se_document se = s" "se_container se = container_data_default"
    "is_modified demo_session_world se"
proof -
  obtain r s where e: "apply_batch_with demo_pad demo_families demo_delete (Principal LocalAssistant) True demo_store = Inr (r, s)"
    "demo_edit demo_store = (Ok (), s)" "ds_cursor s = 1"
    "\<And>se. se_document se = demo_store \<Longrightarrow> se_container se = container_data_default \<Longrightarrow> edit_ok demo_session_world (\<lambda>_. []) {[7]} se s"
    using demo_edited by blast
  obtain se0 where se0: "session_open demo_session_world demo_loads demo_loads NoFault demo_disk = (Inr se0, demo_disk)"
    using demo_opens by blast
  note kept0 = opened_kept [OF refl demo_disk_opened se0]
  obtain result se dk where m: "mutate_with_work_recovery demo_session_world demo_edit NoFault se0 demo_disk = (result, se, dk)"
    by (metis prod_cases3)
  have world: "session_world_ok demo_session_world (\<lambda>_. []) {[7]}" by (simp add: session_world_ok_def demo_pad_32)
  have ok: "edit_ok demo_session_world (\<lambda>_. []) {[7]} se0 s" by (rule e(4) [OF kept0(2,3)])
  have run: "session_run demo_session_world (\<lambda>_. []) {[7]} {demo_edit} se0 demo_disk se dk"
    by (rule session_run.edited [OF session_run.start _ _ m]) (use e(2) ok kept0(2) in auto)
  have f: "se_pending_cleanup se0 = None" "se_saved_digest se0 = Some (session_digest demo_session_world demo_store)"
    using se0 by (auto simp: demo_opens)
  from mutate_outcome(1) [OF kept0(1) world ok _ m f(1) refl, of "()"] e(2) kept0(2) have s: "se_document se = s" by simp
  have same: "se_container se = container_data_default" "se_saved_digest se = se_saved_digest se0"
    using m kept0(3) by (auto simp: mutate_with_work_recovery_def Let_def split: prod.splits sum.splits if_splits)
  have "is_modified demo_session_world se"
    using demo_digests [OF e(3), of demo_store] f(2) same(2) s by (auto simp: is_modified_def demo_store_def)
  with e se0 run run_kept [OF run kept0(1) world] s same(1) show thesis by (intro that)
qed

section \<open>Properties\<close>






end
