(* ===== verification/Ketchup_Frames.thy ===== *)
theory Ketchup_Frames
  imports Ketchup_Rust
begin

text \<open>
  The frames between the scheduler and a worker process (\<^verbatim>\<open>ketchup-scheduler/src/protocol.rs\<close>), and the loops at both ends of
  the pipes (\<^verbatim>\<open>exact_worker.rs\<close>, \<^verbatim>\<open>worker_client.rs\<close>).  A message is its CBOR encoding behind a 32-bit length.  A
  pipe delivers its bytes in pieces of any size, with interrupted reads in between, and ends or breaks at any
  point.  CBOR is an argument: \<open>pieces\<close> are the writes an encoding makes, \<open>decode\<close> gives a message and how many bytes it took.
\<close>

section \<open>Writing a frame\<close>

datatype frame_error = FrameExceeds nat | LengthOverflow

definition MAX_REPLY_FRAME_BYTES :: nat where
  "MAX_REPLY_FRAME_BYTES = 16 * 1024 * 1024"

definition ANY_FRAME_BYTES :: nat where
  "ANY_FRAME_BYTES = 2 ^ 64 - 1"

definition frame_write :: "nat \<Rightarrow> bytes \<Rightarrow> bytes \<Rightarrow> frame_error + bytes" where
  "frame_write max_bytes frame bs =
     (if length frame - 4 + length bs > max_bytes then Err (FrameExceeds max_bytes) else Ok (frame @ bs))"

text \<open>Each write of the encoder ends in \<^verbatim>\<open>BoundedFrame::write\<close>.\<close>

fun write_pieces :: "nat \<Rightarrow> bytes list \<Rightarrow> bytes \<Rightarrow> frame_error + bytes" where
  "write_pieces max_bytes [] frame = Ok frame"
| "write_pieces max_bytes (bs # pieces) frame = and_then (frame_write max_bytes frame bs) (write_pieces max_bytes pieces)"

definition encode_frame :: "('m \<Rightarrow> bytes list) \<Rightarrow> 'm \<Rightarrow> nat \<Rightarrow> frame_error + bytes" where
  "encode_frame pieces message max_bytes =
     and_then (write_pieces max_bytes (pieces message) (replicate 4 0)) (\<lambda>frame.
     let n = length frame - 4 in
     and_then (guard (n < 2 ^ 32) LengthOverflow) (\<lambda>_. Ok (le_bytes 4 n @ drop 4 frame)))"

section \<open>Reading a frame\<close>

text \<open>What the reads of a pipe give, in order; after the last the pipe is closed.\<close>

datatype arrival = Bytes bytes | Interrupt | Broken str

text \<open>
  Reading until \<open>n\<close> bytes are there or the pipe is closed: the loop over the header, and \<^verbatim>\<open>read_to_end\<close> of at most \<open>n\<close> bytes.  An
  interrupted read is repeated.
\<close>

fun read_up_to :: "nat \<Rightarrow> arrival list \<Rightarrow> (str + bytes) \<times> arrival list" where
  "read_up_to n s =
     (if n = 0 then (Ok [], s)
      else
        (case s of
           [] \<Rightarrow> (Ok [], [])
         | Interrupt # s \<Rightarrow> read_up_to n s
         | Broken e # s \<Rightarrow> (Err e, s)
         | Bytes bs # s \<Rightarrow>
             if bs = [] then (Ok [], s)
             else if n < length bs then (Ok (take n bs), Bytes (drop n bs) # s)
             else (case read_up_to (n - length bs) s of (result, s) \<Rightarrow> (and_then result (\<lambda>later. Ok (bs @ later)), s))))"

datatype malformed = HeaderTruncated | BodyTruncated | TrailingBytes | Undecodable str

datatype 'm frame_read = Message 'm | Closed | TooLarge | Malformed malformed | Transport str

definition read_frame :: "(bytes \<Rightarrow> str + 'm \<times> nat) \<Rightarrow> nat \<Rightarrow> arrival list \<Rightarrow> 'm frame_read \<times> arrival list" where
  "read_frame decode max_bytes s =
     (case read_up_to 4 s of
        (Inl e, s) \<Rightarrow> (Transport e, s)
      | (Inr header, s) \<Rightarrow>
          if header = [] then (Closed, s)
          else if length header < 4 then (Malformed HeaderTruncated, s)
          else
            let n = le_value header in
            if n > max_bytes then (TooLarge, s)
            else
              (case read_up_to n s of
                 (Inl e, s) \<Rightarrow> (Transport e, s)
               | (Inr body, s) \<Rightarrow>
                   if length body \<noteq> n then (Malformed BodyTruncated, s)
                   else
                     (case decode body of
                        Inl e \<Rightarrow> (Malformed (Undecodable e), s)
                      | Inr (message, position) \<Rightarrow>
                          if position = n then (Message message, s) else (Malformed TrailingBytes, s))))"

text \<open>The bytes and the arrivals left; each frame that is read takes some of them.\<close>

fun arrival_size :: "arrival \<Rightarrow> nat" where
  "arrival_size (Bytes bs) = Suc (length bs)"
| "arrival_size Interrupt = 1"
| "arrival_size (Broken e) = 1"

abbreviation pipe_size :: "arrival list \<Rightarrow> nat" where
  "pipe_size s \<equiv> sum_list (map arrival_size s)"

lemma read_up_to_simps [simp]:
  "read_up_to 0 s = (Ok [], s)"
  "read_up_to n [] = (Ok [], [])"
  "0 < n \<Longrightarrow> read_up_to n (Interrupt # s) = read_up_to n s"
  "0 < n \<Longrightarrow> read_up_to n (Broken e # s) = (Err e, s)"
  "0 < n \<Longrightarrow> read_up_to n (Bytes [] # s) = (Ok [], s)"
  "0 < n \<Longrightarrow> n < length bs \<Longrightarrow> read_up_to n (Bytes bs # s) = (Ok (take n bs), Bytes (drop n bs) # s)"
  "bs \<noteq> [] \<Longrightarrow> length bs \<le> n \<Longrightarrow> read_up_to n (Bytes bs # s) =
    (case read_up_to (n - length bs) s of (result, s) \<Rightarrow> (and_then result (\<lambda>later. Ok (bs @ later)), s))"
  by (subst read_up_to.simps; auto)+

declare read_up_to.simps [simp del]

lemma read_up_to_size:
  "read_up_to n s = (result, s') \<Longrightarrow> pipe_size s' \<le> pipe_size s \<and> (\<forall>bs. result = Inr bs \<longrightarrow> bs \<noteq> [] \<longrightarrow> pipe_size s' < pipe_size s)"
proof (induction s arbitrary: n result s')
  case (Cons a s)
  show ?case
  proof (cases "n = 0")
    case False
    then have n: "0 < n" by simp
    show ?thesis
    proof (cases a)
      case (Bytes bs)
      consider "bs = []" | "n < length bs" | "bs \<noteq> []" "length bs \<le> n" by force
      then show ?thesis
      proof cases
        case 3
        obtain result2 s2 where r: "read_up_to (n - length bs) s = (result2, s2)" by fastforce
        with Cons.IH [OF r] Cons.prems Bytes 3 show ?thesis by auto
      qed (use Cons.prems Bytes n in auto)
    next
      case Interrupt
      with Cons.prems n Cons.IH [of n result s'] show ?thesis by auto
    qed (use Cons.prems n in auto)
  qed (use Cons.prems in auto)
qed auto

lemma read_frame_size:
  assumes "read_frame decode max_bytes s = (found, s')" and "found \<noteq> Closed" and "\<nexists>e. found = Transport e"
  shows "pipe_size s' < pipe_size s"
proof -
  obtain r s1 where r: "read_up_to 4 s = (r, s1)" by fastforce
  then obtain header where h: "r = Inr header" "header \<noteq> []" using assms by (cases r) (auto simp: read_frame_def split: if_splits)
  have s1: "pipe_size s1 < pipe_size s" using read_up_to_size [OF r] h by blast
  show ?thesis
  proof (cases "length header < 4 \<or> le_value header > max_bytes")
    case True
    with assms(1) r h s1 show ?thesis by (auto simp: read_frame_def Let_def split: if_splits)
  next
    case False
    obtain b s2 where b: "read_up_to (le_value header) s1 = (b, s2)" by fastforce
    with assms(1) r h False have "s' = s2" by (auto simp: read_frame_def Let_def split: if_splits sum.splits)
    with read_up_to_size [OF b] s1 show ?thesis by simp
  qed
qed

section \<open>The loops at the ends\<close>

text \<open>The thread that reads what the worker replies, until the client is gone.\<close>

datatype 'r worker_response = Reply 'r | Exited | ResponseTooLarge | ResponseMalformed malformed | ResponseTransport str

function reader_loop :: "(bytes \<Rightarrow> str + 'r \<times> nat) \<Rightarrow> arrival list \<Rightarrow> 'r worker_response list" where
  "reader_loop decode s =
     (case read_frame decode MAX_REPLY_FRAME_BYTES s of
        (Message reply, s) \<Rightarrow> Reply reply # reader_loop decode s
      | (Closed, _) \<Rightarrow> [Exited]
      | (TooLarge, _) \<Rightarrow> [ResponseTooLarge]
      | (Malformed m, _) \<Rightarrow> [ResponseMalformed m]
      | (Transport e, _) \<Rightarrow> [ResponseTransport e])"
  by pat_completeness auto
termination by (relation "measure (pipe_size \<circ> snd)") (auto dest: read_frame_size [OF sym])

text \<open>
  A reply: \<open>Answer\<close> stands for the kinds of results.  \<open>faces\<close> says how many faces a result counts, for
  \<^verbatim>\<open>WorkerReply::too_large\<close>.
\<close>

record failure_detail =
  fd_diagnostic :: str
  fd_operation :: str
  fd_input_digest :: str
  fd_backend :: str

datatype worker_failure = WorkerFailure str "failure_detail option"

datatype 'r worker_reply = Answer 'r | Failure worker_failure | ReplyTooLarge "nat option"

definition invalid_request :: worker_failure where
  "invalid_request = WorkerFailure ''invalid_request'' None"

definition too_large_reply :: "('r \<Rightarrow> nat option) \<Rightarrow> 'r worker_reply \<Rightarrow> 'r worker_reply" where
  "too_large_reply faces reply = ReplyTooLarge (case reply of Answer result \<Rightarrow> faces result | _ \<Rightarrow> None)"

definition MAX_REQUEST_FRAME_BYTES :: nat where
  "MAX_REQUEST_FRAME_BYTES = 4 * 1024 * 1024 + 1024 * 1024"

text \<open>What the worker sends for a reply: the reply, or that it is too large, or nothing.\<close>

definition sent_frame :: "('r worker_reply \<Rightarrow> bytes list) \<Rightarrow> ('r \<Rightarrow> nat option) \<Rightarrow> 'r worker_reply \<Rightarrow> frame_error + bytes" where
  "sent_frame pieces faces reply =
     (case encode_frame pieces reply MAX_REPLY_FRAME_BYTES of
        Inr frame \<Rightarrow> Ok frame
      | Inl _ \<Rightarrow> encode_frame pieces (too_large_reply faces reply) MAX_REPLY_FRAME_BYTES)"

text \<open>
  The worker: one reply for each request, until its input closes.  \<open>handle\<close> does the work of a request on the worker's state; \<open>None\<close> is the
  end of the process.  The result is the frames it writes.
\<close>

function worker_loop ::
  "(bytes \<Rightarrow> str + 'q \<times> nat) \<Rightarrow> ('r worker_reply \<Rightarrow> bytes list) \<Rightarrow> ('r \<Rightarrow> nat option) \<Rightarrow>
   ('q \<Rightarrow> 'w \<Rightarrow> ((worker_failure + 'r worker_reply) \<times> 'w) option) \<Rightarrow> 'w \<Rightarrow> arrival list \<Rightarrow> bytes list" where
  "worker_loop decode pieces faces handle w s =
     (case read_frame decode MAX_REQUEST_FRAME_BYTES s of
        (Message request, s) \<Rightarrow>
          (case handle request w of
             None \<Rightarrow> []
           | Some (result, w) \<Rightarrow>
               (case sent_frame pieces faces (case result of Inl failure \<Rightarrow> Failure failure | Inr reply \<Rightarrow> reply) of
                  Inl _ \<Rightarrow> [] | Inr frame \<Rightarrow> frame # worker_loop decode pieces faces handle w s))
      | (Malformed _, s) \<Rightarrow>
          (case sent_frame pieces faces (Failure invalid_request) of
             Inl _ \<Rightarrow> [] | Inr frame \<Rightarrow> frame # worker_loop decode pieces faces handle w s)
      | _ \<Rightarrow> [])"
  by pat_completeness auto
termination by (relation "measure (pipe_size \<circ> (\<lambda>(_, _, _, _, _, s). s))") (auto dest: read_frame_size [OF sym])

declare reader_loop.simps [simp del] worker_loop.simps [simp del]


section \<open>A pipe that delivers\<close>

text \<open>The bytes of a pipe that does not break; no read but the one at the end gives nothing.\<close>

fun arrival_bytes :: "arrival \<Rightarrow> bytes" where
  "arrival_bytes (Bytes bs) = bs"
| "arrival_bytes Interrupt = []"
| "arrival_bytes (Broken e) = []"

definition delivers :: "arrival list \<Rightarrow> bytes \<Rightarrow> bool" where
  "delivers s bs \<longleftrightarrow> list_all (\<lambda>a. a \<noteq> Bytes [] \<and> (\<forall>e. a \<noteq> Broken e)) s \<and> concat (map arrival_bytes s) = bs"

lemma delivers_simps [simp]:
  "delivers [] bs \<longleftrightarrow> bs = []"
  "delivers (Interrupt # s) bs \<longleftrightarrow> delivers s bs"
  "delivers (Broken e # s) bs \<longleftrightarrow> False"
  "delivers (Bytes b # s) bs \<longleftrightarrow> b \<noteq> [] \<and> (\<exists>later. bs = b @ later \<and> delivers s later)"
  by (auto simp: delivers_def)

lemma read_delivers:
  "delivers s bs \<Longrightarrow> \<exists>s'. read_up_to n s = (Ok (take n bs), s') \<and> delivers s' (drop n bs)"
proof (induction s arbitrary: n bs)
  case (Cons a s)
  show ?case
  proof (cases "n = 0")
    case False
    then have n: "0 < n" by simp
    show ?thesis
    proof (cases a)
      case (Bytes b)
      with Cons.prems obtain later where l: "b \<noteq> []" "bs = b @ later" "delivers s later" by auto
      show ?thesis
      proof (cases "n < length b")
        case True
        with l n Bytes show ?thesis by auto
      next
        case False
        with Cons.IH [OF l(3), of "n - length b"] l Bytes show ?thesis by auto
      qed
    qed (use Cons n in auto)
  qed (use Cons.prems in simp)
qed simp

lemma encode_frame_Inr:
  assumes "encode_frame pieces message max_bytes = Inr frame"
  shows "\<exists>body. body = concat (pieces message) \<and> frame = le_bytes 4 (length body) @ body \<and> length body < 2 ^ 32 \<and> length body \<le> max_bytes"
proof -
  have w: "write_pieces max_bytes ps f = Inr g \<Longrightarrow> 4 \<le> length f \<Longrightarrow> length f - 4 \<le> max_bytes \<Longrightarrow>
      g = f @ concat ps \<and> length g - 4 \<le> max_bytes" for ps f g
  proof (induction ps arbitrary: f)
    case (Cons a ps)
    then have "write_pieces max_bytes ps (f @ a) = Inr g" "length (f @ a) - 4 \<le> max_bytes"
      by (auto simp: frame_write_def result_simps split: if_splits)
    with Cons.IH [of "f @ a"] Cons.prems(2) show ?case by (metis append.assoc concat.simps(2) length_append trans_le_add1)
  qed simp
  from assms obtain f where f: "write_pieces max_bytes (pieces message) (replicate 4 0) = Inr f"
    "length f - 4 < 2 ^ 32" "frame = le_bytes 4 (length f - 4) @ drop 4 f"
    by (auto simp: encode_frame_def Let_def result_simps)
  from w [OF f(1)] have g: "f = replicate 4 0 @ concat (pieces message)" and len: "length f - 4 \<le> max_bytes" by auto
  with f(2,3) show ?thesis using len unfolding g by simp
qed

text \<open>A whole frame is read, and one that is cut short is found truncated, however the bytes arrive.\<close>

lemma read_whole:
  assumes "encode_frame pieces message max_bytes = Inr frame" and "decode (concat (pieces message)) = Inr (message, length (concat (pieces message)))"
    and "delivers s (frame @ later)" and "max_bytes \<le> max_read"
  shows "\<exists>s'. read_frame decode max_read s = (Message message, s') \<and> delivers s' later"
proof -
  obtain body where b: "body = concat (pieces message)" "frame = le_bytes 4 (length body) @ body" "length body < 2 ^ 32" "length body \<le> max_bytes"
    using encode_frame_Inr [OF assms(1)] by blast
  from read_delivers [OF assms(3), of 4] obtain s1 where
    1: "read_up_to 4 s = (Ok (le_bytes 4 (length body)), s1)" "delivers s1 (body @ later)" by (auto simp: b(2))
  from read_delivers [OF 1(2), of "length body"] obtain s2 where
    2: "read_up_to (length body) s1 = (Ok body, s2)" "delivers s2 later" by auto
  have "le_value (le_bytes 4 (length body)) = length body" using b(3) by (simp add: le_value_le_bytes)
  moreover have "le_bytes 4 (length body) \<noteq> []" by (metis length_le_bytes list.size(3) zero_neq_numeral)
  ultimately show ?thesis
    using 1 2 assms(2,4) b(1,4) by (auto simp: read_frame_def)
qed

lemma read_cut:
  assumes "encode_frame pieces message max_bytes = Inr frame" and "delivers s (take k frame)" and "k < length frame" and "max_bytes \<le> max_read"
  shows "fst (read_frame decode max_read s) = (if k = 0 then Closed else Malformed (if k < 4 then HeaderTruncated else BodyTruncated))"
proof -
  obtain body where b: "frame = le_bytes 4 (length body) @ body" "length body < 2 ^ 32" "length body \<le> max_bytes"
    using encode_frame_Inr [OF assms(1)] by blast
  from read_delivers [OF assms(2), of 4] obtain s1 where
    1: "read_up_to 4 s = (Ok (take 4 (take k frame)), s1)" "delivers s1 (drop 4 (take k frame))" by blast
  have header: "take 4 (take k frame) = take k (le_bytes 4 (length body))" by (simp add: b(1) min_def)
  have length_header: "length (take k (le_bytes 4 (length body))) = min k 4" by simp
  show ?thesis
  proof (cases "k < 4")
    case True
    have "take k (le_bytes 4 (length body)) = [] \<longleftrightarrow> k = 0" using length_header True by (metis length_0_conv min.absorb3)
    with True 1(1) length_header assms(3) show ?thesis by (auto simp: read_frame_def header)
  next
    case False
    then have h: "take 4 (take k frame) = le_bytes 4 (length body)" unfolding header by simp
    have v: "le_value (le_bytes 4 (length body)) = length body" using b(2) by (simp add: le_value_le_bytes)
    have n: "le_bytes 4 (length body) \<noteq> []" by (metis length_le_bytes list.size(3) zero_neq_numeral)
    from read_delivers [OF 1(2), of "length body"] obtain s2 where
      2: "read_up_to (length body) s1 = (Ok (take (length body) (drop 4 (take k frame))), s2)" by blast
    have "length (take (length body) (drop 4 (take k frame))) \<noteq> length body" using assms(3) False by (simp add: b(1))
    moreover have "read_up_to 4 s = (Ok (le_bytes 4 (length body)), s1)" using 1(1) by (simp only: h)
    ultimately show ?thesis using False 2 v n b(3) assms(4) by (auto simp: read_frame_def Let_def)
  qed
qed


text \<open>What the loops make of a pipe that delivers whole frames and the start of one.\<close>

lemma read_closed: "delivers s [] \<Longrightarrow> \<exists>s'. read_frame decode max_bytes s = (Closed, s')"
  using read_delivers [of s "[]" 4] by (auto simp: read_frame_def)

lemma reader_cut:
  assumes "\<And>m. m \<in> set ms \<Longrightarrow> encode_frame pieces m MAX_REPLY_FRAME_BYTES = Inr (frame_of m)"
    and "\<And>m. m \<in> set ms \<Longrightarrow> decode (concat (pieces m)) = Inr (m, length (concat (pieces m)))"
    and "delivers s (take k (concat (map frame_of ms)))" and "k \<le> length (concat (map frame_of ms))"
  shows "\<exists>j rest. j \<le> length ms \<and> k = length (concat (map frame_of (take j ms))) + rest \<and>
    (if j < length ms then rest < length (frame_of (ms ! j)) else rest = 0) \<and>
    reader_loop decode s = map Reply (take j ms) @
      [if rest = 0 then Exited else ResponseMalformed (if rest < 4 then HeaderTruncated else BodyTruncated)]"
  using assms
proof (induction ms arbitrary: s k)
  case Nil
  then have "delivers s []" by simp
  then obtain s' where "read_frame decode MAX_REPLY_FRAME_BYTES s = (Closed, s')" using read_closed by blast
  with Nil(4) show ?case by (simp add: reader_loop.simps [of decode s])
next
  case (Cons m ms)
  show ?case
  proof (cases "k < length (frame_of m)")
    case True
    with Cons.prems(3) have "delivers s (take k (frame_of m))" by simp
    from read_cut [OF Cons.prems(1) this True order_refl, of decode] obtain s' where
      "read_frame decode MAX_REPLY_FRAME_BYTES s = (if k = 0 then Closed else Malformed (if k < 4 then HeaderTruncated else BodyTruncated), s')"
      by (metis eq_fst_iff list.set_intros(1))
    then have "reader_loop decode s = [if k = 0 then Exited else ResponseMalformed (if k < 4 then HeaderTruncated else BodyTruncated)]"
      by (simp add: reader_loop.simps [of decode s])
    with True show ?thesis by - (rule exI [of _ 0], rule exI [of _ k], simp)
  next
    case False
    with Cons.prems(3) have "delivers s (frame_of m @ take (k - length (frame_of m)) (concat (map frame_of ms)))" by simp
    from read_whole [where decode = decode and pieces = pieces and message = m, OF Cons.prems(1) [of m] Cons.prems(2) [of m] this order_refl] obtain s' where
      s': "read_frame decode MAX_REPLY_FRAME_BYTES s = (Message m, s')" "delivers s' (take (k - length (frame_of m)) (concat (map frame_of ms)))"
      by auto
    from Cons.IH [OF _ _ s'(2)] Cons.prems False obtain j later where
      j: "j \<le> length ms" "k - length (frame_of m) = length (concat (map frame_of (take j ms))) + later"
        "if j < length ms then later < length (frame_of (ms ! j)) else later = 0"
        "reader_loop decode s' = map Reply (take j ms) @
          [if later = 0 then Exited else ResponseMalformed (if later < 4 then HeaderTruncated else BodyTruncated)]"
      by (auto simp: le_diff_conv add.commute)
    have "reader_loop decode s = Reply m # reader_loop decode s'" by (subst reader_loop.simps) (simp add: s'(1))
    with j False show ?thesis by - (rule exI [of _ "Suc j"], rule exI [of _ later], auto)
  qed
qed

text \<open>The replies of the worker, each as it was sent.\<close>

fun answers :: "('q \<Rightarrow> 'w \<Rightarrow> ((worker_failure + 'r worker_reply) \<times> 'w) option) \<Rightarrow> 'w \<Rightarrow> 'q list \<Rightarrow> 'r worker_reply list" where
  "answers handle w [] = []"
| "answers handle w (q # qs) =
     (case handle q w of
        None \<Rightarrow> []
      | Some (result, w) \<Rightarrow> (case result of Inl failure \<Rightarrow> Failure failure | Inr reply \<Rightarrow> reply) # answers handle w qs)"

definition as_sent :: "('r worker_reply \<Rightarrow> bytes list) \<Rightarrow> ('r \<Rightarrow> nat option) \<Rightarrow> 'r worker_reply \<Rightarrow> 'r worker_reply" where
  "as_sent pieces faces reply =
     (if is_ok (encode_frame pieces reply MAX_REPLY_FRAME_BYTES) then reply else too_large_reply faces reply)"

lemma sent_as_sent: "sent_frame pieces faces reply = encode_frame pieces (as_sent pieces faces reply) MAX_REPLY_FRAME_BYTES"
  by (auto simp: sent_frame_def as_sent_def is_ok_def split: sum.splits)

lemma worker_answers:
  assumes "\<And>q. q \<in> set qs \<Longrightarrow> encode_frame request_pieces q MAX_REQUEST_FRAME_BYTES = Inr (frame_of q)"
    and "\<And>q. q \<in> set qs \<Longrightarrow> decode (concat (request_pieces q)) = Inr (q, length (concat (request_pieces q)))"
    and "\<And>r. r \<in> set (answers handle w qs) \<Longrightarrow> sent_frame pieces faces r = Inr (reply_frame r)"
    and "delivers s (concat (map frame_of qs))"
  shows "worker_loop decode pieces faces handle w s = map reply_frame (answers handle w qs)"
  using assms
proof (induction qs arbitrary: s w)
  case Nil
  then have "delivers s []" by simp
  then obtain s' where "read_frame decode MAX_REQUEST_FRAME_BYTES s = (Closed, s')" using read_closed by blast
  then show ?case by (simp add: worker_loop.simps [of decode _ _ _ _ s])
next
  case (Cons q qs)
  from Cons.prems(4) have "delivers s (frame_of q @ concat (map frame_of qs))" by simp
  from read_whole [where decode = decode and pieces = request_pieces and message = q, OF Cons.prems(1) [of q] Cons.prems(2) [of q] this order_refl] obtain s' where
    s': "read_frame decode MAX_REQUEST_FRAME_BYTES s = (Message q, s')" "delivers s' (concat (map frame_of qs))"
    by auto
  show ?case
  proof (cases "handle q w")
    case None
    with s' show ?thesis by (simp add: worker_loop.simps [of decode _ _ _ _ s])
  next
    case (Some a)
    obtain result w' where a: "a = (result, w')" by (cases a)
    have "worker_loop decode pieces faces handle w' s' = map reply_frame (answers handle w' qs)"
      using Cons.prems(1-3) Some a by (intro Cons.IH [OF _ _ _ s'(2)]) auto
    with Cons.prems(3) s' Some a show ?thesis by (simp add: worker_loop.simps [of decode _ _ _ _ s])
  qed
qed


section \<open>Properties\<close>

text \<open>
  C25.  Frames are read back as they were written, and a pipe that ends early is noticed.  Whatever pieces the bytes of some frames arrive in, with interrupted
  reads between them, and wherever they end, the reader gives the messages of the frames that are complete, in order, and then one end: a clean
  one exactly if the bytes end between two frames, and otherwise that the header or the body was truncated.
\<close>

theorem frames_read_back:
  assumes "\<And>m. m \<in> set ms \<Longrightarrow> encode_frame pieces m MAX_REPLY_FRAME_BYTES = Inr (frame_of m)"
    and "\<And>m. m \<in> set ms \<Longrightarrow> decode (concat (pieces m)) = Inr (m, length (concat (pieces m)))"
    and "delivers s (take k (concat (map frame_of ms)))" and "k \<le> length (concat (map frame_of ms))"
  shows "\<exists>j rest. j \<le> length ms \<and> k = length (concat (map frame_of (take j ms))) + rest \<and>
    (if j < length ms then rest < length (frame_of (ms ! j)) else rest = 0) \<and>
    reader_loop decode s = map Reply (take j ms) @
      [if rest = 0 then Exited else ResponseMalformed (if rest < 4 then HeaderTruncated else BodyTruncated)]"
  by (rule reader_cut [OF assms])

theorem frames_read_back_witness:
  "reader_loop (\<lambda>bs. Inr (bs, length bs)) [Bytes [1, 0], Interrupt, Bytes [0, 0, 1, 2]] = [Reply [1], ResponseMalformed HeaderTruncated]"
proof -
  let ?frame = "\<lambda>m :: bytes. le_bytes 4 (length m) @ m" and ?ms = "[[1], [2, 3]] :: bytes list"
  have le: "le_bytes 4 v = [of_nat v, of_nat (v div 256), of_nat (v div 256 div 256), of_nat (v div 256 div 256 div 256)]" for v
  proof -
    have "(4 :: nat) = Suc (Suc (Suc (Suc 0)))" by simp
    then show ?thesis by (simp only: le_bytes.simps)
  qed
  have enc: "encode_frame (\<lambda>m. [m]) m MAX_REPLY_FRAME_BYTES = Inr (?frame m)" if "m \<in> set ?ms" for m
    using that by (auto simp: encode_frame_def frame_write_def MAX_REPLY_FRAME_BYTES_def Let_def)
  have del: "delivers [Bytes [1, 0], Interrupt, Bytes [0, 0, 1, 2]] (take 6 (concat (map ?frame ?ms)))" by (simp add: le)
  let ?read = "reader_loop (\<lambda>bs. Inr (bs, length bs)) [Bytes [1, 0], Interrupt, Bytes [0, 0, 1, 2]]"
  have "\<exists>j rest. j \<le> length ?ms \<and> 6 = length (concat (map ?frame (take j ?ms))) + rest \<and>
      (if j < length ?ms then rest < length (?frame (?ms ! j)) else rest = 0) \<and>
      ?read = map Reply (take j ?ms) @ [if rest = 0 then Exited else ResponseMalformed (if rest < 4 then HeaderTruncated else BodyTruncated)]"
    by (rule frames_read_back [where pieces = "\<lambda>m. [m]", OF enc _ del]) (simp_all add: le)
  then obtain j rest where j: "j \<le> length ?ms" "6 = length (concat (map ?frame (take j ?ms))) + rest"
    "if j < length ?ms then rest < length (?frame (?ms ! j)) else rest = 0"
    "?read = map Reply (take j ?ms) @ [if rest = 0 then Exited else ResponseMalformed (if rest < 4 then HeaderTruncated else BodyTruncated)]"
    by blast
  moreover have "j = 1 \<and> rest = 1"
  proof -
    from j(1) have "j = 0 \<or> j = 1 \<or> j = 2" by auto
    with j(2,3) show ?thesis by (elim disjE) (simp_all add: le)
  qed
  ultimately show ?thesis by simp
qed

text \<open>
  C24.  A worker answers every request once and in order.  The frames of some requests arrive at a worker in any pieces, and what it writes arrives at the client in
  any pieces.  Then the client's reader gives exactly the worker's replies, one for each request up to one that ends the process, in order, each as
  it was given or, when it fits no frame, as a reply that says so; and then that the worker exited.
\<close>

theorem requests_answered_in_order:
  assumes "\<And>q. q \<in> set qs \<Longrightarrow> encode_frame request_pieces q MAX_REQUEST_FRAME_BYTES = Inr (frame_of q)"
    and "\<And>q. q \<in> set qs \<Longrightarrow> decode_request (concat (request_pieces q)) = Inr (q, length (concat (request_pieces q)))"
    and fits: "\<And>r. r \<in> set (answers handle w qs) \<Longrightarrow> sent_frame pieces faces r = Inr (reply_frame r)"
    and reads: "\<And>r. r \<in> as_sent pieces faces ` set (answers handle w qs) \<Longrightarrow> decode (concat (pieces r)) = Inr (r, length (concat (pieces r)))"
    and "delivers s (concat (map frame_of qs))"
    and "delivers s' (concat (worker_loop decode_request pieces faces handle w s))"
  shows "reader_loop decode s' = map (Reply \<circ> as_sent pieces faces) (answers handle w qs) @ [Exited]"
proof -
  let ?rs = "map (as_sent pieces faces) (answers handle w qs)" and ?frame = "\<lambda>r. projr (encode_frame pieces r MAX_REPLY_FRAME_BYTES)"
  have "worker_loop decode_request pieces faces handle w s = map reply_frame (answers handle w qs)"
    by (rule worker_answers [OF assms(1,2) fits assms(5)])
  then have out: "worker_loop decode_request pieces faces handle w s = map ?frame ?rs" using fits by (simp add: sent_as_sent)
  then have del: "delivers s' (take (length (concat (map ?frame ?rs))) (concat (map ?frame ?rs)))" using assms(6) by simp
  have enc: "encode_frame pieces r MAX_REPLY_FRAME_BYTES = Inr (?frame r)" if "r \<in> set ?rs" for r
    using that fits by (auto simp: sent_as_sent)
  have frame: "0 < length (?frame r)" if "r \<in> set ?rs" for r
    using encode_frame_Inr [OF enc [OF that]] by (auto simp del: le_bytes.simps)
  have dec: "decode (concat (pieces r)) = Inr (r, length (concat (pieces r)))" if "r \<in> set ?rs" for r
    using that reads by simp
  from reader_cut [OF enc dec del order_refl] obtain j rest where
    j: "j \<le> length ?rs" "length (concat (map ?frame ?rs)) = length (concat (map ?frame (take j ?rs))) + rest"
      "if j < length ?rs then rest < length (?frame (?rs ! j)) else rest = 0"
      "reader_loop decode s' = map Reply (take j ?rs) @
        [if rest = 0 then Exited else ResponseMalformed (if rest < 4 then HeaderTruncated else BodyTruncated)]" by blast
  have "j = length ?rs"
  proof (rule ccontr)
    assume "j \<noteq> length ?rs"
    with j(1) have less: "j < length ?rs" by simp
    then have "concat (map ?frame ?rs) = concat (map ?frame (take j ?rs)) @ ?frame (?rs ! j) @ concat (map ?frame (drop (Suc j) ?rs))"
      by (subst id_take_nth_drop [OF less]) simp
    with j(2) have "rest = length (?frame (?rs ! j)) + length (concat (map ?frame (drop (Suc j) ?rs)))" by simp
    with j(3) less show False by simp
  qed
  with j(2-4) show ?thesis by simp
qed

theorem requests_answered_in_order_witness:
  "\<exists>request reply. worker_loop (\<lambda>bs. Inr (bs, length bs)) (\<lambda>r. [case r of Answer bs \<Rightarrow> bs | _ \<Rightarrow> []]) (\<lambda>_. None)
     (\<lambda>q w. Some (Inr (Answer (q @ w)), w)) [3] [Bytes (take 2 request), Interrupt, Bytes (drop 2 request)] = [reply] \<and>
   reader_loop (\<lambda>bs. Inr (Answer bs :: bytes worker_reply, length bs)) [Interrupt, Bytes reply] = [Reply (Answer [7, 3]), Exited]"
proof -
  let ?frame = "\<lambda>m :: bytes. le_bytes 4 (length m) @ m"
  let ?pieces = "\<lambda>r :: bytes worker_reply. [case r of Answer bs \<Rightarrow> bs | _ \<Rightarrow> []]" and ?handle = "\<lambda>(q :: bytes) w. Some (Inr (Answer (q @ w)), w)"
  let ?in = "[Bytes (take 2 (?frame [7])), Interrupt, Bytes (drop 2 (?frame [7]))]"
  have enc: "encode_frame (\<lambda>m. [m]) m MAX_REQUEST_FRAME_BYTES = Inr (?frame m)" if "m \<in> set [[7]]" for m
    using that by (simp add: encode_frame_def frame_write_def MAX_REQUEST_FRAME_BYTES_def Let_def)
  have sent: "encode_frame ?pieces (Answer [7, 3]) MAX_REPLY_FRAME_BYTES = Inr (?frame [7, 3])"
    by (simp add: encode_frame_def frame_write_def MAX_REPLY_FRAME_BYTES_def Let_def numeral_2_eq_2 [symmetric])
  then have fits: "sent_frame ?pieces (\<lambda>_. None) r = Inr (?frame [7, 3])" if "r \<in> set (answers ?handle [3] [[7]])" for r
    using that by (simp add: sent_frame_def)
  have del: "delivers ?in (concat (map ?frame [[7]]))"
  proof -
    have "length (le_bytes 4 1) = 4" by simp
    then have "take 2 (?frame [7]) \<noteq> []" "drop 2 (?frame [7]) \<noteq> []" by (auto simp del: length_le_bytes le_bytes.simps)
    then show ?thesis by (simp add: append_take_drop_id [symmetric] del: append_take_drop_id)
  qed
  have out: "worker_loop (\<lambda>bs. Inr (bs, length bs)) ?pieces (\<lambda>_. None) ?handle [3] ?in = [?frame [7, 3]]"
    using worker_answers [where request_pieces = "\<lambda>m. [m]" and decode = "\<lambda>bs. Inr (bs, length bs)" and handle = ?handle and w = "[3]",
      OF enc _ fits del] by simp
  have "delivers [Interrupt, Bytes (?frame [7, 3])]
      (concat (worker_loop (\<lambda>bs. Inr (bs, length bs)) ?pieces (\<lambda>_. None) ?handle [3] ?in))" unfolding out by simp
  from requests_answered_in_order [where request_pieces = "\<lambda>m. [m]" and decode = "\<lambda>bs. Inr (Answer bs, length bs)"
      and handle = ?handle and w = "[3]", OF enc _ fits _ del this] sent
  have "reader_loop (\<lambda>bs. Inr (Answer bs :: bytes worker_reply, length bs)) [Interrupt, Bytes (?frame [7, 3])] = [Reply (Answer [7, 3]), Exited]"
    by (simp add: as_sent_def)
  with out show ?thesis by blast
qed

end
