(* ===== verification/Ketchup_Worker.thy ===== *)
theory Ketchup_Worker
  imports Ketchup_Frames "HOL-Library.Sublist"
begin

text \<open>
  The client of a worker process (\<^verbatim>\<open>ketchup-scheduler/src/worker_client.rs\<close>) as a state machine.  A call writes one request, waits for one
  response, and may be cancelled, run out of time or lose the worker at any poll; the worker and the threads at the pipes
  move on their own.  A client whose worker was stopped is never called again (\<^verbatim>\<open>is_alive\<close>, \<^verbatim>\<open>program_worker.rs\<close>).
\<close>

section \<open>Failures\<close>

datatype worker_error =
    TransportFailed str
  | WorkerExited
  | Cancelled
  | RequestTimedOut
  | ResponseOverLimit nat
  | MalformedTransport
  | MalformedReply malformed
  | Protocol
  | Geometry worker_failure
  | ResourceLimit "nat option"
  | MemoryLimit

definition is_geometry_error_code :: "str \<Rightarrow> bool" where
  "is_geometry_error_code code \<longleftrightarrow>
     code \<in> set [''invalid_parameter'', ''invalid_profile'', ''non_finite_parameter'', ''no_geometric_change'', ''degenerate_operation'',
       ''invalid_shape'', ''backend_exception'', ''null_result'']"

definition failure_error :: "worker_failure \<Rightarrow> worker_error" where
  "failure_error failure =
     (case failure of WorkerFailure code detail \<Rightarrow> if is_geometry_error_code code then Geometry failure else Protocol)"

text \<open>A worker that died of its memory limit fails with that.\<close>

definition fail_error :: "bool \<Rightarrow> worker_error \<Rightarrow> worker_error" where
  "fail_error memory_exceeded e =
     (if e \<in> {Cancelled, RequestTimedOut} then e else if memory_exceeded then MemoryLimit else e)"

text \<open>
  What a call makes of a response: its result, and whether the worker stays.  A geometry refusal and a result too
  large for a reply leave the worker as it is.
\<close>

definition settle_response :: "'r worker_reply worker_response \<Rightarrow> (worker_error + 'r worker_reply) \<times> bool" where
  "settle_response response =
     (case response of
        Reply (Failure failure) \<Rightarrow> (Err (failure_error failure), \<exists>f. failure_error failure = Geometry f)
      | Reply (ReplyTooLarge faces) \<Rightarrow> (Err (ResourceLimit faces), True)
      | Reply reply \<Rightarrow> (Ok reply, True)
      | Exited \<Rightarrow> (Err WorkerExited, False)
      | ResponseTooLarge \<Rightarrow> (Err (ResponseOverLimit MAX_REPLY_FRAME_BYTES), False)
      | ResponseMalformed m \<Rightarrow> (Err (MalformedReply m), False)
      | ResponseTransport e \<Rightarrow> (Err (TransportFailed e), False))"

section \<open>The client and its worker\<close>

text \<open>
  Where a call is: between calls, its request handed to the writer, or acknowledged as written.
\<close>

datatype 'q call_phase = Idle | Writing 'q | Waiting 'q

text \<open>
  \<open>sy_requests\<close> are written and not yet read by the worker, \<open>sy_worker\<close> is the worker's state (\<open>None\<close> when it ended) and \<open>sy_responses\<close> what was
  read from it and not yet received.  \<open>sy_results\<close> is every finished call with its result, \<open>sy_handled\<close> every request the worker replied to.
\<close>

record ('q, 'r, 'w) worker_system =
  sy_terminated :: bool
  sy_phase :: "'q call_phase"
  sy_requests :: "'q list"
  sy_worker :: "'w option"
  sy_responses :: "'r worker_reply worker_response list"
  sy_results :: "('q \<times> (worker_error + 'r worker_reply)) list"
  sy_handled :: "('q \<times> 'r worker_reply) list"

definition spawned :: "'w \<Rightarrow> ('q, 'r, 'w) worker_system" where
  "spawned w =
     \<lparr>sy_terminated = False, sy_phase = Idle, sy_requests = [], sy_worker = Some w, sy_responses = [], sy_results = [], sy_handled = []\<rparr>"

definition finish_call :: "'q \<Rightarrow> worker_error + 'r worker_reply \<Rightarrow> bool \<Rightarrow> ('q, 'r, 'w) worker_system \<Rightarrow> ('q, 'r, 'w) worker_system" where
  "finish_call q result stays sy =
     sy \<lparr>sy_terminated := sy_terminated sy \<or> \<not> stays, sy_phase := Idle, sy_results := sy_results sy @ [(q, result)]\<rparr>"

definition fail_call :: "'q \<Rightarrow> bool \<Rightarrow> worker_error \<Rightarrow> ('q, 'r, 'w) worker_system \<Rightarrow> ('q, 'r, 'w) worker_system" where
  "fail_call q memory_exceeded e = finish_call q (Err (fail_error memory_exceeded e)) False"

text \<open>
  Steps of the client.  A request that does not fit a frame is refused before anything is written; the flag of a cancellation is looked at
  before the write and with every poll of the write's acknowledgment and of the response.
\<close>

inductive client_step ::
  "('q \<Rightarrow> bool) \<Rightarrow> ('q, 'r, 'w) worker_system \<Rightarrow> ('q, 'r, 'w) worker_system \<Rightarrow> bool"
  for fits where
  cancelled_first: "\<not> sy_terminated sy \<Longrightarrow> sy_phase sy = Idle \<Longrightarrow> client_step fits sy (fail_call q memory Cancelled sy)"
| refused: "\<not> sy_terminated sy \<Longrightarrow> sy_phase sy = Idle \<Longrightarrow> \<not> fits q \<Longrightarrow> client_step fits sy (finish_call q (Err Protocol) True sy)"
| unwritten: "\<not> sy_terminated sy \<Longrightarrow> sy_phase sy = Idle \<Longrightarrow> fits q \<Longrightarrow> client_step fits sy (fail_call q memory MalformedTransport sy)"
| written:
    "\<not> sy_terminated sy \<Longrightarrow> sy_phase sy = Idle \<Longrightarrow> fits q \<Longrightarrow>
     client_step fits sy (sy \<lparr>sy_phase := Writing q, sy_requests := sy_requests sy @ [q]\<rparr>)"
| acknowledged: "sy_phase sy = Writing q \<Longrightarrow> client_step fits sy (sy \<lparr>sy_phase := Waiting q\<rparr>)"
| write_failed: "sy_phase sy = Writing q \<Longrightarrow> client_step fits sy (fail_call q memory (TransportFailed e) sy)"
| stopped:
    "sy_phase sy \<in> {Writing q, Waiting q} \<Longrightarrow> e \<in> {Cancelled, RequestTimedOut, MalformedTransport} \<Longrightarrow>
     client_step fits sy (fail_call q memory e sy)"
| received:
    "sy_phase sy = Waiting q \<Longrightarrow> sy_responses sy = response # later \<Longrightarrow> settle_response response = (result, stays) \<Longrightarrow>
     client_step fits sy
       (if stays then finish_call q result True (sy \<lparr>sy_responses := later\<rparr>)
        else fail_call q memory (projl result) (sy \<lparr>sy_responses := later\<rparr>))"
| retired: "sy_phase sy = Idle \<Longrightarrow> client_step fits sy (sy \<lparr>sy_terminated := True\<rparr>)"

text \<open>Steps of the worker: it replies to the next request, or its end of the pipe ends, in whatever way.\<close>

inductive worker_step ::
  "('q \<Rightarrow> 'w \<Rightarrow> ((worker_failure + 'r worker_reply) \<times> 'w) option) \<Rightarrow> ('r worker_reply \<Rightarrow> 'r worker_reply) \<Rightarrow>
   ('q, 'r, 'w) worker_system \<Rightarrow> ('q, 'r, 'w) worker_system \<Rightarrow> bool"
  for handle sent where
  replied:
    "sy_worker sy = Some w \<Longrightarrow> sy_requests sy = q # qs \<Longrightarrow> handle q w = Some (result, w') \<Longrightarrow>
     reply = sent (case result of Inl failure \<Rightarrow> Failure failure | Inr reply \<Rightarrow> reply) \<Longrightarrow>
     worker_step handle sent sy
       (sy \<lparr>sy_worker := Some w', sy_requests := qs, sy_responses := sy_responses sy @ [Reply reply], sy_handled := sy_handled sy @ [(q, reply)]\<rparr>)"
| ended:
    "sy_worker sy = Some w \<Longrightarrow> (\<nexists>reply. response = Reply reply) \<Longrightarrow>
     worker_step handle sent sy (sy \<lparr>sy_worker := None, sy_responses := sy_responses sy @ [response]\<rparr>)"

definition system_step ::
  "('q \<Rightarrow> bool) \<Rightarrow> ('q \<Rightarrow> 'w \<Rightarrow> ((worker_failure + 'r worker_reply) \<times> 'w) option) \<Rightarrow> ('r worker_reply \<Rightarrow> 'r worker_reply) \<Rightarrow>
   ('q, 'r, 'w) worker_system \<Rightarrow> ('q, 'r, 'w) worker_system \<Rightarrow> bool" where
  "system_step fits handle sent sy sy' \<longleftrightarrow> client_step fits sy sy' \<or> worker_step handle sent sy sy'"

section \<open>What is outstanding\<close>

text \<open>The replies that calls received, each with the request of its call.\<close>

definition received_reply :: "'q \<times> (worker_error + 'r worker_reply) \<Rightarrow> ('q \<times> 'r worker_reply) option" where
  "received_reply r =
     (case r of
        (q, Inr reply) \<Rightarrow> Some (q, reply)
      | (q, Inl (Geometry failure)) \<Rightarrow> Some (q, Failure failure)
      | (q, Inl (ResourceLimit faces)) \<Rightarrow> Some (q, ReplyTooLarge faces)
      | _ \<Rightarrow> None)"

definition received_replies :: "('q, 'r, 'w) worker_system \<Rightarrow> ('q \<times> 'r worker_reply) list" where
  "received_replies sy = List.map_filter received_reply (sy_results sy)"

text \<open>
  Between calls of a live client no request and no reply is under way; during a call at most the one of the call.
\<close>

definition in_step :: "('q, 'r, 'w) worker_system \<Rightarrow> bool" where
  "in_step sy \<longleftrightarrow>
     (case sy_phase sy of
        Idle \<Rightarrow> sy_requests sy = [] \<and> [r. Reply r \<leftarrow> sy_responses sy] = [] \<and> sy_handled sy = received_replies sy
      | Writing q \<Rightarrow>
          sy_requests sy = [q] \<and> [r. Reply r \<leftarrow> sy_responses sy] = [] \<and> sy_handled sy = received_replies sy \<or>
          sy_requests sy = [] \<and> (\<exists>r ended. sy_responses sy = Reply r # ended \<and> [r. Reply r \<leftarrow> ended] = [] \<and>
            sy_handled sy = received_replies sy @ [(q, r)])
      | Waiting q \<Rightarrow>
          sy_requests sy = [q] \<and> [r. Reply r \<leftarrow> sy_responses sy] = [] \<and> sy_handled sy = received_replies sy \<or>
          sy_requests sy = [] \<and> (\<exists>r ended. sy_responses sy = Reply r # ended \<and> [r. Reply r \<leftarrow> ended] = [] \<and>
            sy_handled sy = received_replies sy @ [(q, r)]))"

definition system_inv :: "('q, 'r, 'w) worker_system \<Rightarrow> bool" where
  "system_inv sy \<longleftrightarrow>
     (if sy_terminated sy then prefix (received_replies sy) (sy_handled sy) else in_step sy) \<and>
     (sy_terminated sy \<longrightarrow> sy_phase sy = Idle) \<and>
     (sy_worker sy \<noteq> None \<longrightarrow> (\<forall>r \<in> set (sy_responses sy). \<exists>reply. r = Reply reply))"


lemma received_finish:
  "received_replies (finish_call q result stays sy) = received_replies sy @ (case received_reply (q, result) of None \<Rightarrow> [] | Some r \<Rightarrow> [r])"
  by (simp add: received_replies_def finish_call_def List.map_filter_def split: option.splits)

lemma failed_reply [simp]:
  "e \<in> {Cancelled, RequestTimedOut, MalformedTransport} \<union> range TransportFailed \<union> range ResponseOverLimit \<union> range MalformedReply \<union>
    {WorkerExited, Protocol} \<Longrightarrow> received_reply (q, Inl (fail_error memory e)) = None"
  by (auto simp: received_reply_def fail_error_def)

lemma received_fail:
  fixes sy :: "('q, 'r, 'w) worker_system"
  shows "received_reply (q, Inl (fail_error memory e) :: worker_error + 'r worker_reply) = None \<Longrightarrow> received_replies (fail_call q memory e sy) = received_replies sy"
  by (simp add: fail_call_def received_finish)

lemma finish_call_fields [simp]:
  "sy_terminated (finish_call q result stays sy) = (sy_terminated sy \<or> \<not> stays)" "sy_phase (finish_call q result stays sy) = Idle"
  "sy_requests (finish_call q result stays sy) = sy_requests sy" "sy_handled (finish_call q result stays sy) = sy_handled sy"
  "sy_worker (finish_call q result stays sy) = sy_worker sy" "sy_responses (finish_call q result stays sy) = sy_responses sy"
  by (simp_all add: finish_call_def)

lemma fail_call_fields [simp]:
  "sy_terminated (fail_call q memory e sy)" "sy_phase (fail_call q memory e sy) = Idle" "sy_handled (fail_call q memory e sy) = sy_handled sy"
  "sy_worker (fail_call q memory e sy) = sy_worker sy" "sy_responses (fail_call q memory e sy) = sy_responses sy"
  by (simp_all add: fail_call_def)

lemma in_step_prefix: "in_step sy \<Longrightarrow> prefix (received_replies sy) (sy_handled sy)"
  by (auto simp: in_step_def split: call_phase.splits)

lemma settled:
  assumes "settle_response response = (result, stays)"
  shows "stays \<Longrightarrow> \<exists>r. response = Reply r \<and> received_reply (q, result) = Some (q, r)"
    and "\<not> stays \<Longrightarrow> received_reply (q, Inl (fail_error memory (projl result))) = None"
  using assms
  by (auto simp: settle_response_def received_reply_def failure_error_def fail_error_def
      split: worker_response.splits worker_reply.splits worker_failure.splits if_splits)

lemma fail_inv:
  fixes sy :: "('q, 'r, 'w) worker_system"
  assumes "system_inv sy" and "\<not> sy_terminated sy" and "received_reply (q, Inl (fail_error memory e) :: worker_error + 'r worker_reply) = None"
  shows "system_inv (fail_call q memory e sy)"
  using assms in_step_prefix [of sy] by (auto simp: system_inv_def received_fail)

lemma busy_live: "system_inv sy \<Longrightarrow> sy_phase sy = Writing q \<or> sy_phase sy = Waiting q \<Longrightarrow> \<not> sy_terminated sy"
  by (auto simp: system_inv_def)

lemma client_step_inv:
  assumes "client_step fits sy sy'" and inv: "system_inv sy"
  shows "system_inv sy'"
  using assms(1)
proof cases
  case (cancelled_first q memory)
  show ?thesis unfolding cancelled_first(1) by (rule fail_inv [OF inv cancelled_first(2)]) simp
next
  case (refused q)
  have "received_replies (finish_call q (Err Protocol) True sy) = received_replies sy" by (simp add: received_finish received_reply_def)
  with refused inv show ?thesis by (simp add: system_inv_def in_step_def)
next
  case (unwritten q memory)
  show ?thesis unfolding unwritten(1) by (rule fail_inv [OF inv unwritten(2)]) simp
next
  case (written q)
  with inv show ?thesis by (auto simp: system_inv_def in_step_def received_replies_def)
next
  case (acknowledged q)
  with inv show ?thesis by (auto simp: system_inv_def in_step_def received_replies_def)
next
  case (write_failed q memory e)
  show ?thesis unfolding write_failed(1) by (rule fail_inv [OF inv]) (use busy_live [OF inv] write_failed(2) in auto)
next
  case (stopped q e memory)
  show ?thesis unfolding stopped(1) by (rule fail_inv [OF inv]) (use busy_live [OF inv] stopped(2,3) in auto)
next
  case (received q response later result stays)
  have live: "\<not> sy_terminated sy" using busy_live [OF inv] received(2) by auto
  with inv have step: "in_step sy" "sy_worker sy \<noteq> None \<longrightarrow> (\<forall>r \<in> set (sy_responses sy). \<exists>reply. r = Reply reply)"
    by (auto simp: system_inv_def)
  have same: "received_replies (sy \<lparr>sy_responses := later\<rparr>) = received_replies sy" by (simp add: received_replies_def)
  show ?thesis
  proof (cases stays)
    case True
    from settled(1) [OF received(4) True, of q] obtain r where r: "response = Reply r" "received_reply (q, result) = Some (q, r)" by blast
    with step(1) received(2,3) have "sy_requests sy = []" "[r. Reply r \<leftarrow> later] = []" "sy_handled sy = received_replies sy @ [(q, r)]"
      by (auto simp: in_step_def)
    with r True received step live same show ?thesis
      by (simp add: system_inv_def in_step_def received_finish)
  next
    case False
    note none = received_fail [OF settled(2) [OF received(4) False]]
    from in_step_prefix [OF step(1)] step(2) received(1,3) False same show ?thesis
      by (auto simp: system_inv_def none)
  qed
next
  case retired
  with inv in_step_prefix [of sy] show ?thesis by (auto simp: system_inv_def received_replies_def split: if_splits)
qed

lemma worker_step_inv:
  assumes "worker_step handle sent sy sy'" and inv: "system_inv sy"
  shows "system_inv sy'"
  using assms(1)
proof cases
  case (replied w q qs result w' reply)
  have same: "received_replies sy' = received_replies sy" unfolding replied(1) by (simp add: received_replies_def)
  have replies: "\<forall>r \<in> set (sy_responses sy). \<exists>reply. r = Reply reply" using inv replied(2) by (simp add: system_inv_def)
  show ?thesis
  proof (cases "sy_terminated sy")
    case True
    with inv same replies replied show ?thesis by (auto simp: system_inv_def intro: prefix_prefix)
  next
    case False
    with inv have step: "in_step sy" by (simp add: system_inv_def)
    have none: "sy_responses sy = []" if "[r. Reply r \<leftarrow> sy_responses sy] = []"
    proof (rule ccontr)
      assume "sy_responses sy \<noteq> []"
      with replies obtain r later where "sy_responses sy = Reply r # later" by (cases "sy_responses sy") auto
      with that show False by simp
    qed
    from step replied(3) none False same replies show ?thesis
      unfolding replied(1) system_inv_def in_step_def
      by (auto split: call_phase.splits)
  qed
next
  case (ended w response)
  have same: "received_replies sy' = received_replies sy" unfolding ended(1) by (simp add: received_replies_def)
  have "(case response of Reply r \<Rightarrow> [r] | _ \<Rightarrow> []) = []" using ended(3) by (cases response) auto
  with inv same ended show ?thesis by (auto simp: system_inv_def in_step_def split: call_phase.splits)
qed

lemma worker_run_inv: "(system_step fits handle sent)\<^sup>*\<^sup>* (spawned w) sy \<Longrightarrow> system_inv sy"
proof (induction rule: rtranclp_induct)
  case base
  show ?case by (simp add: spawned_def system_inv_def in_step_def received_replies_def List.map_filter_def)
next
  case (step sy sy')
  then show ?case unfolding system_step_def by (blast intro: client_step_inv worker_step_inv)
qed


text \<open>What the worker handled is what its handler gives for the requests in turn.\<close>

fun state_after :: "('q \<Rightarrow> 'w \<Rightarrow> ((worker_failure + 'r worker_reply) \<times> 'w) option) \<Rightarrow> 'w \<Rightarrow> 'q list \<Rightarrow> 'w option" where
  "state_after handle w [] = Some w"
| "state_after handle w (q # qs) = (case handle q w of None \<Rightarrow> None | Some (_, w) \<Rightarrow> state_after handle w qs)"

lemma answers_snoc:
  assumes "state_after handle w qs = Some w'" and "handle q w' = Some (result, w'')"
  shows "answers handle w (qs @ [q]) = answers handle w qs @ [case result of Inl failure \<Rightarrow> Failure failure | Inr reply \<Rightarrow> reply]"
    and "state_after handle w (qs @ [q]) = Some w''"
  using assms by (induction qs arbitrary: w) (auto split: option.splits)

lemma answers_take: "answers handle w (take n qs) = take n (answers handle w qs)"
  by (induction qs arbitrary: w n) (auto simp: take_Cons split: nat.splits option.splits)

definition handled_ok ::
  "('q \<Rightarrow> 'w \<Rightarrow> ((worker_failure + 'r worker_reply) \<times> 'w) option) \<Rightarrow> ('r worker_reply \<Rightarrow> 'r worker_reply) \<Rightarrow> 'w \<Rightarrow>
   ('q, 'r, 'w) worker_system \<Rightarrow> bool" where
  "handled_ok handle sent w sy \<longleftrightarrow>
     map snd (sy_handled sy) = map sent (answers handle w (map fst (sy_handled sy))) \<and>
     (\<forall>w'. sy_worker sy = Some w' \<longrightarrow> state_after handle w (map fst (sy_handled sy)) = Some w')"

lemma client_step_handled: "client_step fits sy sy' \<Longrightarrow> sy_handled sy' = sy_handled sy \<and> sy_worker sy' = sy_worker sy"
  by (induction rule: client_step.induct) auto

lemma run_handled: "(system_step fits handle sent)\<^sup>*\<^sup>* (spawned w) sy \<Longrightarrow> handled_ok handle sent w sy"
proof (induction rule: rtranclp_induct)
  case base
  show ?case by (simp add: handled_ok_def spawned_def)
next
  case (step sy sy')
  from step.hyps(2) consider "client_step fits sy sy'" | "worker_step handle sent sy sy'" by (auto simp: system_step_def)
  then show ?case
  proof cases
    case 1
    with step.IH show ?thesis by (simp add: handled_ok_def client_step_handled)
  next
    case 2
    then show ?thesis
    proof cases
      case (replied w1 q qs result w2 reply)
      with step.IH have "state_after handle w (map fst (sy_handled sy)) = Some w1" by (simp add: handled_ok_def)
      note answers_snoc [OF this replied(4)]
      with step.IH replied(1,5) show ?thesis by (simp add: handled_ok_def)
    qed (use step.IH in \<open>auto simp: handled_ok_def\<close>)
  qed
qed

section \<open>Properties\<close>



end
