(* ===== verification/Ketchup_Parts.thy ===== *)
theory Ketchup_Parts
  imports Ketchup_Float
begin

text \<open>
  The parts of a document and the commands that arrange them:
  \<^verbatim>\<open>document/entities.rs\<close> (definitions, occurrences, groups and their local copies, tags,
  classification, collections), \<^verbatim>\<open>document/store/commands/occurrences.rs\<close>,
  \<^verbatim>\<open>document/store/commands/organization.rs\<close>, the definition commands of
  \<^verbatim>\<open>definitions_and_bodies.rs\<close>, and \<^verbatim>\<open>document/group_conversion.rs\<close>.

  An occurrence places a definition, in the world or in a group; a definition may hold local
  groups and local occurrences, which place other definitions.  Groups and local groups form
  trees through their parents.  What a product holds besides (features, sketches, mates and
  joints, drawings, views, underlays, annotations) is \<open>pt_rest\<close>; what the commands read or
  forget of it is a field of the record \<open>rest_model\<close>.
\<close>

section \<open>Affine transforms\<close>

text \<open>
  A \<^verbatim>\<open>Vec3\<close> and a row of a matrix are triples; a \<^verbatim>\<open>Transform\<close> is its sixteen numbers by rows.
\<close>

type_synonym vec3 = "f64 \<times> f64 \<times> f64"
type_synonym mat3 = "vec3 \<times> vec3 \<times> vec3"
type_synonym transform = "f64 list"

record affine3 =
  af_linear :: mat3
  af_translation :: vec3

definition f64_one :: f64 where "f64_one = 0x3FF0000000000000"

definition vec3_dot :: "vec3 \<Rightarrow> vec3 \<Rightarrow> f64" where
  "vec3_dot a b =
     (case a of (x, y, z) \<Rightarrow> case b of (x', y', z') \<Rightarrow>
        f64_add (f64_add (f64_mul x x') (f64_mul y y')) (f64_mul z z'))"

definition vec3_add :: "vec3 \<Rightarrow> vec3 \<Rightarrow> vec3" where
  "vec3_add a b =
     (case a of (x, y, z) \<Rightarrow> case b of (x', y', z') \<Rightarrow> (f64_add x x', f64_add y y', f64_add z z'))"

definition mat3_transpose :: "mat3 \<Rightarrow> mat3" where
  "mat3_transpose m =
     (case m of ((a, b, c), (d, e, f), (g, h, i)) \<Rightarrow> ((a, d, g), (b, e, h), (c, f, i)))"

definition mat3_mul_vec :: "mat3 \<Rightarrow> vec3 \<Rightarrow> vec3" where
  "mat3_mul_vec m v = (case m of (a, b, c) \<Rightarrow> (vec3_dot a v, vec3_dot b v, vec3_dot c v))"

definition mat3_mul :: "mat3 \<Rightarrow> mat3 \<Rightarrow> mat3" where
  "mat3_mul m n =
     (case m of (r, s, t) \<Rightarrow> case mat3_transpose n of (c, d, e) \<Rightarrow>
        ((vec3_dot r c, vec3_dot r d, vec3_dot r e),
         (vec3_dot s c, vec3_dot s d, vec3_dot s e),
         (vec3_dot t c, vec3_dot t d, vec3_dot t e)))"

definition affine_from_row_major :: "f64 list \<Rightarrow> affine3" where
  "affine_from_row_major m =
     \<lparr>af_linear = ((m ! 0, m ! 1, m ! 2), (m ! 4, m ! 5, m ! 6), (m ! 8, m ! 9, m ! 10)),
      af_translation = (m ! 3, m ! 7, m ! 11)\<rparr>"

definition affine_to_row_major :: "affine3 \<Rightarrow> f64 list" where
  "affine_to_row_major a =
     (case af_linear a of ((a0, a1, a2), (b0, b1, b2), (c0, c1, c2)) \<Rightarrow>
      case af_translation a of (x, y, z) \<Rightarrow>
        [a0, a1, a2, x, b0, b1, b2, y, c0, c1, c2, z, 0, 0, 0, f64_one])"

definition affine_compose :: "affine3 \<Rightarrow> affine3 \<Rightarrow> affine3" where
  "affine_compose a inner =
     \<lparr>af_linear = mat3_mul (af_linear a) (af_linear inner),
      af_translation = vec3_add (mat3_mul_vec (af_linear a) (af_translation inner)) (af_translation a)\<rparr>"

definition transform_identity :: transform where
  "transform_identity = [f64_one, 0, 0, 0, 0, f64_one, 0, 0, 0, 0, f64_one, 0, 0, 0, 0, f64_one]"

definition transform_compose :: "transform \<Rightarrow> transform \<Rightarrow> transform" where
  "transform_compose t inner =
     affine_to_row_major (affine_compose (affine_from_row_major t) (affine_from_row_major inner))"

definition transform_is_valid :: "transform \<Rightarrow> bool" where
  "transform_is_valid m \<longleftrightarrow>
     list_all f64_is_finite m \<and> f64_is_zero (m ! 12) \<and> f64_is_zero (m ! 13) \<and> f64_is_zero (m ! 14) \<and>
     m ! 15 = f64_one"

section \<open>Data\<close>

datatype path_step = StepGroup u64 | StepOccurrence u64

text \<open>The derived order: every group step before every occurrence step.\<close>

instantiation path_step :: linorder
begin

definition step_rank :: "path_step \<Rightarrow> nat \<times> u64" where
  "step_rank s = (case s of StepGroup l \<Rightarrow> (0, l) | StepOccurrence l \<Rightarrow> (1, l))"

definition less_eq_path_step :: "path_step \<Rightarrow> path_step \<Rightarrow> bool" where
  "less_eq_path_step s t \<longleftrightarrow> step_rank s \<le> step_rank t"

definition less_path_step :: "path_step \<Rightarrow> path_step \<Rightarrow> bool" where
  "less_path_step s t \<longleftrightarrow> step_rank s < step_rank t"

instance
proof
  fix s t u :: path_step
  have inj: "step_rank s = step_rank t \<Longrightarrow> s = t" for s t
    by (cases s; cases t) (auto simp: step_rank_def)
  show "s < t \<longleftrightarrow> s \<le> t \<and> \<not> t \<le> s" by (auto simp: less_path_step_def less_eq_path_step_def)
  show "s \<le> s" by (simp add: less_eq_path_step_def)
  show "s \<le> t \<Longrightarrow> t \<le> u \<Longrightarrow> s \<le> u" by (auto simp: less_eq_path_step_def intro: order_trans)
  show "s \<le> t \<Longrightarrow> t \<le> s \<Longrightarrow> s = t" by (auto simp: less_eq_path_step_def intro: inj)
  show "s \<le> t \<or> t \<le> s" by (auto simp: less_eq_path_step_def)
qed

end

type_synonym instance_path = "u64 \<times> path_step list"
type_synonym local_key = "u64 \<times> u64"

record part_tag =
  tg_id :: u64
  tg_name :: str
  tg_visible :: bool

record class_category =
  ct_id :: u64
  ct_name :: str

record class_dimension =
  cl_id :: u64
  cl_name :: str
  cl_categories :: "(u64, class_category) btree_map"

record part_collection =
  co_id :: u64
  co_name :: str
  co_occurrences :: "u64 list"

record part_body =
  bd_id :: u64
  bd_name :: str
  bd_visible :: bool
  bd_consumed_by :: "u64 option"

record body_ownership =
  bw_inputs :: "u64 list"
  bw_output :: "u64 option"

record part_definition =
  df_id :: u64
  df_name :: str
  df_features :: "u64 list"
  df_bodies :: "(u64, part_body) btree_map"
  df_active_body :: u64
  df_ownership :: "(u64, body_ownership) btree_map"
  df_local_occurrences :: "u64 list"
  df_local_groups :: "u64 list"

record occurrence =
  oc_id :: u64
  oc_definition :: u64
  oc_name :: str
  oc_transform :: transform
  oc_parent :: "u64 option"
  oc_tags :: "u64 list"
  oc_visible :: bool
  oc_color :: "(u8 \<times> u8 \<times> u8) option"

record part_group =
  gr_id :: u64
  gr_name :: str
  gr_transform :: transform
  gr_parent :: "u64 option"
  gr_logical :: bool

record local_occurrence =
  lo_key :: local_key
  lo_definition :: u64
  lo_name :: str
  lo_transform :: transform
  lo_parent :: "u64 option"
  lo_tags :: "u64 list"
  lo_visible :: bool
  lo_color :: "(u8 \<times> u8 \<times> u8) option"

record local_group =
  lg_key :: local_key
  lg_name :: str
  lg_transform :: transform
  lg_parent :: "u64 option"

datatype clearance_owner = OwnedByOccurrence instance_path | OwnedBySpace u64

record clearance_volume =
  cv_id :: u64
  cv_owner :: clearance_owner
  cv_min :: vec3
  cv_max :: vec3

record 'r parts =
  pt_document :: u64
  pt_tags :: "(u64, part_tag) btree_map"
  pt_dimensions :: "(u64, class_dimension) btree_map"
  pt_assignments :: "(u64 \<times> u64, u64) btree_map"
  pt_collections :: "(u64, part_collection) btree_map"
  pt_definitions :: "(u64, part_definition) btree_map"
  pt_occurrences :: "(u64, occurrence) btree_map"
  pt_groups :: "(u64, part_group) btree_map"
  pt_local_occurrences :: "(local_key, local_occurrence) btree_map"
  pt_local_groups :: "(local_key, local_group) btree_map"
  pt_grounded :: "u64 list"
  pt_grounded_instances :: "instance_path list"
  pt_placements :: "(instance_path, transform) btree_map"
  pt_clearances :: "(u64, clearance_volume) btree_map"
  pt_rest :: 'r

datatype tag_holder =
    HeldByOccurrence u64
  | HeldByLocalOccurrence local_key
  | HeldByUnderlay u64
  | HeldByAnnotation nat

datatype parts_error =
    ReservedProductId
  | EmptyProductName
  | InvalidTransform
  | TagAlreadyExists u64
  | TagNotFound u64
  | TagInUse u64 tag_holder nat
  | InvalidClassificationDimension u64
  | ClassificationCategoryInUse u64
  | ClassificationDimensionNotFound u64
  | ClassificationCategoryNotFound u64 u64
  | CollectionAlreadyExists u64
  | CollectionNotFound u64
  | CollectionMembershipNotCanonical u64
  | DefinitionAlreadyExists u64
  | DefinitionNotFound u64
  | DefinitionInUse u64
  | OccurrenceAlreadyExists u64
  | OccurrenceNotFound u64
  | OccurrenceInCollection u64
  | GroupAlreadyExists u64
  | GroupNotFound u64
  | GroupNotEmpty u64
  | GroupCycle u64
  | LocalOccurrenceAlreadyExists local_key
  | LocalOccurrenceNotFound local_key
  | LocalGroupAlreadyExists local_key
  | LocalGroupNotFound local_key
  | InvalidLocalGraph
  | InvalidInstancePath
  | GroundedPathNotFound instance_path
  | InvalidProductionCodePath instance_path
  | InvalidClearanceVolume
  | InvalidClearanceOwner
  | IdExhausted
  | EmptyPartsBatch
  | RestFault str

text \<open>
  Why an operation stops without a result: it returned an error, an index into a map panicked,
  or a loop runs forever.
\<close>

datatype parts_stop = Refused parts_error | Panics | Endless

text \<open>
  What the commands use of the rest: the underlays and annotations that carry a tag, the saved
  views that forget a deleted tag, the mate, joint or pin joint that uses an occurrence, and
  the features and their annotations that go with a definition.
\<close>

record 'r rest_model =
  rm_tag_holders :: "'r \<Rightarrow> u64 \<Rightarrow> tag_holder list"
  rm_forget_tag :: "u64 \<Rightarrow> 'r \<Rightarrow> 'r"
  rm_occurrence_use :: "'r \<Rightarrow> u64 \<Rightarrow> parts_error option"
  rm_forget_definition :: "part_definition \<Rightarrow> 'r \<Rightarrow> 'r"

section \<open>Commands\<close>

record convert_plan =
  cp_group :: u64
  cp_definition :: u64
  cp_occurrence :: u64
  cp_name :: str

datatype part_command =
    CreateTag u64 str bool
  | DeleteTag u64
  | SetTagVisibility u64 bool
  | SetTagName u64 str
  | UpsertClassificationDimension u64 str "(u64 \<times> str) list"
  | SetOccurrenceClassification u64 u64 "u64 option"
  | CreateCollection u64 str
  | DeleteCollection u64
  | SetCollectionOccurrences u64 "u64 list"
  | CreateDefinition u64 str
  | DeleteDefinition u64
  | RenameDefinition u64 str
  | CreateOccurrence u64 u64 str transform "u64 option" "u64 list" bool
  | DeleteOccurrence u64
  | SetOccurrenceTransform u64 transform
  | RenameEntity u64 str
  | SetOccurrenceColor u64 "(u8 \<times> u8 \<times> u8) option"
  | SetOccurrenceVisibility u64 bool
  | SetOccurrenceTags u64 "u64 list"
  | RepointOccurrence u64 u64
  | SetOccurrenceParent u64 "u64 option"
  | CreateLocalOccurrence local_key u64 str transform "u64 option" "u64 list" bool
  | DeleteLocalOccurrence local_key
  | RepointLocalOccurrence local_key u64
  | SetLocalOccurrenceParent local_key "u64 option"
  | SetLocalOccurrenceTransform local_key transform
  | RenameLocalOccurrence local_key str
  | SetLocalOccurrenceColor local_key "(u8 \<times> u8 \<times> u8) option"
  | SetLocalOccurrenceTags local_key "u64 list"
  | CreateGroup u64 str transform "u64 option"
  | DeleteGroup u64
  | SetGroupTransform u64 transform
  | SetGroupParent u64 "u64 option"
  | SetGroupLogical u64 bool
  | CreateLocalGroup local_key str transform "u64 option"
  | DeleteLocalGroup local_key
  | SetLocalGroupTransform local_key transform
  | SetLocalGroupParent local_key "u64 option"
  | SetOccurrenceGrounded u64 bool
  | SetGroundedInstances "instance_path list"
  | ConvertGroupToComponent convert_plan

definition ensure_product_id :: "u64 \<Rightarrow> parts_error + unit" where
  "ensure_product_id i = guard (i \<noteq> 0) ReservedProductId"

definition ensure_name :: "str \<Rightarrow> parts_error + unit" where
  "ensure_name name = guard (\<not> trim_is_empty name) EmptyProductName"

definition validate_transform :: "transform \<Rightarrow> parts_error + unit" where
  "validate_transform t = guard (transform_is_valid t) InvalidTransform"

definition ensure_tags_exist :: "'r parts \<Rightarrow> u64 list \<Rightarrow> parts_error + unit" where
  "ensure_tags_exist p tags =
     (case find (\<lambda>t. \<not> bt_contains (pt_tags p) t) tags of
        Some missing \<Rightarrow> Err (TagNotFound missing) | None \<Rightarrow> Ok ())"

end
