(* ===== verification/Ketchup_Arrange.thy ===== *)
theory Ketchup_Arrange
  imports Ketchup_Parts
begin

text \<open>
  The commands that arrange the parts of a document, one definition per command or per function
  of \<^verbatim>\<open>group_conversion.rs\<close>, and the walks along the parents of a group.
\<close>

section \<open>Walking up the parents\<close>

text \<open>
  The loops that follow parents keep the set of what they visited.  \<open>climb\<close> is their shape: the
  parents as a map, where to stop, what was visited (latest first) and the cursor.  It ends at a
  root (\<open>Top\<close>), where it was told to stop (\<open>Found\<close>), at an entry that does not exist (\<open>Lost\<close>)
  or at one it has met (\<open>Loop\<close>).
\<close>

datatype 'k climb_end = Top "'k list" | Found "'k list" | Lost 'k "'k list" | Loop 'k

function climb ::
  "('k::linorder, 'k option) btree_map \<Rightarrow> ('k \<Rightarrow> bool) \<Rightarrow> 'k list \<Rightarrow> 'k option \<Rightarrow> 'k climb_end" where
  "climb parents stop seen None = Top seen"
| "climb parents stop seen (Some x) =
     (if x \<in> set seen then Loop x
      else if stop x then Found (x # seen)
      else (case bt_get parents x of
              None \<Rightarrow> Lost x (x # seen)
            | Some up \<Rightarrow> climb parents stop (x # seen) up))"
  by pat_completeness auto

lemma filter_length_less:
  "x \<in> set xs \<Longrightarrow> P x \<Longrightarrow> (\<And>y. Q y \<Longrightarrow> P y) \<Longrightarrow> \<not> Q x \<Longrightarrow> length (filter Q xs) < length (filter P xs)"
proof (induction xs)
  case Nil
  then show ?case by simp
next
  case (Cons a xs)
  have le: "length (filter Q ys) \<le> length (filter P ys)" for ys
    using Cons.prems(3) by (induction ys) auto
  show ?case
  proof (cases "x = a")
    case True
    then show ?thesis using Cons.prems(2,4) le [of xs] by simp
  next
    case False
    then have "length (filter Q xs) < length (filter P xs)"
      using Cons.prems by (intro Cons.IH) auto
    then show ?thesis using Cons.prems(3) by auto
  qed
qed

termination climb
proof (relation "measure (\<lambda>(parents, stop, seen, cursor).
    length (filter (\<lambda>k. k \<notin> set seen) (bt_keys parents)))", goal_cases)
  case 1
  then show ?case by simp
next
  case (2 parents stop seen x up)
  then have "x \<in> set (bt_keys parents)" by (auto dest: bt_get_Some_keys)
  with 2 show ?case by (auto intro!: filter_length_less)
qed

declare climb.simps [simp del]

lemma climb_simps:
  "climb parents stop seen None = Top seen"
  "x \<in> set seen \<Longrightarrow> climb parents stop seen (Some x) = Loop x"
  "x \<notin> set seen \<Longrightarrow> stop x \<Longrightarrow> climb parents stop seen (Some x) = Found (x # seen)"
  "x \<notin> set seen \<Longrightarrow> \<not> stop x \<Longrightarrow> bt_get parents x = None \<Longrightarrow>
     climb parents stop seen (Some x) = Lost x (x # seen)"
  "x \<notin> set seen \<Longrightarrow> \<not> stop x \<Longrightarrow> bt_get parents x = Some up \<Longrightarrow>
     climb parents stop seen (Some x) = climb parents stop (x # seen) up"
  by (simp_all add: climb.simps)

definition group_parents :: "'r parts \<Rightarrow> (u64, u64 option) btree_map" where
  "group_parents p = map (\<lambda>(k, g). (k, gr_parent g)) (pt_groups p)"

definition local_parents :: "'r parts \<Rightarrow> u64 \<Rightarrow> (u64, u64 option) btree_map" where
  "local_parents p d =
     map (\<lambda>(k, g). (snd k, lg_parent g)) (filter (\<lambda>(k, _). fst k = d) (pt_local_groups p))"

definition group_is_descendant :: "'r parts \<Rightarrow> u64 \<Rightarrow> u64 \<Rightarrow> bool" where
  "group_is_descendant p root target =
     (case climb (group_parents p) (\<lambda>g. g = root) [] (Some target) of Found _ \<Rightarrow> True | _ \<Rightarrow> False)"

definition descendant_groups :: "'r parts \<Rightarrow> u64 \<Rightarrow> parts_error + u64 list" where
  "descendant_groups p root =
     and_then (guard (bt_contains (pt_groups p) root) (GroupNotFound root)) (\<lambda>_.
     Ok (filter (group_is_descendant p root) (bt_keys (pt_groups p))))"

text \<open>From the root of the tree down to the group, and from \<open>root\<close> down to the group.\<close>

definition world_group_lineage :: "'r parts \<Rightarrow> u64 \<Rightarrow> parts_error + u64 list" where
  "world_group_lineage p target =
     (case climb (group_parents p) (\<lambda>_. False) [] (Some target) of
        Loop g \<Rightarrow> Err (GroupCycle g)
      | Lost g _ \<Rightarrow> Err (GroupNotFound g)
      | Top lineage \<Rightarrow> Ok lineage
      | Found lineage \<Rightarrow> Ok lineage)"

definition group_lineage :: "'r parts \<Rightarrow> u64 \<Rightarrow> u64 \<Rightarrow> parts_error + u64 list" where
  "group_lineage p root target =
     (case climb (group_parents p) (\<lambda>g. g = root) [] (Some target) of
        Loop g \<Rightarrow> Err (GroupCycle g)
      | Found lineage \<Rightarrow> Ok lineage
      | _ \<Rightarrow> Err InvalidLocalGraph)"

section \<open>Tags, classification and collections\<close>

definition create_tag :: "u64 \<Rightarrow> str \<Rightarrow> bool \<Rightarrow> 'r parts \<Rightarrow> parts_error + 'r parts" where
  "create_tag tid name visible p =
     and_then (ensure_product_id tid) (\<lambda>_.
     and_then (ensure_name name) (\<lambda>_.
     and_then (guard (\<not> bt_contains (pt_tags p) tid) (TagAlreadyExists tid)) (\<lambda>_.
     Ok (p \<lparr>pt_tags := bt_insert tid \<lparr>tg_id = tid, tg_name = name, tg_visible = visible\<rparr> (pt_tags p)\<rparr>))))"

definition tag_holders :: "'r rest_model \<Rightarrow> 'r parts \<Rightarrow> u64 \<Rightarrow> tag_holder list" where
  "tag_holders rm p tid =
     map (\<lambda>(i, _). HeldByOccurrence i) (filter (\<lambda>(_, oc). tid \<in> set (oc_tags oc)) (pt_occurrences p)) @
     map (\<lambda>(k, _). HeldByLocalOccurrence k) (filter (\<lambda>(_, lo). tid \<in> set (lo_tags lo)) (pt_local_occurrences p)) @
     rm_tag_holders rm (pt_rest p) tid"

definition ensure_tag_unassigned :: "'r rest_model \<Rightarrow> 'r parts \<Rightarrow> u64 \<Rightarrow> parts_error + unit" where
  "ensure_tag_unassigned rm p tid =
     (case tag_holders rm p tid of
        [] \<Rightarrow> Ok ()
      | holder # others \<Rightarrow> Err (TagInUse tid holder (Suc (length others))))"

definition delete_tag :: "'r rest_model \<Rightarrow> u64 \<Rightarrow> 'r parts \<Rightarrow> parts_error + 'r parts" where
  "delete_tag rm tid p =
     and_then (ensure_tag_unassigned rm p tid) (\<lambda>_.
     and_then (guard (bt_contains (pt_tags p) tid) (TagNotFound tid)) (\<lambda>_.
     Ok (p \<lparr>pt_tags := bt_remove tid (pt_tags p), pt_rest := rm_forget_tag rm tid (pt_rest p)\<rparr>)))"

definition edit_tag :: "u64 \<Rightarrow> (part_tag \<Rightarrow> part_tag) \<Rightarrow> 'r parts \<Rightarrow> parts_error + 'r parts" where
  "edit_tag tid f p =
     and_then (ok_or (bt_get (pt_tags p) tid) (TagNotFound tid)) (\<lambda>existing.
     Ok (p \<lparr>pt_tags := bt_insert tid (f existing) (pt_tags p)\<rparr>))"

text \<open>\<^verbatim>\<open>windows(2)\<close> finds a pair that does not increase.\<close>

fun not_increasing :: "u64 list \<Rightarrow> bool" where
  "not_increasing (x # y # ys) \<longleftrightarrow> y \<le> x \<or> not_increasing (y # ys)"
| "not_increasing _ \<longleftrightarrow> False"

definition class_categories ::
  "u64 \<Rightarrow> (u64 \<times> str) list \<Rightarrow> parts_error + (u64, class_category) btree_map \<times> str list" where
  "class_categories did categories =
     try_fold (\<lambda>(canonical, names) (cid, cname).
         and_then (ensure_product_id cid) (\<lambda>_.
         and_then (ensure_name cname) (\<lambda>_.
         and_then (guard (cname \<notin> set names) (InvalidClassificationDimension did)) (\<lambda>_.
         Ok (bt_insert cid \<lparr>ct_id = cid, ct_name = cname\<rparr> canonical, bs_insert cname names)))))
       ([], []) categories"

definition upsert_dimension :: "u64 \<Rightarrow> str \<Rightarrow> (u64 \<times> str) list \<Rightarrow> 'r parts \<Rightarrow> parts_error + 'r parts" where
  "upsert_dimension did name categories p =
     and_then (ensure_product_id did) (\<lambda>_.
     and_then (ensure_name name) (\<lambda>_.
     and_then (guard (categories \<noteq> [] \<and> \<not> not_increasing (map fst categories))
       (InvalidClassificationDimension did)) (\<lambda>_.
     and_then (class_categories did categories) (\<lambda>(canonical, _).
     and_then (guard
         (\<not> list_ex (\<lambda>((_, dim), cat). dim = did \<and> \<not> bt_contains canonical cat) (pt_assignments p))
         (ClassificationCategoryInUse did)) (\<lambda>_.
     Ok (p \<lparr>pt_dimensions :=
           bt_insert did \<lparr>cl_id = did, cl_name = name, cl_categories = canonical\<rparr> (pt_dimensions p)\<rparr>))))))"

definition set_classification :: "u64 \<Rightarrow> u64 \<Rightarrow> u64 option \<Rightarrow> 'r parts \<Rightarrow> parts_error + 'r parts" where
  "set_classification oid did category p =
     and_then (guard (bt_contains (pt_occurrences p) oid) (OccurrenceNotFound oid)) (\<lambda>_.
     and_then (ok_or (bt_get (pt_dimensions p) did) (ClassificationDimensionNotFound did)) (\<lambda>dimension.
     case category of
       Some cid \<Rightarrow>
         and_then (guard (bt_contains (cl_categories dimension) cid) (ClassificationCategoryNotFound did cid)) (\<lambda>_.
         Ok (p \<lparr>pt_assignments := bt_insert (oid, did) cid (pt_assignments p)\<rparr>))
     | None \<Rightarrow> Ok (p \<lparr>pt_assignments := bt_remove (oid, did) (pt_assignments p)\<rparr>)))"

definition create_collection :: "u64 \<Rightarrow> str \<Rightarrow> 'r parts \<Rightarrow> parts_error + 'r parts" where
  "create_collection cid name p =
     and_then (ensure_product_id cid) (\<lambda>_.
     and_then (ensure_name name) (\<lambda>_.
     and_then (guard (\<not> bt_contains (pt_collections p) cid) (CollectionAlreadyExists cid)) (\<lambda>_.
     Ok (p \<lparr>pt_collections :=
           bt_insert cid \<lparr>co_id = cid, co_name = name, co_occurrences = []\<rparr> (pt_collections p)\<rparr>))))"

definition delete_collection :: "u64 \<Rightarrow> 'r parts \<Rightarrow> parts_error + 'r parts" where
  "delete_collection cid p =
     and_then (guard (bt_contains (pt_collections p) cid) (CollectionNotFound cid)) (\<lambda>_.
     Ok (p \<lparr>pt_collections := bt_remove cid (pt_collections p)\<rparr>))"

definition set_collection_occurrences :: "u64 \<Rightarrow> u64 list \<Rightarrow> 'r parts \<Rightarrow> parts_error + 'r parts" where
  "set_collection_occurrences cid ids p =
     and_then (ok_or (bt_get (pt_collections p) cid) (CollectionNotFound cid)) (\<lambda>existing.
     and_then (guard (\<not> not_increasing ids) (CollectionMembershipNotCanonical cid)) (\<lambda>_.
     and_then (try_each (\<lambda>i. guard (bt_contains (pt_occurrences p) i) (OccurrenceNotFound i)) (bs_of_list ids)) (\<lambda>_.
     Ok (p \<lparr>pt_collections :=
           bt_insert cid (existing \<lparr>co_occurrences := bs_of_list ids\<rparr>) (pt_collections p)\<rparr>))))"

section \<open>Definitions\<close>

definition default_body :: part_body where
  "default_body = \<lparr>bd_id = 1, bd_name = ''Body'', bd_visible = True, bd_consumed_by = None\<rparr>"

definition new_definition :: "u64 \<Rightarrow> str \<Rightarrow> part_definition" where
  "new_definition did name =
     \<lparr>df_id = did, df_name = name, df_features = [], df_bodies = [(1, default_body)], df_active_body = 1,
      df_ownership = [], df_local_occurrences = [], df_local_groups = []\<rparr>"

definition create_definition :: "u64 \<Rightarrow> str \<Rightarrow> 'r parts \<Rightarrow> parts_error + 'r parts" where
  "create_definition did name p =
     and_then (ensure_product_id did) (\<lambda>_.
     and_then (ensure_name name) (\<lambda>_.
     and_then (guard (\<not> bt_contains (pt_definitions p) did) (DefinitionAlreadyExists did)) (\<lambda>_.
     Ok (p \<lparr>pt_definitions := bt_insert did (new_definition did name) (pt_definitions p)\<rparr>))))"

definition delete_definition :: "'r rest_model \<Rightarrow> u64 \<Rightarrow> 'r parts \<Rightarrow> parts_error + 'r parts" where
  "delete_definition rm did p =
     and_then (guard
         (\<not> (list_ex (\<lambda>oc. oc_definition oc = did) (bt_values (pt_occurrences p)) \<or>
             list_ex (\<lambda>(k, lo). lo_definition lo = did \<and> fst k \<noteq> did) (pt_local_occurrences p)))
         (DefinitionInUse did)) (\<lambda>_.
     and_then (ok_or (bt_get (pt_definitions p) did) (DefinitionNotFound did)) (\<lambda>df.
     Ok (p \<lparr>pt_definitions := bt_remove did (pt_definitions p),
            pt_local_groups := filter (\<lambda>(k, _). fst k \<noteq> did) (pt_local_groups p),
            pt_local_occurrences := filter (\<lambda>(k, _). fst k \<noteq> did) (pt_local_occurrences p),
            pt_rest := rm_forget_definition rm df (pt_rest p)\<rparr>)))"

definition rename_definition :: "u64 \<Rightarrow> str \<Rightarrow> 'r parts \<Rightarrow> parts_error + 'r parts" where
  "rename_definition did name p =
     and_then (ensure_name name) (\<lambda>_.
     and_then (ok_or (bt_get (pt_definitions p) did) (DefinitionNotFound did)) (\<lambda>existing.
     Ok (p \<lparr>pt_definitions := bt_insert did (existing \<lparr>df_name := name\<rparr>) (pt_definitions p)\<rparr>)))"

section \<open>Occurrences and groups\<close>

definition create_occurrence :: "occurrence \<Rightarrow> 'r parts \<Rightarrow> parts_error + 'r parts" where
  "create_occurrence oc p =
     and_then (ensure_product_id (oc_id oc)) (\<lambda>_.
     and_then (ensure_name (oc_name oc)) (\<lambda>_.
     and_then (validate_transform (oc_transform oc)) (\<lambda>_.
     and_then (guard (\<not> bt_contains (pt_occurrences p) (oc_id oc)) (OccurrenceAlreadyExists (oc_id oc))) (\<lambda>_.
     and_then (ensure_tags_exist p (oc_tags oc)) (\<lambda>_.
     Ok (p \<lparr>pt_occurrences := bt_insert (oc_id oc) oc (pt_occurrences p)\<rparr>))))))"

definition delete_occurrence :: "'r rest_model \<Rightarrow> u64 \<Rightarrow> 'r parts \<Rightarrow> parts_error + 'r parts" where
  "delete_occurrence rm oid p =
     and_then (guard (\<not> list_ex (\<lambda>co. oid \<in> set (co_occurrences co)) (bt_values (pt_collections p)))
       (OccurrenceInCollection oid)) (\<lambda>_.
     and_then (case rm_occurrence_use rm (pt_rest p) oid of Some e \<Rightarrow> Err e | None \<Rightarrow> Ok ()) (\<lambda>_.
     and_then (guard (bt_contains (pt_occurrences p) oid) (OccurrenceNotFound oid)) (\<lambda>_.
     Ok (p \<lparr>pt_occurrences := bt_remove oid (pt_occurrences p),
            pt_grounded := filter (\<lambda>i. i \<noteq> oid) (pt_grounded p),
            pt_placements := filter (\<lambda>(path, _). fst path \<noteq> oid) (pt_placements p),
            pt_assignments := filter (\<lambda>((i, _), _). i \<noteq> oid) (pt_assignments p)\<rparr>))))"

definition edit_occurrence :: "u64 \<Rightarrow> (occurrence \<Rightarrow> occurrence) \<Rightarrow> 'r parts \<Rightarrow> parts_error + 'r parts" where
  "edit_occurrence oid f p =
     and_then (ok_or (bt_get (pt_occurrences p) oid) (OccurrenceNotFound oid)) (\<lambda>existing.
     Ok (p \<lparr>pt_occurrences := bt_insert oid (f existing) (pt_occurrences p)\<rparr>))"

definition create_group :: "part_group \<Rightarrow> 'r parts \<Rightarrow> parts_error + 'r parts" where
  "create_group g p =
     and_then (ensure_product_id (gr_id g)) (\<lambda>_.
     and_then (ensure_name (gr_name g)) (\<lambda>_.
     and_then (validate_transform (gr_transform g)) (\<lambda>_.
     and_then (guard (\<not> bt_contains (pt_groups p) (gr_id g)) (GroupAlreadyExists (gr_id g))) (\<lambda>_.
     Ok (p \<lparr>pt_groups := bt_insert (gr_id g) g (pt_groups p)\<rparr>)))))"

definition delete_group :: "u64 \<Rightarrow> 'r parts \<Rightarrow> parts_error + 'r parts" where
  "delete_group gid p =
     and_then (guard
         (\<not> (list_ex (\<lambda>oc. oc_parent oc = Some gid) (bt_values (pt_occurrences p)) \<or>
             list_ex (\<lambda>g. gr_parent g = Some gid) (bt_values (pt_groups p))))
         (GroupNotEmpty gid)) (\<lambda>_.
     and_then (guard (bt_contains (pt_groups p) gid) (GroupNotFound gid)) (\<lambda>_.
     Ok (p \<lparr>pt_groups := bt_remove gid (pt_groups p)\<rparr>)))"

definition edit_group :: "u64 \<Rightarrow> (part_group \<Rightarrow> part_group) \<Rightarrow> 'r parts \<Rightarrow> parts_error + 'r parts" where
  "edit_group gid f p =
     and_then (ok_or (bt_get (pt_groups p) gid) (GroupNotFound gid)) (\<lambda>existing.
     Ok (p \<lparr>pt_groups := bt_insert gid (f existing) (pt_groups p)\<rparr>))"

section \<open>Local occurrences and local groups\<close>

definition create_local_occurrence :: "local_occurrence \<Rightarrow> 'r parts \<Rightarrow> parts_error + 'r parts" where
  "create_local_occurrence lo p =
     (let (did, lid) = lo_key lo in
     and_then (ensure_name (lo_name lo)) (\<lambda>_.
     and_then (validate_transform (lo_transform lo)) (\<lambda>_.
     and_then (ok_or (bt_get (pt_definitions p) did) (DefinitionNotFound did)) (\<lambda>owner.
     and_then (guard (\<not> (lid \<in> set (df_local_occurrences owner) \<or> lid \<in> set (df_local_groups owner)))
       (LocalOccurrenceAlreadyExists (did, lid))) (\<lambda>_.
     Ok (p \<lparr>pt_definitions :=
              bt_insert did (owner \<lparr>df_local_occurrences := df_local_occurrences owner @ [lid]\<rparr>) (pt_definitions p),
            pt_local_occurrences := bt_insert (did, lid) lo (pt_local_occurrences p)\<rparr>))))))"

definition delete_local_occurrence :: "local_key \<Rightarrow> 'r parts \<Rightarrow> parts_error + 'r parts" where
  "delete_local_occurrence key p =
     and_then (guard (bt_contains (pt_local_occurrences p) key) (LocalOccurrenceNotFound key)) (\<lambda>_.
     and_then (ok_or (bt_get (pt_definitions p) (fst key)) (DefinitionNotFound (fst key))) (\<lambda>owner.
     Ok (p \<lparr>pt_definitions :=
              bt_insert (fst key)
                (owner \<lparr>df_local_occurrences := filter (\<lambda>l. l \<noteq> snd key) (df_local_occurrences owner)\<rparr>)
                (pt_definitions p),
            pt_local_occurrences := bt_remove key (pt_local_occurrences p)\<rparr>)))"

definition edit_local_occurrence ::
  "local_key \<Rightarrow> (local_occurrence \<Rightarrow> local_occurrence) \<Rightarrow> 'r parts \<Rightarrow> parts_error + 'r parts" where
  "edit_local_occurrence key f p =
     and_then (ok_or (bt_get (pt_local_occurrences p) key) (LocalOccurrenceNotFound key)) (\<lambda>existing.
     Ok (p \<lparr>pt_local_occurrences := bt_insert key (f existing) (pt_local_occurrences p)\<rparr>))"

definition create_local_group :: "local_group \<Rightarrow> 'r parts \<Rightarrow> parts_error + 'r parts" where
  "create_local_group lg p =
     (let (did, lid) = lg_key lg in
     and_then (ensure_name (lg_name lg)) (\<lambda>_.
     and_then (validate_transform (lg_transform lg)) (\<lambda>_.
     and_then (ok_or (bt_get (pt_definitions p) did) (DefinitionNotFound did)) (\<lambda>owner.
     and_then (guard (\<not> (lid \<in> set (df_local_groups owner) \<or> lid \<in> set (df_local_occurrences owner)))
       (LocalGroupAlreadyExists (did, lid))) (\<lambda>_.
     Ok (p \<lparr>pt_definitions :=
              bt_insert did (owner \<lparr>df_local_groups := df_local_groups owner @ [lid]\<rparr>) (pt_definitions p),
            pt_local_groups := bt_insert (did, lid) lg (pt_local_groups p)\<rparr>))))))"

definition delete_local_group :: "local_key \<Rightarrow> 'r parts \<Rightarrow> parts_error + 'r parts" where
  "delete_local_group key p =
     and_then (guard (bt_contains (pt_local_groups p) key) (LocalGroupNotFound key)) (\<lambda>_.
     and_then (ok_or (bt_get (pt_definitions p) (fst key)) (DefinitionNotFound (fst key))) (\<lambda>owner.
     Ok (p \<lparr>pt_definitions :=
              bt_insert (fst key)
                (owner \<lparr>df_local_groups := filter (\<lambda>l. l \<noteq> snd key) (df_local_groups owner)\<rparr>)
                (pt_definitions p),
            pt_local_groups := bt_remove key (pt_local_groups p)\<rparr>)))"

definition edit_local_group ::
  "local_key \<Rightarrow> (local_group \<Rightarrow> local_group) \<Rightarrow> 'r parts \<Rightarrow> parts_error + 'r parts" where
  "edit_local_group key f p =
     and_then (ok_or (bt_get (pt_local_groups p) key) (LocalGroupNotFound key)) (\<lambda>existing.
     Ok (p \<lparr>pt_local_groups := bt_insert key (f existing) (pt_local_groups p)\<rparr>))"

section \<open>Grounding\<close>

text \<open>The definition a path of local steps leads to, \<^verbatim>\<open>None\<close> where a step does not exist.\<close>

fun resolve_steps :: "'r parts \<Rightarrow> u64 \<Rightarrow> u64 option \<Rightarrow> path_step list \<Rightarrow> u64 option" where
  "resolve_steps p did parent [] = Some did"
| "resolve_steps p did parent (StepGroup l # steps) =
     (case bt_get (pt_local_groups p) (did, l) of
        None \<Rightarrow> None
      | Some g \<Rightarrow> if lg_parent g \<noteq> parent then None else resolve_steps p did (Some l) steps)"
| "resolve_steps p did parent (StepOccurrence l # steps) =
     (case bt_get (pt_local_occurrences p) (did, l) of
        None \<Rightarrow> None
      | Some oc \<Rightarrow> if lo_parent oc \<noteq> parent then None else resolve_steps p (lo_definition oc) None steps)"

definition resolve_product_instance_path :: "'r parts \<Rightarrow> instance_path \<Rightarrow> u64 option" where
  "resolve_product_instance_path p path =
     (case bt_get (pt_occurrences p) (fst path) of
        None \<Rightarrow> None
      | Some root \<Rightarrow> resolve_steps p (oc_definition root) None (snd path))"

definition validate_grounded_instances :: "'r parts \<Rightarrow> instance_path list \<Rightarrow> parts_error + unit" where
  "validate_grounded_instances p paths =
     (case find (\<lambda>path. resolve_product_instance_path p path = None) paths of
        Some path \<Rightarrow> Err (GroundedPathNotFound path) | None \<Rightarrow> Ok ())"

definition set_grounded_instances :: "instance_path list \<Rightarrow> 'r parts \<Rightarrow> parts_error + 'r parts" where
  "set_grounded_instances paths p =
     and_then (validate_grounded_instances p paths) (\<lambda>_. Ok (p \<lparr>pt_grounded_instances := paths\<rparr>))"

definition prune_grounded_instances :: "'r parts \<Rightarrow> 'r parts" where
  "prune_grounded_instances p =
     p \<lparr>pt_grounded_instances :=
          filter (\<lambda>path. resolve_product_instance_path p path \<noteq> None) (pt_grounded_instances p)\<rparr>"

definition set_occurrence_grounded :: "u64 \<Rightarrow> bool \<Rightarrow> 'r parts \<Rightarrow> parts_error + 'r parts" where
  "set_occurrence_grounded oid grounded p =
     and_then (guard (bt_contains (pt_occurrences p) oid) (OccurrenceNotFound oid)) (\<lambda>_.
     Ok (p \<lparr>pt_grounded :=
          (if grounded then bs_insert oid (pt_grounded p) else filter (\<lambda>i. i \<noteq> oid) (pt_grounded p))\<rparr>))"

section \<open>Conversion of a group into a component\<close>

definition next_id :: "u64 list \<Rightarrow> parts_error + u64" where
  "next_id ids =
     ok_or (checked_add_u64 (if ids = [] then 0 else Max (set ids)) 1) IdExhausted"

text \<open>The occurrences that hang in one of the groups, and the classification they all share.\<close>

definition converted_occurrences :: "'r parts \<Rightarrow> u64 list \<Rightarrow> u64 list" where
  "converted_occurrences p gs =
     map oc_id (filter (\<lambda>oc. case oc_parent oc of None \<Rightarrow> False | Some g \<Rightarrow> g \<in> set gs)
       (bt_values (pt_occurrences p)))"

definition inherited_classifications :: "'r parts \<Rightarrow> u64 list \<Rightarrow> (u64 \<times> u64) list" where
  "inherited_classifications p oids =
     List.map_filter (\<lambda>did.
         case oids of [] \<Rightarrow> None | first # _ \<Rightarrow>
           (case bt_get (pt_assignments p) (first, did) of
              None \<Rightarrow> None
            | Some cat \<Rightarrow>
                if list_all (\<lambda>i. bt_get (pt_assignments p) (i, did) = Some cat) oids then Some (did, cat) else None))
       (bt_keys (pt_dimensions p))"

text \<open>The parent inside the component: none for what hung directly in the converted group.\<close>

definition local_parent :: "u64 \<Rightarrow> u64 option \<Rightarrow> u64 option" where
  "local_parent root parent = (if parent = Some root then None else parent)"

definition local_group_of :: "convert_plan \<Rightarrow> u64 \<Rightarrow> part_group \<Rightarrow> local_group" where
  "local_group_of plan gid g =
     \<lparr>lg_key = (cp_definition plan, gid), lg_name = gr_name g, lg_transform = gr_transform g,
      lg_parent = local_parent (cp_group plan) (gr_parent g)\<rparr>"

definition local_occurrence_of :: "convert_plan \<Rightarrow> u64 \<Rightarrow> occurrence \<Rightarrow> local_occurrence" where
  "local_occurrence_of plan oid oc =
     \<lparr>lo_key = (cp_definition plan, oid), lo_definition = oc_definition oc, lo_name = oc_name oc,
      lo_transform = oc_transform oc, lo_parent = local_parent (cp_group plan) (oc_parent oc),
      lo_tags = oc_tags oc, lo_visible = oc_visible oc, lo_color = oc_color oc\<rparr>"

text \<open>The index into a map panics where the key is missing.\<close>

definition index_map :: "('k::linorder, 'v) btree_map \<Rightarrow> 'k \<Rightarrow> parts_stop + 'v" where
  "index_map m k = ok_or (bt_get m k) Panics"

definition add_local_groups ::
  "convert_plan \<Rightarrow> 'r parts \<Rightarrow> u64 list \<Rightarrow> parts_stop + (local_key, local_group) btree_map" where
  "add_local_groups plan p gs =
     try_fold (\<lambda>m gid. and_then (index_map (pt_groups p) gid) (\<lambda>g.
         Ok (bt_insert (cp_definition plan, gid) (local_group_of plan gid g) m)))
       (pt_local_groups p) gs"

definition add_local_occurrences ::
  "convert_plan \<Rightarrow> 'r parts \<Rightarrow> u64 list \<Rightarrow> parts_stop + (local_key, local_occurrence) btree_map" where
  "add_local_occurrences plan p oids =
     try_fold (\<lambda>m oid. and_then (index_map (pt_occurrences p) oid) (\<lambda>oc.
         Ok (bt_insert (cp_definition plan, oid) (local_occurrence_of plan oid oc) m)))
       (pt_local_occurrences p) oids"

definition component_definition :: "convert_plan \<Rightarrow> u64 list \<Rightarrow> u64 list \<Rightarrow> part_definition" where
  "component_definition plan gs oids =
     (new_definition (cp_definition plan) (cp_name plan)) \<lparr>df_local_occurrences := oids, df_local_groups := gs\<rparr>"

definition component_occurrence :: "convert_plan \<Rightarrow> part_group \<Rightarrow> occurrence" where
  "component_occurrence plan root =
     \<lparr>oc_id = cp_occurrence plan, oc_definition = cp_definition plan, oc_name = cp_name plan,
      oc_transform = gr_transform root, oc_parent = gr_parent root, oc_tags = [], oc_visible = True,
      oc_color = None\<rparr>"

definition moved_assignments ::
  "convert_plan \<Rightarrow> 'r parts \<Rightarrow> u64 list \<Rightarrow> (u64 \<times> u64, u64) btree_map" where
  "moved_assignments plan p oids =
     fold (\<lambda>(did, cat). bt_insert (cp_occurrence plan, did) cat) (inherited_classifications p oids)
       (filter (\<lambda>((i, _), _). i \<notin> set oids) (pt_assignments p))"

definition convert_group_to_component_model ::
  "convert_plan \<Rightarrow> 'r parts \<Rightarrow> parts_stop + 'r parts" where
  "convert_group_to_component_model plan p =
     and_then (map_err Refused (ensure_name (cp_name plan))) (\<lambda>_.
     and_then (guard (\<not> bt_contains (pt_definitions p) (cp_definition plan))
       (Refused (DefinitionAlreadyExists (cp_definition plan)))) (\<lambda>_.
     and_then (guard (\<not> bt_contains (pt_occurrences p) (cp_occurrence plan))
       (Refused (OccurrenceAlreadyExists (cp_occurrence plan)))) (\<lambda>_.
     and_then (ok_or (bt_get (pt_groups p) (cp_group plan)) (Refused (GroupNotFound (cp_group plan)))) (\<lambda>root.
     and_then (map_err Refused (descendant_groups p (cp_group plan))) (\<lambda>gs.
     let oids = converted_occurrences p gs;
         inner = filter (\<lambda>g. g \<noteq> cp_group plan) gs in
     and_then (add_local_groups plan p inner) (\<lambda>local_groups.
     and_then (add_local_occurrences plan p oids) (\<lambda>local_occurrences.
     Ok (p \<lparr>pt_definitions := bt_insert (cp_definition plan) (component_definition plan inner oids) (pt_definitions p),
            pt_local_groups := local_groups,
            pt_local_occurrences := local_occurrences,
            pt_occurrences := bt_insert (cp_occurrence plan) (component_occurrence plan root)
              (fold bt_remove oids (pt_occurrences p)),
            pt_assignments := moved_assignments plan p oids,
            pt_groups := fold bt_remove gs (pt_groups p)\<rparr>))))))))"

section \<open>The dispatcher\<close>

definition apply_part_command :: "'r rest_model \<Rightarrow> part_command \<Rightarrow> 'r parts \<Rightarrow> parts_stop + 'r parts" where
  "apply_part_command rm command p =
     (case command of
        ConvertGroupToComponent plan \<Rightarrow> convert_group_to_component_model plan p
      | _ \<Rightarrow> map_err Refused
     (case command of
        CreateTag i name visible \<Rightarrow> create_tag i name visible p
      | DeleteTag i \<Rightarrow> delete_tag rm i p
      | SetTagVisibility i visible \<Rightarrow> edit_tag i (\<lambda>t. t \<lparr>tg_visible := visible\<rparr>) p
      | SetTagName i name \<Rightarrow> and_then (ensure_name name) (\<lambda>_. edit_tag i (\<lambda>t. t \<lparr>tg_name := name\<rparr>) p)
      | UpsertClassificationDimension i name categories \<Rightarrow> upsert_dimension i name categories p
      | SetOccurrenceClassification i d c \<Rightarrow> set_classification i d c p
      | CreateCollection i name \<Rightarrow> create_collection i name p
      | DeleteCollection i \<Rightarrow> delete_collection i p
      | SetCollectionOccurrences i ids \<Rightarrow> set_collection_occurrences i ids p
      | CreateDefinition i name \<Rightarrow> create_definition i name p
      | DeleteDefinition i \<Rightarrow> delete_definition rm i p
      | RenameDefinition i name \<Rightarrow> rename_definition i name p
      | CreateOccurrence i d name t parent tags visible \<Rightarrow>
          create_occurrence \<lparr>oc_id = i, oc_definition = d, oc_name = name, oc_transform = t, oc_parent = parent,
            oc_tags = tags, oc_visible = visible, oc_color = None\<rparr> p
      | DeleteOccurrence i \<Rightarrow> delete_occurrence rm i p
      | SetOccurrenceTransform i t \<Rightarrow>
          and_then (validate_transform t) (\<lambda>_. edit_occurrence i (\<lambda>oc. oc \<lparr>oc_transform := t\<rparr>) p)
      | RenameEntity i name \<Rightarrow>
          and_then (ensure_name name) (\<lambda>_. edit_occurrence i (\<lambda>oc. oc \<lparr>oc_name := name\<rparr>) p)
      | SetOccurrenceColor i color \<Rightarrow> edit_occurrence i (\<lambda>oc. oc \<lparr>oc_color := color\<rparr>) p
      | SetOccurrenceVisibility i visible \<Rightarrow> edit_occurrence i (\<lambda>oc. oc \<lparr>oc_visible := visible\<rparr>) p
      | SetOccurrenceTags i tags \<Rightarrow>
          and_then (ensure_tags_exist p tags) (\<lambda>_. edit_occurrence i (\<lambda>oc. oc \<lparr>oc_tags := tags\<rparr>) p)
      | RepointOccurrence i d \<Rightarrow> edit_occurrence i (\<lambda>oc. oc \<lparr>oc_definition := d\<rparr>) p
      | SetOccurrenceParent i parent \<Rightarrow> edit_occurrence i (\<lambda>oc. oc \<lparr>oc_parent := parent\<rparr>) p
      | CreateLocalOccurrence key d name t parent tags visible \<Rightarrow>
          create_local_occurrence \<lparr>lo_key = key, lo_definition = d, lo_name = name, lo_transform = t,
            lo_parent = parent, lo_tags = tags, lo_visible = visible, lo_color = None\<rparr> p
      | DeleteLocalOccurrence key \<Rightarrow> delete_local_occurrence key p
      | RepointLocalOccurrence key d \<Rightarrow> edit_local_occurrence key (\<lambda>lo. lo \<lparr>lo_definition := d\<rparr>) p
      | SetLocalOccurrenceParent key parent \<Rightarrow> edit_local_occurrence key (\<lambda>lo. lo \<lparr>lo_parent := parent\<rparr>) p
      | SetLocalOccurrenceTransform key t \<Rightarrow>
          and_then (validate_transform t) (\<lambda>_. edit_local_occurrence key (\<lambda>lo. lo \<lparr>lo_transform := t\<rparr>) p)
      | RenameLocalOccurrence key name \<Rightarrow>
          and_then (ensure_name name) (\<lambda>_. edit_local_occurrence key (\<lambda>lo. lo \<lparr>lo_name := name\<rparr>) p)
      | SetLocalOccurrenceColor key color \<Rightarrow> edit_local_occurrence key (\<lambda>lo. lo \<lparr>lo_color := color\<rparr>) p
      | SetLocalOccurrenceTags key tags \<Rightarrow>
          and_then (ensure_tags_exist p tags) (\<lambda>_. edit_local_occurrence key (\<lambda>lo. lo \<lparr>lo_tags := tags\<rparr>) p)
      | CreateGroup i name t parent \<Rightarrow>
          create_group \<lparr>gr_id = i, gr_name = name, gr_transform = t, gr_parent = parent, gr_logical = False\<rparr> p
      | DeleteGroup i \<Rightarrow> delete_group i p
      | SetGroupTransform i t \<Rightarrow>
          and_then (validate_transform t) (\<lambda>_. edit_group i (\<lambda>g. g \<lparr>gr_transform := t\<rparr>) p)
      | SetGroupParent i parent \<Rightarrow> edit_group i (\<lambda>g. g \<lparr>gr_parent := parent\<rparr>) p
      | SetGroupLogical i logical \<Rightarrow> edit_group i (\<lambda>g. g \<lparr>gr_logical := logical\<rparr>) p
      | CreateLocalGroup key name t parent \<Rightarrow>
          create_local_group \<lparr>lg_key = key, lg_name = name, lg_transform = t, lg_parent = parent\<rparr> p
      | DeleteLocalGroup key \<Rightarrow> delete_local_group key p
      | SetLocalGroupTransform key t \<Rightarrow>
          and_then (validate_transform t) (\<lambda>_. edit_local_group key (\<lambda>g. g \<lparr>lg_transform := t\<rparr>) p)
      | SetLocalGroupParent key parent \<Rightarrow> edit_local_group key (\<lambda>g. g \<lparr>lg_parent := parent\<rparr>) p
      | SetOccurrenceGrounded i grounded \<Rightarrow> set_occurrence_grounded i grounded p
      | SetGroundedInstances paths \<Rightarrow> set_grounded_instances paths p
      | ConvertGroupToComponent plan \<Rightarrow> Ok p))"

definition is_view_only :: "part_command \<Rightarrow> bool" where
  "is_view_only command =
     (case command of SetTagVisibility _ _ \<Rightarrow> True | SetOccurrenceVisibility _ _ \<Rightarrow> True | _ \<Rightarrow> False)"


end
