(* ===== verification/Ketchup_Hierarchy.thy ===== *)
theory Ketchup_Hierarchy
  imports Ketchup_Arrange
begin

text \<open>
  The checks a batch of part commands passes before it becomes a revision:
  \<^verbatim>\<open>document/product_validation.rs\<close> for tags, collections, clearances, definitions, occurrences,
  groups and local structure, its incremental form \<^verbatim>\<open>ProductChange\<close>, the placement queries of
  \<^verbatim>\<open>document/snapshot.rs\<close> those checks use, and the batch of \<^verbatim>\<open>document/store.rs\<close>.

  \<open>hierarchy_ok\<close> says what the checks establish.  The checks of the rest of the product are the
  fields of the record \<open>rest_checks\<close>, run where the code runs them.
\<close>

section \<open>Where a part sits\<close>

text \<open>
  \<^verbatim>\<open>world_transform_for_group\<close> follows parents without remembering what it visited, so it is a
  partial function: \<open>None\<close> is a loop that runs forever.
\<close>

partial_function (option) ascend ::
  "(u64, part_group) btree_map \<Rightarrow> u64 list \<Rightarrow> u64 option \<Rightarrow> u64 list option option" where
  "ascend groups lineage cursor =
     (case cursor of
        None \<Rightarrow> Some (Some lineage)
      | Some gid \<Rightarrow>
          (case bt_get groups gid of
             None \<Rightarrow> Some None
           | Some g \<Rightarrow> ascend groups (gid # lineage) (gr_parent g)))"

definition world_transform_for_group :: "'r parts \<Rightarrow> u64 \<Rightarrow> parts_stop + transform option" where
  "world_transform_for_group p gid =
     (case ascend (pt_groups p) [] (Some gid) of
        None \<Rightarrow> Err Endless
      | Some None \<Rightarrow> Ok None
      | Some (Some lineage) \<Rightarrow>
          and_then (try_fold (\<lambda>t i. and_then (index_map (pt_groups p) i) (\<lambda>g. Ok (transform_compose t (gr_transform g))))
              transform_identity lineage)
            (\<lambda>t. Ok (Some t)))"

text \<open>The world transform of what an entry hangs in: the identity for the world itself.\<close>

definition parent_transform :: "'r parts \<Rightarrow> u64 option \<Rightarrow> parts_stop + transform option" where
  "parent_transform p parent =
     (case parent of None \<Rightarrow> Ok (Some transform_identity) | Some gid \<Rightarrow> world_transform_for_group p gid)"

definition world_transform_for_occurrence :: "'r parts \<Rightarrow> u64 \<Rightarrow> parts_stop + transform option" where
  "world_transform_for_occurrence p oid =
     (case bt_get (pt_occurrences p) oid of
        None \<Rightarrow> Ok None
      | Some oc \<Rightarrow>
          and_then (parent_transform p (oc_parent oc)) (\<lambda>t.
          Ok (map_option (\<lambda>t. transform_compose t (oc_transform oc)) t)))"

record resolved_instance =
  ri_definition :: u64
  ri_local :: transform
  ri_parent_world :: transform
  ri_world :: transform

fun resolve_from ::
  "'r parts \<Rightarrow> u64 \<Rightarrow> path_step list \<Rightarrow> u64 option \<Rightarrow> resolved_instance \<Rightarrow> path_step list \<Rightarrow>
   resolved_instance option" where
  "resolve_from p root passed parent at [] = Some at"
| "resolve_from p root passed parent at (StepGroup l # steps) =
     (case bt_get (pt_local_groups p) (ri_definition at, l) of
        None \<Rightarrow> None
      | Some g \<Rightarrow>
          if lg_parent g \<noteq> parent then None
          else resolve_from p root (passed @ [StepGroup l]) (Some l)
                 (at \<lparr>ri_local := lg_transform g, ri_parent_world := ri_world at,
                      ri_world := transform_compose (ri_world at) (lg_transform g)\<rparr>) steps)"
| "resolve_from p root passed parent at (StepOccurrence l # steps) =
     (case bt_get (pt_local_occurrences p) (ri_definition at, l) of
        None \<Rightarrow> None
      | Some oc \<Rightarrow>
          if lo_parent oc \<noteq> parent then None
          else let t = (case bt_get (pt_placements p) (root, passed @ [StepOccurrence l]) of
                          Some placed \<Rightarrow> placed | None \<Rightarrow> lo_transform oc) in
            resolve_from p root (passed @ [StepOccurrence l]) None
              \<lparr>ri_definition = lo_definition oc, ri_local = t, ri_parent_world = ri_world at,
               ri_world = transform_compose (ri_world at) t\<rparr> steps)"

definition resolve_instance_path :: "'r parts \<Rightarrow> instance_path \<Rightarrow> parts_stop + resolved_instance" where
  "resolve_instance_path p path =
     and_then (ok_or (bt_get (pt_occurrences p) (fst path)) (Refused InvalidInstancePath)) (\<lambda>root.
     and_then (parent_transform p (oc_parent root)) (\<lambda>parent_world.
     and_then (ok_or parent_world (Refused InvalidInstancePath)) (\<lambda>world.
     ok_or (resolve_from p (fst path) [] None
         \<lparr>ri_definition = oc_definition root, ri_local = oc_transform root, ri_parent_world = world,
          ri_world = transform_compose world (oc_transform root)\<rparr> (snd path))
       (Refused InvalidInstancePath))))"

section \<open>The checks\<close>

text \<open>
  A check of the rest runs when the structure (or, for \<open>rc_placed\<close>, the placement) changed or
  its own entries did; \<open>rc_name\<close> names those entries.
\<close>

record 'r rest_check =
  rc_name :: str
  rc_placed :: bool
  rc_run :: "'r parts \<Rightarrow> parts_stop + unit"

record 'r rest_checks =
  ck_codes :: "'r rest_check list"
  ck_floor :: "'r parts \<Rightarrow> parts_stop + unit"
  ck_threads :: "'r rest_check list"
  ck_relations :: "'r rest_check list"
  ck_graph :: "'r parts \<Rightarrow> parts_stop + unit"
  ck_spaces :: "'r rest_check list"
  ck_has_space :: "'r \<Rightarrow> u64 \<Rightarrow> bool"
  ck_dimensions :: "'r rest_check list"
  ck_views :: "'r rest_check list"
  ck_receipts :: "'r parts \<Rightarrow> parts_stop + unit"
  ck_bodies :: "'r parts \<Rightarrow> part_definition \<Rightarrow> parts_stop + unit"
  ck_features :: "'r parts \<Rightarrow> parts_stop + unit"
  ck_suppression :: "'r parts \<Rightarrow> parts_stop + unit"

text \<open>
  Which entries of the new product are the same allocation as in the one before (\<^verbatim>\<open>Arc::ptr_eq\<close>),
  and which parts of the rest are unchanged.
\<close>

record sharing =
  sh_tags :: "u64 \<Rightarrow> bool"
  sh_collections :: "u64 \<Rightarrow> bool"
  sh_definitions :: "u64 \<Rightarrow> bool"
  sh_occurrences :: "u64 \<Rightarrow> bool"
  sh_groups :: "u64 \<Rightarrow> bool"
  sh_local_occurrences :: "local_key \<Rightarrow> bool"
  sh_local_groups :: "local_key \<Rightarrow> bool"
  sh_clearances :: "u64 \<Rightarrow> bool"
  sh_definition_rest :: bool
  sh_rest :: "str \<Rightarrow> bool"

record product_change =
  ch_definitions :: bool
  ch_groups :: bool
  ch_structure :: bool
  ch_placement :: bool

definition same_keys :: "('k::linorder, 'v) btree_map \<Rightarrow> ('k, 'v) btree_map \<Rightarrow> bool" where
  "same_keys before after \<longleftrightarrow> bt_keys before = bt_keys after"

definition same_entries ::
  "('k \<Rightarrow> bool) \<Rightarrow> ('k::linorder, 'v) btree_map \<Rightarrow> ('k, 'v) btree_map \<Rightarrow> bool" where
  "same_entries shared before after \<longleftrightarrow> same_keys before after \<and> list_all shared (bt_keys after)"

definition definition_inputs_unchanged :: "sharing \<Rightarrow> 'r parts \<Rightarrow> 'r parts \<Rightarrow> bool" where
  "definition_inputs_unchanged sh before p \<longleftrightarrow>
     pt_document before = pt_document p \<and> sh_definition_rest sh \<and>
     same_entries (sh_definitions sh) (pt_definitions before) (pt_definitions p) \<and>
     same_entries (sh_local_groups sh) (pt_local_groups before) (pt_local_groups p) \<and>
     same_entries (sh_local_occurrences sh) (pt_local_occurrences before) (pt_local_occurrences p) \<and>
     same_entries (sh_tags sh) (pt_tags before) (pt_tags p)"

definition occurrence_identities_unchanged :: "sharing \<Rightarrow> 'r parts \<Rightarrow> 'r parts \<Rightarrow> bool" where
  "occurrence_identities_unchanged sh before p \<longleftrightarrow>
     same_keys (pt_occurrences before) (pt_occurrences p) \<and>
     list_all (\<lambda>((_, old), (oid, new)).
         sh_occurrences sh oid \<or> oc_definition old = oc_definition new \<and> oc_parent old = oc_parent new)
       (zip (pt_occurrences before) (pt_occurrences p))"

text \<open>The placements of the instances compare as maps of numbers.\<close>

definition same_placements :: "'r parts \<Rightarrow> 'r parts \<Rightarrow> bool" where
  "same_placements before p \<longleftrightarrow>
     list_all2 (\<lambda>(path, t) (path', t'). path = path' \<and> list_all2 f64_eq t t') (pt_placements before) (pt_placements p)"

definition product_change_between :: "sharing \<Rightarrow> 'r parts option \<Rightarrow> 'r parts \<Rightarrow> product_change" where
  "product_change_between sh prior p =
     (case prior of
        None \<Rightarrow> \<lparr>ch_definitions = True, ch_groups = True, ch_structure = True, ch_placement = True\<rparr>
      | Some before \<Rightarrow>
          (let definitions = (\<not> definition_inputs_unchanged sh before p);
               groups = (\<not> same_entries (sh_groups sh) (pt_groups before) (pt_groups p));
               structure = (definitions \<or> groups \<or> \<not> occurrence_identities_unchanged sh before p);
               placement = (structure \<or>
                 \<not> same_entries (sh_occurrences sh) (pt_occurrences before) (pt_occurrences p) \<or>
                 \<not> same_placements before p)
           in \<lparr>ch_definitions = definitions, ch_groups = groups, ch_structure = structure,
               ch_placement = placement\<rparr>))"

text \<open>\<open>recheck prior structure kept\<close>: whether a check must run.\<close>

definition recheck :: "'r parts option \<Rightarrow> bool \<Rightarrow> ('r parts \<Rightarrow> bool) \<Rightarrow> bool" where
  "recheck prior changed kept \<longleftrightarrow> changed \<or> (case prior of None \<Rightarrow> True | Some before \<Rightarrow> \<not> kept before)"

definition run_rest_check ::
  "sharing \<Rightarrow> 'r parts option \<Rightarrow> product_change \<Rightarrow> 'r parts \<Rightarrow> 'r rest_check \<Rightarrow> parts_stop + unit" where
  "run_rest_check sh prior change p c =
     (if recheck prior (if rc_placed c then ch_placement change else ch_structure change) (\<lambda>_. sh_rest sh (rc_name c))
      then rc_run c p else Ok ())"

definition placement_is_valid :: "'r parts \<Rightarrow> instance_path \<times> transform \<Rightarrow> bool" where
  "placement_is_valid p = (\<lambda>(path, t).
     snd path \<noteq> [] \<and> (case last (snd path) of StepOccurrence _ \<Rightarrow> True | StepGroup _ \<Rightarrow> False) \<and>
     transform_is_valid t \<and> resolve_product_instance_path p path \<noteq> None)"

definition validate_placements :: "'r parts \<Rightarrow> parts_stop + unit" where
  "validate_placements p = guard (list_all (placement_is_valid p) (pt_placements p)) (Refused InvalidInstancePath)"

definition validate_grounded :: "'r parts \<Rightarrow> parts_stop + unit" where
  "validate_grounded p =
     (case find (\<lambda>i. \<not> bt_contains (pt_occurrences p) i) (pt_grounded p) of
        Some i \<Rightarrow> Err (Refused (OccurrenceNotFound i)) | None \<Rightarrow> Ok ())"

definition has_positive_volume :: "clearance_volume \<Rightarrow> bool" where
  "has_positive_volume cv =
     (case (cv_min cv, cv_max cv) of ((x, y, z), (x', y', z')) \<Rightarrow>
        f64_less x x' \<and> f64_less y y' \<and> f64_less z z')"

definition validate_clearance :: "'r rest_checks \<Rightarrow> 'r parts \<Rightarrow> u64 \<times> clearance_volume \<Rightarrow> parts_stop + unit" where
  "validate_clearance ck p = (\<lambda>(cid, cv).
     and_then (guard (cid = cv_id cv \<and> has_positive_volume cv) (Refused InvalidClearanceVolume)) (\<lambda>_.
     case cv_owner cv of
       OwnedBySpace s \<Rightarrow> guard (ck_has_space ck (pt_rest p) s) (Refused InvalidClearanceOwner)
     | OwnedByOccurrence path \<Rightarrow>
         (case resolve_instance_path p path of
            Inl (Refused _) \<Rightarrow> Err (Refused InvalidClearanceOwner)
          | Inl stop \<Rightarrow> Err stop
          | Inr _ \<Rightarrow> Ok ())))"

definition validate_tags :: "'r parts \<Rightarrow> parts_stop + unit" where
  "validate_tags p =
     try_each (\<lambda>t. map_err Refused (and_then (ensure_product_id (tg_id t)) (\<lambda>_. ensure_name (tg_name t))))
       (bt_values (pt_tags p))"

definition validate_collection :: "'r parts \<Rightarrow> u64 \<times> part_collection \<Rightarrow> parts_stop + unit" where
  "validate_collection p = (\<lambda>(cid, co). map_err Refused
     (and_then (guard (cid = co_id co) (CollectionNotFound cid)) (\<lambda>_.
      and_then (ensure_product_id (co_id co)) (\<lambda>_.
      and_then (ensure_name (co_name co)) (\<lambda>_.
      try_each (\<lambda>i. guard (bt_contains (pt_occurrences p) i) (OccurrenceNotFound i)) (co_occurrences co))))))"

definition validate_document_entries ::
  "'r rest_checks \<Rightarrow> sharing \<Rightarrow> 'r parts option \<Rightarrow> product_change \<Rightarrow> 'r parts \<Rightarrow> parts_stop + unit" where
  "validate_document_entries ck sh prior change p =
     (let run = try_each (run_rest_check sh prior change p);
          changed = (\<lambda>kept. recheck prior (ch_structure change) kept) in
     and_then (run (ck_codes ck)) (\<lambda>_.
     and_then (if changed (\<lambda>before. same_placements before p)
               then validate_placements p else Ok ()) (\<lambda>_.
     and_then (ck_floor ck p) (\<lambda>_.
     and_then (if changed (\<lambda>before. pt_grounded_instances before = pt_grounded_instances p)
               then map_err Refused (validate_grounded_instances p (pt_grounded_instances p)) else Ok ()) (\<lambda>_.
     and_then (run (ck_threads ck)) (\<lambda>_.
     and_then (if changed (\<lambda>before. pt_grounded before = pt_grounded p) then validate_grounded p else Ok ()) (\<lambda>_.
     and_then (run (ck_relations ck)) (\<lambda>_.
     and_then (if ch_definitions change then ck_graph ck p else Ok ()) (\<lambda>_.
     and_then (run (ck_spaces ck)) (\<lambda>_.
     and_then (if changed (\<lambda>before. sh_rest sh ''spaces'' \<and>
                 same_entries (sh_clearances sh) (pt_clearances before) (pt_clearances p))
               then try_each (validate_clearance ck p) (pt_clearances p) else Ok ()) (\<lambda>_.
     and_then (run (ck_dimensions ck)) (\<lambda>_.
     and_then (if ch_structure change then validate_tags p else Ok ()) (\<lambda>_.
     and_then (run (ck_views ck)) (\<lambda>_.
     and_then (if changed (\<lambda>before. same_entries (sh_collections sh) (pt_collections before) (pt_collections p))
               then try_each (validate_collection p) (pt_collections p) else Ok ()) (\<lambda>_.
     if ch_structure change then ck_receipts ck p else Ok ())))))))))))))))"

text \<open>The local numbers of a definition: all different, and each names an entry.\<close>

definition take_local_id :: "('k \<Rightarrow> bool) \<Rightarrow> ('k \<Rightarrow> u64) \<Rightarrow> u64 list \<Rightarrow> 'k \<Rightarrow> parts_stop + u64 list" where
  "take_local_id exists number used key =
     and_then (guard (number key \<notin> set used \<and> exists key) (Refused InvalidLocalGraph)) (\<lambda>_.
     Ok (number key # used))"

definition validate_definition ::
  "'r rest_checks \<Rightarrow> 'r parts \<Rightarrow> part_definition \<Rightarrow> parts_stop + unit" where
  "validate_definition ck p df =
     and_then (map_err Refused (ensure_product_id (df_id df))) (\<lambda>_.
     and_then (map_err Refused (ensure_name (df_name df))) (\<lambda>_.
     and_then (ck_bodies ck p df) (\<lambda>_.
     and_then (try_fold (take_local_id (\<lambda>l. bt_contains (pt_local_groups p) (df_id df, l)) (\<lambda>l. l)) []
                (df_local_groups df)) (\<lambda>used.
     and_then (try_fold (take_local_id (\<lambda>l. bt_contains (pt_local_occurrences p) (df_id df, l)) (\<lambda>l. l)) used
                (df_local_occurrences df)) (\<lambda>_.
     Ok ())))))"

definition validate_definitions :: "'r rest_checks \<Rightarrow> 'r parts \<Rightarrow> parts_stop + unit" where
  "validate_definitions ck p = try_each (validate_definition ck p) (bt_values (pt_definitions p))"

definition validate_occurrence :: "'r parts \<Rightarrow> occurrence \<Rightarrow> parts_stop + unit" where
  "validate_occurrence p oc = map_err Refused
     (and_then (ensure_product_id (oc_id oc)) (\<lambda>_.
      and_then (ensure_name (oc_name oc)) (\<lambda>_.
      and_then (validate_transform (oc_transform oc)) (\<lambda>_.
      and_then (guard (bt_contains (pt_definitions p) (oc_definition oc)) (DefinitionNotFound (oc_definition oc))) (\<lambda>_.
      and_then (case oc_parent oc of None \<Rightarrow> Ok () | Some g \<Rightarrow> guard (bt_contains (pt_groups p) g) (GroupNotFound g)) (\<lambda>_.
      ensure_tags_exist p (oc_tags oc)))))))"

definition occurrences_to_check :: "sharing \<Rightarrow> 'r parts option \<Rightarrow> 'r parts \<Rightarrow> occurrence list" where
  "occurrences_to_check sh prior p =
     (case prior of
        None \<Rightarrow> bt_values (pt_occurrences p)
      | Some before \<Rightarrow>
          if same_keys (pt_definitions before) (pt_definitions p) \<and> same_keys (pt_groups before) (pt_groups p) \<and>
             same_keys (pt_tags before) (pt_tags p)
          then map snd (filter (\<lambda>(oid, _). \<not> (bt_contains (pt_occurrences before) oid \<and> sh_occurrences sh oid))
                 (pt_occurrences p))
          else bt_values (pt_occurrences p))"

definition validate_group :: "'r parts \<Rightarrow> part_group \<Rightarrow> parts_stop + unit" where
  "validate_group p g =
     and_then (map_err Refused (ensure_product_id (gr_id g))) (\<lambda>_.
     and_then (map_err Refused (ensure_name (gr_name g))) (\<lambda>_.
     and_then (map_err Refused (validate_transform (gr_transform g))) (\<lambda>_.
     and_then (case gr_parent g of None \<Rightarrow> Ok ()
               | Some up \<Rightarrow> guard (bt_contains (pt_groups p) up) (Refused (GroupNotFound up))) (\<lambda>_.
     case climb (group_parents p) (\<lambda>_. False) [] (Some (gr_id g)) of
       Loop i \<Rightarrow> Err (Refused (GroupCycle i))
     | Lost _ _ \<Rightarrow> Err Panics
     | _ \<Rightarrow> Ok ()))))"

definition validate_groups :: "'r parts \<Rightarrow> parts_stop + unit" where
  "validate_groups p = try_each (validate_group p) (bt_values (pt_groups p))"

definition listed_locally :: "'r parts \<Rightarrow> (part_definition \<Rightarrow> u64 list) \<Rightarrow> local_key \<Rightarrow> bool" where
  "listed_locally p members key =
     (case bt_get (pt_definitions p) (fst key) of None \<Rightarrow> False | Some df \<Rightarrow> snd key \<in> set (members df))"

definition local_parent_exists :: "'r parts \<Rightarrow> u64 \<Rightarrow> u64 option \<Rightarrow> bool" where
  "local_parent_exists p did parent =
     (case parent of None \<Rightarrow> True | Some l \<Rightarrow> bt_contains (pt_local_groups p) (did, l))"

definition validate_local_group :: "'r parts \<Rightarrow> local_key \<times> local_group \<Rightarrow> parts_stop + unit" where
  "validate_local_group p = (\<lambda>(key, g).
     and_then (guard (key = lg_key g \<and> listed_locally p df_local_groups key) (Refused InvalidLocalGraph)) (\<lambda>_.
     and_then (guard (local_parent_exists p (fst key) (lg_parent g)) (Refused InvalidLocalGraph)) (\<lambda>_.
     case climb (local_parents p (fst key)) (\<lambda>_. False) [] (Some (snd key)) of
       Loop _ \<Rightarrow> Err (Refused InvalidLocalGraph)
     | Lost _ _ \<Rightarrow> Err Panics
     | _ \<Rightarrow> Ok ())))"

definition validate_local_occurrence :: "'r parts \<Rightarrow> local_key \<times> local_occurrence \<Rightarrow> parts_stop + unit" where
  "validate_local_occurrence p = (\<lambda>(key, lo). map_err Refused
     (and_then (guard (key = lo_key lo \<and> listed_locally p df_local_occurrences key \<and>
        bt_contains (pt_definitions p) (lo_definition lo)) InvalidLocalGraph) (\<lambda>_.
      and_then (guard (local_parent_exists p (fst key) (lo_parent lo)) InvalidLocalGraph) (\<lambda>_.
      ensure_tags_exist p (lo_tags lo)))))"

text \<open>
  The depth-first walk over which definition holds which.  \<^verbatim>\<open>visiting\<close> is back to what it was
  when a call returns \<^verbatim>\<open>Ok\<close>, so it is passed down; \<^verbatim>\<open>visited\<close> is handed on.
\<close>

function visit_definition :: "'r parts \<Rightarrow> u64 list \<Rightarrow> u64 list \<Rightarrow> u64 \<Rightarrow> parts_stop + u64 list"
  and visit_members :: "'r parts \<Rightarrow> u64 list \<Rightarrow> u64 list \<Rightarrow> u64 \<Rightarrow> u64 list \<Rightarrow> parts_stop + u64 list" where
  "visit_definition p visiting visited did =
     (if did \<in> set visited then Ok visited
      else if did \<in> set visiting then Err (Refused InvalidLocalGraph)
      else (case bt_get (pt_definitions p) did of
              None \<Rightarrow> Err Panics
            | Some df \<Rightarrow>
                and_then (visit_members p (did # visiting) visited did (df_local_occurrences df)) (\<lambda>visited'.
                Ok (did # visited'))))"
| "visit_members p visiting visited did [] = Ok visited"
| "visit_members p visiting visited did (l # ls) =
     and_then (ok_or (bt_get (pt_local_occurrences p) (did, l)) Panics) (\<lambda>lo.
     and_then (visit_definition p visiting visited (lo_definition lo)) (\<lambda>visited'.
     visit_members p visiting visited' did ls))"
  by pat_completeness auto

termination
proof (relation "measures [\<lambda>s. case s of
      Inl (p, visiting, visited, did) \<Rightarrow> length (filter (\<lambda>k. k \<notin> set visiting) (bt_keys (pt_definitions p)))
    | Inr (p, visiting, visited, did, ls) \<Rightarrow> length (filter (\<lambda>k. k \<notin> set visiting) (bt_keys (pt_definitions p))),
    \<lambda>s. case s of Inl _ \<Rightarrow> 0 | Inr (p, visiting, visited, did, ls) \<Rightarrow> Suc (length ls)]", goal_cases)
  case 1
  then show ?case by simp
next
  case (2 p visiting visited did df)
  then have "did \<in> set (bt_keys (pt_definitions p))" by (auto dest: bt_get_Some_keys)
  with 2 show ?case by (auto intro!: filter_length_less)
qed simp_all

definition validate_definition_ownership_graph :: "'r parts \<Rightarrow> parts_stop + unit" where
  "validate_definition_ownership_graph p =
     and_then (try_fold (\<lambda>visited did. visit_definition p [] visited did) [] (bt_keys (pt_definitions p))) (\<lambda>_. Ok ())"

definition validate_local_structure :: "'r rest_checks \<Rightarrow> 'r parts \<Rightarrow> parts_stop + unit" where
  "validate_local_structure ck p =
     and_then (try_each (validate_local_group p) (pt_local_groups p)) (\<lambda>_.
     and_then (try_each (validate_local_occurrence p) (pt_local_occurrences p)) (\<lambda>_.
     and_then (ck_suppression ck p) (\<lambda>_.
     validate_definition_ownership_graph p)))"

definition validate_product_change ::
  "'r rest_checks \<Rightarrow> sharing \<Rightarrow> 'r parts option \<Rightarrow> 'r parts \<Rightarrow> parts_stop + unit" where
  "validate_product_change ck sh prior p =
     (let change = product_change_between sh prior p in
     and_then (map_err Refused (ensure_product_id (pt_document p))) (\<lambda>_.
     and_then (validate_document_entries ck sh prior change p) (\<lambda>_.
     and_then (if ch_definitions change
               then and_then (validate_definitions ck p) (\<lambda>_. ck_features ck p) else Ok ()) (\<lambda>_.
     and_then (try_each (validate_occurrence p) (occurrences_to_check sh prior p)) (\<lambda>_.
     and_then (if ch_groups change then validate_groups p else Ok ()) (\<lambda>_.
     if ch_definitions change then validate_local_structure ck p else Ok ()))))))"

definition validate_product :: "'r rest_checks \<Rightarrow> sharing \<Rightarrow> 'r parts \<Rightarrow> parts_stop + unit" where
  "validate_product ck sh p = validate_product_change ck sh None p"

end
