(* ===== verification/Ketchup_Assembly.thy ===== *)
theory Ketchup_Assembly
  imports Ketchup_Hierarchy
begin

text \<open>
  What the checks of \<open>Ketchup_Hierarchy\<close> establish, and the batch of part commands of
  \<^verbatim>\<open>DocumentStore::apply_batch_with_origin_and_validation\<close>: an accepted batch keeps the parts
  of a document in order, and the incremental checks accept what the full ones accept.
\<close>

section \<open>Chains of parents\<close>

text \<open>\<open>up_chain parents x xs\<close>: following parents from \<open>x\<close> meets \<open>xs\<close>, in order, and ends at a root.\<close>

inductive up_chain :: "('k::linorder, 'k option) btree_map \<Rightarrow> 'k \<Rightarrow> 'k list \<Rightarrow> bool" for parents where
  up_root: "bt_get parents x = Some None \<Longrightarrow> up_chain parents x [x]"
| up_step: "bt_get parents x = Some (Some y) \<Longrightarrow> up_chain parents y xs \<Longrightarrow> up_chain parents x (x # xs)"

inductive_cases up_chainE: "up_chain parents x xs"

lemma up_chain_hd: "up_chain parents x xs \<Longrightarrow> xs \<noteq> [] \<and> hd xs = x"
  by (cases rule: up_chain.cases) auto

lemma up_chain_unique: "up_chain parents x xs \<Longrightarrow> up_chain parents x ys \<Longrightarrow> xs = ys"
proof (induction arbitrary: ys rule: up_chain.induct)
  case (up_root x)
  from up_root(2,1) show ?case by (cases rule: up_chain.cases) auto
next
  case (up_step x y xs)
  from up_step(4,1) obtain zs where "ys = x # zs" "up_chain parents y zs"
    by (cases rule: up_chain.cases) auto
  with up_step.IH show ?case by simp
qed

lemma up_chain_suffix: "up_chain parents x xs \<Longrightarrow> y \<in> set xs \<Longrightarrow> \<exists>ws zs. xs = ws @ zs \<and> up_chain parents y zs"
proof (induction rule: up_chain.induct)
  case (up_root x)
  then show ?case by (intro exI [of _ "[]"] exI [of _ "[x]"]) (simp add: up_chain.up_root)
next
  case (up_step x z xs)
  show ?case
  proof (cases "y = x")
    case True
    show ?thesis
      by (rule exI [of _ "[]"], rule exI [of _ "x # xs"]) (use True up_step in \<open>auto intro: up_chain.up_step\<close>)
  next
    case False
    with up_step obtain ws zs where "xs = ws @ zs" "up_chain parents y zs" by auto
    then show ?thesis by (intro exI [of _ "x # ws"] exI [of _ zs]) simp
  qed
qed

lemma up_chain_distinct: "up_chain parents x xs \<Longrightarrow> distinct xs"
proof (induction rule: up_chain.induct)
  case (up_step x y xs)
  have "x \<notin> set xs"
  proof
    assume "x \<in> set xs"
    from up_chain_suffix [OF up_step(2) this] obtain ws zs where z: "xs = ws @ zs" "up_chain parents x zs" by blast
    from up_chain_unique [OF up_chain.up_step [OF up_step(1,2)] z(2)] z(1) show False
      by (metis append_eq_append_conv_if length_Cons length_append less_add_Suc2 not_add_less2 plus_1_eq_Suc add.commute less_irrefl)
  qed
  with up_step show ?case by simp
qed simp

lemma up_chain_keys: "up_chain parents x xs \<Longrightarrow> set xs \<subseteq> set (bt_keys parents)"
  by (induction rule: up_chain.induct) (auto dest: bt_get_Some_keys)

text \<open>The chain depends on the parents of its members only.\<close>

lemma up_chain_cong:
  "up_chain parents x xs \<Longrightarrow> (\<And>y. y \<in> set xs \<Longrightarrow> bt_get parents' y = bt_get parents y) \<Longrightarrow> up_chain parents' x xs"
proof (induction rule: up_chain.induct)
  case (up_root x)
  then show ?case by (simp add: up_chain.up_root)
next
  case (up_step x y xs)
  then show ?case by (intro up_chain.up_step [of _ _ y]) auto
qed

lemma climb_chain:
  "up_chain parents x xs \<Longrightarrow> set xs \<inter> set seen = {} \<Longrightarrow> (\<And>y. y \<in> set xs \<Longrightarrow> \<not> stop y) \<Longrightarrow>
   climb parents stop seen (Some x) = Top (rev xs @ seen)"
proof (induction arbitrary: seen rule: up_chain.induct)
  case (up_root x)
  then show ?case by (simp add: climb_simps)
next
  case (up_step x y xs)
  have "x \<notin> set xs" using up_chain_distinct [OF up_chain.up_step [OF up_step(1,2)]] by simp
  then have "climb parents stop (x # seen) (Some y) = Top (rev xs @ x # seen)"
    using up_step.prems by (intro up_step.IH) auto
  with up_step show ?case by (simp add: climb_simps)
qed

lemma climb_Top: "climb parents stop seen cursor = Top ys \<Longrightarrow> cursor = Some x \<Longrightarrow> \<exists>xs. up_chain parents x xs"
proof (induction parents stop seen cursor arbitrary: x rule: climb.induct)
  case (2 parents stop seen c)
  note step = trans [OF climb.simps(2) [symmetric] 2(2)]
  have seen: "c \<notin> set seen" using step by (cases "c \<in> set seen") simp_all
  have stop: "\<not> stop c" using step seen by (cases "stop c") simp_all
  obtain up where get: "bt_get parents c = Some up" using step seen stop by (cases "bt_get parents c") simp_all
  have top: "climb parents stop (c # seen) up = Top ys" using step seen stop get by simp
  show ?case
  proof (cases up)
    case None
    with get 2(3) show ?thesis using up_chain.up_root by fastforce
  next
    case (Some z)
    obtain xs where "up_chain parents z xs" using 2(1) [OF seen stop get top Some] by blast
    then show ?thesis using get 2(3) Some up_chain.up_step by fastforce
  qed
qed simp

lemma climb_not_Found: "climb parents (\<lambda>_. False) seen cursor \<noteq> Found ys"
proof (induction parents "\<lambda>_::'a. False" seen cursor rule: climb.induct)
  case (2 parents seen x)
  show ?case
  proof
    assume "climb parents (\<lambda>_. False) seen (Some x) = Found ys"
    note step = trans [OF climb.simps(2) [symmetric] this]
    have seen: "x \<notin> set seen" using step by (cases "x \<in> set seen") simp_all
    obtain up where get: "bt_get parents x = Some up" using step seen by (cases "bt_get parents x") simp_all
    show False using step seen get 2 [OF seen _ get] by simp
  qed
qed (simp add: climb_simps)

text \<open>Where a chain is cut at the first place to stop.\<close>

lemma climb_Found:
  "up_chain parents x xs \<Longrightarrow> set xs \<inter> set seen = {} \<Longrightarrow> root \<in> set xs \<Longrightarrow>
   climb parents (\<lambda>g. g = root) seen (Some x) = Found (root # rev (takeWhile (\<lambda>g. g \<noteq> root) xs) @ seen)"
proof (induction arbitrary: seen rule: up_chain.induct)
  case (up_root x)
  then show ?case by (simp add: climb_simps)
next
  case (up_step x y xs)
  have x: "x \<notin> set xs" using up_chain_distinct [OF up_chain.up_step [OF up_step(1,2)]] by simp
  show ?case
  proof (cases "x = root")
    case True
    with up_step.prems show ?thesis by (simp add: climb_simps)
  next
    case False
    then have "climb parents (\<lambda>g. g = root) (x # seen) (Some y)
      = Found (root # rev (takeWhile (\<lambda>g. g \<noteq> root) xs) @ x # seen)"
      using up_step.prems x by (intro up_step.IH) auto
    with up_step False show ?thesis by (simp add: climb_simps)
  qed
qed

definition rooted :: "('k::linorder, 'k option) btree_map \<Rightarrow> 'k \<Rightarrow> bool" where
  "rooted parents x \<longleftrightarrow> (\<exists>xs. up_chain parents x xs)"

text \<open>The loop of the checks returns \<open>Top\<close> exactly on a rooted entry.\<close>

lemma climb_rooted:
  "(case climb parents (\<lambda>_. False) [] (Some x) of Loop i \<Rightarrow> Err (f i) | Lost _ _ \<Rightarrow> Err e | _ \<Rightarrow> Ok ()) = Inr u \<longleftrightarrow>
   rooted parents x"
proof
  assume ok: "(case climb parents (\<lambda>_. False) [] (Some x) of Loop i \<Rightarrow> Err (f i) | Lost _ _ \<Rightarrow> Err e | _ \<Rightarrow> Ok ()) = Inr u"
  then obtain ys where "climb parents (\<lambda>_. False) [] (Some x) = Top ys"
    using climb_not_Found [of parents "[]" "Some x"] by (auto split: climb_end.splits)
  from climb_Top [OF this refl] show "rooted parents x" by (simp add: rooted_def)
next
  assume "rooted parents x"
  then show "(case climb parents (\<lambda>_. False) [] (Some x) of Loop i \<Rightarrow> Err (f i) | Lost _ _ \<Rightarrow> Err e | _ \<Rightarrow> Ok ()) = Inr u"
    by (auto simp: rooted_def climb_chain)
qed

section \<open>What the checks establish\<close>

text \<open>Every map is in order and files each entry under its own number.\<close>

definition keyed :: "'r parts \<Rightarrow> bool" where
  "keyed p \<longleftrightarrow>
     bt_wf (pt_tags p) \<and> bt_wf (pt_dimensions p) \<and> bt_wf (pt_assignments p) \<and> bt_wf (pt_collections p) \<and>
     bt_wf (pt_definitions p) \<and> bt_wf (pt_occurrences p) \<and> bt_wf (pt_groups p) \<and>
     bt_wf (pt_local_occurrences p) \<and> bt_wf (pt_local_groups p) \<and> bt_wf (pt_placements p) \<and>
     bt_wf (pt_clearances p) \<and>
     (\<forall>k x. bt_get (pt_tags p) k = Some x \<longrightarrow> tg_id x = k) \<and>
     (\<forall>k x. bt_get (pt_definitions p) k = Some x \<longrightarrow> df_id x = k) \<and>
     (\<forall>k x. bt_get (pt_occurrences p) k = Some x \<longrightarrow> oc_id x = k) \<and>
     (\<forall>k x. bt_get (pt_groups p) k = Some x \<longrightarrow> gr_id x = k)"

definition tag_ok :: "u64 \<Rightarrow> part_tag \<Rightarrow> bool" where
  "tag_ok k t \<longleftrightarrow> k \<noteq> 0 \<and> \<not> trim_is_empty (tg_name t)"

definition tags_exist :: "'r parts \<Rightarrow> u64 list \<Rightarrow> bool" where
  "tags_exist p tags \<longleftrightarrow> (\<forall>t\<in>set tags. bt_contains (pt_tags p) t)"

definition collection_ok :: "'r parts \<Rightarrow> u64 \<Rightarrow> part_collection \<Rightarrow> bool" where
  "collection_ok p k co \<longleftrightarrow>
     co_id co = k \<and> k \<noteq> 0 \<and> \<not> trim_is_empty (co_name co) \<and>
     (\<forall>i\<in>set (co_occurrences co). bt_contains (pt_occurrences p) i)"

definition group_ok :: "'r parts \<Rightarrow> u64 \<Rightarrow> part_group \<Rightarrow> bool" where
  "group_ok p k g \<longleftrightarrow>
     k \<noteq> 0 \<and> \<not> trim_is_empty (gr_name g) \<and> transform_is_valid (gr_transform g) \<and> rooted (group_parents p) k"

definition occurrence_ok :: "'r parts \<Rightarrow> u64 \<Rightarrow> occurrence \<Rightarrow> bool" where
  "occurrence_ok p k oc \<longleftrightarrow>
     k \<noteq> 0 \<and> \<not> trim_is_empty (oc_name oc) \<and> transform_is_valid (oc_transform oc) \<and>
     bt_contains (pt_definitions p) (oc_definition oc) \<and>
     (\<forall>g. oc_parent oc = Some g \<longrightarrow> bt_contains (pt_groups p) g) \<and> tags_exist p (oc_tags oc)"

definition definition_ok :: "'r parts \<Rightarrow> u64 \<Rightarrow> part_definition \<Rightarrow> bool" where
  "definition_ok p k df \<longleftrightarrow>
     k \<noteq> 0 \<and> \<not> trim_is_empty (df_name df) \<and> distinct (df_local_groups df @ df_local_occurrences df) \<and>
     (\<forall>l\<in>set (df_local_groups df). bt_contains (pt_local_groups p) (k, l)) \<and>
     (\<forall>l\<in>set (df_local_occurrences df). bt_contains (pt_local_occurrences p) (k, l))"

definition local_group_ok :: "'r parts \<Rightarrow> local_key \<Rightarrow> local_group \<Rightarrow> bool" where
  "local_group_ok p k g \<longleftrightarrow>
     lg_key g = k \<and> listed_locally p df_local_groups k \<and> rooted (local_parents p (fst k)) (snd k)"

definition local_occurrence_ok :: "'r parts \<Rightarrow> local_key \<Rightarrow> local_occurrence \<Rightarrow> bool" where
  "local_occurrence_ok p k lo \<longleftrightarrow>
     lo_key lo = k \<and> listed_locally p df_local_occurrences k \<and> bt_contains (pt_definitions p) (lo_definition lo) \<and>
     local_parent_exists p (fst k) (lo_parent lo) \<and> tags_exist p (lo_tags lo)"

text \<open>\<open>holds p\<close>: the first definition holds a local occurrence of the second.\<close>

definition holds :: "'r parts \<Rightarrow> (u64 \<times> u64) set" where
  "holds p = {(d, t). \<exists>df l lo. bt_get (pt_definitions p) d = Some df \<and> l \<in> set (df_local_occurrences df) \<and>
     bt_get (pt_local_occurrences p) (d, l) = Some lo \<and> lo_definition lo = t}"

definition every :: "('k::linorder, 'v) btree_map \<Rightarrow> ('k \<Rightarrow> 'v \<Rightarrow> bool) \<Rightarrow> bool" where
  "every m P \<longleftrightarrow> (\<forall>k v. bt_get m k = Some v \<longrightarrow> P k v)"

definition definitions_ok :: "'r parts \<Rightarrow> bool" where
  "definitions_ok p \<longleftrightarrow> every (pt_definitions p) (definition_ok p)"

definition occurrences_ok :: "'r parts \<Rightarrow> bool" where
  "occurrences_ok p \<longleftrightarrow> every (pt_occurrences p) (occurrence_ok p)"

definition groups_ok :: "'r parts \<Rightarrow> bool" where
  "groups_ok p \<longleftrightarrow> every (pt_groups p) (group_ok p)"

definition locals_ok :: "'r parts \<Rightarrow> bool" where
  "locals_ok p \<longleftrightarrow>
     every (pt_local_groups p) (local_group_ok p) \<and> every (pt_local_occurrences p) (local_occurrence_ok p) \<and>
     acyclic (holds p)"

definition entries_ok :: "'r parts \<Rightarrow> bool" where
  "entries_ok p \<longleftrightarrow>
     pt_document p \<noteq> 0 \<and> every (pt_tags p) tag_ok \<and> every (pt_collections p) (collection_ok p) \<and>
     (\<forall>i\<in>set (pt_grounded p). bt_contains (pt_occurrences p) i) \<and>
     (\<forall>path\<in>set (pt_grounded_instances p). resolve_product_instance_path p path \<noteq> None) \<and>
     (\<forall>entry\<in>set (pt_placements p). placement_is_valid p entry)"

definition hierarchy_ok :: "'r parts \<Rightarrow> bool" where
  "hierarchy_ok p \<longleftrightarrow> entries_ok p \<and> definitions_ok p \<and> occurrences_ok p \<and> groups_ok p \<and> locals_ok p"

subsection \<open>Each check decides its part\<close>

lemma everyI: "(\<And>k v. bt_get m k = Some v \<Longrightarrow> P k v) \<Longrightarrow> every m P"
  by (simp add: every_def)

lemma everyD: "every m P \<Longrightarrow> bt_get m k = Some v \<Longrightarrow> P k v"
  by (simp add: every_def)

lemma try_each_entries:
  assumes "bt_wf m"
  shows "try_each f m = Inr u \<longleftrightarrow> every m (\<lambda>k v. f (k, v) = Inr ())"
  using bt.get_Some_iff [OF assms] by (auto simp: try_each_Inr every_def)

lemma try_each_values:
  assumes "bt_wf m"
  shows "try_each f (bt_values m) = Inr u \<longleftrightarrow> every m (\<lambda>k v. f v = Inr ())"
  using bt.get_Some_iff [OF assms] by (auto simp: try_each_Inr every_def bt_values_def)

lemma every_cong: "(\<And>k v. bt_get m k = Some v \<Longrightarrow> P k v \<longleftrightarrow> Q k v) \<Longrightarrow> every m P = every m Q"
  by (simp add: every_def)

lemma find_None_all: "find P xs = None \<longleftrightarrow> (\<forall>x\<in>set xs. \<not> P x)"
  by (auto simp: find_None_iff)

lemma ensure_tags_exist_ok: "ensure_tags_exist p tags = Inr u \<longleftrightarrow> tags_exist p tags"
  by (auto simp: ensure_tags_exist_def tags_exist_def find_None_all split: option.splits dest: find_None_all [THEN iffD1])
     (auto simp: find_Some_iff bt_contains_def)

lemmas check_simps =
  result_simps ensure_product_id_def ensure_name_def validate_transform_def ensure_tags_exist_ok

lemma keyed_wf:
  assumes "keyed p"
  shows "bt_wf (pt_tags p)" "bt_wf (pt_dimensions p)" "bt_wf (pt_assignments p)" "bt_wf (pt_collections p)"
    "bt_wf (pt_definitions p)" "bt_wf (pt_occurrences p)" "bt_wf (pt_groups p)" "bt_wf (pt_local_occurrences p)"
    "bt_wf (pt_local_groups p)" "bt_wf (pt_placements p)" "bt_wf (pt_clearances p)"
  using assms by (simp_all add: keyed_def)

lemma keyed_id:
  assumes "keyed p"
  shows "bt_get (pt_tags p) k = Some t \<Longrightarrow> tg_id t = k" "bt_get (pt_definitions p) k = Some df \<Longrightarrow> df_id df = k"
    "bt_get (pt_occurrences p) k = Some oc \<Longrightarrow> oc_id oc = k" "bt_get (pt_groups p) k = Some g \<Longrightarrow> gr_id g = k"
  using assms by (simp_all add: keyed_def)

lemma validate_tags_ok: "keyed p \<Longrightarrow> validate_tags p = Inr u \<longleftrightarrow> every (pt_tags p) tag_ok"
  unfolding validate_tags_def try_each_values [OF keyed_wf(1)]
  by (rule every_cong) (auto simp: tag_ok_def check_simps keyed_id)

lemma validate_collections_ok:
  "keyed p \<Longrightarrow> try_each (validate_collection p) (pt_collections p) = Inr u \<longleftrightarrow> every (pt_collections p) (collection_ok p)"
  unfolding try_each_entries [OF keyed_wf(4)]
  by (rule every_cong) (auto simp: validate_collection_def collection_ok_def check_simps try_each_Inr)

lemma validate_occurrence_ok:
  "oc_id oc = k \<Longrightarrow> validate_occurrence p oc = Inr u \<longleftrightarrow> occurrence_ok p k oc"
  by (auto simp: validate_occurrence_def occurrence_ok_def check_simps split: option.splits)

lemma bt_get_group_parents: "bt_get (group_parents p) k = map_option gr_parent (bt_get (pt_groups p) k)"
  by (simp add: bt_get_def group_parents_def map_of_map)

lemma bt_get_local_parents: "bt_get (local_parents p d) l = map_option lg_parent (bt_get (pt_local_groups p) (d, l))"
proof -
  have "map_of (map (\<lambda>(k, g). (snd k, lg_parent g)) (filter (\<lambda>(k, _). fst k = d) m)) l = map_option lg_parent (map_of m (d, l))"
    for m :: "(local_key, local_group) btree_map"
    by (induction m) auto
  then show ?thesis by (simp add: bt_get_def local_parents_def)
qed

lemma rooted_parent: "rooted parents x \<Longrightarrow> bt_get parents x = Some (Some y) \<Longrightarrow> rooted parents y"
  unfolding rooted_def by (erule exE, erule up_chainE) auto

lemma rooted_present: "rooted parents x \<Longrightarrow> bt_get parents x \<noteq> None"
  unfolding rooted_def by (erule exE, erule up_chainE) auto

lemma rooted_group_parent:
  "rooted (group_parents p) k \<Longrightarrow> bt_get (pt_groups p) k = Some g \<Longrightarrow> gr_parent g = Some up \<Longrightarrow> bt_contains (pt_groups p) up"
  using rooted_present [OF rooted_parent [of "group_parents p" k up]]
  by (auto simp: bt_get_group_parents bt_contains_def)

lemma rooted_local_parent:
  "rooted (local_parents p d) l \<Longrightarrow> bt_get (pt_local_groups p) (d, l) = Some g \<Longrightarrow> local_parent_exists p d (lg_parent g)"
  using rooted_present [OF rooted_parent [of "local_parents p d" l]]
  by (auto simp: bt_get_local_parents bt_contains_def local_parent_exists_def split: option.splits)

lemma validate_group_ok:
  assumes "bt_get (pt_groups p) k = Some g" and "gr_id g = k"
  shows "validate_group p g = Inr u \<longleftrightarrow> group_ok p k g"
  using rooted_group_parent [OF _ assms(1)] assms(2)
  by (auto simp: validate_group_def group_ok_def check_simps climb_rooted split: option.splits)

lemma validate_groups_ok: "keyed p \<Longrightarrow> validate_groups p = Inr u \<longleftrightarrow> groups_ok p"
  unfolding validate_groups_def groups_ok_def try_each_values [OF keyed_wf(7)]
  by (rule every_cong) (simp add: validate_group_ok keyed_id)

lemma validate_local_group_ok:
  assumes "bt_get (pt_local_groups p) k = Some g"
  shows "validate_local_group p (k, g) = Inr u \<longleftrightarrow> local_group_ok p k g"
  using rooted_local_parent [of p "fst k" "snd k" g] assms
  by (auto simp: validate_local_group_def local_group_ok_def check_simps climb_rooted)

lemma validate_local_occurrence_ok:
  "validate_local_occurrence p (k, lo) = Inr u \<longleftrightarrow> local_occurrence_ok p k lo"
  by (auto simp: validate_local_occurrence_def local_occurrence_ok_def check_simps)

lemma take_local_ids:
  "try_fold (take_local_id exists (\<lambda>l. l)) used ls = Inr used' \<longleftrightarrow>
   distinct ls \<and> set ls \<inter> set used = {} \<and> (\<forall>l\<in>set ls. exists l) \<and> used' = rev ls @ used"
  by (induction ls arbitrary: used) (auto simp: take_local_id_def result_simps)

lemma validate_definition_local:
  assumes "validate_definition ck p df = Inr u" and "df_id df = k"
  shows "definition_ok p k df"
  using assms by (auto simp: validate_definition_def definition_ok_def check_simps take_local_ids)

lemma validate_definition_ok:
  assumes "definition_ok p k df" and "df_id df = k" and "ck_bodies ck p df = Inr ()"
  shows "validate_definition ck p df = Inr ()"
  using assms by (auto simp: validate_definition_def definition_ok_def check_simps take_local_ids)


subsection \<open>Which definition holds which\<close>

definition settled :: "'r parts \<Rightarrow> u64 set" where
  "settled p = Wellfounded.acc ((holds p)\<inverse>)"

lemma settledI: "(\<And>t. (d, t) \<in> holds p \<Longrightarrow> t \<in> settled p) \<Longrightarrow> d \<in> settled p"
  unfolding settled_def by (rule accI) simp

lemma settled_no_cycle: "d \<in> settled p \<Longrightarrow> (d, d) \<notin> (holds p)\<^sup>+"
  unfolding settled_def
proof (induction rule: acc.induct)
  case (accI d)
  show ?case
  proof
    assume "(d, d) \<in> (holds p)\<^sup>+"
    then obtain t where t: "(d, t) \<in> holds p" "(t, d) \<in> (holds p)\<^sup>*"
      by (meson tranclD)
    then have "(t, t) \<in> (holds p)\<^sup>+" by (meson rtrancl_into_trancl1)
    with accI [of t] t(1) show False by simp
  qed
qed

lemma holdsI:
  "bt_get (pt_definitions p) d = Some df \<Longrightarrow> l \<in> set (df_local_occurrences df) \<Longrightarrow>
   bt_get (pt_local_occurrences p) (d, l) = Some lo \<Longrightarrow> (d, lo_definition lo) \<in> holds p"
  by (auto simp: holds_def)

lemma visit_settles:
  shows "visit_definition p visiting visited did = Inr visited' \<Longrightarrow> set visited \<subseteq> settled p \<Longrightarrow>
           set visited \<subseteq> set visited' \<and> set visited' \<subseteq> settled p \<and> did \<in> set visited'"
    and "visit_members p visiting visited did ls = Inr visited' \<Longrightarrow> set visited \<subseteq> settled p \<Longrightarrow>
           set visited \<subseteq> set visited' \<and> set visited' \<subseteq> settled p \<and>
           (\<forall>l\<in>set ls. \<exists>lo. bt_get (pt_local_occurrences p) (did, l) = Some lo \<and> lo_definition lo \<in> set visited')"
proof (induction p visiting visited did and p visiting visited did ls arbitrary: visited' and visited'
    rule: visit_definition_visit_members.induct)
  case (1 p visiting visited did)
  show ?case
  proof (cases "did \<in> set visited")
    case True
    with 1 show ?thesis by simp
  next
    case False
    from 1(2) False obtain df v where v: "did \<notin> set visiting" "bt_get (pt_definitions p) did = Some df"
      "visit_members p (did # visiting) visited did (df_local_occurrences df) = Inr v" "visited' = did # v"
      by (auto simp: result_simps split: if_splits option.splits)
    from 1(1) [OF False v(1,2,3) 1(3)] have IH: "set visited \<subseteq> set v" "set v \<subseteq> settled p"
      "\<forall>l\<in>set (df_local_occurrences df). \<exists>lo. bt_get (pt_local_occurrences p) (did, l) = Some lo \<and>
         lo_definition lo \<in> set v" by auto
    have "did \<in> settled p"
    proof (rule settledI)
      fix t
      assume "(did, t) \<in> holds p"
      with IH(2,3) v(2) show "t \<in> settled p" by (fastforce simp: holds_def)
    qed
    with IH v show ?thesis by auto
  qed
next
  case (2 p visiting visited did)
  then show ?case by simp
next
  case (3 p visiting visited did l ls)
  from 3(3) obtain lo v where v: "bt_get (pt_local_occurrences p) (did, l) = Some lo"
    "visit_definition p visiting visited (lo_definition lo) = Inr v" "visit_members p visiting v did ls = Inr visited'"
    by (auto simp: result_simps)
  from 3(1) [of lo v] v 3(4) have "set visited \<subseteq> set v \<and> set v \<subseteq> settled p \<and> lo_definition lo \<in> set v" by simp
  with 3(2) [of lo v] v show ?case by fastforce
qed

text \<open>Every local number of a definition names an entry, and every local occurrence a definition.\<close>

definition members_exist :: "'r parts \<Rightarrow> bool" where
  "members_exist p \<longleftrightarrow>
     (\<forall>d df l. bt_get (pt_definitions p) d = Some df \<longrightarrow> l \<in> set (df_local_occurrences df) \<longrightarrow>
        (\<exists>lo. bt_get (pt_local_occurrences p) (d, l) = Some lo \<and> bt_contains (pt_definitions p) (lo_definition lo)))"

lemma visit_returns:
  assumes "members_exist p" and "acyclic (holds p)"
  shows "bt_contains (pt_definitions p) did \<Longrightarrow> \<forall>a\<in>set visiting. (a, did) \<in> (holds p)\<^sup>+ \<Longrightarrow>
           \<exists>visited'. visit_definition p visiting visited did = Inr visited'"
    and "bt_get (pt_definitions p) did = Some df \<Longrightarrow> set ls \<subseteq> set (df_local_occurrences df) \<Longrightarrow>
           \<forall>a\<in>set visiting. (a, did) \<in> (holds p)\<^sup>* \<Longrightarrow> \<exists>visited'. visit_members p visiting visited did ls = Inr visited'"
  using assms
proof (induction p visiting visited did and p visiting visited did ls arbitrary: and df
    rule: visit_definition_visit_members.induct)
  case (1 p visiting visited did)
  show ?case
  proof (cases "did \<in> set visited")
    case True
    then show ?thesis by simp
  next
    case False
    obtain df where df: "bt_get (pt_definitions p) did = Some df" using 1(2) by (auto simp: bt_contains_def)
    have no: "did \<notin> set visiting" using 1(3,5) by (auto simp: acyclic_def)
    have "\<exists>v. visit_members p (did # visiting) visited did (df_local_occurrences df) = Inr v"
      by (rule 1(1) [OF False no df df]) (use 1(3,4,5) in \<open>auto dest: trancl_into_rtrancl\<close>)
    with False no df show ?thesis by auto
  qed
next
  case (2 p visiting visited did)
  then show ?case by simp
next
  case (3 p visiting visited did l ls)
  obtain lo where lo: "bt_get (pt_local_occurrences p) (did, l) = Some lo"
    "bt_contains (pt_definitions p) (lo_definition lo)"
    using 3(6) [unfolded members_exist_def, rule_format, OF 3(3), of l] 3(4) by auto
  have "(did, lo_definition lo) \<in> holds p" using 3(3,4) lo(1) by (auto intro: holdsI)
  with 3(5) have "\<forall>a\<in>set visiting. (a, lo_definition lo) \<in> (holds p)\<^sup>+" by (auto intro: rtrancl_into_trancl1)
  from 3(1) [of lo, OF _ lo(2) this 3(6,7)] lo(1)
  obtain v where v: "visit_definition p visiting visited (lo_definition lo) = Inr v" by auto
  from 3(2) [of lo v, OF _ v 3(3) _ 3(5,6,7)] lo(1) 3(4) have "\<exists>v'. visit_members p visiting v did ls = Inr v'" by auto
  with lo(1) v show ?case by auto
qed

lemma ownership_acyclic:
  assumes "validate_definition_ownership_graph p = Inr u"
  shows "acyclic (holds p)"
proof -
  from assms obtain v where v: "try_fold (\<lambda>visited did. visit_definition p [] visited did) [] (bt_keys (pt_definitions p)) = Inr v"
    by (auto simp: validate_definition_ownership_graph_def result_simps)
  have "set visited \<subseteq> settled p \<Longrightarrow> try_fold (\<lambda>visited did. visit_definition p [] visited did) visited ds = Inr v \<Longrightarrow>
    set ds \<union> set visited \<subseteq> set v \<and> set v \<subseteq> settled p" for visited ds
  proof (induction ds arbitrary: visited)
    case Nil
    then show ?case by simp
  next
    case (Cons d ds)
    from Cons.prems(2) obtain w where w: "visit_definition p [] visited d = Inr w"
      "try_fold (\<lambda>visited did. visit_definition p [] visited did) w ds = Inr v" by (auto simp: result_simps)
    from visit_settles(1) [OF w(1) Cons.prems(1)] Cons.IH [OF _ w(2)] show ?case by auto
  qed
  from this [OF _ v] have all: "set (bt_keys (pt_definitions p)) \<subseteq> settled p" by auto
  show ?thesis
    unfolding acyclic_def
  proof (intro allI notI)
    fix d
    assume cycle: "(d, d) \<in> (holds p)\<^sup>+"
    then obtain t where "(d, t) \<in> holds p" by (meson tranclD)
    then have "d \<in> settled p" using all by (auto simp: holds_def dest: bt_get_Some_keys)
    with cycle settled_no_cycle show False by blast
  qed
qed

lemma ownership_returns:
  assumes "members_exist p" and "acyclic (holds p)"
  shows "validate_definition_ownership_graph p = Inr ()"
proof -
  have "set ds \<subseteq> set (bt_keys (pt_definitions p)) \<Longrightarrow>
    \<exists>v. try_fold (\<lambda>visited did. visit_definition p [] visited did) visited ds = Inr v" for visited ds
  proof (induction ds arbitrary: visited)
    case Nil
    then show ?case by simp
  next
    case (Cons d ds)
    then have "bt_contains (pt_definitions p) d" by (simp add: bt_contains_iff)
    from visit_returns(1) [OF assms this, of "[]" visited]
    obtain w where "visit_definition p [] visited d = Inr w" by auto
    with Cons show ?case by simp
  qed
  from this [of "bt_keys (pt_definitions p)" "[]"] show ?thesis
    by (auto simp: validate_definition_ownership_graph_def)
qed


section \<open>The incremental checks\<close>

text \<open>An entry that is the same allocation in both products is the same entry.\<close>

definition shares :: "('k \<Rightarrow> bool) \<Rightarrow> ('k::linorder, 'v) btree_map \<Rightarrow> ('k, 'v) btree_map \<Rightarrow> bool" where
  "shares shared before after \<longleftrightarrow>
     (\<forall>k v w. shared k \<longrightarrow> bt_get before k = Some v \<longrightarrow> bt_get after k = Some w \<longrightarrow> v = w)"

definition sharing_sound :: "sharing \<Rightarrow> 'r parts \<Rightarrow> 'r parts \<Rightarrow> bool" where
  "sharing_sound sh before p \<longleftrightarrow>
     shares (sh_tags sh) (pt_tags before) (pt_tags p) \<and>
     shares (sh_collections sh) (pt_collections before) (pt_collections p) \<and>
     shares (sh_definitions sh) (pt_definitions before) (pt_definitions p) \<and>
     shares (sh_occurrences sh) (pt_occurrences before) (pt_occurrences p) \<and>
     shares (sh_groups sh) (pt_groups before) (pt_groups p) \<and>
     shares (sh_local_occurrences sh) (pt_local_occurrences before) (pt_local_occurrences p) \<and>
     shares (sh_local_groups sh) (pt_local_groups before) (pt_local_groups p) \<and>
     shares (sh_clearances sh) (pt_clearances before) (pt_clearances p)"

lemma same_keys_contains: "same_keys m n \<Longrightarrow> bt_contains m k \<longleftrightarrow> bt_contains n k"
  by (simp add: same_keys_def bt_contains_iff)

lemma same_entries_eq:
  assumes "same_entries shared m n" and "shares shared m n" and "bt_wf m" and "bt_wf n"
  shows "m = n"
proof (rule bt.entries_unique [OF assms(3,4)])
  fix k
  from assms(1) have keys: "bt_contains m k \<longleftrightarrow> bt_contains n k" and sh: "k \<in> set (bt_keys n) \<Longrightarrow> shared k"
    by (auto simp: same_entries_def same_keys_contains list_all_iff)
  show "bt_get m k = bt_get n k"
    using keys sh assms(2) by (cases "bt_get m k"; cases "bt_get n k")
      (auto simp: bt_contains_def shares_def dest: bt_get_Some_keys)
qed

lemma zip_get:
  "map fst m = map fst n \<Longrightarrow> map_of n k = Some v \<Longrightarrow> \<exists>w. map_of m k = Some w \<and> ((k, w), (k, v)) \<in> set (zip m n)"
proof (induction m arbitrary: n)
  case Nil
  then show ?case by simp
next
  case (Cons e m)
  then obtain k' v' n' where n: "n = (k', v') # n'" "fst e = k'" "map fst m = map fst n'"
    by (cases n) auto
  show ?case
  proof (cases "k = k'")
    case True
    with Cons.prems n show ?thesis by (cases e) auto
  next
    case False
    with Cons.prems n Cons.IH [OF n(3)] show ?thesis by (cases e) auto
  qed
qed

lemma identities_get:
  assumes "occurrence_identities_unchanged sh before p" and "shares (sh_occurrences sh) (pt_occurrences before) (pt_occurrences p)"
    and "bt_get (pt_occurrences p) k = Some oc"
  shows "\<exists>old. bt_get (pt_occurrences before) k = Some old \<and> oc_definition old = oc_definition oc \<and> oc_parent old = oc_parent oc"
proof -
  from assms(1,3) zip_get [of "pt_occurrences before" "pt_occurrences p" k oc]
  obtain old where old: "bt_get (pt_occurrences before) k = Some old"
    "((k, old), (k, oc)) \<in> set (zip (pt_occurrences before) (pt_occurrences p))"
    by (auto simp: occurrence_identities_unchanged_def same_keys_def bt_keys_def bt_get_def)
  with assms(1) have "sh_occurrences sh k \<or> oc_definition old = oc_definition oc \<and> oc_parent old = oc_parent oc"
    by (fastforce simp: occurrence_identities_unchanged_def list_all_iff)
  with old(1) assms(2,3) show ?thesis by (auto simp: shares_def)
qed

text \<open>The product before and the one a batch made of it.\<close>

definition edit_of :: "sharing \<Rightarrow> 'r parts \<Rightarrow> 'r parts \<Rightarrow> bool" where
  "edit_of sh before p \<longleftrightarrow> keyed before \<and> keyed p \<and> sharing_sound sh before p"

abbreviation changed_by :: "sharing \<Rightarrow> 'r parts \<Rightarrow> 'r parts \<Rightarrow> product_change" where
  "changed_by sh before p \<equiv> product_change_between sh (Some before) p"

lemma edit_of_eq:
  assumes "edit_of sh before p"
  shows "same_entries (sh_tags sh) (pt_tags before) (pt_tags p) \<Longrightarrow> pt_tags p = pt_tags before"
    "same_entries (sh_collections sh) (pt_collections before) (pt_collections p) \<Longrightarrow> pt_collections p = pt_collections before"
    "same_entries (sh_definitions sh) (pt_definitions before) (pt_definitions p) \<Longrightarrow> pt_definitions p = pt_definitions before"
    "same_entries (sh_groups sh) (pt_groups before) (pt_groups p) \<Longrightarrow> pt_groups p = pt_groups before"
    "same_entries (sh_local_groups sh) (pt_local_groups before) (pt_local_groups p) \<Longrightarrow>
       pt_local_groups p = pt_local_groups before"
    "same_entries (sh_local_occurrences sh) (pt_local_occurrences before) (pt_local_occurrences p) \<Longrightarrow>
       pt_local_occurrences p = pt_local_occurrences before"
    "same_entries (sh_clearances sh) (pt_clearances before) (pt_clearances p) \<Longrightarrow> pt_clearances p = pt_clearances before"
  using assms unfolding edit_of_def sharing_sound_def
  by (auto dest!: same_entries_eq simp: keyed_wf)

lemma edit_of_occurrences:
  "edit_of sh before p \<Longrightarrow> shares (sh_occurrences sh) (pt_occurrences before) (pt_occurrences p)"
  by (simp add: edit_of_def sharing_sound_def)

lemma unchanged_definitions:
  assumes "edit_of sh before p" and "\<not> ch_definitions (changed_by sh before p)"
  shows "pt_document p = pt_document before" "pt_definitions p = pt_definitions before"
    "pt_local_groups p = pt_local_groups before" "pt_local_occurrences p = pt_local_occurrences before"
    "pt_tags p = pt_tags before"
proof -
  from assms(2) have u: "definition_inputs_unchanged sh before p"
    by (simp add: product_change_between_def Let_def)
  note e = u [unfolded definition_inputs_unchanged_def] edit_of_eq [OF assms(1)]
  show "pt_document p = pt_document before" using e(1) by simp
  show "pt_definitions p = pt_definitions before" using e(1) by (intro e(4)) simp
  show "pt_local_groups p = pt_local_groups before" using e(1) by (intro e(6)) simp
  show "pt_local_occurrences p = pt_local_occurrences before" using e(1) by (intro e(7)) simp
  show "pt_tags p = pt_tags before" using e(1) by (intro e(2)) simp
qed

lemma unchanged_groups:
  "edit_of sh before p \<Longrightarrow> \<not> ch_groups (changed_by sh before p) \<Longrightarrow> pt_groups p = pt_groups before"
  by (rule edit_of_eq(4)) (simp_all add: product_change_between_def Let_def)

lemma unchanged_structure:
  assumes "\<not> ch_structure (changed_by sh before p)"
  shows "\<not> ch_definitions (changed_by sh before p)" "\<not> ch_groups (changed_by sh before p)"
    "occurrence_identities_unchanged sh before p"
  using assms by (simp_all add: product_change_between_def Let_def)

lemma unchanged_occurrence_keys:
  assumes "\<not> ch_structure (changed_by sh before p)"
  shows "bt_contains (pt_occurrences p) k \<longleftrightarrow> bt_contains (pt_occurrences before) k"
proof -
  from unchanged_structure(3) [OF assms] have "same_keys (pt_occurrences before) (pt_occurrences p)"
    by (simp add: occurrence_identities_unchanged_def)
  from same_keys_contains [OF this] show ?thesis by simp
qed

lemma resolve_steps_cong:
  assumes "pt_local_groups p = pt_local_groups before" and "pt_local_occurrences p = pt_local_occurrences before"
  shows "resolve_steps p did parent steps = resolve_steps before did parent steps"
  using assms by (induction before did parent steps rule: resolve_steps.induct) (auto split: option.splits)

lemma occurrence_identity:
  assumes "edit_of sh before p" and "\<not> ch_structure (changed_by sh before p)"
  shows "(bt_get (pt_occurrences p) k = None \<and> bt_get (pt_occurrences before) k = None) \<or>
    (\<exists>oc old. bt_get (pt_occurrences p) k = Some oc \<and> bt_get (pt_occurrences before) k = Some old \<and>
       oc_definition old = oc_definition oc \<and> oc_parent old = oc_parent oc)"
proof (cases "bt_get (pt_occurrences p) k")
  case None
  with unchanged_occurrence_keys [OF assms(2), of k] show ?thesis by (simp add: bt_contains_def)
next
  case (Some oc)
  with identities_get [OF unchanged_structure(3) [OF assms(2)] edit_of_occurrences [OF assms(1)] Some]
  show ?thesis by auto
qed

lemma unchanged_paths:
  assumes "edit_of sh before p" and "\<not> ch_structure (changed_by sh before p)"
  shows "resolve_product_instance_path p path = resolve_product_instance_path before path"
proof -
  have "resolve_steps p did parent steps = resolve_steps before did parent steps" for did parent steps
    using unchanged_definitions [OF assms(1) unchanged_structure(1) [OF assms(2)]] by (intro resolve_steps_cong) auto
  with occurrence_identity [OF assms, of "fst path"] show ?thesis
    by (auto simp: resolve_product_instance_path_def)
qed

lemma nth_beyond: "length xs = length ys \<Longrightarrow> \<not> i < length xs \<Longrightarrow> xs ! i = ys ! i"
proof (induction xs ys arbitrary: i rule: list_induct2)
  case (Cons x xs y ys)
  then obtain j where "i = Suc j" by (cases i) auto
  with Cons show ?case by auto
qed simp

lemma equal_transforms_valid:
  assumes "list_all2 f64_eq t u"
  shows "transform_is_valid t = transform_is_valid u"
proof -
  have one: "x = f64_one \<longleftrightarrow> y = f64_one" and zero: "f64_is_zero x = f64_is_zero y" and finite: "f64_is_finite x = f64_is_finite y"
    if "f64_eq x y" for x y
    using that by (auto simp: f64_eq_def f64_is_zero_def f64_zero_def f64_one_def f64_is_finite_def f64_exponent_def)
  have nth: "f64_eq (t ! i) (u ! i) \<or> t ! i = u ! i" for i
    using assms nth_beyond [of t u i] by (cases "i < length t") (auto simp: list_all2_conv_all_nth)
  have "list_all f64_is_finite t = list_all f64_is_finite u"
    using assms by (induction rule: list_all2_induct) (auto simp: finite)
  with nth [of 12] nth [of 13] nth [of 14] nth [of 15] show ?thesis
    unfolding transform_is_valid_def by (metis one zero)
qed

lemma unchanged_placements:
  assumes e: "edit_of sh before p" and same: "\<not> ch_structure (changed_by sh before p)" "same_placements before p"
  shows "(\<forall>entry\<in>set (pt_placements p). placement_is_valid p entry) \<longleftrightarrow>
    (\<forall>entry\<in>set (pt_placements before). placement_is_valid before entry)"
proof -
  have each: "placement_is_valid before x = placement_is_valid p y"
    if "(\<lambda>(path, t) (path', t'). path = path' \<and> list_all2 f64_eq t t') x y" for x y
    using that equal_transforms_valid unchanged_paths [OF e same(1)]
    by (auto simp: placement_is_valid_def split: prod.splits)
  have "list_all (placement_is_valid before) ms = list_all (placement_is_valid p) ns"
    if "list_all2 (\<lambda>(path, t) (path', t'). path = path' \<and> list_all2 f64_eq t t') ms ns" for ms ns
    using that by (induction rule: list_all2_induct) (use each in \<open>auto simp del: split_paired_All\<close>)
  from this [OF same(2) [unfolded same_placements_def]] show ?thesis by (simp add: list_all_iff)
qed

text \<open>What each part of \<open>hierarchy_ok\<close> reads.\<close>

lemma definitions_ok_cong:
  assumes "pt_definitions p = pt_definitions q" and "pt_local_groups p = pt_local_groups q"
    and "pt_local_occurrences p = pt_local_occurrences q"
  shows "definitions_ok p = definitions_ok q"
  using assms by (simp add: definitions_ok_def definition_ok_def [abs_def])

lemma groups_ok_cong: "pt_groups p = pt_groups q \<Longrightarrow> groups_ok p = groups_ok q"
  by (simp add: groups_ok_def group_ok_def [abs_def] group_parents_def)

lemma locals_ok_cong:
  assumes "pt_definitions p = pt_definitions q" and "pt_local_groups p = pt_local_groups q"
    and "pt_local_occurrences p = pt_local_occurrences q" and "pt_tags p = pt_tags q"
  shows "locals_ok p = locals_ok q"
proof -
  have parents: "local_parent_exists p = local_parent_exists q"
    by (intro ext) (simp add: local_parent_exists_def assms split: option.split)
  have listed: "listed_locally p = listed_locally q"
    by (intro ext) (simp add: listed_locally_def assms)
  from parents listed assms show ?thesis
    by (simp add: locals_ok_def local_group_ok_def [abs_def] local_occurrence_ok_def [abs_def]
        local_parents_def tags_exist_def holds_def)
qed

lemma occurrence_ok_cong:
  assumes "same_keys (pt_definitions before) (pt_definitions p)" and "same_keys (pt_groups before) (pt_groups p)"
    and "same_keys (pt_tags before) (pt_tags p)"
  shows "occurrence_ok p k oc = occurrence_ok before k oc"
  using assms by (simp add: occurrence_ok_def tags_exist_def same_keys_contains)

lemma occurrences_checked:
  assumes "edit_of sh before p" and "occurrences_ok before"
    and "\<forall>oc\<in>set (occurrences_to_check sh (Some before) p). validate_occurrence p oc = Inr ()"
  shows "occurrences_ok p"
  unfolding occurrences_ok_def
proof (rule everyI)
  fix k oc
  assume get: "bt_get (pt_occurrences p) k = Some oc"
  have wf: "bt_wf (pt_occurrences p)" and oid: "oc_id oc = k"
    using assms(1) get by (auto simp: edit_of_def keyed_wf keyed_id)
  have mem: "(k, oc) \<in> set (pt_occurrences p)" using get bt.get_Some_iff [OF wf] by blast
  show "occurrence_ok p k oc"
  proof (cases "oc \<in> set (occurrences_to_check sh (Some before) p)")
    case True
    with assms(3) validate_occurrence_ok [OF oid] show ?thesis by blast
  next
    case False
    with mem have keys: "same_keys (pt_definitions before) (pt_definitions p)"
      "same_keys (pt_groups before) (pt_groups p)" "same_keys (pt_tags before) (pt_tags p)"
      and kept: "bt_contains (pt_occurrences before) k" "sh_occurrences sh k"
      by (force simp: occurrences_to_check_def bt_values_def split: if_splits)+
    from kept edit_of_occurrences [OF assms(1)] get have "bt_get (pt_occurrences before) k = Some oc"
      by (auto simp: bt_contains_def shares_def)
    with assms(2) show ?thesis
      unfolding occurrence_ok_cong [OF keys] occurrences_ok_def by (rule everyD)
  qed
qed

lemma recheck_None [simp]: "recheck None changed kept"
  by (simp add: recheck_def)

lemma recheck_Some: "recheck (Some before) changed kept \<longleftrightarrow> changed \<or> \<not> kept before"
  by (simp add: recheck_def)

lemma try_each_pair: "try_each f xs = Inr u \<longleftrightarrow> (\<forall>x\<in>set xs. f x = Inr ())"
  by (rule try_each_Inr)

lemma validate_grounded_ok:
  "validate_grounded p = Inr u \<longleftrightarrow> (\<forall>i\<in>set (pt_grounded p). bt_contains (pt_occurrences p) i)"
  using find_None_all [of "\<lambda>i. \<not> bt_contains (pt_occurrences p) i" "pt_grounded p"]
  by (auto simp: validate_grounded_def split: option.splits)

lemma validate_grounded_instances_ok:
  "validate_grounded_instances p paths = Inr u \<longleftrightarrow> (\<forall>path\<in>set paths. resolve_product_instance_path p path \<noteq> None)"
  using find_None_all [of "\<lambda>path. resolve_product_instance_path p path = None" paths]
  by (auto simp: validate_grounded_instances_def split: option.splits)

lemma validate_placements_ok:
  "validate_placements p = Inr u \<longleftrightarrow> (\<forall>e\<in>set (pt_placements p). placement_is_valid p e)"
  by (simp add: validate_placements_def result_simps list_all_iff)

lemma entries_checked:
  assumes e: "edit_of sh before p" and ok: "entries_ok before" and doc: "pt_document p \<noteq> 0"
    and v: "validate_document_entries ck sh (Some before) (changed_by sh before p) p = Inr u"
  shows "entries_ok p"
proof -
  let ?ch = "changed_by sh before p"
  have keyed: "keyed p" using e by (simp add: edit_of_def)
  note v' = v [unfolded validate_document_entries_def Let_def and_then_eq_Inr recheck_Some]
  have tags: "every (pt_tags p) tag_ok"
  proof (cases "ch_structure ?ch")
    case True
    with v' have "validate_tags p = Inr ()" by auto
    with validate_tags_ok [OF keyed] show ?thesis by blast
  next
    case False
    with ok unchanged_definitions(5) [OF e unchanged_structure(1)] show ?thesis by (simp add: entries_ok_def)
  qed
  have collections: "every (pt_collections p) (collection_ok p)"
  proof (cases "ch_structure ?ch \<or> \<not> same_entries (sh_collections sh) (pt_collections before) (pt_collections p)")
    case True
    with v' have "try_each (validate_collection p) (pt_collections p) = Inr ()" by (auto split: if_splits)
    with validate_collections_ok [OF keyed] show ?thesis by blast
  next
    case False
    with ok edit_of_eq(2) [OF e] show ?thesis
      by (auto simp: entries_ok_def every_def collection_ok_def unchanged_occurrence_keys)
  qed
  have grounded: "\<forall>i\<in>set (pt_grounded p). bt_contains (pt_occurrences p) i"
  proof (cases "ch_structure ?ch \<or> pt_grounded before \<noteq> pt_grounded p")
    case True
    with v' have "validate_grounded p = Inr ()" by (auto split: if_splits)
    then show ?thesis by (simp add: validate_grounded_ok)
  next
    case False
    with ok unchanged_occurrence_keys [of sh before p] show ?thesis by (auto simp: entries_ok_def)
  qed
  have instances: "\<forall>path\<in>set (pt_grounded_instances p). resolve_product_instance_path p path \<noteq> None"
  proof (cases "ch_structure ?ch \<or> pt_grounded_instances before \<noteq> pt_grounded_instances p")
    case True
    with v' have "validate_grounded_instances p (pt_grounded_instances p) = Inr ()"
      by (auto simp: map_err_eq_Inr split: if_splits)
    then show ?thesis by (simp add: validate_grounded_instances_ok)
  next
    case False
    with ok show ?thesis by (simp add: entries_ok_def unchanged_paths [OF e])
  qed
  have placements: "\<forall>entry\<in>set (pt_placements p). placement_is_valid p entry"
  proof (cases "ch_structure ?ch \<or> \<not> same_placements before p")
    case True
    with v' have "validate_placements p = Inr ()" by (auto split: if_splits)
    then show ?thesis by (simp add: validate_placements_ok)
  next
    case False
    with ok show ?thesis by (simp add: entries_ok_def unchanged_placements [OF e])
  qed
  from tags collections grounded instances placements doc show ?thesis by (simp add: entries_ok_def)
qed

lemma validate_definitions_local:
  assumes "keyed p" and "validate_definitions ck p = Inr u"
  shows "definitions_ok p"
  using assms(2) validate_definition_local [OF _ keyed_id(2) [OF assms(1)]]
  unfolding validate_definitions_def definitions_ok_def try_each_values [OF keyed_wf(5) [OF assms(1)]]
  by (fastforce simp: every_def)

lemma validate_local_structure_local:
  assumes "keyed p" and "validate_local_structure ck p = Inr u"
  shows "locals_ok p"
  using assms(2) ownership_acyclic [of p]
  unfolding validate_local_structure_def and_then_eq_Inr locals_ok_def
    try_each_entries [OF keyed_wf(8) [OF assms(1)]] try_each_entries [OF keyed_wf(9) [OF assms(1)]]
  by (auto simp: every_def validate_local_group_ok validate_local_occurrence_ok)

text \<open>The checks that run and the checks that are skipped establish the whole hierarchy.\<close>

lemma incremental_check_sound:
  assumes e: "edit_of sh before p" and ok: "hierarchy_ok before"
    and v: "validate_product_change ck sh (Some before) p = Inr u"
  shows "hierarchy_ok p"
proof -
  let ?ch = "changed_by sh before p"
  have keyed: "keyed p" using e by (simp add: edit_of_def)
  from v have doc: "pt_document p \<noteq> 0"
    and entries: "validate_document_entries ck sh (Some before) ?ch p = Inr ()"
    and defs: "ch_definitions ?ch \<Longrightarrow> validate_definitions ck p = Inr ()"
    and occs: "\<forall>oc\<in>set (occurrences_to_check sh (Some before) p). validate_occurrence p oc = Inr ()"
    and groups: "ch_groups ?ch \<Longrightarrow> validate_groups p = Inr ()"
    and locals: "ch_definitions ?ch \<Longrightarrow> validate_local_structure ck p = Inr ()"
    by (auto simp: validate_product_change_def Let_def check_simps try_each_Inr)
  note ok' = ok [unfolded hierarchy_ok_def]
  have "definitions_ok p \<and> locals_ok p"
  proof (cases "ch_definitions ?ch")
    case True
    with defs locals validate_definitions_local [OF keyed] validate_local_structure_local [OF keyed] show ?thesis by blast
  next
    case False
    note same = unchanged_definitions [OF e False]
    show ?thesis
      using ok' definitions_ok_cong [OF same(2-4)] locals_ok_cong [OF same(2-5)] by simp
  qed
  moreover have "groups_ok p"
  proof (cases "ch_groups ?ch")
    case True
    with groups validate_groups_ok [OF keyed] show ?thesis by blast
  next
    case False
    with ok' groups_ok_cong [OF unchanged_groups [OF e]] show ?thesis by simp
  qed
  ultimately show ?thesis
    using ok' entries_checked [OF e _ doc entries] occurrences_checked [OF e _ occs] by (simp add: hierarchy_ok_def)
qed


subsection \<open>A skipped check would have passed\<close>

text \<open>
  What the comments of \<^verbatim>\<open>ProductChange\<close> say of the checks of the rest: each reads its own entries
  and, of the parts, what its trigger names.
\<close>

definition rest_respects :: "'r rest_checks \<Rightarrow> sharing \<Rightarrow> 'r parts \<Rightarrow> 'r parts \<Rightarrow> bool" where
  "rest_respects ck sh before p \<longleftrightarrow>
     (let change = changed_by sh before p in
     (\<forall>c\<in>set (ck_codes ck @ ck_threads ck @ ck_relations ck @ ck_spaces ck @ ck_dimensions ck @ ck_views ck).
        sh_rest sh (rc_name c) \<longrightarrow> \<not> (if rc_placed c then ch_placement change else ch_structure change) \<longrightarrow>
        rc_run c p = rc_run c before) \<and>
     (\<not> ch_definitions change \<longrightarrow>
        ck_graph ck p = ck_graph ck before \<and> ck_features ck p = ck_features ck before \<and>
        ck_suppression ck p = ck_suppression ck before \<and> ck_bodies ck p = ck_bodies ck before) \<and>
     (\<not> ch_structure change \<longrightarrow> ck_receipts ck p = ck_receipts ck before) \<and>
     (sh_rest sh ''spaces'' \<longrightarrow> ck_has_space ck (pt_rest p) = ck_has_space ck (pt_rest before)))"

lemma rest_check_again:
  assumes "sh_rest sh (rc_name c) \<Longrightarrow> \<not> (if rc_placed c then ch_placement change else ch_structure change) \<Longrightarrow>
      rc_run c p = rc_run c before"
    and "rc_run c before = Inr ()"
  shows "run_rest_check sh (Some before) change p c = rc_run c p"
  using assms by (auto simp: run_rest_check_def recheck_Some)

lemma try_each_cong: "(\<And>x. x \<in> set xs \<Longrightarrow> f x = g x) \<Longrightarrow> try_each f xs = try_each g xs"
  by (induction xs) (auto intro!: and_then_cong)

lemma rest_checks_again:
  assumes "\<forall>c\<in>set cs. sh_rest sh (rc_name c) \<longrightarrow>
      \<not> (if rc_placed c then ch_placement change else ch_structure change) \<longrightarrow> rc_run c p = rc_run c before"
    and "try_each (\<lambda>c. rc_run c before) cs = Inr ()"
  shows "try_each (run_rest_check sh (Some before) change p) cs = try_each (\<lambda>c. rc_run c p) cs"
  using assms by (intro try_each_cong rest_check_again) (auto simp: try_each_Inr)

lemma run_rest_check_full: "run_rest_check sh None change p = (\<lambda>c. rc_run c p)"
  by (rule ext) (simp add: run_rest_check_def)

lemma resolve_from_None_cong:
  assumes "pt_local_groups p = pt_local_groups q" and "pt_local_occurrences p = pt_local_occurrences q"
  shows "ri_definition at = ri_definition at' \<Longrightarrow>
    resolve_from p root passed parent at steps = None \<longleftrightarrow> resolve_from q root passed' parent at' steps = None"
  using assms
proof (induction steps arbitrary: passed passed' parent at at')
  case Nil
  then show ?case by simp
next
  case (Cons s steps)
  then show ?case by (cases s) (auto simp: Let_def split: option.splits)
qed

text \<open>A path leads to a part in both products, or both refuse it the same way.\<close>

lemma resolve_instance_path_kept:
  assumes e: "edit_of sh before p" and s: "\<not> ch_structure (changed_by sh before p)"
  shows "(\<exists>r r'. resolve_instance_path p path = Inr r \<and> resolve_instance_path before path = Inr r') \<or>
    (\<exists>stop. resolve_instance_path p path = Inl stop \<and> resolve_instance_path before path = Inl stop)"
proof -
  have parent: "parent_transform p parent = parent_transform before parent" for parent
    using unchanged_groups [OF e unchanged_structure(2) [OF s]]
    by (simp add: parent_transform_def world_transform_for_group_def split: option.split)
  note same = unchanged_definitions(3,4) [OF e unchanged_structure(1) [OF s]]
  have steps: "resolve_from p root passed up at steps = None \<longleftrightarrow> resolve_from before root passed up at' steps = None"
    if "ri_definition at = ri_definition at'" for root passed up at at' steps
    using that same by (intro resolve_from_None_cong) auto
  from occurrence_identity [OF e s, of "fst path"] show ?thesis
  proof (elim disjE exE conjE)
    fix oc old
    assume oc: "bt_get (pt_occurrences p) (fst path) = Some oc" "bt_get (pt_occurrences before) (fst path) = Some old"
      "oc_definition old = oc_definition oc" "oc_parent old = oc_parent oc"
    show ?thesis
    proof (cases "parent_transform before (oc_parent oc)")
      case (Inl stop)
      with oc parent show ?thesis by (simp add: resolve_instance_path_def)
    next
      case (Inr world)
      show ?thesis
      proof (cases world)
        case None
        with Inr oc parent show ?thesis by (simp add: resolve_instance_path_def)
      next
        case (Some w)
        let ?at = "\<lambda>oc. \<lparr>ri_definition = oc_definition oc, ri_local = oc_transform oc, ri_parent_world = w,
          ri_world = transform_compose w (oc_transform oc)\<rparr>"
        have "resolve_from p (fst path) [] None (?at oc) (snd path) = None \<longleftrightarrow>
          resolve_from before (fst path) [] None (?at old) (snd path) = None"
          by (rule steps) (simp add: oc)
        with Some Inr oc parent show ?thesis
          by (cases "resolve_from p (fst path) [] None (?at oc) (snd path)";
              cases "resolve_from before (fst path) [] None (?at old) (snd path)")
            (simp_all add: resolve_instance_path_def)
      qed
    qed
  qed (simp add: resolve_instance_path_def)
qed

lemma validate_clearance_kept:
  assumes e: "edit_of sh before p" and s: "\<not> ch_structure (changed_by sh before p)"
    and "ck_has_space ck (pt_rest p) = ck_has_space ck (pt_rest before)"
  shows "validate_clearance ck p x = validate_clearance ck before x"
proof -
  have "(case resolve_instance_path p path of Inl (Refused _) \<Rightarrow> a | Inl stop \<Rightarrow> Inl stop | Inr _ \<Rightarrow> b) =
    (case resolve_instance_path before path of Inl (Refused _) \<Rightarrow> a | Inl stop \<Rightarrow> Inl stop | Inr _ \<Rightarrow> b)"
    for path and a b :: "parts_stop + unit"
    using resolve_instance_path_kept [OF e s, of path] by auto
  with assms(3) show ?thesis
    by (cases x) (simp add: validate_clearance_def split: clearance_owner.split)
qed

lemma try_each_skip: "(\<And>x. x \<in> set xs \<Longrightarrow> \<not> P x \<Longrightarrow> f x = Inr ()) \<Longrightarrow> try_each f (filter P xs) = try_each f xs"
  by (induction xs) (auto intro!: and_then_cong)

lemma try_each_map: "try_each f (map g xs) = try_each (\<lambda>x. f (g x)) xs"
  by (induction xs) (auto intro!: and_then_cong)

lemma occurrences_again:
  assumes e: "edit_of sh before p" and ok: "occurrences_ok before"
  shows "try_each (validate_occurrence p) (occurrences_to_check sh (Some before) p) =
    try_each (validate_occurrence p) (bt_values (pt_occurrences p))"
proof (cases "same_keys (pt_definitions before) (pt_definitions p) \<and> same_keys (pt_groups before) (pt_groups p) \<and>
    same_keys (pt_tags before) (pt_tags p)")
  case True
  have wf: "bt_wf (pt_occurrences p)" "bt_wf (pt_occurrences before)" and keyed: "keyed p"
    using e by (simp_all add: edit_of_def keyed_wf)
  have "validate_occurrence p (snd x) = Inr ()"
    if "x \<in> set (pt_occurrences p)" "bt_contains (pt_occurrences before) (fst x) \<and> sh_occurrences sh (fst x)" for x
  proof -
    obtain k oc where x: "x = (k, oc)" by (cases x)
    have get: "bt_get (pt_occurrences p) k = Some oc" using that(1) x bt.get_Some_iff [OF wf(1)] by simp
    then have "bt_get (pt_occurrences before) k = Some oc"
      using that(2) x edit_of_occurrences [OF e] by (auto simp: bt_contains_def shares_def)
    with ok have "occurrence_ok before k oc" by (simp add: occurrences_ok_def every_def)
    then have "occurrence_ok p k oc" using True by (subst occurrence_ok_cong [of before]) simp_all
    then show ?thesis unfolding x snd_conv by (rule validate_occurrence_ok [OF keyed_id(3) [OF keyed get], THEN iffD2])
  qed
  with True show ?thesis
    by (simp add: occurrences_to_check_def bt_values_def try_each_map)
       (rule try_each_skip, auto)
next
  case False
  then show ?thesis by (auto simp: occurrences_to_check_def)
qed

definition full_change :: product_change where
  "full_change = \<lparr>ch_definitions = True, ch_groups = True, ch_structure = True, ch_placement = True\<rparr>"

lemma change_None: "product_change_between sh None p = full_change"
  by (simp add: product_change_between_def full_change_def)

lemma skip_ok: "(\<not> c \<Longrightarrow> x = Inr ()) \<Longrightarrow> (if c then x else Inr ()) = x"
  by simp

lemma entries_again:
  assumes e: "edit_of sh before p" and rest: "rest_respects ck sh before p"
    and full: "validate_document_entries ck sh None full_change before = Inr ()"
  shows "validate_document_entries ck sh (Some before) (changed_by sh before p) p =
    validate_document_entries ck sh None full_change p"
proof -
  let ?ch = "changed_by sh before p"
  note r = rest [unfolded rest_respects_def Let_def]
  from full have b: "try_each (\<lambda>c. rc_run c before) (ck_codes ck) = Inr ()" "validate_placements before = Inr ()"
    "validate_grounded_instances before (pt_grounded_instances before) = Inr ()"
    "try_each (\<lambda>c. rc_run c before) (ck_threads ck) = Inr ()" "validate_grounded before = Inr ()"
    "try_each (\<lambda>c. rc_run c before) (ck_relations ck) = Inr ()" "ck_graph ck before = Inr ()"
    "try_each (\<lambda>c. rc_run c before) (ck_spaces ck) = Inr ()"
    "try_each (validate_clearance ck before) (pt_clearances before) = Inr ()"
    "try_each (\<lambda>c. rc_run c before) (ck_dimensions ck) = Inr ()" "validate_tags before = Inr ()"
    "try_each (\<lambda>c. rc_run c before) (ck_views ck) = Inr ()"
    "try_each (validate_collection before) (pt_collections before) = Inr ()" "ck_receipts ck before = Inr ()"
    by (simp_all add: validate_document_entries_def Let_def result_simps full_change_def run_rest_check_full)
  have runs: "try_each (run_rest_check sh (Some before) ?ch p) cs = try_each (\<lambda>c. rc_run c p) cs"
    if "set cs \<subseteq> set (ck_codes ck @ ck_threads ck @ ck_relations ck @ ck_spaces ck @ ck_dimensions ck @ ck_views ck)"
      "try_each (\<lambda>c. rc_run c before) cs = Inr ()" for cs
    by (rule rest_checks_again [OF _ that(2)]) (use r that(1) in blast)
  note all_runs = runs [OF _ b(1)] runs [OF _ b(4)] runs [OF _ b(6)] runs [OF _ b(8)] runs [OF _ b(10)] runs [OF _ b(12)]
  have placements: "(if recheck (Some before) (ch_structure ?ch) (\<lambda>before. same_placements before p)
      then validate_placements p else Ok ()) = validate_placements p"
    using b(2) unchanged_placements [OF e] by (intro skip_ok) (auto simp: recheck_Some validate_placements_ok)
  have instances: "(if recheck (Some before) (ch_structure ?ch) (\<lambda>before. pt_grounded_instances before = pt_grounded_instances p)
      then map_err Refused (validate_grounded_instances p (pt_grounded_instances p)) else Ok ()) =
      map_err Refused (validate_grounded_instances p (pt_grounded_instances p))"
    using b(3) unchanged_paths [OF e]  by (intro skip_ok) (auto simp: recheck_Some validate_grounded_instances_ok map_err_eq_Inr)
  have grounded: "(if recheck (Some before) (ch_structure ?ch) (\<lambda>before. pt_grounded before = pt_grounded p)
      then validate_grounded p else Ok ()) = validate_grounded p"
    using b(5) unchanged_occurrence_keys [of sh before p]  by (intro skip_ok) (auto simp: recheck_Some validate_grounded_ok)
  have graph: "(if ch_definitions ?ch then ck_graph ck p else Ok ()) = ck_graph ck p"
    using b(7) r by (intro skip_ok) auto
  have clearances: "(if recheck (Some before) (ch_structure ?ch) (\<lambda>before. sh_rest sh ''spaces'' \<and>
      same_entries (sh_clearances sh) (pt_clearances before) (pt_clearances p))
      then try_each (validate_clearance ck p) (pt_clearances p) else Ok ()) = try_each (validate_clearance ck p) (pt_clearances p)"
    using b(9) validate_clearance_kept [OF e, of ck] r edit_of_eq(7) [OF e]  by (intro skip_ok) (auto simp: recheck_Some try_each_Inr)
  have tags: "(if ch_structure ?ch then validate_tags p else Ok ()) = validate_tags p"
    using b(11) unchanged_definitions(5) [OF e unchanged_structure(1)] by (intro skip_ok) (auto simp: validate_tags_def)
  have collections: "(if recheck (Some before) (ch_structure ?ch)
      (\<lambda>before. same_entries (sh_collections sh) (pt_collections before) (pt_collections p))
      then try_each (validate_collection p) (pt_collections p) else Ok ()) = try_each (validate_collection p) (pt_collections p)"
    using b(13) edit_of_eq(2) [OF e] unchanged_occurrence_keys [of sh before p] by (intro skip_ok) (auto simp: recheck_Some try_each_Inr validate_collection_def)
  have receipts: "(if ch_structure ?ch then ck_receipts ck p else Ok ()) = ck_receipts ck p"
    using b(14) r by (intro skip_ok) auto
  show ?thesis
    unfolding validate_document_entries_def Let_def placements instances grounded graph clearances tags collections receipts
    by (simp add: all_runs subset_iff run_rest_check_full full_change_def)
qed


lemma full_check:
  "validate_product ck sh p =
     and_then (map_err Refused (ensure_product_id (pt_document p))) (\<lambda>_.
     and_then (validate_document_entries ck sh None full_change p) (\<lambda>_.
     and_then (and_then (validate_definitions ck p) (\<lambda>_. ck_features ck p)) (\<lambda>_.
     and_then (try_each (validate_occurrence p) (bt_values (pt_occurrences p))) (\<lambda>_.
     and_then (validate_groups p) (\<lambda>_. validate_local_structure ck p)))))"
  by (simp add: validate_product_def validate_product_change_def change_None full_change_def occurrences_to_check_def)

lemma occurrences_full:
  "keyed p \<Longrightarrow> try_each (validate_occurrence p) (bt_values (pt_occurrences p)) = Inr u \<longleftrightarrow> occurrences_ok p"
  unfolding occurrences_ok_def try_each_values [OF keyed_wf(6)]
  by (rule every_cong) (simp add: validate_occurrence_ok keyed_id)

lemma visit_cong:
  shows "pt_definitions p = pt_definitions q \<Longrightarrow> pt_local_occurrences p = pt_local_occurrences q \<Longrightarrow>
      visit_definition p visiting visited did = visit_definition q visiting visited did"
    and "pt_definitions p = pt_definitions q \<Longrightarrow> pt_local_occurrences p = pt_local_occurrences q \<Longrightarrow>
      visit_members p visiting visited did ls = visit_members q visiting visited did ls"
proof (induction p visiting visited did and p visiting visited did ls rule: visit_definition_visit_members.induct)
  case (1 p visiting visited did)
  show ?case
    by (subst (1 2) visit_definition.simps)
       (use 1 in \<open>auto simp del: visit_definition.simps split: option.split intro!: and_then_weak_cong\<close>)
next
  case (3 p visiting visited did l ls)
  then show ?case
    by (auto simp del: visit_definition.simps intro!: and_then_cong)
qed simp

lemma local_structure_again:
  assumes e: "edit_of sh before p" and rest: "rest_respects ck sh before p" and c: "\<not> ch_definitions (changed_by sh before p)"
  shows "validate_definitions ck p = validate_definitions ck before" and "ck_features ck p = ck_features ck before"
    and "validate_local_structure ck p = validate_local_structure ck before"
proof -
  note same = unchanged_definitions [OF e c]
  have ck: "ck_suppression ck p = ck_suppression ck before" "ck_bodies ck p = ck_bodies ck before"
    using rest c by (simp_all add: rest_respects_def Let_def)
  show "ck_features ck p = ck_features ck before" using rest c by (simp add: rest_respects_def Let_def)
  have definition_same: "validate_definition ck p = validate_definition ck before"
    by (intro ext) (simp add: validate_definition_def same ck)
  then show "validate_definitions ck p = validate_definitions ck before"
    by (simp add: validate_definitions_def same)
  have parents: "local_parent_exists p = local_parent_exists before"
    by (intro ext) (simp add: local_parent_exists_def same split: option.split)
  have listed: "listed_locally p = listed_locally before"
    by (intro ext) (simp add: listed_locally_def same)
  note visits = visit_cong [OF same(2,4)]
  have "validate_local_group p = validate_local_group before"
    by (intro ext) (simp add: validate_local_group_def parents listed local_parents_def same split: prod.split)
  moreover have "validate_local_occurrence p = validate_local_occurrence before"
    by (intro ext) (simp add: validate_local_occurrence_def parents listed ensure_tags_exist_def same split: prod.split)
  moreover have "validate_definition_ownership_graph p = validate_definition_ownership_graph before"
    by (simp add: validate_definition_ownership_graph_def same visits del: visit_definition.simps)
  ultimately show "validate_local_structure ck p = validate_local_structure ck before"
    by (simp add: validate_local_structure_def same ck)
qed

lemma groups_again: "edit_of sh before p \<Longrightarrow> \<not> ch_groups (changed_by sh before p) \<Longrightarrow> validate_groups p = validate_groups before"
proof -
  assume e: "edit_of sh before p" "\<not> ch_groups (changed_by sh before p)"
  note same = unchanged_groups [OF e]
  have "validate_group p = validate_group before"
    by (intro ext) (simp add: validate_group_def group_parents_def same split: option.split)
  then show ?thesis by (simp add: validate_groups_def same)
qed




end
