(* ===== verification/Ketchup_Filing.thy ===== *)
theory Ketchup_Filing
  imports Ketchup_Assembly
begin

text \<open>
  The batch of part commands of \<^verbatim>\<open>DocumentStore::apply_batch_with_origin_and_validation\<close> and what
  every accepted batch keeps: the maps file each entry under its number, the classification
  names what exists, and the parts form a hierarchy.
\<close>

section \<open>The batch\<close>

text \<open>
  What the batch does to the rest: the coded paths that no longer name the definitions they
  named before (after each command), refreshing what follows the parts, pruning the contact
  joints and joints of parts that are gone, and the checks around the ones modelled here.
\<close>

record 'r batch_rest =
  bx_rebound :: "'r parts \<Rightarrow> 'r parts \<Rightarrow> instance_path list"
  bx_refresh :: "'r parts \<Rightarrow> part_command list \<Rightarrow> 'r parts \<Rightarrow> parts_stop + 'r"
  bx_prune :: "'r parts \<Rightarrow> parts_stop + 'r"
  bx_views :: "'r parts \<Rightarrow> parts_stop + unit"
  bx_after :: "'r parts \<Rightarrow> part_command list \<Rightarrow> 'r parts \<Rightarrow> parts_stop + unit"

definition edit_part ::
  "'r rest_model \<Rightarrow> 'r batch_rest \<Rightarrow> 'r parts \<Rightarrow> 'r parts \<times> instance_path list \<Rightarrow> part_command \<Rightarrow>
   parts_stop + 'r parts \<times> instance_path list" where
  "edit_part rm bx start st command =
     and_then (apply_part_command rm command (fst st)) (\<lambda>p.
     Ok (p, if is_view_only command then snd st else fold bs_insert (bx_rebound bx start p) (snd st)))"

definition with_rest :: "'r parts \<Rightarrow> (parts_stop + 'r) \<Rightarrow> parts_stop + 'r parts" where
  "with_rest p r = and_then r (\<lambda>rest. Ok (p \<lparr>pt_rest := rest\<rparr>))"

definition check_parts ::
  "'r batch_rest \<Rightarrow> 'r rest_checks \<Rightarrow> ('r parts \<Rightarrow> 'r parts \<Rightarrow> sharing) \<Rightarrow> 'r parts \<Rightarrow> part_command list \<Rightarrow>
   'r parts \<Rightarrow> parts_stop + unit" where
  "check_parts bx ck share current commands p =
     and_then (if list_all is_view_only commands then bx_views bx p
               else validate_product_change ck (share current p) (Some current) p) (\<lambda>_.
     bx_after bx current commands p)"

definition apply_parts_batch ::
  "'r rest_model \<Rightarrow> 'r batch_rest \<Rightarrow> 'r rest_checks \<Rightarrow> ('r parts \<Rightarrow> 'r parts \<Rightarrow> sharing) \<Rightarrow> part_command list \<Rightarrow>
   'r parts \<Rightarrow> parts_stop + 'r parts" where
  "apply_parts_batch rm bx ck share commands current =
     and_then (guard (commands \<noteq> []) (Refused EmptyPartsBatch)) (\<lambda>_.
     and_then (try_fold (edit_part rm bx current) (current, []) commands) (\<lambda>(edited, rebound).
     and_then (case rebound of [] \<Rightarrow> Ok () | path # _ \<Rightarrow> Err (Refused (InvalidProductionCodePath path))) (\<lambda>_.
     and_then (with_rest edited (bx_refresh bx current commands edited)) (\<lambda>refreshed.
     and_then (with_rest (prune_grounded_instances refreshed) (bx_prune bx (prune_grounded_instances refreshed))) (\<lambda>p.
     and_then (check_parts bx ck share current commands p) (\<lambda>_. Ok p))))))"

section \<open>What the commands keep\<close>

text \<open>Every classification is of an occurrence that exists, by a category of its dimension.\<close>

definition classified :: "'r parts \<Rightarrow> bool" where
  "classified p \<longleftrightarrow>
     (\<forall>i d c. bt_get (pt_assignments p) (i, d) = Some c \<longrightarrow>
        bt_contains (pt_occurrences p) i \<and>
        (\<exists>dim. bt_get (pt_dimensions p) d = Some dim \<and> bt_contains (cl_categories dim) c))"

definition filed :: "'r parts \<Rightarrow> bool" where
  "filed p \<longleftrightarrow> keyed p \<and> classified p"

lemma bt_contains_insert [simp]: "bt_contains (bt_insert k v m) k' \<longleftrightarrow> k' = k \<or> bt_contains m k'"
  by (simp add: bt_contains_def)

lemma bt_contains_remove [simp]: "bt_contains (bt_remove k m) k' \<longleftrightarrow> k' \<noteq> k \<and> bt_contains m k'"
  by (simp add: bt_contains_def)

lemma bt_get_contains: "bt_get m k = Some v \<Longrightarrow> bt_contains m k"
  by (simp add: bt_contains_def)

lemma filedI:
  assumes "keyed p \<Longrightarrow> keyed q" and "classified p \<Longrightarrow> classified q"
  shows "filed p \<Longrightarrow> filed q"
  using assms by (simp add: filed_def)

text \<open>Commands that touch one map only.\<close>

lemma filed_tags:
  assumes "filed p" and "bt_wf m" and "\<And>k t. bt_get m k = Some t \<Longrightarrow> tg_id t = k"
  shows "filed (p \<lparr>pt_tags := m, pt_rest := r\<rparr>)" and "filed (p \<lparr>pt_tags := m\<rparr>)"
  using assms by (simp_all add: filed_def keyed_def classified_def)

lemma filed_collections: "filed p \<Longrightarrow> bt_wf m \<Longrightarrow> filed (p \<lparr>pt_collections := m\<rparr>)"
  by (simp add: filed_def keyed_def classified_def)

lemma filed_definitions:
  assumes "filed p" and "bt_wf m" and "\<And>k t. bt_get m k = Some t \<Longrightarrow> df_id t = k"
  shows "filed (p \<lparr>pt_definitions := m\<rparr>)"
  using assms by (simp_all add: filed_def keyed_def classified_def)

lemma filed_groups:
  assumes "filed p" and "bt_wf m" and "\<And>k t. bt_get m k = Some t \<Longrightarrow> gr_id t = k"
  shows "filed (p \<lparr>pt_groups := m\<rparr>)"
  using assms by (simp_all add: filed_def keyed_def classified_def)

lemma filed_occurrences:
  assumes "filed p" and "bt_wf m" and "\<And>k t. bt_get m k = Some t \<Longrightarrow> oc_id t = k"
    and "\<And>k. bt_contains (pt_occurrences p) k \<Longrightarrow> bt_contains m k"
  shows "filed (p \<lparr>pt_occurrences := m\<rparr>)"
  using assms by (simp_all add: filed_def keyed_def classified_def)

lemma filed_rest [simp]:
  "filed (p \<lparr>pt_rest := r\<rparr>) = filed p" "filed (p \<lparr>pt_grounded := g\<rparr>) = filed p"
  "filed (p \<lparr>pt_grounded_instances := h\<rparr>) = filed p"
  by (simp_all add: filed_def keyed_def classified_def)

lemma filed_wf:
  assumes "filed p"
  shows "bt_wf (pt_tags p)" "bt_wf (pt_dimensions p)" "bt_wf (pt_assignments p)" "bt_wf (pt_collections p)"
    "bt_wf (pt_definitions p)" "bt_wf (pt_occurrences p)" "bt_wf (pt_groups p)" "bt_wf (pt_local_occurrences p)"
    "bt_wf (pt_local_groups p)" "bt_wf (pt_placements p)" "bt_wf (pt_clearances p)"
  using assms by (simp_all add: filed_def keyed_def)

lemma filed_id:
  assumes "filed p"
  shows "bt_get (pt_tags p) k = Some t \<Longrightarrow> tg_id t = k" "bt_get (pt_definitions p) k = Some df \<Longrightarrow> df_id df = k"
    "bt_get (pt_occurrences p) k = Some oc \<Longrightarrow> oc_id oc = k" "bt_get (pt_groups p) k = Some g \<Longrightarrow> gr_id g = k"
  using assms by (simp_all add: filed_def keyed_def)

lemma create_tag_filed: "create_tag i name v p = Inr q \<Longrightarrow> filed p \<Longrightarrow> filed q"
  by (auto simp: create_tag_def check_simps filed_wf filed_id intro!: filed_tags split: if_splits)

lemma delete_tag_filed: "delete_tag rm i p = Inr q \<Longrightarrow> filed p \<Longrightarrow> filed q"
  by (auto simp: delete_tag_def check_simps filed_wf filed_id intro!: filed_tags split: if_splits)

lemma edit_tag_filed: "edit_tag i f p = Inr q \<Longrightarrow> (\<And>t. tg_id (f t) = tg_id t) \<Longrightarrow> filed p \<Longrightarrow> filed q"
  by (auto simp: edit_tag_def check_simps filed_wf filed_id intro!: filed_tags split: if_splits)

lemma create_collection_filed: "create_collection i name p = Inr q \<Longrightarrow> filed p \<Longrightarrow> filed q"
  by (auto simp: create_collection_def check_simps filed_wf intro!: filed_collections)

lemma delete_collection_filed: "delete_collection i p = Inr q \<Longrightarrow> filed p \<Longrightarrow> filed q"
  by (auto simp: delete_collection_def check_simps filed_wf intro!: filed_collections)

lemma set_collection_filed: "set_collection_occurrences i ids p = Inr q \<Longrightarrow> filed p \<Longrightarrow> filed q"
  by (auto simp: set_collection_occurrences_def check_simps filed_wf intro!: filed_collections)

lemma create_definition_filed: "create_definition i name p = Inr q \<Longrightarrow> filed p \<Longrightarrow> filed q"
  by (auto simp: create_definition_def check_simps filed_wf filed_id new_definition_def intro!: filed_definitions split: if_splits)

lemma rename_definition_filed: "rename_definition i name p = Inr q \<Longrightarrow> filed p \<Longrightarrow> filed q"
  by (auto simp: rename_definition_def check_simps filed_wf filed_id intro!: filed_definitions split: if_splits)

lemma delete_definition_filed: "delete_definition rm i p = Inr q \<Longrightarrow> filed p \<Longrightarrow> filed q"
  by (auto simp: delete_definition_def check_simps filed_def keyed_def classified_def bt_wf_filter split: if_splits)

lemma create_occurrence_filed: "create_occurrence oc p = Inr q \<Longrightarrow> filed p \<Longrightarrow> filed q"
  by (auto simp: create_occurrence_def check_simps filed_wf filed_id intro!: filed_occurrences split: if_splits)

lemma edit_occurrence_filed: "edit_occurrence i f p = Inr q \<Longrightarrow> (\<And>oc. oc_id (f oc) = oc_id oc) \<Longrightarrow> filed p \<Longrightarrow> filed q"
  by (auto simp: edit_occurrence_def check_simps filed_wf filed_id intro!: filed_occurrences split: if_splits)

lemma delete_occurrence_filed:
  assumes "delete_occurrence rm i p = Inr q" and "filed p"
  shows "filed q"
proof -
  from assms(1) have q: "q = p \<lparr>pt_occurrences := bt_remove i (pt_occurrences p), pt_grounded := filter (\<lambda>k. k \<noteq> i) (pt_grounded p),
      pt_placements := filter (\<lambda>(path, _). fst path \<noteq> i) (pt_placements p),
      pt_assignments := filter (\<lambda>((k, _), _). k \<noteq> i) (pt_assignments p)\<rparr>"
    by (auto simp: delete_occurrence_def check_simps)
  show ?thesis
    using assms(2) unfolding q
    by (auto simp: filed_def keyed_def classified_def bt_wf_filter bt_get_filter split: if_splits option.splits)
qed

lemma create_group_filed: "create_group g p = Inr q \<Longrightarrow> filed p \<Longrightarrow> filed q"
  by (auto simp: create_group_def check_simps filed_wf filed_id intro!: filed_groups split: if_splits)

lemma delete_group_filed: "delete_group i p = Inr q \<Longrightarrow> filed p \<Longrightarrow> filed q"
  by (auto simp: delete_group_def check_simps filed_wf filed_id intro!: filed_groups split: if_splits)

lemma edit_group_filed: "edit_group i f p = Inr q \<Longrightarrow> (\<And>g. gr_id (f g) = gr_id g) \<Longrightarrow> filed p \<Longrightarrow> filed q"
  by (auto simp: edit_group_def check_simps filed_wf filed_id intro!: filed_groups split: if_splits)

lemma create_local_occurrence_filed: "create_local_occurrence lo p = Inr q \<Longrightarrow> filed p \<Longrightarrow> filed q"
  by (cases "lo_key lo")
     (auto simp: create_local_occurrence_def check_simps filed_def keyed_def classified_def split: if_splits)

lemma delete_local_occurrence_filed: "delete_local_occurrence k p = Inr q \<Longrightarrow> filed p \<Longrightarrow> filed q"
  by (auto simp: delete_local_occurrence_def check_simps filed_def keyed_def classified_def split: if_splits)

lemma edit_local_occurrence_filed: "edit_local_occurrence k f p = Inr q \<Longrightarrow> filed p \<Longrightarrow> filed q"
  by (auto simp: edit_local_occurrence_def check_simps filed_def keyed_def classified_def)

lemma create_local_group_filed: "create_local_group lg p = Inr q \<Longrightarrow> filed p \<Longrightarrow> filed q"
  by (cases "lg_key lg")
     (auto simp: create_local_group_def check_simps filed_def keyed_def classified_def split: if_splits)

lemma delete_local_group_filed: "delete_local_group k p = Inr q \<Longrightarrow> filed p \<Longrightarrow> filed q"
  by (auto simp: delete_local_group_def check_simps filed_def keyed_def classified_def split: if_splits)

lemma edit_local_group_filed: "edit_local_group k f p = Inr q \<Longrightarrow> filed p \<Longrightarrow> filed q"
  by (auto simp: edit_local_group_def check_simps filed_def keyed_def classified_def)

lemma set_grounded_filed:
  "set_occurrence_grounded i b p = Inr q \<Longrightarrow> filed p \<Longrightarrow> filed q"
  "set_grounded_instances paths p = Inr q \<Longrightarrow> filed p \<Longrightarrow> filed q"
  by (auto simp: set_occurrence_grounded_def set_grounded_instances_def check_simps)

lemma bt_get_entry: "bt_get m k = Some v \<Longrightarrow> (k, v) \<in> set m"
  by (simp add: bt_get_def map_of_SomeD)

lemma upsert_dimension_filed:
  assumes "upsert_dimension d name categories p = Inr q" and "filed p"
  shows "filed q"
proof -
  from assms(1) obtain canonical names where
    used: "\<not> list_ex (\<lambda>((_, dim), cat). dim = d \<and> \<not> bt_contains canonical cat) (pt_assignments p)"
    and q: "q = p \<lparr>pt_dimensions := bt_insert d \<lparr>cl_id = d, cl_name = name, cl_categories = canonical\<rparr> (pt_dimensions p)\<rparr>"
    by (auto simp: upsert_dimension_def check_simps split: prod.splits)
  have "bt_contains canonical c" if "bt_get (pt_assignments p) (i, d) = Some c" for i c
    using bt_get_entry [OF that] used by (auto simp: list_ex_iff)
  with assms(2) show ?thesis unfolding q by (auto simp: filed_def keyed_def classified_def)
qed

lemma set_classification_filed:
  assumes "set_classification i d c p = Inr q" and "filed p"
  shows "filed q"
proof (cases c)
  case None
  with assms show ?thesis
    by (auto simp: set_classification_def check_simps filed_def keyed_def classified_def split: if_splits)
next
  case (Some x)
  with assms show ?thesis
    by (auto simp: set_classification_def check_simps filed_def keyed_def classified_def split: if_splits)
qed

subsection \<open>Conversion\<close>

lemma bt_get_fold_remove: "bt_get (fold bt_remove ks m) k = (if k \<in> set ks then None else bt_get m k)"
  by (induction ks arbitrary: m) auto

lemma bt_wf_fold_remove: "bt_wf m \<Longrightarrow> bt_wf (fold bt_remove ks m)"
  by (induction ks arbitrary: m) auto

text \<open>What a conversion does when it succeeds.\<close>

lemma conversion_Inr:
  assumes "convert_group_to_component_model plan p = Inr q"
  obtains root gs local_groups local_occurrences where
    "bt_get (pt_groups p) (cp_group plan) = Some root" "descendant_groups p (cp_group plan) = Inr gs"
    "\<not> bt_contains (pt_definitions p) (cp_definition plan)" "\<not> bt_contains (pt_occurrences p) (cp_occurrence plan)"
    "\<not> trim_is_empty (cp_name plan)"
    "add_local_groups plan p (filter (\<lambda>g. g \<noteq> cp_group plan) gs) = Inr local_groups"
    "add_local_occurrences plan p (converted_occurrences p gs) = Inr local_occurrences"
    "q = p \<lparr>pt_definitions := bt_insert (cp_definition plan)
              (component_definition plan (filter (\<lambda>g. g \<noteq> cp_group plan) gs) (converted_occurrences p gs)) (pt_definitions p),
            pt_local_groups := local_groups, pt_local_occurrences := local_occurrences,
            pt_occurrences := bt_insert (cp_occurrence plan) (component_occurrence plan root)
              (fold bt_remove (converted_occurrences p gs) (pt_occurrences p)),
            pt_assignments := moved_assignments plan p (converted_occurrences p gs),
            pt_groups := fold bt_remove gs (pt_groups p)\<rparr>"
  using assms by (auto simp: convert_group_to_component_model_def Let_def check_simps map_err_eq_Inr)

lemma add_local_groups_wf:
  assumes "add_local_groups plan p gs = Inr m" and "bt_wf (pt_local_groups p)"
  shows "bt_wf m"
  using assms unfolding add_local_groups_def
  by (rule try_fold_invariant) (auto simp: result_simps)

lemma add_local_occurrences_wf:
  assumes "add_local_occurrences plan p gs = Inr m" and "bt_wf (pt_local_occurrences p)"
  shows "bt_wf m"
  using assms unfolding add_local_occurrences_def
  by (rule try_fold_invariant) (auto simp: result_simps)

lemma inherited_assigned:
  assumes "(d, c) \<in> set (inherited_classifications p oids)"
  shows "\<exists>i\<in>set oids. bt_get (pt_assignments p) (i, d) = Some c"
  using assms
  by (cases oids) (auto simp: inherited_classifications_def map_filter_def split: option.splits if_splits)

lemma fold_insert_assignments:
  "bt_wf m \<Longrightarrow> bt_wf (fold (\<lambda>(d, c). bt_insert (i, d) c) xs m)"
  "bt_get (fold (\<lambda>(d, c). bt_insert (i, d) c) xs m) k = Some v \<Longrightarrow>
     bt_get m k = Some v \<or> (\<exists>d. k = (i, d) \<and> (d, v) \<in> set xs)"
proof (induction xs arbitrary: m)
  case (Cons x xs)
  {
    case 1
    with Cons.IH(1) show ?case by (cases x) simp
  next
    case 2
    with Cons.IH(2) [of "case x of (d, c) \<Rightarrow> bt_insert (i, d) c m"] show ?case by (cases x) (auto split: if_splits)
  }
qed simp_all

lemma moved_assignments_filed:
  assumes "bt_wf (pt_assignments p)"
  shows "bt_wf (moved_assignments plan p oids)"
    and "bt_get (moved_assignments plan p oids) (i, d) = Some c \<Longrightarrow>
      (i \<notin> set oids \<and> bt_get (pt_assignments p) (i, d) = Some c) \<or>
      (i = cp_occurrence plan \<and> (\<exists>k\<in>set oids. bt_get (pt_assignments p) (k, d) = Some c))"
proof -
  let ?kept = "filter (\<lambda>((i, _), _). i \<notin> set oids) (pt_assignments p)"
  have wf: "bt_wf ?kept" by (rule bt_wf_filter [OF assms])
  then show "bt_wf (moved_assignments plan p oids)"
    unfolding moved_assignments_def by (rule fold_insert_assignments)
  assume "bt_get (moved_assignments plan p oids) (i, d) = Some c"
  from fold_insert_assignments(2) [OF this [unfolded moved_assignments_def]] inherited_assigned [of d c p oids]
  show "(i \<notin> set oids \<and> bt_get (pt_assignments p) (i, d) = Some c) \<or>
      (i = cp_occurrence plan \<and> (\<exists>k\<in>set oids. bt_get (pt_assignments p) (k, d) = Some c))"
    by (auto simp: bt_get_filter [OF assms] split: option.splits if_splits)
qed

lemma conversion_filed:
  assumes "convert_group_to_component_model plan p = Inr q" and "filed p"
  shows "filed q"
  using assms(1)
proof (rule conversion_Inr)
  fix root gs lgs los
  assume c: "add_local_groups plan p (filter (\<lambda>g. g \<noteq> cp_group plan) gs) = Inr lgs"
    "add_local_occurrences plan p (converted_occurrences p gs) = Inr los"
    and q: "q = p \<lparr>pt_definitions := bt_insert (cp_definition plan)
              (component_definition plan (filter (\<lambda>g. g \<noteq> cp_group plan) gs) (converted_occurrences p gs)) (pt_definitions p),
            pt_local_groups := lgs, pt_local_occurrences := los,
            pt_occurrences := bt_insert (cp_occurrence plan) (component_occurrence plan root)
              (fold bt_remove (converted_occurrences p gs) (pt_occurrences p)),
            pt_assignments := moved_assignments plan p (converted_occurrences p gs),
            pt_groups := fold bt_remove gs (pt_groups p)\<rparr>"
  note wf = filed_wf [OF assms(2)] moved_assignments_filed [OF filed_wf(3) [OF assms(2)]]
    add_local_groups_wf [OF c(1)] add_local_occurrences_wf [OF c(2)]
  have "keyed q"
    using assms(2) wf unfolding q
    by (auto simp: filed_def keyed_def bt_get_fold_remove bt_wf_fold_remove component_definition_def
        component_occurrence_def new_definition_def split: if_splits)
  moreover have "classified q"
    unfolding classified_def
  proof (intro allI impI)
    fix i d x
    assume "bt_get (pt_assignments q) (i, d) = Some x"
    then have "bt_get (moved_assignments plan p (converted_occurrences p gs)) (i, d) = Some x" unfolding q by simp
    from wf(13) [OF this] assms(2) show "bt_contains (pt_occurrences q) i \<and>
        (\<exists>dim. bt_get (pt_dimensions q) d = Some dim \<and> bt_contains (cl_categories dim) x)"
      unfolding q by (auto simp: filed_def classified_def bt_contains_def bt_get_fold_remove)
  qed
  ultimately show ?thesis by (simp add: filed_def)
qed

lemma apply_part_command_filed:
  assumes "apply_part_command rm c p = Inr q" and "filed p"
  shows "filed q"
  using assms
  by (cases c)
     (auto simp: apply_part_command_def check_simps map_err_eq_Inr
      elim: create_tag_filed delete_tag_filed edit_tag_filed [rotated 2] create_collection_filed delete_collection_filed
        set_collection_filed create_definition_filed rename_definition_filed delete_definition_filed
        create_occurrence_filed edit_occurrence_filed [rotated 2] delete_occurrence_filed create_group_filed
        delete_group_filed edit_group_filed [rotated 2] create_local_occurrence_filed delete_local_occurrence_filed
        edit_local_occurrence_filed create_local_group_filed delete_local_group_filed edit_local_group_filed
        set_grounded_filed upsert_dimension_filed set_classification_filed conversion_filed)


section \<open>What an accepted batch keeps\<close>

lemma resolve_path_cong:
  assumes "pt_local_groups p = pt_local_groups q" and "pt_local_occurrences p = pt_local_occurrences q"
    and "map_option oc_definition (bt_get (pt_occurrences p) (fst path)) =
         map_option oc_definition (bt_get (pt_occurrences q) (fst path))"
  shows "resolve_product_instance_path p path = resolve_product_instance_path q path"
  using assms(3) resolve_steps_cong [OF assms(1,2)]
  by (cases "bt_get (pt_occurrences p) (fst path)"; cases "bt_get (pt_occurrences q) (fst path)")
     (auto simp: resolve_product_instance_path_def)

text \<open>
  The hierarchy does not depend on the rest, on what is shown, or on entries that keep their
  names, tags, definition and place.
\<close>

lemma hierarchy_ok_cong:
  assumes "pt_document p = pt_document q" and "pt_definitions p = pt_definitions q" and "pt_groups p = pt_groups q"
    and "pt_local_groups p = pt_local_groups q" and "pt_local_occurrences p = pt_local_occurrences q"
    and "pt_collections p = pt_collections q" and "pt_grounded p = pt_grounded q"
    and "set (pt_grounded_instances p) \<subseteq> set (pt_grounded_instances q)" and "pt_placements p = pt_placements q"
    and tags: "\<And>k. map_option tg_name (bt_get (pt_tags p) k) = map_option tg_name (bt_get (pt_tags q) k)"
    and occs: "\<And>k. map_option (oc_visible_update (\<lambda>_. True)) (bt_get (pt_occurrences p) k) =
      map_option (oc_visible_update (\<lambda>_. True)) (bt_get (pt_occurrences q) k)"
    and q: "hierarchy_ok q"
  shows "hierarchy_ok p"
proof -
  have tag: "bt_contains (pt_tags p) k \<longleftrightarrow> bt_contains (pt_tags q) k" for k
    using tags [of k] by (auto simp: bt_contains_def dest: arg_cong [of _ _ "\<lambda>x. x = None"])
  have oc: "bt_contains (pt_occurrences p) k \<longleftrightarrow> bt_contains (pt_occurrences q) k" for k
    using occs [of k] by (auto simp: bt_contains_def dest: arg_cong [of _ _ "\<lambda>x. x = None"])
  have occ: "\<exists>old. bt_get (pt_occurrences q) k = Some old \<and> oc_name old = oc_name x \<and> oc_transform old = oc_transform x \<and>
      oc_definition old = oc_definition x \<and> oc_parent old = oc_parent x \<and> oc_tags old = oc_tags x"
    if get: "bt_get (pt_occurrences p) k = Some x" for k x
  proof -
    from occs [of k] get obtain old where old: "bt_get (pt_occurrences q) k = Some old"
      "oc_visible_update (\<lambda>_. True) x = oc_visible_update (\<lambda>_. True) old" by (auto simp: map_option_case split: option.splits)
    from old(2) have "oc_name old = oc_name x \<and> oc_transform old = oc_transform x \<and>
      oc_definition old = oc_definition x \<and> oc_parent old = oc_parent x \<and> oc_tags old = oc_tags x"
      by (cases x; cases old) simp
    with old(1) show ?thesis by blast
  qed
  have same_definition: "map_option oc_definition (bt_get (pt_occurrences p) k) = map_option oc_definition (bt_get (pt_occurrences q) k)" for k
    using oc [of k] occ [of k] by (cases "bt_get (pt_occurrences p) k") (auto simp: bt_contains_def)
  have paths: "resolve_product_instance_path p path = resolve_product_instance_path q path" for path
    by (rule resolve_path_cong [OF assms(4,5) same_definition])
  have exist: "tags_exist p = tags_exist q" by (intro ext) (simp add: tags_exist_def tag)
  have "entries_ok p"
  proof -
    have "tag_ok k t" if "bt_get (pt_tags p) k = Some t" for k t
      using that tags [of k] q by (auto simp: hierarchy_ok_def entries_ok_def every_def tag_ok_def map_option_case split: option.splits)
    then show ?thesis
      using q assms(1,6,7,8,9)
      by (auto simp: hierarchy_ok_def entries_ok_def paths oc every_def collection_ok_def placement_is_valid_def)
  qed
  moreover have "occurrences_ok p"
    unfolding occurrences_ok_def
  proof (rule everyI)
    fix k x
    assume "bt_get (pt_occurrences p) k = Some x"
    from occ [OF this] obtain old where old: "bt_get (pt_occurrences q) k = Some old" "oc_name old = oc_name x"
      "oc_transform old = oc_transform x" "oc_definition old = oc_definition x" "oc_parent old = oc_parent x" "oc_tags old = oc_tags x"
      by blast
    with q have "occurrence_ok q k old" by (auto simp: hierarchy_ok_def occurrences_ok_def every_def)
    with old show "occurrence_ok p k x" by (simp add: occurrence_ok_def assms(2,3) exist)
  qed
  moreover have "locals_ok p = locals_ok q"
  proof -
    have parents: "local_parent_exists p = local_parent_exists q"
      by (intro ext) (simp add: local_parent_exists_def assms split: option.split)
    have listed: "listed_locally p = listed_locally q" by (intro ext) (simp add: listed_locally_def assms)
    from parents listed exist show ?thesis
      by (simp add: locals_ok_def local_group_ok_def [abs_def] local_occurrence_ok_def [abs_def] local_parents_def holds_def assms(2,4,5))
  qed
  ultimately show ?thesis
    using q definitions_ok_cong [OF assms(2,4,5)] groups_ok_cong [OF assms(3)] by (simp add: hierarchy_ok_def)
qed

lemma view_only_keeps:
  assumes "is_view_only c" and "apply_part_command rm c p = Inr q" and "hierarchy_ok p"
  shows "hierarchy_ok q"
proof -
  from assms(1,2) consider
      (tag) i v t where "bt_get (pt_tags p) i = Some t" "q = p \<lparr>pt_tags := bt_insert i (t \<lparr>tg_visible := v\<rparr>) (pt_tags p)\<rparr>"
    | (occurrence) i v t where "bt_get (pt_occurrences p) i = Some t"
        "q = p \<lparr>pt_occurrences := bt_insert i (t \<lparr>oc_visible := v\<rparr>) (pt_occurrences p)\<rparr>"
    by (cases c) (auto simp: is_view_only_def apply_part_command_def edit_tag_def edit_occurrence_def check_simps map_err_eq_Inr)
  then show ?thesis
  proof cases
    case tag
    then show ?thesis by (intro hierarchy_ok_cong [OF _ _ _ _ _ _ _ _ _ _ _ assms(3)]) auto
  next
    case occurrence
    then show ?thesis by (intro hierarchy_ok_cong [OF _ _ _ _ _ _ _ _ _ _ _ assms(3)]) auto
  qed
qed

lemma hierarchy_ok_rest: "hierarchy_ok p \<Longrightarrow> hierarchy_ok (p \<lparr>pt_rest := r\<rparr>)"
  by (rule hierarchy_ok_cong [of _ p]) auto

lemma hierarchy_ok_prune: "hierarchy_ok p \<Longrightarrow> hierarchy_ok (prune_grounded_instances p)"
  by (rule hierarchy_ok_cong [of _ p]) (auto simp: prune_grounded_instances_def)

lemma prune_filed: "filed (prune_grounded_instances p) = filed p"
  by (simp add: prune_grounded_instances_def)

text \<open>The commands of a batch, and what stands at its end.\<close>

lemma batch_steps:
  assumes "apply_parts_batch rm bx ck share commands current = Inr q"
  obtains edited rebound rest rest' where
    "try_fold (edit_part rm bx current) (current, []) commands = Inr (edited, rebound)"
    "q = (prune_grounded_instances (edited \<lparr>pt_rest := rest\<rparr>)) \<lparr>pt_rest := rest'\<rparr>"
    "check_parts bx ck share current commands q = Inr ()"
proof -
  from assms obtain st where st: "try_fold (edit_part rm bx current) (current, []) commands = Inr st"
    and rest: "(case st of (edited, rebound) \<Rightarrow>
     and_then (case rebound of [] \<Rightarrow> Ok () | path # _ \<Rightarrow> Err (Refused (InvalidProductionCodePath path))) (\<lambda>_.
     and_then (with_rest edited (bx_refresh bx current commands edited)) (\<lambda>refreshed.
     and_then (with_rest (prune_grounded_instances refreshed) (bx_prune bx (prune_grounded_instances refreshed))) (\<lambda>p.
     and_then (check_parts bx ck share current commands p) (\<lambda>_. Ok p))))) = Inr q"
    by (auto simp: apply_parts_batch_def result_simps)
  obtain edited rebound where e: "st = (edited, rebound)" by (cases st)
  from rest show thesis
    unfolding e by (auto simp: with_rest_def result_simps intro: that [OF st [unfolded e]])
qed

lemma batch_keeps_hierarchy:
  assumes "apply_parts_batch rm bx ck share commands current = Inr q" and "filed current" and "hierarchy_ok current"
    and "\<And>q. sharing_sound (share current q) current q"
  shows "filed q \<and> hierarchy_ok q"
  using assms(1)
proof (rule batch_steps)
  fix edited rebound rest rest'
  assume run: "try_fold (edit_part rm bx current) (current, []) commands = Inr (edited, rebound)"
    and q: "q = (prune_grounded_instances (edited \<lparr>pt_rest := rest\<rparr>)) \<lparr>pt_rest := rest'\<rparr>"
    and check: "check_parts bx ck share current commands q = Inr ()"
  have "filed (fst (edited, rebound))"
    by (rule try_fold_invariant [OF run, where P = "\<lambda>st. filed (fst st)"])
       (use assms(2) in \<open>auto simp: edit_part_def result_simps dest: apply_part_command_filed\<close>)
  then have filed: "filed q" unfolding q by (simp add: prune_filed)
  have "hierarchy_ok q"
  proof (cases "list_all is_view_only commands")
    case True
    have "hierarchy_ok (fst (edited, rebound))"
      by (rule try_fold_invariant [OF run, where P = "\<lambda>st. hierarchy_ok (fst st)"])
         (use assms(3) True in \<open>auto simp: edit_part_def result_simps list_all_iff intro: view_only_keeps\<close>)
    then show ?thesis unfolding q by (simp add: hierarchy_ok_rest hierarchy_ok_prune)
  next
    case False
    with check have v: "validate_product_change ck (share current q) (Some current) q = Inr ()"
      by (auto simp: check_parts_def result_simps)
    have "edit_of (share current q) current q"
      using assms(2,4) filed by (simp add: edit_of_def filed_def)
    from incremental_check_sound [OF this assms(3) v] show ?thesis .
  qed
  with filed show ?thesis by simp
qed

section \<open>From an empty document\<close>

text \<open>\<open>new_parts d r\<close>: the empty product, \<open>d\<close> from the counter of documents and \<open>r\<close> the rest.\<close>

definition new_parts :: "u64 \<Rightarrow> 'r \<Rightarrow> 'r parts" where
  "new_parts d r =
     \<lparr>pt_document = max d 1, pt_tags = [], pt_dimensions = [], pt_assignments = [], pt_collections = [],
      pt_definitions = [], pt_occurrences = [], pt_groups = [], pt_local_occurrences = [], pt_local_groups = [],
      pt_grounded = [], pt_grounded_instances = [], pt_placements = [], pt_clearances = [], pt_rest = r\<rparr>"

inductive parts_run ::
  "'r rest_model \<Rightarrow> 'r batch_rest \<Rightarrow> 'r rest_checks \<Rightarrow> ('r parts \<Rightarrow> 'r parts \<Rightarrow> sharing) \<Rightarrow> 'r parts \<Rightarrow> bool"
  for rm bx ck share where
  run_start: "parts_run rm bx ck share (new_parts d r)"
| run_batch: "parts_run rm bx ck share p \<Longrightarrow> apply_parts_batch rm bx ck share commands p = Ok q \<Longrightarrow>
    parts_run rm bx ck share q"

lemma new_parts_in_order: "filed (new_parts d r) \<and> hierarchy_ok (new_parts d r)"
proof -
  have "max d 1 \<noteq> (0 :: u64)" by (metis max.cobounded2 word_gt_0 word_less_1 not_le)
  moreover have "holds (new_parts d r) = {}" by (auto simp: holds_def new_parts_def)
  then have "acyclic (holds (new_parts d r))" by (simp add: acyclic_def)
  ultimately show ?thesis
    by (auto simp: filed_def keyed_def classified_def hierarchy_ok_def entries_ok_def definitions_ok_def
        occurrences_ok_def groups_ok_def locals_ok_def every_def new_parts_def)
qed

text \<open>
  C11. the parts of a document are always in order.  Whatever batches of part commands an empty
  document has accepted, every entry is filed under its number, every classification is of and by
  what exists, groups and local groups are trees, occurrences place definitions that exist, and
  no definition holds itself, directly or through others.
\<close>

theorem reached_parts_in_order:
  assumes "parts_run rm bx ck share p" and "\<And>p q. sharing_sound (share p q) p q"
  shows "filed p \<and> hierarchy_ok p"
  using assms(1)
proof (induction rule: parts_run.induct)
  case (run_start d r)
  show ?case by (rule new_parts_in_order)
next
  case (run_batch p commands q)
  then show ?case using batch_keeps_hierarchy assms(2) by blast
qed

end
