(* ===== verification/Ketchup_Regroup.thy ===== *)
theory Ketchup_Regroup
  imports Ketchup_Filing
begin

text \<open>
  Moving a group under another: what the batch answers when the new parent does not exist and
  when it hangs under the moved group.  The loops of \<^verbatim>\<open>validate_groups\<close> and
  \<^verbatim>\<open>world_transform_for_group\<close> then meet a missing entry and a cycle.
\<close>

section \<open>When nothing else objects\<close>

text \<open>The rest of the product changes nothing and its checks pass.\<close>

definition quiet :: "'r batch_rest \<Rightarrow> 'r rest_checks \<Rightarrow> bool" where
  "quiet bx ck \<longleftrightarrow>
     (\<forall>b p. bx_rebound bx b p = []) \<and> (\<forall>b cs p. bx_refresh bx b cs p = Ok (pt_rest p)) \<and>
     (\<forall>p. bx_prune bx p = Ok (pt_rest p)) \<and>
     (\<forall>c\<in>set (ck_codes ck @ ck_threads ck @ ck_relations ck @ ck_spaces ck @ ck_dimensions ck @ ck_views ck).
        \<forall>p. rc_run c p = Ok ()) \<and>
     (\<forall>p. ck_floor ck p = Ok () \<and> ck_graph ck p = Ok () \<and> ck_receipts ck p = Ok () \<and> ck_features ck p = Ok () \<and>
        ck_suppression ck p = Ok ()) \<and>
     (\<forall>p df. ck_bodies ck p df = Ok ())"

lemma quiet_rests:
  assumes "quiet bx ck"
    and "set cs \<subseteq> set (ck_codes ck @ ck_threads ck @ ck_relations ck @ ck_spaces ck @ ck_dimensions ck @ ck_views ck)"
  shows "try_each (run_rest_check sh prior change p) cs = Ok ()"
  using assms by (auto simp: try_each_Inr run_rest_check_def quiet_def)

lemma skip_pass: "x = Inr () \<Longrightarrow> (if c then x else Inr ()) = Inr ()"
  by simp

text \<open>With the rest quiet, only the clearances can stop the checks of the entries.\<close>

lemma quiet_entries:
  assumes quiet: "quiet bx ck" and keyed: "keyed p" and ok: "entries_ok p"
  shows "validate_document_entries ck sh prior change p =
    (if recheck prior (ch_structure change) (\<lambda>before. sh_rest sh ''spaces'' \<and>
       same_entries (sh_clearances sh) (pt_clearances before) (pt_clearances p))
     then try_each (validate_clearance ck p) (pt_clearances p) else Ok ())"
proof -
  note runs = quiet_rests [OF quiet, of "ck_codes ck"] quiet_rests [OF quiet, of "ck_threads ck"]
    quiet_rests [OF quiet, of "ck_relations ck"] quiet_rests [OF quiet, of "ck_spaces ck"]
    quiet_rests [OF quiet, of "ck_dimensions ck"] quiet_rests [OF quiet, of "ck_views ck"]
  have all: "validate_placements p = Inr ()" "validate_grounded_instances p (pt_grounded_instances p) = Inr ()"
    "validate_grounded p = Inr ()" "validate_tags p = Inr ()"
    "try_each (validate_collection p) (pt_collections p) = Inr ()"
    using ok validate_tags_ok [OF keyed] validate_collections_ok [OF keyed]
    by (auto simp: entries_ok_def validate_placements_ok validate_grounded_instances_ok validate_grounded_ok)
  have rest: "ck_floor ck p = Ok ()" "ck_graph ck p = Ok ()" "ck_receipts ck p = Ok ()"
    using quiet by (simp_all add: quiet_def)
  show ?thesis
    unfolding validate_document_entries_def Let_def
    by (simp add: runs all rest subset_iff skip_pass and_then_def split: sum.split)
qed

lemma quiet_definitions:
  assumes "quiet bx ck" and "keyed p" and "definitions_ok p"
  shows "and_then (validate_definitions ck p) (\<lambda>_. ck_features ck p) = Inr ()"
proof -
  have "validate_definitions ck p = Inr ()"
    unfolding validate_definitions_def try_each_values [OF keyed_wf(5) [OF assms(2)]]
    using assms(1,3) keyed_id(2) [OF assms(2)]
    by (auto simp: every_def definitions_ok_def quiet_def intro!: validate_definition_ok)
  with assms(1) show ?thesis by (simp add: quiet_def)
qed

lemma occurrences_pass:
  assumes "keyed p" and "occurrences_ok p"
  shows "try_each (validate_occurrence p) (occurrences_to_check sh prior p) = Inr ()"
proof -
  have "set (occurrences_to_check sh prior p) \<subseteq> set (bt_values (pt_occurrences p))"
    by (auto simp: occurrences_to_check_def bt_values_def split: option.splits if_splits)
  moreover have "\<forall>oc\<in>set (bt_values (pt_occurrences p)). validate_occurrence p oc = Inr ()"
    using occurrences_full [OF assms(1)] assms(2) by (simp add: try_each_Inr)
  ultimately show ?thesis by (auto simp: try_each_Inr)
qed

section \<open>Moving a group\<close>

definition move_group :: "u64 \<Rightarrow> u64 \<Rightarrow> part_group \<Rightarrow> 'r parts \<Rightarrow> 'r parts" where
  "move_group g up gr p = p \<lparr>pt_groups := bt_insert g (gr \<lparr>gr_parent := Some up\<rparr>) (pt_groups p)\<rparr>"

lemma move_group_parts:
  assumes "filed p" and "hierarchy_ok p" and "bt_get (pt_groups p) g = Some gr"
  shows "keyed (move_group g up gr p)" and "entries_ok (move_group g up gr p)"
    and "definitions_ok (move_group g up gr p)" and "occurrences_ok (move_group g up gr p)"
proof -
  let ?q = "move_group g up gr p"
  show "keyed ?q" using assms(1,3) by (auto simp: filed_def keyed_def move_group_def)
  have paths: "resolve_product_instance_path ?q path = resolve_product_instance_path p path" for path
    by (rule resolve_path_cong) (simp_all add: move_group_def)
  show "entries_ok ?q"
    using assms(2) by (simp add: hierarchy_ok_def entries_ok_def collection_ok_def [abs_def] placement_is_valid_def paths)
      (simp add: move_group_def)
  show "definitions_ok ?q" using assms(2) definitions_ok_cong [of ?q p] by (simp add: hierarchy_ok_def move_group_def)
  show "occurrences_ok ?q"
    using assms(2) by (simp add: hierarchy_ok_def occurrences_ok_def occurrence_ok_def [abs_def] tags_exist_def move_group_def every_def)
qed

lemma group_chain:
  assumes "hierarchy_ok p" and "bt_contains (pt_groups p) g"
  obtains xs where "up_chain (group_parents p) g xs"
  using assms by (auto simp: hierarchy_ok_def groups_ok_def every_def group_ok_def bt_contains_def rooted_def)

lemma group_parents_keys: "bt_keys (group_parents p) = bt_keys (pt_groups p)"
  by (simp add: bt_keys_def group_parents_def comp_def case_prod_beta)

lemma group_is_descendant_chain:
  assumes "up_chain (group_parents p) d xs"
  shows "group_is_descendant p g d \<longleftrightarrow> g \<in> set xs"
proof (cases "g \<in> set xs")
  case True
  with climb_Found [OF assms, of "[]" g] show ?thesis by (simp add: group_is_descendant_def)
next
  case False
  then have "climb (group_parents p) (\<lambda>x. x = g) [] (Some d) = Top (rev xs @ [])"
    by (intro climb_chain [OF assms]) auto
  with False show ?thesis by (simp add: group_is_descendant_def)
qed

text \<open>A parent that does not hang under the group is not the parent it has.\<close>

lemma moved_parent_differs:
  assumes "hierarchy_ok p" and "bt_get (pt_groups p) g = Some gr" and "\<not> bt_contains (pt_groups p) up \<or> group_is_descendant p g up"
  shows "gr_parent gr \<noteq> Some up"
proof
  assume up: "gr_parent gr = Some up"
  have "bt_contains (pt_groups p) g" using assms(2) by (simp add: bt_contains_def)
  from group_chain [OF assms(1) this] obtain xs where xs: "up_chain (group_parents p) g xs" .
  have get: "bt_get (group_parents p) g = Some (Some up)" using assms(2) up by (simp add: bt_get_group_parents)
  from xs get obtain ys where ys: "xs = g # ys" "up_chain (group_parents p) up ys" by (cases rule: up_chain.cases) auto
  have "bt_contains (pt_groups p) up"
    using up_chain_hd [OF ys(2)] up_chain_keys [OF ys(2)]
    by (cases ys) (auto simp: bt_contains_iff group_parents_keys)
  with assms(3) have "g \<in> set ys" using group_is_descendant_chain [OF ys(2)] by blast
  with up_chain_distinct [OF xs] ys(1) show False by simp
qed

lemma moved_groups_change:
  assumes "filed p" and "hierarchy_ok p" and "bt_get (pt_groups p) g = Some gr"
    and "\<not> bt_contains (pt_groups p) up \<or> group_is_descendant p g up"
    and "sharing_sound sh p (move_group g up gr p)"
  shows "ch_groups (product_change_between sh (Some p) (move_group g up gr p))"
    and "ch_structure (product_change_between sh (Some p) (move_group g up gr p))"
proof -
  let ?q = "move_group g up gr p"
  have "\<not> same_entries (sh_groups sh) (pt_groups p) (pt_groups ?q)"
  proof
    assume "same_entries (sh_groups sh) (pt_groups p) (pt_groups ?q)"
    moreover have "shares (sh_groups sh) (pt_groups p) (pt_groups ?q)" using assms(5) by (simp add: sharing_sound_def)
    ultimately have "pt_groups p = pt_groups ?q"
      using assms(1) by (intro same_entries_eq) (simp_all add: filed_wf move_group_def)
    then have "bt_get (pt_groups p) g = bt_get (pt_groups ?q) g" by simp
    then have "gr = gr \<lparr>gr_parent := Some up\<rparr>" using assms(3) by (simp add: move_group_def)
    then have "gr_parent gr = Some up" by (metis part_group.select_convs(4) part_group.surjective part_group.update_convs(4))
    with moved_parent_differs [OF assms(2,3,4)] show False by simp
  qed
  then show "ch_groups (product_change_between sh (Some p) ?q)" "ch_structure (product_change_between sh (Some p) ?q)"
    by (simp_all add: product_change_between_def Let_def)
qed

text \<open>The batch that moves a group is the check of the clearances, then of the groups.\<close>

lemma move_group_batch:
  assumes filed: "filed p" and ok: "hierarchy_ok p" and get: "bt_get (pt_groups p) g = Some gr"
    and quiet: "quiet bx ck" and bad: "\<not> bt_contains (pt_groups p) up \<or> group_is_descendant p g up"
    and sound: "\<And>q. sharing_sound (share p q) p q"
  shows "apply_parts_batch rm bx ck share [SetGroupParent g (Some up)] p =
    and_then (try_each (validate_clearance ck (move_group g up gr p)) (pt_clearances p)) (\<lambda>_.
    and_then (validate_groups (move_group g up gr p)) (\<lambda>_.
    and_then (if ch_definitions (product_change_between (share p (move_group g up gr p)) (Some p) (move_group g up gr p))
              then validate_local_structure ck (move_group g up gr p) else Ok ()) (\<lambda>_.
    and_then (bx_after bx p [SetGroupParent g (Some up)] (move_group g up gr p)) (\<lambda>_.
    Ok (move_group g up gr p)))))"
proof -
  let ?q = "move_group g up gr p"
  note parts = move_group_parts [OF filed ok get, of up]
  note change = moved_groups_change [OF filed ok get bad sound]
  have command: "apply_part_command rm (SetGroupParent g (Some up)) p = Inr ?q"
    using get by (simp add: apply_part_command_def edit_group_def move_group_def)
  have rest: "?q \<lparr>pt_rest := pt_rest ?q\<rparr> = ?q" by simp
  have prune: "prune_grounded_instances ?q = ?q"
  proof -
    have "filter (\<lambda>path. resolve_product_instance_path ?q path \<noteq> None) (pt_grounded_instances ?q) = pt_grounded_instances ?q"
      using parts(2) by (auto simp: entries_ok_def filter_id_conv)
    then show ?thesis by (simp add: prune_grounded_instances_def)
  qed
  have definitions: "(if c then and_then (validate_definitions ck ?q) (\<lambda>_. ck_features ck ?q) else Ok ()) = Ok ()" for c
    using quiet_definitions [OF quiet parts(1,3)] by simp
  have "pt_document ?q \<noteq> 0" using parts(2) by (simp add: entries_ok_def)
  then have check: "validate_product_change ck (share p ?q) (Some p) ?q =
    and_then (try_each (validate_clearance ck ?q) (pt_clearances p)) (\<lambda>_.
    and_then (validate_groups ?q) (\<lambda>_.
    if ch_definitions (product_change_between (share p ?q) (Some p) ?q) then validate_local_structure ck ?q else Ok ()))"
    unfolding validate_product_change_def Let_def quiet_entries [OF quiet parts(1,2)] definitions
      occurrences_pass [OF parts(1,4)]
    by (simp add: change recheck_Some ensure_product_id_def) (simp add: move_group_def)
  have "bx_rebound bx p ?q = []" "bx_refresh bx p cs ?q = Ok (pt_rest ?q)" "bx_prune bx ?q = Ok (pt_rest ?q)" for cs
    using quiet by (simp_all add: quiet_def)
  then show ?thesis
    by (simp add: apply_parts_batch_def edit_part_def command is_view_only_def with_rest_def rest prune check_parts_def check)
       (simp add: and_then_def split: sum.split)
qed

section \<open>Under a group that does not exist\<close>

lemma climb_reaches:
  "up_chain parents x xs \<Longrightarrow> g \<in> set xs \<Longrightarrow> (\<And>y. y \<noteq> g \<Longrightarrow> bt_get parents' y = bt_get parents y) \<Longrightarrow>
   bt_get parents' g = Some (Some up) \<Longrightarrow> set xs \<inter> set seen = {} \<Longrightarrow>
   \<exists>seen'. g \<in> set seen' \<and> set seen' \<subseteq> set xs \<union> set seen \<and>
     climb parents' (\<lambda>_. False) seen (Some x) = climb parents' (\<lambda>_. False) seen' (Some up)"
proof (induction arbitrary: seen rule: up_chain.induct)
  case (up_root x)
  then show ?case by (intro exI [of _ "x # seen"]) (simp add: climb_simps)
next
  case (up_step x y xs)
  have x: "x \<notin> set xs" using up_chain_distinct [OF up_chain.up_step [OF up_step(1,2)]] by simp
  show ?case
  proof (cases "x = g")
    case True
    with up_step.prems show ?thesis by (intro exI [of _ "x # seen"]) (auto simp: climb_simps)
  next
    case False
    with up_step.prems have "\<exists>seen'. g \<in> set seen' \<and> set seen' \<subseteq> set xs \<union> set (x # seen) \<and>
        climb parents' (\<lambda>_. False) (x # seen) (Some y) = climb parents' (\<lambda>_. False) seen' (Some up)"
      using x by (intro up_step.IH) auto
    with False up_step show ?thesis by (fastforce simp: climb_simps)
  qed
qed

lemma first_failure:
  assumes "bt_wf m" and "\<And>k v. bt_get m k = Some v \<Longrightarrow> k < k0 \<Longrightarrow> f v = Inr ()" and "bt_get m k0 = Some v0"
    and "f v0 = Inl stop"
  shows "try_each f (bt_values m) = Inl stop"
  using assms
proof (induction m)
  case Nil
  then show ?case by simp
next
  case (Cons e m)
  obtain k v where e: "e = (k, v)" by (cases e)
  show ?case
  proof (cases "k = k0")
    case True
    with Cons.prems e show ?thesis by (simp add: bt_values_def)
  next
    case False
    then have get: "bt_get m k0 = Some v0" using Cons.prems(3) e by simp
    have less: "k < k0" using Cons.prems(1) e bt_get_entry [OF get] by force
    have "f v = Inr ()" using Cons.prems(2) [of k v] e less by simp
    moreover have "try_each f (bt_values m) = Inl stop"
    proof (rule Cons.IH [OF _ _ get Cons.prems(4)])
      show "bt_wf m" using Cons.prems(1) e by simp
      show "f w = Inr ()" if "bt_get m k' = Some w" "k' < k0" for k' w
      proof (rule Cons.prems(2) [OF _ that(2)])
        have "k \<noteq> k'" using Cons.prems(1) e bt_get_entry [OF that(1)] by force
        then show "bt_get (e # m) k' = Some w" using that(1) e by simp
      qed
    qed
    ultimately show ?thesis using e by (simp add: bt_values_def)
  qed
qed

lemma moved_parents:
  assumes "bt_get (pt_groups p) g = Some gr"
  shows "bt_get (group_parents (move_group g up gr p)) g = Some (Some up)"
    and "y \<noteq> g \<Longrightarrow> bt_get (group_parents (move_group g up gr p)) y = bt_get (group_parents p) y"
  using assms by (simp_all add: bt_get_group_parents move_group_def)

lemma group_fields:
  assumes "hierarchy_ok p" and "bt_get (pt_groups p) d = Some x"
  shows "d \<noteq> 0" "\<not> trim_is_empty (gr_name x)" "transform_is_valid (gr_transform x)"
    "\<And>y. gr_parent x = Some y \<Longrightarrow> bt_contains (pt_groups p) y"
  using assms rooted_group_parent [OF _ assms(2)]
  by (auto simp: hierarchy_ok_def groups_ok_def every_def group_ok_def)

lemma moved_group_checked:
  assumes filed: "filed p" and ok: "hierarchy_ok p" and get: "bt_get (pt_groups p) g = Some gr"
    and missing: "\<not> bt_contains (pt_groups p) up" and d: "bt_get (pt_groups (move_group g up gr p)) d = Some x"
  shows "validate_group (move_group g up gr p) x =
    (if d = g then Err (Refused (GroupNotFound up)) else if group_is_descendant p g d then Err Panics else Ok ())"
proof -
  let ?q = "move_group g up gr p"
  have present: "bt_contains (pt_groups ?q) y \<longleftrightarrow> bt_contains (pt_groups p) y" for y
    using get by (auto simp: move_group_def bt_contains_def)
  show ?thesis
  proof (cases "d = g")
    case True
    with d have x: "x = gr \<lparr>gr_parent := Some up\<rparr>" by (simp add: move_group_def)
    with group_fields [OF ok get] filed_id(4) [OF filed get] missing present True show ?thesis
      by (simp add: validate_group_def ensure_product_id_def ensure_name_def validate_transform_def)
  next
    case False
    with d have x: "bt_get (pt_groups p) d = Some x" by (simp add: move_group_def)
    then have "bt_contains (pt_groups p) d" by (simp add: bt_contains_def)
    from group_chain [OF ok this] obtain xs where xs: "up_chain (group_parents p) d xs" .
    have fields: "validate_group ?q x =
        (case climb (group_parents ?q) (\<lambda>_. False) [] (Some d) of
           Loop i \<Rightarrow> Err (Refused (GroupCycle i)) | Lost _ _ \<Rightarrow> Err Panics | _ \<Rightarrow> Ok ())"
      using group_fields [OF ok x] filed_id(4) [OF filed x] present
      by (auto simp: validate_group_def ensure_product_id_def ensure_name_def validate_transform_def split: option.split)
    show ?thesis
    proof (cases "g \<in> set xs")
      case True
      obtain seen where s: "set seen \<subseteq> set xs"
        "climb (group_parents ?q) (\<lambda>_. False) [] (Some d) = climb (group_parents ?q) (\<lambda>_. False) seen (Some up)"
        using climb_reaches [OF xs True, of "group_parents ?q" up "[]"] moved_parents [OF get] by auto
      have up: "up \<notin> set seen"
        using s(1) up_chain_keys [OF xs] missing by (auto simp: bt_contains_iff group_parents_keys)
      have "up \<noteq> g" using get missing by (auto simp: bt_contains_def)
      then have "bt_get (group_parents ?q) up = None"
        using missing moved_parents(2) [OF get] by (simp add: bt_get_group_parents bt_contains_def)
      with s(2) up have "climb (group_parents ?q) (\<lambda>_. False) [] (Some d) = Lost up (up # seen)"
        by (simp add: climb_simps)
      with True False fields group_is_descendant_chain [OF xs] show ?thesis by simp
    next
      case no: False
      have "up_chain (group_parents ?q) d xs"
        by (rule up_chain_cong [OF xs]) (use no in \<open>auto intro: moved_parents(2) [OF get]\<close>)
      then have "climb (group_parents ?q) (\<lambda>_. False) [] (Some d) = Top (rev xs @ [])" by (rule climb_chain) auto
      with no False fields group_is_descendant_chain [OF xs] show ?thesis by simp
    qed
  qed
qed

lemma moved_under_missing_checked:
  assumes filed: "filed p" and ok: "hierarchy_ok p" and get: "bt_get (pt_groups p) g = Some gr"
    and missing: "\<not> bt_contains (pt_groups p) up"
  shows "validate_groups (move_group g up gr p) =
    (if \<exists>d. bt_contains (pt_groups p) d \<and> d < g \<and> group_is_descendant p g d then Err Panics
     else Err (Refused (GroupNotFound up)))"
proof -
  let ?q = "move_group g up gr p"
  define F where "F = {d \<in> set (bt_keys (pt_groups p)). d = g \<or> group_is_descendant p g d}"
  have g: "g \<in> F" using get by (auto simp: F_def dest: bt_get_Some_keys)
  have fin: "finite F" by (simp add: F_def)
  have ne: "F \<noteq> {}" using g by blast
  let ?k = "Min F"
  have k: "?k \<in> F" "\<And>d. d \<in> F \<Longrightarrow> ?k \<le> d"
    using Min_in [OF fin ne] Min_le [OF fin] by simp_all
  have wf: "bt_wf (pt_groups ?q)" using move_group_parts(1) [OF filed ok get] by (simp add: keyed_wf)
  have "?k \<in> set (bt_keys (pt_groups p))" using k(1) by (simp add: F_def)
  then have "bt_contains (pt_groups ?q) ?k" by (auto simp: move_group_def bt_contains_iff [symmetric])
  then obtain x where x: "bt_get (pt_groups ?q) ?k = Some x" by (auto simp: bt_contains_def)
  note checked = moved_group_checked [OF filed ok get missing]
  have "validate_groups ?q = Inl (if ?k = g then Refused (GroupNotFound up) else Panics)"
    unfolding validate_groups_def
  proof (rule first_failure [OF wf _ x, where f = "validate_group ?q"])
    fix d y
    assume d: "bt_get (pt_groups ?q) d = Some y" "d < ?k"
    have "d \<in> set (bt_keys (pt_groups p))"
      using d(1) g by (auto simp: move_group_def F_def split: if_splits dest: bt_get_Some_keys)
    moreover have "d \<notin> F" using d(2) k(2) [of d] leD by blast
    ultimately show "validate_group ?q y = Inr ()" using checked [OF d(1)] by (auto simp: F_def)
  next
    show "validate_group ?q x = Inl (if ?k = g then Refused (GroupNotFound up) else Panics)"
      using checked [OF x] k(1) by (auto simp: F_def)
  qed
  moreover have "?k = g \<longleftrightarrow> \<not> (\<exists>d. bt_contains (pt_groups p) d \<and> d < g \<and> group_is_descendant p g d)"
  proof
    assume min: "?k = g"
    show "\<not> (\<exists>d. bt_contains (pt_groups p) d \<and> d < g \<and> group_is_descendant p g d)"
    proof (rule notI, elim exE conjE)
      fix d
      assume d: "bt_contains (pt_groups p) d" "d < g" "group_is_descendant p g d"
      then have "d \<in> F" by (simp add: F_def bt_contains_iff)
      from k(2) [OF this] min d(2) show False by (simp add: leD)
    qed
  next
    assume none: "\<not> (\<exists>d. bt_contains (pt_groups p) d \<and> d < g \<and> group_is_descendant p g d)"
    have "?k \<le> g" using k(2) g by blast
    with none k(1) show "?k = g" by (auto simp: F_def bt_contains_iff order.order_iff_strict)
  qed
  ultimately show ?thesis by simp
qed



section \<open>Under a group of its own\<close>

text \<open>A set of groups whose parents stay in the set is never left.\<close>

lemma ascend_leaves:
  assumes closed: "\<And>d. d \<in> C \<Longrightarrow> \<exists>x y. bt_get groups d = Some x \<and> gr_parent x = Some y \<and> y \<in> C"
    and ret: "ascend groups lineage cursor = Some r"
  shows "\<forall>d\<in>C. cursor \<noteq> Some d"
proof -
  have "groups = groups \<longrightarrow> (\<forall>d\<in>C. cursor \<noteq> Some d)"
  proof (rule ascend.raw_induct [where P = "\<lambda>gs _ cursor _. gs = groups \<longrightarrow> (\<forall>d\<in>C. cursor \<noteq> Some d)", OF _ ret])
    fix f gs lineage cursor r
    assume IH: "\<And>gs lineage cursor r. f gs lineage cursor = Some r \<Longrightarrow> gs = groups \<longrightarrow> (\<forall>d\<in>C. cursor \<noteq> Some d)"
      and eq: "(case cursor of None \<Rightarrow> Some (Some lineage)
        | Some gid \<Rightarrow> (case bt_get gs gid of None \<Rightarrow> Some None | Some g \<Rightarrow> f gs (gid # lineage) (gr_parent g))) = Some r"
    show "gs = groups \<longrightarrow> (\<forall>d\<in>C. cursor \<noteq> Some d)"
    proof (intro impI ballI notI)
      fix d
      assume gs: "gs = groups" and d: "d \<in> C" "cursor = Some d"
      from closed [OF d(1)] obtain x y where x: "bt_get groups d = Some x" "gr_parent x = Some y" "y \<in> C" by blast
      from eq gs d x have "f gs (d # lineage) (Some y) = Some r" by simp
      from IH [OF this] gs x(3) show False by blast
    qed
  qed
  then show ?thesis by simp
qed

lemma ascend_endless:
  assumes "\<And>d. d \<in> C \<Longrightarrow> \<exists>x y. bt_get groups d = Some x \<and> gr_parent x = Some y \<and> y \<in> C" and "d \<in> C"
  shows "ascend groups lineage (Some d) = None"
proof (cases "ascend groups lineage (Some d)")
  case (Some r)
  have "\<forall>c\<in>C. Some d \<noteq> Some c" using assms(1) Some by (rule ascend_leaves)
  with assms(2) show ?thesis by blast
qed

lemma ascend_chain:
  "up_chain (group_parents p) d xs \<Longrightarrow> ascend (pt_groups p) lineage (Some d) = Some (Some (rev xs @ lineage))"
proof (induction arbitrary: lineage rule: up_chain.induct)
  case (up_root x)
  then show ?case
    by (auto simp: bt_get_group_parents ascend.simps [of _ _ "Some x"] ascend.simps [of _ _ None])
next
  case (up_step x y xs)
  then show ?case
    by (auto simp: bt_get_group_parents ascend.simps [of _ _ "Some x"])
qed

lemma climb_closed:
  assumes "\<And>d. d \<in> C \<Longrightarrow> \<exists>y\<in>C. bt_get parents d = Some (Some y)"
  shows "d \<in> C \<Longrightarrow> \<exists>i. climb parents (\<lambda>_. False) seen (Some d) = Loop i"
proof (induction "length (filter (\<lambda>k. k \<notin> set seen) (bt_keys parents))" arbitrary: seen d rule: less_induct)
  case less
  obtain y where y: "y \<in> C" "bt_get parents d = Some (Some y)" using assms less.prems by blast
  show ?case
  proof (cases "d \<in> set seen")
    case True
    then show ?thesis by (simp add: climb_simps)
  next
    case False
    have "d \<in> set (bt_keys parents)" using y(2) by (rule bt_get_Some_keys)
    then have "length (filter (\<lambda>k. k \<notin> set (d # seen)) (bt_keys parents)) < length (filter (\<lambda>k. k \<notin> set seen) (bt_keys parents))"
      using False by (auto intro!: filter_length_less)
    from less.hyps [OF this y(1)] False y(2) show ?thesis by (simp add: climb_simps)
  qed
qed

text \<open>The groups below \<open>g\<close>, itself included.\<close>

definition below :: "'r parts \<Rightarrow> u64 \<Rightarrow> u64 set" where
  "below p g = {d. bt_contains (pt_groups p) d \<and> group_is_descendant p g d}"

lemma below_chain:
  assumes "hierarchy_ok p" and "d \<in> below p g"
  obtains xs where "up_chain (group_parents p) d xs" "g \<in> set xs"
proof -
  from assms(2) have d: "bt_contains (pt_groups p) d" "group_is_descendant p g d" by (simp_all add: below_def)
  from group_chain [OF assms(1) d(1)] obtain xs where xs: "up_chain (group_parents p) d xs" .
  with group_is_descendant_chain [OF xs] d(2) that show thesis by blast
qed

lemma descendant_exists:
  assumes "group_is_descendant p g d" and "bt_contains (pt_groups p) g"
  shows "d \<in> below p g"
proof (cases "d = g \<or> bt_contains (pt_groups p) d")
  case True
  with assms show ?thesis by (auto simp: below_def)
next
  case False
  then have "bt_get (group_parents p) d = None" by (simp add: bt_get_group_parents bt_contains_def)
  with False assms(1) show ?thesis by (simp add: group_is_descendant_def climb_simps)
qed

lemma below_closed:
  assumes ok: "hierarchy_ok p" and get: "bt_get (pt_groups p) g = Some gr" and up: "group_is_descendant p g up"
    and d: "d \<in> below p g"
  shows "\<exists>y\<in>below p g. bt_get (group_parents (move_group g up gr p)) d = Some (Some y)"
proof (cases "d = g")
  case True
  have "bt_contains (pt_groups p) g" using get by (simp add: bt_contains_def)
  from descendant_exists [OF up this] True moved_parents(1) [OF get] show ?thesis by auto
next
  case False
  from below_chain [OF ok d] obtain xs where xs: "up_chain (group_parents p) d xs" "g \<in> set xs" .
  from xs(1) show ?thesis
  proof (cases rule: up_chain.cases)
    case up_root
    with xs(2) False show ?thesis by simp
  next
    case (up_step y ys)
    have "bt_contains (pt_groups p) y"
      using up_chain_hd [OF up_step(3)] up_chain_keys [OF up_step(3)]
      by (cases ys) (auto simp: bt_contains_iff group_parents_keys)
    moreover have "group_is_descendant p g y"
      using group_is_descendant_chain [OF up_step(3)] xs(2) up_step(1) False by simp
    ultimately show ?thesis using moved_parents(2) [OF get False] up_step(2) by (auto simp: below_def)
  qed
qed

lemma moved_into_cycle_checked:
  assumes filed: "filed p" and ok: "hierarchy_ok p" and get: "bt_get (pt_groups p) g = Some gr"
    and up: "group_is_descendant p g up"
  shows "\<exists>i. validate_groups (move_group g up gr p) = Err (Refused (GroupCycle i))"
proof -
  let ?q = "move_group g up gr p"
  have present: "bt_contains (pt_groups ?q) y \<longleftrightarrow> bt_contains (pt_groups p) y" for y
    using get by (auto simp: move_group_def bt_contains_def)
  have g: "g \<in> below p g"
    using descendant_exists [of p g g] get by (simp add: group_is_descendant_def climb_simps bt_contains_def)
  have fin: "finite (below p g)" by (rule finite_subset [of _ "set (bt_keys (pt_groups p))"]) (auto simp: below_def bt_contains_iff)
  let ?k = "Min (below p g)"
  have ne: "below p g \<noteq> {}" using g by blast
  have k: "?k \<in> below p g" "\<And>d. d \<in> below p g \<Longrightarrow> ?k \<le> d"
    using Min_in [OF fin ne] Min_le [OF fin] by simp_all
  have wf: "bt_wf (pt_groups ?q)" using move_group_parts(1) [OF filed ok get] by (simp add: keyed_wf)
  obtain x where x: "bt_get (pt_groups ?q) ?k = Some x" using k(1) present by (auto simp: below_def bt_contains_def)
  have up_present: "bt_contains (pt_groups p) up"
    using descendant_exists [OF up] get by (auto simp: below_def bt_contains_def)
  have fields: "validate_group ?q y =
      (case climb (group_parents ?q) (\<lambda>_. False) [] (Some d) of
         Loop i \<Rightarrow> Err (Refused (GroupCycle i)) | Lost _ _ \<Rightarrow> Err Panics | _ \<Rightarrow> Ok ())"
    if y: "bt_get (pt_groups ?q) d = Some y" for d y
  proof (cases "d = g")
    case True
    with y have "y = gr \<lparr>gr_parent := Some up\<rparr>" by (simp add: move_group_def)
    with True group_fields [OF ok get] filed_id(4) [OF filed get] present up_present show ?thesis
      by (simp add: validate_group_def ensure_product_id_def ensure_name_def validate_transform_def)
  next
    case False
    with y have x: "bt_get (pt_groups p) d = Some y" by (simp add: move_group_def)
    with group_fields [OF ok x] filed_id(4) [OF filed x] present show ?thesis
      by (auto simp: validate_group_def ensure_product_id_def ensure_name_def validate_transform_def split: option.split)
  qed
  obtain i where "climb (group_parents ?q) (\<lambda>_. False) [] (Some ?k) = Loop i"
    using climb_closed [of "below p g", OF below_closed [OF ok get up] k(1)] by blast
  with fields [OF x] have fails: "validate_group ?q x = Inl (Refused (GroupCycle i))" by simp
  have "validate_groups ?q = Inl (Refused (GroupCycle i))"
    unfolding validate_groups_def
  proof (rule first_failure [where f = "validate_group ?q", OF wf _ x fails])
    fix d y
    assume d: "bt_get (pt_groups ?q) d = Some y" "d < ?k"
    have present_d: "bt_contains (pt_groups p) d" using d(1) present by (auto simp: bt_contains_def)
    have no: "d \<notin> below p g" using d(2) k(2) [of d] leD by blast
    from group_chain [OF ok present_d] obtain xs where xs: "up_chain (group_parents p) d xs" .
    have g_out: "g \<notin> set xs" using no present_d group_is_descendant_chain [OF xs] by (auto simp: below_def)
    have "up_chain (group_parents ?q) d xs"
      by (rule up_chain_cong [OF xs]) (use g_out in \<open>auto intro: moved_parents(2) [OF get]\<close>)
    then have "climb (group_parents ?q) (\<lambda>_. False) [] (Some d) = Top (rev xs @ [])" by (rule climb_chain) auto
    with fields [OF d(1)] show "validate_group ?q y = Inr ()" by simp
  qed
  then show ?thesis by blast
qed


lemma resolve_from_cong:
  assumes "pt_local_groups p = pt_local_groups q" and "pt_local_occurrences p = pt_local_occurrences q"
    and "pt_placements p = pt_placements q"
  shows "resolve_from p root passed parent at steps = resolve_from q root passed parent at steps"
proof (induction steps arbitrary: passed parent at)
  case (Cons s steps)
  with assms show ?case by (cases s) (simp_all add: Let_def split: option.split)
qed simp

lemma moved_parent_transform:
  assumes ok: "hierarchy_ok p" and get: "bt_get (pt_groups p) g = Some gr" and up: "group_is_descendant p g up"
    and d: "bt_contains (pt_groups p) d"
  shows "parent_transform (move_group g up gr p) (Some d) =
    (if d \<in> below p g then Err Endless else parent_transform p (Some d))"
proof (cases "d \<in> below p g")
  case True
  have closed: "\<exists>x y. bt_get (pt_groups (move_group g up gr p)) c = Some x \<and> gr_parent x = Some y \<and> y \<in> below p g"
    if "c \<in> below p g" for c
    using below_closed [OF ok get up that] by (auto simp: bt_get_group_parents)
  have "ascend (pt_groups (move_group g up gr p)) [] (Some d) = None" by (rule ascend_endless [OF closed True])
  with True show ?thesis by (simp add: parent_transform_def world_transform_for_group_def)
next
  case False
  let ?q = "move_group g up gr p"
  from group_chain [OF ok d] obtain xs where xs: "up_chain (group_parents p) d xs" .
  have out: "g \<notin> set xs" using False d group_is_descendant_chain [OF xs] by (auto simp: below_def)
  have "up_chain (group_parents ?q) d xs"
    by (rule up_chain_cong [OF xs]) (use out in \<open>auto intro: moved_parents(2) [OF get]\<close>)
  then have q: "ascend (pt_groups ?q) [] (Some d) = Some (Some (rev xs @ []))" by (rule ascend_chain)
  have p: "ascend (pt_groups p) [] (Some d) = Some (Some (rev xs @ []))" by (rule ascend_chain [OF xs])
  have same: "bt_get (pt_groups ?q) i = bt_get (pt_groups p) i" if "i \<in> set (rev xs)" for i
    using that out by (auto simp: move_group_def)
  have "try_fold (\<lambda>t i. and_then (index_map (pt_groups ?q) i) (\<lambda>g. Ok (transform_compose t (gr_transform g)))) t ys =
      try_fold (\<lambda>t i. and_then (index_map (pt_groups p) i) (\<lambda>g. Ok (transform_compose t (gr_transform g)))) t ys"
    if "set ys \<subseteq> set (rev xs)" for t ys
    using that by (induction ys arbitrary: t) (auto simp: index_map_def same intro!: and_then_cong)
  from this [of "rev xs"] False p q show ?thesis
    by (simp add: parent_transform_def world_transform_for_group_def)
qed

text \<open>A clearance whose occurrence hangs below the moved group.\<close>

definition hangs_below :: "'r parts \<Rightarrow> u64 \<Rightarrow> clearance_volume \<Rightarrow> bool" where
  "hangs_below p g cv \<longleftrightarrow>
     (case cv_owner cv of OwnedBySpace _ \<Rightarrow> False
      | OwnedByOccurrence path \<Rightarrow>
          (case bt_get (pt_occurrences p) (fst path) of None \<Rightarrow> False
           | Some oc \<Rightarrow> (case oc_parent oc of None \<Rightarrow> False | Some d \<Rightarrow> d \<in> below p g)))"

lemma moved_clearance:
  assumes ok: "hierarchy_ok p" and get: "bt_get (pt_groups p) g = Some gr" and up: "group_is_descendant p g up"
    and valid: "validate_clearance ck p (k, cv) = Ok ()"
  shows "validate_clearance ck (move_group g up gr p) (k, cv) = (if hangs_below p g cv then Err Endless else Ok ())"
proof (cases "cv_owner cv")
  case (OwnedBySpace s)
  with valid show ?thesis by (simp add: validate_clearance_def hangs_below_def move_group_def)
next
  case (OwnedByOccurrence path)
  let ?q = "move_group g up gr p"
  from valid OwnedByOccurrence have shape: "k = cv_id cv \<and> has_positive_volume cv"
    and "(case resolve_instance_path p path of Inl (Refused _) \<Rightarrow> Err (Refused InvalidClearanceOwner)
          | Inl stop \<Rightarrow> Err stop | Inr _ \<Rightarrow> Ok ()) = Ok ()"
    by (auto simp: validate_clearance_def result_simps)
  then obtain r where r: "resolve_instance_path p path = Inr r" by (auto split: sum.splits parts_stop.splits)
  then obtain oc where oc: "bt_get (pt_occurrences p) (fst path) = Some oc"
    by (auto simp: resolve_instance_path_def result_simps)
  have resolve: "resolve_from ?q = resolve_from p"
    by (intro ext resolve_from_cong) (simp_all add: move_group_def)
  have kept: "resolve_instance_path ?q path = Inr r" if "parent_transform ?q (oc_parent oc) = parent_transform p (oc_parent oc)"
    using r oc that unfolding resolve_instance_path_def resolve by (simp add: move_group_def)
  show ?thesis
  proof (cases "oc_parent oc")
    case None
    with kept oc OwnedByOccurrence shape show ?thesis
      by (simp add: validate_clearance_def hangs_below_def parent_transform_def)
  next
    case (Some d)
    have "occurrence_ok p (fst path) oc" using ok oc by (simp add: hierarchy_ok_def occurrences_ok_def every_def)
    with Some have "bt_contains (pt_groups p) d" by (simp add: occurrence_ok_def)
    note moved = moved_parent_transform [OF ok get up this]
    have "bt_get (pt_occurrences ?q) (fst path) = Some oc" using oc by (simp add: move_group_def)
    then have "resolve_instance_path ?q path = (if d \<in> below p g then Err Endless else Inr r)"
      using kept moved Some by (simp add: resolve_instance_path_def)
    with Some oc OwnedByOccurrence shape show ?thesis
      by (simp add: validate_clearance_def hangs_below_def)
  qed
qed

lemma try_each_endless:
  assumes "\<And>x. x \<in> set xs \<Longrightarrow> f x = (if P x then Inl e else Inr ())"
  shows "try_each f xs = (if \<exists>x\<in>set xs. P x then Inl e else Inr ())"
  using assms by (induction xs) auto

text \<open>
  C37. moving a group under one of its own.  When nothing else objects, the batch is refused
  as a cycle only if no clearance belongs to a part below the moved group; with one, the
  check of the clearances, which comes before the check of the groups, climbs the cycle and
  never returns.
\<close>

theorem moved_into_cycle:
  assumes "filed p" and "hierarchy_ok p" and "bt_get (pt_groups p) g = Some gr" and "group_is_descendant p g up"
    and "try_each (validate_clearance ck p) (pt_clearances p) = Ok ()" and "quiet bx ck"
    and "\<And>q. sharing_sound (share p q) p q"
  shows "\<exists>i. apply_parts_batch rm bx ck share [SetGroupParent g (Some up)] p =
    (if \<exists>(k, cv)\<in>set (pt_clearances p). hangs_below p g cv then Err Endless else Err (Refused (GroupCycle i)))"
proof -
  have "\<not> bt_contains (pt_groups p) up \<or> group_is_descendant p g up" using assms(4) by simp
  note batch = move_group_batch [where share = share, OF assms(1-3,6) this assms(7)]
  have "try_each (validate_clearance ck (move_group g up gr p)) (pt_clearances p) =
      (if \<exists>x\<in>set (pt_clearances p). hangs_below p g (snd x) then Inl Endless else Inr ())"
    using assms(5) moved_clearance [OF assms(2-4)]
    by (intro try_each_endless) (auto simp: try_each_Inr split: prod.splits)
  moreover obtain i where "validate_groups (move_group g up gr p) = Err (Refused (GroupCycle i))"
    using moved_into_cycle_checked [OF assms(1-4)] by blast
  ultimately show ?thesis unfolding batch by (intro exI [of _ i]) (auto split: prod.splits)
qed


end
