(* ===== verification/Ketchup_Component.thy ===== *)
theory Ketchup_Component
  imports Ketchup_Regroup "HOL-Library.Option_ord"
begin

text \<open>
  Making a component of a group: the mappings \<^verbatim>\<open>document/group_conversion.rs\<close> reports for it and
  \<^verbatim>\<open>DocumentStore::convert_group_to_component\<close> of \<^verbatim>\<open>document/store.rs\<close>.  An accepted conversion
  leaves every part where it was, to the last bit of its transform, and the mappings say under
  which path it is found.
\<close>

section \<open>The mappings\<close>

datatype world_entity_id = WorldGroup u64 | WorldOccurrence u64

datatype converted_entity_id =
    ComponentOccurrence u64
  | ConvertedGroup local_key
  | ConvertedOccurrence local_key

type_synonym world_entity_path = "u64 list \<times> u64 option"

datatype mapping_resolution = ResolvedTo converted_entity_id instance_path | Unresolved

record conversion_mapping =
  cm_old_id :: world_entity_id
  cm_old_path :: world_entity_path
  cm_resolution :: mapping_resolution

definition group_mapping :: "'r parts \<Rightarrow> convert_plan \<Rightarrow> u64 list \<Rightarrow> u64 \<Rightarrow> parts_error + conversion_mapping" where
  "group_mapping p plan converted i =
     and_then (world_group_lineage p i) (\<lambda>lineage.
     and_then
       (if i \<in> set converted then
          and_then (group_lineage p (cp_group plan) i) (\<lambda>inner.
          Ok (ResolvedTo
                (if i = cp_group plan then ComponentOccurrence (cp_occurrence plan)
                 else ConvertedGroup (cp_definition plan, i))
                (cp_occurrence plan, map StepGroup (drop 1 inner))))
        else Ok Unresolved) (\<lambda>resolution.
     Ok \<lparr>cm_old_id = WorldGroup i, cm_old_path = (lineage, None), cm_resolution = resolution\<rparr>))"

definition occurrence_mapping ::
  "'r parts \<Rightarrow> convert_plan \<Rightarrow> u64 list \<Rightarrow> occurrence \<Rightarrow> parts_error + conversion_mapping" where
  "occurrence_mapping p plan converted oc =
     and_then (case oc_parent oc of None \<Rightarrow> Ok [] | Some parent \<Rightarrow> world_group_lineage p parent) (\<lambda>lineage.
     and_then
       (case oc_parent oc of
          None \<Rightarrow> Ok Unresolved
        | Some parent \<Rightarrow>
            if parent \<in> set converted then
              and_then (group_lineage p (cp_group plan) parent) (\<lambda>inner.
              Ok (ResolvedTo (ConvertedOccurrence (cp_definition plan, oc_id oc))
                    (cp_occurrence plan, map StepGroup (drop 1 inner) @ [StepOccurrence (oc_id oc)])))
            else Ok Unresolved) (\<lambda>resolution.
     Ok \<lparr>cm_old_id = WorldOccurrence (oc_id oc), cm_old_path = (lineage, Some (oc_id oc)),
         cm_resolution = resolution\<rparr>))"

definition conversion_mappings :: "'r parts \<Rightarrow> convert_plan \<Rightarrow> parts_error + conversion_mapping list" where
  "conversion_mappings p plan =
     and_then (descendant_groups p (cp_group plan)) (\<lambda>converted.
     and_then (try_map (group_mapping p plan converted) (bt_keys (pt_groups p))) (\<lambda>groups.
     and_then (try_map (occurrence_mapping p plan converted) (bt_values (pt_occurrences p))) (\<lambda>occurrences.
     Ok (sort_key cm_old_path (groups @ occurrences)))))"

definition resolve_old_path :: "conversion_mapping list \<Rightarrow> world_entity_path \<Rightarrow> mapping_resolution" where
  "resolve_old_path mappings path =
     (case find (\<lambda>m. cm_old_path m = path) mappings of None \<Rightarrow> Unresolved | Some m \<Rightarrow> cm_resolution m)"

text \<open>The plan the store makes: the next free numbers of definitions and occurrences.\<close>

definition plan_conversion :: "'r parts \<Rightarrow> u64 \<Rightarrow> str \<Rightarrow> parts_error + convert_plan" where
  "plan_conversion p g name =
     and_then (guard (bt_contains (pt_groups p) g) (GroupNotFound g)) (\<lambda>_.
     and_then (next_id (map df_id (bt_values (pt_definitions p)))) (\<lambda>did.
     and_then (next_id (map oc_id (bt_values (pt_occurrences p)))) (\<lambda>oid.
     Ok \<lparr>cp_group = g, cp_definition = did, cp_occurrence = oid, cp_name = name\<rparr>)))"

definition convert_group_to_component ::
  "'r rest_model \<Rightarrow> 'r batch_rest \<Rightarrow> 'r rest_checks \<Rightarrow> ('r parts \<Rightarrow> 'r parts \<Rightarrow> sharing) \<Rightarrow> u64 \<Rightarrow> str \<Rightarrow> 'r parts \<Rightarrow>
   parts_stop + 'r parts \<times> u64 \<times> u64 \<times> conversion_mapping list" where
  "convert_group_to_component rm bx ck share g name p =
     and_then (map_err Refused (plan_conversion p g name)) (\<lambda>plan.
     and_then (map_err Refused (conversion_mappings p plan)) (\<lambda>mappings.
     and_then (apply_parts_batch rm bx ck share [ConvertGroupToComponent plan] p) (\<lambda>q.
     Ok (q, cp_definition plan, cp_occurrence plan, mappings))))"

section \<open>What a conversion makes\<close>

lemma descendant_groups_below:
  assumes "descendant_groups p g = Inr gs"
  shows "set gs = below p g"
  using assms by (auto simp: descendant_groups_def result_simps below_def bt_contains_iff)

lemma insert_all_get:
  assumes "try_fold (\<lambda>m i. and_then (index_map src i) (\<lambda>x. Ok (bt_insert (d, i) (f i x) m))) m ids = Inr m'"
  shows "bt_get m' (d', l) =
    (if d' = d \<and> l \<in> set ids then map_option (f l) (bt_get src l) else bt_get m (d', l))"
  using assms
proof (induction ids arbitrary: m)
  case Nil
  then show ?case by simp
next
  case (Cons i ids)
  from Cons.prems obtain x where x: "bt_get src i = Some x"
    "try_fold (\<lambda>m i. and_then (index_map src i) (\<lambda>x. Ok (bt_insert (d, i) (f i x) m))) (bt_insert (d, i) (f i x) m) ids = Inr m'"
    by (auto simp: index_map_def result_simps)
  from Cons.IH [OF x(2)] x(1) show ?case by auto
qed

lemma converted_occurrences_iff:
  assumes "filed p"
  shows "i \<in> set (converted_occurrences p gs) \<longleftrightarrow>
    (\<exists>oc d. bt_get (pt_occurrences p) i = Some oc \<and> oc_parent oc = Some d \<and> d \<in> set gs)"
proof -
  note get = bt.get_Some_iff [OF filed_wf(6) [OF assms]]
  have "i \<in> set (converted_occurrences p gs) \<longleftrightarrow>
      (\<exists>k oc d. (k, oc) \<in> set (pt_occurrences p) \<and> oc_id oc = i \<and> oc_parent oc = Some d \<and> d \<in> set gs)"
  proof
    assume "\<exists>k oc d. (k, oc) \<in> set (pt_occurrences p) \<and> oc_id oc = i \<and> oc_parent oc = Some d \<and> d \<in> set gs"
    then obtain k oc d where oc: "(k, oc) \<in> set (pt_occurrences p)" "oc_id oc = i" "oc_parent oc = Some d" "d \<in> set gs"
      by blast
    then have "oc \<in> set (bt_values (pt_occurrences p))" by (force simp: bt_values_def)
    with oc show "i \<in> set (converted_occurrences p gs)" by (auto simp: converted_occurrences_def)
  qed (fastforce simp: converted_occurrences_def bt_values_def split: option.splits)
  also have "\<dots> \<longleftrightarrow> (\<exists>oc d. bt_get (pt_occurrences p) i = Some oc \<and> oc_parent oc = Some d \<and> d \<in> set gs)"
    using filed_id(3) [OF assms] unfolding get by blast
  finally show ?thesis .
qed

lemma definitions_of_locals:
  assumes "hierarchy_ok p" and "\<not> bt_contains (pt_definitions p) d"
  shows "bt_get (pt_local_groups p) (d, l) = None" and "bt_get (pt_local_occurrences p) (d, l) = None"
proof -
  have no: "\<not> listed_locally p members (d, l)" for members
    using assms(2) by (simp add: listed_locally_def bt_contains_def)
  note ok = assms(1) [unfolded hierarchy_ok_def locals_ok_def]
  show "bt_get (pt_local_groups p) (d, l) = None"
    using ok no everyD [of "pt_local_groups p" "local_group_ok p" "(d, l)"]
    by (cases "bt_get (pt_local_groups p) (d, l)") (auto simp: local_group_ok_def)
  show "bt_get (pt_local_occurrences p) (d, l) = None"
    using ok no everyD [of "pt_local_occurrences p" "local_occurrence_ok p" "(d, l)"]
    by (cases "bt_get (pt_local_occurrences p) (d, l)") (auto simp: local_occurrence_ok_def)
qed

text \<open>The occurrences a conversion moves into the component: those in the group or below it.\<close>

definition moves :: "'r parts \<Rightarrow> u64 \<Rightarrow> u64 \<Rightarrow> bool" where
  "moves p g i \<longleftrightarrow> (\<exists>oc d. bt_get (pt_occurrences p) i = Some oc \<and> oc_parent oc = Some d \<and> d \<in> below p g)"

text \<open>The converted product, entry by entry.\<close>

definition converted_to :: "convert_plan \<Rightarrow> part_group \<Rightarrow> 'r parts \<Rightarrow> 'r parts \<Rightarrow> bool" where
  "converted_to plan root p q \<longleftrightarrow>
     bt_get (pt_groups p) (cp_group plan) = Some root \<and>
     \<not> bt_contains (pt_definitions p) (cp_definition plan) \<and> \<not> bt_contains (pt_occurrences p) (cp_occurrence plan) \<and>
     \<not> trim_is_empty (cp_name plan) \<and>
     (\<forall>d. bt_get (pt_groups q) d = (if d \<in> below p (cp_group plan) then None else bt_get (pt_groups p) d)) \<and>
     (\<forall>i. bt_get (pt_occurrences q) i =
        (if i = cp_occurrence plan then Some (component_occurrence plan root)
         else if moves p (cp_group plan) i then None else bt_get (pt_occurrences p) i)) \<and>
     (\<forall>d l. bt_get (pt_local_groups q) (d, l) =
        (if d = cp_definition plan
         then (if l \<in> below p (cp_group plan) \<and> l \<noteq> cp_group plan
               then map_option (local_group_of plan l) (bt_get (pt_groups p) l) else None)
         else bt_get (pt_local_groups p) (d, l))) \<and>
     (\<forall>d l. bt_get (pt_local_occurrences q) (d, l) =
        (if d = cp_definition plan
         then (if moves p (cp_group plan) l
               then map_option (local_occurrence_of plan l) (bt_get (pt_occurrences p) l) else None)
         else bt_get (pt_local_occurrences p) (d, l))) \<and>
     (\<exists>inner oids. set inner = below p (cp_group plan) - {cp_group plan} \<and> distinct inner \<and>
        set oids = {i. moves p (cp_group plan) i} \<and> distinct oids \<and>
        (\<forall>d. bt_get (pt_definitions q) d =
           (if d = cp_definition plan then Some (component_definition plan inner oids) else bt_get (pt_definitions p) d))) \<and>
     pt_placements q = pt_placements p \<and> pt_tags q = pt_tags p \<and> pt_document q = pt_document p \<and>
     pt_clearances q = pt_clearances p"

lemma converted_occurrences_distinct: "filed p \<Longrightarrow> distinct (converted_occurrences p gs)"
proof -
  assume filed: "filed p"
  have "map oc_id (bt_values (pt_occurrences p)) = bt_keys (pt_occurrences p)"
    using filed_id(3) [OF filed] bt.get_Some_iff [OF filed_wf(6) [OF filed]]
    by (auto simp: bt_values_def bt_keys_def)
  moreover have "distinct (bt_keys (pt_occurrences p))"
    using bt_keys_wf [OF filed_wf(6) [OF filed]] strict_sorted_iff by blast
  ultimately have "distinct (map oc_id (bt_values (pt_occurrences p)))" by simp
  then show ?thesis
    unfolding converted_occurrences_def by (simp add: distinct_map inj_on_def)
qed

lemma conversion_converted:
  assumes filed: "filed p" and ok: "hierarchy_ok p" and "convert_group_to_component_model plan p = Inr q"
  obtains root where "converted_to plan root p q"
  using assms(3)
proof (rule conversion_Inr)
  fix root gs lgs los
  let ?inner = "filter (\<lambda>g. g \<noteq> cp_group plan) gs" and ?oids = "converted_occurrences p gs"
  assume c: "bt_get (pt_groups p) (cp_group plan) = Some root" "descendant_groups p (cp_group plan) = Inr gs"
    "\<not> bt_contains (pt_definitions p) (cp_definition plan)" "\<not> bt_contains (pt_occurrences p) (cp_occurrence plan)"
    "\<not> trim_is_empty (cp_name plan)"
    "add_local_groups plan p ?inner = Inr lgs" "add_local_occurrences plan p ?oids = Inr los"
    and q: "q = p \<lparr>pt_definitions := bt_insert (cp_definition plan) (component_definition plan ?inner ?oids) (pt_definitions p),
            pt_local_groups := lgs, pt_local_occurrences := los,
            pt_occurrences := bt_insert (cp_occurrence plan) (component_occurrence plan root) (fold bt_remove ?oids (pt_occurrences p)),
            pt_assignments := moved_assignments plan p ?oids, pt_groups := fold bt_remove gs (pt_groups p)\<rparr>"
  have gs: "set gs = below p (cp_group plan)" by (rule descendant_groups_below [OF c(2)])
  have gs_distinct: "distinct gs"
    using c(2) bt_keys_wf [OF filed_wf(7) [OF filed]] strict_sorted_iff [of "bt_keys (pt_groups p)"]
    by (auto simp: descendant_groups_def result_simps)
  have oids: "set ?oids = {i. moves p (cp_group plan) i}"
    using converted_occurrences_iff [OF filed, of _ gs] gs by (auto simp: moves_def)
  note lgs = insert_all_get [OF c(6) [unfolded add_local_groups_def]]
  note los = insert_all_get [OF c(7) [unfolded add_local_occurrences_def]]
  note fresh = definitions_of_locals [OF ok c(3)]
  have "converted_to plan root p q"
    unfolding converted_to_def
    using c(1,3,4,5) gs oids gs_distinct converted_occurrences_distinct [OF filed, of gs] fresh
    by (intro conjI exI [of _ ?inner] exI [of _ ?oids] allI)
       (auto simp: q lgs los bt_get_fold_remove)
  then show ?thesis by (rule that)
qed


section \<open>Where the parts are afterwards\<close>

definition group_place :: "'r parts \<Rightarrow> u64 \<Rightarrow> transform" where
  "group_place p i = gr_transform (the (bt_get (pt_groups p) i))"

definition chain_place :: "'r parts \<Rightarrow> transform \<Rightarrow> u64 list \<Rightarrow> transform" where
  "chain_place p t ls = foldl (\<lambda>t i. transform_compose t (group_place p i)) t ls"

lemma chain_place_fold:
  "set ls \<subseteq> set (bt_keys (pt_groups p)) \<Longrightarrow>
   try_fold (\<lambda>t i. and_then (index_map (pt_groups p) i) (\<lambda>g. Ok (transform_compose t (gr_transform g)))) t ls =
   Inr (chain_place p t ls)"
proof (induction ls arbitrary: t)
  case Nil
  then show ?case by (simp add: chain_place_def)
next
  case (Cons i ls)
  then obtain g where "bt_get (pt_groups p) i = Some g" by (auto simp: bt_contains_iff [symmetric] bt_contains_def)
  with Cons show ?case by (simp add: index_map_def chain_place_def group_place_def)
qed

lemma parent_place:
  assumes "up_chain (group_parents p) d xs"
  shows "parent_transform p (Some d) = Ok (Some (chain_place p transform_identity (rev xs)))"
  using up_chain_keys [OF assms] chain_place_fold [of "rev xs" p]
  by (simp add: parent_transform_def world_transform_for_group_def ascend_chain [OF assms] group_parents_keys)

lemma kept_chain:
  assumes c: "converted_to plan root p q" and xs: "up_chain (group_parents p) d xs" and out: "cp_group plan \<notin> set xs"
  shows "parent_transform q (Some d) = parent_transform p (Some d)"
proof -
  have same: "bt_get (pt_groups q) y = bt_get (pt_groups p) y" if y: "y \<in> set xs" for y
  proof -
    from up_chain_suffix [OF xs y] obtain ws zs where zs: "xs = ws @ zs" "up_chain (group_parents p) y zs" by blast
    with out group_is_descendant_chain [OF zs(2), of "cp_group plan"] have "y \<notin> below p (cp_group plan)"
      by (auto simp: below_def)
    with c show ?thesis by (simp add: converted_to_def)
  qed
  have q: "up_chain (group_parents q) d xs"
    by (rule up_chain_cong [OF xs]) (simp add: bt_get_group_parents same)
  have "chain_place q t ls = chain_place p t ls" if "set ls \<subseteq> set xs" for t ls
    using that by (induction ls arbitrary: t) (simp_all add: chain_place_def group_place_def same)
  then show ?thesis by (simp add: parent_place [OF xs] parent_place [OF q])
qed

text \<open>The groups of a path inside a definition, each hanging in the one before.\<close>

fun linked :: "'r parts \<Rightarrow> (u64 \<Rightarrow> transform) \<Rightarrow> u64 \<Rightarrow> u64 option \<Rightarrow> u64 list \<Rightarrow> bool" where
  "linked q place d parent [] \<longleftrightarrow> True"
| "linked q place d parent (l # ls) \<longleftrightarrow>
     (\<exists>g. bt_get (pt_local_groups q) (d, l) = Some g \<and> lg_parent g = parent \<and> lg_transform g = place l) \<and>
     linked q place d (Some l) ls"

lemma linked_append:
  "linked q place d parent (ls @ [l]) \<longleftrightarrow>
     linked q place d parent ls \<and>
     (\<exists>g. bt_get (pt_local_groups q) (d, l) = Some g \<and> lg_parent g = (if ls = [] then parent else Some (last ls)) \<and>
        lg_transform g = place l)"
  by (induction ls arbitrary: parent) auto

lemma resolve_linked:
  assumes "linked q place (ri_definition at) parent ls"
  shows "\<exists>at'. ri_definition at' = ri_definition at \<and>
    ri_world at' = foldl (\<lambda>t i. transform_compose t (place i)) (ri_world at) ls \<and>
    resolve_from q root passed parent at (map StepGroup ls @ steps) =
      resolve_from q root (passed @ map StepGroup ls) (if ls = [] then parent else Some (last ls)) at' steps"
  using assms
proof (induction ls arbitrary: passed parent at)
  case Nil
  then show ?case by auto
next
  case (Cons l ls)
  from Cons.prems obtain g where g: "bt_get (pt_local_groups q) (ri_definition at, l) = Some g" "lg_parent g = parent"
    "lg_transform g = place l" and rest: "linked q place (ri_definition at) (Some l) ls" by auto
  let ?at = "at \<lparr>ri_local := lg_transform g, ri_parent_world := ri_world at,
    ri_world := transform_compose (ri_world at) (lg_transform g)\<rparr>"
  from Cons.IH [of ?at "Some l" "passed @ [StepGroup l]"] rest g show ?case
    by (auto simp: if_distrib)
qed

text \<open>The inner chain of a converted group, from the converted group down.\<close>

lemma inner_linked:
  assumes c: "converted_to plan root p q"
  shows "up_chain (group_parents p) d xs \<Longrightarrow> cp_group plan \<in> set xs \<Longrightarrow>
    linked q (group_place p) (cp_definition plan) None (rev (takeWhile (\<lambda>g. g \<noteq> cp_group plan) xs))"
proof (induction rule: up_chain.induct)
  case (up_root x)
  then show ?case by simp
next
  case (up_step x y xs)
  note chain = up_chain.up_step [OF up_step(1,2)]
  show ?case
  proof (cases "x = cp_group plan")
    case True
    then show ?thesis by simp
  next
    case False
    with up_step have IH: "linked q (group_place p) (cp_definition plan) None (rev (takeWhile (\<lambda>g. g \<noteq> cp_group plan) xs))"
      by simp
    obtain g where g: "bt_get (pt_groups p) x = Some g" "gr_parent g = Some y"
      using up_step(1) by (auto simp: bt_get_group_parents)
    have "x \<in> below p (cp_group plan)"
      using group_is_descendant_chain [OF chain] up_step.prems g(1) by (auto simp: below_def bt_contains_def)
    with c g False have lg: "bt_get (pt_local_groups q) (cp_definition plan, x) = Some (local_group_of plan x g)"
      by (simp add: converted_to_def)
    let ?ls = "rev (takeWhile (\<lambda>g. g \<noteq> cp_group plan) xs)"
    have y: "xs \<noteq> []" "hd xs = y" using up_chain_hd [OF up_step(2)] by simp_all
    have "local_parent (cp_group plan) (gr_parent g) = (if ?ls = [] then None else Some (last ?ls))"
    proof (cases "y = cp_group plan")
      case True
      with y g show ?thesis by (cases xs) (auto simp: local_parent_def)
    next
      case False
      with y g show ?thesis by (cases xs) (auto simp: local_parent_def last_rev)
    qed
    moreover have "group_place p x = gr_transform g" using g(1) by (simp add: group_place_def)
    ultimately show ?thesis using IH lg False
      by (simp add: linked_append local_group_of_def)
  qed
qed

text \<open>Inside what a part places, nothing changes.\<close>

lemma inner_steps:
  assumes c: "converted_to plan root p q" and ok: "hierarchy_ok p"
  shows "bt_contains (pt_definitions p) (ri_definition at) \<Longrightarrow>
    (\<And>s. bt_get (pt_placements q) (r', passed' @ s) = bt_get (pt_placements p) (r, passed @ s)) \<Longrightarrow>
    resolve_from q r' passed' parent at steps = resolve_from p r passed parent at steps"
proof (induction steps arbitrary: passed passed' parent at)
  case Nil
  then show ?case by simp
next
  case (Cons s steps)
  have other: "ri_definition at \<noteq> cp_definition plan" using c Cons.prems(1) by (auto simp: converted_to_def)
  show ?case
  proof (cases s)
    case (StepGroup l)
    have same: "bt_get (pt_local_groups q) (ri_definition at, l) = bt_get (pt_local_groups p) (ri_definition at, l)"
      using c other by (simp add: converted_to_def)
    have "bt_get (pt_placements q) (r', (passed' @ [StepGroup l]) @ s) = bt_get (pt_placements p) (r, (passed @ [StepGroup l]) @ s)"
      for s using Cons.prems(2) [of "StepGroup l # s"] by simp
    with StepGroup same Cons.prems(1) show ?thesis
      by (auto split: option.split intro!: Cons.IH)
  next
    case (StepOccurrence l)
    have same: "bt_get (pt_local_occurrences q) (ri_definition at, l) = bt_get (pt_local_occurrences p) (ri_definition at, l)"
      using c other by (simp add: converted_to_def)
    have places: "bt_get (pt_placements q) (r', (passed' @ [StepOccurrence l]) @ s) = bt_get (pt_placements p) (r, (passed @ [StepOccurrence l]) @ s)"
      for s using Cons.prems(2) [of "StepOccurrence l # s"] by simp
    have known: "bt_contains (pt_definitions p) (lo_definition lo)"
      if "bt_get (pt_local_occurrences p) (ri_definition at, l) = Some lo" for lo
      using ok that by (auto simp: hierarchy_ok_def locals_ok_def every_def local_occurrence_ok_def)
    from StepOccurrence same known places [of "[]"] show ?thesis
      by (auto simp: Let_def split: option.split intro!: Cons.IH places [simplified])
  qed
qed

text \<open>Neither the new occurrence nor a moved one is the root of a placement.\<close>

definition unplaced :: "'r parts \<Rightarrow> u64 \<Rightarrow> bool" where
  "unplaced p i \<longleftrightarrow> (\<forall>steps. bt_get (pt_placements p) (i, steps) = None)"

lemma kept_place:
  assumes c: "converted_to plan root p q" and ok: "hierarchy_ok p"
    and oc: "bt_get (pt_occurrences p) i = Some oc" and kept: "\<not> moves p (cp_group plan) i"
  shows "resolve_instance_path q (i, steps) = resolve_instance_path p (i, steps)"
proof -
  have ok_oc: "occurrence_ok p i oc" using ok oc by (simp add: hierarchy_ok_def occurrences_ok_def every_def)
  have "i \<noteq> cp_occurrence plan" using c oc by (auto simp: converted_to_def bt_contains_def)
  with c oc kept have get: "bt_get (pt_occurrences q) i = Some oc" by (simp add: converted_to_def)
  have parent: "parent_transform q (oc_parent oc) = parent_transform p (oc_parent oc)"
  proof (cases "oc_parent oc")
    case None
    then show ?thesis by (simp add: parent_transform_def)
  next
    case (Some d)
    with ok_oc have d: "bt_contains (pt_groups p) d" by (simp add: occurrence_ok_def)
    from group_chain [OF ok d] obtain xs where xs: "up_chain (group_parents p) d xs" .
    have "cp_group plan \<notin> set xs"
      using kept oc Some d group_is_descendant_chain [OF xs] by (auto simp: moves_def below_def)
    from kept_chain [OF c xs this] Some show ?thesis by simp
  qed
  have "resolve_from q i [] None at steps = resolve_from p i [] None at steps"
    if "ri_definition at = oc_definition oc" for at
    by (rule inner_steps [OF c ok]) (use that ok_oc c in \<open>auto simp: occurrence_ok_def converted_to_def\<close>)
  then show ?thesis by (simp add: resolve_instance_path_def get oc parent)
qed


text \<open>The chain of a group below the converted one, cut at it.\<close>

lemma cut_chain:
  assumes "up_chain (group_parents p) d xs" and "g \<in> set xs" and "bt_get (pt_groups p) g = Some root"
  obtains bs where "xs = takeWhile (\<lambda>x. x \<noteq> g) xs @ g # bs" "g \<notin> set bs"
    "(bs = [] \<and> gr_parent root = None) \<or> (\<exists>y. gr_parent root = Some y \<and> up_chain (group_parents p) y bs)"
proof -
  from up_chain_suffix [OF assms(1,2)] obtain ws zs where z: "xs = ws @ zs" "up_chain (group_parents p) g zs" by blast
  from z(2) obtain bs where bs: "zs = g # bs"
    "(bs = [] \<and> gr_parent root = None) \<or> (\<exists>y. gr_parent root = Some y \<and> up_chain (group_parents p) y bs)"
    by (cases rule: up_chain.cases) (use assms(3) in \<open>auto simp: bt_get_group_parents\<close>)
  have d: "distinct xs" by (rule up_chain_distinct [OF assms(1)])
  then have "takeWhile (\<lambda>x. x \<noteq> g) xs = ws"
    unfolding z(1) bs(1) by (simp add: takeWhile_append2 disjoint_iff)
  then show thesis using that [of bs] z(1) bs d by auto
qed

lemma moved_place:
  assumes c: "converted_to plan root p q" and ok: "hierarchy_ok p"
    and oc: "bt_get (pt_occurrences p) i = Some oc" "oc_parent oc = Some d" and d: "d \<in> below p (cp_group plan)"
    and free: "unplaced p i" "unplaced p (cp_occurrence plan)"
  obtains inner where "group_lineage p (cp_group plan) d = Inr inner"
    "resolve_instance_path q (cp_occurrence plan, (map StepGroup (drop 1 inner) @ [StepOccurrence i]) @ steps) =
     resolve_instance_path p (i, steps)"
proof -
  from below_chain [OF ok d] obtain xs where xs: "up_chain (group_parents p) d xs" "cp_group plan \<in> set xs" .
  have root: "bt_get (pt_groups p) (cp_group plan) = Some root" using c by (simp add: converted_to_def)
  let ?ls = "rev (takeWhile (\<lambda>g. g \<noteq> cp_group plan) xs)"
  from cut_chain [OF xs root] obtain bs where bs: "xs = takeWhile (\<lambda>x. x \<noteq> cp_group plan) xs @ cp_group plan # bs"
    "cp_group plan \<notin> set bs"
    "(bs = [] \<and> gr_parent root = None) \<or> (\<exists>y. gr_parent root = Some y \<and> up_chain (group_parents p) y bs)" .
  have lineage: "group_lineage p (cp_group plan) d = Inr (cp_group plan # ?ls)"
    using climb_Found [OF xs(1), of "[]" "cp_group plan"] xs(2) by (simp add: group_lineage_def)
  let ?W = "chain_place p transform_identity (rev bs)"
  have above: "parent_transform q (gr_parent root) = Ok (Some ?W)"
    using bs(3)
  proof
    assume "bs = [] \<and> gr_parent root = None"
    then show ?thesis by (simp add: parent_transform_def chain_place_def)
  next
    assume "\<exists>y. gr_parent root = Some y \<and> up_chain (group_parents p) y bs"
    then obtain y where y: "gr_parent root = Some y" "up_chain (group_parents p) y bs" by blast
    from kept_chain [OF c y(2) bs(2)] parent_place [OF y(2)] y(1) show ?thesis by simp
  qed
  have world: "chain_place p transform_identity (rev xs) =
      foldl (\<lambda>t i. transform_compose t (group_place p i)) (transform_compose ?W (gr_transform root)) ?ls"
    by (subst bs(1)) (simp add: chain_place_def group_place_def root)
  let ?start = "\<lparr>ri_definition = cp_definition plan, ri_local = gr_transform root, ri_parent_world = ?W,
    ri_world = transform_compose ?W (gr_transform root)\<rparr>"
  have linked: "linked q (group_place p) (ri_definition ?start) None ?ls" using inner_linked [OF c xs] by simp
  from resolve_linked [OF linked, of "cp_occurrence plan" "[]" "StepOccurrence i # steps"]
  obtain at where at: "ri_definition at = cp_definition plan" "ri_world at = chain_place p transform_identity (rev xs)"
    "resolve_from q (cp_occurrence plan) [] None ?start (map StepGroup ?ls @ StepOccurrence i # steps) =
     resolve_from q (cp_occurrence plan) (map StepGroup ?ls) (if ?ls = [] then None else Some (last ?ls)) at (StepOccurrence i # steps)"
    unfolding world by auto
  have moves: "moves p (cp_group plan) i" using oc d by (auto simp: moves_def)
  have lo: "bt_get (pt_local_occurrences q) (cp_definition plan, i) = Some (local_occurrence_of plan i oc)"
    using c moves oc(1) by (simp add: converted_to_def)
  have hd: "xs \<noteq> [] \<and> hd xs = d" by (rule up_chain_hd [OF xs(1)])
  have parent: "lo_parent (local_occurrence_of plan i oc) = (if ?ls = [] then None else Some (last ?ls))"
    using hd oc(2) by (cases xs) (auto simp: local_occurrence_of_def local_parent_def last_rev)
  have placements: "bt_get (pt_placements q) (cp_occurrence plan, s) = None" "bt_get (pt_placements p) (i, s) = None" for s
    using c free by (simp_all add: converted_to_def unplaced_def)
  let ?at = "\<lparr>ri_definition = oc_definition oc, ri_local = oc_transform oc,
    ri_parent_world = chain_place p transform_identity (rev xs),
    ri_world = transform_compose (chain_place p transform_identity (rev xs)) (oc_transform oc)\<rparr>"
  have known: "bt_contains (pt_definitions p) (oc_definition oc)"
    using ok oc(1) by (auto simp: hierarchy_ok_def occurrences_ok_def every_def occurrence_ok_def)
  note at(3)
  also have "resolve_from q (cp_occurrence plan) (map StepGroup ?ls) (if ?ls = [] then None else Some (last ?ls)) at
        (StepOccurrence i # steps) =
      resolve_from q (cp_occurrence plan) (map StepGroup ?ls @ [StepOccurrence i]) None ?at steps"
    using at(1,2) lo parent placements(1) by (simp add: local_occurrence_of_def Let_def)
  also have "\<dots> = resolve_from p i [] None ?at steps"
    by (rule inner_steps [OF c ok]) (simp_all add: known placements)
  finally have steps: "resolve_from q (cp_occurrence plan) [] None ?start (map StepGroup ?ls @ StepOccurrence i # steps) =
      resolve_from p i [] None ?at steps" .
  have component: "bt_get (pt_occurrences q) (cp_occurrence plan) = Some (component_occurrence plan root)"
    using c by (simp add: converted_to_def)
  have "resolve_instance_path q (cp_occurrence plan, map StepGroup ?ls @ StepOccurrence i # steps) =
      resolve_instance_path p (i, steps)"
    using component above steps oc parent_place [OF xs(1)]
    by (simp add: resolve_instance_path_def component_occurrence_def)
  with lineage show thesis by (intro that [of "cp_group plan # ?ls"]) simp_all
qed


section \<open>The mappings tell where\<close>

lemma world_group_lineage_chain:
  "up_chain (group_parents p) d xs \<Longrightarrow> world_group_lineage p d = Inr (rev xs)"
  using climb_chain [of "group_parents p" d xs "[]" "\<lambda>_. False"] by (simp add: world_group_lineage_def)

lemma group_lineage_below:
  assumes "hierarchy_ok p" and "d \<in> below p g"
  shows "\<exists>inner. group_lineage p g d = Inr inner"
proof -
  from below_chain [OF assms] obtain xs where xs: "up_chain (group_parents p) d xs" "g \<in> set xs" .
  from climb_Found [OF xs(1), of "[]" g] xs(2) show ?thesis by (simp add: group_lineage_def)
qed

lemma try_map_total: "(\<And>x. x \<in> set xs \<Longrightarrow> \<exists>y. f x = Inr y) \<Longrightarrow> \<exists>ys. try_map f xs = Inr ys"
proof (induction xs)
  case (Cons x xs)
  then obtain y ys where "f x = Inr y" "try_map f xs = Inr ys" by force
  then show ?case by simp
qed simp

lemma group_mapping_total:
  assumes ok: "hierarchy_ok p" and gs: "set gs = below p (cp_group plan)" and i: "bt_contains (pt_groups p) i"
  shows "\<exists>m. group_mapping p plan gs i = Inr m"
proof -
  from group_chain [OF ok i] obtain xs where "up_chain (group_parents p) i xs" .
  note lineage = world_group_lineage_chain [OF this]
  show ?thesis
  proof (cases "i \<in> set gs")
    case True
    with gs group_lineage_below [OF ok] obtain inner where "group_lineage p (cp_group plan) i = Inr inner" by blast
    with lineage True show ?thesis by (simp add: group_mapping_def)
  qed (simp add: group_mapping_def lineage)
qed

lemma occurrence_lineage:
  assumes ok: "hierarchy_ok p" and oc: "bt_get (pt_occurrences p) i = Some oc"
  shows "\<exists>lineage. (case oc_parent oc of None \<Rightarrow> Ok [] | Some parent \<Rightarrow> world_group_lineage p parent) = Inr lineage"
proof (cases "oc_parent oc")
  case (Some d)
  have "bt_contains (pt_groups p) d"
    using ok oc Some by (auto simp: hierarchy_ok_def occurrences_ok_def every_def occurrence_ok_def)
  from group_chain [OF ok this] obtain xs where "up_chain (group_parents p) d xs" .
  from world_group_lineage_chain [OF this] Some show ?thesis by simp
qed simp

text \<open>The mapping of an occurrence that stays, and of one that moves.\<close>

lemma occurrence_mapping_kept:
  assumes ok: "hierarchy_ok p" and filed: "filed p" and gs: "set gs = below p (cp_group plan)"
    and oc: "bt_get (pt_occurrences p) i = Some oc" and kept: "\<not> moves p (cp_group plan) i"
  shows "\<exists>m. occurrence_mapping p plan gs oc = Inr m \<and> cm_old_id m = WorldOccurrence i \<and> cm_resolution m = Unresolved"
proof -
  from occurrence_lineage [OF ok oc] obtain lineage where
    "(case oc_parent oc of None \<Rightarrow> Ok [] | Some parent \<Rightarrow> world_group_lineage p parent) = Inr lineage" by blast
  moreover have "oc_parent oc = Some d \<Longrightarrow> d \<notin> set gs" for d using kept oc gs by (auto simp: moves_def)
  ultimately show ?thesis using filed_id(3) [OF filed oc] by (cases "oc_parent oc") (auto simp: occurrence_mapping_def)
qed

lemma occurrence_mapping_moved:
  assumes ok: "hierarchy_ok p" and filed: "filed p" and gs: "set gs = below p (cp_group plan)"
    and oc: "bt_get (pt_occurrences p) i = Some oc" "oc_parent oc = Some d" and d: "d \<in> below p (cp_group plan)"
    and inner: "group_lineage p (cp_group plan) d = Inr inner"
  shows "\<exists>m. occurrence_mapping p plan gs oc = Inr m \<and> cm_old_id m = WorldOccurrence i \<and>
    cm_resolution m = ResolvedTo (ConvertedOccurrence (cp_definition plan, i))
      (cp_occurrence plan, map StepGroup (drop 1 inner) @ [StepOccurrence i])"
proof -
  from occurrence_lineage [OF ok oc(1)] oc(2) obtain lineage where "world_group_lineage p d = Inr lineage" by auto
  with oc d gs inner filed_id(3) [OF filed oc(1)] show ?thesis by (simp add: occurrence_mapping_def)
qed

text \<open>The path under which the mapping finds a part, and everything inside it.\<close>

definition mapped_path :: "conversion_mapping \<Rightarrow> u64 \<Rightarrow> path_step list \<Rightarrow> instance_path" where
  "mapped_path m i steps =
     (case cm_resolution m of Unresolved \<Rightarrow> (i, steps) | ResolvedTo _ path \<Rightarrow> (fst path, snd path @ steps))"

lemma occurrence_mapping_place:
  assumes filed: "filed p" and ok: "hierarchy_ok p" and c: "converted_to plan root p q"
    and gs: "set gs = below p (cp_group plan)" and oc: "bt_get (pt_occurrences p) i = Some oc"
    and free: "moves p (cp_group plan) i \<Longrightarrow> unplaced p i" "unplaced p (cp_occurrence plan)"
  shows "\<exists>m. occurrence_mapping p plan gs oc = Inr m \<and> cm_old_id m = WorldOccurrence i \<and>
    (\<forall>steps. resolve_instance_path q (mapped_path m i steps) = resolve_instance_path p (i, steps))"
proof (cases "moves p (cp_group plan) i")
  case False
  from occurrence_mapping_kept [OF ok filed gs oc False] kept_place [OF c ok oc False] show ?thesis
    by (auto simp: mapped_path_def)
next
  case True
  with oc obtain d where d: "oc_parent oc = Some d" "d \<in> below p (cp_group plan)" by (auto simp: moves_def)
  from group_lineage_below [OF ok d(2)] obtain inner where inner: "group_lineage p (cp_group plan) d = Inr inner" by blast
  have place: "resolve_instance_path q (cp_occurrence plan, (map StepGroup (drop 1 inner) @ [StepOccurrence i]) @ steps) =
      resolve_instance_path p (i, steps)" for steps
    using moved_place [OF c ok oc d free(1) [OF True] free(2)] inner by force
  from occurrence_mapping_moved [OF ok filed gs oc d inner] place show ?thesis
    by (auto simp: mapped_path_def)
qed

text \<open>
  C13. a conversion leaves every part where it was.  When a batch that makes a component of a
  group is accepted, the mappings exist, name every occurrence of the product before, and
  under the path they give, the occurrence and every part inside it resolve to the same
  definition with the same transforms, bit for bit.
\<close>

theorem conversion_keeps_places:
  assumes "filed p" and "hierarchy_ok p" and "\<And>q. sharing_sound (share p q) p q"
    and "apply_parts_batch rm bx ck share [ConvertGroupToComponent plan] p = Ok q"
  shows "\<exists>mappings. conversion_mappings p plan = Ok mappings \<and>
    (\<forall>i. bt_contains (pt_occurrences p) i \<longrightarrow>
       (\<exists>m\<in>set mappings. cm_old_id m = WorldOccurrence i \<and>
          (\<forall>steps. resolve_instance_path q (mapped_path m i steps) = resolve_instance_path p (i, steps))))"
proof -
  from batch_keeps_hierarchy [OF assms(4,1,2,3)] have q_ok: "hierarchy_ok q" by simp
  obtain root where c: "converted_to plan root p q"
    using assms(4)
  proof (rule batch_steps)
    fix edited rebound rest rest'
    assume run: "try_fold (edit_part rm bx p) (p, []) [ConvertGroupToComponent plan] = Inr (edited, rebound)"
      and q: "q = (prune_grounded_instances (edited \<lparr>pt_rest := rest\<rparr>)) \<lparr>pt_rest := rest'\<rparr>"
    from run have "convert_group_to_component_model plan p = Inr edited"
      by (auto simp: edit_part_def apply_part_command_def result_simps)
    from conversion_converted [OF assms(1,2) this] obtain root where "converted_to plan root p edited" .
    then have "converted_to plan root p q" unfolding q by (simp add: converted_to_def prune_grounded_instances_def)
    then show thesis by (rule that)
  qed
  have placed: "bt_contains (pt_occurrences q) j" if "bt_get (pt_placements p) (j, s) = Some t" for j s t
  proof -
    have "((j, s), t) \<in> set (pt_placements q)" using c bt_get_entry [OF that] by (simp add: converted_to_def)
    with q_ok show ?thesis
      by (auto simp: hierarchy_ok_def entries_ok_def placement_is_valid_def resolve_product_instance_path_def
          bt_contains_def split: option.splits)
  qed
  have placed_before: "bt_contains (pt_occurrences p) j" if "bt_get (pt_placements p) (j, s) = Some t" for j s t
    using assms(2) bt_get_entry [OF that]
    by (fastforce simp: hierarchy_ok_def entries_ok_def placement_is_valid_def resolve_product_instance_path_def
        bt_contains_def split: option.splits)
  have new: "\<not> bt_contains (pt_occurrences p) (cp_occurrence plan)" using c by (simp add: converted_to_def)
  then have free_new: "unplaced p (cp_occurrence plan)"
    using placed_before by (auto simp: unplaced_def) (metis not_None_eq)
  have free: "unplaced p i" if "moves p (cp_group plan) i" for i
  proof -
    have "i \<noteq> cp_occurrence plan" using that new by (auto simp: moves_def bt_contains_def)
    with c that have "\<not> bt_contains (pt_occurrences q) i" by (simp add: converted_to_def bt_contains_def)
    with placed show ?thesis by (auto simp: unplaced_def) (metis not_None_eq)
  qed
  have "bt_contains (pt_groups p) (cp_group plan)" using c by (simp add: converted_to_def bt_contains_def)
  then obtain gs where gs: "descendant_groups p (cp_group plan) = Inr gs" by (simp add: descendant_groups_def)
  note below = descendant_groups_below [OF gs]
  note place = occurrence_mapping_place [OF assms(1,2) c below _ free free_new]
  obtain groups where groups: "try_map (group_mapping p plan gs) (bt_keys (pt_groups p)) = Inr groups"
    using try_map_total [of "bt_keys (pt_groups p)" "group_mapping p plan gs"] group_mapping_total [OF assms(2) below]
    by (auto simp: bt_contains_iff)
  have listed: "oc \<in> set (bt_values (pt_occurrences p)) \<longleftrightarrow> (\<exists>i. bt_get (pt_occurrences p) i = Some oc)" for oc
    using bt.get_Some_iff [OF filed_wf(6) [OF assms(1)]] by (force simp: bt_values_def)
  obtain occurrences where occurrences: "try_map (occurrence_mapping p plan gs) (bt_values (pt_occurrences p)) = Inr occurrences"
    using try_map_total [of "bt_values (pt_occurrences p)" "occurrence_mapping p plan gs"] place listed by blast
  have "\<exists>m\<in>set occurrences. occurrence_mapping p plan gs oc = Inr m" if "oc \<in> set (bt_values (pt_occurrences p))" for oc
    using occurrences [unfolded try_map_Inr] that by (auto simp: list_all2_conv_all_nth in_set_conv_nth)
  with place listed have "\<exists>m\<in>set occurrences. cm_old_id m = WorldOccurrence i \<and>
      (\<forall>steps. resolve_instance_path q (mapped_path m i steps) = resolve_instance_path p (i, steps))"
    if "bt_contains (pt_occurrences p) i" for i
    using that by (fastforce simp: bt_contains_def)
  with gs groups occurrences show ?thesis by (simp add: conversion_mappings_def) blast
qed


end
