(* ===== verification/Ketchup_Accepted.thy ===== *)
theory Ketchup_Accepted
  imports Ketchup_Component
begin

text \<open>
  What the checks of \<open>Ketchup_Hierarchy\<close> decide: where nothing of the rest objects, a product
  passes exactly when its parts form a hierarchy and its clearances are in order.  With that,
  when a group can be made a component.
\<close>

section \<open>The full checks decide the hierarchy\<close>

lemma full_check_sound:
  assumes keyed: "keyed p" and v: "validate_product ck sh p = Inr u"
  shows "hierarchy_ok p" and "try_each (validate_clearance ck p) (pt_clearances p) = Inr ()"
proof -
  from v have doc: "pt_document p \<noteq> 0"
    and entries: "validate_document_entries ck sh None full_change p = Inr ()"
    and rest: "validate_definitions ck p = Inr ()"
      "try_each (validate_occurrence p) (bt_values (pt_occurrences p)) = Inr ()"
      "validate_groups p = Inr ()" "validate_local_structure ck p = Inr ()"
    by (auto simp: full_check check_simps)
  note e = entries [unfolded validate_document_entries_def Let_def and_then_eq_Inr]
  have "validate_placements p = Inr ()" "validate_grounded_instances p (pt_grounded_instances p) = Inr ()"
    "validate_grounded p = Inr ()" "validate_tags p = Inr ()" "try_each (validate_collection p) (pt_collections p) = Inr ()"
    using e by (auto simp: full_change_def map_err_eq_Inr)
  then have "entries_ok p"
    using doc validate_tags_ok [OF keyed] validate_collections_ok [OF keyed]
    by (auto simp: entries_ok_def validate_placements_ok validate_grounded_instances_ok validate_grounded_ok)
  with rest show "hierarchy_ok p"
    using validate_definitions_local [OF keyed] occurrences_full [OF keyed] validate_groups_ok [OF keyed]
      validate_local_structure_local [OF keyed]
    by (auto simp: hierarchy_ok_def)
  show "try_each (validate_clearance ck p) (pt_clearances p) = Inr ()"
    using e by (auto simp: full_change_def)
qed

lemma hierarchy_members:
  assumes "hierarchy_ok p"
  shows "members_exist p"
proof -
  have "bt_contains (pt_definitions p) (lo_definition lo)" if "bt_get (pt_local_occurrences p) k = Some lo" for k lo
    using assms that everyD [of "pt_local_occurrences p" "local_occurrence_ok p" k lo]
    by (auto simp: hierarchy_ok_def locals_ok_def local_occurrence_ok_def)
  moreover have "bt_contains (pt_local_occurrences p) (d, l)"
    if "bt_get (pt_definitions p) d = Some df" "l \<in> set (df_local_occurrences df)" for d df l
    using assms that by (auto simp: hierarchy_ok_def definitions_ok_def every_def definition_ok_def)
  ultimately show ?thesis by (fastforce simp: members_exist_def bt_contains_def)
qed

lemma quiet_locals:
  assumes "quiet bx ck" and "keyed p" and "hierarchy_ok p"
  shows "validate_local_structure ck p = Inr ()"
proof -
  have "locals_ok p" using assms(3) by (simp add: hierarchy_ok_def)
  then show ?thesis
    using assms(1) ownership_returns [OF hierarchy_members [OF assms(3)]]
    unfolding validate_local_structure_def and_then_eq_Inr locals_ok_def
      try_each_entries [OF keyed_wf(8) [OF assms(2)]] try_each_entries [OF keyed_wf(9) [OF assms(2)]]
    by (auto simp: every_def validate_local_group_ok validate_local_occurrence_ok quiet_def)
qed

lemma quiet_accepts:
  assumes "quiet bx ck" and "keyed p" and "hierarchy_ok p"
    and "try_each (validate_clearance ck p) (pt_clearances p) = Inr ()"
  shows "validate_product_change ck sh prior p = Inr ()"
proof -
  have ok: "entries_ok p" "definitions_ok p" "occurrences_ok p" "groups_ok p"
    using assms(3) by (simp_all add: hierarchy_ok_def)
  have "pt_document p \<noteq> 0" using ok(1) by (simp add: entries_ok_def)
  then show ?thesis
    using quiet_definitions [OF assms(1,2) ok(2)] occurrences_pass [OF assms(2) ok(3)] ok(4)
      quiet_locals [OF assms(1-3)] validate_groups_ok [OF assms(2)] assms(4)
    by (simp add: validate_product_change_def Let_def quiet_entries [OF assms(1,2) ok(1)] ensure_product_id_def
        result_simps del: and_then_eq_Inr)
qed



section \<open>When a group becomes a component\<close>

text \<open>
  The numbers of the groups and of the occurrences of a component come from different counters;
  inside a definition they share one space.
\<close>

definition numbers_clash :: "'r parts \<Rightarrow> u64 \<Rightarrow> bool" where
  "numbers_clash p g \<longleftrightarrow> (\<exists>l. l \<in> below p g \<and> l \<noteq> g \<and> moves p g l)"

text \<open>What names an occurrence of the world by its number or as the root of a path.\<close>

definition pinned :: "'r parts \<Rightarrow> u64 \<Rightarrow> bool" where
  "pinned p i \<longleftrightarrow>
     (\<exists>k co. bt_get (pt_collections p) k = Some co \<and> i \<in> set (co_occurrences co)) \<or> i \<in> set (pt_grounded p) \<or>
     (\<exists>steps t. ((i, steps), t) \<in> set (pt_placements p)) \<or>
     (\<exists>k cv steps. (k, cv) \<in> set (pt_clearances p) \<and> cv_owner cv = OwnedByOccurrence (i, steps))"

lemma converted_definitions:
  assumes c: "converted_to plan root p q" and ok: "hierarchy_ok p" and clash: "\<not> numbers_clash p (cp_group plan)"
    and d: "cp_definition plan \<noteq> 0"
  shows "definitions_ok q"
proof -
  let ?d = "cp_definition plan"
  from c obtain inner oids where io: "set inner = below p (cp_group plan) - {cp_group plan}" "distinct inner"
    "set oids = {i. moves p (cp_group plan) i}" "distinct oids"
    and defs: "\<And>k. bt_get (pt_definitions q) k =
      (if k = ?d then Some (component_definition plan inner oids) else bt_get (pt_definitions p) k)"
    by (auto simp: converted_to_def)
  have groups: "bt_contains (pt_local_groups q) (?d, l)" if "l \<in> set inner" for l
  proof -
    from that io(1) have "l \<in> below p (cp_group plan)" "l \<noteq> cp_group plan" by auto
    moreover from this obtain gr where "bt_get (pt_groups p) l = Some gr" by (auto simp: below_def bt_contains_def)
    ultimately show ?thesis using c by (simp add: converted_to_def bt_contains_def)
  qed
  have occs: "bt_contains (pt_local_occurrences q) (?d, l)" if "l \<in> set oids" for l
  proof -
    from that io(3) have m: "moves p (cp_group plan) l" by simp
    then obtain oc where "bt_get (pt_occurrences p) l = Some oc" by (auto simp: moves_def)
    with c m show ?thesis by (simp add: converted_to_def bt_contains_def)
  qed
  have new: "definition_ok q ?d (component_definition plan inner oids)"
    using io groups occs clash d c
    by (auto simp: definition_ok_def component_definition_def new_definition_def numbers_clash_def converted_to_def)
  have old: "definition_ok q k df" if "bt_get (pt_definitions p) k = Some df" "k \<noteq> ?d" for k df
  proof -
    have "definition_ok p k df"
      using ok that(1) by (simp add: hierarchy_ok_def definitions_ok_def every_def)
    with c that(2) show ?thesis by (simp add: definition_ok_def converted_to_def bt_contains_def)
  qed
  show ?thesis
    unfolding definitions_ok_def every_def using new old defs by (auto split: if_splits)
qed

lemma kept_up_chain:
  assumes c: "converted_to plan root p q" and xs: "up_chain (group_parents p) d xs" and out: "cp_group plan \<notin> set xs"
  shows "up_chain (group_parents q) d xs"
proof (rule up_chain_cong [OF xs])
  fix y assume y: "y \<in> set xs"
  from up_chain_suffix [OF xs y] obtain ws zs where zs: "xs = ws @ zs" "up_chain (group_parents p) y zs" by blast
  with out group_is_descendant_chain [OF zs(2), of "cp_group plan"] have "y \<notin> below p (cp_group plan)"
    by (auto simp: below_def)
  with c show "bt_get (group_parents q) y = bt_get (group_parents p) y"
    by (simp add: bt_get_group_parents converted_to_def)
qed

lemma converted_groups:
  assumes c: "converted_to plan root p q" and ok: "hierarchy_ok p"
  shows "groups_ok q"
proof -
  have "group_ok q k gr" if gr: "bt_get (pt_groups p) k = Some gr" and out: "k \<notin> below p (cp_group plan)" for k gr
  proof -
    have "group_ok p k gr" using ok gr by (simp add: hierarchy_ok_def groups_ok_def every_def)
    moreover from this obtain xs where xs: "up_chain (group_parents p) k xs" by (auto simp: group_ok_def rooted_def)
    moreover have "cp_group plan \<notin> set xs"
      using out gr group_is_descendant_chain [OF xs, of "cp_group plan"] by (auto simp: below_def bt_contains_def)
    ultimately show ?thesis using kept_up_chain [OF c xs] by (auto simp: group_ok_def rooted_def)
  qed
  with c show ?thesis by (auto simp: groups_ok_def every_def converted_to_def split: if_splits)
qed

text \<open>The groups inside the component form trees.\<close>

lemma inner_chain:
  assumes c: "converted_to plan root p q"
  shows "up_chain (group_parents p) d xs \<Longrightarrow> cp_group plan \<in> set xs \<Longrightarrow> d \<noteq> cp_group plan \<Longrightarrow>
    up_chain (local_parents q (cp_definition plan)) d (takeWhile (\<lambda>x. x \<noteq> cp_group plan) xs)"
proof (induction rule: up_chain.induct)
  case (up_root x)
  then show ?case by simp
next
  case (up_step x y xs)
  let ?tw = "takeWhile (\<lambda>x. x \<noteq> cp_group plan)"
  obtain gr where gr: "bt_get (pt_groups p) x = Some gr" "gr_parent gr = Some y"
    using up_step(1) by (auto simp: bt_get_group_parents)
  have "x \<in> below p (cp_group plan)"
    using group_is_descendant_chain [OF up_chain.up_step [OF up_step(1,2)]] up_step.prems gr(1)
    by (auto simp: below_def bt_contains_def)
  with c gr up_step.prems(2) have get: "bt_get (local_parents q (cp_definition plan)) x = Some (local_parent (cp_group plan) (Some y))"
    by (simp add: bt_get_local_parents converted_to_def local_group_of_def)
  show ?case
  proof (cases "y = cp_group plan")
    case True
    have "?tw xs = []" using up_chain_hd [OF up_step(2)] True by (cases xs) auto
    with get True up_step.prems(2) show ?thesis by (simp add: local_parent_def up_chain.up_root)
  next
    case False
    with up_step have "up_chain (local_parents q (cp_definition plan)) y (?tw xs)" by auto
    with get False up_step.prems(2) show ?thesis by (auto simp: local_parent_def intro: up_chain.up_step)
  qed
qed

lemma converted_local_groups:
  assumes c: "converted_to plan root p q" and ok: "hierarchy_ok p" and gr: "bt_get (pt_local_groups q) (d, l) = Some lg"
  shows "local_group_ok q (d, l) lg"
proof (cases "d = cp_definition plan")
  case True
  with c gr obtain g where l: "l \<in> below p (cp_group plan)" "l \<noteq> cp_group plan" and lg: "lg = local_group_of plan l g"
    by (auto simp: converted_to_def split: if_splits)
  from below_chain [OF ok l(1)] obtain xs where "up_chain (group_parents p) l xs" "cp_group plan \<in> set xs" .
  from inner_chain [OF c this l(2)] have "rooted (local_parents q d) l" using True by (auto simp: rooted_def)
  with c l lg True show ?thesis
    by (auto simp: local_group_ok_def local_group_of_def listed_locally_def converted_to_def component_definition_def)
next
  case False
  with c gr have p: "bt_get (pt_local_groups p) (d, l) = Some lg" by (simp add: converted_to_def)
  then have old: "local_group_ok p (d, l) lg"
    using ok everyD [of "pt_local_groups p" "local_group_ok p"] by (simp add: hierarchy_ok_def locals_ok_def)
  then obtain xs where xs: "up_chain (local_parents p d) l xs" by (auto simp: local_group_ok_def rooted_def)
  have "up_chain (local_parents q d) l xs"
    by (rule up_chain_cong [OF xs]) (use c False in \<open>simp add: bt_get_local_parents converted_to_def\<close>)
  with old c False show ?thesis
    by (auto simp: local_group_ok_def listed_locally_def rooted_def converted_to_def)
qed

lemma converted_local_occurrences:
  assumes c: "converted_to plan root p q" and ok: "hierarchy_ok p"
    and get: "bt_get (pt_local_occurrences q) (d, l) = Some lo"
  shows "local_occurrence_ok q (d, l) lo" and "lo_definition lo \<noteq> cp_definition plan"
proof -
  have new: "\<not> bt_contains (pt_definitions p) (cp_definition plan)" using c by (simp add: converted_to_def)
  have keep: "bt_contains (pt_definitions q) k" if "bt_contains (pt_definitions p) k" for k
    using that c by (auto simp: converted_to_def bt_contains_def)
  have "local_occurrence_ok q (d, l) lo \<and> bt_contains (pt_definitions p) (lo_definition lo)"
  proof (cases "d = cp_definition plan")
    case True
    with c get obtain oc where m: "moves p (cp_group plan) l" and oc: "bt_get (pt_occurrences p) l = Some oc"
      and lo: "lo = local_occurrence_of plan l oc"
      by (auto simp: converted_to_def split: if_splits)
    have "occurrence_ok p l oc" using ok oc by (simp add: hierarchy_ok_def occurrences_ok_def every_def)
    moreover obtain y gr where y: "oc_parent oc = Some y" "y \<in> below p (cp_group plan)" "bt_get (pt_groups p) y = Some gr"
      using m oc by (auto simp: moves_def below_def bt_contains_def)
    then have "local_parent_exists q d (local_parent (cp_group plan) (oc_parent oc))"
      using c True by (auto simp: local_parent_exists_def local_parent_def converted_to_def bt_contains_def)
    ultimately show ?thesis
      using c m lo True keep
      by (auto simp: local_occurrence_ok_def local_occurrence_of_def listed_locally_def occurrence_ok_def
          converted_to_def component_definition_def tags_exist_def)
  next
    case False
    with c get have "bt_get (pt_local_occurrences p) (d, l) = Some lo" by (simp add: converted_to_def)
    then have "local_occurrence_ok p (d, l) lo"
      using ok everyD [of "pt_local_occurrences p" "local_occurrence_ok p"] by (simp add: hierarchy_ok_def locals_ok_def)
    with c False keep show ?thesis
      by (auto simp: local_occurrence_ok_def listed_locally_def local_parent_exists_def converted_to_def
          bt_contains_def tags_exist_def split: option.splits)
  qed
  with new show "local_occurrence_ok q (d, l) lo" and "lo_definition lo \<noteq> cp_definition plan" by auto
qed

lemma converted_elsewhere:
  assumes "converted_to plan root p q" and "d \<noteq> cp_definition plan"
  shows "bt_get (pt_definitions q) d = bt_get (pt_definitions p) d"
    and "bt_get (pt_local_groups q) (d, l) = bt_get (pt_local_groups p) (d, l)"
    and "bt_get (pt_local_occurrences q) (d, l) = bt_get (pt_local_occurrences p) (d, l)"
  using assms by (auto simp: converted_to_def)

lemma converted_acyclic:
  assumes c: "converted_to plan root p q" and ok: "hierarchy_ok p"
  shows "acyclic (holds q)"
proof -
  let ?new = "cp_definition plan"
  have into: "t \<noteq> ?new" if "(d, t) \<in> holds q" for d t
    using that converted_local_occurrences(2) [OF c ok] by (auto simp: holds_def)
  have old: "(d, t) \<in> holds p" if "(d, t) \<in> holds q" "d \<noteq> ?new" for d t
    using that converted_elsewhere [OF c that(2)] by (simp add: holds_def)
  have "(x, z) \<in> (holds p)\<^sup>+" if "(x, z) \<in> (holds q)\<^sup>+" "x \<noteq> ?new" for x z
    using that(1)
  proof (induction rule: trancl_induct)
    case (base y)
    with old that(2) show ?case by auto
  next
    case (step y z)
    have "y \<noteq> ?new" using step(1) into by (metis tranclE)
    with old step show ?case by (meson trancl.trancl_into_trancl)
  qed
  moreover have "x \<noteq> ?new" if "(x, x) \<in> (holds q)\<^sup>+" for x using that into by (metis tranclE)
  moreover have "acyclic (holds p)" using ok by (simp add: hierarchy_ok_def locals_ok_def)
  ultimately show ?thesis unfolding acyclic_def by blast
qed

lemma converted_places:
  assumes c: "converted_to plan root p q" and ok: "hierarchy_ok p"
    and o: "cp_occurrence plan \<noteq> 0" and d: "bt_contains (pt_definitions q) (cp_definition plan)"
  shows "occurrences_ok q"
proof -
  have root: "bt_get (pt_groups p) (cp_group plan) = Some root" using c by (simp add: converted_to_def)
  then have root_ok: "group_ok p (cp_group plan) root" using ok by (simp add: hierarchy_ok_def groups_ok_def every_def)
  have outside: "bt_contains (pt_groups q) up" if "bt_contains (pt_groups p) up" "up \<notin> below p (cp_group plan)" for up
    using that c by (simp add: converted_to_def bt_contains_def)
  have up: "bt_contains (pt_groups q) up" if parent: "gr_parent root = Some up" for up
  proof -
    from root_ok obtain xs where xs: "up_chain (group_parents p) (cp_group plan) xs" by (auto simp: group_ok_def rooted_def)
    then obtain ys where ys: "xs = cp_group plan # ys" "up_chain (group_parents p) up ys"
      by (cases rule: up_chain.cases) (use root parent in \<open>auto simp: bt_get_group_parents\<close>)
    have "cp_group plan \<notin> set ys" using up_chain_distinct [OF xs] ys(1) by simp
    then have "up \<notin> below p (cp_group plan)" using group_is_descendant_chain [OF ys(2)] by (simp add: below_def)
    moreover have "bt_contains (pt_groups p) up"
      using root_ok root parent rooted_group_parent by (auto simp: group_ok_def)
    ultimately show ?thesis by (rule outside [rotated])
  qed
  have new: "occurrence_ok q (cp_occurrence plan) (component_occurrence plan root)"
    using c o d up root_ok
    by (auto simp: occurrence_ok_def component_occurrence_def tags_exist_def converted_to_def group_ok_def)
  have "occurrence_ok q i oc" if oc: "bt_get (pt_occurrences p) i = Some oc" "\<not> moves p (cp_group plan) i" for i oc
  proof -
    have "occurrence_ok p i oc" using ok oc by (simp add: hierarchy_ok_def occurrences_ok_def every_def)
    moreover have "y \<notin> below p (cp_group plan)" if "oc_parent oc = Some y" for y using oc that by (auto simp: moves_def)
    ultimately show ?thesis
      using c outside by (auto simp: occurrence_ok_def tags_exist_def converted_to_def bt_contains_def)
  qed
  with new c show ?thesis by (auto simp: occurrences_ok_def every_def converted_to_def split: if_splits)
qed

text \<open>Paths from occurrences that stay lead where they led.\<close>

lemma converted_steps:
  assumes c: "converted_to plan root p q" and ok: "hierarchy_ok p"
  shows "bt_contains (pt_definitions p) d \<Longrightarrow> resolve_steps q d parent steps = resolve_steps p d parent steps"
proof (induction steps arbitrary: d parent)
  case Nil
  then show ?case by simp
next
  case (Cons s steps)
  have "d \<noteq> cp_definition plan" using c Cons.prems by (auto simp: converted_to_def)
  note same = converted_elsewhere [OF c this]
  have "bt_contains (pt_definitions p) (lo_definition lo)" if "bt_get (pt_local_occurrences p) k = Some lo" for k lo
    using ok that everyD [of "pt_local_occurrences p" "local_occurrence_ok p" k lo]
    by (auto simp: hierarchy_ok_def locals_ok_def local_occurrence_ok_def)
  with same Cons show ?case by (cases s) (auto split: option.split)
qed

lemma converted_path:
  assumes c: "converted_to plan root p q" and ok: "hierarchy_ok p" and oc: "bt_get (pt_occurrences p) i = Some oc"
    and kept: "\<not> moves p (cp_group plan) i"
  shows "resolve_product_instance_path q (i, steps) = resolve_product_instance_path p (i, steps)"
proof -
  have "i \<noteq> cp_occurrence plan" using c oc by (auto simp: converted_to_def bt_contains_def)
  moreover have "bt_contains (pt_definitions p) (oc_definition oc)"
    using ok oc by (auto simp: hierarchy_ok_def occurrences_ok_def every_def occurrence_ok_def)
  ultimately show ?thesis
    using c oc kept converted_steps [OF c ok] by (simp add: resolve_product_instance_path_def converted_to_def)
qed

lemma placed_occurrence:
  assumes "placement_is_valid p ((i, steps), t)"
  obtains oc where "bt_get (pt_occurrences p) i = Some oc"
  using assms by (auto simp: placement_is_valid_def resolve_product_instance_path_def split: option.splits)

lemma converted_entries:
  assumes c: "converted_to plan root p q" and ok: "hierarchy_ok p"
    and kept: "pt_collections q = pt_collections p" "pt_grounded q = pt_grounded p"
    and paths: "\<forall>path\<in>set (pt_grounded_instances q). resolve_product_instance_path q path \<noteq> None"
    and free: "\<And>i. moves p (cp_group plan) i \<Longrightarrow> \<not> pinned p i"
  shows "entries_ok q"
proof -
  have e: "entries_ok p" using ok by (simp add: hierarchy_ok_def)
  have keep: "bt_contains (pt_occurrences q) i" if "bt_contains (pt_occurrences p) i" "\<not> moves p (cp_group plan) i" for i
    using c that by (auto simp: converted_to_def bt_contains_def)
  have "collection_ok q k co" if co: "bt_get (pt_collections p) k = Some co" for k co
  proof -
    have "collection_ok p k co" using e co by (simp add: entries_ok_def every_def)
    moreover have "\<not> moves p (cp_group plan) i" if "i \<in> set (co_occurrences co)" for i
      using free [of i] co that by (auto simp: pinned_def)
    ultimately show ?thesis using keep by (simp add: collection_ok_def)
  qed
  moreover have "bt_contains (pt_occurrences q) i" if "i \<in> set (pt_grounded p)" for i
    using e that keep [of i] free [of i] by (auto simp: entries_ok_def pinned_def)
  moreover have "placement_is_valid q entry" if entry: "entry \<in> set (pt_placements p)" for entry
  proof -
    obtain i steps t where s: "entry = ((i, steps), t)" by (metis surj_pair)
    have v: "placement_is_valid p ((i, steps), t)" using e entry s by (auto simp: entries_ok_def)
    then obtain oc where "bt_get (pt_occurrences p) i = Some oc" by (rule placed_occurrence)
    moreover have "\<not> moves p (cp_group plan) i" using free [of i] entry s by (auto simp: pinned_def)
    ultimately show ?thesis using v converted_path [OF c ok] unfolding s by (simp add: placement_is_valid_def)
  qed
  ultimately show ?thesis
    using e c kept paths by (simp add: entries_ok_def every_def converted_to_def)
qed

lemma converted_clearances:
  assumes c: "converted_to plan root p q" and ok: "hierarchy_ok p" and rest: "pt_rest q = pt_rest p"
    and valid: "try_each (validate_clearance ck p) (pt_clearances p) = Inr ()"
  shows "try_each (validate_clearance ck q) (pt_clearances q) = Inr () \<longleftrightarrow>
    (\<forall>i. moves p (cp_group plan) i \<longrightarrow>
       \<not> (\<exists>k cv steps. (k, cv) \<in> set (pt_clearances p) \<and> cv_owner cv = OwnedByOccurrence (i, steps)))"
proof -
  have each: "validate_clearance ck q (k, cv) = Inr () \<longleftrightarrow>
      (\<forall>i steps. cv_owner cv = OwnedByOccurrence (i, steps) \<longrightarrow> \<not> moves p (cp_group plan) i)"
    if v: "validate_clearance ck p (k, cv) = Inr ()" for k cv
  proof (cases "cv_owner cv")
    case (OwnedBySpace s)
    with v rest show ?thesis by (simp add: validate_clearance_def)
  next
    case (OwnedByOccurrence path)
    obtain i steps where path: "path = (i, steps)" by (cases path)
    from v OwnedByOccurrence path have shape: "k = cv_id cv \<and> has_positive_volume cv"
      and "(case resolve_instance_path p (i, steps) of Inl (Refused _) \<Rightarrow> Err (Refused InvalidClearanceOwner)
            | Inl stop \<Rightarrow> Err stop | Inr _ \<Rightarrow> Ok ()) = Ok ()"
      by (auto simp: validate_clearance_def result_simps)
    then obtain r where r: "resolve_instance_path p (i, steps) = Inr r" by (auto split: sum.splits parts_stop.splits)
    then obtain oc where oc: "bt_get (pt_occurrences p) i = Some oc" by (auto simp: resolve_instance_path_def result_simps)
    show ?thesis
    proof (cases "moves p (cp_group plan) i")
      case True
      have "i \<noteq> cp_occurrence plan" using c oc by (auto simp: converted_to_def bt_contains_def)
      with True c have "bt_get (pt_occurrences q) i = None" by (simp add: converted_to_def)
      then have "resolve_instance_path q (i, steps) = Inl (Refused InvalidInstancePath)"
        by (simp add: resolve_instance_path_def)
      with True OwnedByOccurrence path shape show ?thesis by (simp add: validate_clearance_def)
    next
      case False
      with kept_place [OF c ok oc False] r OwnedByOccurrence path shape show ?thesis by (simp add: validate_clearance_def)
    qed
  qed
  have "pt_clearances q = pt_clearances p" using c by (simp add: converted_to_def)
  with each valid show ?thesis by (fastforce simp: try_each_Inr)
qed

text \<open>The numbers the store plans are new.\<close>

lemma next_id_fresh:
  assumes "next_id ids = Inr n"
  shows "n \<noteq> 0" and "n \<notin> set ids"
proof -
  let ?m = "if ids = [] then 0 else Max (set ids)"
  from assms have n: "n = ?m + 1" "unat ?m + 1 < 2 ^ 64"
    by (auto simp: next_id_def checked_add_u64_def ok_or_eq split: if_splits)
  then have "unat n = unat ?m + 1" by (simp add: unat_word_ariths)
  then have less: "?m < n" by (simp add: word_less_nat_alt)
  then show "n \<noteq> 0" by auto
  show "n \<notin> set ids"
  proof
    assume i: "n \<in> set ids"
    then have "n \<le> ?m" by (auto intro: Max_ge)
    with less show False by simp
  qed
qed

lemma plan_fresh:
  assumes "plan_conversion p g name = Inr plan" and "filed p"
  shows "cp_group plan = g" "cp_name plan = name" "cp_definition plan \<noteq> 0" "cp_occurrence plan \<noteq> 0"
    "\<not> bt_contains (pt_definitions p) (cp_definition plan)" "\<not> bt_contains (pt_occurrences p) (cp_occurrence plan)"
proof -
  have listed: "k \<in> set (map idf (bt_values m))" if "bt_get m k = Some v" "idf v = k" for m :: "(u64, 'v) btree_map" and idf k v
    using bt_get_entry [OF that(1)] that(2) by (force simp: bt_values_def)
  from assms(1) obtain did oid where ids: "next_id (map df_id (bt_values (pt_definitions p))) = Inr did"
    "next_id (map oc_id (bt_values (pt_occurrences p))) = Inr oid"
    and plan: "plan = \<lparr>cp_group = g, cp_definition = did, cp_occurrence = oid, cp_name = name\<rparr>"
    by (auto simp: plan_conversion_def result_simps)
  show "cp_group plan = g" "cp_name plan = name" "cp_definition plan \<noteq> 0" "cp_occurrence plan \<noteq> 0"
    using next_id_fresh [OF ids(1)] next_id_fresh [OF ids(2)] by (simp_all add: plan)
  show "\<not> bt_contains (pt_definitions p) (cp_definition plan)"
    using next_id_fresh(2) [OF ids(1)] listed [of "pt_definitions p" did _ df_id] filed_id(2) [OF assms(2)]
    by (auto simp: plan bt_contains_def)
  show "\<not> bt_contains (pt_occurrences p) (cp_occurrence plan)"
    using next_id_fresh(2) [OF ids(2)] listed [of "pt_occurrences p" oid _ oc_id] filed_id(3) [OF assms(2)]
    by (auto simp: plan bt_contains_def)
qed

lemma index_fold_total:
  "set ids \<subseteq> set (bt_keys src) \<Longrightarrow>
   \<exists>m'. try_fold (\<lambda>m i. and_then (index_map src i) (\<lambda>x. Ok (bt_insert (d, i) (f i x) m))) m ids = Inr m'"
proof (induction ids arbitrary: m)
  case (Cons i ids)
  then obtain x where "bt_get src i = Some x" by (auto simp: bt_contains_iff [symmetric] bt_contains_def)
  with Cons show ?case by (simp add: index_map_def)
qed simp

lemma conversion_total:
  assumes filed: "filed p" and g: "bt_contains (pt_groups p) (cp_group plan)"
    and new: "\<not> bt_contains (pt_definitions p) (cp_definition plan)" "\<not> bt_contains (pt_occurrences p) (cp_occurrence plan)"
    and name: "\<not> trim_is_empty (cp_name plan)"
  shows "\<exists>e. convert_group_to_component_model plan p = Inr e"
proof -
  from g obtain root where root: "bt_get (pt_groups p) (cp_group plan) = Some root" by (auto simp: bt_contains_def)
  let ?gs = "filter (group_is_descendant p (cp_group plan)) (bt_keys (pt_groups p))"
  have gs: "descendant_groups p (cp_group plan) = Inr ?gs" using g by (simp add: descendant_groups_def)
  have "set (converted_occurrences p ?gs) \<subseteq> set (bt_keys (pt_occurrences p))"
    using converted_occurrences_iff [OF filed] by (auto dest: bt_get_Some_keys)
  then obtain los where los: "add_local_occurrences plan p (converted_occurrences p ?gs) = Inr los"
    unfolding add_local_occurrences_def using index_fold_total by blast
  have "set (filter (\<lambda>i. i \<noteq> cp_group plan) ?gs) \<subseteq> set (bt_keys (pt_groups p))" by auto
  then obtain lgs where lgs: "add_local_groups plan p (filter (\<lambda>i. i \<noteq> cp_group plan) ?gs) = Inr lgs"
    unfolding add_local_groups_def using index_fold_total by blast
  show ?thesis
    unfolding convert_group_to_component_model_def Let_def gs
    using root new name los lgs by (simp add: ensure_name_def del: filter_filter)
qed

lemma conversion_fields:
  "convert_group_to_component_model plan p = Inr e \<Longrightarrow>
   pt_collections e = pt_collections p \<and> pt_grounded e = pt_grounded p \<and> pt_rest e = pt_rest p"
  by (erule conversion_Inr) simp

lemma quiet_batch:
  assumes quiet: "quiet bx ck" and e: "apply_part_command rm command p = Inr e" and "\<not> is_view_only command"
  shows "apply_parts_batch rm bx ck share [command] p =
    (let q = prune_grounded_instances e in
     and_then (validate_product_change ck (share p q) (Some p) q) (\<lambda>_.
     and_then (bx_after bx p [command] q) (\<lambda>_. Ok q)))"
proof -
  let ?q = "prune_grounded_instances e"
  have "bx_rebound bx p e = []" "bx_refresh bx p cs e = Ok (pt_rest e)" "bx_prune bx ?q = Ok (pt_rest ?q)" for cs
    using quiet by (simp_all add: quiet_def)
  then show ?thesis
    using assms(3)
    by (simp add: apply_parts_batch_def edit_part_def e with_rest_def check_parts_def Let_def)
       (simp add: and_then_def split: sum.split)
qed

lemma conversion_mappings_total:
  assumes filed: "filed p" and ok: "hierarchy_ok p" and g: "bt_contains (pt_groups p) (cp_group plan)"
  shows "\<exists>mappings. conversion_mappings p plan = Inr mappings"
proof -
  from g obtain gs where gs: "descendant_groups p (cp_group plan) = Inr gs" by (simp add: descendant_groups_def)
  note below = descendant_groups_below [OF gs]
  have each: "\<exists>m. occurrence_mapping p plan gs oc = Inr m" if "oc \<in> set (bt_values (pt_occurrences p))" for oc
  proof -
    from that obtain i where oc: "bt_get (pt_occurrences p) i = Some oc"
      using bt.get_Some_iff [OF filed_wf(6) [OF filed]] by (force simp: bt_values_def)
    show ?thesis
    proof (cases "moves p (cp_group plan) i")
      case True
      with oc obtain d where d: "oc_parent oc = Some d" "d \<in> below p (cp_group plan)" by (auto simp: moves_def)
      from group_lineage_below [OF ok d(2)] obtain inner where "group_lineage p (cp_group plan) d = Inr inner" by blast
      from occurrence_mapping_moved [OF ok filed below oc d this] show ?thesis by blast
    next
      case False
      from occurrence_mapping_kept [OF ok filed below oc this] show ?thesis by blast
    qed
  qed
  obtain occurrences where "try_map (occurrence_mapping p plan gs) (bt_values (pt_occurrences p)) = Inr occurrences"
    using try_map_total [of "bt_values (pt_occurrences p)" "occurrence_mapping p plan gs"] each by blast
  moreover obtain groups where "try_map (group_mapping p plan gs) (bt_keys (pt_groups p)) = Inr groups"
    using try_map_total [of "bt_keys (pt_groups p)" "group_mapping p plan gs"] group_mapping_total [OF ok below]
    by (auto simp: bt_contains_iff)
  ultimately show ?thesis using gs by (simp add: conversion_mappings_def)
qed

text \<open>What a conversion that passed the checks says of the product before.\<close>

lemma converted_free:
  assumes c: "converted_to plan root p q" and ok: "hierarchy_ok p" and q: "hierarchy_ok q"
    and kept: "pt_collections q = pt_collections p" "pt_grounded q = pt_grounded p"
    and moves: "moves p (cp_group plan) i"
  shows "\<not> numbers_clash p (cp_group plan)"
    and "\<not> (\<exists>k co. bt_get (pt_collections p) k = Some co \<and> i \<in> set (co_occurrences co))"
    and "i \<notin> set (pt_grounded p)" and "\<not> (\<exists>steps t. ((i, steps), t) \<in> set (pt_placements p))"
proof -
  from c obtain inner oids where io: "set inner = below p (cp_group plan) - {cp_group plan}"
    "set oids = {i. moves p (cp_group plan) i}"
    "bt_get (pt_definitions q) (cp_definition plan) = Some (component_definition plan inner oids)"
    by (auto simp: converted_to_def)
  with q have "definition_ok q (cp_definition plan) (component_definition plan inner oids)"
    by (auto simp: hierarchy_ok_def definitions_ok_def every_def)
  then have "distinct (inner @ oids)" by (simp add: definition_ok_def component_definition_def)
  with io show "\<not> numbers_clash p (cp_group plan)" by (auto simp: numbers_clash_def)
  have "i \<noteq> cp_occurrence plan" using c moves by (auto simp: converted_to_def moves_def bt_contains_def)
  with c moves have gone: "\<not> bt_contains (pt_occurrences q) i" by (simp add: converted_to_def bt_contains_def)
  have e: "entries_ok q" using q by (simp add: hierarchy_ok_def)
  show "\<not> (\<exists>k co. bt_get (pt_collections p) k = Some co \<and> i \<in> set (co_occurrences co))"
    using e gone kept by (auto simp: entries_ok_def every_def collection_ok_def)
  show "i \<notin> set (pt_grounded p)" using e gone kept by (auto simp: entries_ok_def)
  show "\<not> (\<exists>steps t. ((i, steps), t) \<in> set (pt_placements p))"
  proof
    assume "\<exists>steps t. ((i, steps), t) \<in> set (pt_placements p)"
    then obtain steps t where "((i, steps), t) \<in> set (pt_placements q)" using c by (auto simp: converted_to_def)
    with e have "placement_is_valid q ((i, steps), t)" by (auto simp: entries_ok_def)
    with gone show False by (auto elim!: placed_occurrence simp: bt_contains_def)
  qed
qed

lemma conversion_changes_structure:
  assumes "converted_to plan root p q"
  shows "ch_structure (product_change_between sh (Some p) q)"
proof -
  have "\<not> same_keys (pt_definitions p) (pt_definitions q)"
    using assms same_keys_contains [of "pt_definitions p" "pt_definitions q" "cp_definition plan"]
    by (auto simp: converted_to_def bt_contains_def)
  then show ?thesis
    by (simp add: product_change_between_def definition_inputs_unchanged_def same_entries_def Let_def)
qed

lemma conversion_checked:
  assumes ok: "hierarchy_ok p" and quiet: "quiet bx ck"
    and valid: "try_each (validate_clearance ck p) (pt_clearances p) = Inr ()"
    and c: "converted_to plan root p q" and q: "keyed p" "keyed q" "sharing_sound sh p q"
    and kept: "pt_collections q = pt_collections p" "pt_grounded q = pt_grounded p" "pt_rest q = pt_rest p"
    and paths: "\<forall>path\<in>set (pt_grounded_instances q). resolve_product_instance_path q path \<noteq> None"
    and new: "cp_definition plan \<noteq> 0" "cp_occurrence plan \<noteq> 0"
  shows "validate_product_change ck sh (Some p) q = Inr () \<longleftrightarrow>
    \<not> numbers_clash p (cp_group plan) \<and> (\<forall>i. moves p (cp_group plan) i \<longrightarrow> \<not> pinned p i)"
proof
  assume v: "validate_product_change ck sh (Some p) q = Inr ()"
  have "edit_of sh p q" using q by (simp add: edit_of_def)
  from incremental_check_sound [OF this ok v] have ok_q: "hierarchy_ok q" .
  note free = converted_free [OF c ok ok_q kept(1,2)]
  have "entries_ok q" using ok_q by (simp add: hierarchy_ok_def)
  with v have "try_each (validate_clearance ck q) (pt_clearances q) = Inr ()"
    using conversion_changes_structure [OF c]
    by (auto simp: validate_product_change_def Let_def quiet_entries [OF quiet q(2)] recheck_Some result_simps)
  with converted_clearances [OF c ok kept(3) valid] free(2-4)
  have pinned: "\<forall>i. moves p (cp_group plan) i \<longrightarrow> \<not> pinned p i"
    unfolding pinned_def by blast
  have "\<not> numbers_clash p (cp_group plan)" using free(1) by (auto simp: numbers_clash_def)
  with pinned show "\<not> numbers_clash p (cp_group plan) \<and> (\<forall>i. moves p (cp_group plan) i \<longrightarrow> \<not> pinned p i)" by blast
next
  assume free: "\<not> numbers_clash p (cp_group plan) \<and> (\<forall>i. moves p (cp_group plan) i \<longrightarrow> \<not> pinned p i)"
  have definitions: "definitions_ok q" using converted_definitions [OF c ok _ new(1)] free by blast
  have "bt_contains (pt_definitions q) (cp_definition plan)" using c by (auto simp: converted_to_def bt_contains_def)
  note places = converted_places [OF c ok new(2) this]
  have "locals_ok q"
    using converted_local_groups [OF c ok] converted_local_occurrences(1) [OF c ok] converted_acyclic [OF c ok]
    by (auto simp: locals_ok_def intro!: everyI)
  moreover have "entries_ok q" using converted_entries [OF c ok kept(1,2) paths] free by blast
  ultimately have ok_q: "hierarchy_ok q"
    using definitions places converted_groups [OF c ok] by (simp add: hierarchy_ok_def)
  have "try_each (validate_clearance ck q) (pt_clearances q) = Inr ()"
    using converted_clearances [OF c ok kept(3) valid] free by (auto simp: pinned_def)
  from quiet_accepts [OF quiet q(2) ok_q this] show "validate_product_change ck sh (Some p) q = Inr ()" .
qed

lemma conversion_batch:
  assumes filed: "filed p" and ok: "hierarchy_ok p" and quiet: "quiet bx ck" and "\<And>cs q. bx_after bx p cs q = Ok ()"
    and sound: "\<And>q. sharing_sound (share p q) p q"
    and valid: "try_each (validate_clearance ck p) (pt_clearances p) = Ok ()"
    and plan: "plan_conversion p g name = Ok plan" and name: "\<not> trim_is_empty name"
  shows "is_ok (apply_parts_batch rm bx ck share [ConvertGroupToComponent plan] p) \<longleftrightarrow>
    \<not> numbers_clash p g \<and> (\<forall>i. moves p g i \<longrightarrow> \<not> pinned p i)"
proof -
  note fresh = plan_fresh [OF plan filed]
  have g: "bt_contains (pt_groups p) (cp_group plan)" using plan fresh(1) by (auto simp: plan_conversion_def result_simps)
  obtain e where e: "convert_group_to_component_model plan p = Inr e"
    using conversion_total [OF filed g fresh(5,6)] name fresh(2) by auto
  from conversion_converted [OF filed ok e] obtain root where "converted_to plan root p e" .
  let ?q = "prune_grounded_instances e"
  have c: "converted_to plan root p ?q"
    using \<open>converted_to plan root p e\<close> by (simp add: converted_to_def prune_grounded_instances_def)
  have keyed: "keyed p" "keyed ?q"
    using filed conversion_filed [OF e filed] prune_filed [of e] by (simp_all add: filed_def)
  have kept: "pt_collections ?q = pt_collections p" "pt_grounded ?q = pt_grounded p" "pt_rest ?q = pt_rest p"
    using conversion_fields [OF e] by (simp_all add: prune_grounded_instances_def)
  have paths: "\<forall>path\<in>set (pt_grounded_instances ?q). resolve_product_instance_path ?q path \<noteq> None"
  proof -
    have "resolve_product_instance_path ?q = resolve_product_instance_path e"
      by (intro ext resolve_path_cong) (simp_all add: prune_grounded_instances_def)
    then show ?thesis by (simp add: prune_grounded_instances_def)
  qed
  have "apply_part_command rm (ConvertGroupToComponent plan) p = Inr e" using e by (simp add: apply_part_command_def)
  from quiet_batch [OF quiet this] assms(4)
  have batch: "apply_parts_batch rm bx ck share [ConvertGroupToComponent plan] p =
      and_then (validate_product_change ck (share p ?q) (Some p) ?q) (\<lambda>_. Ok ?q)"
    by (simp add: is_view_only_def Let_def)
  show ?thesis
    using conversion_checked [OF ok quiet valid c keyed sound kept paths fresh(3,4)]
    by (auto simp: batch is_ok_iff fresh(1) result_simps)
qed

text \<open>
  C14. when a group becomes a component.  Where nothing of the rest objects, the store converts a
  group exactly when no group below it has the number of an occurrence that moves along, and no
  occurrence that moves is in a collection, grounded, placed by its path or the owner of a clearance.
\<close>

theorem conversion_accepted_iff:
  assumes filed: "filed p" and ok: "hierarchy_ok p" and quiet: "quiet bx ck" and "\<And>cs q. bx_after bx p cs q = Ok ()"
    and sound: "\<And>q. sharing_sound (share p q) p q"
    and valid: "try_each (validate_clearance ck p) (pt_clearances p) = Ok ()"
    and plan: "plan_conversion p g name = Ok plan" and name: "\<not> trim_is_empty name"
  shows "is_ok (convert_group_to_component rm bx ck share g name p) \<longleftrightarrow>
    \<not> numbers_clash p g \<and> (\<forall>i. moves p g i \<longrightarrow> \<not> pinned p i)"
proof -
  note fresh = plan_fresh [OF plan filed]
  have "bt_contains (pt_groups p) (cp_group plan)" using plan fresh(1) by (auto simp: plan_conversion_def result_simps)
  from conversion_mappings_total [OF filed ok this] obtain mappings where "conversion_mappings p plan = Inr mappings" ..
  then show ?thesis
    unfolding conversion_batch [where share = share and rm = rm, OF assms, symmetric]
    by (auto simp: convert_group_to_component_def plan is_ok_iff result_simps)
qed

end
