(* ===== verification/Ketchup_Sample.thy ===== *)
theory Ketchup_Sample
  imports Ketchup_Accepted
begin

text \<open>
  A small assembly: a part in a group that hangs in another group, and the results of
  \<open>Ketchup_Assembly\<close> to \<open>Ketchup_Accepted\<close> at it.  The rest of the product is empty, so
  nothing else objects; entries are shared when they are equal.
\<close>

definition same_value :: "'r parts \<Rightarrow> 'r parts \<Rightarrow> sharing" where
  "same_value before p =
     \<lparr>sh_tags = (\<lambda>k. bt_get (pt_tags before) k = bt_get (pt_tags p) k),
      sh_collections = (\<lambda>k. bt_get (pt_collections before) k = bt_get (pt_collections p) k),
      sh_definitions = (\<lambda>k. bt_get (pt_definitions before) k = bt_get (pt_definitions p) k),
      sh_occurrences = (\<lambda>k. bt_get (pt_occurrences before) k = bt_get (pt_occurrences p) k),
      sh_groups = (\<lambda>k. bt_get (pt_groups before) k = bt_get (pt_groups p) k),
      sh_local_occurrences = (\<lambda>k. bt_get (pt_local_occurrences before) k = bt_get (pt_local_occurrences p) k),
      sh_local_groups = (\<lambda>k. bt_get (pt_local_groups before) k = bt_get (pt_local_groups p) k),
      sh_clearances = (\<lambda>k. bt_get (pt_clearances before) k = bt_get (pt_clearances p) k),
      sh_definition_rest = True, sh_rest = (\<lambda>_. True)\<rparr>"

lemma same_value_sound: "sharing_sound (same_value before p) before p"
  by (simp add: sharing_sound_def shares_def same_value_def)

definition no_rest :: "unit rest_model" where
  "no_rest = \<lparr>rm_tag_holders = (\<lambda>_ _. []), rm_forget_tag = (\<lambda>_ r. r), rm_occurrence_use = (\<lambda>_ _. None),
     rm_forget_definition = (\<lambda>_ r. r)\<rparr>"

definition no_batch_rest :: "unit batch_rest" where
  "no_batch_rest = \<lparr>bx_rebound = (\<lambda>_ _. []), bx_refresh = (\<lambda>_ _ p. Ok (pt_rest p)), bx_prune = (\<lambda>p. Ok (pt_rest p)),
     bx_views = (\<lambda>_. Ok ()), bx_after = (\<lambda>_ _ _. Ok ())\<rparr>"

definition no_checks :: "unit rest_checks" where
  "no_checks = \<lparr>ck_codes = [], ck_floor = (\<lambda>_. Ok ()), ck_threads = [], ck_relations = [], ck_graph = (\<lambda>_. Ok ()),
     ck_spaces = [], ck_has_space = (\<lambda>_ _. False), ck_dimensions = [], ck_views = [], ck_receipts = (\<lambda>_. Ok ()),
     ck_bodies = (\<lambda>_ _. Ok ()), ck_features = (\<lambda>_. Ok ()), ck_suppression = (\<lambda>_. Ok ())\<rparr>"

lemma no_rest_quiet: "quiet no_batch_rest no_checks"
  by (simp add: quiet_def no_batch_rest_def no_checks_def)

lemma no_rest_after: "bx_after no_batch_rest p cs q = Ok ()"
  by (simp add: no_batch_rest_def)

lemma no_rest_respects: "rest_respects no_checks sh before p"
  by (simp add: rest_respects_def no_checks_def Let_def)

definition sample_group :: "u64 \<Rightarrow> u64 option \<Rightarrow> part_group" where
  "sample_group i up =
     \<lparr>gr_id = i, gr_name = ''Group'', gr_transform = transform_identity, gr_parent = up, gr_logical = False\<rparr>"

definition sample_occurrence :: "u64 \<Rightarrow> occurrence" where
  "sample_occurrence n =
     \<lparr>oc_id = n, oc_definition = 5, oc_name = ''Part'', oc_transform = transform_identity, oc_parent = Some 1,
      oc_tags = [], oc_visible = True, oc_color = None\<rparr>"

definition sample_clearance :: clearance_volume where
  "sample_clearance =
     \<lparr>cv_id = 1, cv_owner = OwnedByOccurrence (7, []), cv_min = (0, 0, 0), cv_max = (f64_one, f64_one, f64_one)\<rparr>"

text \<open>The part is occurrence \<open>n\<close>, in group 1, which is in group 2.\<close>

definition sample_parts :: "u64 \<Rightarrow> (u64, clearance_volume) btree_map \<Rightarrow> unit parts" where
  "sample_parts n clearances =
     \<lparr>pt_document = 1, pt_tags = [], pt_dimensions = [], pt_assignments = [], pt_collections = [],
      pt_definitions = [(5, new_definition 5 ''Part'')], pt_occurrences = [(n, sample_occurrence n)],
      pt_groups = [(1, sample_group 1 (Some 2)), (2, sample_group 2 None)], pt_local_occurrences = [],
      pt_local_groups = [], pt_grounded = [], pt_grounded_instances = [], pt_placements = [],
      pt_clearances = clearances, pt_rest = ()\<rparr>"

lemma sample_valid: "transform_is_valid transform_identity" "\<not> trim_is_empty ''Group''" "\<not> trim_is_empty ''Part''"
  by (simp_all add: transform_is_valid_def transform_identity_def f64_is_finite_def f64_exponent_def f64_is_zero_def
      f64_one_def trim_is_empty_def str_chars_def is_whitespace_def)

lemma sample_filed: "bt_wf clearances \<Longrightarrow> filed (sample_parts n clearances)"
  by (auto simp: filed_def keyed_def classified_def sample_parts_def sample_group_def sample_occurrence_def
      new_definition_def split: if_splits)

lemma sample_rooted: "rooted (group_parents (sample_parts n cs)) 1" "rooted (group_parents (sample_parts n cs)) 2"
proof -
  have two: "up_chain (group_parents (sample_parts n cs)) 2 [2]"
    by (rule up_root) (simp add: group_parents_def sample_parts_def sample_group_def)
  moreover have "up_chain (group_parents (sample_parts n cs)) 1 [1, 2]"
    by (rule up_step [OF _ two]) (simp add: group_parents_def sample_parts_def sample_group_def)
  ultimately show "rooted (group_parents (sample_parts n cs)) 1" "rooted (group_parents (sample_parts n cs)) 2"
    by (auto simp: rooted_def)
qed

lemma sample_hierarchy: "n \<noteq> 0 \<Longrightarrow> hierarchy_ok (sample_parts n clearances)"
proof -
  assume n: "n \<noteq> 0"
  have "holds (sample_parts n clearances) = {}"
    by (auto simp: holds_def sample_parts_def new_definition_def)
  then have locals: "locals_ok (sample_parts n clearances)"
    by (simp add: locals_ok_def every_def acyclic_def) (simp add: sample_parts_def)
  have groups: "groups_ok (sample_parts n clearances)"
    using sample_rooted [of n clearances] sample_valid
    by (auto simp: groups_ok_def every_def group_ok_def sample_group_def)
       (auto simp: sample_parts_def sample_group_def split: if_splits)
  show ?thesis
    using locals groups sample_valid n
    by (simp add: hierarchy_ok_def)
       (auto simp: entries_ok_def definitions_ok_def occurrences_ok_def every_def
        definition_ok_def occurrence_ok_def tags_exist_def sample_parts_def sample_occurrence_def new_definition_def
        bt_contains_def split: if_splits)
qed

section \<open>The groups of the assembly\<close>

lemma sample_below: "below (sample_parts n cs) 2 = {1, 2}"
proof -
  have two: "up_chain (group_parents (sample_parts n cs)) 2 [2]"
    by (rule up_root) (simp add: group_parents_def sample_parts_def sample_group_def)
  have one: "up_chain (group_parents (sample_parts n cs)) 1 [1, 2]"
    by (rule up_step [OF _ two]) (simp add: group_parents_def sample_parts_def sample_group_def)
  have "bt_contains (pt_groups (sample_parts n cs)) d \<longleftrightarrow> d = 1 \<or> d = 2" for d
    by (auto simp: sample_parts_def bt_contains_def)
  then show ?thesis
    using group_is_descendant_chain [OF two, of 2] group_is_descendant_chain [OF one, of 2] by (auto simp: below_def)
qed

lemma sample_moves: "moves (sample_parts n cs) 2 i \<longleftrightarrow> i = n"
  using sample_below [of n cs] by (auto simp: moves_def sample_parts_def sample_occurrence_def)

lemma sample_descends: "group_is_descendant (sample_parts n cs) 2 1"
  using sample_below [of n cs] by (auto simp: below_def)

lemma sample_group_2: "bt_get (pt_groups (sample_parts n cs)) 2 = Some (sample_group 2 None)"
  by (simp add: sample_parts_def)

lemma sample_clearance_valid:
  "try_each (validate_clearance no_checks (sample_parts 7 [(1, sample_clearance)])) [(1, sample_clearance)] = Ok ()"
proof -
  let ?p = "sample_parts 7 [(1, sample_clearance)]"
  have "bt_contains (pt_groups ?p) 1" by (simp add: sample_parts_def bt_contains_def)
  from group_chain [OF sample_hierarchy this] obtain xs where "up_chain (group_parents ?p) 1 xs" by auto
  note parent = parent_place [OF this]
  have oc: "bt_get (pt_occurrences ?p) 7 = Some (sample_occurrence 7)" by (simp add: sample_parts_def)
  have "\<exists>r. resolve_instance_path ?p (7, []) = Inr r"
    using parent by (simp add: resolve_instance_path_def oc) (simp add: sample_occurrence_def)
  moreover have "has_positive_volume sample_clearance"
    by (simp add: has_positive_volume_def sample_clearance_def f64_less_def f64_is_nan_def f64_exponent_def
        f64_fraction_def f64_key_def f64_sign_def f64_one_def)
  ultimately show ?thesis by (auto simp: validate_clearance_def sample_clearance_def)
qed

lemma sample_plan:
  "plan_conversion (sample_parts 7 cs) 2 ''Unit'' =
     Ok \<lparr>cp_group = 2, cp_definition = 6, cp_occurrence = 8, cp_name = ''Unit''\<rparr>"
  "plan_conversion (sample_parts 1 cs) 2 ''Unit'' =
     Ok \<lparr>cp_group = 2, cp_definition = 6, cp_occurrence = 2, cp_name = ''Unit''\<rparr>"
  by (simp_all add: plan_conversion_def sample_parts_def next_id_def bt_values_def checked_add_u64_def
      new_definition_def sample_occurrence_def bt_contains_def)

lemma sample_unit: "\<not> trim_is_empty ''Unit''"
  by (simp add: trim_is_empty_def str_chars_def is_whitespace_def)

section \<open>The results at the assembly\<close>




theorem moved_into_cycle_witness:
  "apply_parts_batch no_rest no_batch_rest no_checks same_value [SetGroupParent 2 (Some 1)]
     (sample_parts 7 [(1, sample_clearance)]) = Err Endless"
proof -
  let ?p = "sample_parts 7 [(1, sample_clearance)]"
  have "try_each (validate_clearance no_checks ?p) (pt_clearances ?p) = Ok ()"
    using sample_clearance_valid by (simp add: sample_parts_def)
  note cycle = moved_into_cycle [where share = same_value and rm = no_rest, OF sample_filed sample_hierarchy sample_group_2 sample_descends this no_rest_quiet
      same_value_sound]
  have "hangs_below ?p 2 sample_clearance"
    using sample_below [of 7 "[(1, sample_clearance)]"]
    by (simp add: hangs_below_def sample_clearance_def) (simp add: sample_parts_def sample_occurrence_def)
  moreover have "pt_clearances ?p = [(1, sample_clearance)]" by (simp add: sample_parts_def)
  ultimately show ?thesis using cycle by simp
qed

theorem reached_parts_in_order_witness:
  "\<exists>q. apply_parts_batch no_rest no_batch_rest no_checks same_value
        [CreateGroup 1 ''Group'' transform_identity None] (new_parts 1 ()) = Ok q \<and>
     bt_contains (pt_groups q) 1 \<and> filed q \<and> hierarchy_ok q"
proof -
  let ?q = "(new_parts 1 ()) \<lparr>pt_groups := [(1, sample_group 1 None)]\<rparr>"
  have command: "apply_part_command no_rest (CreateGroup 1 ''Group'' transform_identity None) (new_parts 1 ()) = Inr ?q"
    using sample_valid
    by (simp add: apply_part_command_def create_group_def ensure_product_id_def ensure_name_def validate_transform_def
        new_parts_def sample_group_def bt_contains_def)
  have prune: "prune_grounded_instances ?q = ?q" by (simp add: prune_grounded_instances_def new_parts_def)
  have "up_chain (group_parents ?q) 1 [1]"
    by (rule up_root) (simp add: group_parents_def sample_group_def)
  then have "group_ok ?q 1 (sample_group 1 None)"
    using sample_valid by (auto simp: group_ok_def rooted_def sample_group_def)
  then have groups: "groups_ok ?q" by (simp add: groups_ok_def every_def)
  have filed: "filed ?q" using new_parts_in_order [of 1 "()"]
    by (auto intro!: filed_groups simp: sample_group_def split: if_splits)
  have "holds ?q = holds (new_parts 1 ())" by (simp add: holds_def)
  then have "locals_ok ?q" using new_parts_in_order [of 1 "()"]
    by (simp add: hierarchy_ok_def locals_ok_def every_def) (simp add: new_parts_def)
  with groups have "hierarchy_ok ?q"
    by (simp add: hierarchy_ok_def) (simp add: entries_ok_def definitions_ok_def occurrences_ok_def every_def new_parts_def)
  then have "validate_product_change no_checks (same_value (new_parts 1 ()) ?q) (Some (new_parts 1 ())) ?q = Inr ()"
    using filed by (intro quiet_accepts [OF no_rest_quiet]) (simp_all add: filed_def new_parts_def)
  then have batch: "apply_parts_batch no_rest no_batch_rest no_checks same_value
      [CreateGroup 1 ''Group'' transform_identity None] (new_parts 1 ()) = Ok ?q"
    by (simp add: quiet_batch [OF no_rest_quiet command] is_view_only_def prune Let_def no_rest_after)
  have "parts_run no_rest no_batch_rest no_checks same_value ?q" by (rule run_batch [OF run_start batch])
  from reached_parts_in_order [OF this same_value_sound] batch show ?thesis
    by (auto simp: bt_contains_def intro!: exI [of _ ?q])
qed

text \<open>Making a component of the outer group, with occurrence 7 or with occurrence 1 in it.\<close>

lemma sample_unpinned: "\<not> pinned (sample_parts n []) i"
  by (auto simp: pinned_def sample_parts_def)

lemma sample_clear: "try_each (validate_clearance no_checks (sample_parts n [])) (pt_clearances (sample_parts n [])) = Ok ()"
  by (simp add: sample_parts_def)

lemma sample_clash: "numbers_clash (sample_parts n cs) 2 \<longleftrightarrow> n = 1"
  by (auto simp: numbers_clash_def sample_below sample_moves)

theorem conversion_accepted_iff_witness:
  "is_ok (convert_group_to_component no_rest no_batch_rest no_checks same_value 2 ''Unit'' (sample_parts 7 [])) \<and>
   \<not> is_ok (convert_group_to_component no_rest no_batch_rest no_checks same_value 2 ''Unit'' (sample_parts 1 []))"
proof -
  note iff = conversion_accepted_iff [where share = same_value and rm = no_rest,
      OF sample_filed sample_hierarchy no_rest_quiet no_rest_after same_value_sound sample_clear _ sample_unit]
  from iff [OF _ _ sample_plan(1)] iff [OF _ _ sample_plan(2)] show ?thesis
    by (simp add: sample_clash sample_unpinned)
qed

theorem conversion_keeps_places_witness:
  "\<exists>q mappings. apply_parts_batch no_rest no_batch_rest no_checks same_value
       [ConvertGroupToComponent \<lparr>cp_group = 2, cp_definition = 6, cp_occurrence = 8, cp_name = ''Unit''\<rparr>]
       (sample_parts 7 []) = Ok q \<and>
     (\<exists>m\<in>set mappings. cm_old_id m = WorldOccurrence 7 \<and>
        resolve_instance_path q (mapped_path m 7 []) = resolve_instance_path (sample_parts 7 []) (7, []))"
proof -
  let ?p = "sample_parts 7 []"
  let ?plan = "\<lparr>cp_group = 2, cp_definition = 6, cp_occurrence = 8, cp_name = ''Unit''\<rparr>"
  have "is_ok (apply_parts_batch no_rest no_batch_rest no_checks same_value [ConvertGroupToComponent ?plan] ?p)"
    using conversion_batch [where share = same_value and rm = no_rest,
        OF sample_filed sample_hierarchy no_rest_quiet no_rest_after same_value_sound sample_clear sample_plan(1) sample_unit]
    by (simp add: sample_clash sample_unpinned)
  then obtain q where q: "apply_parts_batch no_rest no_batch_rest no_checks same_value [ConvertGroupToComponent ?plan] ?p = Ok q"
    by (auto simp: is_ok_iff)
  have "bt_contains (pt_occurrences ?p) 7" by (simp add: sample_parts_def bt_contains_def)
  moreover have "filed ?p" "hierarchy_ok ?p" using sample_filed [of "[]" 7] sample_hierarchy [of 7 "[]"] by simp_all
  ultimately show ?thesis
    using conversion_keeps_places [where share = same_value and rm = no_rest, OF _ _ same_value_sound q] q by blast
qed

end
