(* ===== verification/Spec2Isabelle.thy ===== *)
theory Spec2Isabelle
  imports Ketchup_Writers Ketchup_Session Ketchup_Worker Ketchup_Sample
begin

text \<open>
  \<^bold>\<open>A verification library for the document core of Ketchup\<close>

  Ketchup is a CAD modeller written in Rust.  Its core is a document: a graph of evaluator nodes
  (parameters, expressions, rules) beside geometry, kept as a history of immutable revisions.  People,
  assistants and plug-ins change it by batches of commands, directly or as proposals that are verified and, when
  they are risky, approved by a person; the document is saved to a container file, the work since then to a checkpoint with its history, and a revision can be
  released, with the files it depends on, to a repository of immutable releases.  This
  library models that core, component by component, and proves what each promises.

  \<^bold>\<open>The theories\<close>

  \<^item> \<open>Ketchup_Prelude\<close>: errors as values (\<open>and_then\<close>, \<open>guard\<close>, \<open>try_fold\<close>), the ordered maps and sets of Rust
    (\<open>btree_map\<close>, as sorted association lists), with the locale of their laws.
  \<^item> \<open>Ketchup_Rust\<close>, \<open>Ketchup_Float\<close>: bytes, UTF-8 strings, fixed-width integers; the numbers of
    \<^verbatim>\<open>f64\<close> as IEEE 754 bit patterns with exact arithmetic, rounding, parsing and comparison.
  \<^item> \<open>Ketchup_Slot\<close>: \<^verbatim>\<open>ketchup-geometry/src/{slot,dimension,id}.rs\<close>, the names of derived results and
    dimensions.
  \<^item> \<open>Ketchup_Expr\<close>, \<open>Ketchup_Node\<close>, \<open>Ketchup_Graph\<close>, \<open>Ketchup_Eval\<close>: \<^verbatim>\<open>ketchup-model/src/graph.rs\<close>.  Expressions are
    lexed, parsed and evaluated (the parser is sound and complete for its grammar and reads back what is
    printed); nodes and rule outputs are checked against their limits; the topological order is Kahn's
    algorithm and fails exactly on a missing dependency or a cycle; a full evaluation is the one solution of the node
    equations, and evaluating only the dependents of a change gives the same report.
  \<^item> \<open>Ketchup_Commands\<close>, \<open>Ketchup_Store\<close>, \<open>Ketchup_History\<close>: \<^verbatim>\<open>document/store.rs\<close>, \<^verbatim>\<open>document/revision.rs\<close>,
    \<^verbatim>\<open>document/store/commands/evaluation.rs\<close> and the parts of \<^verbatim>\<open>proposal_analysis.rs\<close> they call.  A store is its revisions, a cursor,
    the next revision id, an epoch, the registry of derived results and the approval policy.
    \<open>reachable\<close> is every store a session can come to; its invariant bounds the undo window, keeps ids increasing,
    checkpoint names unique and every stored evaluation sound.  Undo and redo refine a zipper; transactions are
    atomic; previews predict batches; rollback and registration of evaluations are characterised.
  \<^item> \<open>Ketchup_Proposal\<close>, \<open>Ketchup_Approval\<close>: \<^verbatim>\<open>document/proposal.rs\<close> and the commits of \<^verbatim>\<open>store.rs\<close>.  A proposal is
    prepared against a snapshot, verified again when it is committed, and commits exactly what was verified or
    nothing; a high-risk proposal needs an unused, unexpired approval signed for exactly it, and a token
    accepted once is refused ever after.
  \<^item> \<open>Ketchup_Reader\<close>, \<open>Ketchup_Container\<close>, \<open>Ketchup_Archive\<close>, \<open>Ketchup_Reopen\<close>, \<open>Ketchup_Save\<close>:
    \<^verbatim>\<open>ketchup-model/src/persistence.rs\<close> and \<^verbatim>\<open>persistence/history_chunks.rs\<close>.  The byte reader with its budgets is a family of
    codecs (locale \<open>reader_codec\<close>); a saved container opens as what was saved; content-defined chunks partition
    their bytes; a history that was written is read back, and what a reader accepts is well formed;
    a store a session reached and saved is opened as it was saved.
  \<^item> \<open>Ketchup_Recovery\<close>, \<open>Ketchup_Disk\<close>, \<open>Ketchup_Replay\<close>, \<open>Ketchup_Durable\<close>: \<^verbatim>\<open>persistence/work_recovery.rs\<close>,
    \<^verbatim>\<open>persistence/work_recovery_steps.rs\<close>, \<^verbatim>\<open>persistence/pipeline.rs\<close> and the file operations of \<^verbatim>\<open>persistence.rs\<close>.  Between saves a session
    keeps a checkpoint beside its file: the whole document, then a step per edit.  The disk is a map from the files of a document to their
    bytes with a fingerprint, and what the process remembers of them; an argument says how a write goes wrong, another what
    somebody else writes in between.  \<open>held_in\<close> says what history a checkpoint holds; planning, writing and replaying a step
    keep it, so that a checkpoint opens as the file a save would have written, and one cut short as the file before.  A save
    replaces only what it may and keeps an intact replaced file; the budget of a checkpoint costs the oldest revisions first.
  \<^item> \<open>Ketchup_Session\<close>: \<^verbatim>\<open>ketchup-application/src/session.rs\<close> on one file.  A session is a store, the data beside it, and what it knows of
    its file and its checkpoint; an edit (a proposal, a rule program, undo, redo) is a transaction on the store that ends with a write of the
    checkpoint, and a save publishes the document and clears it.  \<open>session_run\<close> is any sequence of edits, checkpoints and saves with any failures;
    its invariant \<open>session_kept\<close> rests on the lemmas of \<open>Ketchup_Durable\<close> and says that work which is not saved is in the checkpoint.
  \<^item> \<open>Ketchup_Pdm\<close>, \<open>Ketchup_Release\<close>, \<open>Ketchup_Lineage\<close>, \<open>Ketchup_Writers\<close>: \<^verbatim>\<open>ketchup-pdm/src/local.rs\<close>.  The
    repository is a map from paths to directories, files and links, and an operation returns its result with the repository it
    leaves, errors included.  The locale \<open>preserved\<close> carries a relation between repositories (nothing changes but
    what is added; the releases are the same; the temporary files are the same) over the composition of operations.  A release
    is written whole or not at all, succeeds when there is room, and opens as what was released; following parents ends,
    and comparing releases decides ancestry; \<open>writer_step\<close> and \<open>system_run\<close> take the writes apart, so
    that any number of writers interleave and stop anywhere, and the sequential operation is one of their runs.
  \<^item> \<open>Ketchup_Frames\<close>, \<open>Ketchup_Worker\<close>: \<^verbatim>\<open>ketchup-scheduler/src/protocol.rs\<close>, the loop of \<^verbatim>\<open>exact_worker.rs\<close> and the calls of
    \<^verbatim>\<open>worker_client.rs\<close>.  A pipe is the list of what its reads give; frames are read back whatever pieces they arrive in, and a worker answers each request once
    and in order.  \<open>client_step\<close> and \<open>worker_step\<close> are the moves of a call and of the worker; the invariant that nothing is under way between calls makes every
    received reply the answer to the call's own request.
  \<^item> \<open>Ketchup_Parts\<close>, \<open>Ketchup_Arrange\<close>, \<open>Ketchup_Hierarchy\<close>, \<open>Ketchup_Assembly\<close>, \<open>Ketchup_Filing\<close>, \<open>Ketchup_Regroup\<close>,
    \<open>Ketchup_Component\<close>, \<open>Ketchup_Accepted\<close>: the parts of a document.  \<^verbatim>\<open>document/entities.rs\<close> gives the data (definitions,
    occurrences, groups and their local copies, tags, classification, collections), \<^verbatim>\<open>store/commands/{occurrences,organization,definitions_and_bodies}.rs\<close>
    and \<^verbatim>\<open>group_conversion.rs\<close> the commands, \<^verbatim>\<open>product_validation.rs\<close> the checks, \<^verbatim>\<open>snapshot.rs\<close> where a part sits and \<^verbatim>\<open>store.rs\<close> the batch.
    \<open>hierarchy_ok\<close> says what the checks are for: groups and local groups are trees, what is named exists, no definition holds
    itself.  The full checks decide it; checking only what changed gives the same result, first error included; every document
    that batches of part commands reach has it.  A conversion of a group to a component leaves each part where it was, and is accepted exactly when
    no numbers clash and nothing names a moved part.  Two moves of a group show the checks themselves fail: one panics, one never returns.
    \<open>Ketchup_Sample\<close> applies these results to a small assembly.

  \<^bold>\<open>How the model corresponds to the code\<close>

  A struct is a record with a two- or three-letter prefix, an enum a datatype with its constructors; a method is a
  definition that takes and returns the state it changes, with the error first in a sum.  A panic
  (\<^verbatim>\<open>expect\<close>, an index out of range, an overflow that is checked) is the value \<open>Panicked\<close> where it could be
  reached.  \<^verbatim>\<open>u64\<close>, \<^verbatim>\<open>u32\<close> and \<^verbatim>\<open>u8\<close> are words; \<^verbatim>\<open>usize\<close> is a natural number below
  \<open>2 ^ 64\<close>.  Strings are their UTF-8 bytes.  Loops are recursive functions with a measure; where the code bounds a loop
  the model has the same bound, and the parser's fuel is the number of tokens, which its lemmas show to be
  enough.

  Arguments stand for what is outside: SHA-256, Ed25519, JSON and the encoding of snapshots.  Theorems name
  what they ask of them (a 32-byte hash that tells the contents in question apart, a decoder that inverts its encoder).
  The record \<open>families\<close> collects what the batch engine calls in the code for features, sketches, occurrences
  and sheets, and the record \<open>analysis\<close> the read and write sets of a batch: the theorems hold for every such
  value.  The process-wide epoch counter is a field of the store; a preview reads it and does not advance it.
  The order of the registry is never observed, so it is an association list.

  For the parts, \<open>pt_rest\<close> stands for the rest of the product; \<open>rest_model\<close>, \<open>rest_checks\<close> and \<open>batch_rest\<close> are what the
  modelled commands, checks and batch call of it, at the places where the code calls it, and \<open>quiet\<close> says that none of it objects.  \<open>sharing\<close> is what
  \<^verbatim>\<open>Arc::ptr_eq\<close> answers; \<open>sharing_sound\<close> asks only that shared entries are equal.  An operation stops by an error, a panic or not at
  all (\<open>parts_stop\<close>); the one loop without a bound, \<open>ascend\<close>, is a partial function whose \<open>None\<close> is not returning.

  \<^bold>\<open>Not modelled\<close>

  The geometry kernel and the command families over it (features, sketches, bodies, mates and joints, drawings, manufacturing; also saved views,
  underlays, annotations, production codes, \<^verbatim>\<open>CloneDefinitionAndRepoint\<close> and \<^verbatim>\<open>ApplySolidTool\<close>)
  compute with floating-point geometry and the OCCT library; the exact worker does its work in OCCT and supervises processes (its protocol is modelled); the
  encodings of \<^verbatim>\<open>document.bin\<close> in all schema versions are serde formats; DXF and STEP import parse foreign formats;
  the rest of the application crate plans edits and evaluates geometry, and the desktop crate is user interface.  A session saves to its own file and
  keeps no results of the exact worker in the model.  Within persistence, migration is not modelled; the
  lock files are abstracted by treating each file operation as one action, up to the hook the code itself has for a writer in between.
\<close>

end
